(* ===== verification/Pcow_Prelude.thy ===== *)
theory Pcow_Prelude
  imports Main "HOL-Library.Word"
begin

text \<open>
  Shared vocabulary of the development: the C integer conversions the pcow sources use, the
  outcomes a C function can have beside returning (a failed assertion, \<open>exit\<close>, a signal), the
  little-endian byte images of machine words, and generic lemmas on them. The collections
  \<open>c_arith\<close> (conversions that are the identity in range), \<open>mem_simps\<close> (reads after writes)
  and \<open>wf_intros\<close> (introduction rules of invariants) are filled by the component theories.
\<close>

named_theorems c_arith
named_theorems mem_simps
named_theorems wf_intros

unbundle bit_operations_syntax

type_synonym u8 = "8 word"
type_synonym u32 = "32 word"
type_synonym u64 = "64 word"

section \<open>C integers\<close>

text \<open>
  An \<open>int\<close> of the sources is a HOL integer kept in range by \<open>cint\<close> (32-bit two's complement),
  an \<open>unsigned long\<close> or \<open>size_t\<close> one kept in range by \<open>ulong\<close> (64 bits, modulo). A
  conversion or a sum that can leave the range is written with the conversion around it.
  \<open>c_div\<close> and \<open>c_mod\<close> round towards zero, as C does.
\<close>

definition ulong :: "int \<Rightarrow> int" where
  "ulong x = x mod 18446744073709551616"

definition cint :: "int \<Rightarrow> int" where
  "cint x = (x + 2147483648) mod 4294967296 - 2147483648"

definition uint32 :: "int \<Rightarrow> int" where
  "uint32 x = x mod 4294967296"

definition c_div :: "int \<Rightarrow> int \<Rightarrow> int" where
  "c_div a b = sgn a * sgn b * (\<bar>a\<bar> div \<bar>b\<bar>)"

definition c_mod :: "int \<Rightarrow> int \<Rightarrow> int" where
  "c_mod a b = a - b * c_div a b"

lemma ulong_id [c_arith]: "0 \<le> x \<Longrightarrow> x < 18446744073709551616 \<Longrightarrow> ulong x = x"
  by (simp add: ulong_def)

lemma ulong_nonneg [simp]: "0 \<le> ulong x"
  by (simp add: ulong_def)

lemma ulong_less [simp]: "ulong x < 18446744073709551616"
  by (simp add: ulong_def)

lemma ulong_ulong [simp]: "ulong (ulong x) = ulong x"
  by (simp add: ulong_def)

lemma cint_id [c_arith]: "- 2147483648 \<le> x \<Longrightarrow> x < 2147483648 \<Longrightarrow> cint x = x"
  by (simp add: cint_def)

lemma cint_bounds: "- 2147483648 \<le> cint x \<and> cint x < 2147483648"
  by (simp add: cint_def)

lemma uint32_id [c_arith]: "0 \<le> x \<Longrightarrow> x < 4294967296 \<Longrightarrow> uint32 x = x"
  by (simp add: uint32_def)

lemma c_div_nonneg [c_arith]: "0 \<le> a \<Longrightarrow> 0 < b \<Longrightarrow> c_div a b = a div b"
  by (cases "a = 0") (simp_all add: c_div_def)

lemma c_mod_nonneg [c_arith]: "0 \<le> a \<Longrightarrow> 0 < b \<Longrightarrow> c_mod a b = a mod b"
  by (simp add: c_mod_def c_div_nonneg minus_mult_div_eq_mod)

section \<open>Outcomes of C functions\<close>

text \<open>
  What ends the process instead of returning: \<open>exit(-1)\<close>, an \<open>assert\<close> that fails, a use of
  \<open>MAP_FAILED\<close> or \<open>NULL\<close>, a mapped page past the end of the file, a division by zero, a use of an
  uninitialised or freed pointer (undefined behaviour in C).
\<close>

datatype pcow_err = Exit_failure | Assert_failed | Sigsegv | Sigbus | Sigfpe | Undefined

type_synonym 'a res = "pcow_err + 'a"

fun res_bind :: "'a res \<Rightarrow> ('a \<Rightarrow> 'b res) \<Rightarrow> 'b res" where
  "res_bind (Inl e) k = Inl e"
| "res_bind (Inr x) k = k x"

definition c_assert :: "bool \<Rightarrow> pcow_err \<Rightarrow> unit res" where
  "c_assert b e = (if b then Inr () else Inl e)"

lemma c_assert_simps [simp]:
  "c_assert True e = Inr ()"
  "c_assert False e = Inl e"
  by (simp_all add: c_assert_def)

lemma res_bind_Inr_iff: "res_bind m k = Inr y \<longleftrightarrow> (\<exists>x. m = Inr x \<and> k x = Inr y)"
  by (cases m) auto

lemma c_assert_Inr_iff [simp]: "c_assert b e = Inr u \<longleftrightarrow> b"
  by (simp add: c_assert_def)

section \<open>Little-endian byte images\<close>

fun word_bytes :: "nat \<Rightarrow> 'a::len word \<Rightarrow> u8 list" where
  "word_bytes 0 w = []"
| "word_bytes (Suc n) w = ucast w # word_bytes n (drop_bit 8 w)"

fun bytes_word :: "u8 list \<Rightarrow> 'a::len word" where
  "bytes_word [] = 0"
| "bytes_word (b # bs) = ucast b OR push_bit 8 (bytes_word bs)"

lemma length_word_bytes [simp]: "length (word_bytes n w) = n"
  by (induction n arbitrary: w) simp_all

lemma bytes_word_step:
  "(ucast (ucast w :: u8) :: 'a::len word) OR push_bit 8 (take_bit n (drop_bit 8 w)) = take_bit (8 + n) w"
  by (rule bit_word_eqI)
    (auto simp: bit_simps not_le not_less algebra_simps)

lemma bytes_word_take: "bytes_word (word_bytes n w) = take_bit (8 * n) (w :: 'a::len word)"
proof (induction n arbitrary: w)
  case 0
  then show ?case by simp
next
  case (Suc n)
  have "bytes_word (word_bytes (Suc n) w) =
      (ucast (ucast w :: u8) :: 'a word) OR push_bit 8 (take_bit (8 * n) (drop_bit 8 w))"
    by (simp add: Suc.IH)
  also have "\<dots> = take_bit (8 + 8 * n) w"
    by (rule bytes_word_step)
  finally show ?case by simp
qed

lemma bytes_word_32 [simp]: "bytes_word (word_bytes 4 (w :: u32)) = w"
  by (simp add: bytes_word_take take_bit_word_eq_self)

lemma bytes_word_64 [simp]: "bytes_word (word_bytes 8 (w :: u64)) = w"
  by (simp add: bytes_word_take take_bit_word_eq_self)

lemma sint_word_of_int_32 [simp]: "sint (word_of_int x :: u32) = cint x"
proof -
  have "sint (word_of_int x :: u32) = signed_take_bit 31 x"
    by (simp add: sint_sbintrunc')
  also have "\<dots> = cint x"
    by (simp add: cint_def signed_take_bit_eq_take_bit_shift take_bit_eq_mod)
  finally show ?thesis .
qed

end
