(* ===== verification/Pm_File.thy ===== *)
theory Pm_File
  imports Pcow_Prelude
begin

text \<open>
  The persistent-memory file behind a pcow image, as \<open>meta.c\<close>, \<open>cow.c\<close> and \<open>manager.c\<close>
  use it: a DAX-mapped file read and written through \<open>mmap\<close>ed pointers and resized by
  \<open>fallocate\<close> and \<open>ftruncate\<close>. A pointer into a shared mapping is the file offset it maps.
  Every store, cache-line flush and fence is also recorded in the file's log in execution order,
  so that statements about persistence ordering can be made.
\<close>

section \<open>Byte memories\<close>

definition poke :: "(int \<Rightarrow> u8) \<Rightarrow> int \<Rightarrow> u8 list \<Rightarrow> int \<Rightarrow> u8" where
  "poke m a bs = (\<lambda>x. if a \<le> x \<and> x < a + int (length bs) then bs ! nat (x - a) else m x)"

definition peek :: "(int \<Rightarrow> u8) \<Rightarrow> int \<Rightarrow> nat \<Rightarrow> u8 list" where
  "peek m a n = map (\<lambda>i. m (a + int i)) [0..<n]"

definition get32 :: "(int \<Rightarrow> u8) \<Rightarrow> int \<Rightarrow> int" where
  "get32 m a = sint (bytes_word (peek m a 4) :: u32)"

definition get64 :: "(int \<Rightarrow> u8) \<Rightarrow> int \<Rightarrow> u64" where
  "get64 m a = bytes_word (peek m a 8)"

definition bytes32 :: "int \<Rightarrow> u8 list" where
  "bytes32 v = word_bytes 4 (word_of_int v :: u32)"

definition bytes64 :: "u64 \<Rightarrow> u8 list" where
  "bytes64 w = word_bytes 8 w"

lemma length_bytes32 [simp]: "length (bytes32 v) = 4"
  by (simp add: bytes32_def)

lemma length_bytes64 [simp]: "length (bytes64 w) = 8"
  by (simp add: bytes64_def)

lemma length_peek [simp]: "length (peek m a n) = n"
  by (simp add: peek_def)

lemma peek_cong: "(\<And>x. a \<le> x \<Longrightarrow> x < a + int n \<Longrightarrow> m x = m' x) \<Longrightarrow> peek m a n = peek m' a n"
  by (simp add: peek_def)

lemma peek_poke_same: "length bs = n \<Longrightarrow> peek (poke m a bs) a n = bs"
  by (rule nth_equalityI) (simp_all add: peek_def poke_def)

lemma peek_poke_disjoint:
  "a + int n \<le> b \<or> b + int (length bs) \<le> a \<Longrightarrow> peek (poke m b bs) a n = peek m a n"
  by (rule peek_cong) (auto simp: poke_def)

lemma get32_cong: "(\<And>x. a \<le> x \<Longrightarrow> x < a + 4 \<Longrightarrow> m x = m' x) \<Longrightarrow> get32 m a = get32 m' a"
  using peek_cong [of a 4 m m'] by (simp add: get32_def)

lemma get64_cong: "(\<And>x. a \<le> x \<Longrightarrow> x < a + 8 \<Longrightarrow> m x = m' x) \<Longrightarrow> get64 m a = get64 m' a"
  using peek_cong [of a 8 m m'] by (simp add: get64_def)

lemma get32_bounds: "- 2147483648 \<le> get32 m a \<and> get32 m a < 2147483648"
  using sint_greater_eq [of "bytes_word (peek m a 4) :: u32"]
    sint_less [of "bytes_word (peek m a 4) :: u32"]
  by (simp add: get32_def)

lemma get32_zero: "(\<And>x. a \<le> x \<Longrightarrow> x < a + 4 \<Longrightarrow> m x = 0) \<Longrightarrow> get32 m a = 0"
  by (simp add: get32_def peek_def numeral_eq_Suc)

section \<open>The file\<close>

datatype pm_op = Pm_store int "u8 list" | Pm_flush int | Pm_fence

record pm_file =
  bytes :: "int \<Rightarrow> u8"
  st_size :: int
  fs_limit :: int
  pm_log :: "pm_op list"

text \<open>
  \<open>fs_limit\<close> is the size up to which the file system can extend the file: \<open>fallocate\<close> past it
  fails as it does on a full device. Bytes past the end of the file read as zero.
\<close>

definition wf_file :: "pm_file \<Rightarrow> bool" where
  "wf_file f \<longleftrightarrow> 0 \<le> st_size f \<and> st_size f \<le> fs_limit f \<and> fs_limit f < 9223372036854775808
     \<and> (\<forall>x. st_size f \<le> x \<longrightarrow> bytes f x = 0)"

definition empty_file :: "int \<Rightarrow> pm_file" where
  "empty_file lim = \<lparr>bytes = (\<lambda>_. 0), st_size = 0, fs_limit = lim, pm_log = []\<rparr>"

definition PAGE_SIZE :: int where
  "PAGE_SIZE = 4096"

text \<open>
  A shared mapping of \<open>len\<close> bytes at offset \<open>off\<close>: \<open>None\<close> is \<open>MAP_FAILED\<close> (an empty or
  negative length, an offset that is not page aligned). A page of the mapping is backed by the
  file when it starts before the end of the file; touching another one raises \<open>SIGBUS\<close>.
\<close>

definition pm_mmap :: "int \<Rightarrow> int \<Rightarrow> int option" where
  "pm_mmap len off = (if 0 < len \<and> off mod PAGE_SIZE = 0 then Some off else None)"

definition backed :: "pm_file \<Rightarrow> int \<Rightarrow> bool" where
  "backed f a \<longleftrightarrow> 0 \<le> a \<and> a div PAGE_SIZE * PAGE_SIZE < st_size f"

definition pm_store :: "int \<Rightarrow> u8 list \<Rightarrow> pm_file \<Rightarrow> pm_file" where
  "pm_store a bs f = f\<lparr>bytes := (\<lambda>x. if x < st_size f then poke (bytes f) a bs x else bytes f x),
                      pm_log := pm_log f @ [Pm_store a bs]\<rparr>"

definition store32 :: "int \<Rightarrow> int \<Rightarrow> pm_file \<Rightarrow> pm_file" where
  "store32 a v f = pm_store a (bytes32 v) f"

definition store64 :: "int \<Rightarrow> u64 \<Rightarrow> pm_file \<Rightarrow> pm_file" where
  "store64 a w f = pm_store a (bytes64 w) f"

definition load32 :: "pm_file \<Rightarrow> int \<Rightarrow> int" where
  "load32 f a = get32 (bytes f) a"

definition load64 :: "pm_file \<Rightarrow> int \<Rightarrow> u64" where
  "load64 f a = get64 (bytes f) a"

definition pm_flush :: "int \<Rightarrow> pm_file \<Rightarrow> pm_file" where
  "pm_flush a f = f\<lparr>pm_log := pm_log f @ [Pm_flush a]\<rparr>"

definition pm_fence :: "pm_file \<Rightarrow> pm_file" where
  "pm_fence f = f\<lparr>pm_log := pm_log f @ [Pm_fence]\<rparr>"

definition fallocate :: "int \<Rightarrow> int \<Rightarrow> pm_file \<Rightarrow> int \<times> pm_file" where
  "fallocate off len f =
     (if off < 0 \<or> len \<le> 0 \<or> fs_limit f < off + len then (-1, f)
      else (0, f\<lparr>st_size := max (st_size f) (off + len)\<rparr>))"

definition ftruncate :: "int \<Rightarrow> pm_file \<Rightarrow> int \<times> pm_file" where
  "ftruncate len f =
     (if len < 0 \<or> fs_limit f < len then (-1, f)
      else (0, f\<lparr>bytes := (\<lambda>x. if x < len then bytes f x else 0), st_size := len\<rparr>))"

subsection \<open>Effects on size, limit and contents\<close>

lemma pm_store_fields [simp]:
  "st_size (pm_store a bs f) = st_size f"
  "fs_limit (pm_store a bs f) = fs_limit f"
  by (simp_all add: pm_store_def)

lemma store32_fields [simp]:
  "st_size (store32 a v f) = st_size f" "fs_limit (store32 a v f) = fs_limit f"
  by (simp_all add: store32_def)

lemma store64_fields [simp]:
  "st_size (store64 a w f) = st_size f" "fs_limit (store64 a w f) = fs_limit f"
  by (simp_all add: store64_def)

lemma pm_flush_fields [simp]:
  "bytes (pm_flush a f) = bytes f" "st_size (pm_flush a f) = st_size f"
  "fs_limit (pm_flush a f) = fs_limit f"
  by (simp_all add: pm_flush_def)

lemma pm_fence_fields [simp]:
  "bytes (pm_fence f) = bytes f" "st_size (pm_fence f) = st_size f"
  "fs_limit (pm_fence f) = fs_limit f"
  by (simp_all add: pm_fence_def)

lemma load_flush_fence [mem_simps]:
  "load32 (pm_flush a f) b = load32 f b" "load64 (pm_flush a f) b = load64 f b"
  "load32 (pm_fence f) b = load32 f b" "load64 (pm_fence f) b = load64 f b"
  by (simp_all add: load32_def load64_def)

lemma backed_frame [simp]:
  "backed (pm_store a bs f) b = backed f b" "backed (store32 a v f) b = backed f b"
  "backed (store64 a w f) b = backed f b"
  "backed (pm_flush a f) b = backed f b" "backed (pm_fence f) b = backed f b"
  by (simp_all add: backed_def)

lemma bytes_pm_store_outside:
  "x < a \<or> a + int (length bs) \<le> x \<Longrightarrow> bytes (pm_store a bs f) x = bytes f x"
  by (auto simp: pm_store_def poke_def)

lemma peek_pm_store_same:
  assumes "a + int (length bs) \<le> st_size f"
  shows "peek (bytes (pm_store a bs f)) a (length bs) = bs"
proof -
  have "peek (bytes (pm_store a bs f)) a (length bs) = peek (poke (bytes f) a bs) a (length bs)"
    by (rule peek_cong) (use assms in \<open>simp add: pm_store_def\<close>)
  then show ?thesis by (simp add: peek_poke_same)
qed

lemma peek_pm_store_disjoint:
  "a + int n \<le> b \<or> b + int (length bs) \<le> a \<Longrightarrow> peek (bytes (pm_store b bs f)) a n = peek (bytes f) a n"
  by (rule peek_cong, rule bytes_pm_store_outside) auto

lemma fallocate_ok:
  "0 \<le> off \<Longrightarrow> 0 < len \<Longrightarrow> off + len \<le> fs_limit f \<Longrightarrow>
   fallocate off len f = (0, f\<lparr>st_size := max (st_size f) (off + len)\<rparr>)"
  by (simp add: fallocate_def)

lemma fallocate_bytes [simp]: "bytes (snd (fallocate off len f)) = bytes f"
  by (simp add: fallocate_def)

subsection \<open>The file invariant\<close>

lemma wf_pm_store [wf_intros]: "wf_file f \<Longrightarrow> wf_file (pm_store a bs f)"
  by (auto simp: wf_file_def pm_store_def)

lemma wf_store32 [wf_intros]: "wf_file f \<Longrightarrow> wf_file (store32 a v f)"
  by (simp add: store32_def wf_pm_store)

lemma wf_store64 [wf_intros]: "wf_file f \<Longrightarrow> wf_file (store64 a w f)"
  by (simp add: store64_def wf_pm_store)

lemma wf_pm_flush [wf_intros]: "wf_file f \<Longrightarrow> wf_file (pm_flush a f)"
  by (simp add: wf_file_def)

lemma wf_pm_fence [wf_intros]: "wf_file f \<Longrightarrow> wf_file (pm_fence f)"
  by (simp add: wf_file_def)

lemma wf_fallocate [wf_intros]: "wf_file f \<Longrightarrow> wf_file (snd (fallocate off len f))"
  by (auto simp: wf_file_def fallocate_def)

lemma wf_ftruncate [wf_intros]: "wf_file f \<Longrightarrow> wf_file (snd (ftruncate len f))"
  by (auto simp: wf_file_def ftruncate_def)

lemma wf_empty_file [wf_intros]:
  "0 \<le> lim \<Longrightarrow> lim < 9223372036854775808 \<Longrightarrow> wf_file (empty_file lim)"
  by (simp add: wf_file_def empty_file_def)

section \<open>Cells and arrays of cells\<close>

text \<open>
  The metadata code reads and writes the file only through fields of fixed width: 32-bit
  integers of the super and meta tops, 64-bit entries of the meta bottoms. The interface states
  what a client relies on; its lemmas are about arrays of such cells, and both widths provide
  it.
\<close>

locale cell_store =
  fixes width :: int
    and rd :: "'m \<Rightarrow> int \<Rightarrow> 'v"
    and wr :: "int \<Rightarrow> 'w \<Rightarrow> 'm \<Rightarrow> 'm"
    and norm :: "'w \<Rightarrow> 'v"
    and size_of :: "'m \<Rightarrow> int"
  assumes width_pos: "0 < width"
    and rd_wr_same: "a + width \<le> size_of m \<Longrightarrow> rd (wr a v m) a = norm v"
    and rd_wr_other: "a + width \<le> b \<or> b + width \<le> a \<Longrightarrow> rd (wr b v m) a = rd m a"
    and size_wr: "size_of (wr a v m) = size_of m"
begin

definition cells :: "'m \<Rightarrow> int \<Rightarrow> nat \<Rightarrow> 'v list" where
  "cells m base n = map (\<lambda>j. rd m (base + width * int j)) [0..<n]"

lemma cells_outside:
  assumes "b + width \<le> base \<or> base + width * int n \<le> b"
  shows "cells (wr b v m) base n = cells m base n"
proof -
  have "rd (wr b v m) (base + width * int j) = rd m (base + width * int j)" if "j < n" for j
  proof (rule rd_wr_other)
    have "width * (int j + 1) \<le> width * int n"
      using that width_pos by (intro mult_left_mono) simp_all
    moreover have "0 \<le> width * int j"
      using width_pos by simp
    ultimately show "base + width * int j + width \<le> b \<or> b + width \<le> base + width * int j"
      using assms by (auto simp: algebra_simps)
  qed
  then show ?thesis by (simp add: cells_def)
qed

lemma cells_snoc:
  assumes "base + width * int n + width \<le> size_of m"
  shows "cells (wr (base + width * int n) v m) base (Suc n) = cells m base n @ [norm v]"
proof -
  have "cells (wr (base + width * int n) v m) base n = cells m base n"
    by (rule cells_outside) simp
  moreover have "rd (wr (base + width * int n) v m) (base + width * int n) = norm v"
    using assms by (rule rd_wr_same)
  ultimately show ?thesis by (simp add: cells_def)
qed

lemma length_cells: "length (cells m base n) = n"
  by (simp add: cells_def)

lemma nth_cells: "j < n \<Longrightarrow> cells m base n ! j = rd m (base + width * int j)"
  by (simp add: cells_def)

end

lemma load32_store32_same:
  "a + 4 \<le> st_size f \<Longrightarrow> load32 (store32 a v f) a = cint v"
  using peek_pm_store_same [of a "bytes32 v" f]
  by (simp add: load32_def store32_def get32_def) (simp add: bytes32_def)

lemma load32_pm_store_other:
  "a + 4 \<le> b \<or> b + int (length bs) \<le> a \<Longrightarrow> load32 (pm_store b bs f) a = load32 f a"
  using peek_pm_store_disjoint [of a 4 b bs f] by (simp add: load32_def get32_def)

lemma load64_pm_store_other:
  "a + 8 \<le> b \<or> b + int (length bs) \<le> a \<Longrightarrow> load64 (pm_store b bs f) a = load64 f a"
  using peek_pm_store_disjoint [of a 8 b bs f] by (simp add: load64_def get64_def)

lemma load64_store64_same:
  "a + 8 \<le> st_size f \<Longrightarrow> load64 (store64 a w f) a = w"
  using peek_pm_store_same [of a "bytes64 w" f]
  by (simp add: load64_def store64_def get64_def) (simp add: bytes64_def)

lemma load32_store32_other:
  "a + 4 \<le> b \<or> b + 4 \<le> a \<Longrightarrow> load32 (store32 b v f) a = load32 f a"
  unfolding store32_def by (rule load32_pm_store_other) simp

lemma load64_store64_other:
  "a + 8 \<le> b \<or> b + 8 \<le> a \<Longrightarrow> load64 (store64 b w f) a = load64 f a"
  unfolding store64_def by (rule load64_pm_store_other) simp

interpretation c32: cell_store 4 load32 store32 cint st_size
  by unfold_locales (simp_all add: load32_store32_same load32_store32_other)

interpretation c64: cell_store 8 load64 store64 "\<lambda>w. w" st_size
  by unfold_locales (simp_all add: load64_store64_same load64_store64_other)

lemma load_store_cross:
  "a + 4 \<le> b \<or> b + 8 \<le> a \<Longrightarrow> load32 (store64 b w f) a = load32 f a"
  "a + 8 \<le> b \<or> b + 4 \<le> a \<Longrightarrow> load64 (store32 b v f) a = load64 f a"
  by (auto simp: store64_def store32_def intro!: load32_pm_store_other load64_pm_store_other)

lemmas load_store_simps [mem_simps] =
  load32_store32_same load64_store64_same load32_store32_other load64_store64_other load_store_cross

end
