(* ===== verification/Host_Vm.thy ===== *)
theory Host_Vm
  imports Pm_File
begin

text \<open>
  The part of the host address space the pcow runtime manipulates: shared file mappings made
  with \<open>mmap\<close>, moved with \<open>mremap\<close>, write-protected with \<open>mprotect\<close> and dropped with
  \<open>munmap\<close>. The map goes from page numbers to the page of a file they show; a page that is not
  mapped is one whose access raises a fault. A file descriptor is identified with the name of the
  file it was opened on.
\<close>

type_synonym cstr = "u8 list"

record vpage =
  vp_fd :: cstr
  vp_off :: int
  vp_write :: bool

type_synonym vmap = "int \<Rightarrow> vpage option"

definition page_of :: "int \<Rightarrow> int" where
  "page_of a = a div PAGE_SIZE"

definition in_pages :: "int \<Rightarrow> int \<Rightarrow> int \<Rightarrow> bool" where
  "in_pages a len p \<longleftrightarrow> page_of a \<le> p \<and> p < page_of (a + len + PAGE_SIZE - 1)"

text \<open>
  \<open>mmap\<close> with \<open>MAP_FIXED\<close>: the pages of the range are replaced. A call with a bad length or
  alignment returns \<open>MAP_FAILED\<close> and changes nothing.
\<close>

definition mmap_fixed :: "int \<Rightarrow> int \<Rightarrow> bool \<Rightarrow> cstr \<Rightarrow> int \<Rightarrow> vmap \<Rightarrow> vmap" where
  "mmap_fixed a len wr fd off vm =
     (if 0 < len \<and> a mod PAGE_SIZE = 0 \<and> off mod PAGE_SIZE = 0
      then (\<lambda>p. if in_pages a len p
                then Some \<lparr>vp_fd = fd, vp_off = off + PAGE_SIZE * (p - page_of a), vp_write = wr\<rparr>
                else vm p)
      else vm)"

definition mprotect_read :: "int \<Rightarrow> int \<Rightarrow> vmap \<Rightarrow> vmap" where
  "mprotect_read a len vm =
     (\<lambda>p. if in_pages a len p then map_option (\<lambda>v. v\<lparr>vp_write := False\<rparr>) (vm p) else vm p)"

definition munmap :: "int \<Rightarrow> int \<Rightarrow> vmap \<Rightarrow> vmap" where
  "munmap a len vm = (\<lambda>p. if in_pages a len p then None else vm p)"

text \<open>
  \<open>mremap\<close> with \<open>MREMAP_FIXED|MREMAP_MAYMOVE\<close>, old and new size equal: the pages move, the old
  range is unmapped. \<open>None\<close> is \<open>MAP_FAILED\<close> (the old range is not mapped, or an address is not
  aligned).
\<close>

definition mremap_fixed :: "int \<Rightarrow> int \<Rightarrow> int \<Rightarrow> vmap \<Rightarrow> vmap option" where
  "mremap_fixed old len new vm =
     (if 0 < len \<and> old mod PAGE_SIZE = 0 \<and> new mod PAGE_SIZE = 0
         \<and> list_all (\<lambda>i. vm (page_of old + int i) \<noteq> None) [0..<nat (len div PAGE_SIZE)]
      then Some (\<lambda>p. if in_pages new len p then vm (page_of old + (p - page_of new))
                     else if in_pages old len p then None else vm p)
      else None)"

lemma in_pages_aligned:
  "a mod PAGE_SIZE = 0 \<Longrightarrow> len mod PAGE_SIZE = 0 \<Longrightarrow>
   in_pages a len p \<longleftrightarrow> page_of a \<le> p \<and> p < page_of a + len div PAGE_SIZE"
proof -
  assume "a mod PAGE_SIZE = 0" "len mod PAGE_SIZE = 0"
  then obtain k m where "a = PAGE_SIZE * k" "len = PAGE_SIZE * m"
    by (metis dvd_def mod_eq_0_iff_dvd)
  then show ?thesis
    by (auto simp: in_pages_def page_of_def PAGE_SIZE_def)
qed

lemma mmap_fixed_outside: "\<not> in_pages a len p \<Longrightarrow> mmap_fixed a len wr fd off vm p = vm p"
  by (simp add: mmap_fixed_def)

lemma mmap_fixed_inside:
  "0 < len \<Longrightarrow> a mod PAGE_SIZE = 0 \<Longrightarrow> off mod PAGE_SIZE = 0 \<Longrightarrow> in_pages a len p \<Longrightarrow>
   mmap_fixed a len wr fd off vm p =
     Some \<lparr>vp_fd = fd, vp_off = off + PAGE_SIZE * (p - page_of a), vp_write = wr\<rparr>"
  by (simp add: mmap_fixed_def)

lemma mprotect_read_outside: "\<not> in_pages a len p \<Longrightarrow> mprotect_read a len vm p = vm p"
  by (simp add: mprotect_read_def)

section \<open>Memory accesses through mappings\<close>

text \<open>
  A byte of the address space is the byte of the file its page shows. \<open>copy_page\<close> is the part of
  a page-aligned \<open>memcpy\<close> that falls in one page; \<open>copy_pages\<close> runs over the pages in order.
\<close>

definition vm_byte :: "(cstr \<Rightarrow> pm_file) \<Rightarrow> vmap \<Rightarrow> int \<Rightarrow> u8 option" where
  "vm_byte files vm a =
     map_option (\<lambda>v. bytes (files (vp_fd v)) (vp_off v + a mod PAGE_SIZE)) (vm (page_of a))"

definition copy_page :: "vmap \<Rightarrow> int \<Rightarrow> int \<Rightarrow> (cstr \<Rightarrow> pm_file) \<Rightarrow> (cstr \<Rightarrow> pm_file) res" where
  "copy_page vm dp sp files =
     (case (vm dp, vm sp) of
        (Some d, Some s) \<Rightarrow>
          if \<not> vp_write d then Inl Sigsegv
          else if \<not> backed (files (vp_fd d)) (vp_off d) \<or> \<not> backed (files (vp_fd s)) (vp_off s)
          then Inl Sigbus
          else Inr (files(vp_fd d :=
                 pm_store (vp_off d) (peek (bytes (files (vp_fd s))) (vp_off s) (nat PAGE_SIZE))
                   (files (vp_fd d))))
      | _ \<Rightarrow> Inl Sigsegv)"

fun copy_pages :: "vmap \<Rightarrow> int \<Rightarrow> int \<Rightarrow> nat \<Rightarrow> (cstr \<Rightarrow> pm_file) \<Rightarrow> (cstr \<Rightarrow> pm_file) res" where
  "copy_pages vm dp sp 0 files = Inr files"
| "copy_pages vm dp sp (Suc n) files =
     res_bind (copy_page vm dp sp files) (copy_pages vm (dp + 1) (sp + 1) n)"

end
