(* ===== verification/Meta_Block.thy ===== *)
theory Meta_Block
  imports Host_Vm
begin

text \<open>
  The on-disk format and its readers (\<open>meta.h\<close>, \<open>meta.c\<close>): the super block and meta block
  layouts, \<open>struct Super\<close> and \<open>struct Meta\<close>, \<open>read_meta\<close>, \<open>read_first_super\<close>,
  \<open>read_next_super\<close>, \<open>read_last_super\<close> and \<open>new_super\<close>.
  A pointer to a structure on the file is its offset. Fields that the C code leaves uninitialised
  (\<open>addr\<close>, \<open>fmmap_length\<close>, \<open>alloc_off\<close> until \<open>fmmap\<close> sets them) are 0.
\<close>

section \<open>Layout\<close>

definition CL_SIZE :: int where "CL_SIZE = 64"

definition ENTRY_SIZE :: int where "ENTRY_SIZE = 8"

definition ADDR_MASK :: u64 where "ADDR_MASK = 4294967295"

definition DEFAULT_BLOCK_SIZE :: int where "DEFAULT_BLOCK_SIZE = 64"

definition DEFAULT_MAX_FILE_SIZE :: int where "DEFAULT_MAX_FILE_SIZE = 30"

text \<open>The characters N, B, J, L.\<close>

definition MAGIC :: "u8 list" where "MAGIC = [78, 66, 74, 76]"

text \<open>Fields of \<open>struct Super_layout\<close> at file offset \<open>p\<close>.\<close>

definition sl_block_size :: "pm_file \<Rightarrow> int \<Rightarrow> int" where
  "sl_block_size f p = load32 f p"

definition sl_max_block_num :: "pm_file \<Rightarrow> int \<Rightarrow> int" where
  "sl_max_block_num f p = load32 f (p + 4)"

definition sl_active_meta_num :: "pm_file \<Rightarrow> int \<Rightarrow> int" where
  "sl_active_meta_num f p = load32 f (p + 8)"

definition sl_magic :: "pm_file \<Rightarrow> int \<Rightarrow> u8 list" where
  "sl_magic f p = peek (bytes f) (p + 12) 4"

definition sl_base_image_name :: "pm_file \<Rightarrow> int \<Rightarrow> u8 list" where
  "sl_base_image_name f p = peek (bytes f) (p + 16) 48"

text \<open>Fields of \<open>struct Meta_layout_top\<close> at file offset \<open>p\<close>.\<close>

definition mt_counter :: "pm_file \<Rightarrow> int \<Rightarrow> int" where
  "mt_counter f p = load32 f p"

definition mt_fg_counter :: "pm_file \<Rightarrow> int \<Rightarrow> int" where
  "mt_fg_counter f p = load32 f (p + 4)"

record Meta =
  pm_top :: int
  pm_btm :: int
  counter :: int

definition pm_btm_addr :: "Meta \<Rightarrow> int \<Rightarrow> int" where
  "pm_btm_addr m j = pm_btm m + ENTRY_SIZE * j"

record Super =
  pm_super :: int
  active_meta :: Meta
  addr :: int
  fd :: cstr
  block_size :: int
  max_block_num :: int
  active_meta_num :: int
  max_per_seg :: int
  my_off :: int
  active_meta_off :: int
  fmmap_length :: int
  alloc_off :: int

section \<open>Readers\<close>

definition read_meta :: "pm_file \<Rightarrow> Super \<Rightarrow> int \<Rightarrow> Meta res" where
  "read_meta f s n =
     (let meta_off = (if n = -1 then active_meta_off s
                      else ulong (my_off s + block_size s
                                  + n * cint (max_per_seg s + 1) * block_size s))
      in case pm_mmap (block_size s) meta_off of
           None \<Rightarrow> Inl Sigsegv
         | Some p \<Rightarrow>
             if \<not> backed f p then Inl Sigbus
             else if mt_counter f p > max_per_seg s then Inl Exit_failure
             else Inr \<lparr>pm_top = p, pm_btm = p + CL_SIZE, counter = mt_counter f p\<rparr>)"

definition null_meta :: Meta where
  "null_meta = \<lparr>pm_top = 0, pm_btm = 0, counter = 0\<rparr>"

text \<open>
  \<open>read_first_super\<close> with \<open>create_flag\<close> 0, the way every caller in the repository calls it; the
  creating variant is \<open>read_first_super_create\<close> below.
\<close>

definition read_first_super :: "pm_file \<Rightarrow> cstr \<Rightarrow> int \<Rightarrow> Super option res" where
  "read_first_super f fdn read_off =
     (if st_size f < CL_SIZE then Inr None
      else case pm_mmap CL_SIZE read_off of
        None \<Rightarrow> Inl Sigsegv
      | Some p \<Rightarrow>
          if \<not> backed f p then Inl Sigbus
          else if sl_magic f p \<noteq> MAGIC then Inr None
          else
            let bs = sl_block_size f p;
                mps = c_div (cint (bs - CL_SIZE)) ENTRY_SIZE;
                amn = sl_active_meta_num f p;
                s = \<lparr>pm_super = p, active_meta = null_meta, addr = 0, fd = fdn,
                     block_size = bs, max_block_num = sl_max_block_num f p,
                     active_meta_num = amn, max_per_seg = mps, my_off = read_off,
                     active_meta_off = ulong (read_off + bs * (1 + amn * (1 + mps))),
                     fmmap_length = 0, alloc_off = 0\<rparr>
            in res_bind (read_meta f s (-1)) (\<lambda>m. Inr (Some (s\<lparr>active_meta := m\<rparr>))))"

text \<open>The offset just after the last block of a super's segment chain.\<close>

definition super_end :: "pm_file \<Rightarrow> Super \<Rightarrow> int" where
  "super_end f s = ulong (active_meta_off s + block_size s * (1 + mt_counter f (pm_top (active_meta s))))"

definition read_next_super :: "pm_file \<Rightarrow> Super \<Rightarrow> Super option res" where
  "read_next_super f s =
     (if \<not> backed f (pm_top (active_meta s)) then Inl Sigbus
      else
        let read_off = super_end f s
        in if st_size f \<le> read_off then Inr None
           else case pm_mmap CL_SIZE read_off of
             None \<Rightarrow> Inl Assert_failed
           | Some p \<Rightarrow>
               if sl_magic f p \<noteq> MAGIC then Inr None
               else if \<not> backed f (pm_super s) then Inl Sigbus
               else
                 let bs = sl_block_size f (pm_super s);
                     mps = c_div (cint (block_size s - CL_SIZE)) ENTRY_SIZE;
                     amn = sl_active_meta_num f p;
                     t = \<lparr>pm_super = p, active_meta = null_meta, addr = 0, fd = fd s,
                          block_size = bs, max_block_num = sl_max_block_num f (pm_super s),
                          active_meta_num = amn, max_per_seg = mps, my_off = read_off,
                          active_meta_off = ulong (read_off + bs * (1 + amn * (1 + mps))),
                          fmmap_length = 0, alloc_off = 0\<rparr>
                 in res_bind (read_meta f t (-1)) (\<lambda>m. Inr (Some (t\<lparr>active_meta := m\<rparr>))))"

text \<open>
  The loop of \<open>read_last_super\<close> need not end on a corrupted image (a counter of \<open>-2\<close> makes a
  super its own successor), so not returning is \<open>None\<close>.
\<close>

partial_function (option) read_last_from :: "pm_file \<Rightarrow> Super \<Rightarrow> Super res option" where
  "read_last_from f s =
     (case read_next_super f s of
        Inl e \<Rightarrow> Some (Inl e)
      | Inr None \<Rightarrow> Some (Inr s)
      | Inr (Some t) \<Rightarrow> read_last_from f t)"

definition read_last_super :: "pm_file \<Rightarrow> cstr \<Rightarrow> Super option res option" where
  "read_last_super f fdn =
     (case read_first_super f fdn 0 of
        Inl e \<Rightarrow> Some (Inl e)
      | Inr None \<Rightarrow> Some (Inr None)
      | Inr (Some s) \<Rightarrow>
          map_option (\<lambda>r. res_bind r (\<lambda>t. Inr (Some t))) (read_last_from f s))"

section \<open>Writers\<close>

definition write_super :: "int \<Rightarrow> int \<Rightarrow> int \<Rightarrow> pm_file \<Rightarrow> pm_file" where
  "write_super p bs mb f =
     (let f1 = store32 p bs f;
          f2 = store32 (p + 4) mb f1;
          f3 = store32 (p + 8) 0 f2;
          f4 = pm_store (p + 12) MAGIC f3
      in pm_fence (pm_flush p f4))"

definition write_meta_top :: "int \<Rightarrow> pm_file \<Rightarrow> pm_file" where
  "write_meta_top p f = store32 (p + 4) 0 (store32 p 0 f)"

text \<open>
  The part of \<open>new_super\<close> after the end of the existing chain is known: allocate two blocks,
  write the super and its first meta, read the super back.
\<close>

definition new_super_at :: "pm_file \<Rightarrow> cstr \<Rightarrow> int \<Rightarrow> int \<Rightarrow> int \<Rightarrow> (pm_file \<times> Super option) res" where
  "new_super_at f fdn bs mb off =
     (let (ret, f1) = fallocate off (cint (bs * 2)) f
      in if ret \<noteq> 0 then Inl Assert_failed
         else case pm_mmap CL_SIZE off of
           None \<Rightarrow> Inl Sigsegv
         | Some p \<Rightarrow>
             if \<not> backed f1 p then Inl Sigbus
             else
               let f2 = write_super p bs mb f1
               in case pm_mmap CL_SIZE (ulong (off + bs)) of
                    None \<Rightarrow> Inl Sigsegv
                  | Some q \<Rightarrow>
                      if \<not> backed f2 q then Inl Sigbus
                      else
                        let f3 = pm_fence (pm_flush q (write_meta_top q f2))
                        in res_bind (read_first_super f3 fdn off) (\<lambda>s. Inr (f3, s)))"

definition new_super :: "pm_file \<Rightarrow> cstr \<Rightarrow> int \<Rightarrow> int \<Rightarrow> (pm_file \<times> Super option) res option" where
  "new_super f fdn bs mb =
     map_option (\<lambda>r. res_bind r (\<lambda>s0.
        new_super_at f fdn bs mb (case s0 of None \<Rightarrow> 0 | Some s \<Rightarrow> super_end f s)))
      (read_last_super f fdn)"

text \<open>\<open>read_first_super\<close> with \<open>create_flag\<close> set: an unformatted file is formatted.\<close>

definition read_first_super_create :: "pm_file \<Rightarrow> cstr \<Rightarrow> int \<Rightarrow> (pm_file \<times> Super option) res option" where
  "read_first_super_create f fdn read_off =
     (case read_first_super f fdn read_off of
        Inl e \<Rightarrow> Some (Inl e)
      | Inr (Some s) \<Rightarrow> Some (Inr (f, Some s))
      | Inr None \<Rightarrow>
          new_super (snd (ftruncate 0 f)) fdn (cint (DEFAULT_BLOCK_SIZE * 1024))
            (cint (c_div (DEFAULT_MAX_FILE_SIZE * 1024 * 1024) DEFAULT_BLOCK_SIZE)))"

end
