(* ===== verification/Image_Spec.thy ===== *)
theory Image_Spec
  imports Meta_Block
begin

text \<open>
  What a formatted image file means. An image is a non-empty list of layers, oldest first; the
  last layer is the writable one, the ones before it are the read-only snapshots. A layer is the
  list of its entries in allocation order (the low 32 bits of an entry are the virtual block
  number, the high 32 bits the copy-on-write bitmap). \<open>layer_at\<close> says how a layer is laid out in
  the file and \<open>image_rel\<close> that a file holds an image; the lemmas show that the readers of
  \<open>meta.c\<close> return exactly the supers of that image (\<open>super_of\<close>) and that \<open>new_super\<close> appends an
  empty layer.
\<close>

section \<open>Geometry\<close>

definition wf_bs :: "int \<Rightarrow> bool" where
  "wf_bs bs \<longleftrightarrow> 4096 \<le> bs \<and> bs < 1073741824 \<and> bs mod 4096 = 0"

definition mps_of :: "int \<Rightarrow> int" where
  "mps_of bs = (bs - 64) div 8"

text \<open>Index of the active meta block, and entries in it, of a layer with \<open>n\<close> entries.\<close>

definition seg_of :: "int \<Rightarrow> int \<Rightarrow> int" where
  "seg_of m n = (if n = 0 then 0 else (n - 1) div m)"

definition act_of :: "int \<Rightarrow> int \<Rightarrow> int" where
  "act_of m n = n - seg_of m n * m"

definition meta_at :: "int \<Rightarrow> int \<Rightarrow> int \<Rightarrow> int" where
  "meta_at off bs i = off + bs * (1 + i * (1 + mps_of bs))"

definition entry_at :: "int \<Rightarrow> int \<Rightarrow> int \<Rightarrow> int" where
  "entry_at off bs k = meta_at off bs (k div mps_of bs) + 64 + 8 * (k mod mps_of bs)"

definition data_at :: "int \<Rightarrow> int \<Rightarrow> int \<Rightarrow> int" where
  "data_at off bs k = off + bs * (2 + (1 + mps_of bs) * (k div mps_of bs) + k mod mps_of bs)"

definition layer_end :: "int \<Rightarrow> int \<Rightarrow> int \<Rightarrow> int" where
  "layer_end off bs n = off + bs * (2 + seg_of (mps_of bs) n + n)"

lemma wf_bsD:
  "wf_bs bs \<Longrightarrow> 4096 \<le> bs" "wf_bs bs \<Longrightarrow> bs < 1073741824" "wf_bs bs \<Longrightarrow> 4096 dvd bs"
  by (auto simp: wf_bs_def)

lemma mps_ge: "wf_bs bs \<Longrightarrow> 504 \<le> mps_of bs"
  by (auto simp: wf_bs_def mps_of_def)

lemma mps_bs: "wf_bs bs \<Longrightarrow> 64 + 8 * mps_of bs = bs"
proof -
  assume "wf_bs bs"
  then obtain k where "bs = 4096 * k" using wf_bsD(3) by (auto elim: dvdE)
  then show ?thesis by (simp add: mps_of_def)
qed

lemma seg_of_nonneg: "0 \<le> n \<Longrightarrow> 0 < m \<Longrightarrow> 0 \<le> seg_of m n"
  by (auto simp: seg_of_def pos_imp_zdiv_nonneg_iff)

lemma act_of_bounds:
  assumes "0 \<le> n" "0 < m"
  shows "0 \<le> act_of m n" "act_of m n \<le> m" "0 < n \<Longrightarrow> 1 \<le> act_of m n"
proof -
  have *: "1 \<le> act_of m n \<and> act_of m n \<le> m" if "n \<noteq> 0"
  proof -
    have "act_of m n = (n - 1) mod m + 1"
      using that by (simp add: act_of_def seg_of_def minus_mult_div_eq_mod [symmetric] mult.commute)
    then show ?thesis
      using pos_mod_sign [OF assms(2), of "n - 1"] pos_mod_bound [OF assms(2), of "n - 1"] by simp
  qed
  show "0 \<le> act_of m n" "act_of m n \<le> m" "0 < n \<Longrightarrow> 1 \<le> act_of m n"
    using * assms by (cases "n = 0"; simp add: act_of_def seg_of_def)+
qed

lemma seg_act: "seg_of m n * m + act_of m n = n"
  by (simp add: act_of_def)

lemma layer_end_act:
  "layer_end off bs n = meta_at off bs (seg_of (mps_of bs) n) + bs * (1 + act_of (mps_of bs) n)"
  by (simp add: layer_end_def meta_at_def act_of_def algebra_simps)

lemma layer_end_ge:
  assumes "wf_bs bs" "0 \<le> n"
  shows "off + 2 * bs \<le> layer_end off bs n" "meta_at off bs (seg_of (mps_of bs) n) + bs \<le> layer_end off bs n"
proof -
  have m: "0 < mps_of bs" using mps_ge [OF assms(1)] by simp
  have b: "0 \<le> bs" using assms(1) by (simp add: wf_bs_def)
  have "bs * 2 \<le> bs * (2 + seg_of (mps_of bs) n + n)"
    using b seg_of_nonneg [OF assms(2) m] assms(2) by (intro mult_left_mono) simp_all
  then show "off + 2 * bs \<le> layer_end off bs n" by (simp add: layer_end_def)
  have "bs * 1 \<le> bs * (1 + act_of (mps_of bs) n)"
    using b act_of_bounds(1) [OF assms(2) m] by (intro mult_left_mono) simp_all
  then show "meta_at off bs (seg_of (mps_of bs) n) + bs \<le> layer_end off bs n"
    by (simp add: layer_end_act)
qed

lemma meta_at_mono:
  assumes "wf_bs bs" "i \<le> j"
  shows "meta_at off bs i \<le> meta_at off bs j"
proof -
  have "i * (1 + mps_of bs) \<le> j * (1 + mps_of bs)"
    using assms(2) mps_ge [OF assms(1)] by (intro mult_right_mono) simp_all
  then show ?thesis
    using assms(1) by (simp add: meta_at_def wf_bs_def)
qed

lemma meta_at_aligned: "wf_bs bs \<Longrightarrow> off mod 4096 = 0 \<Longrightarrow> meta_at off bs i mod 4096 = 0"
  by (auto simp: meta_at_def dvd_eq_mod_eq_0 [symmetric] wf_bsD(3))

lemma layer_end_aligned: "wf_bs bs \<Longrightarrow> off mod 4096 = 0 \<Longrightarrow> layer_end off bs n mod 4096 = 0"
  by (auto simp: layer_end_def dvd_eq_mod_eq_0 [symmetric] wf_bsD(3))

section \<open>Layers and images\<close>

definition layer_at :: "pm_file \<Rightarrow> int \<Rightarrow> int \<Rightarrow> int \<Rightarrow> u64 list \<Rightarrow> bool" where
  "layer_at f off bs mb es \<longleftrightarrow>
     sl_magic f off = MAGIC \<and> sl_block_size f off = bs \<and> sl_max_block_num f off = mb
     \<and> int (length es) \<le> mb
     \<and> sl_active_meta_num f off = seg_of (mps_of bs) (int (length es))
     \<and> (\<forall>i\<in>{0..seg_of (mps_of bs) (int (length es))}.
          mt_counter f (meta_at off bs i) =
            (if i < seg_of (mps_of bs) (int (length es)) then mps_of bs
             else act_of (mps_of bs) (int (length es))))
     \<and> (\<forall>k\<in>{0..<length es}. load64 f (entry_at off bs (int k)) = es ! k)"

text \<open>No super block is found at \<open>off\<close>.\<close>

definition no_super :: "pm_file \<Rightarrow> int \<Rightarrow> bool" where
  "no_super f off \<longleftrightarrow> st_size f \<le> off \<or> sl_magic f off \<noteq> MAGIC"

fun image_at :: "pm_file \<Rightarrow> int \<Rightarrow> int \<Rightarrow> int \<Rightarrow> u64 list list \<Rightarrow> bool" where
  "image_at f off bs mb [] \<longleftrightarrow> no_super f off"
| "image_at f off bs mb (es # ls) \<longleftrightarrow>
     layer_at f off bs mb es \<and> layer_end off bs (int (length es)) \<le> st_size f
     \<and> image_at f (layer_end off bs (int (length es))) bs mb ls"

fun image_end :: "int \<Rightarrow> int \<Rightarrow> u64 list list \<Rightarrow> int" where
  "image_end off bs [] = off"
| "image_end off bs (es # ls) = image_end (layer_end off bs (int (length es))) bs ls"

text \<open>
  The bytes after the last layer are zero: blocks allocated ahead are not written yet. The block
  limit is below \<open>INT_MAX\<close>, so that the counts the code computes in \<open>int\<close> do not overflow.
\<close>

definition image_rel :: "pm_file \<Rightarrow> int \<Rightarrow> int \<Rightarrow> u64 list list \<Rightarrow> bool" where
  "image_rel f bs mb ls \<longleftrightarrow>
     wf_file f \<and> wf_bs bs \<and> 0 \<le> mb \<and> mb < 2147483647 \<and> ls \<noteq> [] \<and> image_at f 0 bs mb ls
     \<and> (\<forall>x. image_end 0 bs ls \<le> x \<longrightarrow> bytes f x = 0)"

text \<open>The active meta block of a layer of \<open>n\<close> entries at \<open>off\<close>, as \<open>meta.c\<close> holds it.\<close>

definition active_of :: "int \<Rightarrow> int \<Rightarrow> int \<Rightarrow> Meta" where
  "active_of off bs n =
     (let top_off = meta_at off bs (seg_of (mps_of bs) n)
      in \<lparr>pm_top = top_off, pm_btm = top_off + CL_SIZE, counter = act_of (mps_of bs) n\<rparr>)"

text \<open>The structure \<open>meta.c\<close> builds for a layer of \<open>n\<close> entries at \<open>off\<close>.\<close>

definition super_of :: "cstr \<Rightarrow> int \<Rightarrow> int \<Rightarrow> int \<Rightarrow> int \<Rightarrow> Super" where
  "super_of fdn off bs mb n =
     (let m = mps_of bs
      in \<lparr>pm_super = off, active_meta = active_of off bs n,
          addr = 0, fd = fdn, block_size = bs, max_block_num = mb, active_meta_num = seg_of m n,
          max_per_seg = m, my_off = off, active_meta_off = meta_at off bs (seg_of m n), fmmap_length = 0, alloc_off = 0\<rparr>)"

lemma layer_atD:
  assumes "layer_at f off bs mb es"
  shows "sl_magic f off = MAGIC" "sl_block_size f off = bs" "sl_max_block_num f off = mb"
    "sl_active_meta_num f off = seg_of (mps_of bs) (int (length es))"
    "\<And>i. 0 \<le> i \<Longrightarrow> i < seg_of (mps_of bs) (int (length es)) \<Longrightarrow>
       mt_counter f (meta_at off bs i) = mps_of bs"
    "\<And>k. k < length es \<Longrightarrow> load64 f (entry_at off bs (int k)) = es ! k"
    "int (length es) \<le> mb"
  using assms by (auto simp: layer_at_def)

lemma layer_at_active:
  assumes "layer_at f off bs mb es" "wf_bs bs"
  shows "mt_counter f (meta_at off bs (seg_of (mps_of bs) (int (length es)))) = act_of (mps_of bs) (int (length es))"
proof -
  have "0 \<le> seg_of (mps_of bs) (int (length es))"
    using mps_ge [OF assms(2)] by (intro seg_of_nonneg) simp_all
  then show ?thesis
    using assms(1) unfolding layer_at_def by force
qed

lemma mps_c_div: "wf_bs bs \<Longrightarrow> c_div (cint (bs - CL_SIZE)) ENTRY_SIZE = mps_of bs"
  by (simp add: wf_bs_def CL_SIZE_def ENTRY_SIZE_def c_arith mps_of_def)

lemma backed_less: "0 \<le> a \<Longrightarrow> a < st_size f \<Longrightarrow> backed f a"
  using div_mult_mod_eq [of a 4096] pos_mod_sign [of 4096 a]
  by (simp add: backed_def PAGE_SIZE_def)

section \<open>The readers return the supers of the image\<close>

lemma read_active_meta:
  assumes l: "layer_at f off bs mb es" and b: "wf_bs bs" and off: "0 \<le> off" "off mod 4096 = 0"
    and e: "layer_end off bs (int (length es)) \<le> st_size f"
    and s: "block_size s = bs" "max_per_seg s = mps_of bs"
      "active_meta_off s = meta_at off bs (seg_of (mps_of bs) (int (length es)))"
  shows "read_meta f s (-1) = Inr (active_meta (super_of fdn off bs mb (int (length es))))"
proof -
  let ?seg = "seg_of (mps_of bs) (int (length es))" and ?act = "act_of (mps_of bs) (int (length es))"
  have m: "0 < mps_of bs" using mps_ge [OF b] by simp
  have "off \<le> meta_at off bs 0" using b by (simp add: meta_at_def wf_bs_def)
  also have "\<dots> \<le> meta_at off bs ?seg"
    using b m by (intro meta_at_mono seg_of_nonneg) simp_all
  finally have "0 \<le> meta_at off bs ?seg" using off by simp
  moreover have "meta_at off bs ?seg < st_size f"
    using layer_end_ge(2) [OF b, of "int (length es)" off] e wf_bsD(1) [OF b] by simp
  ultimately have "backed f (meta_at off bs ?seg)" by (rule backed_less)
  moreover have "?act \<le> mps_of bs" using m by (intro act_of_bounds) simp_all
  ultimately show ?thesis
    using wf_bsD(1) [OF b] meta_at_aligned [OF b off(2)] layer_at_active [OF l b]
    by (simp add: read_meta_def s pm_mmap_def PAGE_SIZE_def super_of_def active_of_def Let_def)
qed

lemma active_off_exact:
  assumes "wf_bs bs" "0 \<le> n" "0 \<le> off" "layer_end off bs n \<le> size_f" "size_f < 9223372036854775808"
  shows "ulong (off + bs * (1 + seg_of (mps_of bs) n * (1 + mps_of bs))) = meta_at off bs (seg_of (mps_of bs) n)"
proof -
  have "0 < mps_of bs" using mps_ge [OF assms(1)] by simp
  then have "0 \<le> seg_of (mps_of bs) n" using assms(2) by (intro seg_of_nonneg) simp_all
  then have "meta_at off bs 0 \<le> meta_at off bs (seg_of (mps_of bs) n)"
    by (rule meta_at_mono [OF assms(1)])
  moreover have "0 \<le> meta_at off bs 0"
    using assms(1,3) by (simp add: meta_at_def wf_bs_def)
  ultimately have "0 \<le> meta_at off bs (seg_of (mps_of bs) n)" by simp
  moreover have "meta_at off bs (seg_of (mps_of bs) n) < 18446744073709551616"
    using layer_end_ge(2) [OF assms(1,2), of off] assms(1,4,5) by (simp add: wf_bs_def)
  ultimately show ?thesis by (simp add: meta_at_def ulong_id)
qed

lemma read_first_super_layer:
  assumes l: "layer_at f off bs mb es" and b: "wf_bs bs" and w: "wf_file f"
    and off: "0 \<le> off" "off mod 4096 = 0"
    and e: "layer_end off bs (int (length es)) \<le> st_size f"
  shows "read_first_super f fdn off = Inr (Some (super_of fdn off bs mb (int (length es))))"
proof -
  let ?n = "int (length es)"
  have sz: "off + 8192 \<le> st_size f"
    using layer_end_ge(1) [OF b, of ?n off] e wf_bsD(1) [OF b] by simp
  have am: "ulong (off + bs * (1 + seg_of (mps_of bs) ?n * (1 + mps_of bs))) = meta_at off bs (seg_of (mps_of bs) ?n)"
    using b off(1) e w by (intro active_off_exact [where size_f = "st_size f"]) (simp_all add: wf_file_def)
  note rm = read_active_meta [OF l b off e, where fdn = fdn]
  show ?thesis
    using sz off backed_less [of off f] layer_atD(1-4) [OF l]
    by (simp add: read_first_super_def CL_SIZE_def [symmetric] pm_mmap_def PAGE_SIZE_def am
        mps_c_div [OF b] Let_def rm)
      (simp add: CL_SIZE_def super_of_def active_of_def Let_def)
qed


lemma super_end_super_of:
  assumes l: "layer_at f off bs mb es" and b: "wf_bs bs" and w: "wf_file f" and off: "0 \<le> off"
    and e: "layer_end off bs (int (length es)) \<le> st_size f"
  shows "super_end f (super_of fdn off bs mb (int (length es))) = layer_end off bs (int (length es))"
proof -
  have "0 \<le> layer_end off bs (int (length es))"
    using layer_end_ge(1) [OF b, of "int (length es)" off] off wf_bsD(1) [OF b] by simp
  then show ?thesis
    using layer_at_active [OF l b] e w
    by (simp add: super_end_def super_of_def active_of_def Let_def layer_end_act ulong_id wf_file_def)
qed

lemma read_next_super_layer:
  assumes l: "layer_at f off bs mb es" and b: "wf_bs bs" and w: "wf_file f"
    and off: "0 \<le> off" "off mod 4096 = 0"
    and e: "layer_end off bs (int (length es)) \<le> st_size f"
    and rest: "image_at f (layer_end off bs (int (length es))) bs mb ls"
  shows "read_next_super f (super_of fdn off bs mb (int (length es))) =
    Inr (case ls of [] \<Rightarrow> None
         | es' # _ \<Rightarrow> Some (super_of fdn (layer_end off bs (int (length es))) bs mb (int (length es'))))"
proof -
  let ?n = "int (length es)" and ?s = "super_of fdn off bs mb (int (length es))"
  let ?e = "layer_end off bs ?n"
  have m: "0 < mps_of bs" using mps_ge [OF b] by simp
  have e0: "0 \<le> ?e" "?e mod 4096 = 0" "off + 8192 \<le> ?e"
    using layer_end_ge(1) [OF b, of ?n off] off wf_bsD(1) [OF b] layer_end_aligned [OF b off(2)] by simp_all
  have top_off: "pm_top (active_meta ?s) = meta_at off bs (seg_of (mps_of bs) ?n)"
    by (simp add: super_of_def active_of_def Let_def)
  have "meta_at off bs 0 \<le> meta_at off bs (seg_of (mps_of bs) ?n)"
    using b m by (intro meta_at_mono seg_of_nonneg) simp_all
  moreover have "0 \<le> meta_at off bs 0" using off b by (simp add: meta_at_def wf_bs_def)
  ultimately have bk: "backed f (meta_at off bs (seg_of (mps_of bs) ?n))"
    using layer_end_ge(2) [OF b, of ?n off] e wf_bsD(1) [OF b] by (intro backed_less) simp_all
  note se = super_end_super_of [OF l b w off(1) e, of fdn]
  show ?thesis
  proof (cases ls)
    case Nil
    then show ?thesis
      using rest e0 bk by (auto simp: read_next_super_def top_off se no_super_def Let_def pm_mmap_def
        PAGE_SIZE_def CL_SIZE_def)
  next
    case (Cons es' ls')
    let ?n' = "int (length es')"
    from rest Cons have l': "layer_at f ?e bs mb es'" and e': "layer_end ?e bs ?n' \<le> st_size f"
      by simp_all
    have sz: "?e < st_size f"
      using layer_end_ge(1) [OF b, of ?n' ?e] e' wf_bsD(1) [OF b] by simp
    have am: "ulong (?e + bs * (1 + seg_of (mps_of bs) ?n' * (1 + mps_of bs))) = meta_at ?e bs (seg_of (mps_of bs) ?n')"
      using b e0(1) e' w by (intro active_off_exact [where size_f = "st_size f"]) (simp_all add: wf_file_def)
    have fields: "block_size ?s = bs" "pm_super ?s = off" "fd ?s = fdn"
      by (simp_all add: super_of_def active_of_def Let_def)
    note rm = read_active_meta [OF l' b e0(1,2) e', where fdn = fdn]
    have "backed f off" using off e0 sz by (intro backed_less) simp_all
    then show ?thesis
      using sz e0 bk layer_atD(1,4) [OF l'] layer_atD(2,3) [OF l]
      by (simp add: read_next_super_def top_off se Let_def pm_mmap_def PAGE_SIZE_def am fields
          mps_c_div [OF b] rm Cons)
        (simp add: CL_SIZE_def super_of_def active_of_def Let_def)
  qed
qed

fun supers_of :: "cstr \<Rightarrow> int \<Rightarrow> int \<Rightarrow> int \<Rightarrow> u64 list list \<Rightarrow> Super list" where
  "supers_of fdn off bs mb [] = []"
| "supers_of fdn off bs mb (es # ls) =
     super_of fdn off bs mb (int (length es))
     # supers_of fdn (layer_end off bs (int (length es))) bs mb ls"

lemma layer_end_wf:
  "wf_bs bs \<Longrightarrow> 0 \<le> off \<Longrightarrow> off mod 4096 = 0 \<Longrightarrow>
   0 \<le> layer_end off bs (int n) \<and> layer_end off bs (int n) mod 4096 = 0"
  using layer_end_ge(1) [of bs "int n" off] wf_bsD(1) [of bs] layer_end_aligned [of bs off]
  by force

lemma read_last_from_image:
  assumes "image_at f off bs mb (es # ls)" "wf_bs bs" "wf_file f" "0 \<le> off" "off mod 4096 = 0"
  shows "read_last_from f (super_of fdn off bs mb (int (length es))) =
    Some (Inr (last (supers_of fdn off bs mb (es # ls))))"
  using assms
proof (induction ls arbitrary: off es)
  case Nil
  then show ?case
    using read_next_super_layer [of f off bs mb es "[]" fdn]
    by (simp add: read_last_from.simps)
next
  case (Cons es' ls)
  let ?e = "layer_end off bs (int (length es))"
  have "read_next_super f (super_of fdn off bs mb (int (length es))) =
      Inr (Some (super_of fdn ?e bs mb (int (length es'))))"
    using Cons.prems read_next_super_layer [of f off bs mb es "es' # ls" fdn] by simp
  moreover have "read_last_from f (super_of fdn ?e bs mb (int (length es'))) =
      Some (Inr (last (supers_of fdn ?e bs mb (es' # ls))))"
    using Cons.prems layer_end_wf [of bs off "length es"] by (intro Cons.IH) auto
  ultimately show ?case by (simp add: read_last_from.simps [of f "super_of fdn off bs mb (int (length es))"])
qed

lemma read_first_super_image:
  assumes "image_rel f bs mb ls"
  shows "read_first_super f fdn 0 = Inr (Some (hd (supers_of fdn 0 bs mb ls)))"
  using assms read_first_super_layer [of f 0 bs mb "hd ls" fdn]
  by (cases ls) (simp_all add: image_rel_def)

lemma read_last_super_image:
  assumes "image_rel f bs mb ls"
  shows "read_last_super f fdn = Some (Inr (Some (last (supers_of fdn 0 bs mb ls))))"
proof -
  obtain es ls' where ls: "ls = es # ls'"
    using assms by (cases ls) (auto simp: image_rel_def)
  have "read_last_from f (super_of fdn 0 bs mb (int (length es))) =
      Some (Inr (last (supers_of fdn 0 bs mb ls)))"
    using assms read_last_from_image [of f 0 bs mb es ls' fdn] by (simp add: image_rel_def ls)
  then show ?thesis
    using read_first_super_image [OF assms, of fdn]
    by (simp add: read_last_super_def ls)
qed

section \<open>Frames\<close>

lemma image_end_ge: "wf_bs bs \<Longrightarrow> off \<le> image_end off bs ls"
proof (induction ls arbitrary: off)
  case Nil
  then show ?case by simp
next
  case (Cons es ls)
  have "off \<le> layer_end off bs (int (length es))"
    using layer_end_ge(1) [OF Cons.prems, of "int (length es)" off] wf_bsD(1) [OF Cons.prems] by simp
  also have "\<dots> \<le> image_end (layer_end off bs (int (length es))) bs ls"
    using Cons.prems by (rule Cons.IH)
  finally show ?case by simp
qed

lemma image_end_aligned:
  "wf_bs bs \<Longrightarrow> off mod 4096 = 0 \<Longrightarrow> image_end off bs ls mod 4096 = 0"
  by (induction ls arbitrary: off) (simp_all add: layer_end_aligned)

lemma image_end_append: "image_end off bs (ls @ ms) = image_end (image_end off bs ls) bs ms"
  by (induction ls arbitrary: off) simp_all

lemma image_at_end_le:
  "image_at f off bs mb ls \<Longrightarrow> ls \<noteq> [] \<Longrightarrow> image_end off bs ls \<le> st_size f"
proof (induction ls arbitrary: off)
  case Nil
  then show ?case by simp
next
  case (Cons es ls)
  then show ?case by (cases "ls = []") simp_all
qed

lemma seg_div_le:
  assumes "0 \<le> k" "k < n" "0 < m"
  shows "k div m \<le> seg_of m n"
  using assms by (simp add: seg_of_def zdiv_mono1)

lemma entry_at_range:
  assumes b: "wf_bs bs" and k: "k < n"
  shows "off + bs + 64 \<le> entry_at off bs (int k)" "entry_at off bs (int k) + 8 \<le> layer_end off bs (int n)"
proof -
  let ?m = "mps_of bs"
  have m: "0 < ?m" using mps_ge [OF b] by simp
  have "0 \<le> int k div ?m" using m by (simp add: pos_imp_zdiv_nonneg_iff)
  then have "meta_at off bs 0 \<le> meta_at off bs (int k div ?m)" by (rule meta_at_mono [OF b])
  moreover have "0 \<le> int k mod ?m" "int k mod ?m < ?m"
    using m by simp_all
  ultimately show "off + bs + 64 \<le> entry_at off bs (int k)"
    by (simp add: entry_at_def meta_at_def)
  have "meta_at off bs (int k div ?m) \<le> meta_at off bs (seg_of ?m (int n))"
    using k m by (intro meta_at_mono b seg_div_le) simp_all
  moreover have "64 + 8 * (int k mod ?m) + 8 \<le> bs"
    using mps_bs [OF b] \<open>int k mod ?m < ?m\<close> by linarith
  ultimately show "entry_at off bs (int k) + 8 \<le> layer_end off bs (int n)"
    using layer_end_ge(2) [OF b, of "int n" off] by (simp add: entry_at_def)
qed

lemma meta_at_range:
  assumes b: "wf_bs bs" and i: "0 \<le> i" "i \<le> seg_of (mps_of bs) (int n)"
  shows "off + bs \<le> meta_at off bs i" "meta_at off bs i + bs \<le> layer_end off bs (int n)"
  using meta_at_mono [OF b i(1), of off] meta_at_mono [OF b i(2), of off]
    layer_end_ge(2) [OF b, of "int n" off]
  by (simp_all add: meta_at_def)

lemma load32_frame: "(\<And>x. a \<le> x \<Longrightarrow> x < a + 4 \<Longrightarrow> bytes f x = bytes g x) \<Longrightarrow> load32 f a = load32 g a"
  by (simp add: load32_def get32_cong [of a "bytes f" "bytes g"])

lemma load64_frame: "(\<And>x. a \<le> x \<Longrightarrow> x < a + 8 \<Longrightarrow> bytes f x = bytes g x) \<Longrightarrow> load64 f a = load64 g a"
  by (simp add: load64_def get64_cong [of a "bytes f" "bytes g"])

lemma sl_frame:
  assumes "\<And>x. p \<le> x \<Longrightarrow> x < p + 64 \<Longrightarrow> bytes f x = bytes g x"
  shows "sl_magic f p = sl_magic g p" "sl_block_size f p = sl_block_size g p"
    "sl_max_block_num f p = sl_max_block_num g p" "sl_active_meta_num f p = sl_active_meta_num g p"
    "sl_base_image_name f p = sl_base_image_name g p"
  unfolding sl_magic_def sl_block_size_def sl_max_block_num_def sl_active_meta_num_def
    sl_base_image_name_def
  by (intro peek_cong load32_frame assms; simp)+

lemma layer_at_frame:
  assumes l: "layer_at f off bs mb es" and b: "wf_bs bs"
    and eq: "\<And>x. off \<le> x \<Longrightarrow> x < layer_end off bs (int (length es)) \<Longrightarrow> bytes f x = bytes g x"
  shows "layer_at g off bs mb es"
proof -
  let ?n = "length es"
  have e: "off + 8192 \<le> layer_end off bs (int ?n)"
    using layer_end_ge(1) [OF b, of "int ?n" off] wf_bsD(1) [OF b] by simp
  have sl: "sl_magic f off = sl_magic g off" "sl_block_size f off = sl_block_size g off"
    "sl_max_block_num f off = sl_max_block_num g off"
    "sl_active_meta_num f off = sl_active_meta_num g off"
    using sl_frame [of off f g] eq e by simp_all
  have mt: "mt_counter f (meta_at off bs i) = mt_counter g (meta_at off bs i)"
    if "0 \<le> i" "i \<le> seg_of (mps_of bs) (int ?n)" for i
    unfolding mt_counter_def
    by (rule load32_frame, rule eq) (use meta_at_range [OF b that, of off] wf_bsD(1) [OF b] in simp_all)
  have en: "load64 f (entry_at off bs (int k)) = load64 g (entry_at off bs (int k))" if "k < ?n" for k
    by (rule load64_frame, rule eq) (use entry_at_range [OF b that, of off] wf_bsD(1) [OF b] in simp_all)
  show ?thesis
    using l sl mt en by (simp add: layer_at_def)
qed

lemma image_at_replace:
  assumes "image_at f off bs mb (ls @ ks)" "wf_bs bs"
    and "\<And>x. off \<le> x \<Longrightarrow> x < image_end off bs ls \<Longrightarrow> bytes f x = bytes g x"
    and "image_end off bs ls \<le> st_size g"
    and "image_at g (image_end off bs ls) bs mb ms"
  shows "image_at g off bs mb (ls @ ms)"
  using assms
proof (induction ls arbitrary: off)
  case Nil
  then show ?case by simp
next
  case (Cons es ls)
  let ?e = "layer_end off bs (int (length es))"
  have le: "off \<le> ?e" "?e \<le> image_end ?e bs ls"
    using layer_end_ge(1) [OF Cons.prems(2), of "int (length es)" off] wf_bsD(1) [OF Cons.prems(2)]
      image_end_ge [OF Cons.prems(2)] by simp_all
  have "layer_at g off bs mb es"
    by (rule layer_at_frame [of f]) (use Cons.prems le in simp_all)
  moreover have "image_at g ?e bs mb (ls @ ms)"
    by (rule Cons.IH) (use Cons.prems le in simp_all)
  ultimately show ?case
    using Cons.prems(4) le by simp
qed

lemmas image_at_extend = image_at_replace [where ks = "[]", simplified]

lemma no_super_zero: "(\<And>x. e \<le> x \<Longrightarrow> bytes f x = 0) \<Longrightarrow> no_super f e"
proof -
  assume z: "\<And>x. e \<le> x \<Longrightarrow> bytes f x = 0"
  have "sl_magic f e = [0, 0, 0, 0]" using z by (simp add: sl_magic_def peek_def numeral_eq_Suc)
  then show ?thesis by (simp add: no_super_def MAGIC_def)
qed

lemma image_rel_replace_last:
  assumes r: "image_rel f bs mb (ls0 @ [es])" and w: "wf_file g"
    and eq: "\<And>x. x < image_end 0 bs ls0 \<Longrightarrow> bytes f x = bytes g x"
    and l: "layer_at g (image_end 0 bs ls0) bs mb es'"
    and e: "layer_end (image_end 0 bs ls0) bs (int (length es')) \<le> st_size g"
    and z: "\<And>x. layer_end (image_end 0 bs ls0) bs (int (length es')) \<le> x \<Longrightarrow> bytes g x = 0"
  shows "image_rel g bs mb (ls0 @ [es'])"
proof -
  have b: "wf_bs bs" using r by (simp add: image_rel_def)
  have "image_end 0 bs ls0 \<le> st_size g"
    using layer_end_ge(1) [OF b, of "int (length es')" "image_end 0 bs ls0"] e wf_bsD(1) [OF b] by simp
  moreover have "no_super g (layer_end (image_end 0 bs ls0) bs (int (length es')))"
    by (rule no_super_zero) (rule z)
  with l e have "image_at g (image_end 0 bs ls0) bs mb [es']" by simp
  moreover have "image_at f 0 bs mb (ls0 @ [es])" using r by (simp add: image_rel_def)
  ultimately have "image_at g 0 bs mb (ls0 @ [es'])"
    using b eq by (blast intro: image_at_replace)
  then show ?thesis
    using r w z by (simp add: image_rel_def image_end_append)
qed


lemma image_rel_cong:
  assumes r: "image_rel f bs mb ls" and "bytes g = bytes f" "st_size g = st_size f" "fs_limit g = fs_limit f"
  shows "image_rel g bs mb ls"
proof -
  have "image_at g off bs mb ls = image_at f off bs mb ls" for off
    using assms(2,3)
    by (induction ls arbitrary: off)
      (simp_all add: no_super_def layer_at_def sl_magic_def sl_block_size_def sl_max_block_num_def
        sl_active_meta_num_def mt_counter_def load32_def load64_def)
  then show ?thesis using assms by (simp add: image_rel_def wf_file_def)
qed

section \<open>Appending an empty layer\<close>

lemma write_super_fields:
  assumes "p + 64 \<le> st_size f"
  shows "sl_block_size (write_super p bs mb f) p = cint bs"
    "sl_max_block_num (write_super p bs mb f) p = cint mb"
    "sl_active_meta_num (write_super p bs mb f) p = 0"
    "sl_magic (write_super p bs mb f) p = MAGIC"
proof -
  have len: "length MAGIC = 4" by (simp add: MAGIC_def)
  have l: "load32 (pm_store (p + 12) MAGIC g) a = load32 g a" if "a + 4 \<le> p + 12" for a g
    using that by (intro load32_pm_store_other) simp
  show "sl_block_size (write_super p bs mb f) p = cint bs"
    "sl_max_block_num (write_super p bs mb f) p = cint mb"
    "sl_active_meta_num (write_super p bs mb f) p = 0"
    using assms
    by (simp_all add: sl_block_size_def sl_max_block_num_def sl_active_meta_num_def write_super_def
        Let_def mem_simps l cint_def)
  show "sl_magic (write_super p bs mb f) p = MAGIC"
    using assms len peek_pm_store_same [of "p + 12" MAGIC]
    by (simp add: sl_magic_def write_super_def Let_def)
qed

lemma write_super_outside:
  "x < p \<or> p + 16 \<le> x \<Longrightarrow> bytes (write_super p bs mb f) x = bytes f x"
  by (auto simp: write_super_def Let_def store32_def bytes_pm_store_outside MAGIC_def)

lemma write_meta_top_outside:
  "x < p \<or> p + 8 \<le> x \<Longrightarrow> bytes (write_meta_top p f) x = bytes f x"
  by (auto simp: write_meta_top_def store32_def bytes_pm_store_outside)

lemma write_super_sizes [simp]:
  "st_size (write_super p bs mb f) = st_size f" "fs_limit (write_super p bs mb f) = fs_limit f"
  "st_size (write_meta_top p f) = st_size f" "fs_limit (write_meta_top p f) = fs_limit f"
  by (simp_all add: write_super_def write_meta_top_def Let_def)

lemma wf_write_super [wf_intros]: "wf_file f \<Longrightarrow> wf_file (write_super p bs mb f)"
  by (simp add: write_super_def Let_def wf_intros)

lemma wf_write_meta_top [wf_intros]: "wf_file f \<Longrightarrow> wf_file (write_meta_top p f)"
  by (simp add: write_meta_top_def wf_intros)

lemma mt_counter_write_meta_top: "p + 8 \<le> st_size f \<Longrightarrow> mt_counter (write_meta_top p f) p = 0"
  by (simp add: mt_counter_def write_meta_top_def mem_simps) (simp add: cint_def)

lemma write_meta_top_zero:
  assumes "\<And>x. p \<le> x \<Longrightarrow> x < p + 8 \<Longrightarrow> bytes f x = 0"
  shows "bytes (write_meta_top p f) = bytes f"
proof -
  have z: "bytes32 0 = replicate 4 0" by (simp add: bytes32_def numeral_eq_Suc)
  have "bytes (store32 q 0 g) = bytes g" if "\<And>x. q \<le> x \<Longrightarrow> x < q + 4 \<Longrightarrow> bytes g x = 0" for q g
    using that by (auto simp: store32_def pm_store_def poke_def z fun_eq_iff)
  then show ?thesis using assms by (simp add: write_meta_top_def)
qed

lemma write_meta_top_image:
  "image_rel f bs mb ls \<Longrightarrow> image_rel (write_meta_top (image_end 0 bs ls) f) bs mb ls"
  by (rule image_rel_cong) (auto intro!: write_meta_top_zero simp: image_rel_def)

lemma layer_end_0: "layer_end off bs 0 = off + 2 * bs"
  by (simp add: layer_end_def seg_of_def)

text \<open>The file \<open>new_super\<close> leaves behind when nothing fails.\<close>

definition new_super_file :: "pm_file \<Rightarrow> int \<Rightarrow> int \<Rightarrow> int \<Rightarrow> pm_file" where
  "new_super_file f bs mb off =
     pm_fence (pm_flush (off + bs) (write_meta_top (off + bs)
       (write_super off bs mb (f\<lparr>st_size := max (st_size f) (off + bs * 2)\<rparr>))))"

lemma new_super_file_size [simp]:
  "st_size (new_super_file f bs mb off) = max (st_size f) (off + bs * 2)"
  "fs_limit (new_super_file f bs mb off) = fs_limit f"
  by (simp_all add: new_super_file_def)

lemma new_super_file_outside:
  "wf_bs bs \<Longrightarrow> x < off \<or> off + 16 \<le> x \<and> x < off + bs \<or> off + bs + 8 \<le> x \<Longrightarrow>
   bytes (new_super_file f bs mb off) x = bytes f x"
  by (auto simp: new_super_file_def write_meta_top_outside write_super_outside wf_bs_def)

lemma new_super_file_layer:
  assumes b: "wf_bs bs" and mb: "0 \<le> mb" "mb < 2147483647"
  shows "layer_at (new_super_file f bs mb off) off bs mb []"
proof -
  define f2 where "f2 = write_super off bs mb (f\<lparr>st_size := max (st_size f) (off + bs * 2)\<rparr>)"
  have nf: "new_super_file f bs mb off = pm_fence (pm_flush (off + bs) (write_meta_top (off + bs) f2))"
    by (simp add: new_super_file_def f2_def)
  have eq: "bytes (new_super_file f bs mb off) x = bytes f2 x" if "x < off + 64" for x
    using that wf_bsD(1) [OF b] by (simp add: nf write_meta_top_outside)
  note w = write_super_fields [of off "f\<lparr>st_size := max (st_size f) (off + bs * 2)\<rparr>" bs mb]
  have sz: "off + 64 \<le> max (st_size f) (off + bs * 2)" using wf_bsD(1) [OF b] by simp
  have "mt_counter (new_super_file f bs mb off) (off + bs) = mt_counter (write_meta_top (off + bs) f2) (off + bs)"
    by (simp add: nf mt_counter_def mem_simps)
  also have "\<dots> = 0"
    using wf_bsD(1) [OF b] by (intro mt_counter_write_meta_top) (simp add: f2_def)
  finally have "mt_counter (new_super_file f bs mb off) (off + bs) = 0" .
  then show ?thesis
    using sl_frame [of off "new_super_file f bs mb off" f2] eq w sz wf_bsD(1,2) [OF b] mb
    by (simp add: layer_at_def seg_of_def act_of_def meta_at_def f2_def [symmetric] cint_id)
qed

lemma new_super_at_ok:
  assumes w: "wf_file f" and b: "wf_bs bs" and mb: "0 \<le> mb" "mb < 2147483647"
    and off: "0 \<le> off" "off mod 4096 = 0" and lim: "off + 2 * bs \<le> fs_limit f"
  shows "new_super_at f fdn bs mb off = Inr (new_super_file f bs mb off, Some (super_of fdn off bs mb 0))"
    and "wf_file (new_super_file f bs mb off)"
proof -
  let ?g = "f\<lparr>st_size := max (st_size f) (off + bs * 2)\<rparr>"
  have bs: "4096 \<le> bs" "bs < 1073741824" and al: "(off + bs) mod 4096 = 0"
    using wf_bsD [OF b] off(2) by (auto simp: dvd_eq_mod_eq_0 [symmetric])
  have fa: "fallocate off (cint (bs * 2)) f = (0, ?g)"
    using off bs lim by (simp add: fallocate_ok cint_id)
  have g: "wf_file ?g" using wf_fallocate [OF w, of off "cint (bs * 2)"] fa by simp
  then show w': "wf_file (new_super_file f bs mb off)"
    by (simp add: new_super_file_def wf_intros)
  have ul: "ulong (off + bs) = off + bs"
    using off bs lim w by (intro ulong_id) (simp_all add: wf_file_def)
  have bk: "backed ?g off" "backed (write_super off bs mb ?g) (off + bs)"
    using off bs by (auto intro!: backed_less)
  have rf: "read_first_super (new_super_file f bs mb off) fdn off = Inr (Some (super_of fdn off bs mb 0))"
    using read_first_super_layer [OF new_super_file_layer [OF b mb] b w' off]
    by (simp add: layer_end_0)
  show "new_super_at f fdn bs mb off = Inr (new_super_file f bs mb off, Some (super_of fdn off bs mb 0))"
    using off al bs bk rf
    by (simp add: new_super_at_def fa pm_mmap_def PAGE_SIZE_def CL_SIZE_def ul Let_def
        new_super_file_def)
qed

lemma last_supers_of:
  "supers_of fdn off bs mb (ls @ [es]) =
   supers_of fdn off bs mb ls @ [super_of fdn (image_end off bs ls) bs mb (int (length es))]"
  by (induction ls arbitrary: off) simp_all

lemma image_at_append_last:
  "image_at f off bs mb (ls @ [es]) \<Longrightarrow>
   layer_at f (image_end off bs ls) bs mb es
   \<and> layer_end (image_end off bs ls) bs (int (length es)) \<le> st_size f"
  by (induction ls arbitrary: off) simp_all

lemma image_rel_last:
  assumes "image_rel f bs mb ls"
  obtains ls0 es where "ls = ls0 @ [es]" "layer_at f (image_end 0 bs ls0) bs mb es"
    "layer_end (image_end 0 bs ls0) bs (int (length es)) \<le> st_size f"
    "0 \<le> image_end 0 bs ls0" "image_end 0 bs ls0 mod 4096 = 0"
    "image_end 0 bs ls = layer_end (image_end 0 bs ls0) bs (int (length es))"
proof -
  obtain ls0 es where ls: "ls = ls0 @ [es]"
    using assms by (cases ls rule: rev_cases) (auto simp: image_rel_def)
  moreover have "wf_bs bs" "image_at f 0 bs mb (ls0 @ [es])"
    using assms ls by (simp_all add: image_rel_def)
  ultimately show ?thesis
    using that [of ls0 es] image_at_append_last [of f 0 bs mb ls0 es]
      image_end_ge [of bs 0 ls0] image_end_aligned [of bs 0 ls0]
    by (simp add: image_end_append)
qed

lemma super_end_last:
  assumes "image_rel f bs mb ls"
  shows "super_end f (last (supers_of fdn 0 bs mb ls)) = image_end 0 bs ls"
proof -
  from assms obtain ls0 es where *: "ls = ls0 @ [es]" "layer_at f (image_end 0 bs ls0) bs mb es"
    "layer_end (image_end 0 bs ls0) bs (int (length es)) \<le> st_size f"
    "0 \<le> image_end 0 bs ls0" "image_end 0 bs ls0 mod 4096 = 0"
    "image_end 0 bs ls = layer_end (image_end 0 bs ls0) bs (int (length es))"
    by (rule image_rel_last)
  then show ?thesis
    using assms super_end_super_of [of f "image_end 0 bs ls0" bs mb es fdn]
    by (simp add: last_supers_of image_rel_def)
qed

lemma new_super_image:
  assumes r: "image_rel f bs mb ls" and lim: "image_end 0 bs ls + 2 * bs \<le> fs_limit f"
  defines "f' \<equiv> new_super_file f bs mb (image_end 0 bs ls)"
  shows "new_super f fdn bs mb = Some (Inr (f', Some (super_of fdn (image_end 0 bs ls) bs mb 0)))"
    and "image_rel f' bs mb (ls @ [[]])"
    and "\<And>x. x < image_end 0 bs ls \<Longrightarrow> bytes f' x = bytes f x"
proof -
  let ?e = "image_end 0 bs ls"
  from r have w: "wf_file f" and b: "wf_bs bs" and mb: "0 \<le> mb" "mb < 2147483647"
    and at0: "image_at f 0 bs mb ls" and ne: "ls \<noteq> []"
    and z: "\<And>x. ?e \<le> x \<Longrightarrow> bytes f x = 0"
    by (auto simp: image_rel_def)
  have e: "0 \<le> ?e" "?e mod 4096 = 0" "?e \<le> st_size f"
    using image_end_ge [OF b] image_end_aligned [OF b] image_at_end_le [OF at0 ne] by simp_all
  note n1 = new_super_at_ok(1) [OF w b mb e(1,2) lim, of fdn, folded f'_def]
    and n2 = new_super_at_ok(2) [OF w b mb e(1,2) lim, folded f'_def]
  show "new_super f fdn bs mb = Some (Inr (f', Some (super_of fdn ?e bs mb 0)))"
    by (simp add: new_super_def read_last_super_image [OF r] super_end_last [OF r] n1)
  have out: "bytes f' x = bytes f x" if "x < ?e \<or> ?e + bs + 8 \<le> x" for x
    using that b new_super_file_outside [of bs x ?e f mb] unfolding f'_def by blast
  then show "\<And>x. x < ?e \<Longrightarrow> bytes f' x = bytes f x" by simp
  have tail: "bytes f' x = 0" if "?e + 2 * bs \<le> x" for x
    using out [of x] z [of x] that wf_bsD(1) [OF b] by simp
  then have "no_super f' (?e + 2 * bs)" by (rule no_super_zero)
  moreover have "layer_at f' ?e bs mb []"
    unfolding f'_def using b mb by (rule new_super_file_layer)
  ultimately have "image_at f' ?e bs mb [[]]"
    by (simp add: layer_end_0 f'_def)
  then have "image_at f' 0 bs mb (ls @ [[]])"
    using at0 b out e by (intro image_at_extend [of f]) (simp_all add: f'_def)
  then show "image_rel f' bs mb (ls @ [[]])"
    using n2 b mb tail by (simp add: image_rel_def image_end_append layer_end_0)
qed

text \<open>Formatting an empty file gives the image with one empty layer.\<close>

lemma new_super_empty:
  assumes b: "wf_bs bs" and mb: "0 \<le> mb" "mb < 2147483647"
    and w: "wf_file f" and z: "st_size f = 0" and lim: "2 * bs \<le> fs_limit f"
  defines "f' \<equiv> new_super_file f bs mb 0"
  shows "new_super f fdn bs mb = Some (Inr (f', Some (super_of fdn 0 bs mb 0)))"
    and "image_rel f' bs mb [[]]"
proof -
  have zero: "bytes f x = 0" if "0 \<le> x" for x using w z that by (simp add: wf_file_def)
  note n1 = new_super_at_ok(1) [OF w b mb, of 0 fdn, folded f'_def]
    and n2 = new_super_at_ok(2) [OF w b mb, of 0, folded f'_def]
  have "read_last_super f fdn = Some (Inr None)"
    by (simp add: read_last_super_def read_first_super_def z CL_SIZE_def)
  then show "new_super f fdn bs mb = Some (Inr (f', Some (super_of fdn 0 bs mb 0)))"
    using n1 lim by (simp add: new_super_def)
  have tail: "bytes f' x = 0" if "2 * bs \<le> x" for x
    using new_super_file_outside [OF b, of x 0 f mb] zero [of x] that wf_bsD(1) [OF b]
    by (simp add: f'_def)
  have sz: "st_size f' = 2 * bs" using z wf_bsD(1) [OF b] by (simp add: f'_def)
  have "layer_at f' 0 bs mb []" unfolding f'_def using b mb by (rule new_super_file_layer)
  then have "image_at f' 0 bs mb [[]]"
    by (simp add: layer_end_0 no_super_def sz)
  then show "image_rel f' bs mb [[]]"
    using n2 lim b mb tail by (simp add: image_rel_def layer_end_0)
qed

end
