(* ===== verification/Block_Alloc.thy ===== *)
theory Block_Alloc
  imports Image_Spec
begin

text \<open>
  Allocation of data blocks (\<open>meta.c\<close>, lines 188 to 505): the pre-allocating thread
  \<open>new_block_allocator\<close> that keeps a ring of at most \<open>MAX_PRE_NUM\<close> fresh blocks, the consumers
  \<open>new_meta\<close> and \<open>new_block\<close> of the \<open>PRE_ALLOC\<close> build, and the direct \<open>new_meta\<close> and
  \<open>new_block\<close> of the other build. A consumer that finds the ring empty spins until the thread has
  produced a block; the model returns \<open>None\<close> there.
\<close>

section \<open>State\<close>

definition MAX_PRE_NUM :: int where "MAX_PRE_NUM = 5"

record New_block =
  block_off :: int
  map_addr :: int
  map_addr2 :: int

text \<open>
  The files by name, the global \<open>cur_s\<close>, the host mappings and the address the next
  \<open>mmap(NULL, ...)\<close> returns, the ring \<open>nbs\<close> with its counters, and whether the pre-allocating
  thread has exited.
\<close>

record alloc_state =
  files :: "cstr \<Rightarrow> pm_file"
  cur_s :: Super
  vm :: vmap
  vm_next :: int
  nbs :: "int \<Rightarrow> New_block"
  nb_count :: int
  nb_available :: int
  alloc_dead :: bool

definition img :: "'a alloc_state_scheme \<Rightarrow> pm_file" where
  "img st = files st (fd (cur_s st))"

definition set_img :: "pm_file \<Rightarrow> 'a alloc_state_scheme \<Rightarrow> 'a alloc_state_scheme" where
  "set_img f st = st\<lparr>files := (files st)(fd (cur_s st) := f)\<rparr>"

definition mmap_any :: "int \<Rightarrow> cstr \<Rightarrow> int \<Rightarrow> 'a alloc_state_scheme \<Rightarrow> int \<times> 'a alloc_state_scheme" where
  "mmap_any len fdn off st =
     (if 0 < len \<and> off mod PAGE_SIZE = 0
      then (vm_next st,
            st\<lparr>vm := mmap_fixed (vm_next st) len True fdn off (vm st),
               vm_next := vm_next st + (len + PAGE_SIZE - 1) div PAGE_SIZE * PAGE_SIZE\<rparr>)
      else (-1, st))"

section \<open>Metadata updates\<close>

text \<open>\<open>(unsigned int)(fault_off / s->block_size)\<close>, the word an entry starts as.\<close>

definition vblock :: "Super \<Rightarrow> int \<Rightarrow> u64" where
  "vblock s fault_off = word_of_int (uint32 (fault_off div ulong (block_size s)))"

text \<open>Append an entry to a meta block, then count it; each step is flushed and fenced.\<close>

definition append_entry :: "Meta \<Rightarrow> u64 \<Rightarrow> pm_file \<Rightarrow> Meta \<times> pm_file" where
  "append_entry m vb f =
     (let a = pm_btm_addr m (counter m);
          f1 = store64 a vb f;
          f2 = store64 a (load64 f1 a AND ADDR_MASK) f1;
          f3 = pm_fence (pm_flush a f2);
          f4 = store32 (pm_top m) (mt_counter f3 (pm_top m) + 1) f3
      in (m\<lparr>counter := counter m + 1\<rparr>, pm_fence (pm_flush (pm_top m) f4)))"

text \<open>Make a filled new meta block the active one, in memory and in the super block.\<close>

definition link_meta :: "Super \<Rightarrow> Meta \<Rightarrow> pm_file \<Rightarrow> Super \<times> pm_file" where
  "link_meta s m f =
     (let amn = cint (active_meta_num s + 1);
          s' = s\<lparr>active_meta := m, active_meta_num := amn,
                 active_meta_off := ulong (my_off s + block_size s
                                           + amn * (max_per_seg s + 1) * block_size s)\<rparr>
      in (s', pm_fence (pm_flush (pm_super s) (store32 (pm_super s + 8) amn f))))"

section \<open>The pre-allocating thread\<close>

datatype 'st alloc_outcome = Alloc_wait | Alloc_exit | Alloc_fail | Alloc_done 'st

definition next_off :: "Super \<Rightarrow> int" where
  "next_off s = ulong (active_meta_off s + block_size s + counter (active_meta s) * block_size s)"

definition prealloc_n :: "Super \<Rightarrow> int" where
  "prealloc_n s = cint (ulong (alloc_off s - next_off s) div ulong (block_size s))"

text \<open>One iteration of the loop of \<open>new_block_allocator\<close>.\<close>

definition allocator_iter :: "'a alloc_state_scheme \<Rightarrow> 'a alloc_state_scheme alloc_outcome" where
  "allocator_iter st =
     (let s = cur_s st
      in if cint (prealloc_n s + 1) > MAX_PRE_NUM then Alloc_wait
         else if cint (cint (active_meta_num s * max_per_seg s + counter (active_meta s))
                       + prealloc_n s + 1) > max_block_num s
         then Alloc_exit
         else
           let (ret, f) = fallocate (alloc_off s) (block_size s) (img st);
               (a1, st1) = mmap_any (block_size s) (fd s) (alloc_off s) (set_img f st);
               (a2, st2) = mmap_any (block_size s) (fd s) (alloc_off s) st1;
               nb = \<lparr>block_off = alloc_off s, map_addr = a1, map_addr2 = a2\<rparr>;
               st3 = st2\<lparr>nbs := (nbs st2)(nb_count st2 mod MAX_PRE_NUM := nb),
                         nb_count := ulong (nb_count st2 + 1),
                         nb_available := ulong (nb_available st2 + 1),
                         cur_s := s\<lparr>alloc_off := ulong (alloc_off s + block_size s)\<rparr>\<rparr>
           in if ret \<noteq> 0 then Alloc_fail else Alloc_done st3)"

section \<open>Consumers\<close>

text \<open>The critical section that takes the oldest block of the ring, if there is one.\<close>

definition take_nb :: "'a alloc_state_scheme \<Rightarrow> (New_block \<times> 'a alloc_state_scheme) option" where
  "take_nb st =
     (if nb_available st > 0
      then Some (nbs st (ulong (nb_count st - nb_available st) mod MAX_PRE_NUM),
                 st\<lparr>nb_available := nb_available st - 1\<rparr>)
      else None)"

text \<open>\<open>new_meta\<close> after it has taken its block.\<close>

definition init_meta :: "Super \<Rightarrow> New_block \<Rightarrow> pm_file \<Rightarrow> (Meta \<times> pm_file) res" where
  "init_meta s nb f =
     (case pm_mmap (block_size s) (block_off nb) of
        None \<Rightarrow> Inl Sigsegv
      | Some p \<Rightarrow>
          if \<not> backed f p then Inl Sigbus
          else Inr (\<lparr>pm_top = p, pm_btm = p + CL_SIZE, counter = 0\<rparr>, write_meta_top p f))"

definition new_meta :: "'a alloc_state_scheme \<Rightarrow> (Meta \<times> 'a alloc_state_scheme) res option" where
  "new_meta st =
     (case take_nb st of
        None \<Rightarrow> None
      | Some (nb, st1) \<Rightarrow>
          Some (res_bind (init_meta (cur_s st1) nb (img st1)) (\<lambda>(m, f). Inr (m, set_img f st1))))"

definition out_of_range :: "Super \<Rightarrow> bool" where
  "out_of_range s \<longleftrightarrow>
     cint (active_meta_num s * max_per_seg s + counter (active_meta s) + 1) > max_block_num s"

text \<open>The end of the first branch of \<open>new_block\<close>: the entry goes to the active meta block.\<close>

definition finish_same :: "int \<Rightarrow> 'a alloc_state_scheme \<Rightarrow> 'a alloc_state_scheme" where
  "finish_same fault_off st =
     (let s = cur_s st;
          (m, f) = append_entry (active_meta s) (vblock s fault_off) (img st)
      in (set_img f st)\<lparr>cur_s := s\<lparr>active_meta := m\<rparr>\<rparr>)"

text \<open>The end of the second branch: the entry goes to the new meta block, which is then linked.\<close>

definition finish_new :: "int \<Rightarrow> Meta \<Rightarrow> 'a alloc_state_scheme \<Rightarrow> 'a alloc_state_scheme" where
  "finish_new fault_off m st =
     (let s = cur_s st;
          (m1, f1) = append_entry m (vblock s fault_off) (img st);
          (s', f2) = link_meta s m1 f1
      in (set_img f2 st)\<lparr>cur_s := s'\<rparr>)"

definition new_block :: "'a alloc_state_scheme \<Rightarrow> int \<Rightarrow> (New_block \<times> 'a alloc_state_scheme) res option" where
  "new_block st fault_off =
     (let s = cur_s st
      in if out_of_range s then Some (Inl Exit_failure)
         else if counter (active_meta s) < max_per_seg s
         then case take_nb st of
                None \<Rightarrow> None
              | Some (nb, st1) \<Rightarrow>
                  Some (if block_size s = 0 then Inl Sigfpe
                        else if \<not> backed (img st1) (pm_btm_addr (active_meta s) (counter (active_meta s)))
                        then Inl Sigbus
                        else Inr (nb, finish_same fault_off st1))
         else case new_meta st of
                None \<Rightarrow> None
              | Some (Inl e) \<Rightarrow> Some (Inl e)
              | Some (Inr (m, st1)) \<Rightarrow>
                  (case take_nb st1 of
                     None \<Rightarrow> None
                   | Some (nb, st2) \<Rightarrow>
                       Some (if \<not> backed (img st2) (pm_btm_addr m (counter m)) then Inl Sigbus
                             else Inr (nb, finish_new fault_off m st2))))"

section \<open>The build without PRE_ALLOC\<close>

definition new_meta_direct :: "'a alloc_state_scheme \<Rightarrow> (Meta \<times> 'a alloc_state_scheme) res" where
  "new_meta_direct st =
     (let s = cur_s st;
          off = next_off s;
          (ret, f) = fallocate off (block_size s) (img st)
      in if ret \<noteq> 0 then Inl Assert_failed
         else res_bind (init_meta s \<lparr>block_off = off, map_addr = 0, map_addr2 = 0\<rparr> f)
                (\<lambda>(m, g). Inr (m, set_img g st)))"

definition map_block :: "int \<Rightarrow> 'a alloc_state_scheme \<Rightarrow> New_block \<times> 'a alloc_state_scheme" where
  "map_block off st =
     (let (a1, st1) = mmap_any (block_size (cur_s st)) (fd (cur_s st)) off st;
          (a2, st2) = mmap_any (block_size (cur_s st1)) (fd (cur_s st1)) off st1
      in (\<lparr>block_off = off, map_addr = a1, map_addr2 = a2\<rparr>, st2))"

definition new_block_direct :: "'a alloc_state_scheme \<Rightarrow> int \<Rightarrow> (New_block \<times> 'a alloc_state_scheme) res" where
  "new_block_direct st fault_off =
     (let s = cur_s st
      in if out_of_range s then Inl Exit_failure
         else if counter (active_meta s) < max_per_seg s
         then let off = next_off s; (ret, f) = fallocate off (block_size s) (img st)
              in if ret \<noteq> 0 then Inl Exit_failure
                 else if block_size s = 0 then Inl Sigfpe
                 else if \<not> backed f (pm_btm_addr (active_meta s) (counter (active_meta s))) then Inl Sigbus
                 else Inr (map_block off (finish_same fault_off (set_img f st)))
         else if counter (active_meta s) \<noteq> max_per_seg s then Inl Assert_failed
         else case new_meta_direct st of
                Inl e \<Rightarrow> Inl e
              | Inr (m, st1) \<Rightarrow>
                  let off = ulong (next_off s + block_size s);
                      (ret, f) = fallocate off (block_size s) (img st1)
                  in if ret \<noteq> 0 then Inl Exit_failure
                     else if \<not> backed f (pm_btm_addr m (counter m)) then Inl Sigbus
                     else Inr (map_block off (finish_new fault_off m (set_img f st1))))"

lemma set_img_fields [simp]:
  "img (set_img f st) = f" "cur_s (set_img f st) = cur_s st" "vm (set_img f st) = vm st"
  "nb_available (set_img f st) = nb_available st" "nb_count (set_img f st) = nb_count st"
  "nbs (set_img f st) = nbs st"
  by (simp_all add: img_def set_img_def)

end
