(* ===== verification/Block_Refine.thy ===== *)
theory Block_Refine
  imports Block_Alloc
begin

text \<open>
  Allocation refines the image: \<open>new_block\<close> appends one entry to the last layer and returns the
  data block that the readers associate with that entry. The section on addresses shows that the
  cells of a layer do not overlap; the file-level lemmas give the effect of each metadata update
  on the layer; the two consumers are then shown correct in both builds.
\<close>

section \<open>Cells of a layer are disjoint\<close>

lemma seg_step_same:
  assumes "0 \<le> n" "0 < m" "act_of m n < m"
  shows "seg_of m (n + 1) = seg_of m n" "act_of m (n + 1) = act_of m n + 1"
    "n div m = seg_of m n" "n mod m = act_of m n"
proof -
  have n: "n = act_of m n + seg_of m n * m" using seg_act [of m n] by simp
  have d: "n div m = seg_of m n" "n mod m = act_of m n"
    using assms act_of_bounds(1) [OF assms(1,2)]
    by (subst (1) n; simp add: div_pos_pos_trivial mod_pos_pos_trivial)+
  then show "n div m = seg_of m n" "n mod m = act_of m n" by simp_all
  show "seg_of m (n + 1) = seg_of m n" using d assms(1) by (simp add: seg_of_def)
  then show "act_of m (n + 1) = act_of m n + 1" by (simp add: act_of_def)
qed

lemma seg_step_new:
  assumes "0 \<le> n" "0 < m" "act_of m n = m"
  shows "seg_of m (n + 1) = seg_of m n + 1" "act_of m (n + 1) = 1"
    "n div m = seg_of m n + 1" "n mod m = 0"
proof -
  have n: "n = (seg_of m n + 1) * m" using seg_act [of m n] assms(3) by (simp add: algebra_simps)
  have d: "n div m = seg_of m n + 1" "n mod m = 0"
    using assms(2) by (subst (1) n; simp)+
  then show "n div m = seg_of m n + 1" "n mod m = 0" by simp_all
  show "seg_of m (n + 1) = seg_of m n + 1" using d assms by (simp add: seg_of_def)
  then show "act_of m (n + 1) = 1" using assms(3) by (simp add: act_of_def algebra_simps)
qed

lemma meta_at_gap:
  assumes b: "wf_bs bs" and "i < j"
  shows "meta_at off bs i + bs \<le> meta_at off bs j"
proof -
  have "meta_at off bs (i + 1) \<le> meta_at off bs j"
    using assms by (intro meta_at_mono) simp_all
  moreover have "0 \<le> bs * mps_of bs"
    using mps_ge [OF b] wf_bsD(1) [OF b] by simp
  ultimately show ?thesis
    using wf_bsD(1) [OF b] by (simp add: meta_at_def algebra_simps)
qed

lemma entry_in_meta:
  assumes b: "wf_bs bs"
  shows "meta_at off bs (k div mps_of bs) + 64 \<le> entry_at off bs k"
    "entry_at off bs k + 8 \<le> meta_at off bs (k div mps_of bs) + bs"
proof -
  have "0 < mps_of bs" using mps_ge [OF b] by simp
  then have "0 \<le> k mod mps_of bs" "k mod mps_of bs + 1 \<le> mps_of bs"
    using pos_mod_bound [of "mps_of bs" k] pos_mod_sign [of "mps_of bs" k] by linarith+
  then show "meta_at off bs (k div mps_of bs) + 64 \<le> entry_at off bs k"
    "entry_at off bs k + 8 \<le> meta_at off bs (k div mps_of bs) + bs"
    using mps_bs [OF b] by (simp_all add: entry_at_def)
qed

lemma entry_entry_disjoint:
  assumes b: "wf_bs bs" and "k < l"
  shows "entry_at off bs k + 8 \<le> entry_at off bs l"
proof -
  let ?m = "mps_of bs"
  have m: "0 < ?m" using mps_ge [OF b] by simp
  show ?thesis
  proof (cases "k div ?m = l div ?m")
    case True
    then have "k mod ?m < l mod ?m"
      using assms(2) div_mult_mod_eq [of k ?m] div_mult_mod_eq [of l ?m] by (metis add_less_cancel_left)
    with True show ?thesis by (simp add: entry_at_def)
  next
    case False
    then have "k div ?m < l div ?m"
      using assms(2) m zdiv_mono1 [of k l ?m] by simp
    then show ?thesis
      using meta_at_gap [OF b, of "k div ?m" "l div ?m" off] entry_in_meta [OF b, of off k]
        entry_in_meta [OF b, of off l] by simp
  qed
qed

lemma entry_meta_disjoint:
  assumes b: "wf_bs bs"
  shows "entry_at off bs k + 8 \<le> meta_at off bs i \<or> meta_at off bs i + 64 \<le> entry_at off bs k"
proof -
  have lt: "entry_at off bs k + 8 \<le> meta_at off bs i" if "k div mps_of bs < i"
    using meta_at_gap [OF b that, of off] entry_in_meta(2) [OF b, of off k] by simp
  have ge: "meta_at off bs i + 64 \<le> entry_at off bs k" if "i \<le> k div mps_of bs"
    using meta_at_mono [OF b that, of off] entry_in_meta(1) [OF b, of off k] by simp
  show ?thesis using lt ge by linarith
qed

section \<open>Effects of the metadata updates\<close>

lemma append_entry_meta [simp]: "fst (append_entry m vb f) = m\<lparr>counter := counter m + 1\<rparr>"
  by (simp add: append_entry_def Let_def)

lemma append_entry_sizes [simp]:
  "st_size (snd (append_entry m vb f)) = st_size f" "fs_limit (snd (append_entry m vb f)) = fs_limit f"
  by (simp_all add: append_entry_def Let_def)

lemma wf_append_entry [wf_intros]: "wf_file f \<Longrightarrow> wf_file (snd (append_entry m vb f))"
  by (simp add: append_entry_def Let_def wf_intros)

lemma append_entry_bytes:
  assumes "x < pm_top m \<or> pm_top m + 4 \<le> x"
    and "x < pm_btm_addr m (counter m) \<or> pm_btm_addr m (counter m) + 8 \<le> x"
  shows "bytes (snd (append_entry m vb f)) x = bytes f x"
  using assms by (simp add: append_entry_def Let_def store32_def store64_def bytes_pm_store_outside)

lemma append_entry_loads:
  assumes "pm_top m + 64 \<le> pm_btm_addr m (counter m)" "pm_btm_addr m (counter m) + 8 \<le> st_size f"
  shows "load64 (snd (append_entry m vb f)) (pm_btm_addr m (counter m)) = vb AND ADDR_MASK"
    "load32 (snd (append_entry m vb f)) (pm_top m) = cint (load32 f (pm_top m) + 1)"
  using assms by (simp_all add: append_entry_def Let_def mem_simps mt_counter_def)

lemma append_entry_load32_frame:
  assumes "a + 4 \<le> pm_top m \<or> pm_top m + 4 \<le> a"
    and "a + 4 \<le> pm_btm_addr m (counter m) \<or> pm_btm_addr m (counter m) + 8 \<le> a"
  shows "load32 (snd (append_entry m vb f)) a = load32 f a"
  by (rule load32_frame, rule append_entry_bytes) (use assms in auto)

lemma append_entry_load64_frame:
  assumes "a + 8 \<le> pm_top m \<or> pm_top m + 4 \<le> a"
    and "a + 8 \<le> pm_btm_addr m (counter m) \<or> pm_btm_addr m (counter m) + 8 \<le> a"
  shows "load64 (snd (append_entry m vb f)) a = load64 f a"
  by (rule load64_frame, rule append_entry_bytes) (use assms in auto)

lemma and_ADDR_MASK: "w AND ADDR_MASK = take_bit 32 w"
  by (simp add: ADDR_MASK_def take_bit_eq_mask mask_eq_decr_exp)

lemma take_bit_uint32: "take_bit 32 (uint32 x) = uint32 x"
  by (simp add: uint32_def take_bit_eq_mod)

lemma vblock_mask [simp]: "vblock s off AND ADDR_MASK = vblock s off"
  by (simp add: and_ADDR_MASK vblock_def take_bit_of_int take_bit_uint32)

text \<open>A layer of \<open>n + 1\<close> entries read off a file that was updated from one of \<open>n\<close>.\<close>

lemma layer_at_snocI:
  assumes l: "layer_at f off bs mb es" and b: "wf_bs bs" and room: "int (length es) < mb"
    and m: "sl_magic g off = sl_magic f off" "sl_block_size g off = sl_block_size f off"
      "sl_max_block_num g off = sl_max_block_num f off"
      "sl_active_meta_num g off = seg_of (mps_of bs) (int (length es) + 1)"
    and c: "\<And>i. 0 \<le> i \<Longrightarrow> i < seg_of (mps_of bs) (int (length es) + 1) \<Longrightarrow>
        mt_counter g (meta_at off bs i) = mps_of bs"
      "mt_counter g (meta_at off bs (seg_of (mps_of bs) (int (length es) + 1))) =
        act_of (mps_of bs) (int (length es) + 1)"
    and e: "\<And>k. k < length es \<Longrightarrow> load64 g (entry_at off bs (int k)) = load64 f (entry_at off bs (int k))"
      "load64 g (entry_at off bs (int (length es))) = v"
  shows "layer_at g off bs mb (es @ [v])"
proof -
  have en: "load64 g (entry_at off bs (int k)) = (es @ [v]) ! k" if "k < Suc (length es)" for k
    using that e layer_atD(6) [OF l] by (cases "k = length es") (simp_all add: nth_append)
  have len: "int (length (es @ [v])) = int (length es) + 1" by simp
  have ct: "mt_counter g (meta_at off bs i) =
      (if i < seg_of (mps_of bs) (int (length es) + 1) then mps_of bs
       else act_of (mps_of bs) (int (length es) + 1))"
    if "0 \<le> i" "i \<le> seg_of (mps_of bs) (int (length es) + 1)" for i
    using c that by (cases "i = seg_of (mps_of bs) (int (length es) + 1)") simp_all
  show ?thesis
    unfolding layer_at_def len using m layer_atD(1-3) [OF l] ct en room by auto
qed


lemma super_of_fields [simp]:
  "pm_super (super_of fdn off bs mb n) = off" "block_size (super_of fdn off bs mb n) = bs"
  "max_block_num (super_of fdn off bs mb n) = mb" "fd (super_of fdn off bs mb n) = fdn"
  "active_meta_num (super_of fdn off bs mb n) = seg_of (mps_of bs) n"
  "max_per_seg (super_of fdn off bs mb n) = mps_of bs" "my_off (super_of fdn off bs mb n) = off"
  "active_meta_off (super_of fdn off bs mb n) = meta_at off bs (seg_of (mps_of bs) n)"
  "active_meta (super_of fdn off bs mb n) = active_of off bs n"
  by (simp_all add: super_of_def Let_def)

lemma active_of_fields [simp]:
  "pm_top (active_of off bs n) = meta_at off bs (seg_of (mps_of bs) n)"
  "pm_btm (active_of off bs n) = meta_at off bs (seg_of (mps_of bs) n) + CL_SIZE"
  "counter (active_of off bs n) = act_of (mps_of bs) n"
  by (simp_all add: active_of_def Let_def)

lemma entry_at_active:
  assumes "0 \<le> n" "0 < mps_of bs" "act_of (mps_of bs) n < mps_of bs"
  shows "entry_at off bs n = meta_at off bs (seg_of (mps_of bs) n) + 64 + 8 * act_of (mps_of bs) n"
  using seg_step_same [OF assms] by (simp add: entry_at_def)

lemma layer_append_same:
  assumes l: "layer_at f off bs mb es" and b: "wf_bs bs" and room: "int (length es) < mb"
    and act: "act_of (mps_of bs) (int (length es)) < mps_of bs"
    and e: "layer_end off bs (int (length es)) \<le> st_size f" and vb: "vb AND ADDR_MASK = vb"
  defines "m \<equiv> active_of off bs (int (length es))"
  shows "layer_at (snd (append_entry m vb f)) off bs mb (es @ [vb])"
proof -
  let ?n = "int (length es)" and ?m = "mps_of bs" and ?g = "snd (append_entry m vb f)"
  let ?seg = "seg_of ?m ?n"
  have m: "0 < ?m" using mps_ge [OF b] by simp
  have n0: "0 \<le> ?n" by simp
  note step = seg_step_same [OF n0 m act]
  have tp: "pm_top m = meta_at off bs ?seg" and a: "pm_btm_addr m (counter m) = entry_at off bs ?n"
    using entry_at_active [OF n0 m act, of off] by (simp_all add: m_def pm_btm_addr_def ENTRY_SIZE_def CL_SIZE_def)
  have rng: "meta_at off bs ?seg + 64 \<le> entry_at off bs ?n" "entry_at off bs ?n + 8 \<le> meta_at off bs ?seg + bs"
    using entry_in_meta [OF b, of off ?n] step(3) by simp_all
  have sz: "entry_at off bs ?n + 8 \<le> st_size f"
    using rng(2) layer_end_ge(2) [OF b n0, of off] e by simp
  have lo: "off + bs \<le> meta_at off bs ?seg"
    using meta_at_mono [OF b seg_of_nonneg [OF n0 m], of off] by (simp add: meta_at_def)
  have out: "bytes ?g x = bytes f x" if "x < off + bs" for x
    using that lo rng(1) by (intro append_entry_bytes) (simp_all add: tp a)
  have sl: "sl_magic ?g off = sl_magic f off" "sl_block_size ?g off = sl_block_size f off"
    "sl_max_block_num ?g off = sl_max_block_num f off" "sl_active_meta_num ?g off = sl_active_meta_num f off"
    using sl_frame [of off ?g f] out wf_bsD(1) [OF b] by simp_all
  have ct: "mt_counter ?g (meta_at off bs i) = mt_counter f (meta_at off bs i)" if "i < ?seg" for i
    unfolding mt_counter_def
    using meta_at_gap [OF b that, of off] rng wf_bsD(1) [OF b]
    by (intro append_entry_load32_frame) (simp_all add: tp a)
  have "act_of ?m ?n + 1 \<le> ?m" using act by simp
  also have "?m \<le> bs" using mps_bs [OF b] m by linarith
  finally have "cint (act_of ?m ?n + 1) = act_of ?m ?n + 1"
    using wf_bsD(2) [OF b] act_of_bounds(1) [OF n0 m] by (intro cint_id) simp_all
  moreover have "mt_counter ?g (meta_at off bs ?seg) = cint (mt_counter f (meta_at off bs ?seg) + 1)"
    using append_entry_loads(2) [of m f vb] rng sz by (simp add: tp a mt_counter_def)
  ultimately have last: "mt_counter ?g (meta_at off bs ?seg) = act_of ?m (?n + 1)"
    using layer_at_active [OF l b] step(2) by simp
  have en: "load64 ?g (entry_at off bs (int k)) = load64 f (entry_at off bs (int k))" if "k < length es" for k
    using entry_meta_disjoint [OF b, of off "int k" ?seg] entry_entry_disjoint [OF b, of "int k" ?n off] that
    by (intro append_entry_load64_frame) (auto simp: tp a)
  have new: "load64 ?g (entry_at off bs ?n) = vb"
    using append_entry_loads(1) [of m f vb] rng sz vb by (simp add: tp a)
  show ?thesis
    using l b room sl layer_atD(4) [OF l] ct layer_atD(5) [OF l] last en new
    by (intro layer_at_snocI [of f]) (simp_all add: step)
qed

lemma append_same_image:
  assumes r: "image_rel f bs mb (ls0 @ [es])" and room: "int (length es) < mb"
    and act: "act_of (mps_of bs) (int (length es)) < mps_of bs"
    and e: "layer_end (image_end 0 bs ls0) bs (int (length es) + 1) \<le> st_size f"
    and vb: "vb AND ADDR_MASK = vb"
  defines "m \<equiv> active_of (image_end 0 bs ls0) bs (int (length es))"
  shows "image_rel (snd (append_entry m vb f)) bs mb (ls0 @ [es @ [vb]])"
proof -
  let ?off = "image_end 0 bs ls0" and ?n = "int (length es)" and ?g = "snd (append_entry m vb f)"
  have b: "wf_bs bs" and w: "wf_file f" using r by (simp_all add: image_rel_def)
  have m: "0 < mps_of bs" using mps_ge [OF b] by simp
  have n0: "0 \<le> ?n" by simp
  have l: "layer_at f ?off bs mb es" "layer_end ?off bs ?n \<le> st_size f"
    using r image_at_append_last [of f 0 bs mb ls0 es] by (simp_all add: image_rel_def)
  have lo: "?off + bs \<le> meta_at ?off bs (seg_of (mps_of bs) ?n)"
    "meta_at ?off bs (seg_of (mps_of bs) ?n) + bs \<le> layer_end ?off bs ?n"
    using meta_at_range [OF b, of "seg_of (mps_of bs) ?n" "length es" ?off] seg_of_nonneg [OF n0 m] by simp_all
  have a: "pm_top m = meta_at ?off bs (seg_of (mps_of bs) ?n)"
    "pm_btm_addr m (counter m) = entry_at ?off bs ?n"
    using entry_at_active [OF n0 m act, of ?off] by (simp_all add: m_def pm_btm_addr_def ENTRY_SIZE_def CL_SIZE_def)
  have rng: "meta_at ?off bs (seg_of (mps_of bs) ?n) + 64 \<le> entry_at ?off bs ?n"
    "entry_at ?off bs ?n + 8 \<le> meta_at ?off bs (seg_of (mps_of bs) ?n) + bs"
    using entry_in_meta [OF b, of ?off ?n] seg_step_same(3) [OF n0 m act] by simp_all
  have out: "bytes ?g x = bytes f x" if "x < ?off + bs \<or> layer_end ?off bs ?n \<le> x" for x
    using that lo rng wf_bsD(1) [OF b] by (intro append_entry_bytes) (auto simp: a)
  have le: "layer_end ?off bs ?n \<le> layer_end ?off bs (?n + 1)"
    using seg_step_same(1) [OF n0 m act] wf_bsD(1) [OF b] by (simp add: layer_end_def)
  have z: "bytes f x = 0" if "layer_end ?off bs ?n \<le> x" for x
    using r that by (simp add: image_rel_def image_end_append)
  show ?thesis
  proof (rule image_rel_replace_last [OF r])
    show "wf_file ?g" using w by (rule wf_append_entry)
    show "bytes f x = bytes ?g x" if "x < ?off" for x
      using out [of x] that wf_bsD(1) [OF b] by simp
    show "layer_at ?g ?off bs mb (es @ [vb])"
      unfolding m_def by (rule layer_append_same [OF l(1) b room act l(2) vb])
    show "layer_end ?off bs (int (length (es @ [vb]))) \<le> st_size ?g" using e by (simp add: add.commute)
    show "bytes ?g x = 0" if "layer_end ?off bs (int (length (es @ [vb]))) \<le> x" for x
      using out [of x] z [of x] that le by (simp add: add.commute)
  qed
qed


lemma meta_at_next:
  assumes "act_of (mps_of bs) n = mps_of bs"
  shows "meta_at off bs (seg_of (mps_of bs) n + 1) = layer_end off bs n"
  using assms by (simp add: layer_end_act) (simp add: meta_at_def algebra_simps)

lemma link_meta_loads:
  assumes "pm_super s + 12 \<le> st_size f"
  shows "sl_active_meta_num (snd (link_meta s m f)) (pm_super s) = cint (active_meta_num s + 1)"
  using assms by (simp add: link_meta_def Let_def sl_active_meta_num_def mem_simps)
    (simp add: cint_def)

lemma link_meta_bytes:
  "x < pm_super s + 8 \<or> pm_super s + 12 \<le> x \<Longrightarrow> bytes (snd (link_meta s m f)) x = bytes f x"
  by (auto simp: link_meta_def Let_def store32_def bytes_pm_store_outside)

lemma link_meta_sizes [simp]:
  "st_size (snd (link_meta s m f)) = st_size f" "fs_limit (snd (link_meta s m f)) = fs_limit f"
  "fd (fst (link_meta s m f)) = fd s"
  by (simp_all add: link_meta_def Let_def)

lemma wf_link_meta [wf_intros]: "wf_file f \<Longrightarrow> wf_file (snd (link_meta s m f))"
  by (simp add: link_meta_def Let_def wf_intros)

text \<open>The file after the second branch of \<open>new_block\<close>, from the initialised meta block at \<open>e\<close> on.\<close>

definition new_seg_file :: "Super \<Rightarrow> int \<Rightarrow> u64 \<Rightarrow> pm_file \<Rightarrow> pm_file" where
  "new_seg_file s e vb f =
     (let (m1, f1) = append_entry \<lparr>pm_top = e, pm_btm = e + CL_SIZE, counter = 0\<rparr> vb f
      in snd (link_meta s m1 f1))"

lemma new_seg_file_sizes [simp]:
  "st_size (new_seg_file s e vb f) = st_size f" "fs_limit (new_seg_file s e vb f) = fs_limit f"
  by (simp_all add: new_seg_file_def split_beta)

lemma wf_new_seg_file [wf_intros]: "wf_file f \<Longrightarrow> wf_file (new_seg_file s e vb f)"
  by (simp add: new_seg_file_def split_beta wf_intros)

lemma new_seg_file_bytes:
  assumes "x < pm_super s + 8 \<or> pm_super s + 12 \<le> x" "x < e \<or> e + 72 \<le> x \<or> e + 8 \<le> x \<and> x < e + 64"
  shows "bytes (new_seg_file s e vb f) x = bytes f x"
  using assms
  by (auto simp: new_seg_file_def split_beta link_meta_bytes append_entry_bytes
      pm_btm_addr_def CL_SIZE_def)

lemma new_seg_file_loads:
  assumes "e + 72 \<le> st_size f" "pm_super s + 12 \<le> e" "load32 f e = 0"
  shows "load32 (new_seg_file s e vb f) e = 1" "load64 (new_seg_file s e vb f) (e + 64) = vb AND ADDR_MASK"
proof -
  let ?m = "\<lparr>pm_top = e, pm_btm = e + CL_SIZE, counter = 0\<rparr>"
  let ?f1 = "snd (append_entry ?m vb f)"
  have fr: "bytes (new_seg_file s e vb f) x = bytes ?f1 x" if "e \<le> x" for x
    using that assms(2) by (simp add: new_seg_file_def split_beta link_meta_bytes)
  have a: "pm_btm_addr ?m (counter ?m) = e + 64" by (simp add: pm_btm_addr_def CL_SIZE_def)
  have "load32 ?f1 e = 1"
    using append_entry_loads(2) [of ?m f vb] assms a by (simp add: cint_def)
  then show "load32 (new_seg_file s e vb f) e = 1"
    using load32_frame [of e "new_seg_file s e vb f" ?f1] fr by simp
  have "load64 ?f1 (e + 64) = vb AND ADDR_MASK"
    using append_entry_loads(1) [of ?m f vb] assms a by simp
  then show "load64 (new_seg_file s e vb f) (e + 64) = vb AND ADDR_MASK"
    using load64_frame [of "e + 64" "new_seg_file s e vb f" ?f1] fr by simp
qed

lemma layer_append_new:
  assumes l: "layer_at f off bs mb es" and b: "wf_bs bs" and room: "int (length es) < mb" "mb < 2147483647"
    and act: "act_of (mps_of bs) (int (length es)) = mps_of bs"
    and e: "layer_end off bs (int (length es)) + bs \<le> st_size f" and vb: "vb AND ADDR_MASK = vb"
    and z: "load32 f (layer_end off bs (int (length es))) = 0"
    and s: "pm_super s = off" "active_meta_num s = seg_of (mps_of bs) (int (length es))"
  shows "layer_at (new_seg_file s (layer_end off bs (int (length es))) vb f) off bs mb (es @ [vb])"
proof -
  let ?n = "int (length es)" and ?m = "mps_of bs" and ?e = "layer_end off bs (int (length es))"
  let ?seg = "seg_of ?m ?n" and ?g = "new_seg_file s ?e vb f"
  have m: "0 < ?m" using mps_ge [OF b] by simp
  have n0: "0 \<le> ?n" by simp
  note step = seg_step_new [OF n0 m act] and nxt = meta_at_next [OF act, of off]
  have eo: "off + 2 * bs \<le> ?e" by (rule layer_end_ge(1) [OF b n0])
  have out: "bytes ?g x = bytes f x" if "x < off + 8 \<or> off + 12 \<le> x" "x < ?e" for x
    using that by (intro new_seg_file_bytes) (simp_all add: s)
  have seg_le: "?seg + 1 \<le> ?n"
  proof -
    have "?seg + 1 \<le> (?seg + 1) * ?m" using m seg_of_nonneg [OF n0 m] by (simp add: mult_le_cancel_left1)
    also have "\<dots> = ?n" using seg_act [of ?m ?n] act by (simp add: algebra_simps)
    finally show ?thesis .
  qed
  have "sl_active_meta_num ?g off = cint (?seg + 1)"
    using link_meta_loads [of s] eo e wf_bsD(1) [OF b] by (simp add: new_seg_file_def split_beta s)
  then have amn: "sl_active_meta_num ?g off = seg_of ?m (?n + 1)"
    using seg_le seg_of_nonneg [OF n0 m] room step(1) by (simp add: cint_id)
  have sl: "sl_magic ?g off = sl_magic f off" "sl_block_size ?g off = sl_block_size f off"
    "sl_max_block_num ?g off = sl_max_block_num f off"
    unfolding sl_magic_def sl_block_size_def sl_max_block_num_def
    by (intro peek_cong load32_frame out; use eo wf_bsD(1) [OF b] in simp)+
  have ct: "mt_counter ?g (meta_at off bs i) = ?m" if "0 \<le> i" "i \<le> ?seg" for i
  proof -
    have "mt_counter ?g (meta_at off bs i) = mt_counter f (meta_at off bs i)"
      unfolding mt_counter_def
      by (rule load32_frame, rule out)
        (use meta_at_range [OF b that, of off] wf_bsD(1) [OF b] in simp_all)
    then show ?thesis
      using layer_atD(5) [OF l, of i] layer_at_active [OF l b] act that by (cases "i = ?seg") simp_all
  qed
  have en: "load64 ?g (entry_at off bs (int k)) = load64 f (entry_at off bs (int k))" if "k < length es" for k
    by (rule load64_frame, rule out) (use entry_at_range [OF b that, of off] wf_bsD(1) [OF b] in simp_all)
  have ld: "load32 ?g ?e = 1" "load64 ?g (?e + 64) = vb"
    using new_seg_file_loads [of ?e f s vb] e eo wf_bsD(1) [OF b] vb z by (simp_all add: s)
  have at_n: "entry_at off bs ?n = ?e + 64" by (simp add: entry_at_def step nxt)
  show ?thesis
    using l b room sl amn ct en ld
    by (intro layer_at_snocI [of f]) (simp_all add: step nxt at_n mt_counter_def)
qed

lemma append_new_image:
  assumes r: "image_rel f bs mb (ls0 @ [es])" and room: "int (length es) < mb"
    and act: "act_of (mps_of bs) (int (length es)) = mps_of bs"
    and e: "layer_end (image_end 0 bs ls0) bs (int (length es) + 1) \<le> st_size f"
    and vb: "vb AND ADDR_MASK = vb"
    and s: "pm_super s = image_end 0 bs ls0" "active_meta_num s = seg_of (mps_of bs) (int (length es))"
  shows "image_rel (new_seg_file s (image_end 0 bs (ls0 @ [es])) vb f) bs mb (ls0 @ [es @ [vb]])"
proof -
  let ?off = "image_end 0 bs ls0" and ?n = "int (length es)"
  let ?e = "layer_end ?off bs ?n" and ?g = "new_seg_file s (layer_end ?off bs ?n) vb f"
  have b: "wf_bs bs" and w: "wf_file f" and mb: "mb < 2147483647" using r by (simp_all add: image_rel_def)
  have m: "0 < mps_of bs" and n0: "0 \<le> ?n" using mps_ge [OF b] by simp_all
  have l: "layer_at f ?off bs mb es"
    using r image_at_append_last [of f 0 bs mb ls0 es] by (simp add: image_rel_def)
  have e1: "layer_end ?off bs (?n + 1) = ?e + 2 * bs"
    using seg_step_new(1) [OF n0 m act] by (simp add: layer_end_def algebra_simps)
  have eo: "?off + 2 * bs \<le> ?e" by (rule layer_end_ge(1) [OF b n0])
  have z: "bytes f x = 0" if "?e \<le> x" for x
    using r that by (simp add: image_rel_def image_end_append)
  have out: "bytes ?g x = bytes f x" if "x < ?off \<or> ?e + 2 * bs \<le> x" for x
    using that eo wf_bsD(1) [OF b] by (intro new_seg_file_bytes) (auto simp: s)
  have "image_rel ?g bs mb (ls0 @ [es @ [vb]])"
  proof (rule image_rel_replace_last [OF r])
    show "wf_file ?g" using w by (rule wf_new_seg_file)
    show "bytes f x = bytes ?g x" if "x < ?off" for x using out [of x] that by simp
    show "layer_at ?g ?off bs mb (es @ [vb])"
      using l b room mb act e e1 vb s wf_bsD(1) [OF b] get32_zero [of ?e "bytes f"] z
      by (intro layer_append_new) (simp_all add: load32_def)
    show "layer_end ?off bs (int (length (es @ [vb]))) \<le> st_size ?g" using e by (simp add: add.commute)
    show "bytes ?g x = 0" if "layer_end ?off bs (int (length (es @ [vb]))) \<le> x" for x
      using out [of x] z [of x] that e1 wf_bsD(1) [OF b] by (simp add: add.commute)
  qed
  then show ?thesis by (simp add: image_end_append)
qed


section \<open>Allocation on the runtime state\<close>

text \<open>
  \<open>writable_rel\<close>: the file of the current super holds the image with snapshots \<open>ls0\<close> and
  writable layer \<open>es\<close>, and \<open>cur_s\<close> is the super of that layer.
\<close>

definition super_sync :: "Super \<Rightarrow> int \<Rightarrow> int \<Rightarrow> int \<Rightarrow> int \<Rightarrow> bool" where
  "super_sync s off bs mb n \<longleftrightarrow>
     s = (super_of (fd s) off bs mb n)\<lparr>addr := addr s, fmmap_length := fmmap_length s, alloc_off := alloc_off s\<rparr>"

definition writable_rel :: "'a alloc_state_scheme \<Rightarrow> int \<Rightarrow> int \<Rightarrow> u64 list list \<Rightarrow> u64 list \<Rightarrow> bool" where
  "writable_rel st bs mb ls0 es \<longleftrightarrow>
     image_rel (img st) bs mb (ls0 @ [es])
     \<and> super_sync (cur_s st) (image_end 0 bs ls0) bs mb (int (length es))"

definition vblock_num :: "int \<Rightarrow> int \<Rightarrow> u64" where
  "vblock_num bs fault_off = word_of_int (uint32 (fault_off div ulong bs))"

lemma super_sync_fields:
  assumes "super_sync s off bs mb n"
  shows "pm_super s = off" "active_meta s = active_of off bs n" "block_size s = bs"
    "max_block_num s = mb" "active_meta_num s = seg_of (mps_of bs) n" "max_per_seg s = mps_of bs"
    "my_off s = off" "active_meta_off s = meta_at off bs (seg_of (mps_of bs) n)"
  by (subst assms [unfolded super_sync_def], simp)+

lemma super_syncI:
  assumes "pm_super s = off" "active_meta s = active_of off bs n" "block_size s = bs"
    "max_block_num s = mb" "active_meta_num s = seg_of (mps_of bs) n" "max_per_seg s = mps_of bs"
    "my_off s = off" "active_meta_off s = meta_at off bs (seg_of (mps_of bs) n)"
  shows "super_sync s off bs mb n"
  unfolding super_sync_def using assms by (cases s) (simp add: super_of_def Let_def)

lemma super_sync_alloc_off [simp]:
  "super_sync (s\<lparr>alloc_off := a\<rparr>) off bs mb n = super_sync s off bs mb n"
  by (auto dest: super_sync_fields intro!: super_syncI)

lemma vblock_sync: "super_sync s off bs mb n \<Longrightarrow> vblock s a = vblock_num bs a"
  by (simp add: vblock_def vblock_num_def super_sync_fields)

lemma vblock_num_mask: "vblock_num bs a AND ADDR_MASK = vblock_num bs a"
  by (simp add: vblock_num_def and_ADDR_MASK take_bit_of_int take_bit_uint32)

lemma writable_relD:
  assumes "writable_rel st bs mb ls0 es"
  shows "image_rel (img st) bs mb (ls0 @ [es])"
    "super_sync (cur_s st) (image_end 0 bs ls0) bs mb (int (length es))"
    "wf_bs bs" "wf_file (img st)" "mb < 2147483647" "0 < mps_of bs"
    "layer_end (image_end 0 bs ls0) bs (int (length es)) \<le> st_size (img st)"
    "int (length es) \<le> mb" "0 \<le> image_end 0 bs ls0" "image_end 0 bs ls0 mod 4096 = 0"
proof -
  show r: "image_rel (img st) bs mb (ls0 @ [es])"
    and "super_sync (cur_s st) (image_end 0 bs ls0) bs mb (int (length es))"
    using assms by (simp_all add: writable_rel_def)
  show b: "wf_bs bs" and "wf_file (img st)" "mb < 2147483647" using r by (simp_all add: image_rel_def)
  show "0 < mps_of bs" using mps_ge [OF b] by simp
  have l: "layer_at (img st) (image_end 0 bs ls0) bs mb es
      \<and> layer_end (image_end 0 bs ls0) bs (int (length es)) \<le> st_size (img st)"
    using r by (intro image_at_append_last) (simp add: image_rel_def)
  then show "layer_end (image_end 0 bs ls0) bs (int (length es)) \<le> st_size (img st)" by simp
  show "int (length es) \<le> mb" using l layer_atD(7) by blast
  show "0 \<le> image_end 0 bs ls0" "image_end 0 bs ls0 mod 4096 = 0"
    using image_end_ge [OF b] image_end_aligned [OF b] by simp_all
qed

lemma out_of_range_iff:
  assumes "writable_rel st bs mb ls0 es"
  shows "out_of_range (cur_s st) \<longleftrightarrow> mb < int (length es) + 1"
proof -
  note w = writable_relD [OF assms] and s = super_sync_fields [OF writable_relD(2) [OF assms]]
  have "active_meta_num (cur_s st) * max_per_seg (cur_s st) + counter (active_meta (cur_s st)) + 1 = int (length es) + 1"
    using seg_act [of "mps_of bs" "int (length es)"] by (simp add: s)
  moreover have "cint (int (length es) + 1) = int (length es) + 1"
    using w(5,8) by (intro cint_id) simp_all
  ultimately show ?thesis
    by (auto simp: out_of_range_def s)
qed

lemma next_off_sync:
  assumes "writable_rel st bs mb ls0 es"
  shows "next_off (cur_s st) = layer_end (image_end 0 bs ls0) bs (int (length es))"
proof -
  note w = writable_relD [OF assms] and s = super_sync_fields [OF writable_relD(2) [OF assms]]
  let ?off = "image_end 0 bs ls0" and ?n = "int (length es)"
  have "active_meta_off (cur_s st) + block_size (cur_s st) + counter (active_meta (cur_s st)) * block_size (cur_s st)
      = layer_end ?off bs ?n"
    by (simp add: s layer_end_act algebra_simps)
  moreover have "0 \<le> layer_end ?off bs ?n" "layer_end ?off bs ?n < 18446744073709551616"
    using layer_end_ge(1) [OF w(3), of ?n ?off] wf_bsD(1) [OF w(3)] w(4,7,9) by (simp_all add: wf_file_def)
  ultimately show ?thesis by (simp add: next_off_def ulong_id)
qed

lemma active_of_snoc:
  assumes "wf_bs bs" "0 \<le> n" "act_of (mps_of bs) n < mps_of bs"
  shows "(active_of off bs n)\<lparr>counter := counter (active_of off bs n) + 1\<rparr> = active_of off bs (n + 1)"
  using seg_step_same [OF assms(2) _ assms(3)] mps_ge [OF assms(1)] by (simp add: active_of_def Let_def)

lemma finish_same_rel:
  assumes w: "writable_rel st bs mb ls0 es" and room: "int (length es) < mb"
    and act: "act_of (mps_of bs) (int (length es)) < mps_of bs"
    and e: "layer_end (image_end 0 bs ls0) bs (int (length es) + 1) \<le> st_size (img st)"
  shows "writable_rel (finish_same a st) bs mb ls0 (es @ [vblock_num bs a])"
proof -
  note d = writable_relD [OF w] and s = super_sync_fields [OF writable_relD(2) [OF w]]
  let ?off = "image_end 0 bs ls0" and ?n = "int (length es)"
  let ?r = "append_entry (active_of ?off bs ?n) (vblock_num bs a) (img st)"
  have fs: "finish_same a st = (set_img (snd ?r) st)\<lparr>cur_s := (cur_s st)\<lparr>active_meta := fst ?r\<rparr>\<rparr>"
    by (simp add: finish_same_def Let_def split_beta s vblock_sync [OF d(2)])
  have sn: "(active_of ?off bs ?n)\<lparr>counter := act_of (mps_of bs) ?n + 1\<rparr> = active_of ?off bs (?n + 1)"
    using active_of_snoc [OF d(3) _ act, of ?off] by simp
  have "img (finish_same a st) = snd ?r" by (simp add: fs img_def set_img_def)
  moreover have "image_rel (snd ?r) bs mb (ls0 @ [es @ [vblock_num bs a]])"
    by (rule append_same_image [OF d(1) room act e vblock_num_mask])
  moreover have "super_sync (cur_s (finish_same a st)) ?off bs mb (?n + 1)"
    using seg_step_same(1) [OF _ d(6) act] by (intro super_syncI) (simp_all add: fs sn s)
  ultimately show ?thesis by (simp add: writable_rel_def add.commute)
qed

lemma finish_new_rel:
  assumes w: "writable_rel st bs mb ls0 es" and room: "int (length es) < mb"
    and act: "act_of (mps_of bs) (int (length es)) = mps_of bs"
    and e: "layer_end (image_end 0 bs ls0) bs (int (length es) + 1) \<le> st_size (img st)"
  defines "p \<equiv> layer_end (image_end 0 bs ls0) bs (int (length es))"
  shows "writable_rel (finish_new a \<lparr>pm_top = p, pm_btm = p + CL_SIZE, counter = 0\<rparr> st)
      bs mb ls0 (es @ [vblock_num bs a])"
proof -
  note d = writable_relD [OF w] and s = super_sync_fields [OF writable_relD(2) [OF w]]
  let ?off = "image_end 0 bs ls0" and ?n = "int (length es)" and ?s = "cur_s st" and ?m = "mps_of bs"
  let ?mt = "\<lparr>pm_top = p, pm_btm = p + CL_SIZE, counter = 0\<rparr>"
  let ?r = "append_entry ?mt (vblock_num bs a) (img st)"
  let ?l = "link_meta ?s (fst ?r) (snd ?r)"
  define st' where "st' = finish_new a ?mt st"
  have st': "st' = (set_img (snd ?l) st)\<lparr>cur_s := fst ?l\<rparr>"
    by (simp add: st'_def finish_new_def Let_def split_beta vblock_sync [OF d(2)])
  have n0: "0 \<le> ?n" by simp
  have step: "seg_of ?m (?n + 1) = seg_of ?m ?n + 1" "act_of ?m (?n + 1) = 1"
    using seg_step_new [OF n0 d(6) act] by simp_all
  have pe: "p = image_end 0 bs (ls0 @ [es])" by (simp add: p_def image_end_append)
  have "img st' = new_seg_file ?s p (vblock_num bs a) (img st)"
    by (simp add: st' img_def set_img_def new_seg_file_def split_beta)
  moreover have "image_rel (new_seg_file ?s p (vblock_num bs a) (img st)) bs mb (ls0 @ [es @ [vblock_num bs a]])"
    unfolding pe by (rule append_new_image [OF d(1) room act e vblock_num_mask s(1,5)])
  moreover have "super_sync (fst ?l) ?off bs mb (?n + 1)"
  proof (rule super_syncI)
    have seg_le: "seg_of ?m ?n + 1 \<le> ?n"
    proof -
      have "seg_of ?m ?n + 1 \<le> (seg_of ?m ?n + 1) * ?m"
        using d(6) seg_of_nonneg [OF n0 d(6)] by (simp add: mult_le_cancel_left1)
      also have "\<dots> = ?n" using seg_act [of ?m ?n] act by (simp add: algebra_simps)
      finally show ?thesis .
    qed
    then have amn: "cint (seg_of ?m ?n + 1) = seg_of ?m ?n + 1"
      using d(5) room seg_of_nonneg [OF n0 d(6)] by (simp add: cint_id)
    then show "active_meta_num (fst ?l) = seg_of ?m (?n + 1)" by (simp add: link_meta_def Let_def s step)
    have mp: "meta_at ?off bs (seg_of ?m ?n + 1) = p" unfolding p_def by (rule meta_at_next [OF act])
    then have sum: "?off + bs + (seg_of ?m ?n + 1) * (?m + 1) * bs = p"
      by (simp add: meta_at_def algebra_simps)
    have "0 \<le> p" "p < 18446744073709551616"
      using d(4,7,9) layer_end_ge(1) [OF d(3) n0, of ?off] wf_bsD(1) [OF d(3)]
      by (simp_all add: p_def wf_file_def)
    then show "active_meta_off (fst ?l) = meta_at ?off bs (seg_of ?m (?n + 1))"
      by (simp add: link_meta_def Let_def amn s step mp sum ulong_id)
    show "active_meta (fst ?l) = active_of ?off bs (?n + 1)"
      by (simp add: link_meta_def Let_def active_of_def step mp)
  qed (simp_all add: link_meta_def Let_def s)
  ultimately show ?thesis
    unfolding st'_def [symmetric] by (simp add: writable_rel_def st' add.commute)
qed

end
