(* ===== verification/Block_Source.thy ===== *)
theory Block_Source
  imports Block_Refine
begin

text \<open>
  The contract of block allocation and its two providers. The interface \<open>block_source\<close> is what
  the fault handlers rely on: a request for a virtual block appends its entry to the writable
  layer and hands out the data block the readers will look for. It is provided by the direct
  \<open>new_block\<close> and by the one that takes blocks from the pre-allocation ring, whose invariant
  (the ring holds consecutive fresh blocks, starting at the next data offset) is established
  here and kept by the pre-allocating thread.
\<close>

section \<open>Growing the file keeps the image\<close>

lemma image_rel_grow:
  assumes r: "image_rel f bs mb ls" and z: "st_size f \<le> z" "z \<le> fs_limit f"
  shows "image_rel (f\<lparr>st_size := z\<rparr>) bs mb ls"
proof -
  have b: "wf_bs bs" and ne: "ls \<noteq> []" and at0: "image_at f 0 bs mb ls" and w: "wf_file f"
    and zero: "\<And>x. image_end 0 bs ls \<le> x \<Longrightarrow> bytes f x = 0"
    using r by (auto simp: image_rel_def)
  have "no_super (f\<lparr>st_size := z\<rparr>) (image_end 0 bs ls)"
    by (rule no_super_zero) (simp add: zero)
  then have "image_at (f\<lparr>st_size := z\<rparr>) 0 bs mb (ls @ [])"
    using at0 b image_at_end_le [OF at0 ne] z by (intro image_at_extend [of f]) simp_all
  moreover have "wf_file (f\<lparr>st_size := z\<rparr>)" using w z by (auto simp: wf_file_def)
  ultimately show ?thesis using r by (simp add: image_rel_def)
qed

lemma fallocate_image:
  assumes "image_rel f bs mb ls" "0 \<le> off" "0 < len" "off + len \<le> fs_limit f"
  obtains g where "fallocate off len f = (0, g)" "image_rel g bs mb ls" "off + len \<le> st_size g"
    "st_size f \<le> st_size g" "bytes g = bytes f" "fs_limit g = fs_limit f"
proof
  let ?g = "f\<lparr>st_size := max (st_size f) (off + len)\<rparr>"
  show "fallocate off len f = (0, ?g)" using assms by (intro fallocate_ok)
  show "image_rel ?g bs mb ls"
    using assms by (intro image_rel_grow) (auto simp: image_rel_def wf_file_def)
qed simp_all

lemma writable_rel_set_img:
  "writable_rel st bs mb ls0 es \<Longrightarrow> image_rel g bs mb (ls0 @ [es]) \<Longrightarrow> writable_rel (set_img g st) bs mb ls0 es"
  by (simp add: writable_rel_def)

lemma data_at_same:
  assumes "wf_bs bs" "0 \<le> n" "act_of (mps_of bs) n < mps_of bs"
  shows "data_at off bs n = layer_end off bs n" "layer_end off bs (n + 1) = layer_end off bs n + bs"
proof -
  have m: "0 < mps_of bs" using mps_ge [OF assms(1)] by simp
  note s = seg_step_same [OF assms(2) m assms(3)]
  show "data_at off bs n = layer_end off bs n"
    by (simp add: data_at_def s layer_end_act meta_at_def algebra_simps)
  show "layer_end off bs (n + 1) = layer_end off bs n + bs"
    unfolding layer_end_def s(1) by (simp add: algebra_simps)
qed

lemma data_at_new:
  assumes "wf_bs bs" "0 \<le> n" "act_of (mps_of bs) n = mps_of bs"
  shows "data_at off bs n = layer_end off bs n + bs" "layer_end off bs (n + 1) = layer_end off bs n + 2 * bs"
proof -
  have m: "0 < mps_of bs" using mps_ge [OF assms(1)] by simp
  note s = seg_step_new [OF assms(2) m assms(3)]
  have "data_at off bs n = meta_at off bs (seg_of (mps_of bs) n + 1) + bs"
    by (simp add: data_at_def s meta_at_def algebra_simps)
  then show "data_at off bs n = layer_end off bs n + bs"
    by (simp add: meta_at_next [OF assms(3)])
  show "layer_end off bs (n + 1) = layer_end off bs n + 2 * bs"
    unfolding layer_end_def s(1) by (simp add: algebra_simps)
qed

text \<open>Blocks an allocation takes from the file: one for the data, one more for a new meta block.\<close>

definition blocks_needed :: "int \<Rightarrow> u64 list \<Rightarrow> int" where
  "blocks_needed bs es = (if act_of (mps_of bs) (int (length es)) < mps_of bs then 1 else 2)"

lemma layer_end_snoc:
  assumes "wf_bs bs"
  shows "layer_end off bs (int (length es) + 1) = layer_end off bs (int (length es)) + blocks_needed bs es * bs"
  using data_at_same(2) [OF assms, of "int (length es)" off] data_at_new(2) [OF assms, of "int (length es)" off]
    act_of_bounds(2) [of "int (length es)" "mps_of bs"] mps_ge [OF assms]
  by (cases "act_of (mps_of bs) (int (length es)) < mps_of bs") (auto simp: blocks_needed_def)

section \<open>The interface\<close>

locale block_source =
  fixes request :: "'st \<Rightarrow> int \<Rightarrow> (New_block \<times> 'st) res option"
    and holds :: "'st \<Rightarrow> int \<Rightarrow> int \<Rightarrow> u64 list list \<Rightarrow> u64 list \<Rightarrow> bool"
  assumes holds_bs: "holds st bs mb ls0 es \<Longrightarrow> wf_bs bs"
    and request_ok: "holds st bs mb ls0 es \<Longrightarrow> request st a = Some (Inr (nb, st')) \<Longrightarrow>
      holds st' bs mb ls0 (es @ [vblock_num bs a])
      \<and> block_off nb = data_at (image_end 0 bs ls0) bs (int (length es))"
    and request_full: "holds st bs mb ls0 es \<Longrightarrow> mb \<le> int (length es) \<Longrightarrow>
      request st a = Some (Inl Exit_failure)"
    and request_room: "holds st bs mb ls0 es \<Longrightarrow> request st a = Some (Inr r) \<Longrightarrow> int (length es) < mb"
begin

primrec requests :: "'st \<Rightarrow> int list \<Rightarrow> (New_block list \<times> 'st) res option" where
  "requests st [] = Some (Inr ([], st))"
| "requests st (a # as) =
     (case request st a of
        None \<Rightarrow> None
      | Some (Inl e) \<Rightarrow> Some (Inl e)
      | Some (Inr (nb, st1)) \<Rightarrow>
          map_option (\<lambda>r. res_bind r (\<lambda>(nbs, st2). Inr (nb # nbs, st2))) (requests st1 as))"

lemma requests_Cons:
  assumes "requests st (a # as) = Some (Inr (nbl, st'))"
  obtains nb st1 nbl1 where "request st a = Some (Inr (nb, st1))"
    "requests st1 as = Some (Inr (nbl1, st'))" "nbl = nb # nbl1"
  using assms by (auto split: option.splits sum.splits simp: res_bind_Inr_iff)

lemma requests_ok:
  "holds st bs mb ls0 es \<Longrightarrow> requests st as = Some (Inr (nbl, st')) \<Longrightarrow>
   holds st' bs mb ls0 (es @ map (vblock_num bs) as)
   \<and> map block_off nbl =
      map (\<lambda>k. data_at (image_end 0 bs ls0) bs (int k)) [length es..<length es + length as]"
proof (induction as arbitrary: st es nbl)
  case Nil
  then show ?case by simp
next
  case (Cons a as)
  from Cons.prems(2) obtain nb st1 nbl1 where r: "request st a = Some (Inr (nb, st1))"
    "requests st1 as = Some (Inr (nbl1, st'))" "nbl = nb # nbl1"
    by (rule requests_Cons)
  have "[length es..<length es + length (a # as)] =
      length es # [length (es @ [vblock_num bs a])..<length (es @ [vblock_num bs a]) + length as]"
    by (simp add: upt_conv_Cons del: upt_Suc)
  then show ?case
    using Cons.IH [OF _ r(2), of "es @ [vblock_num bs a]"] request_ok [OF Cons.prems(1) r(1)]
    by (simp add: r(3) del: upt_Suc)
qed

end

section \<open>The direct provider\<close>

lemma mmap_any_fields [simp]:
  "cur_s (snd (mmap_any len fdn off st)) = cur_s st" "files (snd (mmap_any len fdn off st)) = files st"
  "nbs (snd (mmap_any len fdn off st)) = nbs st" "nb_count (snd (mmap_any len fdn off st)) = nb_count st"
  "nb_available (snd (mmap_any len fdn off st)) = nb_available st"
  by (simp_all add: mmap_any_def)

lemma map_block_rel [simp]:
  "block_off (fst (map_block off st)) = off"
  "writable_rel (snd (map_block off st)) bs mb ls0 es = writable_rel st bs mb ls0 es"
  by (simp_all add: map_block_def split_beta writable_rel_def img_def)

lemma active_entry_backed:
  assumes "writable_rel st bs mb ls0 es" "layer_end (image_end 0 bs ls0) bs (int (length es)) \<le> st_size f"
    "act_of (mps_of bs) (int (length es)) < mps_of bs"
  shows "backed f (pm_btm_addr (active_meta (cur_s st)) (counter (active_meta (cur_s st))))"
proof -
  note d = writable_relD [OF assms(1)] and s = super_sync_fields [OF writable_relD(2) [OF assms(1)]]
  let ?off = "image_end 0 bs ls0" and ?n = "int (length es)"
  have a: "pm_btm_addr (active_meta (cur_s st)) (counter (active_meta (cur_s st))) = entry_at ?off bs ?n"
    using entry_at_active [OF _ d(6) assms(3), of ?off] by (simp add: s pm_btm_addr_def ENTRY_SIZE_def CL_SIZE_def)
  have "?off + bs \<le> meta_at ?off bs (seg_of (mps_of bs) ?n)"
    using meta_at_range(1) [OF d(3), of "seg_of (mps_of bs) ?n" "length es" ?off] seg_of_nonneg [OF _ d(6)] by simp
  then show ?thesis
    using entry_in_meta [OF d(3), of ?off ?n] seg_step_same(3) [OF _ d(6) assms(3)] d(9)
      layer_end_ge(2) [OF d(3), of ?n ?off] assms(2) wf_bsD(1) [OF d(3)]
    by (intro backed_less) (simp_all add: a)
qed

lemma init_meta_ok:
  assumes "wf_bs bs" "block_size s = bs" "block_off nb mod 4096 = 0" "0 \<le> block_off nb" "block_off nb < st_size f"
  shows "init_meta s nb f =
    Inr (\<lparr>pm_top = block_off nb, pm_btm = block_off nb + CL_SIZE, counter = 0\<rparr>, write_meta_top (block_off nb) f)"
  using assms backed_less [of "block_off nb" f] wf_bsD(1) [OF assms(1)]
  by (simp add: init_meta_def pm_mmap_def PAGE_SIZE_def)

lemma set_img_set_img [simp]: "set_img g (set_img f st) = set_img g st"
  by (simp add: set_img_def)

lemma new_block_direct_ok:
  assumes w: "writable_rel st bs mb ls0 es" and room: "int (length es) < mb"
    and lim: "layer_end (image_end 0 bs ls0) bs (int (length es) + 1) \<le> fs_limit (img st)"
  obtains nb st' where "new_block_direct st a = Inr (nb, st')"
    "writable_rel st' bs mb ls0 (es @ [vblock_num bs a])"
    "block_off nb = data_at (image_end 0 bs ls0) bs (int (length es))"
proof -
  note d = writable_relD [OF w] and s = super_sync_fields [OF writable_relD(2) [OF w]]
  let ?off = "image_end 0 bs ls0" and ?n = "int (length es)" and ?e = "layer_end (image_end 0 bs ls0) bs (int (length es))"
  have no: "next_off (cur_s st) = ?e" by (rule next_off_sync [OF w])
  have e0: "0 \<le> ?e" "?e mod 4096 = 0" using layer_end_wf [OF d(3,9,10)] by auto
  have bs: "4096 \<le> bs" by (rule wf_bsD(1) [OF d(3)])
  have rng: "\<not> out_of_range (cur_s st)" using out_of_range_iff [OF w] room by simp
  show thesis
  proof (cases "act_of (mps_of bs) ?n < mps_of bs")
    case True
    have e1: "layer_end ?off bs (?n + 1) = ?e + bs" "data_at ?off bs ?n = ?e"
      using data_at_same [OF d(3) _ True] by simp_all
    obtain g where g: "fallocate ?e bs (img st) = (0, g)" "image_rel g bs mb (ls0 @ [es])"
      "?e + bs \<le> st_size g" "st_size (img st) \<le> st_size g"
      using fallocate_image [OF d(1) e0(1), of bs] bs lim e1 by auto
    have w1: "writable_rel (set_img g st) bs mb ls0 es" using w g(2) by (rule writable_rel_set_img)
    have "writable_rel (finish_same a (set_img g st)) bs mb ls0 (es @ [vblock_num bs a])"
      using w1 room True by (rule finish_same_rel) (simp add: e1 g(3))
    moreover have "backed g (pm_btm_addr (active_meta (cur_s st)) (counter (active_meta (cur_s st))))"
      using order_trans [OF d(7) g(4)] by (rule active_entry_backed [OF w _ True])
    ultimately show thesis
      using that [of "fst (map_block ?e (finish_same a (set_img g st)))" "snd (map_block ?e (finish_same a (set_img g st)))"]
        rng True bs g(1) by (simp add: new_block_direct_def s no e1 Let_def)
  next
    case False
    then have act: "act_of (mps_of bs) ?n = mps_of bs" using act_of_bounds(2) [of ?n, OF _ d(6)] by simp
    have e1: "layer_end ?off bs (?n + 1) = ?e + 2 * bs" "data_at ?off bs ?n = ?e + bs"
      using data_at_new [OF d(3) _ act] by simp_all
    obtain g where g: "fallocate ?e bs (img st) = (0, g)" "image_rel g bs mb (ls0 @ [es])"
      "?e + bs \<le> st_size g" "fs_limit g = fs_limit (img st)"
      using fallocate_image [OF d(1) e0(1), of bs] bs lim e1 by auto
    let ?nb = "\<lparr>block_off = ?e, map_addr = 0, map_addr2 = 0\<rparr>"
    let ?mt = "\<lparr>pm_top = ?e, pm_btm = ?e + CL_SIZE, counter = 0\<rparr>"
    have nm: "new_meta_direct st = Inr (?mt, set_img (write_meta_top ?e g) st)"
      using init_meta_ok [OF d(3), of "cur_s st" ?nb g] e0 bs g(1,3)
      by (simp add: new_meta_direct_def no s Let_def)
    have pe: "?e = image_end 0 bs (ls0 @ [es])" by (simp add: image_end_append)
    have wi: "image_rel (write_meta_top ?e g) bs mb (ls0 @ [es])"
      unfolding pe by (rule write_meta_top_image [OF g(2)])
    obtain h where h: "fallocate (?e + bs) bs (write_meta_top ?e g) = (0, h)"
      "image_rel h bs mb (ls0 @ [es])" "?e + bs + bs \<le> st_size h"
      using fallocate_image [OF wi, of "?e + bs" bs] e0 bs lim e1 g(4) by auto
    have w1: "writable_rel (set_img h st) bs mb ls0 es" using w h(2) by (rule writable_rel_set_img)
    have "writable_rel (finish_new a ?mt (set_img h st)) bs mb ls0 (es @ [vblock_num bs a])"
      using finish_new_rel [OF w1 room act, of a] e1 h(3) by simp
    moreover have "ulong (?e + bs) = ?e + bs"
      using e0 bs lim e1 d(4) by (intro ulong_id) (simp_all add: wf_file_def)
    moreover have "backed h (?e + 64)"
      using e0 bs h(3) by (intro backed_less) simp_all
    ultimately show thesis
      using that [of "fst (map_block (?e + bs) (finish_new a ?mt (set_img h st)))"
          "snd (map_block (?e + bs) (finish_new a ?mt (set_img h st)))"] rng act bs
      by (simp add: new_block_direct_def s no e1 Let_def nm h(1) pm_btm_addr_def CL_SIZE_def)
  qed
qed


lemma fallocate_fails: "fs_limit f < off + len \<Longrightarrow> fallocate off len f = (-1, f)"
  by (simp add: fallocate_def)

lemma new_block_direct_nospace:
  assumes w: "writable_rel st bs mb ls0 es" and room: "int (length es) < mb"
    and lim: "fs_limit (img st) < layer_end (image_end 0 bs ls0) bs (int (length es) + 1)"
  shows "new_block_direct st a = Inl Exit_failure \<or> new_block_direct st a = Inl Assert_failed"
proof -
  note d = writable_relD [OF w] and s = super_sync_fields [OF writable_relD(2) [OF w]]
  let ?off = "image_end 0 bs ls0" and ?n = "int (length es)" and ?e = "layer_end (image_end 0 bs ls0) bs (int (length es))"
  have no: "next_off (cur_s st) = ?e" by (rule next_off_sync [OF w])
  have e0: "0 \<le> ?e" "?e mod 4096 = 0" using layer_end_wf [OF d(3,9,10)] by auto
  have bs: "4096 \<le> bs" by (rule wf_bsD(1) [OF d(3)])
  have rng: "\<not> out_of_range (cur_s st)" using out_of_range_iff [OF w] room by simp
  consider (same) "act_of (mps_of bs) ?n < mps_of bs"
    | (meta) "act_of (mps_of bs) ?n = mps_of bs" "fs_limit (img st) < ?e + bs"
    | (data) "act_of (mps_of bs) ?n = mps_of bs" "?e + bs \<le> fs_limit (img st)"
    using act_of_bounds(2) [of ?n, OF _ d(6)] by force
  then show ?thesis
  proof cases
    case same
    then show ?thesis
      using rng lim data_at_same(2) [OF d(3) _ same]
      by (simp add: new_block_direct_def s no Let_def fallocate_fails)
  next
    case meta
    then show ?thesis
      using rng by (simp add: new_block_direct_def new_meta_direct_def s no Let_def fallocate_fails)
  next
    case data
    let ?nb = "\<lparr>block_off = ?e, map_addr = 0, map_addr2 = 0\<rparr>"
    obtain g where g: "fallocate ?e bs (img st) = (0, g)" "?e + bs \<le> st_size g" "fs_limit g = fs_limit (img st)"
      using fallocate_image [OF d(1) e0(1), of bs] bs data by auto
    have "new_meta_direct st = Inr (\<lparr>pm_top = ?e, pm_btm = ?e + CL_SIZE, counter = 0\<rparr>, set_img (write_meta_top ?e g) st)"
      using init_meta_ok [OF d(3), of "cur_s st" ?nb g] e0 bs g
      by (simp add: new_meta_direct_def no s Let_def)
    moreover have "fallocate (?e + bs) bs (write_meta_top ?e g) = (-1, write_meta_top ?e g)"
      using lim g(3) data_at_new(2) [OF d(3) _ data(1)] by (simp add: fallocate_fails)
    moreover have "ulong (?e + bs) = ?e + bs"
      using e0 bs data d(4) by (intro ulong_id) (simp_all add: wf_file_def)
    ultimately show ?thesis
      using rng data by (simp add: new_block_direct_def s no Let_def)
  qed
qed

lemma new_block_direct_Inr:
  assumes w: "writable_rel st bs mb ls0 es" and r: "new_block_direct st a = Inr (nb, st')"
  shows "int (length es) < mb" "writable_rel st' bs mb ls0 (es @ [vblock_num bs a])"
    "block_off nb = data_at (image_end 0 bs ls0) bs (int (length es))"
proof -
  show room: "int (length es) < mb"
    using r out_of_range_iff [OF w] by (auto simp: new_block_direct_def Let_def split: if_splits)
  then have lim: "layer_end (image_end 0 bs ls0) bs (int (length es) + 1) \<le> fs_limit (img st)"
    using new_block_direct_nospace [OF w room, of a] r by force
  show "writable_rel st' bs mb ls0 (es @ [vblock_num bs a])"
    "block_off nb = data_at (image_end 0 bs ls0) bs (int (length es))"
    using new_block_direct_ok [OF w room lim, of a] r by auto
qed

interpretation direct: block_source "\<lambda>st a. Some (new_block_direct st a)" writable_rel
proof
  fix st :: "'a alloc_state_scheme" and bs mb ls0 es a nb st' and r :: "New_block \<times> 'a alloc_state_scheme"
  assume w: "writable_rel st bs mb ls0 es"
  show "wf_bs bs" by (rule writable_relD(3) [OF w])
  show "Some (new_block_direct st a) = Some (Inl Exit_failure)" if "mb \<le> int (length es)"
    using that out_of_range_iff [OF w] by (simp add: new_block_direct_def Let_def)
  show "writable_rel st' bs mb ls0 (es @ [vblock_num bs a]) \<and>
      block_off nb = data_at (image_end 0 bs ls0) bs (int (length es))"
    if "Some (new_block_direct st a) = Some (Inr (nb, st'))"
    using new_block_direct_Inr [OF w, of a nb st'] that by simp
  show "int (length es) < mb" if "Some (new_block_direct st a) = Some (Inr r)"
    using new_block_direct_Inr(1) [OF w, of a "fst r" "snd r"] that by simp
qed

section \<open>The ring of pre-allocated blocks\<close>

text \<open>
  \<open>ring_ok t\<close>: the ring holds \<open>nb_available\<close> consecutive blocks that end at \<open>alloc_off\<close>, inside
  the file, and \<open>t\<close> more blocks are taken but not yet part of the layer.
\<close>

definition ring_ok :: "int \<Rightarrow> 'a alloc_state_scheme \<Rightarrow> bool" where
  "ring_ok t st \<longleftrightarrow>
     (let s = cur_s st; bs = block_size s; q = nb_available st; c = nb_count st
      in 0 \<le> q \<and> q + t \<le> MAX_PRE_NUM \<and> q \<le> c \<and> c * bs \<le> alloc_off s \<and> alloc_off s \<le> st_size (img st)
         \<and> alloc_off s = next_off s + (q + t) * bs
         \<and> (\<forall>i\<in>{c - q..<c}. block_off (nbs st (i mod MAX_PRE_NUM)) = alloc_off s - (c - i) * bs))"

definition pre_rel :: "'a alloc_state_scheme \<Rightarrow> int \<Rightarrow> int \<Rightarrow> u64 list list \<Rightarrow> u64 list \<Rightarrow> bool" where
  "pre_rel st bs mb ls0 es \<longleftrightarrow> writable_rel st bs mb ls0 es \<and> ring_ok 0 st"

lemma ring_okD:
  assumes "ring_ok t st"
  shows "0 \<le> nb_available st" "nb_available st + t \<le> 5" "nb_available st \<le> nb_count st"
    "nb_count st * block_size (cur_s st) \<le> alloc_off (cur_s st)" "alloc_off (cur_s st) \<le> st_size (img st)"
    "alloc_off (cur_s st) = next_off (cur_s st) + (nb_available st + t) * block_size (cur_s st)"
    "\<And>i. nb_count st - nb_available st \<le> i \<Longrightarrow> i < nb_count st \<Longrightarrow>
      block_off (nbs st (i mod 5)) = alloc_off (cur_s st) - (nb_count st - i) * block_size (cur_s st)"
  using assms by (auto simp: ring_ok_def Let_def MAX_PRE_NUM_def)

lemma ring_okI:
  assumes "0 \<le> nb_available st" "nb_available st + t \<le> 5" "nb_available st \<le> nb_count st"
    "nb_count st * block_size (cur_s st) \<le> alloc_off (cur_s st)" "alloc_off (cur_s st) \<le> st_size (img st)"
    "alloc_off (cur_s st) = next_off (cur_s st) + (nb_available st + t) * block_size (cur_s st)"
    "\<And>i. nb_count st - nb_available st \<le> i \<Longrightarrow> i < nb_count st \<Longrightarrow>
      block_off (nbs st (i mod 5)) = alloc_off (cur_s st) - (nb_count st - i) * block_size (cur_s st)"
  shows "ring_ok t st"
  using assms by (simp add: ring_ok_def Let_def MAX_PRE_NUM_def)

lemma nb_count_bound:
  assumes "ring_ok t st" "writable_rel st bs mb ls0 es"
  shows "nb_count st < 9223372036854775808"
proof -
  note r = ring_okD [OF assms(1)] and d = writable_relD [OF assms(2)]
    and s = super_sync_fields [OF writable_relD(2) [OF assms(2)]]
  have "nb_count st * 1 \<le> nb_count st * bs"
    using r(1,3) wf_bsD(1) [OF d(3)] by (intro mult_left_mono) simp_all
  also have "\<dots> < 9223372036854775808" using r(4,5) d(4) by (simp add: s wf_file_def)
  finally show ?thesis by simp
qed

lemma take_nb_ok:
  assumes ok: "ring_ok t st" and w: "writable_rel st bs mb ls0 es" and q: "0 < nb_available st"
  obtains nb st' where "take_nb st = Some (nb, st')"
    "block_off nb = layer_end (image_end 0 bs ls0) bs (int (length es)) + t * bs"
    "ring_ok (t + 1) st'" "writable_rel st' bs mb ls0 es" "img st' = img st" "cur_s st' = cur_s st"
    "nb_available st' = nb_available st - 1" "st' = st\<lparr>nb_available := nb_available st - 1\<rparr>"
proof -
  note r = ring_okD [OF ok] and s = super_sync_fields [OF writable_relD(2) [OF w]]
  let ?i = "nb_count st - nb_available st" and ?st = "st\<lparr>nb_available := nb_available st - 1\<rparr>"
  have u: "ulong ?i = ?i"
    using r(1,3) nb_count_bound [OF ok w] by (intro ulong_id) simp_all
  have nb: "block_off (nbs st (?i mod 5)) = layer_end (image_end 0 bs ls0) bs (int (length es)) + t * bs"
    using r(7) [of ?i] q r(6) next_off_sync [OF w] by (simp add: s algebra_simps)
  have im: "img ?st = img st" by (simp add: img_def)
  have "ring_ok (t + 1) ?st"
    using r q by (intro ring_okI) (simp_all add: im)
  then show thesis
    using that [of "nbs st (?i mod 5)" ?st] nb q w
    by (simp add: take_nb_def u MAX_PRE_NUM_def writable_rel_def im)
qed


lemma ring_ok_transfer:
  assumes "ring_ok t st" "nb_available st' = nb_available st" "nb_count st' = nb_count st" "nbs st' = nbs st"
    "alloc_off (cur_s st') = alloc_off (cur_s st)" "block_size (cur_s st') = block_size (cur_s st)"
    "st_size (img st') = st_size (img st)" "0 \<le> j"
    "next_off (cur_s st') = next_off (cur_s st) + j * block_size (cur_s st)"
  shows "ring_ok (t - j) st'"
  using ring_okD [OF assms(1)] assms(2-) by (intro ring_okI) (simp_all add: algebra_simps)

lemma finish_fields [simp]:
  "nb_available (finish_same a st) = nb_available st" "nb_count (finish_same a st) = nb_count st"
  "nbs (finish_same a st) = nbs st" "alloc_off (cur_s (finish_same a st)) = alloc_off (cur_s st)"
  "st_size (img (finish_same a st)) = st_size (img st)"
  "nb_available (finish_new a m st) = nb_available st" "nb_count (finish_new a m st) = nb_count st"
  "nbs (finish_new a m st) = nbs st" "alloc_off (cur_s (finish_new a m st)) = alloc_off (cur_s st)"
  "st_size (img (finish_new a m st)) = st_size (img st)"
  "vm (finish_same a st) = vm st" "vm (finish_new a m st) = vm st"
  "vm_next (finish_same a st) = vm_next st" "vm_next (finish_new a m st) = vm_next st"
  by (simp_all add: finish_same_def finish_new_def split_beta Let_def img_def set_img_def link_meta_def)

lemma finish_same_pre:
  assumes w: "writable_rel st bs mb ls0 es" and ok: "ring_ok 1 st" and room: "int (length es) < mb"
    and act: "act_of (mps_of bs) (int (length es)) < mps_of bs"
  shows "pre_rel (finish_same a st) bs mb ls0 (es @ [vblock_num bs a])"
proof -
  note d = writable_relD [OF w] and s = super_sync_fields [OF writable_relD(2) [OF w]]
  let ?off = "image_end 0 bs ls0" and ?n = "int (length es)"
  have e1: "layer_end ?off bs (?n + 1) = layer_end ?off bs ?n + bs"
    using data_at_same(2) [OF d(3) _ act] by simp
  have "layer_end ?off bs ?n + bs \<le> alloc_off (cur_s st)"
    using ring_okD(1,6) [OF ok] wf_bsD(1) [OF d(3)] next_off_sync [OF w] by (simp add: s algebra_simps)
  then have w': "writable_rel (finish_same a st) bs mb ls0 (es @ [vblock_num bs a])"
    using ring_okD(5) [OF ok] by (intro finish_same_rel w room act) (simp add: e1)
  have "next_off (cur_s (finish_same a st)) = next_off (cur_s st) + 1 * block_size (cur_s st)"
    using next_off_sync [OF w'] next_off_sync [OF w] e1 by (simp add: s add.commute)
  then have "ring_ok (1 - 1) (finish_same a st)"
    using super_sync_fields(3) [OF writable_relD(2) [OF w']]
    by (intro ring_ok_transfer [OF ok]) (simp_all add: s)
  with w' show ?thesis by (simp add: pre_rel_def)
qed

lemma finish_new_pre:
  assumes w: "writable_rel st bs mb ls0 es" and ok: "ring_ok 2 st" and room: "int (length es) < mb"
    and act: "act_of (mps_of bs) (int (length es)) = mps_of bs"
  defines "p \<equiv> layer_end (image_end 0 bs ls0) bs (int (length es))"
  shows "pre_rel (finish_new a \<lparr>pm_top = p, pm_btm = p + CL_SIZE, counter = 0\<rparr> st)
      bs mb ls0 (es @ [vblock_num bs a])"
proof -
  note d = writable_relD [OF w] and s = super_sync_fields [OF writable_relD(2) [OF w]]
  let ?off = "image_end 0 bs ls0" and ?n = "int (length es)"
  let ?st = "finish_new a \<lparr>pm_top = p, pm_btm = p + CL_SIZE, counter = 0\<rparr> st"
  have e1: "layer_end ?off bs (?n + 1) = layer_end ?off bs ?n + 2 * bs"
    using data_at_new(2) [OF d(3) _ act] by simp
  have "0 \<le> nb_available st * bs" using ring_okD(1) [OF ok] wf_bsD(1) [OF d(3)] by simp
  then have "layer_end ?off bs ?n + 2 * bs \<le> alloc_off (cur_s st)"
    using ring_okD(6) [OF ok] next_off_sync [OF w] by (simp add: s algebra_simps)
  then have w': "writable_rel ?st bs mb ls0 (es @ [vblock_num bs a])"
    unfolding p_def using ring_okD(5) [OF ok] by (intro finish_new_rel w room act) (simp add: e1)
  have "next_off (cur_s ?st) = next_off (cur_s st) + 2 * block_size (cur_s st)"
    using next_off_sync [OF w'] next_off_sync [OF w] e1 by (simp add: s add.commute)
  then have "ring_ok (2 - 2) ?st"
    using super_sync_fields(3) [OF writable_relD(2) [OF w']]
    by (intro ring_ok_transfer [OF ok]) (simp_all add: s)
  with w' show ?thesis by (simp add: pre_rel_def)
qed

text \<open>\<open>new_meta\<close> takes the block right after the layer, where the next meta block belongs.\<close>

lemma new_meta_ok:
  assumes w: "writable_rel st bs mb ls0 es" and ok: "ring_ok 0 st" and q: "0 < nb_available st"
  defines "p \<equiv> layer_end (image_end 0 bs ls0) bs (int (length es))"
  defines "st1 \<equiv> set_img (write_meta_top p (img st)) (st\<lparr>nb_available := nb_available st - 1\<rparr>)"
  shows "new_meta st = Some (Inr (\<lparr>pm_top = p, pm_btm = p + CL_SIZE, counter = 0\<rparr>, st1))"
    and "writable_rel st1 bs mb ls0 es" "ring_ok 1 st1" "nb_available st1 = nb_available st - 1"
    "st_size (img st1) = st_size (img st)"
proof -
  note d = writable_relD [OF w] and s = super_sync_fields [OF writable_relD(2) [OF w]]
  let ?st = "st\<lparr>nb_available := nb_available st - 1\<rparr>"
  obtain nb where t: "take_nb st = Some (nb, ?st)" "block_off nb = p" and st1: "ring_ok 1 ?st"
    "writable_rel ?st bs mb ls0 es" "img ?st = img st" "cur_s ?st = cur_s st"
    using take_nb_ok [OF ok w q] unfolding p_def by (metis add_0 mult_zero_left add.right_neutral)
  have p: "0 \<le> p" "p mod 4096 = 0" unfolding p_def using layer_end_wf [OF d(3,9,10)] by auto
  have "0 < nb_available st * bs" using q wf_bsD(1) [OF d(3)] by simp
  then have "p < st_size (img st)"
    using ring_okD(5,6) [OF ok] next_off_sync [OF w] by (simp add: s p_def)
  then show "new_meta st = Some (Inr (\<lparr>pm_top = p, pm_btm = p + CL_SIZE, counter = 0\<rparr>, st1))"
    using init_meta_ok [OF d(3), of "cur_s ?st" nb "img ?st"] p by (simp add: new_meta_def t st1 s st1_def)
  have "image_rel (write_meta_top p (img st)) bs mb (ls0 @ [es])"
    using write_meta_top_image [OF d(1)] by (simp add: p_def image_end_append)
  then show "writable_rel st1 bs mb ls0 es"
    unfolding st1_def using st1(2) by (intro writable_rel_set_img) simp_all
  have "ring_ok (1 - 0) st1"
    using st1(1) by (rule ring_ok_transfer) (simp_all add: st1_def st1(3))
  then show "ring_ok 1 st1" by simp
  show "nb_available st1 = nb_available st - 1" "st_size (img st1) = st_size (img st)"
    by (simp_all add: st1_def)
qed

lemma new_block_pre:
  assumes p: "pre_rel st bs mb ls0 es" and room: "int (length es) < mb"
    and q: "blocks_needed bs es \<le> nb_available st"
  obtains nb st' where "new_block st a = Some (Inr (nb, st'))"
    "pre_rel st' bs mb ls0 (es @ [vblock_num bs a])"
    "block_off nb = data_at (image_end 0 bs ls0) bs (int (length es))"
    "nb_available st' = nb_available st - blocks_needed bs es"
proof -
  have w: "writable_rel st bs mb ls0 es" and ok: "ring_ok 0 st" using p by (simp_all add: pre_rel_def)
  note d = writable_relD [OF w] and s = super_sync_fields [OF writable_relD(2) [OF w]]
  let ?off = "image_end 0 bs ls0" and ?n = "int (length es)"
  have rng: "\<not> out_of_range (cur_s st)" using out_of_range_iff [OF w] room by simp
  have bs: "bs \<noteq> 0" using wf_bsD(1) [OF d(3)] by simp
  show thesis
  proof (cases "act_of (mps_of bs) ?n < mps_of bs")
    case True
    then have "0 < nb_available st" using q by (simp add: blocks_needed_def)
    from ok w this obtain nb st1 where t: "take_nb st = Some (nb, st1)" "block_off nb = layer_end ?off bs ?n + 0 * bs"
      "ring_ok (0 + 1) st1" "writable_rel st1 bs mb ls0 es" "img st1 = img st" "cur_s st1 = cur_s st"
      "nb_available st1 = nb_available st - 1"
      by (rule take_nb_ok)
    have "backed (img st1) (pm_btm_addr (active_meta (cur_s st)) (counter (active_meta (cur_s st))))"
      using active_entry_backed [OF w d(7) True] by (simp add: t)
    then show thesis
      using that [of nb "finish_same a st1"] finish_same_pre [OF t(4) _ room True, of a] t rng True bs
        data_at_same(1) [OF d(3) _ True]
      by (simp add: new_block_def Let_def s blocks_needed_def)
  next
    case False
    then have act: "act_of (mps_of bs) ?n = mps_of bs" using act_of_bounds(2) [of ?n, OF _ d(6)] by simp
    have q2: "2 \<le> nb_available st" using q False by (simp add: blocks_needed_def)
    let ?p = "layer_end ?off bs ?n"
    obtain st1 where nm: "new_meta st = Some (Inr (\<lparr>pm_top = ?p, pm_btm = ?p + CL_SIZE, counter = 0\<rparr>, st1))"
      "writable_rel st1 bs mb ls0 es" "ring_ok 1 st1" "nb_available st1 = nb_available st - 1"
      "st_size (img st1) = st_size (img st)"
      using new_meta_ok [OF w ok] q2 by simp
    have q1: "0 < nb_available st1" using q2 nm(4) by simp
    from nm(3,2) q1 obtain nb st2 where t: "take_nb st1 = Some (nb, st2)" "block_off nb = ?p + 1 * bs"
      "ring_ok (1 + 1) st2" "writable_rel st2 bs mb ls0 es" "img st2 = img st1" "cur_s st2 = cur_s st1"
      "nb_available st2 = nb_available st1 - 1"
      by (rule take_nb_ok)
    have p0: "0 \<le> ?p" using layer_end_wf [OF d(3,9,10)] by auto
    have "2 * bs \<le> nb_available st * bs" using q2 wf_bsD(1) [OF d(3)] by (intro mult_right_mono) simp_all
    moreover have "alloc_off (cur_s st) = ?p + nb_available st * bs"
      using ring_okD(6) [OF ok] next_off_sync [OF w] by (simp add: s)
    ultimately have "?p + 64 < st_size (img st)"
      using ring_okD(5) [OF ok] wf_bsD(1) [OF d(3)] by linarith
    then have "backed (img st2) (?p + 64)" using p0 nm(5) t(5) by (intro backed_less) simp_all
    then show thesis
      using that [of nb "finish_new a \<lparr>pm_top = ?p, pm_btm = ?p + CL_SIZE, counter = 0\<rparr> st2"]
        finish_new_pre [OF t(4) _ room act, of a] t(1-3,5-7) rng act bs data_at_new(1) [OF d(3) _ act] q2 nm(1,4)
      by (simp add: new_block_def Let_def s blocks_needed_def pm_btm_addr_def CL_SIZE_def)
  qed
qed

text \<open>With too few blocks in the ring, \<open>new_block\<close> waits.\<close>

lemma new_block_waits:
  assumes p: "pre_rel st bs mb ls0 es" and room: "int (length es) < mb"
    and q: "nb_available st < blocks_needed bs es"
  shows "new_block st a = None"
proof -
  have w: "writable_rel st bs mb ls0 es" and ok: "ring_ok 0 st" using p by (simp_all add: pre_rel_def)
  note d = writable_relD [OF w] and s = super_sync_fields [OF writable_relD(2) [OF w]]
  have rng: "\<not> out_of_range (cur_s st)" using out_of_range_iff [OF w] room by simp
  have q0: "0 \<le> nb_available st" by (rule ring_okD(1) [OF ok])
  show ?thesis
  proof (cases "nb_available st = 0")
    case True
    then have "take_nb st = None" by (simp add: take_nb_def)
    with rng show ?thesis by (simp add: new_block_def new_meta_def Let_def)
  next
    case False
    then have one: "nb_available st = 1" "\<not> act_of (mps_of bs) (int (length es)) < mps_of bs"
      using q q0 by (auto simp: blocks_needed_def split: if_splits)
    then show ?thesis
      using new_meta_ok(1) [OF w ok] rng by (simp add: new_block_def Let_def s take_nb_def)
  qed
qed

interpretation ring: block_source new_block pre_rel
proof
  fix st :: "'a alloc_state_scheme" and bs mb ls0 es a nb st' and r :: "New_block \<times> 'a alloc_state_scheme"
  assume p: "pre_rel st bs mb ls0 es"
  then have w: "writable_rel st bs mb ls0 es" by (simp add: pre_rel_def)
  show "wf_bs bs" by (rule writable_relD(3) [OF w])
  show full: "new_block st a = Some (Inl Exit_failure)" if "mb \<le> int (length es)"
    using that out_of_range_iff [OF w] by (simp add: new_block_def Let_def)
  have room: "int (length es) < mb" if "new_block st a = Some (Inr x)" for x
    using that full by force
  then show "int (length es) < mb" if "new_block st a = Some (Inr r)" using that .
  show "pre_rel st' bs mb ls0 (es @ [vblock_num bs a]) \<and>
      block_off nb = data_at (image_end 0 bs ls0) bs (int (length es))"
    if r: "new_block st a = Some (Inr (nb, st'))"
  proof (cases "blocks_needed bs es \<le> nb_available st")
    case True
    then show ?thesis using new_block_pre [OF p room [OF r] True, of a] r by auto
  next
    case False
    then show ?thesis using new_block_waits [OF p room [OF r], of a] r by simp
  qed
qed

end
