(* ===== verification/Sample_Image.thy ===== *)
theory Sample_Image
  imports Block_Source
begin

text \<open>
  Images with any given entries, built by running \<open>new_super\<close> and \<open>new_block\<close> of the model from an
  empty file. They show that the hypotheses of the theorems about images can be met.
\<close>

lemma limit_kept [simp]:
  "fs_limit (snd (fallocate off len f)) = fs_limit f"
  "fs_limit (img (finish_same a st)) = fs_limit (img st)"
  "fs_limit (img (finish_new a m st)) = fs_limit (img st)"
  "img (snd (map_block off st)) = img st"
  "fs_limit (write_meta_top p f) = fs_limit f"
  by (simp_all add: fallocate_def finish_same_def finish_new_def split_beta Let_def img_def set_img_def
      link_meta_def map_block_def write_meta_top_def)

lemma new_meta_direct_limit:
  "new_meta_direct st = Inr (m, st1) \<Longrightarrow> fs_limit (img st1) = fs_limit (img st)"
  by (auto simp: new_meta_direct_def Let_def split_beta init_meta_def split: if_splits option.splits)

lemma new_block_direct_limit:
  assumes "new_block_direct st a = Inr (nb, st')"
  shows "fs_limit (img st') = fs_limit (img st)"
proof -
  have e: "st' = snd (map_block off x) \<Longrightarrow> fs_limit (img x) = l \<Longrightarrow> fs_limit (img st') = l" for off x l
    by simp
  show ?thesis
    using assms unfolding new_block_direct_def Let_def split_beta
    by (auto split: if_splits sum.splits intro!: e dest: new_meta_direct_limit dest!: arg_cong [where f = snd and y = "(nb, st')"])
qed

definition sample_limit :: int where "sample_limit = 4611686018427387904"

definition start_state :: "cstr \<Rightarrow> pm_file \<Rightarrow> Super \<Rightarrow> alloc_state" where
  "start_state fdn f s =
     \<lparr>files = (\<lambda>_. empty_file sample_limit)(fdn := f), cur_s = s, vm = Map.empty, vm_next = 0,
      nbs = (\<lambda>_. \<lparr>block_off = 0, map_addr = 0, map_addr2 = 0\<rparr>), nb_count = 0, nb_available = 0, alloc_dead = False\<rparr>"

lemma start_state_img: "fd s = fdn \<Longrightarrow> img (start_state fdn f s) = f"
  by (simp add: start_state_def img_def)

lemma super_of_sync: "super_sync (super_of fdn off bs mb n) off bs mb n"
  by (intro super_syncI) (simp_all add: super_of_def Let_def)

lemma sample_writable:
  assumes b: "wf_bs bs" and mb: "int (length as) \<le> mb" "mb < 2147483647"
    and lim: "layer_end 0 bs (int (length as)) \<le> sample_limit"
  shows "\<exists>st::alloc_state. writable_rel st bs mb [] (map (vblock_num bs) as) \<and> fs_limit (img st) = sample_limit
    \<and> nb_count st = 0 \<and> nb_available st = 0"
  using mb(1) lim
proof (induction as rule: rev_induct)
  case Nil
  let ?e = "empty_file sample_limit" and ?s = "super_of [] 0 bs mb 0"
  let ?f = "new_super_file ?e bs mb 0"
  have "image_rel ?f bs mb [[]]"
    using new_super_empty(2) [of bs mb ?e] b mb(2) Nil.prems(1) wf_bsD(2) [OF b]
    by (simp add: wf_empty_file sample_limit_def) (simp add: empty_file_def)
  moreover have "fs_limit ?f = sample_limit"
    by (simp add: new_super_file_def write_super_def empty_file_def)
  ultimately show ?case
    by (intro exI [of _ "start_state [] ?f ?s"])
      (simp add: writable_rel_def start_state_img, simp add: start_state_def super_of_sync)
next
  case (snoc a as)
  have "0 \<le> blocks_needed bs (map (vblock_num bs) as) * bs"
    using wf_bsD(1) [OF b] by (simp add: blocks_needed_def)
  with snoc.prems have l: "layer_end 0 bs (int (length as)) \<le> sample_limit"
    using layer_end_snoc [OF b, of 0 "map (vblock_num bs) as"] by (simp add: add.commute)
  from snoc.IH snoc.prems l obtain st :: alloc_state where w: "writable_rel st bs mb [] (map (vblock_num bs) as)"
    "fs_limit (img st) = sample_limit" "nb_count st = 0" "nb_available st = 0" by auto
  obtain nb st' where "new_block_direct st a = Inr (nb, st')"
      "writable_rel st' bs mb [] (map (vblock_num bs) as @ [vblock_num bs a])"
    using new_block_direct_ok [OF w(1), of a thesis] snoc.prems w(2) by (simp add: add.commute)
  then show ?case using new_block_direct_limit [of st a nb st'] w
    by (intro exI [of _ "st'\<lparr>nb_count := 0, nb_available := 0\<rparr>"]) (simp add: writable_rel_def img_def)
qed

text \<open>The ring as \<open>do_writable_fmmap\<close> sets it up: empty, with \<open>alloc_off\<close> at the end of the layer.\<close>

definition ring_start :: "'a alloc_state_scheme \<Rightarrow> 'a alloc_state_scheme" where
  "ring_start st = st\<lparr>cur_s := (cur_s st)\<lparr>alloc_off := next_off (cur_s st)\<rparr>, nb_count := 0, nb_available := 0\<rparr>"

lemma ring_start_pre:
  assumes "writable_rel st bs mb ls0 es"
  shows "pre_rel (ring_start st) bs mb ls0 es"
proof -
  have w: "writable_rel (ring_start st) bs mb ls0 es"
    using assms by (simp add: writable_rel_def ring_start_def img_def super_sync_alloc_off)
  note d = writable_relD [OF w]
  have "ring_ok 0 (ring_start st)"
    using d(7) next_off_sync [OF w] layer_end_wf [OF d(3,9,10)]
    by (intro ring_okI) (simp_all add: ring_start_def next_off_def img_def)
  with w show ?thesis by (simp add: pre_rel_def)
qed

text \<open>Images of one layer with 4 KB blocks: any entries that fit.\<close>

lemma sample_pre:
  assumes "int (length as) \<le> mb" "mb < 2147483647" "length as \<le> 1000000"
  shows "\<exists>st::alloc_state. pre_rel st 4096 mb [] (map (vblock_num 4096) as) \<and> fs_limit (img st) = sample_limit
    \<and> nb_count st = 0 \<and> nb_available st = 0 \<and> \<not> alloc_dead st"
proof -
  have "layer_end 0 4096 (int (length as)) \<le> sample_limit"
    using assms(3) zdiv_mono1 [of "int (length as) - 1" 1000000 504]
    by (simp add: layer_end_def seg_of_def mps_of_def sample_limit_def)
  then obtain st :: alloc_state where "writable_rel st 4096 mb [] (map (vblock_num 4096) as)"
      "fs_limit (img st) = sample_limit" "nb_count st = 0" "nb_available st = 0"
    using sample_writable [of 4096 as mb] assms by (auto simp: wf_bs_def)
  moreover have "pre_rel (s\<lparr>alloc_dead := b\<rparr>) bs m ls es = pre_rel s bs m ls es" for s :: alloc_state and b bs m ls es
    by (simp add: pre_rel_def writable_rel_def ring_ok_def img_def)
  ultimately show ?thesis
    by (intro exI [of _ "(ring_start st)\<lparr>alloc_dead := False\<rparr>"])
      (simp add: ring_start_pre, simp add: ring_start_def img_def)
qed

end
