(* ===== verification/Image_Frame.thy ===== *)
theory Image_Frame
  imports Sample_Image
begin

text \<open>
  What may be written to an image file without changing the layers it represents: the contents of data
  blocks, and the \<open>fg_counter\<close> words of meta blocks.
\<close>

lemma layer_at_cells:
  assumes l: "layer_at f off bs mb es"
    and s: "\<And>x. off \<le> x \<Longrightarrow> x < off + 16 \<Longrightarrow> bytes f x = bytes g x"
    and t: "\<And>i x. 0 \<le> i \<Longrightarrow> i \<le> seg_of (mps_of bs) (int (length es)) \<Longrightarrow> meta_at off bs i \<le> x \<Longrightarrow>
      x < meta_at off bs i + 4 \<Longrightarrow> bytes f x = bytes g x"
    and e: "\<And>k x. k < length es \<Longrightarrow> entry_at off bs (int k) \<le> x \<Longrightarrow> x < entry_at off bs (int k) + 8 \<Longrightarrow>
      bytes f x = bytes g x"
  shows "layer_at g off bs mb es"
proof -
  have "peek (bytes f) (off + 12) 4 = peek (bytes g) (off + 12) 4" using s by (intro peek_cong) auto
  moreover have "load32 f off = load32 g off" "load32 f (off + 4) = load32 g (off + 4)" "load32 f (off + 8) = load32 g (off + 8)"
    using s by (intro load32_frame; force)+
  moreover have "load32 f (meta_at off bs i) = load32 g (meta_at off bs i)"
    if "0 \<le> i" "i \<le> seg_of (mps_of bs) (int (length es))" for i
    using t [OF that] by (intro load32_frame)
  moreover have "load64 f (entry_at off bs (int k)) = load64 g (entry_at off bs (int k))" if "k < length es" for k
    unfolding load64_def by (rule get64_cong) (use e [OF that] in blast)
  ultimately show ?thesis
    using l by (simp add: layer_at_def sl_magic_def sl_block_size_def sl_max_block_num_def sl_active_meta_num_def
        mt_counter_def)
qed

text \<open>Bytes of a layer that no reader of its metadata looks at.\<close>

definition free_byte :: "int \<Rightarrow> int \<Rightarrow> u64 list \<Rightarrow> int \<Rightarrow> bool" where
  "free_byte off bs es x \<longleftrightarrow>
     (\<exists>k<length es. data_at off bs (int k) \<le> x \<and> x < data_at off bs (int k) + bs)
     \<or> (\<exists>i. 0 \<le> i \<and> i \<le> seg_of (mps_of bs) (int (length es)) \<and> meta_at off bs i + 4 \<le> x \<and> x < meta_at off bs i + 8)"

lemma block_disjoint:
  assumes "i \<noteq> j" "(0::int) < bs" "off + bs * i \<le> x" "x < off + bs * i + bs" "off + bs * j \<le> x" "x < off + bs * j + bs"
  shows False
proof -
  have "bs * i < bs * (j + 1)" "bs * j < bs * (i + 1)" using assms(3-6) by (simp_all add: algebra_simps)
  then have "i < j + 1" "j < i + 1" using assms(2) mult_less_cancel_left_pos by blast+
  with assms(1) show False by simp
qed

lemma data_index: "data_at off bs k = off + bs * (2 + k div mps_of bs * (1 + mps_of bs) + k mod mps_of bs)"
  by (simp add: data_at_def algebra_simps)

lemma data_not_meta:
  assumes "wf_bs bs"
  shows "2 + k div mps_of bs * (1 + mps_of bs) + k mod mps_of bs \<noteq> 1 + i * (1 + mps_of bs)"
proof
  let ?m = "mps_of bs"
  assume "2 + k div ?m * (1 + ?m) + k mod ?m = 1 + i * (1 + ?m)"
  then have e: "1 + k mod ?m = (i - k div ?m) * (1 + ?m)" by (simp add: algebra_simps)
  have m: "0 < ?m" using mps_ge [OF assms] by simp
  have "0 < 1 + k mod ?m" "1 + k mod ?m < 1 + ?m" using m by (simp_all add: add_pos_nonneg)
  then have "0 < (i - k div ?m) * (1 + ?m)" "(i - k div ?m) * (1 + ?m) < 1 * (1 + ?m)" using e by simp_all
  then have "0 < i - k div ?m" "i - k div ?m < 1" using m by (simp_all add: zero_less_mult_iff mult_less_cancel_right)
  then show False by simp
qed

lemma free_byte_frame:
  assumes l: "layer_at f off bs mb es" and b: "wf_bs bs"
    and eq: "\<And>x. off \<le> x \<Longrightarrow> x < layer_end off bs (int (length es)) \<Longrightarrow> \<not> free_byte off bs es x \<Longrightarrow> bytes f x = bytes g x"
  shows "layer_at g off bs mb es"
  using l
proof (rule layer_at_cells)
  let ?n = "int (length es)" and ?m = "mps_of bs"
  have bs: "4096 \<le> bs" by (rule wf_bsD(1) [OF b])
  have m: "0 < ?m" using mps_ge [OF b] by simp
  have le: "off + 2 * bs \<le> layer_end off bs ?n" by (rule layer_end_ge(1) [OF b]) simp
  have meta: "meta_at off bs i = off + bs * (1 + i * (1 + ?m))" for i by (simp add: meta_at_def)
  have meta_bytes: "bytes f x = bytes g x"
    if i: "0 \<le> i" "i \<le> seg_of ?m ?n" and x: "meta_at off bs i \<le> x" "x < meta_at off bs i + bs"
      and nf: "x < meta_at off bs i + 4 \<or> meta_at off bs i + 8 \<le> x" for i x
  proof (rule eq)
    show "off \<le> x" "x < layer_end off bs ?n" using meta_at_range [OF b i, of off] x bs by simp_all
    show "\<not> free_byte off bs es x"
    proof
      assume "free_byte off bs es x"
      then consider (d) k where "data_at off bs (int k) \<le> x" "x < data_at off bs (int k) + bs"
        | (m) j where "meta_at off bs j + 4 \<le> x" "x < meta_at off bs j + 8"
        by (auto simp: free_byte_def)
      then show False
      proof cases
        case d
        then show False
          using block_disjoint [OF data_not_meta [OF b, of "int k" i], of bs off x] bs x by (simp add: data_index meta)
      next
        case (m j)
        then have "j = i"
          using block_disjoint [of "1 + j * (1 + ?m)" "1 + i * (1 + ?m)" bs off x] bs x mps_ge [OF b]
          by (auto simp: meta)
        with m nf show False by simp
      qed
    qed
  qed
  show "bytes f x = bytes g x" if "off \<le> x" "x < off + 16" for x
  proof (rule eq)
    show "off \<le> x" "x < layer_end off bs ?n" using that le bs by simp_all
    show "\<not> free_byte off bs es x"
    proof
      assume "free_byte off bs es x"
      then have "off + bs \<le> x"
      proof (unfold free_byte_def, elim disjE exE conjE)
        fix k assume d: "data_at off bs (int k) \<le> x"
        have "0 \<le> int k div ?m * (1 + ?m)" "0 \<le> int k mod ?m"
          using m by (auto intro!: mult_nonneg_nonneg simp: pos_imp_zdiv_nonneg_iff)
        then have "bs * 1 \<le> bs * (2 + int k div ?m * (1 + ?m) + int k mod ?m)"
          using bs by (intro mult_left_mono) simp_all
        with d show ?thesis by (simp add: data_index)
      next
        fix i assume "0 \<le> i" "i \<le> seg_of ?m ?n" "meta_at off bs i + 4 \<le> x"
        then show ?thesis using meta_at_range(1) [OF b, of i "length es" off] by simp
      qed
      with that bs show False by simp
    qed
  qed
  show "bytes f x = bytes g x"
    if "0 \<le> i" "i \<le> seg_of ?m ?n" "meta_at off bs i \<le> x" "x < meta_at off bs i + 4" for i x
    using meta_bytes [OF that(1,2)] that(3,4) bs by simp
  show "bytes f x = bytes g x" if k: "k < length es" and x: "entry_at off bs (int k) \<le> x" "x < entry_at off bs (int k) + 8" for k x
  proof -
    have "int k div ?m \<le> seg_of ?m ?n"
      using k m zdiv_mono1 [of "int k" "?n - 1" ?m] by (auto simp: seg_of_def)
    moreover have "0 \<le> int k div ?m" using m by (simp add: pos_imp_zdiv_nonneg_iff)
    ultimately show ?thesis
      using meta_bytes [of "int k div ?m" x] entry_in_meta [OF b, of off "int k"] x by simp
  qed
qed

lemma data_at_end:
  assumes "wf_bs bs" "0 \<le> k"
  shows "data_at off bs k + bs = layer_end off bs (k + 1)"
  using data_at_same [OF assms, of off] data_at_new [OF assms, of off] act_of_bounds(2) [OF assms(2), of "mps_of bs"]
    mps_ge [OF assms(1)]
  by (cases "act_of (mps_of bs) k < mps_of bs") auto

lemma layer_end_mono:
  assumes "wf_bs bs"
  shows "layer_end off bs (int n) \<le> layer_end off bs (int n + int j)"
proof (induction j)
  case (Suc j)
  have "layer_end off bs (int n + int j) \<le> layer_end off bs (int n + int j + 1)"
    using layer_end_snoc [OF assms, of off "replicate (n + j) 0"] wf_bsD(1) [OF assms] by (simp add: blocks_needed_def)
  with Suc show ?case by (simp add: ac_simps)
qed simp

lemma data_at_range:
  assumes b: "wf_bs bs" and k: "k < length es"
  shows "off + bs \<le> data_at off bs (int k)" "data_at off bs (int k) + bs \<le> layer_end off bs (int (length es))"
proof -
  note e = data_at_end [OF b, of "int k" off]
  show "off + bs \<le> data_at off bs (int k)"
    using e layer_end_ge(1) [OF b, of "int k + 1" off] by simp
  show "data_at off bs (int k) + bs \<le> layer_end off bs (int (length es))"
    using e layer_end_mono [OF b, of off "Suc k" "length es - Suc k"] k by (simp add: add.commute of_nat_diff)
qed

lemma free_byte_range:
  assumes b: "wf_bs bs" and f: "free_byte off bs es x"
  shows "off \<le> x \<and> x < layer_end off bs (int (length es))"
  using f unfolding free_byte_def
proof (elim disjE exE conjE)
  fix k assume "k < length es" "data_at off bs (int k) \<le> x" "x < data_at off bs (int k) + bs"
  then show ?thesis using data_at_range [OF b, of k es off] wf_bsD(1) [OF b] by linarith
next
  fix i assume "0 \<le> i" "i \<le> seg_of (mps_of bs) (int (length es))" "meta_at off bs i + 4 \<le> x" "x < meta_at off bs i + 8"
  then show ?thesis using meta_at_range [OF b, of i "length es" off] wf_bsD(1) [OF b] by simp
qed

text \<open>The same for an image whose last layer is written to.\<close>

lemma image_rel_free:
  assumes r: "image_rel f bs mb (ls0 @ [es])" and w: "wf_file g"
    and sz: "st_size g = st_size f"
    and eq: "\<And>x. \<not> free_byte (image_end 0 bs ls0) bs es x \<Longrightarrow> bytes g x = bytes f x"
  shows "image_rel g bs mb (ls0 @ [es])"
proof -
  have b: "wf_bs bs" using r by (simp add: image_rel_def)
  let ?off = "image_end 0 bs ls0"
  note lo = free_byte_range [OF b, of ?off es]
  have l: "layer_at f ?off bs mb es" "layer_end ?off bs (int (length es)) \<le> st_size f"
    using image_rel_last [OF r] by auto
  have z: "bytes f x = 0" if "layer_end ?off bs (int (length es)) \<le> x" for x
    using r that by (auto simp: image_rel_def image_end_append)
  show ?thesis
  proof (rule image_rel_replace_last [OF r w])
    show "layer_at g ?off bs mb es" by (rule free_byte_frame [OF l(1) b]) (simp add: eq)
    show "layer_end ?off bs (int (length es)) \<le> st_size g" using l(2) sz by simp
    show "bytes f x = bytes g x" if "x < ?off" for x using eq [of x] lo [of x] that by force
    show "bytes g x = 0" if "layer_end ?off bs (int (length es)) \<le> x" for x
      using eq [of x] lo [of x] z that by force
  qed
qed

text \<open>A store into free bytes.\<close>

lemma pm_store_free:
  assumes r: "image_rel f bs mb (ls0 @ [es])"
    and fb: "\<And>x. a \<le> x \<Longrightarrow> x < a + int (length d) \<Longrightarrow> free_byte (image_end 0 bs ls0) bs es x"
  shows "image_rel (pm_store a d f) bs mb (ls0 @ [es])"
  using r
proof (rule image_rel_free)
  show "wf_file (pm_store a d f)" using r by (auto simp: image_rel_def wf_file_def pm_store_def)
  show "bytes (pm_store a d f) x = bytes f x" if "\<not> free_byte (image_end 0 bs ls0) bs es x" for x
    using fb [of x] that by (auto simp: pm_store_def poke_def)
qed simp

lemma writable_rel_store_free:
  assumes w: "writable_rel st bs mb ls0 es"
    and fb: "\<And>x. a \<le> x \<Longrightarrow> x < a + int (length d) \<Longrightarrow> free_byte (image_end 0 bs ls0) bs es x"
  shows "writable_rel (set_img (pm_store a d (img st)) st) bs mb ls0 es"
  using w pm_store_free [OF writable_relD(1) [OF w] fb] by (intro writable_rel_set_img)

lemma fg_counter_free:
  assumes "0 \<le> i" "i \<le> seg_of (mps_of bs) (int (length es))" "meta_at off bs i + 4 \<le> x" "x < meta_at off bs i + 8"
  shows "free_byte off bs es x"
  using assms by (auto simp: free_byte_def)

lemma data_free:
  assumes "k < length es" "data_at off bs (int k) \<le> x" "x < data_at off bs (int k) + bs"
  shows "free_byte off bs es x"
  using assms by (auto simp: free_byte_def)

end
