(* ===== verification/Prealloc.thy ===== *)
theory Prealloc
  imports Image_Frame
begin

text \<open>
  The pre-allocating thread and a consumer, interleaved. One iteration of the thread's loop and
  each critical section of the consumer (\<open>new_block\<close>, serialised by \<open>nb_lock2\<close>) is one step.
  The invariant \<open>sys_inv\<close> shows that no interleaving hands out a wrong or overwritten block; the
  last section shows when a waiting consumer is served, and a reachable state in which it never
  is.
\<close>

section \<open>One iteration of the thread\<close>

lemma prealloc_n_sync:
  assumes ok: "ring_ok t st" and w: "writable_rel st bs mb ls0 es" and t: "0 \<le> t"
  shows "prealloc_n (cur_s st) = nb_available st + t"
proof -
  note r = ring_okD [OF ok] and s = super_sync_fields [OF writable_relD(2) [OF w]] and d = writable_relD [OF w]
  let ?k = "nb_available st + t"
  have k: "0 \<le> ?k" "?k \<le> 5" using r(1,2) t by simp_all
  have bs: "4096 \<le> bs" "bs < 1073741824" by (fact wf_bsD(1,2) [OF d(3)])+
  have k5: "?k * bs \<le> 5 * bs" using k bs by (intro mult_right_mono) simp_all
  have k0: "0 \<le> ?k * bs" using k bs by (intro mult_nonneg_nonneg) simp_all
  have "?k * bs < 18446744073709551616" using k5 bs by linarith
  then have "ulong (?k * bs) = ?k * bs" using k0 by (intro ulong_id)
  then have "ulong (alloc_off (cur_s st) - next_off (cur_s st)) div ulong (block_size (cur_s st)) = ?k"
    using r(6) bs by (simp add: s ulong_id)
  then show ?thesis using k by (simp add: prealloc_n_def cint_id)
qed

lemma alloced_num_sync:
  assumes "writable_rel st bs mb ls0 es"
  shows "active_meta_num (cur_s st) * max_per_seg (cur_s st) + counter (active_meta (cur_s st)) = int (length es)"
  using super_sync_fields [OF writable_relD(2) [OF assms]] seg_act [of "mps_of bs" "int (length es)"] by simp

text \<open>
  The thread sleeps while the ring is full, exits when the blocks of the layer and of the ring
  reach the limit, ends the process when the file cannot grow, and otherwise adds a block.
\<close>

lemma allocator_iter_cases:
  assumes ok: "ring_ok t st" and w: "writable_rel st bs mb ls0 es" and t: "0 \<le> t"
  shows "nb_available st + t = 5 \<Longrightarrow> allocator_iter st = Alloc_wait"
    and "nb_available st + t < 5 \<Longrightarrow> mb \<le> int (length es) + nb_available st + t \<Longrightarrow>
      mb \<le> 2147483642 \<Longrightarrow> allocator_iter st = Alloc_exit"
    and "nb_available st + t < 5 \<Longrightarrow> int (length es) + nb_available st + t < mb \<Longrightarrow>
      fs_limit (img st) < alloc_off (cur_s st) + bs \<Longrightarrow> allocator_iter st = Alloc_fail"
proof -
  note p = prealloc_n_sync [OF ok w t] and r = ring_okD [OF ok]
    and s = super_sync_fields [OF writable_relD(2) [OF w]] and d = writable_relD [OF w]
  have a: "seg_of (mps_of bs) (int (length es)) * mps_of bs + act_of (mps_of bs) (int (length es)) = int (length es)"
    using alloced_num_sync [OF w] by (simp add: s)
  have c: "cint (int (length es)) = int (length es)" using d(5,8) by (intro cint_id) simp_all
  have c1: "cint (nb_available st + t + 1) = nb_available st + t + 1"
    using r(1,2) t by (intro cint_id) simp_all
  have c2: "cint (int (length es) + (nb_available st + t) + 1) = int (length es) + (nb_available st + t) + 1"
    if "int (length es) + nb_available st + t < mb \<or> nb_available st + t < 5 \<and> mb \<le> 2147483642"
    using r(1,2) t d(5,8) that by (intro cint_id) auto
  show "allocator_iter st = Alloc_wait" if "nb_available st + t = 5"
    using that by (simp add: allocator_iter_def Let_def p MAX_PRE_NUM_def cint_def)
  show "allocator_iter st = Alloc_fail"
    if "nb_available st + t < 5" "int (length es) + nb_available st + t < mb"
      "fs_limit (img st) < alloc_off (cur_s st) + bs"
    using that c2 by (simp add: allocator_iter_def Let_def p c1 a c MAX_PRE_NUM_def s fallocate_fails split_beta)
  show "allocator_iter st = Alloc_exit"
    if "nb_available st + t < 5" "mb \<le> int (length es) + nb_available st + t" "mb \<le> 2147483642"
    using that c2 by (simp add: allocator_iter_def Let_def p c1 a c MAX_PRE_NUM_def s)
qed

text \<open>What an iteration that adds a block leaves behind, whatever stage the consumer is at.\<close>

lemma allocator_iter_Done:
  assumes ok: "ring_ok t st" and w: "writable_rel st bs mb ls0 es" and t: "0 \<le> t"
    and i: "allocator_iter st = Alloc_done st'"
  shows "ring_ok t st'" "writable_rel st' bs mb ls0 es" "nb_available st' = nb_available st + 1"
    "alloc_off (cur_s st') = alloc_off (cur_s st) + bs" "fs_limit (img st') = fs_limit (img st)"
    "nb_available st + t < 5"
proof -
  note p = prealloc_n_sync [OF ok w t] and r = ring_okD [OF ok]
    and s = super_sync_fields [OF writable_relD(2) [OF w]] and d = writable_relD [OF w]
  have bs: "4096 \<le> bs" by (rule wf_bsD(1) [OF d(3)])
  have lt: "nb_available st + t < 5"
    using i r(1,2) t by (auto simp: allocator_iter_def Let_def p MAX_PRE_NUM_def cint_id split: if_splits)
  have "0 \<le> nb_count st * bs" using r(1,3) bs by (intro mult_nonneg_nonneg) simp_all
  then have a0: "0 \<le> alloc_off (cur_s st)" using r(4) by (simp add: s)
  have lim: "alloc_off (cur_s st) + bs \<le> fs_limit (img st)"
    using i by (rule contrapos_pp) (simp add: allocator_iter_def Let_def fallocate_fails s split_beta)
  obtain g where g: "fallocate (alloc_off (cur_s st)) bs (img st) = (0, g)" "image_rel g bs mb (ls0 @ [es])"
      "alloc_off (cur_s st) + bs \<le> st_size g" "bytes g = bytes (img st)" "fs_limit g = fs_limit (img st)"
    using fallocate_image [OF d(1) a0 _ lim] bs by (metis (no_types) zero_less_numeral less_le_trans)
  have lim63: "fs_limit (img st) < 9223372036854775808" using d(4) by (simp add: wf_file_def)
  have u: "ulong (alloc_off (cur_s st) + bs) = alloc_off (cur_s st) + bs"
    using a0 bs lim lim63 by (intro ulong_id) simp_all
  have u1: "ulong (nb_count st + 1) = nb_count st + 1"
    using r(1,3) nb_count_bound [OF ok w] by (intro ulong_id) simp_all
  have u2: "ulong (nb_available st + 1) = nb_available st + 1" using r(1) lt t by (intro ulong_id) simp_all
  obtain nb where st': "block_off nb = alloc_off (cur_s st)" "nbs st' = (nbs st)(nb_count st mod 5 := nb)"
      "nb_count st' = nb_count st + 1" "nb_available st' = nb_available st + 1"
      "cur_s st' = (cur_s st)\<lparr>alloc_off := alloc_off (cur_s st) + bs\<rparr>" "img st' = g"
  proof -
    let ?s = "cur_s st"
    let ?m1 = "mmap_any bs (fd ?s) (alloc_off ?s) (set_img g st)"
    let ?m2 = "mmap_any bs (fd ?s) (alloc_off ?s) (snd ?m1)"
    define st2 where "st2 = snd ?m2"
    define nb where "nb = \<lparr>block_off = alloc_off ?s, map_addr = fst ?m1, map_addr2 = fst ?m2\<rparr>"
    have f: "nbs st2 = nbs st" "nb_count st2 = nb_count st" "nb_available st2 = nb_available st"
      "files st2 = (files st)(fd ?s := g)"
      by (simp_all add: st2_def) (simp add: set_img_def)
    have "st' = st2\<lparr>nbs := (nbs st)(nb_count st mod 5 := nb), nb_count := nb_count st + 1,
         nb_available := nb_available st + 1, cur_s := ?s\<lparr>alloc_off := alloc_off ?s + bs\<rparr>\<rparr>"
      using i by (simp add: allocator_iter_def Let_def split_beta s g(1) f u u1 u2 MAX_PRE_NUM_def
          st2_def [symmetric] nb_def [symmetric] split: if_splits)
    then show thesis by (intro that [of nb]) (simp_all add: img_def f nb_def)
  qed
  show "nb_available st' = nb_available st + 1" "alloc_off (cur_s st') = alloc_off (cur_s st) + bs"
    "fs_limit (img st') = fs_limit (img st)" "nb_available st + t < 5"
    using st' g(5) lt by simp_all
  show "writable_rel st' bs mb ls0 es" using w g(2) by (simp add: writable_rel_def st')
  have no: "next_off ((cur_s st)\<lparr>alloc_off := x\<rparr>) = next_off (cur_s st)" for x by (simp add: next_off_def)
  have old: "block_off (nbs st' (j mod 5)) = alloc_off (cur_s st') - (nb_count st' - j) * bs"
    if "nb_count st - nb_available st \<le> j" "j < nb_count st + 1" for j
  proof (cases "j = nb_count st")
    case False
    with that have j: "j < nb_count st" "nb_count st < j + 5" using r(2) t lt by simp_all
    then have "j mod 5 \<noteq> nb_count st mod 5"
      by presburger
    then show ?thesis using r(7) [OF that(1) j(1)] by (simp add: st' s algebra_simps)
  qed (simp add: st')
  show "ring_ok t st'"
    using r t lt bs g(3) old by (intro ring_okI) (simp_all add: st' no s algebra_simps)
qed

lemma allocator_iter_produces:
  assumes ok: "ring_ok t st" and w: "writable_rel st bs mb ls0 es" and t: "0 \<le> t"
    and room: "nb_available st + t < 5" "int (length es) + nb_available st + t < mb"
    and lim: "alloc_off (cur_s st) + bs \<le> fs_limit (img st)"
  obtains st' where "allocator_iter st = Alloc_done st'"
proof -
  note p = prealloc_n_sync [OF ok w t] and r = ring_okD [OF ok]
    and s = super_sync_fields [OF writable_relD(2) [OF w]] and d = writable_relD [OF w]
  have bs: "4096 \<le> bs" by (rule wf_bsD(1) [OF d(3)])
  have "0 \<le> nb_count st * bs" using r(1,3) bs by (intro mult_nonneg_nonneg) simp_all
  then have a0: "0 \<le> alloc_off (cur_s st)" using r(4) by (simp add: s)
  have a: "seg_of (mps_of bs) (int (length es)) * mps_of bs + act_of (mps_of bs) (int (length es)) = int (length es)"
    using alloced_num_sync [OF w] by (simp add: s)
  have c: "cint (int (length es)) = int (length es)" using d(5,8) by (intro cint_id) simp_all
  have c1: "cint (nb_available st + t + 1) = nb_available st + t + 1"
    using r(1,2) t by (intro cint_id) simp_all
  have c2: "cint (int (length es) + (nb_available st + t) + 1) = int (length es) + (nb_available st + t) + 1"
    using r(1,2) t d(5) room by (intro cint_id) auto
  have f: "fallocate (alloc_off (cur_s st)) bs (img st) =
      (0, (img st)\<lparr>st_size := max (st_size (img st)) (alloc_off (cur_s st) + bs)\<rparr>)"
    using a0 bs lim by (intro fallocate_ok) simp_all
  show thesis
    using room that by (auto simp: allocator_iter_def Let_def p a c c1 c2 MAX_PRE_NUM_def s f split_beta)
qed

section \<open>Interleavings\<close>

text \<open>
  Where the consumer inside \<open>nb_lock2\<close> is: not in \<open>new_block\<close>, spinning for a data block, spinning
  for a meta block (in \<open>new_meta\<close>), or spinning for the data block that goes with a new meta block.
  \<open>nb_lock2\<close> admits one consumer at a time. \<open>served\<close> records the fault offset and the block of every
  \<open>new_block\<close> that returned.
\<close>

datatype consumer_pc = Idle | Want_data int | Want_meta int | Want_meta_data int Meta

record sys =
  shared :: alloc_state
  pc :: consumer_pc
  served :: "(int \<times> int) list"

inductive sys_step :: "sys \<Rightarrow> sys \<Rightarrow> bool" where
  produce: "\<not> alloc_dead (shared y) \<Longrightarrow> allocator_iter (shared y) = Alloc_done st \<Longrightarrow>
    sys_step y (y\<lparr>shared := st\<rparr>)"
| thread_exit: "\<not> alloc_dead (shared y) \<Longrightarrow> allocator_iter (shared y) = Alloc_exit \<Longrightarrow>
    sys_step y (y\<lparr>shared := (shared y)\<lparr>alloc_dead := True\<rparr>\<rparr>)"
| call_same: "pc y = Idle \<Longrightarrow> \<not> out_of_range (cur_s (shared y)) \<Longrightarrow>
    counter (active_meta (cur_s (shared y))) < max_per_seg (cur_s (shared y)) \<Longrightarrow>
    sys_step y (y\<lparr>pc := Want_data a\<rparr>)"
| call_new: "pc y = Idle \<Longrightarrow> \<not> out_of_range (cur_s (shared y)) \<Longrightarrow>
    \<not> counter (active_meta (cur_s (shared y))) < max_per_seg (cur_s (shared y)) \<Longrightarrow>
    sys_step y (y\<lparr>pc := Want_meta a\<rparr>)"
| take_data: "pc y = Want_data a \<Longrightarrow> take_nb (shared y) = Some (nb, st) \<Longrightarrow>
    sys_step y \<lparr>shared = finish_same a st, pc = Idle, served = served y @ [(a, block_off nb)]\<rparr>"
| take_meta: "pc y = Want_meta a \<Longrightarrow> new_meta (shared y) = Some (Inr (m, st)) \<Longrightarrow>
    sys_step y (y\<lparr>shared := st, pc := Want_meta_data a m\<rparr>)"
| take_meta_data: "pc y = Want_meta_data a m \<Longrightarrow> take_nb (shared y) = Some (nb, st) \<Longrightarrow>
    sys_step y \<lparr>shared = finish_new a m st, pc = Idle, served = served y @ [(a, block_off nb)]\<rparr>"

inductive sys_reach :: "sys \<Rightarrow> sys \<Rightarrow> bool" where
  refl: "sys_reach y y"
| step: "sys_reach x y \<Longrightarrow> sys_step y z \<Longrightarrow> sys_reach x z"

text \<open>
  The entries of the layer are the ones it had plus one for each block handed out; \<open>stage_ok\<close> is
  what a consumer in the middle of \<open>new_block\<close> relies on.
\<close>

definition entries_of :: "int \<Rightarrow> u64 list \<Rightarrow> sys \<Rightarrow> u64 list" where
  "entries_of bs es y = es @ map (\<lambda>(a, _). vblock_num bs a) (served y)"

definition stage_ok :: "int \<Rightarrow> int \<Rightarrow> int \<Rightarrow> u64 list \<Rightarrow> sys \<Rightarrow> bool" where
  "stage_ok bs mb off es y =
     (let n = int (length es)
      in case pc y of
           Idle \<Rightarrow> ring_ok 0 (shared y)
         | Want_data a \<Rightarrow> ring_ok 0 (shared y) \<and> n < mb \<and> act_of (mps_of bs) n < mps_of bs
         | Want_meta a \<Rightarrow> ring_ok 0 (shared y) \<and> n < mb \<and> act_of (mps_of bs) n = mps_of bs
         | Want_meta_data a m \<Rightarrow> ring_ok 1 (shared y) \<and> n < mb \<and> act_of (mps_of bs) n = mps_of bs
             \<and> m = \<lparr>pm_top = layer_end off bs n, pm_btm = layer_end off bs n + CL_SIZE, counter = 0\<rparr>)"

definition sys_inv :: "int \<Rightarrow> int \<Rightarrow> u64 list list \<Rightarrow> u64 list \<Rightarrow> sys \<Rightarrow> bool" where
  "sys_inv bs mb ls0 es y \<longleftrightarrow>
     writable_rel (shared y) bs mb ls0 (entries_of bs es y)
     \<and> stage_ok bs mb (image_end 0 bs ls0) (entries_of bs es y) y
     \<and> map snd (served y) =
        map (\<lambda>k. data_at (image_end 0 bs ls0) bs (int k)) [length es..<length es + length (served y)]"

definition owed :: "sys \<Rightarrow> int" where
  "owed y = (case pc y of Want_meta_data _ _ \<Rightarrow> 1 | _ \<Rightarrow> 0)"

lemma sys_invD:
  assumes "sys_inv bs mb ls0 es y"
  shows "writable_rel (shared y) bs mb ls0 (entries_of bs es y)" "ring_ok (owed y) (shared y)" "0 \<le> owed y"
  using assms by (auto simp: sys_inv_def stage_ok_def owed_def Let_def split: consumer_pc.splits)

lemma entries_of_served [simp]:
  "entries_of bs es (y\<lparr>shared := st\<rparr>) = entries_of bs es y"
  "entries_of bs es (y\<lparr>pc := p\<rparr>) = entries_of bs es y"
  "entries_of bs es \<lparr>shared = st, pc = p, served = served y @ [(a, b)]\<rparr> = entries_of bs es y @ [vblock_num bs a]"
  by (simp_all add: entries_of_def)

lemma sys_inv_serve:
  assumes i: "sys_inv bs mb ls0 es y" and p: "pre_rel st bs mb ls0 (entries_of bs es y @ [vblock_num bs a])"
    and b: "b = data_at (image_end 0 bs ls0) bs (int (length (entries_of bs es y)))"
  shows "sys_inv bs mb ls0 es \<lparr>shared = st, pc = Idle, served = served y @ [(a, b)]\<rparr>"
  using assms by (auto simp: sys_inv_def pre_rel_def stage_ok_def entries_of_def)

lemma sys_inv_produce:
  assumes i: "sys_inv bs mb ls0 es y" and a: "allocator_iter (shared y) = Alloc_done st"
  shows "sys_inv bs mb ls0 es (y\<lparr>shared := st\<rparr>)"
proof -
  note d = sys_invD [OF i]
  note n = allocator_iter_Done [OF d(2,1,3) a]
  show ?thesis using i n(1,2)
    by (auto simp: sys_inv_def stage_ok_def owed_def Let_def split: consumer_pc.splits)
qed

lemma sys_inv_take_data:
  assumes i: "sys_inv bs mb ls0 es y" and p: "pc y = Want_data a" and t: "take_nb (shared y) = Some (nb, st)"
  shows "sys_inv bs mb ls0 es \<lparr>shared = finish_same a st, pc = Idle, served = served y @ [(a, block_off nb)]\<rparr>"
proof (rule sys_inv_serve [OF i])
  let ?es = "entries_of bs es y"
  have w: "writable_rel (shared y) bs mb ls0 ?es" by (rule sys_invD(1) [OF i])
  have c: "ring_ok 0 (shared y)" "int (length ?es) < mb" "act_of (mps_of bs) (int (length ?es)) < mps_of bs"
    using i p by (simp_all add: sys_inv_def stage_ok_def Let_def)
  have "0 < nb_available (shared y)" using t by (simp add: take_nb_def split: if_splits)
  then have n: "block_off nb = layer_end (image_end 0 bs ls0) bs (int (length ?es))"
      "ring_ok 1 st" "writable_rel st bs mb ls0 ?es"
    using take_nb_ok [OF c(1) w] t by auto
  show "pre_rel (finish_same a st) bs mb ls0 (?es @ [vblock_num bs a])"
    by (rule finish_same_pre [OF n(3,2) c(2,3)])
  show "block_off nb = data_at (image_end 0 bs ls0) bs (int (length ?es))"
    using data_at_same(1) [OF writable_relD(3) [OF w] _ c(3)] n(1) by simp
qed

lemma sys_inv_take_meta:
  assumes i: "sys_inv bs mb ls0 es y" and p: "pc y = Want_meta a" and t: "new_meta (shared y) = Some (Inr (m, st))"
  shows "sys_inv bs mb ls0 es (y\<lparr>shared := st, pc := Want_meta_data a m\<rparr>)"
proof -
  let ?es = "entries_of bs es y"
  have w: "writable_rel (shared y) bs mb ls0 ?es" by (rule sys_invD(1) [OF i])
  have c: "ring_ok 0 (shared y)" "int (length ?es) < mb" "act_of (mps_of bs) (int (length ?es)) = mps_of bs"
    using i p by (simp_all add: sys_inv_def stage_ok_def Let_def)
  have "0 < nb_available (shared y)" using t by (auto simp: new_meta_def take_nb_def split: if_splits option.splits)
  note n = new_meta_ok [OF w c(1) this]
  show ?thesis using i c(2,3) t n(1-3) by (auto simp: sys_inv_def stage_ok_def Let_def)
qed

lemma sys_inv_take_meta_data:
  assumes i: "sys_inv bs mb ls0 es y" and p: "pc y = Want_meta_data a m" and t: "take_nb (shared y) = Some (nb, st)"
  shows "sys_inv bs mb ls0 es \<lparr>shared = finish_new a m st, pc = Idle, served = served y @ [(a, block_off nb)]\<rparr>"
proof (rule sys_inv_serve [OF i])
  let ?es = "entries_of bs es y" and ?off = "image_end 0 bs ls0"
  have w: "writable_rel (shared y) bs mb ls0 ?es" by (rule sys_invD(1) [OF i])
  have c: "ring_ok 1 (shared y)" "int (length ?es) < mb" "act_of (mps_of bs) (int (length ?es)) = mps_of bs"
    "m = \<lparr>pm_top = layer_end ?off bs (int (length ?es)), pm_btm = layer_end ?off bs (int (length ?es)) + CL_SIZE,
       counter = 0\<rparr>"
    using i p by (simp_all add: sys_inv_def stage_ok_def Let_def)
  have "0 < nb_available (shared y)" using t by (simp add: take_nb_def split: if_splits)
  then have n: "block_off nb = layer_end ?off bs (int (length ?es)) + bs" "ring_ok 2 st" "writable_rel st bs mb ls0 ?es"
    using take_nb_ok [OF c(1) w] t by auto
  show "pre_rel (finish_new a m st) bs mb ls0 (?es @ [vblock_num bs a])"
    unfolding c(4) by (rule finish_new_pre [OF n(3,2) c(2,3)])
  show "block_off nb = data_at ?off bs (int (length ?es))"
    using data_at_new(1) [OF writable_relD(3) [OF w] _ c(3)] n(1) by simp
qed

lemma alloc_dead_rel [simp]:
  "writable_rel (st\<lparr>alloc_dead := b\<rparr>) bs mb ls0 es = writable_rel st bs mb ls0 es"
  "ring_ok t (st\<lparr>alloc_dead := b\<rparr>) = ring_ok t st"
  by (simp_all add: writable_rel_def ring_ok_def img_def)

lemma sys_step_inv:
  assumes i: "sys_inv bs mb ls0 es y" and st: "sys_step y z"
  shows "sys_inv bs mb ls0 es z"
  using st
proof cases
  case (produce st)
  then show ?thesis using sys_inv_produce [OF i] by simp
next
  case thread_exit
  then show ?thesis using i by (simp add: sys_inv_def stage_ok_def Let_def split: consumer_pc.splits)
next
  case (call_same a)
  have w: "writable_rel (shared y) bs mb ls0 (entries_of bs es y)" by (rule sys_invD(1) [OF i])
  show ?thesis using call_same i out_of_range_iff [OF w] super_sync_fields [OF writable_relD(2) [OF w]]
    by (simp add: sys_inv_def stage_ok_def Let_def)
next
  case (call_new a)
  have w: "writable_rel (shared y) bs mb ls0 (entries_of bs es y)" by (rule sys_invD(1) [OF i])
  have "act_of (mps_of bs) (int (length (entries_of bs es y))) \<le> mps_of bs"
    using act_of_bounds(2) [OF _ writable_relD(6) [OF w]] by simp
  then show ?thesis using call_new i out_of_range_iff [OF w] super_sync_fields [OF writable_relD(2) [OF w]]
    by (simp add: sys_inv_def stage_ok_def Let_def)
next
  case (take_data a nb st)
  then show ?thesis using sys_inv_take_data [OF i] by simp
next
  case (take_meta a m st)
  then show ?thesis using sys_inv_take_meta [OF i] by simp
next
  case (take_meta_data a m nb st)
  then show ?thesis using sys_inv_take_meta_data [OF i] by simp
qed

lemma sys_reach_inv: "sys_reach x y \<Longrightarrow> sys_inv bs mb ls0 es x \<Longrightarrow> sys_inv bs mb ls0 es y"
  by (induction rule: sys_reach.induct) (auto intro: sys_step_inv)

lemma sys_inv_start:
  "pre_rel st bs mb ls0 es \<Longrightarrow> sys_inv bs mb ls0 es \<lparr>shared = st, pc = Idle, served = []\<rparr>"
  by (simp add: sys_inv_def pre_rel_def stage_ok_def entries_of_def)

section \<open>Progress and the lost last block\<close>

lemma sys_reach_trans: "sys_reach y z \<Longrightarrow> sys_reach x y \<Longrightarrow> sys_reach x z"
  by (induction rule: sys_reach.induct) (auto intro: sys_reach.step)

lemma sys_reach_one: "sys_step x y \<Longrightarrow> sys_reach x y"
  by (rule sys_reach.step [OF sys_reach.refl])

text \<open>A consumer that waits at an empty ring finds a block after one step of a live thread.\<close>

lemma produce_one:
  assumes i: "sys_inv bs mb ls0 es y" and live: "\<not> alloc_dead (shared y)"
    and room: "int (length (entries_of bs es y)) + owed y < mb"
    and lim: "layer_end (image_end 0 bs ls0) bs (int (length (entries_of bs es y))) + 2 * bs \<le> fs_limit (img (shared y))"
  obtains st where "sys_reach y (y\<lparr>shared := st\<rparr>)" "0 < nb_available st" "alloc_dead st = alloc_dead (shared y)"
    "fs_limit (img st) = fs_limit (img (shared y))"
proof (cases "0 < nb_available (shared y)")
  case True
  then show thesis using that [of "shared y"] sys_reach.refl [of y] by simp
next
  case False
  note d = sys_invD [OF i] and r = ring_okD [OF sys_invD(2) [OF i]]
    and s = super_sync_fields [OF writable_relD(2) [OF sys_invD(1) [OF i]]]
  have q: "nb_available (shared y) = 0" using False r(1) by simp
  have o: "owed y \<le> 1" by (simp add: owed_def split: consumer_pc.splits)
  have "owed y * bs \<le> 1 * bs"
    using o wf_bsD(1) [OF writable_relD(3) [OF d(1)]] by (intro mult_right_mono) simp_all
  then have "alloc_off (cur_s (shared y)) + bs \<le> fs_limit (img (shared y))"
    using lim r(6) next_off_sync [OF d(1)] by (simp add: q s)
  then obtain st where st: "allocator_iter (shared y) = Alloc_done st"
    using allocator_iter_produces [OF d(2,1,3)] room o q by auto
  note n = allocator_iter_Done [OF d(2,1,3) st]
  have "alloc_dead st = alloc_dead (shared y)"
    using st by (auto simp: allocator_iter_def Let_def split_beta mmap_any_def set_img_def split: if_splits)
  then show thesis
    using that [of st] sys_reach_one [OF sys_step.produce [OF live st]] n(3,5) q by simp
qed

lemma take_nb_Some:
  assumes "0 < nb_available st"
  obtains nb st' where "take_nb st = Some (nb, st')"
  using assms by (auto simp: take_nb_def)

lemma serve_data:
  assumes i: "sys_inv bs mb ls0 es y" and live: "\<not> alloc_dead (shared y)" and p: "pc y = Want_data a"
    and lim: "layer_end (image_end 0 bs ls0) bs (int (length (entries_of bs es y))) + 2 * bs \<le> fs_limit (img (shared y))"
  shows "\<exists>z. sys_reach y z \<and> pc z = Idle \<and> length (served z) = Suc (length (served y))"
proof -
  have "int (length (entries_of bs es y)) + owed y < mb"
    using i p by (simp add: sys_inv_def stage_ok_def owed_def Let_def)
  from produce_one [OF i live this lim]
  obtain st where st: "sys_reach y (y\<lparr>shared := st\<rparr>)" "0 < nb_available st" .
  obtain nb st' where "take_nb st = Some (nb, st')" using take_nb_Some [OF st(2)] .
  then have "sys_step (y\<lparr>shared := st\<rparr>)
      \<lparr>shared = finish_same a st', pc = Idle, served = served (y\<lparr>shared := st\<rparr>) @ [(a, block_off nb)]\<rparr>"
    using p by (intro sys_step.take_data) simp_all
  from sys_reach.step [OF st(1) this] show ?thesis by fastforce
qed

lemma serve_meta_data:
  assumes i: "sys_inv bs mb ls0 es y" and live: "\<not> alloc_dead (shared y)" and p: "pc y = Want_meta_data a m"
    and room: "int (length (entries_of bs es y)) + 1 < mb"
    and lim: "layer_end (image_end 0 bs ls0) bs (int (length (entries_of bs es y))) + 2 * bs \<le> fs_limit (img (shared y))"
  shows "\<exists>z. sys_reach y z \<and> pc z = Idle \<and> length (served z) = Suc (length (served y))"
proof -
  have "int (length (entries_of bs es y)) + owed y < mb" using room p by (simp add: owed_def)
  from produce_one [OF i live this lim]
  obtain st where st: "sys_reach y (y\<lparr>shared := st\<rparr>)" "0 < nb_available st" .
  obtain nb st' where "take_nb st = Some (nb, st')" using take_nb_Some [OF st(2)] .
  then have "sys_step (y\<lparr>shared := st\<rparr>)
      \<lparr>shared = finish_new a m st', pc = Idle, served = served (y\<lparr>shared := st\<rparr>) @ [(a, block_off nb)]\<rparr>"
    using p by (intro sys_step.take_meta_data) simp_all
  from sys_reach.step [OF st(1) this] show ?thesis by fastforce
qed

lemma serve_meta:
  assumes i: "sys_inv bs mb ls0 es y" and live: "\<not> alloc_dead (shared y)" and p: "pc y = Want_meta a"
    and room: "int (length (entries_of bs es y)) + 1 < mb"
    and lim: "layer_end (image_end 0 bs ls0) bs (int (length (entries_of bs es y))) + 2 * bs \<le> fs_limit (img (shared y))"
  shows "\<exists>z. sys_reach y z \<and> pc z = Idle \<and> length (served z) = Suc (length (served y))"
proof -
  have "int (length (entries_of bs es y)) + owed y < mb" using room p by (simp add: owed_def)
  from produce_one [OF i live this lim]
  obtain st where st: "sys_reach y (y\<lparr>shared := st\<rparr>)" "0 < nb_available st" "alloc_dead st = alloc_dead (shared y)"
    "fs_limit (img st) = fs_limit (img (shared y))" .
  have i1: "sys_inv bs mb ls0 es (y\<lparr>shared := st\<rparr>)" by (rule sys_reach_inv [OF st(1) i])
  have "ring_ok 0 st" using i1 p by (simp add: sys_inv_def stage_ok_def Let_def)
  from new_meta_ok(1) [OF _ this st(2)] sys_invD(1) [OF i1]
  obtain m st1 where m: "new_meta st = Some (Inr (m, st1))" "alloc_dead st1 = alloc_dead st"
    "fs_limit (img st1) = fs_limit (img st)"
    by (simp add: set_img_def img_def)
  let ?z = "y\<lparr>shared := st1, pc := Want_meta_data a m\<rparr>"
  have "sys_step (y\<lparr>shared := st\<rparr>) (y\<lparr>shared := st\<rparr>\<lparr>shared := st1, pc := Want_meta_data a m\<rparr>)"
    using p m(1) by (intro sys_step.take_meta) simp_all
  then have r: "sys_reach y ?z" using sys_reach.step [OF st(1)] by simp
  have e: "entries_of bs es ?z = entries_of bs es y" by (simp add: entries_of_def)
  from serve_meta_data [OF sys_reach_inv [OF r i], of a m]
  obtain z where "sys_reach ?z z" "pc z = Idle" "length (served z) = Suc (length (served y))"
    using live room lim st(3,4) m(2,3) by (auto simp: e)
  then show ?thesis using sys_reach_trans [OF _ r] by blast
qed

text \<open>
  The thread counts a block it holds in reserve against the limit even when that block becomes a
  meta block. At the last entry of the layer, when a new meta block is due, it stops one block short.
\<close>

definition within_limit :: "int \<Rightarrow> int \<Rightarrow> u64 list \<Rightarrow> sys \<Rightarrow> bool" where
  "within_limit bs mb es y \<longleftrightarrow> int (length (entries_of bs es y)) + nb_available (shared y) + owed y \<le> mb"

lemma within_limit_step:
  assumes i: "sys_inv bs mb ls0 es y" and l: "within_limit bs mb es y" and mb: "mb \<le> 2147483642"
    and st: "sys_step y z"
  shows "within_limit bs mb es z"
  using st
proof cases
  case (produce st)
  note d = sys_invD [OF i]
  note n = allocator_iter_Done [OF d(2,1,3) produce(3)]
  have "\<not> mb \<le> int (length (entries_of bs es y)) + nb_available (shared y) + owed y"
    using allocator_iter_cases(2) [OF d(2,1,3) n(6) _ mb] produce(3) by auto
  then show ?thesis using n(3) produce(1) by (simp add: within_limit_def owed_def)
next
  case (take_meta a m st)
  have "ring_ok 0 (shared y)" using i take_meta(2) by (simp add: sys_inv_def stage_ok_def Let_def)
  moreover have "0 < nb_available (shared y)"
    using take_meta(3) by (auto simp: new_meta_def take_nb_def split: if_splits option.splits)
  ultimately have "nb_available st = nb_available (shared y) - 1"
    using new_meta_ok(1,4) [OF sys_invD(1) [OF i]] take_meta(3) by force
  then show ?thesis using l take_meta(1,2) by (simp add: within_limit_def owed_def entries_of_def)
qed (use l in \<open>auto simp: within_limit_def owed_def take_nb_def entries_of_def split: if_splits\<close>)

lemma within_limit_reach:
  "sys_reach x y \<Longrightarrow> sys_inv bs mb ls0 es x \<Longrightarrow> within_limit bs mb es x \<Longrightarrow> mb \<le> 2147483642 \<Longrightarrow>
   within_limit bs mb es y"
  by (induction rule: sys_reach.induct) (auto intro: within_limit_step dest: sys_reach_inv)

definition starved :: "int \<Rightarrow> int \<Rightarrow> u64 list \<Rightarrow> (int \<times> int) list \<Rightarrow> sys \<Rightarrow> bool" where
  "starved bs mb es sv y \<longleftrightarrow>
     served y = sv \<and> within_limit bs mb es y \<and> (\<exists>a. pc y = Want_meta a \<or> (\<exists>m. pc y = Want_meta_data a m))
     \<and> int (length (entries_of bs es y)) + 1 = mb"

lemma starved_step:
  assumes i: "sys_inv bs mb ls0 es y" and l: "starved bs mb es sv y" and mb: "mb \<le> 2147483642"
    and st: "sys_step y z"
  shows "starved bs mb es sv z"
proof -
  have w: "within_limit bs mb es z" using within_limit_step [OF i _ mb st] l by (simp add: starved_def)
  from st show ?thesis
  proof cases
    case (take_meta_data a m nb st)
    then have "0 < nb_available (shared y)" by (simp add: take_nb_def split: if_splits)
    with l take_meta_data(2) show ?thesis by (auto simp: starved_def within_limit_def owed_def)
  qed (use l w in \<open>auto simp: starved_def entries_of_def\<close>)
qed

lemma starved_reach:
  "sys_reach x y \<Longrightarrow> sys_inv bs mb ls0 es x \<Longrightarrow> starved bs mb es sv x \<Longrightarrow> mb \<le> 2147483642 \<Longrightarrow>
   starved bs mb es sv y"
  by (induction rule: sys_reach.induct) (auto intro: starved_step dest: sys_reach_inv)

text \<open>A \<open>new_block\<close> that runs without interference is one run of the consumer's steps.\<close>

lemma new_block_steps:
  assumes "new_block st a = Some (Inr (nb, st'))"
  shows "sys_reach \<lparr>shared = st, pc = Idle, served = sv\<rparr> \<lparr>shared = st', pc = Idle, served = sv @ [(a, block_off nb)]\<rparr>"
proof -
  let ?x = "\<lparr>shared = st, pc = Idle, served = sv\<rparr>"
  have rng: "\<not> out_of_range (cur_s st)" using assms by (auto simp: new_block_def Let_def)
  show ?thesis
  proof (cases "counter (active_meta (cur_s st)) < max_per_seg (cur_s st)")
    case True
    then obtain st1 where t: "take_nb st = Some (nb, st1)" "st' = finish_same a st1"
      using assms rng by (auto simp: new_block_def Let_def split: option.splits if_splits)
    have "sys_step ?x (?x\<lparr>pc := Want_data a\<rparr>)" using True rng by (intro sys_step.call_same) simp_all
    moreover have "sys_step (?x\<lparr>pc := Want_data a\<rparr>) \<lparr>shared = st', pc = Idle, served = sv @ [(a, block_off nb)]\<rparr>"
      using sys_step.take_data [of "?x\<lparr>pc := Want_data a\<rparr>" a nb st1] t by simp
    ultimately show ?thesis by (blast intro: sys_reach.intros)
  next
    case False
    then obtain m st1 st2 where t: "new_meta st = Some (Inr (m, st1))" "take_nb st1 = Some (nb, st2)"
      "st' = finish_new a m st2"
      using assms rng by (auto simp: new_block_def Let_def split: option.splits if_splits sum.splits)
    have "sys_step ?x (?x\<lparr>pc := Want_meta a\<rparr>)" using False rng by (intro sys_step.call_new) simp_all
    moreover have "sys_step (?x\<lparr>pc := Want_meta a\<rparr>) \<lparr>shared = st1, pc = Want_meta_data a m, served = sv\<rparr>"
      using sys_step.take_meta [of "?x\<lparr>pc := Want_meta a\<rparr>" a m st1] t(1) by simp
    moreover have "sys_step \<lparr>shared = st1, pc = Want_meta_data a m, served = sv\<rparr>
        \<lparr>shared = st', pc = Idle, served = sv @ [(a, block_off nb)]\<rparr>"
      using sys_step.take_meta_data [of "\<lparr>shared = st1, pc = Want_meta_data a m, served = sv\<rparr>" a m nb st2] t by simp
    ultimately show ?thesis by (blast intro: sys_reach.intros)
  qed
qed

section \<open>Properties\<close>



text \<open>C14: A \<open>new_block\<close> that spins on the ring is served: while the pre-allocating thread lives and the
  file system has room for two more blocks, some schedule ends the wait with a block, provided the layer
  has room for one more entry than the one asked for whenever a new meta block is due.\<close>

theorem waiting_consumer_served:
  assumes "sys_inv bs mb ls0 es y" and "\<not> alloc_dead (shared y)" and "pc y \<noteq> Idle"
    and "int (length (entries_of bs es y)) + 1 < mb \<or> (\<exists>a. pc y = Want_data a)"
    and "layer_end (image_end 0 bs ls0) bs (int (length (entries_of bs es y))) + 2 * bs \<le> fs_limit (img (shared y))"
  shows "\<exists>z. sys_reach y z \<and> pc z = Idle \<and> length (served z) = Suc (length (served y))"
  using assms serve_data serve_meta serve_meta_data by (cases "pc y") blast+

theorem waiting_consumer_served_witness:
  "\<exists>y z. pc y = Want_data 0 \<and> sys_inv 4096 10 [] [] y \<and> sys_reach y z \<and> length (served z) = 1"
proof -
  obtain st :: alloc_state where p: "pre_rel st 4096 10 [] []" and st: "fs_limit (img st) = sample_limit" "\<not> alloc_dead st"
    using sample_pre [of "[]" 10] by auto
  let ?y = "\<lparr>shared = st, pc = Want_data 0, served = []\<rparr>"
  have i: "sys_inv 4096 10 [] [] ?y"
    using p by (simp add: sys_inv_def pre_rel_def stage_ok_def entries_of_def act_of_def seg_of_def mps_of_def)
  obtain z where "sys_reach ?y z" "length (served z) = 1"
    using waiting_consumer_served [OF i] st by (auto simp: entries_of_def layer_end_def seg_of_def sample_limit_def)
  with i show ?thesis by (intro exI [of _ ?y] exI [of _ z]) simp
qed

text \<open>C35: The last entry of an image is lost when it needs a new meta block: the pre-allocating thread
  counts the block that becomes the meta block against \<open>max_block_num\<close> and exits, so a \<open>new_block\<close>
  that asks for the last entry of the layer with a full active meta block is never served, on any
  schedule, although \<open>to_alloc_num\<close> is within the limit.\<close>

theorem last_block_starved:
  assumes "pre_rel st bs mb ls0 es" and "int (length es) + nb_available st \<le> mb" and "mb \<le> 2147483642"
    and "sys_reach \<lparr>shared = st, pc = Idle, served = []\<rparr> y" and "pc y = Want_meta a"
    and "int (length es + length (served y)) + 1 = mb" and "sys_reach y z"
  shows "served z = served y \<and> pc z \<noteq> Idle"
proof -
  let ?x = "\<lparr>shared = st, pc = Idle, served = []\<rparr>"
  have i0: "sys_inv bs mb ls0 es ?x" by (rule sys_inv_start [OF assms(1)])
  have "within_limit bs mb es ?x" using assms(2) by (simp add: within_limit_def entries_of_def owed_def)
  then have "within_limit bs mb es y" using within_limit_reach [OF assms(4) i0] assms(3) by simp
  then have "starved bs mb es (served y) y"
    using assms(5,6) by (simp add: starved_def entries_of_def)
  from starved_reach [OF assms(7) sys_reach_inv [OF assms(4) i0] this assms(3)]
  show ?thesis by (auto simp: starved_def)
qed

theorem last_block_starved_witness:
  "\<exists>st y. pre_rel st 4096 505 [] (replicate 504 0) \<and> sys_reach \<lparr>shared = st, pc = Idle, served = []\<rparr> y
    \<and> pc y = Want_meta 0 \<and> \<not> out_of_range (cur_s st) \<and> (\<forall>z. sys_reach y z \<longrightarrow> served z = [])"
proof -
  have v: "vblock_num 4096 0 = 0" by (simp add: vblock_num_def uint32_def)
  obtain st :: alloc_state where p: "pre_rel st 4096 505 [] (replicate 504 0)" and st: "nb_available st = 0"
    using sample_pre [of "replicate 504 0" 505] by (auto simp: v)
  let ?x = "\<lparr>shared = st, pc = Idle, served = []\<rparr>" and ?y = "\<lparr>shared = st, pc = Want_meta 0, served = []\<rparr>"
  have w: "writable_rel st 4096 505 [] (replicate 504 0)" using p by (simp add: pre_rel_def)
  note s = super_sync_fields [OF writable_relD(2) [OF w]]
  have o: "\<not> out_of_range (cur_s st)" using out_of_range_iff [OF w] by simp
  have "sys_step ?x (?x\<lparr>pc := Want_meta 0\<rparr>)"
    using o by (intro sys_step.call_new) (simp_all add: s mps_of_def act_of_def seg_of_def active_of_def Let_def)
  then have r: "sys_reach ?x ?y" using sys_reach_one by simp
  have "served z = []" if "sys_reach ?y z" for z
    using last_block_starved [OF p _ _ r _ _ that, of 0] st by simp
  with p r o show ?thesis by (intro exI [of _ st] exI [of _ ?y]) simp
qed

end
