(* ===== verification/Cow_Table.thy ===== *)
theory Cow_Table
  imports Prealloc
begin

text \<open>
  The bookkeeping of fine-grained copy-on-write (\<open>cow.h\<close>, \<open>cow.c\<close>): the hash table of blocks that
  are only partly copied, and the current lists of 4 KB units copied recently or being copied. A
  \<open>struct Cow_entry\<close> is reached both from the table and from a list entry, so entries live in a heap
  \<open>cow_heap\<close> and are referred to by index. A bucket is the list of the entries after its sentinel, and
  likewise a current list.
\<close>

section \<open>State\<close>

definition BUCKET_NUM :: int where "BUCKET_NUM = 128"

definition MAX_THREAD_NUM :: int where "MAX_THREAD_NUM = 128"

definition MAX_CONCURRENT :: int where "MAX_CONCURRENT = 128"

definition COW_UNIT :: int where "COW_UNIT = 4096"

definition RECENT_RANK_THRESHOLD :: int where "RECENT_RANK_THRESHOLD = 2"

record Cow_entry =
  fault_voff_aligned :: int
  ce_m :: Meta
  meta_entry :: int
  ce_block_off :: int
  ce_map_addr :: int
  ce_map_addr2 :: int
  copied_counter :: int

record Cow_l_entry =
  voff :: int
  copy_size :: int
  cow_entry :: nat

record Cow_list =
  l_size :: int
  l_entries :: "Cow_l_entry list"

record cow_state = alloc_state +
  cow_heap :: "nat \<Rightarrow> Cow_entry"
  cow_next :: nat
  buckets :: "int \<Rightarrow> nat list"
  ht_size :: int
  cow_l :: "int \<Rightarrow> Cow_list"
  global_length :: int

definition init_fgcow :: "'a cow_state_scheme \<Rightarrow> 'a cow_state_scheme" where
  "init_fgcow st = st\<lparr>buckets := \<lambda>_. [], ht_size := 0, cow_l := \<lambda>_. \<lparr>l_size = 0, l_entries = []\<rparr>\<rparr>"

section \<open>Hash table\<close>

definition bucket_number :: "Super \<Rightarrow> int \<Rightarrow> int" where
  "bucket_number s v = v div ulong (block_size s) mod BUCKET_NUM"

text \<open>The meta block index \<open>insert_ht\<close> computes; the division binds before the multiplication.\<close>

definition cow_meta_n :: "Super \<Rightarrow> int" where
  "cow_meta_n s =
     cint (ulong (ulong (active_meta_off s - my_off s - block_size s) div ulong (cint (max_per_seg s + 1))
                  * ulong (block_size s)))"

definition insert_ht :: "'a cow_state_scheme \<Rightarrow> int \<Rightarrow> (nat \<times> 'a cow_state_scheme) res option" where
  "insert_ht st v =
     (case new_block st v of
        None \<Rightarrow> None
      | Some (Inl e) \<Rightarrow> Some (Inl e)
      | Some (Inr (nb, st1)) \<Rightarrow>
          Some (let s = cur_s st1; entry_n = counter (active_meta s) - 1
                in res_bind (read_meta (img st1) s (cow_meta_n s)) (\<lambda>m.
                     let f = store32 (pm_top m + 4) (mt_fg_counter (img st1) (pm_top m) + 1) (img st1);
                         ce = \<lparr>fault_voff_aligned = v, ce_m = m, meta_entry = pm_btm_addr m entry_n,
                               ce_block_off = block_off nb, ce_map_addr = map_addr nb, ce_map_addr2 = map_addr2 nb,
                               copied_counter = 0\<rparr>;
                         b = bucket_number s v;
                         i = cow_next st1
                     in Inr (i, (set_img f st1)\<lparr>cow_heap := (cow_heap st1)(i := ce), cow_next := Suc i,
                                  buckets := (buckets st1)(b := i # buckets st1 b),
                                  ht_size := cint (ht_size st1 + 1)\<rparr>))))"

text \<open>
  \<open>search_ht\<close>: the entry of a block, the flag that asks for a full copy, and the state. An entry
  found at a rank below \<open>RECENT_RANK_THRESHOLD\<close> is marked and taken off the bucket.
\<close>

fun search_bucket :: "(nat \<Rightarrow> Cow_entry) \<Rightarrow> int \<Rightarrow> int \<Rightarrow> nat list \<Rightarrow> (nat \<times> bool \<times> nat list) option" where
  "search_bucket h v rank [] = None"
| "search_bucket h v rank (i # is) =
     (if fault_voff_aligned (h i) = v
      then Some (if rank + 1 < RECENT_RANK_THRESHOLD then (i, True, is) else (i, False, i # is))
      else map_option (\<lambda>(r, full, js). (r, full, i # js)) (search_bucket h v (rank + 1) is))"

definition search_ht :: "'a cow_state_scheme \<Rightarrow> int \<Rightarrow> nat option \<times> bool \<times> 'a cow_state_scheme" where
  "search_ht st v =
     (let b = bucket_number (cur_s st) v
      in case search_bucket (cow_heap st) v 0 (buckets st b) of
           None \<Rightarrow> (None, False, st)
         | Some (i, full, js) \<Rightarrow>
             (Some i, full,
              if full
              then st\<lparr>cow_heap := (cow_heap st)(i := (cow_heap st i)\<lparr>copied_counter := -1\<rparr>),
                      buckets := (buckets st)(b := js)\<rparr>
              else st))"

text \<open>
  The loop of \<open>delete_ht\<close>: after an entry is unlinked the cursor steps onto its successor, which is
  dereferenced even when there is none.
\<close>

fun delete_bucket :: "(nat \<Rightarrow> Cow_entry) \<Rightarrow> int \<Rightarrow> nat list \<Rightarrow> nat option \<Rightarrow> pm_file
    \<Rightarrow> (nat list \<times> nat option \<times> pm_file) res" where
  "delete_bucket h v [] del f = Inr ([], del, f)"
| "delete_bucket h v (i # is) del f =
     (if fault_voff_aligned (h i) = v
      then let p = pm_top (ce_m (h i));
               f1 = pm_fence (pm_flush p (store32 (p + 4) (mt_fg_counter f p - 1) f))
           in case is of
                [] \<Rightarrow> Inl Sigsegv
              | j # js \<Rightarrow> res_bind (delete_bucket h v js (Some i) f1) (\<lambda>(ks, d, g). Inr (j # ks, d, g))
      else res_bind (delete_bucket h v is del f) (\<lambda>(ks, d, g). Inr (i # ks, d, g)))"

definition delete_ht :: "'a cow_state_scheme \<Rightarrow> int \<Rightarrow> 'a cow_state_scheme res" where
  "delete_ht st v =
     (let b = bucket_number (cur_s st) v
      in res_bind (delete_bucket (cow_heap st) v (buckets st b) None (img st)) (\<lambda>(js, del, f).
           if del = None then Inl Undefined
           else Inr ((set_img f st)\<lparr>buckets := (buckets st)(b := js), ht_size := cint (ht_size st - 1)\<rparr>)))"

section \<open>Current lists\<close>

definition list_number :: "int \<Rightarrow> int" where
  "list_number v = v div COW_UNIT mod MAX_THREAD_NUM"

definition covers :: "int \<Rightarrow> Cow_l_entry \<Rightarrow> bool" where
  "covers v e \<longleftrightarrow> voff e \<le> v \<and> ulong (v + COW_UNIT) \<le> ulong (voff e + copy_size e)"

definition in_list :: "'a cow_state_scheme \<Rightarrow> int \<Rightarrow> bool" where
  "in_list st v \<longleftrightarrow> list_ex (covers v) (l_entries (cow_l st (list_number v)))"

text \<open>Append to a list; at \<open>MAX_CONCURRENT\<close> the oldest entry becomes the sentinel.\<close>

definition push_list :: "Cow_l_entry \<Rightarrow> Cow_list \<Rightarrow> Cow_list" where
  "push_list e l =
     (let n = cint (l_size l + 1)
      in if MAX_CONCURRENT \<le> n then \<lparr>l_size = n - 1, l_entries = tl (l_entries l @ [e])\<rparr>
         else \<lparr>l_size = n, l_entries = l_entries l @ [e]\<rparr>)"

text \<open>\<open>insert_list\<close>; the inner \<open>None\<close> is the returned \<open>NULL\<close> (the unit is already in the list).\<close>

definition insert_list :: "'a cow_state_scheme \<Rightarrow> int \<Rightarrow> (Cow_l_entry option \<times> 'a cow_state_scheme) res option" where
  "insert_list st v =
     (if in_list st v then Some (Inr (None, st))
      else if block_size (cur_s st) = 0 then Some (Inl Sigfpe)
      else
        let ln = list_number v;
            bs = ulong (block_size (cur_s st));
            va = ulong (v div bs * bs);
            finish = (\<lambda>i full st2.
              let e = (if full then \<lparr>voff = va, copy_size = block_size (cur_s st2), cow_entry = i\<rparr>
                       else \<lparr>voff = v, copy_size = COW_UNIT, cow_entry = i\<rparr>)
              in (Some e, st2\<lparr>cow_l := (cow_l st2)(ln := push_list e (cow_l st2 ln))\<rparr>))
        in case search_ht st va of
             (Some i, full, st1) \<Rightarrow> Some (Inr (finish i full st1))
           | (None, full, st1) \<Rightarrow>
               map_option (\<lambda>r. res_bind r (\<lambda>(i, st2). Inr (finish i full st2))) (insert_ht st1 va))"

fun remove_voff :: "int \<Rightarrow> Cow_l_entry list \<Rightarrow> Cow_l_entry list" where
  "remove_voff v [] = []"
| "remove_voff v (e # es) = (if voff e = v then es else e # remove_voff v es)"

definition del_list :: "'a cow_state_scheme \<Rightarrow> int \<Rightarrow> 'a cow_state_scheme" where
  "del_list st v =
     (let ln = list_number v; l = cow_l st ln
      in st\<lparr>cow_l := (cow_l st)(ln := l\<lparr>l_entries := remove_voff v (l_entries l)\<rparr>)\<rparr>)"

section \<open>Completing partly copied blocks\<close>

text \<open>
  One entry in \<open>final_cow\<close>: the block is mapped afresh, the guest's view of it is copied over, and
  the entry's word is or-ed with \<open>ADDR_MASK\<close>.
\<close>

definition final_cow_entry :: "'a cow_state_scheme \<Rightarrow> nat \<Rightarrow> 'a cow_state_scheme res" where
  "final_cow_entry st i =
     (let s = cur_s st; ce = cow_heap st i;
          (tmp, st1) = mmap_any (block_size s) (fd s) (ce_block_off ce) st
      in if tmp = -1 then Inl Assert_failed
         else res_bind (copy_pages (vm st1) (page_of tmp) (page_of (addr s + fault_voff_aligned ce))
                          (nat (block_size s div PAGE_SIZE)) (files st1)) (\<lambda>fs.
           let st2 = st1\<lparr>files := fs\<rparr>; a = meta_entry ce
           in if \<not> backed (img st2) a then Inl Sigbus
              else Inr (set_img (pm_fence (pm_flush a (store64 a (load64 (img st2) a OR ADDR_MASK) (img st2)))) st2)))"

fun final_cow_entries :: "'a cow_state_scheme \<Rightarrow> nat list \<Rightarrow> 'a cow_state_scheme res" where
  "final_cow_entries st [] = Inr st"
| "final_cow_entries st (i # is) = res_bind (final_cow_entry st i) (\<lambda>st1. final_cow_entries st1 is)"

definition final_cow :: "'a cow_state_scheme \<Rightarrow> 'a cow_state_scheme res" where
  "final_cow st = final_cow_entries st (concat (map (buckets st) (map int [0..<nat BUCKET_NUM])))"

lemma load64_synced: "load64 (pm_fence (pm_flush a f)) b = load64 f b"
  by (simp add: load64_def)

section \<open>Allocation does not touch the table\<close>

lemma more_set_img [simp]: "alloc_state.more (set_img f st) = alloc_state.more st"
  by (simp add: set_img_def)

lemma cow_set_img [simp]:
  "cow_heap (set_img f st) = cow_heap st" "cow_next (set_img f st) = cow_next st" "buckets (set_img f st) = buckets st"
  "cow_l (set_img f st) = cow_l st" "ht_size (set_img f st) = ht_size st" "global_length (set_img f st) = global_length st"
  by (simp_all add: set_img_def)

lemma more_finish [simp]:
  "alloc_state.more (finish_same a st) = alloc_state.more st"
  "alloc_state.more (finish_new a m st) = alloc_state.more st"
  by (simp_all add: finish_same_def finish_new_def split_beta Let_def)

lemma new_block_more:
  assumes "new_block st a = Some (Inr (nb, st'))"
  shows "alloc_state.more st' = alloc_state.more st"
proof -
  have t: "take_nb x = Some (n, y) \<Longrightarrow> alloc_state.more y = alloc_state.more x" for x y :: "'a alloc_state_scheme" and n
    by (auto simp: take_nb_def split: if_splits)
  have m: "new_meta x = Some (Inr (n, y)) \<Longrightarrow> alloc_state.more y = alloc_state.more x" for x y :: "'a alloc_state_scheme" and n
    by (auto simp: new_meta_def res_bind_Inr_iff t split: option.splits dest: t)
  show ?thesis
    using assms by (auto simp: new_block_def Let_def t m split: option.splits if_splits sum.splits)
qed

lemma cow_fields_more:
  "alloc_state.more st' = alloc_state.more st \<Longrightarrow>
   cow_heap st' = cow_heap st \<and> cow_next st' = cow_next st \<and> buckets st' = buckets st \<and> ht_size st' = ht_size st
   \<and> cow_l st' = cow_l st \<and> global_length st' = global_length st"
  by (cases st; cases st') (simp add: cow_state.defs)

lemmas new_block_cow = new_block_more [THEN cow_fields_more]

text \<open>\<open>new_block\<close> keeps the geometry of the layer it allocates from.\<close>

lemma new_block_super:
  assumes "new_block st a = Some (Inr (nb, st'))"
  shows "block_size (cur_s st') = block_size (cur_s st)" "fd (cur_s st') = fd (cur_s st)" "addr (cur_s st') = addr (cur_s st)"
    "my_off (cur_s st') = my_off (cur_s st)" "max_per_seg (cur_s st') = max_per_seg (cur_s st)"
proof -
  have t: "take_nb x = Some (n, y) \<Longrightarrow> cur_s y = cur_s x" for x y :: "'a alloc_state_scheme" and n
    by (auto simp: take_nb_def split: if_splits)
  have m: "new_meta x = Some (Inr (n, y)) \<Longrightarrow> cur_s y = cur_s x" for x y :: "'a alloc_state_scheme" and n
    by (auto simp: new_meta_def res_bind_Inr_iff t split: option.splits)
  have f: "cur_s (finish_same a x) = (cur_s x)\<lparr>active_meta := fst (append_entry (active_meta (cur_s x)) (vblock (cur_s x) a) (img x))\<rparr>"
    "cur_s (finish_new a n x) = fst (link_meta (cur_s x) (fst (append_entry n (vblock (cur_s x) a) (img x)))
       (snd (append_entry n (vblock (cur_s x) a) (img x))))" for x :: "'a alloc_state_scheme" and n
    by (simp_all add: finish_same_def finish_new_def split_beta Let_def)
  have g: "block_size (cur_s (finish_new a n x)) = block_size (cur_s x)" "fd (cur_s (finish_new a n x)) = fd (cur_s x)"
    "addr (cur_s (finish_new a n x)) = addr (cur_s x)" "my_off (cur_s (finish_new a n x)) = my_off (cur_s x)"
    "max_per_seg (cur_s (finish_new a n x)) = max_per_seg (cur_s x)" for x :: "'a alloc_state_scheme" and n
    by (simp_all add: f link_meta_def Let_def)
  have "(\<exists>x. st' = finish_same a x \<and> cur_s x = cur_s st) \<or> (\<exists>n x. st' = finish_new a n x \<and> cur_s x = cur_s st)"
    using assms by (auto simp: new_block_def Let_def split: option.splits if_splits sum.splits dest!: t m)
  then show "block_size (cur_s st') = block_size (cur_s st)" "fd (cur_s st') = fd (cur_s st)" "addr (cur_s st') = addr (cur_s st)"
    "my_off (cur_s st') = my_off (cur_s st)" "max_per_seg (cur_s st') = max_per_seg (cur_s st)"
    by (auto simp: g f(1))
qed

section \<open>The table as a map\<close>

text \<open>
  The finite map a table stands for, and its invariant: entries sit in the bucket of their key, keys
  of a bucket are distinct, and no index at or above \<open>cow_next\<close> is in use.
\<close>

definition ht_map :: "'a cow_state_scheme \<Rightarrow> int \<Rightarrow> nat option" where
  "ht_map st v = find (\<lambda>i. fault_voff_aligned (cow_heap st i) = v) (buckets st (bucket_number (cur_s st) v))"

definition table_ok :: "'a cow_state_scheme \<Rightarrow> bool" where
  "table_ok st \<longleftrightarrow>
     (\<forall>b. (\<forall>i\<in>set (buckets st b). i < cow_next st \<and> bucket_number (cur_s st) (fault_voff_aligned (cow_heap st i)) = b)
          \<and> distinct (map (\<lambda>i. fault_voff_aligned (cow_heap st i)) (buckets st b)))"

lemma find_map_upd:
  fixes n :: nat
  assumes "\<And>i. i \<in> set is \<Longrightarrow> i < n"
  shows "find (\<lambda>i. fault_voff_aligned ((h(n := c)) i) = v) is = find (\<lambda>i. fault_voff_aligned (h i) = v) is"
proof (rule find_cong)
  fix i assume "i \<in> set is"
  with assms [of i] show "(fault_voff_aligned ((h(n := c)) i) = v) = (fault_voff_aligned (h i) = v)" by auto
qed simp

lemma search_bucket_find:
  "map_option fst (search_bucket h v rank is) = find (\<lambda>i. fault_voff_aligned (h i) = v) is"
  by (induction "is" arbitrary: rank) (auto simp: option.map_comp comp_def split_beta)

text \<open>An entry is taken off exactly when it heads its bucket.\<close>

lemma search_bucket_deep:
  "1 \<le> rank \<Longrightarrow> search_bucket h v rank is = Some (i, full, js) \<Longrightarrow> \<not> full \<and> js = is"
proof (induction "is" arbitrary: rank i full js)
  case (Cons k ks)
  then show ?case using Cons.IH [of "rank + 1"] by (fastforce simp: RECENT_RANK_THRESHOLD_def split: if_splits)
qed simp

lemma search_bucket_cases:
  assumes "search_bucket h v 0 is = Some (i, full, js)"
  shows "full \<and> is = i # js \<and> fault_voff_aligned (h i) = v \<or> \<not> full \<and> js = is \<and> i \<in> set is \<and> is \<noteq> [] \<and> hd is \<noteq> i"
proof (cases "is")
  case Nil
  with assms show ?thesis by simp
next
  case (Cons k ks)
  show ?thesis
  proof (cases "fault_voff_aligned (h k) = v")
    case True
    with assms Cons show ?thesis by (simp add: RECENT_RANK_THRESHOLD_def)
  next
    case False
    then obtain js' where s: "search_bucket h v 1 ks = Some (i, full, js')" "js = k # js'"
      using assms Cons by auto
    have f: "find (\<lambda>i. fault_voff_aligned (h i) = v) ks = Some i"
      using search_bucket_find [of h v 1 ks] s(1) by simp
    then have "i \<in> set ks" "fault_voff_aligned (h i) = v" by (auto simp: find_Some_iff)
    then show ?thesis using search_bucket_deep [OF _ s(1)] s(2) False Cons by auto
  qed
qed

section \<open>Operations on the map\<close>

lemma table_okD:
  assumes "table_ok st"
  shows "i \<in> set (buckets st b) \<Longrightarrow> i < cow_next st"
    "i \<in> set (buckets st b) \<Longrightarrow> bucket_number (cur_s st) (fault_voff_aligned (cow_heap st i)) = b"
    "distinct (map (\<lambda>i. fault_voff_aligned (cow_heap st i)) (buckets st b))"
  using assms by (auto simp: table_ok_def)

lemma ht_map_None:
  "ht_map st v = None \<longleftrightarrow> v \<notin> (\<lambda>i. fault_voff_aligned (cow_heap st i)) ` set (buckets st (bucket_number (cur_s st) v))"
  by (auto simp: ht_map_def find_None_iff)

lemma bucket_number_cong: "block_size s = block_size t \<Longrightarrow> bucket_number s v = bucket_number t v"
  by (simp add: bucket_number_def)

lemma insert_ht_cases:
  assumes "insert_ht st v = Some (Inr (i, st'))"
  obtains nb st1 m where "new_block st v = Some (Inr (nb, st1))" "read_meta (img st1) (cur_s st1) (cow_meta_n (cur_s st1)) = Inr m"
    "i = cow_next st" "cow_next st' = Suc (cow_next st)" "cur_s st' = cur_s st1" "cow_l st' = cow_l st" "vm st' = vm st1"
    "cow_heap st' = (cow_heap st)(i := \<lparr>fault_voff_aligned = v, ce_m = m,
        meta_entry = pm_btm_addr m (counter (active_meta (cur_s st1)) - 1),
        ce_block_off = block_off nb, ce_map_addr = map_addr nb, ce_map_addr2 = map_addr2 nb, copied_counter = 0\<rparr>)"
    "buckets st' = (buckets st)(bucket_number (cur_s st) v := i # buckets st (bucket_number (cur_s st) v))"
proof -
  from assms obtain nb st1 m where n: "new_block st v = Some (Inr (nb, st1))"
      "read_meta (img st1) (cur_s st1) (cow_meta_n (cur_s st1)) = Inr m"
    by (auto simp: insert_ht_def Let_def res_bind_Inr_iff split: option.splits sum.splits)
  have b: "bucket_number (cur_s st1) v = bucket_number (cur_s st) v"
    by (rule bucket_number_cong [OF new_block_super(1) [OF n(1)]])
  show thesis
    using assms by (intro that [OF n]) (auto simp: insert_ht_def Let_def n new_block_cow [OF n(1)] b)
qed

lemma insert_ht_map:
  assumes ok: "table_ok st" and i: "insert_ht st v = Some (Inr (i, st'))" and new: "ht_map st v = None"
  shows "ht_map st' = (ht_map st)(v \<mapsto> i)" "table_ok st'"
proof -
  obtain nb st1 m where c: "new_block st v = Some (Inr (nb, st1))" "i = cow_next st" "cow_next st' = Suc (cow_next st)"
    "cur_s st' = cur_s st1" "cow_heap st' = (cow_heap st)(i := \<lparr>fault_voff_aligned = v, ce_m = m,
        meta_entry = pm_btm_addr m (counter (active_meta (cur_s st1)) - 1),
        ce_block_off = block_off nb, ce_map_addr = map_addr nb, ce_map_addr2 = map_addr2 nb, copied_counter = 0\<rparr>)"
    "buckets st' = (buckets st)(bucket_number (cur_s st) v := i # buckets st (bucket_number (cur_s st) v))"
    using insert_ht_cases [OF i] by metis
  have b: "bucket_number (cur_s st') w = bucket_number (cur_s st) w" for w
    using bucket_number_cong [OF new_block_super(1) [OF c(1)]] c(4) by simp
  note d = table_okD [OF ok]
  have old: "fault_voff_aligned (cow_heap st' k) = fault_voff_aligned (cow_heap st k)" if "k \<in> set (buckets st b)" for k b
    using d(1) [OF that] c(2,5) by simp
  show "ht_map st' = (ht_map st)(v \<mapsto> i)"
  proof
    fix w
    have "find (\<lambda>k. fault_voff_aligned (cow_heap st' k) = w) (buckets st x) =
        find (\<lambda>k. fault_voff_aligned (cow_heap st k) = w) (buckets st x)" for x
      by (intro find_cong) (simp_all add: old)
    then show "ht_map st' w = ((ht_map st)(v \<mapsto> i)) w"
      using c(5,6) by (auto simp: ht_map_def b)
  qed
  have k: "map (\<lambda>k. fault_voff_aligned (cow_heap st' k)) (buckets st x) =
      map (\<lambda>k. fault_voff_aligned (cow_heap st k)) (buckets st x)" for x
    by (simp add: old)
  have vi: "fault_voff_aligned (cow_heap st' i) = v" using c(5) by simp
  show "table_ok st'"
    unfolding table_ok_def
  proof (intro allI conjI ballI)
    fix x k assume m: "k \<in> set (buckets st' x)"
    then consider "k = i" "x = bucket_number (cur_s st) v" | "k \<in> set (buckets st x)"
      using c(6) by (auto split: if_splits)
    then have "k < cow_next st' \<and> bucket_number (cur_s st') (fault_voff_aligned (cow_heap st' k)) = x"
    proof cases
      case 1
      then show ?thesis using c(2,3) vi by (simp add: b)
    next
      case 2
      then show ?thesis using d(1,2) [OF 2] old [OF 2] by (simp add: b c(3))
    qed
    then show "k < cow_next st'" "bucket_number (cur_s st') (fault_voff_aligned (cow_heap st' k)) = x"
      by simp_all
  next
    fix x
    show "distinct (map (\<lambda>k. fault_voff_aligned (cow_heap st' k)) (buckets st' x))"
    proof (cases "x = bucket_number (cur_s st) v")
      case True
      then show ?thesis
        using d(3) [of x] new by (simp add: c(6) k vi) (auto simp: ht_map_None old)
    next
      case False
      then show ?thesis using d(3) [of x] by (simp add: c(6) k)
    qed
  qed
qed

lemma search_ht_cases:
  assumes "search_ht st v = (r, full, st')"
  obtains "r = None" "\<not> full" "st' = st" "ht_map st v = None"
  | i where "r = Some i" "\<not> full" "st' = st" "ht_map st v = Some i"
  | i js where "r = Some i" full "ht_map st v = Some i" "buckets st (bucket_number (cur_s st) v) = i # js"
      "st' = st\<lparr>cow_heap := (cow_heap st)(i := (cow_heap st i)\<lparr>copied_counter := -1\<rparr>),
              buckets := (buckets st)(bucket_number (cur_s st) v := js)\<rparr>"
proof -
  let ?b = "bucket_number (cur_s st) v"
  have f: "map_option fst (search_bucket (cow_heap st) v 0 (buckets st ?b)) = ht_map st v"
    by (simp add: search_bucket_find ht_map_def)
  show thesis
  proof (cases "search_bucket (cow_heap st) v 0 (buckets st ?b)")
    case None
    with assms f that(1) show thesis by (simp add: search_ht_def Let_def)
  next
    case (Some x)
    obtain i fl js where x: "x = (i, fl, js)" by (cases x)
    note c = search_bucket_cases [OF Some [unfolded x]]
    show thesis
    proof (cases fl)
      case True
      with assms Some x have "r = Some i" full "st' = st\<lparr>cow_heap := (cow_heap st)(i := (cow_heap st i)\<lparr>copied_counter := -1\<rparr>),
          buckets := (buckets st)(?b := js)\<rparr>"
        by (simp_all add: search_ht_def Let_def)
      moreover have "ht_map st v = Some i" using f Some x by simp
      moreover have "buckets st ?b = i # js" using c True by blast
      ultimately show thesis using that(3) by blast
    next
      case False
      with assms Some x have "r = Some i" "\<not> full" "st' = st" by (simp_all add: search_ht_def Let_def)
      moreover have "ht_map st v = Some i" using f Some x by simp
      ultimately show thesis using that(2) by blast
    qed
  qed
qed

lemma search_ht_map:
  assumes ok: "table_ok st" and s: "search_ht st v = (r, full, st')"
  shows "r = ht_map st v" "table_ok st'" "ht_map st' = (if full then (ht_map st)(v := None) else ht_map st)"
proof -
  have "r = ht_map st v \<and> table_ok st' \<and> ht_map st' = (if full then (ht_map st)(v := None) else ht_map st)"
    using s
  proof (cases rule: search_ht_cases)
    case (3 i js)
    let ?b = "bucket_number (cur_s st) v"
    note d = table_okD [OF ok]
    have key: "fault_voff_aligned (cow_heap st' k) = fault_voff_aligned (cow_heap st k)" for k
      using 3(5) by simp
    have c: "cur_s st' = cur_s st" "cow_next st' = cow_next st" "buckets st' = (buckets st)(?b := js)"
      using 3(5) by simp_all
    have vi: "fault_voff_aligned (cow_heap st i) = v" using 3(3) by (auto simp: ht_map_def find_Some_iff)
    have m: "ht_map st' w = ((ht_map st)(v := None)) w" for w
    proof (cases "bucket_number (cur_s st) w = ?b")
      case True
      have "v \<notin> (\<lambda>k. fault_voff_aligned (cow_heap st k)) ` set js"
        using d(3) [of ?b] 3(4) vi by simp
      then have "find (\<lambda>k. fault_voff_aligned (cow_heap st k) = v) js = None"
        unfolding find_None_iff by blast
      then show ?thesis using True 3(4) vi by (auto simp: ht_map_def key c)
    next
      case False
      then show ?thesis by (auto simp: ht_map_def key c)
    qed
    have "table_ok st'"
      unfolding table_ok_def key c
    proof (intro allI conjI ballI)
      fix x k assume "k \<in> set (((buckets st)(?b := js)) x)"
      then have "k \<in> set (buckets st x)" using 3(4) by (auto split: if_splits)
      then show "k < cow_next st" "bucket_number (cur_s st) (fault_voff_aligned (cow_heap st k)) = x"
        using d(1,2) by auto
    next
      fix x
      show "distinct (map (\<lambda>i. fault_voff_aligned (cow_heap st i)) (((buckets st)(?b := js)) x))"
        using d(3) [of x] 3(4) by (auto split: if_splits)
    qed
    with 3 m show ?thesis by auto
  qed (simp_all add: ok)
  then show "r = ht_map st v" "table_ok st'" "ht_map st' = (if full then (ht_map st)(v := None) else ht_map st)"
    by blast+
qed

text \<open>A block searched right after it was inserted heads its bucket.\<close>

lemma search_after_insert:
  assumes "insert_ht st v = Some (Inr (i, st'))"
  shows "\<exists>st2. search_ht st' v = (Some i, True, st2)"
proof -
  obtain nb st1 m where c: "new_block st v = Some (Inr (nb, st1))" "cur_s st' = cur_s st1"
    "cow_heap st' = (cow_heap st)(i := \<lparr>fault_voff_aligned = v, ce_m = m,
        meta_entry = pm_btm_addr m (counter (active_meta (cur_s st1)) - 1),
        ce_block_off = block_off nb, ce_map_addr = map_addr nb, ce_map_addr2 = map_addr2 nb, copied_counter = 0\<rparr>)"
    "buckets st' = (buckets st)(bucket_number (cur_s st) v := i # buckets st (bucket_number (cur_s st) v))"
    using insert_ht_cases [OF assms] by metis
  have "bucket_number (cur_s st') v = bucket_number (cur_s st) v"
    using bucket_number_cong [OF new_block_super(1) [OF c(1)]] c(2) by simp
  then show ?thesis using c(3,4) by (simp add: search_ht_def Let_def RECENT_RANK_THRESHOLD_def)
qed

section \<open>The interface of the table\<close>

text \<open>
  What the fault handler relies on: a map from blocks to their entries, a search that reads it and may
  take the entry off, and an insertion of a block that is not in it. \<open>fault\<close> is the search-or-insert
  \<open>insert_list\<close> runs under the bucket lock.
\<close>

locale partial_table =
  fixes look :: "'st \<Rightarrow> int \<Rightarrow> nat option"
    and ok :: "'st \<Rightarrow> bool"
    and ins :: "'st \<Rightarrow> int \<Rightarrow> (nat \<times> 'st) res option"
    and srch :: "'st \<Rightarrow> int \<Rightarrow> nat option \<times> bool \<times> 'st"
  assumes ins_map: "ok st \<Longrightarrow> look st v = None \<Longrightarrow> ins st v = Some (Inr (i, st')) \<Longrightarrow>
      ok st' \<and> look st' = (look st)(v \<mapsto> i)"
    and srch_map: "ok st \<Longrightarrow> srch st v = (r, full, st') \<Longrightarrow>
      r = look st v \<and> ok st' \<and> look st' = (if full then (look st)(v := None) else look st)"
    and srch_new: "srch st v = (None, full, st') \<Longrightarrow> \<not> full"
    and srch_recent: "ins st v = Some (Inr (i, st')) \<Longrightarrow> \<exists>st2. srch st' v = (Some i, True, st2)"
begin

definition fault :: "'st \<Rightarrow> int \<Rightarrow> (nat \<times> bool \<times> 'st) res option" where
  "fault st v =
     (case srch st v of
        (Some i, full, st1) \<Rightarrow> Some (Inr (i, full, st1))
      | (None, full, st1) \<Rightarrow> map_option (\<lambda>r. res_bind r (\<lambda>(i, st2). Inr (i, full, st2))) (ins st1 v))"

lemma fault_cases:
  assumes "ok st" "fault st v = Some (Inr (i, full, st'))"
  obtains "look st v = Some i" "look st' = (if full then (look st)(v := None) else look st)" "ok st'"
  | st1 where "look st v = None" "\<not> full" "look st' = (look st)(v \<mapsto> i)" "ok st'" "ins st1 v = Some (Inr (i, st'))"
proof -
  obtain r fl st1 where s: "srch st v = (r, fl, st1)" by (cases "srch st v")
  note m = srch_map [OF assms(1) s]
  show thesis
  proof (cases r)
    case (Some j)
    then show thesis using that(1) m s assms(2) by (auto simp: fault_def)
  next
    case None
    then have nf: "\<not> fl" using srch_new s by simp
    have "ins st1 v = Some (Inr (i, st'))" "full = fl"
      using None s assms(2) by (auto simp: fault_def res_bind_Inr_iff)
    then show thesis using that(2) ins_map [of st1 v i st'] m None nf by auto
  qed
qed

lemma fault_keeps_others:
  assumes "ok st" "fault st v = Some (Inr (i, full, st'))" "w \<noteq> v"
  shows "look st' w = look st w"
  using fault_cases [OF assms(1,2)] assms(3) by (metis fun_upd_other)

text \<open>The second of two consecutive faults on a fresh block asks for the full copy and forgets the block.\<close>

lemma second_fault_full:
  assumes "ok st" "look st v = None" "fault st v = Some (Inr (i, full, st1))" "fault st1 v = Some (Inr (j, full', st2))"
  shows "\<not> full \<and> j = i \<and> full' \<and> look st2 = look st"
proof -
  from assms(1,3) obtain st0 where c: "\<not> full" "look st1 = (look st)(v \<mapsto> i)" "ok st1" "ins st0 v = Some (Inr (i, st1))"
    by (cases rule: fault_cases) (use assms(2) in auto)
  obtain st3 where s: "srch st1 v = (Some i, True, st3)" using srch_recent [OF c(4)] by blast
  have "look st3 = look st" using srch_map [OF c(3) s] c(2) assms(2) by auto
  with s assms(4) c(1) show ?thesis by (simp add: fault_def)
qed

end

interpretation ht: partial_table ht_map table_ok insert_ht search_ht
proof
  fix st st' :: "'a cow_state_scheme" and v r full i
  show "table_ok st' \<and> ht_map st' = (ht_map st)(v \<mapsto> i)"
    if "table_ok st" "ht_map st v = None" "insert_ht st v = Some (Inr (i, st'))"
    using insert_ht_map [OF that(1,3,2)] by simp
  show "r = ht_map st v \<and> table_ok st' \<and> ht_map st' = (if full then (ht_map st)(v := None) else ht_map st)"
    if "table_ok st" "search_ht st v = (r, full, st')"
    using search_ht_map [OF that] by simp
  show "\<not> full" if "search_ht st v = (None, full, st')"
    using that by (cases rule: search_ht_cases) simp_all
  show "\<exists>st2. search_ht st' v = (Some i, True, st2)" if "insert_ht st v = Some (Inr (i, st'))"
    by (rule search_after_insert [OF that])
qed

section \<open>The current lists\<close>

definition block_start :: "int \<Rightarrow> int \<Rightarrow> int" where
  "block_start bs v = ulong (v div ulong bs * ulong bs)"

definition list_entry :: "Super \<Rightarrow> int \<Rightarrow> nat \<Rightarrow> bool \<Rightarrow> Cow_l_entry" where
  "list_entry s v i full =
     (if full then \<lparr>voff = block_start (block_size s) v, copy_size = block_size s, cow_entry = i\<rparr>
      else \<lparr>voff = v, copy_size = COW_UNIT, cow_entry = i\<rparr>)"

definition lists_ok :: "'a cow_state_scheme \<Rightarrow> bool" where
  "lists_ok st \<longleftrightarrow> (\<forall>n. l_size (cow_l st n) = int (length (l_entries (cow_l st n))) \<and> length (l_entries (cow_l st n)) < 128)"

lemma insert_ht_super:
  assumes "insert_ht st v = Some (Inr (i, st'))"
  shows "block_size (cur_s st') = block_size (cur_s st)" "cow_l st' = cow_l st"
proof -
  obtain nb st1 where "new_block st v = Some (Inr (nb, st1))" "cur_s st' = cur_s st1" "cow_l st' = cow_l st"
    using insert_ht_cases [OF assms] by metis
  then show "block_size (cur_s st') = block_size (cur_s st)" "cow_l st' = cow_l st"
    using new_block_super(1) by auto
qed

lemma fault_super:
  assumes "ht.fault st v = Some (Inr (i, full, st'))"
  shows "block_size (cur_s st') = block_size (cur_s st) \<and> cow_l st' = cow_l st"
proof -
  obtain r fl st1 where s: "search_ht st v = (r, fl, st1)" by (cases "search_ht st v")
  then have "cur_s st1 = cur_s st \<and> cow_l st1 = cow_l st" by (cases rule: search_ht_cases) simp_all
  then show ?thesis
    using s assms insert_ht_super [of st1 v i st'] by (cases r) (auto simp: ht.fault_def res_bind_Inr_iff)
qed

text \<open>\<open>insert_list\<close> is the fault on the table followed by the append to the unit's list.\<close>

lemma insert_list_Some:
  assumes "insert_list st v = Some (Inr (Some e, st'))"
  obtains i full st2 where "\<not> in_list st v" "block_size (cur_s st) \<noteq> 0"
    "ht.fault st (block_start (block_size (cur_s st)) v) = Some (Inr (i, full, st2))"
    "e = list_entry (cur_s st) v i full" "cur_s st' = cur_s st2" "cow_heap st' = cow_heap st2" "files st' = files st2"
    "vm st' = vm st2" "buckets st' = buckets st2" "cow_next st' = cow_next st2"
    "cow_l st' = (cow_l st)(list_number v := push_list e (cow_l st (list_number v)))"
proof -
  let ?va = "block_start (block_size (cur_s st)) v"
  have g: "\<not> in_list st v" "block_size (cur_s st) \<noteq> 0" using assms by (auto simp: insert_list_def split: if_splits)
  obtain r fl st1 where s: "search_ht st ?va = (r, fl, st1)" by (cases "search_ht st ?va")
  show thesis
  proof (cases r)
    case (Some i)
    then have f: "ht.fault st ?va = Some (Inr (i, fl, st1))" using s by (simp add: ht.fault_def)
    show thesis using assms g s Some fault_super [OF f]
      by (intro that [OF g f]) (auto simp: insert_list_def Let_def block_start_def list_entry_def)
  next
    case None
    then obtain i st2 where n: "insert_ht st1 ?va = Some (Inr (i, st2))"
      using assms g s by (auto simp: insert_list_def Let_def block_start_def res_bind_Inr_iff)
    then have f: "ht.fault st ?va = Some (Inr (i, fl, st2))" using s None by (simp add: ht.fault_def)
    show thesis using assms g s None n fault_super [OF f]
      by (intro that [OF g f]) (auto simp: insert_list_def Let_def block_start_def list_entry_def)
  qed
qed

lemma insert_list_None:
  assumes "insert_list st v = Some (Inr (None, st'))"
  shows "in_list st v \<and> st' = st"
  using assms by (auto simp: insert_list_def Let_def res_bind_Inr_iff split: if_splits prod.splits option.splits)

lemma push_list_ok:
  assumes "l_size l = int (length (l_entries l))" "length (l_entries l) < 128"
  shows "l_size (push_list e l) = int (length (l_entries (push_list e l)))" "length (l_entries (push_list e l)) < 128"
    "e \<in> set (l_entries (push_list e l))"
proof -
  have c: "cint (l_size l + 1) = int (length (l_entries l)) + 1" using assms by (simp add: cint_id)
  have "l_entries l = [] \<Longrightarrow> length (l_entries l) \<noteq> 127" by simp
  then show "l_size (push_list e l) = int (length (l_entries (push_list e l)))" "length (l_entries (push_list e l)) < 128"
    "e \<in> set (l_entries (push_list e l))"
    using assms(2) by (cases "l_entries l"; force simp: push_list_def Let_def c MAX_CONCURRENT_def)+
qed

lemma block_start_bounds:
  assumes "wf_bs bs" "0 \<le> v" "v < 9223372036854775808" "v mod 4096 = 0"
  shows "block_start bs v = v div bs * bs" "block_start bs v \<le> v" "v + 4096 \<le> block_start bs v + bs"
    "block_start bs v mod 4096 = 0"
proof -
  have b: "4096 \<le> bs" "bs < 1073741824" "bs mod 4096 = 0" using wf_bsD [OF assms(1)] by auto
  have u: "ulong bs = bs" using b by (simp add: ulong_id)
  have le: "v div bs * bs \<le> v" "v < v div bs * bs + bs"
    using b pos_mod_bound [of bs v] pos_mod_sign [of bs v] div_mult_mod_eq [of v bs] by linarith+
  have "0 \<le> v div bs" using assms(2) b by (simp add: pos_imp_zdiv_nonneg_iff)
  then have "0 \<le> v div bs * bs" using b by (intro mult_nonneg_nonneg) simp_all
  then show e: "block_start bs v = v div bs * bs" using le assms(3) by (simp add: block_start_def u ulong_id)
  then show "block_start bs v \<le> v" using le by simp
  obtain k where k: "bs = 4096 * k" using b(3) by (metis dvd_def mod_eq_0_iff_dvd)
  obtain j where j: "v = 4096 * j" using assms(4) by (metis dvd_def mod_eq_0_iff_dvd)
  have "4096 * j < 4096 * (v div bs * k + k)" using le(2) k j by (simp add: algebra_simps)
  then have "j + 1 \<le> v div bs * k + k" by simp
  then have "4096 * (j + 1) \<le> 4096 * (v div bs * k + k)" by simp
  moreover have "v + 4096 = 4096 * (j + 1)" "v div bs * bs + bs = 4096 * (v div bs * k + k)"
    using k j by (simp_all add: algebra_simps)
  ultimately show "v + 4096 \<le> block_start bs v + bs" unfolding e by linarith
  show "block_start bs v mod 4096 = 0" unfolding e using k by simp
qed

section \<open>The entry a new block gets\<close>

text \<open>Layers of a single segment: the index \<open>insert_ht\<close> computes is right there.\<close>

lemma cow_meta_n_sync:
  assumes "super_sync s off bs mb n" "wf_bs bs" "0 \<le> seg_of (mps_of bs) n"
    "seg_of (mps_of bs) n * (1 + mps_of bs) * bs < 18446744073709551616"
  shows "cow_meta_n s = cint (ulong (seg_of (mps_of bs) n * bs * bs))"
proof -
  note f = super_sync_fields [OF assms(1)]
  let ?m = "mps_of bs" and ?g = "seg_of (mps_of bs) n"
  have b: "4096 \<le> bs" "bs < 1073741824" using wf_bsD [OF assms(2)] by auto
  have m: "0 < ?m" "?m < 1073741824" using mps_ge [OF assms(2)] b by (simp_all add: mps_of_def)
  have "active_meta_off s - my_off s - block_size s = ?g * (1 + ?m) * bs"
    by (simp add: f meta_at_def algebra_simps)
  moreover have "0 \<le> ?g * (1 + ?m) * bs" using assms(3) m b by simp
  ultimately have "ulong (active_meta_off s - my_off s - block_size s) = ?g * bs * (1 + ?m)"
    using assms(4) by (simp add: ulong_id ac_simps)
  moreover have "ulong (cint (max_per_seg s + 1)) = 1 + ?m" using m by (simp add: f cint_id ulong_id)
  ultimately show ?thesis using m b by (simp add: cow_meta_n_def f ulong_id)
qed

lemma read_meta_active:
  assumes w: "writable_rel st bs mb ls0 es" and z: "seg_of (mps_of bs) (int (length es)) = 0"
  shows "read_meta (img st) (cur_s st) 0 = Inr (active_of (image_end 0 bs ls0) bs (int (length es)))"
proof -
  note d = writable_relD [OF w] and s = super_sync_fields [OF writable_relD(2) [OF w]]
  let ?off = "image_end 0 bs ls0"
  have b: "4096 \<le> bs" "bs < 1073741824" "bs mod 4096 = 0" using wf_bsD [OF d(3)] by auto
  have st: "?off + 2 * bs \<le> st_size (img st)"
    using d(7) layer_end_ge(1) [OF d(3), of "int (length es)" ?off] by simp
  have lim: "st_size (img st) < 9223372036854775808" using d(4) by (simp add: wf_file_def)
  have u: "ulong (?off + bs) = ?off + bs" using d(9) b st lim by (intro ulong_id) simp_all
  have al: "(?off + bs) mod 4096 = 0" using d(10) b(3) by (simp add: mod_eq_0_iff_dvd)
  have l: "layer_at (img st) ?off bs mb es" using image_rel_last [OF d(1)] by auto
  have c: "mt_counter (img st) (?off + bs) = act_of (mps_of bs) (int (length es))"
    using l z by (auto simp: layer_at_def meta_at_def)
  have "act_of (mps_of bs) (int (length es)) \<le> mps_of bs" using act_of_bounds(2) [OF _ d(6)] by simp
  moreover have "backed (img st) (?off + bs)" using d(9) b st by (intro backed_less) simp_all
  ultimately show ?thesis
    using al b by (simp add: read_meta_def s u pm_mmap_def PAGE_SIZE_def c active_of_def z meta_at_def Let_def)
qed

lemma insert_ht_first_segment:
  assumes p: "pre_rel st bs mb ls0 es" and room: "int (length es) < mb" and q: "0 < nb_available st"
    and act: "int (length es) < mps_of bs"
  obtains i st' where "insert_ht st v = Some (Inr (i, st'))"
    "meta_entry (cow_heap st' i) = entry_at (image_end 0 bs ls0) bs (int (length es))"
    "ce_block_off (cow_heap st' i) = data_at (image_end 0 bs ls0) bs (int (length es))"
    "pre_rel st' bs mb ls0 (es @ [vblock_num bs v])"
proof -
  let ?off = "image_end 0 bs ls0" and ?n = "int (length es)" and ?m = "mps_of bs"
  let ?es = "es @ [vblock_num bs v]"
  have w: "writable_rel st bs mb ls0 es" using p by (simp add: pre_rel_def)
  note d = writable_relD [OF w]
  have seg0: "seg_of ?m ?n = 0" using act by (simp add: seg_of_def div_pos_pos_trivial)
  then have a: "act_of ?m ?n = ?n" by (simp add: act_of_def)
  have seg: "seg_of ?m (?n + 1) = 0" using act by (simp add: seg_of_def div_pos_pos_trivial)
  then have a1: "act_of ?m (?n + 1) = ?n + 1" "act_of ?m (1 + ?n) = ?n + 1" by (simp_all add: act_of_def add.commute)
  have "blocks_needed bs es \<le> nb_available st" using q act a by (simp add: blocks_needed_def)
  then obtain nb st1 where n: "new_block st v = Some (Inr (nb, st1))" "pre_rel st1 bs mb ls0 ?es"
    "block_off nb = data_at ?off bs ?n"
    using new_block_pre [OF p room, of v] by metis
  have w1: "writable_rel st1 bs mb ls0 ?es" using n(2) by (simp add: pre_rel_def)
  note s = super_sync_fields [OF writable_relD(2) [OF w1]]
  have cm: "cow_meta_n (cur_s st1) = 0"
    using cow_meta_n_sync [OF writable_relD(2) [OF w1] d(3)] seg by (simp add: add.commute cint_def ulong_def)
  have rm: "read_meta (img st1) (cur_s st1) 0 = Inr (active_of ?off bs (?n + 1))"
    using read_meta_active [OF w1] seg by (simp add: add.commute)
  let ?f = "store32 (pm_top (active_of ?off bs (?n + 1)) + 4)
      (mt_fg_counter (img st1) (pm_top (active_of ?off bs (?n + 1))) + 1) (img st1)"
  have top: "pm_top (active_of ?off bs (?n + 1)) = meta_at ?off bs 0" by (simp add: active_of_def seg Let_def)
  have wf: "writable_rel (set_img ?f st1) bs mb ls0 ?es"
    unfolding store32_def
    by (rule writable_rel_store_free [OF w1], rule fg_counter_free [of 0])
      (use seg in \<open>simp_all add: top add.commute\<close>)
  have ro: "ring_ok 0 (set_img ?f st1)"
    using n(2) by (simp add: pre_rel_def ring_ok_def)
  obtain i st' where r: "insert_ht st v = Some (Inr (i, st'))" "st' = (set_img ?f st1)\<lparr>cow_heap := cow_heap st',
      cow_next := cow_next st', buckets := buckets st', ht_size := ht_size st'\<rparr>"
    by (simp add: insert_ht_def n(1) cm rm Let_def)
  have "pre_rel st' bs mb ls0 ?es"
    using wf ro by (subst r(2)) (simp add: pre_rel_def writable_rel_def ring_ok_def img_def)
  moreover have "cow_heap st' i = \<lparr>fault_voff_aligned = v, ce_m = active_of ?off bs (?n + 1),
      meta_entry = pm_btm_addr (active_of ?off bs (?n + 1)) (counter (active_meta (cur_s st1)) - 1),
      ce_block_off = block_off nb, ce_map_addr = map_addr nb, ce_map_addr2 = map_addr2 nb, copied_counter = 0\<rparr>"
    using r(1) by (auto simp: insert_ht_def n(1) cm rm Let_def)
  moreover have "pm_btm_addr (active_of ?off bs (?n + 1)) (counter (active_meta (cur_s st1)) - 1) = entry_at ?off bs ?n"
    using entry_at_active [of ?n bs ?off] d(6) act
    by (simp add: s active_of_def seg seg0 a a1 Let_def pm_btm_addr_def CL_SIZE_def ENTRY_SIZE_def)
  ultimately show thesis using that r(1) n(3) by simp
qed

text \<open>A state with an empty table, one block in the ring and one empty layer.\<close>

lemma allocator_iter_more:
  "allocator_iter st = Alloc_done st' \<Longrightarrow> alloc_state.more st' = alloc_state.more st"
  by (auto simp: allocator_iter_def Let_def split_beta mmap_any_def set_img_def split: if_splits)

lemma sample_cow:
  "\<exists>st::cow_state. pre_rel st 4096 10 [] [] \<and> nb_available st = 1 \<and> table_ok st \<and> lists_ok st
     \<and> (\<forall>b. buckets st b = []) \<and> (\<forall>n. l_entries (cow_l st n) = [])"
proof -
  obtain a :: alloc_state where a: "pre_rel a 4096 10 [] []" "fs_limit (img a) = sample_limit" "nb_available a = 0"
    using sample_pre [of "[]" 10] by auto
  define c where "c = alloc_state.extend a (cow_state.fields (\<lambda>_. \<lparr>fault_voff_aligned = 0, ce_m = null_meta,
      meta_entry = 0, ce_block_off = 0, ce_map_addr = 0, ce_map_addr2 = 0, copied_counter = 0\<rparr>) 0 (\<lambda>_. []) 0
      (\<lambda>_. \<lparr>l_size = 0, l_entries = []\<rparr>) 0)"
  have f: "files c = files a" "cur_s c = cur_s a" "nbs c = nbs a" "nb_count c = nb_count a" "nb_available c = nb_available a"
    "buckets c b = []" "cow_l c n = \<lparr>l_size = 0, l_entries = []\<rparr>" for b n
    by (simp_all add: c_def alloc_state.defs cow_state.defs)
  have p: "pre_rel c 4096 10 [] []"
    using a(1) by (simp add: pre_rel_def writable_rel_def ring_ok_def img_def f)
  then have w: "ring_ok 0 c" "writable_rel c 4096 10 [] []" by (simp_all add: pre_rel_def)
  have "alloc_off (cur_s c) = layer_end 0 4096 0"
    using ring_okD(6) [OF w(1)] next_off_sync [OF w(2)] a(3) by (simp add: f)
  then obtain st where st: "allocator_iter c = Alloc_done st"
    using allocator_iter_produces [OF w] a by (auto simp: f img_def layer_end_def seg_of_def sample_limit_def)
  note n = allocator_iter_Done [OF w _ st]
  have "buckets st = buckets c" "cow_l st = cow_l c"
    using cow_fields_more [OF allocator_iter_more [OF st]] by simp_all
  then show ?thesis
    using n(1-3) a(3) by (intro exI [of _ st]) (simp add: pre_rel_def f fun_eq_iff table_ok_def lists_ok_def)
qed

section \<open>Properties\<close>

text \<open>C15: \<open>insert_list\<close>, the entry point of a write fault into the bookkeeping, keeps the hash table a
  well-formed map and the current lists within \<open>MAX_CONCURRENT\<close> entries. A \<open>NULL\<close> result means the unit
  was already listed and nothing changed. Otherwise the returned entry covers the faulting 4 KB unit, the
  unit is listed from then on, and the block's record is the one the table had for it, which a full copy
  takes off the table, or a new one; no other block's record changes.\<close>

theorem insert_list_spec:
  assumes "table_ok st" "lists_ok st" "wf_bs (block_size (cur_s st))"
    and "0 \<le> v" "v < 9223372036854775808" "v mod COW_UNIT = 0"
    and "insert_list st v = Some (Inr (r, st'))"
  shows "table_ok st' \<and> lists_ok st' \<and>
    (case r of
       None \<Rightarrow> in_list st v \<and> st' = st
     | Some e \<Rightarrow>
         let va = block_start (block_size (cur_s st)) v; i = cow_entry e; full = (ht_map st' va = None)
         in \<not> in_list st v \<and> covers v e \<and> in_list st' v
            \<and> copy_size e = (if full then block_size (cur_s st) else COW_UNIT)
            \<and> (case ht_map st va of Some j \<Rightarrow> i = j | None \<Rightarrow> i = cow_next st \<and> \<not> full)
            \<and> (\<forall>w. w \<noteq> va \<longrightarrow> ht_map st' w = ht_map st w))"
proof (cases r)
  case None
  then show ?thesis using insert_list_None assms(1,2,7) by auto
next
  case (Some e)
  let ?s = "cur_s st" and ?va = "block_start (block_size (cur_s st)) v" and ?n = "list_number v"
  obtain i full st2 where c: "\<not> in_list st v" "ht.fault st ?va = Some (Inr (i, full, st2))"
    "e = list_entry ?s v i full" "cur_s st' = cur_s st2" "cow_heap st' = cow_heap st2"
    "buckets st' = buckets st2" "cow_next st' = cow_next st2"
    "cow_l st' = (cow_l st)(?n := push_list e (cow_l st ?n))"
    using insert_list_Some [OF assms(7) [unfolded Some]] by metis
  have m: "ht_map st' = ht_map st2" "table_ok st' = table_ok st2"
    using c(4-7) by (auto simp: ht_map_def table_ok_def fun_eq_iff)
  have l: "lists_ok st'"
    using assms(2) push_list_ok(1,2) [of "cow_l st ?n" e] by (simp add: lists_ok_def c(8))
  have b: "block_start (block_size ?s) v \<le> v" "v + 4096 \<le> block_start (block_size ?s) v + block_size ?s"
    "0 \<le> block_start (block_size ?s) v" "block_size ?s < 1073741824"
    using block_start_bounds(2,3) [OF assms(3-5)] assms(6) wf_bsD(2) [OF assms(3)]
    by (simp_all add: COW_UNIT_def) (simp add: block_start_def)
  have cv: "covers v e"
    using b assms(4,5) by (auto simp: covers_def c(3) list_entry_def COW_UNIT_def ulong_id)
  have il: "in_list st' v"
    using cv push_list_ok(3) [of "cow_l st ?n" e] assms(2) by (auto simp: in_list_def c(8) lists_ok_def list_ex_iff)
  have others: "w \<noteq> ?va \<Longrightarrow> ht_map st2 w = ht_map st w" for w
    by (rule ht.fault_keeps_others [OF assms(1) c(2)])
  have i: "cow_entry e = i" "copy_size e = (if full then block_size ?s else COW_UNIT)"
    by (simp_all add: c(3) list_entry_def)
  have "table_ok st2 \<and> full = (ht_map st2 ?va = None)
      \<and> (case ht_map st ?va of Some j \<Rightarrow> i = j | None \<Rightarrow> i = cow_next st \<and> \<not> full)"
    using assms(1) c(2)
  proof (cases rule: ht.fault_cases)
    case (2 st1)
    obtain r fl st3 where s: "search_ht st ?va = (r, fl, st3)" by (cases "search_ht st ?va")
    then have "r = None" "st3 = st" by (cases rule: search_ht_cases; simp add: 2(1))+
    then have "insert_ht st ?va = Some (Inr (i, st2))" using c(2) s by (auto simp: ht.fault_def res_bind_Inr_iff)
    then have "i = cow_next st" using insert_ht_cases by metis
    then show ?thesis using 2 by simp
  qed auto
  then show ?thesis using Some c(1) cv il l others i
    by (cases "ht_map st ?va") (auto simp: m Let_def)
qed

theorem insert_list_spec_witness:
  "\<exists>(st::cow_state) e st'. table_ok st \<and> insert_list st 4096 = Some (Inr (Some e, st')) \<and> table_ok st' \<and> in_list st' 4096
    \<and> copy_size e = COW_UNIT"
proof -
  obtain st :: cow_state where st: "pre_rel st 4096 10 [] []" "nb_available st = 1" "table_ok st" "lists_ok st"
    "\<And>b. buckets st b = []" "\<And>n. l_entries (cow_l st n) = []"
    using sample_cow by auto
  have bs: "block_size (cur_s st) = 4096"
    using st(1) super_sync_fields [OF writable_relD(2)] by (auto simp: pre_rel_def)
  obtain i st1 where i: "insert_ht st 4096 = Some (Inr (i, st1))"
    by (rule insert_ht_first_segment [OF st(1), of 4096]) (auto simp: mps_of_def st(2))
  then obtain e st' where e: "insert_list st 4096 = Some (Inr (Some e, st'))"
    by (simp add: insert_list_def in_list_def st(5,6) bs search_ht_def Let_def ulong_def)
  have "ht_map st (block_start 4096 4096) = None" by (simp add: ht_map_def st(5))
  then show ?thesis
    using insert_list_spec [OF st(3,4) _ _ _ _ e] e st(3)
    by (intro exI [of _ st] exI [of _ e] exI [of _ st'])
      (auto simp: bs wf_bs_def COW_UNIT_def Let_def)
qed

text \<open>Two consecutive write faults on a block that has no record: the first asks for a 4 KB copy, the
  second for the copy of the whole block, with the same record, which then leaves the table.\<close>

theorem second_fault_copies_block:
  assumes "table_ok st" "ht_map st v = None"
    and "ht.fault st v = Some (Inr (i, full, st1))" "ht.fault st1 v = Some (Inr (j, full', st2))"
  shows "\<not> full \<and> j = i \<and> full' \<and> ht_map st2 = ht_map st"
  by (rule ht.second_fault_full [OF assms])

theorem second_fault_copies_block_witness:
  "\<exists>(st::cow_state) i st1 st2. ht.fault st 0 = Some (Inr (i, False, st1)) \<and> ht.fault st1 0 = Some (Inr (i, True, st2))"
proof -
  obtain st :: cow_state where st: "pre_rel st 4096 10 [] []" "nb_available st = 1" "table_ok st" "\<And>b. buckets st b = []"
    using sample_cow by auto
  obtain i st1 where i: "insert_ht st 0 = Some (Inr (i, st1))"
    by (rule insert_ht_first_segment [OF st(1), of 0]) (auto simp: mps_of_def st(2))
  then have f: "ht.fault st 0 = Some (Inr (i, False, st1))"
    by (simp add: ht.fault_def search_ht_def st(4))
  obtain st2 where g: "ht.fault st1 0 = Some (Inr (i, True, st2))"
    using search_after_insert [OF i] by (auto simp: ht.fault_def)
  have "ht_map st 0 = None" by (simp add: ht_map_def st(4))
  from second_fault_copies_block [OF st(3) this f g] f g show ?thesis by blast
qed

text \<open>While the layer has one segment, \<open>insert_ht\<close> records the right place: the entry word of the
  block it just allocated, and the offset of its data block; the image then has that block's entry.\<close>

theorem insert_ht_records_entry:
  assumes "pre_rel st bs mb ls0 es" and "int (length es) < mb" and "0 < nb_available st" and "int (length es) < mps_of bs"
  shows "\<exists>i st'. insert_ht st v = Some (Inr (i, st'))
    \<and> meta_entry (cow_heap st' i) = entry_at (image_end 0 bs ls0) bs (int (length es))
    \<and> ce_block_off (cow_heap st' i) = data_at (image_end 0 bs ls0) bs (int (length es))
    \<and> pre_rel st' bs mb ls0 (es @ [vblock_num bs v])"
  using insert_ht_first_segment [OF assms, of v] by metis

theorem insert_ht_records_entry_witness:
  "\<exists>(st::cow_state) i st'. insert_ht st 8192 = Some (Inr (i, st')) \<and> meta_entry (cow_heap st' i) = 4160
    \<and> ce_block_off (cow_heap st' i) = 8192"
proof -
  obtain st :: cow_state where "pre_rel st 4096 10 [] []" "nb_available st = 1" using sample_cow by auto
  then show ?thesis using insert_ht_records_entry [of st 4096 10 "[]" "[]" 8192]
    by (auto simp: mps_of_def entry_at_def data_at_def meta_at_def)
qed



text \<open>C37: \<open>final_cow\<close> destroys the address of every entry it completes: the word it leaves behind names
  virtual block 0xffffffff, whatever block the entry stood for.\<close>

theorem final_cow_clobbers_address:
  assumes "final_cow_entry st i = Inr st'" "meta_entry (cow_heap st i) + 8 \<le> st_size (img st')"
  shows "load64 (img st') (meta_entry (cow_heap st i)) AND ADDR_MASK = 4294967295"
proof -
  let ?a = "meta_entry (cow_heap st i)"
  obtain st2 where "st' = set_img (pm_fence (pm_flush ?a (store64 ?a (load64 (img st2) ?a OR ADDR_MASK) (img st2)))) st2"
    using assms(1) by (auto simp: final_cow_entry_def Let_def split_beta res_bind_Inr_iff split: if_splits)
  then have "img st' = pm_fence (pm_flush ?a (store64 ?a (load64 (img st2) ?a OR ADDR_MASK) (img st2)))" by simp
  then have "load64 (img st') ?a = load64 (img st2) ?a OR ADDR_MASK"
    using assms(2) by (simp add: load64_synced load64_store64_same)
  then show ?thesis by (simp add: ADDR_MASK_def bit.conj_disj_distrib2 word_bw_lcs)
qed


definition demo_cow :: cow_state where
  "demo_cow =
     \<lparr>files = \<lambda>_. \<lparr>bytes = \<lambda>_. 0, st_size = 16384, fs_limit = sample_limit, pm_log = []\<rparr>,
      cur_s = super_of [] 0 4096 10 1, vm = [0 \<mapsto> \<lparr>vp_fd = [], vp_off = 12288, vp_write = False\<rparr>], vm_next = 40960,
      nbs = \<lambda>_. \<lparr>block_off = 0, map_addr = 0, map_addr2 = 0\<rparr>, nb_count = 0, nb_available = 0, alloc_dead = False,
      cow_heap = \<lambda>_. \<lparr>fault_voff_aligned = 0, ce_m = active_of 0 4096 1, meta_entry = 4160, ce_block_off = 8192,
        ce_map_addr = 0, ce_map_addr2 = 0, copied_counter = 0\<rparr>,
      cow_next = 1, buckets = \<lambda>b. if b = 0 then [0] else [], ht_size = 1,
      cow_l = \<lambda>_. \<lparr>l_size = 0, l_entries = []\<rparr>, global_length = 40960\<rparr>"

theorem final_cow_clobbers_address_witness:
  "\<exists>st'. final_cow_entry demo_cow 0 = Inr st' \<and> load64 (img st') 4160 AND ADDR_MASK = 4294967295
     \<and> load64 (img demo_cow) 4160 = 0"
proof -
  obtain st' where s: "final_cow_entry demo_cow 0 = Inr st'" "st_size (img st') = 16384"
    by (simp add: final_cow_entry_def demo_cow_def mmap_any_def mmap_fixed_def in_pages_def page_of_def PAGE_SIZE_def
        super_of_def Let_def copy_page_def backed_def img_def set_img_def numeral_eq_Suc)
  have e: "meta_entry (cow_heap demo_cow 0) = 4160" by (simp add: demo_cow_def)
  have "load64 (img demo_cow) 4160 = 0"
    by (simp add: demo_cow_def img_def load64_def get64_def peek_def numeral_eq_Suc)
  then show ?thesis using final_cow_clobbers_address [OF s(1)] s by (simp add: e)
qed

end
