(* ===== verification/Fmmap.thy ===== *)
theory Fmmap
  imports Cow_Table
begin

text \<open>
  Mapping an image into the address space (\<open>pcow.c\<close>, \<open>do_readonly_fmmap\<close> to \<open>fmunmap\<close>). The address
  the kernel returns for the underlying anonymous mapping is an argument of \<open>fmmap\<close>. A guest page that
  is not mapped to a file page is a missing page of that anonymous mapping, which the userfault monitor
  serves. The theorem of this theory is the overlay semantics of a mapped image: a virtual block shows
  the data block of the last entry for it, writable when that entry is in the last layer.
\<close>

section \<open>Mapping one layer\<close>

definition REG_LEN :: int where "REG_LEN = 549755813888"

text \<open>\<open>m->pm_btm[j] & ADDR_MASK\<close>, the virtual block number of an entry.\<close>

definition entry_block :: "u64 \<Rightarrow> int" where
  "entry_block e = uint (e AND ADDR_MASK)"

definition map_entry :: "pm_file \<Rightarrow> Super \<Rightarrow> int \<Rightarrow> bool \<Rightarrow> Meta \<Rightarrow> int \<Rightarrow> int \<Rightarrow> vmap \<Rightarrow> vmap" where
  "map_entry f s base wr m data_off j v =
     (let a = ulong (base + entry_block (load64 f (pm_btm_addr m j)) * block_size s);
          o' = ulong (data_off + block_size s * j)
      in if wr then mmap_fixed a (block_size s) True (fd s) o' v
         else mprotect_read a (block_size s) (mmap_fixed a (block_size s) True (fd s) o' v))"

definition map_segment :: "pm_file \<Rightarrow> Super \<Rightarrow> int \<Rightarrow> bool \<Rightarrow> nat \<Rightarrow> vmap \<Rightarrow> vmap res" where
  "map_segment f s base wr i v =
     res_bind (read_meta f s (cint (int i))) (\<lambda>m.
       let data_off = ulong (my_off s + block_size s * (2 + (1 + max_per_seg s) * int i))
       in Inr (fold (\<lambda>j. map_entry f s base wr m data_off (int j)) [0..<nat (ulong (counter m))] v))"

fun map_segments :: "pm_file \<Rightarrow> Super \<Rightarrow> int \<Rightarrow> bool \<Rightarrow> nat list \<Rightarrow> vmap \<Rightarrow> vmap res" where
  "map_segments f s base wr [] v = Inr v"
| "map_segments f s base wr (i # is) v =
     res_bind (map_segment f s base wr i v) (\<lambda>v1. map_segments f s base wr is v1)"

definition do_readonly_fmmap :: "pm_file \<Rightarrow> Super \<Rightarrow> int \<Rightarrow> vmap \<Rightarrow> vmap res" where
  "do_readonly_fmmap f s base v =
     (if \<not> backed f (pm_top (active_meta s)) then Inl Sigbus
      else map_segments f s base False [0..<Suc (nat (ulong (active_meta_num s)))] v)"

text \<open>The caller's \<open>prot\<close> is \<open>PROT_READ|PROT_WRITE\<close> and its \<open>flags\<close> are \<open>MAP_SHARED\<close>.\<close>

definition do_writable_fmmap :: "pm_file \<Rightarrow> Super \<Rightarrow> vmap \<Rightarrow> vmap res" where
  "do_writable_fmmap f s v =
     (if \<not> backed f (pm_top (active_meta s)) then Inl Sigbus
      else map_segments f s (addr s) True [0..<Suc (nat (ulong (active_meta_num s)))] v)"

section \<open>Base images\<close>

text \<open>The C string in \<open>base_image_name\<close>; the page of the super block bounds it.\<close>

definition base_image_name :: "pm_file \<Rightarrow> int \<Rightarrow> cstr" where
  "base_image_name f p = takeWhile (\<lambda>c. c \<noteq> 0) (peek (bytes f) (p + 16) 4080)"

text \<open>
  \<open>do_base_fmmap\<close>: for a super with a base image it calls itself on the first super of the same file
  (not of the base image), then it maps the super, frees it, and reads it again. \<open>None\<close> is the endless
  recursion; the read of the freed structure is \<open>Undefined\<close>.
\<close>

partial_function (option) do_base_fmmap :: "pm_file \<Rightarrow> Super \<Rightarrow> int \<Rightarrow> vmap \<Rightarrow> vmap res option" where
  "do_base_fmmap f s base v =
     Option.bind
       (if base_image_name f (pm_super s) \<noteq> []
        then case read_first_super f (fd s) 0 of
               Inl e \<Rightarrow> Some (Inl e)
             | Inr None \<Rightarrow> Some (Inr v)
             | Inr (Some base_s) \<Rightarrow> do_base_fmmap f base_s base v
        else Some (Inr v))
       (\<lambda>r. Some (res_bind r (\<lambda>v1. res_bind (do_readonly_fmmap f s base v1) (\<lambda>v2. Inl Undefined))))"

section \<open>fmmap and fmunmap\<close>

text \<open>The loop over the read-only snapshots: the super it ends with, and the mappings.\<close>

partial_function (option) map_snapshots :: "pm_file \<Rightarrow> Super \<Rightarrow> int \<Rightarrow> vmap \<Rightarrow> (Super \<times> vmap) res option" where
  "map_snapshots f s base v =
     (case read_next_super f s of
        Inl e \<Rightarrow> Some (Inl e)
      | Inr None \<Rightarrow> Some (Inr (s, v))
      | Inr (Some t) \<Rightarrow>
          (case do_readonly_fmmap f s base v of
             Inl e \<Rightarrow> Some (Inl e)
           | Inr v1 \<Rightarrow> map_snapshots f t base v1))"

definition map_base :: "'a cow_state_scheme \<Rightarrow> cstr \<Rightarrow> int \<Rightarrow> vmap \<Rightarrow> vmap res option" where
  "map_base st name base v =
     (if name = [] then Some (Inr v)
      else case read_first_super (files st name) name 0 of
             Inl e \<Rightarrow> Some (Inl e)
           | Inr None \<Rightarrow> Some (Inr v)
           | Inr (Some base_s) \<Rightarrow> do_base_fmmap (files st name) base_s base v)"

text \<open>
  The end of \<open>fmmap\<close>, once the writable super is known: it becomes \<open>cur_s\<close>, its entries are mapped
  writable, the ring and the copy-on-write tables are set up and the threads are started.
\<close>

definition fmmap_start :: "'a cow_state_scheme \<Rightarrow> Super \<Rightarrow> int \<Rightarrow> int \<Rightarrow> vmap \<Rightarrow> 'a cow_state_scheme res" where
  "fmmap_start st s base len v =
     (let s1 = s\<lparr>fmmap_length := len, addr := base\<rparr>
      in res_bind (do_writable_fmmap (files st (fd s)) s1 v) (\<lambda>v1.
           let s2 = s1\<lparr>alloc_off := next_off s1\<rparr>
           in Inr (init_fgcow (st\<lparr>cur_s := s2, vm := v1, nb_count := 0, nb_available := 0, alloc_dead := False\<rparr>))))"

definition fmmap :: "'a cow_state_scheme \<Rightarrow> int \<Rightarrow> int \<Rightarrow> cstr \<Rightarrow> int \<Rightarrow> (int option \<times> 'a cow_state_scheme) res option" where
  "fmmap st0 base len0 fdn offset =
     (let st = st0\<lparr>global_length := len0\<rparr>; f = files st fdn
      in case read_first_super f fdn 0 of
           Inl e \<Rightarrow> Some (Inl e)
         | Inr None \<Rightarrow> Some (Inr (None, st))
         | Inr (Some s) \<Rightarrow>
             let len = (if len0 = 0 then ulong (ulong (block_size s) * ulong (max_block_num s)) else len0)
             in if len > REG_LEN then Some (Inr (None, st))
                else if offset > len then Some (Inr (None, st))
                else case map_base st (base_image_name f (pm_super s)) base (munmap base len (vm st)) of
                       None \<Rightarrow> None
                     | Some (Inl e) \<Rightarrow> Some (Inl e)
                     | Some (Inr v) \<Rightarrow>
                         map_option (\<lambda>r. res_bind r (\<lambda>(t, v1).
                             res_bind (fmmap_start st t base len v1) (\<lambda>st1. Inr (Some (ulong (base + offset)), st1))))
                           (map_snapshots f s base v))"

text \<open>\<open>fmunmap\<close>: the value returned, and the state. \<open>cur_s\<close> is freed, the threads are cancelled.\<close>

definition fmunmap :: "'a cow_state_scheme \<Rightarrow> int \<Rightarrow> (int \<times> 'a cow_state_scheme) res" where
  "fmunmap st a =
     (if a \<noteq> addr (cur_s st) then Inr (-1, st)
      else res_bind (final_cow st) (\<lambda>st1.
             let s = cur_s st1
             in Inr (0, st1\<lparr>vm := munmap a (ulong (ulong (block_size s) * ulong (max_block_num s))) (vm st1),
                            alloc_dead := True\<rparr>)))"

section \<open>Block maps\<close>

text \<open>
  The abstract view of the mapped region: virtual block number to the file offset it shows and whether it
  may be written. \<open>vm_rel\<close> relates the first \<open>nb\<close> blocks of the region at \<open>base\<close> to such a map.
\<close>

type_synonym block_map = "int \<Rightarrow> (int \<times> bool) option"

definition vm_rel :: "vmap \<Rightarrow> int \<Rightarrow> int \<Rightarrow> cstr \<Rightarrow> int \<Rightarrow> block_map \<Rightarrow> bool" where
  "vm_rel v base bs fdn nb M \<longleftrightarrow>
     (\<forall>b\<in>{0..<nb}. \<forall>j\<in>{0..<bs div PAGE_SIZE}.
        v (page_of base + b * (bs div PAGE_SIZE) + j) =
          map_option (\<lambda>(o', w). \<lparr>vp_fd = fdn, vp_off = o' + PAGE_SIZE * j, vp_write = w\<rparr>) (M b))"

text \<open>The entries of a layer, applied in order; the layers of an image, the last one writable.\<close>

definition layer_map :: "int \<Rightarrow> int \<Rightarrow> bool \<Rightarrow> u64 list \<Rightarrow> nat list \<Rightarrow> block_map \<Rightarrow> block_map" where
  "layer_map off bs w es ks M = fold (\<lambda>k M. M(entry_block (es ! k) \<mapsto> (data_at off bs (int k), w))) ks M"

fun image_map :: "int \<Rightarrow> int \<Rightarrow> u64 list list \<Rightarrow> block_map \<Rightarrow> block_map" where
  "image_map off bs [] M = M"
| "image_map off bs (es # ls) M =
     image_map (layer_end off bs (int (length es))) bs ls (layer_map off bs (ls = []) es [0..<length es] M)"

lemma entry_block_bounds: "0 \<le> entry_block e" "entry_block e < 4294967296"
proof -
  have "e AND ADDR_MASK \<le> ADDR_MASK" by (rule word_and_le1)
  then show "0 \<le> entry_block e" "entry_block e < 4294967296"
    by (simp_all add: entry_block_def ADDR_MASK_def word_le_def)
qed

lemma in_block_iff:
  assumes "0 < (n::int)" "0 \<le> j" "j < n"
  shows "e * n \<le> b * n + j \<and> b * n + j < e * n + n \<longleftrightarrow> b = e"
proof
  assume h: "e * n \<le> b * n + j \<and> b * n + j < e * n + n"
  then have "e * n < (b + 1) * n" "b * n < (e + 1) * n" using assms by (simp_all add: algebra_simps)
  then have "e < b + 1" "b < e + 1" using assms(1) by (simp_all add: mult_less_cancel_right)
  then show "b = e" by simp
qed (use assms in simp)

text \<open>Mapping \<open>bs\<close> bytes at the address of virtual block \<open>e\<close>.\<close>

lemma mmap_block_page:
  fixes b :: int
  assumes w: "wf_bs bs" and base: "base mod 4096 = 0" and o: "o' mod 4096 = 0" and e: "0 \<le> e"
    and j: "0 \<le> j" "j < bs div PAGE_SIZE"
  defines "p \<equiv> page_of base + b * (bs div PAGE_SIZE) + j" and "a \<equiv> base + e * bs"
  shows "in_pages a bs p \<longleftrightarrow> b = e"
    "mmap_fixed a bs True fdn o' v p =
       (if b = e then Some \<lparr>vp_fd = fdn, vp_off = o' + PAGE_SIZE * j, vp_write = True\<rparr> else v p)"
proof -
  obtain n where n: "bs = 4096 * n" using wf_bsD(3) [OF w] by (metis dvd_def mod_eq_0_iff_dvd)
  obtain k where k: "base = 4096 * k" using base by (metis dvd_def mod_eq_0_iff_dvd)
  have n0: "0 < n" using wf_bsD(1) [OF w] n by simp
  have d: "bs div PAGE_SIZE = n" "page_of base = k" using n k by (simp_all add: PAGE_SIZE_def page_of_def)
  have a: "a = 4096 * (k + e * n)" by (simp add: a_def n k algebra_simps)
  have pa: "page_of a = k + e * n" by (simp add: a page_of_def PAGE_SIZE_def)
  have jn: "0 \<le> j" "j < n" using j d by simp_all
  have "in_pages a bs p \<longleftrightarrow> page_of a \<le> p \<and> p < page_of a + bs div PAGE_SIZE"
    by (rule in_pages_aligned) (simp_all add: PAGE_SIZE_def a n)
  then show i: "in_pages a bs p \<longleftrightarrow> b = e"
    using in_block_iff [OF n0 jn, of e b] by (simp add: pa d p_def)
  have "0 < bs" "a mod PAGE_SIZE = 0" "o' mod PAGE_SIZE = 0"
    using n0 n o by (simp_all add: PAGE_SIZE_def a)
  then show "mmap_fixed a bs True fdn o' v p =
       (if b = e then Some \<lparr>vp_fd = fdn, vp_off = o' + PAGE_SIZE * j, vp_write = True\<rparr> else v p)"
    using i by (simp add: mmap_fixed_def pa) (simp add: p_def d)
qed

lemma map_entry_rel:
  assumes v: "vm_rel v base bs (fd s) nb M" and b: "wf_bs bs" "block_size s = bs"
    and base: "base mod 4096 = 0" "0 \<le> base" "base < 4611686018427387904"
    and o: "ulong (data_off + bs * j) = o'" "o' mod 4096 = 0"
  shows "vm_rel (map_entry f s base wr m data_off j v) base bs (fd s) nb
    (M(entry_block (load64 f (pm_btm_addr m j)) \<mapsto> (o', wr)))"
proof -
  let ?e = "entry_block (load64 f (pm_btm_addr m j))"
  note e = entry_block_bounds [of "load64 f (pm_btm_addr m j)"]
  have "?e * bs \<le> 4294967296 * 1073741824" using e wf_bsD(1,2) [OF b(1)] by (intro mult_mono) simp_all
  moreover have "0 \<le> ?e * bs" using e wf_bsD(1) [OF b(1)] by simp
  ultimately have u: "ulong (base + ?e * bs) = base + ?e * bs" using base by (intro ulong_id) simp_all
  note p = mmap_block_page [OF b(1) base(1) o(2) e(1)]
  show ?thesis
    using v unfolding vm_rel_def
    by (auto simp: map_entry_def Let_def b(2) u o(1) p mprotect_read_def)
qed

section \<open>Mapping a layer\<close>

text \<open>The facts about a super block that the mapping loops use.\<close>

definition layer_super :: "pm_file \<Rightarrow> Super \<Rightarrow> int \<Rightarrow> int \<Rightarrow> int \<Rightarrow> u64 list \<Rightarrow> bool" where
  "layer_super f s off bs mb es \<longleftrightarrow>
     wf_file f \<and> wf_bs bs \<and> 0 \<le> off \<and> off mod 4096 = 0 \<and> mb < 2147483647
     \<and> layer_at f off bs mb es \<and> layer_end off bs (int (length es)) \<le> st_size f
     \<and> my_off s = off \<and> block_size s = bs \<and> max_per_seg s = mps_of bs
     \<and> active_meta_num s = seg_of (mps_of bs) (int (length es))
     \<and> pm_top (active_meta s) = meta_at off bs (seg_of (mps_of bs) (int (length es)))"

lemma layer_superD:
  assumes "layer_super f s off bs mb es"
  shows "wf_file f" "wf_bs bs" "0 \<le> off" "off mod 4096 = 0" "mb < 2147483647" "layer_at f off bs mb es"
    "layer_end off bs (int (length es)) \<le> st_size f" "my_off s = off" "block_size s = bs" "max_per_seg s = mps_of bs"
    "active_meta_num s = seg_of (mps_of bs) (int (length es))"
    "pm_top (active_meta s) = meta_at off bs (seg_of (mps_of bs) (int (length es)))" "0 < mps_of bs"
    "st_size f < 9223372036854775808"
  using assms mps_ge [of bs] by (auto simp: layer_super_def wf_file_def)

definition seg_count :: "int \<Rightarrow> int \<Rightarrow> int \<Rightarrow> int" where
  "seg_count m n i = (if i < seg_of m n then m else act_of m n)"

lemma read_meta_seg:
  assumes l: "layer_super f s off bs mb es" and i: "0 \<le> i" "i \<le> seg_of (mps_of bs) (int (length es))"
  shows "read_meta f s i = Inr \<lparr>pm_top = meta_at off bs i, pm_btm = meta_at off bs i + CL_SIZE,
    counter = seg_count (mps_of bs) (int (length es)) i\<rparr>"
proof -
  note d = layer_superD [OF l]
  let ?n = "int (length es)" and ?m = "mps_of bs"
  have r: "off + bs \<le> meta_at off bs i" "meta_at off bs i + bs \<le> layer_end off bs ?n"
    using meta_at_range [OF d(2) i] by auto
  have b: "4096 \<le> bs" "bs < 1073741824" using wf_bsD [OF d(2)] by auto
  have m: "?m < 1073741824" using b by (simp add: mps_of_def)
  have c: "cint (?m + 1) = ?m + 1" using m d(13) by (intro cint_id) simp_all
  have "off + bs + i * (?m + 1) * bs = meta_at off bs i" by (simp add: meta_at_def algebra_simps)
  then have u: "ulong (off + bs + i * (?m + 1) * bs) = meta_at off bs i"
    using r d(3,7,14) b by (simp add: ulong_id)
  have bk: "backed f (meta_at off bs i)" using r d(3,7) b by (intro backed_less) simp_all
  have ct: "mt_counter f (meta_at off bs i) = seg_count ?m ?n i"
    using d(6) i by (simp add: layer_at_def seg_count_def)
  have le: "seg_count ?m ?n i \<le> ?m" using act_of_bounds(2) [of ?n, OF _ d(13)] by (simp add: seg_count_def)
  show ?thesis
    using u bk ct le b i(1) meta_at_aligned [OF d(2,4), of i]
    by (simp add: read_meta_def d c Let_def pm_mmap_def PAGE_SIZE_def)
qed

lemma seg_div:
  assumes "(0::int) < m" "0 \<le> j" "j < m"
  shows "(i * m + j) div m = i" "(i * m + j) mod m = j"
  using assms by (simp_all add: div_pos_pos_trivial mod_pos_pos_trivial)

text \<open>Entries of segment \<open>i\<close>, mapped one by one.\<close>

lemma map_entries_rel:
  assumes l: "layer_super f s off bs mb es" and i: "0 \<le> int i" "int i \<le> seg_of (mps_of bs) (int (length es))"
    and base: "base mod 4096 = 0" "0 \<le> base" "base < 4611686018427387904"
    and v: "vm_rel v base bs (fd s) nb M"
    and c: "i * nat (mps_of bs) + c \<le> length es" "int c \<le> mps_of bs"
    and m_def: "pm_btm m = meta_at off bs (int i) + CL_SIZE"
  defines "data_off \<equiv> ulong (off + bs * (2 + (1 + mps_of bs) * int i))"
  shows "vm_rel (fold (\<lambda>j. map_entry f s base wr m data_off (int j)) [0..<c] v) base bs (fd s) nb
    (layer_map off bs wr es [i * nat (mps_of bs)..<i * nat (mps_of bs) + c] M)"
  using c
proof (induction c)
  case 0
  then show ?case using v by (simp add: layer_map_def)
next
  case (Suc c)
  note d = layer_superD [OF l]
  let ?k = "i * nat (mps_of bs) + c" and ?m = "mps_of bs"
  have k: "?k < length es" "int c < ?m" using Suc.prems by simp_all
  have ik: "int ?k = int i * ?m + int c" using d(13) by simp
  have q: "int ?k div ?m = int i" "int ?k mod ?m = int c" unfolding ik using seg_div [OF d(13)] k by simp_all
  have ld: "load64 f (pm_btm_addr m (int c)) = es ! ?k"
  proof -
    have "pm_btm_addr m (int c) = entry_at off bs (int ?k)"
      by (simp add: entry_at_def q m_def pm_btm_addr_def CL_SIZE_def ENTRY_SIZE_def del: of_nat_add of_nat_mult)
    moreover have "\<forall>k\<in>{0..<length es}. load64 f (entry_at off bs (int k)) = es ! k"
      using d(6) unfolding layer_at_def by blast
    ultimately show ?thesis using k(1) by (simp only: atLeastLessThan_iff zero_le ball_simps)
  qed
  have da: "off + bs * (2 + (1 + ?m) * int i) + bs * int c = data_at off bs (int ?k)"
    unfolding data_index q by (simp add: algebra_simps)
  note rg = data_at_range [OF d(2) k(1), of off]
  have bs: "4096 \<le> bs" by (rule wf_bsD(1) [OF d(2)])
  have c0: "0 \<le> bs * int c" using bs by simp
  have i0: "0 \<le> bs * (2 + (1 + ?m) * int i)" using bs d(13) by simp
  have "ulong (off + bs * (2 + (1 + ?m) * int i)) = off + bs * (2 + (1 + ?m) * int i)"
    using da rg c0 i0 d(3,7,14) bs by (intro ulong_id) linarith+
  then have u: "ulong (data_off + bs * int c) = data_at off bs (int ?k)"
    using da rg d(3,7,14) bs by (simp add: data_off_def ulong_id del: of_nat_add of_nat_mult)
  have al: "data_at off bs (int ?k) mod 4096 = 0"
    using d(4) wf_bsD(3) [OF d(2)] by (auto simp: data_index mod_eq_0_iff_dvd intro!: dvd_add dvd_mult2)
  have "vm_rel (fold (\<lambda>j. map_entry f s base wr m data_off (int j)) [0..<c] v) base bs (fd s) nb
      (layer_map off bs wr es [i * nat ?m..<?k] M)"
    using Suc by simp
  from map_entry_rel [OF this d(2,9) base u al, of f wr m] show ?case
    by (simp add: ld layer_map_def fun_upd_def del: of_nat_add of_nat_mult)
qed

lemma seg_count_entries:
  assumes "0 < m" "0 \<le> i" "i \<le> seg_of m (int n)"
  shows "0 \<le> seg_count m (int n) i" "seg_count m (int n) i \<le> m"
    "i * m + seg_count m (int n) i = min ((i + 1) * m) (int n)"
proof -
  have a: "0 \<le> act_of m (int n)" "act_of m (int n) \<le> m" using act_of_bounds [of "int n" m] assms(1) by auto
  have n: "seg_of m (int n) * m + act_of m (int n) = int n" by (rule seg_act)
  show "0 \<le> seg_count m (int n) i" "seg_count m (int n) i \<le> m" using a assms(1) by (simp_all add: seg_count_def)
  show "i * m + seg_count m (int n) i = min ((i + 1) * m) (int n)"
  proof (cases "i < seg_of m (int n)")
    case True
    then have "(i + 1) * m \<le> seg_of m (int n) * m" using assms(1) by (intro mult_right_mono) simp_all
    then show ?thesis using True a n by (simp add: seg_count_def algebra_simps)
  next
    case False
    then have "i = seg_of m (int n)" using assms(3) by simp
    then show ?thesis using a n by (simp add: seg_count_def algebra_simps)
  qed
qed

lemma map_segments_snoc:
  "map_segments f s base wr (is @ [i]) v = res_bind (map_segments f s base wr is v) (map_segment f s base wr i)"
proof (induction "is" arbitrary: v)
  case Nil
  show ?case by (cases "map_segment f s base wr i v") simp_all
next
  case (Cons k ks)
  show ?case by (cases "map_segment f s base wr k v") (simp_all add: Cons.IH)
qed

lemma map_segments_rel:
  assumes l: "layer_super f s off bs mb es"
    and base: "base mod 4096 = 0" "0 \<le> base" "base < 4611686018427387904"
    and v: "vm_rel v base bs (fd s) nb M"
    and t: "int t \<le> seg_of (mps_of bs) (int (length es)) + 1"
  shows "\<exists>v'. map_segments f s base wr [0..<t] v = Inr v' \<and>
    vm_rel v' base bs (fd s) nb (layer_map off bs wr es [0..<min (t * nat (mps_of bs)) (length es)] M)"
  using t
proof (induction t)
  case 0
  then show ?case using v by (simp add: layer_map_def)
next
  case (Suc t)
  note d = layer_superD [OF l]
  let ?m = "mps_of bs" and ?n = "int (length es)"
  let ?mn = "nat ?m"
  let ?c = "nat (seg_count ?m ?n (int t))"
  have i: "0 \<le> int t" "int t \<le> seg_of ?m ?n" using Suc.prems by simp_all
  note sc = seg_count_entries [OF d(13) i]
  have tn: "int t * ?m \<le> ?n"
    using sc(1,3) d(13) i by (simp add: algebra_simps min_def split: if_splits)
  have mn: "int ?mn = ?m" using d(13) by simp
  have e1: "t * ?mn + ?c = min (Suc t * ?mn) (length es)"
  proof -
    have "int (t * ?mn + ?c) = int (min (Suc t * ?mn) (length es))"
      using sc by (simp add: mn algebra_simps of_nat_min)
    then show ?thesis by (simp only: of_nat_eq_iff)
  qed
  have e0: "min (t * ?mn) (length es) = t * ?mn"
  proof -
    have "int (t * ?mn) \<le> int (length es)" using tn mn by simp
    then show ?thesis by (simp only: of_nat_le_iff min_absorb1)
  qed
  obtain v1 where v1: "map_segments f s base wr [0..<t] v = Inr v1"
      "vm_rel v1 base bs (fd s) nb (layer_map off bs wr es [0..<t * ?mn] M)"
    using Suc e0 by auto
  have small: "int t < 2147483648"
    using i(2) d(5,6) seg_of_nonneg [of ?n ?m] d(13) tn
    by (smt (verit) layer_at_def mult_less_cancel_left1 mult_le_cancel_left1)
  let ?mt = "\<lparr>pm_top = meta_at off bs (int t), pm_btm = meta_at off bs (int t) + CL_SIZE, counter = seg_count ?m ?n (int t)\<rparr>"
  have cu: "nat (ulong (seg_count ?m ?n (int t))) = ?c"
    using sc(1,2) wf_bsD(2) [OF d(2)] by (subst ulong_id) (simp_all add: mps_of_def)
  have seg: "map_segment f s base wr t v1 = Inr (fold (\<lambda>j. map_entry f s base wr ?mt
      (ulong (off + bs * (2 + (1 + ?m) * int t))) (int j)) [0..<?c] v1)"
    using read_meta_seg [OF l i] small by (simp add: map_segment_def cint_id d cu)
  have "vm_rel (fold (\<lambda>j. map_entry f s base wr ?mt (ulong (off + bs * (2 + (1 + ?m) * int t))) (int j)) [0..<?c] v1)
      base bs (fd s) nb (layer_map off bs wr es [t * ?mn..<t * ?mn + ?c] (layer_map off bs wr es [0..<t * ?mn] M))"
    using e1 sc(1,2) by (intro map_entries_rel [OF l i base v1(2)]) simp_all
  moreover have "layer_map off bs wr es [t * ?mn..<t * ?mn + ?c] (layer_map off bs wr es [0..<t * ?mn] M) =
      layer_map off bs wr es [0..<t * ?mn + ?c] M"
    by (simp add: layer_map_def upt_add_eq_append [of 0 "t * ?mn" ?c] fold_append)
  ultimately show ?case using v1(1) seg e1 by (simp add: map_segments_snoc)
qed

section \<open>Mapping an image\<close>

lemma super_of_layer:
  assumes "layer_at f off bs mb es" "layer_end off bs (int (length es)) \<le> st_size f" "wf_bs bs" "wf_file f"
    "0 \<le> off" "off mod 4096 = 0" "mb < 2147483647"
  shows "layer_super f (super_of fdn off bs mb (int (length es))) off bs mb es"
    "layer_super f ((super_of fdn off bs mb (int (length es)))\<lparr>fmmap_length := x, addr := y\<rparr>) off bs mb es"
  using assms by (simp_all add: layer_super_def super_of_def active_of_def Let_def)

lemma map_layer_rel:
  assumes l: "layer_super f s off bs mb es"
    and base: "base mod 4096 = 0" "0 \<le> base" "base < 4611686018427387904" and v: "vm_rel v base bs (fd s) nb M"
  shows "\<exists>v'. map_segments f s base wr [0..<Suc (nat (ulong (active_meta_num s)))] v = Inr v' \<and>
    vm_rel v' base bs (fd s) nb (layer_map off bs wr es [0..<length es] M)"
    and "backed f (pm_top (active_meta s))"
proof -
  note d = layer_superD [OF l]
  let ?m = "mps_of bs" and ?n = "int (length es)"
  have g: "0 \<le> seg_of ?m ?n" using seg_of_nonneg [of ?n ?m] d(13) by simp
  have n: "?n \<le> mb" using d(6) by (simp add: layer_at_def)
  have "seg_of ?m ?n * 1 \<le> seg_of ?m ?n * ?m" using g d(13) by (intro mult_left_mono) simp_all
  then have sm: "seg_of ?m ?n \<le> ?n" using seg_act [of ?m ?n] act_of_bounds(1) [of ?n ?m] d(13) by simp
  have t: "Suc (nat (ulong (active_meta_num s))) = Suc (nat (seg_of ?m ?n))"
    using g sm n d(5) by (subst ulong_id) (simp_all add: d(11))
  have "?n \<le> (seg_of ?m ?n + 1) * ?m"
    using seg_act [of ?m ?n] act_of_bounds(2) [of ?n ?m] d(13) by (simp add: algebra_simps)
  then have "int (length es) \<le> int (Suc (nat (seg_of ?m ?n)) * nat ?m)" using g d(13) by (simp add: algebra_simps)
  then have "min (Suc (nat (seg_of ?m ?n)) * nat ?m) (length es) = length es" by (simp only: of_nat_le_iff min_absorb2)
  with map_segments_rel [OF l base v, of "Suc (nat (seg_of ?m ?n))" wr] g
  show "\<exists>v'. map_segments f s base wr [0..<Suc (nat (ulong (active_meta_num s)))] v = Inr v' \<and>
    vm_rel v' base bs (fd s) nb (layer_map off bs wr es [0..<length es] M)"
    by (simp only: t)
  show "backed f (pm_top (active_meta s))"
    using meta_at_range [OF d(2) g, of "length es" off] d(3,7) wf_bsD(1) [OF d(2)]
    by (intro backed_less) (simp_all add: d(12))
qed

lemma map_snapshots_rel:
  assumes "image_at f off bs mb (ls @ [es])" "wf_bs bs" "wf_file f" "0 \<le> off" "off mod 4096 = 0" "mb < 2147483647"
    and base: "base mod 4096 = 0" "0 \<le> base" "base < 4611686018427387904"
    and "vm_rel v base bs fdn nb M"
  shows "\<exists>v' M'. map_snapshots f (super_of fdn off bs mb (int (length (hd (ls @ [es]))))) base v =
      Some (Inr (super_of fdn (image_end off bs ls) bs mb (int (length es)), v'))
    \<and> vm_rel v' base bs fdn nb M'
    \<and> layer_map (image_end off bs ls) bs True es [0..<length es] M' = image_map off bs (ls @ [es]) M"
  using assms(1,4,5,10)
proof (induction ls arbitrary: off v M)
  case Nil
  have "read_next_super f (super_of fdn off bs mb (int (length es))) = Inr None"
    using Nil.prems assms(2,3) read_next_super_layer [of f off bs mb es "[]" fdn] by simp
  then show ?case using Nil.prems by (auto simp: map_snapshots.simps)
next
  case (Cons es0 ls)
  let ?e = "layer_end off bs (int (length es0))" and ?s = "super_of fdn off bs mb (int (length es0))"
  have at: "layer_at f off bs mb es0" "?e \<le> st_size f" "image_at f ?e bs mb (ls @ [es])" using Cons.prems(1) by simp_all
  have nx: "read_next_super f ?s = Inr (Some (super_of fdn ?e bs mb (int (length (hd (ls @ [es]))))))"
    using read_next_super_layer [OF at(1) assms(2,3) Cons.prems(2,3) at(2,3), of fdn]
    by (cases "ls @ [es]") auto
  have ls: "layer_super f ?s off bs mb es0"
    by (rule super_of_layer(1) [OF at(1,2) assms(2,3) Cons.prems(2,3) assms(6)])
  have fds: "fd ?s = fdn" by (simp add: super_of_def Let_def)
  obtain v1 where v1: "do_readonly_fmmap f ?s base v = Inr v1"
      "vm_rel v1 base bs fdn nb (layer_map off bs False es0 [0..<length es0] M)"
    using map_layer_rel(1) [OF ls base, where v = v and nb = nb and M = M and wr = False]
      map_layer_rel(2) [OF ls base, where v = v and nb = nb and M = M] Cons.prems(4)
    by (auto simp: do_readonly_fmmap_def fds)
  have e0: "0 \<le> ?e" "?e mod 4096 = 0" using layer_end_wf [OF assms(2) Cons.prems(2,3)] by auto
  from Cons.IH [OF at(3) e0 v1(2)] show ?case
    using nx v1(1) by (simp add: map_snapshots.simps [of f ?s])
qed

lemma munmap_rel:
  assumes b: "wf_bs bs" and base: "base mod 4096 = 0"
  shows "vm_rel (munmap base len v) base bs fdn (len div bs) Map.empty"
proof -
  obtain n where n: "bs = 4096 * n" using wf_bsD(3) [OF b] by (metis dvd_def mod_eq_0_iff_dvd)
  obtain k where k: "base = 4096 * k" using base by (metis dvd_def mod_eq_0_iff_dvd)
  have n0: "0 < n" using wf_bsD(1) [OF b] n by simp
  have "munmap base len v (k + x * n + j) = None" if "0 \<le> x" "x < len div bs" "0 \<le> j" "j < n" for x j
  proof -
    have "(x + 1) * bs \<le> len div bs * bs" using that n n0 by (intro mult_right_mono) simp_all
    also have "\<dots> \<le> len" using n n0 pos_mod_sign [of bs len] div_mult_mod_eq [of len bs] by linarith
    finally have le: "4096 * (x * n + n) \<le> len" by (simp add: n algebra_simps)
    have "page_of (4096 * k + 4096 * (x * n + n) + 4095) \<le> page_of (base + len + 4095)"
      unfolding page_of_def PAGE_SIZE_def k using le by (intro zdiv_mono1) simp_all
    moreover have "page_of (4096 * k + 4096 * (x * n + n) + 4095) = k + (x * n + n)"
      by (simp add: page_of_def PAGE_SIZE_def)
    moreover have "0 \<le> x * n" using that n0 by simp
    ultimately have "in_pages base len (k + x * n + j)"
      using that by (simp add: in_pages_def PAGE_SIZE_def) (simp add: k page_of_def PAGE_SIZE_def)
    then show ?thesis by (simp add: munmap_def)
  qed
  then show ?thesis by (simp add: vm_rel_def n k page_of_def PAGE_SIZE_def)
qed

lemma fmmap_start_rel:
  assumes r: "image_rel (files st fdn) bs mb (ls0 @ [es])"
    and base: "base mod 4096 = 0" "0 \<le> base" "base < 4611686018427387904"
    and v: "vm_rel v base bs fdn nb M"
  defines "off \<equiv> image_end 0 bs ls0"
  shows "\<exists>st'. fmmap_start st (super_of fdn off bs mb (int (length es))) base len v = Inr st'
    \<and> vm_rel (vm st') base bs fdn nb (layer_map off bs True es [0..<length es] M)
    \<and> pre_rel st' bs mb ls0 es \<and> table_ok st' \<and> lists_ok st' \<and> addr (cur_s st') = base \<and> fmmap_length (cur_s st') = len
    \<and> files st' = files st \<and> nb_available st' = 0 \<and> global_length st' = global_length st"
proof -
  let ?f = "files st fdn" and ?s = "(super_of fdn off bs mb (int (length es)))\<lparr>fmmap_length := len, addr := base\<rparr>"
  have w: "wf_bs bs" "wf_file ?f" "mb < 2147483647" using r by (simp_all add: image_rel_def)
  obtain l: "layer_at ?f off bs mb es" "layer_end off bs (int (length es)) \<le> st_size ?f" "0 \<le> off" "off mod 4096 = 0"
    using image_rel_last [OF r] unfolding off_def by auto
  have ls: "layer_super ?f ?s off bs mb es" by (rule super_of_layer(2) [OF l(1,2) w(1,2) l(3,4) w(3)])
  have fds: "fd ?s = fdn" "addr ?s = base" by (simp_all add: super_of_def Let_def)
  obtain v1 where v1: "do_writable_fmmap ?f ?s v = Inr v1"
      "vm_rel v1 base bs fdn nb (layer_map off bs True es [0..<length es] M)"
    using map_layer_rel(1) [OF ls base, where v = v and nb = nb and M = M and wr = True]
      map_layer_rel(2) [OF ls base, where v = v and nb = nb and M = M] v
    by (auto simp: do_writable_fmmap_def fds)
  define st1 where "st1 = st\<lparr>cur_s := ?s\<lparr>alloc_off := next_off ?s\<rparr>, vm := v1, nb_count := 0, nb_available := 0, alloc_dead := False\<rparr>"
  have fs: "fmmap_start st (super_of fdn off bs mb (int (length es))) base len v = Inr (init_fgcow st1)"
    using v1(1) fds(1) by (simp add: fmmap_start_def st1_def Let_def)
  have sy: "super_sync ?s off bs mb (int (length es))"
    by (intro super_syncI) (simp_all add: super_of_def Let_def)
  have "img st1 = ?f" using fds(1) by (simp add: img_def st1_def)
  then have wr: "writable_rel st1 bs mb ls0 es"
    using r sy unfolding off_def [symmetric] by (simp add: writable_rel_def st1_def off_def [symmetric])
  have "ring_start st1 = st1" by (simp add: ring_start_def st1_def next_off_def)
  then have "pre_rel st1 bs mb ls0 es" using ring_start_pre [OF wr] by simp
  then have "pre_rel (init_fgcow st1) bs mb ls0 es"
    by (simp add: pre_rel_def writable_rel_def ring_ok_def img_def init_fgcow_def)
  moreover have "table_ok (init_fgcow st1)" "lists_ok (init_fgcow st1)"
    by (simp_all add: init_fgcow_def table_ok_def lists_ok_def)
  ultimately show ?thesis using fs v1(2) fds by (simp add: init_fgcow_def st1_def)
qed

lemma fmmap_rel:
  assumes r: "image_rel (files st fdn) bs mb (ls0 @ [es])" and nb: "base_image_name (files st fdn) 0 = []"
    and base: "base mod 4096 = 0" "0 \<le> base" "base < 4611686018427387904"
    and len: "0 < len" "len \<le> REG_LEN" "0 \<le> offset" "offset \<le> len"
  shows "\<exists>st'. fmmap st base len fdn offset = Some (Inr (Some (base + offset), st'))
    \<and> vm_rel (vm st') base bs fdn (len div bs) (image_map 0 bs (ls0 @ [es]) Map.empty)
    \<and> pre_rel st' bs mb ls0 es \<and> table_ok st' \<and> lists_ok st' \<and> addr (cur_s st') = base \<and> fmmap_length (cur_s st') = len
    \<and> files st' = files st \<and> nb_available st' = 0 \<and> global_length st' = len"
proof -
  let ?f = "files st fdn" and ?st = "st\<lparr>global_length := len\<rparr>"
  let ?s = "super_of fdn 0 bs mb (int (length (hd (ls0 @ [es]))))" and ?v = "munmap base len (vm st)"
  have w: "wf_bs bs" "wf_file ?f" "mb < 2147483647" "image_at ?f 0 bs mb (ls0 @ [es])" using r by (simp_all add: image_rel_def)
  have rf: "read_first_super ?f fdn 0 = Inr (Some ?s)"
    using read_first_super_image [OF r, of fdn] by (cases "ls0") simp_all
  have v0: "vm_rel ?v base bs fdn (len div bs) Map.empty" by (rule munmap_rel [OF w(1) base(1)])
  obtain v1 M1 where ms: "map_snapshots ?f ?s base ?v = Some (Inr (super_of fdn (image_end 0 bs ls0) bs mb (int (length es)), v1))"
    "vm_rel v1 base bs fdn (len div bs) M1"
    "layer_map (image_end 0 bs ls0) bs True es [0..<length es] M1 = image_map 0 bs (ls0 @ [es]) Map.empty"
    using map_snapshots_rel [OF w(4,1,2) _ _ w(3) base v0] by auto
  have r': "image_rel (files ?st fdn) bs mb (ls0 @ [es])" using r by simp
  obtain st' where fs: "fmmap_start ?st (super_of fdn (image_end 0 bs ls0) bs mb (int (length es))) base len v1 = Inr st'"
    and rel: "vm_rel (vm st') base bs fdn (len div bs) (image_map 0 bs (ls0 @ [es]) Map.empty)
    \<and> pre_rel st' bs mb ls0 es \<and> table_ok st' \<and> lists_ok st' \<and> addr (cur_s st') = base \<and> fmmap_length (cur_s st') = len
    \<and> files st' = files st \<and> nb_available st' = 0 \<and> global_length st' = len"
    using fmmap_start_rel [OF r' base ms(2), of len] by (auto simp: ms(3))
  have pm: "pm_super ?s = 0" by (simp add: super_of_def Let_def)
  have u: "ulong (base + offset) = base + offset"
    using base len by (intro ulong_id) (simp_all add: REG_LEN_def)
  have "fmmap st base len fdn offset = Some (Inr (Some (base + offset), st'))"
    using len rf ms(1) fs nb by (simp add: fmmap_def Let_def map_base_def pm u)
  with rel show ?thesis by blast
qed

lemma base_image_name_Nil: "bytes f (p + 16) = 0 \<Longrightarrow> base_image_name f p = []"
proof -
  assume z: "bytes f (p + 16) = 0"
  have "[0..<4080] = 0 # [1..<4080]" by (subst upt_conv_Cons) simp_all
  then show ?thesis using z by (simp add: base_image_name_def peek_def del: upt_Suc)
qed

text \<open>A freshly formatted image in a file system with nothing else.\<close>

definition fresh_image :: pm_file where
  "fresh_image = new_super_file (empty_file sample_limit) 4096 10 0"

lemma fresh_image_rel: "image_rel fresh_image 4096 10 [[]]"
  unfolding fresh_image_def
  using new_super_empty(2) [of 4096 10 "empty_file sample_limit"]
  by (simp add: wf_bs_def wf_empty_file sample_limit_def) (simp add: empty_file_def)

lemma fresh_image_name: "base_image_name fresh_image 0 = []"
proof (rule base_image_name_Nil)
  show "bytes fresh_image (0 + 16) = 0"
    by (simp add: fresh_image_def new_super_file_def write_super_def write_meta_top_def empty_file_def store32_def
        pm_store_def poke_def MAGIC_def Let_def pm_flush_def pm_fence_def)
qed

definition fresh_state :: cow_state where
  "fresh_state = demo_cow\<lparr>files := (\<lambda>_. empty_file sample_limit)([1] := fresh_image), vm := Map.empty\<rparr>"

lemma do_base_not_Inr:
  "do_base_fmmap f s base v \<noteq> Some (Inr v')"
proof
  assume "do_base_fmmap f s base v = Some (Inr v')"
  then show False
    by (subst (asm) do_base_fmmap.simps) (auto simp: bind_eq_Some_conv res_bind_Inr_iff)
qed

lemma do_base_diverges_aux:
  assumes "do_base_fmmap f s base v = Some r"
  shows "\<not> (base_image_name f (pm_super s) \<noteq> [] \<and> read_first_super f (fd s) 0 = Inr (Some s))"
proof (rule do_base_fmmap.raw_induct [OF _ assms,
    where P = "\<lambda>f s base v r. \<not> (base_image_name f (pm_super s) \<noteq> [] \<and> read_first_super f (fd s) 0 = Inr (Some s))"])
  fix g f s base v r
  assume ih: "\<And>f s base v r. g f s base v = Some r \<Longrightarrow>
      \<not> (base_image_name f (pm_super s) \<noteq> [] \<and> read_first_super f (fd s) 0 = Inr (Some s))"
    and step: "Option.bind
       (if base_image_name f (pm_super s) \<noteq> []
        then case read_first_super f (fd s) 0 of
               Inl e \<Rightarrow> Some (Inl e) | Inr None \<Rightarrow> Some (Inr v) | Inr (Some base_s) \<Rightarrow> g f base_s base v
        else Some (Inr v))
       (\<lambda>r. Some (res_bind r (\<lambda>v1. res_bind (do_readonly_fmmap f s base v1) (\<lambda>v2. Inl Undefined)))) = Some r"
  show "\<not> (base_image_name f (pm_super s) \<noteq> [] \<and> read_first_super f (fd s) 0 = Inr (Some s))"
  proof
    assume a: "base_image_name f (pm_super s) \<noteq> [] \<and> read_first_super f (fd s) 0 = Inr (Some s)"
    with step obtain q where "g f s base v = Some q" by (auto simp: bind_eq_Some_conv)
    from ih [OF this] a show False by blast
  qed
qed

section \<open>Properties\<close>



text \<open>\<open>fmmap\<close> refuses what it cannot map: a file without a super block, a region longer than
  \<open>REG_LEN\<close>, an offset past the region. It returns \<open>MAP_FAILED\<close> and leaves files and mappings alone.\<close>

theorem fmmap_refuses:
  assumes "read_first_super (files st fdn) fdn 0 = Inr so" "0 < len"
    and "so = None \<or> REG_LEN < len \<or> len < offset"
  shows "\<exists>st'. fmmap st base len fdn offset = Some (Inr (None, st')) \<and> files st' = files st \<and> vm st' = vm st"
  using assms by (cases so) (auto simp: fmmap_def Let_def)

theorem fmmap_refuses_witness:
  "\<exists>st'. fmmap fresh_state 0 40960 [2] 0 = Some (Inr (None, st')) \<and> files st' = files fresh_state \<and> vm st' = vm fresh_state"
  using fmmap_refuses [of fresh_state "[2]" None 40960 0 0]
  by (simp add: fresh_state_def read_first_super_def empty_file_def CL_SIZE_def)

text \<open>An image with a base image cannot be mapped: whatever the base image holds, \<open>do_base_fmmap\<close>
  never returns normally, because it reads the super block it has just freed.\<close>

theorem do_base_fmmap_fails: "do_base_fmmap f s base v \<noteq> Some (Inr v')"
  by (rule do_base_not_Inr)

text \<open>C38: When the base image has a base image itself, \<open>do_base_fmmap\<close> recurses for ever: it opens the
  first super block of the same file again instead of the base image's.\<close>

theorem do_base_fmmap_diverges:
  assumes "base_image_name f (pm_super s) \<noteq> []" and "read_first_super f (fd s) 0 = Inr (Some s)"
  shows "do_base_fmmap f s base v = None"
  using do_base_diverges_aux [of f s base v] assms by (cases "do_base_fmmap f s base v") auto

definition based_image :: pm_file where
  "based_image = pm_store 16 [1] fresh_image"

theorem do_base_fmmap_diverges_witness:
  "\<exists>s. read_first_super based_image [1] 0 = Inr (Some s) \<and> do_base_fmmap based_image s 0 Map.empty = None"
proof -
  let ?s = "super_of [1] 0 4096 10 0"
  have st: "st_size fresh_image = 8192"
    by (simp add: fresh_image_def new_super_file_def write_super_def write_meta_top_def empty_file_def fallocate_def)
  have at: "layer_at fresh_image 0 4096 10 []" using fresh_image_rel by (simp add: image_rel_def)
  have "layer_at based_image 0 4096 10 []"
    using at by (rule layer_at_cells) (auto simp: based_image_def pm_store_def poke_def seg_of_def meta_at_def)
  moreover have "wf_file based_image"
    using fresh_image_rel by (auto simp: based_image_def image_rel_def wf_pm_store)
  ultimately have r: "read_first_super based_image [1] 0 = Inr (Some ?s)"
    using read_first_super_layer [of based_image 0 4096 10 "[]" "[1]"]
    by (simp add: wf_bs_def layer_end_0 based_image_def st)
  have "[0..<4080] = 0 # [1..<4080]" by (subst upt_conv_Cons) simp_all
  then have "base_image_name based_image (pm_super ?s) \<noteq> []"
    by (simp add: base_image_name_def peek_def super_of_def Let_def based_image_def pm_store_def poke_def st del: upt_Suc)
  then have "do_base_fmmap based_image ?s 0 Map.empty = None"
    using do_base_fmmap_diverges [of based_image ?s 0 Map.empty] r by (simp add: super_of_def Let_def)
  with r show ?thesis by blast
qed

end
