(* ===== verification/Fault_Handler.thy ===== *)
theory Fault_Handler
  imports Fmmap
begin

text \<open>
  The two fault handlers of the runtime (\<open>pcow.c\<close>): \<open>cow_handler\<close>, the SIGSEGV handler that copies a
  write-protected page or block into a new block of the writable layer, in the fine-grained build and in
  the other one, and one round of \<open>uf_monitor\<close>, which maps a new block at a page that is missing.
  A handler that has to wait for the pre-allocating thread gives \<open>None\<close>. The profiling calls
  (\<open>PCOW_ST\<close>, \<open>PCOW_ET\<close>) have no effect on this state; they are modelled with the profiler.
\<close>

section \<open>Copying through mappings\<close>

text \<open>\<open>memcpy\<close> of \<open>len\<close> bytes (whole pages) between page-aligned addresses.\<close>

definition vm_memcpy :: "int \<Rightarrow> int \<Rightarrow> int \<Rightarrow> 'a cow_state_scheme \<Rightarrow> 'a cow_state_scheme res" where
  "vm_memcpy dst src len st =
     res_bind (copy_pages (vm st) (page_of dst) (page_of src) (nat (len div PAGE_SIZE)) (files st)) (\<lambda>fs.
       Inr (st\<lparr>files := fs\<rparr>))"

text \<open>The flush loops: \<open>for (i = 0; i < len / 8; i += 8) pm_flush(a + i)\<close>, then a fence.\<close>

definition flush_at :: "int \<Rightarrow> 'a cow_state_scheme \<Rightarrow> 'a cow_state_scheme" where
  "flush_at a st =
     (case vm st (page_of a) of
        None \<Rightarrow> st
      | Some p \<Rightarrow> st\<lparr>files := (files st)(vp_fd p := pm_flush (vp_off p + a mod PAGE_SIZE) (files st (vp_fd p)))\<rparr>)"

definition flush_loop :: "int \<Rightarrow> int \<Rightarrow> 'a cow_state_scheme \<Rightarrow> 'a cow_state_scheme" where
  "flush_loop a len st =
     (let st1 = fold (\<lambda>k. flush_at (a + 8 * int k)) [0..<nat ((len div 8 + 7) div 8)] st
      in set_img (pm_fence (img st1)) st1)"

definition update_entry :: "int \<Rightarrow> (u64 \<Rightarrow> u64) \<Rightarrow> 'a cow_state_scheme \<Rightarrow> 'a cow_state_scheme res" where
  "update_entry a g st =
     (if \<not> backed (img st) a then Inl Sigbus
      else Inr (set_img (pm_fence (pm_flush a (store64 a (g (load64 (img st) a)) (img st)))) st))"

section \<open>The SIGSEGV handler\<close>

text \<open>\<open>(1ULL << n) << 32\<close>; the shift count of the first shift is taken modulo 64, as on x86.\<close>

definition cow_bit :: "int \<Rightarrow> u64" where
  "cow_bit n = push_bit 32 (push_bit (nat (n mod 64)) 1)"

text \<open>The branch that copies one unit.\<close>

definition cow_partial :: "'a cow_state_scheme \<Rightarrow> Cow_l_entry \<Rightarrow> int \<Rightarrow> int \<Rightarrow> 'a cow_state_scheme res" where
  "cow_partial st le va f4 =
     (let s = cur_s st; ce = cow_heap st (cow_entry le);
          tmp = ulong (ce_map_addr ce + voff le - va);
          dst = ulong (addr s + voff le)
      in res_bind (vm_memcpy tmp dst (copy_size le) st) (\<lambda>st1.
           let st2 = flush_loop tmp (copy_size le) st1
           in if dst \<noteq> f4 then Inl Assert_failed
              else
                let st3 = (case mremap_fixed tmp (copy_size le) dst (vm st2) of
                             None \<Rightarrow> st2 | Some v \<Rightarrow> st2\<lparr>vm := v\<rparr>);
                    cow_num = cint (ulong (voff le - va) div COW_UNIT);
                    cow_cnt = c_div (copy_size le) COW_UNIT;
                    st4 = st3\<lparr>cow_heap := (cow_heap st3)(cow_entry le :=
                              ce\<lparr>copied_counter := cint (copied_counter ce + cow_num)\<rparr>)\<rparr>
                in update_entry (meta_entry ce)
                     (\<lambda>e. fold (\<lambda>i e. e OR cow_bit (cow_num + int i)) [0..<nat cow_cnt] e) st4))"

text \<open>The branch that copies the whole block.\<close>

definition cow_full :: "'a cow_state_scheme \<Rightarrow> Cow_l_entry \<Rightarrow> int \<Rightarrow> 'a cow_state_scheme res" where
  "cow_full st le fa =
     (let bs = block_size (cur_s st); ce = cow_heap st (cow_entry le); tmp = ce_map_addr2 ce
      in res_bind (vm_memcpy tmp fa bs st) (\<lambda>st1.
           let st2 = flush_loop tmp bs st1
           in case mremap_fixed tmp bs fa (vm st2) of
                None \<Rightarrow> Inl Assert_failed
              | Some v \<Rightarrow> update_entry (meta_entry ce) (\<lambda>e. e AND ADDR_MASK) (st2\<lparr>vm := v\<rparr>)))"

text \<open>Faults outside the mapped region are ignored.\<close>

definition fault_ignored :: "'a cow_state_scheme \<Rightarrow> int \<Rightarrow> bool" where
  "fault_ignored st si_addr \<longleftrightarrow>
     si_addr < addr (cur_s st)
     \<or> ulong (si_addr - addr (cur_s st)) > ulong (global_length st - block_size (cur_s st))"

definition cow_handler :: "'a cow_state_scheme \<Rightarrow> int \<Rightarrow> 'a cow_state_scheme res option" where
  "cow_handler st si_addr =
     (if fault_ignored st si_addr then Some (Inr st)
      else
        let s = cur_s st; bs = ulong (block_size s);
            fault_voff = ulong (si_addr - addr s);
            va = fault_voff div bs * bs;
            fa = ulong (va + addr s);
            v4 = fault_voff div COW_UNIT * COW_UNIT;
            f4 = ulong (v4 + addr s)
        in if block_size s = 0 then Some (Inl Sigfpe)
           else if in_list st v4 then Some (Inr st)
           else case insert_list st v4 of
                  None \<Rightarrow> None
                | Some (Inl e) \<Rightarrow> Some (Inl e)
                | Some (Inr (None, st1)) \<Rightarrow> Some (Inr st1)
                | Some (Inr (Some le, st1)) \<Rightarrow>
                    Some (if copy_size le \<noteq> block_size (cur_s st1) then cow_partial st1 le va f4
                          else cow_full st1 le fa))"

text \<open>The handler of the build without \<open>FINEGRAINED_COW\<close>.\<close>

definition cow_handler_block :: "'a cow_state_scheme \<Rightarrow> int \<Rightarrow> 'a cow_state_scheme res option" where
  "cow_handler_block st si_addr =
     (if fault_ignored st si_addr then Some (Inr st)
      else
        let s = cur_s st; bs = ulong (block_size s);
            va = ulong (si_addr - addr s) div bs * bs;
            fa = ulong (va + addr s)
        in if block_size s = 0 then Some (Inl Sigfpe)
           else case new_block st va of
                  None \<Rightarrow> None
                | Some (Inl e) \<Rightarrow> Some (Inl e)
                | Some (Inr (nb, st1)) \<Rightarrow>
                    Some (res_bind (vm_memcpy (map_addr nb) fa (block_size (cur_s st1)) st1) (\<lambda>st2.
                      case mremap_fixed (map_addr nb) (block_size (cur_s st2)) fa (vm st2) of
                        None \<Rightarrow> Inl Assert_failed
                      | Some v \<Rightarrow> Inr (st2\<lparr>vm := v\<rparr>))))"

section \<open>The userfault monitor\<close>

text \<open>One round of \<open>uf_monitor\<close> for a page fault message; the waiting thread is woken at the end.\<close>

definition uf_monitor_fault :: "'a cow_state_scheme \<Rightarrow> int \<Rightarrow> 'a cow_state_scheme res option" where
  "uf_monitor_fault st fault =
     (let s = cur_s st; bs = ulong (block_size s)
      in if addr s mod 4096 \<noteq> 0 \<or> fault mod 4096 \<noteq> 0 then Some (Inl Assert_failed)
         else if block_size s = 0 then Some (Inl Sigfpe)
         else
           let fault_off = ulong (fault - addr s) div bs * bs;
               fault_addr = ulong (fault_off + addr s)
           in if fault_addr mod 4096 \<noteq> 0 then Some (Inl Assert_failed)
              else if fault_off \<le> ulong (fmmap_length s - block_size s)
              then case new_block st fault_off of
                     None \<Rightarrow> None
                   | Some (Inl e) \<Rightarrow> Some (Inl e)
                   | Some (Inr (nb, st1)) \<Rightarrow>
                       Some (if block_size (cur_s st1) > 0 \<and> block_off nb mod PAGE_SIZE = 0
                             then Inr (st1\<lparr>vm := mmap_fixed fault_addr (block_size (cur_s st1)) True (fd s)
                                                 (block_off nb) (vm st1)\<rparr>)
                             else Inl Assert_failed)
              else Some (Inr st))"

section \<open>What an allocation leaves alone\<close>

text \<open>A byte of the data blocks of a layer (the next one included) or of an earlier layer.\<close>

definition kept_byte :: "int \<Rightarrow> int \<Rightarrow> u64 list \<Rightarrow> int \<Rightarrow> bool" where
  "kept_byte off bs es x \<longleftrightarrow>
     x < off \<or> (\<exists>k. k \<le> length es \<and> data_at off bs (int k) \<le> x \<and> x < data_at off bs (int k) + bs)"

lemma kept_not_meta:
  assumes b: "wf_bs bs" and k: "kept_byte off bs es x" and i: "0 \<le> i"
  shows "x < meta_at off bs i \<or> meta_at off bs i + bs \<le> x" "x < off \<or> off + bs \<le> x"
proof -
  have bs: "4096 \<le> bs" by (rule wf_bsD(1) [OF b])
  have lo: "off + bs \<le> meta_at off bs i" using meta_at_mono [OF b i, of off] by (simp add: meta_at_def)
  have "(x < meta_at off bs i \<or> meta_at off bs i + bs \<le> x) \<and> (x < off \<or> off + bs \<le> x)"
    using k unfolding kept_byte_def
  proof (elim disjE exE conjE)
    fix j assume "data_at off bs (int j) \<le> x" "x < data_at off bs (int j) + bs"
    moreover have "off + bs \<le> data_at off bs (int j)"
      using data_at_range(1) [OF b, of j "replicate (Suc j) 0" off] by simp
    moreover have "\<not> (meta_at off bs i \<le> x \<and> x < meta_at off bs i + bs)"
      using block_disjoint [OF data_not_meta [OF b, of "int j" i], of bs off x] calculation(1,2) bs
      by (auto simp: data_index meta_at_def)
    ultimately show ?thesis by auto
  qed (use lo bs in auto)
  then show "x < meta_at off bs i \<or> meta_at off bs i + bs \<le> x" "x < off \<or> off + bs \<le> x" by auto
qed

lemma take_nb_fields:
  "take_nb st = Some (nb, st') \<Longrightarrow> img st' = img st \<and> vm st' = vm st \<and> files st' = files st \<and> cur_s st' = cur_s st"
  by (auto simp: take_nb_def img_def split: if_splits)

lemma new_block_frame:
  assumes p: "pre_rel st bs mb ls0 es" and n: "new_block st a = Some (Inr (nb, st'))"
  shows "kept_byte (image_end 0 bs ls0) bs es x \<Longrightarrow> bytes (img st') x = bytes (img st) x"
    "vm st' = vm st" "\<And>g. g \<noteq> fd (cur_s st) \<Longrightarrow> files st' g = files st g" "st_size (img st') = st_size (img st)"
proof -
  let ?off = "image_end 0 bs ls0" and ?n = "int (length es)" and ?m = "mps_of bs"
  have w: "writable_rel st bs mb ls0 es" and ok: "ring_ok 0 st" using p by (simp_all add: pre_rel_def)
  note d = writable_relD [OF w] and s = super_sync_fields [OF writable_relD(2) [OF w]]
  have rng: "\<not> out_of_range (cur_s st)" using n by (auto simp: new_block_def Let_def)
  have bs: "4096 \<le> bs" by (rule wf_bsD(1) [OF d(3)])
  have g0: "0 \<le> seg_of ?m ?n" using seg_of_nonneg [of ?n ?m] d(6) by simp
  have "(kept_byte ?off bs es x \<longrightarrow> bytes (img st') x = bytes (img st) x) \<and> vm st' = vm st
      \<and> (\<forall>g. g \<noteq> fd (cur_s st) \<longrightarrow> files st' g = files st g) \<and> st_size (img st') = st_size (img st)"
  proof (cases "act_of ?m ?n < ?m")
    case True
    then obtain st1 where t: "take_nb st = Some (nb, st1)" "st' = finish_same a st1"
      using n rng by (auto simp: new_block_def Let_def s split: option.splits if_splits)
    note tf = take_nb_fields [OF t(1)]
    let ?mt = "active_of ?off bs ?n"
    have im: "img st' = snd (append_entry ?mt (vblock (cur_s st) a) (img st))"
      using tf by (simp add: t(2) finish_same_def Let_def split_beta img_def set_img_def s)
    have ea: "pm_btm_addr ?mt (counter ?mt) = entry_at ?off bs ?n"
      using entry_at_active [OF _ d(6) True, of ?off] by (simp add: pm_btm_addr_def active_of_def Let_def ENTRY_SIZE_def CL_SIZE_def)
    have q: "?n div ?m = seg_of ?m ?n" using seg_step_same(3) [OF _ d(6) True] by simp
    have "bytes (img st') x = bytes (img st) x" if k: "kept_byte ?off bs es x"
      unfolding im
    proof (rule append_entry_bytes)
      note km = kept_not_meta(1) [OF d(3) k g0]
      show "x < pm_top ?mt \<or> pm_top ?mt + 4 \<le> x" using km bs by (auto simp: active_of_def Let_def)
      show "x < pm_btm_addr ?mt (counter ?mt) \<or> pm_btm_addr ?mt (counter ?mt) + 8 \<le> x"
        using km entry_in_meta [OF d(3), of ?off ?n] unfolding ea q by auto
    qed
    moreover have "vm st' = vm st" "\<forall>g. g \<noteq> fd (cur_s st) \<longrightarrow> files st' g = files st g"
      using tf by (simp_all add: t(2) finish_same_def Let_def split_beta set_img_def)
    ultimately show ?thesis by (simp add: im)
  next
    case False
    then have act: "act_of ?m ?n = ?m" using act_of_bounds(2) [of ?n ?m] d(6) by simp
    have "0 < nb_available st"
      using n rng False by (auto simp: new_block_def new_meta_def take_nb_def Let_def s split: option.splits if_splits)
    note nm = new_meta_ok [OF w ok this]
    let ?p = "layer_end ?off bs ?n"
    let ?mt = "\<lparr>pm_top = ?p, pm_btm = ?p + CL_SIZE, counter = 0\<rparr>"
    let ?st1 = "set_img (write_meta_top ?p (img st)) (st\<lparr>nb_available := nb_available st - 1\<rparr>)"
    obtain st2 where t: "take_nb ?st1 = Some (nb, st2)" "st' = finish_new a ?mt st2"
      using n rng False nm(1) by (auto simp: new_block_def Let_def s split: option.splits if_splits)
    note tf = take_nb_fields [OF t(1)]
    have im: "img st' = new_seg_file (cur_s st) ?p (vblock (cur_s st) a) (write_meta_top ?p (img st))"
      using tf by (simp add: t(2) finish_new_def Let_def split_beta img_def set_img_def new_seg_file_def)
    have pm: "?p = meta_at ?off bs (seg_of ?m ?n + 1)" by (simp add: meta_at_next [OF act])
    have "bytes (img st') x = bytes (img st) x" if k: "kept_byte ?off bs es x"
    proof -
      have km: "x < ?p \<or> ?p + bs \<le> x" "x < ?off \<or> ?off + bs \<le> x"
        using kept_not_meta [OF d(3) k, of "seg_of ?m ?n + 1"] g0 pm by auto
      have "bytes (img st') x = bytes (write_meta_top ?p (img st)) x"
        unfolding im by (rule new_seg_file_bytes) (use km bs in \<open>auto simp: s\<close>)
      also have "\<dots> = bytes (img st) x"
        using km bs by (auto simp: write_meta_top_def store32_def bytes_pm_store_outside)
      finally show ?thesis .
    qed
    moreover have "vm st' = vm st" "\<forall>g. g \<noteq> fd (cur_s st) \<longrightarrow> files st' g = files st g"
      using tf by (simp_all add: t(2) finish_new_def Let_def split_beta set_img_def)
    ultimately show ?thesis using nm(5) by (simp add: im)
  qed
  then show "kept_byte ?off bs es x \<Longrightarrow> bytes (img st') x = bytes (img st) x"
    "vm st' = vm st" "\<And>g. g \<noteq> fd (cur_s st) \<Longrightarrow> files st' g = files st g" "st_size (img st') = st_size (img st)"
    by auto
qed

section \<open>The monitor\<close>

lemma data_at_aligned: "wf_bs bs \<Longrightarrow> off mod 4096 = 0 \<Longrightarrow> data_at off bs k mod 4096 = 0"
  using wf_bsD(3) [of bs] by (auto simp: data_index mod_eq_0_iff_dvd intro!: dvd_add dvd_mult2)

text \<open>A byte of a mapped block, read through the block map.\<close>

lemma vm_rel_byte:
  assumes v: "vm_rel v base bs fdn nb M" and b: "wf_bs bs" and base: "base mod 4096 = 0"
    and k: "0 \<le> k" "k < nb" "M k = Some (d, w)" and x: "0 \<le> x" "x < bs"
  shows "vm_byte fs v (base + k * bs + x) = Some (bytes (fs fdn) (d + x))"
proof -
  obtain n where n: "bs = 4096 * n" using wf_bsD(3) [OF b] by (metis dvd_def mod_eq_0_iff_dvd)
  obtain c where c: "base = 4096 * c" using base by (metis dvd_def mod_eq_0_iff_dvd)
  let ?j = "x div 4096"
  have j: "0 \<le> ?j" "?j < n" using x n by (auto simp: pos_imp_zdiv_nonneg_iff)
  have e: "base + k * bs + x = 4096 * (c + k * n) + x" by (simp add: n c algebra_simps)
  have pg: "page_of (base + k * bs + x) = c + k * n + ?j" "(base + k * bs + x) mod PAGE_SIZE = x mod 4096"
    unfolding e PAGE_SIZE_def by (simp add: page_of_def PAGE_SIZE_def) (rule mod_mult_self4)
  have "v (page_of base + k * (bs div PAGE_SIZE) + ?j) =
      Some \<lparr>vp_fd = fdn, vp_off = d + PAGE_SIZE * ?j, vp_write = w\<rparr>"
    using v k j unfolding vm_rel_def by (simp add: n PAGE_SIZE_def)
  moreover have "page_of base + k * (bs div PAGE_SIZE) + ?j = c + k * n + ?j" by (simp add: n c page_of_def PAGE_SIZE_def)
  moreover have "d + 4096 * ?j + x mod 4096 = d + x" by simp
  ultimately show ?thesis by (simp add: vm_byte_def pg) (simp add: PAGE_SIZE_def add.commute)
qed

lemma block_index:
  assumes "wf_bs bs" "0 \<le> v" "v div bs * bs \<le> len - bs"
  shows "0 \<le> v div bs" "v div bs < len div bs"
proof -
  have b: "0 < bs" using wf_bsD(1) [OF assms(1)] by simp
  show "0 \<le> v div bs" using assms(2) b by (simp add: pos_imp_zdiv_nonneg_iff)
  have "(v div bs + 1) * bs \<le> len" using assms(3) by (simp add: algebra_simps)
  then have "(v div bs + 1) * bs div bs \<le> len div bs" using b by (intro zdiv_mono1)
  then show "v div bs < len div bs" using b by simp
qed

lemma uf_monitor_rel:
  assumes p: "pre_rel st bs mb ls0 es" and room: "int (length es) < mb" and q: "blocks_needed bs es \<le> nb_available st"
    and base: "addr (cur_s st) mod 4096 = 0" "0 \<le> addr (cur_s st)" "addr (cur_s st) < 4611686018427387904"
    and v: "0 \<le> v" "v < 4611686018427387904" "v mod 4096 = 0" "v div bs * bs \<le> fmmap_length (cur_s st) - bs"
      "fmmap_length (cur_s st) < 9223372036854775808"
    and vm: "vm_rel (vm st) (addr (cur_s st)) bs (fd (cur_s st)) (fmmap_length (cur_s st) div bs) M"
  defines "off \<equiv> image_end 0 bs ls0" and "base \<equiv> addr (cur_s st)"
  shows "\<exists>st'. uf_monitor_fault st (base + v) = Some (Inr st')
    \<and> pre_rel st' bs mb ls0 (es @ [vblock_num bs (v div bs * bs)])
    \<and> vm_rel (vm st') base bs (fd (cur_s st)) (fmmap_length (cur_s st) div bs)
        (M(v div bs \<mapsto> (data_at off bs (int (length es)), True)))
    \<and> (\<forall>x\<in>{0..<bs}. vm_byte (files st') (vm st') (base + v div bs * bs + x) = Some 0)"
proof -
  have w: "writable_rel st bs mb ls0 es" using p by (simp add: pre_rel_def)
  note d = writable_relD [OF w] and s = super_sync_fields [OF writable_relD(2) [OF w]]
  have bs: "4096 \<le> bs" "bs < 1073741824" using wf_bsD [OF d(3)] by auto
  let ?k = "v div bs" and ?d = "data_at off bs (int (length es))" and ?nb = "fmmap_length (cur_s st) div bs"
  note k = block_index [OF d(3) v(1,4)]
  have kb: "?k * bs \<le> v" using bs v(1) pos_mod_sign [of bs v] div_mult_mod_eq [of v bs] by linarith
  have k0: "0 \<le> ?k * bs" using k bs by simp
  obtain nb st1 where n: "new_block st (?k * bs) = Some (Inr (nb, st1))"
    "pre_rel st1 bs mb ls0 (es @ [vblock_num bs (?k * bs)])" "block_off nb = ?d"
    using new_block_pre [OF p room q, of "?k * bs"] unfolding off_def by metis
  note fr = new_block_frame [OF p n(1)]
  have al: "?d mod 4096 = 0" unfolding off_def by (rule data_at_aligned [OF d(3,10)])
  have u: "ulong bs = bs" "ulong v = v" "ulong (?k * bs + base) = base + ?k * bs"
    "ulong (fmmap_length (cur_s st) - bs) = fmmap_length (cur_s st) - bs"
    using bs v base k0 kb by (auto simp: base_def ulong_id)
  have bm: "base mod 4096 = 0" using base(1) by (simp add: base_def)
  have fa: "(base + ?k * bs) mod 4096 = 0"
    using bm wf_bsD(3) [OF d(3)] by (auto simp: mod_eq_0_iff_dvd)
  let ?st = "st1\<lparr>vm := mmap_fixed (base + ?k * bs) bs True (fd (cur_s st)) ?d (vm st1)\<rparr>"
  have bs1: "block_size (cur_s st1) = bs" using new_block_super(1) [OF n(1)] by (simp add: s)
  have ba: "(base + v) mod 4096 = 0" using bm v(3) by (simp add: mod_eq_0_iff_dvd)
  have uf: "uf_monitor_fault st (base + v) = Some (Inr ?st)"
    using bs base(1) v(4) n(1) al fa ba
    by (simp add: uf_monitor_fault_def Let_def s u bs1 n(3) PAGE_SIZE_def base_def [symmetric])
  note mp = mmap_block_page [OF d(3) bm al k(1)]
  have vr: "vm_rel (vm ?st) base bs (fd (cur_s st)) ?nb (M(?k \<mapsto> (?d, True)))"
    using vm unfolding vm_rel_def base_def [symmetric] by (auto simp: mp fr(2))
  have "vm_byte (files ?st) (vm ?st) (base + ?k * bs + x) = Some 0" if x: "0 \<le> x" "x < bs" for x
  proof -
    have "bytes (img st1) (?d + x) = bytes (img st) (?d + x)"
      using x by (intro fr(1)) (auto simp: kept_byte_def off_def intro!: exI [of _ "length es"])
    also have "\<dots> = 0"
    proof -
      have "layer_end off bs (int (length es)) \<le> ?d"
        using data_at_same(1) [OF d(3), of "int (length es)" off] data_at_new(1) [OF d(3), of "int (length es)" off]
          act_of_bounds(2) [of "int (length es)" "mps_of bs"] d(6) bs
        by (cases "act_of (mps_of bs) (int (length es)) < mps_of bs") auto
      then show ?thesis using d(1) x by (auto simp: image_rel_def image_end_append off_def)
    qed
    finally have z: "bytes (img st1) (?d + x) = 0" .
    have "files ?st (fd (cur_s st)) = img st1" using new_block_super(2) [OF n(1)] by (simp add: img_def)
    then show ?thesis using vm_rel_byte [OF vr d(3) bm k(1) k(2) _ x, of ?d True "files ?st"] z by simp
  qed
  moreover have "pre_rel ?st bs mb ls0 (es @ [vblock_num bs (?k * bs)])"
    using n(2) by (simp add: pre_rel_def writable_rel_def ring_ok_def img_def)
  ultimately show ?thesis using uf vr by auto
qed

section \<open>Copying and moving pages\<close>

text \<open>
  A source page of a copy into the file range \<open>D\<close>, \<open>D + 4096 n\<close> lies elsewhere or is the very page it is
  copied to, which happens when a page of the block was copied and mapped before.
\<close>

definition apart :: "cstr \<Rightarrow> int \<Rightarrow> nat \<Rightarrow> nat \<Rightarrow> vpage \<Rightarrow> bool" where
  "apart F D n i v \<longleftrightarrow>
     vp_fd v \<noteq> F \<or> vp_off v + 4096 \<le> D \<or> D + 4096 * int n \<le> vp_off v \<or> vp_off v = D + 4096 * int i"

lemma peek_bytes: "i < n \<Longrightarrow> peek m a n ! i = m (a + int i)"
  by (simp add: peek_def)

lemma copy_page_bytes:
  assumes "v dp = Some \<lparr>vp_fd = F, vp_off = D, vp_write = True\<rparr>" "v sp = Some q"
    "backed (fl F) D" "backed (fl (vp_fd q)) (vp_off q)" "D + 4096 \<le> st_size (fl F)"
  shows "\<exists>fs. copy_page v dp sp fl = Inr fs
    \<and> (\<forall>g x. bytes (fs g) x = (if g = F \<and> D \<le> x \<and> x < D + 4096 then bytes (fl (vp_fd q)) (vp_off q + (x - D)) else bytes (fl g) x))
    \<and> (\<forall>g. st_size (fs g) = st_size (fl g) \<and> fs_limit (fs g) = fs_limit (fl g))"
proof -
  let ?fs = "fl(F := pm_store D (peek (bytes (fl (vp_fd q))) (vp_off q) (nat PAGE_SIZE)) (fl F))"
  have "copy_page v dp sp fl = Inr ?fs" using assms by (simp add: copy_page_def)
  moreover have "bytes (?fs g) x = (if g = F \<and> D \<le> x \<and> x < D + 4096 then bytes (fl (vp_fd q)) (vp_off q + (x - D)) else bytes (fl g) x)" for g x
    using assms(5) by (auto simp: pm_store_def poke_def PAGE_SIZE_def peek_bytes)
  moreover have "st_size (?fs g) = st_size (fl g) \<and> fs_limit (?fs g) = fs_limit (fl g)" for g by simp
  ultimately show ?thesis by blast
qed

lemma copy_pages_bytes:
  assumes "\<And>i. i < n \<Longrightarrow> v (dp + int i) = Some \<lparr>vp_fd = F, vp_off = D + 4096 * int i, vp_write = True\<rparr>"
    and "\<And>i. i < n \<Longrightarrow> v (sp + int i) = Some (q i)" and "\<And>i. i < n \<Longrightarrow> apart F D n i (q i)"
    and "\<And>i. i < n \<Longrightarrow> backed (fl (vp_fd (q i))) (vp_off (q i))"
    and "0 \<le> D" "D mod 4096 = 0" "D + 4096 * int n \<le> st_size (fl F)"
  shows "\<exists>fs. copy_pages v dp sp n fl = Inr fs
    \<and> (\<forall>g x. bytes (fs g) x = (if g = F \<and> D \<le> x \<and> x < D + 4096 * int n
          then bytes (fl (vp_fd (q (nat ((x - D) div 4096))))) (vp_off (q (nat ((x - D) div 4096))) + (x - D) mod 4096)
          else bytes (fl g) x))
    \<and> (\<forall>g. st_size (fs g) = st_size (fl g) \<and> fs_limit (fs g) = fs_limit (fl g))"
  using assms
proof (induction n arbitrary: dp sp D q fl)
  case 0
  then show ?case by auto
next
  case (Suc n)
  note d = Suc.prems
  have d0: "v dp = Some \<lparr>vp_fd = F, vp_off = D, vp_write = True\<rparr>" "v sp = Some (q 0)" using d(1) [of 0] d(2) [of 0] by simp_all
  have bk: "backed (fl F) D" using d(5,7) by (intro backed_less) simp_all
  obtain f1 where f1: "copy_page v dp sp fl = Inr f1"
    "\<And>g x. bytes (f1 g) x = (if g = F \<and> D \<le> x \<and> x < D + 4096 then bytes (fl (vp_fd (q 0))) (vp_off (q 0) + (x - D)) else bytes (fl g) x)"
    "\<And>g. st_size (f1 g) = st_size (fl g)" "\<And>g. fs_limit (f1 g) = fs_limit (fl g)"
    using copy_page_bytes [OF d0 bk d(4) [of 0]] d(7) by force
  have "\<exists>fs. copy_pages v (dp + 1) (sp + 1) n f1 = Inr fs
    \<and> (\<forall>g x. bytes (fs g) x = (if g = F \<and> D + 4096 \<le> x \<and> x < D + 4096 + 4096 * int n
          then bytes (f1 (vp_fd (q (Suc (nat ((x - (D + 4096)) div 4096))))))
            (vp_off (q (Suc (nat ((x - (D + 4096)) div 4096)))) + (x - (D + 4096)) mod 4096)
          else bytes (f1 g) x))
    \<and> (\<forall>g. st_size (fs g) = st_size (f1 g) \<and> fs_limit (fs g) = fs_limit (f1 g))"
  proof (rule Suc.IH [where q = "\<lambda>i. q (Suc i)"])
    fix i assume i: "i < n"
    show "v (dp + 1 + int i) = Some \<lparr>vp_fd = F, vp_off = D + 4096 + 4096 * int i, vp_write = True\<rparr>"
      using d(1) [of "Suc i"] i by (simp add: algebra_simps)
    show "v (sp + 1 + int i) = Some (q (Suc i))" using d(2) [of "Suc i"] i by (simp add: algebra_simps)
    show "apart F (D + 4096) n i (q (Suc i))" using d(3) [of "Suc i"] i by (auto simp: apart_def algebra_simps)
    show "backed (f1 (vp_fd (q (Suc i)))) (vp_off (q (Suc i)))" using d(4) [of "Suc i"] i by (simp add: backed_def f1(3))
  qed (use d f1 in \<open>simp_all add: algebra_simps mod_add_eq [symmetric]\<close>)
  then obtain fs where fs: "copy_pages v (dp + 1) (sp + 1) n f1 = Inr fs"
    "\<And>g x. bytes (fs g) x = (if g = F \<and> D + 4096 \<le> x \<and> x < D + 4096 + 4096 * int n
          then bytes (f1 (vp_fd (q (Suc (nat ((x - (D + 4096)) div 4096))))))
            (vp_off (q (Suc (nat ((x - (D + 4096)) div 4096)))) + (x - (D + 4096)) mod 4096)
          else bytes (f1 g) x)"
    "\<And>g. st_size (fs g) = st_size (f1 g)" "\<And>g. fs_limit (fs g) = fs_limit (f1 g)" by blast
  have "bytes (fs g) x = (if g = F \<and> D \<le> x \<and> x < D + 4096 * int (Suc n)
          then bytes (fl (vp_fd (q (nat ((x - D) div 4096))))) (vp_off (q (nat ((x - D) div 4096))) + (x - D) mod 4096)
          else bytes (fl g) x)" for g x
  proof (cases "g = F \<and> D + 4096 \<le> x \<and> x < D + 4096 + 4096 * int n")
    case True
    let ?i = "nat ((x - (D + 4096)) div 4096)"
    have "x - D = (x - (D + 4096)) + 4096" by simp
    then have e: "(x - D) div 4096 = (x - (D + 4096)) div 4096 + 1" "(x - D) mod 4096 = (x - (D + 4096)) mod 4096"
      by (simp_all only: div_add_self2 mod_add_self2)
    have i0: "0 \<le> (x - (D + 4096)) div 4096" using True by (simp add: pos_imp_zdiv_nonneg_iff)
    then have s: "nat ((x - D) div 4096) = Suc ?i" using e by (simp add: nat_add_distrib)
    have "(x - (D + 4096)) div 4096 < int n"
      using True pos_mod_sign [of 4096 "x - (D + 4096)"] div_mult_mod_eq [of "x - (D + 4096)" 4096] by linarith
    then have "?i < n" using i0 by (simp add: nat_less_iff)
    then have ap: "apart F D (Suc n) (Suc ?i) (q (Suc ?i))" using d(3) by simp
    have m: "0 \<le> (x - (D + 4096)) mod 4096" "(x - (D + 4096)) mod 4096 < 4096" by simp_all
    have "bytes (fs g) x = bytes (f1 (vp_fd (q (Suc ?i)))) (vp_off (q (Suc ?i)) + (x - (D + 4096)) mod 4096)"
      using True fs(2) by simp
    also have "\<dots> = bytes (fl (vp_fd (q (Suc ?i)))) (vp_off (q (Suc ?i)) + (x - (D + 4096)) mod 4096)"
      using ap m unfolding f1(2) apart_def by auto
    finally show ?thesis using True s e by (simp add: algebra_simps)
  next
    case False
    have "bytes (fs g) x = bytes (f1 g) x" unfolding fs(2) using False by (rule if_not_P)
    moreover have "nat ((x - D) div 4096) = 0" "(x - D) mod 4096 = x - D" if "D \<le> x" "x < D + 4096"
      using that by (simp_all add: div_pos_pos_trivial mod_pos_pos_trivial)
    ultimately show ?thesis using False by (auto simp: f1(2) algebra_simps)
  qed
  then show ?case using f1(1,3,4) fs(1,3,4) by auto
qed

text \<open>
  What a copy of \<open>n\<close> pages from the guest address \<open>a\<close> to the temporary mapping \<open>t\<close> of the file range at
  \<open>D\<close> needs: the temporary pages show that range and are not guest pages; no guest page outside the
  copied range shows it; the entry word at \<open>ent\<close> is not visible to the guest. \<open>G\<close> is the set of guest
  pages.
\<close>

definition cow_ready :: "'a cow_state_scheme \<Rightarrow> int \<Rightarrow> int \<Rightarrow> nat \<Rightarrow> int \<Rightarrow> int \<Rightarrow> int set \<Rightarrow> bool" where
  "cow_ready st t D n a ent G \<longleftrightarrow>
     0 < n \<and> t mod 4096 = 0 \<and> a mod 4096 = 0 \<and> 0 \<le> D \<and> D mod 4096 = 0
     \<and> D + 4096 * int n \<le> st_size (img st) \<and> 0 \<le> ent \<and> ent + 8 \<le> st_size (img st)
     \<and> (\<forall>i<n. vm st (page_of t + int i) = Some \<lparr>vp_fd = fd (cur_s st), vp_off = D + 4096 * int i, vp_write = True\<rparr>
              \<and> page_of t + int i \<notin> G \<and> page_of a + int i \<in> G)
     \<and> (\<forall>p\<in>G. \<forall>v. vm st p = Some v \<longrightarrow>
          backed (files st (vp_fd v)) (vp_off v)
          \<and> (vp_fd v = fd (cur_s st) \<longrightarrow> ent + 8 \<le> vp_off v \<or> vp_off v + 4096 \<le> ent)
          \<and> (vp_fd v = fd (cur_s st) \<longrightarrow> vp_off v + 4096 \<le> D \<or> D + 4096 * int n \<le> vp_off v
             \<or> (\<exists>i<n. p = page_of a + int i \<and> vp_off v = D + 4096 * int i)))
     \<and> (\<forall>i<n. vm st (page_of a + int i) \<noteq> None)"

lemma flush_at_fields [simp]:
  "vm (flush_at a st) = vm st" "cur_s (flush_at a st) = cur_s st" "cow_heap (flush_at a st) = cow_heap st"
  "bytes (files (flush_at a st) g) = bytes (files st g)" "st_size (files (flush_at a st) g) = st_size (files st g)"
  by (auto simp: flush_at_def split: option.splits)

lemma flush_loop_fields [simp]:
  "vm (flush_loop a len st) = vm st" "cur_s (flush_loop a len st) = cur_s st" "cow_heap (flush_loop a len st) = cow_heap st"
  "bytes (files (flush_loop a len st) g) = bytes (files st g)" "st_size (files (flush_loop a len st) g) = st_size (files st g)"
proof -
  have f: "vm (fold (\<lambda>k. flush_at (h k)) ks st) = vm st \<and> cur_s (fold (\<lambda>k. flush_at (h k)) ks st) = cur_s st
      \<and> cow_heap (fold (\<lambda>k. flush_at (h k)) ks st) = cow_heap st
      \<and> bytes (files (fold (\<lambda>k. flush_at (h k)) ks st) g) = bytes (files st g)
      \<and> st_size (files (fold (\<lambda>k. flush_at (h k)) ks st) g) = st_size (files st g)" for h and ks :: "nat list" and st :: "'b cow_state_scheme" and g
    by (induction ks arbitrary: st) simp_all
  show "vm (flush_loop a len st) = vm st" "cur_s (flush_loop a len st) = cur_s st" "cow_heap (flush_loop a len st) = cow_heap st"
    "bytes (files (flush_loop a len st) g) = bytes (files st g)" "st_size (files (flush_loop a len st) g) = st_size (files st g)"
    using f by (simp_all add: flush_loop_def Let_def) (simp_all add: set_img_def img_def f)
qed

lemma move_pages:
  assumes "0 < n" "t mod 4096 = 0" "a mod 4096 = 0" "\<And>i. i < n \<Longrightarrow> v (page_of t + int i) \<noteq> None"
    "\<And>i. i < n \<Longrightarrow> page_of t + int i \<notin> G"
  shows "\<exists>v'. mremap_fixed t (4096 * int n) a v = Some v'
    \<and> (\<forall>p\<in>G. v' p = (if page_of a \<le> p \<and> p < page_of a + int n then v (page_of t + (p - page_of a)) else v p))"
proof -
  have i: "in_pages x (4096 * int n) p \<longleftrightarrow> page_of x \<le> p \<and> p < page_of x + int n" if "x mod 4096 = 0" for x p
    using in_pages_aligned [of x "4096 * int n" p] that by (simp add: PAGE_SIZE_def)
  have g: "\<not> (page_of t \<le> p \<and> p < page_of t + int n)" if "p \<in> G" for p
    using assms(5) [of "nat (p - page_of t)"] that by (auto simp: nat_less_iff)
  show ?thesis
    using assms g by (auto simp: mremap_fixed_def PAGE_SIZE_def i list_all_iff)
qed

text \<open>Copy, flush, move, update the entry: the guest sees the same bytes, now in writable pages.\<close>

lemma cow_copy_move:
  assumes r: "cow_ready st t D n a ent G"
  obtains st1 where "vm_memcpy t a (4096 * int n) st = Inr st1" "vm st1 = vm st" "cur_s st1 = cur_s st"
    "cow_heap st1 = cow_heap st" "\<And>g. st_size (files st1 g) = st_size (files st g)"
    "\<And>g x. bytes (files st1 g) x = bytes (files st g) x \<or> g = fd (cur_s st) \<and> D \<le> x \<and> x < D + 4096 * int n"
    "\<And>i x. i < n \<Longrightarrow> 0 \<le> x \<Longrightarrow> x < 4096 \<Longrightarrow>
      bytes (files st1 (fd (cur_s st))) (D + 4096 * int i + x) =
        bytes (files st (vp_fd (the (vm st (page_of a + int i))))) (vp_off (the (vm st (page_of a + int i))) + x)"
proof -
  let ?F = "fd (cur_s st)"
  define q where "q i = the (vm st (page_of a + int i))" for i
  have src: "vm st (page_of a + int i) = Some (q i)" if "i < n" for i
  proof -
    have "vm st (page_of a + int i) \<noteq> None" using r that unfolding cow_ready_def by blast
    then show ?thesis by (auto simp: q_def)
  qed
  have g: "page_of a + int i \<in> G" if "i < n" for i using r that unfolding cow_ready_def by blast
  have bk: "backed (files st (vp_fd (q i))) (vp_off (q i))" if "i < n" for i
    using r src [OF that] g [OF that] unfolding cow_ready_def by blast
  have ap: "apart ?F D n i (q i)" if "i < n" for i
  proof -
    have "vp_fd (q i) = ?F \<longrightarrow> vp_off (q i) + 4096 \<le> D \<or> D + 4096 * int n \<le> vp_off (q i)
        \<or> (\<exists>k<n. page_of a + int i = page_of a + int k \<and> vp_off (q i) = D + 4096 * int k)"
      using r src [OF that] g [OF that] unfolding cow_ready_def by blast
    then show ?thesis by (auto simp: apart_def)
  qed
  have dst: "vm st (page_of t + int i) = Some \<lparr>vp_fd = ?F, vp_off = D + 4096 * int i, vp_write = True\<rparr>" if "i < n" for i
    using r that unfolding cow_ready_def by blast
  have D: "0 \<le> D" "D mod 4096 = 0" "D + 4096 * int n \<le> st_size (files st ?F)"
    using r unfolding cow_ready_def img_def by blast+
  obtain fs where fs: "copy_pages (vm st) (page_of t) (page_of a) n (files st) = Inr fs"
    "\<And>g x. bytes (fs g) x = (if g = ?F \<and> D \<le> x \<and> x < D + 4096 * int n
          then bytes (files st (vp_fd (q (nat ((x - D) div 4096))))) (vp_off (q (nat ((x - D) div 4096))) + (x - D) mod 4096)
          else bytes (files st g) x)" "\<And>g. st_size (fs g) = st_size (files st g)"
    using copy_pages_bytes [OF dst src ap bk D] by blast
  have "bytes (fs ?F) (D + 4096 * int i + x) = bytes (files st (vp_fd (q i))) (vp_off (q i) + x)"
    if "i < n" "0 \<le> x" "x < 4096" for i x
  proof -
    have "(D + 4096 * int i + x - D) div 4096 = int i" "(D + 4096 * int i + x - D) mod 4096 = x"
      using that by (simp_all add: div_pos_pos_trivial mod_pos_pos_trivial)
    moreover have "4096 * int i + x < 4096 * int n" using that by linarith
    ultimately show ?thesis using fs(2) [of ?F "D + 4096 * int i + x"] that by simp
  qed
  moreover have "nat (4096 * int n div PAGE_SIZE) = n" by (simp add: PAGE_SIZE_def)
  ultimately show thesis
    using fs that [of "st\<lparr>files := fs\<rparr>"] by (simp add: vm_memcpy_def q_def)
qed

lemma guest_after_copy:
  assumes r: "cow_ready st t D n a ent G"
    and m: "cur_s st1 = cur_s st" "\<And>g x. bytes (files st1 g) x = bytes (files st g) x \<or> g = fd (cur_s st) \<and> D \<le> x \<and> x < D + 4096 * int n"
    "\<And>i x. i < n \<Longrightarrow> 0 \<le> x \<Longrightarrow> x < 4096 \<Longrightarrow>
      bytes (files st1 (fd (cur_s st))) (D + 4096 * int i + x) =
        bytes (files st (vp_fd (the (vm st (page_of a + int i))))) (vp_off (the (vm st (page_of a + int i))) + x)"
    and v: "\<And>p. p \<in> G \<Longrightarrow> v' p = (if page_of a \<le> p \<and> p < page_of a + int n then vm st (page_of t + (p - page_of a)) else vm st p)"
    and f: "\<And>g x. bytes (fs g) x = bytes (files st1 g) x \<or> g = fd (cur_s st) \<and> ent \<le> x \<and> x < ent + 8"
    and dent: "ent + 8 \<le> D \<or> D + 4096 * int n \<le> ent"
    and y: "page_of y \<in> G"
  shows "vm_byte fs v' y = vm_byte (files st) (vm st) y"
proof -
  let ?F = "fd (cur_s st)" and ?p = "page_of y" and ?o = "y mod PAGE_SIZE"
  have o: "0 \<le> ?o" "?o < 4096" by (simp_all add: PAGE_SIZE_def)
  have g: "backed (files st (vp_fd v)) (vp_off v)"
      "vp_fd v = ?F \<Longrightarrow> ent + 8 \<le> vp_off v \<or> vp_off v + 4096 \<le> ent"
      "vp_fd v = ?F \<Longrightarrow> vp_off v + 4096 \<le> D \<or> D + 4096 * int n \<le> vp_off v
         \<or> (\<exists>i<n. ?p = page_of a + int i \<and> vp_off v = D + 4096 * int i)"
    if "vm st ?p = Some v" for v
    using r y that unfolding cow_ready_def by blast+
  show ?thesis
  proof (cases "page_of a \<le> ?p \<and> ?p < page_of a + int n")
    case True
    define i where "i = nat (?p - page_of a)"
    have i: "i < n" "?p = page_of a + int i" using True by (auto simp: i_def nat_less_iff)
    have "vm st (page_of t + int i) = Some \<lparr>vp_fd = ?F, vp_off = D + 4096 * int i, vp_write = True\<rparr>"
      using r i(1) unfolding cow_ready_def by blast
    then have v'p: "v' ?p = Some \<lparr>vp_fd = ?F, vp_off = D + 4096 * int i, vp_write = True\<rparr>"
      using v [OF y] True i(2) by simp
    have "vm st ?p \<noteq> None" using r i unfolding cow_ready_def by auto
    then obtain u where u: "vm st ?p = Some u" by blast
    have "4096 * int i + ?o < 4096 * int n" using i(1) o by linarith
    then have "bytes (fs ?F) (D + 4096 * int i + ?o) = bytes (files st1 ?F) (D + 4096 * int i + ?o)"
      using f [of ?F "D + 4096 * int i + ?o"] dent o by auto
    also have "\<dots> = bytes (files st (vp_fd u)) (vp_off u + ?o)"
      using m(3) [OF i(1) o] u i(2) by simp
    finally show ?thesis by (simp add: vm_byte_def v'p u)
  next
    case False
    have v'p: "v' ?p = vm st ?p" unfolding v [OF y] using False by (rule if_not_P)
    show ?thesis
    proof (cases "vm st ?p")
      case None
      then show ?thesis by (simp add: vm_byte_def v'p)
    next
      case (Some u)
      have "\<not> (\<exists>i<n. ?p = page_of a + int i)" using False by auto
      then have "bytes (files st1 (vp_fd u)) (vp_off u + ?o) = bytes (files st (vp_fd u)) (vp_off u + ?o)"
        using m(2) [of "vp_fd u" "vp_off u + ?o"] g(3) [OF Some] o by auto
      moreover have "bytes (fs (vp_fd u)) (vp_off u + ?o) = bytes (files st1 (vp_fd u)) (vp_off u + ?o)"
        using f [of "vp_fd u" "vp_off u + ?o"] g(2) [OF Some] o by auto
      ultimately show ?thesis by (simp add: vm_byte_def v'p Some)
    qed
  qed
qed

lemma update_entry_bytes:
  assumes "update_entry ent h st = Inr st'"
  shows "vm st' = vm st" "cur_s st' = cur_s st"
    "bytes (files st' g) x = bytes (files st g) x \<or> g = fd (cur_s st) \<and> ent \<le> x \<and> x < ent + 8"
  using assms by (auto simp: update_entry_def set_img_def img_def store64_def pm_store_def poke_def split: if_splits)

lemma cow_full_ok:
  assumes r: "cow_ready st (ce_map_addr2 ce) D n fa (meta_entry ce) G"
    and ce: "cow_heap st (cow_entry le) = ce" "block_size (cur_s st) = 4096 * int n"
    and dent: "meta_entry ce + 8 \<le> D \<or> D + 4096 * int n \<le> meta_entry ce"
  shows "\<exists>st'. cow_full st le fa = Inr st'
    \<and> (\<forall>y. page_of y \<in> G \<longrightarrow> vm_byte (files st') (vm st') y = vm_byte (files st) (vm st) y)
    \<and> (\<forall>i<n. vm st' (page_of fa + int i) = Some \<lparr>vp_fd = fd (cur_s st), vp_off = D + 4096 * int i, vp_write = True\<rparr>)
    \<and> load64 (img st') (meta_entry ce) = load64 (img st) (meta_entry ce) AND ADDR_MASK"
proof -
  let ?t = "ce_map_addr2 ce" and ?ent = "meta_entry ce" and ?F = "fd (cur_s st)"
  obtain st1 where c: "vm_memcpy ?t fa (4096 * int n) st = Inr st1" "vm st1 = vm st" "cur_s st1 = cur_s st"
    "\<And>g. st_size (files st1 g) = st_size (files st g)"
    "\<And>g x. bytes (files st1 g) x = bytes (files st g) x \<or> g = ?F \<and> D \<le> x \<and> x < D + 4096 * int n"
    "\<And>i x. i < n \<Longrightarrow> 0 \<le> x \<Longrightarrow> x < 4096 \<Longrightarrow> bytes (files st1 ?F) (D + 4096 * int i + x) =
        bytes (files st (vp_fd (the (vm st (page_of fa + int i))))) (vp_off (the (vm st (page_of fa + int i))) + x)"
    by (rule cow_copy_move [OF r]) blast
  let ?st2 = "flush_loop ?t (4096 * int n) st1"
  have rd: "0 < n" "?t mod 4096 = 0" "fa mod 4096 = 0" "0 \<le> ?ent \<and> ?ent + 8 \<le> st_size (img st)"
    "\<And>i. i < n \<Longrightarrow> vm st (page_of ?t + int i) \<noteq> None" "\<And>i. i < n \<Longrightarrow> page_of ?t + int i \<notin> G"
    "\<And>i. i < n \<Longrightarrow> page_of fa + int i \<in> G"
    "\<And>i. i < n \<Longrightarrow> vm st (page_of ?t + int i) = Some \<lparr>vp_fd = ?F, vp_off = D + 4096 * int i, vp_write = True\<rparr>"
    using r unfolding cow_ready_def by auto
  obtain v' where v': "mremap_fixed ?t (4096 * int n) fa (vm st) = Some v'"
    "\<And>p. p \<in> G \<Longrightarrow> v' p = (if page_of fa \<le> p \<and> p < page_of fa + int n then vm st (page_of ?t + (p - page_of fa)) else vm st p)"
    using move_pages [where v = "vm st" and G = G, OF rd(1,2,3,5,6)] by blast
  have sz: "?ent + 8 \<le> st_size (img (?st2\<lparr>vm := v'\<rparr>))" using rd(4) by (simp add: img_def c(3,4))
  then have bk: "backed (img (?st2\<lparr>vm := v'\<rparr>)) ?ent" using rd(4) by (intro backed_less) simp_all
  then obtain st' where u: "update_entry ?ent (\<lambda>e. e AND ADDR_MASK) (?st2\<lparr>vm := v'\<rparr>) = Inr st'"
    by (simp add: update_entry_def)
  note ub = update_entry_bytes [OF u]
  have cf: "cow_full st le fa = Inr st'"
    using u v'(1) c(1) by (simp add: cow_full_def Let_def ce c(2))
  have "vm_byte (files st') (vm st') y = vm_byte (files st) (vm st) y" if "page_of y \<in> G" for y
    using guest_after_copy [OF r c(3,5,6) v'(2) _ dent that, of "files st'"] ub by (simp add: c(3))
  moreover have "vm st' (page_of fa + int i) = Some \<lparr>vp_fd = ?F, vp_off = D + 4096 * int i, vp_write = True\<rparr>" if "i < n" for i
    using v'(2) [OF rd(7) [OF that]] rd(8) [OF that] that by (simp add: ub(1))
  moreover have "load64 (img st') ?ent = load64 (img st) ?ent AND ADDR_MASK"
  proof -
    have "bytes (img (?st2\<lparr>vm := v'\<rparr>)) x = bytes (img st) x" if "?ent \<le> x" "x < ?ent + 8" for x
      using dent c(5) [of ?F x] that by (auto simp: img_def c(3))
    then have "load64 (img (?st2\<lparr>vm := v'\<rparr>)) ?ent = load64 (img st) ?ent"
      unfolding load64_def by (rule get64_cong)
    then show ?thesis using u sz bk by (auto simp: update_entry_def load64_synced load64_store64_same)
  qed
  ultimately show ?thesis using cf by blast
qed

lemma cow_partial_ok:
  assumes r: "cow_ready st t D 1 a (meta_entry ce) G"
    and ce: "cow_heap st (cow_entry le) = ce" "copy_size le = COW_UNIT" "ulong (ce_map_addr ce + voff le - va) = t"
      "ulong (addr (cur_s st) + voff le) = a"
    and dent: "meta_entry ce + 8 \<le> D \<or> D + 4096 \<le> meta_entry ce"
  shows "\<exists>st'. cow_partial st le va a = Inr st'
    \<and> (\<forall>y. page_of y \<in> G \<longrightarrow> vm_byte (files st') (vm st') y = vm_byte (files st) (vm st) y)
    \<and> vm st' (page_of a) = Some \<lparr>vp_fd = fd (cur_s st), vp_off = D, vp_write = True\<rparr>
    \<and> load64 (img st') (meta_entry ce) =
        load64 (img st) (meta_entry ce) OR cow_bit (cint (ulong (voff le - va) div COW_UNIT))"
proof -
  let ?ent = "meta_entry ce" and ?F = "fd (cur_s st)" and ?n = "cint (ulong (voff le - va) div COW_UNIT)"
  obtain st1 where c: "vm_memcpy t a (4096 * int 1) st = Inr st1" "vm st1 = vm st" "cur_s st1 = cur_s st" "cow_heap st1 = cow_heap st"
    "\<And>g. st_size (files st1 g) = st_size (files st g)"
    "\<And>g x. bytes (files st1 g) x = bytes (files st g) x \<or> g = ?F \<and> D \<le> x \<and> x < D + 4096 * int 1"
    "\<And>i x. i < 1 \<Longrightarrow> 0 \<le> x \<Longrightarrow> x < 4096 \<Longrightarrow> bytes (files st1 ?F) (D + 4096 * int i + x) =
        bytes (files st (vp_fd (the (vm st (page_of a + int i))))) (vp_off (the (vm st (page_of a + int i))) + x)"
    by (rule cow_copy_move [OF r]) blast
  have rd: "t mod 4096 = 0" "a mod 4096 = 0" "0 \<le> ?ent \<and> ?ent + 8 \<le> st_size (img st)"
    "\<And>i. i < 1 \<Longrightarrow> vm st (page_of t + int i) \<noteq> None" "\<And>i. i < 1 \<Longrightarrow> page_of t + int i \<notin> G"
    "page_of a \<in> G" "vm st (page_of t) = Some \<lparr>vp_fd = ?F, vp_off = D, vp_write = True\<rparr>"
    using r unfolding cow_ready_def by auto
  obtain v' where v': "mremap_fixed t (4096 * int 1) a (vm st) = Some v'"
    "\<And>p. p \<in> G \<Longrightarrow> v' p = (if page_of a \<le> p \<and> p < page_of a + int 1 then vm st (page_of t + (p - page_of a)) else vm st p)"
    using move_pages [where v = "vm st" and G = G and n = 1, OF _ rd(1,2,4,5)] by auto
  let ?st4 = "(flush_loop t 4096 st1)\<lparr>vm := v', cow_heap := (cow_heap st)(cow_entry le :=
      ce\<lparr>copied_counter := cint (copied_counter ce + ?n)\<rparr>)\<rparr>"
  have sz: "?ent + 8 \<le> st_size (img ?st4)" using rd(3) by (simp add: img_def c(3,5))
  then have bk: "backed (img ?st4) ?ent" using rd(3) by (intro backed_less) simp_all
  then obtain st' where u: "update_entry ?ent (\<lambda>e. e OR cow_bit ?n) ?st4 = Inr st'" by (simp add: update_entry_def)
  note ub = update_entry_bytes [OF u]
  have cf: "cow_partial st le va a = Inr st'"
    using u v'(1) c(1) by (simp add: cow_partial_def Let_def ce c(2,4) COW_UNIT_def c_div_def)
  have "vm_byte (files st') (vm st') y = vm_byte (files st) (vm st) y" if "page_of y \<in> G" for y
    using guest_after_copy [OF r c(3,6,7) v'(2) _ _ that, of "files st'"] ub dent by (simp add: c(3))
  moreover have "vm st' (page_of a) = Some \<lparr>vp_fd = ?F, vp_off = D, vp_write = True\<rparr>"
    using v'(2) [OF rd(6)] rd(7) by (simp add: ub(1))
  moreover have "load64 (img st') ?ent = load64 (img st) ?ent OR cow_bit ?n"
  proof -
    have "bytes (img ?st4) x = bytes (img st) x" if "?ent \<le> x" "x < ?ent + 8" for x
      using dent c(6) [of ?F x] that by (auto simp: img_def c(3))
    then have "load64 (img ?st4) ?ent = load64 (img st) ?ent"
      unfolding load64_def by (rule get64_cong)
    then show ?thesis using u sz bk by (auto simp: update_entry_def load64_synced load64_store64_same)
  qed
  ultimately show ?thesis using cf by blast
qed

text \<open>Concrete states: a layer with one read-only guest page and a block to copy it to.\<close>

definition demo_fault :: cow_state where
  "demo_fault = demo_cow\<lparr>vm := [0 \<mapsto> \<lparr>vp_fd = [], vp_off = 12288, vp_write = False\<rparr>,
       10 \<mapsto> \<lparr>vp_fd = [], vp_off = 8192, vp_write = True\<rparr>, 11 \<mapsto> \<lparr>vp_fd = [], vp_off = 8192, vp_write = True\<rparr>],
     cow_heap := \<lambda>i. (cow_heap demo_cow i)\<lparr>ce_map_addr := 40960, ce_map_addr2 := 45056\<rparr>\<rparr>"

lemma demo_fault_fields:
  "fd (cur_s demo_fault) = []" "addr (cur_s demo_fault) = 0" "block_size (cur_s demo_fault) = 4096"
  "st_size (files demo_fault g) = 16384" "meta_entry (cow_heap demo_fault i) = 4160"
  "ce_map_addr (cow_heap demo_fault i) = 40960" "ce_map_addr2 (cow_heap demo_fault i) = 45056"
  by (simp_all add: demo_fault_def demo_cow_def super_of_def Let_def)

lemma demo_fault_ready:
  "cow_ready demo_fault 40960 8192 1 0 4160 {0}" "cow_ready demo_fault 45056 8192 1 0 4160 {0}"
  by (simp_all add: cow_ready_def demo_fault_fields img_def page_of_def PAGE_SIZE_def backed_def)
    (simp_all add: demo_fault_def)

lemma super_sync_addr:
  assumes "super_sync s off bs mb n"
  shows "super_sync (s\<lparr>addr := x, fmmap_length := y\<rparr>) off bs mb n"
  using super_sync_fields [OF assms] by (intro super_syncI) simp_all

lemma sample_fault:
  "\<exists>st::cow_state. pre_rel st 4096 10 [] [] \<and> nb_available st = 1 \<and> vm st = Map.empty \<and> addr (cur_s st) = 0
     \<and> fmmap_length (cur_s st) = 40960"
proof -
  obtain s :: cow_state where s: "pre_rel s 4096 10 [] []" "nb_available s = 1" using sample_cow by auto
  have "pre_rel (s\<lparr>vm := Map.empty, cur_s := (cur_s s)\<lparr>addr := 0, fmmap_length := 40960\<rparr>\<rparr>) 4096 10 [] []"
    using s(1) super_sync_addr [of "cur_s s"]
    by (simp add: pre_rel_def writable_rel_def ring_ok_def img_def next_off_def Let_def)
  with s(2) show ?thesis by (intro exI [of _ "s\<lparr>vm := Map.empty, cur_s := (cur_s s)\<lparr>addr := 0, fmmap_length := 40960\<rparr>\<rparr>"]) simp
qed

section \<open>Properties\<close>

text \<open>C8: A missing page: the monitor appends an entry for the page's block, maps the new data block
  writable over the whole block, and the guest reads zeros there.\<close>

theorem uf_monitor_serves_zeros:
  assumes "pre_rel st bs mb ls0 es" and "int (length es) < mb" and "blocks_needed bs es \<le> nb_available st"
    and "addr (cur_s st) mod 4096 = 0" "0 \<le> addr (cur_s st)" "addr (cur_s st) < 4611686018427387904"
    and "0 \<le> v" "v < 4611686018427387904" "v mod 4096 = 0" "v div bs * bs \<le> fmmap_length (cur_s st) - bs"
      "fmmap_length (cur_s st) < 9223372036854775808"
    and "vm_rel (vm st) (addr (cur_s st)) bs (fd (cur_s st)) (fmmap_length (cur_s st) div bs) M"
  shows "\<exists>st'. uf_monitor_fault st (addr (cur_s st) + v) = Some (Inr st')
    \<and> pre_rel st' bs mb ls0 (es @ [vblock_num bs (v div bs * bs)])
    \<and> vm_rel (vm st') (addr (cur_s st)) bs (fd (cur_s st)) (fmmap_length (cur_s st) div bs)
        (M(v div bs \<mapsto> (data_at (image_end 0 bs ls0) bs (int (length es)), True)))
    \<and> (\<forall>x\<in>{0..<bs}. vm_byte (files st') (vm st') (addr (cur_s st) + v div bs * bs + x) = Some 0)"
  using uf_monitor_rel [OF assms] by simp

theorem uf_monitor_serves_zeros_witness:
  "\<exists>(st::cow_state) st'. uf_monitor_fault st 8192 = Some (Inr st') \<and> pre_rel st' 4096 10 [] [vblock_num 4096 8192]
    \<and> vm_byte (files st') (vm st') 8200 = Some 0"
proof -
  obtain st :: cow_state where st: "pre_rel st 4096 10 [] []" "nb_available st = 1" "vm st = Map.empty" "addr (cur_s st) = 0"
    "fmmap_length (cur_s st) = 40960" using sample_fault by auto
  have "vm_rel (vm st) 0 4096 (fd (cur_s st)) 10 Map.empty" by (simp add: vm_rel_def st(3))
  then obtain st' where r: "uf_monitor_fault st 8192 = Some (Inr st')" "pre_rel st' 4096 10 [] [vblock_num 4096 8192]"
      "\<forall>x\<in>{0..<4096}. vm_byte (files st') (vm st') (8192 + x) = Some 0"
    using uf_monitor_serves_zeros [OF st(1), of 8192 Map.empty] st
    by (auto simp: blocks_needed_def act_of_def seg_of_def mps_of_def)
  have "vm_byte (files st') (vm st') (8192 + 8) = Some 0" using r(3) by (rule bspec) simp
  with r show ?thesis by auto
qed



text \<open>C2: A copy of a whole block, pages of which may have been copied before, does not change a byte the
  guest can see; the block then is the new data block, writable, and the entry's bitmap is cleared.\<close>

theorem cow_block_preserves_guest:
  assumes "cow_ready st (ce_map_addr2 ce) D n fa (meta_entry ce) G"
    and "cow_heap st (cow_entry le) = ce" "block_size (cur_s st) = 4096 * int n"
    and "meta_entry ce + 8 \<le> D \<or> D + 4096 * int n \<le> meta_entry ce"
  shows "\<exists>st'. cow_full st le fa = Inr st'
    \<and> (\<forall>y. page_of y \<in> G \<longrightarrow> vm_byte (files st') (vm st') y = vm_byte (files st) (vm st) y)
    \<and> (\<forall>i<n. vm st' (page_of fa + int i) = Some \<lparr>vp_fd = fd (cur_s st), vp_off = D + 4096 * int i, vp_write = True\<rparr>)
    \<and> load64 (img st') (meta_entry ce) = load64 (img st) (meta_entry ce) AND ADDR_MASK"
  by (rule cow_full_ok [OF assms])

theorem cow_block_preserves_guest_witness:
  "\<exists>st'. cow_full demo_fault \<lparr>voff = 0, copy_size = 4096, cow_entry = 0\<rparr> 0 = Inr st'
    \<and> vm st' 0 = Some \<lparr>vp_fd = [], vp_off = 8192, vp_write = True\<rparr>"
  using cow_block_preserves_guest [of demo_fault "cow_heap demo_fault 0" 8192 1 0 "{0}"
      "\<lparr>voff = 0, copy_size = 4096, cow_entry = 0\<rparr>"] demo_fault_ready(2)
  by (auto simp: demo_fault_fields page_of_def)

end
