(* ===== verification/Manager.thy ===== *)
theory Manager
  imports Fault_Handler
begin

text \<open>
  Image management: \<open>manager.c\<close>, the \<open>pcow-img\<close> tool and \<open>print_struct\<close> of \<open>meta.c\<close>. The file
  system maps names to files; a file that is opened with \<open>O_CREAT\<close> and does not exist is created empty
  with room up to \<open>lim\<close>. A \<open>char *\<close> argument is the memory from the pointer on, so that the
  fixed-size \<open>memcpy\<close> of a name can be followed; the C string is its part before the first zero.
  Names identify open files, and every function closes or abandons its descriptor.
\<close>

section \<open>State and strings\<close>

type_synonym fs_state = "cstr \<Rightarrow> pm_file option"

definition c_string :: "u8 list \<Rightarrow> cstr" where
  "c_string buf = takeWhile (\<lambda>c. c \<noteq> 0) buf"

definition open_creat :: "int \<Rightarrow> cstr \<Rightarrow> fs_state \<Rightarrow> pm_file" where
  "open_creat lim n fs = (case fs n of None \<Rightarrow> empty_file lim | Some f \<Rightarrow> f)"

text \<open>\<open>memcpy(s->pm_super->base_image_name, name, 48)\<close>; 48 bytes must be readable.\<close>

definition write_base_name :: "int \<Rightarrow> u8 list \<Rightarrow> pm_file \<Rightarrow> pm_file res" where
  "write_base_name p buf f =
     (if length buf < 48 then Inl Undefined
      else Inr (pm_fence (pm_flush (p + 16) (pm_store (p + 16) (take 48 buf) f))))"

section \<open>Creating and rebasing\<close>

text \<open>
  The check of the base image: a missing one leaves \<open>base_fd\<close> negative, and \<open>read_first_super\<close> then
  reads the \<open>struct stat\<close> that \<open>fstat\<close> did not fill; an unformatted one only prints a message.
\<close>

definition check_base :: "fs_state \<Rightarrow> u8 list option \<Rightarrow> unit res" where
  "check_base fs base =
     (case base of
        None \<Rightarrow> Inr ()
      | Some buf \<Rightarrow>
          (case fs (c_string buf) of
             None \<Rightarrow> Inl Undefined
           | Some g \<Rightarrow> res_bind (read_first_super g (c_string buf) 0) (\<lambda>_. Inr ())))"

definition new_image :: "int \<Rightarrow> fs_state \<Rightarrow> u8 list \<Rightarrow> int \<Rightarrow> int \<Rightarrow> u8 list option \<Rightarrow> (int \<times> fs_state) res option" where
  "new_image lim fs name bs max_size base =
     (let n = c_string name; f = open_creat lim n fs; fs1 = fs(n \<mapsto> f)
      in case read_first_super f n 0 of
           Inl e \<Rightarrow> Some (Inl e)
         | Inr (Some s) \<Rightarrow> Some (Inr (-1, fs1))
         | Inr None \<Rightarrow>
             (case check_base fs1 base of
                Inl e \<Rightarrow> Some (Inl e)
              | Inr _ \<Rightarrow>
                  if bs = 0 then Some (Inl Sigfpe)
                  else map_option (\<lambda>r. res_bind r (\<lambda>(g, so).
                         case so of
                           None \<Rightarrow> Inl Sigsegv
                         | Some s \<Rightarrow>
                             (case base of
                                Some buf \<Rightarrow> res_bind (write_base_name (pm_super s) buf g) (\<lambda>h. Inr (0, fs1(n \<mapsto> h)))
                              | None \<Rightarrow> Inr (0, fs1(n \<mapsto> pm_fence (pm_flush (pm_super s + 16)
                                                     (pm_store (pm_super s + 16) [0] g)))))))
                       (new_super f n (cint (bs * 1024)) (cint (ulong (max_size * 1024 * 1024) div ulong bs)))))"

definition update_base_image :: "fs_state \<Rightarrow> u8 list \<Rightarrow> u8 list \<Rightarrow> (int \<times> fs_state) res" where
  "update_base_image fs name base =
     (let n = c_string name
      in case fs n of
           None \<Rightarrow> Inr (-1, fs)
         | Some f \<Rightarrow>
             res_bind (read_first_super f n 0) (\<lambda>so.
               case so of
                 None \<Rightarrow> Inr (-1, fs)
               | Some s \<Rightarrow> res_bind (write_base_name (pm_super s) base f) (\<lambda>g. Inr (0, fs(n \<mapsto> g)))))"

section \<open>Snapshots\<close>

definition snapshot :: "fs_state \<Rightarrow> u8 list \<Rightarrow> (int \<times> fs_state) res option" where
  "snapshot fs name =
     (let n = c_string name
      in case fs n of
           None \<Rightarrow> Some (Inr (-1, fs))
         | Some f \<Rightarrow>
             (case read_first_super f n 0 of
                Inl e \<Rightarrow> Some (Inl e)
              | Inr None \<Rightarrow> Some (Inr (-1, fs))
              | Inr (Some s) \<Rightarrow>
                  map_option (\<lambda>r. res_bind r (\<lambda>(g, _). Inr (0, fs(n \<mapsto> g)))) (new_super f n (block_size s) (max_block_num s))))"

text \<open>The loop of \<open>rollback_snapshot\<close>; \<open>no\<close> is the number of the super before this one.\<close>

partial_function (option) rollback_from :: "pm_file \<Rightarrow> Super \<Rightarrow> int \<Rightarrow> int \<Rightarrow> pm_file res option" where
  "rollback_from f s no snapshot_no =
     (let g = (if cint (no + 1) = snapshot_no then snd (ftruncate (super_end f s) f) else f)
      in if \<not> backed f (pm_top (active_meta s)) then Some (Inl Sigbus)
         else case read_next_super g s of
                Inl e \<Rightarrow> Some (Inl e)
              | Inr None \<Rightarrow> Some (Inr g)
              | Inr (Some t) \<Rightarrow> rollback_from g t (cint (no + 1)) snapshot_no)"

definition rollback_snapshot :: "fs_state \<Rightarrow> u8 list \<Rightarrow> int \<Rightarrow> (int \<times> fs_state) res option" where
  "rollback_snapshot fs name snapshot_no =
     (let n = c_string name
      in case fs n of
           None \<Rightarrow> Some (Inr (-1, fs))
         | Some f \<Rightarrow>
             (case read_first_super f n 0 of
                Inl e \<Rightarrow> Some (Inl e)
              | Inr None \<Rightarrow> Some (Inr (-1, fs))
              | Inr (Some s) \<Rightarrow>
                  map_option (\<lambda>r. res_bind r (\<lambda>g. Inr (0, fs(n \<mapsto> g)))) (rollback_from f s 0 snapshot_no)))"

section \<open>Listing\<close>

text \<open>What \<open>list_snapshots\<close> prints for one super block.\<close>

record snap_info =
  si_no :: int
  si_off :: int
  si_metas :: "(nat \<times> int) list"
  si_super :: Super
  si_counter :: int
  si_base :: cstr

fun meta_counts :: "pm_file \<Rightarrow> Super \<Rightarrow> nat list \<Rightarrow> (nat \<times> int) list res" where
  "meta_counts f s [] = Inr []"
| "meta_counts f s (i # is) =
     res_bind (read_meta f s (cint (int i))) (\<lambda>m. res_bind (meta_counts f s is) (\<lambda>r.
       Inr (if i mod 10 = 0 \<or> int i = ulong (active_meta_num s) then (i, counter m) # r else r)))"

definition super_info :: "pm_file \<Rightarrow> Super \<Rightarrow> int \<Rightarrow> snap_info res" where
  "super_info f s no =
     res_bind (meta_counts f s [0..<Suc (nat (ulong (active_meta_num s)))]) (\<lambda>ms.
       Inr \<lparr>si_no = no, si_off = my_off s, si_metas = ms, si_super = s,
            si_counter = mt_counter f (pm_top (active_meta s)), si_base = base_image_name f (pm_super s)\<rparr>)"

partial_function (option) list_from :: "pm_file \<Rightarrow> Super \<Rightarrow> int \<Rightarrow> snap_info list res option" where
  "list_from f s no =
     (case super_info f s (cint (no + 1)) of
        Inl e \<Rightarrow> Some (Inl e)
      | Inr i \<Rightarrow>
          (case read_next_super f s of
             Inl e \<Rightarrow> Some (Inl e)
           | Inr None \<Rightarrow> Some (Inr [i])
           | Inr (Some t) \<Rightarrow> Option.bind (list_from f t (cint (no + 1))) (\<lambda>r. Some (res_bind r (\<lambda>is. Inr (i # is))))))"

definition list_snapshots :: "fs_state \<Rightarrow> u8 list \<Rightarrow> (int \<times> snap_info list) res option" where
  "list_snapshots fs name =
     (let n = c_string name
      in case fs n of
           None \<Rightarrow> Some (Inr (-1, []))
         | Some f \<Rightarrow>
             (case read_first_super f n 0 of
                Inl e \<Rightarrow> Some (Inl e)
              | Inr None \<Rightarrow> Some (Inr (-1, []))
              | Inr (Some s) \<Rightarrow> map_option (\<lambda>r. res_bind r (\<lambda>is. Inr (0, is))) (list_from f s 0)))"

text \<open>\<open>print_struct\<close>: of every thousandth entry its virtual and file offsets, per super block.\<close>

definition struct_segment :: "pm_file \<Rightarrow> Super \<Rightarrow> nat \<Rightarrow> (int \<times> int) list res" where
  "struct_segment f s i =
     res_bind (read_meta f s (cint (int i))) (\<lambda>m.
       let data_off = ulong (block_size s * (1 + (1 + max_per_seg s) * int i))
       in Inr (map (\<lambda>j. (ulong (entry_block (load64 f (pm_btm_addr m (int j))) * block_size s),
                         ulong (data_off + block_size s * int j)))
                 (filter (\<lambda>j. j mod 1000 = 0) [0..<nat (ulong (counter m))])))"

fun struct_segments :: "pm_file \<Rightarrow> Super \<Rightarrow> nat list \<Rightarrow> (int \<times> int) list res" where
  "struct_segments f s [] = Inr []"
| "struct_segments f s (i # is) =
     res_bind (struct_segment f s i) (\<lambda>a. res_bind (struct_segments f s is) (\<lambda>b. Inr (a @ b)))"

partial_function (option) print_struct_from :: "pm_file \<Rightarrow> Super \<Rightarrow> (int \<times> int) list list res option" where
  "print_struct_from f s =
     (case struct_segments f s [0..<Suc (nat (ulong (active_meta_num s)))] of
        Inl e \<Rightarrow> Some (Inl e)
      | Inr i \<Rightarrow>
          (case read_next_super f s of
             Inl e \<Rightarrow> Some (Inl e)
           | Inr None \<Rightarrow> Some (Inr [i])
           | Inr (Some t) \<Rightarrow> Option.bind (print_struct_from f t) (\<lambda>r. Some (res_bind r (\<lambda>is. Inr (i # is))))))"

definition print_struct :: "pm_file \<Rightarrow> cstr \<Rightarrow> (int \<times> int) list list res option" where
  "print_struct f fdn =
     (case read_first_super f fdn 0 of
        Inl e \<Rightarrow> Some (Inl e)
      | Inr None \<Rightarrow> Some (Inl Sigsegv)
      | Inr (Some s) \<Rightarrow> print_struct_from f s)"

section \<open>The pcow-img tool\<close>

text \<open>\<open>atoi\<close>: white space, a sign, decimal digits; \<open>strtol\<close> saturates, the cast to \<open>int\<close> truncates.\<close>

definition is_space :: "u8 \<Rightarrow> bool" where
  "is_space c \<longleftrightarrow> c = 32 \<or> 9 \<le> c \<and> c \<le> 13"

definition digits_value :: "u8 list \<Rightarrow> int" where
  "digits_value ds = foldl (\<lambda>n d. 10 * n + (uint d - 48)) 0 (takeWhile (\<lambda>d. 48 \<le> d \<and> d \<le> 57) ds)"

definition atoi :: "u8 list \<Rightarrow> int" where
  "atoi buf =
     (let s = dropWhile is_space buf;
          v = (case s of
                 [] \<Rightarrow> 0
               | c # cs \<Rightarrow> if c = 45 then - digits_value cs else if c = 43 then digits_value cs else digits_value s)
      in cint (max (- 9223372036854775808) (min 9223372036854775807 v)))"

text \<open>\<open>argv[i]\<close> as memory: the argument strings lie one after the other, followed by the environment.\<close>

definition argv_mem :: "cstr list \<Rightarrow> u8 list \<Rightarrow> nat \<Rightarrow> u8 list" where
  "argv_mem argv env i = concat (map (\<lambda>s. s @ [0]) (drop i argv)) @ env"

datatype img_out = Usage | Help | Ran int | Listed "(int \<times> snap_info list) list" | Fell_through

definition ran :: "(int \<times> fs_state) res option \<Rightarrow> (img_out \<times> fs_state) res option" where
  "ran r = map_option (\<lambda>x. res_bind x (\<lambda>(v, fs). Inr (Ran v, fs))) r"

definition cmd_help :: cstr where "cmd_help = [104, 101, 108, 112]"
definition cmd_create :: cstr where "cmd_create = [99, 114, 101, 97, 116, 101]"
definition cmd_info :: cstr where "cmd_info = [105, 110, 102, 111]"
definition cmd_rebase :: cstr where "cmd_rebase = [114, 101, 98, 97, 115, 101]"
definition cmd_snapshot :: cstr where "cmd_snapshot = [115, 110, 97, 112, 115, 104, 111, 116]"
definition cmd_rollback :: cstr where "cmd_rollback = [114, 111, 108, 108, 98, 97, 99, 107]"

definition img_rollback :: "fs_state \<Rightarrow> u8 list \<Rightarrow> int \<Rightarrow> (img_out \<times> fs_state) res option" where
  "img_rollback fs name no =
     (case list_snapshots fs name of
        None \<Rightarrow> None
      | Some (Inl e) \<Rightarrow> Some (Inl e)
      | Some (Inr a) \<Rightarrow>
          (case rollback_snapshot fs name no of
             None \<Rightarrow> None
           | Some (Inl e) \<Rightarrow> Some (Inl e)
           | Some (Inr (_, fs1)) \<Rightarrow>
               map_option (\<lambda>x. res_bind x (\<lambda>b. Inr (Listed [a, b], fs1))) (list_snapshots fs1 name)))"

definition img_main :: "int \<Rightarrow> cstr list \<Rightarrow> u8 list \<Rightarrow> fs_state \<Rightarrow> (img_out \<times> fs_state) res option" where
  "img_main lim argv env fs =
     (let argc = length argv; arg = argv_mem argv env
      in if argc < 2 then Some (Inr (Usage, fs))
         else if argv ! 1 = cmd_help then Some (Inr (Help, fs))
         else if argv ! 1 = cmd_create then
           (if argc < 5 \<or> argc > 6 then Some (Inr (Usage, fs))
            else ran (new_image lim fs (arg 4) (atoi (argv ! 2)) (ulong (atoi (argv ! 3)))
                        (if argc = 5 then None else Some (arg 5))))
         else if argv ! 1 = cmd_info then
           (if argc \<noteq> 3 then Some (Inr (Usage, fs))
            else map_option (\<lambda>x. res_bind x (\<lambda>a. Inr (Listed [a], fs))) (list_snapshots fs (arg 2)))
         else if argv ! 1 = cmd_rebase then
           (if argc \<noteq> 4 then Some (Inr (Usage, fs)) else ran (Some (update_base_image fs (arg 2) (arg 3))))
         else if argv ! 1 = cmd_snapshot then
           (if argc \<noteq> 3 then Some (Inr (Usage, fs)) else ran (snapshot fs (arg 2)))
         else if argv ! 1 = cmd_rollback then
           (if argc \<noteq> 4 then Some (Inr (Usage, fs)) else img_rollback fs (arg 2) (atoi (argv ! 3)))
         else Some (Inr (Fell_through, fs)))"

section \<open>Rolling back\<close>

definition truncated :: "int \<Rightarrow> pm_file \<Rightarrow> pm_file" where
  "truncated e f = f\<lparr>bytes := (\<lambda>x. if x < e then bytes f x else 0), st_size := e\<rparr>"

lemma ftruncate_ok: "0 \<le> e \<Longrightarrow> e \<le> fs_limit f \<Longrightarrow> ftruncate e f = (0, truncated e f)"
  by (simp add: ftruncate_def truncated_def)

lemma super_end_layer:
  assumes "layer_at f off bs mb es" "wf_bs bs" "wf_file f" "0 \<le> off" "layer_end off bs (int (length es)) \<le> st_size f"
  shows "super_end f (super_of fdn off bs mb (int (length es))) = layer_end off bs (int (length es))"
    "backed f (pm_top (active_meta (super_of fdn off bs mb (int (length es)))))"
proof -
  let ?n = "int (length es)" and ?m = "mps_of bs"
  have m: "0 < ?m" using mps_ge [OF assms(2)] by simp
  have g: "0 \<le> seg_of ?m ?n" using seg_of_nonneg [of ?n ?m] m by simp
  have c: "mt_counter f (meta_at off bs (seg_of ?m ?n)) = act_of ?m ?n" using assms(1) g by (simp add: layer_at_def)
  have "0 \<le> layer_end off bs ?n" "layer_end off bs ?n < 18446744073709551616"
    using layer_end_ge(1) [OF assms(2), of ?n off] assms(3-5) wf_bsD(1) [OF assms(2)] by (simp_all add: wf_file_def)
  then show "super_end f (super_of fdn off bs mb ?n) = layer_end off bs ?n"
    by (simp add: super_end_def super_of_def active_of_def Let_def c layer_end_act ulong_id)
  show "backed f (pm_top (active_meta (super_of fdn off bs mb ?n)))"
    using meta_at_range [OF assms(2) g, of "length es" off] assms(4,5) wf_bsD(1) [OF assms(2)]
    by (intro backed_less) (simp_all add: super_of_def active_of_def Let_def)
qed

text \<open>The loop finds layer number \<open>k\<close>, truncates the file behind it and stops there.\<close>

lemma rollback_from_hit:
  assumes "image_at f off bs mb (ls @ es # ls')" "wf_bs bs" "wf_file f" "0 \<le> off" "off mod 4096 = 0"
    and "no + int (length ls) + 1 = k" "0 \<le> no" "k < 2147483648"
  defines "e \<equiv> image_end off bs (ls @ [es])"
  shows "rollback_from f (super_of fdn off bs mb (int (length (hd (ls @ [es]))))) no k = Some (Inr (truncated e f))"
  using assms(1,4,5,6,7) unfolding e_def
proof (induction ls arbitrary: off no)
  case Nil
  let ?e = "layer_end off bs (int (length es))" and ?s = "super_of fdn off bs mb (int (length es))"
  have at: "layer_at f off bs mb es" "?e \<le> st_size f" using Nil.prems(1) by simp_all
  note se = super_end_layer [OF at(1) assms(2,3) Nil.prems(2) at(2), of fdn]
  have e0: "0 \<le> ?e" "?e mod 4096 = 0" using layer_end_wf [OF assms(2) Nil.prems(2,3)] by auto
  have tr: "ftruncate ?e f = (0, truncated ?e f)"
    using e0 at(2) assms(3) by (intro ftruncate_ok) (auto simp: wf_file_def)
  have "layer_at (truncated ?e f) off bs mb es"
    by (rule layer_at_frame [OF at(1) assms(2)]) (simp add: truncated_def)
  moreover have "wf_file (truncated ?e f)" using assms(3) at(2) e0 by (auto simp: wf_file_def truncated_def)
  ultimately have "read_next_super (truncated ?e f) ?s = Inr None"
    using read_next_super_layer [of "truncated ?e f" off bs mb es "[]" fdn] assms(2) Nil.prems(2,3)
    by (simp add: no_super_def truncated_def)
  then show ?case
    using Nil.prems(4,5) assms(8) se tr by (simp add: rollback_from.simps Let_def cint_id)
next
  case (Cons es0 ls)
  let ?e = "layer_end off bs (int (length es0))" and ?s = "super_of fdn off bs mb (int (length es0))"
  have at: "layer_at f off bs mb es0" "?e \<le> st_size f" "image_at f ?e bs mb (ls @ es # ls')" using Cons.prems(1) by simp_all
  have e0: "0 \<le> ?e" "?e mod 4096 = 0" using layer_end_wf [OF assms(2) Cons.prems(2,3)] by auto
  have nx: "read_next_super f ?s = Inr (Some (super_of fdn ?e bs mb (int (length (hd (ls @ [es]))))))"
    using read_next_super_layer [OF at(1) assms(2,3) Cons.prems(2,3) at(2,3), of fdn] by (cases ls) auto
  have c: "cint (no + 1) = no + 1" "no + 1 \<noteq> k" using Cons.prems(4,5) assms(8) by (auto simp: cint_id)
  have "rollback_from f (super_of fdn ?e bs mb (int (length (hd (ls @ [es]))))) (no + 1) k =
      Some (Inr (truncated (image_end ?e bs (ls @ [es])) f))"
    using Cons.prems e0 at(3) by (intro Cons.IH) simp_all
  then show ?case
    using super_end_layer(2) [OF at(1) assms(2,3) Cons.prems(2) at(2), of fdn] nx c
    by (simp add: rollback_from.simps [of f ?s] Let_def)
qed

text \<open>A number that is not that of a layer changes nothing.\<close>

lemma rollback_from_miss:
  assumes "image_at f off bs mb (es # ls)" "wf_bs bs" "wf_file f" "0 \<le> off" "off mod 4096 = 0"
    and "k < no + 1 \<or> no + 1 + int (length ls) < k" "0 \<le> no" "no + 1 + int (length ls) < 2147483648"
  shows "rollback_from f (super_of fdn off bs mb (int (length es))) no k = Some (Inr f)"
  using assms(1,4-)
proof (induction ls arbitrary: off no es)
  case Nil
  have "read_next_super f (super_of fdn off bs mb (int (length es))) = Inr None"
    using Nil.prems assms(2,3) read_next_super_layer [of f off bs mb es "[]" fdn] by simp
  then show ?case
    using Nil.prems super_end_layer(2) [of f off bs mb es fdn] assms(2,3)
    by (auto simp: rollback_from.simps Let_def cint_id)
next
  case (Cons es' ls)
  let ?e = "layer_end off bs (int (length es))" and ?s = "super_of fdn off bs mb (int (length es))"
  have at: "layer_at f off bs mb es" "?e \<le> st_size f" "image_at f ?e bs mb (es' # ls)" using Cons.prems(1) by simp_all
  have e0: "0 \<le> ?e" "?e mod 4096 = 0" using layer_end_wf [OF assms(2) Cons.prems(2,3)] by auto
  have nx: "read_next_super f ?s = Inr (Some (super_of fdn ?e bs mb (int (length es'))))"
    using read_next_super_layer [OF at(1) assms(2,3) Cons.prems(2,3) at(2,3), of fdn] by simp
  have c: "cint (no + 1) = no + 1" "no + 1 \<noteq> k" using Cons.prems by (auto simp: cint_id)
  have "rollback_from f (super_of fdn ?e bs mb (int (length es'))) (no + 1) k = Some (Inr f)"
    using Cons.prems e0 at(3) by (intro Cons.IH) auto
  then show ?case
    using super_end_layer(2) [OF at(1) assms(2,3) Cons.prems(2) at(2), of fdn] nx c
    by (simp add: rollback_from.simps [of f ?s] Let_def)
qed

lemma image_end_take_le:
  "image_at f off bs mb ls \<Longrightarrow> 0 < k \<Longrightarrow> k \<le> length ls \<Longrightarrow> image_end off bs (take k ls) \<le> st_size f"
proof (induction ls arbitrary: off k)
  case (Cons es ls)
  then show ?case by (cases k; cases "k - 1") auto
qed simp

lemma truncated_image:
  assumes r: "image_rel f bs mb ls" and k: "0 < k" "k \<le> length ls"
  defines "e \<equiv> image_end 0 bs (take k ls)"
  shows "image_rel (truncated e f) bs mb (take k ls)"
proof -
  have w: "wf_bs bs" "wf_file f" "image_at f 0 bs mb (take k ls @ drop k ls)" using r by (simp_all add: image_rel_def)
  have e: "e \<le> st_size f" "0 \<le> e"
    using image_end_take_le [of f 0 bs mb ls k] w(3) k image_end_ge [OF w(1), of 0 "take k ls"] by (simp_all add: e_def)
  have "image_at (truncated e f) 0 bs mb (take k ls @ [])"
  proof (rule image_at_replace [OF w(3,1)])
    show "bytes f x = bytes (truncated e f) x" if "x < image_end 0 bs (take k ls)" for x
      using that by (simp add: truncated_def e_def)
  qed (simp_all add: truncated_def e_def no_super_def)
  moreover have "wf_file (truncated e f)" using w(2) e by (auto simp: wf_file_def truncated_def)
  ultimately show ?thesis using r k by (auto simp: image_rel_def truncated_def e_def)
qed

lemma rollback_image:
  assumes r: "image_rel f bs mb ls" and k: "1 \<le> k" "k \<le> int (length ls)" "k < 2147483648"
    and fs: "fs (c_string name) = Some f"
  shows "rollback_snapshot fs name k =
    Some (Inr (0, fs(c_string name \<mapsto> truncated (image_end 0 bs (take (nat k) ls)) f)))"
proof -
  let ?n = "c_string name"
  define i where "i = nat k - 1"
  have i: "i < length ls" "nat k = Suc i" "int i + 1 = k" using k by (auto simp: i_def nat_less_iff)
  have ls: "ls = take i ls @ ls ! i # drop (Suc i) ls" using i(1) by (rule id_take_nth_drop)
  have tk: "take (nat k) ls = take i ls @ [ls ! i]" using i by (simp add: take_Suc_conv_app_nth)
  have w: "wf_bs bs" "wf_file f" "image_at f 0 bs mb (take i ls @ ls ! i # drop (Suc i) ls)" "ls \<noteq> []"
    using r ls by (simp_all add: image_rel_def)
  have hd: "hd (take i ls @ [ls ! i]) = hd ls" using i(1) by (cases ls; cases i) simp_all
  have rf: "read_first_super f ?n 0 = Inr (Some (super_of ?n 0 bs mb (int (length (hd (take i ls @ [ls ! i]))))))"
    using read_first_super_image [OF r, of ?n] w(4) unfolding hd by (cases ls) simp_all
  have "rollback_from f (super_of ?n 0 bs mb (int (length (hd (take i ls @ [ls ! i]))))) 0 k =
      Some (Inr (truncated (image_end 0 bs (take i ls @ [ls ! i])) f))"
    by (rule rollback_from_hit [OF w(3,1,2)]) (use i k in simp_all)
  then show ?thesis using rf fs by (simp add: rollback_snapshot_def Let_def tk)
qed

section \<open>Snapshots\<close>

lemma snapshot_image:
  assumes r: "image_rel f bs mb ls" and lim: "image_end 0 bs ls + 2 * bs \<le> fs_limit f" and fs: "fs (c_string name) = Some f"
  shows "\<exists>g. snapshot fs name = Some (Inr (0, fs(c_string name \<mapsto> g))) \<and> image_rel g bs mb (ls @ [[]])
    \<and> (\<forall>x. x < image_end 0 bs ls \<longrightarrow> bytes g x = bytes f x)"
proof -
  let ?n = "c_string name"
  obtain s where s: "read_first_super f ?n 0 = Inr (Some s)" "block_size s = bs" "max_block_num s = mb"
  proof -
    have "ls \<noteq> []" using r by (simp add: image_rel_def)
    then show thesis using read_first_super_image [OF r, of ?n] that
      by (cases ls) (auto simp: super_of_def Let_def)
  qed
  note n = new_super_image [OF r lim]
  have "snapshot fs name = Some (Inr (0, fs(?n \<mapsto> new_super_file f bs mb (image_end 0 bs ls))))"
    using s n(1) [of ?n] fs by (simp add: snapshot_def Let_def)
  then show ?thesis using n(2,3) by blast
qed

section \<open>Base image names\<close>

lemma takeWhile_take_nonzero: "takeWhile P (take n xs) = take n (takeWhile P xs)"
  by (induction xs arbitrary: n) (auto simp: take_Cons' split: if_splits)

lemma takeWhile_prefix:
  "length (takeWhile P xs) < length xs \<Longrightarrow> takeWhile P (xs @ ys) = takeWhile P xs"
  by (induction xs) auto

lemma name_after_write:
  assumes "length (c_string buf) < 48" "48 \<le> length buf" "p + 64 \<le> st_size f"
  shows "base_image_name (pm_store (p + 16) (take 48 buf) f) p = c_string buf"
proof -
  let ?g = "pm_store (p + 16) (take 48 buf) f"
  have l: "length (take 48 buf) = 48" using assms(2) by simp
  have pk: "peek (bytes ?g) (p + 16) 4080 = take 48 buf @ peek (bytes ?g) (p + 64) 4032"
  proof (rule nth_equalityI)
    show "length (peek (bytes ?g) (p + 16) 4080) = length (take 48 buf @ peek (bytes ?g) (p + 64) 4032)"
      using l by simp
    fix i assume "i < length (peek (bytes ?g) (p + 16) 4080)"
    then show "peek (bytes ?g) (p + 16) 4080 ! i = (take 48 buf @ peek (bytes ?g) (p + 64) 4032) ! i"
      using l assms(3) by (auto simp: peek_def nth_append pm_store_def poke_def algebra_simps)
  qed
  have t: "takeWhile (\<lambda>c. c \<noteq> 0) (take 48 buf) = c_string buf"
    using assms(1) by (simp add: takeWhile_take_nonzero c_string_def)
  then have "takeWhile (\<lambda>c. c \<noteq> 0) (take 48 buf @ peek (bytes ?g) (p + 64) 4032) = c_string buf"
    using takeWhile_prefix [of "\<lambda>c. c \<noteq> 0" "take 48 buf"] assms(1) l by simp
  then show ?thesis by (simp add: base_image_name_def pk)
qed

lemma name_write_image:
  assumes r: "image_rel f bs mb ls" and l: "length d \<le> 48"
  shows "image_rel (pm_fence (pm_flush a (pm_store 16 d f))) bs mb ls"
proof -
  let ?g = "pm_store 16 d f"
  have w: "wf_bs bs" "wf_file f" "image_at f 0 bs mb ls" "ls \<noteq> []" using r by (simp_all add: image_rel_def)
  obtain es ls' where ls: "ls = es # ls'" using w(4) by (cases ls) auto
  let ?e = "layer_end 0 bs (int (length es))"
  have at: "layer_at f 0 bs mb es" "?e \<le> st_size f" "image_at f ?e bs mb ls'" using w(3) by (simp_all add: ls)
  have bs: "4096 \<le> bs" by (rule wf_bsD(1) [OF w(1)])
  have e: "2 * bs \<le> ?e" using layer_end_ge(1) [OF w(1), of "int (length es)" 0] by simp
  have b: "bytes ?g x = bytes f x" if "x < 16 \<or> 64 \<le> x" for x
    using that l by (auto simp: pm_store_def poke_def)
  have m: "0 < mps_of bs" using mps_ge [OF w(1)] by simp
  have lg: "layer_at ?g 0 bs mb es"
    using at(1)
  proof (rule layer_at_cells)
    show "bytes f x = bytes ?g x" if "0 \<le> i" "meta_at 0 bs i \<le> x" for i x
    proof -
      have "bs \<le> meta_at 0 bs i" using meta_at_mono [OF w(1) that(1), of 0] by (simp add: meta_at_def)
      then show ?thesis using that bs b [of x] by simp
    qed
    show "bytes f x = bytes ?g x" if "entry_at 0 bs (int k) \<le> x" for k x
    proof -
      have "0 \<le> int k div mps_of bs" using m by (simp add: pos_imp_zdiv_nonneg_iff)
      then have "meta_at 0 bs 0 \<le> meta_at 0 bs (int k div mps_of bs)" by (rule meta_at_mono [OF w(1)])
      moreover have "meta_at 0 bs 0 = bs" by (simp add: meta_at_def)
      ultimately have "64 \<le> x" using entry_in_meta(1) [OF w(1), of 0 "int k"] that bs by linarith
      then show ?thesis by (simp add: b)
    qed
  qed (simp_all add: b)
  have "image_at ?g ?e bs mb ls'"
    using image_at_replace [of f ?e bs mb ls' "[]" ?g] at(3) w(1) b bs e
  proof -
    have "image_at h off bs mb ks \<Longrightarrow> 64 \<le> off \<Longrightarrow> (\<And>x. 64 \<le> x \<Longrightarrow> bytes h' x = bytes h x) \<Longrightarrow> st_size h' = st_size h \<Longrightarrow>
        image_at h' off bs mb ks" for h h' off ks
    proof (induction ks arbitrary: off)
      case Nil
      then show ?case by (auto simp: no_super_def sl_magic_def peek_def)
    next
      case (Cons ke ks)
      have "off \<le> layer_end off bs (int (length ke))" using layer_end_ge(1) [OF w(1), of "int (length ke)" off] bs by simp
      moreover have "layer_at h' off bs mb ke" using Cons.prems by (intro layer_at_frame [of h off bs mb ke h', OF _ w(1)]) auto
      ultimately show ?case using Cons by simp
    qed
    from this [OF at(3), of ?g] show ?thesis using e bs b by simp
  qed
  with lg have "image_at ?g 0 bs mb ls" using at(2) by (simp add: ls)
  moreover have "wf_file ?g" using w(2) by (rule wf_pm_store)
  moreover have "bytes ?g x = 0" if "image_end 0 bs ls \<le> x" for x
    using r that b [of x] e bs image_end_ge [OF w(1), of ?e ls'] by (auto simp: image_rel_def ls)
  ultimately have "image_rel ?g bs mb ls" using r by (simp add: image_rel_def)
  then show ?thesis by (rule image_rel_cong) simp_all
qed

lemma new_image_rel:
  assumes f: "fs (c_string name) = None" and lim: "2 * (bs * 1024) \<le> lim" "lim < 9223372036854775808"
    and b: "wf_bs (bs * 1024)" and mx: "0 \<le> max_size * 1024 * 1024" "max_size * 1024 * 1024 div bs < 2147483647"
      "max_size * 1024 * 1024 < 18446744073709551616"
    and base: "case base of None \<Rightarrow> True | Some buf \<Rightarrow>
      c_string buf \<noteq> c_string name \<and> length (c_string buf) < 48 \<and> 48 \<le> length buf
      \<and> (\<exists>g so. fs (c_string buf) = Some g \<and> read_first_super g (c_string buf) 0 = Inr so)"
  shows "\<exists>g. new_image lim fs name bs max_size base = Some (Inr (0, fs(c_string name \<mapsto> g)))
    \<and> image_rel g (bs * 1024) (max_size * 1024 * 1024 div bs) [[]]
    \<and> base_image_name g 0 = (case base of None \<Rightarrow> [] | Some buf \<Rightarrow> c_string buf)"
proof -
  let ?n = "c_string name" and ?e = "empty_file lim" and ?b = "bs * 1024" and ?m = "max_size * 1024 * 1024 div bs"
  have bs: "4 \<le> bs" "bs < 1048576" using wf_bsD [OF b] by simp_all
  have mb: "0 \<le> ?m" using mx(1) bs by (simp add: pos_imp_zdiv_nonneg_iff)
  have c: "cint ?b = ?b" "cint (ulong (max_size * 1024 * 1024) div ulong bs) = ?m"
    using bs mx mb by (simp_all add: cint_id ulong_id)
  have we: "wf_file ?e" "st_size ?e = 0" "?b * 2 \<le> fs_limit ?e"
    using lim bs wf_empty_file [of lim] by (simp_all add: empty_file_def)
  note ns = new_super_empty [OF b mb mx(2) we(1,2)]
  let ?f = "new_super_file ?e ?b ?m 0"
  have nsr: "new_super ?e ?n ?b ?m = Some (Inr (?f, Some (super_of ?n 0 ?b ?m 0)))" "image_rel ?f ?b ?m [[]]"
    using ns(1) [of ?n] ns(2) we(3) by (simp_all add: mult.commute)
  have sz: "64 \<le> st_size ?f"
    using nsr(2) bs by (simp add: image_rel_def layer_end_0)
  have rf: "read_first_super ?e ?n 0 = Inr None" by (simp add: read_first_super_def empty_file_def CL_SIZE_def)
  have cb: "check_base (fs(?n \<mapsto> ?e)) base = Inr ()"
    using base by (cases base) (auto simp: check_base_def)
  show ?thesis
  proof (cases base)
    case None
    let ?g = "pm_fence (pm_flush (0 + 16) (pm_store (0 + 16) [0] ?f))"
    have "base_image_name ?g 0 = []" using sz by (intro base_image_name_Nil) (simp add: pm_store_def poke_def)
    moreover have "image_rel ?g ?b ?m [[]]" using name_write_image [OF nsr(2), of "[0]" 16] by simp
    moreover have "new_image lim fs name bs max_size base = Some (Inr (0, fs(?n \<mapsto> ?g)))"
      unfolding new_image_def Let_def c using None f rf cb nsr(1) bs by (simp add: open_creat_def super_of_def Let_def)
    ultimately show ?thesis using None by auto
  next
    case (Some buf)
    let ?g = "pm_fence (pm_flush (0 + 16) (pm_store (0 + 16) (take 48 buf) ?f))"
    have "base_image_name ?g 0 = base_image_name (pm_store (0 + 16) (take 48 buf) ?f) 0"
      by (simp add: base_image_name_def)
    also have "\<dots> = c_string buf" using base Some sz by (intro name_after_write) simp_all
    finally have nm: "base_image_name ?g 0 = c_string buf" .
    moreover have "image_rel ?g ?b ?m [[]]" using name_write_image [OF nsr(2), of "take 48 buf" 16] by simp
    moreover have "new_image lim fs name bs max_size base = Some (Inr (0, fs(?n \<mapsto> ?g)))"
      unfolding new_image_def Let_def c
      using Some f rf cb nsr(1) bs base by (simp add: open_creat_def super_of_def Let_def write_base_name_def)
    ultimately show ?thesis using Some by auto
  qed
qed

section \<open>Listing an image\<close>

lemma meta_counts_ok:
  assumes l: "layer_super f s off bs mb es" and "\<And>i. i \<in> set is \<Longrightarrow> int i \<le> seg_of (mps_of bs) (int (length es))"
  shows "\<exists>r. meta_counts f s is = Inr r"
  using assms(2)
proof (induction "is")
  case (Cons i "is")
  note d = layer_superD [OF l]
  have i: "int i \<le> seg_of (mps_of bs) (int (length es))" using Cons.prems by simp
  also have "\<dots> \<le> int (length es)"
  proof -
    have g: "0 \<le> seg_of (mps_of bs) (int (length es))" using seg_of_nonneg [OF _ d(13)] by simp
    then have "seg_of (mps_of bs) (int (length es)) * 1 \<le> seg_of (mps_of bs) (int (length es)) * mps_of bs"
      using d(13) by (intro mult_left_mono) simp_all
    then show ?thesis using seg_act [of "mps_of bs" "int (length es)"] act_of_bounds(1) [OF _ d(13), of "int (length es)"] by simp
  qed
  also have "\<dots> \<le> mb" using d(6) by (simp add: layer_at_def)
  finally have "cint (int i) = int i" using d(5) by (intro cint_id) simp_all
  then obtain m where "read_meta f s (cint (int i)) = Inr m" using read_meta_seg [OF l _ i] by simp
  then show ?case using Cons by auto
qed simp

lemma super_info_ok:
  assumes l: "layer_super f s off bs mb es"
  shows "\<exists>r. super_info f s no = Inr r \<and> si_no r = no \<and> si_super r = s \<and> si_off r = off
    \<and> si_counter r = act_of (mps_of bs) (int (length es))"
proof -
  note d = layer_superD [OF l]
  have g: "0 \<le> seg_of (mps_of bs) (int (length es))" using seg_of_nonneg [OF _ d(13)] by simp
  have "\<exists>r. meta_counts f s [0..<Suc (nat (ulong (active_meta_num s)))] = Inr r"
  proof (rule meta_counts_ok [OF l])
    fix i assume "i \<in> set [0..<Suc (nat (ulong (active_meta_num s)))]"
    then have "i \<le> nat (ulong (active_meta_num s))" by auto
    then have "int i \<le> ulong (active_meta_num s)" by (simp add: le_nat_iff)
    also have "\<dots> \<le> active_meta_num s" using g by (simp add: ulong_def d(11) zmod_le_nonneg_dividend)
    finally show "int i \<le> seg_of (mps_of bs) (int (length es))" by (simp add: d(11))
  qed
  moreover have "mt_counter f (pm_top (active_meta s)) = act_of (mps_of bs) (int (length es))"
    using d(6,12) g by (simp add: layer_at_def)
  ultimately show ?thesis by (auto simp: super_info_def d(8))
qed

lemma list_from_image:
  assumes "image_at f off bs mb (es # ls)" "wf_bs bs" "wf_file f" "0 \<le> off" "off mod 4096 = 0" "mb < 2147483647"
  shows "\<exists>is. list_from f (super_of fdn off bs mb (int (length es))) no = Some (Inr is)
    \<and> map si_super is = supers_of fdn off bs mb (es # ls)"
  using assms(1,4,5)
proof (induction ls arbitrary: off es no)
  case Nil
  have nx: "read_next_super f (super_of fdn off bs mb (int (length es))) = Inr None"
    using Nil assms(2,3) read_next_super_layer [of f off bs mb es "[]" fdn] by simp
  have "layer_super f (super_of fdn off bs mb (int (length es))) off bs mb es"
    using Nil assms by (intro super_of_layer) simp_all
  from super_info_ok [OF this, of "cint (no + 1)"] nx show ?case by (auto simp: list_from.simps)
next
  case (Cons es' ls)
  let ?e = "layer_end off bs (int (length es))" and ?s = "super_of fdn off bs mb (int (length es))"
  have at: "layer_at f off bs mb es" "?e \<le> st_size f" "image_at f ?e bs mb (es' # ls)" using Cons.prems(1) by simp_all
  have e0: "0 \<le> ?e" "?e mod 4096 = 0" using layer_end_wf [OF assms(2) Cons.prems(2,3)] by auto
  have nx: "read_next_super f ?s = Inr (Some (super_of fdn ?e bs mb (int (length es'))))"
    using read_next_super_layer [OF at(1) assms(2,3) Cons.prems(2,3) at(2,3), of fdn] by simp
  have ls: "layer_super f ?s off bs mb es"
    by (rule super_of_layer(1) [OF at(1,2) assms(2,3) Cons.prems(2,3) assms(6)])
  obtain r where r: "super_info f ?s (cint (no + 1)) = Inr r" "si_super r = ?s" using super_info_ok [OF ls] by blast
  from Cons.IH [OF at(3) e0, of "cint (no + 1)"] nx r show ?case
    by (auto simp: list_from.simps [of f ?s])
qed

text \<open>What \<open>print_struct\<close> prints for the entries of a segment.\<close>

lemma struct_segment_offsets:
  assumes l: "layer_super f s off bs mb es" and i: "int i \<le> seg_of (mps_of bs) (int (length es))" "int i < 2147483648"
    and r: "struct_segment f s i = Inr ps" and p: "(va, o') \<in> set ps"
  shows "\<exists>j. o' = ulong (bs * (1 + (1 + mps_of bs) * int i) + bs * int j) \<and> 0 \<le> int j \<and> int j < mps_of bs"
proof -
  note d = layer_superD [OF l]
  have rm: "read_meta f s (cint (int i)) = Inr \<lparr>pm_top = meta_at off bs (int i), pm_btm = meta_at off bs (int i) + CL_SIZE,
      counter = seg_count (mps_of bs) (int (length es)) (int i)\<rparr>"
    using read_meta_seg [OF l _ i(1)] i(2) by (simp add: cint_id)
  note sc = seg_count_entries [OF d(13) _ i(1)]
  have u: "ulong (seg_count (mps_of bs) (int (length es)) (int i)) = seg_count (mps_of bs) (int (length es)) (int i)"
    using sc(1,2) wf_bsD(2) [OF d(2)] by (intro ulong_id) (simp_all add: mps_of_def)
  have "ulong (ulong x + y) = ulong (x + y)" for x y by (simp add: ulong_def mod_simps)
  then show ?thesis
    using r p sc by (force simp: struct_segment_def rm u d)
qed

section \<open>Properties\<close>

text \<open>\<open>new_image\<close> on a name that does not exist writes an image with one empty layer, the asked block
  size, and the block limit of the asked size; the base image name reads back as it was given.\<close>

theorem new_image_creates:
  assumes "fs (c_string name) = None" and "2 * (bs * 1024) \<le> lim" "lim < 9223372036854775808"
    and "wf_bs (bs * 1024)" and "0 \<le> max_size * 1024 * 1024" "max_size * 1024 * 1024 div bs < 2147483647"
      "max_size * 1024 * 1024 < 18446744073709551616"
    and "case base of None \<Rightarrow> True | Some buf \<Rightarrow>
      c_string buf \<noteq> c_string name \<and> length (c_string buf) < 48 \<and> 48 \<le> length buf
      \<and> (\<exists>g so. fs (c_string buf) = Some g \<and> read_first_super g (c_string buf) 0 = Inr so)"
  shows "\<exists>g. new_image lim fs name bs max_size base = Some (Inr (0, fs(c_string name \<mapsto> g)))
    \<and> image_rel g (bs * 1024) (max_size * 1024 * 1024 div bs) [[]]
    \<and> base_image_name g 0 = (case base of None \<Rightarrow> [] | Some buf \<Rightarrow> c_string buf)"
  by (rule new_image_rel [OF assms])

theorem new_image_creates_witness:
  "\<exists>g. new_image sample_limit [[98] \<mapsto> empty_file sample_limit] [97, 0] 64 1 (Some (98 # replicate 60 0)) =
      Some (Inr (0, [[98] \<mapsto> empty_file sample_limit, [97] \<mapsto> g]))
    \<and> image_rel g 65536 16384 [[]] \<and> base_image_name g 0 = [98]"
proof -
  have c: "c_string [97, 0] = [97]" "c_string (98 # replicate 60 0) = [98]" by (simp_all add: c_string_def takeWhile_replicate)
  have r: "\<exists>so. read_first_super (empty_file sample_limit) [98] 0 = Inr so"
    by (simp add: read_first_super_def empty_file_def CL_SIZE_def)
  show ?thesis
    using new_image_creates [of "[[98] \<mapsto> empty_file sample_limit]" "[97, 0]" 64 sample_limit 1 "Some (98 # replicate 60 0)"] r
    by (simp add: c sample_limit_def wf_bs_def)
qed

text \<open>A snapshot appends an empty layer and changes no byte of the layers before it.\<close>

theorem snapshot_appends_layer:
  assumes "image_rel f bs mb ls" and "image_end 0 bs ls + 2 * bs \<le> fs_limit f" and "fs (c_string name) = Some f"
  shows "\<exists>g. snapshot fs name = Some (Inr (0, fs(c_string name \<mapsto> g))) \<and> image_rel g bs mb (ls @ [[]])
    \<and> (\<forall>x. x < image_end 0 bs ls \<longrightarrow> bytes g x = bytes f x)"
  by (rule snapshot_image [where fs = fs and name = name, OF assms])

lemma fresh_image_limit: "fs_limit fresh_image = sample_limit"
  by (simp add: fresh_image_def new_super_file_def write_super_def write_meta_top_def empty_file_def fallocate_def)

theorem snapshot_appends_layer_witness:
  "\<exists>g. snapshot [[97] \<mapsto> fresh_image] [97, 0] = Some (Inr (0, [[97] \<mapsto> g])) \<and> image_rel g 4096 10 [[], []]"
  using snapshot_appends_layer [OF fresh_image_rel, of "[[97] \<mapsto> fresh_image]" "[97, 0]"]
  by (auto simp: fresh_image_limit sample_limit_def layer_end_0 c_string_def)

text \<open>C13: Rolling back to layer number \<open>k\<close> keeps exactly the first \<open>k\<close> layers, byte for byte; what lies
  behind them is cut off.\<close>

theorem rollback_keeps_prefix:
  assumes "image_rel f bs mb ls" and "1 \<le> k" "k \<le> int (length ls)" "k < 2147483648" and "fs (c_string name) = Some f"
  shows "\<exists>g. rollback_snapshot fs name k = Some (Inr (0, fs(c_string name \<mapsto> g)))
    \<and> image_rel g bs mb (take (nat k) ls) \<and> st_size g = image_end 0 bs (take (nat k) ls)
    \<and> (\<forall>x. x < image_end 0 bs (take (nat k) ls) \<longrightarrow> bytes g x = bytes f x)"
  using rollback_image [where fs = fs and name = name, OF assms] truncated_image [OF assms(1), of "nat k"] assms(2,3)
  by (intro exI [of _ "truncated (image_end 0 bs (take (nat k) ls)) f"]) (auto simp: truncated_def nat_le_iff)

theorem rollback_keeps_prefix_witness:
  "\<exists>g. rollback_snapshot [[97] \<mapsto> fresh_image] [97, 0] 1 = Some (Inr (0, [[97] \<mapsto> g])) \<and> image_rel g 4096 10 [[]]"
  using rollback_keeps_prefix [OF fresh_image_rel, of 1 "[[97] \<mapsto> fresh_image]" "[97, 0]"]
  by (auto simp: c_string_def)

text \<open>C24: Round trip: a snapshot followed by a rollback to the layer that was last before it gives back the
  image, every byte of it.\<close>

theorem snapshot_then_rollback:
  assumes "image_rel f bs mb ls" and "image_end 0 bs ls + 2 * bs \<le> fs_limit f" and "fs (c_string name) = Some f"
    and "length ls < 2147483648"
  shows "\<exists>fs1 g. snapshot fs name = Some (Inr (0, fs1))
    \<and> rollback_snapshot fs1 name (int (length ls)) = Some (Inr (0, fs(c_string name \<mapsto> g)))
    \<and> image_rel g bs mb ls \<and> bytes g = bytes f"
proof -
  obtain g where g: "snapshot fs name = Some (Inr (0, fs(c_string name \<mapsto> g)))" "image_rel g bs mb (ls @ [[]])"
      "\<And>x. x < image_end 0 bs ls \<Longrightarrow> bytes g x = bytes f x"
    using snapshot_image [where fs = fs and name = name, OF assms(1-3)] by blast
  have ne: "0 < length ls" using assms(1) by (simp add: image_rel_def)
  let ?h = "truncated (image_end 0 bs ls) g"
  have "rollback_snapshot (fs(c_string name \<mapsto> g)) name (int (length ls)) =
      Some (Inr (0, fs(c_string name \<mapsto> g, c_string name \<mapsto> ?h)))"
    using rollback_image [OF g(2), of "int (length ls)" "fs(c_string name \<mapsto> g)" name] ne assms(4) by simp
  moreover have "image_rel ?h bs mb ls" using truncated_image [OF g(2), of "length ls"] ne by simp
  moreover have "bytes ?h = bytes f"
    using g(3) assms(1) by (auto simp: truncated_def fun_eq_iff image_rel_def)
  ultimately show ?thesis using g(1) by auto
qed

theorem snapshot_then_rollback_witness:
  "\<exists>fs1 g. snapshot [[97] \<mapsto> fresh_image] [97, 0] = Some (Inr (0, fs1))
    \<and> rollback_snapshot fs1 [97, 0] 1 = Some (Inr (0, [[97] \<mapsto> g])) \<and> bytes g = bytes fresh_image"
  using snapshot_then_rollback [OF fresh_image_rel, of "[[97] \<mapsto> fresh_image]" "[97, 0]"]
  by (auto simp: fresh_image_limit sample_limit_def layer_end_0 c_string_def)

text \<open>Rebasing changes the name of the base image and nothing else: the layers stay, and the name
  reads back as it was given.\<close>

theorem update_base_image_renames:
  assumes "image_rel f bs mb ls" and "fs (c_string name) = Some f" and "length (c_string base) < 48" "48 \<le> length base"
  shows "\<exists>g. update_base_image fs name base = Inr (0, fs(c_string name \<mapsto> g)) \<and> image_rel g bs mb ls
    \<and> base_image_name g 0 = c_string base"
proof -
  let ?n = "c_string name" and ?g = "pm_fence (pm_flush 16 (pm_store 16 (take 48 base) f))"
  have ne: "ls \<noteq> []" and w: "wf_bs bs" "image_at f 0 bs mb ls" using assms(1) by (simp_all add: image_rel_def)
  then have rf: "read_first_super f ?n 0 = Inr (Some (super_of ?n 0 bs mb (int (length (hd ls)))))"
    using read_first_super_image [OF assms(1), of ?n] by (cases ls) simp_all
  have "64 \<le> st_size f"
    using image_at_end_le [OF w(2) ne] image_end_ge [OF w(1)] w ne layer_end_ge(1) [OF w(1), of "int (length (hd ls))" 0] wf_bsD(1) [OF w(1)]
    by (cases ls) auto
  then have "base_image_name (pm_store (0 + 16) (take 48 base) f) 0 = c_string base"
    using assms(3,4) by (intro name_after_write) simp_all
  then have "base_image_name ?g 0 = c_string base" by (simp add: base_image_name_def)
  moreover have "image_rel ?g bs mb ls" using name_write_image [OF assms(1), of "take 48 base" 16] by simp
  moreover have "update_base_image fs name base = Inr (0, fs(?n \<mapsto> ?g))"
    using assms(2,4) rf by (simp add: update_base_image_def Let_def write_base_name_def super_of_def)
  ultimately show ?thesis by blast
qed

theorem update_base_image_renames_witness:
  "\<exists>g. update_base_image [[97] \<mapsto> fresh_image] [97, 0] (98 # replicate 60 0) = Inr (0, [[97] \<mapsto> g])
    \<and> image_rel g 4096 10 [[]] \<and> base_image_name g 0 = [98]"
  using update_base_image_renames [OF fresh_image_rel, of "[[97] \<mapsto> fresh_image]" "[97, 0]" "98 # replicate 60 0"]
  by (auto simp: c_string_def takeWhile_replicate)

text \<open>Listing an image visits every layer once, in order: one record per super block of the chain.\<close>

theorem list_snapshots_complete:
  assumes "image_rel f bs mb ls" and "fs (c_string name) = Some f"
  shows "\<exists>is. list_snapshots fs name = Some (Inr (0, is)) \<and> map si_super is = supers_of (c_string name) 0 bs mb ls"
proof -
  obtain es ls' where ls: "ls = es # ls'" using assms(1) by (cases ls) (auto simp: image_rel_def)
  have "\<exists>is. list_from f (super_of (c_string name) 0 bs mb (int (length es))) 0 = Some (Inr is)
      \<and> map si_super is = supers_of (c_string name) 0 bs mb (es # ls')"
    using assms(1) by (intro list_from_image) (simp_all add: image_rel_def ls)
  then show ?thesis
    using read_first_super_image [OF assms(1), of "c_string name"] assms(2) by (auto simp: list_snapshots_def Let_def ls)
qed

theorem list_snapshots_complete_witness:
  "\<exists>i. list_snapshots [[97] \<mapsto> fresh_image] [97, 0] = Some (Inr (0, [i])) \<and> si_super i = super_of [97] 0 4096 10 0"
  using list_snapshots_complete [OF fresh_image_rel, of "[[97] \<mapsto> fresh_image]" "[97, 0]"]
  by (auto simp: c_string_def)



text \<open>\<open>print_struct\<close> reports wrong file offsets: for every entry it prints an offset at least one block
  and the layer's own offset short of where \<open>fmmap\<close> finds the entry's data.\<close>

theorem print_struct_offset_wrong:
  assumes "layer_super f s off bs mb es" and "int i \<le> seg_of (mps_of bs) (int (length es))" "int i < 2147483648"
    and "struct_segment f s i = Inr ps" and "(va, o') \<in> set ps"
  shows "\<exists>j. 0 \<le> j \<and> j < mps_of bs \<and> o' = ulong (data_at off bs (int i * mps_of bs + j) - off - bs)"
proof -
  note d = layer_superD [OF assms(1)]
  obtain j where j: "o' = ulong (bs * (1 + (1 + mps_of bs) * int i) + bs * int j)" "int j < mps_of bs"
    using struct_segment_offsets [OF assms(1-5)] by blast
  have "data_at off bs (int i * mps_of bs + int j) - off - bs = bs * (1 + (1 + mps_of bs) * int i) + bs * int j"
    using seg_div [OF d(13), of "int j" "int i"] j(2) by (simp add: data_index algebra_simps)
  then show ?thesis using j by (intro exI [of _ "int j"]) simp
qed

theorem print_struct_offset_wrong_witness:
  "\<exists>f s va. struct_segment f s 0 = Inr [(va, 4096)] \<and> (\<exists>j. 0 \<le> j \<and> j < 504 \<and> 4096 = ulong (data_at 0 4096 j - 4096))
    \<and> data_at 0 4096 0 = 8192"
proof -
  obtain st :: alloc_state where w: "writable_rel st 4096 10 [] [vblock_num 4096 0]"
    using sample_writable [of 4096 "[0]" 10] by (auto simp: wf_bs_def layer_end_def seg_of_def sample_limit_def)
  note d = writable_relD [OF w]
  let ?f = "img st" and ?s = "super_of [] 0 4096 10 1"
  have at: "layer_at ?f 0 4096 10 [vblock_num 4096 0]" using d(1) by (simp add: image_rel_def)
  have l: "layer_super ?f ?s 0 4096 10 [vblock_num 4096 0]"
    using super_of_layer(1) [OF at, of "[]"] d by simp
  have rm: "read_meta ?f ?s 0 = Inr \<lparr>pm_top = meta_at 0 4096 0, pm_btm = meta_at 0 4096 0 + CL_SIZE, counter = 1\<rparr>"
    using read_meta_seg [OF l, of 0] by (simp add: seg_of_def seg_count_def act_of_def)
  have sup: "block_size ?s = 4096" "max_per_seg ?s = 504" by (simp_all add: super_of_def Let_def mps_of_def)
  obtain va where seg: "struct_segment ?f ?s 0 = Inr [(va, 4096)]"
    using rm by (simp add: struct_segment_def Let_def cint_def ulong_def sup)
  from print_struct_offset_wrong [OF l _ _ seg, of va 4096]
  have "\<exists>j. 0 \<le> j \<and> j < 504 \<and> 4096 = ulong (data_at 0 4096 j - 4096)" by (simp add: seg_of_def mps_of_def)
  with seg show ?thesis by (auto simp: data_index mps_of_def)
qed

end
