(* ===== verification/Profiler.thy ===== *)
theory Profiler
  imports Pcow_Prelude
begin

text \<open>
  The profiling timers (\<open>profiler.h\<close>, \<open>profiler.c\<close>). The eleven timers are the constructors of
  \<open>timer_id\<close> (the global pointers of the source); the time of day is an argument of \<open>fmap_st\<close> and
  \<open>fmap_et\<close>. A report is the list of what \<open>print_timer\<close> prints for each timer.
\<close>

section \<open>Timers\<close>

datatype timer_id = Uffd_tmr | Sig_tmr | Sig_map_tmr | Uffd_map_tmr | Sig_newblk_tmr | Sig_meta_tmr
  | Uffd_newblk_tmr | Sig_cow_tmr | Newblk_alloc_tmr | Newblk_meta_tmr | Lock_tmr

definition REPORT_INTERVAL :: int where "REPORT_INTERVAL = 10000"

record timeval =
  tv_sec :: int
  tv_usec :: int

record my_timer =
  tm_s :: timeval
  tm_e :: timeval
  tm_count :: int
  tm_t :: int
  tm_name :: string

type_synonym timers = "timer_id \<Rightarrow> my_timer"

definition fmap_td :: "timeval \<Rightarrow> timeval \<Rightarrow> int" where
  "fmap_td t1 t2 = ulong (ulong (tv_sec t2 * 1000000 + tv_usec t2) - tv_sec t1 * 1000000 - tv_usec t1)"

text \<open>The two times of a fresh timer are what \<open>malloc\<close> left there (\<open>raw\<close>).\<close>

definition init_timer :: "timeval \<times> timeval \<Rightarrow> string \<Rightarrow> my_timer" where
  "init_timer raw name = \<lparr>tm_s = fst raw, tm_e = snd raw, tm_count = 0, tm_t = 0, tm_name = name\<rparr>"

fun timer_name :: "timer_id \<Rightarrow> string" where
  "timer_name Sig_tmr = ''SIGSEGV time''"
| "timer_name Sig_cow_tmr = ''SIGSEGV: copy-on-write (CoW)''"
| "timer_name Sig_map_tmr = ''SIGSEGV: map time''"
| "timer_name Sig_newblk_tmr = ''SIGSEGV: new_block time (may take no time in fg)''"
| "timer_name Sig_meta_tmr = ''SIGSEGV: update meta time''"
| "timer_name Uffd_tmr = ''UFFD time''"
| "timer_name Uffd_map_tmr = ''UFFD: map time''"
| "timer_name Uffd_newblk_tmr = ''UFFD: new_block time''"
| "timer_name Newblk_alloc_tmr = ''fallocate time (in new_block)''"
| "timer_name Newblk_meta_tmr = ''update meta time (in new_block)''"
| "timer_name Lock_tmr = ''pthread mutex lock / unlock time (in new_block)''"

definition init_timers :: "(timer_id \<Rightarrow> timeval \<times> timeval) \<Rightarrow> timers" where
  "init_timers raw = (\<lambda>i. init_timer (raw i) (timer_name i))"

definition time_zero :: timeval where
  "time_zero = \<lparr>tv_sec = 0, tv_usec = 0\<rparr>"

definition reset_timer :: "my_timer \<Rightarrow> my_timer" where
  "reset_timer t = t\<lparr>tm_t := 0, tm_count := 0\<rparr>"

definition all_timers :: "timer_id list" where
  "all_timers = [Uffd_tmr, Sig_tmr, Sig_map_tmr, Uffd_map_tmr, Sig_newblk_tmr, Sig_meta_tmr, Uffd_newblk_tmr, Sig_cow_tmr,
     Newblk_meta_tmr, Newblk_alloc_tmr, Lock_tmr]"

definition reset_timers :: "timers \<Rightarrow> timers" where
  "reset_timers ts = fold (\<lambda>i ts. ts(i := reset_timer (ts i))) all_timers ts"

text \<open>The line \<open>print_timer\<close> prints: name, total, count, average.\<close>

type_synonym timer_line = "string \<times> int \<times> int \<times> int"

definition print_timer :: "my_timer \<Rightarrow> timer_line" where
  "print_timer t = (tm_name t, tm_t t, tm_count t, if tm_count t \<noteq> 0 then tm_t t div ulong (tm_count t) else 0)"

definition report_order :: "timer_id list" where
  "report_order = [Uffd_tmr, Sig_tmr, Sig_map_tmr, Uffd_map_tmr, Sig_newblk_tmr, Sig_meta_tmr, Uffd_newblk_tmr, Sig_cow_tmr,
     Newblk_alloc_tmr, Newblk_meta_tmr, Lock_tmr]"

definition print_timers :: "timers \<Rightarrow> timer_line list" where
  "print_timers ts = map (\<lambda>i. print_timer (ts i)) report_order"

definition fmap_st :: "timer_id \<Rightarrow> timeval \<Rightarrow> timers \<Rightarrow> timers" where
  "fmap_st i now ts = ts(i := (ts i)\<lparr>tm_s := now\<rparr>)"

definition fmap_et :: "timer_id \<Rightarrow> timeval \<Rightarrow> timers \<Rightarrow> timers \<times> timer_line list list" where
  "fmap_et i now ts =
     (let t = ts i;
          t1 = t\<lparr>tm_e := now, tm_t := ulong (tm_t t + fmap_td (tm_s t) now), tm_count := cint (tm_count t + 1)\<rparr>;
          ts1 = ts(i := t1);
          (ts2, r1) = (if i = Sig_tmr \<and> c_mod (tm_count (ts1 i)) REPORT_INTERVAL = 0
                       then (reset_timers ts1, [print_timers ts1]) else (ts1, []));
          (ts3, r2) = (if i = Uffd_tmr \<and> c_mod (tm_count (ts2 i)) REPORT_INTERVAL = 0
                       then (reset_timers ts2, [print_timers ts2]) else (ts2, []))
      in (ts3, r1 @ r2))"

section \<open>Lemmas\<close>

lemma reset_timers_all: "reset_timers ts i = reset_timer (ts i)"
  by (cases i) (simp_all add: reset_timers_def all_timers_def)

text \<open>\<open>n\<close> measured intervals of a timer, starting at the given times.\<close>

fun measure_all :: "timer_id \<Rightarrow> (timeval \<times> timeval) list \<Rightarrow> timers \<Rightarrow> timers \<times> timer_line list list" where
  "measure_all i [] ts = (ts, [])"
| "measure_all i ((a, b) # xs) ts =
     (let (ts1, r1) = fmap_et i b (fmap_st i a ts); (ts2, r2) = measure_all i xs ts1 in (ts2, r1 @ r2))"

definition usecs :: "timeval \<Rightarrow> int" where
  "usecs t = tv_sec t * 1000000 + tv_usec t"

lemma fmap_td_exact:
  assumes "usecs a \<le> usecs b" "usecs b - usecs a < 18446744073709551616"
  shows "fmap_td a b = usecs b - usecs a"
proof -
  have "fmap_td a b = (usecs b - usecs a) mod 18446744073709551616"
    by (simp add: fmap_td_def ulong_def usecs_def mod_simps algebra_simps)
  then show ?thesis using assms by simp
qed

definition total_usecs :: "(timeval \<times> timeval) list \<Rightarrow> int" where
  "total_usecs xs = (\<Sum>(a, b)\<leftarrow>xs. usecs b - usecs a)"

lemma total_usecs_Cons [simp]: "total_usecs ((a, b) # xs) = usecs b - usecs a + total_usecs xs"
  by (simp add: total_usecs_def)

lemma total_usecs_nonneg: "\<forall>(a, b)\<in>set xs. usecs a \<le> usecs b \<Longrightarrow> 0 \<le> total_usecs xs"
  by (induction xs) (auto simp: total_usecs_def)

lemma measure_rel:
  assumes "i \<noteq> Sig_tmr" "i \<noteq> Uffd_tmr" "\<forall>(a, b)\<in>set xs. usecs a \<le> usecs b"
    and "0 \<le> tm_t (ts i)" "tm_t (ts i) + total_usecs xs < 18446744073709551616"
    and "0 \<le> tm_count (ts i)" "tm_count (ts i) + int (length xs) < 2147483648"
  shows "snd (measure_all i xs ts) = [] \<and> tm_t (fst (measure_all i xs ts) i) = tm_t (ts i) + total_usecs xs
    \<and> tm_count (fst (measure_all i xs ts) i) = tm_count (ts i) + int (length xs)
    \<and> (\<forall>j. j \<noteq> i \<longrightarrow> fst (measure_all i xs ts) j = ts j)"
  using assms(3-)
proof (induction xs arbitrary: ts)
  case Nil
  then show ?case by (simp add: total_usecs_def)
next
  case (Cons x xs)
  obtain a b where x: "x = (a, b)" by (cases x)
  have ab: "usecs a \<le> usecs b" "\<forall>(a, b)\<in>set xs. usecs a \<le> usecs b" using Cons.prems(1) by (auto simp: x)
  have t0: "0 \<le> total_usecs xs" by (rule total_usecs_nonneg [OF ab(2)])
  let ?ts = "fst (fmap_et i b (fmap_st i a ts))"
  have td: "fmap_td a b = usecs b - usecs a" using ab(1) Cons.prems(2,3) t0 by (intro fmap_td_exact) (simp_all add: x)
  have e: "snd (fmap_et i b (fmap_st i a ts)) = []" using assms(1,2) by (simp add: fmap_et_def Let_def)
  have ts: "tm_t (?ts i) = tm_t (ts i) + (usecs b - usecs a)" "tm_count (?ts i) = tm_count (ts i) + 1"
    "\<And>j. j \<noteq> i \<Longrightarrow> ?ts j = ts j"
    using assms(1,2) Cons.prems(2-5) ab(1) t0
    by (simp_all add: fmap_et_def fmap_st_def Let_def td ulong_id cint_id x)
  have "snd (measure_all i xs ?ts) = [] \<and> tm_t (fst (measure_all i xs ?ts) i) = tm_t (?ts i) + total_usecs xs
      \<and> tm_count (fst (measure_all i xs ?ts) i) = tm_count (?ts i) + int (length xs)
      \<and> (\<forall>j. j \<noteq> i \<longrightarrow> fst (measure_all i xs ?ts) j = ?ts j)"
    using ab Cons.prems(2-5) by (intro Cons.IH) (simp_all add: ts x)
  then show ?case using e ts by (simp add: x split_beta)
qed

section \<open>Properties\<close>

text \<open>A timer that does not trigger reports adds up: after any number of measured intervals its total is
  the sum of their lengths in microseconds and its count their number; the other timers do not change.\<close>

theorem timer_accumulates:
  assumes "i \<noteq> Sig_tmr" "i \<noteq> Uffd_tmr" "\<forall>(a, b)\<in>set xs. usecs a \<le> usecs b"
    and "0 \<le> tm_t (ts i)" "tm_t (ts i) + total_usecs xs < 18446744073709551616"
    and "0 \<le> tm_count (ts i)" "tm_count (ts i) + int (length xs) < 2147483648"
  shows "snd (measure_all i xs ts) = [] \<and> tm_t (fst (measure_all i xs ts) i) = tm_t (ts i) + total_usecs xs
    \<and> tm_count (fst (measure_all i xs ts) i) = tm_count (ts i) + int (length xs)
    \<and> (\<forall>j. j \<noteq> i \<longrightarrow> fst (measure_all i xs ts) j = ts j)"
  by (rule measure_rel [where i = i and ts = ts and xs = xs, OF assms])

theorem timer_accumulates_witness:
  "tm_t (fst (measure_all Lock_tmr [(\<lparr>tv_sec = 1, tv_usec = 5\<rparr>, \<lparr>tv_sec = 2, tv_usec = 0\<rparr>)] (init_timers (\<lambda>_. (time_zero, time_zero)))) Lock_tmr) = 999995"
  using timer_accumulates [of Lock_tmr "[(\<lparr>tv_sec = 1, tv_usec = 5\<rparr>, \<lparr>tv_sec = 2, tv_usec = 0\<rparr>)]" "init_timers (\<lambda>_. (time_zero, time_zero))"]
  by (simp add: usecs_def total_usecs_def init_timers_def init_timer_def)

text \<open>The report: every \<open>REPORT_INTERVAL\<close>-th measured fault prints one report of all timers and clears
  the total and the count of every timer; between reports nothing is cleared.\<close>

theorem report_resets:
  assumes "i = Sig_tmr \<or> i = Uffd_tmr" and "fmap_et i now ts = (ts', rs)" and "0 \<le> tm_count (ts i)" "tm_count (ts i) < 2147483647"
  shows "if (tm_count (ts i) + 1) mod REPORT_INTERVAL = 0
    then length rs = 1 \<and> (\<forall>j. tm_t (ts' j) = 0 \<and> tm_count (ts' j) = 0 \<and> tm_name (ts' j) = tm_name (ts j))
    else rs = [] \<and> tm_count (ts' i) = tm_count (ts i) + 1 \<and> (\<forall>j. j \<noteq> i \<longrightarrow> ts' j = ts j)"
proof -
  have c: "cint (tm_count (ts i) + 1) = tm_count (ts i) + 1" using assms(3,4) by (simp add: cint_id)
  have m: "c_mod (tm_count (ts i) + 1) REPORT_INTERVAL = (tm_count (ts i) + 1) mod REPORT_INTERVAL"
    using assms(3) by (intro c_mod_nonneg) (simp_all add: REPORT_INTERVAL_def)
  show ?thesis
    using assms(1,2) by (auto simp: fmap_et_def Let_def c m reset_timers_all reset_timer_def split: if_splits)
qed

theorem report_resets_witness:
  "let ts = (init_timers (\<lambda>_. (time_zero, time_zero)))(Sig_tmr := (init_timer (time_zero, time_zero) [])\<lparr>tm_count := 9999\<rparr>, Lock_tmr := (init_timer (time_zero, time_zero) [])\<lparr>tm_t := 7\<rparr>);
       (ts', rs) = fmap_et Sig_tmr \<lparr>tv_sec = 0, tv_usec = 0\<rparr> ts
   in length rs = 1 \<and> tm_t (ts' Lock_tmr) = 0"
proof -
  let ?ts = "(init_timers (\<lambda>_. (time_zero, time_zero)))(Sig_tmr := (init_timer (time_zero, time_zero) [])\<lparr>tm_count := 9999\<rparr>, Lock_tmr := (init_timer (time_zero, time_zero) [])\<lparr>tm_t := 7\<rparr>)"
  obtain ts' rs where r: "fmap_et Sig_tmr \<lparr>tv_sec = 0, tv_usec = 0\<rparr> ?ts = (ts', rs)" by (rule prod.exhaust)
  from report_resets [OF _ r] r show ?thesis by (simp add: REPORT_INTERVAL_def)
qed

end
