(* ===== verification/Flat_View.thy ===== *)
theory Flat_View
  imports Pcow_Prelude
begin

text \<open>
  QEMU's flat views (\<open>qemu-diff/memory.c\<close>): address ranges, the tree of memory regions, rendering it
  into a list of disjoint ranges and merging neighbours.

  A \<open>MemoryRegion\<close> pointer is a natural number and the heap of regions a function from pointers to
  records. \<open>Int128\<close> is a HOL integer: the sums of a few 64-bit addresses cannot leave 128 bits. A
  \<open>hwaddr\<close> is an integer below \<open>2 ^ 64\<close>. The reference counts of the owners of the regions are a
  function of the state, because every range of a view holds one reference. The region tree is a graph
  with aliases, which the C code follows without a check, so rendering takes fuel; on a graph without
  cycles the depth of the graph is enough (\<open>render_total\<close>).
\<close>

section \<open>Address ranges\<close>

record AddrRange =
  r_start :: int
  r_size :: int

definition addrrange_make :: "int \<Rightarrow> int \<Rightarrow> AddrRange" where
  "addrrange_make s n = \<lparr>r_start = s, r_size = n\<rparr>"

definition addrrange_equal :: "AddrRange \<Rightarrow> AddrRange \<Rightarrow> bool" where
  "addrrange_equal r1 r2 \<longleftrightarrow> r_start r1 = r_start r2 \<and> r_size r1 = r_size r2"

definition addrrange_end :: "AddrRange \<Rightarrow> int" where
  "addrrange_end r = r_start r + r_size r"

definition addrrange_shift :: "AddrRange \<Rightarrow> int \<Rightarrow> AddrRange" where
  "addrrange_shift ar delta = ar\<lparr>r_start := r_start ar + delta\<rparr>"

definition addrrange_contains :: "AddrRange \<Rightarrow> int \<Rightarrow> bool" where
  "addrrange_contains ar a \<longleftrightarrow> r_start ar \<le> a \<and> a < addrrange_end ar"

definition addrrange_intersects :: "AddrRange \<Rightarrow> AddrRange \<Rightarrow> bool" where
  "addrrange_intersects r1 r2 \<longleftrightarrow> addrrange_contains r1 (r_start r2) \<or> addrrange_contains r2 (r_start r1)"

definition addrrange_intersection :: "AddrRange \<Rightarrow> AddrRange \<Rightarrow> AddrRange" where
  "addrrange_intersection r1 r2 =
     (let s = max (r_start r1) (r_start r2); e = min (addrrange_end r1) (addrrange_end r2)
      in addrrange_make s (e - s))"

text \<open>\<open>int128_get64\<close> asserts that the value fits.\<close>

definition int128_get64 :: "int \<Rightarrow> int res" where
  "int128_get64 x = (if 0 \<le> x \<and> x < 18446744073709551616 then Inr x else Inl Assert_failed)"

section \<open>Memory regions\<close>

datatype device_endian = DEVICE_NATIVE_ENDIAN | DEVICE_BIG_ENDIAN | DEVICE_LITTLE_ENDIAN

datatype MemoryBackendFileFormat = MEM_BACKEND_FORMAT_RAW | MEM_BACKEND_FORMAT_PCOW

record MemoryRegionIoeventfd =
  ie_addr :: AddrRange
  ie_match_data :: bool
  ie_data :: u64
  ie_e :: nat

record MemoryRegion =
  mr_romd_mode :: bool
  mr_ram :: bool
  mr_subpage :: bool
  mr_readonly :: bool
  mr_rom_device :: bool
  mr_flush_coalesced_mmio :: bool
  mr_global_locking :: bool
  mr_dirty_log_mask :: u8
  mr_is_iommu :: bool
  mr_ram_block :: "nat option"
  mr_owner :: "nat option"
  mr_endianness :: device_endian
  mr_container :: "nat option"
  mr_size :: int
  mr_addr :: int
  mr_align :: int
  mr_terminates :: bool
  mr_ram_device :: bool
  mr_enabled :: bool
  mr_vga_logging_count :: u8
  mr_alias :: "nat option"
  mr_alias_offset :: int
  mr_priority :: int
  mr_subregions :: "nat list"
  mr_coalesced :: "AddrRange list"
  mr_ioeventfds :: "MemoryRegionIoeventfd list"
  mr_format :: MemoryBackendFileFormat

type_synonym regions = "nat \<Rightarrow> MemoryRegion"

type_synonym refs = "nat \<Rightarrow> int"

definition memory_region_ref :: "regions \<Rightarrow> nat option \<Rightarrow> refs \<Rightarrow> refs" where
  "memory_region_ref rg p cs =
     (case p of None \<Rightarrow> cs
      | Some q \<Rightarrow> (case mr_owner (rg q) of None \<Rightarrow> cs | Some ob \<Rightarrow> cs(ob := cs ob + 1)))"

definition memory_region_unref :: "regions \<Rightarrow> nat option \<Rightarrow> refs \<Rightarrow> refs" where
  "memory_region_unref rg p cs =
     (case p of None \<Rightarrow> cs
      | Some q \<Rightarrow> (case mr_owner (rg q) of None \<Rightarrow> cs | Some ob \<Rightarrow> cs(ob := cs ob - 1)))"

definition DIRTY_MEMORY_VGA :: nat where "DIRTY_MEMORY_VGA = 0"

definition DIRTY_MEMORY_MIGRATION :: nat where "DIRTY_MEMORY_MIGRATION = 2"

definition memory_region_get_dirty_log_mask :: "bool \<Rightarrow> MemoryRegion \<Rightarrow> u8" where
  "memory_region_get_dirty_log_mask global_dirty_log mr =
     (if global_dirty_log \<and> mr_ram_block mr \<noteq> None
      then mr_dirty_log_mask mr OR push_bit DIRTY_MEMORY_MIGRATION 1 else mr_dirty_log_mask mr)"

section \<open>Flat ranges and views\<close>

record FlatRange =
  fr_mr :: nat
  fr_offset_in_region :: int
  fr_addr :: AddrRange
  fr_dirty_log_mask :: u8
  fr_romd_mode :: bool
  fr_readonly :: bool

record FlatView =
  fv_ref :: int
  fv_root :: "nat option"
  fv_ranges :: "FlatRange list"
  fv_nr_allocated :: nat

definition flatrange_equal :: "FlatRange \<Rightarrow> FlatRange \<Rightarrow> bool" where
  "flatrange_equal a b \<longleftrightarrow> fr_mr a = fr_mr b \<and> addrrange_equal (fr_addr a) (fr_addr b)
     \<and> fr_offset_in_region a = fr_offset_in_region b \<and> fr_romd_mode a = fr_romd_mode b \<and> fr_readonly a = fr_readonly b"

definition flatview_new :: "regions \<Rightarrow> nat option \<Rightarrow> refs \<Rightarrow> FlatView \<times> refs" where
  "flatview_new rg mr_root cs =
     (\<lparr>fv_ref = 1, fv_root = mr_root, fv_ranges = [], fv_nr_allocated = 0\<rparr>, memory_region_ref rg mr_root cs)"

definition flatview_insert :: "regions \<Rightarrow> nat \<Rightarrow> FlatRange \<Rightarrow> FlatView \<times> refs \<Rightarrow> FlatView \<times> refs" where
  "flatview_insert rg pos fr s =
     (let (view, cs) = s; rs = fv_ranges view; nr = length rs;
          view1 = (if nr = fv_nr_allocated view then view\<lparr>fv_nr_allocated := max (2 * nr) 10\<rparr> else view)
      in (view1\<lparr>fv_ranges := take pos rs @ fr # drop pos rs\<rparr>, memory_region_ref rg (Some (fr_mr fr)) cs))"

definition flatview_destroy :: "regions \<Rightarrow> FlatView \<Rightarrow> refs \<Rightarrow> refs" where
  "flatview_destroy rg view cs =
     memory_region_unref rg (fv_root view)
       (fold (\<lambda>r cs. memory_region_unref rg (Some (fr_mr r)) cs) (fv_ranges view) cs)"

text \<open>\<open>flatview_ref\<close> takes a reference unless the count is zero, and says whether it did.\<close>

definition flatview_ref :: "FlatView \<Rightarrow> bool \<times> FlatView" where
  "flatview_ref view = (if fv_ref view = 0 then (False, view) else (True, view\<lparr>fv_ref := fv_ref view + 1\<rparr>))"

text \<open>\<open>flatview_unref\<close> says whether it dropped the last reference, which hands the view to RCU for
  \<open>flatview_destroy\<close>.\<close>

definition flatview_unref :: "FlatView \<Rightarrow> bool \<times> FlatView" where
  "flatview_unref view = (fv_ref view = 1, view\<lparr>fv_ref := fv_ref view - 1\<rparr>)"

definition can_merge :: "FlatRange \<Rightarrow> FlatRange \<Rightarrow> bool" where
  "can_merge r1 r2 \<longleftrightarrow> addrrange_end (fr_addr r1) = r_start (fr_addr r2) \<and> fr_mr r1 = fr_mr r2
     \<and> fr_offset_in_region r1 + r_size (fr_addr r1) = fr_offset_in_region r2
     \<and> fr_dirty_log_mask r1 = fr_dirty_log_mask r2 \<and> fr_romd_mode r1 = fr_romd_mode r2 \<and> fr_readonly r1 = fr_readonly r2"

text \<open>The inner loop of \<open>flatview_simplify\<close>: from \<open>j\<close> on, add the sizes of the ranges that continue their
  predecessor to range \<open>i\<close>; returns the array and the \<open>j\<close> where it stops.\<close>

definition grow :: "FlatRange \<Rightarrow> int \<Rightarrow> FlatRange" where
  "grow r n = r\<lparr>fr_addr := (fr_addr r)\<lparr>r_size := r_size (fr_addr r) + n\<rparr>\<rparr>"

function simplify_inner :: "nat \<Rightarrow> nat \<Rightarrow> FlatRange list \<Rightarrow> FlatRange list \<times> nat" where
  "simplify_inner i j rs =
     (if j < length rs \<and> can_merge (rs ! (j - 1)) (rs ! j)
      then simplify_inner i (j + 1) (rs[i := grow (rs ! i) (r_size (fr_addr (rs ! j)))])
      else (rs, j))"
  by pat_completeness auto

termination simplify_inner
  by (relation "measure (\<lambda>(i, j, rs). length rs - j)") auto

declare simplify_inner.simps [simp del]

lemma simplify_inner_props:
  "length (fst (simplify_inner i j rs)) = length rs \<and> j \<le> snd (simplify_inner i j rs)"
proof (induction i j rs rule: simplify_inner.induct)
  case (1 i j rs)
  show ?case
    using 1 by (auto simp: simplify_inner.simps [of i j rs])
qed

function simplify_outer :: "nat \<Rightarrow> FlatRange list \<Rightarrow> FlatRange list" where
  "simplify_outer i rs =
     (if i < length rs
      then let (rs1, j) = simplify_inner i (i + 1) rs in simplify_outer (i + 1) (take (i + 1) rs1 @ drop j rs1)
      else rs)"
  by pat_completeness auto

termination simplify_outer
proof (relation "measure (\<lambda>(i, rs). length rs - i)", simp, clarsimp)
  fix i rs rs' j
  assume a: "i < length rs" "(rs', j) = simplify_inner i (Suc i) rs"
  have "length rs' = length rs" "Suc i \<le> j"
    using simplify_inner_props [of i "Suc i" rs] a(2) [symmetric] by simp_all
  then show "min (length rs') (Suc i) + (length rs' - j) - Suc i < length rs - i"
    using a(1) by simp
qed

declare simplify_outer.simps [simp del]

definition flatview_simplify :: "FlatView \<Rightarrow> FlatView" where
  "flatview_simplify view = view\<lparr>fv_ranges := simplify_outer 0 (fv_ranges view)\<rparr>"

section \<open>Rendering\<close>

text \<open>The loop of \<open>render_memory_region\<close> that puts the region into the gaps of the view. \<open>fr\<close> carries the
  fields of the new ranges; \<open>base\<close>, \<open>off\<close> and \<open>remain\<close> are the C variables.\<close>

definition fr_part :: "FlatRange \<Rightarrow> int \<Rightarrow> int \<Rightarrow> int \<Rightarrow> FlatRange" where
  "fr_part fr off base n = fr\<lparr>fr_offset_in_region := off, fr_addr := addrrange_make base n\<rparr>"

text \<open>The part of one iteration before the current range: fill the gap in front of it.\<close>

definition gap_before :: "regions \<Rightarrow> FlatRange \<Rightarrow> (FlatView \<times> refs) \<Rightarrow> nat \<Rightarrow> int \<Rightarrow> int \<Rightarrow> int
    \<Rightarrow> ((FlatView \<times> refs) \<times> nat \<times> int \<times> int \<times> int) res" where
  "gap_before rg fr s i base off remain =
     (let st = r_start (fr_addr (fv_ranges (fst s) ! i)) in
      if base < st
      then let now = min remain (st - base) in
        res_bind (int128_get64 now) (\<lambda>n64.
          Inr (flatview_insert rg i (fr_part fr off base now) s, i + 1, base + now, ulong (off + n64), remain - now))
      else Inr (s, i, base, off, remain))"

lemma gap_before_len:
  "gap_before rg fr s i base off remain = Inr (s', i', b', f', r')
    \<Longrightarrow> i < length (fv_ranges (fst s))
    \<Longrightarrow> length (fv_ranges (fst s')) - i' = length (fv_ranges (fst s)) - i"
  by (auto simp: gap_before_def Let_def res_bind_Inr_iff flatview_insert_def split: if_splits prod.splits)

function (sequential) fill_gaps :: "regions \<Rightarrow> FlatRange \<Rightarrow> (FlatView \<times> refs) \<Rightarrow> nat \<Rightarrow> int \<Rightarrow> int \<Rightarrow> int
    \<Rightarrow> (FlatView \<times> refs) res" where
  "fill_gaps rg fr s i base off remain =
     (if i < length (fv_ranges (fst s)) \<and> remain \<noteq> 0
      then if base \<ge> addrrange_end (fr_addr (fv_ranges (fst s) ! i))
        then fill_gaps rg fr s (i + 1) base off remain
        else (case gap_before rg fr s i base off remain of
            Inl e \<Rightarrow> Inl e
          | Inr (s', i', base', off', remain') \<Rightarrow>
              (let now = min (base' + remain') (addrrange_end (fr_addr (fv_ranges (fst s') ! i'))) - base' in
               case int128_get64 now of Inl e \<Rightarrow> Inl e
               | Inr n64 \<Rightarrow> fill_gaps rg fr s' (i' + 1) (base' + now) (ulong (off' + n64)) (remain' - now)))
      else if remain \<noteq> 0 then Inr (flatview_insert rg i (fr_part fr off base remain) s) else Inr s)"
  by pat_completeness auto

termination fill_gaps
  by (relation "measure (\<lambda>(rg, fr, s, i, base, off, remain). length (fv_ranges (fst s)) - i)")
    (use gap_before_len in \<open>fastforce+\<close>)

declare fill_gaps.simps [simp del]

text \<open>The subregions are rendered one after the other, first to last.\<close>

fun render_list :: "(nat \<Rightarrow> 's \<Rightarrow> 's res option) \<Rightarrow> nat list \<Rightarrow> 's \<Rightarrow> 's res option" where
  "render_list f [] s = Some (Inr s)"
| "render_list f (x # xs) s =
     (case f x s of Some (Inr s') \<Rightarrow> render_list f xs s' | Some (Inl e) \<Rightarrow> Some (Inl e) | None \<Rightarrow> None)"

primrec render_memory_region :: "nat \<Rightarrow> bool \<Rightarrow> regions \<Rightarrow> nat \<Rightarrow> int \<Rightarrow> AddrRange \<Rightarrow> bool
    \<Rightarrow> FlatView \<times> refs \<Rightarrow> (FlatView \<times> refs) res option" where
  "render_memory_region 0 gdl rg p base clip readonly s = None"
| "render_memory_region (Suc fuel) gdl rg p base clip readonly s =
     (let mr = rg p in
      if \<not> mr_enabled mr then Some (Inr s)
      else
        let base = base + mr_addr mr; readonly = (readonly \<or> mr_readonly mr); tmp = addrrange_make base (mr_size mr) in
        if \<not> addrrange_intersects tmp clip then Some (Inr s)
        else
          let clip = addrrange_intersection tmp clip in
          (case mr_alias mr of
             Some al \<Rightarrow> render_memory_region fuel gdl rg al (base - mr_addr (rg al) - mr_alias_offset mr) clip readonly s
           | None \<Rightarrow>
              (case render_list (\<lambda>c. render_memory_region fuel gdl rg c base clip readonly) (mr_subregions mr) s of
                 None \<Rightarrow> None
               | Some (Inl e) \<Rightarrow> Some (Inl e)
               | Some (Inr s1) \<Rightarrow>
                  if \<not> mr_terminates mr then Some (Inr s1)
                  else Some (res_bind (int128_get64 (r_start clip - base)) (\<lambda>off.
                         let fr = \<lparr>fr_mr = p, fr_offset_in_region = off, fr_addr = clip,
                                   fr_dirty_log_mask = memory_region_get_dirty_log_mask gdl mr,
                                   fr_romd_mode = mr_romd_mode mr, fr_readonly = readonly\<rparr>
                         in fill_gaps rg fr s1 0 (r_start clip) off (r_size clip))))))"

text \<open>The region that is the real root of a view: a chain of aliases and single children that cover all of
  their parent is skipped.\<close>

fun sole_child :: "regions \<Rightarrow> MemoryRegion \<Rightarrow> nat list \<Rightarrow> nat \<Rightarrow> nat option \<Rightarrow> nat \<times> nat option" where
  "sole_child rg mr [] found nxt = (found, nxt)"
| "sole_child rg mr (c # cs) found nxt =
     (if mr_enabled (rg c)
      then if found + 1 > 1 then (found + 1, None)
        else sole_child rg mr cs (found + 1) (if mr_addr (rg c) = 0 \<and> mr_size mr \<ge> mr_size (rg c) then Some c else nxt)
      else sole_child rg mr cs found nxt)"

primrec memory_region_get_flatview_root :: "nat \<Rightarrow> regions \<Rightarrow> nat \<Rightarrow> nat option option" where
  "memory_region_get_flatview_root 0 rg p = None"
| "memory_region_get_flatview_root (Suc fuel) rg p =
     (let mr = rg p in
      if \<not> mr_enabled mr then Some None
      else (case mr_alias mr of
          Some al \<Rightarrow>
            if mr_alias_offset mr = 0 \<and> mr_size mr \<ge> mr_size (rg al) then memory_region_get_flatview_root fuel rg al
            else Some (Some p)
        | None \<Rightarrow>
            if mr_terminates mr then Some (Some p)
            else (case sole_child rg mr (mr_subregions mr) 0 None of
                (found, nxt) \<Rightarrow>
                  if found = 0 then Some None
                  else (case nxt of Some c \<Rightarrow> memory_region_get_flatview_root fuel rg c | None \<Rightarrow> Some (Some p)))))"

text \<open>The view part of \<open>generate_memory_topology\<close>: a fresh view, rendered over the whole 64-bit space and
  simplified.\<close>

definition render_topology :: "nat \<Rightarrow> bool \<Rightarrow> regions \<Rightarrow> nat option \<Rightarrow> refs \<Rightarrow> (FlatView \<times> refs) res option" where
  "render_topology fuel gdl rg mr cs =
     (let s = flatview_new rg mr cs;
          r = (case mr of None \<Rightarrow> Some (Inr s)
               | Some p \<Rightarrow> render_memory_region fuel gdl rg p 0 (addrrange_make 0 18446744073709551616) False s)
      in case r of Some (Inr (view, cs')) \<Rightarrow> Some (Inr (flatview_simplify view, cs')) | x \<Rightarrow> x)"

end
