(* ===== verification/Flat_Render.thy ===== *)
theory Flat_Render
  imports Flat_View
begin

text \<open>
  What rendering computes. The specification reads the region graph at one address (\<open>region_at\<close>):
  the first enabled region in priority order that covers the address. A rendered view answers the same
  (\<open>topology_resolves\<close>), its ranges are sorted and disjoint, and merging neighbours keeps the answer
  at every address. The owners' reference counts match the ranges of the view.
\<close>

declare split_paired_All [simp del] split_paired_Ex [simp del]

section \<open>Well-formed views and what they answer\<close>

definition flat_ok :: "FlatRange list \<Rightarrow> bool" where
  "flat_ok rs \<longleftrightarrow> sorted_wrt (\<lambda>r s. addrrange_end (fr_addr r) \<le> r_start (fr_addr s)) rs
     \<and> (\<forall>r\<in>set rs. 0 < r_size (fr_addr r))"

definition in_space :: "FlatRange list \<Rightarrow> bool" where
  "in_space rs \<longleftrightarrow> (\<forall>r\<in>set rs. 0 \<le> r_start (fr_addr r) \<and> addrrange_end (fr_addr r) \<le> 18446744073709551616)"

type_synonym answer = "nat \<times> int \<times> u8 \<times> bool \<times> bool"

definition fr_answer :: "FlatRange \<Rightarrow> int \<Rightarrow> answer" where
  "fr_answer r a = (fr_mr r, fr_offset_in_region r + (a - r_start (fr_addr r)), fr_dirty_log_mask r, fr_romd_mode r, fr_readonly r)"

definition view_at :: "FlatRange list \<Rightarrow> int \<Rightarrow> answer option" where
  "view_at rs a = map_option (\<lambda>r. fr_answer r a) (find (\<lambda>r. addrrange_contains (fr_addr r) a) rs)"

fun first_some :: "('a \<Rightarrow> 'b option) \<Rightarrow> 'a list \<Rightarrow> 'b option" where
  "first_some f [] = None"
| "first_some f (x # xs) = (case f x of Some y \<Rightarrow> Some y | None \<Rightarrow> first_some f xs)"

primrec region_at :: "nat \<Rightarrow> bool \<Rightarrow> regions \<Rightarrow> nat \<Rightarrow> int \<Rightarrow> bool \<Rightarrow> int \<Rightarrow> answer option" where
  "region_at 0 gdl rg p base ro a = None"
| "region_at (Suc fuel) gdl rg p base ro a =
     (let mr = rg p; base = base + mr_addr mr; ro = (ro \<or> mr_readonly mr) in
      if \<not> mr_enabled mr \<or> \<not> addrrange_contains (addrrange_make base (mr_size mr)) a then None
      else case mr_alias mr of
          Some al \<Rightarrow> region_at fuel gdl rg al (base - mr_addr (rg al) - mr_alias_offset mr) ro a
        | None \<Rightarrow> (case first_some (\<lambda>c. region_at fuel gdl rg c base ro a) (mr_subregions mr) of
              Some x \<Rightarrow> Some x
            | None \<Rightarrow> if mr_terminates mr
                then Some (p, a - base, memory_region_get_dirty_log_mask gdl mr, mr_romd_mode mr, ro) else None))"

declare region_at.simps(2) [simp del]

lemmas region_at_Suc = region_at.simps(2)

lemma flat_ok_Cons [simp]:
  "flat_ok (r # rs) \<longleftrightarrow> 0 < r_size (fr_addr r) \<and> (\<forall>s\<in>set rs. addrrange_end (fr_addr r) \<le> r_start (fr_addr s)) \<and> flat_ok rs"
  by (auto simp: flat_ok_def)

lemma flat_ok_Nil [simp]: "flat_ok []"
  by (simp add: flat_ok_def)

lemma flat_ok_unique:
  assumes "flat_ok rs" "r \<in> set rs" "s \<in> set rs"
    and "addrrange_contains (fr_addr r) a" "addrrange_contains (fr_addr s) a"
  shows "r = s"
  using assms
  by (induction rs) (auto simp: addrrange_contains_def)

lemma find_None_all: "find P xs = None \<Longrightarrow> x \<in> set xs \<Longrightarrow> \<not> P x"
  by (auto simp: find_None_iff)

lemma view_at_Some:
  assumes "flat_ok rs" "r \<in> set rs" "addrrange_contains (fr_addr r) a"
  shows "view_at rs a = Some (fr_answer r a)"
proof (cases "find (\<lambda>r. addrrange_contains (fr_addr r) a) rs")
  case None
  then show ?thesis using assms find_None_all [OF None assms(2)] by simp
next
  case (Some s)
  then have "s \<in> set rs" "addrrange_contains (fr_addr s) a" by (auto simp: find_Some_iff)
  then have "s = r" using assms flat_ok_unique by blast
  then show ?thesis using Some by (simp add: view_at_def)
qed

lemma view_at_None: "view_at rs a = None \<longleftrightarrow> (\<forall>r\<in>set rs. \<not> addrrange_contains (fr_addr r) a)"
  by (auto simp: view_at_def find_None_iff)

lemma view_at_SomeD:
  assumes "view_at rs a = Some x"
  obtains r where "r \<in> set rs" "addrrange_contains (fr_addr r) a" "x = fr_answer r a"
  using assms by (auto simp: view_at_def find_Some_iff dest: nth_mem)

section \<open>Filling gaps\<close>

text \<open>The loop of the source as recursion over the ranges not visited yet.\<close>

fun fill :: "FlatRange \<Rightarrow> int \<Rightarrow> int \<Rightarrow> int \<Rightarrow> FlatRange list \<Rightarrow> FlatRange list" where
  "fill fr base off remain [] = (if remain = 0 then [] else [fr_part fr off base remain])"
| "fill fr base off remain (r # rs) =
     (if remain = 0 then r # rs
      else if base \<ge> addrrange_end (fr_addr r) then r # fill fr base off remain rs
      else let n1 = (if base < r_start (fr_addr r) then min remain (r_start (fr_addr r) - base) else 0);
               now = min (base + remain) (addrrange_end (fr_addr r)) - (base + n1)
           in (if base < r_start (fr_addr r) then [fr_part fr off base n1] else [])
              @ r # fill fr (base + n1 + now) (off + n1 + now) (remain - n1 - now) rs)"

definition is_part :: "FlatRange \<Rightarrow> int \<Rightarrow> int \<Rightarrow> int \<Rightarrow> FlatRange \<Rightarrow> bool" where
  "is_part fr base off remain s \<longleftrightarrow> base \<le> r_start (fr_addr s) \<and> 0 < r_size (fr_addr s)
     \<and> addrrange_end (fr_addr s) \<le> base + remain
     \<and> s = fr_part fr (off + (r_start (fr_addr s) - base)) (r_start (fr_addr s)) (r_size (fr_addr s))"

lemma fr_part_sel [simp]:
  "r_start (fr_addr (fr_part fr off base n)) = base"
  "r_size (fr_addr (fr_part fr off base n)) = n"
  "addrrange_end (fr_addr (fr_part fr off base n)) = base + n"
  "fr_mr (fr_part fr off base n) = fr_mr fr"
  "fr_offset_in_region (fr_part fr off base n) = off"
  "fr_dirty_log_mask (fr_part fr off base n) = fr_dirty_log_mask fr"
  "fr_romd_mode (fr_part fr off base n) = fr_romd_mode fr"
  "fr_readonly (fr_part fr off base n) = fr_readonly fr"
  by (simp_all add: fr_part_def addrrange_make_def addrrange_end_def)

lemma fill_zero [simp]: "fill fr base off 0 rs = rs"
  by (cases rs) simp_all

lemma is_part_shift:
  "is_part fr (base + d) (off + d) (remain - d) s \<Longrightarrow> 0 \<le> d \<Longrightarrow> is_part fr base off remain s"
  by (auto simp: is_part_def algebra_simps)

lemma fill_old: "set rs \<subseteq> set (fill fr base off remain rs)"
  by (induction rs arbitrary: base off remain) (auto simp: Let_def)

lemma fill_step:
  assumes "base < addrrange_end (fr_addr r)" "0 < remain" "0 < r_size (fr_addr r)"
  defines "d \<equiv> min remain (addrrange_end (fr_addr r) - base)"
  shows "fill fr base off remain (r # rs) =
      (if base < r_start (fr_addr r) then [fr_part fr off base (min remain (r_start (fr_addr r) - base))] else [])
      @ r # fill fr (base + d) (off + d) (remain - d) rs"
    and "0 \<le> d" "d \<le> remain" "remain - d = 0 \<or> base + d = addrrange_end (fr_addr r)"
proof -
  have m: "min (base + remain) (addrrange_end (fr_addr r)) = base + d" by (simp add: d_def min_def)
  show "fill fr base off remain (r # rs) =
      (if base < r_start (fr_addr r) then [fr_part fr off base (min remain (r_start (fr_addr r) - base))] else [])
      @ r # fill fr (base + d) (off + d) (remain - d) rs"
    using assms(1,2) by (simp add: Let_def m algebra_simps)
  show "0 \<le> d" "d \<le> remain" "remain - d = 0 \<or> base + d = addrrange_end (fr_addr r)"
    using assms by (auto simp: d_def)
qed

lemma fill_new:
  assumes "flat_ok rs" "0 \<le> remain" "s \<in> set (fill fr base off remain rs)"
  shows "s \<in> set rs \<or> is_part fr base off remain s"
  using assms
proof (induction rs arbitrary: base off remain)
  case Nil
  then show ?case by (auto simp: is_part_def split: if_splits)
next
  case (Cons r rs)
  consider "remain = 0" | "addrrange_end (fr_addr r) \<le> base" "remain \<noteq> 0" | "base < addrrange_end (fr_addr r)" "0 < remain"
    using Cons.prems(2) by linarith
  then show ?case
  proof cases
    case 1
    then show ?thesis using Cons.prems by simp
  next
    case 2
    then show ?thesis using Cons.prems Cons.IH [of remain base off] by auto
  next
    case 3
    let ?d = "min remain (addrrange_end (fr_addr r) - base)"
    have pos: "0 < r_size (fr_addr r)" "flat_ok rs" using Cons.prems(1) by auto
    note ee = fill_step(1) [OF 3 pos(1), of fr off rs] and st = fill_step(2-) [OF 3 pos(1)]
    from Cons.prems(3) consider "base < r_start (fr_addr r)" "s = fr_part fr off base (min remain (r_start (fr_addr r) - base))"
      | "s = r" | "s \<in> set (fill fr (base + ?d) (off + ?d) (remain - ?d) rs)"
      unfolding ee by (auto split: if_splits)
    then show ?thesis
    proof cases
      case 3
      with Cons.IH [OF pos(2) _ 3] st(1,2) is_part_shift [of fr base ?d off remain s] show ?thesis by auto
    qed (use \<open>0 < remain\<close> in \<open>auto simp: is_part_def\<close>)
  qed
qed

lemma fill_ok:
  assumes "flat_ok rs" "0 \<le> remain"
  shows "flat_ok (fill fr base off remain rs)"
  using assms
proof (induction rs arbitrary: base off remain)
  case Nil
  then show ?case by simp
next
  case (Cons r rs)
  have pos: "0 < r_size (fr_addr r)" "flat_ok rs" "\<forall>s\<in>set rs. addrrange_end (fr_addr r) \<le> r_start (fr_addr s)"
    using Cons.prems(1) by auto
  consider "remain = 0" | "addrrange_end (fr_addr r) \<le> base" "remain \<noteq> 0" | "base < addrrange_end (fr_addr r)" "0 < remain"
    using Cons.prems(2) by linarith
  then show ?case
  proof cases
    case 1
    then show ?thesis using Cons.prems by simp
  next
    case 2
    have "addrrange_end (fr_addr r) \<le> r_start (fr_addr s)" if "s \<in> set (fill fr base off remain rs)" for s
      using fill_new [OF pos(2) Cons.prems(2) that] pos(3) 2 by (auto simp: is_part_def)
    then show ?thesis using 2 Cons.IH [OF pos(2) Cons.prems(2)] pos(1) by simp
  next
    case 3
    let ?d = "min remain (addrrange_end (fr_addr r) - base)"
    note ee = fill_step(1) [OF 3 pos(1), of fr off rs] and st = fill_step(2-) [OF 3 pos(1)]
    have new: "addrrange_end (fr_addr r) \<le> r_start (fr_addr s)"
      if s: "s \<in> set (fill fr (base + ?d) (off + ?d) (remain - ?d) rs)" for s
    proof (cases "remain - ?d = 0")
      case True
      then show ?thesis using s pos(3) by simp
    next
      case False
      then show ?thesis using fill_new [OF pos(2) _ s] st(2,3) pos(3) by (auto simp: is_part_def)
    qed
    have tl: "flat_ok (r # fill fr (base + ?d) (off + ?d) (remain - ?d) rs)"
      using Cons.IH [OF pos(2)] st(2) new pos(1) by simp
    have "r_start (fr_addr r) \<le> addrrange_end (fr_addr r)" using pos(1) by (simp add: addrrange_end_def)
    then have "base + min remain (r_start (fr_addr r) - base) \<le> r_start (fr_addr s)"
      if "s \<in> set (r # fill fr (base + ?d) (off + ?d) (remain - ?d) rs)" for s
      using that new by fastforce
    then show ?thesis unfolding ee using tl 3 by simp
  qed
qed

lemma fill_covers:
  assumes "flat_ok rs" "base \<le> a" "a < base + remain"
  shows "\<exists>s\<in>set (fill fr base off remain rs). addrrange_contains (fr_addr s) a"
  using assms
proof (induction rs arbitrary: base off remain)
  case Nil
  then show ?case by (simp add: addrrange_contains_def)
next
  case (Cons r rs)
  have pos: "0 < r_size (fr_addr r)" "flat_ok rs" "0 < remain" using Cons.prems by auto
  show ?case
  proof (cases "addrrange_end (fr_addr r) \<le> base")
    case True
    then show ?thesis using Cons.IH [OF pos(2) Cons.prems(2,3)] pos(3) by auto
  next
    case False
    let ?d = "min remain (addrrange_end (fr_addr r) - base)"
    from False have lt: "base < addrrange_end (fr_addr r)" by simp
    note ee = fill_step(1) [OF lt pos(3,1), of fr off rs]
    consider "a < r_start (fr_addr r)" | "addrrange_contains (fr_addr r) a" | "addrrange_end (fr_addr r) \<le> a"
      unfolding addrrange_contains_def by linarith
    then show ?thesis
    proof cases
      case 1
      then show ?thesis unfolding ee using Cons.prems by (auto simp: addrrange_contains_def)
    next
      case 2
      then show ?thesis unfolding ee by simp
    next
      case 3
      then have "\<exists>s\<in>set (fill fr (base + ?d) (off + ?d) (remain - ?d) rs). addrrange_contains (fr_addr s) a"
        using Cons.prems(3) lt by (intro Cons.IH [OF pos(2)]) (auto simp: min_def)
      then show ?thesis unfolding ee by auto
    qed
  qed
qed

lemma fill_view_at:
  assumes "flat_ok rs" "0 \<le> remain"
  shows "view_at (fill fr base off remain rs) a =
    (case view_at rs a of Some x \<Rightarrow> Some x
     | None \<Rightarrow> if base \<le> a \<and> a < base + remain
         then Some (fr_mr fr, off + (a - base), fr_dirty_log_mask fr, fr_romd_mode fr, fr_readonly fr) else None)"
proof (cases "view_at rs a")
  case (Some x)
  then obtain r where r: "r \<in> set rs" "addrrange_contains (fr_addr r) a" "x = fr_answer r a" by (rule view_at_SomeD)
  then have "r \<in> set (fill fr base off remain rs)" using fill_old by blast
  then show ?thesis using view_at_Some [OF fill_ok [OF assms] _ r(2)] Some r(3) by simp
next
  case None
  then have no: "\<And>r. r \<in> set rs \<Longrightarrow> \<not> addrrange_contains (fr_addr r) a" by (simp add: view_at_None)
  have new: "is_part fr base off remain s" if "s \<in> set (fill fr base off remain rs)" "addrrange_contains (fr_addr s) a" for s
    using fill_new [OF assms that(1)] that(2) no by blast
  show ?thesis
  proof (cases "base \<le> a \<and> a < base + remain")
    case True
    then obtain s where s: "s \<in> set (fill fr base off remain rs)" "addrrange_contains (fr_addr s) a"
      using fill_covers [OF assms(1)] by blast
    have e: "s = fr_part fr (off + (r_start (fr_addr s) - base)) (r_start (fr_addr s)) (r_size (fr_addr s))"
      using new [OF s] by (simp add: is_part_def)
    have "fr_answer s a = (fr_mr fr, off + (a - base), fr_dirty_log_mask fr, fr_romd_mode fr, fr_readonly fr)"
      unfolding fr_answer_def by (subst (1 2 4 5 6) e) simp
    then show ?thesis using True None view_at_Some [OF fill_ok [OF assms] s] by simp
  next
    case False
    have "view_at (fill fr base off remain rs) a = None"
      unfolding view_at_None
    proof
      fix s
      assume s: "s \<in> set (fill fr base off remain rs)"
      show "\<not> addrrange_contains (fr_addr s) a"
        using new [OF s] False by (auto simp: is_part_def addrrange_contains_def)
    qed
    then show ?thesis using None False by simp
  qed
qed

text \<open>The loop is \<open>fill\<close>, when the assertions on the sizes hold.\<close>

abbreviation "two64 \<equiv> (18446744073709551616 :: int)"

lemma get64_in [simp]: "0 \<le> x \<Longrightarrow> x < two64 \<Longrightarrow> int128_get64 x = Inr x"
  by (simp add: int128_get64_def)

lemma flatview_insert_ranges [simp]:
  "fv_ranges (fst (flatview_insert rg pos fr s)) = take pos (fv_ranges (fst s)) @ fr # drop pos (fv_ranges (fst s))"
  by (cases s) (simp add: flatview_insert_def Let_def)

lemma fill_gaps_zero: "fill_gaps rg fr s i base off 0 = Inr s"
  by (simp add: fill_gaps.simps)

lemma fill_gaps_step:
  assumes "i < length (fv_ranges (fst s))" "remain \<noteq> 0" "base < addrrange_end (fr_addr (fv_ranges (fst s) ! i))"
    and "gap_before rg fr s i base off remain = Inr (s', i', b', f', r')"
    and "min (b' + r') (addrrange_end (fr_addr (fv_ranges (fst s') ! i'))) - b' = now" "int128_get64 now = Inr now"
  shows "fill_gaps rg fr s i base off remain = fill_gaps rg fr s' (i' + 1) (b' + now) (ulong (f' + now)) (r' - now)"
  using assms by (subst fill_gaps.simps) (simp add: Let_def)

lemma fill_gaps_fill:
  assumes "fv_ranges (fst s) = xs @ ys" "flat_ok ys" "0 \<le> remain" "remain < two64" "0 \<le> off" "off + remain \<le> two64"
  shows "\<exists>s'. fill_gaps rg fr s (length xs) base off remain = Inr s' \<and> fv_ranges (fst s') = xs @ fill fr base off remain ys"
  using assms
proof (induction ys arbitrary: xs s base off remain)
  case Nil
  then show ?case by (cases "remain = 0") (simp_all add: fill_gaps.simps del: split_paired_Ex)
next
  case (Cons r ys)
  let ?i = "length xs"
  let ?d = "min remain (addrrange_end (fr_addr r) - base)"
  have pos: "0 < r_size (fr_addr r)" "flat_ok ys" using Cons.prems(2) by auto
  have at: "?i < length (fv_ranges (fst s))" "fv_ranges (fst s) ! ?i = r" using Cons.prems(1) by simp_all
  have tail: "\<exists>s'. fill_gaps rg fr t (length zs) (base + ?d) (ulong (off + ?d)) (remain - ?d) = Inr s'
      \<and> fv_ranges (fst s') = zs @ fill fr (base + ?d) (off + ?d) (remain - ?d) ys"
    if t: "fv_ranges (fst t) = zs @ ys" and d: "0 \<le> ?d" "?d \<le> remain" for t zs
  proof (cases "remain - ?d = 0")
    case True
    then show ?thesis using t by (simp add: fill_gaps_zero del: split_paired_Ex)
  next
    case False
    then have "ulong (off + ?d) = off + ?d" using d Cons.prems(5,6) by (intro ulong_id) linarith+
    moreover have "\<exists>s'. fill_gaps rg fr t (length zs) (base + ?d) (off + ?d) (remain - ?d) = Inr s'
        \<and> fv_ranges (fst s') = zs @ fill fr (base + ?d) (off + ?d) (remain - ?d) ys"
      by (rule Cons.IH [OF t pos(2)]) (use Cons.prems d in linarith)+
    ultimately show ?thesis by simp
  qed
  consider "remain = 0" | "addrrange_end (fr_addr r) \<le> base" "remain \<noteq> 0"
    | "base < addrrange_end (fr_addr r)" "0 < remain" "r_start (fr_addr r) \<le> base"
    | "base < addrrange_end (fr_addr r)" "0 < remain" "base < r_start (fr_addr r)"
    using Cons.prems(3) by linarith
  then show ?case
  proof cases
    case 1
    then show ?thesis using Cons.prems(1) by (simp add: fill_gaps_zero del: split_paired_Ex)
  next
    case 2
    have "\<exists>s'. fill_gaps rg fr s (length (xs @ [r])) base off remain = Inr s' \<and> fv_ranges (fst s') = (xs @ [r]) @ fill fr base off remain ys"
      using Cons.prems pos by (intro Cons.IH) simp_all
    then show ?thesis using 2 at by (subst fill_gaps.simps) simp
  next
    case 3
    have m: "min (base + remain) (addrrange_end (fr_addr r)) - base = ?d" by (simp add: min_def)
    note st = fill_step(2-) [OF 3(1,2) pos(1)]
    have step: "fill_gaps rg fr s ?i base off remain = fill_gaps rg fr s (length (xs @ [r])) (base + ?d) (ulong (off + ?d)) (remain - ?d)"
      using 3 at st(1) Cons.prems(4) by (subst fill_gaps.simps) (simp add: gap_before_def m Let_def)
    show ?thesis
      using tail [of s "xs @ [r]"] st(1,2) Cons.prems(1) 3(3)
      unfolding step fill_step(1) [OF 3(1,2) pos(1)] by simp
  next
    case 4
    let ?g = "min remain (r_start (fr_addr r) - base)"
    let ?p = "fr_part fr off base ?g"
    let ?s = "flatview_insert rg ?i ?p s"
    have rs: "fv_ranges (fst ?s) = (xs @ [?p]) @ r # ys" using Cons.prems(1) by simp
    have ge: "?g \<le> ?d" "0 < ?g" "?g \<le> remain" using pos(1) 4 by (simp_all add: addrrange_end_def)
    note st = fill_step(2-) [OF 4(1,2) pos(1)]
    have d: "0 \<le> ?d - ?g" "?d - ?g < two64" using ge Cons.prems(4) st(2) by linarith+
    have g: "0 \<le> ?g" "?g < two64" using ge Cons.prems(4) by linarith+
    have u: "ulong (ulong (off + ?g) + (?d - ?g)) = ulong (off + ?d)" by (simp add: ulong_def mod_simps)
    have gb: "gap_before rg fr s ?i base off remain = Inr (?s, ?i + 1, base + ?g, ulong (off + ?g), remain - ?g)"
      using 4(3) at(2) get64_in [OF g] by (simp add: gap_before_def Let_def del: min_less_iff_conj)
    have "fv_ranges (fst ?s) ! (?i + 1) = r" unfolding rs by (simp add: nth_append)
    then have m: "min (base + ?g + (remain - ?g)) (addrrange_end (fr_addr (fv_ranges (fst ?s) ! (?i + 1)))) - (base + ?g) = ?d - ?g"
      by (simp add: min_def)
    have step: "fill_gaps rg fr s ?i base off remain = fill_gaps rg fr ?s (length (xs @ [?p, r])) (base + ?d) (ulong (off + ?d)) (remain - ?d)"
      using fill_gaps_step [OF at(1) _ _ gb m get64_in [OF d]] 4 at(2) by (simp add: u del: min_less_iff_conj)
    show ?thesis
      using tail [of ?s "xs @ [?p, r]"] st(1,2) rs 4(3)
      unfolding step fill_step(1) [OF 4(1,2) pos(1)] by simp
  qed
qed

section \<open>Rendering a region\<close>

definition sizes_ok :: "regions \<Rightarrow> bool" where
  "sizes_ok rg \<longleftrightarrow> (\<forall>p. 0 \<le> mr_size (rg p) \<and> mr_size (rg p) \<le> two64 \<and> (mr_terminates (rg p) \<longrightarrow> mr_size (rg p) < two64))"

definition overlay :: "('a \<Rightarrow> 'b option) \<Rightarrow> ('a \<Rightarrow> 'b option) \<Rightarrow> 'a \<Rightarrow> 'b option" where
  "overlay f g a = (case f a of Some x \<Rightarrow> Some x | None \<Rightarrow> g a)"

lemma overlay_assoc: "overlay (overlay f g) h = overlay f (overlay g h)"
  by (auto simp: overlay_def split: option.splits)

lemma overlay_None [simp]: "overlay f (\<lambda>_. None) = f"
  by (auto simp: overlay_def split: option.splits)

text \<open>What a rendering step promises: it succeeds, keeps the view well formed and adds the answers \<open>g\<close>
  below those of the view.\<close>

definition renders :: "FlatView \<times> refs \<Rightarrow> (int \<Rightarrow> answer option) \<Rightarrow> (FlatView \<times> refs) res \<Rightarrow> bool" where
  "renders s g r \<longleftrightarrow> (\<exists>s'. r = Inr s' \<and> flat_ok (fv_ranges (fst s'))
     \<and> view_at (fv_ranges (fst s')) = overlay (view_at (fv_ranges (fst s))) g)"

lemma rendersD:
  assumes "renders s g r"
  obtains s' where "r = Inr s'" "flat_ok (fv_ranges (fst s'))"
    "view_at (fv_ranges (fst s')) = overlay (view_at (fv_ranges (fst s))) g"
  using assms by (auto simp: renders_def)

lemma renders_id: "flat_ok (fv_ranges (fst s)) \<Longrightarrow> renders s (\<lambda>_. None) (Inr s)"
  by (simp add: renders_def)

lemma renders_trans:
  assumes "renders s g (Inr s')" "renders s' h r"
  shows "renders s (overlay g h) r"
  using assms by (fastforce simp: renders_def overlay_assoc)

lemma render_list_renders:
  assumes "\<And>c s r. c \<in> set cs \<Longrightarrow> flat_ok (fv_ranges (fst s)) \<Longrightarrow> f c s = Some r \<Longrightarrow> renders s (g c) r"
    and "flat_ok (fv_ranges (fst s))" "render_list f cs s = Some r"
  shows "renders s (\<lambda>a. first_some (\<lambda>c. g c a) cs) r"
  using assms
proof (induction cs arbitrary: s)
  case Nil
  then show ?case using renders_id [of s] by (simp del: split_paired_Ex)
next
  case (Cons c cs)
  obtain q where q: "f c s = Some q" using Cons.prems(3) by (cases "f c s") simp_all
  have h: "renders s (g c) q" using Cons.prems(1) [of c s q] Cons.prems(2) q by simp
  from h obtain t where t: "q = Inr t" "flat_ok (fv_ranges (fst t))" by (rule rendersD)
  have "render_list f cs t = Some r" using Cons.prems(3) q t(1) by simp
  then have "renders t (\<lambda>a. first_some (\<lambda>c. g c a) cs) r"
    using Cons.prems(1) t(2) by (intro Cons.IH) auto
  moreover have "overlay (g c) (\<lambda>a. first_some (\<lambda>c. g c a) cs) = (\<lambda>a. first_some (\<lambda>c. g c a) (c # cs))"
    by (simp add: overlay_def fun_eq_iff)
  ultimately show ?case using renders_trans [of s "g c" t] h t(1) by metis
qed

lemma fill_gaps_renders:
  assumes "flat_ok (fv_ranges (fst s))" "0 \<le> r_size clip" "r_size clip < two64" "b \<le> r_start clip" "addrrange_end clip - b \<le> two64"
  shows "renders s (\<lambda>a. if addrrange_contains clip a
      then Some (fr_mr fr, a - b, fr_dirty_log_mask fr, fr_romd_mode fr, fr_readonly fr) else None)
    (fill_gaps rg fr s 0 (r_start clip) (r_start clip - b) (r_size clip))"
proof -
  let ?base = "r_start clip" and ?off = "r_start clip - b" and ?remain = "r_size clip"
  obtain s' where s': "fill_gaps rg fr s 0 ?base ?off ?remain = Inr s'"
      "fv_ranges (fst s') = fill fr ?base ?off ?remain (fv_ranges (fst s))"
    using fill_gaps_fill [of s "[]" "fv_ranges (fst s)" ?remain ?off rg fr ?base] assms by (auto simp: addrrange_end_def)
  have "view_at (fv_ranges (fst s')) a = overlay (view_at (fv_ranges (fst s))) (\<lambda>a. if addrrange_contains clip a
      then Some (fr_mr fr, a - b, fr_dirty_log_mask fr, fr_romd_mode fr, fr_readonly fr) else None) a" for a
    by (simp add: s'(2) fill_view_at [OF assms(1,2)] overlay_def addrrange_contains_def addrrange_end_def split: option.split)
  then show ?thesis
    unfolding renders_def s'(1) by (intro exI [of _ s']) (simp add: s'(2) fill_ok assms fun_eq_iff)
qed

definition clipped :: "AddrRange \<Rightarrow> (int \<Rightarrow> 'b option) \<Rightarrow> int \<Rightarrow> 'b option" where
  "clipped clip g a = (if addrrange_contains clip a then g a else None)"

lemma first_some_None [simp]: "first_some (\<lambda>c. None) cs = None"
  by (induction cs) simp_all

lemma first_some_clipped:
  "first_some (\<lambda>c. clipped cl (g c) a) cs = (if addrrange_contains cl a then first_some (\<lambda>c. g c a) cs else None)"
  by (cases "addrrange_contains cl a") (simp_all add: clipped_def)

lemma intersection_facts:
  assumes "addrrange_intersects tmp clip" "0 \<le> r_size tmp" "0 \<le> r_size clip"
  shows "0 \<le> r_size (addrrange_intersection tmp clip)"
    "r_start tmp \<le> r_start (addrrange_intersection tmp clip)"
    "addrrange_end (addrrange_intersection tmp clip) \<le> addrrange_end tmp"
    "r_size tmp = 0 \<or> r_start (addrrange_intersection tmp clip) < addrrange_end tmp"
    "addrrange_contains (addrrange_intersection tmp clip) a \<longleftrightarrow> addrrange_contains tmp a \<and> addrrange_contains clip a"
  using assms
  by (auto simp: addrrange_intersects_def addrrange_intersection_def addrrange_contains_def addrrange_end_def
      addrrange_make_def Let_def)

lemma not_intersects:
  assumes "\<not> addrrange_intersects tmp clip" "0 \<le> r_size tmp" "0 \<le> r_size clip"
  shows "\<not> (addrrange_contains tmp a \<and> addrrange_contains clip a)"
  using assms by (auto simp: addrrange_intersects_def addrrange_contains_def)

lemma render_renders:
  assumes "sizes_ok rg" "flat_ok (fv_ranges (fst s))" "0 \<le> r_size clip"
    and "render_memory_region fuel gdl rg p base clip ro s = Some r"
  shows "renders s (clipped clip (region_at fuel gdl rg p base ro)) r"
  using assms(2-)
proof (induction fuel arbitrary: p base clip ro s r)
  case 0
  then show ?case by simp
next
  case (Suc fuel)
  let ?mr = "rg p"
  let ?base = "base + mr_addr ?mr"
  let ?ro = "ro \<or> mr_readonly ?mr"
  let ?tmp = "addrrange_make ?base (mr_size ?mr)"
  let ?clip = "addrrange_intersection ?tmp clip"
  have sz: "0 \<le> mr_size ?mr" "mr_size ?mr \<le> two64" "mr_terminates ?mr \<Longrightarrow> mr_size ?mr < two64"
    using assms(1) by (simp_all add: sizes_ok_def)
  have tmp: "r_size ?tmp = mr_size ?mr" "r_start ?tmp = ?base" "addrrange_end ?tmp = ?base + mr_size ?mr"
    by (simp_all add: addrrange_make_def addrrange_end_def)
  show ?case
  proof (cases "mr_enabled ?mr \<and> addrrange_intersects ?tmp clip")
    case False
    then have "clipped clip (region_at (Suc fuel) gdl rg p base ro) = (\<lambda>_. None)"
      using not_intersects [of ?tmp clip] sz(1) Suc.prems(2) by (auto simp: clipped_def fun_eq_iff region_at_Suc Let_def tmp)
    moreover have "r = Inr s" using Suc.prems(3) False by (auto simp: Let_def split: if_splits)
    ultimately show ?thesis using renders_id [OF Suc.prems(1)] by metis
  next
    case True
    note ix = intersection_facts [of ?tmp clip, unfolded tmp, OF _ sz(1) Suc.prems(2)]
    from True have ix0: "addrrange_intersects ?tmp clip" by simp
    note cl = ix(1-4) [OF ix0] and ct = ix(5) [OF ix0]
    show ?thesis
    proof (cases "mr_alias ?mr")
      case (Some al)
      let ?b = "?base - mr_addr (rg al) - mr_alias_offset ?mr"
      have "render_memory_region fuel gdl rg al ?b ?clip ?ro s = Some r"
        using Suc.prems(3) True Some by (simp add: Let_def)
      from Suc.IH [OF Suc.prems(1) cl(1) this]
      have "renders s (clipped ?clip (region_at fuel gdl rg al ?b ?ro)) r" .
      moreover have "clipped ?clip (region_at fuel gdl rg al ?b ?ro) = clipped clip (region_at (Suc fuel) gdl rg p base ro)"
        using True Some by (auto simp: clipped_def fun_eq_iff ct region_at_Suc Let_def)
      ultimately show ?thesis by simp
    next
      case None
      let ?g = "\<lambda>c. clipped ?clip (region_at fuel gdl rg c ?base ?ro)"
      let ?f = "\<lambda>c. render_memory_region fuel gdl rg c ?base ?clip ?ro"
      obtain q where q: "render_list ?f (mr_subregions ?mr) s = Some q"
        using Suc.prems(3) True None by (cases "render_list ?f (mr_subregions ?mr) s") (simp_all add: Let_def)
      have subs: "renders s (\<lambda>a. first_some (\<lambda>c. ?g c a) (mr_subregions ?mr)) q"
        by (rule render_list_renders [OF _ Suc.prems(1) q]) (rule Suc.IH [OF _ cl(1)])
      then obtain t where t: "q = Inr t" "flat_ok (fv_ranges (fst t))" by (rule rendersD)
      note fs = first_some_clipped [of ?clip]
      show ?thesis
      proof (cases "mr_terminates ?mr")
        case False
        then have "r = q" using Suc.prems(3) True None q t(1) by (simp add: Let_def)
        moreover have "(\<lambda>a. first_some (\<lambda>c. ?g c a) (mr_subregions ?mr)) = clipped clip (region_at (Suc fuel) gdl rg p base ro)"
          unfolding fs using True None False by (auto simp: clipped_def fun_eq_iff ct region_at_Suc Let_def split: option.splits)
        ultimately show ?thesis using subs by simp
      next
        case tt: True
        let ?off = "r_start ?clip - ?base"
        let ?fr = "\<lparr>fr_mr = p, fr_offset_in_region = ?off, fr_addr = ?clip,
          fr_dirty_log_mask = memory_region_get_dirty_log_mask gdl ?mr, fr_romd_mode = mr_romd_mode ?mr, fr_readonly = ?ro\<rparr>"
        have b: "0 \<le> ?off" "?off < two64" "r_size ?clip < two64" "?base \<le> r_start ?clip" "addrrange_end ?clip - ?base \<le> two64"
          using cl sz(3) [OF tt] sz(1) by (auto simp: addrrange_end_def)
        have r: "r = fill_gaps rg ?fr t 0 (r_start ?clip) ?off (r_size ?clip)"
          using Suc.prems(3) True None q t(1) tt get64_in [OF b(1,2)] by (simp add: Let_def)
        have own: "renders t (\<lambda>a. if addrrange_contains ?clip a
            then Some (p, a - ?base, memory_region_get_dirty_log_mask gdl ?mr, mr_romd_mode ?mr, ?ro) else None) r"
          unfolding r using fill_gaps_renders [OF t(2) cl(1) b(3-5), where rg = rg and fr = ?fr] by (simp cong: if_cong)
        have "overlay (\<lambda>a. first_some (\<lambda>c. ?g c a) (mr_subregions ?mr)) (\<lambda>a. if addrrange_contains ?clip a
            then Some (p, a - ?base, memory_region_get_dirty_log_mask gdl ?mr, mr_romd_mode ?mr, ?ro) else None)
          = clipped clip (region_at (Suc fuel) gdl rg p base ro)"
          unfolding fs using True None tt by (auto simp: overlay_def clipped_def fun_eq_iff ct region_at_Suc Let_def split: option.splits)
        then show ?thesis using renders_trans [OF subs [unfolded t(1)] own] by simp
      qed
    qed
  qed
qed

text \<open>Enough fuel: any number above the depth of the graph.\<close>

definition ranked :: "(nat \<Rightarrow> nat) \<Rightarrow> regions \<Rightarrow> bool" where
  "ranked rk rg \<longleftrightarrow> (\<forall>p. (\<forall>al. mr_alias (rg p) = Some al \<longrightarrow> rk al < rk p) \<and> (\<forall>c\<in>set (mr_subregions (rg p)). rk c < rk p))"

lemma ranked_alias: "ranked rk rg \<Longrightarrow> rk p < Suc n \<Longrightarrow> mr_alias (rg p) = Some al \<Longrightarrow> rk al < n"
  by (fastforce simp: ranked_def)

lemma ranked_sub: "ranked rk rg \<Longrightarrow> rk p < Suc n \<Longrightarrow> c \<in> set (mr_subregions (rg p)) \<Longrightarrow> rk c < n"
  by (fastforce simp: ranked_def)

lemma render_list_total: "(\<And>c s. c \<in> set cs \<Longrightarrow> f c s \<noteq> None) \<Longrightarrow> render_list f cs s \<noteq> None"
proof (induction cs arbitrary: s)
  case (Cons c cs)
  then obtain q where "f c s = Some q" by fastforce
  then show ?case using Cons by (auto split: sum.splits)
qed simp

lemma render_total:
  assumes "ranked rk rg" "rk p < fuel"
  shows "render_memory_region fuel gdl rg p base clip ro s \<noteq> None"
  using assms(2)
proof (induction fuel arbitrary: p base clip ro s)
  case (Suc fuel)
  have "render_list (\<lambda>c. render_memory_region fuel gdl rg c b cl r) (mr_subregions (rg p)) s \<noteq> None" for b cl r
    by (intro render_list_total Suc.IH ranked_sub [OF assms(1) Suc.prems])
  moreover have "render_memory_region fuel gdl rg al b cl r s \<noteq> None" if "mr_alias (rg p) = Some al" for al b cl r
    by (intro Suc.IH ranked_alias [OF assms(1) Suc.prems that])
  ultimately show ?case by (simp add: Let_def del: not_None_eq split: option.split sum.split)
qed simp

lemma first_some_cong: "(\<And>c. c \<in> set cs \<Longrightarrow> f c = g c) \<Longrightarrow> first_some f cs = first_some g cs"
  by (induction cs) (auto split: option.splits)

lemma region_at_fuel:
  assumes "ranked rk rg" "rk p < n" "rk p < m"
  shows "region_at n gdl rg p base ro a = region_at m gdl rg p base ro a"
  using assms(2-)
proof (induction n arbitrary: m p base ro)
  case (Suc n)
  obtain k where k: "m = Suc k" using Suc.prems(2) by (cases m) auto
  note rk = Suc.prems(1) Suc.prems(2) [unfolded k]
  have "first_some (\<lambda>c. region_at n gdl rg c b r a) (mr_subregions (rg p)) = first_some (\<lambda>c. region_at k gdl rg c b r a) (mr_subregions (rg p))" for b r
    by (intro first_some_cong Suc.IH ranked_sub [OF assms(1) rk(1)] ranked_sub [OF assms(1) rk(2)])
  moreover have "region_at n gdl rg al b r a = region_at k gdl rg al b r a" if "mr_alias (rg p) = Some al" for al b r
    by (intro Suc.IH ranked_alias [OF assms(1) rk(1) that] ranked_alias [OF assms(1) rk(2) that])
  ultimately show ?case by (simp add: k region_at_Suc Let_def split: option.splits)
qed simp

section \<open>Invariants of every insertion\<close>

lemma gap_before_inv:
  assumes "\<And>pos fr t. Q t \<Longrightarrow> Q (flatview_insert rg pos fr t)" "Q s"
    and "gap_before rg fr s i base off remain = Inr (s', i', b', f', r')"
  shows "Q s'"
  using assms(2,3) by (auto simp: gap_before_def Let_def res_bind_Inr_iff split: if_splits intro: assms(1))

lemma fill_gaps_inv:
  assumes ins: "\<And>pos fr t. Q t \<Longrightarrow> Q (flatview_insert rg pos fr t)"
    and "Q s" "fill_gaps rg fr s i base off remain = Inr s'"
  shows "Q s'"
proof -
  have "(\<forall>pos fr t. Q t \<longrightarrow> Q (flatview_insert rg pos fr t)) \<longrightarrow> Q s \<longrightarrow> fill_gaps rg fr s i base off remain = Inr s' \<longrightarrow> Q s'"
  proof (induction rg fr s i base off remain rule: fill_gaps.induct)
    case (1 rg fr s i base off remain)
    show ?case
    proof (intro impI)
      assume q: "\<forall>pos fr t. Q t \<longrightarrow> Q (flatview_insert rg pos fr t)" "Q s" "fill_gaps rg fr s i base off remain = Inr s'"
      have g: "Q t" if "gap_before rg fr s i base off remain = Inr (t, x)" for t x
        using gap_before_inv [of Q rg s] q(1,2) that by (cases x) blast
      show "Q s'"
        using q(3) 1 q(1,2) g unfolding fill_gaps.simps [of rg fr s i base off remain]
        by (auto simp: Let_def split: if_splits sum.splits)
    qed
  qed
  then show ?thesis using assms by blast
qed

lemma render_list_inv:
  assumes "\<And>c t t'. Q t \<Longrightarrow> f c t = Some (Inr t') \<Longrightarrow> Q t'" "Q s" "render_list f cs s = Some (Inr s')"
  shows "Q s'"
  using assms(2,3)
  by (induction cs arbitrary: s) (auto split: option.splits sum.splits dest: assms(1))

lemma render_inv:
  assumes ins: "\<And>pos fr t. Q t \<Longrightarrow> Q (flatview_insert rg pos fr t)"
    and "Q s" "render_memory_region fuel gdl rg p base clip ro s = Some (Inr s')"
  shows "Q s'"
  using assms(2,3)
proof (induction fuel arbitrary: p base clip ro s s')
  case (Suc fuel)
  have l: "Q t" if "render_list (\<lambda>c. render_memory_region fuel gdl rg c b cl r) (mr_subregions (rg p)) s = Some (Inr t)" for b cl r t
    by (rule render_list_inv [where Q = Q, OF _ Suc.prems(1) that]) (rule Suc.IH)
  have fg: "Q t'" if "fill_gaps rg fr t i b f r = Inr t'" "Q t" for fr t i b f r t'
    by (rule fill_gaps_inv [where Q = Q, OF ins that(2,1)])
  show ?case
    using Suc.prems
    by (auto simp: Let_def res_bind_Inr_iff split: if_splits option.splits sum.splits
        intro: Suc.IH dest!: l dest: fg)
qed simp

end
