(* ===== verification/Flat_Simplify.thy ===== *)
theory Flat_Simplify
  imports Flat_Render
begin

text \<open>
  Merging neighbours (\<open>flatview_simplify\<close>), the whole of a rendered topology, the references a view holds
  on the owners of its regions, and the choice of the root that views are shared by.
\<close>

section \<open>Merging neighbours\<close>

text \<open>The two nested loops as one recursion: \<open>acc\<close> is the range that grows, \<open>lst\<close> the range merged last.\<close>

fun merge_from :: "FlatRange \<Rightarrow> FlatRange \<Rightarrow> FlatRange list \<Rightarrow> FlatRange list" where
  "merge_from acc lst [] = [acc]"
| "merge_from acc lst (r # rs) =
     (if can_merge lst r then merge_from (grow acc (r_size (fr_addr r))) r rs else acc # merge_from r r rs)"

definition merge_all :: "FlatRange list \<Rightarrow> FlatRange list" where
  "merge_all rs = (case rs of [] \<Rightarrow> [] | r # rs \<Rightarrow> merge_from r r rs)"

lemma grow_sel [simp]:
  "fr_mr (grow r n) = fr_mr r" "fr_offset_in_region (grow r n) = fr_offset_in_region r"
  "fr_dirty_log_mask (grow r n) = fr_dirty_log_mask r" "fr_romd_mode (grow r n) = fr_romd_mode r"
  "fr_readonly (grow r n) = fr_readonly r" "r_start (fr_addr (grow r n)) = r_start (fr_addr r)"
  "r_size (fr_addr (grow r n)) = r_size (fr_addr r) + n" "addrrange_end (fr_addr (grow r n)) = addrrange_end (fr_addr r) + n"
  by (simp_all add: grow_def addrrange_end_def)

lemma simplify_inner_merge:
  assumes "rs = xs @ acc # mid @ zs" "lst = last (acc # mid)"
    and "simplify_inner (length xs) (length xs + 1 + length mid) rs = (rs', j)"
  shows "\<exists>acc' zs'. take (length xs + 1) rs' @ drop j rs' = (xs @ [acc']) @ zs' \<and> length zs' \<le> length zs
    \<and> merge_from acc lst zs = acc' # merge_all zs'"
  using assms
proof (induction zs arbitrary: acc mid rs lst)
  case Nil
  then show ?case by (auto simp: simplify_inner.simps merge_all_def)
next
  case (Cons z zs)
  let ?i = "length xs"
  have at: "rs ! (?i + 1 + length mid) = z" "rs ! ?i = acc" "?i + 1 + length mid < length rs"
    using Cons.prems(1) by (simp_all add: nth_append)
  have pr: "rs ! (?i + 1 + length mid - 1) = lst"
    using Cons.prems(1,2) by (cases mid rule: rev_cases) (simp_all add: nth_append)
  show ?case
  proof (cases "can_merge lst z")
    case True
    let ?acc = "grow acc (r_size (fr_addr z))"
    have "rs[?i := ?acc] = xs @ ?acc # (mid @ [z]) @ zs" using Cons.prems(1) by simp
    moreover have "z = last (?acc # mid @ [z])" by simp
    moreover have "simplify_inner ?i (?i + 1 + length (mid @ [z])) (rs[?i := ?acc]) = (rs', j)"
      using Cons.prems(3) True at pr by (subst (asm) simplify_inner.simps) simp
    ultimately have "\<exists>acc' zs'. take (?i + 1) rs' @ drop j rs' = (xs @ [acc']) @ zs' \<and> length zs' \<le> length zs
        \<and> merge_from ?acc z zs = acc' # merge_all zs'"
      by (rule Cons.IH)
    then show ?thesis using True by auto
  next
    case False
    have "simplify_inner ?i (?i + 1 + length mid) rs = (rs, ?i + 1 + length mid)"
      using False pr at(1) by (subst simplify_inner.simps) simp
    then have "rs' = rs" "j = ?i + 1 + length mid" using Cons.prems(3) by simp_all
    then show ?thesis using Cons.prems(1) False by (intro exI [of _ acc] exI [of _ "z # zs"]) (simp add: merge_all_def)
  qed
qed

lemma simplify_outer_merge: "simplify_outer (length xs) (xs @ ys) = xs @ merge_all ys"
proof (induction "length ys" arbitrary: xs ys rule: less_induct)
  case less
  show ?case
  proof (cases ys)
    case Nil
    then show ?thesis by (simp add: simplify_outer.simps merge_all_def)
  next
    case (Cons y zs)
    obtain rs' j where r: "simplify_inner (length xs) (length xs + 1) (xs @ ys) = (rs', j)" by (cases "simplify_inner (length xs) (length xs + 1) (xs @ ys)")
    obtain acc' zs' where a: "take (length xs + 1) rs' @ drop j rs' = (xs @ [acc']) @ zs'" "length zs' \<le> length zs"
        "merge_from y y zs = acc' # merge_all zs'"
      using simplify_inner_merge [of "xs @ ys" xs y "[]" zs y rs' j] r Cons by auto
    have "simplify_outer (length xs) (xs @ ys) = simplify_outer (length (xs @ [acc'])) ((xs @ [acc']) @ zs')"
      using Cons r a(1) by (subst simplify_outer.simps) simp
    also have "\<dots> = (xs @ [acc']) @ merge_all zs'" using a(2) Cons by (intro less) simp
    finally show ?thesis using a(3) Cons by (simp add: merge_all_def)
  qed
qed

lemma flatview_simplify_merge: "fv_ranges (flatview_simplify view) = merge_all (fv_ranges view)"
  using simplify_outer_merge [of "[]"] by (simp add: flatview_simplify_def)

text \<open>\<open>acc\<close> has absorbed everything up to and including \<open>lst\<close>.\<close>

definition absorbed :: "FlatRange \<Rightarrow> FlatRange \<Rightarrow> bool" where
  "absorbed acc lst \<longleftrightarrow> addrrange_end (fr_addr acc) = addrrange_end (fr_addr lst) \<and> fr_mr acc = fr_mr lst
     \<and> fr_offset_in_region acc + r_size (fr_addr acc) = fr_offset_in_region lst + r_size (fr_addr lst)
     \<and> fr_dirty_log_mask acc = fr_dirty_log_mask lst \<and> fr_romd_mode acc = fr_romd_mode lst \<and> fr_readonly acc = fr_readonly lst"

lemma absorbed_refl [simp]: "absorbed r r"
  by (simp add: absorbed_def)

lemma absorbed_can_merge: "absorbed acc lst \<Longrightarrow> can_merge lst r = can_merge acc r"
  by (auto simp: absorbed_def can_merge_def)

lemma absorbed_grow: "absorbed acc lst \<Longrightarrow> can_merge lst r \<Longrightarrow> absorbed (grow acc (r_size (fr_addr r))) r"
  by (auto simp: absorbed_def can_merge_def addrrange_end_def)

lemma can_merge_grow: "can_merge q (grow r n) = can_merge q r"
  by (simp add: can_merge_def)

lemma merge_from_Cons: "\<exists>h t. merge_from acc lst rs = h # t"
  by (induction rs arbitrary: acc lst) auto

lemma view_at_Cons:
  "view_at (r # rs) a = (if addrrange_contains (fr_addr r) a then Some (fr_answer r a) else view_at rs a)"
  by (simp add: view_at_def)

lemma view_at_grow:
  assumes "can_merge acc r" "0 < r_size (fr_addr acc)" "0 < r_size (fr_addr r)"
  shows "view_at (grow acc (r_size (fr_addr r)) # rs) a = view_at (acc # r # rs) a"
proof -
  let ?g = "grow acc (r_size (fr_addr r))"
  have c: "addrrange_contains (fr_addr ?g) a \<longleftrightarrow> addrrange_contains (fr_addr acc) a \<or> addrrange_contains (fr_addr r) a"
    using assms by (auto simp: addrrange_contains_def can_merge_def addrrange_end_def)
  have "addrrange_contains (fr_addr r) a \<Longrightarrow> fr_answer ?g a = fr_answer r a"
    using assms(1) by (auto simp: fr_answer_def can_merge_def addrrange_end_def)
  moreover have "fr_answer ?g a = fr_answer acc a" by (simp add: fr_answer_def)
  ultimately show ?thesis unfolding view_at_Cons c by auto
qed

lemma merge_from_spec:
  assumes "absorbed acc lst" "flat_ok (acc # rs)"
  shows "flat_ok (merge_from acc lst rs) \<and> view_at (merge_from acc lst rs) a = view_at (acc # rs) a
    \<and> successively (\<lambda>r s. \<not> can_merge r s) (merge_from acc lst rs)
    \<and> r_start (fr_addr (hd (merge_from acc lst rs))) = r_start (fr_addr acc)
    \<and> (\<forall>q. can_merge q (hd (merge_from acc lst rs)) = can_merge q acc)
    \<and> (\<forall>s\<in>set (merge_from acc lst rs). r_start (fr_addr acc) \<le> r_start (fr_addr s))"
  using assms
proof (induction rs arbitrary: acc lst)
  case Nil
  then show ?case by simp
next
  case (Cons r rs)
  have ok: "0 < r_size (fr_addr acc)" "0 < r_size (fr_addr r)" "flat_ok (r # rs)" "addrrange_end (fr_addr acc) \<le> r_start (fr_addr r)"
    using Cons.prems(2) by auto
  show ?case
  proof (cases "can_merge lst r")
    case True
    let ?g = "grow acc (r_size (fr_addr r))"
    have m: "can_merge acc r" using True absorbed_can_merge [OF Cons.prems(1)] by simp
    have "flat_ok (?g # rs)" using Cons.prems(2) m by (auto simp: can_merge_def addrrange_end_def)
    from Cons.IH [OF absorbed_grow [OF Cons.prems(1) True] this] show ?thesis
      using True view_at_grow [OF m ok(1,2)] by (simp add: can_merge_grow)
  next
    case False
    have f: "\<not> can_merge acc r" using False absorbed_can_merge [OF Cons.prems(1)] by simp
    note ih = Cons.IH [OF absorbed_refl ok(3)]
    obtain h t where ht: "merge_from r r rs = h # t" using merge_from_Cons by blast
    have lo: "\<forall>s\<in>set (merge_from r r rs). addrrange_end (fr_addr acc) \<le> r_start (fr_addr s)"
      using ih ok(4) by force
    have "r_start (fr_addr acc) \<le> addrrange_end (fr_addr acc)" using ok(1) by (simp add: addrrange_end_def)
    then show ?thesis using False f ih lo ht ok(1) by (auto simp: view_at_Cons)
  qed
qed

lemma merge_all_spec:
  assumes "flat_ok rs"
  shows "flat_ok (merge_all rs)" "view_at (merge_all rs) a = view_at rs a"
    "successively (\<lambda>r s. \<not> can_merge r s) (merge_all rs)"
  using assms merge_from_spec [OF absorbed_refl, of _ _ a] by (cases rs; simp add: merge_all_def)+

section \<open>The shared root\<close>

text \<open>Containers and aliases are not read-only and alias targets sit at offset 0, as in the address spaces
  QEMU builds.\<close>

definition plain_roots :: "regions \<Rightarrow> bool" where
  "plain_roots rg \<longleftrightarrow> (\<forall>q. (mr_alias (rg q) \<noteq> None \<or> \<not> mr_terminates (rg q) \<longrightarrow> \<not> mr_readonly (rg q))
     \<and> (\<forall>al. mr_alias (rg q) = Some al \<longrightarrow> mr_addr (rg al) = 0))"

lemma sole_child_one:
  "sole_child rg mr cs 1 nxt = (found, r) \<Longrightarrow> found \<noteq> 0 \<and> (r = Some c \<longrightarrow> nxt = Some c \<and> (\<forall>x\<in>set cs. \<not> mr_enabled (rg x)))"
  by (induction cs) (auto split: if_splits)

lemma sole_child_none:
  assumes "sole_child rg mr cs 0 None = (found, r)"
  shows "(found = 0 \<longrightarrow> (\<forall>x\<in>set cs. \<not> mr_enabled (rg x)))
    \<and> (r = Some c \<longrightarrow> mr_addr (rg c) = 0 \<and> mr_size (rg c) \<le> mr_size mr \<and> mr_enabled (rg c) \<and> c \<in> set cs
       \<and> (\<forall>x\<in>set cs. x \<noteq> c \<longrightarrow> \<not> mr_enabled (rg x)))"
  using assms
proof (induction cs)
  case (Cons x cs)
  show ?case
  proof (cases "mr_enabled (rg x)")
    case True
    with Cons.prems sole_child_one [of rg mr cs _ found r c] show ?thesis by (auto split: if_splits)
  next
    case False
    then show ?thesis using Cons by auto
  qed
qed simp

lemma region_at_disabled: "\<not> mr_enabled (rg p) \<Longrightarrow> region_at n gdl rg p base ro a = None"
  by (cases n) (simp_all add: region_at_Suc Let_def)

lemma first_some_disabled:
  "(\<forall>x\<in>set cs. \<not> mr_enabled (rg x)) \<Longrightarrow> first_some (\<lambda>c. region_at n gdl rg c base ro a) cs = None"
  by (induction cs) (simp_all add: region_at_disabled)

lemma first_some_sole:
  assumes "c \<in> set cs" "\<forall>x\<in>set cs. x \<noteq> c \<longrightarrow> \<not> mr_enabled (rg x)"
  shows "first_some (\<lambda>c. region_at n gdl rg c base ro a) cs = region_at n gdl rg c base ro a"
  using assms
proof (induction cs)
  case (Cons x cs)
  show ?case
  proof (cases "x = c")
    case True
    show ?thesis
    proof (cases "c \<in> set cs")
      case False
      then have "\<forall>x\<in>set cs. \<not> mr_enabled (rg x)" using Cons.prems(2) by auto
      then show ?thesis using True by (simp add: first_some_disabled split: option.split)
    qed (use Cons True in \<open>simp split: option.split\<close>)
  next
    case False
    then show ?thesis using Cons by (simp add: region_at_disabled)
  qed
qed simp

lemma region_at_outside:
  "\<not> (base + mr_addr (rg p) \<le> a \<and> a < base + mr_addr (rg p) + mr_size (rg p)) \<Longrightarrow> region_at n gdl rg p base ro a = None"
  by (cases n) (auto simp: region_at_Suc Let_def addrrange_contains_def addrrange_make_def addrrange_end_def)

lemma root_alias_step:
  assumes "plain_roots rg" "mr_addr (rg p) = 0" "mr_enabled (rg p)" "mr_alias (rg p) = Some al"
    and "mr_alias_offset (rg p) = 0" "mr_size (rg al) \<le> mr_size (rg p)"
  shows "region_at (Suc n) gdl rg p 0 False a = region_at n gdl rg al 0 False a"
proof -
  have "mr_addr (rg al) = 0" "\<not> mr_readonly (rg p)" using assms(1,4) by (auto simp: plain_roots_def)
  then show ?thesis
    using assms region_at_outside [of 0 rg al a n gdl False]
    by (auto simp: region_at_Suc Let_def addrrange_contains_def addrrange_make_def addrrange_end_def)
qed

lemma root_child_step:
  assumes "plain_roots rg" "mr_addr (rg p) = 0" "mr_enabled (rg p)" "mr_alias (rg p) = None" "\<not> mr_terminates (rg p)"
    and "sole_child rg (rg p) (mr_subregions (rg p)) 0 None = (found, Some c)"
  shows "region_at (Suc n) gdl rg p 0 False a = region_at n gdl rg c 0 False a"
proof -
  note sc = sole_child_none [OF assms(6), of c, simplified]
  have "\<not> mr_readonly (rg p)" using assms(1,5) by (auto simp: plain_roots_def)
  moreover have "first_some (\<lambda>c. region_at n gdl rg c 0 False a) (mr_subregions (rg p)) = region_at n gdl rg c 0 False a"
    using sc by (intro first_some_sole) auto
  ultimately show ?thesis
    using assms(2-5) sc region_at_outside [of 0 rg c a n gdl False]
    by (auto simp: region_at_Suc Let_def addrrange_contains_def addrrange_make_def addrrange_end_def split: option.split)
qed

lemma flatview_root_rank:
  assumes "ranked rk rg" "memory_region_get_flatview_root n rg q = Some (Some r)"
  shows "rk r \<le> rk q"
  using assms(2)
proof (induction n arbitrary: q)
  case (Suc n)
  show ?case
    using Suc.prems assms(1) Suc.IH
    by (fastforce simp: Let_def ranked_def dest: sole_child_none less_imp_le split: if_splits option.splits prod.splits)
qed simp

lemma flatview_root_spec:
  assumes "plain_roots rg" "ranked rk rg" "mr_addr (rg p) = 0" "rk p < fuel"
  shows "\<exists>q. memory_region_get_flatview_root fuel rg p = Some q
    \<and> (\<forall>gdl a. region_at fuel gdl rg p 0 False a = (case q of None \<Rightarrow> None | Some q \<Rightarrow> region_at fuel gdl rg q 0 False a))"
  using assms(3,4)
proof (induction fuel arbitrary: p)
  case (Suc fuel)
  have skip: "\<exists>q. memory_region_get_flatview_root fuel rg c = Some q
      \<and> (\<forall>gdl a. region_at fuel gdl rg c 0 False a = (case q of None \<Rightarrow> None | Some q \<Rightarrow> region_at (Suc fuel) gdl rg q 0 False a))"
    if c: "mr_addr (rg c) = 0" "rk c < fuel" for c
  proof -
    obtain q where q: "memory_region_get_flatview_root fuel rg c = Some q"
        "\<forall>gdl a. region_at fuel gdl rg c 0 False a = (case q of None \<Rightarrow> None | Some q \<Rightarrow> region_at fuel gdl rg q 0 False a)"
      using Suc.IH [OF c] by blast
    have "region_at fuel gdl rg r 0 False a = region_at (Suc fuel) gdl rg r 0 False a" if "q = Some r" for gdl a r
      using flatview_root_rank [OF assms(2), of fuel c r] q(1) that c(2) by (intro region_at_fuel [OF assms(2)]) simp_all
    then show ?thesis using q by (auto split: option.splits)
  qed
  show ?case
  proof (cases "mr_enabled (rg p)")
    case False
    then show ?thesis by (simp add: region_at_disabled)
  next
    case en: True
    show ?thesis
    proof (cases "mr_alias (rg p)")
      case (Some al)
      show ?thesis
      proof (cases "mr_alias_offset (rg p) = 0 \<and> mr_size (rg al) \<le> mr_size (rg p)")
        case True
        then show ?thesis
          using en Some skip [of al] assms(1) ranked_alias [OF assms(2) Suc.prems(2) Some]
            root_alias_step [OF assms(1) Suc.prems(1) en Some]
          by (auto simp: plain_roots_def)
      qed (use en Some in auto)
    next
      case None
      obtain found nxt where sc: "sole_child rg (rg p) (mr_subregions (rg p)) 0 None = (found, nxt)" by (rule prod.exhaust)
      show ?thesis
      proof (cases "mr_terminates (rg p) \<or> found \<noteq> 0 \<and> nxt = None")
        case True
        then show ?thesis using en None sc by (auto simp: Let_def)
      next
        case False
        show ?thesis
        proof (cases "found = 0")
          case True
          then have "\<forall>x\<in>set (mr_subregions (rg p)). \<not> mr_enabled (rg x)" using sole_child_none [OF sc] by simp
          then show ?thesis using True en None sc False by (simp add: region_at_Suc Let_def first_some_disabled)
        next
          case f: False
          then obtain c where c: "nxt = Some c" using False by (cases nxt) auto
          note sc' = sole_child_none [OF sc, of c, unfolded c, simplified]
          show ?thesis
            using en None sc False f c sc' skip [of c] ranked_sub [OF assms(2) Suc.prems(2), of c]
              root_child_step [OF assms(1) Suc.prems(1) en None _ sc [unfolded c]]
            by auto
        qed
      qed
    qed
  qed
qed simp

section \<open>References\<close>

definition owned :: "regions \<Rightarrow> nat \<Rightarrow> FlatRange list \<Rightarrow> int" where
  "owned rg ob rs = int (length (filter (\<lambda>r. mr_owner (rg (fr_mr r)) = Some ob) rs))"

definition view_inv :: "regions \<Rightarrow> refs \<Rightarrow> nat option \<Rightarrow> FlatView \<times> refs \<Rightarrow> bool" where
  "view_inv rg cs root s \<longleftrightarrow> fv_root (fst s) = root \<and> fv_ref (fst s) = 1 \<and> length (fv_ranges (fst s)) \<le> fv_nr_allocated (fst s)
     \<and> (\<forall>ob. snd s ob = cs ob + owned rg ob (fv_ranges (fst s)))"

lemma owned_simps [simp]:
  "owned rg ob [] = 0"
  "owned rg ob (r # rs) = (if mr_owner (rg (fr_mr r)) = Some ob then 1 else 0) + owned rg ob rs"
  "owned rg ob (rs @ rs') = owned rg ob rs + owned rg ob rs'"
  by (simp_all add: owned_def)

lemma owned_take_drop: "owned rg ob (take n rs) + owned rg ob (drop n rs) = owned rg ob rs"
  by (metis append_take_drop_id owned_simps(3))

lemma view_inv_insert:
  assumes "view_inv rg cs root s"
  shows "view_inv rg cs root (flatview_insert rg pos fr s)"
  using assms owned_take_drop [of rg _ pos "fv_ranges (fst s)"]
  by (cases s) (auto simp: view_inv_def flatview_insert_def Let_def memory_region_ref_def algebra_simps split: option.splits)

lemma unref_fold:
  "fold (\<lambda>r cs. memory_region_unref rg (Some (fr_mr r)) cs) rs cs ob = cs ob - owned rg ob rs"
  by (induction rs arbitrary: cs) (auto simp: memory_region_unref_def split: option.splits)

lemma ref_unref: "memory_region_unref rg p (\<lambda>ob. memory_region_ref rg p cs ob + f ob) = (\<lambda>ob. cs ob + f ob)"
  by (auto simp: memory_region_ref_def memory_region_unref_def fun_eq_iff split: option.splits)

lemma owned_nonneg: "0 \<le> owned rg ob rs"
  by (simp add: owned_def)

lemma merge_from_owned: "owned rg ob (merge_from acc lst rs) \<le> owned rg ob (acc # rs)"
proof (induction rs arbitrary: acc lst)
  case (Cons r rs)
  show ?case
    using Cons.IH [of "grow acc (r_size (fr_addr r))" r] Cons.IH [of r r] by (simp split: if_splits)
qed simp

lemma merge_all_owned: "owned rg ob (merge_all rs) \<le> owned rg ob rs"
  using merge_from_owned by (auto simp: merge_all_def split: list.split)

lemma flatview_new_inv: "view_inv rg (memory_region_ref rg root cs) root (flatview_new rg root cs)"
  by (simp add: view_inv_def flatview_new_def)

lemma destroy_refs:
  assumes "view_inv rg (memory_region_ref rg root cs) root (view, cs')"
  shows "flatview_destroy rg view cs' = cs"
    and "flatview_destroy rg (flatview_simplify view) cs' ob = cs ob + (owned rg ob (fv_ranges view) - owned rg ob (merge_all (fv_ranges view)))"
proof -
  have root: "fv_root view = root" "cs' = (\<lambda>ob. memory_region_ref rg root cs ob + owned rg ob (fv_ranges view))"
    using assms by (auto simp: view_inv_def fun_eq_iff)
  have f: "fold (\<lambda>r cs. memory_region_unref rg (Some (fr_mr r)) cs) rs cs' =
      (\<lambda>ob. memory_region_ref rg root cs ob + (owned rg ob (fv_ranges view) - owned rg ob rs))" for rs
    by (simp add: fun_eq_iff unref_fold root(2))
  show "flatview_destroy rg view cs' = cs"
    unfolding flatview_destroy_def f root(1) ref_unref by simp
  have "fv_root (flatview_simplify view) = root" by (simp add: flatview_simplify_def root(1))
  then show "flatview_destroy rg (flatview_simplify view) cs' ob = cs ob + (owned rg ob (fv_ranges view) - owned rg ob (merge_all (fv_ranges view)))"
    unfolding flatview_destroy_def f flatview_simplify_merge by (simp only: ref_unref)
qed

section \<open>A sample topology\<close>

text \<open>A container with two aliases that map the two halves of one RAM region next to each other.\<close>

definition plain_region :: MemoryRegion where
  "plain_region = \<lparr>mr_romd_mode = True, mr_ram = False, mr_subpage = False, mr_readonly = False, mr_rom_device = False,
     mr_flush_coalesced_mmio = False, mr_global_locking = True, mr_dirty_log_mask = 0, mr_is_iommu = False,
     mr_ram_block = None, mr_owner = None, mr_endianness = DEVICE_NATIVE_ENDIAN, mr_container = None,
     mr_size = 0, mr_addr = 0, mr_align = 0, mr_terminates = False, mr_ram_device = False, mr_enabled = True,
     mr_vga_logging_count = 0, mr_alias = None, mr_alias_offset = 0, mr_priority = 0, mr_subregions = [],
     mr_coalesced = [], mr_ioeventfds = [], mr_format = MEM_BACKEND_FORMAT_RAW\<rparr>"

definition demo_regions :: regions where
  "demo_regions p =
     (if p = 0 then plain_region\<lparr>mr_size := 18446744073709551616, mr_subregions := [1, 2]\<rparr>
      else if p = 1 then plain_region\<lparr>mr_size := 4096, mr_alias := Some 3\<rparr>
      else if p = 2 then plain_region\<lparr>mr_addr := 4096, mr_size := 4096, mr_alias := Some 3, mr_alias_offset := 4096\<rparr>
      else if p = 3 then plain_region\<lparr>mr_size := 8192, mr_terminates := True, mr_ram := True, mr_owner := Some 7\<rparr>
      else plain_region\<lparr>mr_enabled := False\<rparr>)"

definition demo_rank :: "nat \<Rightarrow> nat" where
  "demo_rank p = (if p = 0 then 2 else if p = 1 \<or> p = 2 then 1 else 0)"

lemma demo_ok: "sizes_ok demo_regions" "ranked demo_rank demo_regions" "plain_roots demo_regions"
  by (auto simp: sizes_ok_def ranked_def plain_roots_def demo_regions_def plain_region_def demo_rank_def)

lemma render_resolves:
  assumes "sizes_ok rg" "ranked rk rg" "rk p < fuel"
  shows "\<exists>view cs'. render_topology fuel gdl rg (Some p) cs = Some (Inr (view, cs')) \<and> flat_ok (fv_ranges view) \<and> in_space (fv_ranges view)
    \<and> successively (\<lambda>r s. \<not> can_merge r s) (fv_ranges view)
    \<and> (\<forall>a. 0 \<le> a \<and> a < 18446744073709551616 \<longrightarrow> view_at (fv_ranges view) a = region_at fuel gdl rg p 0 False a)"
proof -
  let ?s = "flatview_new rg (Some p) cs" and ?clip = "addrrange_make 0 18446744073709551616"
  obtain r where r: "render_memory_region fuel gdl rg p 0 ?clip False ?s = Some r"
    using render_total [OF assms(2,3)] by blast
  have new: "fv_ranges (fst ?s) = []" by (simp add: flatview_new_def)
  have "renders ?s (clipped ?clip (region_at fuel gdl rg p 0 False)) r"
    by (rule render_renders [OF assms(1) _ _ r]) (simp_all add: new addrrange_make_def)
  then obtain v cs' where v: "r = Inr (v, cs')" "flat_ok (fv_ranges v)"
      "view_at (fv_ranges v) = clipped ?clip (region_at fuel gdl rg p 0 False)"
    by (elim rendersD) (force simp: new overlay_def view_at_def)
  note m = merge_all_spec [OF v(2)]
  have "in_space (merge_all (fv_ranges v))"
    unfolding in_space_def
  proof (intro ballI)
    fix q assume q: "q \<in> set (merge_all (fv_ranges v))"
    have sz: "0 < r_size (fr_addr q)" using m(1) q by (simp add: flat_ok_def)
    have in_clip: "addrrange_contains ?clip a" if "addrrange_contains (fr_addr q) a" for a
      using view_at_Some [OF m(1) q that] m(2) [of a] v(3) by (auto simp: clipped_def split: if_splits)
    from in_clip [of "r_start (fr_addr q)"] in_clip [of "addrrange_end (fr_addr q) - 1"] sz
    show "0 \<le> r_start (fr_addr q) \<and> addrrange_end (fr_addr q) \<le> 18446744073709551616"
      by (auto simp: addrrange_contains_def addrrange_end_def addrrange_make_def)
  qed
  moreover have "view_at (merge_all (fv_ranges v)) a = region_at fuel gdl rg p 0 False a" if "0 \<le> a \<and> a < 18446744073709551616" for a
    using that m(2) v(3) by (simp add: clipped_def addrrange_contains_def addrrange_make_def addrrange_end_def)
  moreover have "render_topology fuel gdl rg (Some p) cs = Some (Inr (flatview_simplify v, cs'))"
    using r v(1) by (simp add: render_topology_def Let_def)
  ultimately show ?thesis using m(1,3) by (metis flatview_simplify_merge)
qed

section \<open>Properties\<close>



text \<open>The root that address spaces share their views by describes the same memory: skipping a chain of
  aliases and single children changes no answer, and no root is found only when nothing answers.\<close>

theorem shared_root_same_memory:
  assumes "plain_roots rg" "ranked rk rg" "mr_addr (rg p) = 0" "rk p < fuel"
  shows "\<exists>q. memory_region_get_flatview_root fuel rg p = Some q
    \<and> (\<forall>gdl a. region_at fuel gdl rg p 0 False a = (case q of None \<Rightarrow> None | Some q \<Rightarrow> region_at fuel gdl rg q 0 False a))"
  by (rule flatview_root_spec [OF assms])

theorem shared_root_same_memory_witness:
  "\<exists>q. memory_region_get_flatview_root 3 demo_regions 0 = Some q
    \<and> (\<forall>gdl a. region_at 3 gdl demo_regions 0 0 False a = (case q of None \<Rightarrow> None | Some q \<Rightarrow> region_at 3 gdl demo_regions q 0 False a))"
  using shared_root_same_memory [OF demo_ok(3,2), of 0 3] by (simp add: demo_rank_def demo_regions_def plain_region_def)

text \<open>Every range of a rendered view holds one reference on its owner, so destroying the view as
  rendered gives all references back. \<open>flatview_simplify\<close> drops merged ranges without giving their reference
  back: after it, destroying the view leaves one reference too many for every range merged away.\<close>

theorem simplify_leaks_references:
  assumes "render_memory_region fuel gdl rg p base clip ro (flatview_new rg root cs) = Some (Inr (view, cs'))"
  shows "length (fv_ranges view) \<le> fv_nr_allocated view \<and> flatview_destroy rg view cs' = cs
    \<and> flatview_destroy rg (flatview_simplify view) cs' ob =
        cs ob + (owned rg ob (fv_ranges view) - owned rg ob (fv_ranges (flatview_simplify view)))"
proof -
  have inv: "view_inv rg (memory_region_ref rg root cs) root (view, cs')"
    by (rule render_inv [where Q = "view_inv rg (memory_region_ref rg root cs) root", OF view_inv_insert flatview_new_inv assms])
  then have "length (fv_ranges view) \<le> fv_nr_allocated view" by (simp add: view_inv_def)
  then show ?thesis using destroy_refs [OF inv] by (simp add: flatview_simplify_merge)
qed

theorem simplify_leaks_references_witness:
  "\<exists>view cs'. render_memory_region 3 False demo_regions 0 0 (addrrange_make 0 18446744073709551616) False
      (flatview_new demo_regions (Some 0) (\<lambda>_. 0)) = Some (Inr (view, cs'))
    \<and> length (fv_ranges view) = 2 \<and> length (fv_ranges (flatview_simplify view)) = 1
    \<and> flatview_destroy demo_regions (flatview_simplify view) cs' 7 = 1"
proof -
  let ?r = "render_memory_region 3 False demo_regions 0 0 (addrrange_make 0 18446744073709551616) False
      (flatview_new demo_regions (Some 0) (\<lambda>_. 0))"
  let ?f = "\<lambda>off. \<lparr>fr_mr = 3, fr_offset_in_region = off, fr_addr = addrrange_make off 4096, fr_dirty_log_mask = 0,
    fr_romd_mode = True, fr_readonly = False\<rparr>"
  have "map_option (map_sum id (\<lambda>s. fv_ranges (fst s))) ?r = Some (Inr [?f 0, ?f 4096])"
    by (simp add: eval_nat_numeral Let_def demo_regions_def plain_region_def addrrange_intersects_def addrrange_contains_def
        addrrange_intersection_def addrrange_make_def addrrange_end_def int128_get64_def flatview_new_def fill_gaps.simps
        gap_before_def fr_part_def flatview_insert_def memory_region_get_dirty_log_mask_def ulong_def)
  then obtain view cs' where v: "?r = Some (Inr (view, cs'))" "fv_ranges view = [?f 0, ?f 4096]"
    by (cases ?r; cases "the ?r") auto
  have m: "fv_ranges (flatview_simplify view) = [grow (?f 0) 4096]"
    by (simp add: flatview_simplify_merge v(2) merge_all_def can_merge_def addrrange_end_def addrrange_make_def)
  show ?thesis
    using v m simplify_leaks_references [OF v(1), of 7]
    by (simp add: demo_regions_def plain_region_def)
qed

end
