(* ===== verification/Topology_Pass.thy ===== *)
theory Topology_Pass
  imports Flat_Simplify
begin

text \<open>
  Moving the listeners of an address space from one flat view to the next
  (\<open>address_space_update_topology_pass\<close> of \<open>qemu-diff/memory.c\<close>, called once to delete and once to add). A call
  to the listeners is a value of \<open>region_call\<close>; the section it carries is the flat range it is made from.
\<close>

datatype region_call = Region_del FlatRange | Region_add FlatRange | Region_nop FlatRange
  | Log_start FlatRange u8 u8 | Log_stop FlatRange u8 u8

definition unchanged_calls :: "FlatRange \<Rightarrow> FlatRange \<Rightarrow> region_call list" where
  "unchanged_calls frold frnew =
     Region_nop frnew
     # (if fr_dirty_log_mask frnew AND NOT (fr_dirty_log_mask frold) \<noteq> 0
        then [Log_start frnew (fr_dirty_log_mask frold) (fr_dirty_log_mask frnew)] else [])
     @ (if fr_dirty_log_mask frold AND NOT (fr_dirty_log_mask frnew) \<noteq> 0
        then [Log_stop frnew (fr_dirty_log_mask frold) (fr_dirty_log_mask frnew)] else [])"

fun address_space_update_topology_pass :: "FlatRange list \<Rightarrow> FlatRange list \<Rightarrow> bool \<Rightarrow> region_call list" where
  "address_space_update_topology_pass [] [] adding = []"
| "address_space_update_topology_pass (frold # os) [] adding =
     (if adding then [] else [Region_del frold]) @ address_space_update_topology_pass os [] adding"
| "address_space_update_topology_pass [] (frnew # ns) adding =
     (if adding then [Region_add frnew] else []) @ address_space_update_topology_pass [] ns adding"
| "address_space_update_topology_pass (frold # os) (frnew # ns) adding =
     (if r_start (fr_addr frold) < r_start (fr_addr frnew)
         \<or> r_start (fr_addr frold) = r_start (fr_addr frnew) \<and> \<not> flatrange_equal frold frnew
      then (if adding then [] else [Region_del frold]) @ address_space_update_topology_pass os (frnew # ns) adding
      else if flatrange_equal frold frnew
      then (if adding then unchanged_calls frold frnew else []) @ address_space_update_topology_pass os ns adding
      else (if adding then [Region_add frnew] else []) @ address_space_update_topology_pass (frold # os) ns adding)"

section \<open>What a listener must be able to rely on\<close>

text \<open>A listener holds the identities of the ranges added and not deleted. It refuses a deletion of a range it
  does not hold, and an addition that overlaps one it holds.\<close>

type_synonym fr_id = "nat \<times> int \<times> int \<times> int \<times> bool \<times> bool"

definition id_of :: "FlatRange \<Rightarrow> fr_id" where
  "id_of r = (fr_mr r, r_start (fr_addr r), r_size (fr_addr r), fr_offset_in_region r, fr_romd_mode r, fr_readonly r)"

fun id_contains :: "fr_id \<Rightarrow> int \<Rightarrow> bool" where
  "id_contains (m, s, n, rest) a \<longleftrightarrow> s \<le> a \<and> a < s + n"

fun listen :: "region_call list \<Rightarrow> fr_id set \<Rightarrow> fr_id set res" where
  "listen [] S = Inr S"
| "listen (Region_del r # cs) S = (if id_of r \<in> S then listen cs (S - {id_of r}) else Inl Assert_failed)"
| "listen (Region_add r # cs) S =
     (if \<exists>k\<in>S. \<exists>a. id_contains k a \<and> addrrange_contains (fr_addr r) a then Inl Assert_failed
      else listen cs (insert (id_of r) S))"
| "listen (Region_nop r # cs) S = (if id_of r \<in> S then listen cs S else Inl Assert_failed)"
| "listen (Log_start r m n # cs) S = (if id_of r \<in> S then listen cs S else Inl Assert_failed)"
| "listen (Log_stop r m n # cs) S = (if id_of r \<in> S then listen cs S else Inl Assert_failed)"

lemma equal_id: "flatrange_equal a b \<longleftrightarrow> id_of a = id_of b"
  by (auto simp: flatrange_equal_def id_of_def addrrange_equal_def)

lemma id_contains_of [simp]: "id_contains (id_of r) a \<longleftrightarrow> addrrange_contains (fr_addr r) a"
  by (simp add: id_of_def addrrange_contains_def addrrange_end_def)

lemma listen_append: "listen (xs @ ys) S = (case listen xs S of Inl e \<Rightarrow> Inl e | Inr S' \<Rightarrow> listen ys S')"
  by (induction xs S rule: listen.induct) (auto simp del: id_contains.simps)

lemma id_start: "id_of a = id_of b \<Longrightarrow> r_start (fr_addr a) = r_start (fr_addr b)"
  by (simp add: id_of_def)

lemma flat_ok_starts:
  assumes "flat_ok (r # rs)" "s \<in> set rs"
  shows "r_start (fr_addr r) < r_start (fr_addr s)"
  using assms by (force simp: addrrange_end_def)

lemma not_in_later:
  assumes "flat_ok (n # ns)" "r_start (fr_addr f) < r_start (fr_addr n)"
  shows "id_of f \<notin> id_of ` set (n # ns)"
proof
  assume "id_of f \<in> id_of ` set (n # ns)"
  then obtain s where s: "s \<in> set (n # ns)" "id_of f = id_of s" by auto
  then show False using assms(2) flat_ok_starts [OF assms(1), of s] id_start [OF s(2)] by auto
qed

lemma not_in_tail:
  assumes "flat_ok (n # ns)" "r_start (fr_addr f) = r_start (fr_addr n)"
  shows "id_of f \<notin> id_of ` set ns"
proof
  assume "id_of f \<in> id_of ` set ns"
  then obtain s where s: "s \<in> set ns" "id_of f = id_of s" by (rule imageE) simp
  then show False using assms(2) flat_ok_starts [OF assms(1) s(1)] id_start [OF s(2)] by simp
qed

lemma filter_skip: "k \<notin> id_of ` set os \<Longrightarrow> filter (\<lambda>x. id_of x \<noteq> k \<and> Q x) os = filter Q os"
  by (induction os) auto

section \<open>Contents of the two passes\<close>

lemma pass_del:
  assumes "flat_ok old" "flat_ok new"
  shows "address_space_update_topology_pass old new False = map Region_del (filter (\<lambda>f. id_of f \<notin> id_of ` set new) old)"
  using assms
proof (induction old new False rule: address_space_update_topology_pass.induct)
  case (4 f os n ns)
  have ok: "flat_ok os" "flat_ok ns" using 4(4,5) by auto
  consider (lt) "r_start (fr_addr f) < r_start (fr_addr n)" | (neq) "r_start (fr_addr f) = r_start (fr_addr n)" "id_of f \<noteq> id_of n"
    | (eq) "id_of f = id_of n" | (gt) "r_start (fr_addr n) < r_start (fr_addr f)" using id_start [of f n] by linarith
  then show ?case
  proof cases
    case lt
    then show ?thesis using not_in_later [OF 4(5) lt] 4(1) ok 4(5) by simp
  next
    case neq
    then show ?thesis using not_in_tail [OF 4(5) neq(1)] 4(1) ok 4(5) by (simp add: equal_id)
  next
    case eq
    have "id_of n \<notin> id_of ` set os" using not_in_tail [OF 4(4)] id_start [OF eq] eq by metis
    then have "filter (\<lambda>x. id_of x \<noteq> id_of n \<and> id_of x \<notin> id_of ` set ns) os = filter (\<lambda>x. id_of x \<notin> id_of ` set ns) os"
      by (rule filter_skip)
    then show ?thesis using eq 4(2) ok id_start [OF eq] by (simp add: equal_id)
  next
    case gt
    have "id_of n \<notin> id_of ` set (f # os)" by (rule not_in_later [OF 4(4) gt])
    then have "filter (\<lambda>x. id_of x \<noteq> id_of n \<and> id_of x \<notin> id_of ` set ns) (f # os) = filter (\<lambda>x. id_of x \<notin> id_of ` set ns) (f # os)"
      by (rule filter_skip)
    then show ?thesis using gt 4(3) ok 4(4) id_start [of f n] by (auto simp: equal_id)
  qed
qed simp_all

lemma listen_dels:
  "id_of ` set ds \<subseteq> S \<Longrightarrow> distinct (map id_of ds) \<Longrightarrow> listen (map Region_del ds) S = Inr (S - id_of ` set ds)"
proof (induction ds arbitrary: S)
  case (Cons f ds)
  have "listen (map Region_del ds) (S - {id_of f}) = Inr (S - {id_of f} - id_of ` set ds)"
    using Cons.prems by (intro Cons.IH) auto
  moreover have "S - {id_of f} - id_of ` set ds = S - id_of ` set (f # ds)" by auto
  ultimately show ?case using Cons.prems(1) by simp
qed simp

lemma flat_ok_distinct: "flat_ok rs \<Longrightarrow> distinct (map id_of rs)"
proof (induction rs)
  case (Cons r rs)
  have "id_of r \<notin> id_of ` set rs" using not_in_tail [OF Cons.prems refl] .
  then show ?case using Cons by simp
qed simp

definition touches :: "fr_id \<Rightarrow> FlatRange \<Rightarrow> bool" where
  "touches k r \<longleftrightarrow> (\<exists>a. id_contains k a \<and> addrrange_contains (fr_addr r) a)"

lemma listen_add: "listen (Region_add r # cs) S = (if \<exists>k\<in>S. touches k r then Inl Assert_failed else listen cs (insert (id_of r) S))"
  by (simp add: touches_def)

lemma listen_unchanged: "id_of n \<in> S \<Longrightarrow> listen (unchanged_calls f n @ cs) S = listen cs S"
  by (simp add: unchanged_calls_def)

lemma flat_ok_touch: "flat_ok (n # ns) \<Longrightarrow> m \<in> set ns \<Longrightarrow> \<not> touches (id_of n) m"
  by (fastforce simp: touches_def addrrange_contains_def)

declare listen.simps(3) [simp del] listen_add [simp]

lemma listen_pass_add:
  assumes "flat_ok old" "flat_ok new" "id_of ` set old \<inter> id_of ` set new \<subseteq> S"
    and "\<And>m k. m \<in> set new \<Longrightarrow> id_of m \<notin> id_of ` set old \<Longrightarrow> k \<in> S \<Longrightarrow> \<not> touches k m"
  shows "listen (address_space_update_topology_pass old new True) S = Inr (S \<union> id_of ` set new)"
  using assms
proof (induction old new True arbitrary: S rule: address_space_update_topology_pass.induct)
  case 1
  then show ?case by simp
next
  case (2 f os)
  then show ?case by simp
next
  case (3 n ns)
  have "listen (address_space_update_topology_pass [] ns True) (insert (id_of n) S) = Inr (insert (id_of n) S \<union> id_of ` set ns)"
    using 3(2-) flat_ok_touch [OF 3(3)] by (intro 3(1)) auto
  then show ?case using 3(5) [of n] by simp
next
  case (4 f os n ns)
  have ok: "flat_ok os" "flat_ok ns" using 4(4,5) by auto
  consider (drop) "r_start (fr_addr f) < r_start (fr_addr n) \<or> r_start (fr_addr f) = r_start (fr_addr n) \<and> id_of f \<noteq> id_of n"
    | (eq) "id_of f = id_of n" | (gt) "r_start (fr_addr n) < r_start (fr_addr f)" using id_start [of f n] by linarith
  then show ?case
  proof cases
    case drop
    have f: "id_of f \<notin> id_of ` set (n # ns)"
      using drop not_in_later [OF 4(5), of f] not_in_tail [OF 4(5), of f] by auto
    have "listen (address_space_update_topology_pass os (n # ns) True) S = Inr (S \<union> id_of ` set (n # ns))"
    proof (rule 4(1))
      show "r_start (fr_addr f) < r_start (fr_addr n) \<or> r_start (fr_addr f) = r_start (fr_addr n) \<and> \<not> flatrange_equal f n"
        using drop by (simp add: equal_id)
      show "id_of ` set os \<inter> id_of ` set (n # ns) \<subseteq> S" using 4(6) by auto
      show "\<not> touches k m" if m: "m \<in> set (n # ns)" "id_of m \<notin> id_of ` set os" "k \<in> S" for m k
      proof (rule 4(7) [OF m(1) _ m(3)])
        have "id_of m \<noteq> id_of f" using f imageI [OF m(1), of id_of] by (metis (no_types))
        then show "id_of m \<notin> id_of ` set (f # os)" using m(2) by simp
      qed
    qed (use ok 4(5) in simp_all)
    then show ?thesis using drop by (auto simp: equal_id)
  next
    case eq
    have nS: "id_of n \<in> S" using 4(6) eq by auto
    have "id_of n \<notin> id_of ` set ns" using not_in_tail [OF 4(5) refl] .
    have "listen (address_space_update_topology_pass os ns True) S = Inr (S \<union> id_of ` set ns)"
    proof (rule 4(2))
      show "\<not> (r_start (fr_addr f) < r_start (fr_addr n) \<or> r_start (fr_addr f) = r_start (fr_addr n) \<and> \<not> flatrange_equal f n)"
        using eq id_start [OF eq] by (simp add: equal_id)
      show "flatrange_equal f n" using eq by (simp add: equal_id)
      show "id_of ` set os \<inter> id_of ` set ns \<subseteq> S" using 4(6) by auto
      show "\<not> touches k m" if m: "m \<in> set ns" "id_of m \<notin> id_of ` set os" "k \<in> S" for m k
      proof (rule 4(7) [OF _ _ m(3)])
        have "id_of m \<noteq> id_of f" using \<open>id_of n \<notin> id_of ` set ns\<close> eq imageI [OF m(1), of id_of] by (metis (no_types))
        then show "id_of m \<notin> id_of ` set (f # os)" using m(2) by simp
      qed (use m(1) in simp)
    qed (rule ok)+
    then show ?thesis using eq nS id_start [OF eq] by (simp add: equal_id listen_unchanged insert_absorb)
  next
    case gt
    have nin: "id_of n \<notin> id_of ` set (f # os)" by (rule not_in_later [OF 4(4) gt])
    have "listen (address_space_update_topology_pass (f # os) ns True) (insert (id_of n) S) = Inr (insert (id_of n) S \<union> id_of ` set ns)"
    proof (rule 4(3))
      show "\<not> (r_start (fr_addr f) < r_start (fr_addr n) \<or> r_start (fr_addr f) = r_start (fr_addr n) \<and> \<not> flatrange_equal f n)"
        using gt by simp
      show "\<not> flatrange_equal f n" using nin by (auto simp: equal_id)
      show "id_of ` set (f # os) \<inter> id_of ` set ns \<subseteq> insert (id_of n) S" using 4(6) by auto
      show "\<not> touches k m" if m: "m \<in> set ns" "id_of m \<notin> id_of ` set (f # os)" "k \<in> insert (id_of n) S" for m k
        using 4(7) [of m k] flat_ok_touch [OF 4(5) m(1)] m by auto
    qed (use ok 4(4) in simp_all)
    moreover have "\<not> (\<exists>k\<in>S. touches k n)" using 4(7) [of n] nin by auto
    ultimately show ?thesis using gt nin by (auto simp: equal_id)
  qed
qed

section \<open>Properties\<close>

text \<open>C31: Moving the listeners from one well-formed view to another is right: a listener that holds exactly the
  ranges of the old view is never asked to delete a range it does not hold nor to add one that overlaps a range
  it still holds, because all deletions come before all additions, and it holds exactly the ranges of the new
  view in the end. A range in both views is neither deleted nor added.\<close>

theorem topology_passes_exact:
  assumes "flat_ok old" "flat_ok new"
  shows "listen (address_space_update_topology_pass old new False @ address_space_update_topology_pass old new True) (id_of ` set old)
    = Inr (id_of ` set new)
    \<and> (\<forall>f. id_of f \<in> id_of ` set old \<inter> id_of ` set new \<longrightarrow> Region_del f \<notin> set (address_space_update_topology_pass old new False))"
proof -
  let ?ds = "filter (\<lambda>f. id_of f \<notin> id_of ` set new) old"
  let ?S = "id_of ` set old - id_of ` set ?ds"
  have S: "?S = id_of ` set old \<inter> id_of ` set new"
  proof (intro equalityI subsetI)
    fix k assume "k \<in> ?S"
    then obtain f where "f \<in> set old" "k = id_of f" "k \<notin> id_of ` set ?ds" by blast
    then show "k \<in> id_of ` set old \<inter> id_of ` set new" by (auto simp del: image_eqI)
  next
    fix k assume k: "k \<in> id_of ` set old \<inter> id_of ` set new"
    then have "k \<notin> id_of ` set ?ds" by auto
    then show "k \<in> ?S" using k by blast
  qed
  have "listen (address_space_update_topology_pass old new False) (id_of ` set old) = Inr ?S"
    unfolding pass_del [OF assms] using flat_ok_distinct [OF assms(1)]
    by (intro listen_dels) (auto simp: distinct_map_filter)
  moreover have "listen (address_space_update_topology_pass old new True) ?S = Inr (?S \<union> id_of ` set new)"
  proof (rule listen_pass_add [OF assms])
    show "\<not> touches k m" if m: "m \<in> set new" "id_of m \<notin> id_of ` set old" "k \<in> ?S" for m k
    proof
      have "k \<in> id_of ` set new" using m(3) unfolding S by simp
      then obtain r where r: "r \<in> set new" "k = id_of r" by (rule imageE) simp
      assume "touches k m"
      then have "r = m" using flat_ok_unique [OF assms(2) r(1) m(1)] r(2) by (auto simp: touches_def)
      then show False using m(2,3) S r by auto
    qed
  qed (rule equalityD2 [OF S])
  moreover have "?S \<union> id_of ` set new = id_of ` set new" using S by auto
  ultimately show ?thesis using pass_del [OF assms] by (auto simp: listen_append)
qed

theorem topology_passes_exact_witness:
  "let fr = (\<lambda>m s. \<lparr>fr_mr = m, fr_offset_in_region = 0, fr_addr = addrrange_make s 4096, fr_dirty_log_mask = 0, fr_romd_mode = True, fr_readonly = False\<rparr>)
   in listen (address_space_update_topology_pass [fr 1 0, fr 2 4096] [fr 3 0, fr 2 4096] False
        @ address_space_update_topology_pass [fr 1 0, fr 2 4096] [fr 3 0, fr 2 4096] True) (id_of ` set [fr 1 0, fr 2 4096])
     = Inr (id_of ` set [fr 3 0, fr 2 4096])"
proof -
  let ?fr = "\<lambda>m s. \<lparr>fr_mr = m, fr_offset_in_region = 0, fr_addr = addrrange_make s 4096, fr_dirty_log_mask = 0, fr_romd_mode = True, fr_readonly = False\<rparr>"
  have "flat_ok [?fr 1 0, ?fr 2 4096]" "flat_ok [?fr 3 0, ?fr 2 4096]"
    by (simp_all add: addrrange_make_def addrrange_end_def)
  from topology_passes_exact [OF this] show ?thesis unfolding Let_def by (rule conjunct1)
qed

end
