(* ===== verification/Ioeventfd.thy ===== *)
theory Ioeventfd
  imports Flat_View "HOL-Library.Product_Lexorder"
begin

text \<open>
  The event notifiers of a memory region (\<open>qemu-diff/memory.c\<close>): their order, insertion and removal in a
  region's sorted array, and the calls that move the listeners of an address space from one array to another.
\<close>

section \<open>Order\<close>

definition memory_region_ioeventfd_before :: "MemoryRegionIoeventfd \<Rightarrow> MemoryRegionIoeventfd \<Rightarrow> bool" where
  "memory_region_ioeventfd_before a b =
     (if r_start (ie_addr a) < r_start (ie_addr b) then True
      else if r_start (ie_addr a) > r_start (ie_addr b) then False
      else if r_size (ie_addr a) < r_size (ie_addr b) then True
      else if r_size (ie_addr a) > r_size (ie_addr b) then False
      else if \<not> ie_match_data a \<and> ie_match_data b then True
      else if ie_match_data a \<and> \<not> ie_match_data b then False
      else if ie_match_data a \<and> ie_data a < ie_data b then True
      else if ie_match_data a \<and> ie_data a > ie_data b then False
      else if ie_e a < ie_e b then True
      else if ie_e a > ie_e b then False
      else False)"

definition memory_region_ioeventfd_equal :: "MemoryRegionIoeventfd \<Rightarrow> MemoryRegionIoeventfd \<Rightarrow> bool" where
  "memory_region_ioeventfd_equal a b \<longleftrightarrow> \<not> memory_region_ioeventfd_before a b \<and> \<not> memory_region_ioeventfd_before b a"

section \<open>The array of a region\<close>

text \<open>The insertion loop of \<open>memory_region_add_eventfd\<close> with its \<open>memmove\<close>.\<close>

fun insert_eventfd :: "MemoryRegionIoeventfd \<Rightarrow> MemoryRegionIoeventfd list \<Rightarrow> MemoryRegionIoeventfd list" where
  "insert_eventfd x [] = [x]"
| "insert_eventfd x (y # ys) = (if memory_region_ioeventfd_before x y then x # y # ys else y # insert_eventfd x ys)"

text \<open>The search loop of \<open>memory_region_del_eventfd\<close>, its assertion and its \<open>memmove\<close>.\<close>

fun remove_eventfd :: "MemoryRegionIoeventfd \<Rightarrow> MemoryRegionIoeventfd list \<Rightarrow> MemoryRegionIoeventfd list res" where
  "remove_eventfd x [] = Inl Assert_failed"
| "remove_eventfd x (y # ys) =
     (if memory_region_ioeventfd_equal x y then Inr ys else res_bind (remove_eventfd x ys) (\<lambda>zs. Inr (y # zs)))"

text \<open>A write that matches a notifier of the region signals it: the notifier that is signalled.\<close>

fun memory_region_dispatch_write_eventfds :: "MemoryRegionIoeventfd list \<Rightarrow> int \<Rightarrow> u64 \<Rightarrow> nat \<Rightarrow> nat option" where
  "memory_region_dispatch_write_eventfds [] a w n = None"
| "memory_region_dispatch_write_eventfds (y # ys) a w n =
     (let x = \<lparr>ie_addr = addrrange_make a (int n), ie_match_data = ie_match_data y, ie_data = w, ie_e = ie_e y\<rparr> in
      if memory_region_ioeventfd_equal x y then Some (ie_e x) else memory_region_dispatch_write_eventfds ys a w n)"

section \<open>Moving the listeners\<close>

datatype eventfd_call = Eventfd_add MemoryRegionIoeventfd | Eventfd_del MemoryRegionIoeventfd

fun address_space_add_del_ioeventfds :: "MemoryRegionIoeventfd list \<Rightarrow> MemoryRegionIoeventfd list \<Rightarrow> eventfd_call list" where
  "address_space_add_del_ioeventfds [] [] = []"
| "address_space_add_del_ioeventfds [] (y # ys) = Eventfd_del y # address_space_add_del_ioeventfds [] ys"
| "address_space_add_del_ioeventfds (x # xs) [] = Eventfd_add x # address_space_add_del_ioeventfds xs []"
| "address_space_add_del_ioeventfds (x # xs) (y # ys) =
     (if memory_region_ioeventfd_before y x then Eventfd_del y # address_space_add_del_ioeventfds (x # xs) ys
      else if memory_region_ioeventfd_before x y then Eventfd_add x # address_space_add_del_ioeventfds xs (y # ys)
      else address_space_add_del_ioeventfds xs ys)"

section \<open>Lemmas\<close>

text \<open>The order compares a key; without \<open>match_data\<close> the data does not count.\<close>

type_synonym ie_key = "int \<times> int \<times> bool \<times> u64 \<times> nat"

definition key_of :: "MemoryRegionIoeventfd \<Rightarrow> ie_key" where
  "key_of a = (r_start (ie_addr a), r_size (ie_addr a), ie_match_data a, if ie_match_data a then ie_data a else 0, ie_e a)"

lemma before_key: "memory_region_ioeventfd_before a b \<longleftrightarrow> key_of a < key_of b"
  by (auto simp: memory_region_ioeventfd_before_def key_of_def less_prod_def)

lemma equal_key: "memory_region_ioeventfd_equal a b \<longleftrightarrow> key_of a = key_of b"
  by (auto simp: memory_region_ioeventfd_equal_def before_key)

lemma insert_eventfd_key: "set (map key_of (insert_eventfd x ys)) = insert (key_of x) (set (map key_of ys))"
  by (induction ys) auto

lemma insert_eventfd_set: "set (insert_eventfd x ys) = insert x (set ys)"
  by (induction ys) auto

lemma insert_eventfd_sorted: "sorted (map key_of ys) \<Longrightarrow> sorted (map key_of (insert_eventfd x ys))"
proof (induction ys)
  case (Cons y ys)
  then show ?case by (auto simp: before_key insert_eventfd_set not_less)
qed simp

lemma remove_eventfd_found:
  "key_of x \<in> set (map key_of ys) \<Longrightarrow> \<exists>zs. remove_eventfd x ys = Inr zs"
  by (induction ys) (auto simp: equal_key)

lemma remove_eventfd_spec:
  "remove_eventfd x ys = Inr zs \<Longrightarrow>
    \<exists>us y vs. ys = us @ y # vs \<and> zs = us @ vs \<and> key_of y = key_of x \<and> key_of x \<notin> key_of ` set us"
proof (induction ys arbitrary: zs)
  case (Cons y ys)
  show ?case
  proof (cases "key_of x = key_of y")
    case True
    then show ?thesis using Cons.prems by (intro exI [of _ "[]"]) (auto simp: equal_key)
  next
    case False
    then obtain ws where w: "remove_eventfd x ys = Inr ws" "zs = y # ws"
      using Cons.prems by (auto simp: equal_key res_bind_Inr_iff)
    obtain us v vs where "ys = us @ v # vs" "ws = us @ vs" "key_of v = key_of x" "key_of x \<notin> key_of ` set us"
      using Cons.IH [OF w(1)] by blast
    then show ?thesis using w(2) False by (intro exI [of _ "y # us"] exI [of _ v] exI [of _ vs]) auto
  qed
qed simp

text \<open>What a listener that follows the calls holds.\<close>

fun follow :: "eventfd_call list \<Rightarrow> ie_key set \<Rightarrow> ie_key set res" where
  "follow [] S = Inr S"
| "follow (Eventfd_add x # cs) S = (if key_of x \<in> S then Inl Assert_failed else follow cs (insert (key_of x) S))"
| "follow (Eventfd_del y # cs) S = (if key_of y \<in> S then follow cs (S - {key_of y}) else Inl Assert_failed)"

lemma strict_sorted_Cons: "sorted_wrt (<) (map key_of (x # xs)) \<longleftrightarrow> (\<forall>y\<in>set xs. key_of x < key_of y) \<and> sorted_wrt (<) (map key_of xs)"
  by auto

lemma diff_insert_same: "k \<in> S \<Longrightarrow> k \<notin> A \<Longrightarrow> S - A \<union> B = S - insert k A \<union> insert k B"
  by blast

lemma follow_add_del:
  assumes "sorted_wrt (<) (map key_of new)" "sorted_wrt (<) (map key_of old)"
    and "key_of ` set old \<subseteq> S" "(S - key_of ` set old) \<inter> key_of ` set new = {}"
  shows "follow (address_space_add_del_ioeventfds new old) S = Inr (S - key_of ` set old \<union> key_of ` set new)"
  using assms
proof (induction new old arbitrary: S rule: address_space_add_del_ioeventfds.induct)
  case 1
  then show ?case by simp
next
  case (2 y ys)
  have "key_of y \<notin> key_of ` set ys" using 2(3) by fastforce
  then have "follow (address_space_add_del_ioeventfds [] ys) (S - {key_of y}) = Inr (S - {key_of y} - key_of ` set ys \<union> key_of ` set [])"
    using 2(2-) by (intro 2(1)) auto
  moreover have "S - {key_of y} - key_of ` set ys = S - key_of ` set (y # ys)" by auto
  ultimately show ?case using 2(4) by simp
next
  case (3 x xs)
  have n: "key_of x \<notin> key_of ` set xs" "key_of x \<notin> S" using 3(2,5) by auto
  then have "follow (address_space_add_del_ioeventfds xs []) (insert (key_of x) S) = Inr (insert (key_of x) S - key_of ` set [] \<union> key_of ` set xs)"
    using 3(2-) by (intro 3(1)) auto
  then show ?case using n by (simp add: insert_commute)
next
  case (4 x xs y ys)
  have lt: "\<forall>z\<in>set xs. key_of x < key_of z" "\<forall>z\<in>set ys. key_of y < key_of z" using 4(4,5) by auto
  consider "key_of y < key_of x" | "key_of x < key_of y" | "key_of x = key_of y" by fastforce
  then show ?case
  proof cases
    case 1
    have "key_of y \<notin> key_of ` set ys" "key_of y \<notin> key_of ` set (x # xs)" using lt 1 by fastforce+
    then have "follow (address_space_add_del_ioeventfds (x # xs) ys) (S - {key_of y}) = Inr (S - {key_of y} - key_of ` set ys \<union> key_of ` set (x # xs))"
      using 4(4-) 1 by (intro 4(1)) (auto simp: before_key)
    moreover have "S - {key_of y} - key_of ` set ys = S - key_of ` set (y # ys)" by auto
    ultimately show ?thesis using 1 4(6) by (simp add: before_key)
  next
    case 2
    have n: "key_of x \<notin> key_of ` set xs" "key_of x \<notin> key_of ` set (y # ys)" using lt 2 by fastforce+
    then have "key_of x \<notin> S" using 4(7) by auto
    moreover have "follow (address_space_add_del_ioeventfds xs (y # ys)) (insert (key_of x) S) = Inr (insert (key_of x) S - key_of ` set (y # ys) \<union> key_of ` set xs)"
      using 4(4-) 2 n by (intro 4(2)) (auto simp: before_key)
    moreover have "insert (key_of x) S - key_of ` set (y # ys) \<union> key_of ` set xs = S - key_of ` set (y # ys) \<union> key_of ` set (x # xs)"
      using n(2) by (simp add: insert_Diff_if)
    moreover have "\<not> key_of y < key_of x" using 2 by auto
    ultimately show ?thesis using 2 by (simp add: before_key)
  next
    case 3
    have n: "key_of y \<notin> key_of ` set ys" "key_of x \<notin> key_of ` set xs" using lt by fastforce+
    have "follow (address_space_add_del_ioeventfds xs ys) S = Inr (S - key_of ` set ys \<union> key_of ` set xs)"
      using 4(4-) 3 n by (intro 4(3)) (auto simp: before_key)
    moreover have "S - key_of ` set ys \<union> key_of ` set xs = S - key_of ` set (y # ys) \<union> key_of ` set (x # xs)"
      using diff_insert_same [of "key_of y" S "key_of ` set ys" "key_of ` set xs"] 3 4(6) n(1) by simp
    ultimately show ?thesis using 3 by (simp add: before_key)
  qed
qed

section \<open>Properties\<close>

text \<open>Adding a notifier keeps a region's array sorted and adds exactly it; deleting one that is there
  succeeds and removes exactly one entry with its key; deleting one that is not there fails the assertion.\<close>

theorem eventfd_array:
  assumes "sorted (map key_of ys)"
  shows "sorted (map key_of (insert_eventfd x ys)) \<and> set (insert_eventfd x ys) = insert x (set ys)
    \<and> (\<exists>zs. remove_eventfd x (insert_eventfd x ys) = Inr zs \<and> map key_of zs = map key_of ys)
    \<and> (key_of x \<notin> key_of ` set ys \<longrightarrow> remove_eventfd x ys = Inl Assert_failed)"
proof -
  have "\<exists>zs. remove_eventfd x (insert_eventfd x ys) = Inr zs \<and> map key_of zs = map key_of ys"
    using assms
  proof (induction ys)
    case (Cons y ys)
    show ?case
    proof (cases "key_of x = key_of y")
      case False
      then show ?thesis using Cons by (auto simp: before_key equal_key res_bind_Inr_iff)
    next
      case True
      have "sorted (map key_of (y # ys)) \<Longrightarrow> key_of x = key_of y \<Longrightarrow> map key_of (insert_eventfd x ys) = map key_of (y # ys)" for y
      proof (induction ys arbitrary: y)
        case (Cons z zs)
        then show ?case by (cases "key_of x = key_of z") (auto simp: before_key)
      qed simp
      then show ?thesis using True Cons.prems by (auto simp: before_key equal_key)
    qed
  qed (simp add: equal_key)
  moreover have "key_of x \<notin> key_of ` set ys \<Longrightarrow> remove_eventfd x ys = Inl Assert_failed"
    by (induction ys) (auto simp: equal_key)
  ultimately show ?thesis using insert_eventfd_sorted [OF assms] insert_eventfd_set by blast
qed

theorem eventfd_array_witness:
  "\<exists>zs. remove_eventfd \<lparr>ie_addr = addrrange_make 0 4, ie_match_data = False, ie_data = 0, ie_e = 1\<rparr>
      (insert_eventfd \<lparr>ie_addr = addrrange_make 0 4, ie_match_data = False, ie_data = 0, ie_e = 1\<rparr>
        [\<lparr>ie_addr = addrrange_make 0 4, ie_match_data = False, ie_data = 0, ie_e = 2\<rparr>]) = Inr zs
    \<and> map key_of zs = map key_of [\<lparr>ie_addr = addrrange_make 0 4, ie_match_data = False, ie_data = 0, ie_e = 2\<rparr>]"
  by (rule eventfd_array [THEN conjunct2, THEN conjunct2, THEN conjunct1]) simp

text \<open>The calls that move the listeners from one sorted array to another are right: a listener that holds
  exactly the old notifiers never has to add one it has or delete one it does not have, and holds exactly the
  new ones in the end; an unchanged array causes no call.\<close>

theorem eventfd_calls_exact:
  assumes "sorted_wrt (<) (map key_of new)" "sorted_wrt (<) (map key_of old)"
  shows "follow (address_space_add_del_ioeventfds new old) (key_of ` set old) = Inr (key_of ` set new)
    \<and> address_space_add_del_ioeventfds new new = []"
proof -
  have "address_space_add_del_ioeventfds new new = []" by (induction new) (simp_all add: before_key)
  then show ?thesis using follow_add_del [OF assms, of "key_of ` set old"] by simp
qed

theorem eventfd_calls_exact_witness:
  "let x = \<lparr>ie_addr = addrrange_make 0 4, ie_match_data = False, ie_data = 0, ie_e = 1\<rparr>; y = x\<lparr>ie_e := 2\<rparr> in
   follow (address_space_add_del_ioeventfds [x, y] [y]) {key_of y} = Inr {key_of x, key_of y}"
  using eventfd_calls_exact [of "[\<lparr>ie_addr = addrrange_make 0 4, ie_match_data = False, ie_data = 0, ie_e = 1\<rparr>,
        \<lparr>ie_addr = addrrange_make 0 4, ie_match_data = False, ie_data = 0, ie_e = 2\<rparr>]"
      "[\<lparr>ie_addr = addrrange_make 0 4, ie_match_data = False, ie_data = 0, ie_e = 2\<rparr>]"]
  by (simp add: key_of_def less_prod_def)

end
