(* ===== verification/Memory_Access.thy ===== *)
theory Memory_Access
  imports Ioeventfd Pm_File
begin

text \<open>
  Accesses to a memory region (\<open>qemu-diff/memory.c\<close>): the callbacks of a device, splitting an access into
  accesses the device implements, byte order, the validity check and dispatching reads and writes.

  The callbacks are values of the record \<open>MemoryRegionOps\<close>; the state behind \<open>opaque\<close> is passed through them.
  \<open>target_be\<close> says whether the target is big-endian (\<open>TARGET_WORDS_BIGENDIAN\<close>), the host is little-endian.
  Trace points do not change state and are left out. A shift by 64 bits or more is undefined in C and gives
  \<open>Undefined\<close>; \<open>abort\<close> gives \<open>Assert_failed\<close>.
\<close>

section \<open>Device callbacks\<close>

type_synonym MemTxResult = u32

definition MEMTX_OK :: MemTxResult where "MEMTX_OK = 0"

definition MEMTX_DECODE_ERROR :: MemTxResult where "MEMTX_DECODE_ERROR = 2"

type_synonym attrs = nat

record 'd MemoryRegionOps =
  op_read :: "('d \<Rightarrow> int \<Rightarrow> nat \<Rightarrow> u64 \<times> 'd) option"
  op_write :: "('d \<Rightarrow> int \<Rightarrow> u64 \<Rightarrow> nat \<Rightarrow> 'd) option"
  op_read_with_attrs :: "('d \<Rightarrow> int \<Rightarrow> nat \<Rightarrow> attrs \<Rightarrow> MemTxResult \<times> u64 \<times> 'd) option"
  op_write_with_attrs :: "('d \<Rightarrow> int \<Rightarrow> u64 \<Rightarrow> nat \<Rightarrow> attrs \<Rightarrow> MemTxResult \<times> 'd) option"
  op_old_read :: "nat \<Rightarrow> 'd \<Rightarrow> int \<Rightarrow> u64 \<times> 'd"
  op_old_write :: "nat \<Rightarrow> 'd \<Rightarrow> int \<Rightarrow> u64 \<Rightarrow> 'd"
  op_endianness :: device_endian
  valid_min :: nat
  valid_max :: nat
  valid_unaligned :: bool
  valid_accepts :: "('d \<Rightarrow> int \<Rightarrow> nat \<Rightarrow> bool \<Rightarrow> attrs \<Rightarrow> bool) option"
  impl_min :: nat
  impl_max :: nat
  impl_unaligned :: bool

section \<open>Byte order\<close>

definition memory_region_big_endian :: "bool \<Rightarrow> device_endian \<Rightarrow> bool" where
  "memory_region_big_endian target_be en =
     (if target_be then en \<noteq> DEVICE_LITTLE_ENDIAN else en = DEVICE_BIG_ENDIAN)"

definition memory_region_wrong_endianness :: "bool \<Rightarrow> device_endian \<Rightarrow> bool" where
  "memory_region_wrong_endianness target_be en =
     (if target_be then en = DEVICE_LITTLE_ENDIAN else en = DEVICE_BIG_ENDIAN)"

definition bswap :: "nat \<Rightarrow> u64 \<Rightarrow> u64" where
  "bswap n w = bytes_word (rev (word_bytes n w))"

definition adjust_endianness :: "bool \<Rightarrow> device_endian \<Rightarrow> u64 \<Rightarrow> nat \<Rightarrow> u64 res" where
  "adjust_endianness target_be en w n =
     (if memory_region_wrong_endianness target_be en
      then if n = 1 then Inr w
        else if n = 2 then Inr (bswap 2 w)
        else if n = 4 then Inr (bswap 4 w)
        else if n = 8 then Inr (bswap 8 w)
        else Inl Assert_failed
      else Inr w)"

text \<open>The absolute address of an offset, used by the trace points: the sum of the offsets of all containers.\<close>

primrec memory_region_to_absolute_addr :: "nat \<Rightarrow> regions \<Rightarrow> nat \<Rightarrow> int \<Rightarrow> int option" where
  "memory_region_to_absolute_addr 0 rg p off = None"
| "memory_region_to_absolute_addr (Suc fuel) rg p off =
     (let a = ulong (off + mr_addr (rg p)) in
      case mr_container (rg p) of None \<Rightarrow> Some a | Some c \<Rightarrow> memory_region_to_absolute_addr fuel rg c a)"

section \<open>Accessors\<close>

text \<open>The position of the lowest bit set, as an index into the old style callbacks.\<close>

definition ctz32 :: "nat \<Rightarrow> nat" where
  "ctz32 n = (if n mod 2 = 1 then 0 else if n mod 4 = 2 then 1 else if n mod 8 = 4 then 2 else 3)"

type_synonym 'd accessor = "'d \<Rightarrow> int \<Rightarrow> u64 \<Rightarrow> nat \<Rightarrow> nat \<Rightarrow> u64 \<Rightarrow> attrs \<Rightarrow> MemTxResult \<times> u64 \<times> 'd"

definition put_part :: "u64 \<Rightarrow> u64 \<Rightarrow> nat \<Rightarrow> u64 \<Rightarrow> u64" where
  "put_part v tmp shift msk = v OR push_bit shift (tmp AND msk)"

definition get_part :: "u64 \<Rightarrow> nat \<Rightarrow> u64 \<Rightarrow> u64" where
  "get_part v shift msk = drop_bit shift v AND msk"

definition memory_region_oldmmio_read_accessor :: "'d MemoryRegionOps \<Rightarrow> 'd accessor" where
  "memory_region_oldmmio_read_accessor ops d a v n shift msk atr =
     (let (tmp, d') = op_old_read ops (ctz32 n) d a in (MEMTX_OK, put_part v tmp shift msk, d'))"

definition memory_region_read_accessor :: "('d \<Rightarrow> int \<Rightarrow> nat \<Rightarrow> u64 \<times> 'd) \<Rightarrow> 'd accessor" where
  "memory_region_read_accessor rd d a v n shift msk atr =
     (let (tmp, d') = rd d a n in (MEMTX_OK, put_part v tmp shift msk, d'))"

definition memory_region_read_with_attrs_accessor :: "('d \<Rightarrow> int \<Rightarrow> nat \<Rightarrow> attrs \<Rightarrow> MemTxResult \<times> u64 \<times> 'd) \<Rightarrow> 'd accessor" where
  "memory_region_read_with_attrs_accessor rd d a v n shift msk atr =
     (let (r, tmp, d') = rd d a n atr in (r, put_part v tmp shift msk, d'))"

definition memory_region_oldmmio_write_accessor :: "'d MemoryRegionOps \<Rightarrow> 'd accessor" where
  "memory_region_oldmmio_write_accessor ops d a v n shift msk atr =
     (MEMTX_OK, v, op_old_write ops (ctz32 n) d a (get_part v shift msk))"

definition memory_region_write_accessor :: "('d \<Rightarrow> int \<Rightarrow> u64 \<Rightarrow> nat \<Rightarrow> 'd) \<Rightarrow> 'd accessor" where
  "memory_region_write_accessor wr d a v n shift msk atr =
     (MEMTX_OK, v, wr d a (get_part v shift msk) n)"

definition memory_region_write_with_attrs_accessor :: "('d \<Rightarrow> int \<Rightarrow> u64 \<Rightarrow> nat \<Rightarrow> attrs \<Rightarrow> MemTxResult \<times> 'd) \<Rightarrow> 'd accessor" where
  "memory_region_write_with_attrs_accessor wr d a v n shift msk atr =
     (let (r, d') = wr d a (get_part v shift msk) n atr in (r, v, d'))"

section \<open>Splitting an access\<close>

definition access_size_of :: "nat \<Rightarrow> nat \<Rightarrow> nat \<Rightarrow> nat" where
  "access_size_of n mn mx = max (min n (if mx = 0 then 4 else mx)) (if mn = 0 then 1 else mn)"

text \<open>The shift of the part at byte \<open>i\<close>. In the big-endian case it is an unsigned difference: when the device
  only implements accesses wider than the requested one it wraps around.\<close>

definition part_shift :: "bool \<Rightarrow> nat \<Rightarrow> nat \<Rightarrow> nat \<Rightarrow> nat" where
  "part_shift big n step i =
     (if big then nat (uint32 (uint32 (int n - int step - int i) * 8)) else i * 8)"

function access_loop :: "'d accessor \<Rightarrow> bool \<Rightarrow> nat \<Rightarrow> nat \<Rightarrow> u64 \<Rightarrow> attrs \<Rightarrow> int \<Rightarrow> nat \<Rightarrow> MemTxResult \<Rightarrow> u64 \<Rightarrow> 'd
    \<Rightarrow> (MemTxResult \<times> u64 \<times> 'd) res" where
  "access_loop fn big n step msk atr a i r v d =
     (if i < n \<and> 0 < step
      then if part_shift big n step i < 64
        then let (r', v', d') = fn d (ulong (a + int i)) v step (part_shift big n step i) msk atr
             in access_loop fn big n step msk atr a (i + step) (r OR r') v' d'
        else Inl Undefined
      else Inr (r, v, d))"
  by pat_completeness auto

termination access_loop
  by (relation "measure (\<lambda>(fn, big, n, step, msk, atr, a, i, r, v, d). n - i)") auto

declare access_loop.simps [simp del]

definition access_with_adjusted_size :: "bool \<Rightarrow> device_endian \<Rightarrow> int \<Rightarrow> u64 \<Rightarrow> nat \<Rightarrow> nat \<Rightarrow> nat \<Rightarrow> 'd accessor \<Rightarrow> attrs \<Rightarrow> 'd
    \<Rightarrow> (MemTxResult \<times> u64 \<times> 'd) res" where
  "access_with_adjusted_size target_be en a v n mn mx fn atr d =
     (let step = access_size_of n mn mx; msk = drop_bit (64 - step * 8) (- 1)
      in access_loop fn (memory_region_big_endian target_be en) n step msk atr a 0 MEMTX_OK v d)"

section \<open>Dispatching\<close>

function accepts_loop :: "(int \<Rightarrow> bool) \<Rightarrow> nat \<Rightarrow> nat \<Rightarrow> int \<Rightarrow> nat \<Rightarrow> bool" where
  "accepts_loop f n step a i =
     (if i < n \<and> 0 < step then f (ulong (a + int i)) \<and> accepts_loop f n step a (i + step) else True)"
  by pat_completeness auto

termination accepts_loop
  by (relation "measure (\<lambda>(f, n, step, a, i). n - i)") auto

declare accepts_loop.simps [simp del]

definition memory_region_access_valid :: "'d MemoryRegionOps \<Rightarrow> 'd \<Rightarrow> int \<Rightarrow> nat \<Rightarrow> bool \<Rightarrow> attrs \<Rightarrow> bool" where
  "memory_region_access_valid ops d a n is_write atr =
     (if \<not> valid_unaligned ops \<and> (word_of_int a :: u64) AND word_of_int (uint32 (int n - 1)) \<noteq> 0 then False
      else case valid_accepts ops of
          None \<Rightarrow> True
        | Some acc \<Rightarrow>
            (let step = access_size_of n (valid_min ops) (valid_max ops)
             in accepts_loop (\<lambda>x. acc d x step is_write atr) n step a 0))"

text \<open>An access that is not accepted reads 0 and writes nothing; \<open>cpu_unassigned_access\<close> is the CPU's.\<close>

definition unassigned_mem_read :: u64 where "unassigned_mem_read = 0"

definition unassigned_mem_accepts :: "'d \<Rightarrow> int \<Rightarrow> nat \<Rightarrow> bool \<Rightarrow> attrs \<Rightarrow> bool" where
  "unassigned_mem_accepts d a n is_write atr = False"

definition memory_region_dispatch_read1 :: "bool \<Rightarrow> 'd MemoryRegionOps \<Rightarrow> 'd \<Rightarrow> int \<Rightarrow> nat \<Rightarrow> attrs
    \<Rightarrow> (MemTxResult \<times> u64 \<times> 'd) res" where
  "memory_region_dispatch_read1 target_be ops d a n atr =
     (case op_read ops of
        Some rd \<Rightarrow> access_with_adjusted_size target_be (op_endianness ops) a 0 n (impl_min ops) (impl_max ops)
                    (memory_region_read_accessor rd) atr d
      | None \<Rightarrow> (case op_read_with_attrs ops of
          Some rd \<Rightarrow> access_with_adjusted_size target_be (op_endianness ops) a 0 n (impl_min ops) (impl_max ops)
                      (memory_region_read_with_attrs_accessor rd) atr d
        | None \<Rightarrow> access_with_adjusted_size target_be (op_endianness ops) a 0 n 1 4
                      (memory_region_oldmmio_read_accessor ops) atr d))"

definition memory_region_dispatch_read :: "bool \<Rightarrow> 'd MemoryRegionOps \<Rightarrow> 'd \<Rightarrow> int \<Rightarrow> nat \<Rightarrow> attrs
    \<Rightarrow> (MemTxResult \<times> u64 \<times> 'd) res" where
  "memory_region_dispatch_read target_be ops d a n atr =
     (if \<not> memory_region_access_valid ops d a n False atr then Inr (MEMTX_DECODE_ERROR, unassigned_mem_read, d)
      else res_bind (memory_region_dispatch_read1 target_be ops d a n atr) (\<lambda>(r, v, d').
        res_bind (adjust_endianness target_be (op_endianness ops) v n) (\<lambda>v'. Inr (r, v', d'))))"

text \<open>A write returns the result, the notifier it signalled (if any) and the device. With \<open>kvm_eventfds\<close> the
  kernel signals the notifiers.\<close>

definition memory_region_dispatch_write :: "bool \<Rightarrow> bool \<Rightarrow> MemoryRegionIoeventfd list \<Rightarrow> 'd MemoryRegionOps \<Rightarrow> 'd \<Rightarrow> int \<Rightarrow> u64 \<Rightarrow> nat \<Rightarrow> attrs
    \<Rightarrow> (MemTxResult \<times> nat option \<times> 'd) res" where
  "memory_region_dispatch_write target_be kvm_eventfds fds ops d a w n atr =
     (if \<not> memory_region_access_valid ops d a n True atr then Inr (MEMTX_DECODE_ERROR, None, d)
      else res_bind (adjust_endianness target_be (op_endianness ops) w n) (\<lambda>w'.
        let sig = (if kvm_eventfds then None else memory_region_dispatch_write_eventfds fds a w' n);
            access = (\<lambda>mn mx fn. res_bind (access_with_adjusted_size target_be (op_endianness ops) a w' n mn mx fn atr d)
                        (\<lambda>(r, v, d'). Inr (r, None, d')))
        in case sig of
             Some e \<Rightarrow> Inr (MEMTX_OK, Some e, d)
           | None \<Rightarrow>
              (case op_write ops of
                 Some wr \<Rightarrow> access (impl_min ops) (impl_max ops) (memory_region_write_accessor wr)
               | None \<Rightarrow> (case op_write_with_attrs ops of
                   Some wr \<Rightarrow> access (impl_min ops) (impl_max ops) (memory_region_write_with_attrs_accessor wr)
                 | None \<Rightarrow> access 1 4 (memory_region_oldmmio_write_accessor ops)))))"

section \<open>The RAM device\<close>

text \<open>The device is the host memory behind the region, a function from offsets to bytes; the host is
  little-endian.\<close>

definition memory_region_ram_device_read :: "(int \<Rightarrow> u8) \<Rightarrow> int \<Rightarrow> nat \<Rightarrow> u64 \<times> (int \<Rightarrow> u8)" where
  "memory_region_ram_device_read m a n =
     (if n = 1 \<or> n = 2 \<or> n = 4 \<or> n = 8 then bytes_word (peek m a n) else - 1, m)"

definition memory_region_ram_device_write :: "(int \<Rightarrow> u8) \<Rightarrow> int \<Rightarrow> u64 \<Rightarrow> nat \<Rightarrow> int \<Rightarrow> u8" where
  "memory_region_ram_device_write m a w n =
     (if n = 1 \<or> n = 2 \<or> n = 4 \<or> n = 8 then poke m a (word_bytes n w) else m)"

definition ram_device_mem_ops :: "(int \<Rightarrow> u8) MemoryRegionOps" where
  "ram_device_mem_ops = \<lparr>op_read = Some memory_region_ram_device_read, op_write = Some memory_region_ram_device_write,
     op_read_with_attrs = None, op_write_with_attrs = None,
     op_old_read = (\<lambda>_ m _. (0, m)), op_old_write = (\<lambda>_ m _ _. m),
     op_endianness = DEVICE_LITTLE_ENDIAN,
     valid_min = 1, valid_max = 8, valid_unaligned = True, valid_accepts = None,
     impl_min = 1, impl_max = 8, impl_unaligned = True\<rparr>"

definition unassigned_mem_ops :: "'d MemoryRegionOps" where
  "unassigned_mem_ops = \<lparr>op_read = None, op_write = None, op_read_with_attrs = None, op_write_with_attrs = None,
     op_old_read = (\<lambda>_ d _. (0, d)), op_old_write = (\<lambda>_ d _ _. d), op_endianness = DEVICE_NATIVE_ENDIAN,
     valid_min = 0, valid_max = 0, valid_unaligned = False, valid_accepts = Some unassigned_mem_accepts,
     impl_min = 0, impl_max = 0, impl_unaligned = False\<rparr>"

end
