(* ===== verification/Address_Space.thy ===== *)
theory Address_Space
  imports Topology_Pass Memory_Access
begin

text \<open>
  Address spaces and memory transactions (\<open>qemu-diff/memory.c\<close>): the table of shared flat views, giving an
  address space its view, its event notifiers, the transaction counter, and the operations that change a region
  inside a transaction.

  Views are numbered in the order they are made; a number never comes back. \<open>m_rcu\<close> lists the views whose last
  reference is gone and that RCU will destroy. The hash table of the source is a list of pairs. A listener
  callback is an entry of \<open>m_calls\<close>. The big QEMU lock makes every operation one step. The dispatch trees of the
  views belong to \<open>exec.c\<close> and are not part of this state. An operation returns nothing when the fuel for a
  cyclic region graph runs out, an error when an assertion fails or \<open>NULL\<close> is used, and the new state otherwise.
\<close>

section \<open>State\<close>

record AddressSpace =
  as_root :: nat
  as_current_map :: "nat option"
  as_ioeventfds :: "MemoryRegionIoeventfd list"
  as_listeners :: bool

datatype mem_call = Listener_begin | Listener_commit | Listener_log_global_start | Listener_log_global_stop | Listener_region nat region_call | Listener_eventfd nat eventfd_call

record mem_state =
  m_regions :: regions
  m_refs :: refs
  m_views :: "nat \<Rightarrow> FlatView"
  m_next :: nat
  m_flat_views :: "(nat option \<times> nat) list option"
  m_empty_view :: "nat option"
  m_spaces :: "AddressSpace list"
  m_depth :: nat
  m_update_pending :: bool
  m_ioeventfd_pending :: bool
  m_global_dirty_log :: bool
  m_rcu :: "nat list"
  m_calls :: "mem_call list"
  m_vmstate_change :: bool

type_synonym mem_op = "mem_state \<Rightarrow> mem_state res option"

definition ret :: mem_op where
  "ret st = Some (Inr st)"

definition andthen :: "mem_op \<Rightarrow> mem_op \<Rightarrow> mem_op" where
  "andthen f g st = (case f st of Some (Inr st') \<Rightarrow> g st' | r \<Rightarrow> r)"

definition upd :: "(mem_state \<Rightarrow> mem_state) \<Rightarrow> mem_op" where
  "upd f st = Some (Inr (f st))"

section \<open>References on views\<close>

definition ref_view :: "nat \<Rightarrow> mem_state \<Rightarrow> mem_state" where
  "ref_view v st = st\<lparr>m_views := (m_views st)(v := snd (flatview_ref (m_views st v)))\<rparr>"

definition unref_view :: "nat \<Rightarrow> mem_op" where
  "unref_view v st =
     (let (gone, view') = flatview_unref (m_views st v) in
      if gone \<and> fv_root view' = None then Some (Inl Assert_failed)
      else Some (Inr (st\<lparr>m_views := (m_views st)(v := view'), m_rcu := m_rcu st @ (if gone then [v] else [])\<rparr>)))"

section \<open>The table of views\<close>

definition lookup_view :: "mem_state \<Rightarrow> nat option \<Rightarrow> nat option" where
  "lookup_view st k = (case m_flat_views st of None \<Rightarrow> None | Some t \<Rightarrow> map_of t k)"

text \<open>\<open>g_hash_table_replace\<close> drops the reference on the value it replaces.\<close>

definition replace_view :: "nat option \<Rightarrow> nat \<Rightarrow> mem_op" where
  "replace_view k v st =
     (case m_flat_views st of
        None \<Rightarrow> Some (Inl Sigsegv)
      | Some t \<Rightarrow>
          (let st1 = st\<lparr>m_flat_views := Some ((k, v) # filter (\<lambda>(k', v'). k' \<noteq> k) t)\<rparr> in
           case map_of t k of None \<Rightarrow> ret st1 | Some w \<Rightarrow> unref_view w st1))"

definition generate_memory_topology :: "nat \<Rightarrow> nat option \<Rightarrow> mem_op" where
  "generate_memory_topology fuel mr st =
     (case render_topology fuel (m_global_dirty_log st) (m_regions st) mr (m_refs st) of
        None \<Rightarrow> None
      | Some (Inl e) \<Rightarrow> Some (Inl e)
      | Some (Inr (view, cs)) \<Rightarrow>
          replace_view mr (m_next st) (st\<lparr>m_views := (m_views st)(m_next st := view), m_next := m_next st + 1, m_refs := cs\<rparr>))"

definition flatviews_init :: "nat \<Rightarrow> mem_op" where
  "flatviews_init fuel st =
     (if m_flat_views st \<noteq> None then ret st
      else
        let st1 = st\<lparr>m_flat_views := Some []\<rparr> in
        (case m_empty_view st of
           None \<Rightarrow> andthen (generate_memory_topology fuel None)
                     (\<lambda>st2. ret (ref_view (m_next st) (st2\<lparr>m_empty_view := Some (m_next st)\<rparr>))) st1
         | Some e \<Rightarrow> andthen (replace_view None e) (\<lambda>st2. ret (ref_view e st2)) st1))"

definition with_root :: "nat \<Rightarrow> nat \<Rightarrow> (nat option \<Rightarrow> mem_op) \<Rightarrow> mem_op" where
  "with_root fuel i f st =
     (case memory_region_get_flatview_root fuel (m_regions st) (as_root (m_spaces st ! i)) of
        None \<Rightarrow> None | Some physmr \<Rightarrow> f physmr st)"

definition render_space :: "nat \<Rightarrow> nat \<Rightarrow> mem_op" where
  "render_space fuel i =
     with_root fuel i (\<lambda>physmr st. if lookup_view st physmr \<noteq> None then ret st else generate_memory_topology fuel physmr st)"

text \<open>\<open>g_hash_table_unref\<close> drops the references of all values.\<close>

definition drop_flat_views :: mem_op where
  "drop_flat_views st =
     (case m_flat_views st of None \<Rightarrow> ret st
      | Some t \<Rightarrow> render_list unref_view (map snd t) (st\<lparr>m_flat_views := None\<rparr>))"

definition flatviews_reset :: "nat \<Rightarrow> mem_op" where
  "flatviews_reset fuel st =
     andthen drop_flat_views (andthen (flatviews_init fuel) (render_list (render_space fuel) [0..<length (m_spaces st)])) st"

section \<open>Giving a space its view\<close>

definition set_space :: "nat \<Rightarrow> (AddressSpace \<Rightarrow> AddressSpace) \<Rightarrow> mem_state \<Rightarrow> mem_state" where
  "set_space i f st = st\<lparr>m_spaces := (m_spaces st)[i := f (m_spaces st ! i)]\<rparr>"

definition space_calls :: "nat \<Rightarrow> nat option \<Rightarrow> nat \<Rightarrow> mem_state \<Rightarrow> mem_state" where
  "space_calls i old v st =
     (if as_listeners (m_spaces st ! i)
      then let rs = (case old of None \<Rightarrow> [] | Some w \<Rightarrow> fv_ranges (m_views st w)); ns = fv_ranges (m_views st v)
           in st\<lparr>m_calls := m_calls st
               @ map (Listener_region i) (address_space_update_topology_pass rs ns False)
               @ map (Listener_region i) (address_space_update_topology_pass rs ns True)\<rparr>
      else st)"

definition address_space_set_flatview :: "nat \<Rightarrow> nat \<Rightarrow> mem_op" where
  "address_space_set_flatview fuel i =
     with_root fuel i (\<lambda>physmr st.
       let old = as_current_map (m_spaces st ! i) in
       case lookup_view st physmr of
         None \<Rightarrow> Some (Inl Assert_failed)
       | Some v \<Rightarrow>
           if old = Some v then ret st
           else
             let st1 = (case old of None \<Rightarrow> st | Some w \<Rightarrow> ref_view w st);
                 st2 = ref_view v st1;
                 st3 = space_calls i old v st2;
                 st4 = set_space i (\<lambda>as. as\<lparr>as_current_map := Some v\<rparr>) st3
             in (case old of None \<Rightarrow> ret st4 | Some w \<Rightarrow> andthen (unref_view w) (unref_view w) st4))"

definition address_space_update_topology :: "nat \<Rightarrow> nat \<Rightarrow> mem_op" where
  "address_space_update_topology fuel i =
     andthen (flatviews_init fuel) (andthen (render_space fuel i) (address_space_set_flatview fuel i))"

text \<open>\<open>address_space_get_flatview\<close> takes a reference on the current view; it loops while the view is dead.\<close>

definition address_space_get_flatview :: "nat \<Rightarrow> (nat \<Rightarrow> mem_op) \<Rightarrow> mem_op" where
  "address_space_get_flatview i f st =
     (case as_current_map (m_spaces st ! i) of
        None \<Rightarrow> Some (Inl Sigsegv)
      | Some v \<Rightarrow> if fst (flatview_ref (m_views st v)) then f v (ref_view v st) else None)"

definition range_eventfds :: "regions \<Rightarrow> FlatRange \<Rightarrow> MemoryRegionIoeventfd list" where
  "range_eventfds rg fr =
     map (\<lambda>fd. fd\<lparr>ie_addr := addrrange_shift (ie_addr fd) (r_start (fr_addr fr) - fr_offset_in_region fr)\<rparr>)
       (filter (\<lambda>fd. addrrange_intersects (fr_addr fr)
            (addrrange_shift (ie_addr fd) (r_start (fr_addr fr) - fr_offset_in_region fr)))
         (mr_ioeventfds (rg (fr_mr fr))))"

definition address_space_update_ioeventfds :: "nat \<Rightarrow> mem_op" where
  "address_space_update_ioeventfds i =
     address_space_get_flatview i (\<lambda>v st.
       let fds = concat (map (range_eventfds (m_regions st)) (fv_ranges (m_views st v)));
           calls = (if as_listeners (m_spaces st ! i)
                    then map (Listener_eventfd i) (address_space_add_del_ioeventfds fds (as_ioeventfds (m_spaces st ! i))) else []);
           st1 = set_space i (\<lambda>as. as\<lparr>as_ioeventfds := fds\<rparr>) (st\<lparr>m_calls := m_calls st @ calls\<rparr>)
       in unref_view v st1)"

section \<open>Transactions\<close>

definition memory_region_transaction_begin :: "mem_state \<Rightarrow> mem_state" where
  "memory_region_transaction_begin st = st\<lparr>m_depth := m_depth st + 1\<rparr>"

definition memory_region_transaction_commit :: "nat \<Rightarrow> mem_op" where
  "memory_region_transaction_commit fuel st =
     (if m_depth st = 0 then Some (Inl Assert_failed)
      else
        let st1 = st\<lparr>m_depth := m_depth st - 1\<rparr>; is = [0..<length (m_spaces st)] in
        if m_depth st1 \<noteq> 0 then ret st1
        else if m_update_pending st1
        then andthen (flatviews_reset fuel)
              (andthen (upd (\<lambda>st. st\<lparr>m_calls := m_calls st @ [Listener_begin]\<rparr>))
               (andthen (render_list (\<lambda>i. andthen (address_space_set_flatview fuel i) (address_space_update_ioeventfds i)) is)
                (upd (\<lambda>st. st\<lparr>m_update_pending := False, m_ioeventfd_pending := False, m_calls := m_calls st @ [Listener_commit]\<rparr>)))) st1
        else if m_ioeventfd_pending st1
        then andthen (render_list address_space_update_ioeventfds is) (upd (\<lambda>st. st\<lparr>m_ioeventfd_pending := False\<rparr>)) st1
        else ret st1)"

section \<open>Changing regions\<close>

definition set_region :: "nat \<Rightarrow> (MemoryRegion \<Rightarrow> MemoryRegion) \<Rightarrow> mem_state \<Rightarrow> mem_state" where
  "set_region p f st = st\<lparr>m_regions := (m_regions st)(p := f (m_regions st p))\<rparr>"

definition pend :: "bool \<Rightarrow> mem_state \<Rightarrow> mem_state" where
  "pend b st = st\<lparr>m_update_pending := m_update_pending st \<or> b\<rparr>"

text \<open>Begin, one change, commit: the shape of the operations below.\<close>

definition in_transaction :: "nat \<Rightarrow> (mem_state \<Rightarrow> mem_state) \<Rightarrow> mem_op" where
  "in_transaction fuel f st = memory_region_transaction_commit fuel (f (memory_region_transaction_begin st))"

definition memory_region_set_log :: "nat \<Rightarrow> nat \<Rightarrow> bool \<Rightarrow> nat \<Rightarrow> mem_op" where
  "memory_region_set_log fuel p log client st =
     (let msk = push_bit client 1 :: u8; old = mr_vga_logging_count (m_regions st p); new = old + (if log then 1 else - 1);
          st1 = set_region p (\<lambda>mr. mr\<lparr>mr_vga_logging_count := new\<rparr>) st
      in if client \<noteq> DIRTY_MEMORY_VGA then Some (Inl Assert_failed)
         else if (old \<noteq> 0) = (new \<noteq> 0) then ret st1
         else in_transaction fuel (\<lambda>st. pend (mr_enabled (m_regions st p))
                (set_region p (\<lambda>mr. mr\<lparr>mr_dirty_log_mask := (mr_dirty_log_mask mr AND NOT msk) OR (if log then msk else 0)\<rparr>) st)) st1)"

definition memory_region_set_readonly :: "nat \<Rightarrow> nat \<Rightarrow> bool \<Rightarrow> mem_op" where
  "memory_region_set_readonly fuel p b st =
     (if mr_readonly (m_regions st p) \<noteq> b
      then in_transaction fuel (\<lambda>st. pend (mr_enabled (m_regions st p)) (set_region p (\<lambda>mr. mr\<lparr>mr_readonly := b\<rparr>) st)) st
      else ret st)"

definition memory_region_rom_device_set_romd :: "nat \<Rightarrow> nat \<Rightarrow> bool \<Rightarrow> mem_op" where
  "memory_region_rom_device_set_romd fuel p b st =
     (if mr_romd_mode (m_regions st p) \<noteq> b
      then in_transaction fuel (\<lambda>st. pend (mr_enabled (m_regions st p)) (set_region p (\<lambda>mr. mr\<lparr>mr_romd_mode := b\<rparr>) st)) st
      else ret st)"

definition memory_region_set_enabled :: "nat \<Rightarrow> nat \<Rightarrow> bool \<Rightarrow> mem_op" where
  "memory_region_set_enabled fuel p b st =
     (if b = mr_enabled (m_regions st p) then ret st
      else in_transaction fuel (\<lambda>st. pend True (set_region p (\<lambda>mr. mr\<lparr>mr_enabled := b\<rparr>) st)) st)"

definition memory_region_set_size :: "nat \<Rightarrow> nat \<Rightarrow> int \<Rightarrow> mem_op" where
  "memory_region_set_size fuel p n st =
     (let s = (if n = 18446744073709551615 then 18446744073709551616 else n) in
      if s = mr_size (m_regions st p) then ret st
      else in_transaction fuel (\<lambda>st. pend True (set_region p (\<lambda>mr. mr\<lparr>mr_size := s\<rparr>) st)) st)"

definition memory_region_set_alias_offset :: "nat \<Rightarrow> nat \<Rightarrow> int \<Rightarrow> mem_op" where
  "memory_region_set_alias_offset fuel p off st =
     (if mr_alias (m_regions st p) = None then Some (Inl Assert_failed)
      else if off = mr_alias_offset (m_regions st p) then ret st
      else in_transaction fuel (\<lambda>st. pend (mr_enabled (m_regions st p)) (set_region p (\<lambda>mr. mr\<lparr>mr_alias_offset := off\<rparr>) st)) st)"

text \<open>A subregion goes before the first one whose priority is not greater.\<close>

fun insert_subregion :: "regions \<Rightarrow> nat \<Rightarrow> nat list \<Rightarrow> nat list" where
  "insert_subregion rg c [] = [c]"
| "insert_subregion rg c (other # cs) =
     (if mr_priority (rg c) \<ge> mr_priority (rg other) then c # other # cs else other # insert_subregion rg c cs)"

definition memory_region_update_container_subregions :: "nat \<Rightarrow> nat \<Rightarrow> mem_op" where
  "memory_region_update_container_subregions fuel c st =
     (case mr_container (m_regions st c) of
        None \<Rightarrow> Some (Inl Sigsegv)
      | Some p \<Rightarrow> in_transaction fuel (\<lambda>st.
          let st1 = st\<lparr>m_refs := memory_region_ref (m_regions st) (Some c) (m_refs st)\<rparr>;
              st2 = set_region p (\<lambda>mr. mr\<lparr>mr_subregions := insert_subregion (m_regions st1) c (mr_subregions mr)\<rparr>) st1
          in pend (mr_enabled (m_regions st2 p) \<and> mr_enabled (m_regions st2 c)) st2) st)"

definition memory_region_add_subregion_common :: "nat \<Rightarrow> nat \<Rightarrow> int \<Rightarrow> nat \<Rightarrow> mem_op" where
  "memory_region_add_subregion_common fuel p off c st =
     (if mr_container (m_regions st c) \<noteq> None then Some (Inl Assert_failed)
      else memory_region_update_container_subregions fuel c (set_region c (\<lambda>mr. mr\<lparr>mr_container := Some p, mr_addr := off\<rparr>) st))"

definition memory_region_add_subregion :: "nat \<Rightarrow> nat \<Rightarrow> int \<Rightarrow> nat \<Rightarrow> mem_op" where
  "memory_region_add_subregion fuel p off c st =
     memory_region_add_subregion_common fuel p off c (set_region c (\<lambda>mr. mr\<lparr>mr_priority := 0\<rparr>) st)"

definition memory_region_add_subregion_overlap :: "nat \<Rightarrow> nat \<Rightarrow> int \<Rightarrow> nat \<Rightarrow> int \<Rightarrow> mem_op" where
  "memory_region_add_subregion_overlap fuel p off c prio st =
     memory_region_add_subregion_common fuel p off c (set_region c (\<lambda>mr. mr\<lparr>mr_priority := prio\<rparr>) st)"

definition memory_region_del_subregion :: "nat \<Rightarrow> nat \<Rightarrow> nat \<Rightarrow> mem_op" where
  "memory_region_del_subregion fuel p c st =
     (if mr_container (m_regions st c) \<noteq> Some p then Some (Inl Assert_failed)
      else in_transaction fuel (\<lambda>st.
        let st1 = set_region c (\<lambda>mr. mr\<lparr>mr_container := None\<rparr>) st;
            st2 = set_region p (\<lambda>mr. mr\<lparr>mr_subregions := remove1 c (mr_subregions mr)\<rparr>) st1;
            st3 = st2\<lparr>m_refs := memory_region_unref (m_regions st2) (Some c) (m_refs st2)\<rparr>
        in pend (mr_enabled (m_regions st3 p) \<and> mr_enabled (m_regions st3 c)) st3) st)"

definition memory_region_readd_subregion :: "nat \<Rightarrow> nat \<Rightarrow> mem_op" where
  "memory_region_readd_subregion fuel c st =
     (case mr_container (m_regions st c) of
        None \<Rightarrow> ret st
      | Some p \<Rightarrow>
          andthen (upd memory_region_transaction_begin)
            (andthen (upd (\<lambda>st. st\<lparr>m_refs := memory_region_ref (m_regions st) (Some c) (m_refs st)\<rparr>))
              (andthen (memory_region_del_subregion fuel p c)
                (andthen (upd (set_region c (\<lambda>mr. mr\<lparr>mr_container := Some p\<rparr>)))
                  (andthen (memory_region_update_container_subregions fuel c)
                    (andthen (upd (\<lambda>st. st\<lparr>m_refs := memory_region_unref (m_regions st) (Some c) (m_refs st)\<rparr>))
                      (memory_region_transaction_commit fuel)))))) st)"

definition memory_region_set_address :: "nat \<Rightarrow> nat \<Rightarrow> int \<Rightarrow> mem_op" where
  "memory_region_set_address fuel c a st =
     (if a \<noteq> mr_addr (m_regions st c)
      then memory_region_readd_subregion fuel c (set_region c (\<lambda>mr. mr\<lparr>mr_addr := a\<rparr>) st)
      else ret st)"

definition memory_region_is_mapped :: "mem_state \<Rightarrow> nat \<Rightarrow> bool" where
  "memory_region_is_mapped st p \<longleftrightarrow> mr_container (m_regions st p) \<noteq> None"

section \<open>Event notifiers of a region\<close>

definition eventfd_of :: "int \<Rightarrow> nat \<Rightarrow> bool \<Rightarrow> u64 \<Rightarrow> nat \<Rightarrow> MemoryRegionIoeventfd" where
  "eventfd_of a n match w e = \<lparr>ie_addr = addrrange_make a (int n), ie_match_data = match, ie_data = w, ie_e = e\<rparr>"

definition eventfd_data :: "bool \<Rightarrow> MemoryRegion \<Rightarrow> nat \<Rightarrow> u64 \<Rightarrow> u64 res" where
  "eventfd_data target_be mr n w = (if n \<noteq> 0 then adjust_endianness target_be (mr_endianness mr) w n else Inr w)"

definition pend_ioeventfd :: "bool \<Rightarrow> mem_state \<Rightarrow> mem_state" where
  "pend_ioeventfd b st = st\<lparr>m_ioeventfd_pending := m_ioeventfd_pending st \<or> b\<rparr>"

definition memory_region_add_eventfd :: "nat \<Rightarrow> bool \<Rightarrow> nat \<Rightarrow> int \<Rightarrow> nat \<Rightarrow> bool \<Rightarrow> u64 \<Rightarrow> nat \<Rightarrow> mem_op" where
  "memory_region_add_eventfd fuel target_be p a n match w e st =
     (case eventfd_data target_be (m_regions st p) n w of
        Inl err \<Rightarrow> Some (Inl err)
      | Inr w' \<Rightarrow> in_transaction fuel (\<lambda>st. pend_ioeventfd (mr_enabled (m_regions st p))
          (set_region p (\<lambda>mr. mr\<lparr>mr_ioeventfds := insert_eventfd (eventfd_of a n match w' e) (mr_ioeventfds mr)\<rparr>) st)) st)"

definition memory_region_del_eventfd :: "nat \<Rightarrow> bool \<Rightarrow> nat \<Rightarrow> int \<Rightarrow> nat \<Rightarrow> bool \<Rightarrow> u64 \<Rightarrow> nat \<Rightarrow> mem_op" where
  "memory_region_del_eventfd fuel target_be p a n match w e st =
     (case eventfd_data target_be (m_regions st p) n w of
        Inl err \<Rightarrow> Some (Inl err)
      | Inr w' \<Rightarrow>
         (case remove_eventfd (eventfd_of a n match w' e) (mr_ioeventfds (m_regions st p)) of
            Inl err \<Rightarrow> Some (Inl err)
          | Inr fds \<Rightarrow> in_transaction fuel (\<lambda>st. pend_ioeventfd (mr_enabled (m_regions st p))
              (set_region p (\<lambda>mr. mr\<lparr>mr_ioeventfds := fds\<rparr>) st)) st))"

section \<open>Dirty logging\<close>

definition call_global :: "mem_call \<Rightarrow> mem_state \<Rightarrow> mem_state" where
  "call_global c st = st\<lparr>m_calls := m_calls st @ [c]\<rparr>"

definition memory_global_dirty_log_start :: "nat \<Rightarrow> mem_op" where
  "memory_global_dirty_log_start fuel st =
     in_transaction fuel (pend True) (call_global Listener_log_global_start (st\<lparr>m_vmstate_change := False, m_global_dirty_log := True\<rparr>))"

definition memory_global_dirty_log_do_stop :: "nat \<Rightarrow> mem_op" where
  "memory_global_dirty_log_do_stop fuel st =
     andthen (in_transaction fuel (pend True)) (upd (call_global Listener_log_global_stop)) (st\<lparr>m_global_dirty_log := False\<rparr>)"

definition memory_vm_change_state_handler :: "nat \<Rightarrow> bool \<Rightarrow> mem_op" where
  "memory_vm_change_state_handler fuel running st =
     (if running then andthen (memory_global_dirty_log_do_stop fuel) (upd (\<lambda>st. st\<lparr>m_vmstate_change := False\<rparr>)) st else ret st)"

text \<open>While the machine is stopped the logging goes on; it ends when the machine runs again.\<close>

definition memory_global_dirty_log_stop :: "nat \<Rightarrow> bool \<Rightarrow> mem_op" where
  "memory_global_dirty_log_stop fuel runstate_is_running st =
     (if \<not> runstate_is_running then ret (st\<lparr>m_vmstate_change := True\<rparr>) else memory_global_dirty_log_do_stop fuel st)"

section \<open>Creating and destroying address spaces\<close>

definition address_space_init :: "nat \<Rightarrow> nat \<Rightarrow> mem_op" where
  "address_space_init fuel root st =
     (let i = length (m_spaces st);
          st1 = st\<lparr>m_refs := memory_region_ref (m_regions st) (Some root) (m_refs st),
                   m_spaces := m_spaces st @ [\<lparr>as_root = root, as_current_map = None, as_ioeventfds = [], as_listeners = False\<rparr>]\<rparr>
      in andthen (address_space_update_topology fuel i) (address_space_update_ioeventfds i) st1)"

end
