(* ===== verification/Address_Inv.thy ===== *)
theory Address_Inv
  imports Address_Space
begin

text \<open>
  Invariants of the address spaces: the reference count of every view is the number of its holders, so a view is
  handed to RCU exactly when nobody holds it, and after a committed transaction every address space answers
  every address the way its region graph does.
\<close>

section \<open>Reference counts\<close>

definition count_in :: "nat \<Rightarrow> nat list \<Rightarrow> int" where
  "count_in v vs = int (length (filter (\<lambda>w. w = v) vs))"

lemma count_in_simps [simp]:
  "count_in v [] = 0" "count_in v (w # vs) = (if w = v then 1 else 0) + count_in v vs"
  "count_in v (vs @ ws) = count_in v vs + count_in v ws" "0 \<le> count_in v vs"
  by (simp_all add: count_in_def)

lemma count_in_zero: "count_in v vs = 0 \<longleftrightarrow> v \<notin> set vs"
  by (auto simp: count_in_def filter_empty_conv)

definition table_of :: "mem_state \<Rightarrow> (nat option \<times> nat) list" where
  "table_of st = (case m_flat_views st of None \<Rightarrow> [] | Some t \<Rightarrow> t)"

definition current_ids :: "AddressSpace list \<Rightarrow> nat list" where
  "current_ids ss = concat (map (\<lambda>s. case as_current_map s of None \<Rightarrow> [] | Some v \<Rightarrow> [v]) ss)"

definition holders :: "mem_state \<Rightarrow> nat list" where
  "holders st = current_ids (m_spaces st) @ map snd (table_of st) @ (case m_empty_view st of None \<Rightarrow> [] | Some e \<Rightarrow> [e])"

text \<open>\<open>x\<close> counts the references held by running code.\<close>

definition view_refs :: "(nat \<Rightarrow> int) \<Rightarrow> mem_state \<Rightarrow> bool" where
  "view_refs x st \<longleftrightarrow> (\<forall>v<m_next st. fv_ref (m_views st v) = count_in v (holders st) + x v)
     \<and> (\<forall>v. 0 \<le> x v) \<and> (\<forall>v. m_next st \<le> v \<longrightarrow> count_in v (holders st) + x v = 0)
     \<and> (\<forall>v<m_next st. fv_root (m_views st v) = None \<longrightarrow> m_empty_view st = Some v)"

text \<open>Two states that differ in the counts of their views only.\<close>

definition same_views :: "mem_state \<Rightarrow> mem_state \<Rightarrow> bool" where
  "same_views st st' \<longleftrightarrow> (\<exists>vs rcu. st' = st\<lparr>m_views := vs, m_rcu := rcu\<rparr> \<and> (\<forall>v. fv_ranges (vs v) = fv_ranges (m_views st v)))"

lemma same_views_refl: "same_views st st"
  unfolding same_views_def by (intro exI [of _ "m_views st"] exI [of _ "m_rcu st"]) simp

lemma same_views_trans: "same_views a b \<Longrightarrow> same_views b c \<Longrightarrow> same_views a c"
  unfolding same_views_def by (elim exE conjE) (rule exI, rule exI, rule conjI, simp, simp)

lemma same_viewsD:
  assumes "same_views st st'"
  shows "m_regions st' = m_regions st" "m_spaces st' = m_spaces st" "m_flat_views st' = m_flat_views st"
    "m_empty_view st' = m_empty_view st" "m_next st' = m_next st" "m_global_dirty_log st' = m_global_dirty_log st"
    "m_depth st' = m_depth st" "fv_ranges (m_views st' v) = fv_ranges (m_views st v)" "m_calls st' = m_calls st"
    "m_update_pending st' = m_update_pending st"
  using assms by (auto simp: same_views_def)

lemma same_ref_view: "same_views st (ref_view v st)"
  unfolding same_views_def ref_view_def
  by (intro exI [of _ "(m_views st)(v := snd (flatview_ref (m_views st v)))"] exI [of _ "m_rcu st"])
    (simp add: flatview_ref_def)

lemma holders_views: "holders (st\<lparr>m_views := vs, m_rcu := r\<rparr>) = holders st" "holders (st\<lparr>m_views := vs\<rparr>) = holders st"
  by (simp_all add: holders_def table_of_def)

lemma view_refsD:
  assumes "view_refs x st"
  shows "v < m_next st \<Longrightarrow> fv_ref (m_views st v) = count_in v (holders st) + x v" "0 \<le> x v"
    "m_next st \<le> v \<Longrightarrow> count_in v (holders st) + x v = 0"
    "v < m_next st \<Longrightarrow> fv_root (m_views st v) = None \<Longrightarrow> m_empty_view st = Some v"
  using assms by (simp_all add: view_refs_def)

lemma view_refs_lt: "view_refs x st \<Longrightarrow> 0 < count_in v (holders st) + x v \<Longrightarrow> v < m_next st"
  using view_refsD(3) [of x st v] by linarith

lemma view_refs_change:
  assumes "view_refs x st" "v < m_next st" "0 \<le> x v + d"
  shows "view_refs (x(v := x v + d)) (st\<lparr>m_views := (m_views st)(v := (m_views st v)\<lparr>fv_ref := fv_ref (m_views st v) + d\<rparr>), m_rcu := r\<rparr>)"
proof -
  note ds = view_refsD [OF assms(1)]
  show ?thesis
    unfolding view_refs_def holders_views
  proof (intro conjI allI impI, goal_cases)
    case (1 w)
    then show ?case using ds(1) [of w] ds(1) [of v] by (cases "w = v") simp_all
  next
    case (2 w)
    then show ?case using ds(2) [of w] assms(3) by simp
  next
    case (3 w)
    then show ?case using ds(3) [of w] assms(2) by simp
  next
    case (4 w)
    then show ?case using ds(4) [of w] by (cases "w = v") simp_all
  qed
qed

lemma ref_view_refs:
  assumes "view_refs x st" "0 < count_in v (holders st) + x v"
  shows "view_refs (x(v := x v + 1)) (ref_view v st)"
proof -
  have lt: "v < m_next st" by (rule view_refs_lt [OF assms])
  then have "fv_ref (m_views st v) \<noteq> 0" using view_refsD(1) [OF assms(1)] assms(2) by simp
  then have "ref_view v st = st\<lparr>m_views := (m_views st)(v := (m_views st v)\<lparr>fv_ref := fv_ref (m_views st v) + 1\<rparr>), m_rcu := m_rcu st\<rparr>"
    by (simp add: ref_view_def flatview_ref_def)
  then show ?thesis using view_refs_change [OF assms(1) lt, of 1 "m_rcu st"] view_refsD(2) [OF assms(1), of v] by simp
qed

lemma unref_view_refs:
  assumes "view_refs x st" "0 < x v"
  shows "\<exists>st'. unref_view v st = Some (Inr st') \<and> view_refs (x(v := x v - 1)) st' \<and> same_views st st'"
proof -
  let ?view = "(m_views st v)\<lparr>fv_ref := fv_ref (m_views st v) - 1\<rparr>"
  let ?st = "st\<lparr>m_views := (m_views st)(v := ?view), m_rcu := m_rcu st @ (if fv_ref (m_views st v) = 1 then [v] else [])\<rparr>"
  note d = view_refsD [OF assms(1)]
  have lt: "v < m_next st" by (rule view_refs_lt [OF assms(1)]) (rule add_nonneg_pos [OF count_in_simps(4) assms(2)])
  then have r: "fv_ref (m_views st v) = count_in v (holders st) + x v" using assms by (simp add: view_refs_def)
  have "\<not> (fv_ref (m_views st v) = 1 \<and> fv_root (m_views st v) = None)"
  proof
    assume a: "fv_ref (m_views st v) = 1 \<and> fv_root (m_views st v) = None"
    then have "m_empty_view st = Some v" using assms(1) lt by (simp add: view_refs_def)
    then have "0 < count_in v (holders st)" by (simp add: holders_def add_nonneg_pos add_pos_nonneg)
    then show False using a r assms(2) by simp
  qed
  then have "unref_view v st = Some (Inr ?st)" by (auto simp: unref_view_def flatview_unref_def)
  moreover have "view_refs (x(v := x v - 1)) ?st"
    using view_refs_change [OF assms(1) lt, of "- 1"] assms(2) by simp
  moreover have "same_views st ?st"
    unfolding same_views_def
    by (intro exI [of _ "(m_views st)(v := ?view)"] exI [of _ "m_rcu st @ (if fv_ref (m_views st v) = 1 then [v] else [])"]) simp
  ultimately show ?thesis by blast
qed

lemma unref_views_refs:
  assumes "view_refs x st" "\<And>v. count_in v vs \<le> x v"
  shows "\<exists>st'. render_list unref_view vs st = Some (Inr st') \<and> view_refs (\<lambda>v. x v - count_in v vs) st' \<and> same_views st st'"
  using assms
proof (induction vs arbitrary: x st)
  case Nil
  then show ?case using same_views_refl [of st] by simp
next
  case (Cons w vs)
  have "0 < x w" using Cons.prems(2) [of w] count_in_simps(4) [of w vs] by (simp del: count_in_simps(4))
  then obtain t where t: "unref_view w st = Some (Inr t)" "view_refs (x(w := x w - 1)) t" "same_views st t"
    using unref_view_refs [OF Cons.prems(1)] by blast
  have "count_in v vs \<le> (x(w := x w - 1)) v" for v using Cons.prems(2) [of v] by (simp split: if_splits)
  from Cons.IH [OF t(2) this] obtain st' where st': "render_list unref_view vs t = Some (Inr st')"
      "view_refs (\<lambda>v. (x(w := x w - 1)) v - count_in v vs) st'" "same_views t st'" by blast
  moreover have "(\<lambda>v. (x(w := x w - 1)) v - count_in v vs) = (\<lambda>v. x v - count_in v (w # vs))" by auto
  ultimately show ?case using t(1,3) same_views_trans by (metis (no_types, lifting) option.simps(5) old.sum.simps(6) render_list.simps(2))
qed

section \<open>The table of views\<close>

definition answers :: "nat \<Rightarrow> bool \<Rightarrow> regions \<Rightarrow> nat option \<Rightarrow> FlatRange list \<Rightarrow> bool" where
  "answers fuel gdl rg k rs \<longleftrightarrow> flat_ok rs \<and> in_space rs \<and> (\<forall>a. 0 \<le> a \<and> a < 18446744073709551616 \<longrightarrow>
     view_at rs a = (case k of None \<Rightarrow> None | Some q \<Rightarrow> region_at fuel gdl rg q 0 False a))"

text \<open>Between transactions: exact counts, a table whose views answer for their keys, an empty view.\<close>

definition table_ok :: "nat \<Rightarrow> mem_state \<Rightarrow> bool" where
  "table_ok fuel st \<longleftrightarrow> view_refs (\<lambda>_. 0) st \<and> distinct (map fst (table_of st))
     \<and> (\<forall>(k, v)\<in>set (table_of st). answers fuel (m_global_dirty_log st) (m_regions st) k (fv_ranges (m_views st v)))
     \<and> (\<forall>e. m_empty_view st = Some e \<longrightarrow> fv_ranges (m_views st e) = [])
     \<and> (m_flat_views st = None \<or> lookup_view st None \<noteq> None)"

definition graph_ok :: "(nat \<Rightarrow> nat) \<Rightarrow> nat \<Rightarrow> mem_state \<Rightarrow> bool" where
  "graph_ok rk fuel st \<longleftrightarrow> sizes_ok (m_regions st) \<and> ranked rk (m_regions st) \<and> plain_roots (m_regions st)
     \<and> (\<forall>s\<in>set (m_spaces st). mr_addr (m_regions st (as_root s)) = 0 \<and> rk (as_root s) < fuel)"

lemma answers_Nil: "answers fuel gdl rg None []"
  by (simp add: answers_def view_at_def in_space_def)

lemma topology_facts:
  assumes "sizes_ok rg" "ranked rk rg" "\<And>p. k = Some p \<Longrightarrow> rk p < fuel"
  shows "\<exists>view cs'. render_topology fuel gdl rg k cs = Some (Inr (view, cs')) \<and> fv_ref view = 1 \<and> fv_root view = k
    \<and> answers fuel gdl rg k (fv_ranges view) \<and> (k = None \<longrightarrow> fv_ranges view = [])"
proof (cases k)
  case None
  then show ?thesis
    by (simp add: render_topology_def flatview_new_def flatview_simplify_def simplify_outer.simps answers_Nil)
next
  case (Some p)
  let ?s = "flatview_new rg (Some p) cs" and ?clip = "addrrange_make 0 18446744073709551616"
  obtain r where r: "render_memory_region fuel gdl rg p 0 ?clip False ?s = Some r"
    using render_total [OF assms(2) assms(3) [OF Some]] by blast
  have new: "fv_ranges (fst ?s) = []" by (simp add: flatview_new_def)
  have "renders ?s (clipped ?clip (region_at fuel gdl rg p 0 False)) r"
    by (rule render_renders [OF assms(1) _ _ r]) (simp_all add: new addrrange_make_def)
  then obtain v cs' where v: "r = Inr (v, cs')" "flat_ok (fv_ranges v)"
      "view_at (fv_ranges v) = clipped ?clip (region_at fuel gdl rg p 0 False)"
    by (elim rendersD) (force simp: new overlay_def view_at_def)
  have inv: "view_inv rg (memory_region_ref rg (Some p) cs) (Some p) (v, cs')"
    by (rule render_inv [where Q = "view_inv rg (memory_region_ref rg (Some p) cs) (Some p)", OF view_inv_insert flatview_new_inv r [unfolded v(1)]])
  have "in_space (fv_ranges (flatview_simplify v))"
    using render_resolves [OF assms(1,2) assms(3) [OF Some], of gdl cs] r v(1) by (auto simp: render_topology_def Let_def)
  then have "answers fuel gdl rg k (fv_ranges (flatview_simplify v))"
    using merge_all_spec [OF v(2)] Some
    by (simp add: answers_def flatview_simplify_merge v(3) clipped_def addrrange_contains_def addrrange_make_def addrrange_end_def)
  then show ?thesis
    using r v(1) inv Some by (simp add: render_topology_def Let_def view_inv_def flatview_simplify_def)
qed

lemma lookup_table: "m_flat_views st = Some t \<Longrightarrow> lookup_view st k = map_of t k" "m_flat_views st = Some t \<Longrightarrow> table_of st = t"
  by (simp_all add: lookup_view_def table_of_def)

lemma replace_fresh:
  assumes "m_flat_views st = Some t" "map_of t k = None"
  shows "replace_view k v st = Some (Inr (st\<lparr>m_flat_views := Some ((k, v) # t)\<rparr>))"
proof -
  have "filter (\<lambda>(k', v'). k' \<noteq> k) t = t" using assms(2) by (force simp: map_of_eq_None_iff intro!: filter_True)
  then show ?thesis using assms by (simp add: replace_view_def ret_def Let_def)
qed

lemma generate_spec:
  assumes "graph_ok rk fuel st" "m_flat_views st = Some t" "map_of t k = None" "\<forall>p. k = Some p \<longrightarrow> rk p < fuel"
  shows "\<exists>view cs'. generate_memory_topology fuel k st = Some (Inr (st\<lparr>m_views := (m_views st)(m_next st := view), m_next := m_next st + 1,
        m_refs := cs', m_flat_views := Some ((k, m_next st) # t)\<rparr>))
    \<and> fv_ref view = 1 \<and> fv_root view = k \<and> answers fuel (m_global_dirty_log st) (m_regions st) k (fv_ranges view) \<and> (k = None \<longrightarrow> fv_ranges view = [])"
proof -
  obtain view cs' where "render_topology fuel (m_global_dirty_log st) (m_regions st) k (m_refs st) = Some (Inr (view, cs'))"
      "fv_ref view = 1" "fv_root view = k" "answers fuel (m_global_dirty_log st) (m_regions st) k (fv_ranges view)" "k = None \<longrightarrow> fv_ranges view = []"
    using topology_facts [of "m_regions st" rk k fuel "m_global_dirty_log st" "m_refs st"] assms(1,4) by (auto simp: graph_ok_def)
  moreover have "replace_view k (m_next st) (st\<lparr>m_views := (m_views st)(m_next st := view), m_next := m_next st + 1, m_refs := cs'\<rparr>)
      = Some (Inr (st\<lparr>m_views := (m_views st)(m_next st := view), m_next := m_next st + 1, m_refs := cs', m_flat_views := Some ((k, m_next st) # t)\<rparr>))"
    using assms(2,3) by (subst replace_fresh) simp_all
  ultimately show ?thesis by (auto simp: generate_memory_topology_def)
qed

text \<open>References move between holders and running code, and new views come with theirs.\<close>

lemma view_refs_move:
  assumes "view_refs x st" "m_views st' = m_views st" "m_next st' = m_next st" "m_empty_view st' = m_empty_view st"
    and "\<And>v. count_in v (holders st') + x' v = count_in v (holders st) + x v" "\<And>v. 0 \<le> x' v"
  shows "view_refs x' st'"
  using view_refsD [OF assms(1)] assms(2-) by (simp add: view_refs_def)

lemma view_refs_new:
  assumes "view_refs (\<lambda>_. 0) st" "\<And>v. count_in v (holders st') = count_in v (holders st) + (if v = m_next st then n else 0)"
    and "m_views st' = (m_views st)(m_next st := view)" "m_next st' = m_next st + 1" "fv_ref view = n"
    and "fv_root view = None \<Longrightarrow> m_empty_view st' = Some (m_next st)" "\<And>e. m_empty_view st = Some e \<Longrightarrow> m_empty_view st' = Some e"
  shows "view_refs (\<lambda>_. 0) st'"
proof -
  note d = view_refsD [OF assms(1)]
  have "count_in (m_next st) (holders st) = 0" using d(3) [of "m_next st"] by simp
  then show ?thesis
    using d assms(2-) by (auto simp: view_refs_def less_Suc_eq)
qed

text \<open>What the operations on the table leave alone.\<close>

definition keeps :: "mem_state \<Rightarrow> mem_state \<Rightarrow> bool" where
  "keeps st st' \<longleftrightarrow> m_regions st' = m_regions st \<and> m_spaces st' = m_spaces st \<and> m_global_dirty_log st' = m_global_dirty_log st
     \<and> m_depth st' = m_depth st \<and> m_update_pending st' = m_update_pending st \<and> m_calls st' = m_calls st
     \<and> m_next st \<le> m_next st' \<and> (\<forall>v<m_next st. fv_ranges (m_views st' v) = fv_ranges (m_views st v))"

lemma keeps_trans: "keeps a b \<Longrightarrow> keeps b c \<Longrightarrow> keeps a c"
  by (auto simp: keeps_def)

lemma keeps_refl: "keeps st st"
  by (simp add: keeps_def)

lemma same_keeps: "same_views st st' \<Longrightarrow> keeps st st'"
  by (auto simp: same_views_def keeps_def)

lemma graph_ok_keeps: "keeps st st' \<Longrightarrow> graph_ok rk fuel st \<Longrightarrow> graph_ok rk fuel st'"
  by (simp add: keeps_def graph_ok_def)

lemma table_of_Some: "m_flat_views st = Some t \<Longrightarrow> table_of st = t"
  by (simp add: table_of_def)

lemma init_spec:
  assumes "view_refs (\<lambda>_. 0) st" "graph_ok rk fuel st" "m_flat_views st = None"
    and "\<And>e. m_empty_view st = Some e \<Longrightarrow> fv_ranges (m_views st e) = []"
  shows "\<exists>st'. flatviews_init fuel st = Some (Inr st') \<and> table_ok fuel st' \<and> m_flat_views st' \<noteq> None \<and> keeps st st'"
proof (cases "m_empty_view st")
  case None
  let ?e = "m_next st" and ?s = "st\<lparr>m_flat_views := Some []\<rparr>"
  have g: "graph_ok rk fuel ?s" using assms(2) by (simp add: graph_ok_def)
  obtain view cs' where gen: "generate_memory_topology fuel None ?s = Some (Inr (?s\<lparr>m_views := (m_views st)(?e := view), m_next := ?e + 1,
        m_refs := cs', m_flat_views := Some [(None, ?e)]\<rparr>))" "fv_ref view = 1" "fv_root view = None" "fv_ranges view = []"
    using generate_spec [OF g, of "[]" None] by auto
  let ?st = "st\<lparr>m_flat_views := Some [(None, ?e)], m_views := (m_views st)(?e := view\<lparr>fv_ref := 2\<rparr>), m_next := ?e + 1, m_refs := cs', m_empty_view := Some ?e\<rparr>"
  have "flatviews_init fuel st = Some (Inr ?st)"
    using gen assms(3) None by (simp add: flatviews_init_def andthen_def ret_def ref_view_def flatview_ref_def)
  moreover have "view_refs (\<lambda>_. 0) ?st"
    by (rule view_refs_new [OF assms(1), where n = 2 and view = "view\<lparr>fv_ref := 2\<rparr>"])
      (use None assms(3) in \<open>simp_all add: holders_def table_of_def\<close>)
  ultimately show ?thesis
    using gen(4) by (auto simp: table_ok_def table_of_def answers_Nil keeps_def lookup_view_def)
next
  case (Some e)
  let ?st = "(ref_view e st)\<lparr>m_flat_views := Some [(None, e)]\<rparr>"
  have c: "0 < count_in e (holders st)" using Some by (simp add: holders_def add_nonneg_pos)
  have "flatviews_init fuel st = Some (Inr ?st)"
    using assms(3) Some replace_fresh [of "st\<lparr>m_flat_views := Some []\<rparr>" "[]" None e]
    by (simp add: flatviews_init_def andthen_def ret_def ref_view_def)
  moreover have "view_refs (\<lambda>_. 0) ?st"
  proof (rule view_refs_move)
    show "view_refs ((\<lambda>_. 0)(e := 0 + 1)) (ref_view e st)" using ref_view_refs [OF assms(1), of e] c by simp
  qed (use assms(3) in \<open>simp_all add: holders_def table_of_def ref_view_def\<close>)
  moreover note same_viewsD [OF same_ref_view [of st e]]
  ultimately show ?thesis
    using assms(4) [OF Some] Some by (auto simp: table_ok_def table_of_def answers_Nil keeps_def lookup_view_def)
qed

lemma drop_table:
  assumes "view_refs (\<lambda>_. 0) st"
  shows "\<exists>st'. drop_flat_views st = Some (Inr st') \<and> view_refs (\<lambda>_. 0) st' \<and> m_flat_views st' = None \<and> keeps st st' \<and> m_empty_view st' = m_empty_view st
    \<and> (\<forall>v. fv_ranges (m_views st' v) = fv_ranges (m_views st v))"
proof (cases "m_flat_views st")
  case None
  then show ?thesis using assms(1) by (simp add: drop_flat_views_def ret_def keeps_refl)
next
  case (Some t)
  let ?s = "st\<lparr>m_flat_views := None\<rparr>"
  have "view_refs (\<lambda>v. count_in v (map snd t)) ?s"
    by (rule view_refs_move [OF assms(1)]) (simp_all add: holders_def table_of_def Some)
  from unref_views_refs [OF this, of "map snd t"] obtain st' where st': "render_list unref_view (map snd t) ?s = Some (Inr st')"
      "view_refs (\<lambda>v. count_in v (map snd t) - count_in v (map snd t)) st'" "same_views ?s st'" by auto
  note k = same_viewsD [OF st'(3)]
  show ?thesis
    using st' k Some by (simp add: drop_flat_views_def keeps_def)
qed

section \<open>Resetting the table\<close>

lemma render_list_append:
  "render_list f (xs @ ys) s = (case render_list f xs s of Some (Inr s') \<Rightarrow> render_list f ys s' | r \<Rightarrow> r)"
  by (induction xs arbitrary: s) (auto split: option.splits sum.splits)

lemma render_list_upto:
  assumes "\<And>i st. i < n \<Longrightarrow> J i st \<Longrightarrow> \<exists>st'. f i st = Some (Inr st') \<and> J (Suc i) st'" "J 0 st"
  shows "\<exists>st'. render_list f [0..<n] st = Some (Inr st') \<and> J n st'"
  using assms
proof (induction n)
  case (Suc n)
  then obtain t where t: "render_list f [0..<n] st = Some (Inr t)" "J n t" by (meson less_SucI)
  then obtain st' where "f n t = Some (Inr st')" "J (Suc n) st'" using Suc.prems(1) [of n t] by auto
  then show ?case using t by (simp add: render_list_append)
qed simp

lemma table_ok_keep_lookup:
  assumes "table_ok fuel st" "lookup_view st k = Some v"
  shows "v < m_next st" "answers fuel (m_global_dirty_log st) (m_regions st) k (fv_ranges (m_views st v))" "0 < count_in v (holders st)"
proof -
  have m: "(k, v) \<in> set (table_of st)" using assms(2) by (auto simp: lookup_view_def table_of_def split: option.splits dest: map_of_SomeD)
  then have "v \<in> set (map snd (table_of st))" by force
  then have "v \<in> set (holders st)" by (simp add: holders_def)
  then show c: "0 < count_in v (holders st)" using count_in_zero [of v "holders st"] count_in_simps(4) [of v "holders st"] by linarith
  show "v < m_next st" by (rule view_refs_lt [of "\<lambda>_. 0"]) (use assms(1) c in \<open>simp_all add: table_ok_def\<close>)
  show "answers fuel (m_global_dirty_log st) (m_regions st) k (fv_ranges (m_views st v))"
    using assms(1) m by (auto simp: table_ok_def)
qed

lemma with_root_spec:
  assumes "graph_ok rk fuel st" "i < length (m_spaces st)"
  obtains k where "memory_region_get_flatview_root fuel (m_regions st) (as_root (m_spaces st ! i)) = Some k"
    "\<And>f. with_root fuel i f st = f k st" "\<forall>p. k = Some p \<longrightarrow> rk p < fuel"
    "\<And>gdl rs. answers fuel gdl (m_regions st) k rs \<longleftrightarrow> answers fuel gdl (m_regions st) (Some (as_root (m_spaces st ! i))) rs"
proof -
  let ?p = "as_root (m_spaces st ! i)" and ?rg = "m_regions st"
  have g: "plain_roots ?rg" "ranked rk ?rg" "mr_addr (?rg ?p) = 0" "rk ?p < fuel"
    using assms by (auto simp: graph_ok_def)
  obtain k where k: "memory_region_get_flatview_root fuel ?rg ?p = Some k"
      "\<forall>gdl a. region_at fuel gdl ?rg ?p 0 False a = (case k of None \<Rightarrow> None | Some q \<Rightarrow> region_at fuel gdl ?rg q 0 False a)"
    using flatview_root_spec [OF g] by blast
  show ?thesis
  proof (rule that [OF k(1)])
    show "with_root fuel i f st = f k st" for f by (simp add: with_root_def k(1))
    show "\<forall>p. k = Some p \<longrightarrow> rk p < fuel" using flatview_root_rank [OF g(2), of fuel ?p] k(1) g(4) by auto
    show "answers fuel gdl ?rg k rs \<longleftrightarrow> answers fuel gdl ?rg (Some ?p) rs" for gdl rs
      by (simp add: answers_def k(2))
  qed
qed

definition rendered :: "nat \<Rightarrow> nat \<Rightarrow> mem_state \<Rightarrow> bool" where
  "rendered fuel i st \<longleftrightarrow> (\<exists>k. memory_region_get_flatview_root fuel (m_regions st) (as_root (m_spaces st ! i)) = Some k \<and> lookup_view st k \<noteq> None)"

lemma render_space_spec:
  assumes "table_ok fuel st" "m_flat_views st = Some t" "graph_ok rk fuel st" "i < length (m_spaces st)"
  shows "\<exists>st'. render_space fuel i st = Some (Inr st') \<and> table_ok fuel st' \<and> m_flat_views st' \<noteq> None \<and> keeps st st'
    \<and> rendered fuel i st' \<and> (\<forall>j. rendered fuel j st \<longrightarrow> rendered fuel j st')"
proof -
  obtain k where k: "memory_region_get_flatview_root fuel (m_regions st) (as_root (m_spaces st ! i)) = Some k"
      "\<And>f. with_root fuel i f st = f k st" "\<forall>p. k = Some p \<longrightarrow> rk p < fuel"
    by (rule with_root_spec [OF assms(3,4)]) (erule that, assumption+)
  show ?thesis
  proof (cases "lookup_view st k")
    case (Some v)
    then show ?thesis using assms(1,2) k by (simp add: render_space_def k(2) ret_def keeps_refl rendered_def)
  next
    case None
    then have n: "map_of t k = None" using assms(2) by (simp add: lookup_view_def)
    let ?e = "m_next st"
    obtain view cs' where gen: "generate_memory_topology fuel k st = Some (Inr (st\<lparr>m_views := (m_views st)(?e := view), m_next := ?e + 1,
          m_refs := cs', m_flat_views := Some ((k, ?e) # t)\<rparr>))"
        "fv_ref view = 1" "fv_root view = k" "answers fuel (m_global_dirty_log st) (m_regions st) k (fv_ranges view)" "k = None \<longrightarrow> fv_ranges view = []"
      using generate_spec [OF assms(3,2) n k(3)] by (elim exE conjE) (erule that, assumption+)
    let ?st = "st\<lparr>m_views := (m_views st)(?e := view), m_next := ?e + 1, m_refs := cs', m_flat_views := Some ((k, ?e) # t)\<rparr>"
    have kn: "k \<noteq> None" using assms(1,2) None by (cases k) (simp_all add: table_ok_def)
    have vr: "view_refs (\<lambda>_. 0) ?st"
      by (rule view_refs_new [where n = 1 and view = view and st = st])
        (use assms(1,2) gen kn in \<open>simp_all add: table_ok_def holders_def table_of_def\<close>)
    have lt: "v < ?e" if "(k', v) \<in> set t" for k' v
    proof -
      have "lookup_view st k' = Some v"
        using assms(1,2) that by (simp add: lookup_view_def table_ok_def table_of_def)
      then show ?thesis by (rule table_ok_keep_lookup(1) [OF assms(1)])
    qed
    have em: "e < ?e" if "m_empty_view st = Some e" for e
      by (rule view_refs_lt [of "\<lambda>_. 0"]) (use assms(1) that in \<open>simp_all add: table_ok_def holders_def add_nonneg_pos\<close>)
    have tab: "table_of st = t" "table_of ?st = (k, ?e) # t" by (simp_all add: table_of_def assms(2))
    have "k \<notin> fst ` set t" using n by (simp add: map_of_eq_None_iff)
    then have dist: "distinct (map fst (table_of ?st))" unfolding tab(2) using assms(1) by (simp add: table_ok_def tab(1))
    have old: "answers fuel (m_global_dirty_log st) (m_regions st) k' (fv_ranges (m_views ?st v))" if "(k', v) \<in> set t" for k' v
      using assms(1) lt [OF that] that by (auto simp: table_ok_def tab(1))
    have ans: "\<forall>(k', v)\<in>set (table_of ?st). answers fuel (m_global_dirty_log st) (m_regions st) k' (fv_ranges (m_views ?st v))"
      unfolding tab using gen(4) old by (simp add: case_prod_beta')
    have empt: "\<forall>e. m_empty_view st = Some e \<longrightarrow> fv_ranges (m_views ?st e) = []"
      using assms(1) em by (auto simp: table_ok_def)
    have look: "lookup_view ?st None \<noteq> None" using assms(1,2) kn by (simp add: table_ok_def lookup_view_def)
    have "table_ok fuel ?st"
      unfolding table_ok_def using vr dist ans empt look by simp
    moreover have "keeps st ?st" by (simp add: keeps_def)
    ultimately show ?thesis
      using gen(1) None assms(2) k
      by (auto simp: render_space_def k(2) rendered_def lookup_view_def)
  qed
qed

lemma rendered_keeps:
  assumes "keeps st st'" "m_flat_views st' = m_flat_views st"
  shows "rendered fuel i st' = rendered fuel i st"
  using assms by (simp add: rendered_def keeps_def lookup_view_def)

definition settled :: "nat \<Rightarrow> mem_state \<Rightarrow> mem_state \<Rightarrow> bool" where
  "settled fuel st st' \<longleftrightarrow> table_ok fuel st' \<and> m_flat_views st' \<noteq> None \<and> keeps st st'"

text \<open>What must hold when a transaction ends, whatever was done to the regions in it.\<close>

definition refs_ok :: "mem_state \<Rightarrow> bool" where
  "refs_ok st \<longleftrightarrow> view_refs (\<lambda>_. 0) st \<and> (\<forall>e. m_empty_view st = Some e \<longrightarrow> fv_ranges (m_views st e) = [])"

lemma table_refs_ok: "table_ok fuel st \<Longrightarrow> refs_ok st"
  by (simp add: table_ok_def refs_ok_def)

lemma reset_spec:
  assumes "refs_ok st" "graph_ok rk fuel st"
  shows "\<exists>st'. flatviews_reset fuel st = Some (Inr st') \<and> settled fuel st st' \<and> (\<forall>i<length (m_spaces st). rendered fuel i st')"
proof -
  have r: "view_refs (\<lambda>_. 0) st" using assms(1) by (simp add: refs_ok_def)
  obtain s1 where s1: "drop_flat_views st = Some (Inr s1)" "view_refs (\<lambda>_. 0) s1" "m_flat_views s1 = None" "keeps st s1"
      "m_empty_view s1 = m_empty_view st" "\<And>v. fv_ranges (m_views s1 v) = fv_ranges (m_views st v)"
    using drop_table [OF r] by blast
  obtain s2 where s2: "flatviews_init fuel s1 = Some (Inr s2)" "table_ok fuel s2" "m_flat_views s2 \<noteq> None" "keeps s1 s2"
    using init_spec [OF s1(2) graph_ok_keeps [OF s1(4) assms(2)] s1(3)] s1(5,6) assms(1) by (auto simp: refs_ok_def)
  let ?n = "length (m_spaces st)"
  let ?J = "\<lambda>i s. settled fuel st s \<and> (\<forall>j<i. rendered fuel j s)"
  have "\<exists>s'. render_list (render_space fuel) [0..<?n] s2 = Some (Inr s') \<and> ?J ?n s'"
  proof (rule render_list_upto)
    show "?J 0 s2" using s2 keeps_trans [OF s1(4)] by (simp add: settled_def)
    fix i s assume i: "i < ?n" and j: "?J i s"
    obtain t where "m_flat_views s = Some t" using j by (auto simp: settled_def)
    then show "\<exists>s'. render_space fuel i s = Some (Inr s') \<and> ?J (Suc i) s'"
      using render_space_spec [of fuel s t rk i] j i graph_ok_keeps [OF _ assms(2), of s] keeps_trans [of st s]
      by (auto simp: settled_def keeps_def less_Suc_eq)
  qed
  then show ?thesis using s1(1) s2(1) by (auto simp: flatviews_reset_def andthen_def)
qed

section \<open>Giving a space its view\<close>

definition held :: "nat option \<Rightarrow> nat list" where
  "held m = (case m of None \<Rightarrow> [] | Some v \<Rightarrow> [v])"

lemma current_ids_Cons: "current_ids (s # ss) = held (as_current_map s) @ current_ids ss"
  by (simp add: current_ids_def held_def)

lemma count_in_update:
  "i < length ss \<Longrightarrow> count_in v (current_ids (ss[i := s])) + count_in v (held (as_current_map (ss ! i)))
     = count_in v (current_ids ss) + count_in v (held (as_current_map s))"
proof (induction ss arbitrary: i)
  case (Cons a ss)
  then show ?case by (cases i) (simp_all add: current_ids_Cons)
qed simp

lemma holds_current: "i < length ss \<Longrightarrow> as_current_map (ss ! i) = Some w \<Longrightarrow> 0 < count_in w (current_ids ss)"
  using count_in_update [of i ss w "(ss ! i)\<lparr>as_current_map := None\<rparr>"] count_in_simps(4) [of w "current_ids (ss[i := (ss ! i)\<lparr>as_current_map := None\<rparr>])"]
  by (simp add: held_def del: count_in_simps(4))

text \<open>What giving views to spaces leaves alone, and what it leaves of one space.\<close>

definition follows :: "mem_state \<Rightarrow> mem_state \<Rightarrow> bool" where
  "follows st st' \<longleftrightarrow> m_regions st' = m_regions st \<and> m_global_dirty_log st' = m_global_dirty_log st \<and> m_flat_views st' = m_flat_views st
     \<and> m_empty_view st' = m_empty_view st \<and> m_depth st' = m_depth st \<and> m_next st' = m_next st
     \<and> map as_root (m_spaces st') = map as_root (m_spaces st) \<and> (\<forall>v. fv_ranges (m_views st' v) = fv_ranges (m_views st v))"

definition current_ok :: "nat \<Rightarrow> nat \<Rightarrow> mem_state \<Rightarrow> bool" where
  "current_ok fuel i st \<longleftrightarrow> (\<exists>v. as_current_map (m_spaces st ! i) = Some v \<and> answers fuel (m_global_dirty_log st) (m_regions st)
     (Some (as_root (m_spaces st ! i))) (fv_ranges (m_views st v)))"

lemma follows_refl: "follows st st"
  by (simp add: follows_def)

lemma follows_trans: "follows a b \<Longrightarrow> follows b c \<Longrightarrow> follows a c"
  by (simp add: follows_def)

lemma same_follows: "same_views st st' \<Longrightarrow> follows st st'"
  by (auto simp: same_views_def follows_def)

lemma follows_length: "follows st st' \<Longrightarrow> length (m_spaces st') = length (m_spaces st)"
  by (metis follows_def length_map)

lemma follows_root: "follows st st' \<Longrightarrow> i < length (m_spaces st) \<Longrightarrow> as_root (m_spaces st' ! i) = as_root (m_spaces st ! i)"
  using nth_map [of i "m_spaces st'" as_root] nth_map [of i "m_spaces st" as_root] follows_length [of st st'] by (simp add: follows_def)

lemma graph_ok_roots:
  "graph_ok rk fuel st \<longleftrightarrow> sizes_ok (m_regions st) \<and> ranked rk (m_regions st) \<and> plain_roots (m_regions st)
     \<and> (\<forall>r\<in>set (map as_root (m_spaces st)). mr_addr (m_regions st r) = 0 \<and> rk r < fuel)"
  by (simp add: graph_ok_def)

lemma follows_keeps:
  assumes "follows st st'"
  shows "graph_ok rk fuel st \<Longrightarrow> graph_ok rk fuel st'" "table_ok fuel st \<Longrightarrow> view_refs (\<lambda>_. 0) st' \<Longrightarrow> table_ok fuel st'"
    "i < length (m_spaces st) \<Longrightarrow> rendered fuel i st \<Longrightarrow> rendered fuel i st'"
proof -
  show "graph_ok rk fuel st \<Longrightarrow> graph_ok rk fuel st'"
    using assms unfolding graph_ok_roots follows_def by (elim conjE) simp
  show "table_ok fuel st \<Longrightarrow> view_refs (\<lambda>_. 0) st' \<Longrightarrow> table_ok fuel st'"
    using assms by (simp add: table_ok_def follows_def table_of_def lookup_view_def)
  show "i < length (m_spaces st) \<Longrightarrow> rendered fuel i st \<Longrightarrow> rendered fuel i st'"
    using assms follows_root [OF assms] by (simp add: rendered_def follows_def lookup_view_def)
qed

lemma current_ok_follows:
  assumes "follows st st'" "i < length (m_spaces st)" "as_current_map (m_spaces st' ! i) = as_current_map (m_spaces st ! i)" "current_ok fuel i st"
  shows "current_ok fuel i st'"
  using assms follows_root [OF assms(1,2)] by (simp add: current_ok_def follows_def)

lemma space_calls_shape: "\<exists>cs. space_calls i old v st = st\<lparr>m_calls := cs\<rparr>"
  by (cases "as_listeners (m_spaces st ! i)") (auto simp: space_calls_def Let_def intro: exI [of _ "m_calls st"])

lemma set_space_refs:
  assumes "view_refs x st" "i < length (m_spaces st)" "x' = (\<lambda>u. x u + count_in u (held (as_current_map (m_spaces st ! i))) - count_in u [v])"
    and "\<And>u. 0 \<le> x' u"
  shows "view_refs x' (set_space i (\<lambda>s. s\<lparr>as_current_map := Some v\<rparr>) (st\<lparr>m_calls := cs\<rparr>))"
proof (rule view_refs_move [OF assms(1)])
  let ?st = "set_space i (\<lambda>s. s\<lparr>as_current_map := Some v\<rparr>) (st\<lparr>m_calls := cs\<rparr>)"
  show "count_in u (holders ?st) + x' u = count_in u (holders st) + x u" for u
    using count_in_update [OF assms(2), of u "(m_spaces st ! i)\<lparr>as_current_map := Some v\<rparr>"] assms(3)
    by (simp add: holders_def table_of_def set_space_def held_def)
qed (use assms(4) in \<open>simp_all add: set_space_def\<close>)

lemma set_space_follows: "i < length (m_spaces st) \<Longrightarrow> (\<And>s. as_root (f s) = as_root s) \<Longrightarrow> follows st (set_space i f (st\<lparr>m_calls := cs\<rparr>))"
  by (simp add: follows_def set_space_def map_update list_update_same_conv)

lemma unref_twice:
  assumes "view_refs ((\<lambda>_. 0)(w := 2)) st"
  shows "\<exists>st'. andthen (unref_view w) (unref_view w) st = Some (Inr st') \<and> view_refs (\<lambda>_. 0) st' \<and> same_views st st'"
proof -
  obtain s1 where s1: "unref_view w st = Some (Inr s1)" "view_refs ((\<lambda>_. 0)(w := 1)) s1" "same_views st s1"
    using unref_view_refs [OF assms, of w] by auto
  obtain s2 where s2: "unref_view w s1 = Some (Inr s2)" "view_refs (\<lambda>_. 0) s2" "same_views s1 s2"
    using unref_view_refs [OF s1(2), of w] by (auto simp: fun_upd_idem)
  show ?thesis using s1(1) s2(1,2) same_views_trans [OF s1(3) s2(3)] by (simp add: andthen_def)
qed

lemma set_flatview_spec:
  assumes "table_ok fuel st" "graph_ok rk fuel st" "i < length (m_spaces st)" "rendered fuel i st"
  shows "\<exists>st'. address_space_set_flatview fuel i st = Some (Inr st') \<and> view_refs (\<lambda>_. 0) st' \<and> follows st st' \<and> current_ok fuel i st'
    \<and> (\<forall>j. j \<noteq> i \<longrightarrow> m_spaces st' ! j = m_spaces st ! j)"
proof -
  let ?s = "m_spaces st ! i"
  obtain k where k: "memory_region_get_flatview_root fuel (m_regions st) (as_root ?s) = Some k"
      "\<And>f. with_root fuel i f st = f k st"
      "\<And>gdl rs. answers fuel gdl (m_regions st) k rs \<longleftrightarrow> answers fuel gdl (m_regions st) (Some (as_root ?s)) rs"
    by (rule with_root_spec [OF assms(2,3)]) (erule that, assumption+)
  obtain v where v: "lookup_view st k = Some v" using assms(4) k(1) by (auto simp: rendered_def)
  note lk = table_ok_keep_lookup [OF assms(1) v]
  have r: "view_refs (\<lambda>_. 0) st" using assms(1) by (simp add: table_ok_def)
  show ?thesis
  proof (cases "as_current_map ?s = Some v")
    case True
    then show ?thesis using k lk(2) r v
      by (simp add: address_space_set_flatview_def ret_def follows_refl current_ok_def)
  next
    case False
    show ?thesis
    proof (cases "as_current_map ?s")
      case None
      let ?t = "ref_view v st"
      obtain cs where cs: "space_calls i None v ?t = ?t\<lparr>m_calls := cs\<rparr>" using space_calls_shape [of i None v ?t] by blast
      let ?st = "set_space i (\<lambda>s. s\<lparr>as_current_map := Some v\<rparr>) (?t\<lparr>m_calls := cs\<rparr>)"
      note sp = same_viewsD [OF same_ref_view [of st v]]
      have "view_refs ((\<lambda>_. 0)(v := 1)) ?t" using ref_view_refs [OF r, of v] lk(3) by simp
      then have "view_refs (\<lambda>_. 0) ?st" by (rule set_space_refs) (use assms(3) None in \<open>auto simp: sp held_def\<close>)
      moreover have "follows st ?st"
        by (rule follows_trans [OF same_follows [OF same_ref_view] set_space_follows]) (use assms(3) in \<open>simp_all add: sp\<close>)
      ultimately show ?thesis
        using None v k lk(2) assms(3) cs
        by (simp add: address_space_set_flatview_def ret_def current_ok_def set_space_def sp)
    next
      case (Some w)
      let ?t = "ref_view v (ref_view w st)"
      obtain cs where cs: "space_calls i (Some w) v ?t = ?t\<lparr>m_calls := cs\<rparr>" using space_calls_shape [of i "Some w" v ?t] by blast
      let ?u = "set_space i (\<lambda>s. s\<lparr>as_current_map := Some v\<rparr>) (?t\<lparr>m_calls := cs\<rparr>)"
      have same: "same_views st ?t" by (rule same_views_trans [OF same_ref_view same_ref_view])
      note sp = same_viewsD [OF same]
      have vw: "v \<noteq> w" using False Some by simp
      have "0 < count_in w (holders st)" using holds_current [OF assms(3) Some] by (simp add: holders_def add_pos_nonneg)
      then have r1: "view_refs ((\<lambda>_. 0)(w := 1)) (ref_view w st)" using ref_view_refs [OF r, of w] by simp
      have "holders (ref_view w st) = holders st" by (simp add: ref_view_def holders_views)
      then have r2: "view_refs ((\<lambda>_. 0)(w := 1, v := 1)) ?t" using ref_view_refs [OF r1, of v] lk(3) vw by simp
      have "view_refs ((\<lambda>_. 0)(w := 2)) ?u"
        by (rule set_space_refs [OF r2]) (use assms(3) Some vw in \<open>auto simp: sp held_def\<close>)
      then obtain st' where st': "andthen (unref_view w) (unref_view w) ?u = Some (Inr st')" "view_refs (\<lambda>_. 0) st'" "same_views ?u st'"
        using unref_twice by blast
      note su = same_viewsD [OF st'(3)]
      have "follows st ?u"
        by (rule follows_trans [OF same_follows [OF same] set_space_follows]) (use assms(3) in \<open>simp_all add: sp\<close>)
      then have "follows st st'" using same_follows [OF st'(3)] follows_trans by blast
      then show ?thesis
        using Some False v k lk(2) assms(3) cs st'
        by (simp add: address_space_set_flatview_def current_ok_def su set_space_def sp)
    qed
  qed
qed

section \<open>Event notifiers of a space\<close>

definition eventfds_ok :: "nat \<Rightarrow> mem_state \<Rightarrow> bool" where
  "eventfds_ok i st \<longleftrightarrow> (\<exists>v. as_current_map (m_spaces st ! i) = Some v
     \<and> as_ioeventfds (m_spaces st ! i) = concat (map (range_eventfds (m_regions st)) (fv_ranges (m_views st v))))"

lemma held_update:
  "i < length ss \<Longrightarrow> as_current_map s = as_current_map (ss ! i) \<Longrightarrow> count_in v (current_ids (ss[i := s])) = count_in v (current_ids ss)"
  using count_in_update [of i ss v s] by simp

lemma update_ioeventfds_spec:
  assumes "view_refs (\<lambda>_. 0) st" "i < length (m_spaces st)" "as_current_map (m_spaces st ! i) = Some v"
  shows "\<exists>st'. address_space_update_ioeventfds i st = Some (Inr st') \<and> view_refs (\<lambda>_. 0) st' \<and> follows st st' \<and> eventfds_ok i st'
    \<and> as_current_map (m_spaces st' ! i) = Some v \<and> (\<forall>j. j \<noteq> i \<longrightarrow> m_spaces st' ! j = m_spaces st ! j)"
proof -
  let ?t = "ref_view v st" and ?fds = "concat (map (range_eventfds (m_regions st)) (fv_ranges (m_views st v)))"
  note sp = same_viewsD [OF same_ref_view [of st v]]
  have pos: "0 < count_in v (holders st)" using holds_current [OF assms(2,3)] by (simp add: holders_def add_pos_nonneg)
  have lt: "v < m_next st" by (rule view_refs_lt [OF assms(1)]) (simp add: pos)
  then have live: "fst (flatview_ref (m_views st v))" using view_refsD(1) [OF assms(1) lt] pos by (simp add: flatview_ref_def)
  obtain cs where cs: "address_space_update_ioeventfds i st = unref_view v (set_space i (\<lambda>s. s\<lparr>as_ioeventfds := ?fds\<rparr>) (?t\<lparr>m_calls := cs\<rparr>))"
    using assms(3) live by (simp add: address_space_update_ioeventfds_def address_space_get_flatview_def Let_def sp)
  let ?u = "set_space i (\<lambda>s. s\<lparr>as_ioeventfds := ?fds\<rparr>) (?t\<lparr>m_calls := cs\<rparr>)"
  have "view_refs ((\<lambda>_. 0)(v := 1)) ?t" using ref_view_refs [OF assms(1), of v] pos by simp
  then have "view_refs ((\<lambda>_. 0)(v := 1)) ?u"
    by (rule view_refs_move) (use assms(2) in \<open>simp_all add: set_space_def holders_def table_of_def held_update sp\<close>)
  then obtain st' where st': "unref_view v ?u = Some (Inr st')" "view_refs (\<lambda>_. 0) st'" "same_views ?u st'"
    using unref_view_refs [of _ ?u v] by (force simp: fun_upd_idem)
  note su = same_viewsD [OF st'(3)]
  have "follows st ?u"
    by (rule follows_trans [OF same_follows [OF same_ref_view] set_space_follows]) (use assms(2) in \<open>simp_all add: sp\<close>)
  then have "follows st st'" using same_follows [OF st'(3)] follows_trans by blast
  then show ?thesis
    using cs st' assms(2,3) by (simp add: eventfds_ok_def su set_space_def sp)
qed

section \<open>Committing a transaction\<close>

text \<open>The state between transactions.\<close>

definition up_to_date :: "nat \<Rightarrow> mem_state \<Rightarrow> bool" where
  "up_to_date fuel st \<longleftrightarrow> refs_ok st \<and> m_depth st = 0 \<and> \<not> m_update_pending st \<and> \<not> m_ioeventfd_pending st
     \<and> (\<forall>i<length (m_spaces st). current_ok fuel i st \<and> eventfds_ok i st)"

lemma eventfds_ok_follows:
  assumes "follows st st'" "m_spaces st' ! i = m_spaces st ! i" "eventfds_ok i st"
  shows "eventfds_ok i st'"
  using assms by (simp add: eventfds_ok_def follows_def)

lemma set_and_update_spec:
  assumes "table_ok fuel st" "graph_ok rk fuel st" "i < length (m_spaces st)" "rendered fuel i st"
  shows "\<exists>st'. andthen (address_space_set_flatview fuel i) (address_space_update_ioeventfds i) st = Some (Inr st')
    \<and> view_refs (\<lambda>_. 0) st' \<and> follows st st' \<and> current_ok fuel i st' \<and> eventfds_ok i st' \<and> (\<forall>j. j \<noteq> i \<longrightarrow> m_spaces st' ! j = m_spaces st ! j)"
proof -
  obtain s1 where s1: "address_space_set_flatview fuel i st = Some (Inr s1)" "view_refs (\<lambda>_. 0) s1" "follows st s1" "current_ok fuel i s1"
      "\<And>j. j \<noteq> i \<Longrightarrow> m_spaces s1 ! j = m_spaces st ! j"
    using set_flatview_spec [OF assms] by blast
  obtain v where v: "as_current_map (m_spaces s1 ! i) = Some v" using s1(4) by (auto simp: current_ok_def)
  have i: "i < length (m_spaces s1)" using follows_length [OF s1(3)] assms(3) by simp
  obtain s2 where s2: "address_space_update_ioeventfds i s1 = Some (Inr s2)" "view_refs (\<lambda>_. 0) s2" "follows s1 s2" "eventfds_ok i s2"
      "as_current_map (m_spaces s2 ! i) = Some v" "\<And>j. j \<noteq> i \<Longrightarrow> m_spaces s2 ! j = m_spaces s1 ! j"
    using update_ioeventfds_spec [OF s1(2) i v] by blast
  have "current_ok fuel i s2" by (rule current_ok_follows [OF s2(3) i _ s1(4)]) (simp add: s2(5) v)
  then show ?thesis using s1 s2 follows_trans [OF s1(3) s2(3)] by (auto simp: andthen_def)
qed

lemma set_all_spec:
  assumes "table_ok fuel st" "graph_ok rk fuel st" "\<And>i. i < length (m_spaces st) \<Longrightarrow> rendered fuel i st"
  shows "\<exists>st'. render_list (\<lambda>i. andthen (address_space_set_flatview fuel i) (address_space_update_ioeventfds i)) [0..<length (m_spaces st)] st = Some (Inr st')
    \<and> table_ok fuel st' \<and> follows st st' \<and> (\<forall>i<length (m_spaces st). current_ok fuel i st' \<and> eventfds_ok i st')"
proof -
  let ?J = "\<lambda>n s. table_ok fuel s \<and> follows st s \<and> (\<forall>i<n. current_ok fuel i s \<and> eventfds_ok i s)"
  have "\<exists>st'. render_list (\<lambda>i. andthen (address_space_set_flatview fuel i) (address_space_update_ioeventfds i)) [0..<length (m_spaces st)] st = Some (Inr st')
      \<and> ?J (length (m_spaces st)) st'"
  proof (rule render_list_upto)
    show "?J 0 st" using assms(1) follows_refl by simp
    fix i s assume i: "i < length (m_spaces st)" and J: "?J i s"
    have len: "length (m_spaces s) = length (m_spaces st)" using J follows_length by blast
    have g: "graph_ok rk fuel s" and rd: "rendered fuel i s" using follows_keeps(1,3) J i assms(2,3) by blast+
    obtain s' where s': "andthen (address_space_set_flatview fuel i) (address_space_update_ioeventfds i) s = Some (Inr s')"
        "view_refs (\<lambda>_. 0) s'" "follows s s'" "current_ok fuel i s'" "eventfds_ok i s'" "\<And>j. j \<noteq> i \<Longrightarrow> m_spaces s' ! j = m_spaces s ! j"
      using set_and_update_spec [of fuel s rk i] J g rd i len by auto
    have "current_ok fuel j s' \<and> eventfds_ok j s'" if "j < i" for j
      using current_ok_follows [OF s'(3), of j fuel] eventfds_ok_follows [OF s'(3), of j] s'(6) [of j] J that i len by simp
    then have "?J (Suc i) s'" using J s' follows_keeps(2) [OF s'(3)] follows_trans by (auto simp: less_Suc_eq)
    then show "\<exists>s'. andthen (address_space_set_flatview fuel i) (address_space_update_ioeventfds i) s = Some (Inr s') \<and> ?J (Suc i) s'"
      using s'(1) by blast
  qed
  then show ?thesis by blast
qed

lemma depth_irrelevant:
  "refs_ok (st\<lparr>m_depth := d\<rparr>) = refs_ok st" "graph_ok rk fuel (st\<lparr>m_depth := d\<rparr>) = graph_ok rk fuel st"
  by (simp_all add: refs_ok_def view_refs_def holders_def table_of_def graph_ok_def)

lemma calls_irrelevant:
  "table_ok fuel (st\<lparr>m_calls := cs\<rparr>) = table_ok fuel st" "graph_ok rk fuel (st\<lparr>m_calls := cs\<rparr>) = graph_ok rk fuel st"
  "rendered fuel i (st\<lparr>m_calls := cs\<rparr>) = rendered fuel i st"
  by (simp_all add: table_ok_def view_refs_def holders_def table_of_def graph_ok_def lookup_view_def rendered_def)

lemma done_irrelevant:
  "refs_ok (st\<lparr>m_update_pending := a, m_ioeventfd_pending := b, m_calls := cs\<rparr>) = refs_ok st"
  "current_ok fuel i (st\<lparr>m_update_pending := a, m_ioeventfd_pending := b, m_calls := cs\<rparr>) = current_ok fuel i st"
  "eventfds_ok i (st\<lparr>m_update_pending := a, m_ioeventfd_pending := b, m_calls := cs\<rparr>) = eventfds_ok i st"
  by (simp_all add: refs_ok_def view_refs_def holders_def table_of_def current_ok_def eventfds_ok_def)

lemma commit_spec:
  assumes "refs_ok st" "graph_ok rk fuel st" "m_depth st = 1" "m_update_pending st"
  shows "\<exists>st'. memory_region_transaction_commit fuel st = Some (Inr st') \<and> up_to_date fuel st'
    \<and> m_regions st' = m_regions st \<and> map as_root (m_spaces st') = map as_root (m_spaces st) \<and> m_global_dirty_log st' = m_global_dirty_log st"
proof -
  let ?s0 = "st\<lparr>m_depth := 0\<rparr>" and ?n = "length (m_spaces st)"
  obtain s1 where s1: "flatviews_reset fuel ?s0 = Some (Inr s1)" "settled fuel ?s0 s1" "\<And>i. i < ?n \<Longrightarrow> rendered fuel i s1"
    using reset_spec [of ?s0 rk fuel] assms(1,2) by (auto simp: depth_irrelevant)
  let ?s1 = "s1\<lparr>m_calls := m_calls s1 @ [Listener_begin]\<rparr>"
  have k: "keeps ?s0 s1" "table_ok fuel s1" using s1(2) by (simp_all add: settled_def)
  have g: "graph_ok rk fuel s1" by (rule graph_ok_keeps [OF k(1)]) (simp add: depth_irrelevant assms(2))
  have n: "length (m_spaces s1) = ?n" using k(1) by (simp add: keeps_def)
  obtain s2 where s2: "render_list (\<lambda>i. andthen (address_space_set_flatview fuel i) (address_space_update_ioeventfds i)) [0..<?n] ?s1 = Some (Inr s2)"
      "table_ok fuel s2" "follows ?s1 s2" "\<forall>i<?n. current_ok fuel i s2 \<and> eventfds_ok i s2"
    using set_all_spec [of fuel ?s1 rk] k(2) g s1(3) n by (auto simp: calls_irrelevant)
  let ?s3 = "s2\<lparr>m_update_pending := False, m_ioeventfd_pending := False, m_calls := m_calls s2 @ [Listener_commit]\<rparr>"
  have "memory_region_transaction_commit fuel st = Some (Inr ?s3)"
    using assms(3,4) s1(1) s2(1) by (simp add: memory_region_transaction_commit_def Let_def andthen_def upd_def)
  moreover have "up_to_date fuel ?s3"
    using s2 k(1) follows_length [OF s2(3)] n table_refs_ok [OF s2(2)]
    by (simp add: up_to_date_def done_irrelevant) (simp add: follows_def keeps_def)
  ultimately show ?thesis using s2(3) k(1) by (simp add: follows_def keeps_def)
qed

text \<open>A change inside an open transaction waits for the outer commit.\<close>

lemma in_open_transaction:
  assumes "\<And>st d. f (st\<lparr>m_depth := d\<rparr>) = (f st)\<lparr>m_depth := d\<rparr>" "0 < m_depth st"
  shows "in_transaction fuel f st = Some (Inr (f st))"
proof -
  have d: "m_depth (f st) = m_depth st" using assms(1) [of "m_depth st" st] by (metis mem_state.select_convs(8) mem_state.surjective mem_state.update_convs(8))
  have "(f st)\<lparr>m_depth := m_depth st\<rparr> = f st" using assms(1) [of "m_depth st" st] by simp
  then show ?thesis
    using assms d by (simp add: in_transaction_def memory_region_transaction_begin_def memory_region_transaction_commit_def ret_def Let_def)
qed

primrec run_all :: "mem_op list \<Rightarrow> mem_op" where
  "run_all [] st = Some (Inr st)"
| "run_all (f # fs) st = (case f st of Some (Inr st') \<Rightarrow> run_all fs st' | r \<Rightarrow> r)"

lemma in_open_transactions:
  assumes "\<forall>f\<in>set fs. \<forall>st d. f (st\<lparr>m_depth := d\<rparr>) = (f st)\<lparr>m_depth := d\<rparr>" "0 < m_depth st"
  shows "run_all (map (in_transaction fuel) fs) st = Some (Inr (fold (\<lambda>f s. f s) fs st))"
  using assms
proof (induction fs arbitrary: st)
  case (Cons f fs)
  have "m_depth (f st) = m_depth st" using Cons.prems(1) by (metis list.set_intros(1) mem_state.select_convs(8) mem_state.surjective mem_state.update_convs(8))
  then show ?case using Cons in_open_transaction [of f st] by simp
qed simp

section \<open>Properties\<close>

definition fresh_memory :: mem_state where
  "fresh_memory = \<lparr>m_regions = demo_regions, m_refs = (\<lambda>_. 0), m_views = (\<lambda>_. fst (flatview_new demo_regions None (\<lambda>_. 0))), m_next = 0, m_flat_views = None,
     m_empty_view = None, m_spaces = [\<lparr>as_root = 0, as_current_map = None, as_ioeventfds = [], as_listeners = True\<rparr>], m_depth = 0,
     m_update_pending = False, m_ioeventfd_pending = False, m_global_dirty_log = False, m_rcu = [], m_calls = [], m_vmstate_change = False\<rparr>"

lemma fresh_ok: "refs_ok (pend True (memory_region_transaction_begin fresh_memory))"
    "graph_ok demo_rank 3 (pend True (memory_region_transaction_begin fresh_memory))"
  by (simp_all add: refs_ok_def view_refs_def holders_def current_ids_def table_of_def graph_ok_def pend_def memory_region_transaction_begin_def
      fresh_memory_def demo_ok demo_rank_def) (simp add: demo_regions_def plain_region_def)



text \<open>Enabling or disabling a region outside a transaction succeeds whenever the changed graph is acyclic,
  changes that flag and nothing else of the graph, and leaves every address space up to date with the new
  graph.\<close>

theorem set_enabled_tracks:
  assumes "up_to_date fuel st" "graph_ok rk fuel (set_region p (\<lambda>mr. mr\<lparr>mr_enabled := b\<rparr>) st)"
  shows "\<exists>st'. memory_region_set_enabled fuel p b st = Some (Inr st') \<and> up_to_date fuel st'
    \<and> m_regions st' = (m_regions st)(p := (m_regions st p)\<lparr>mr_enabled := b\<rparr>)"
proof (cases "b = mr_enabled (m_regions st p)")
  case True
  then show ?thesis using assms(1) by (simp add: memory_region_set_enabled_def ret_def fun_upd_idem)
next
  case False
  let ?s = "pend True (set_region p (\<lambda>mr. mr\<lparr>mr_enabled := b\<rparr>) (memory_region_transaction_begin st))"
  have "refs_ok ?s" "graph_ok rk fuel ?s" "m_depth ?s = 1" "m_update_pending ?s"
    using assms by (simp_all add: up_to_date_def refs_ok_def view_refs_def holders_def table_of_def graph_ok_def pend_def set_region_def
        memory_region_transaction_begin_def)
  moreover have "m_regions ?s = (m_regions st)(p := (m_regions st p)\<lparr>mr_enabled := b\<rparr>)"
    by (simp add: pend_def set_region_def memory_region_transaction_begin_def)
  ultimately show ?thesis
    using False commit_spec [of ?s rk fuel] by (simp add: memory_region_set_enabled_def in_transaction_def) blast
qed

theorem set_enabled_tracks_witness:
  "\<exists>st st'. up_to_date 3 st \<and> m_regions st = demo_regions \<and> memory_region_set_enabled 3 1 False st = Some (Inr st') \<and> up_to_date 3 st'"
proof -
  obtain st where st: "up_to_date 3 st" "m_regions st = demo_regions" "map as_root (m_spaces st) = [0]"
    using commit_spec [OF fresh_ok] by (auto simp: pend_def memory_region_transaction_begin_def fresh_memory_def)
  let ?rg = "demo_regions(1 := (demo_regions 1)\<lparr>mr_enabled := False\<rparr>)"
  have "sizes_ok ?rg" "ranked demo_rank ?rg" "plain_roots ?rg"
    by (auto simp: sizes_ok_def ranked_def plain_roots_def demo_regions_def plain_region_def demo_rank_def)
  then have "graph_ok demo_rank 3 (set_region 1 (\<lambda>mr. mr\<lparr>mr_enabled := False\<rparr>) st)"
    by (simp add: graph_ok_roots set_region_def st demo_rank_def) (simp add: demo_regions_def plain_region_def)
  from set_enabled_tracks [OF st(1) this] show ?thesis using st by blast
qed



end
