(* ===== verification/Phys_Map.thy ===== *)
theory Phys_Map
  imports Flat_View
begin

text \<open>
  The physical page map (\<open>qemu-diff/exec.c\<close>, \<open>phys_map_node_reserve\<close> to \<open>phys_page_find\<close>): a radix tree with 512
  slots per node from page numbers to sections. Page numbers and counts are naturals (they stay below
  \<open>2 ^ 64\<close>); \<open>levels\<close> is \<open>P_L2_LEVELS\<close>. A node is a function from its slots, the nodes of a map are a function from
  their numbers. A section is named by its index. The static \<open>alloc_hint\<close> is part of the map. A section holds the
  region it shows, or one of the four special regions, or the region of a subpage.

  The tree is correct in the sense of a finite map: setting a range of pages that are not assigned changes the
  answer for exactly these pages, and the nodes reserved before are always enough.
\<close>

section \<open>Model\<close>

record PhysPageEntry =
  pe_skip :: nat
  pe_ptr :: nat

definition PHYS_MAP_NODE_NIL :: nat where "PHYS_MAP_NODE_NIL = 67108863"
definition PHYS_SECTION_UNASSIGNED :: nat where "PHYS_SECTION_UNASSIGNED = 0"
definition P_L2_SIZE :: nat where "P_L2_SIZE = 512"

definition P_L2_LEVELS :: "nat \<Rightarrow> nat" where
  "P_L2_LEVELS target_page_bits = (64 - target_page_bits - 1) div 9 + 1"

datatype section_mr = Mr nat | Io_mem_unassigned | Io_mem_notdirty | Io_mem_rom | Io_mem_watch | Subpage nat

record MemoryRegionSection =
  ms_mr :: section_mr
  ms_offset_within_region :: int
  ms_size :: int
  ms_offset_within_address_space :: int
  ms_readonly :: bool

record PhysPageMap =
  sections :: "MemoryRegionSection list"
  sections_nb_alloc :: nat
  nodes_nb :: nat
  nodes_nb_alloc :: nat
  alloc_hint :: nat
  nodes :: "nat \<Rightarrow> nat \<Rightarrow> PhysPageEntry"

definition phys_map_node_reserve :: "nat \<Rightarrow> PhysPageMap \<Rightarrow> PhysPageMap" where
  "phys_map_node_reserve k m =
     (if nodes_nb m + k > nodes_nb_alloc m
      then let a = max (max (nodes_nb_alloc m) (alloc_hint m)) (nodes_nb m + k) in m\<lparr>nodes_nb_alloc := a, alloc_hint := a\<rparr>
      else m)"

definition fresh_entry :: "bool \<Rightarrow> PhysPageEntry" where
  "fresh_entry leaf = \<lparr>pe_skip = (if leaf then 0 else 1), pe_ptr = (if leaf then PHYS_SECTION_UNASSIGNED else PHYS_MAP_NODE_NIL)\<rparr>"

definition phys_map_node_alloc :: "bool \<Rightarrow> PhysPageMap \<Rightarrow> (nat \<times> PhysPageMap) res" where
  "phys_map_node_alloc leaf m =
     (let r = nodes_nb m in
      if r = PHYS_MAP_NODE_NIL \<or> r = nodes_nb_alloc m then Inl Assert_failed
      else Inr (r, m\<lparr>nodes_nb := r + 1, nodes := (nodes m)(r := (\<lambda>_. fresh_entry leaf))\<rparr>))"

definition set_slot :: "nat \<Rightarrow> nat \<Rightarrow> PhysPageEntry \<Rightarrow> PhysPageMap \<Rightarrow> PhysPageMap" where
  "set_slot n i e m = m\<lparr>nodes := (nodes m)(n := (nodes m n)(i := e))\<rparr>"

text \<open>The start of \<open>phys_page_set_level\<close>: the entry may need a node. The result is the entry and the map.\<close>

definition node_of :: "nat \<Rightarrow> PhysPageEntry \<Rightarrow> PhysPageMap \<Rightarrow> (PhysPageEntry \<times> PhysPageMap) res" where
  "node_of level e m =
     (if pe_skip e \<noteq> 0 \<and> pe_ptr e = PHYS_MAP_NODE_NIL
      then res_bind (phys_map_node_alloc (level = 0) m) (\<lambda>(r, m1). Inr (e\<lparr>pe_ptr := r\<rparr>, m1))
      else Inr (e, m))"

text \<open>The loop of \<open>phys_page_set_level\<close> over the slots of node \<open>n\<close>, with the call for a slot inlined. At level 0 every
  page is a whole step; the C code would go on with level -1 otherwise.\<close>

function set_loop :: "nat \<Rightarrow> nat \<Rightarrow> nat \<Rightarrow> nat \<Rightarrow> PhysPageMap \<times> nat \<times> nat \<Rightarrow> (PhysPageMap \<times> nat \<times> nat) res" where
  "set_loop leaf level n i s =
     (let (m, index, nb) = s; step = 512 ^ level in
      if nb = 0 \<or> P_L2_SIZE \<le> i then Inr s
      else if index mod step = 0 \<and> nb \<ge> step
      then set_loop leaf level n (i + 1) (set_slot n i \<lparr>pe_skip = 0, pe_ptr = leaf\<rparr> m, index + step, nb - step)
      else case level of
          0 \<Rightarrow> Inl Undefined
        | Suc l \<Rightarrow>
            (case node_of l (nodes m n i) m of
               Inl e \<Rightarrow> Inl e
             | Inr (e, m1) \<Rightarrow>
                 (case set_loop leaf l (pe_ptr e) (index div 512 ^ l mod P_L2_SIZE) (set_slot n i e m1, index, nb) of
                    Inl err \<Rightarrow> Inl err
                  | Inr s1 \<Rightarrow> set_loop leaf level n (i + 1) s1)))"
  by pat_completeness auto

termination set_loop
  by (relation "measures [\<lambda>(leaf, level, n, i, s). level, \<lambda>(leaf, level, n, i, s). P_L2_SIZE - i]") auto

declare set_loop.simps [simp del]

definition phys_page_set_level :: "nat \<Rightarrow> nat \<Rightarrow> PhysPageEntry \<Rightarrow> PhysPageMap \<times> nat \<times> nat \<Rightarrow> (PhysPageEntry \<times> PhysPageMap \<times> nat \<times> nat) res" where
  "phys_page_set_level leaf level lp s =
     (let (m, index, nb) = s in
      res_bind (node_of level lp m) (\<lambda>(e, m1).
        res_bind (set_loop leaf level (pe_ptr e) (index div 512 ^ level mod P_L2_SIZE) (m1, index, nb)) (\<lambda>s1. Inr (e, s1))))"

record subpage_t =
  sp_base :: int
  sub_section :: "nat \<Rightarrow> nat"

record AddressSpaceDispatch =
  mru_section :: "nat option"
  phys_map :: PhysPageEntry
  disp_map :: PhysPageMap
  disp_subpages :: "subpage_t list"

definition phys_page_set :: "nat \<Rightarrow> AddressSpaceDispatch \<Rightarrow> nat \<Rightarrow> nat \<Rightarrow> nat \<Rightarrow> AddressSpaceDispatch res" where
  "phys_page_set levels d index nb leaf =
     res_bind (phys_page_set_level leaf (levels - 1) (phys_map d) (phys_map_node_reserve (3 * levels) (disp_map d), index, nb))
       (\<lambda>(e, m, _, _). Inr (d\<lparr>phys_map := e, disp_map := m\<rparr>))"

definition section_covers_addr :: "MemoryRegionSection \<Rightarrow> int \<Rightarrow> bool" where
  "section_covers_addr s a \<longleftrightarrow> ms_size s \<ge> 18446744073709551616
     \<or> ms_offset_within_address_space s \<le> a \<and> a \<le> ulong (ms_offset_within_address_space s + ms_size s - 1)"

text \<open>The walk of \<open>phys_page_find\<close>; \<open>i\<close> counts the levels that are left. A negative \<open>i\<close> ends the loop.\<close>

function find_walk :: "PhysPageMap \<Rightarrow> nat \<Rightarrow> nat \<Rightarrow> PhysPageEntry \<Rightarrow> nat" where
  "find_walk m index i lp =
     (if pe_skip lp \<noteq> 0 \<and> pe_skip lp \<le> i
      then if pe_ptr lp = PHYS_MAP_NODE_NIL then PHYS_SECTION_UNASSIGNED
           else find_walk m index (i - pe_skip lp) (nodes m (pe_ptr lp) (index div 512 ^ (i - pe_skip lp) mod P_L2_SIZE))
      else pe_ptr lp)"
  by pat_completeness auto

termination find_walk
  by (relation "measure (\<lambda>(m, index, i, lp). i)") auto

declare find_walk.simps [simp del]

definition phys_page_find :: "nat \<Rightarrow> nat \<Rightarrow> AddressSpaceDispatch \<Rightarrow> int \<Rightarrow> nat" where
  "phys_page_find levels target_page_bits d a =
     (let s = find_walk (disp_map d) (nat (a div 2 ^ target_page_bits)) levels (phys_map d) in
      if section_covers_addr (sections (disp_map d) ! s) a then s else PHYS_SECTION_UNASSIGNED)"

section \<open>Nodes and the ranges they cover\<close>

text \<open>\<open>own\<close> gives every node its level and the first page it covers. A node of level \<open>l\<close> covers \<open>512 ^ (l + 1)\<close>
  pages, a slot of it \<open>512 ^ l\<close>.\<close>

definition slot_ok :: "(nat \<Rightarrow> nat \<times> nat) \<Rightarrow> nat \<Rightarrow> nat \<Rightarrow> nat \<Rightarrow> PhysPageEntry \<Rightarrow> bool" where
  "slot_ok own nb l first e \<longleftrightarrow>
     (if pe_skip e = 0 then l = 0 \<or> pe_ptr e \<noteq> 0
      else pe_skip e = 1 \<and> 0 < l \<and> (pe_ptr e = PHYS_MAP_NODE_NIL \<or> pe_ptr e < nb \<and> own (pe_ptr e) = (l - 1, first)))"

definition map_ok :: "(nat \<Rightarrow> nat \<times> nat) \<Rightarrow> PhysPageMap \<Rightarrow> bool" where
  "map_ok own m \<longleftrightarrow> nodes_nb m \<le> PHYS_MAP_NODE_NIL
     \<and> (\<forall>n<nodes_nb m. 512 ^ (fst (own n) + 1) dvd snd (own n)
         \<and> (\<forall>i<512. slot_ok own (nodes_nb m) (fst (own n)) (snd (own n) + i * 512 ^ fst (own n)) (nodes m n i)))"

text \<open>The section of a page below a node of level \<open>l\<close>.\<close>

fun lookup :: "PhysPageMap \<Rightarrow> nat \<Rightarrow> nat \<Rightarrow> nat \<Rightarrow> nat" where
  "lookup m 0 n x = pe_ptr (nodes m n (x mod 512))"
| "lookup m (Suc l) n x =
     (let e = nodes m n (x div 512 ^ Suc l mod 512) in
      if pe_skip e = 0 then pe_ptr e else if pe_ptr e = PHYS_MAP_NODE_NIL then 0 else lookup m l (pe_ptr e) x)"

definition covers_page :: "nat \<times> nat \<Rightarrow> nat \<Rightarrow> bool" where
  "covers_page o' x \<longleftrightarrow> snd o' \<le> x \<and> x < snd o' + 512 ^ (fst o' + 1)"

lemma slot_of_page:
  fixes x :: nat
  assumes "512 ^ (l + 1) dvd b" "i < 512" "b + i * 512 ^ l \<le> x" "x < b + (i + 1) * 512 ^ l"
  shows "x div 512 ^ l mod 512 = i"
proof -
  obtain c where c: "b = 512 ^ (l + 1) * c" using assms(1) by (elim dvdE)
  have "x div 512 ^ l = 512 * c + i"
  proof (rule div_nat_eqI)
    show "512 ^ l * (512 * c + i) \<le> x" using assms(3) c by (simp add: algebra_simps)
    show "x < 512 ^ l * Suc (512 * c + i)" using assms(4) c by (simp add: algebra_simps)
  qed
  then show ?thesis using assms(2) by simp
qed

lemma page_slot:
  fixes x :: nat
  assumes "512 ^ (l + 1) dvd b" "b \<le> x" "x < b + 512 ^ (l + 1)"
  defines "i \<equiv> x div 512 ^ l mod 512"
  shows "i < 512" "b + i * 512 ^ l \<le> x" "x < b + (i + 1) * 512 ^ l"
proof -
  obtain c where c: "b = 512 ^ (l + 1) * c" using assms(1) by (elim dvdE)
  define k where "k = (x - b) div 512 ^ l"
  have k: "k < 512" unfolding k_def using assms(2,3) by (simp add: less_mult_imp_div_less)
  have r: "k * 512 ^ l \<le> x - b" "x - b < (k + 1) * 512 ^ l"
    unfolding k_def by (simp_all add: dividend_less_div_times div_times_less_eq_dividend)
  have "i = k" unfolding i_def
    by (rule slot_of_page [OF assms(1) k]) (use r assms(2) in linarith)+
  then show "i < 512" "b + i * 512 ^ l \<le> x" "x < b + (i + 1) * 512 ^ l" using k r assms(2) by simp_all
qed

text \<open>A lookup below a node reads only nodes whose range lies inside the node's.\<close>

lemma lookup_frame:
  assumes "map_ok own m" "n < nodes_nb m" "own n = (l, b)" "b \<le> x" "x < b + 512 ^ (l + 1)"
    and "\<And>k l' b'. k < nodes_nb m \<Longrightarrow> own k = (l', b') \<Longrightarrow> l' \<le> l \<Longrightarrow> b' \<le> x \<Longrightarrow> x < b' + 512 ^ (l' + 1) \<Longrightarrow> nodes m' k = nodes m k"
  shows "lookup m' l n x = lookup m l n x"
  using assms(2-)
proof (induction l arbitrary: n b)
  case 0
  then show ?case by simp
next
  case (Suc l)
  have nd: "nodes m' n = nodes m n" using Suc.prems(5) [OF Suc.prems(1,2)] Suc.prems(3,4) by simp
  let ?i = "x div 512 ^ Suc l mod 512" and ?e = "nodes m n (x div 512 ^ Suc l mod 512)"
  have d: "512 ^ (Suc l + 1) dvd b" using assms(1) Suc.prems(1,2) by (force simp: map_ok_def)
  note ps = page_slot [OF d Suc.prems(3,4)]
  have so: "slot_ok own (nodes_nb m) (Suc l) (b + ?i * 512 ^ Suc l) ?e" using assms(1) Suc.prems(1,2) ps(1) by (force simp: map_ok_def)
  show ?case
  proof (cases "pe_skip ?e = 0 \<or> pe_ptr ?e = PHYS_MAP_NODE_NIL")
    case True
    then show ?thesis by (auto simp: nd Let_def)
  next
    case False
    then have c: "pe_ptr ?e < nodes_nb m" "own (pe_ptr ?e) = (l, b + ?i * 512 ^ Suc l)" using so by (auto simp: slot_ok_def split: if_splits)
    have "lookup m' l (pe_ptr ?e) x = lookup m l (pe_ptr ?e) x"
      by (rule Suc.IH [OF c]) (use ps Suc.prems(5) in \<open>auto simp: algebra_simps\<close>)
    then show ?thesis using False by (simp add: nd Let_def)
  qed
qed

section \<open>What setting a range does\<close>

text \<open>From \<open>m\<close> to \<open>m'\<close> the pages from \<open>lo\<close> to \<open>hi\<close> below node \<open>n\<close> got the section \<open>leaf\<close>, with at most \<open>c\<close> new nodes and no change
  outside the node's range.\<close>

definition inside :: "nat \<times> nat \<Rightarrow> nat \<Rightarrow> nat \<Rightarrow> bool" where
  "inside o' l b \<longleftrightarrow> fst o' \<le> l \<and> b \<le> snd o' \<and> snd o' + 512 ^ (fst o' + 1) \<le> b + 512 ^ (l + 1)"

definition assigns :: "(nat \<Rightarrow> nat \<times> nat) \<Rightarrow> PhysPageMap \<Rightarrow> nat \<Rightarrow> nat \<Rightarrow> nat \<Rightarrow> nat \<Rightarrow> nat \<Rightarrow> nat \<Rightarrow> nat \<Rightarrow> (nat \<Rightarrow> nat \<times> nat) \<Rightarrow> PhysPageMap \<Rightarrow> bool" where
  "assigns own m l n b lo hi leaf c own' m' \<longleftrightarrow> map_ok own' m' \<and> nodes_nb m \<le> nodes_nb m' \<and> nodes_nb m' \<le> nodes_nb m + c
     \<and> nodes_nb_alloc m' = nodes_nb_alloc m \<and> sections m' = sections m \<and> (\<forall>k<nodes_nb m. own' k = own k)
     \<and> (\<forall>x. b \<le> x \<and> x < b + 512 ^ (l + 1) \<longrightarrow> lookup m' l n x = (if lo \<le> x \<and> x < hi then leaf else lookup m l n x))
     \<and> (\<forall>k<nodes_nb m. \<not> inside (own k) l b \<longrightarrow> nodes m' k = nodes m k)"

lemma assignsD:
  assumes "assigns own m l n b lo hi leaf c own' m'"
  shows "map_ok own' m'" "nodes_nb m \<le> nodes_nb m'" "nodes_nb m' \<le> nodes_nb m + c" "nodes_nb_alloc m' = nodes_nb_alloc m"
    "k < nodes_nb m \<Longrightarrow> own' k = own k"
    "b \<le> x \<Longrightarrow> x < b + 512 ^ (l + 1) \<Longrightarrow> lookup m' l n x = (if lo \<le> x \<and> x < hi then leaf else lookup m l n x)"
    "k < nodes_nb m \<Longrightarrow> \<not> inside (own k) l b \<Longrightarrow> nodes m' k = nodes m k" "sections m' = sections m"
  using assms by (simp_all add: assigns_def)

lemma assigns_refl: "map_ok own m \<Longrightarrow> assigns own m l n b lo lo leaf c own m"
  by (auto simp: assigns_def)

lemma assigns_trans:
  assumes "assigns own m l n b lo mid leaf c own1 m1" "assigns own1 m1 l n b mid hi leaf c' own2 m2" "lo \<le> mid" "mid \<le> hi"
  shows "assigns own m l n b lo hi leaf (c + c') own2 m2"
proof -
  note a = assignsD [OF assms(1)] and b = assignsD [OF assms(2)]
  show ?thesis
    unfolding assigns_def
  proof (intro conjI allI impI)
    fix x assume x: "b \<le> x \<and> x < b + 512 ^ (l + 1)"
    then show "lookup m2 l n x = (if lo \<le> x \<and> x < hi then leaf else lookup m l n x)"
      using a(6) [of x] b(6) [of x] assms(3,4) by auto
  next
    fix k assume k: "k < nodes_nb m"
    then have k1: "k < nodes_nb m1" "own1 k = own k" using a(2) a(5) [of k] by simp_all
    then show "own2 k = own k" using b(5) by simp
    assume "\<not> inside (own k) l b"
    then show "nodes m2 k = nodes m k" using a(7) [OF k] b(7) k1 by simp
  qed (use a b in simp_all)
qed

text \<open>What a lookup below a node sees of a change of one of its slots.\<close>

lemma lookup_slot:
  assumes "map_ok own m" "n < nodes_nb m" "own n = (Suc l, b)" "b \<le> x" "x < b + 512 ^ (Suc l + 1)"
    and "nodes m' n (x div 512 ^ Suc l mod 512) = nodes m n (x div 512 ^ Suc l mod 512)"
    and "\<And>k l' b'. k < nodes_nb m \<Longrightarrow> own k = (l', b') \<Longrightarrow> l' \<le> l \<Longrightarrow> b' \<le> x \<Longrightarrow> x < b' + 512 ^ (l' + 1) \<Longrightarrow> nodes m' k = nodes m k"
  shows "lookup m' (Suc l) n x = lookup m (Suc l) n x"
proof -
  let ?i = "x div 512 ^ Suc l mod 512" and ?e = "nodes m n (x div 512 ^ Suc l mod 512)"
  have d: "512 ^ (Suc l + 1) dvd b" using assms(1-3) by (force simp: map_ok_def)
  note ps = page_slot [OF d assms(4,5)]
  have so: "slot_ok own (nodes_nb m) (Suc l) (b + ?i * 512 ^ Suc l) ?e" using assms(1-3) ps(1) by (force simp: map_ok_def)
  show ?thesis
  proof (cases "pe_skip ?e = 0 \<or> pe_ptr ?e = PHYS_MAP_NODE_NIL")
    case True
    then show ?thesis using assms(6) by (auto simp: Let_def)
  next
    case False
    then have c: "pe_ptr ?e < nodes_nb m" "own (pe_ptr ?e) = (l, b + ?i * 512 ^ Suc l)" using so by (auto simp: slot_ok_def split: if_splits)
    have "lookup m' l (pe_ptr ?e) x = lookup m l (pe_ptr ?e) x"
      by (rule lookup_frame [OF assms(1) c _ _ assms(7)]) (use ps in \<open>auto simp: algebra_simps\<close>)
    then show ?thesis using False assms(6) by (simp add: Let_def)
  qed
qed

text \<open>Writing a leaf into slot \<open>i\<close>.\<close>

lemma set_slot_leaf:
  assumes "map_ok own m" "n < nodes_nb m" "own n = (l, b)" "leaf \<noteq> 0" "i < 512"
  shows "assigns own m l n b (b + i * 512 ^ l) (b + (i + 1) * 512 ^ l) leaf 0 own (set_slot n i \<lparr>pe_skip = 0, pe_ptr = leaf\<rparr> m)" (is "assigns _ _ _ _ _ _ _ _ _ _ ?m")
proof -
  have d: "512 ^ (l + 1) dvd b" using assms(1-3) by (force simp: map_ok_def)
  have "slot_ok own (nodes_nb m) l f \<lparr>pe_skip = 0, pe_ptr = leaf\<rparr>" for f using assms(4) by (simp add: slot_ok_def)
  then have ok: "map_ok own ?m" using assms(1,3) by (auto simp: map_ok_def set_slot_def)
  have look: "lookup ?m l n x = (if b + i * 512 ^ l \<le> x \<and> x < b + (i + 1) * 512 ^ l then leaf else lookup m l n x)"
    if x: "b \<le> x" "x < b + 512 ^ (l + 1)" for x
  proof (cases "x div 512 ^ l mod 512 = i")
    case True
    then have "b + i * 512 ^ l \<le> x \<and> x < b + (i + 1) * 512 ^ l" using page_slot [OF d x] by simp
    moreover have "lookup ?m l n x = leaf" using True by (cases l) (simp_all add: set_slot_def)
    ultimately show ?thesis by simp
  next
    case False
    then have out: "\<not> (b + i * 512 ^ l \<le> x \<and> x < b + (i + 1) * 512 ^ l)" using slot_of_page [OF d assms(5)] by blast
    have "lookup ?m l n x = lookup m l n x"
    proof (cases l)
      case 0
      then show ?thesis using False by (simp add: set_slot_def)
    next
      case (Suc l')
      have o: "own n = (Suc l', b)" using assms(3) Suc by simp
      show ?thesis unfolding Suc
      proof (rule lookup_slot [OF assms(1,2) o])
        fix k l1 b1 assume "own k = (l1, b1)" "l1 \<le> l'"
        then have "k \<noteq> n" using o by auto
        then show "nodes (set_slot n i \<lparr>pe_skip = 0, pe_ptr = leaf\<rparr> m) k = nodes m k" by (simp add: set_slot_def)
      qed (use x False Suc in \<open>auto simp: set_slot_def\<close>)
    qed
    then show ?thesis using out by auto
  qed
  have "nodes ?m k = nodes m k" if "\<not> inside (own k) l b" for k
    using that assms(3) by (auto simp: set_slot_def inside_def)
  then show ?thesis using ok look by (auto simp: assigns_def) (simp_all add: set_slot_def)
qed

text \<open>A new node, and a slot that is overwritten.\<close>

definition add_node :: "nat \<Rightarrow> PhysPageMap \<Rightarrow> PhysPageMap" where
  "add_node l m = m\<lparr>nodes_nb := nodes_nb m + 1, nodes := (nodes m)(nodes_nb m := (\<lambda>_. fresh_entry (l = 0)))\<rparr>"

lemma add_node_sel [simp]:
  "nodes_nb (add_node l m) = nodes_nb m + 1" "nodes_nb_alloc (add_node l m) = nodes_nb_alloc m"
  "nodes (add_node l m) = (nodes m)(nodes_nb m := (\<lambda>_. fresh_entry (l = 0)))" "sections (add_node l m) = sections m"
  by (simp_all add: add_node_def)

lemma node_of_new:
  "pe_skip e \<noteq> 0 \<Longrightarrow> pe_ptr e = PHYS_MAP_NODE_NIL \<Longrightarrow> nodes_nb m < nodes_nb_alloc m \<Longrightarrow> nodes_nb m < PHYS_MAP_NODE_NIL
     \<Longrightarrow> node_of l e m = Inr (e\<lparr>pe_ptr := nodes_nb m\<rparr>, add_node l m)"
  by (simp add: node_of_def phys_map_node_alloc_def Let_def add_node_def)

lemma add_node_ok:
  assumes "map_ok own m" "nodes_nb m < PHYS_MAP_NODE_NIL" "512 ^ (l + 1) dvd f"
  shows "map_ok (own(nodes_nb m := (l, f))) (add_node l m)"
proof -
  have mono: "slot_ok (own(nodes_nb m := (l, f))) (nodes_nb m + 1) l' f' e" if "slot_ok own (nodes_nb m) l' f' e" for l' f' e
    using that by (auto simp: slot_ok_def)
  have fresh: "slot_ok o' k l f' (fresh_entry (l = 0))" for o' k f' by (simp add: slot_ok_def fresh_entry_def)
  show ?thesis using assms mono fresh by (auto simp: map_ok_def less_Suc_eq)
qed

lemma lookup_add_node: "lookup (add_node l m) l (nodes_nb m) x = 0"
  by (cases l) (simp_all add: fresh_entry_def PHYS_SECTION_UNASSIGNED_def)

lemma set_slot_ok:
  "map_ok own m \<Longrightarrow> own n = (l, b) \<Longrightarrow> slot_ok own (nodes_nb m) l (b + i * 512 ^ l) e \<Longrightarrow> map_ok own (set_slot n i e m)"
  by (auto simp: map_ok_def set_slot_def)

text \<open>Making the node below slot \<open>i\<close> when it is missing.\<close>

lemma node_below:
  assumes "map_ok own m" "n < nodes_nb m" "own n = (Suc l, b)" "i < 512" "pe_skip (nodes m n i) \<noteq> 0"
    and "nodes_nb m < nodes_nb_alloc m" "nodes_nb m < PHYS_MAP_NODE_NIL"
  shows "\<exists>e m1 own1. node_of l (nodes m n i) m = Inr (e, m1) \<and> assigns own m (Suc l) n b lo lo leaf 1 own1 (set_slot n i e m1)
    \<and> pe_ptr e < nodes_nb (set_slot n i e m1) \<and> pe_ptr e \<noteq> PHYS_MAP_NODE_NIL \<and> pe_skip e \<noteq> 0 \<and> own1 (pe_ptr e) = (l, b + i * 512 ^ Suc l)
    \<and> nodes (set_slot n i e m1) n i = e"
proof (cases "pe_ptr (nodes m n i) = PHYS_MAP_NODE_NIL")
  case False
  have "slot_ok own (nodes_nb m) (Suc l) (b + i * 512 ^ Suc l) (nodes m n i)" using assms(1-4) by (force simp: map_ok_def)
  then have c: "pe_ptr (nodes m n i) < nodes_nb m" "own (pe_ptr (nodes m n i)) = (l, b + i * 512 ^ Suc l)"
    using assms(5) False by (auto simp: slot_ok_def split: if_splits)
  have "set_slot n i (nodes m n i) m = m" by (simp add: set_slot_def)
  then show ?thesis
    using False c assms(5) assigns_refl [OF assms(1)] by (intro exI [of _ "nodes m n i"] exI [of _ m] exI [of _ own]) (simp add: node_of_def)
next
  case True
  let ?r = "nodes_nb m" and ?f = "b + i * 512 ^ Suc l" and ?e = "(nodes m n i)\<lparr>pe_ptr := nodes_nb m\<rparr>"
  let ?own = "own(?r := (l, ?f))"
  define m0 where "m0 = add_node l m"
  define m1 where "m1 = set_slot n i ?e m0"
  have nd: "node_of l (nodes m n i) m = Inr (?e, m0)"
    unfolding m0_def using True assms(5-7) by (intro node_of_new)
  have nodes1: "nodes m1 k = (if k = n then (nodes m n)(i := ?e) else if k = ?r then (\<lambda>_. fresh_entry (l = 0)) else nodes m k)" for k
    using assms(2) by (simp add: m1_def m0_def set_slot_def)
  have nb1: "nodes_nb m1 = ?r + 1" "nodes_nb_alloc m1 = nodes_nb_alloc m" "sections m1 = sections m" by (simp_all add: m1_def m0_def set_slot_def)
  have sk: "pe_skip (nodes m n i) = 1" using assms(1-5) by (force simp: map_ok_def slot_ok_def)
  have db: "512 ^ (Suc l + 1) dvd b" using assms(1-3) by (force simp: map_ok_def)
  have df: "512 ^ (l + 1) dvd ?f" using db by (auto intro: dvd_trans [rotated] simp: le_imp_power_dvd)
  have ok: "map_ok ?own m1"
    unfolding m1_def m0_def using sk assms(2,3)
    by (intro set_slot_ok [OF add_node_ok [OF assms(1,7) df]]) (auto simp: slot_ok_def)
  have look: "lookup m1 (Suc l) n x = lookup m (Suc l) n x" if x: "b \<le> x" "x < b + 512 ^ (Suc l + 1)" for x
  proof (cases "x div 512 ^ Suc l mod 512 = i")
    case at: True
    have "lookup m1 l ?r x = 0"
      using assms(2) by (cases l) (simp_all add: nodes1 fresh_entry_def PHYS_SECTION_UNASSIGNED_def)
    then show ?thesis using at True assms(5) assms(7) by (simp add: nodes1 Let_def)
  next
    case False
    show ?thesis
    proof (rule lookup_slot [OF assms(1-3) x])
      fix k l1 b1 assume "k < nodes_nb m" "own k = (l1, b1)" "l1 \<le> l"
      then show "nodes m1 k = nodes m k" using assms(3) by (auto simp: nodes1)
    qed (use False in \<open>simp add: nodes1\<close>)
  qed
  have "nodes m1 k = nodes m k" if "k < ?r" "\<not> inside (own k) (Suc l) b" for k
    using that assms(3) by (auto simp: nodes1 inside_def)
  then have "assigns own m (Suc l) n b lo lo leaf 1 ?own m1"
    using ok look by (auto simp: assigns_def nb1)
  then show ?thesis
    using nd sk assms(7) by (intro exI [of _ ?e] exI [of _ m0] exI [of _ ?own]) (simp add: m1_def [symmetric] nodes1 nb1)
qed

text \<open>A change below a child is a change below its parent.\<close>

lemma assigns_parent:
  assumes "assigns own m l c (b + i * 512 ^ Suc l) lo hi leaf k own' m'" "map_ok own m" "n < nodes_nb m" "own n = (Suc l, b)" "i < 512"
    and "pe_ptr (nodes m n i) = c" "pe_skip (nodes m n i) \<noteq> 0" "c \<noteq> PHYS_MAP_NODE_NIL"
    and "b + i * 512 ^ Suc l \<le> lo" "hi \<le> b + (i + 1) * 512 ^ Suc l"
  shows "assigns own m (Suc l) n b lo hi leaf k own' m'"
proof -
  let ?f = "b + i * 512 ^ Suc l"
  note a = assignsD [OF assms(1)]
  have db: "512 ^ (Suc l + 1) dvd b" using assms(2-4) by (force simp: map_ok_def)
  have nn: "nodes m' n = nodes m n" by (rule a(7) [OF assms(3)]) (simp add: inside_def assms(4))
  have look: "lookup m' (Suc l) n x = (if lo \<le> x \<and> x < hi then leaf else lookup m (Suc l) n x)" if x: "b \<le> x" "x < b + 512 ^ (Suc l + 1)" for x
  proof (cases "x div 512 ^ Suc l mod 512 = i")
    case True
    then have "?f \<le> x" "x < ?f + 512 ^ (l + 1)" using page_slot [OF db x] by (simp_all add: algebra_simps)
    then show ?thesis using True a(6) [of x] assms(6-8) by (simp add: nn Let_def)
  next
    case False
    have out: "\<not> (?f \<le> x \<and> x < b + (i + 1) * 512 ^ Suc l)" using slot_of_page [OF db assms(5)] False by blast
    have "lookup m' (Suc l) n x = lookup m (Suc l) n x"
    proof (rule lookup_slot [OF assms(2-4) x])
      fix k l1 b1 assume k: "k < nodes_nb m" "own k = (l1, b1)" "b1 \<le> x" "x < b1 + 512 ^ (l1 + 1)"
      show "nodes m' k = nodes m k"
        by (rule a(7) [OF k(1)]) (use k out in \<open>auto simp: inside_def algebra_simps\<close>)
    qed (simp add: nn)
    then show ?thesis using out assms(9,10) by auto
  qed
  have up: "inside o' (Suc l) b" if "inside o' l ?f" for o'
  proof -
    have "?f + 512 ^ (l + 1) \<le> b + 512 ^ (Suc l + 1)"
    proof -
      have "(i + 1) * 512 ^ Suc l \<le> 512 * 512 ^ Suc l" using assms(5) by (intro mult_right_mono) simp_all
      then show ?thesis by (simp add: algebra_simps)
    qed
    then show ?thesis using that unfolding inside_def by linarith
  qed
  have "nodes m' j = nodes m j" if "j < nodes_nb m" "\<not> inside (own j) (Suc l) b" for j using a(7) [OF that(1)] up that(2) by blast
  then show ?thesis unfolding assigns_def using a(1-5) a(8) look by blast
qed

section \<open>The loop\<close>

text \<open>The nodes a range can need below a node of level \<open>l\<close> that ends at \<open>fin\<close>: one path for each end that is not aligned.\<close>

definition need :: "nat \<Rightarrow> nat \<Rightarrow> nat \<Rightarrow> nat \<Rightarrow> nat" where
  "need l lo hi fin = (if 512 ^ l dvd lo then 0 else l) + (if hi = fin then 0 else l)"

definition room :: "PhysPageMap \<Rightarrow> nat \<Rightarrow> bool" where
  "room m k \<longleftrightarrow> nodes_nb m + k \<le> nodes_nb_alloc m \<and> nodes_nb m + k \<le> PHYS_MAP_NODE_NIL"

definition loop_ok :: "nat \<Rightarrow> nat \<Rightarrow> nat \<Rightarrow> bool" where
  "loop_ok leaf l i \<longleftrightarrow> (\<forall>own m n b lo nb hi. map_ok own m \<longrightarrow> n < nodes_nb m \<longrightarrow> own n = (l, b)
     \<longrightarrow> nb = 0 \<or> b + i * 512 ^ l \<le> lo \<and> lo \<le> b + 512 ^ (l + 1) \<and> (i < 512 \<longrightarrow> lo < b + (i + 1) * 512 ^ l)
     \<longrightarrow> hi = (if nb = 0 then lo else min (lo + nb) (b + 512 ^ (l + 1))) \<longrightarrow> room m (need l lo hi (b + 512 ^ (l + 1)))
     \<longrightarrow> (\<forall>x. lo \<le> x \<and> x < hi \<longrightarrow> lookup m l n x = 0)
     \<longrightarrow> (\<exists>own' m'. set_loop leaf l n i (m, lo, nb) = Inr (m', hi, nb - (hi - lo)) \<and> assigns own m l n b lo hi leaf (need l lo hi (b + 512 ^ (l + 1))) own' m'))"

lemma loop_okD:
  assumes "loop_ok leaf l i" "map_ok own m" "n < nodes_nb m" "own n = (l, b)"
    and "nb = 0 \<or> b + i * 512 ^ l \<le> lo \<and> lo \<le> b + 512 ^ (l + 1) \<and> (i < 512 \<longrightarrow> lo < b + (i + 1) * 512 ^ l)"
    and "hi = (if nb = 0 then lo else min (lo + nb) (b + 512 ^ (l + 1)))" "room m (need l lo hi (b + 512 ^ (l + 1)))"
    and "\<And>x. lo \<le> x \<Longrightarrow> x < hi \<Longrightarrow> lookup m l n x = 0"
  shows "\<exists>own' m'. set_loop leaf l n i (m, lo, nb) = Inr (m', hi, nb - (hi - lo)) \<and> assigns own m l n b lo hi leaf (need l lo hi (b + 512 ^ (l + 1))) own' m'"
  using assms unfolding loop_ok_def by blast

lemma set_loop_stop: "512 \<le> i \<or> nb = 0 \<Longrightarrow> set_loop leaf l n i (m, lo, nb) = Inr (m, lo, nb)"
  by (subst set_loop.simps) (auto simp: P_L2_SIZE_def Let_def)

lemma loop_stop:
  assumes "512 \<le> i \<or> nb = 0" "map_ok own m" "nb = 0 \<or> b + i * 512 ^ l \<le> lo \<and> lo \<le> b + 512 ^ (l + 1)"
    and "hi = (if nb = 0 then lo else min (lo + nb) (b + 512 ^ (l + 1)))"
  shows "\<exists>own' m'. set_loop leaf l n i (m, lo, nb) = Inr (m', hi, nb - (hi - lo)) \<and> assigns own m l n b lo hi leaf (need l lo hi (b + 512 ^ (l + 1))) own' m'"
proof -
  have "hi = lo"
  proof (cases "nb = 0")
    case False
    then have "512 * 512 ^ l \<le> i * 512 ^ l" using assms(1) by (intro mult_le_mono1) simp
    then have "b + 512 ^ (l + 1) \<le> b + i * 512 ^ l" by simp
    then have "lo = b + 512 ^ (l + 1)" using assms(3) False by linarith
    then show ?thesis using assms(4) False by simp
  qed (use assms(4) in simp)
  then show ?thesis using set_loop_stop [OF assms(1)] assigns_refl [OF assms(2)]
    by (intro exI [of _ own] exI [of _ m]) simp
qed

text \<open>A whole step.\<close>

lemma loop_full:
  assumes IH: "loop_ok leaf l (i + 1)" and i: "i < 512" and leaf: "leaf \<noteq> 0"
    and m: "map_ok own m" "n < nodes_nb m" "own n = (l, b)" "lo = b + i * 512 ^ l" "512 ^ l \<le> nb"
    and hi: "hi = min (lo + nb) (b + 512 ^ (l + 1))" and rm: "room m (need l lo hi (b + 512 ^ (l + 1)))"
    and clear: "\<And>x. lo \<le> x \<Longrightarrow> x < hi \<Longrightarrow> lookup m l n x = 0"
  shows "\<exists>own' m'. set_loop leaf l n i (m, lo, nb) = Inr (m', hi, nb - (hi - lo)) \<and> assigns own m l n b lo hi leaf (need l lo hi (b + 512 ^ (l + 1))) own' m'"
proof -
  let ?fin = "b + 512 ^ (l + 1)" and ?m1 = "set_slot n i \<lparr>pe_skip = 0, pe_ptr = leaf\<rparr> m"
  define lo1 where "lo1 = lo + 512 ^ l"
  have lo1: "lo1 = b + (i + 1) * 512 ^ l" by (simp add: lo1_def m(4))
  have "(i + 1) * 512 ^ l \<le> 512 * 512 ^ l" using i by (intro mult_le_mono1) simp
  then have fin: "lo1 \<le> ?fin" by (simp add: lo1)
  have s1: "assigns own m l n b lo lo1 leaf 0 own ?m1" unfolding m(4) lo1 by (rule set_slot_leaf [OF m(1-3) leaf i])
  note a = assignsD [OF s1]
  have p: "(0 :: nat) < 512 ^ l" by simp
  have le: "lo1 \<le> hi" using hi m(5) fin by (simp add: lo1_def)
  have nb1: "nb - 512 ^ l = 0 \<Longrightarrow> hi = lo1" using hi m(5) fin by (simp add: lo1_def)
  have hi1: "hi = (if nb - 512 ^ l = 0 then lo1 else min (lo1 + (nb - 512 ^ l)) ?fin)" using hi m(5) nb1 by (simp add: lo1_def)
  have al: "512 ^ l dvd b" using m(1-3) by (auto simp: map_ok_def dest!: spec [of _ n] intro: dvd_trans [OF le_imp_power_dvd])
  have al1: "512 ^ l dvd lo" "512 ^ l dvd lo1" using al by (simp_all add: m(4) lo1)
  have nd: "need l lo1 hi ?fin = need l lo hi ?fin" using al1 by (simp add: need_def)
  have rm1: "room ?m1 (need l lo1 hi ?fin)" unfolding nd using rm a(2-4) by (simp add: room_def)
  have cl1: "lookup ?m1 l n x = 0" if "lo1 \<le> x" "x < hi" for x
    using a(6) [of x] that clear [of x] hi by (simp add: lo1_def m(4))
  obtain own' m' where s2: "set_loop leaf l n (i + 1) (?m1, lo1, nb - 512 ^ l) = Inr (m', hi, nb - 512 ^ l - (hi - lo1))"
      "assigns own ?m1 l n b lo1 hi leaf (need l lo hi ?fin) own' m'"
    using loop_okD [OF IH a(1) _ m(3) _ hi1 rm1 cl1] m(2) a(2) fin p unfolding nd
    by (auto simp: lo1 set_slot_def)
  have "set_loop leaf l n i (m, lo, nb) = set_loop leaf l n (i + 1) (?m1, lo1, nb - 512 ^ l)"
    using m(5) p i al1(1) by (subst set_loop.simps) (auto simp: P_L2_SIZE_def Let_def lo1_def)
  moreover have "nb - 512 ^ l - (hi - lo1) = nb - (hi - lo)" using le by (simp add: lo1_def)
  ultimately have "set_loop leaf l n i (m, lo, nb) = Inr (m', hi, nb - (hi - lo))" using s2(1) by simp
  moreover have "assigns own m l n b lo hi leaf (0 + need l lo hi ?fin) own' m'"
    by (rule assigns_trans [OF s1 s2(2) _ le]) (simp add: lo1_def)
  ultimately show ?thesis by auto
qed

text \<open>A step that goes on one level below.\<close>

lemma room_after: "assigns own m l n b lo hi leaf c own' m' \<Longrightarrow> room m (c + k) \<Longrightarrow> room m' k"
  using assignsD(3,4) [of own m l n b lo hi leaf c own' m'] by (simp add: room_def)

lemma room_mono: "room m k \<Longrightarrow> j \<le> k \<Longrightarrow> room m j"
  by (simp add: room_def)

lemma assigns_mono: "assigns own m l n b lo hi leaf c own' m' \<Longrightarrow> c \<le> c' \<Longrightarrow> assigns own m l n b lo hi leaf c' own' m'"
  by (simp add: assigns_def)

lemma need_split:
  assumes "512 ^ Suc l dvd f" "f \<le> lo" "lo < hi" "hi \<le> f + 512 ^ Suc l" "f + 512 ^ Suc l \<le> fin"
    and "\<not> (512 ^ Suc l dvd lo \<and> f + 512 ^ Suc l \<le> hi)"
  shows "1 + need l lo hi (f + 512 ^ Suc l) + (if hi < f + 512 ^ Suc l then 0 else need (Suc l) hi hi' fin)
    \<le> need (Suc l) lo (if hi < f + 512 ^ Suc l then hi else hi') fin"
proof -
  have "512 ^ l dvd lo" if "512 ^ Suc l dvd lo" using that by (rule dvd_trans [rotated]) simp
  moreover have "512 ^ Suc l dvd hi" if "hi = f + 512 ^ Suc l" unfolding that using assms(1) by simp
  ultimately show ?thesis using assms(4-6) unfolding need_def by (cases "hi < f + 512 ^ Suc l") auto
qed

lemma slot_end:
  fixes b :: nat
  assumes "i < 512"
  shows "b + i * 512 ^ l + 512 ^ l \<le> b + 512 ^ (l + 1)"
proof -
  have "(i + 1) * 512 ^ l \<le> 512 * 512 ^ l" using assms by (intro mult_le_mono1) simp
  then show ?thesis by simp
qed

lemma loop_child:
  assumes IH: "\<And>j. loop_ok leaf l j" and i: "i < 512" and m: "map_ok own m" "n < nodes_nb m" "own n = (Suc l, b)" "0 < nb"
    and lo: "f = b + i * 512 ^ Suc l" "f \<le> lo" "lo < f + 512 ^ Suc l" "mid = min (lo + nb) (f + 512 ^ Suc l)"
    and rm: "room m (1 + need l lo mid (f + 512 ^ Suc l))" and clear: "\<And>x. lo \<le> x \<Longrightarrow> x < mid \<Longrightarrow> lookup m (Suc l) n x = 0"
  shows "\<exists>e m1 own' m'. node_of l (nodes m n i) m = Inr (e, m1)
    \<and> set_loop leaf l (pe_ptr e) (lo div 512 ^ l mod 512) (set_slot n i e m1, lo, nb) = Inr (m', mid, nb - (mid - lo))
    \<and> assigns own m (Suc l) n b lo mid leaf (1 + need l lo mid (f + 512 ^ Suc l)) own' m'"
proof -
  have db: "512 ^ (Suc l + 1) dvd b" using m(1-3) by (force simp: map_ok_def)
  have slot: "x div 512 ^ Suc l mod 512 = i" if "lo \<le> x" "x < mid" for x
    using slot_of_page [OF db i, of x] that lo by (simp add: algebra_simps)
  have mid: "lo < mid" "mid \<le> f + 512 ^ Suc l" using lo(3,4) m(4) by simp_all
  have sk: "pe_skip (nodes m n i) \<noteq> 0"
  proof
    assume z: "pe_skip (nodes m n i) = 0"
    have "slot_ok own (nodes_nb m) (Suc l) (b + i * 512 ^ Suc l) (nodes m n i)" using m(1-3) i by (force simp: map_ok_def)
    then have "pe_ptr (nodes m n i) \<noteq> 0" using z by (simp add: slot_ok_def)
    then show False using clear [of lo] slot [of lo] mid z by (simp add: Let_def)
  qed
  have r1: "nodes_nb m < nodes_nb_alloc m" "nodes_nb m < PHYS_MAP_NODE_NIL" using rm by (simp_all add: room_def)
  obtain e m1 own1 where c: "node_of l (nodes m n i) m = Inr (e, m1)" "assigns own m (Suc l) n b lo lo leaf 1 own1 (set_slot n i e m1)"
      "pe_ptr e < nodes_nb (set_slot n i e m1)" "pe_ptr e \<noteq> PHYS_MAP_NODE_NIL" "pe_skip e \<noteq> 0" "own1 (pe_ptr e) = (l, f)"
      "nodes (set_slot n i e m1) n i = e"
    using node_below [OF m(1-3) i sk r1, of lo leaf] unfolding lo(1) by blast
  let ?m1 = "set_slot n i e m1" and ?fin = "f + 512 ^ (l + 1)"
  note a1 = assignsD [OF c(2)]
  have o1: "own1 n = (Suc l, b)" "n < nodes_nb ?m1" using a1(2) a1(5) [OF m(2)] m(2,3) by simp_all
  have df: "512 ^ (l + 1) dvd f" using a1(1) c(3,6) by (force simp: map_ok_def)
  have start: "f + lo div 512 ^ l mod 512 * 512 ^ l \<le> lo" "lo < f + (lo div 512 ^ l mod 512 + 1) * 512 ^ l"
    using page_slot [OF df, of lo] lo(2,3) by simp_all
  have cl: "lookup ?m1 l (pe_ptr e) x = 0" if x: "lo \<le> x" "x < mid" for x
  proof -
    have s: "x div 512 ^ Suc l mod 512 = i" by (rule slot [OF x])
    have "b \<le> x" "x < b + 512 ^ (Suc l + 1)" using x lo(1,2) mid(2) slot_end [OF i, of b "Suc l"] by linarith+
    then have "lookup ?m1 (Suc l) n x = 0" using a1(6) [of x] clear [OF x] by simp
    then show ?thesis using c(4,5,7) s by (simp add: Let_def)
  qed
  have "\<exists>own' m'. set_loop leaf l (pe_ptr e) (lo div 512 ^ l mod 512) (?m1, lo, nb) = Inr (m', mid, nb - (mid - lo))
      \<and> assigns own1 ?m1 l (pe_ptr e) f lo mid leaf (need l lo mid ?fin) own' m'"
    by (rule loop_okD [OF IH a1(1) c(3,6)]) (use start lo(3,4) m(4) room_after [OF c(2)] rm cl in \<open>simp_all\<close>)
  then obtain own' m' where w: "set_loop leaf l (pe_ptr e) (lo div 512 ^ l mod 512) (?m1, lo, nb) = Inr (m', mid, nb - (mid - lo))"
    "assigns own1 ?m1 l (pe_ptr e) f lo mid leaf (need l lo mid ?fin) own' m'" by blast
  have "assigns own1 ?m1 l (pe_ptr e) (b + i * 512 ^ Suc l) lo mid leaf (need l lo mid ?fin) own' m'" using w(2) by (simp only: lo(1))
  then have "assigns own1 ?m1 (Suc l) n b lo mid leaf (need l lo mid ?fin) own' m'"
    by (rule assigns_parent [OF _ a1(1) o1(2,1) i]) (use c lo mid in \<open>simp_all add: algebra_simps\<close>)
  from assigns_trans [OF c(2) this] show ?thesis using c(1) w(1) mid(1) by (intro exI conjI) simp_all
qed

lemma loop_partial:
  assumes IH: "\<And>j. loop_ok leaf l j" and step: "loop_ok leaf (Suc l) (i + 1)" and i: "i < 512"
    and m: "map_ok own m" "n < nodes_nb m" "own n = (Suc l, b)" "0 < nb"
    and lo: "b + i * 512 ^ Suc l \<le> lo" "lo < b + (i + 1) * 512 ^ Suc l" "\<not> (512 ^ Suc l dvd lo \<and> 512 ^ Suc l \<le> nb)"
    and fin: "fin = b + 512 ^ (Suc l + 1)" and hi: "hi = min (lo + nb) fin" and rm: "room m (need (Suc l) lo hi fin)"
    and clear: "\<And>x. lo \<le> x \<Longrightarrow> x < hi \<Longrightarrow> lookup m (Suc l) n x = 0"
  shows "\<exists>own' m'. set_loop leaf (Suc l) n i (m, lo, nb) = Inr (m', hi, nb - (hi - lo)) \<and> assigns own m (Suc l) n b lo hi leaf (need (Suc l) lo hi fin) own' m'"
proof -
  define st :: nat where "st = 512 ^ Suc l"
  define f where "f = b + i * st"
  define mid where "mid = min (lo + nb) (f + st)"
  define nb1 where "nb1 = nb - (mid - lo)"
  have db: "512 ^ (Suc l + 1) dvd b" using m(1-3) by (force simp: map_ok_def)
  then have "st dvd b" unfolding st_def by (rule dvd_trans [rotated]) (simp add: le_imp_power_dvd)
  then have df: "st dvd f" by (simp add: f_def)
  have ff: "f + st \<le> fin" using slot_end [OF i, of b "Suc l"] by (simp add: f_def fin st_def)
  have lof: "f \<le> lo" "lo < f + st" using lo(1,2) by (simp_all add: f_def st_def algebra_simps)
  have mid: "lo < mid" "mid \<le> f + st" "mid \<le> hi" using lof m(4) ff hi by (auto simp: mid_def)
  have part: "\<not> (st dvd lo \<and> f + st \<le> mid)"
  proof
    assume a: "st dvd lo \<and> f + st \<le> mid"
    then have "st dvd lo - f" using df lof(1) by (simp add: dvd_diff_nat)
    then have "lo = f" using lof by (auto dest: dvd_imp_le)
    then show False using a lo(3) by (simp add: mid_def st_def)
  qed
  have hi': "hi = (if mid < f + st then mid else hi)" using hi ff by (auto simp: mid_def)
  have nd: "1 + need l lo mid (f + st) + (if mid < f + st then 0 else need (Suc l) mid hi fin) \<le> need (Suc l) lo hi fin" (is "?c + ?d \<le> _")
    using need_split [of l f lo mid fin hi, folded st_def, OF df lof(1) mid(1,2) ff part] hi' by simp
  have rm1: "room m ?c" by (rule room_mono [OF rm]) (use nd in simp)
  have clm: "lookup m (Suc l) n x = 0" if "lo \<le> x" "x < mid" for x using clear [of x] that mid(3) by simp
  obtain e m1 own1 m2 where c: "node_of l (nodes m n i) m = Inr (e, m1)"
      "set_loop leaf l (pe_ptr e) (lo div 512 ^ l mod 512) (set_slot n i e m1, lo, nb) = Inr (m2, mid, nb1)"
      "assigns own m (Suc l) n b lo mid leaf ?c own1 m2"
    using loop_child [OF IH i m, of f lo mid, folded st_def, OF f_def lof mid_def rm1 clm, folded nb1_def] by blast
  note a = assignsD [OF c(3)]
  have o1: "own1 n = (Suc l, b)" "n < nodes_nb m2" using a(2) a(5) [OF m(2)] m(2,3) by simp_all
  have cl: "lookup m2 (Suc l) n x = 0" if "mid \<le> x" "x < hi" for x
    using a(6) [of x] that clear [of x] mid lo(1) hi fin by simp
  have rest: "\<exists>own' m'. set_loop leaf (Suc l) n (i + 1) (m2, mid, nb1) = Inr (m', hi, nb1 - (hi - mid)) \<and> assigns own1 m2 (Suc l) n b mid hi leaf ?d own' m'"
  proof (cases "mid < f + st")
    case True
    have "nb1 = 0" using True by (auto simp: nb1_def mid_def)
    moreover have "hi = mid" using hi' True by simp
    ultimately show ?thesis using True set_loop_stop [of "i + 1" nb1] assigns_refl [OF a(1)] by (intro exI [of _ own1] exI [of _ m2]) simp
  next
    case False
    then have mf: "mid = b + (i + 1) * 512 ^ Suc l" "mid = f + st" using mid(2) by (simp_all add: f_def st_def)
    have "room m (?c + need (Suc l) mid hi fin)" by (rule room_mono [OF rm]) (use nd False in simp)
    then have "room m2 (need (Suc l) mid hi fin)" by (rule room_after [OF c(3)])
    moreover have "hi = (if nb1 = 0 then mid else min (mid + nb1) fin)" using hi ff mf(2) mid(1) by (auto simp: nb1_def mid_def)
    moreover have "nb1 = 0 \<or> b + (i + 1) * 512 ^ Suc l \<le> mid \<and> mid \<le> fin \<and> (i + 1 < 512 \<longrightarrow> mid < b + (i + 1 + 1) * 512 ^ Suc l)"
      using mf ff by simp
    ultimately have "\<exists>own' m'. set_loop leaf (Suc l) n (i + 1) (m2, mid, nb1) = Inr (m', hi, nb1 - (hi - mid))
        \<and> assigns own1 m2 (Suc l) n b mid hi leaf (need (Suc l) mid hi fin) own' m'"
      unfolding fin by (intro loop_okD [OF step a(1) o1(2,1)] cl)
    then show ?thesis using False by simp
  qed
  then obtain own' m' where w: "set_loop leaf (Suc l) n (i + 1) (m2, mid, nb1) = Inr (m', hi, nb1 - (hi - mid))" "assigns own1 m2 (Suc l) n b mid hi leaf ?d own' m'" by blast
  have "nb1 - (hi - mid) = nb - (hi - lo)" using mid unfolding nb1_def by linarith
  then have "set_loop leaf (Suc l) n i (m, lo, nb) = Inr (m', hi, nb - (hi - lo))"
    using m(4) i lo(3) c(1,2) w(1) by (subst set_loop.simps) (auto simp: P_L2_SIZE_def Let_def)
  moreover have "assigns own m (Suc l) n b lo hi leaf (need (Suc l) lo hi fin) own' m'"
    by (rule assigns_mono [OF assigns_trans [OF c(3) w(2)] nd]) (use mid in simp_all)
  ultimately show ?thesis by blast
qed

lemma loop_step:
  assumes IH: "\<And>k j. l = Suc k \<Longrightarrow> loop_ok leaf k j" and step: "loop_ok leaf l (i + 1)" and i: "i < 512" and leaf: "leaf \<noteq> 0"
  shows "loop_ok leaf l i"
  unfolding loop_ok_def
proof (intro allI impI)
  fix own m n and b lo nb hi :: nat
  let ?fin = "b + 512 ^ (l + 1)"
  assume m: "map_ok own m" "n < nodes_nb m" "own n = (l, b)"
    and lo: "nb = 0 \<or> b + i * 512 ^ l \<le> lo \<and> lo \<le> ?fin \<and> (i < 512 \<longrightarrow> lo < b + (i + 1) * 512 ^ l)"
    and hi: "hi = (if nb = 0 then lo else min (lo + nb) ?fin)" and rm: "room m (need l lo hi ?fin)"
    and cl: "\<forall>x. lo \<le> x \<and> x < hi \<longrightarrow> lookup m l n x = 0"
  let ?goal = "\<exists>own' m'. set_loop leaf l n i (m, lo, nb) = Inr (m', hi, nb - (hi - lo)) \<and> assigns own m l n b lo hi leaf (need l lo hi ?fin) own' m'"
  consider "nb = 0" | "0 < nb" "512 ^ l dvd lo \<and> 512 ^ l \<le> nb" | "0 < nb" "\<not> (512 ^ l dvd lo \<and> 512 ^ l \<le> nb)" by blast
  then show ?goal
  proof cases
    case 1
    then show ?thesis using loop_stop [of i nb own m b l lo hi leaf n] m(1) hi by simp
  next
    case 2
    have "512 ^ l dvd b" using m by (auto simp: map_ok_def dest!: spec [of _ n] intro: dvd_trans [OF le_imp_power_dvd])
    then have "512 ^ l dvd lo - (b + i * 512 ^ l)" using 2 lo by (simp add: dvd_diff_nat)
    then have "lo = b + i * 512 ^ l" using 2 lo i by (auto dest: dvd_imp_le)
    then show ?thesis using loop_full [OF step i leaf m _ _ _ rm] 2 hi cl by simp
  next
    case 3
    then obtain k where k: "l = Suc k" by (cases l) auto
    show ?thesis unfolding k
      by (rule loop_partial [OF IH [OF k] step [unfolded k] i m(1,2) _ 3(1)])
        (use k m(3) lo 3 hi rm cl i in auto)
  qed
qed

lemma loop_all:
  assumes "leaf \<noteq> 0"
  shows "loop_ok leaf l i"
proof (induction l arbitrary: i rule: less_induct)
  case (less l)
  have past: "loop_ok leaf l j" if "512 \<le> j" for j
    unfolding loop_ok_def using loop_stop [of j] that by blast
  show ?case
  proof (cases "i \<le> 512")
    case True
    then show ?thesis
    proof (induction rule: inc_induct)
      case base
      show ?case by (rule past) simp
    next
      case (step j)
      show ?case by (rule loop_step [OF less.IH]) (use step assms in simp_all)
    qed
  qed (use past in simp)
qed

section \<open>Setting a range of pages\<close>

text \<open>The section of a page, without the last check of \<open>phys_page_find\<close>.\<close>

definition page_section :: "nat \<Rightarrow> AddressSpaceDispatch \<Rightarrow> nat \<Rightarrow> nat" where
  "page_section levels d x = find_walk (disp_map d) x levels (phys_map d)"

definition dispatch_ok :: "nat \<Rightarrow> AddressSpaceDispatch \<Rightarrow> bool" where
  "dispatch_ok levels d \<longleftrightarrow> pe_skip (phys_map d) = 1
     \<and> (\<exists>own. map_ok own (disp_map d) \<and> (pe_ptr (phys_map d) = PHYS_MAP_NODE_NIL
         \<or> pe_ptr (phys_map d) < nodes_nb (disp_map d) \<and> own (pe_ptr (phys_map d)) = (levels - 1, 0)))"

lemma find_walk_leaf [simp]: "pe_skip e = 0 \<Longrightarrow> find_walk m x i e = pe_ptr e"
  by (simp add: find_walk.simps)

lemma find_walk_nil [simp]: "0 < pe_skip e \<Longrightarrow> pe_skip e \<le> i \<Longrightarrow> pe_ptr e = PHYS_MAP_NODE_NIL \<Longrightarrow> find_walk m x i e = 0"
  by (simp add: find_walk.simps PHYS_SECTION_UNASSIGNED_def)

text \<open>While every skip is 1, the walk of \<open>phys_page_find\<close> is the lookup.\<close>

lemma find_walk_lookup:
  assumes "map_ok own m" "n < nodes_nb m" "own n = (l, b)"
  shows "find_walk m x (Suc l) \<lparr>pe_skip = 1, pe_ptr = n\<rparr> = lookup m l n x"
  using assms(2,3)
proof (induction l arbitrary: n b)
  case (0 n b)
  have nil: "n \<noteq> PHYS_MAP_NODE_NIL" using 0 assms(1) by (auto simp: map_ok_def)
  have "slot_ok own (nodes_nb m) 0 (b + x mod 512 * 512 ^ 0) (nodes m n (x mod 512))" using assms(1) 0 by (force simp: map_ok_def)
  then have "pe_skip (nodes m n (x mod 512)) = 0" by (simp add: slot_ok_def split: if_splits)
  then show ?case using nil by (simp add: find_walk.simps P_L2_SIZE_def)
next
  case (Suc l n b)
  let ?e = "nodes m n (x div 512 ^ Suc l mod 512)"
  have nil: "n \<noteq> PHYS_MAP_NODE_NIL" using Suc.prems assms(1) by (auto simp: map_ok_def)
  have so: "slot_ok own (nodes_nb m) (Suc l) (b + x div 512 ^ Suc l mod 512 * 512 ^ Suc l) ?e" using assms(1) Suc.prems by (force simp: map_ok_def)
  have go: "find_walk m x (Suc (Suc l)) \<lparr>pe_skip = 1, pe_ptr = n\<rparr> = find_walk m x (Suc l) ?e"
    using nil by (subst find_walk.simps) (simp add: P_L2_SIZE_def)
  consider "pe_skip ?e = 0" | "pe_skip ?e = 1" "pe_ptr ?e = PHYS_MAP_NODE_NIL"
    | "pe_skip ?e = 1" "pe_ptr ?e \<noteq> PHYS_MAP_NODE_NIL" "pe_ptr ?e < nodes_nb m" "own (pe_ptr ?e) = (l, b + x div 512 ^ Suc l mod 512 * 512 ^ Suc l)"
    using so by (auto simp: slot_ok_def split: if_splits)
  then show ?case
  proof cases
    case 3
    have "?e = \<lparr>pe_skip = 1, pe_ptr = pe_ptr ?e\<rparr>" using 3(1) by simp
    then show ?thesis using go Suc.IH [OF 3(3,4)] 3(1,2) by (simp add: Let_def)
  qed (unfold go, simp_all add: Let_def)
qed

lemma page_section_root:
  assumes "map_ok own (disp_map d)" "pe_skip (phys_map d) = 1" "pe_ptr (phys_map d) < nodes_nb (disp_map d)" "own (pe_ptr (phys_map d)) = (l, b)"
  shows "page_section (Suc l) d x = lookup (disp_map d) l (pe_ptr (phys_map d)) x"
proof -
  have "phys_map d = \<lparr>pe_skip = 1, pe_ptr = pe_ptr (phys_map d)\<rparr>" using assms(2) by simp
  then show ?thesis unfolding page_section_def using find_walk_lookup [OF assms(1,3,4), of x] by metis
qed

lemma reserve_sel [simp]:
  "nodes_nb (phys_map_node_reserve k m) = nodes_nb m" "nodes (phys_map_node_reserve k m) = nodes m" "sections (phys_map_node_reserve k m) = sections m"
  "sections_nb_alloc (phys_map_node_reserve k m) = sections_nb_alloc m"
  by (simp_all add: phys_map_node_reserve_def Let_def)

lemma reserve_enough: "nodes_nb m + k \<le> nodes_nb_alloc (phys_map_node_reserve k m)"
  by (simp add: phys_map_node_reserve_def Let_def)

lemma reserve_ok: "map_ok own m \<Longrightarrow> map_ok own (phys_map_node_reserve k m)"
  by (simp add: map_ok_def)

lemma reserve_lookup: "lookup (phys_map_node_reserve k m) l n x = lookup m l n x"
  by (induction l arbitrary: n) (simp_all add: Let_def)

text \<open>The root node, made when the map is empty.\<close>

lemma root_node:
  assumes "map_ok own m" "pe_skip e = 1" "pe_ptr e = PHYS_MAP_NODE_NIL \<or> pe_ptr e < nodes_nb m \<and> own (pe_ptr e) = (l, 0)" "room m (1 + k)"
  shows "\<exists>e' m' own'. node_of l e m = Inr (e', m') \<and> pe_skip e' = 1 \<and> map_ok own' m' \<and> pe_ptr e' < nodes_nb m' \<and> own' (pe_ptr e') = (l, 0) \<and> room m' k
    \<and> nodes_nb m' \<le> nodes_nb m + 1 \<and> sections m' = sections m
    \<and> (\<forall>x. lookup m' l (pe_ptr e') x = (if pe_ptr e = PHYS_MAP_NODE_NIL then 0 else lookup m l (pe_ptr e) x))"
proof (cases "pe_ptr e = PHYS_MAP_NODE_NIL")
  case True
  have "nodes_nb m < nodes_nb_alloc m" "nodes_nb m < PHYS_MAP_NODE_NIL" using assms(4) by (simp_all add: room_def)
  then show ?thesis
    using True assms(2,4) add_node_ok [OF assms(1), of l 0] lookup_add_node [of l m]
    by (intro exI [of _ "e\<lparr>pe_ptr := nodes_nb m\<rparr>"] exI [of _ "add_node l m"] exI [of _ "own(nodes_nb m := (l, 0))"])
      (simp add: node_of_new room_def)
next
  case False
  then show ?thesis using assms
    by (intro exI [of _ e] exI [of _ m] exI [of _ own]) (simp add: node_of_def room_def)
qed

lemma phys_page_set_spec:
  assumes "dispatch_ok (Suc l) d" "leaf \<noteq> 0" "index + nb \<le> 512 ^ Suc l" "nodes_nb (disp_map d) + 3 * Suc l \<le> PHYS_MAP_NODE_NIL"
    and "\<And>x. index \<le> x \<Longrightarrow> x < index + nb \<Longrightarrow> page_section (Suc l) d x = 0"
  shows "\<exists>d'. phys_page_set (Suc l) d index nb leaf = Inr d' \<and> dispatch_ok (Suc l) d'
    \<and> nodes_nb (disp_map d') \<le> nodes_nb (disp_map d) + (2 * l + 1) \<and> sections (disp_map d') = sections (disp_map d)
    \<and> mru_section d' = mru_section d \<and> disp_subpages d' = disp_subpages d
    \<and> (\<forall>x<512 ^ Suc l. page_section (Suc l) d' x = (if index \<le> x \<and> x < index + nb then leaf else page_section (Suc l) d x))"
proof -
  let ?m = "phys_map_node_reserve (3 * Suc l) (disp_map d)" and ?e = "phys_map d" and ?hi = "index + nb" and ?fin = "0 + 512 ^ (l + 1)"
  let ?k = "need l index ?hi ?fin"
  obtain own where ok: "pe_skip ?e = 1" "map_ok own (disp_map d)"
      "pe_ptr ?e = PHYS_MAP_NODE_NIL \<or> pe_ptr ?e < nodes_nb (disp_map d) \<and> own (pe_ptr ?e) = (l, 0)"
    using assms(1) by (auto simp: dispatch_ok_def)
  have ok3: "pe_ptr ?e = PHYS_MAP_NODE_NIL \<or> pe_ptr ?e < nodes_nb ?m \<and> own (pe_ptr ?e) = (l, 0)" using ok(3) by (simp only: reserve_sel)
  have k: "?k \<le> 2 * l" by (simp add: need_def)
  have rm: "room ?m (1 + ?k)" using reserve_enough [of "disp_map d" "3 * Suc l"] assms(4) k by (simp add: room_def)
  obtain e1 m1 own1 where r: "node_of l ?e ?m = Inr (e1, m1)" "pe_skip e1 = 1" "map_ok own1 m1" "pe_ptr e1 < nodes_nb m1" "own1 (pe_ptr e1) = (l, 0)"
      "room m1 ?k" "nodes_nb m1 \<le> nodes_nb (disp_map d) + 1" "sections m1 = sections (disp_map d)"
      and l1: "\<And>x. lookup m1 l (pe_ptr e1) x = (if pe_ptr ?e = PHYS_MAP_NODE_NIL then 0 else lookup (disp_map d) l (pe_ptr ?e) x)"
    using root_node [OF reserve_ok [OF ok(2)] ok(1) ok3 rm] unfolding reserve_lookup reserve_sel by blast
  have ps: "page_section (Suc l) d x = lookup m1 l (pe_ptr e1) x" for x
    using l1 ok page_section_root [OF ok(2,1), of l 0 x] by (auto simp: page_section_def)
  have lt: "index < 512 ^ (l + 1)" if "nb \<noteq> 0" using that assms(3) by simp
  have start: "nb = 0 \<or> 0 + index div 512 ^ l mod 512 * 512 ^ l \<le> index \<and> index \<le> ?fin
      \<and> (index div 512 ^ l mod 512 < 512 \<longrightarrow> index < 0 + (index div 512 ^ l mod 512 + 1) * 512 ^ l)"
    using page_slot [of l 0 index] lt assms(3) by auto
  have hi: "?hi = (if nb = 0 then index else min (index + nb) ?fin)" using assms(3) by simp
  have cl: "lookup m1 l (pe_ptr e1) x = 0" if "index \<le> x" "x < ?hi" for x using assms(5) [OF that] by (simp add: ps)
  obtain own' m' where w: "set_loop leaf l (pe_ptr e1) (index div 512 ^ l mod 512) (m1, index, nb) = Inr (m', ?hi, nb - (?hi - index))"
      "assigns own1 m1 l (pe_ptr e1) 0 index ?hi leaf ?k own' m'"
    using loop_okD [OF loop_all [OF assms(2)] r(3-5) start hi r(6) cl] by blast
  note a = assignsD [OF w(2)]
  define d' where "d' = d\<lparr>phys_map := e1, disp_map := m'\<rparr>"
  have o': "own' (pe_ptr e1) = (l, 0)" "pe_ptr e1 < nodes_nb m'" using a(2) a(5) [OF r(4)] r(4,5) by simp_all
  have "phys_page_set (Suc l) d index nb leaf = Inr d'"
    using r(1) w(1) by (simp add: phys_page_set_def phys_page_set_level_def P_L2_SIZE_def d'_def)
  moreover have "dispatch_ok (Suc l) d'" using a(1) o' r(2) by (auto simp: dispatch_ok_def d'_def)
  moreover have "page_section (Suc l) d' x = (if index \<le> x \<and> x < ?hi then leaf else page_section (Suc l) d x)" if "x < 512 ^ Suc l" for x
    using page_section_root [of own' d' l 0 x] a(1) o' r(2) a(6) [of x] that ps by (simp add: d'_def)
  moreover have "nodes_nb m' \<le> nodes_nb (disp_map d) + (2 * l + 1)" using a(3) r(7) k by simp
  ultimately show ?thesis using a(8) r(8) by (auto simp: d'_def)
qed

lemma levels_enough:
  assumes "tpb \<le> 63" "int x * 2 ^ tpb < 18446744073709551616"
  shows "x < 512 ^ P_L2_LEVELS tpb"
proof -
  have "int x * 2 ^ tpb < 2 ^ (64 - tpb) * 2 ^ tpb" using assms by (simp add: power_add [symmetric])
  then have "int x < 2 ^ (64 - tpb)" by (simp only: mult_less_cancel_right_pos zero_less_power zero_less_numeral)
  then have "x < 2 ^ (64 - tpb)" by simp
  also have "(2 :: nat) ^ (64 - tpb) \<le> 2 ^ (9 * P_L2_LEVELS tpb)"
    by (rule power_increasing) (use assms(1) in \<open>simp_all add: P_L2_LEVELS_def\<close>)
  also have "\<dots> = 512 ^ P_L2_LEVELS tpb" by (simp add: power_mult)
  finally show ?thesis .
qed

lemma set_pages:
  assumes "dispatch_ok (P_L2_LEVELS tpb) d" "tpb \<le> 63" "n \<noteq> 0" "int (index + nb) * 2 ^ tpb \<le> 18446744073709551616"
    and "nodes_nb (disp_map d) + 3 * P_L2_LEVELS tpb \<le> PHYS_MAP_NODE_NIL" "\<And>x. index \<le> x \<Longrightarrow> x < index + nb \<Longrightarrow> page_section (P_L2_LEVELS tpb) d x = 0"
  obtains d' where "phys_page_set (P_L2_LEVELS tpb) d index nb n = Inr d'" "dispatch_ok (P_L2_LEVELS tpb) d'"
    "nodes_nb (disp_map d') \<le> nodes_nb (disp_map d) + (2 * P_L2_LEVELS tpb - 1)" "sections (disp_map d') = sections (disp_map d)"
    "disp_subpages d' = disp_subpages d" "mru_section d' = mru_section d"
    "\<And>x. x < 512 ^ P_L2_LEVELS tpb \<Longrightarrow> page_section (P_L2_LEVELS tpb) d' x = (if index \<le> x \<and> x < index + nb then n else page_section (P_L2_LEVELS tpb) d x)"
proof -
  obtain l where l: "P_L2_LEVELS tpb = Suc l" by (simp add: P_L2_LEVELS_def)
  have "index + nb \<le> 512 ^ Suc l"
  proof (cases "index + nb")
    case (Suc k)
    then have "int k * 2 ^ tpb < int (index + nb) * 2 ^ tpb" by simp
    then have "k < 512 ^ P_L2_LEVELS tpb" using assms(4) by (intro levels_enough [OF assms(2)]) linarith
    then show ?thesis using Suc l by simp
  qed simp
  from phys_page_set_spec [of l d n index nb, OF assms(1) [unfolded l] assms(3) this assms(5) [unfolded l] assms(6) [unfolded l]]
  obtain d' where "phys_page_set (Suc l) d index nb n = Inr d'" "dispatch_ok (Suc l) d'" "nodes_nb (disp_map d') \<le> nodes_nb (disp_map d) + (2 * l + 1)"
    "sections (disp_map d') = sections (disp_map d)" "mru_section d' = mru_section d" "disp_subpages d' = disp_subpages d"
    "\<forall>x<512 ^ Suc l. page_section (Suc l) d' x = (if index \<le> x \<and> x < index + nb then n else page_section (Suc l) d x)" by blast
  then show thesis by (intro that [of d']) (simp_all add: l)
qed

text \<open>C17: setting a range of unassigned pages of the 64-bit address space succeeds within the nodes reserved before (at most
  \<open>2 * P_L2_LEVELS - 1\<close> new ones, of the \<open>3 * P_L2_LEVELS\<close> reserved), keeps the shape of the map, and changes the section of exactly
  the pages of the range.\<close>

theorem phys_page_set_exact:
  assumes "dispatch_ok (P_L2_LEVELS tpb) d" "tpb \<le> 63" "leaf \<noteq> 0" "int (index + nb) * 2 ^ tpb \<le> 18446744073709551616"
    and "nodes_nb (disp_map d) + 3 * P_L2_LEVELS tpb \<le> PHYS_MAP_NODE_NIL" "\<forall>x. index \<le> x \<and> x < index + nb \<longrightarrow> page_section (P_L2_LEVELS tpb) d x = 0"
  shows "\<exists>d'. phys_page_set (P_L2_LEVELS tpb) d index nb leaf = Inr d' \<and> dispatch_ok (P_L2_LEVELS tpb) d'
    \<and> nodes_nb (disp_map d') \<le> nodes_nb (disp_map d) + (2 * P_L2_LEVELS tpb - 1)
    \<and> (\<forall>x. int x * 2 ^ tpb < 18446744073709551616
         \<longrightarrow> page_section (P_L2_LEVELS tpb) d' x = (if index \<le> x \<and> x < index + nb then leaf else page_section (P_L2_LEVELS tpb) d x))"
  by (rule set_pages [OF assms(1-5)]) (use assms(6) levels_enough [OF assms(2)] in blast)+

text \<open>The empty dispatch, and the section of a range in it.\<close>

definition empty_dispatch :: AddressSpaceDispatch where
  "empty_dispatch = \<lparr>mru_section = None, phys_map = \<lparr>pe_skip = 1, pe_ptr = PHYS_MAP_NODE_NIL\<rparr>,
     disp_map = \<lparr>sections = [], sections_nb_alloc = 0, nodes_nb = 0, nodes_nb_alloc = 0, alloc_hint = 16, nodes = (\<lambda>_ _. \<lparr>pe_skip = 0, pe_ptr = 0\<rparr>)\<rparr>,
     disp_subpages = []\<rparr>"

lemma empty_dispatch_ok: "dispatch_ok l empty_dispatch" "page_section (Suc l) empty_dispatch x = 0" "nodes_nb (disp_map empty_dispatch) = 0"
  by (simp_all add: dispatch_ok_def empty_dispatch_def map_ok_def page_section_def)

theorem phys_page_set_exact_witness:
  "\<exists>d'. phys_page_set (P_L2_LEVELS 12) empty_dispatch 255 700 5 = Inr d' \<and> page_section (P_L2_LEVELS 12) d' 512 = 5 \<and> page_section (P_L2_LEVELS 12) d' 955 = 0"
proof -
  have l: "P_L2_LEVELS 12 = 6" by (simp add: P_L2_LEVELS_def)
  have e: "page_section 6 empty_dispatch x = 0" for x using empty_dispatch_ok(2) [of 5 x] by simp
  have "\<exists>d'. phys_page_set 6 empty_dispatch 255 700 5 = Inr d' \<and> dispatch_ok 6 d' \<and> nodes_nb (disp_map d') \<le> nodes_nb (disp_map empty_dispatch) + (2 * 6 - 1)
      \<and> (\<forall>x. int x * 2 ^ 12 < 18446744073709551616 \<longrightarrow> page_section 6 d' x = (if 255 \<le> x \<and> x < 255 + 700 then 5 else page_section 6 empty_dispatch x))"
    by (rule phys_page_set_exact [of 12 empty_dispatch 5 255 700, unfolded l]) (simp_all add: e empty_dispatch_ok PHYS_MAP_NODE_NIL_def)
  then obtain d' where "phys_page_set 6 empty_dispatch 255 700 5 = Inr d'"
    "\<forall>x. int x * 2 ^ 12 < 18446744073709551616 \<longrightarrow> page_section 6 d' x = (if 255 \<le> x \<and> x < 255 + 700 then 5 else page_section 6 empty_dispatch x)" by blast
  then show ?thesis unfolding l by (intro exI [of _ d']) (simp add: e)
qed

end
