(* ===== verification/Phys_Dispatch.thy ===== *)
theory Phys_Dispatch
  imports Phys_Map
begin

text \<open>
  From a flat view to its dispatch (\<open>qemu-diff/exec.c\<close>): \<open>flatview_add_to_dispatch\<close> cuts a section into a first part that
  starts inside a page, whole pages, and a last part of a page; \<open>register_multipage\<close> and \<open>register_subpage\<close> enter the
  pieces into the page map, the parts of pages through a subpage that has a section number for each byte.
  \<open>address_space_lookup_region\<close> and \<open>address_space_translate_internal\<close> read it.

  A hardware address is an integer below \<open>2 ^ 64\<close>, \<open>tpb\<close> is \<open>TARGET_PAGE_BITS\<close>. A subpage is an entry of the list of
  subpages; the four special regions and the regions of subpages have no owner, so only an ordinary region
  (\<open>Mr\<close>) is counted in the references.

  The correctness theorem is a refinement of a map from addresses: adding a section makes exactly its
  addresses translate to its region, and all others translate as before.
\<close>

section \<open>Model\<close>

definition page_floor :: "nat \<Rightarrow> int \<Rightarrow> int" where
  "page_floor tpb a = a - a mod 2 ^ tpb"

definition section_ref :: "regions \<Rightarrow> section_mr \<Rightarrow> refs \<Rightarrow> refs" where
  "section_ref rg mr cs = (case mr of Mr r \<Rightarrow> memory_region_ref rg (Some r) cs | _ \<Rightarrow> cs)"

definition phys_section_add :: "regions \<Rightarrow> nat \<Rightarrow> MemoryRegionSection \<Rightarrow> PhysPageMap \<times> refs \<Rightarrow> (nat \<times> PhysPageMap \<times> refs) res" where
  "phys_section_add rg tpb sec s =
     (let (m, cs) = s; nb = length (sections m);
          m1 = (if nb = sections_nb_alloc m then m\<lparr>sections_nb_alloc := max (sections_nb_alloc m * 2) 16\<rparr> else m)
      in if nb < 2 ^ tpb then Inr (nb mod 65536, m1\<lparr>sections := sections m @ [sec]\<rparr>, section_ref rg (ms_mr sec) cs)
         else Inl Assert_failed)"

definition phys_section_destroy :: "regions \<Rightarrow> section_mr \<Rightarrow> refs \<Rightarrow> refs" where
  "phys_section_destroy rg mr cs = (case mr of Mr r \<Rightarrow> memory_region_unref rg (Some r) cs | _ \<Rightarrow> cs)"

definition phys_sections_free :: "regions \<Rightarrow> PhysPageMap \<Rightarrow> refs \<Rightarrow> refs" where
  "phys_sections_free rg m cs = fold (\<lambda>sec. phys_section_destroy rg (ms_mr sec)) (rev (sections m)) cs"

text \<open>The entries of a subpage from \<open>start\<close> to \<open>end\<close>; the result -1 for a range outside the page is ignored by the callers.\<close>

definition subpage_register :: "nat \<Rightarrow> int \<Rightarrow> int \<Rightarrow> nat \<Rightarrow> subpage_t \<Rightarrow> subpage_t" where
  "subpage_register tpb start en n sp =
     (if start \<ge> 2 ^ tpb \<or> en \<ge> 2 ^ tpb then sp
      else sp\<lparr>sub_section := (\<lambda>i. if start \<le> int i \<and> int i \<le> en then n else sub_section sp i)\<rparr>)"

definition subpage_init :: "nat \<Rightarrow> int \<Rightarrow> subpage_t" where
  "subpage_init tpb base = subpage_register tpb 0 (2 ^ tpb - 1) PHYS_SECTION_UNASSIGNED \<lparr>sp_base = base, sub_section = (\<lambda>_. 0)\<rparr>"

text \<open>The first half of \<open>register_subpage\<close>: the subpage of the page, made when the page is unassigned.\<close>

definition subpage_for :: "regions \<Rightarrow> nat \<Rightarrow> nat \<Rightarrow> int \<Rightarrow> AddressSpaceDispatch \<times> refs \<Rightarrow> (nat \<times> AddressSpaceDispatch \<times> refs) res" where
  "subpage_for rg levels tpb base s =
     (let (d, cs) = s; existing = sections (disp_map d) ! phys_page_find levels tpb d base in
      case ms_mr existing of
        Subpage k \<Rightarrow> Inr (k, d, cs)
      | Io_mem_unassigned \<Rightarrow>
          let k = length (disp_subpages d);
              sub = \<lparr>ms_mr = Subpage k, ms_offset_within_region = 0, ms_size = 2 ^ tpb, ms_offset_within_address_space = base, ms_readonly = False\<rparr>
          in res_bind (phys_section_add rg tpb sub (disp_map d, cs)) (\<lambda>(n, m, cs1).
               res_bind (phys_page_set levels (d\<lparr>disp_map := m, disp_subpages := disp_subpages d @ [subpage_init tpb base]\<rparr>) (nat (base div 2 ^ tpb)) 1 n)
                 (\<lambda>d1. Inr (k, d1, cs1)))
      | _ \<Rightarrow> Inl Assert_failed)"

definition register_subpage :: "regions \<Rightarrow> nat \<Rightarrow> nat \<Rightarrow> MemoryRegionSection \<Rightarrow> AddressSpaceDispatch \<times> refs \<Rightarrow> (AddressSpaceDispatch \<times> refs) res" where
  "register_subpage rg levels tpb sec s =
     res_bind (subpage_for rg levels tpb (page_floor tpb (ms_offset_within_address_space sec)) s) (\<lambda>(k, d, cs).
       res_bind (int128_get64 (ms_size sec)) (\<lambda>n64.
         let start = ms_offset_within_address_space sec mod 2 ^ tpb; en = ulong (start + n64 - 1) in
         res_bind (phys_section_add rg tpb sec (disp_map d, cs)) (\<lambda>(n, m, cs1).
           Inr (d\<lparr>disp_map := m, disp_subpages := (disp_subpages d)[k := subpage_register tpb (uint32 start) (uint32 en) n (disp_subpages d ! k)]\<rparr>, cs1))))"

definition register_multipage :: "regions \<Rightarrow> nat \<Rightarrow> nat \<Rightarrow> MemoryRegionSection \<Rightarrow> AddressSpaceDispatch \<times> refs \<Rightarrow> (AddressSpaceDispatch \<times> refs) res" where
  "register_multipage rg levels tpb sec s =
     (let (d, cs) = s in
      res_bind (phys_section_add rg tpb sec (disp_map d, cs)) (\<lambda>(n, m, cs1).
        res_bind (int128_get64 (ms_size sec div 2 ^ tpb)) (\<lambda>num_pages.
          if num_pages = 0 then Inl Assert_failed
          else res_bind (phys_page_set levels (d\<lparr>disp_map := m\<rparr>) (nat (ms_offset_within_address_space sec div 2 ^ tpb)) (nat num_pages) n)
                 (\<lambda>d1. Inr (d1, cs1)))))"

text \<open>The loop of \<open>flatview_add_to_dispatch\<close>: \<open>remain\<close> is what was left before the piece of size \<open>n\<close> that is done.\<close>

definition skip_piece :: "int \<Rightarrow> MemoryRegionSection \<Rightarrow> MemoryRegionSection res" where
  "skip_piece n remain = res_bind (int128_get64 n) (\<lambda>n64.
     Inr (remain\<lparr>ms_size := ms_size remain - n, ms_offset_within_address_space := ulong (ms_offset_within_address_space remain + n64),
                 ms_offset_within_region := ulong (ms_offset_within_region remain + n64)\<rparr>))"

definition piece_size :: "nat \<Rightarrow> MemoryRegionSection \<Rightarrow> int" where
  "piece_size tpb remain =
     (if ms_size remain < 2 ^ tpb then ms_size remain
      else if ms_offset_within_address_space remain mod 2 ^ tpb \<noteq> 0 then 2 ^ tpb else page_floor tpb (ms_size remain))"

definition register_piece :: "regions \<Rightarrow> nat \<Rightarrow> nat \<Rightarrow> MemoryRegionSection \<Rightarrow> AddressSpaceDispatch \<times> refs \<Rightarrow> (AddressSpaceDispatch \<times> refs) res" where
  "register_piece rg levels tpb remain s =
     (let now = remain\<lparr>ms_size := piece_size tpb remain\<rparr> in
      if ms_size remain < 2 ^ tpb \<or> ms_offset_within_address_space remain mod 2 ^ tpb \<noteq> 0 then register_subpage rg levels tpb now s
      else register_multipage rg levels tpb now s)"

function add_loop :: "regions \<Rightarrow> nat \<Rightarrow> nat \<Rightarrow> MemoryRegionSection \<Rightarrow> int \<Rightarrow> AddressSpaceDispatch \<times> refs \<Rightarrow> (AddressSpaceDispatch \<times> refs) res" where
  "add_loop rg levels tpb remain n s =
     (if ms_size remain = n then Inr s
      else case skip_piece n remain of
          Inl e \<Rightarrow> Inl e
        | Inr r1 \<Rightarrow> (case register_piece rg levels tpb r1 s of
              Inl e \<Rightarrow> Inl e
            | Inr s1 \<Rightarrow> add_loop rg levels tpb r1 (piece_size tpb r1) s1))"
  by pat_completeness auto

definition left_over :: "MemoryRegionSection \<Rightarrow> int \<Rightarrow> nat" where
  "left_over remain n = (if ms_size remain = n then 0 else Suc (nat (ms_size remain - n)))"

lemma page_mod: "(0 :: int) \<le> a mod 2 ^ tpb" "a mod 2 ^ tpb < (2 :: int) ^ tpb"
  by simp_all

lemma left_over_decreases:
  assumes "ms_size remain \<noteq> n" "skip_piece n remain = Inr r1"
  shows "left_over r1 (piece_size tpb r1) < left_over remain n"
proof -
  have sz: "ms_size r1 = ms_size remain - n" using assms(2) by (auto simp: skip_piece_def int128_get64_def split: if_splits)
  have "piece_size tpb r1 = ms_size r1 \<or> (0 < piece_size tpb r1 \<and> piece_size tpb r1 \<le> ms_size r1)"
  proof (cases "ms_size r1 < 2 ^ tpb")
    case False
    have "0 < page_floor tpb (ms_size r1)" "page_floor tpb (ms_size r1) \<le> ms_size r1"
      using False page_mod [where a = "ms_size r1" and tpb = tpb] unfolding page_floor_def by linarith+
    then show ?thesis using False by (auto simp: piece_size_def)
  qed (simp add: piece_size_def)
  then show ?thesis using assms(1) sz by (auto simp: left_over_def)
qed

termination add_loop
  by (relation "measure (\<lambda>(rg, levels, tpb, remain, n, s). left_over remain n)") (auto simp: left_over_decreases)

declare add_loop.simps [simp del]

definition flatview_add_to_dispatch :: "regions \<Rightarrow> nat \<Rightarrow> nat \<Rightarrow> MemoryRegionSection \<Rightarrow> AddressSpaceDispatch \<times> refs \<Rightarrow> (AddressSpaceDispatch \<times> refs) res" where
  "flatview_add_to_dispatch rg levels tpb sec s =
     (let off = ms_offset_within_address_space sec in
      if off mod 2 ^ tpb \<noteq> 0
      then let left = ulong (page_floor tpb (ulong (off + 2 ^ tpb - 1)) - off); now = sec\<lparr>ms_size := min left (ms_size sec)\<rparr> in
        res_bind (register_subpage rg levels tpb now s) (\<lambda>s1. add_loop rg levels tpb sec (ms_size now) s1)
      else add_loop rg levels tpb sec 0 s)"

definition dummy_section :: "regions \<Rightarrow> nat \<Rightarrow> section_mr \<Rightarrow> PhysPageMap \<times> refs \<Rightarrow> (nat \<times> PhysPageMap \<times> refs) res" where
  "dummy_section rg tpb mr = phys_section_add rg tpb
     \<lparr>ms_mr = mr, ms_offset_within_region = 0, ms_size = 18446744073709551616, ms_offset_within_address_space = 0, ms_readonly = False\<rparr>"

fun dummy_sections :: "regions \<Rightarrow> nat \<Rightarrow> (section_mr \<times> nat) list \<Rightarrow> PhysPageMap \<times> refs \<Rightarrow> (PhysPageMap \<times> refs) res" where
  "dummy_sections rg tpb [] s = Inr s"
| "dummy_sections rg tpb ((mr, k) # rest) s =
     res_bind (dummy_section rg tpb mr s) (\<lambda>(n, s1). if n = k then dummy_sections rg tpb rest s1 else Inl Assert_failed)"

text \<open>\<open>hint\<close> is the static \<open>alloc_hint\<close>.\<close>

definition address_space_dispatch_new :: "regions \<Rightarrow> nat \<Rightarrow> nat \<Rightarrow> refs \<Rightarrow> (AddressSpaceDispatch \<times> refs) res" where
  "address_space_dispatch_new rg tpb hint cs =
     res_bind (dummy_sections rg tpb [(Io_mem_unassigned, 0), (Io_mem_notdirty, 1), (Io_mem_rom, 2), (Io_mem_watch, 3)]
        (\<lparr>sections = [], sections_nb_alloc = 0, nodes_nb = 0, nodes_nb_alloc = 0, alloc_hint = hint, nodes = (\<lambda>_ _. \<lparr>pe_skip = 0, pe_ptr = 0\<rparr>)\<rparr>, cs))
       (\<lambda>(m, cs1). Inr (\<lparr>mru_section = None, phys_map = \<lparr>pe_skip = 1, pe_ptr = PHYS_MAP_NODE_NIL\<rparr>, disp_map = m, disp_subpages = []\<rparr>, cs1))"

text \<open>The result is the index of the section.\<close>

definition address_space_lookup_region :: "nat \<Rightarrow> nat \<Rightarrow> AddressSpaceDispatch \<Rightarrow> int \<Rightarrow> bool \<Rightarrow> nat \<times> AddressSpaceDispatch" where
  "address_space_lookup_region levels tpb d a resolve_subpage =
     (let (s, d1) = (case mru_section d of
                       None \<Rightarrow> (phys_page_find levels tpb d a, d\<lparr>mru_section := Some (phys_page_find levels tpb d a)\<rparr>)
                     | Some s \<Rightarrow> if s = PHYS_SECTION_UNASSIGNED \<or> \<not> section_covers_addr (sections (disp_map d) ! s) a
                                then (phys_page_find levels tpb d a, d\<lparr>mru_section := Some (phys_page_find levels tpb d a)\<rparr>) else (s, d))
      in case ms_mr (sections (disp_map d) ! s) of
           Subpage k \<Rightarrow> if resolve_subpage then (sub_section (disp_subpages d ! k) (nat (a mod 2 ^ tpb)), d1) else (s, d1)
         | _ \<Rightarrow> (s, d1))"

text \<open>The result is the index of the section, the offset in its region and the length that may be accessed.\<close>

definition section_is_ram :: "regions \<Rightarrow> MemoryRegionSection \<Rightarrow> bool" where
  "section_is_ram rg sec \<longleftrightarrow> (case ms_mr sec of Mr r \<Rightarrow> mr_ram (rg r) | _ \<Rightarrow> False)"

definition address_space_translate_internal :: "regions \<Rightarrow> nat \<Rightarrow> nat \<Rightarrow> AddressSpaceDispatch \<Rightarrow> int \<Rightarrow> int \<Rightarrow> bool
    \<Rightarrow> (nat \<times> int \<times> int \<times> AddressSpaceDispatch) res" where
  "address_space_translate_internal rg levels tpb d a plen resolve_subpage =
     (let (s, d1) = address_space_lookup_region levels tpb d a resolve_subpage; sec = sections (disp_map d) ! s;
          a1 = ulong (a - ms_offset_within_address_space sec); xlat = ulong (a1 + ms_offset_within_region sec)
      in if section_is_ram rg sec
         then res_bind (int128_get64 (min (ms_size sec - a1) plen)) (\<lambda>p. Inr (s, xlat, p, d1))
         else Inr (s, xlat, plen, d1))"

section \<open>The translation a page table stands for\<close>

text \<open>\<open>pg\<close> gives every page its section, \<open>ss\<close> are the sections and \<open>sp\<close> the subpages. A region's section in the table covers whole
  pages and exactly the pages that name it; the section of a subpage is its page; an entry of a subpage covers its byte.\<close>

definition unassigned_section :: MemoryRegionSection where
  "unassigned_section = \<lparr>ms_mr = Io_mem_unassigned, ms_offset_within_region = 0, ms_size = 18446744073709551616,
     ms_offset_within_address_space = 0, ms_readonly = False\<rparr>"

definition sec_contains :: "MemoryRegionSection \<Rightarrow> int \<Rightarrow> bool" where
  "sec_contains sec a \<longleftrightarrow> ms_offset_within_address_space sec \<le> a \<and> a < ms_offset_within_address_space sec + ms_size sec"

definition sec_ok :: "MemoryRegionSection \<Rightarrow> bool" where
  "sec_ok sec \<longleftrightarrow> (\<exists>r. ms_mr sec = Mr r) \<and> 0 \<le> ms_offset_within_address_space sec \<and> 0 < ms_size sec
     \<and> ms_offset_within_address_space sec + ms_size sec \<le> 18446744073709551616"

definition whole_pages :: "nat \<Rightarrow> MemoryRegionSection \<Rightarrow> bool" where
  "whole_pages tpb sec \<longleftrightarrow> 2 ^ tpb dvd ms_offset_within_address_space sec \<and> 2 ^ tpb dvd ms_size sec"

definition page_ok :: "nat \<Rightarrow> (nat \<Rightarrow> nat) \<Rightarrow> MemoryRegionSection list \<Rightarrow> subpage_t list \<Rightarrow> nat \<Rightarrow> bool" where
  "page_ok tpb pg ss sp x \<longleftrightarrow> pg x = 0 \<or> pg x < length ss \<and>
     (let sec = ss ! pg x in
      case ms_mr sec of
        Mr r \<Rightarrow> sec_ok sec \<and> whole_pages tpb sec \<and> sec_contains sec (int x * 2 ^ tpb) \<and> (\<forall>y. sec_contains sec (int y * 2 ^ tpb) \<longrightarrow> pg y = pg x)
      | Subpage k \<Rightarrow> k < length sp \<and> ms_offset_within_address_space sec = int x * 2 ^ tpb \<and> ms_size sec = 2 ^ tpb \<and> sp_base (sp ! k) = int x * 2 ^ tpb
      | _ \<Rightarrow> False)"

definition entry_ok :: "nat \<Rightarrow> MemoryRegionSection list \<Rightarrow> subpage_t \<Rightarrow> nat \<Rightarrow> bool" where
  "entry_ok tpb ss p i \<longleftrightarrow> sub_section p i = 0
     \<or> sub_section p i < length ss \<and> sec_ok (ss ! sub_section p i) \<and> sec_contains (ss ! sub_section p i) (sp_base p + int i)
       \<and> (\<forall>a. sec_contains (ss ! sub_section p i) a \<longrightarrow> (\<exists>j<2 ^ tpb. a = sp_base p + int j \<and> sub_section p j = sub_section p i))"

definition subpage_ok :: "nat \<Rightarrow> MemoryRegionSection list \<Rightarrow> subpage_t \<Rightarrow> bool" where
  "subpage_ok tpb ss p \<longleftrightarrow> (\<forall>i<2 ^ tpb. entry_ok tpb ss p i) \<and> (\<exists>i<2 ^ tpb. sub_section p i \<noteq> 0)"

definition page_table_ok :: "nat \<Rightarrow> (nat \<Rightarrow> nat) \<Rightarrow> MemoryRegionSection list \<Rightarrow> subpage_t list \<Rightarrow> bool" where
  "page_table_ok tpb pg ss sp \<longleftrightarrow> 0 < length ss \<and> ss ! 0 = unassigned_section
     \<and> (\<forall>x. int x * 2 ^ tpb < 18446744073709551616 \<longrightarrow> page_ok tpb pg ss sp x) \<and> (\<forall>p\<in>set sp. subpage_ok tpb ss p)"

definition entry_of :: "nat \<Rightarrow> (nat \<Rightarrow> nat) \<Rightarrow> MemoryRegionSection list \<Rightarrow> subpage_t list \<Rightarrow> int \<Rightarrow> nat" where
  "entry_of tpb pg ss sp a = (let s = pg (nat (a div 2 ^ tpb)) in
     case ms_mr (ss ! s) of Subpage k \<Rightarrow> sub_section (sp ! k) (nat (a mod 2 ^ tpb)) | _ \<Rightarrow> s)"

definition sec_target :: "MemoryRegionSection \<Rightarrow> int \<Rightarrow> (nat \<times> int \<times> bool) option" where
  "sec_target sec a = (case ms_mr sec of
     Mr r \<Rightarrow> Some (r, ulong (a - ms_offset_within_address_space sec + ms_offset_within_region sec), ms_readonly sec) | _ \<Rightarrow> None)"

definition target_of :: "nat \<Rightarrow> (nat \<Rightarrow> nat) \<Rightarrow> MemoryRegionSection list \<Rightarrow> subpage_t list \<Rightarrow> int \<Rightarrow> (nat \<times> int \<times> bool) option" where
  "target_of tpb pg ss sp a = sec_target (ss ! entry_of tpb pg ss sp a) a"

lemma page_of_addr:
  fixes a :: int
  assumes "0 \<le> a"
  shows "int (nat (a div 2 ^ tpb)) * 2 ^ tpb \<le> a" "a < int (nat (a div 2 ^ tpb)) * 2 ^ tpb + 2 ^ tpb"
    "int (nat (a div 2 ^ tpb)) * 2 ^ tpb + int (nat (a mod 2 ^ tpb)) = a" "nat (a mod 2 ^ tpb) < 2 ^ tpb"
proof -
  have d: "int (nat (a div 2 ^ tpb)) = a div 2 ^ tpb" using assms by (simp add: pos_imp_zdiv_nonneg_iff)
  have m: "int (nat (a mod 2 ^ tpb)) = a mod 2 ^ tpb" by simp
  have e: "a div 2 ^ tpb * 2 ^ tpb + a mod 2 ^ tpb = a" by (rule div_mult_mod_eq)
  show "int (nat (a div 2 ^ tpb)) * 2 ^ tpb \<le> a" "a < int (nat (a div 2 ^ tpb)) * 2 ^ tpb + 2 ^ tpb"
    unfolding d using e page_mod [where a = a and tpb = tpb] by linarith+
  show "int (nat (a div 2 ^ tpb)) * 2 ^ tpb + int (nat (a mod 2 ^ tpb)) = a" unfolding d m by (rule e)
  have "a mod 2 ^ tpb < 2 ^ tpb" by simp
  then show "nat (a mod 2 ^ tpb) < 2 ^ tpb" by (simp add: nat_less_iff)
qed

lemma page_of_unique:
  fixes a :: int
  assumes "int x * 2 ^ tpb \<le> a" "a < int x * 2 ^ tpb + 2 ^ tpb"
  shows "nat (a div 2 ^ tpb) = x"
proof -
  have "a div 2 ^ tpb = int x" using assms by (intro div_pos_geq int_div_pos_eq [of a "2 ^ tpb" "int x" "a - int x * 2 ^ tpb"]) auto
  then show ?thesis by simp
qed

lemma page_end:
  fixes e :: int
  assumes "2 ^ tpb dvd e" "int x * 2 ^ tpb < e"
  shows "int x * 2 ^ tpb + 2 ^ tpb \<le> e"
proof -
  obtain k where k: "e = 2 ^ tpb * k" using assms(1) by (elim dvdE)
  then have "int x < k" using assms(2) by (simp add: mult.commute)
  then have "2 ^ tpb * (int x + 1) \<le> 2 ^ tpb * k" by (intro mult_left_mono) simp_all
  then show ?thesis by (simp add: k algebra_simps)
qed

lemma page_begin:
  fixes e :: int
  assumes "2 ^ tpb dvd e" "e < int x * 2 ^ tpb + 2 ^ tpb"
  shows "e \<le> int x * 2 ^ tpb"
proof -
  obtain k where k: "e = 2 ^ tpb * k" using assms(1) by (elim dvdE)
  then have "2 ^ tpb * k < 2 ^ tpb * (int x + 1)" using assms(2) by (simp add: algebra_simps)
  then have "k < int x + 1" by (simp only: mult_less_cancel_left_pos zero_less_power zero_less_numeral)
  then have "2 ^ tpb * k \<le> 2 ^ tpb * int x" by (intro mult_left_mono) simp_all
  then show ?thesis by (simp add: k algebra_simps)
qed

lemma space_pages: "tpb \<le> 64 \<Longrightarrow> 2 ^ tpb dvd (18446744073709551616 :: int)"
  using le_imp_power_dvd [of tpb 64 "2 :: int"] by simp

lemma contains_page:
  assumes "whole_pages tpb sec" "int x * 2 ^ tpb \<le> a" "a < int x * 2 ^ tpb + 2 ^ tpb"
  shows "sec_contains sec a \<longleftrightarrow> sec_contains sec (int x * 2 ^ tpb)"
proof -
  have d: "2 ^ tpb dvd ms_offset_within_address_space sec" "2 ^ tpb dvd ms_offset_within_address_space sec + ms_size sec"
    using assms(1) by (simp_all add: whole_pages_def)
  show ?thesis
    using page_begin [OF d(1), of x] page_end [OF d(2), of x] assms(2,3) unfolding sec_contains_def by linarith
qed

lemma page_okD:
  assumes "page_ok tpb pg ss sp x" "pg x \<noteq> 0"
  obtains (region) r where "pg x < length ss" "ms_mr (ss ! pg x) = Mr r" "sec_ok (ss ! pg x)" "whole_pages tpb (ss ! pg x)" "sec_contains (ss ! pg x) (int x * 2 ^ tpb)"
      "\<And>y. sec_contains (ss ! pg x) (int y * 2 ^ tpb) \<Longrightarrow> pg y = pg x"
  | (sub) k where "pg x < length ss" "ms_mr (ss ! pg x) = Subpage k" "k < length sp" "ms_offset_within_address_space (ss ! pg x) = int x * 2 ^ tpb"
      "ms_size (ss ! pg x) = 2 ^ tpb" "sp_base (sp ! k) = int x * 2 ^ tpb"
proof -
  have u: "pg x < length ss" "case ms_mr (ss ! pg x) of
        Mr r \<Rightarrow> sec_ok (ss ! pg x) \<and> whole_pages tpb (ss ! pg x) \<and> sec_contains (ss ! pg x) (int x * 2 ^ tpb)
          \<and> (\<forall>y. sec_contains (ss ! pg x) (int y * 2 ^ tpb) \<longrightarrow> pg y = pg x)
      | Subpage k \<Rightarrow> k < length sp \<and> ms_offset_within_address_space (ss ! pg x) = int x * 2 ^ tpb \<and> ms_size (ss ! pg x) = 2 ^ tpb \<and> sp_base (sp ! k) = int x * 2 ^ tpb
      | _ \<Rightarrow> False"
    using assms unfolding page_ok_def Let_def by blast+
  show thesis
  proof (cases "ms_mr (ss ! pg x)")
    case (Mr r)
    show thesis using u(2) unfolding Mr section_mr.case by (elim conjE) (rule region [OF u(1) Mr], blast+)
  next
    case (Subpage k)
    show thesis using u(2) unfolding Subpage section_mr.case by (elim conjE) (rule sub [OF u(1) Subpage])
  qed (use u(2) in simp_all)
qed

lemma page_tableD:
  assumes "page_table_ok tpb pg ss sp"
  shows "0 < length ss" "ss ! 0 = unassigned_section" "int x * 2 ^ tpb < 18446744073709551616 \<Longrightarrow> page_ok tpb pg ss sp x" "k < length sp \<Longrightarrow> subpage_ok tpb ss (sp ! k)"
  using assms by (simp_all add: page_table_ok_def)

text \<open>The last check of \<open>phys_page_find\<close> never fails for a page that is in the table.\<close>

lemma table_covers:
  assumes "page_table_ok tpb pg ss sp" "tpb \<le> 64" "0 \<le> a" "a < 18446744073709551616"
  shows "section_covers_addr (ss ! pg (nat (a div 2 ^ tpb))) a"
proof (cases "pg (nat (a div 2 ^ tpb)) = 0")
  case True
  then show ?thesis using page_tableD(2) [OF assms(1)] by (simp add: unassigned_section_def section_covers_addr_def)
next
  case False
  let ?x = "nat (a div 2 ^ tpb)"
  note x = page_of_addr [OF assms(3), of tpb]
  have lt: "int ?x * 2 ^ tpb < 18446744073709551616" using x(1) assms(4) by linarith
  show ?thesis
  proof (cases rule: page_okD [OF page_tableD(3) [OF assms(1) lt] False])
    case (1 r)
    have "sec_contains (ss ! pg ?x) a" using contains_page [OF 1(4) x(1,2)] 1(5) by blast
    then show ?thesis using 1(3) by (auto simp: section_covers_addr_def sec_contains_def sec_ok_def ulong_def)
  next
    case (2 k)
    have "int ?x * 2 ^ tpb + 2 ^ tpb \<le> 18446744073709551616" by (rule page_end [OF space_pages [OF assms(2)] lt])
    then have u: "ulong (int ?x * 2 ^ tpb + 2 ^ tpb - 1) = int ?x * 2 ^ tpb + 2 ^ tpb - 1"
      unfolding ulong_def by (intro mod_pos_pos_trivial) (use x assms(3) in linarith)+
    show ?thesis using 2(4,5) u x(1,2) by (simp add: section_covers_addr_def)
  qed
qed

text \<open>A page on which nothing translates has no section.\<close>

lemma page_free:
  assumes "page_table_ok tpb pg ss sp" "int x * 2 ^ tpb < 18446744073709551616"
    and "\<And>a. int x * 2 ^ tpb \<le> a \<Longrightarrow> a < int x * 2 ^ tpb + 2 ^ tpb \<Longrightarrow> target_of tpb pg ss sp a = None"
  shows "pg x = 0"
proof (rule ccontr)
  assume nz: "pg x \<noteq> 0"
  show False
  proof (cases rule: page_okD [OF page_tableD(3) [OF assms(1,2)] nz])
    case (1 r)
    have "nat (int x * 2 ^ tpb div 2 ^ tpb) = x" by simp
    then have "target_of tpb pg ss sp (int x * 2 ^ tpb) \<noteq> None" using 1(2) by (simp add: target_of_def entry_of_def sec_target_def)
    then show False using assms(3) [of "int x * 2 ^ tpb"] by simp
  next
    case (2 k)
    obtain i where i: "i < 2 ^ tpb" "sub_section (sp ! k) i \<noteq> 0" "entry_ok tpb ss (sp ! k) i"
      using page_tableD(4) [OF assms(1) 2(3)] unfolding subpage_ok_def by blast
    have "int i < 2 ^ tpb" using i(1) by simp
    moreover have "nat ((int x * 2 ^ tpb + int i) div 2 ^ tpb) = x" "nat ((int x * 2 ^ tpb + int i) mod 2 ^ tpb) = i"
      using page_of_unique [of x tpb] calculation by simp_all
    ultimately show False using assms(3) [of "int x * 2 ^ tpb + int i"] 2(2) i(2,3)
      by (auto simp: target_of_def entry_of_def sec_target_def sec_ok_def entry_ok_def)
  qed
qed

section \<open>Growing the table\<close>

lemma subpage_ok_mono: "subpage_ok tpb ss p \<Longrightarrow> subpage_ok tpb (ss @ zs) p"
  unfolding subpage_ok_def entry_ok_def by (metis length_append nth_append trans_less_add1)

lemma sub_entry: "subpage_ok tpb ss p \<Longrightarrow> i < 2 ^ tpb \<Longrightarrow> 0 < length ss \<Longrightarrow> sub_section p i < length ss"
  unfolding subpage_ok_def entry_ok_def by metis

lemma page_ok_mono:
  assumes "page_ok tpb pg ss sp x" "pg' x = pg x" "\<And>y. int y * 2 ^ tpb < 18446744073709551616 \<Longrightarrow> pg y \<noteq> 0 \<Longrightarrow> pg' y = pg y"
    and "\<And>k. k < length sp \<Longrightarrow> k < length sp' \<and> sp_base (sp' ! k) = sp_base (sp ! k)"
  shows "page_ok tpb pg' (ss @ zs) sp' x"
proof (cases "pg x = 0")
  case False
  show ?thesis
  proof (cases rule: page_okD [OF assms(1) False])
    case (1 r)
    have "pg' y = pg x" if y: "sec_contains (ss ! pg x) (int y * 2 ^ tpb)" for y
    proof -
      have "int y * 2 ^ tpb < 18446744073709551616" using y 1(3) by (auto simp: sec_contains_def sec_ok_def)
      then show ?thesis using assms(3) [of y] 1(6) [OF y] False by simp
    qed
    then show ?thesis using 1(1-5) assms(2) unfolding page_ok_def Let_def by (simp add: nth_append)
  next
    case (2 k)
    then show ?thesis using assms(2) assms(4) [OF 2(3)] by (simp add: page_ok_def Let_def nth_append)
  qed
qed (simp add: page_ok_def assms(2))

lemma target_mono:
  assumes "page_table_ok tpb pg ss sp" "0 \<le> a" "a < 18446744073709551616" "pg' (nat (a div 2 ^ tpb)) = pg (nat (a div 2 ^ tpb))"
    and "\<And>k. ms_mr (ss ! pg (nat (a div 2 ^ tpb))) = Subpage k \<Longrightarrow> k < length sp
      \<Longrightarrow> sub_section (sp' ! k) (nat (a mod 2 ^ tpb)) = sub_section (sp ! k) (nat (a mod 2 ^ tpb))"
  shows "target_of tpb pg' (ss @ zs) sp' a = target_of tpb pg ss sp a"
proof -
  let ?x = "nat (a div 2 ^ tpb)"
  note x = page_of_addr [OF assms(2), of tpb] and t = page_tableD [OF assms(1)]
  have lt: "int ?x * 2 ^ tpb < 18446744073709551616" using x(1) assms(3) by linarith
  show ?thesis
  proof (cases "pg ?x = 0")
    case True
    then show ?thesis using t(1,2) assms(4) by (simp add: target_of_def entry_of_def nth_append unassigned_section_def)
  next
    case False
    show ?thesis
    proof (cases rule: page_okD [OF t(3) [OF lt] False])
      case (1 r)
      show ?thesis using 1(1,2) assms(4) by (simp add: target_of_def entry_of_def nth_append)
    next
      case (2 k)
      have "sub_section (sp ! k) (nat (a mod 2 ^ tpb)) < length ss"
        by (rule sub_entry [OF t(4) [OF 2(3)] x(4) t(1)])
      then show ?thesis using 2(1,2) assms(4) assms(5) [OF 2(2,3)] by (simp add: target_of_def entry_of_def nth_append)
    qed
  qed
qed

text \<open>A section of whole pages.\<close>

definition adds_target :: "nat \<Rightarrow> MemoryRegionSection \<Rightarrow> (int \<Rightarrow> (nat \<times> int \<times> bool) option) \<Rightarrow> (int \<Rightarrow> (nat \<times> int \<times> bool) option) \<Rightarrow> bool" where
  "adds_target tpb sec t t' \<longleftrightarrow> (\<forall>a. 0 \<le> a \<and> a < 18446744073709551616 \<longrightarrow> t' a = (if sec_contains sec a then sec_target sec a else t a))"

lemma table_multi:
  assumes "page_table_ok tpb pg ss sp" "sec_ok sec" "whole_pages tpb sec" "\<And>a. sec_contains sec a \<Longrightarrow> target_of tpb pg ss sp a = None"
    and pg': "\<And>x. int x * 2 ^ tpb < 18446744073709551616 \<Longrightarrow> pg' x = (if sec_contains sec (int x * 2 ^ tpb) then length ss else pg x)"
  shows "page_table_ok tpb pg' (ss @ [sec]) sp" "adds_target tpb sec (target_of tpb pg ss sp) (target_of tpb pg' (ss @ [sec]) sp)"
proof -
  note t = page_tableD [OF assms(1)]
  obtain r where r: "ms_mr sec = Mr r" using assms(2) by (auto simp: sec_ok_def)
  have lt: "int x * 2 ^ tpb < 18446744073709551616" if "sec_contains sec (int x * 2 ^ tpb)" for x
    using that assms(2) by (auto simp: sec_contains_def sec_ok_def)
  have free: "pg x = 0" if c: "sec_contains sec (int x * 2 ^ tpb)" for x
    by (rule page_free [OF assms(1) lt [OF c]]) (use assms(4) contains_page [OF assms(3), of x] c in blast)
  have "page_ok tpb pg' (ss @ [sec]) sp x" if x: "int x * 2 ^ tpb < 18446744073709551616" for x
  proof (cases "sec_contains sec (int x * 2 ^ tpb)")
    case True
    have "pg' y = length ss" if "sec_contains sec (int y * 2 ^ tpb)" for y using pg' [OF lt [OF that]] that by simp
    then show ?thesis unfolding page_ok_def Let_def using pg' [OF x] True r assms(2,3) by simp
  next
    case False
    show ?thesis by (rule page_ok_mono [OF t(3) [OF x]]) (use pg' x False free in auto)
  qed
  then show "page_table_ok tpb pg' (ss @ [sec]) sp" using assms(1) subpage_ok_mono by (auto simp: page_table_ok_def nth_append)
  have "target_of tpb pg' (ss @ [sec]) sp a = (if sec_contains sec a then sec_target sec a else target_of tpb pg ss sp a)"
    if a: "0 \<le> a" "a < 18446744073709551616" for a
  proof -
    let ?x = "nat (a div 2 ^ tpb)"
    note x = page_of_addr [OF a(1), of tpb]
    have c: "sec_contains sec a \<longleftrightarrow> sec_contains sec (int ?x * 2 ^ tpb)" by (rule contains_page [OF assms(3) x(1,2)])
    have lt: "int ?x * 2 ^ tpb < 18446744073709551616" using x(1) a(2) by linarith
    show ?thesis
    proof (cases "sec_contains sec a")
      case True
      then show ?thesis using pg' [OF lt] c r by (simp add: target_of_def entry_of_def)
    next
      case False
      then show ?thesis using target_mono [OF assms(1) a, of pg' sp "[sec]"] pg' [OF lt] c by simp
    qed
  qed
  then show "adds_target tpb sec (target_of tpb pg ss sp) (target_of tpb pg' (ss @ [sec]) sp)" by (simp add: adds_target_def)
qed

text \<open>A section inside one page, entered into the subpage \<open>k\<close> of the page. In the first case the page has that subpage, in the
  second the page is free and the subpage is new.\<close>

definition in_page :: "nat \<Rightarrow> MemoryRegionSection \<Rightarrow> nat \<Rightarrow> bool" where
  "in_page tpb sec x \<longleftrightarrow> int x * 2 ^ tpb \<le> ms_offset_within_address_space sec
     \<and> ms_offset_within_address_space sec + ms_size sec \<le> int x * 2 ^ tpb + 2 ^ tpb"

definition enter :: "nat \<Rightarrow> MemoryRegionSection \<Rightarrow> nat \<Rightarrow> subpage_t \<Rightarrow> subpage_t" where
  "enter tpb sec n sp = subpage_register tpb (ms_offset_within_address_space sec mod 2 ^ tpb)
     (ms_offset_within_address_space sec mod 2 ^ tpb + ms_size sec - 1) n sp"

lemma enter_sel:
  assumes "sec_ok sec" "in_page tpb sec x" "sp_base p = int x * 2 ^ tpb" "i < 2 ^ tpb"
  shows "sp_base (enter tpb sec n p) = sp_base p"
    "sub_section (enter tpb sec n p) i = (if sec_contains sec (sp_base p + int i) then n else sub_section p i)"
proof -
  let ?o = "ms_offset_within_address_space sec"
  have o: "?o mod 2 ^ tpb = ?o - int x * 2 ^ tpb"
  proof -
    have "?o mod 2 ^ tpb = (?o - int x * 2 ^ tpb) mod 2 ^ tpb" by (simp add: mod_diff_eq [symmetric])
    also have "\<dots> = ?o - int x * 2 ^ tpb" using assms(1,2) by (intro mod_pos_pos_trivial) (auto simp: in_page_def sec_ok_def)
    finally show ?thesis .
  qed
  show "sp_base (enter tpb sec n p) = sp_base p" by (simp add: enter_def subpage_register_def)
  show "sub_section (enter tpb sec n p) i = (if sec_contains sec (sp_base p + int i) then n else sub_section p i)"
    using assms unfolding enter_def subpage_register_def o by (auto simp: sec_contains_def in_page_def sec_ok_def)
qed

lemma table_sub:
  assumes "page_table_ok tpb pg ss sp" "sec_ok sec" "in_page tpb sec x" "int x * 2 ^ tpb < 18446744073709551616"
    and p: "sp_base p = int x * 2 ^ tpb" "\<And>i. i < 2 ^ tpb \<Longrightarrow> entry_ok tpb ss p i" "\<And>i. i < 2 ^ tpb \<Longrightarrow> sec_contains sec (sp_base p + int i) \<Longrightarrow> sub_section p i = 0"
    and q: "q = enter tpb sec (length (ss @ zs)) p"
  shows "subpage_ok tpb (ss @ zs @ [sec]) q"
proof -
  note e = enter_sel [OF assms(2,3) p(1), of _ "length (ss @ zs)", folded q]
  have base: "sp_base q = sp_base p" using e(1) [of 0] by simp
  obtain j where j: "ms_offset_within_address_space sec - int x * 2 ^ tpb = int j"
    using assms(3) by (metis in_page_def diff_ge_0_iff_ge nonneg_eq_int)
  have "int j < 2 ^ tpb" unfolding j [symmetric] using assms(2,3) by (simp add: in_page_def sec_ok_def)
  then have i2: "j < 2 ^ tpb" by simp
  have "sec_contains sec (sp_base p + int j)" unfolding j [symmetric] p(1) using assms(2) by (simp add: sec_contains_def sec_ok_def)
  then have "sub_section q j = length (ss @ zs)" using e(2) [OF i2] by simp
  moreover have "0 < length ss" by (rule page_tableD(1) [OF assms(1)])
  ultimately have ex: "\<exists>i<2 ^ tpb. sub_section q i \<noteq> 0" using i2 by (intro exI [of _ j]) auto
  have last: "(ss @ zs @ [sec]) ! length (ss @ zs) = sec" by (metis append.assoc nth_append_length)
  have "entry_ok tpb (ss @ zs @ [sec]) q i" if i: "i < 2 ^ tpb" for i
  proof (cases "sec_contains sec (sp_base p + int i)")
    case True
    have "\<exists>j<2 ^ tpb. a = sp_base q + int j \<and> sub_section q j = length (ss @ zs)" if a: "sec_contains sec a" for a
    proof -
      have "0 \<le> a - sp_base p" "a - sp_base p < 2 ^ tpb" using a assms(3) p(1) by (auto simp: sec_contains_def in_page_def)
      then obtain j where j: "a - sp_base p = int j" "j < 2 ^ tpb" by (metis nonneg_eq_int of_nat_less_numeral_power_cancel_iff)
      then have "a = sp_base p + int j" by simp
      then show ?thesis using e(2) [OF j(2)] a base j(2) by (intro exI [of _ j]) simp
    qed
    then show ?thesis unfolding entry_ok_def using e(2) [OF i] True assms(2) base last by simp
  next
    case False
    then have q: "sub_section q i = sub_section p i" using e(2) [OF i] by simp
    show ?thesis
    proof (cases "sub_section p i = 0")
      case nz: False
      then have "sub_section p i < length ss" using p(2) [OF i] by (simp add: entry_ok_def)
      moreover have "sub_section q j = sub_section p j" if "j < 2 ^ tpb" "sub_section p j = sub_section p i" for j
        using e(2) [OF that(1)] p(3) [OF that(1)] that(2) nz by auto
      ultimately show ?thesis using p(2) [OF i] nz base q unfolding entry_ok_def by (metis length_append nth_append trans_less_add1)
    qed (simp add: entry_ok_def q)
  qed
  then show ?thesis unfolding subpage_ok_def using ex by blast
qed

lemma table_grow_sub:
  assumes t: "page_table_ok tpb pg ss sp" and sec: "sec_ok sec" "in_page tpb sec x" "int x * 2 ^ tpb < 18446744073709551616"
    and p: "sp_base p = int x * 2 ^ tpb" "\<And>i. i < 2 ^ tpb \<Longrightarrow> entry_ok tpb ss p i" "\<And>i. i < 2 ^ tpb \<Longrightarrow> sec_contains sec (sp_base p + int i) \<Longrightarrow> sub_section p i = 0"
    and old: "\<And>a. nat (a div 2 ^ tpb) = x \<Longrightarrow> 0 \<le> a \<Longrightarrow> target_of tpb pg ss sp a = sec_target (ss ! sub_section p (nat (a mod 2 ^ tpb))) a"
    and pg': "\<And>y. int y * 2 ^ tpb < 18446744073709551616 \<Longrightarrow> y \<noteq> x \<or> pg y \<noteq> 0 \<Longrightarrow> pg' y = pg y"
    and x: "0 < pg' x" "pg' x < length (ss @ zs)" "ms_mr ((ss @ zs) ! pg' x) = Subpage k" "ms_offset_within_address_space ((ss @ zs) ! pg' x) = int x * 2 ^ tpb"
      "ms_size ((ss @ zs) ! pg' x) = 2 ^ tpb"
    and sp': "length sp \<le> length sp'" "k < length sp'" "sp' ! k = enter tpb sec (length (ss @ zs)) p" "\<And>j. j < length sp' \<Longrightarrow> j \<noteq> k \<Longrightarrow> j < length sp \<and> sp' ! j = sp ! j"
      "k < length sp \<Longrightarrow> sp_base (sp ! k) = int x * 2 ^ tpb"
  shows "page_table_ok tpb pg' (ss @ zs @ [sec]) sp'" "adds_target tpb sec (target_of tpb pg ss sp) (target_of tpb pg' (ss @ zs @ [sec]) sp')"
proof -
  note tD = page_tableD [OF t] and e = enter_sel [OF sec(1,2) p(1), of _ "length (ss @ zs)"]
  have base: "sp_base (enter tpb sec n p) = int x * 2 ^ tpb" for n using enter_sel(1) [OF sec(1,2) p(1), of 0 n] p(1) by simp
  have bases: "j < length sp' \<and> sp_base (sp' ! j) = sp_base (sp ! j)" if "j < length sp" for j
    using that sp' base by (cases "j = k") force+
  have nth: "(ss @ zs @ [sec]) ! i = (ss @ zs) ! i" if "i < length (ss @ zs)" for i
    using that by (metis append.assoc nth_append)
  have pages: "page_ok tpb pg' (ss @ zs @ [sec]) sp' y" if y: "int y * 2 ^ tpb < 18446744073709551616" for y
  proof (cases "y = x")
    case True
    have "sp_base (sp' ! k) = int x * 2 ^ tpb" using sp'(3) base by simp
    then show ?thesis unfolding True page_ok_def Let_def nth [OF x(2)] using x sp'(2) by simp
  next
    case False
    show ?thesis by (rule page_ok_mono [OF tD(3) [OF y]]) (use pg' y False bases in auto)
  qed
  have subs: "subpage_ok tpb (ss @ zs @ [sec]) (sp' ! j)" if j: "j < length sp'" for j
  proof (cases "j = k")
    case True
    show ?thesis unfolding True by (rule table_sub [OF t sec p sp'(3)])
  next
    case False
    then show ?thesis using sp'(4) [OF j] tD(4) [of j] subpage_ok_mono by metis
  qed
  have "(ss @ zs @ [sec]) ! 0 = ss ! 0" using tD(1) by (simp add: nth_append)
  then show "page_table_ok tpb pg' (ss @ zs @ [sec]) sp'"
    unfolding page_table_ok_def using tD(1,2) pages subs by (auto simp: in_set_conv_nth)
  have "target_of tpb pg' (ss @ zs @ [sec]) sp' a = (if sec_contains sec a then sec_target sec a else target_of tpb pg ss sp a)"
    if a: "0 \<le> a" "a < 18446744073709551616" for a
  proof (cases "nat (a div 2 ^ tpb) = x")
    case True
    note pa = page_of_addr [OF a(1), of tpb, unfolded True]
    let ?i = "nat (a mod 2 ^ tpb)"
    have ent: "entry_of tpb pg' (ss @ zs @ [sec]) sp' a = sub_section (sp' ! k) ?i" unfolding entry_of_def True Let_def nth [OF x(2)] using x(3) by simp
    have ai: "sp_base p + int ?i = a" using pa(3) p(1) by simp
    show ?thesis
    proof (cases "sec_contains sec a")
      case c: True
      have "(ss @ zs @ [sec]) ! length (ss @ zs) = sec" by (metis append.assoc nth_append_length)
      then show ?thesis unfolding target_of_def ent sp'(3) e(2) [OF pa(4)] ai using c by simp
    next
      case False
      have "sub_section p ?i < length ss" using p(2) [OF pa(4)] tD(1) unfolding entry_ok_def by metis
      then show ?thesis using old [OF True a(1)] False unfolding target_of_def ent sp'(3) e(2) [OF pa(4)] ai by (simp add: nth_append)
    qed
  next
    case False
    let ?y = "nat (a div 2 ^ tpb)"
    note pa = page_of_addr [OF a(1), of tpb]
    have lt: "int ?y * 2 ^ tpb < 18446744073709551616" using pa(1) a(2) by linarith
    have "\<not> sec_contains sec a"
    proof
      assume "sec_contains sec a"
      then have "int x * 2 ^ tpb \<le> a" "a < int x * 2 ^ tpb + 2 ^ tpb" using sec(2) by (auto simp: sec_contains_def in_page_def)
      then show False using page_of_unique False by blast
    qed
    moreover have "target_of tpb pg' (ss @ (zs @ [sec])) sp' a = target_of tpb pg ss sp a"
    proof (rule target_mono [OF t a])
      show "pg' ?y = pg ?y" using pg' [OF lt] False by simp
      fix j assume j: "ms_mr (ss ! pg ?y) = Subpage j" "j < length sp"
      have nz: "pg ?y \<noteq> 0"
      proof
        assume "pg ?y = 0"
        then show False using j(1) tD(2) by (simp add: unassigned_section_def)
      qed
      have "sp_base (sp ! j) = int ?y * 2 ^ tpb"
      proof (cases rule: page_okD [OF tD(3) [OF lt] nz])
        case (1 r)
        show ?thesis using 1(2) j(1) by simp
      next
        case (2 k')
        show ?thesis using 2(2,6) j(1) by simp
      qed
      moreover have "int ?y * 2 ^ tpb \<noteq> int x * 2 ^ tpb" using False by (metis mult_cancel_right of_nat_eq_iff power_not_zero zero_neq_numeral)
      ultimately have "j \<noteq> k" using sp'(5) j(2) by metis
      then show "sub_section (sp' ! j) (nat (a mod 2 ^ tpb)) = sub_section (sp ! j) (nat (a mod 2 ^ tpb))" using sp'(4) j(2) sp'(1) by simp
    qed
    ultimately show ?thesis by simp
  qed
  then show "adds_target tpb sec (target_of tpb pg ss sp) (target_of tpb pg' (ss @ zs @ [sec]) sp')" by (simp add: adds_target_def)
qed

section \<open>Registering a piece\<close>

abbreviation levels_of :: "nat \<Rightarrow> nat" where "levels_of tpb \<equiv> P_L2_LEVELS tpb"

definition dispatch_target :: "nat \<Rightarrow> AddressSpaceDispatch \<Rightarrow> int \<Rightarrow> (nat \<times> int \<times> bool) option" where
  "dispatch_target tpb d = target_of tpb (page_section (P_L2_LEVELS tpb) d) (sections (disp_map d)) (disp_subpages d)"

definition dispatch_inv :: "nat \<Rightarrow> AddressSpaceDispatch \<Rightarrow> bool" where
  "dispatch_inv tpb d \<longleftrightarrow> dispatch_ok (P_L2_LEVELS tpb) d \<and> page_table_ok tpb (page_section (P_L2_LEVELS tpb) d) (sections (disp_map d)) (disp_subpages d)
     \<and> (\<forall>x<512 ^ P_L2_LEVELS tpb. page_section (P_L2_LEVELS tpb) d x < 65536
         \<and> (page_section (P_L2_LEVELS tpb) d x \<noteq> 0 \<longrightarrow> int x * 2 ^ tpb < 18446744073709551616))"

definition grows :: "nat \<Rightarrow> MemoryRegionSection \<Rightarrow> nat \<Rightarrow> AddressSpaceDispatch \<Rightarrow> AddressSpaceDispatch \<Rightarrow> bool" where
  "grows tpb sec k d d' \<longleftrightarrow> dispatch_inv tpb d' \<and> nodes_nb (disp_map d') \<le> nodes_nb (disp_map d) + 3 * k * P_L2_LEVELS tpb
     \<and> length (sections (disp_map d')) \<le> length (sections (disp_map d)) + 2 * k
     \<and> mru_section d' = mru_section d \<and> adds_target tpb sec (dispatch_target tpb d) (dispatch_target tpb d')"

definition has_room :: "nat \<Rightarrow> nat \<Rightarrow> AddressSpaceDispatch \<Rightarrow> bool" where
  "has_room tpb k d \<longleftrightarrow> nodes_nb (disp_map d) + 3 * k * P_L2_LEVELS tpb \<le> PHYS_MAP_NODE_NIL \<and> length (sections (disp_map d)) + 2 * k \<le> 2 ^ tpb"

definition with_section :: "MemoryRegionSection \<Rightarrow> PhysPageMap \<Rightarrow> PhysPageMap" where
  "with_section sec m = (if length (sections m) = sections_nb_alloc m then m\<lparr>sections_nb_alloc := max (sections_nb_alloc m * 2) 16\<rparr> else m)
     \<lparr>sections := sections m @ [sec]\<rparr>"

lemma with_section_sel [simp]:
  "sections (with_section sec m) = sections m @ [sec]" "nodes (with_section sec m) = nodes m" "nodes_nb (with_section sec m) = nodes_nb m"
  by (simp_all add: with_section_def)

lemma section_count:
  assumes "n < 2 ^ tpb" "tpb \<le> 16"
  shows "n < (65536 :: nat)"
proof -
  have "(2 :: nat) ^ tpb \<le> 2 ^ 16" using assms(2) by (intro power_increasing) simp_all
  then show ?thesis using assms(1) by simp
qed

lemma section_add:
  assumes "length (sections m) < 2 ^ tpb" "tpb \<le> 16"
  shows "phys_section_add rg tpb sec (m, cs) = Inr (length (sections m), with_section sec m, section_ref rg (ms_mr sec) cs)"
proof -
  have "length (sections m) mod 65536 = length (sections m)" using section_count [OF assms] by simp
  then show ?thesis using assms(1) by (simp add: phys_section_add_def with_section_def Let_def)
qed

lemma find_walk_nodes: "nodes m' = nodes m \<Longrightarrow> find_walk m' x i e = find_walk m x i e"
proof (induction m' x i e rule: find_walk.induct)
  case (1 m' x i e)
  then show ?case by (simp add: find_walk.simps [of m' x i e] find_walk.simps [of m x i e])
qed

lemma page_section_nodes [simp]: "page_section l (d\<lparr>disp_map := with_section sec (disp_map d)\<rparr>) = page_section l d"
  by (rule ext) (simp add: page_section_def find_walk_nodes [of "with_section sec (disp_map d)" "disp_map d"])

lemma map_ok_nodes: "nodes m' = nodes m \<Longrightarrow> nodes_nb m' = nodes_nb m \<Longrightarrow> map_ok own m' = map_ok own m"
  by (simp add: map_ok_def)

lemma dispatch_ok_section [simp]: "dispatch_ok l (d\<lparr>disp_map := with_section sec (disp_map d)\<rparr>) = dispatch_ok l d"
  using map_ok_nodes [of "with_section sec (disp_map d)" "disp_map d"] by (simp add: dispatch_ok_def)

lemma contains_index:
  assumes "sec_ok sec" "whole_pages tpb sec"
  shows "sec_contains sec (int y * 2 ^ tpb) \<longleftrightarrow> nat (ms_offset_within_address_space sec div 2 ^ tpb) \<le> y
      \<and> y < nat (ms_offset_within_address_space sec div 2 ^ tpb) + nat (ms_size sec div 2 ^ tpb)"
    "int (nat (ms_offset_within_address_space sec div 2 ^ tpb) + nat (ms_size sec div 2 ^ tpb)) * 2 ^ tpb = ms_offset_within_address_space sec + ms_size sec"
    "0 < ms_size sec div 2 ^ tpb"
proof -
  obtain a b where ab: "ms_offset_within_address_space sec = 2 ^ tpb * a" "ms_size sec = 2 ^ tpb * b" using assms(2) by (auto simp: whole_pages_def elim!: dvdE)
  have pos: "0 \<le> a" "0 < b" using assms(1) by (simp_all add: sec_ok_def ab zero_le_mult_iff zero_less_mult_iff)
  have "sec_contains sec (int y * 2 ^ tpb) \<longleftrightarrow> 2 ^ tpb * a \<le> 2 ^ tpb * int y \<and> 2 ^ tpb * int y < 2 ^ tpb * (a + b)"
    by (simp add: sec_contains_def ab algebra_simps)
  also have "\<dots> \<longleftrightarrow> a \<le> int y \<and> int y < a + b" by simp
  finally show "sec_contains sec (int y * 2 ^ tpb) \<longleftrightarrow> nat (ms_offset_within_address_space sec div 2 ^ tpb) \<le> y
      \<and> y < nat (ms_offset_within_address_space sec div 2 ^ tpb) + nat (ms_size sec div 2 ^ tpb)" using pos by (auto simp: ab)
  show "int (nat (ms_offset_within_address_space sec div 2 ^ tpb) + nat (ms_size sec div 2 ^ tpb)) * 2 ^ tpb = ms_offset_within_address_space sec + ms_size sec"
    "0 < ms_size sec div 2 ^ tpb" using pos by (simp_all add: ab algebra_simps)
qed

lemma register_multipage_grows:
  assumes "dispatch_inv tpb d" "1 \<le> tpb" "tpb \<le> 16" "has_room tpb 1 d" "sec_ok sec" "whole_pages tpb sec" "\<And>a. sec_contains sec a \<Longrightarrow> dispatch_target tpb d a = None"
  shows "\<exists>d' cs'. register_multipage rg (P_L2_LEVELS tpb) tpb sec (d, cs) = Inr (d', cs') \<and> grows tpb sec 1 d d'"
proof -
  let ?l = "P_L2_LEVELS tpb" and ?ss = "sections (disp_map d)" and ?sp = "disp_subpages d"
  let ?i = "nat (ms_offset_within_address_space sec div 2 ^ tpb)" and ?n = "nat (ms_size sec div 2 ^ tpb)" and ?d = "d\<lparr>disp_map := with_section sec (disp_map d)\<rparr>"
  have inv: "dispatch_ok ?l d" "page_table_ok tpb (page_section ?l d) ?ss ?sp" using assms(1) by (simp_all add: dispatch_inv_def)
  note c = contains_index [OF assms(5,6)]
  have room: "nodes_nb (disp_map d) + 3 * ?l \<le> PHYS_MAP_NODE_NIL" "length ?ss < 2 ^ tpb" using assms(4) by (simp_all add: has_room_def)
  have free: "page_section ?l ?d x = 0" if x: "?i \<le> x" "x < ?i + ?n" for x
  proof -
    have cx: "sec_contains sec (int x * 2 ^ tpb)" using x c(1) by blast
    then have "int x * 2 ^ tpb < 18446744073709551616" using assms(5) by (auto simp: sec_contains_def sec_ok_def)
    then show ?thesis using page_free [OF inv(2), of x] assms(7) contains_page [OF assms(6), of x] cx by (simp add: dispatch_target_def)
  qed
  have nz: "length ?ss \<noteq> 0" using page_tableD(1) [OF inv(2)] by simp
  have end_ok: "int (?i + ?n) * 2 ^ tpb \<le> 18446744073709551616" unfolding c(2) using assms(5) by (simp add: sec_ok_def)
  have tpb: "tpb \<le> 63" using assms(3) by simp
  have r: "nodes_nb (disp_map ?d) + 3 * ?l \<le> PHYS_MAP_NODE_NIL" "dispatch_ok ?l ?d" using room inv(1) by simp_all
  obtain d' where d': "phys_page_set ?l ?d ?i ?n (length ?ss) = Inr d'" "dispatch_ok ?l d'" "nodes_nb (disp_map d') \<le> nodes_nb (disp_map ?d) + (2 * ?l - 1)"
      "sections (disp_map d') = sections (disp_map ?d)" "disp_subpages d' = disp_subpages ?d"
      "\<And>x. x < 512 ^ ?l \<Longrightarrow> page_section ?l d' x = (if ?i \<le> x \<and> x < ?i + ?n then length ?ss else page_section ?l ?d x)" "mru_section d' = mru_section ?d"
    using set_pages [OF r(2) tpb nz end_ok r(1) free] by metis
  have pg: "page_section ?l d' x = (if sec_contains sec (int x * 2 ^ tpb) then length ?ss else page_section ?l d x)" if "int x * 2 ^ tpb < 18446744073709551616" for x
    using d'(6) [OF levels_enough [OF tpb that]] c(1) [of x] by simp
  have none: "target_of tpb (page_section ?l d) ?ss ?sp a = None" if "sec_contains sec a" for a using assms(7) [OF that] by (simp add: dispatch_target_def)
  note m = table_multi [OF inv(2) assms(5,6) none pg]
  have "int x * 2 ^ tpb < 18446744073709551616" if "?i \<le> x" "x < ?i + ?n" for x
    using that c(1) [of x] assms(5) by (auto simp: sec_contains_def sec_ok_def)
  then have small: "page_section ?l d' x < 65536 \<and> (page_section ?l d' x \<noteq> 0 \<longrightarrow> int x * 2 ^ tpb < 18446744073709551616)" if "x < 512 ^ ?l" for x
    using d'(6) [OF that] assms(1) that section_count [OF room(2) assms(3)] by (simp add: dispatch_inv_def)
  have g: "grows tpb sec 1 d d'" using d'(2-5) d'(7) m small by (simp add: grows_def dispatch_inv_def dispatch_target_def)
  have "2 * (ms_size sec div 2 ^ tpb) \<le> 2 ^ tpb * (ms_size sec div 2 ^ tpb)"
    using c(3) power_increasing [OF assms(2), of "2 :: int"] by (intro mult_right_mono) simp_all
  also have "\<dots> = ms_size sec" using assms(6) by (simp add: whole_pages_def)
  finally have "ms_size sec div 2 ^ tpb < 18446744073709551616" using assms(5) by (simp add: sec_ok_def)
  then have "register_multipage rg ?l tpb sec (d, cs) = Inr (d', section_ref rg (ms_mr sec) cs)"
    using c(3) d'(1) by (simp add: register_multipage_def section_add [OF room(2) assms(3)] int128_get64_def)
  then show ?thesis using g by blast
qed

lemma page_section_cong: "phys_map d' = phys_map d \<Longrightarrow> nodes (disp_map d') = nodes (disp_map d) \<Longrightarrow> page_section l d' = page_section l d"
  unfolding page_section_def by (metis find_walk_nodes)

lemma dispatch_ok_cong:
  "phys_map d' = phys_map d \<Longrightarrow> nodes (disp_map d') = nodes (disp_map d) \<Longrightarrow> nodes_nb (disp_map d') = nodes_nb (disp_map d) \<Longrightarrow> dispatch_ok l d' = dispatch_ok l d"
  unfolding dispatch_ok_def using map_ok_nodes [of "disp_map d'" "disp_map d"] by metis

lemma find_is_page_section:
  assumes "dispatch_inv tpb d" "tpb \<le> 64" "0 \<le> a" "a < 18446744073709551616"
  shows "phys_page_find (P_L2_LEVELS tpb) tpb d a = page_section (P_L2_LEVELS tpb) d (nat (a div 2 ^ tpb))"
  using table_covers [of tpb "page_section (P_L2_LEVELS tpb) d" "sections (disp_map d)" "disp_subpages d" a] assms
  by (simp add: dispatch_inv_def phys_page_find_def page_section_def)

lemma page_of_section:
  assumes "sec_ok sec" "in_page tpb sec x"
  shows "nat (ms_offset_within_address_space sec div 2 ^ tpb) = x" "page_floor tpb (ms_offset_within_address_space sec) = int x * 2 ^ tpb"
    "int x * 2 ^ tpb < 18446744073709551616" "ms_offset_within_address_space sec mod 2 ^ tpb + ms_size sec \<le> 2 ^ tpb"
proof -
  let ?o = "ms_offset_within_address_space sec"
  have b: "int x * 2 ^ tpb \<le> ?o" "?o < int x * 2 ^ tpb + 2 ^ tpb" "0 \<le> ?o" using assms by (auto simp: in_page_def sec_ok_def)
  show 1: "nat (?o div 2 ^ tpb) = x" by (rule page_of_unique [OF b(1,2)])
  have "int x = ?o div 2 ^ tpb" using 1 b(3) by (metis div_int_pos_iff int_nat_eq zero_le_numeral zero_le_power)
  then have "?o mod 2 ^ tpb = ?o - int x * 2 ^ tpb" by (simp add: minus_div_mult_eq_mod)
  then show "page_floor tpb ?o = int x * 2 ^ tpb" "?o mod 2 ^ tpb + ms_size sec \<le> 2 ^ tpb" using assms(2) by (auto simp: page_floor_def in_page_def)
  show "int x * 2 ^ tpb < 18446744073709551616" using b assms(1) by (auto simp: sec_ok_def)
qed

lemma small_words:
  fixes q z :: int
  assumes "0 \<le> q" "0 < z" "q + z \<le> 65536"
  shows "int128_get64 z = Inr z" "ulong (q + z - 1) = q + z - 1" "uint32 (q + z - 1) = q + z - 1" "uint32 q = q"
  using assms by (simp_all add: int128_get64_def ulong_def uint32_def)

text \<open>The second half of \<open>register_subpage\<close>.\<close>

lemma register_subpage_with:
  assumes "sec_ok sec" "in_page tpb sec x" "tpb \<le> 16" "length (sections (disp_map d1)) < 2 ^ tpb"
    and "subpage_for rg l tpb (int x * 2 ^ tpb) s = Inr (k, d1, cs1)"
  shows "register_subpage rg l tpb sec s = Inr (d1\<lparr>disp_map := with_section sec (disp_map d1),
      disp_subpages := (disp_subpages d1)[k := enter tpb sec (length (sections (disp_map d1))) (disp_subpages d1 ! k)]\<rparr>, section_ref rg (ms_mr sec) cs1)"
proof -
  let ?st = "ms_offset_within_address_space sec mod 2 ^ tpb"
  note x = page_of_section [OF assms(1,2)]
  have "(2 :: int) ^ tpb \<le> 2 ^ 16" using assms(3) by (intro power_increasing) simp_all
  then have b: "?st + ms_size sec \<le> 65536" using x(4) by simp
  have st: "0 \<le> ?st" "0 < ms_size sec" using assms(1) by (simp_all add: sec_ok_def)
  have u: "int128_get64 (ms_size sec) = Inr (ms_size sec)" "ulong (?st + ms_size sec - 1) = ?st + ms_size sec - 1"
    "uint32 (?st + ms_size sec - 1) = ?st + ms_size sec - 1" "uint32 ?st = ?st"
    using small_words [OF st b] by simp_all
  show ?thesis
    unfolding register_subpage_def x(2) assms(5) by (simp add: u section_add [OF assms(4,3)] enter_def Let_def)
qed

lemma register_subpage_old:
  assumes "dispatch_inv tpb d" "tpb \<le> 16" "has_room tpb 1 d" "sec_ok sec" "in_page tpb sec x" "\<And>a. sec_contains sec a \<Longrightarrow> dispatch_target tpb d a = None"
    and nz: "page_section (P_L2_LEVELS tpb) d x \<noteq> 0"
  shows "\<exists>d' cs'. register_subpage rg (P_L2_LEVELS tpb) tpb sec (d, cs) = Inr (d', cs') \<and> grows tpb sec 1 d d'"
proof -
  let ?l = "P_L2_LEVELS tpb" and ?ss = "sections (disp_map d)" and ?sp = "disp_subpages d" and ?pg = "page_section (P_L2_LEVELS tpb) d"
  have inv: "dispatch_ok ?l d" "page_table_ok tpb ?pg ?ss ?sp" using assms(1) by (simp_all add: dispatch_inv_def)
  note x = page_of_section [OF assms(4,5)] and t = page_tableD [OF inv(2)]
  have room: "length ?ss < 2 ^ tpb" using assms(3) by (simp add: has_room_def)
  obtain k where k: "?pg x < length ?ss" "ms_mr (?ss ! ?pg x) = Subpage k" "k < length ?sp" "ms_offset_within_address_space (?ss ! ?pg x) = int x * 2 ^ tpb"
      "ms_size (?ss ! ?pg x) = 2 ^ tpb" "sp_base (?sp ! k) = int x * 2 ^ tpb"
  proof (cases rule: page_okD [OF t(3) [OF x(3)] nz])
    case (1 r)
    have "sec_contains sec (ms_offset_within_address_space sec)" using assms(4) by (simp add: sec_contains_def sec_ok_def)
    from assms(6) [OF this] have False using 1(2) x(1) by (simp add: dispatch_target_def target_of_def entry_of_def sec_target_def)
    then show thesis ..
  next
    case (2 k)
    show thesis by (rule that [OF 2])
  qed
  have "phys_page_find ?l tpb d (int x * 2 ^ tpb) = ?pg x"
    using find_is_page_section [OF assms(1) _ _ x(3)] assms(2) by simp
  then have sf: "subpage_for rg ?l tpb (int x * 2 ^ tpb) (d, cs) = Inr (k, d, cs)" using k(2) by (simp add: subpage_for_def)
  let ?q = "enter tpb sec (length ?ss) (?sp ! k)"
  let ?d = "d\<lparr>disp_map := with_section sec (disp_map d), disp_subpages := ?sp[k := ?q]\<rparr>"
  have entry: "entry_ok tpb ?ss (?sp ! k) i" if "i < 2 ^ tpb" for i using t(4) [OF k(3)] that unfolding subpage_ok_def by blast
  have old: "target_of tpb ?pg ?ss ?sp a = sec_target (?ss ! sub_section (?sp ! k) (nat (a mod 2 ^ tpb))) a" if "nat (a div 2 ^ tpb) = x" for a
    using that k(2) by (simp add: target_of_def entry_of_def)
  have free: "sub_section (?sp ! k) i = 0" if i: "i < 2 ^ tpb" and c: "sec_contains sec (sp_base (?sp ! k) + int i)" for i
  proof (rule ccontr)
    assume nz': "sub_section (?sp ! k) i \<noteq> 0"
    let ?a = "int x * 2 ^ tpb + int i"
    have "int i < 2 ^ tpb" using i by simp
    then have "nat (?a div 2 ^ tpb) = x" "nat (?a mod 2 ^ tpb) = i" using page_of_unique [of x tpb ?a] by simp_all
    then have "target_of tpb ?pg ?ss ?sp ?a \<noteq> None" using nz' entry [OF i] k(2) by (auto simp: target_of_def entry_of_def sec_target_def entry_ok_def sec_ok_def)
    then show False using assms(6) [of ?a] c k(6) by (simp add: dispatch_target_def)
  qed
  have others: "j < length ?sp \<and> ?sp[k := ?q] ! j = ?sp ! j" if "j < length (?sp[k := ?q])" "j \<noteq> k" for j using that by simp
  have "page_table_ok tpb ?pg (?ss @ [] @ [sec]) (?sp[k := ?q])" "adds_target tpb sec (target_of tpb ?pg ?ss ?sp) (target_of tpb ?pg (?ss @ [] @ [sec]) (?sp[k := ?q]))"
    by (rule table_grow_sub [OF inv(2) assms(4,5) x(3) k(6) entry free old]; use nz k others in simp)+
  moreover have "page_section ?l ?d = ?pg" "dispatch_ok ?l ?d"
    using inv(1) page_section_cong [of ?d d] dispatch_ok_cong [of ?d d] by simp_all
  ultimately have "grows tpb sec 1 d ?d" using assms(1) by (simp add: grows_def dispatch_inv_def dispatch_target_def)
  then show ?thesis using register_subpage_with [OF assms(4,5,2) room sf] by blast
qed

lemma subpage_init_eq: "subpage_init tpb base = \<lparr>sp_base = base, sub_section = (\<lambda>_. 0)\<rparr>"
  by (simp add: subpage_init_def subpage_register_def PHYS_SECTION_UNASSIGNED_def fun_eq_iff)

lemma register_subpage_new:
  assumes "dispatch_inv tpb d" "tpb \<le> 16" "has_room tpb 1 d" "sec_ok sec" "in_page tpb sec x" and z: "page_section (P_L2_LEVELS tpb) d x = 0"
  shows "\<exists>d' cs'. register_subpage rg (P_L2_LEVELS tpb) tpb sec (d, cs) = Inr (d', cs') \<and> grows tpb sec 1 d d'"
proof -
  let ?l = "P_L2_LEVELS tpb" and ?ss = "sections (disp_map d)" and ?sp = "disp_subpages d" and ?pg = "page_section (P_L2_LEVELS tpb) d"
  have inv: "dispatch_ok ?l d" "page_table_ok tpb ?pg ?ss ?sp" using assms(1) by (simp_all add: dispatch_inv_def)
  note x = page_of_section [OF assms(4,5)] and t = page_tableD [OF inv(2)]
  have room: "length ?ss + 2 \<le> 2 ^ tpb" "nodes_nb (disp_map d) + 3 * ?l \<le> PHYS_MAP_NODE_NIL" using assms(3) by (simp_all add: has_room_def)
  let ?k = "length ?sp" and ?p = "subpage_init tpb (int x * 2 ^ tpb)"
  define sub where "sub = \<lparr>ms_mr = Subpage ?k, ms_offset_within_region = 0, ms_size = 2 ^ tpb, ms_offset_within_address_space = int x * 2 ^ tpb, ms_readonly = False\<rparr>"
  define d1 where "d1 = d\<lparr>disp_map := with_section sub (disp_map d), disp_subpages := ?sp @ [?p]\<rparr>"
  have d1: "page_section ?l d1 = ?pg" "dispatch_ok ?l d1" "nodes_nb (disp_map d1) + 3 * ?l \<le> PHYS_MAP_NODE_NIL" "tpb \<le> 63"
    using inv(1) page_section_cong [of d1 d] dispatch_ok_cong [of d1 d] room assms(2) by (simp_all add: d1_def)
  have nz: "length ?ss \<noteq> 0" using t(1) by simp
  have "int (x + 1) * 2 ^ tpb \<le> 18446744073709551616" using page_end [OF space_pages x(3)] assms(2) by (simp add: algebra_simps)
  moreover have "page_section ?l d1 y = 0" if "x \<le> y" "y < x + 1" for y
  proof -
    have "y = x" using that by simp
    then show ?thesis using z d1(1) by simp
  qed
  ultimately obtain d2 where d2: "phys_page_set ?l d1 x 1 (length ?ss) = Inr d2" "dispatch_ok ?l d2" "nodes_nb (disp_map d2) \<le> nodes_nb (disp_map d1) + (2 * ?l - 1)"
      "sections (disp_map d2) = ?ss @ [sub]" "disp_subpages d2 = ?sp @ [?p]" "mru_section d2 = mru_section d"
      and pg0: "\<And>y. y < 512 ^ ?l \<Longrightarrow> page_section ?l d2 y = (if x \<le> y \<and> y < x + 1 then length ?ss else page_section ?l d1 y)"
    using set_pages [OF d1(2,4) nz _ d1(3), of x 1] unfolding d1_def by (simp add: d1_def) metis
  note pg2 = pg0 [OF levels_enough [OF d1(4)]]
  have small: "page_section ?l d2 y < 65536 \<and> (page_section ?l d2 y \<noteq> 0 \<longrightarrow> int y * 2 ^ tpb < 18446744073709551616)" if y: "y < 512 ^ ?l" for y
  proof (cases "y = x")
    case True
    then show ?thesis using pg2 [OF x(3)] section_count [of "length ?ss" tpb] room(1) assms(2) x(3) by simp
  next
    case False
    then have "page_section ?l d2 y = ?pg y" using pg0 [OF y] d1(1) by auto
    then show ?thesis using assms(1) y by (simp add: dispatch_inv_def)
  qed
  have "phys_page_find ?l tpb d (int x * 2 ^ tpb) = 0"
    using find_is_page_section [OF assms(1) _ _ x(3)] assms(2) z by simp
  then have sf: "subpage_for rg ?l tpb (int x * 2 ^ tpb) (d, cs) = Inr (?k, d2, section_ref rg (Subpage ?k) cs)"
    using t(2) d2(1) room(1) section_add [of "disp_map d" tpb rg sub cs] assms(2)
    by (simp add: subpage_for_def unassigned_section_def sub_def [symmetric] Let_def d1_def) (simp add: sub_def)
  let ?q = "enter tpb sec (length (?ss @ [sub])) ?p"
  let ?d = "d2\<lparr>disp_map := with_section sec (disp_map d2), disp_subpages := (?sp @ [?p])[?k := ?q]\<rparr>"
  have pgx: "page_section ?l d2 x = length ?ss" using pg2 [OF x(3)] by simp
  have pgy: "page_section ?l d2 y = ?pg y" if "int y * 2 ^ tpb < 18446744073709551616" "y \<noteq> x \<or> ?pg y \<noteq> 0" for y
    using pg2 [OF that(1)] that(2) z d1(1) by auto
  have p: "sp_base ?p = int x * 2 ^ tpb" "sub_section ?p i = 0" for i by (simp_all add: subpage_init_eq)
  have old: "target_of tpb ?pg ?ss ?sp a = sec_target (?ss ! sub_section ?p (nat (a mod 2 ^ tpb))) a" if "nat (a div 2 ^ tpb) = x" for a
    using that z t(2) by (simp add: target_of_def entry_of_def p unassigned_section_def)
  have others: "j < length ?sp \<and> (?sp @ [?q]) ! j = ?sp ! j" if "j < length (?sp @ [?q])" "j \<noteq> ?k" for j using that by (simp add: nth_append)
  have "page_table_ok tpb (page_section ?l d2) (?ss @ [sub] @ [sec]) (?sp @ [?q])"
    "adds_target tpb sec (target_of tpb ?pg ?ss ?sp) (target_of tpb (page_section ?l d2) (?ss @ [sub] @ [sec]) (?sp @ [?q]))"
    by (rule table_grow_sub [OF inv(2) assms(4,5) x(3) p(1) _ _ old pgy, where zs = "[sub]" and k = ?k]; use p(2) pgx nz others in \<open>simp add: sub_def entry_ok_def\<close>)+
  moreover have "page_section ?l ?d = page_section ?l d2" "dispatch_ok ?l ?d"
    using d2(2) page_section_cong [of ?d d2] dispatch_ok_cong [of ?d d2] by simp_all
  ultimately have "grows tpb sec 1 d ?d" using d2(3,4,6) small by (simp add: grows_def dispatch_inv_def dispatch_target_def d1_def)
  moreover have "length (sections (disp_map d2)) < 2 ^ tpb" using room(1) d2(4) by simp
  ultimately show ?thesis using register_subpage_with [OF assms(4,5,2) _ sf] d2(4,5) by simp
qed

lemma register_subpage_grows:
  assumes "dispatch_inv tpb d" "tpb \<le> 16" "has_room tpb 1 d" "sec_ok sec" "in_page tpb sec x" "\<And>a. sec_contains sec a \<Longrightarrow> dispatch_target tpb d a = None"
  shows "\<exists>d' cs'. register_subpage rg (P_L2_LEVELS tpb) tpb sec (d, cs) = Inr (d', cs') \<and> grows tpb sec 1 d d'"
  using register_subpage_old [OF assms] register_subpage_new [OF assms(1-5)] by blast

section \<open>Adding a section\<close>

definition rest_of :: "int \<Rightarrow> MemoryRegionSection \<Rightarrow> MemoryRegionSection" where
  "rest_of n sec = sec\<lparr>ms_size := ms_size sec - n, ms_offset_within_address_space := ms_offset_within_address_space sec + n,
     ms_offset_within_region := ulong (ms_offset_within_region sec + n)\<rparr>"

lemma skip_piece_ok:
  assumes "sec_ok sec" "0 \<le> n" "n < ms_size sec"
  shows "skip_piece n sec = Inr (rest_of n sec)" "sec_ok (rest_of n sec)" "sec_target (rest_of n sec) = sec_target sec"
    "sec_contains (rest_of n sec) a \<longleftrightarrow> sec_contains sec a \<and> ms_offset_within_address_space sec + n \<le> a"
proof -
  have "n < 18446744073709551616" "ms_offset_within_address_space sec + n < 18446744073709551616" "0 \<le> ms_offset_within_address_space sec" using assms by (auto simp: sec_ok_def)
  then show "skip_piece n sec = Inr (rest_of n sec)" using assms(2) by (simp add: skip_piece_def int128_get64_def ulong_def rest_of_def)
  show "sec_ok (rest_of n sec)" using assms by (auto simp: sec_ok_def rest_of_def)
  have "ulong (b - (off + n) + ulong (c + n)) = ulong (b - off + c)" for b off c
    unfolding ulong_def mod_add_right_eq by (simp add: algebra_simps)
  then show "sec_target (rest_of n sec) = sec_target sec" by (auto simp: sec_target_def rest_of_def fun_eq_iff split: section_mr.splits)
  show "sec_contains (rest_of n sec) a \<longleftrightarrow> sec_contains sec a \<and> ms_offset_within_address_space sec + n \<le> a" using assms(2) by (auto simp: sec_contains_def rest_of_def)
qed

lemma sec_target_size [simp]: "sec_target (sec\<lparr>ms_size := n\<rparr>) = sec_target sec"
  by (auto simp: sec_target_def fun_eq_iff split: section_mr.splits)

lemma grows_mono: "grows tpb sec i d d' \<Longrightarrow> i \<le> j \<Longrightarrow> grows tpb sec j d d'"
  by (auto simp: grows_def elim!: order_trans)

lemma grows_trans:
  assumes "grows tpb (sec\<lparr>ms_size := n\<rparr>) i d d1" "grows tpb r j d1 d2" "skip_piece n sec = Inr r" "sec_ok sec" "0 \<le> n" "n < ms_size sec"
  shows "grows tpb sec (i + j) d d2"
proof -
  have r: "sec_target r = sec_target sec" "\<And>a. sec_contains r a \<longleftrightarrow> sec_contains sec a \<and> ms_offset_within_address_space sec + n \<le> a"
    using skip_piece_ok [OF assms(4-6)] assms(3) by simp_all
  have c: "sec_contains sec a \<longleftrightarrow> sec_contains (sec\<lparr>ms_size := n\<rparr>) a \<or> sec_contains r a" for a
    unfolding r(2) using assms(6) by (auto simp: sec_contains_def)
  have "adds_target tpb sec (dispatch_target tpb d) (dispatch_target tpb d2)"
    using assms(1,2) c r(1) by (auto simp: grows_def adds_target_def)
  moreover have "3 * (i + j) * P_L2_LEVELS tpb = 3 * i * P_L2_LEVELS tpb + 3 * j * P_L2_LEVELS tpb" by (simp add: algebra_simps)
  ultimately show ?thesis using assms(1,2) by (simp add: grows_def)
qed

lemma grows_none:
  assumes "grows tpb (sec\<lparr>ms_size := n\<rparr>) i d d1" "skip_piece n sec = Inr r" "sec_ok sec" "0 \<le> n" "n < ms_size sec"
    and "\<And>a. sec_contains sec a \<Longrightarrow> dispatch_target tpb d a = None"
  shows "sec_contains r a \<Longrightarrow> dispatch_target tpb d1 a = None"
proof -
  assume a: "sec_contains r a"
  then have s: "sec_contains sec a" "ms_offset_within_address_space sec + n \<le> a" using skip_piece_ok [OF assms(3-5)] assms(2) by simp_all
  have "0 \<le> a \<and> a < 18446744073709551616" using s(1) assms(3) by (auto simp: sec_contains_def sec_ok_def)
  moreover have "\<not> sec_contains (sec\<lparr>ms_size := n\<rparr>) a" using s(2) by (simp add: sec_contains_def)
  ultimately show "dispatch_target tpb d1 a = None" using assms(1) assms(6) [OF s(1)] by (simp add: grows_def adds_target_def)
qed

lemma has_room_after: "grows tpb sec i d d' \<Longrightarrow> has_room tpb (i + j) d \<Longrightarrow> has_room tpb j d'"
proof -
  assume g: "grows tpb sec i d d'" and h: "has_room tpb (i + j) d"
  have "3 * (i + j) * P_L2_LEVELS tpb = 3 * i * P_L2_LEVELS tpb + 3 * j * P_L2_LEVELS tpb" by (simp add: algebra_simps)
  then show ?thesis using g h by (simp add: grows_def has_room_def)
qed

lemma has_room_mono: "has_room tpb k d \<Longrightarrow> j \<le> k \<Longrightarrow> has_room tpb j d"
  by (auto simp: has_room_def elim!: order_trans [rotated])

lemma aligned_in_page:
  assumes "sec_ok r" "2 ^ tpb dvd ms_offset_within_address_space r" "ms_size r \<le> 2 ^ tpb"
  shows "in_page tpb r (nat (ms_offset_within_address_space r div 2 ^ tpb))"
proof -
  obtain k where k: "ms_offset_within_address_space r = 2 ^ tpb * k" using assms(2) by (elim dvdE)
  then have "0 \<le> k" using assms(1) by (simp add: sec_ok_def zero_le_mult_iff)
  then show ?thesis using assms(3) by (simp add: in_page_def k algebra_simps)
qed

lemma last_piece:
  assumes "dispatch_inv tpb d" "tpb \<le> 16" "has_room tpb 1 d" "skip_piece n remain = Inr r" "ms_size remain \<noteq> n"
    and r: "sec_ok r" "2 ^ tpb dvd ms_offset_within_address_space r" "ms_size r < 2 ^ tpb" "\<And>a. sec_contains r a \<Longrightarrow> dispatch_target tpb d a = None"
  shows "\<exists>d' cs'. add_loop rg (P_L2_LEVELS tpb) tpb remain n (d, cs) = Inr (d', cs') \<and> grows tpb r 1 d d'"
proof -
  have ip: "in_page tpb r (nat (ms_offset_within_address_space r div 2 ^ tpb))" by (rule aligned_in_page) (use r in auto)
  obtain d' cs' where g: "register_subpage rg (P_L2_LEVELS tpb) tpb r (d, cs) = Inr (d', cs')" "grows tpb r 1 d d'"
    using register_subpage_grows [OF assms(1-3) r(1) ip r(4)] by blast
  have p: "piece_size tpb r = ms_size r" using r(3) by (simp add: piece_size_def)
  have "register_piece rg (P_L2_LEVELS tpb) tpb r (d, cs) = Inr (d', cs')" using g(1) r(3) by (simp add: register_piece_def p Let_def)
  moreover have "add_loop rg (P_L2_LEVELS tpb) tpb r (ms_size r) (d', cs') = Inr (d', cs')" by (subst add_loop.simps) simp
  ultimately have "add_loop rg (P_L2_LEVELS tpb) tpb remain n (d, cs) = Inr (d', cs')"
    using assms(4,5) by (subst add_loop.simps) (simp add: p)
  then show ?thesis using g(2) by blast
qed

lemma floor_facts:
  "2 ^ tpb dvd page_floor tpb z" "page_floor tpb z \<le> z" "z - page_floor tpb z < 2 ^ tpb"
proof -
  show "2 ^ tpb dvd page_floor tpb z" by (simp add: page_floor_def minus_mod_eq_mult_div)
  show "page_floor tpb z \<le> z" "z - page_floor tpb z < 2 ^ tpb" using page_mod [where a = z and tpb = tpb] unfolding page_floor_def by linarith+
qed

lemma aligned_pieces:
  assumes "dispatch_inv tpb d" "1 \<le> tpb" "tpb \<le> 16" "has_room tpb 2 d" "skip_piece n remain = Inr r" "ms_size remain \<noteq> n"
    and r: "sec_ok r" "2 ^ tpb dvd ms_offset_within_address_space r" "\<And>a. sec_contains r a \<Longrightarrow> dispatch_target tpb d a = None"
  shows "\<exists>d' cs'. add_loop rg (P_L2_LEVELS tpb) tpb remain n (d, cs) = Inr (d', cs') \<and> grows tpb r 2 d d'"
proof (cases "ms_size r < 2 ^ tpb")
  case True
  from last_piece [OF assms(1,3) has_room_mono [OF assms(4)] assms(5,6) r(1,2) True r(3)] show ?thesis using grows_mono by fastforce
next
  case False
  let ?f = "page_floor tpb (ms_size r)" and ?l = "P_L2_LEVELS tpb"
  let ?now = "r\<lparr>ms_size := ?f\<rparr>"
  note f = floor_facts [where tpb = tpb and z = "ms_size r"]
  have pos: "0 < ?f" using False f(3) by linarith
  have now: "sec_ok ?now" "whole_pages tpb ?now" "\<And>a. sec_contains ?now a \<Longrightarrow> dispatch_target tpb d a = None"
    using r pos f by (auto simp: sec_ok_def whole_pages_def sec_contains_def)
  obtain d1 cs1 where g: "register_multipage rg ?l tpb ?now (d, cs) = Inr (d1, cs1)" "grows tpb ?now 1 d d1"
    using register_multipage_grows [OF assms(1-3) has_room_mono [OF assms(4)] now] by fastforce
  have al: "ms_offset_within_address_space r mod 2 ^ tpb = 0" using r(2) by simp
  have p: "piece_size tpb r = ?f" using False al by (simp add: piece_size_def)
  have "register_piece rg ?l tpb r (d, cs) = Inr (d1, cs1)" using g(1) False al by (simp add: register_piece_def p Let_def)
  then have step: "add_loop rg ?l tpb remain n (d, cs) = add_loop rg ?l tpb r ?f (d1, cs1)" using assms(5,6) by (subst add_loop.simps) (simp add: p)
  show ?thesis
  proof (cases "ms_size r = ?f")
    case True
    have "add_loop rg ?l tpb r ?f (d1, cs1) = Inr (d1, cs1)" using True by (subst add_loop.simps) simp
    moreover have "grows tpb r 1 d d1" using g(2) True by simp
    ultimately show ?thesis using step grows_mono [of tpb r 1 d d1 2] by auto
  next
    case False
    have lt: "0 \<le> ?f" "?f < ms_size r" using f(2) False pos by simp_all
    note sk = skip_piece_ok [OF r(1) lt]
    have al2: "2 ^ tpb dvd ms_offset_within_address_space (rest_of ?f r)" using r(2) f(1) by (simp add: rest_of_def)
    have small: "ms_size (rest_of ?f r) < 2 ^ tpb" using f(3) by (simp add: rest_of_def)
    have inv1: "dispatch_inv tpb d1" using g(2) by (simp add: grows_def)
    have room1: "has_room tpb 1 d1" by (rule has_room_after [OF g(2)]) (use assms(4) in \<open>simp add: numeral_2_eq_2\<close>)
    obtain d2 cs2 where w: "add_loop rg ?l tpb r ?f (d1, cs1) = Inr (d2, cs2)" "grows tpb (rest_of ?f r) 1 d1 d2"
      using last_piece [OF inv1 assms(3) room1 sk(1) False sk(2) al2 small grows_none [OF g(2) sk(1) r(1) lt r(3)]] by blast
    have "grows tpb r (1 + 1) d d2" by (rule grows_trans [OF g(2) w(2) sk(1) r(1) lt])
    then show ?thesis using step w(1) by (simp add: numeral_2_eq_2)
  qed
qed

text \<open>What is left of the first page.\<close>

lemma left_of_page:
  assumes "0 \<le> a" "a < 18446744073709551616" "a mod 2 ^ tpb \<noteq> 0" "tpb \<le> 63"
  shows "ulong (page_floor tpb (ulong (a + 2 ^ tpb - 1)) - a) = 2 ^ tpb - a mod 2 ^ tpb"
proof -
  let ?P = "2 ^ tpb :: int"
  have P: "?P \<le> 9223372036854775808" using power_increasing [of tpb 63 "2 :: int"] assms(4) by simp
  have m: "0 < a mod ?P" "a mod ?P < ?P" using assms(3) page_mod [where a = a and tpb = tpb] by linarith+
  have e: "(a + ?P - 1) mod ?P = a mod ?P - 1"
  proof -
    have "(a + ?P - 1) mod ?P = (a mod ?P - 1) mod ?P" by (metis add_diff_eq diff_add_eq mod_add_self2 mod_diff_left_eq)
    then show ?thesis using m by simp
  qed
  have v: "ulong (?P - a mod ?P) = ?P - a mod ?P" unfolding ulong_def by (intro mod_pos_pos_trivial) (use m P in linarith)+
  have fl: "page_floor tpb (a + ?P - 1) = a - a mod ?P + ?P" unfolding page_floor_def e by simp
  show ?thesis
  proof (cases "a + ?P - 1 < 18446744073709551616")
    case True
    have "0 < ?P" by simp
    then have "ulong (a + ?P - 1) = a + ?P - 1" unfolding ulong_def using assms(1) True by (intro mod_pos_pos_trivial) linarith+
    then show ?thesis using fl v by simp
  next
    case False
    have u: "ulong (a + ?P - 1) = a + ?P - 1 - 18446744073709551616" using False assms(2) P by (simp add: ulong_def mod_pos_geq)
    have "?P dvd 18446744073709551616" using space_pages assms(4) by simp
    then have mm: "(z - 18446744073709551616) mod ?P = z mod ?P" for z by (metis diff_zero dvd_imp_mod_0 mod_diff_right_eq)
    have "page_floor tpb (a + ?P - 1 - 18446744073709551616) = a - a mod ?P + ?P - 18446744073709551616"
      using fl mm [of "a + ?P - 1"] unfolding page_floor_def by linarith
    then have "page_floor tpb (ulong (a + ?P - 1)) - a = ?P - a mod ?P - 18446744073709551616" unfolding u by simp
    moreover have "ulong (?P - a mod ?P - 18446744073709551616) = ulong (?P - a mod ?P)" by (simp add: ulong_def)
    ultimately show ?thesis using v by simp
  qed
qed

lemma flatview_add_grows:
  assumes "dispatch_inv tpb d" "1 \<le> tpb" "tpb \<le> 16" "has_room tpb 3 d" "sec_ok sec" "\<And>a. sec_contains sec a \<Longrightarrow> dispatch_target tpb d a = None"
  shows "\<exists>d' cs'. flatview_add_to_dispatch rg (P_L2_LEVELS tpb) tpb sec (d, cs) = Inr (d', cs') \<and> grows tpb sec 3 d d'"
proof (cases "ms_offset_within_address_space sec mod 2 ^ tpb = 0")
  case True
  then have al: "2 ^ tpb dvd ms_offset_within_address_space sec" by (simp add: dvd_eq_mod_eq_0)
  have pos: "0 \<le> (0 :: int)" "0 < ms_size sec" using assms(5) by (simp_all add: sec_ok_def)
  note sk = skip_piece_ok [OF assms(5) pos]
  have al0: "2 ^ tpb dvd ms_offset_within_address_space (rest_of 0 sec)" using al by (simp add: rest_of_def)
  have room2: "has_room tpb 2 d" by (rule has_room_mono [OF assms(4)]) simp
  have ne: "ms_size sec \<noteq> 0" and none: "\<And>a. sec_contains (rest_of 0 sec) a \<Longrightarrow> dispatch_target tpb d a = None" using pos sk(4) assms(6) by auto
  obtain d' cs' where w: "add_loop rg (P_L2_LEVELS tpb) tpb sec 0 (d, cs) = Inr (d', cs')" "grows tpb (rest_of 0 sec) 2 d d'"
    using aligned_pieces [OF assms(1-3) room2 sk(1) ne sk(2) al0 none] by blast
  have "sec_contains (rest_of 0 sec) a \<longleftrightarrow> sec_contains sec a" for a by (simp add: rest_of_def sec_contains_def)
  then have "grows tpb sec 2 d d'" using w(2) sk(3) by (simp add: grows_def adds_target_def)
  then show ?thesis using w(1) True grows_mono [of tpb sec 2 d d' 3] by (auto simp: flatview_add_to_dispatch_def)
next
  case False
  let ?o = "ms_offset_within_address_space sec" and ?l = "P_L2_LEVELS tpb"
  define lp where "lp = 2 ^ tpb - ?o mod 2 ^ tpb"
  have o: "0 \<le> ?o" "?o < 18446744073709551616" using assms(5) by (auto simp: sec_ok_def)
  have left: "ulong (page_floor tpb (ulong (?o + 2 ^ tpb - 1)) - ?o) = lp" using left_of_page [OF o False] assms(3) by (simp add: lp_def)
  let ?x = "nat (?o div 2 ^ tpb)" and ?n = "min lp (ms_size sec)" and ?now = "sec\<lparr>ms_size := min lp (ms_size sec)\<rparr>"
  note x = page_of_addr [OF o(1), of tpb]
  have lp: "0 < lp" "?o + lp = int ?x * 2 ^ tpb + 2 ^ tpb" using x page_mod [where a = ?o and tpb = tpb] o(1) unfolding lp_def by auto
  have now: "sec_ok ?now" "in_page tpb ?now ?x" "\<And>a. sec_contains ?now a \<Longrightarrow> dispatch_target tpb d a = None"
    using assms(5,6) lp x(1) by (auto simp: sec_ok_def in_page_def sec_contains_def)
  obtain d1 cs1 where g: "register_subpage rg ?l tpb ?now (d, cs) = Inr (d1, cs1)" "grows tpb ?now 1 d d1"
    using register_subpage_grows [OF assms(1,3) has_room_mono [OF assms(4)] now] by fastforce
  have step: "flatview_add_to_dispatch rg ?l tpb sec (d, cs) = add_loop rg ?l tpb sec ?n (d1, cs1)"
    using False g(1) by (simp add: flatview_add_to_dispatch_def left Let_def)
  show ?thesis
  proof (cases "ms_size sec \<le> lp")
    case True
    have "add_loop rg ?l tpb sec ?n (d1, cs1) = Inr (d1, cs1)" using True by (subst add_loop.simps) simp
    moreover have "grows tpb sec 1 d d1" using g(2) True by (simp add: min_absorb2)
    ultimately show ?thesis using step grows_mono [of tpb sec 1 d d1 3] by auto
  next
    case c: False
    then have n: "?n = lp" "0 \<le> lp" "lp < ms_size sec" using lp(1) by simp_all
    note sk = skip_piece_ok [OF assms(5) n(2,3)] and g' = g(2) [unfolded n(1)]
    have al: "2 ^ tpb dvd ms_offset_within_address_space (rest_of lp sec)" by (simp add: rest_of_def lp(2))
    have inv1: "dispatch_inv tpb d1" using g' by (simp add: grows_def)
    have room1: "has_room tpb 2 d1" by (rule has_room_after [OF g']) (use assms(4) in \<open>simp add: numeral_3_eq_3\<close>)
    have ne: "ms_size sec \<noteq> lp" using n(3) by simp
    obtain d2 cs2 where w: "add_loop rg ?l tpb sec lp (d1, cs1) = Inr (d2, cs2)" "grows tpb (rest_of lp sec) 2 d1 d2"
      using aligned_pieces [OF inv1 assms(2,3) room1 sk(1) ne sk(2) al grows_none [OF g' sk(1) assms(5) n(2,3) assms(6)]] by blast
    have "grows tpb sec (1 + 2) d d2" by (rule grows_trans [OF g' w(2) sk(1) assms(5) n(2,3)])
    then show ?thesis using step w(1) n(1) by (simp add: numeral_3_eq_3)
  qed
qed

end
