(* ===== verification/Phys_Compact.thy ===== *)
theory Phys_Compact
  imports Phys_Map
begin

text \<open>
  Compacting the page map (\<open>qemu-diff/exec.c\<close>, \<open>phys_page_compact\<close>, \<open>address_space_dispatch_compact\<close>): an entry whose node has a
  single child is replaced by an entry that skips the node. The recursion follows the tree, so the model
  takes fuel and returns None without it; one more than the level of the root is enough.

  After it the walk may end at the wrong section for a page that was unassigned, because skipped index bits
  are not compared any more. It never ends at a wrong section for an assigned page, and what it finds for an
  unassigned page is the section of some other page, which the last check of \<open>phys_page_find\<close> rejects.
\<close>

section \<open>Model\<close>

text \<open>The loop over the slots of node \<open>n\<close>: \<open>valid_ptr\<close> and \<open>valid\<close> are the last slot in use and the number of slots in use.\<close>

fun compact_slots :: "(PhysPageEntry \<Rightarrow> PhysPageMap \<Rightarrow> (PhysPageEntry \<times> PhysPageMap) option) \<Rightarrow> nat \<Rightarrow> nat list
    \<Rightarrow> nat \<times> nat \<times> PhysPageMap \<Rightarrow> (nat \<times> nat \<times> PhysPageMap) option" where
  "compact_slots g n [] s = Some s"
| "compact_slots g n (i # is) (valid_ptr, valid, m) =
     (let e = nodes m n i in
      if pe_ptr e = PHYS_MAP_NODE_NIL then compact_slots g n is (valid_ptr, valid, m)
      else if pe_skip e \<noteq> 0
      then (case g e m of
              None \<Rightarrow> None
            | Some (e', m') \<Rightarrow> compact_slots g n is (i, valid + 1, set_slot n i e' m'))
      else compact_slots g n is (i, valid + 1, m))"

definition merge_entry :: "PhysPageEntry \<Rightarrow> PhysPageEntry \<Rightarrow> PhysPageEntry" where
  "merge_entry lp c =
     (if pe_skip lp + pe_skip c \<ge> 8 then lp
      else if pe_skip c = 0 then \<lparr>pe_skip = 0, pe_ptr = pe_ptr c\<rparr> else \<lparr>pe_skip = pe_skip lp + pe_skip c, pe_ptr = pe_ptr c\<rparr>)"

fun phys_page_compact :: "nat \<Rightarrow> PhysPageEntry \<Rightarrow> PhysPageMap \<Rightarrow> (PhysPageEntry \<times> PhysPageMap) option" where
  "phys_page_compact 0 lp m = None"
| "phys_page_compact (Suc fuel) lp m =
     (if pe_ptr lp = PHYS_MAP_NODE_NIL then Some (lp, m)
      else case compact_slots (phys_page_compact fuel) (pe_ptr lp) [0..<P_L2_SIZE] (P_L2_SIZE, 0, m) of
          None \<Rightarrow> None
        | Some (valid_ptr, valid, m') \<Rightarrow> Some (if valid = 1 then merge_entry lp (nodes m' (pe_ptr lp) valid_ptr) else lp, m'))"

definition address_space_dispatch_compact :: "nat \<Rightarrow> AddressSpaceDispatch \<Rightarrow> AddressSpaceDispatch option" where
  "address_space_dispatch_compact fuel d =
     (if pe_skip (phys_map d) = 0 then Some d
      else map_option (\<lambda>(e, m). d\<lparr>phys_map := e, disp_map := m\<rparr>) (phys_page_compact fuel (phys_map d) (disp_map d)))"

section \<open>Trees with skips\<close>

definition within :: "(nat \<Rightarrow> nat \<times> nat) \<Rightarrow> nat \<Rightarrow> nat \<Rightarrow> nat \<Rightarrow> bool" where
  "within own k f w \<longleftrightarrow> f \<le> snd (own k) \<and> snd (own k) + 512 ^ (fst (own k) + 1) \<le> f + w"

text \<open>An entry that stands for the \<open>512 ^ l\<close> pages from \<open>f\<close> on.\<close>

definition cslot_ok :: "(nat \<Rightarrow> nat \<times> nat) \<Rightarrow> nat \<Rightarrow> nat \<Rightarrow> nat \<Rightarrow> PhysPageEntry \<Rightarrow> bool" where
  "cslot_ok own nb l f e \<longleftrightarrow> pe_skip e = 0 \<or> pe_skip e \<le> l
     \<and> (pe_ptr e = PHYS_MAP_NODE_NIL \<or> pe_ptr e < nb \<and> fst (own (pe_ptr e)) = l - pe_skip e \<and> within own (pe_ptr e) f (512 ^ l))"

definition cmap_ok :: "(nat \<Rightarrow> nat \<times> nat) \<Rightarrow> PhysPageMap \<Rightarrow> bool" where
  "cmap_ok own m \<longleftrightarrow> (\<forall>n<nodes_nb m. \<forall>i<512. cslot_ok own (nodes_nb m) (fst (own n)) (snd (own n) + i * 512 ^ fst (own n)) (nodes m n i))"

lemma slot_cslot:
  assumes "slot_ok own nb l f e"
  shows "cslot_ok own nb l f e"
proof (cases "pe_skip e = 0 \<or> pe_ptr e = PHYS_MAP_NODE_NIL")
  case True
  then show ?thesis using assms by (auto simp: slot_ok_def cslot_ok_def split: if_splits)
next
  case False
  then have "pe_skip e = 1" "0 < l" "pe_ptr e < nb" "own (pe_ptr e) = (l - 1, f)" using assms by (auto simp: slot_ok_def split: if_splits)
  then show ?thesis by (cases l) (auto simp: cslot_ok_def within_def)
qed

lemma map_cmap: "map_ok own m \<Longrightarrow> cmap_ok own m"
  by (simp add: map_ok_def cmap_ok_def slot_cslot)

lemma within_slot:
  assumes "i < 512" "within own k (snd (own n) + i * 512 ^ fst (own n)) (512 ^ fst (own n))"
  shows "within own k (snd (own n)) (512 ^ (fst (own n) + 1))"
proof -
  have "i * 512 ^ fst (own n) + 512 ^ fst (own n) \<le> 512 * 512 ^ fst (own n)"
    using mult_le_mono1 [of "i + 1" 512 "512 ^ fst (own n)"] assms(1) by simp
  moreover have "512 ^ (fst (own n) + 1) = 512 * (512 :: nat) ^ fst (own n)" by simp
  ultimately show ?thesis using assms(2) unfolding within_def by linarith
qed

lemma within_trans: "within own k f w \<Longrightarrow> f' \<le> f \<Longrightarrow> f + w \<le> f' + w' \<Longrightarrow> within own k f' w'"
  by (simp add: within_def)

text \<open>A walk from an entry reads only nodes within the pages the entry stands for.\<close>

lemma walk_frame:
  assumes "cmap_ok own m" "cslot_ok own (nodes_nb m) l f e" "\<And>k. k < nodes_nb m \<Longrightarrow> within own k f (512 ^ l) \<Longrightarrow> nodes m' k = nodes m k"
  shows "find_walk m' x l e = find_walk m x l e"
  using assms(2,3)
proof (induction l arbitrary: e f rule: less_induct)
  case (less l)
  show ?case
  proof (cases "pe_skip e = 0 \<or> pe_ptr e = PHYS_MAP_NODE_NIL")
    case True
    then show ?thesis using less.prems(1) by (cases "pe_skip e = 0") (auto simp: cslot_ok_def)
  next
    case False
    let ?p = "pe_ptr e" and ?i = "x div 512 ^ (l - pe_skip e) mod 512"
    have e: "0 < pe_skip e" "pe_skip e \<le> l" "?p < nodes_nb m" "fst (own ?p) = l - pe_skip e" "within own ?p f (512 ^ l)" "?p \<noteq> PHYS_MAP_NODE_NIL"
      using less.prems(1) False by (auto simp: cslot_ok_def)
    have nd: "nodes m' ?p = nodes m ?p" by (rule less.prems(2) [OF e(3,5)])
    have i: "?i < 512" by simp
    have c: "cslot_ok own (nodes_nb m) (l - pe_skip e) (snd (own ?p) + ?i * 512 ^ (l - pe_skip e)) (nodes m ?p ?i)"
      using assms(1) e(3,4) i unfolding cmap_ok_def by metis
    have "find_walk m' x (l - pe_skip e) (nodes m ?p ?i) = find_walk m x (l - pe_skip e) (nodes m ?p ?i)"
    proof (rule less.IH [OF _ c])
      show "l - pe_skip e < l" using e(1,2) by simp
      fix k assume k: "k < nodes_nb m" "within own k (snd (own ?p) + ?i * 512 ^ (l - pe_skip e)) (512 ^ (l - pe_skip e))"
      have "within own k (snd (own ?p)) (512 ^ (fst (own ?p) + 1))" by (rule within_slot [OF i]) (use k(2) e(4) in simp)
      then have "within own k f (512 ^ l)" using e(5) by (auto simp: within_def)
      then show "nodes m' k = nodes m k" by (rule less.prems(2) [OF k(1)])
    qed
    then show ?thesis using e nd by (simp add: find_walk.simps [of m' x l e] find_walk.simps [of m x l e] P_L2_SIZE_def)
  qed
qed

text \<open>A walk over \<open>l\<close> levels looks only at the page number modulo \<open>512 ^ l\<close>.\<close>

lemma walk_mod:
  assumes "x mod 512 ^ l = y mod 512 ^ l"
  shows "find_walk m x l e = find_walk m y l e"
  using assms
proof (induction l arbitrary: e rule: less_induct)
  case (less l)
  show ?case
  proof (cases "pe_skip e \<noteq> 0 \<and> pe_skip e \<le> l \<and> pe_ptr e \<noteq> PHYS_MAP_NODE_NIL")
    case False
    then show ?thesis by (auto simp: find_walk.simps [of m x l e] find_walk.simps [of m y l e])
  next
    case True
    let ?j = "l - pe_skip e"
    have j: "?j < l" using True by simp
    have md: "z mod 512 ^ Suc ?j = z mod 512 ^ l mod 512 ^ Suc ?j" for z :: nat
      using j by (simp only: mod_mod_cancel le_imp_power_dvd Suc_le_eq)
    have "x mod 512 ^ Suc ?j = y mod 512 ^ Suc ?j" using less.prems md by metis
    moreover have "z div 512 ^ ?j mod 512 = z mod 512 ^ Suc ?j div 512 ^ ?j" for z :: nat
      by (simp add: mod_mult2_eq mult.commute [of 512] div_mult_self2)
    ultimately have ix: "x div 512 ^ ?j mod 512 = y div 512 ^ ?j mod 512" by metis
    have "z mod 512 ^ ?j = z mod 512 ^ l mod 512 ^ ?j" for z :: nat using j by (simp only: mod_mod_cancel le_imp_power_dvd less_imp_le)
    then have "x mod 512 ^ ?j = y mod 512 ^ ?j" using less.prems by metis
    then show ?thesis using less.IH [OF j] ix True by (simp add: find_walk.simps [of m x l e] find_walk.simps [of m y l e] P_L2_SIZE_def)
  qed
qed

section \<open>What compacting keeps\<close>

text \<open>Between \<open>f\<close> and \<open>f + w\<close> the walk from \<open>e'\<close> in \<open>m'\<close> finds what the walk from \<open>e\<close> in \<open>m\<close> finds, or, where that is unassigned, what it finds
  for another page.\<close>

definition approx :: "nat \<Rightarrow> nat \<Rightarrow> nat \<Rightarrow> PhysPageMap \<Rightarrow> PhysPageEntry \<Rightarrow> PhysPageMap \<Rightarrow> PhysPageEntry \<Rightarrow> bool" where
  "approx f w l m e m' e' \<longleftrightarrow> (\<forall>x. f \<le> x \<and> x < f + w \<longrightarrow> find_walk m' x l e' = find_walk m x l e
     \<or> find_walk m x l e = 0 \<and> (\<exists>y. f \<le> y \<and> y < f + w \<and> find_walk m' x l e' = find_walk m y l e))"

lemma approx_refl: "(\<And>x. find_walk m' x l e = find_walk m x l e) \<Longrightarrow> approx f w l m e m' e"
  by (simp add: approx_def)

lemma approx_cong:
  assumes "approx f w l m e m' e'" "\<And>x. find_walk m0 x l e0 = find_walk m x l e" "\<And>x. find_walk m1 x l e1 = find_walk m' x l e'"
  shows "approx f w l m0 e0 m1 e1"
  using assms by (simp add: approx_def)

text \<open>Node \<open>n\<close> of level \<open>l\<close> at page \<open>b\<close>, the map \<open>m0\<close> before and \<open>m\<close> after the slots of \<open>ds\<close> were compacted.\<close>

definition slots_done :: "(nat \<Rightarrow> nat \<times> nat) \<Rightarrow> nat \<Rightarrow> nat \<Rightarrow> nat \<Rightarrow> PhysPageMap \<Rightarrow> nat set \<Rightarrow> PhysPageMap \<Rightarrow> bool" where
  "slots_done own n l b m0 ds m \<longleftrightarrow> cmap_ok own m \<and> nodes_nb m = nodes_nb m0 \<and> sections m = sections m0
     \<and> (\<forall>k<nodes_nb m0. \<not> within own k b (512 ^ (l + 1)) \<longrightarrow> nodes m k = nodes m0 k)
     \<and> (\<forall>j<512. j \<notin> ds \<longrightarrow> nodes m n j = nodes m0 n j \<and> (\<forall>k<nodes_nb m0. within own k (b + j * 512 ^ l) (512 ^ l) \<longrightarrow> nodes m k = nodes m0 k))
     \<and> (\<forall>j<512. (pe_ptr (nodes m n j) = PHYS_MAP_NODE_NIL \<longleftrightarrow> pe_ptr (nodes m0 n j) = PHYS_MAP_NODE_NIL)
         \<and> approx (b + j * 512 ^ l) (512 ^ l) l m0 (nodes m0 n j) m (nodes m n j))"

lemma slots_doneD:
  assumes "slots_done own n l b m0 ds m"
  shows "cmap_ok own m" "nodes_nb m = nodes_nb m0" "sections m = sections m0"
    "k < nodes_nb m0 \<Longrightarrow> \<not> within own k b (512 ^ (l + 1)) \<Longrightarrow> nodes m k = nodes m0 k"
    "j < 512 \<Longrightarrow> j \<notin> ds \<Longrightarrow> nodes m n j = nodes m0 n j"
    "j < 512 \<Longrightarrow> j \<notin> ds \<Longrightarrow> k < nodes_nb m0 \<Longrightarrow> within own k (b + j * 512 ^ l) (512 ^ l) \<Longrightarrow> nodes m k = nodes m0 k"
    "j < 512 \<Longrightarrow> pe_ptr (nodes m n j) = PHYS_MAP_NODE_NIL \<longleftrightarrow> pe_ptr (nodes m0 n j) = PHYS_MAP_NODE_NIL"
    "j < 512 \<Longrightarrow> approx (b + j * 512 ^ l) (512 ^ l) l m0 (nodes m0 n j) m (nodes m n j)"
  using assms unfolding slots_done_def by blast+

definition compacts :: "(nat \<Rightarrow> nat \<times> nat) \<Rightarrow> nat \<Rightarrow> nat \<Rightarrow> nat \<Rightarrow> PhysPageMap \<Rightarrow> PhysPageEntry \<Rightarrow> PhysPageMap \<Rightarrow> PhysPageEntry \<Rightarrow> bool" where
  "compacts own nb l f m e m' e' \<longleftrightarrow> cmap_ok own m' \<and> nodes_nb m' = nodes_nb m \<and> sections m' = sections m
     \<and> (\<forall>k<nodes_nb m. \<not> within own k f (512 ^ l) \<longrightarrow> nodes m' k = nodes m k)
     \<and> cslot_ok own (nodes_nb m) l f e' \<and> pe_ptr e' \<noteq> PHYS_MAP_NODE_NIL \<and> approx f (512 ^ l) l m e m' e'"

lemma within_disjoint:
  assumes "within own k (b + i * w) w" "within own k (b + j * w) w"
  shows "i = j"
proof -
  have "(0 :: nat) < 512 ^ (fst (own k) + 1)" by simp
  then have lt: "b + i * w < b + j * w + w" "b + j * w < b + i * w + w" using assms unfolding within_def by linarith+
  then have "i * w < (j + 1) * w" "j * w < (i + 1) * w" by simp_all
  then have "i < j + 1" "j < i + 1" by (simp_all only: mult_less_cancel2)
  then show ?thesis by simp
qed

lemma slots_step:
  assumes s: "slots_done own n l b m0 ds m" and n: "n < nodes_nb m0" "own n = (l, b)" and i: "i < 512" "i \<notin> ds"
    and c: "compacts own (nodes_nb m) l (b + i * 512 ^ l) m (nodes m n i) m' e'" and nn: "pe_ptr (nodes m n i) \<noteq> PHYS_MAP_NODE_NIL"
    and m0: "cmap_ok own m0"
  shows "slots_done own n l b m0 (insert i ds) (set_slot n i e' m')"
proof -
  note d = slots_doneD [OF s]
  have m': "cmap_ok own m'" "nodes_nb m' = nodes_nb m0" "sections m' = sections m0" "cslot_ok own (nodes_nb m0) l (b + i * 512 ^ l) e'" "pe_ptr e' \<noteq> PHYS_MAP_NODE_NIL"
    "approx (b + i * 512 ^ l) (512 ^ l) l m (nodes m n i) m' e'"
    and out: "\<And>k. k < nodes_nb m0 \<Longrightarrow> \<not> within own k (b + i * 512 ^ l) (512 ^ l) \<Longrightarrow> nodes m' k = nodes m k"
    using c d(2,3) by (simp_all add: compacts_def)
  have self: "\<not> within own n (b + j * 512 ^ l) (512 ^ l)" for j using n(2) by (auto simp: within_def)
  have nn': "nodes m' n = nodes m n" by (rule out [OF n(1) self])
  define m1 where "m1 = set_slot n i e' m'"
  have nodes1: "nodes m1 k = (if k = n then (nodes m n)(i := e') else nodes m' k)" for k by (simp add: m1_def set_slot_def nn')
  have nb1: "nodes_nb m1 = nodes_nb m0" "sections m1 = sections m0" using m'(2,3) by (simp_all add: m1_def set_slot_def)
  have ok1: "cmap_ok own m1" unfolding cmap_ok_def nb1
  proof (intro allI impI)
    fix k j :: nat assume k: "k < nodes_nb m0" and j: "j < 512"
    show "cslot_ok own (nodes_nb m0) (fst (own k)) (snd (own k) + j * 512 ^ fst (own k)) (nodes m1 k j)"
      using m'(1,2,4) k j n(2) nn' by (cases "k = n \<and> j = i") (auto simp: nodes1 cmap_ok_def)
  qed
  have up: "within own k b (512 ^ (l + 1))" if "within own k (b + i * 512 ^ l) (512 ^ l)" for k
    using within_slot [OF i(1), of own k n] that n(2) by simp
  have fr: "find_walk m1 x l e = find_walk m x l e" if j: "j < 512" "j \<noteq> i" "cslot_ok own (nodes_nb m0) l (b + j * 512 ^ l) e" for j x e
  proof (rule walk_frame [OF d(1)])
    show "cslot_ok own (nodes_nb m) l (b + j * 512 ^ l) e" using j(3) d(2) by simp
    fix k assume k: "k < nodes_nb m" "within own k (b + j * 512 ^ l) (512 ^ l)"
    then have "\<not> within own k (b + i * 512 ^ l) (512 ^ l)" using within_disjoint j(2) by blast
    then show "nodes m1 k = nodes m k" using out [of k] k self d(2) nodes1 by auto
  qed
  have cs: "cslot_ok own (nodes_nb m0) l (b + j * 512 ^ l) (nodes m n j)" if "j < 512" for j
    using d(1,2) n that unfolding cmap_ok_def by (metis fst_conv snd_conv)
  have ai: "approx (b + i * 512 ^ l) (512 ^ l) l m0 (nodes m0 n i) m1 (nodes m1 n i)"
  proof (rule approx_cong [OF m'(6)])
    show "find_walk m0 x l (nodes m0 n i) = find_walk m x l (nodes m n i)" for x
      using walk_frame [OF d(1) cs [OF i(1), folded d(2)], of m0 x] d(5) [OF i] d(6) [OF i] d(2) by simp
    have "nodes m1 k = nodes m' k" if "within own k (b + i * 512 ^ l) (512 ^ l)" for k using that self nodes1 by auto
    then show "find_walk m1 x l (nodes m1 n i) = find_walk m' x l e'" for x
      using walk_frame [OF m'(1) m'(4) [folded m'(2)], of m1 x] nodes1 by simp
  qed
  have aj: "approx (b + j * 512 ^ l) (512 ^ l) l m0 (nodes m0 n j) m1 (nodes m1 n j)" if j: "j < 512" "j \<noteq> i" for j
    by (rule approx_cong [OF d(8) [OF j(1)] refl]) (use fr [OF j cs [OF j(1)]] j(2) nodes1 in simp)
  have f2: "nodes m1 k = nodes m0 k" if "k < nodes_nb m0" "j < 512" "j \<notin> insert i ds" "within own k (b + j * 512 ^ l) (512 ^ l)" for k j
  proof -
    have "\<not> within own k (b + i * 512 ^ l) (512 ^ l)" using within_disjoint that(3,4) by blast
    then have "nodes m' k = nodes m k" by (rule out [OF that(1)])
    then show ?thesis using d(6) [of j k] that self nodes1 by auto
  qed
  have "nodes m1 k = nodes m0 k" if "k < nodes_nb m0" "\<not> within own k b (512 ^ (l + 1))" for k
  proof -
    have "k \<noteq> n" using that(2) n(2) by (auto simp: within_def)
    then show ?thesis using out [OF that(1)] up that d(4) nodes1 by auto
  qed
  moreover have "pe_ptr (nodes m1 n j) = PHYS_MAP_NODE_NIL \<longleftrightarrow> pe_ptr (nodes m0 n j) = PHYS_MAP_NODE_NIL" if "j < 512" for j
    using d(7) [OF that] m'(5) nn d(5) [OF i] nodes1 by auto
  ultimately show ?thesis unfolding m1_def [symmetric] slots_done_def
    using ok1 nb1 f2 ai aj d(5) nodes1 by auto
qed

text \<open>A slot that is a leaf or empty needs no work.\<close>

lemma slots_skip: "slots_done own n l b m0 ds m \<Longrightarrow> slots_done own n l b m0 (insert i ds) m"
  unfolding slots_done_def by auto

definition used_slots :: "PhysPageMap \<Rightarrow> nat \<Rightarrow> nat set \<Rightarrow> nat set" where
  "used_slots m n ds = {j \<in> ds. pe_ptr (nodes m n j) \<noteq> PHYS_MAP_NODE_NIL}"

lemma compact_slots_spec:
  assumes n: "n < nodes_nb m0" "own n = (l, b)" and m0: "cmap_ok own m0"
    and plain: "\<And>j. j < 512 \<Longrightarrow> slot_ok own (nodes_nb m0) l (b + j * 512 ^ l) (nodes m0 n j)"
    and child: "\<And>j m. j < 512 \<Longrightarrow> slots_done own n l b m0 {..<j} m \<Longrightarrow> pe_skip (nodes m n j) \<noteq> 0 \<Longrightarrow> pe_ptr (nodes m n j) \<noteq> PHYS_MAP_NODE_NIL
      \<Longrightarrow> \<exists>e' m'. g (nodes m n j) m = Some (e', m') \<and> compacts own (nodes_nb m) l (b + j * 512 ^ l) m (nodes m n j) m' e'"
    and i: "i \<le> 512" and s: "slots_done own n l b m0 {..<i} m" and v: "valid = card (used_slots m0 n {..<i})" "used_slots m0 n {..<i} \<noteq> {} \<longrightarrow> vp \<in> used_slots m0 n {..<i}"
  shows "\<exists>vp' m'. compact_slots g n [i..<512] (vp, valid, m) = Some (vp', card (used_slots m0 n {..<512}), m')
    \<and> slots_done own n l b m0 {..<512} m' \<and> (used_slots m0 n {..<512} \<noteq> {} \<longrightarrow> vp' \<in> used_slots m0 n {..<512})"
  using i s v
proof (induction arbitrary: m vp valid rule: inc_induct)
  case base
  then show ?case by simp
next
  case (step i)
  note d = slots_doneD [OF step.prems(1)]
  have up: "[i..<512] = i # [Suc i..<512]" using step.hyps(2) by (rule upt_conv_Cons)
  have ins: "{..<Suc i} = insert i {..<i}" by auto
  have same: "nodes m n i = nodes m0 n i" using d(5) step.hyps(2) by simp
  show ?case
  proof (cases "pe_ptr (nodes m n i) = PHYS_MAP_NODE_NIL")
    case True
    then have "used_slots m0 n {..<Suc i} = used_slots m0 n {..<i}" using same by (auto simp: used_slots_def ins)
    then show ?thesis using step.IH [of m valid vp] slots_skip [OF step.prems(1), of i] step.prems(2,3) True by (simp add: up ins)
  next
    case False
    then have us: "used_slots m0 n {..<Suc i} = insert i (used_slots m0 n {..<i})" using same by (auto simp: used_slots_def ins)
    have "finite (used_slots m0 n {..<i})" "i \<notin> used_slots m0 n {..<i}" by (simp_all add: used_slots_def)
    then have v: "valid + 1 = card (used_slots m0 n {..<Suc i})" using us step.prems(2) by simp
    have vp: "i \<in> used_slots m0 n {..<Suc i}" using us by simp
    show ?thesis
    proof (cases "pe_skip (nodes m n i) = 0")
      case sk: True
      show ?thesis using step.IH [of m "valid + 1" i] slots_skip [OF step.prems(1), of i] v vp sk False by (simp add: up ins)
    next
      case sk: False
      obtain e' m' where c: "g (nodes m n i) m = Some (e', m')" "compacts own (nodes_nb m) l (b + i * 512 ^ l) m (nodes m n i) m' e'"
        using child [OF step.hyps(2) step.prems(1) sk False] by blast
      have "slots_done own n l b m0 {..<Suc i} (set_slot n i e' m')"
        unfolding ins by (rule slots_step [OF step.prems(1) n step.hyps(2) _ c(2) False m0]) simp
      then show ?thesis using step.IH [of "set_slot n i e' m'" "valid + 1" i] v vp sk False c(1) by (simp add: up)
    qed
  qed
qed

section \<open>Skipping a node\<close>

lemma walk_node:
  "n \<noteq> PHYS_MAP_NODE_NIL \<Longrightarrow> find_walk m x (Suc l) \<lparr>pe_skip = 1, pe_ptr = n\<rparr> = find_walk m x l (nodes m n (x div 512 ^ l mod 512))"
  by (subst find_walk.simps) (simp add: P_L2_SIZE_def)

lemma walk_merge:
  assumes "pe_skip c = 0 \<or> pe_skip c \<le> l" "pe_ptr c \<noteq> PHYS_MAP_NODE_NIL" "pe_skip lp = 1" "merge_entry lp c \<noteq> lp"
  shows "find_walk m x (Suc l) (merge_entry lp c) = find_walk m x l c"
proof (cases "pe_skip c = 0")
  case True
  then show ?thesis using assms(4) by (simp add: merge_entry_def split: if_splits)
next
  case False
  then have "merge_entry lp c = \<lparr>pe_skip = Suc (pe_skip c), pe_ptr = pe_ptr c\<rparr>" using assms(3,4) by (simp add: merge_entry_def split: if_splits)
  then show ?thesis using False assms(1,2) by (simp add: find_walk.simps [of m x "Suc l"] find_walk.simps [of m x l c])
qed

lemma slots_find:
  assumes s: "slots_done own n l b m0 {..<512} m" and n: "n \<noteq> PHYS_MAP_NODE_NIL" "512 ^ (l + 1) dvd b"
    and x: "b \<le> x" "x < b + 512 ^ (l + 1)" "j = x div 512 ^ l mod 512"
  shows "find_walk m x l (nodes m n j) = find_walk m0 x (Suc l) \<lparr>pe_skip = 1, pe_ptr = n\<rparr>
    \<or> find_walk m0 x (Suc l) \<lparr>pe_skip = 1, pe_ptr = n\<rparr> = 0
      \<and> (\<exists>y. b \<le> y \<and> y < b + 512 ^ (l + 1) \<and> find_walk m x l (nodes m n j) = find_walk m0 y (Suc l) \<lparr>pe_skip = 1, pe_ptr = n\<rparr>)"
proof -
  note p = page_slot [OF n(2) x(1,2), folded x(3)]
  have slot: "find_walk m0 y (Suc l) \<lparr>pe_skip = 1, pe_ptr = n\<rparr> = find_walk m0 y l (nodes m0 n j)" "b \<le> y \<and> y < b + 512 ^ (l + 1)"
    if "b + j * 512 ^ l \<le> y" "y < b + j * 512 ^ l + 512 ^ l" for y
  proof -
    have "y div 512 ^ l mod 512 = j" by (rule slot_of_page [OF n(2) p(1)]) (use that in simp_all)
    then show "find_walk m0 y (Suc l) \<lparr>pe_skip = 1, pe_ptr = n\<rparr> = find_walk m0 y l (nodes m0 n j)" using walk_node [OF n(1)] by simp
    show "b \<le> y \<and> y < b + 512 ^ (l + 1)" using that slot_end [OF p(1), of b l] by linarith
  qed
  have "b + j * 512 ^ l \<le> x" "x < b + j * 512 ^ l + 512 ^ l" using p(2,3) by simp_all
  then show ?thesis using slots_doneD(8) [OF s p(1)] slot unfolding approx_def by metis
qed

lemma compacts_merge:
  assumes s: "slots_done own n l b m0 {..<512} m" and n: "n < nodes_nb m0" "own n = (l, b)" "n \<noteq> PHYS_MAP_NODE_NIL" "512 ^ (l + 1) dvd b"
    and plain: "\<And>j. j < 512 \<Longrightarrow> slot_ok own (nodes_nb m0) l (b + j * 512 ^ l) (nodes m0 n j)"
    and vals: "\<And>x. b \<le> x \<Longrightarrow> x < b + 512 ^ (l + 1) \<Longrightarrow> find_walk m0 x (Suc l) \<lparr>pe_skip = 1, pe_ptr = n\<rparr> \<noteq> PHYS_MAP_NODE_NIL"
    and e': "e' = \<lparr>pe_skip = 1, pe_ptr = n\<rparr> \<or> used_slots m0 n {..<512} = {vp} \<and> e' = merge_entry \<lparr>pe_skip = 1, pe_ptr = n\<rparr> (nodes m n vp)"
  shows "compacts own (nodes_nb m0) (Suc l) b m0 \<lparr>pe_skip = 1, pe_ptr = n\<rparr> m e'"
proof -
  let ?e = "\<lparr>pe_skip = 1, pe_ptr = n\<rparr>" and ?c = "nodes m n vp"
  note d = slots_doneD [OF s]
  have w: "within own n b (512 ^ Suc l)" using n(2) by (simp add: within_def)
  consider (same) "e' = ?e" | (merged) "used_slots m0 n {..<512} = {vp}" "e' = merge_entry ?e ?c" "e' \<noteq> ?e" using e' by blast
  then have "cslot_ok own (nodes_nb m0) (Suc l) b e' \<and> pe_ptr e' \<noteq> PHYS_MAP_NODE_NIL \<and> approx b (512 ^ Suc l) (Suc l) m0 ?e m e'"
  proof cases
    case same
    have "find_walk m x (Suc l) ?e = find_walk m x l (nodes m n (x div 512 ^ l mod 512))" for x by (rule walk_node [OF n(3)])
    then have "approx b (512 ^ Suc l) (Suc l) m0 ?e m ?e" unfolding approx_def using slots_find [OF s n(3,4) _ _ refl] by simp
    then show ?thesis using same n w by (simp add: cslot_ok_def)
  next
    case merged
    have vp: "vp < 512" "pe_ptr ?c \<noteq> PHYS_MAP_NODE_NIL" using merged(1) d(7) [of vp] by (auto simp: used_slots_def)
    have c: "cslot_ok own (nodes_nb m0) l (b + vp * 512 ^ l) ?c" using d(1,2) n(1,2) vp(1) unfolding cmap_ok_def by (metis fst_conv snd_conv)
    have walk: "find_walk m x (Suc l) e' = find_walk m x l ?c" for x
      unfolding merged(2) by (rule walk_merge) (use c vp(2) merged(2,3) in \<open>auto simp: cslot_ok_def\<close>)
    have other: "find_walk m0 x (Suc l) ?e = 0" if x: "b \<le> x" "x < b + 512 ^ (l + 1)" "x div 512 ^ l mod 512 \<noteq> vp" for x
    proof -
      let ?j = "x div 512 ^ l mod 512"
      have "?j \<in> used_slots m0 n {..<512}" if "pe_ptr (nodes m0 n ?j) \<noteq> PHYS_MAP_NODE_NIL" using that by (simp add: used_slots_def)
      then have nil: "pe_ptr (nodes m0 n ?j) = PHYS_MAP_NODE_NIL" using x(3) unfolding merged(1) by blast
      have "pe_skip (nodes m0 n ?j) \<noteq> 0"
      proof
        assume "pe_skip (nodes m0 n ?j) = 0"
        then have "find_walk m0 x l (nodes m0 n ?j) = PHYS_MAP_NODE_NIL" using nil by simp
        then show False using vals [OF x(1,2)] walk_node [OF n(3), of m0 x l] by simp
      qed
      then show ?thesis using plain [of ?j] nil walk_node [OF n(3), of m0 x l] by (simp add: slot_ok_def)
    qed
    have appr: "approx b (512 ^ Suc l) (Suc l) m0 ?e m e'"
      unfolding approx_def
    proof (intro allI impI)
      fix x assume "b \<le> x \<and> x < b + 512 ^ Suc l"
      then have x: "b \<le> x" "x < b + 512 ^ (l + 1)" by simp_all
      show "find_walk m x (Suc l) e' = find_walk m0 x (Suc l) ?e
        \<or> find_walk m0 x (Suc l) ?e = 0 \<and> (\<exists>y. b \<le> y \<and> y < b + 512 ^ Suc l \<and> find_walk m x (Suc l) e' = find_walk m0 y (Suc l) ?e)"
      proof (cases "x div 512 ^ l mod 512 = vp")
        case True
        then show ?thesis using slots_find [OF s n(3,4) x refl] walk by simp
      next
        case False
        let ?y = "b + vp * 512 ^ l + x mod 512 ^ l"
        have lt: "x mod 512 ^ l < 512 ^ l" by simp
        have y: "b \<le> ?y" "?y < b + 512 ^ (l + 1)" using slot_end [OF vp(1), of b l] lt by linarith+
        have j: "vp = ?y div 512 ^ l mod 512" by (rule slot_of_page [OF n(4) vp(1), symmetric]) (use lt in simp_all)
        have "512 ^ l dvd b" using n(4) by (rule dvd_trans [rotated]) (simp add: le_imp_power_dvd)
        then obtain q where "b = 512 ^ l * q" by (elim dvdE)
        then have "?y = x mod 512 ^ l + (q + vp) * 512 ^ l" by (simp add: algebra_simps)
        then have "?y mod 512 ^ l = x mod 512 ^ l" by simp
        then have same: "find_walk m x l ?c = find_walk m ?y l ?c" by (intro walk_mod) simp
        have "\<exists>y. b \<le> y \<and> y < b + 512 ^ (l + 1) \<and> find_walk m x (Suc l) e' = find_walk m0 y (Suc l) ?e"
          unfolding walk same using slots_find [OF s n(3,4) y j] y by blast
        then show ?thesis using other [OF x False] by simp
      qed
    qed
    have "pe_ptr e' = pe_ptr ?c" using merged(2,3) by (simp add: merge_entry_def split: if_splits)
    moreover have "cslot_ok own (nodes_nb m0) (Suc l) b e'"
      using c merged(2,3) within_slot [OF vp(1), of own "pe_ptr ?c" n] n(2) by (auto simp: merge_entry_def cslot_ok_def split: if_splits)
    ultimately show ?thesis using appr vp(2) by simp
  qed
  then show ?thesis using d(1-4) by (simp add: compacts_def)
qed

lemma compact_spec:
  assumes "cmap_ok own m" "\<And>k. k < nodes_nb m \<Longrightarrow> 512 ^ (fst (own k) + 1) dvd snd (own k)" "nodes_nb m \<le> PHYS_MAP_NODE_NIL"
    and "n < nodes_nb m" "own n = (l, b)" "l < fuel"
    and "\<And>k j. k < nodes_nb m \<Longrightarrow> within own k b (512 ^ (l + 1)) \<Longrightarrow> j < 512
      \<Longrightarrow> slot_ok own (nodes_nb m) (fst (own k)) (snd (own k) + j * 512 ^ fst (own k)) (nodes m k j)"
    and "\<And>x. b \<le> x \<Longrightarrow> x < b + 512 ^ (l + 1) \<Longrightarrow> find_walk m x (Suc l) \<lparr>pe_skip = 1, pe_ptr = n\<rparr> \<noteq> PHYS_MAP_NODE_NIL"
  shows "\<exists>e' m'. phys_page_compact fuel \<lparr>pe_skip = 1, pe_ptr = n\<rparr> m = Some (e', m') \<and> compacts own (nodes_nb m) (Suc l) b m \<lparr>pe_skip = 1, pe_ptr = n\<rparr> m' e'"
  using assms
proof (induction l arbitrary: m n b fuel rule: less_induct)
  case (less l)
  obtain f where f: "fuel = Suc f" using less.prems(6) by (cases fuel) auto
  have nil: "n \<noteq> PHYS_MAP_NODE_NIL" using less.prems(3,4) by auto
  have al: "512 ^ (l + 1) dvd b" using less.prems(2) [OF less.prems(4)] less.prems(5) by simp
  have plain: "slot_ok own (nodes_nb m) l (b + j * 512 ^ l) (nodes m n j)" if "j < 512" for j
    using less.prems(7) [OF less.prems(4) _ that] less.prems(5) by (simp add: within_def)
  have child: "\<exists>e' m'. phys_page_compact f (nodes m2 n j) m2 = Some (e', m') \<and> compacts own (nodes_nb m2) l (b + j * 512 ^ l) m2 (nodes m2 n j) m' e'"
    if j: "j < 512" and s: "slots_done own n l b m {..<j} m2" and e: "pe_skip (nodes m2 n j) \<noteq> 0" "pe_ptr (nodes m2 n j) \<noteq> PHYS_MAP_NODE_NIL" for j m2
  proof -
    note d = slots_doneD [OF s]
    let ?c = "pe_ptr (nodes m n j)" and ?f = "b + j * 512 ^ l"
    have same: "nodes m2 n j = nodes m n j" using d(5) [OF j] by simp
    have c: "pe_skip (nodes m n j) = 1" "0 < l" "?c < nodes_nb m" "own ?c = (l - 1, ?f)" using plain [OF j] e same by (auto simp: slot_ok_def split: if_splits)
    then obtain l' where l': "l = Suc l'" by (cases l) auto
    have ent: "nodes m2 n j = \<lparr>pe_skip = 1, pe_ptr = ?c\<rparr>" using same c(1) by simp
    have inside: "nodes m2 k = nodes m k" if "k < nodes_nb m" "within own k ?f (512 ^ l)" for k using d(6) [OF j _ that] by simp
    have up: "within own k b (512 ^ (l + 1))" if "within own k ?f (512 ^ l)" for k using within_slot [OF j, of own k n] that less.prems(5) by simp
    have "\<exists>e' m'. phys_page_compact f \<lparr>pe_skip = 1, pe_ptr = ?c\<rparr> m2 = Some (e', m') \<and> compacts own (nodes_nb m2) (Suc l') ?f m2 \<lparr>pe_skip = 1, pe_ptr = ?c\<rparr> m' e'"
    proof (rule less.IH)
      show "l' < l" "l' < f" using l' less.prems(6) f by simp_all
      show "cmap_ok own m2" by (rule d(1))
      show "nodes_nb m2 \<le> PHYS_MAP_NODE_NIL" "?c < nodes_nb m2" "own ?c = (l', ?f)" using d(2) less.prems(3) c l' by simp_all
      show "512 ^ (fst (own k) + 1) dvd snd (own k)" if "k < nodes_nb m2" for k using less.prems(2) that d(2) by simp
      show "slot_ok own (nodes_nb m2) (fst (own k)) (snd (own k) + i * 512 ^ fst (own k)) (nodes m2 k i)"
        if "k < nodes_nb m2" "within own k ?f (512 ^ (l' + 1))" "i < 512" for k i
        using less.prems(7) [of k i] that inside [of k] up [of k] d(2) l' by simp
      show "find_walk m2 x (Suc l') \<lparr>pe_skip = 1, pe_ptr = ?c\<rparr> \<noteq> PHYS_MAP_NODE_NIL" if x: "?f \<le> x" "x < ?f + 512 ^ (l' + 1)" for x
      proof -
        have sl: "x div 512 ^ l mod 512 = j" by (rule slot_of_page [OF al j]) (use x l' in simp_all)
        have "find_walk m2 x l (nodes m n j) = find_walk m x l (nodes m n j)"
          by (rule walk_frame [OF less.prems(1) slot_cslot [OF plain [OF j]] inside])
        moreover have "find_walk m x (Suc l) \<lparr>pe_skip = 1, pe_ptr = n\<rparr> = find_walk m x l (nodes m n j)" using walk_node [OF nil] sl by simp
        moreover have "(512 :: nat) ^ (l' + 1) = 512 ^ l" by (simp add: l')
        then have "b \<le> x" "x < b + 512 ^ (l + 1)" using x slot_end [OF j, of b l] by linarith+
        ultimately show ?thesis using less.prems(8) [of x] same ent l' by metis
      qed
    qed
    then show ?thesis unfolding ent l' .
  qed
  have start: "slots_done own n l b m {..<0} m" by (simp add: slots_done_def less.prems(1) approx_refl)
  obtain vp m' where w: "compact_slots (phys_page_compact f) n [0..<512] (512, 0, m) = Some (vp, card (used_slots m n {..<512}), m')"
      "slots_done own n l b m {..<512} m'" "used_slots m n {..<512} \<noteq> {} \<longrightarrow> vp \<in> used_slots m n {..<512}"
    using compact_slots_spec [OF less.prems(4,5,1) plain child _ start, of 0 512] by (auto simp: used_slots_def)
  have one: "used_slots m n {..<512} = {vp}" if "card (used_slots m n {..<512}) = 1" using that w(3) by (auto simp: card_1_singleton_iff)
  show ?case
    using w(1) compacts_merge [OF w(2) less.prems(4,5) nil al plain less.prems(8)] one nil
    by (auto simp: f P_L2_SIZE_def)
qed

section \<open>Compacting a dispatch\<close>

lemma dispatch_compact:
  assumes "dispatch_ok (Suc l) d" "\<And>x. x < 512 ^ Suc l \<Longrightarrow> page_section (Suc l) d x \<noteq> PHYS_MAP_NODE_NIL"
  shows "\<exists>d'. address_space_dispatch_compact (Suc l) d = Some d' \<and> sections (disp_map d') = sections (disp_map d) \<and> disp_subpages d' = disp_subpages d
    \<and> mru_section d' = mru_section d
    \<and> (\<forall>x<512 ^ Suc l. page_section (Suc l) d' x = page_section (Suc l) d x
         \<or> page_section (Suc l) d x = 0 \<and> (\<exists>y<512 ^ Suc l. page_section (Suc l) d' x = page_section (Suc l) d y))"
proof -
  let ?e = "phys_map d" and ?m = "disp_map d"
  obtain own where ok: "pe_skip ?e = 1" "map_ok own ?m" "pe_ptr ?e = PHYS_MAP_NODE_NIL \<or> pe_ptr ?e < nodes_nb ?m \<and> own (pe_ptr ?e) = (l, 0)"
    using assms(1) by (auto simp: dispatch_ok_def)
  have e: "?e = \<lparr>pe_skip = 1, pe_ptr = pe_ptr ?e\<rparr>" using ok(1) by simp
  show ?thesis
  proof (cases "pe_ptr ?e = PHYS_MAP_NODE_NIL")
    case True
    then have "address_space_dispatch_compact (Suc l) d = Some (d\<lparr>phys_map := ?e, disp_map := ?m\<rparr>)" using ok(1) by (simp add: address_space_dispatch_compact_def)
    then show ?thesis by simp
  next
    case False
    then have n: "pe_ptr ?e < nodes_nb ?m" "own (pe_ptr ?e) = (l, 0)" using ok(3) by simp_all
    have vals: "find_walk ?m x (Suc l) \<lparr>pe_skip = 1, pe_ptr = pe_ptr ?e\<rparr> \<noteq> PHYS_MAP_NODE_NIL" if "x < 0 + 512 ^ (l + 1)" for x
      using assms(2) [of x] that unfolding page_section_def e [symmetric] by simp
    have "\<exists>e' m'. phys_page_compact (Suc l) \<lparr>pe_skip = 1, pe_ptr = pe_ptr ?e\<rparr> ?m = Some (e', m')
        \<and> compacts own (nodes_nb ?m) (Suc l) 0 ?m \<lparr>pe_skip = 1, pe_ptr = pe_ptr ?e\<rparr> m' e'"
      by (rule compact_spec [OF map_cmap [OF ok(2)] _ _ n]) (use ok(2) vals in \<open>simp_all add: map_ok_def\<close>)
    then obtain e' m' where w: "phys_page_compact (Suc l) ?e ?m = Some (e', m')" "compacts own (nodes_nb ?m) (Suc l) 0 ?m ?e m' e'" unfolding e [symmetric] by blast
    have "address_space_dispatch_compact (Suc l) d = Some (d\<lparr>phys_map := e', disp_map := m'\<rparr>)"
      using w(1) ok(1) by (simp add: address_space_dispatch_compact_def)
    then show ?thesis using w(2) by (auto simp: compacts_def approx_def page_section_def)
  qed
qed

section \<open>A node whose only child is a leaf\<close>

lemma compact_slots_none:
  "\<forall>j\<in>set is. pe_ptr (nodes m n j) = PHYS_MAP_NODE_NIL \<Longrightarrow> compact_slots g n is (vp, k, m) = Some (vp, k, m)"
  by (induction "is") (simp_all add: Let_def)

lemma compact_slots_single:
  assumes "\<forall>j\<in>set is. j \<noteq> v \<longrightarrow> pe_ptr (nodes m n j) = PHYS_MAP_NODE_NIL" "v \<in> set is" "distinct is" "pe_skip (nodes m n v) = 0" "pe_ptr (nodes m n v) \<noteq> PHYS_MAP_NODE_NIL"
  shows "compact_slots g n is (vp, k, m) = Some (v, k + 1, m)"
  using assms(1-3)
proof (induction "is")
  case (Cons i "is")
  show ?case
  proof (cases "i = v")
    case True
    then have "\<forall>j\<in>set is. pe_ptr (nodes m n j) = PHYS_MAP_NODE_NIL" using Cons.prems by auto
    then show ?thesis using True assms(4,5) compact_slots_none [of "is" m n g v "k + 1"] by (simp add: Let_def)
  qed (use Cons in \<open>simp add: Let_def\<close>)
qed simp

text \<open>The comment in \<open>phys_page_compact\<close> says that the only child of a node is never a leaf by design. It is one whenever a section
  covers exactly one slot of an inner node.\<close>

theorem single_slot_becomes_leaf:
  "\<exists>d d'. phys_page_set 2 empty_dispatch 0 512 5 = Inr d \<and> address_space_dispatch_compact 2 d = Some d' \<and> phys_map d' = \<lparr>pe_skip = 0, pe_ptr = 5\<rparr>"
proof -
  define m where "m = set_slot 0 0 \<lparr>pe_skip = 0, pe_ptr = 5\<rparr> (add_node 1 (phys_map_node_reserve 6 (disp_map empty_dispatch)))"
  define d where "d = empty_dispatch\<lparr>phys_map := \<lparr>pe_skip = 1, pe_ptr = 0\<rparr>, disp_map := m\<rparr>"
  have nn: "nodes m 0 j = (if j = 0 then \<lparr>pe_skip = 0, pe_ptr = 5\<rparr> else fresh_entry False)" for j
    by (simp add: m_def set_slot_def empty_dispatch_def phys_map_node_reserve_def Let_def)
  have "phys_page_set 2 empty_dispatch 0 512 5 = Inr d"
  proof -
    let ?m = "add_node 1 (phys_map_node_reserve 6 (disp_map empty_dispatch))"
    have "node_of 1 (phys_map empty_dispatch) (phys_map_node_reserve 6 (disp_map empty_dispatch)) = Inr (\<lparr>pe_skip = 1, pe_ptr = 0\<rparr>, ?m)"
      by (simp add: empty_dispatch_def node_of_def phys_map_node_alloc_def phys_map_node_reserve_def PHYS_MAP_NODE_NIL_def Let_def add_node_def)
    moreover have "set_loop 5 1 0 0 (?m, 0, 512) = Inr (m, 512, 0)"
      using set_loop_stop [of 1 0 5 1 0 m 512] by (subst set_loop.simps) (simp add: P_L2_SIZE_def m_def)
    ultimately show ?thesis by (simp add: phys_page_set_def phys_page_set_level_def numeral_2_eq_2 d_def)
  qed
  moreover have "compact_slots (phys_page_compact 1) 0 [0..<512] (512, 0, m) = Some (0, 0 + 1, m)"
    by (rule compact_slots_single) (auto simp: nn fresh_entry_def PHYS_MAP_NODE_NIL_def)
  then have "address_space_dispatch_compact 2 d = Some (d\<lparr>phys_map := \<lparr>pe_skip = 0, pe_ptr = 5\<rparr>\<rparr>)"
    by (simp add: address_space_dispatch_compact_def d_def numeral_2_eq_2 P_L2_SIZE_def PHYS_MAP_NODE_NIL_def merge_entry_def nn)
  ultimately show ?thesis by auto
qed
end
