(* ===== verification/Dispatch_View.thy ===== *)
theory Dispatch_View
  imports Phys_Dispatch Phys_Compact Flat_Simplify
begin

text \<open>
  The last part of \<open>generate_memory_topology\<close> (\<open>qemu-diff/memory.c\<close>): the dispatch of a flat view is filled with its ranges and
  compacted. The theorems join the three parts: a lookup in the dispatch, whatever was looked up before,
  answers like the flat view, and so like the graph of regions.
\<close>

section \<open>Model\<close>

definition section_from_flat_range :: "FlatRange \<Rightarrow> MemoryRegionSection res" where
  "section_from_flat_range fr = res_bind (int128_get64 (r_start (fr_addr fr))) (\<lambda>start.
     Inr \<lparr>ms_mr = Mr (fr_mr fr), ms_offset_within_region = fr_offset_in_region fr, ms_size = r_size (fr_addr fr),
          ms_offset_within_address_space = start, ms_readonly = fr_readonly fr\<rparr>)"

fun add_ranges :: "regions \<Rightarrow> nat \<Rightarrow> FlatRange list \<Rightarrow> AddressSpaceDispatch \<times> refs \<Rightarrow> (AddressSpaceDispatch \<times> refs) res" where
  "add_ranges rg tpb [] s = Inr s"
| "add_ranges rg tpb (fr # frs) s =
     res_bind (section_from_flat_range fr) (\<lambda>sec. res_bind (flatview_add_to_dispatch rg (P_L2_LEVELS tpb) tpb sec s) (add_ranges rg tpb frs))"

definition view_dispatch :: "regions \<Rightarrow> nat \<Rightarrow> nat \<Rightarrow> FlatView \<Rightarrow> refs \<Rightarrow> (AddressSpaceDispatch \<times> refs) res option" where
  "view_dispatch rg tpb hint view cs =
     (case res_bind (address_space_dispatch_new rg tpb hint cs) (add_ranges rg tpb (fv_ranges view)) of
        Inl e \<Rightarrow> Some (Inl e)
      | Inr (d, cs1) \<Rightarrow> map_option (\<lambda>d1. Inr (d1, cs1)) (address_space_dispatch_compact (P_L2_LEVELS tpb) d))"

section \<open>Filling the dispatch\<close>

lemma entry_exact:
  assumes "page_table_ok tpb pg ss sp" "0 \<le> a" "a < 18446744073709551616" "entry_of tpb pg ss sp a \<noteq> 0"
  shows "entry_of tpb pg ss sp a < length ss" "sec_ok (ss ! entry_of tpb pg ss sp a)" "sec_contains (ss ! entry_of tpb pg ss sp a) a"
    "sec_contains (ss ! entry_of tpb pg ss sp a) b \<Longrightarrow> entry_of tpb pg ss sp b = entry_of tpb pg ss sp a"
proof -
  let ?x = "nat (a div 2 ^ tpb)" and ?e = "entry_of tpb pg ss sp a"
  note x = page_of_addr [OF assms(2), of tpb] and t = page_tableD [OF assms(1)]
  have lt: "int ?x * 2 ^ tpb < 18446744073709551616" using x(1) assms(3) by linarith
  have nz: "pg ?x \<noteq> 0"
  proof
    assume "pg ?x = 0"
    then show False using assms(4) t(2) by (simp add: entry_of_def unassigned_section_def)
  qed
  have "?e < length ss \<and> sec_ok (ss ! ?e) \<and> sec_contains (ss ! ?e) a \<and> (\<forall>b. sec_contains (ss ! ?e) b \<longrightarrow> entry_of tpb pg ss sp b = ?e)"
  proof (cases rule: page_okD [OF t(3) [OF lt] nz])
    case (1 r)
    have e: "?e = pg ?x" using 1(2) by (simp add: entry_of_def)
    have "entry_of tpb pg ss sp b = pg ?x" if b: "sec_contains (ss ! pg ?x) b" for b
    proof -
      have b0: "0 \<le> b" using b 1(3) by (auto simp: sec_contains_def sec_ok_def)
      note y = page_of_addr [OF b0, of tpb]
      have "pg (nat (b div 2 ^ tpb)) = pg ?x" by (rule 1(6)) (use contains_page [OF 1(4) y(1,2)] b in blast)
      then show ?thesis using 1(2) by (simp add: entry_of_def)
    qed
    then show ?thesis unfolding e using 1(1,3) contains_page [OF 1(4) x(1,2)] 1(5) by blast
  next
    case (2 k)
    let ?i = "nat (a mod 2 ^ tpb)"
    have e: "?e = sub_section (sp ! k) ?i" using 2(2) by (simp add: entry_of_def)
    have ok: "entry_ok tpb ss (sp ! k) ?i" using t(4) [OF 2(3)] x(4) unfolding subpage_ok_def by blast
    have a: "sp_base (sp ! k) + int ?i = a" using 2(6) x(3) by simp
    have "entry_of tpb pg ss sp b = ?e" if b: "sec_contains (ss ! ?e) b" for b
    proof -
      obtain j where j: "j < 2 ^ tpb" "b = sp_base (sp ! k) + int j" "sub_section (sp ! k) j = ?e"
        using ok b assms(4) unfolding entry_ok_def e by blast
      have "int j < 2 ^ tpb" using j(1) by simp
      then have "nat (b div 2 ^ tpb) = ?x" "nat (b mod 2 ^ tpb) = j" unfolding j(2) 2(6) using page_of_unique [of ?x tpb] by simp_all
      then show ?thesis using 2(2) j(3) by (simp add: entry_of_def)
    qed
    then show ?thesis using ok assms(4) unfolding entry_ok_def a e by blast
  qed
  then show "?e < length ss" "sec_ok (ss ! ?e)" "sec_contains (ss ! ?e) a" "sec_contains (ss ! ?e) b \<Longrightarrow> entry_of tpb pg ss sp b = ?e" by blast+
qed

lemma dispatch_new:
  assumes "2 \<le> tpb" "tpb \<le> 16"
  shows "\<exists>d. address_space_dispatch_new rg tpb hint cs = Inr (d, cs) \<and> dispatch_inv tpb d \<and> length (sections (disp_map d)) = 4 \<and> nodes_nb (disp_map d) = 0
    \<and> mru_section d = None \<and> (\<forall>a. dispatch_target tpb d a = None)"
proof -
  have "(4 :: nat) \<le> 2 ^ tpb" using power_increasing [OF assms(1), of "2 :: nat"] by simp
  then have n: "(0 :: nat) < 2 ^ tpb" "Suc 0 < 2 ^ tpb" "2 < (2 :: nat) ^ tpb" "3 < (2 :: nat) ^ tpb" by linarith+
  obtain l where l: "P_L2_LEVELS tpb = Suc l" by (simp add: P_L2_LEVELS_def)
  show ?thesis
    using n
    by (simp add: address_space_dispatch_new_def dummy_section_def section_add [OF _ assms(2)] section_ref_def dispatch_inv_def dispatch_ok_def map_ok_def
        page_table_ok_def page_ok_def page_section_def l dispatch_target_def target_of_def entry_of_def sec_target_def unassigned_section_def nth_append)
qed

text \<open>What a flat view says about an address, as the dispatch does: region, offset and read-only flag.\<close>

definition view_target :: "FlatRange list \<Rightarrow> int \<Rightarrow> (nat \<times> int \<times> bool) option" where
  "view_target rs a = map_option (\<lambda>(mr, off, mask, romd, ro). (mr, ulong off, ro)) (view_at rs a)"

lemma range_section:
  assumes "0 \<le> r_start (fr_addr r)" "addrrange_end (fr_addr r) \<le> 18446744073709551616" "0 < r_size (fr_addr r)"
  obtains sec where "section_from_flat_range r = Inr sec" "sec_ok sec" "\<And>a. sec_contains sec a \<longleftrightarrow> addrrange_contains (fr_addr r) a"
    "\<And>a rs. addrrange_contains (fr_addr r) a \<Longrightarrow> view_target (r # rs) a = sec_target sec a"
proof -
  define sec where "sec = \<lparr>ms_mr = Mr (fr_mr r), ms_offset_within_region = fr_offset_in_region r, ms_size = r_size (fr_addr r),
    ms_offset_within_address_space = r_start (fr_addr r), ms_readonly = fr_readonly r\<rparr>"
  show thesis
  proof (rule that [of sec])
    show "section_from_flat_range r = Inr sec" using assms by (simp add: section_from_flat_range_def int128_get64_def sec_def addrrange_end_def)
    show "sec_ok sec" using assms by (simp add: sec_ok_def sec_def addrrange_end_def)
    show "sec_contains sec a \<longleftrightarrow> addrrange_contains (fr_addr r) a" for a by (simp add: sec_contains_def sec_def addrrange_contains_def addrrange_end_def)
    show "view_target (r # rs) a = sec_target sec a" if "addrrange_contains (fr_addr r) a" for a rs
      using that by (simp add: view_target_def view_at_Cons fr_answer_def sec_target_def sec_def add.commute)
  qed
qed

lemma add_ranges_spec:
  assumes "flat_ok rs" "in_space rs" "1 \<le> tpb" "tpb \<le> 16" "dispatch_inv tpb d" "has_room tpb (3 * length rs) d" "\<And>a. view_at rs a \<noteq> None \<Longrightarrow> dispatch_target tpb d a = None"
  shows "\<exists>d' cs'. add_ranges rg tpb rs (d, cs) = Inr (d', cs') \<and> dispatch_inv tpb d' \<and> mru_section d' = mru_section d
    \<and> length (sections (disp_map d')) \<le> length (sections (disp_map d)) + 6 * length rs
    \<and> (\<forall>a. 0 \<le> a \<and> a < 18446744073709551616 \<longrightarrow> dispatch_target tpb d' a = (case view_target rs a of None \<Rightarrow> dispatch_target tpb d a | t \<Rightarrow> t))"
  using assms(1,2,5-7)
proof (induction rs arbitrary: d cs)
  case Nil
  then show ?case by (simp add: view_target_def view_at_def)
next
  case (Cons r rs)
  have r: "0 \<le> r_start (fr_addr r)" "addrrange_end (fr_addr r) \<le> 18446744073709551616" "0 < r_size (fr_addr r)"
    and rs: "flat_ok rs" "in_space rs" using Cons.prems(1,2) by (simp_all add: flat_ok_def in_space_def)
  obtain sec where sec: "section_from_flat_range r = Inr sec" "sec_ok sec" "\<And>a. sec_contains sec a \<longleftrightarrow> addrrange_contains (fr_addr r) a"
      "\<And>a rs. addrrange_contains (fr_addr r) a \<Longrightarrow> view_target (r # rs) a = sec_target sec a"
    using range_section [OF r] by metis
  have none: "dispatch_target tpb d a = None" if "sec_contains sec a" for a using Cons.prems(5) [of a] that sec(3) by (simp add: view_at_Cons fr_answer_def)
  have room: "has_room tpb 3 d" by (rule has_room_mono [OF Cons.prems(4)]) simp
  obtain d1 cs1 where g: "flatview_add_to_dispatch rg (P_L2_LEVELS tpb) tpb sec (d, cs) = Inr (d1, cs1)" "grows tpb sec 3 d d1"
    using flatview_add_grows [OF Cons.prems(3) assms(3,4) room sec(2) none] by blast
  have inv1: "dispatch_inv tpb d1" "length (sections (disp_map d1)) \<le> length (sections (disp_map d)) + 6" "mru_section d1 = mru_section d"
    and t1: "\<And>a. 0 \<le> a \<Longrightarrow> a < 18446744073709551616 \<Longrightarrow> dispatch_target tpb d1 a = (if sec_contains sec a then sec_target sec a else dispatch_target tpb d a)"
    using g(2) by (simp_all add: grows_def adds_target_def)
  have room1: "has_room tpb (3 * length rs) d1" by (rule has_room_after [OF g(2)]) (use Cons.prems(4) in simp)
  have none1: "dispatch_target tpb d1 a = None" if a: "view_at rs a \<noteq> None" for a
  proof -
    obtain q where q: "q \<in> set rs" "addrrange_contains (fr_addr q) a" using a by (auto simp: view_at_None)
    have "addrrange_end (fr_addr r) \<le> r_start (fr_addr q)" using Cons.prems(1) q(1) by (simp add: flat_ok_def)
    then have nc: "\<not> addrrange_contains (fr_addr r) a" using q(2) by (auto simp: addrrange_contains_def)
    have "0 \<le> r_start (fr_addr q) \<and> addrrange_end (fr_addr q) \<le> 18446744073709551616" using rs(2) q(1) by (simp add: in_space_def)
    then have "0 \<le> a" "a < 18446744073709551616" using q(2) by (auto simp: addrrange_contains_def)
    then show ?thesis using t1 nc sec(3) Cons.prems(5) [of a] a by (simp add: view_at_Cons)
  qed
  obtain d' cs' where w: "add_ranges rg tpb rs (d1, cs1) = Inr (d', cs')" "dispatch_inv tpb d'" "length (sections (disp_map d')) \<le> length (sections (disp_map d1)) + 6 * length rs"
      "\<forall>a. 0 \<le> a \<and> a < 18446744073709551616 \<longrightarrow> dispatch_target tpb d' a = (case view_target rs a of None \<Rightarrow> dispatch_target tpb d1 a | t \<Rightarrow> t)"
      "mru_section d' = mru_section d1"
    using Cons.IH [OF rs inv1(1) room1 none1] by blast
  have "dispatch_target tpb d' a = (case view_target (r # rs) a of None \<Rightarrow> dispatch_target tpb d a | t \<Rightarrow> t)" if a: "0 \<le> a" "a < 18446744073709551616" for a
  proof (cases "addrrange_contains (fr_addr r) a")
    case True
    have "dispatch_target tpb d1 a \<noteq> None" using t1 [OF a] True sec(2,3) by (auto simp: sec_target_def sec_ok_def)
    then have "view_at rs a = None" using none1 [of a] by metis
    then show ?thesis using w(4) a t1 [OF a] True sec(2,3) sec(4) [OF True] by (auto simp: view_target_def [of rs] sec_target_def sec_ok_def)
  next
    case False
    then have "view_target (r # rs) a = view_target rs a" by (simp add: view_target_def view_at_Cons)
    then show ?thesis using w(4) a t1 [OF a] False sec(3) by (simp split: option.splits)
  qed
  then show ?case using sec(1) g(1) w(1-3) w(5) inv1(2,3) by simp
qed

section \<open>Lookups\<close>

text \<open>A section of the table is found only for the pages that name it.\<close>

lemma covers_exact:
  assumes "page_table_ok tpb pg ss sp" "tpb \<le> 63" "0 \<le> a" "a < 18446744073709551616" "int y * 2 ^ tpb < 18446744073709551616" "pg y \<noteq> 0" "section_covers_addr (ss ! pg y) a"
  shows "pg (nat (a div 2 ^ tpb)) = pg y"
proof -
  note x = page_of_addr [OF assms(3), of tpb]
  show ?thesis
  proof (cases rule: page_okD [OF page_tableD(3) [OF assms(1,5)] assms(6)])
    case (1 r)
    have "sec_contains (ss ! pg y) a" using assms(3,4,7) 1(3) by (auto simp: section_covers_addr_def sec_contains_def sec_ok_def ulong_def)
    then show ?thesis by (intro 1(6)) (use contains_page [OF 1(4) x(1,2)] in blast)
  next
    case (2 k)
    have pos: "0 < (2 :: int) ^ tpb" "0 \<le> int y * 2 ^ tpb" by simp_all
    have "int y * 2 ^ tpb + 2 ^ tpb \<le> 18446744073709551616" using page_end [OF space_pages assms(5)] assms(2) by simp
    then have u: "ulong (int y * 2 ^ tpb + 2 ^ tpb - 1) = int y * 2 ^ tpb + 2 ^ tpb - 1" unfolding ulong_def using pos by (intro mod_pos_pos_trivial) linarith+
    have "(2 :: int) ^ tpb \<le> 2 ^ 63" using assms(2) by (intro power_increasing) simp_all
    then have "int y * 2 ^ tpb \<le> a" "a < int y * 2 ^ tpb + 2 ^ tpb" using assms(7) 2(4,5) u by (auto simp: section_covers_addr_def)
    then show ?thesis using page_of_unique by metis
  qed
qed

text \<open>\<open>d\<close> answers for the dispatch \<open>d0\<close> it was compacted from, whatever was looked up last.\<close>

definition serves :: "nat \<Rightarrow> AddressSpaceDispatch \<Rightarrow> AddressSpaceDispatch \<Rightarrow> bool" where
  "serves tpb d0 d \<longleftrightarrow> dispatch_inv tpb d0 \<and> sections (disp_map d) = sections (disp_map d0) \<and> disp_subpages d = disp_subpages d0
     \<and> (\<forall>a. 0 \<le> a \<and> a < 18446744073709551616
         \<longrightarrow> phys_page_find (P_L2_LEVELS tpb) tpb d a = page_section (P_L2_LEVELS tpb) d0 (nat (a div 2 ^ tpb)))
     \<and> (\<forall>s. mru_section d = Some s \<longrightarrow> (\<exists>y. int y * 2 ^ tpb < 18446744073709551616 \<and> s = page_section (P_L2_LEVELS tpb) d0 y))"

lemma compact_serves:
  assumes "dispatch_inv tpb d0" "tpb \<le> 16" "length (sections (disp_map d0)) \<le> 2 ^ tpb" "mru_section d0 = None"
  shows "\<exists>d. address_space_dispatch_compact (P_L2_LEVELS tpb) d0 = Some d \<and> serves tpb d0 d"
proof -
  let ?L = "P_L2_LEVELS tpb" and ?ss = "sections (disp_map d0)"
  obtain l where l: "?L = Suc l" by (simp add: P_L2_LEVELS_def)
  have inv: "dispatch_ok (Suc l) d0" "page_table_ok tpb (page_section ?L d0) ?ss (disp_subpages d0)" using assms(1) by (simp_all add: dispatch_inv_def l)
  have "page_section (Suc l) d0 x \<noteq> PHYS_MAP_NODE_NIL" if "x < 512 ^ Suc l" for x
  proof -
    have "page_section (Suc l) d0 x < 65536" using assms(1) that by (simp add: dispatch_inv_def l)
    then show ?thesis by (simp add: PHYS_MAP_NODE_NIL_def)
  qed
  from dispatch_compact [OF inv(1) this, folded l]
  obtain d where d: "address_space_dispatch_compact ?L d0 = Some d" "sections (disp_map d) = ?ss" "disp_subpages d = disp_subpages d0" "mru_section d = mru_section d0"
      and ap: "\<And>x. x < 512 ^ ?L \<Longrightarrow> page_section ?L d x = page_section ?L d0 x
        \<or> page_section ?L d0 x = 0 \<and> (\<exists>y<512 ^ ?L. page_section ?L d x = page_section ?L d0 y)" by blast
  have "phys_page_find ?L tpb d a = page_section ?L d0 (nat (a div 2 ^ tpb))" if a: "0 \<le> a" "a < 18446744073709551616" for a
  proof -
    let ?x = "nat (a div 2 ^ tpb)"
    have tpb: "tpb \<le> 63" "tpb \<le> 64" using assms(2) by simp_all
    have "int ?x * 2 ^ tpb < 18446744073709551616" using page_of_addr(1) [OF a(1), of tpb] a(2) by linarith
    then have x: "?x < 512 ^ ?L" by (rule levels_enough [OF tpb(1)])
    have find: "phys_page_find ?L tpb d a = (if section_covers_addr (?ss ! page_section ?L d ?x) a then page_section ?L d ?x else 0)"
      by (simp add: phys_page_find_def page_section_def d(2) PHYS_SECTION_UNASSIGNED_def Let_def)
    consider "page_section ?L d ?x = page_section ?L d0 ?x"
      | y where "page_section ?L d0 ?x = 0" "y < 512 ^ ?L" "page_section ?L d ?x = page_section ?L d0 y" "page_section ?L d0 y \<noteq> 0" using ap [OF x] by metis
    then show ?thesis
    proof cases
      case 1
      then show ?thesis using find table_covers [OF inv(2) tpb(2) a] by simp
    next
      case 2
      then have "int y * 2 ^ tpb < 18446744073709551616" using assms(1) by (simp add: dispatch_inv_def)
      from covers_exact [OF inv(2) tpb(1) a this 2(4)] show ?thesis using find 2 by auto
    qed
  qed
  then have "serves tpb d0 d" using assms(1,4) d(2-4) by (simp add: serves_def)
  then show ?thesis using d(1) by blast
qed

text \<open>Lookups in a row; the last section looked up is remembered.\<close>

fun after_lookups :: "nat \<Rightarrow> AddressSpaceDispatch \<Rightarrow> (int \<times> bool) list \<Rightarrow> AddressSpaceDispatch" where
  "after_lookups tpb d [] = d"
| "after_lookups tpb d ((a, r) # as) = after_lookups tpb (snd (address_space_lookup_region (P_L2_LEVELS tpb) tpb d a r)) as"

lemma lookup_serves:
  assumes "serves tpb d0 d" "tpb \<le> 16" "0 \<le> a" "a < 18446744073709551616"
  shows "fst (address_space_lookup_region (P_L2_LEVELS tpb) tpb d a True) = entry_of tpb (page_section (P_L2_LEVELS tpb) d0) (sections (disp_map d0)) (disp_subpages d0) a"
    "serves tpb d0 (snd (address_space_lookup_region (P_L2_LEVELS tpb) tpb d a r))"
proof -
  let ?L = "P_L2_LEVELS tpb" and ?x = "nat (a div 2 ^ tpb)"
  have s: "sections (disp_map d) = sections (disp_map d0)" "disp_subpages d = disp_subpages d0" "phys_page_find ?L tpb d a = page_section ?L d0 ?x"
    using assms(1,3,4) by (simp_all add: serves_def)
  have mru: "s = page_section ?L d0 ?x" if m: "mru_section d = Some s" "s \<noteq> 0" "section_covers_addr (sections (disp_map d0) ! s) a" for s
  proof -
    obtain y where y: "int y * 2 ^ tpb < 18446744073709551616" "s = page_section ?L d0 y" using assms(1) m(1) by (auto simp: serves_def)
    have "page_table_ok tpb (page_section ?L d0) (sections (disp_map d0)) (disp_subpages d0)" using assms(1) by (simp add: serves_def dispatch_inv_def)
    from covers_exact [OF this _ assms(3,4) y(1)] show ?thesis using y(2) m(2,3) assms(2) by simp
  qed
  have x: "int ?x * 2 ^ tpb < 18446744073709551616" using page_of_addr(1) [OF assms(3), of tpb] assms(4) by linarith
  let ?e = "page_section ?L d0 ?x"
  have upd: "serves tpb d0 (d\<lparr>mru_section := Some ?e\<rparr>)"
  proof -
    have "phys_page_find ?L tpb (d\<lparr>mru_section := Some ?e\<rparr>) = phys_page_find ?L tpb d" by (simp add: phys_page_find_def fun_eq_iff)
    moreover have "\<exists>y. int y * 2 ^ tpb < 18446744073709551616 \<and> ?e = page_section ?L d0 y" using x by blast
    ultimately show ?thesis using assms(1) by (simp add: serves_def)
  qed
  obtain d1 where d1: "serves tpb d0 d1" "\<And>q. address_space_lookup_region ?L tpb d a q = (case ms_mr (sections (disp_map d0) ! ?e) of
      Subpage k \<Rightarrow> if q then (sub_section (disp_subpages d0 ! k) (nat (a mod 2 ^ tpb)), d1) else (?e, d1) | _ \<Rightarrow> (?e, d1))"
  proof (cases "\<exists>s. mru_section d = Some s \<and> s \<noteq> 0 \<and> section_covers_addr (sections (disp_map d0) ! s) a")
    case True
    then obtain s where m: "mru_section d = Some s" "s \<noteq> 0" "section_covers_addr (sections (disp_map d0) ! s) a" by blast
    show thesis
      by (rule that [OF assms(1)]) (use m mru [OF m] in \<open>simp add: address_space_lookup_region_def s PHYS_SECTION_UNASSIGNED_def Let_def split: section_mr.splits\<close>)
  next
    case False
    show thesis
      by (rule that [OF upd]) (use False in \<open>auto simp: address_space_lookup_region_def s PHYS_SECTION_UNASSIGNED_def Let_def split: option.splits section_mr.splits\<close>)
  qed
  show "fst (address_space_lookup_region ?L tpb d a True) = entry_of tpb (page_section ?L d0) (sections (disp_map d0)) (disp_subpages d0) a"
    unfolding d1(2) by (simp add: entry_of_def split: section_mr.splits)
  show "serves tpb d0 (snd (address_space_lookup_region ?L tpb d a r))"
    unfolding d1(2) using d1(1) by (simp split: section_mr.splits)
qed

lemma lookups_serve:
  "serves tpb d0 d \<Longrightarrow> tpb \<le> 16 \<Longrightarrow> \<forall>(a, r)\<in>set hist. 0 \<le> a \<and> a < 18446744073709551616 \<Longrightarrow> serves tpb d0 (after_lookups tpb d hist)"
proof (induction hist arbitrary: d)
  case (Cons h hist)
  obtain a r where h: "h = (a, r)" by (cases h)
  have "serves tpb d0 (snd (address_space_lookup_region (P_L2_LEVELS tpb) tpb d a r))" by (rule lookup_serves(2)) (use Cons.prems h in auto)
  then show ?case using Cons.IH Cons.prems(2,3) by (simp add: h)
qed simp

section \<open>Translation\<close>

text \<open>What a translation must say about an address: unassigned, or the region, the offset and the read-only flag, and for RAM a length
  of which every byte belongs to the region, the next byte after the last.\<close>

definition translates :: "regions \<Rightarrow> (int \<Rightarrow> (nat \<times> int \<times> bool) option) \<Rightarrow> int \<Rightarrow> int \<Rightarrow> MemoryRegionSection \<Rightarrow> int \<Rightarrow> int \<Rightarrow> bool" where
  "translates rg t a plen sec xlat p \<longleftrightarrow> (case t a of
     None \<Rightarrow> ms_mr sec = Io_mem_unassigned \<and> xlat = a \<and> p = plen
   | Some (r, off, ro) \<Rightarrow> ms_mr sec = Mr r \<and> xlat = off \<and> ms_readonly sec = ro
       \<and> (if mr_ram (rg r) then 0 < p \<and> p \<le> plen \<and> a + p \<le> 18446744073709551616 \<and> (\<forall>i. 0 \<le> i \<and> i < p \<longrightarrow> t (a + i) = Some (r, ulong (off + i), ro)) else p = plen))"

lemma entry_zero:
  assumes "page_table_ok tpb pg ss sp" "target_of tpb pg ss sp a = None" "0 \<le> a" "a < 18446744073709551616"
  shows "entry_of tpb pg ss sp a = 0"
proof (rule ccontr)
  assume nz: "entry_of tpb pg ss sp a \<noteq> 0"
  from entry_exact(2) [OF assms(1,3,4) nz] show False using assms(2) by (auto simp: target_of_def sec_target_def sec_ok_def)
qed

lemma serves_translates:
  assumes "serves tpb d0 d" "tpb \<le> 16" "0 \<le> a" "a < 18446744073709551616" "0 < plen" "plen < 18446744073709551616"
  shows "\<exists>s xlat p d'. address_space_translate_internal rg (P_L2_LEVELS tpb) tpb d a plen True = Inr (s, xlat, p, d') \<and> serves tpb d0 d'
    \<and> translates rg (dispatch_target tpb d0) a plen (sections (disp_map d) ! s) xlat p"
proof -
  let ?L = "P_L2_LEVELS tpb" and ?ss = "sections (disp_map d0)" and ?sp = "disp_subpages d0"
  let ?s = "entry_of tpb (page_section ?L d0) ?ss ?sp a"
  let ?sec = "?ss ! ?s"
  have t: "page_table_ok tpb (page_section ?L d0) ?ss ?sp" and ss: "sections (disp_map d) = ?ss" using assms(1) by (simp_all add: serves_def dispatch_inv_def)
  obtain d' where d': "address_space_lookup_region ?L tpb d a True = (?s, d')" "serves tpb d0 d'"
    using lookup_serves [OF assms(1-4)] by (metis prod.collapse)
  have dt: "dispatch_target tpb d0 b = sec_target (?ss ! entry_of tpb (page_section ?L d0) ?ss ?sp b) b" for b by (simp add: dispatch_target_def target_of_def)
  show ?thesis
  proof (cases "?s = 0")
    case True
    have z: "?ss ! 0 = unassigned_section" by (rule page_tableD(2) [OF t])
    have "address_space_translate_internal rg ?L tpb d a plen True = Inr (0, a, plen, d')"
      using d'(1) assms(3,4) unfolding True by (simp add: address_space_translate_internal_def ss z unassigned_section_def section_is_ram_def ulong_def)
    moreover have "translates rg (dispatch_target tpb d0) a plen (?ss ! 0) a plen"
      unfolding translates_def dt True z by (simp add: unassigned_section_def sec_target_def)
    ultimately show ?thesis using d'(2) ss by auto
  next
    case False
    note e = entry_exact [OF t assms(3,4) False]
    obtain r where r: "ms_mr ?sec = Mr r" using e(2) by (auto simp: sec_ok_def)
    let ?o = "ms_offset_within_address_space ?sec" and ?x = "ulong (a - ms_offset_within_address_space ?sec + ms_offset_within_region ?sec)"
    have in_sec: "?o \<le> a" "a < ?o + ms_size ?sec" "0 \<le> ?o" using e(2,3) by (auto simp: sec_contains_def sec_ok_def)
    have u: "ulong (a - ?o) = a - ?o" using in_sec assms(4) by (simp add: ulong_def)
    define p where "p = (if mr_ram (rg r) then min (ms_size ?sec - (a - ?o)) plen else plen)"
    have "address_space_translate_internal rg ?L tpb d a plen True = Inr (?s, ?x, p, d')"
      using d'(1) r in_sec assms(5,6) by (simp add: address_space_translate_internal_def ss section_is_ram_def u p_def int128_get64_def min_less_iff_disj Let_def)
    moreover have "translates rg (dispatch_target tpb d0) a plen ?sec ?x p"
    proof -
      have "dispatch_target tpb d0 (a + i) = Some (r, ulong (?x + i), ms_readonly ?sec)" if i: "0 \<le> i" "i < p" "mr_ram (rg r)" for i
      proof -
        have "sec_contains ?sec (a + i)" using i in_sec by (simp add: p_def sec_contains_def)
        then have "entry_of tpb (page_section ?L d0) ?ss ?sp (a + i) = ?s" by (rule e(4))
        moreover have "ulong (a + i - ?o + ms_offset_within_region ?sec) = ulong (?x + i)" unfolding ulong_def mod_add_left_eq by (simp add: algebra_simps)
        ultimately show ?thesis using r by (simp add: dt sec_target_def)
      qed
      moreover have "0 < p" "p \<le> plen" using in_sec assms(5) by (simp_all add: p_def)
      moreover have "a + p \<le> 18446744073709551616" if "mr_ram (rg r)"
      proof -
        have "p \<le> ms_size ?sec - (a - ?o)" using that by (simp add: p_def)
        then show ?thesis using e(2) unfolding sec_ok_def by linarith
      qed
      ultimately show ?thesis using r by (simp add: translates_def dt sec_target_def) (simp add: p_def)
    qed
    ultimately show ?thesis using d'(2) ss by auto
  qed
qed

lemma view_dispatch_serves:
  assumes "flat_ok (fv_ranges view)" "in_space (fv_ranges view)" "2 \<le> tpb" "tpb \<le> 16" "4 + 6 * length (fv_ranges view) \<le> 2 ^ tpb"
  shows "\<exists>d0 d cs'. view_dispatch rg tpb hint view cs = Some (Inr (d, cs')) \<and> serves tpb d0 d
    \<and> (\<forall>a. 0 \<le> a \<and> a < 18446744073709551616 \<longrightarrow> dispatch_target tpb d0 a = view_target (fv_ranges view) a)"
proof -
  let ?rs = "fv_ranges view"
  obtain d1 where d1: "address_space_dispatch_new rg tpb hint cs = Inr (d1, cs)" "dispatch_inv tpb d1" "length (sections (disp_map d1)) = 4" "nodes_nb (disp_map d1) = 0"
      "mru_section d1 = None" "\<And>a. dispatch_target tpb d1 a = None" using dispatch_new [OF assms(3,4)] by metis
  have "(2 :: nat) ^ tpb \<le> 2 ^ 16" using assms(4) by (intro power_increasing) simp_all
  then have n: "length ?rs \<le> 10922" using assms(5) by simp
  have "P_L2_LEVELS tpb \<le> 7" using assms(3) by (simp add: P_L2_LEVELS_def)
  then have "9 * length ?rs * P_L2_LEVELS tpb \<le> 9 * 10922 * 7" using n by (intro mult_mono) simp_all
  then have room: "has_room tpb (3 * length ?rs) d1" using d1(3,4) assms(5) by (simp add: has_room_def PHYS_MAP_NODE_NIL_def)
  have tpb: "1 \<le> tpb" using assms(3) by simp
  obtain d0 cs' where d0: "add_ranges rg tpb ?rs (d1, cs) = Inr (d0, cs')" "dispatch_inv tpb d0" "mru_section d0 = mru_section d1"
      "length (sections (disp_map d0)) \<le> length (sections (disp_map d1)) + 6 * length ?rs"
      "\<forall>a. 0 \<le> a \<and> a < 18446744073709551616 \<longrightarrow> dispatch_target tpb d0 a = (case view_target ?rs a of None \<Rightarrow> dispatch_target tpb d1 a | t \<Rightarrow> t)"
    using add_ranges_spec [OF assms(1,2) tpb assms(4) d1(2) room d1(6)] by blast
  have len: "length (sections (disp_map d0)) \<le> 2 ^ tpb" using d0(4) d1(3) assms(5) by linarith
  obtain d where d: "address_space_dispatch_compact (P_L2_LEVELS tpb) d0 = Some d" "serves tpb d0 d"
    using compact_serves [OF d0(2) assms(4) len] d0(3) d1(5) by auto
  have "dispatch_target tpb d0 a = view_target ?rs a" if "0 \<le> a" "a < 18446744073709551616" for a
    using d0(5) that d1(6) by (simp split: option.splits)
  then show ?thesis using d1(1) d0(1) d by (auto simp: view_dispatch_def)
qed

lemma translates_cong:
  assumes "translates rg t a plen sec xlat p" "\<And>b. 0 \<le> b \<Longrightarrow> b < 18446744073709551616 \<Longrightarrow> t' b = t b" "0 \<le> a" "a < 18446744073709551616"
  shows "translates rg t' a plen sec xlat p"
proof (cases "t a")
  case None
  then show ?thesis using assms(1) assms(2) [OF assms(3,4)] by (simp add: translates_def)
next
  case (Some z)
  obtain r off ro where z: "z = (r, off, ro)" by (cases z)
  show ?thesis
  proof (cases "mr_ram (rg r)")
    case True
    have w: "a + p \<le> 18446744073709551616" "\<And>i. 0 \<le> i \<Longrightarrow> i < p \<Longrightarrow> t (a + i) = Some (r, ulong (off + i), ro)"
      using assms(1) Some z True by (simp_all add: translates_def)
    have "t' (a + i) = Some (r, ulong (off + i), ro)" if "0 \<le> i" "i < p" for i using w(2) [OF that] assms(2) [of "a + i"] that w(1) assms(3) by simp
    then show ?thesis using assms(1) assms(2) [OF assms(3,4)] Some z True by (simp add: translates_def)
  next
    case False
    then show ?thesis using assms(1) assms(2) [OF assms(3,4)] Some z by (simp add: translates_def)
  qed
qed

text \<open>What the graph of regions below \<open>p\<close> says about an address.\<close>

definition graph_target :: "nat \<Rightarrow> bool \<Rightarrow> regions \<Rightarrow> nat \<Rightarrow> int \<Rightarrow> (nat \<times> int \<times> bool) option" where
  "graph_target fuel gdl rg p a = map_option (\<lambda>(mr, off, mask, romd, ro). (mr, ulong off, ro)) (region_at fuel gdl rg p 0 False a)"

text \<open>C10: the dispatch built from a rendered topology answers like the graph of regions. For every acyclic graph whose view has few enough
  ranges (\<open>phys_section_add\<close> asserts that the sections fit below a page), building and compacting the dispatch succeeds, and after any
  earlier lookups the translation of any address of the 64-bit space gives the region, the offset and the read-only flag that the graph
  gives, or the unassigned region where the graph has none; for RAM it also gives a length, not zero, of which every byte belongs to the
  region at the next offset.\<close>

theorem dispatch_translates:
  assumes "sizes_ok rg" "ranked rk rg" "rk p < fuel" "2 \<le> tpb" "tpb \<le> 16"
  shows "\<exists>view cs1. render_topology fuel gdl rg (Some p) cs = Some (Inr (view, cs1))
    \<and> (4 + 6 * length (fv_ranges view) \<le> 2 ^ tpb \<longrightarrow> (\<exists>d cs2. view_dispatch rg tpb hint view cs1 = Some (Inr (d, cs2))
        \<and> (\<forall>hist a plen. (\<forall>(b, r)\<in>set hist. 0 \<le> b \<and> b < 18446744073709551616) \<and> 0 \<le> a \<and> a < 18446744073709551616 \<and> 0 < plen \<and> plen < 18446744073709551616
            \<longrightarrow> (\<exists>s xlat q d'. address_space_translate_internal rg (P_L2_LEVELS tpb) tpb (after_lookups tpb d hist) a plen True = Inr (s, xlat, q, d')
                 \<and> translates rg (graph_target fuel gdl rg p) a plen (sections (disp_map d) ! s) xlat q))))"
proof -
  obtain view cs1 where v: "render_topology fuel gdl rg (Some p) cs = Some (Inr (view, cs1))" "flat_ok (fv_ranges view)" "in_space (fv_ranges view)"
      "\<And>a. 0 \<le> a \<Longrightarrow> a < 18446744073709551616 \<Longrightarrow> view_at (fv_ranges view) a = region_at fuel gdl rg p 0 False a"
    using render_resolves [OF assms(1-3), of gdl cs] by blast
  have gt: "graph_target fuel gdl rg p a = view_target (fv_ranges view) a" if "0 \<le> a" "a < 18446744073709551616" for a
    using v(4) [OF that] by (simp add: graph_target_def view_target_def)
  have "\<exists>d cs2. view_dispatch rg tpb hint view cs1 = Some (Inr (d, cs2))
      \<and> (\<forall>hist a plen. (\<forall>(b, r)\<in>set hist. 0 \<le> b \<and> b < 18446744073709551616) \<and> 0 \<le> a \<and> a < 18446744073709551616 \<and> 0 < plen \<and> plen < 18446744073709551616
          \<longrightarrow> (\<exists>s xlat q d'. address_space_translate_internal rg (P_L2_LEVELS tpb) tpb (after_lookups tpb d hist) a plen True = Inr (s, xlat, q, d')
               \<and> translates rg (graph_target fuel gdl rg p) a plen (sections (disp_map d) ! s) xlat q))"
    if small: "4 + 6 * length (fv_ranges view) \<le> 2 ^ tpb"
  proof -
    obtain d0 d cs2 where d: "view_dispatch rg tpb hint view cs1 = Some (Inr (d, cs2))" "serves tpb d0 d"
        "\<And>a. 0 \<le> a \<Longrightarrow> a < 18446744073709551616 \<Longrightarrow> dispatch_target tpb d0 a = view_target (fv_ranges view) a"
      using view_dispatch_serves [OF v(2,3) assms(4,5) small] by metis
    have "\<exists>s xlat q d'. address_space_translate_internal rg (P_L2_LEVELS tpb) tpb (after_lookups tpb d hist) a plen True = Inr (s, xlat, q, d')
        \<and> translates rg (graph_target fuel gdl rg p) a plen (sections (disp_map d) ! s) xlat q"
      if h: "\<forall>(b, r)\<in>set hist. 0 \<le> b \<and> b < 18446744073709551616" and a: "0 \<le> a" "a < 18446744073709551616" "0 < plen" "plen < 18446744073709551616" for hist a plen
    proof -
      let ?d = "after_lookups tpb d hist"
      have sv: "serves tpb d0 ?d" by (rule lookups_serve [OF d(2) assms(5) h])
      have ss: "sections (disp_map ?d) = sections (disp_map d)" using sv d(2) by (simp add: serves_def)
      obtain s xlat q d' where t: "address_space_translate_internal rg (P_L2_LEVELS tpb) tpb ?d a plen True = Inr (s, xlat, q, d')"
          "translates rg (dispatch_target tpb d0) a plen (sections (disp_map d) ! s) xlat q"
        using serves_translates [OF sv assms(5) a, of rg] ss by metis
      have "translates rg (graph_target fuel gdl rg p) a plen (sections (disp_map d) ! s) xlat q"
        by (rule translates_cong [OF t(2) _ a(1,2)]) (simp add: gt d(3))
      then show ?thesis using t(1) by blast
    qed
    then show ?thesis using d(1) by blast
  qed
  then show ?thesis using v(1) by blast
qed

theorem dispatch_translates_witness:
  "\<exists>view cs1 d cs2 s xlat q d'. render_topology 3 False demo_regions (Some 0) (\<lambda>_. 0) = Some (Inr (view, cs1))
    \<and> view_dispatch demo_regions 12 16 view cs1 = Some (Inr (d, cs2))
    \<and> address_space_translate_internal demo_regions (P_L2_LEVELS 12) 12 (after_lookups 12 d [(0, True), (9000, False)]) 5000 8 True = Inr (s, xlat, q, d')
    \<and> ms_mr (sections (disp_map d) ! s) = Mr 3 \<and> xlat = 5000 \<and> 0 < q"
proof -
  have at: "region_at 3 False demo_regions 0 0 False 5000 = Some (3, 5000, 0, True, False)"
    by (simp add: region_at_Suc eval_nat_numeral Let_def demo_regions_def plain_region_def addrrange_contains_def
        addrrange_make_def addrrange_end_def memory_region_get_dirty_log_mask_def)
  then have gt: "graph_target 3 False demo_regions 0 5000 = Some (3, 5000, False)" by (simp add: graph_target_def ulong_def)
  have len: "map_option (\<lambda>r. case r of Inr (v, _) \<Rightarrow> length (fv_ranges v) | Inl _ \<Rightarrow> 99) (render_topology 3 False demo_regions (Some 0) (\<lambda>_. 0)) = Some 1"
    by code_simp
  obtain view cs1 where v: "render_topology 3 False demo_regions (Some 0) (\<lambda>_. 0) = Some (Inr (view, cs1))"
      and im: "4 + 6 * length (fv_ranges view) \<le> 2 ^ 12 \<longrightarrow> (\<exists>d cs2. view_dispatch demo_regions 12 16 view cs1 = Some (Inr (d, cs2))
        \<and> (\<forall>hist a plen. (\<forall>(b, r)\<in>set hist. 0 \<le> b \<and> b < 18446744073709551616) \<and> 0 \<le> a \<and> a < 18446744073709551616 \<and> 0 < plen \<and> plen < 18446744073709551616
            \<longrightarrow> (\<exists>s xlat q d'. address_space_translate_internal demo_regions (P_L2_LEVELS 12) 12 (after_lookups 12 d hist) a plen True = Inr (s, xlat, q, d')
                 \<and> translates demo_regions (graph_target 3 False demo_regions 0) a plen (sections (disp_map d) ! s) xlat q)))"
    using dispatch_translates [OF demo_ok(1,2), of 0 3 12 False "\<lambda>_. 0" 16] by (force simp: demo_rank_def)
  have one: "length (fv_ranges view) = 1" using len v by simp
  from im one obtain d cs2 where d: "view_dispatch demo_regions 12 16 view cs1 = Some (Inr (d, cs2))"
      and tr: "\<And>hist a plen. (\<forall>(b, r)\<in>set hist. 0 \<le> b \<and> b < 18446744073709551616) \<and> 0 \<le> a \<and> a < 18446744073709551616 \<and> 0 < plen \<and> plen < 18446744073709551616
            \<Longrightarrow> \<exists>s xlat q d'. address_space_translate_internal demo_regions (P_L2_LEVELS 12) 12 (after_lookups 12 d hist) a plen True = Inr (s, xlat, q, d')
                 \<and> translates demo_regions (graph_target 3 False demo_regions 0) a plen (sections (disp_map d) ! s) xlat q" by auto
  from tr [of "[(0, True), (9000, False)]" 5000 8] obtain s xlat q d' where
    "address_space_translate_internal demo_regions (P_L2_LEVELS 12) 12 (after_lookups 12 d [(0, True), (9000, False)]) 5000 8 True = Inr (s, xlat, q, d')"
    "translates demo_regions (graph_target 3 False demo_regions 0) 5000 8 (sections (disp_map d) ! s) xlat q" by auto
  moreover have "mr_ram (demo_regions 3)" by (simp add: demo_regions_def plain_region_def)
  ultimately show ?thesis using v d gt by (auto simp: translates_def)
qed

end
