(* ===== verification/Byte_Device.thy ===== *)
theory Byte_Device
  imports Memory_Access
begin

text \<open>
  What splitting and byte swapping amount to on a device that is an array of bytes: the guest sees the bytes in
  the order of the target, whatever the byte order of the device and the access sizes it implements. The
  interface of such a device is the locale \<open>byte_device\<close>; the RAM device of \<open>memory.c\<close> is one.
\<close>

section \<open>Bytes and words\<close>

definition word_order :: "bool \<Rightarrow> u8 list \<Rightarrow> u64" where
  "word_order big bs = bytes_word (if big then rev bs else bs)"

definition order_bytes :: "bool \<Rightarrow> nat \<Rightarrow> u64 \<Rightarrow> u8 list" where
  "order_bytes big n w = (if big then rev (word_bytes n w) else word_bytes n w)"

lemma length_order_bytes [simp]: "length (order_bytes big n w) = n"
  by (simp add: order_bytes_def)

lemma word_bytes_nth: "k < n \<Longrightarrow> word_bytes n w ! k = (ucast (drop_bit (8 * k) w) :: u8)"
  by (induction n w arbitrary: k rule: word_bytes.induct)
    (auto simp: nth_Cons' algebra_simps drop_bit_drop_bit)

lemma bytes_word_append: "bytes_word (xs @ ys) = (bytes_word xs OR push_bit (8 * length xs) (bytes_word ys) :: 'a::len word)"
  by (induction xs) (simp_all add: push_bit_or or.assoc)

lemma take_bit_bytes_word: "take_bit (8 * length xs) (bytes_word xs :: 'a::len word) = bytes_word xs"
proof (induction xs)
  case (Cons x xs)
  have "take_bit (8 * length (x # xs)) (push_bit 8 (bytes_word xs) :: 'a word) = push_bit 8 (take_bit (8 * length xs) (bytes_word xs))"
    by (rule bit_word_eqI) (auto simp: bit_simps)
  moreover have "take_bit (8 * length (x # xs)) (ucast x :: 'a word) = ucast x"
    by (rule bit_word_eqI) (auto simp: bit_simps dest: bit_imp_le_length)
  ultimately show ?case using Cons by (simp add: take_bit_or)
qed simp

lemma bytes_word_order [simp]: "n \<le> 8 \<Longrightarrow> word_order big (order_bytes big n w) = take_bit (8 * n) w"
  by (simp add: word_order_def order_bytes_def bytes_word_take)

lemma peek_append: "peek m a (i + n) = peek m a i @ peek m (a + int i) n"
  by (rule nth_equalityI) (auto simp: peek_def nth_append)

lemma poke_append: "poke (poke m a xs) (a + int (length xs)) ys = poke m a (xs @ ys)"
proof (rule ext)
  fix x
  have "nat (x - (a + int (length xs))) = nat (x - a) - length xs" by linarith
  then show "poke (poke m a xs) (a + int (length xs)) ys x = poke m a (xs @ ys) x"
    by (auto simp: poke_def nth_append nat_less_iff)
qed

lemma part_mask: "step \<le> 8 \<Longrightarrow> (x :: u64) AND drop_bit (64 - step * 8) (- 1) = take_bit (8 * step) x"
  by (rule bit_word_eqI) (auto simp: bit_simps)

lemma word_bytes_bytes_word: "length xs \<le> 8 \<Longrightarrow> word_bytes (length xs) (bytes_word xs :: u64) = xs"
proof (induction xs)
  case (Cons x xs)
  let ?w = "bytes_word xs :: u64"
  have t: "take_bit (8 * length xs) ?w = ?w" by (rule take_bit_bytes_word)
  have "drop_bit 8 (ucast x OR push_bit 8 ?w) = take_bit 56 ?w"
    by (rule bit_word_eqI) (auto simp: bit_simps dest: bit_imp_le_length)
  also have "take_bit 56 ?w = take_bit 56 (take_bit (8 * length xs) ?w)" by (simp only: t)
  also have "\<dots> = take_bit (8 * length xs) ?w" using Cons.prems by (simp add: take_bit_take_bit min_def)
  finally have "drop_bit 8 (ucast x OR push_bit 8 ?w) = ?w" by (simp only: t)
  moreover have "(ucast (ucast x OR push_bit 8 ?w :: u64) :: u8) = x"
    by (rule bit_word_eqI) (auto simp: bit_simps dest: bit_imp_le_length)
  ultimately show ?case using Cons by simp
qed simp

lemma bswap_order: "length bs \<le> 8 \<Longrightarrow> bswap (length bs) (word_order big bs) = word_order (\<not> big) bs"
  using word_bytes_bytes_word [of bs] word_bytes_bytes_word [of "rev bs"] by (simp add: bswap_def word_order_def)

lemma bswap_bytes: "n \<le> 8 \<Longrightarrow> order_bytes big n (bswap n w) = order_bytes (\<not> big) n w"
  using word_bytes_bytes_word [of "rev (word_bytes n w)"] by (simp add: bswap_def order_bytes_def)

section \<open>Parts of an access\<close>

lemma part_shift_simps:
  "part_shift False n step i = i * 8"
  "i + step \<le> n \<Longrightarrow> n \<le> 8 \<Longrightarrow> part_shift True n step i = (n - step - i) * 8"
  by (auto simp: part_shift_def uint32_def of_nat_diff nat_eq_iff)

lemma part_shift_less: "i + step \<le> n \<Longrightarrow> n \<le> 8 \<Longrightarrow> 0 < step \<Longrightarrow> part_shift big n step i < 64"
  by (cases big) (simp_all add: part_shift_simps)

text \<open>The value of a read after the first \<open>i\<close> bytes.\<close>

definition so_far :: "bool \<Rightarrow> nat \<Rightarrow> u8 list \<Rightarrow> u64" where
  "so_far big n bs = (if big then push_bit (8 * (n - length bs)) (word_order True bs) else word_order False bs)"

lemma put_part_so_far:
  assumes "length xs + length ys \<le> n" "n \<le> 8" "length ys \<le> 8"
  shows "put_part (so_far big n xs) (word_order big ys) (part_shift big n (length ys) (length xs)) (drop_bit (64 - length ys * 8) (- 1))
    = so_far big n (xs @ ys)"
proof (cases big)
  case False
  then show ?thesis
    using take_bit_bytes_word [of ys, where 'a = 64] unfolding put_part_def part_mask [OF assms(3)]
    by (simp add: so_far_def word_order_def part_shift_simps bytes_word_append mult.commute)
next
  case True
  have d: "8 * (n - length xs) = 8 * (n - length ys - length xs) + 8 * length ys" using assms(1) by simp
  have "so_far True n (xs @ ys) = push_bit (8 * (n - length ys - length xs)) (word_order True ys OR push_bit (8 * length ys) (word_order True xs))"
    using assms(1) by (simp add: so_far_def word_order_def bytes_word_append diff_diff_left add.commute)
  also have "\<dots> = so_far True n xs OR push_bit (8 * (n - length ys - length xs)) (word_order True ys)"
    by (simp add: so_far_def push_bit_or d or.commute)
  finally show ?thesis
    using True assms take_bit_bytes_word [of "rev ys", where 'a = 64] unfolding put_part_def part_mask [OF assms(3)]
    by (simp add: part_shift_simps word_order_def mult.commute)
qed

lemma get_part_bytes:
  assumes "i + step \<le> n" "n \<le> 8" "step \<le> 8"
  shows "order_bytes big step (get_part w (part_shift big n step i) (drop_bit (64 - step * 8) (- 1))) = take step (drop i (order_bytes big n w))"
proof -
  have ub: "(ucast (drop_bit (k * 8) (take_bit (step * 8) x)) :: u8) = ucast (drop_bit (k * 8) x)" if "k < step" for k and x :: u64
    by (rule bit_word_eqI) (use that in \<open>auto simp: bit_simps\<close>)
  show ?thesis
    unfolding get_part_def part_mask [OF assms(3)]
  proof (cases big)
    case False
    then show "order_bytes big step (take_bit (8 * step) (drop_bit (part_shift big n step i) w)) = take step (drop i (order_bytes big n w))"
      using assms by (intro nth_equalityI)
        (simp_all add: order_bytes_def word_bytes_nth part_shift_simps ub drop_bit_drop_bit algebra_simps)
  next
    case True
    have e: "(ucast (drop_bit (8 * (step - Suc j)) (take_bit (8 * step) (drop_bit ((n - (step + i)) * 8) w))) :: u8)
        = ucast (drop_bit (8 * (n - Suc (i + j))) w)" if j: "j < step" for j
    proof -
      have "(step - Suc j) * 8 + (n - (step + i)) * 8 = 8 * (n - Suc (i + j))" using assms(1) j by simp
      then show ?thesis using ub [of "step - Suc j" "drop_bit ((n - (step + i)) * 8) w"] j
        by (simp add: drop_bit_drop_bit mult.commute)
    qed
    show "order_bytes big step (take_bit (8 * step) (drop_bit (part_shift big n step i) w)) = take step (drop i (order_bytes big n w))"
      using assms True by (intro nth_equalityI) (simp_all add: order_bytes_def rev_nth word_bytes_nth part_shift_simps e)
  qed
qed

section \<open>The interface of a byte device\<close>

definition wsize :: "nat \<Rightarrow> bool" where
  "wsize n \<longleftrightarrow> n = 1 \<or> n = 2 \<or> n = 4 \<or> n = 8"

lemma wsize_bounds: "wsize n \<Longrightarrow> 0 < n \<and> n \<le> 8"
  by (auto simp: wsize_def)

locale byte_device =
  fixes rd :: "'d \<Rightarrow> int \<Rightarrow> nat \<Rightarrow> u64 \<times> 'd"
    and wr :: "'d \<Rightarrow> int \<Rightarrow> u64 \<Rightarrow> nat \<Rightarrow> 'd"
    and mem :: "'d \<Rightarrow> int \<Rightarrow> u8"
    and big :: bool
  assumes rd_bytes: "wsize n \<Longrightarrow> rd d a n = (word_order big (peek (mem d) a n), d)"
    and wr_bytes: "wsize n \<Longrightarrow> mem (wr d a w n) = poke (mem d) a (order_bytes big n w)"
begin

lemma read_loop:
  assumes "wsize step" "n \<le> 8" "i \<le> n" "step dvd n - i" "0 \<le> a" "a + int n \<le> 18446744073709551616"
    and M: "M = drop_bit (64 - step * 8) (- 1)"
  shows "access_loop (memory_region_read_accessor rd) big n step M atr a i MEMTX_OK
      (so_far big n (peek (mem d) a i)) d = Inr (MEMTX_OK, so_far big n (peek (mem d) a n), d)"
  using assms(3,4)
proof (induction "n - i" arbitrary: i rule: less_induct)
  case less
  have st: "0 < step" "step \<le> 8" using wsize_bounds [OF assms(1)] by auto
  show ?case
  proof (cases "i < n")
    case False
    then show ?thesis using less.prems(1) by (simp add: access_loop.simps)
  next
    case True
    have le: "i + step \<le> n" using True less.prems(2) dvd_imp_le [of step "n - i"] by simp
    have u: "ulong (a + int i) = a + int i" using assms(5,6) True by (intro ulong_id) simp_all
    have pk: "put_part (so_far big n (peek (mem d) a i)) (word_order big (peek (mem d) (a + int i) step))
        (part_shift big n step i) M = so_far big n (peek (mem d) a (i + step))"
      using put_part_so_far [of "peek (mem d) a i" "peek (mem d) (a + int i) step" n big] le assms(2) st(2)
      unfolding M by (simp add: peek_append)
    have "access_loop (memory_region_read_accessor rd) big n step M atr a (i + step) MEMTX_OK
        (so_far big n (peek (mem d) a (i + step))) d = Inr (MEMTX_OK, so_far big n (peek (mem d) a n), d)"
    proof (rule less.hyps)
      show "n - (i + step) < n - i" using True st(1) by simp
      show "i + step \<le> n" by (rule le)
      show "step dvd n - (i + step)" using less.prems(2) le dvd_diff_nat [of step "n - i" step] by (simp add: diff_diff_left)
    qed
    then show ?thesis
      using True st(1) part_shift_less [OF le assms(2) st(1)] rd_bytes [OF assms(1)]
      by (subst access_loop.simps) (simp add: memory_region_read_accessor_def u pk MEMTX_OK_def)
  qed
qed

lemma write_loop:
  assumes "wsize step" "n \<le> 8" "i \<le> n" "step dvd n - i" "0 \<le> a" "a + int n \<le> 18446744073709551616"
    and "mem d = poke m a (take i (order_bytes big n w))"
  shows "\<exists>d'. access_loop (memory_region_write_accessor wr) big n step (drop_bit (64 - step * 8) (- 1)) atr a i MEMTX_OK w d
      = Inr (MEMTX_OK, w, d') \<and> mem d' = poke m a (order_bytes big n w)"
  using assms(3,4,7)
proof (induction "n - i" arbitrary: i d rule: less_induct)
  case less
  have st: "0 < step" "step \<le> 8" using wsize_bounds [OF assms(1)] by auto
  show ?case
  proof (cases "i < n")
    case False
    then show ?thesis using less.prems(1,3) by (simp add: access_loop.simps)
  next
    case True
    let ?p = "get_part w (part_shift big n step i) (drop_bit (64 - step * 8) (- 1))"
    have le: "i + step \<le> n" using True less.prems(2) dvd_imp_le [of step "n - i"] by simp
    have u: "ulong (a + int i) = a + int i" using assms(5,6) True by (intro ulong_id) simp_all
    have m: "mem (wr d (a + int i) ?p step) = poke m a (take (i + step) (order_bytes big n w))"
      using wr_bytes [OF assms(1)] less.prems(3) get_part_bytes [OF le assms(2) st(2), of big w]
        poke_append [of m a "take i (order_bytes big n w)" "take step (drop i (order_bytes big n w))"] le
      by (simp add: take_add min_absorb2)
    have "\<exists>d'. access_loop (memory_region_write_accessor wr) big n step (drop_bit (64 - step * 8) (- 1)) atr a (i + step) MEMTX_OK w
        (wr d (a + int i) ?p step) = Inr (MEMTX_OK, w, d') \<and> mem d' = poke m a (order_bytes big n w)"
    proof (rule less.hyps)
      show "n - (i + step) < n - i" using True st(1) by simp
      show "i + step \<le> n" by (rule le)
      show "step dvd n - (i + step)" using less.prems(2) le dvd_diff_nat [of step "n - i" step] by (simp add: diff_diff_left)
    qed (rule m)
    then show ?thesis
      using True st(1) part_shift_less [OF le assms(2) st(1)]
      by (subst access_loop.simps) (simp add: memory_region_write_accessor_def u MEMTX_OK_def)
  qed
qed

end

text \<open>The accesses of a width the device implements without widening.\<close>

definition implements :: "'d MemoryRegionOps \<Rightarrow> nat \<Rightarrow> bool" where
  "implements ops n \<longleftrightarrow> wsize n \<and> wsize (access_size_of n (impl_min ops) (impl_max ops))
     \<and> access_size_of n (impl_min ops) (impl_max ops) \<le> n"

text \<open>A device whose callbacks are those of a byte device in its declared byte order.\<close>

locale device_ops = byte_device rd wr mem "memory_region_big_endian target_be (op_endianness ops)"
  for rd :: "'d \<Rightarrow> int \<Rightarrow> nat \<Rightarrow> u64 \<times> 'd" and wr mem target_be and ops :: "'d MemoryRegionOps" +
  assumes rd_op: "op_read ops = Some rd" and wr_op: "op_write ops = Some wr"
begin

lemma implementsD:
  assumes "implements ops n"
  shows "wsize n" "n \<le> 8" "wsize (access_size_of n (impl_min ops) (impl_max ops))" "access_size_of n (impl_min ops) (impl_max ops) dvd n"
  using assms by (auto simp: implements_def wsize_def)

lemma wrong_iff: "memory_region_wrong_endianness target_be en \<longleftrightarrow> memory_region_big_endian target_be en \<noteq> target_be"
  by (auto simp: memory_region_wrong_endianness_def memory_region_big_endian_def)

lemma adjust_word: "wsize (length bs) \<Longrightarrow>
    adjust_endianness target_be en (word_order (memory_region_big_endian target_be en) bs) (length bs) = Inr (word_order target_be bs)"
  using bswap_order [of bs "memory_region_big_endian target_be en"]
  by (cases "length bs = 1"; cases "memory_region_big_endian target_be en = target_be")
    (auto simp: adjust_endianness_def wrong_iff wsize_def word_order_def length_Suc_conv)

lemma adjust_bytes:
  assumes "wsize n"
  shows "\<exists>w'. adjust_endianness target_be en w n = Inr w' \<and> order_bytes (memory_region_big_endian target_be en) n w' = order_bytes target_be n w"
  using assms bswap_bytes [of n "memory_region_big_endian target_be en" w]
  by (cases "memory_region_big_endian target_be en = target_be")
    (auto simp: adjust_endianness_def wrong_iff wsize_def order_bytes_def)

lemma dispatch_read:
  assumes "memory_region_access_valid ops d a n False atr" "implements ops n" "0 \<le> a" "a + int n \<le> 18446744073709551616"
  shows "memory_region_dispatch_read target_be ops d a n atr = Inr (MEMTX_OK, word_order target_be (peek (mem d) a n), d)"
proof -
  let ?big = "memory_region_big_endian target_be (op_endianness ops)"
  note i = implementsD [OF assms(2)]
  have so: "so_far ?big n (peek (mem d) a 0) = 0" "so_far ?big n (peek (mem d) a n) = word_order ?big (peek (mem d) a n)"
    by (auto simp: so_far_def word_order_def peek_def)
  have "memory_region_dispatch_read1 target_be ops d a n atr = Inr (MEMTX_OK, word_order ?big (peek (mem d) a n), d)"
    using read_loop [OF i(3,2) _ _ assms(3,4) refl, of 0 atr d] i(4) so
    by (simp add: memory_region_dispatch_read1_def rd_op access_with_adjusted_size_def Let_def)
  then show ?thesis
    using assms(1) i(1) adjust_word [of "peek (mem d) a n"] by (simp add: memory_region_dispatch_read_def)
qed

lemma dispatch_write:
  assumes "memory_region_access_valid ops d a n True atr" "implements ops n" "0 \<le> a" "a + int n \<le> 18446744073709551616"
    and "kvm \<or> fds = []"
  shows "\<exists>d'. memory_region_dispatch_write target_be kvm fds ops d a w n atr = Inr (MEMTX_OK, None, d')
    \<and> mem d' = poke (mem d) a (order_bytes target_be n w)"
proof -
  let ?big = "memory_region_big_endian target_be (op_endianness ops)"
  note i = implementsD [OF assms(2)]
  obtain w' where w: "adjust_endianness target_be (op_endianness ops) w n = Inr w'" "order_bytes ?big n w' = order_bytes target_be n w"
    using adjust_bytes [OF i(1)] by blast
  have m0: "mem d = poke (mem d) a (take 0 (order_bytes ?big n w'))" by (auto simp: poke_def fun_eq_iff)
  obtain d' where "access_loop (memory_region_write_accessor wr) ?big n (access_size_of n (impl_min ops) (impl_max ops))
      (drop_bit (64 - access_size_of n (impl_min ops) (impl_max ops) * 8) (- 1)) atr a 0 MEMTX_OK w' d = Inr (MEMTX_OK, w', d')"
      "mem d' = poke (mem d) a (order_bytes ?big n w')"
    using write_loop [OF i(3,2) _ _ assms(3,4) m0] i(4) by auto
  then show ?thesis
    using assms(1,5) w by (auto simp: memory_region_dispatch_write_def wr_op access_with_adjusted_size_def Let_def)
qed

lemma write_then_read:
  assumes "memory_region_access_valid ops d a n True atr" "\<And>d. memory_region_access_valid ops d a n False atr"
    and "implements ops n" "0 \<le> a" "a + int n \<le> 18446744073709551616" "kvm \<or> fds = []"
  shows "\<exists>d'. memory_region_dispatch_write target_be kvm fds ops d a w n atr = Inr (MEMTX_OK, None, d')
    \<and> memory_region_dispatch_read target_be ops d' a n atr = Inr (MEMTX_OK, take_bit (8 * n) w, d')
    \<and> (\<forall>x. x < a \<or> a + int n \<le> x \<longrightarrow> mem d' x = mem d x)"
proof -
  obtain d' where d': "memory_region_dispatch_write target_be kvm fds ops d a w n atr = Inr (MEMTX_OK, None, d')"
      "mem d' = poke (mem d) a (order_bytes target_be n w)"
    using dispatch_write [OF assms(1,3-6)] by blast
  have "peek (mem d') a n = order_bytes target_be n w" by (simp add: d'(2) peek_poke_same)
  then show ?thesis
    using d' dispatch_read [OF assms(2-5)] implementsD(2) [OF assms(3)] by (auto simp: poke_def)
qed

end

interpretation ram: device_ops memory_region_ram_device_read memory_region_ram_device_write "\<lambda>m. m" target_be ram_device_mem_ops
  for target_be
  by unfold_locales
    (auto simp: memory_region_ram_device_read_def memory_region_ram_device_write_def ram_device_mem_ops_def
      memory_region_big_endian_def word_order_def order_bytes_def wsize_def)

lemma ram_valid: "memory_region_access_valid ram_device_mem_ops m a n wr atr"
  by (simp add: memory_region_access_valid_def ram_device_mem_ops_def)

lemma ram_implements: "wsize n \<Longrightarrow> implements ram_device_mem_ops n"
  by (auto simp: implements_def ram_device_mem_ops_def access_size_of_def wsize_def)

section \<open>Properties\<close>

text \<open>A device that is an array of bytes in its declared byte order is read in the byte order of the
  target, whichever access sizes it implements: the result of a dispatched read is the word the bytes at the
  address make up in target order.\<close>

theorem read_in_target_order:
  assumes "device_ops rd wr mem target_be ops" "memory_region_access_valid ops d a n False atr" "implements ops n"
    and "0 \<le> a" "a + int n \<le> 18446744073709551616"
  shows "memory_region_dispatch_read target_be ops d a n atr = Inr (MEMTX_OK, word_order target_be (peek (mem d) a n), d)"
  by (rule device_ops.dispatch_read [OF assms])

theorem read_in_target_order_witness:
  "memory_region_dispatch_read True ram_device_mem_ops (\<lambda>x. if x = 0 then 1 else 0) 0 4 0 = Inr (MEMTX_OK, 16777216, \<lambda>x. if x = 0 then 1 else 0)"
  using read_in_target_order [OF ram.device_ops_axioms ram_valid ram_implements, of 4 0 True "\<lambda>x. if x = 0 then 1 else 0" 0]
  by (simp add: wsize_def word_order_def peek_def upt_rec)

text \<open>Writing a value to the RAM device and reading it back gives the value cut to the access size, on
  targets of both byte orders; no other byte changes.\<close>

theorem ram_device_roundtrip:
  assumes "n = 1 \<or> n = 2 \<or> n = 4 \<or> n = 8" "0 \<le> a" "a + int n \<le> 18446744073709551616"
  shows "\<exists>m'. memory_region_dispatch_write target_be kvm [] ram_device_mem_ops m a w n atr = Inr (MEMTX_OK, None, m')
    \<and> memory_region_dispatch_read target_be ram_device_mem_ops m' a n atr = Inr (MEMTX_OK, take_bit (8 * n) w, m')
    \<and> (\<forall>x. x < a \<or> a + int n \<le> x \<longrightarrow> m' x = m x)"
  using ram.write_then_read [OF ram_valid ram_valid ram_implements assms(2,3), of kvm "[]"] assms(1) by (simp add: wsize_def)

theorem ram_device_roundtrip_witness:
  "\<exists>m'. memory_region_dispatch_write True True [] ram_device_mem_ops (\<lambda>_. 0) 4096 258 2 0 = Inr (MEMTX_OK, None, m')
    \<and> memory_region_dispatch_read True ram_device_mem_ops m' 4096 2 0 = Inr (MEMTX_OK, take_bit (8 * 2) 258, m')
    \<and> (\<forall>x. x < 4096 \<or> 4096 + int 2 \<le> x \<longrightarrow> m' x = 0)"
  using ram_device_roundtrip [of 2 4096 True True "\<lambda>_. 0" 258 0] by simp

text \<open>A big-endian device that only implements accesses wider than the requested one makes
  \<open>access_with_adjusted_size\<close> shift by a wrapped-around amount, which C leaves undefined; the comment in
  \<open>memory.h\<close> says such an access returns a partial result.\<close>

theorem narrow_access_undefined:
  assumes "memory_region_big_endian target_be en" "0 < n" "n < mn" "mn \<le> 8" "mx \<le> mn"
  shows "access_with_adjusted_size target_be en a v n mn mx fn atr d = Inl Undefined"
proof -
  have st: "access_size_of n mn mx = mn" using assms by (auto simp: access_size_of_def)
  have "int n - int mn \<in> {- 7, - 6, - 5, - 4, - 3, - 2, - 1}" using assms(2-4) by auto
  then have "64 \<le> uint32 (uint32 (int n - int mn) * 8)" by (elim insertE emptyE) (simp_all add: uint32_def)
  then have "\<not> part_shift True n mn 0 < 64" by (simp add: part_shift_def)
  then show ?thesis using assms by (simp add: access_with_adjusted_size_def st Let_def access_loop.simps)
qed

theorem narrow_access_undefined_witness:
  "access_with_adjusted_size False DEVICE_BIG_ENDIAN 0 0 1 4 4 (memory_region_read_accessor memory_region_ram_device_read) 0 (\<lambda>_. 0) = Inl Undefined"
  by (rule narrow_access_undefined) (simp_all add: memory_region_big_endian_def)

end
