(* ===== verification/Ram_Blocks.thy ===== *)
theory Ram_Blocks
  imports Pm_File
begin

text \<open>
  The list of RAM blocks (\<open>qemu-diff/exec.c\<close>): choosing the place of a new block in the \<open>ram_addr_t\<close> space,
  keeping the list sorted by size, the dirty bitmaps, resizing, freeing and looking up blocks.

  A \<open>ram_addr_t\<close> is an integer below \<open>2 ^ 64\<close>; sums and differences wrap by \<open>ulong\<close>. A block is named by
  \<open>rb_id\<close>, a number that stands for its address. The number of page bits of the target, the size of a dirty
  block and the host page size are arguments, as is what the host or Xen answers to an allocation. Calls into
  other parts of QEMU (dirty ranges, \<open>madvise\<close>, notifiers, resized callbacks) are entries of \<open>rl_calls\<close>.
  The locks make every operation one step. \<open>abort\<close> and a failed \<open>assert\<close> are the same outcome.
\<close>

section \<open>State\<close>

definition RAM_ADDR_MAX :: int where "RAM_ADDR_MAX = 18446744073709551615"

definition RAM_PREALLOC :: u32 where "RAM_PREALLOC = 1"
definition RAM_SHARED :: u32 where "RAM_SHARED = 2"
definition RAM_RESIZEABLE :: u32 where "RAM_RESIZEABLE = 4"
definition RAM_UF_ZEROPAGE :: u32 where "RAM_UF_ZEROPAGE = 8"
definition RAM_MIGRATABLE :: u32 where "RAM_MIGRATABLE = 16"

record RAMBlock =
  rb_id :: nat
  rb_mr :: nat
  rb_host :: int
  rb_offset :: int
  rb_used_length :: int
  rb_max_length :: int
  rb_resized :: bool
  rb_flags :: u32
  rb_idstr :: string
  rb_fd :: int
  rb_page_size :: int

datatype ram_call = Set_dirty int int | Clear_dirty int int | Merge_advice int int | Dump_advice int int | Hugepage_advice int int
  | Dontfork_advice int int | Notify_add int int | Notify_remove int int | Region_set_size nat int | Resized nat int | Reclaim nat

type_synonym bitmap = "nat \<Rightarrow> bool"

record RAMList =
  rl_blocks :: "RAMBlock list"
  rl_mru_block :: "nat option"
  rl_version :: u32
  rl_dirty_memory :: "bitmap list list"
  rl_calls :: "ram_call list"

definition ram_call :: "ram_call list \<Rightarrow> RAMList \<Rightarrow> RAMList" where
  "ram_call cs st = st\<lparr>rl_calls := rl_calls st @ cs\<rparr>"

section \<open>Finding a place\<close>

text \<open>\<open>ROUND_UP\<close> for a power of two.\<close>

definition round_up :: "int \<Rightarrow> int \<Rightarrow> int" where
  "round_up n d = ulong (n + d - 1) div d * d"

definition bitmap_align :: "nat \<Rightarrow> int" where
  "bitmap_align tpb = 64 * 2 ^ tpb"

fun next_offset :: "int \<Rightarrow> RAMBlock list \<Rightarrow> int \<Rightarrow> int" where
  "next_offset candidate [] next = next"
| "next_offset candidate (b # bs) next =
     next_offset candidate bs (if rb_offset b \<ge> candidate then min next (rb_offset b) else next)"

definition candidate_after :: "nat \<Rightarrow> RAMBlock \<Rightarrow> int" where
  "candidate_after tpb b = round_up (ulong (rb_offset b + rb_max_length b)) (bitmap_align tpb)"

fun best_gap :: "nat \<Rightarrow> int \<Rightarrow> RAMBlock list \<Rightarrow> RAMBlock list \<Rightarrow> int \<Rightarrow> int \<Rightarrow> int" where
  "best_gap tpb n all [] offset mingap = offset"
| "best_gap tpb n all (b # bs) offset mingap =
     (let candidate = candidate_after tpb b; gap = ulong (next_offset candidate all RAM_ADDR_MAX - candidate) in
      if gap \<ge> n \<and> gap < mingap then best_gap tpb n all bs candidate gap else best_gap tpb n all bs offset mingap)"

definition find_ram_offset :: "nat \<Rightarrow> RAMBlock list \<Rightarrow> int \<Rightarrow> int res" where
  "find_ram_offset tpb bs n =
     (if n = 0 then Inl Assert_failed
      else if bs = [] then Inr 0
      else let offset = best_gap tpb n bs bs RAM_ADDR_MAX RAM_ADDR_MAX
           in if offset = RAM_ADDR_MAX then Inl Assert_failed else Inr offset)"

fun last_of :: "RAMBlock list \<Rightarrow> int \<Rightarrow> int" where
  "last_of [] hi = hi"
| "last_of (b # bs) hi = last_of bs (max hi (ulong (rb_offset b + rb_max_length b)))"

definition last_ram_page :: "nat \<Rightarrow> RAMBlock list \<Rightarrow> int" where
  "last_ram_page tpb bs = last_of bs 0 div 2 ^ tpb"

section \<open>Dirty bitmaps\<close>

definition div_round_up :: "int \<Rightarrow> int \<Rightarrow> int" where
  "div_round_up n d = ulong (n + d - 1) div d"

definition dirty_memory_extend :: "int \<Rightarrow> int \<Rightarrow> int \<Rightarrow> bitmap list list \<Rightarrow> bitmap list list" where
  "dirty_memory_extend dbs old_ram_size new_ram_size dm =
     (let old_num_blocks = div_round_up old_ram_size dbs; new_num_blocks = div_round_up new_ram_size dbs in
      if new_num_blocks \<le> old_num_blocks then dm
      else map (\<lambda>blocks. take (nat old_num_blocks) blocks @ replicate (nat (new_num_blocks - old_num_blocks)) (\<lambda>_. False)) dm)"

section \<open>Adding a block\<close>

text \<open>Before the first smaller block, else at the end.\<close>

fun insert_block :: "RAMBlock \<Rightarrow> RAMBlock list \<Rightarrow> RAMBlock list" where
  "insert_block nb [] = [nb]"
| "insert_block nb (b # bs) = (if rb_max_length b < rb_max_length nb then nb # b # bs else b # insert_block nb bs)"

text \<open>What the machine and the host answer: \<open>he_xen\<close> is \<open>None\<close> without Xen, else whether \<open>xen_ram_alloc\<close>
  succeeds; \<open>he_alloc\<close> is \<open>phys_mem_alloc\<close>, 0 when it fails.\<close>

record host_env =
  he_tpb :: nat
  he_dirty_block :: int
  he_page :: int
  he_xen :: "bool option"
  he_alloc :: "int \<Rightarrow> bool \<Rightarrow> int"
  he_merge :: bool
  he_dump_core :: bool

definition host_of :: "host_env \<Rightarrow> RAMBlock \<Rightarrow> bool \<Rightarrow> (int \<times> ram_call list) option" where
  "host_of he nb shared =
     (if rb_host nb \<noteq> 0 then Some (rb_host nb, [])
      else case he_xen he of
          Some b \<Rightarrow> if b then Some (0, []) else None
        | None \<Rightarrow> let h = he_alloc he (rb_max_length nb) shared in
            if h = 0 then None else Some (h, if he_merge he then [Merge_advice h (rb_max_length nb)] else []))"

definition publish_block :: "host_env \<Rightarrow> int \<Rightarrow> RAMBlock \<Rightarrow> RAMList \<Rightarrow> RAMList" where
  "publish_block he old_ram_size nb st =
     (let new_ram_size = max old_ram_size (ulong (rb_offset nb + rb_max_length nb) div 2 ^ he_tpb he);
          dm = (if new_ram_size > old_ram_size
                then dirty_memory_extend (he_dirty_block he) old_ram_size new_ram_size (rl_dirty_memory st) else rl_dirty_memory st)
      in st\<lparr>rl_dirty_memory := dm, rl_blocks := insert_block nb (rl_blocks st), rl_mru_block := None, rl_version := rl_version st + 1\<rparr>)"

definition added_calls :: "host_env \<Rightarrow> RAMBlock \<Rightarrow> ram_call list" where
  "added_calls he nb =
     Set_dirty (rb_offset nb) (rb_used_length nb) #
     (let h = rb_host nb; n = rb_max_length nb in
      if h \<noteq> 0 then (if he_dump_core he then [] else [Dump_advice h n]) @ [Hugepage_advice h n, Dontfork_advice h n, Notify_add h n] else [])"

text \<open>\<open>None\<close> is an error reported through \<open>errp\<close>.\<close>

definition ram_block_add :: "host_env \<Rightarrow> RAMBlock \<Rightarrow> bool \<Rightarrow> RAMList \<Rightarrow> (RAMBlock option \<times> RAMList) res" where
  "ram_block_add he nb shared st =
     (let old_ram_size = last_ram_page (he_tpb he) (rl_blocks st) in
      case find_ram_offset (he_tpb he) (rl_blocks st) (rb_max_length nb) of
        Inl e \<Rightarrow> Inl e
      | Inr off \<Rightarrow>
          (case host_of he nb shared of
             None \<Rightarrow> Inr (None, st)
           | Some (h, cs) \<Rightarrow>
               let nb1 = nb\<lparr>rb_offset := off, rb_host := h\<rparr>
               in Inr (Some nb1, ram_call (cs @ added_calls he nb1) (publish_block he old_ram_size nb1 st))))"

definition host_page_align :: "host_env \<Rightarrow> int \<Rightarrow> int" where
  "host_page_align he n = round_up n (he_page he)"

definition qemu_ram_alloc_internal :: "host_env \<Rightarrow> nat \<Rightarrow> int \<Rightarrow> int \<Rightarrow> bool \<Rightarrow> int \<Rightarrow> bool \<Rightarrow> bool \<Rightarrow> nat \<Rightarrow> RAMList
    \<Rightarrow> (RAMBlock option \<times> RAMList) res" where
  "qemu_ram_alloc_internal he i n0 max_n0 resized host resizeable share mr st =
     (let n = host_page_align he n0; max_n = host_page_align he max_n0;
          nb = \<lparr>rb_id = i, rb_mr = mr, rb_host = host, rb_offset = 0, rb_used_length = n, rb_max_length = max_n, rb_resized = resized,
                rb_flags = (if host \<noteq> 0 then RAM_PREALLOC else 0) OR (if resizeable then RAM_RESIZEABLE else 0),
                rb_idstr = [], rb_fd = -1, rb_page_size = he_page he\<rparr>
      in if max_n < n then Inl Assert_failed else ram_block_add he nb share st)"

definition qemu_ram_alloc_from_ptr :: "host_env \<Rightarrow> nat \<Rightarrow> int \<Rightarrow> int \<Rightarrow> nat \<Rightarrow> RAMList \<Rightarrow> (RAMBlock option \<times> RAMList) res" where
  "qemu_ram_alloc_from_ptr he i n host mr st = qemu_ram_alloc_internal he i n n False host False False mr st"

definition qemu_ram_alloc :: "host_env \<Rightarrow> nat \<Rightarrow> int \<Rightarrow> bool \<Rightarrow> nat \<Rightarrow> RAMList \<Rightarrow> (RAMBlock option \<times> RAMList) res" where
  "qemu_ram_alloc he i n share mr st = qemu_ram_alloc_internal he i n n False 0 False share mr st"

definition qemu_ram_alloc_resizeable :: "host_env \<Rightarrow> nat \<Rightarrow> int \<Rightarrow> int \<Rightarrow> bool \<Rightarrow> nat \<Rightarrow> RAMList \<Rightarrow> (RAMBlock option \<times> RAMList) res" where
  "qemu_ram_alloc_resizeable he i n maxsz resized mr st = qemu_ram_alloc_internal he i n maxsz resized 0 True False mr st"

section \<open>Blocks by address\<close>

definition block_named :: "RAMList \<Rightarrow> nat \<Rightarrow> RAMBlock option" where
  "block_named st i = find (\<lambda>b. rb_id b = i) (rl_blocks st)"

definition has_addr :: "int \<Rightarrow> RAMBlock \<Rightarrow> bool" where
  "has_addr a b \<longleftrightarrow> ulong (a - rb_offset b) < rb_max_length b"

definition mru_block :: "RAMList \<Rightarrow> RAMBlock option" where
  "mru_block st = Option.bind (rl_mru_block st) (block_named st)"

definition qemu_get_ram_block :: "int \<Rightarrow> RAMList \<Rightarrow> (RAMBlock \<times> RAMList) res" where
  "qemu_get_ram_block a st =
     (case mru_block st of
        Some b \<Rightarrow> if has_addr a b then Inr (b, st)
                  else (case find (has_addr a) (rl_blocks st) of
                          None \<Rightarrow> Inl Assert_failed | Some c \<Rightarrow> Inr (c, st\<lparr>rl_mru_block := Some (rb_id c)\<rparr>))
      | None \<Rightarrow> (case find (has_addr a) (rl_blocks st) of
                   None \<Rightarrow> Inl Assert_failed | Some c \<Rightarrow> Inr (c, st\<lparr>rl_mru_block := Some (rb_id c)\<rparr>)))"

definition has_host :: "int \<Rightarrow> RAMBlock \<Rightarrow> bool" where
  "has_host p b \<longleftrightarrow> rb_host b \<noteq> 0 \<and> ulong (p - rb_host b) < rb_max_length b"

definition qemu_ram_block_from_host :: "nat \<Rightarrow> int \<Rightarrow> bool \<Rightarrow> RAMList \<Rightarrow> (RAMBlock \<times> int) option" where
  "qemu_ram_block_from_host tpb p round_offset st =
     (let found = (\<lambda>b. let off = ulong (p - rb_host b) in Some (b, if round_offset then off div 2 ^ tpb * 2 ^ tpb else off)) in
      case mru_block st of
        Some b \<Rightarrow> if has_host p b then found b else Option.bind (find (has_host p) (rl_blocks st)) found
      | None \<Rightarrow> Option.bind (find (has_host p) (rl_blocks st)) found)"

definition RAM_ADDR_INVALID :: int where "RAM_ADDR_INVALID = 18446744073709551615"

definition qemu_ram_addr_from_host :: "nat \<Rightarrow> int \<Rightarrow> RAMList \<Rightarrow> int" where
  "qemu_ram_addr_from_host tpb p st =
     (case qemu_ram_block_from_host tpb p False st of None \<Rightarrow> RAM_ADDR_INVALID | Some (b, off) \<Rightarrow> ulong (rb_offset b + off))"

definition qemu_ram_block_by_name :: "string \<Rightarrow> RAMList \<Rightarrow> RAMBlock option" where
  "qemu_ram_block_by_name name st = find (\<lambda>b. rb_idstr b = name) (rl_blocks st)"

definition qemu_ram_block_host_offset :: "RAMBlock \<Rightarrow> int \<Rightarrow> int res" where
  "qemu_ram_block_host_offset rb host =
     (let res = ulong (host - rb_host rb) in
      if host < rb_host rb then Inl Assert_failed else if res \<ge> rb_max_length rb then Inl Assert_failed else Inr res)"

text \<open>Without Xen. \<open>ramblock_ptr\<close> is a function of \<open>exec/ram_addr.h\<close>: the host address of an offset in a block.\<close>

definition qemu_map_ram_ptr :: "(RAMBlock \<Rightarrow> int \<Rightarrow> int res) \<Rightarrow> RAMBlock option \<Rightarrow> int \<Rightarrow> RAMList \<Rightarrow> (int \<times> RAMList) res" where
  "qemu_map_ram_ptr ramblock_ptr rb a st =
     (case rb of
        Some b \<Rightarrow> res_bind (ramblock_ptr b a) (\<lambda>p. Inr (p, st))
      | None \<Rightarrow> res_bind (qemu_get_ram_block a st) (\<lambda>(b, st1).
          res_bind (ramblock_ptr b (ulong (a - rb_offset b))) (\<lambda>p. Inr (p, st1))))"

definition qemu_ram_ptr_length :: "(RAMBlock \<Rightarrow> int \<Rightarrow> int res) \<Rightarrow> RAMBlock option \<Rightarrow> int \<Rightarrow> int \<Rightarrow> RAMList \<Rightarrow> (int \<times> int \<times> RAMList) res" where
  "qemu_ram_ptr_length ramblock_ptr rb a n st =
     (if n = 0 then Inr (0, 0, st)
      else res_bind (case rb of Some b \<Rightarrow> Inr (b, a, st)
               | None \<Rightarrow> res_bind (qemu_get_ram_block a st) (\<lambda>(b, st1). Inr (b, ulong (a - rb_offset b), st1)))
        (\<lambda>(b, off, st1). let n1 = min n (ulong (rb_max_length b - off)) in
           res_bind (ramblock_ptr b off) (\<lambda>p. Inr (p, n1, st1))))"

section \<open>Flags, names, sizes\<close>

definition set_block :: "nat \<Rightarrow> (RAMBlock \<Rightarrow> RAMBlock) \<Rightarrow> RAMList \<Rightarrow> RAMList" where
  "set_block i f st = st\<lparr>rl_blocks := map (\<lambda>b. if rb_id b = i then f b else b) (rl_blocks st)\<rparr>"

definition qemu_ram_is_shared :: "RAMBlock \<Rightarrow> bool" where
  "qemu_ram_is_shared rb \<longleftrightarrow> rb_flags rb AND RAM_SHARED \<noteq> 0"

definition qemu_ram_is_uf_zeroable :: "RAMBlock \<Rightarrow> bool" where
  "qemu_ram_is_uf_zeroable rb \<longleftrightarrow> rb_flags rb AND RAM_UF_ZEROPAGE \<noteq> 0"

definition qemu_ram_set_uf_zeroable :: "RAMBlock \<Rightarrow> RAMBlock" where
  "qemu_ram_set_uf_zeroable rb = rb\<lparr>rb_flags := rb_flags rb OR RAM_UF_ZEROPAGE\<rparr>"

definition qemu_ram_is_migratable :: "RAMBlock \<Rightarrow> bool" where
  "qemu_ram_is_migratable rb \<longleftrightarrow> rb_flags rb AND RAM_MIGRATABLE \<noteq> 0"

definition qemu_ram_set_migratable :: "RAMBlock \<Rightarrow> RAMBlock" where
  "qemu_ram_set_migratable rb = rb\<lparr>rb_flags := rb_flags rb OR RAM_MIGRATABLE\<rparr>"

definition qemu_ram_unset_migratable :: "RAMBlock \<Rightarrow> RAMBlock" where
  "qemu_ram_unset_migratable rb = rb\<lparr>rb_flags := rb_flags rb AND NOT RAM_MIGRATABLE\<rparr>"

text \<open>\<open>idstr\<close> has room for 255 characters. The name must be new.\<close>

definition qemu_ram_set_idstr :: "nat \<Rightarrow> string \<Rightarrow> string option \<Rightarrow> RAMList \<Rightarrow> RAMList res" where
  "qemu_ram_set_idstr i name dev_path st =
     (case block_named st i of
        None \<Rightarrow> Inl Assert_failed
      | Some nb \<Rightarrow>
          if rb_idstr nb \<noteq> [] then Inl Assert_failed
          else let idstr = take 255 ((case dev_path of None \<Rightarrow> [] | Some d \<Rightarrow> take 255 (d @ ''/'')) @ name)
               in if list_ex (\<lambda>b. rb_id b \<noteq> i \<and> rb_idstr b = idstr) (rl_blocks st) then Inl Assert_failed
                  else Inr (set_block i (\<lambda>b. b\<lparr>rb_idstr := idstr\<rparr>) st))"

definition qemu_ram_unset_idstr :: "nat option \<Rightarrow> RAMList \<Rightarrow> RAMList" where
  "qemu_ram_unset_idstr rb st = (case rb of None \<Rightarrow> st | Some i \<Rightarrow> set_block i (\<lambda>b. b\<lparr>rb_idstr := []\<rparr>) st)"

definition qemu_ram_pagesize_largest :: "RAMList \<Rightarrow> int" where
  "qemu_ram_pagesize_largest st = fold (\<lambda>b largest. max largest (rb_page_size b)) (rl_blocks st) 0"

definition EINVAL :: int where "EINVAL = 22"

definition qemu_ram_resize :: "host_env \<Rightarrow> nat \<Rightarrow> int \<Rightarrow> RAMList \<Rightarrow> (int \<times> RAMList) res" where
  "qemu_ram_resize he i newsize0 st =
     (case block_named st i of
        None \<Rightarrow> Inl Assert_failed
      | Some b \<Rightarrow>
          let newsize = host_page_align he newsize0 in
          if rb_used_length b = newsize then Inr (0, st)
          else if rb_flags b AND RAM_RESIZEABLE = 0 then Inr (- EINVAL, st)
          else if rb_max_length b < newsize then Inr (- EINVAL, st)
          else Inr (0, ram_call ([Clear_dirty (rb_offset b) (rb_used_length b), Set_dirty (rb_offset b) newsize, Region_set_size (rb_mr b) newsize]
                 @ (if rb_resized b then [Resized i newsize] else []))
               (set_block i (\<lambda>b. b\<lparr>rb_used_length := newsize\<rparr>) st)))"

definition qemu_ram_free :: "nat option \<Rightarrow> RAMList \<Rightarrow> RAMList" where
  "qemu_ram_free rb st =
     (case Option.bind rb (block_named st) of
        None \<Rightarrow> st
      | Some b \<Rightarrow> ram_call ((if rb_host b \<noteq> 0 then [Notify_remove (rb_host b) (rb_max_length b)] else []) @ [Reclaim (rb_id b)])
          (st\<lparr>rl_blocks := filter (\<lambda>c. rb_id c \<noteq> rb_id b) (rl_blocks st), rl_mru_block := None, rl_version := rl_version st + 1\<rparr>))"

end
