(* ===== verification/Ram_Inv.thy ===== *)
theory Ram_Inv
  imports Ram_Blocks
begin

text \<open>
  Correctness of the RAM block list: blocks never overlap in the \<open>ram_addr_t\<close> space, start on a word of the
  dirty bitmap and stay sorted by size, whatever is allocated and freed; the place of a new block is the
  tightest gap behind a block; an address inside a block is found whatever the most-recently-used pointer says.
\<close>

section \<open>Invariant\<close>

definition apart :: "int \<Rightarrow> int \<Rightarrow> RAMBlock \<Rightarrow> bool" where
  "apart a n b \<longleftrightarrow> a + n \<le> rb_offset b \<or> rb_offset b + rb_max_length b \<le> a"

definition block_ok :: "nat \<Rightarrow> RAMBlock \<Rightarrow> bool" where
  "block_ok tpb b \<longleftrightarrow> 0 \<le> rb_offset b \<and> 0 < rb_max_length b \<and> rb_offset b + rb_max_length b \<le> RAM_ADDR_MAX \<and> bitmap_align tpb dvd rb_offset b"

definition ram_ok :: "nat \<Rightarrow> RAMBlock list \<Rightarrow> bool" where
  "ram_ok tpb bs \<longleftrightarrow> (\<forall>b\<in>set bs. block_ok tpb b) \<and> distinct (map rb_id bs)
     \<and> (\<forall>b\<in>set bs. \<forall>c\<in>set bs. rb_id b \<noteq> rb_id c \<longrightarrow> apart (rb_offset b) (rb_max_length b) c)
     \<and> sorted_wrt (\<lambda>b c. rb_max_length c \<le> rb_max_length b) bs"

lemma ram_okD:
  assumes "ram_ok tpb bs"
  shows "b \<in> set bs \<Longrightarrow> block_ok tpb b" "distinct (map rb_id bs)"
    "b \<in> set bs \<Longrightarrow> c \<in> set bs \<Longrightarrow> rb_id b \<noteq> rb_id c \<Longrightarrow> apart (rb_offset b) (rb_max_length b) c"
    "sorted_wrt (\<lambda>b c. rb_max_length c \<le> rb_max_length b) bs"
  using assms by (auto simp: ram_ok_def)

lemma ram_ok_id: "ram_ok tpb bs \<Longrightarrow> b \<in> set bs \<Longrightarrow> c \<in> set bs \<Longrightarrow> rb_id b = rb_id c \<Longrightarrow> b = c"
  by (auto simp: ram_ok_def distinct_map dest: inj_onD)

section \<open>The place of a new block\<close>

lemma next_offset_spec:
  "next_offset c bs m \<le> m" "b \<in> set bs \<Longrightarrow> c \<le> rb_offset b \<Longrightarrow> next_offset c bs m \<le> rb_offset b" "c \<le> m \<Longrightarrow> c \<le> next_offset c bs m"
proof (induction bs arbitrary: m)
  case (Cons d bs)
  { case 1 show ?case using Cons.IH(1) [of "if rb_offset d \<ge> c then min m (rb_offset d) else m"] by (auto split: if_splits) }
  { case 2 then show ?case
      using Cons.IH(2) [of "if rb_offset d \<ge> c then min m (rb_offset d) else m"] Cons.IH(1) [of "min m (rb_offset d)"] by auto }
  { case 3 then show ?case using Cons.IH(3) by simp }
qed simp_all

lemma round_up_spec:
  assumes "A = 2 ^ k" "k < 64" "0 \<le> n" "n \<le> RAM_ADDR_MAX"
  shows "A dvd round_up n A" "0 \<le> round_up n A" "round_up n A \<le> RAM_ADDR_MAX" "round_up n A = 0 \<or> n \<le> round_up n A \<and> round_up n A < n + A"
proof -
  have A: "0 < A" using assms(1) by simp
  have Ad: "A dvd 18446744073709551616" using assms(1,2) le_imp_power_dvd [of k 64 "2 :: int"] by simp
  let ?u = "ulong (n + A - 1)"
  have eq: "round_up n A = ?u - ?u mod A" by (simp add: round_up_def minus_mod_eq_div_mult)
  show "A dvd round_up n A" by (simp add: round_up_def)
  show "0 \<le> round_up n A" using A by (simp add: round_up_def pos_imp_zdiv_nonneg_iff)
  show "round_up n A \<le> RAM_ADDR_MAX"
    unfolding eq RAM_ADDR_MAX_def using pos_mod_sign [OF A, of ?u] ulong_less [of "n + A - 1"] by linarith
  have A64: "A \<le> 18446744073709551616" using Ad by (rule zdvd_imp_le) simp
  show "round_up n A = 0 \<or> n \<le> round_up n A \<and> round_up n A < n + A"
  proof (cases "n + A - 1 < 18446744073709551616")
    case True
    then have "?u = n + A - 1" using A assms(3) by (intro ulong_id) simp_all
    then show ?thesis using eq pos_mod_bound [OF A, of ?u] pos_mod_sign [OF A, of ?u] by linarith
  next
    case False
    have "?u = n + A - 1 - 18446744073709551616"
      unfolding ulong_def using False A64 assms(4) by (subst mod_pos_geq) (simp_all add: RAM_ADDR_MAX_def mod_pos_pos_trivial)
    then have "0 \<le> ?u" "?u < A" using False assms(4) by (simp_all add: RAM_ADDR_MAX_def)
    then show ?thesis by (simp add: round_up_def div_pos_pos_trivial)
  qed
qed

definition gap_after :: "nat \<Rightarrow> RAMBlock list \<Rightarrow> RAMBlock \<Rightarrow> int" where
  "gap_after tpb bs b = next_offset (candidate_after tpb b) bs RAM_ADDR_MAX - candidate_after tpb b"

lemma bitmap_align_pow: "bitmap_align tpb = 2 ^ (6 + tpb)"
  by (simp add: bitmap_align_def power_add)

lemma candidate_spec:
  assumes "block_ok tpb b" "tpb < 58"
  shows "bitmap_align tpb dvd candidate_after tpb b" "0 \<le> candidate_after tpb b" "candidate_after tpb b \<le> RAM_ADDR_MAX"
    "candidate_after tpb b = 0 \<or> rb_offset b + rb_max_length b \<le> candidate_after tpb b
        \<and> candidate_after tpb b < rb_offset b + rb_max_length b + bitmap_align tpb"
    "0 \<le> gap_after tpb bs b" "ulong (gap_after tpb bs b) = gap_after tpb bs b"
proof -
  let ?e = "rb_offset b + rb_max_length b"
  have e: "0 \<le> ?e" "?e \<le> RAM_ADDR_MAX" using assms(1) by (simp_all add: block_ok_def)
  then have u: "ulong ?e = ?e" by (intro ulong_id) (simp_all add: RAM_ADDR_MAX_def)
  note r = round_up_spec [OF bitmap_align_pow _ e, of tpb]
  show c: "bitmap_align tpb dvd candidate_after tpb b" "0 \<le> candidate_after tpb b" "candidate_after tpb b \<le> RAM_ADDR_MAX"
      "candidate_after tpb b = 0 \<or> ?e \<le> candidate_after tpb b \<and> candidate_after tpb b < ?e + bitmap_align tpb"
    using r assms(2) by (simp_all add: candidate_after_def u)
  show g: "0 \<le> gap_after tpb bs b" using next_offset_spec(3) [OF c(3), of bs] by (simp add: gap_after_def)
  have "gap_after tpb bs b \<le> RAM_ADDR_MAX"
    using next_offset_spec(1) [of "candidate_after tpb b" bs RAM_ADDR_MAX] c(2) by (simp add: gap_after_def)
  then show "ulong (gap_after tpb bs b) = gap_after tpb bs b" using g by (intro ulong_id) (simp_all add: RAM_ADDR_MAX_def)
qed

lemma gap_free:
  assumes "ram_ok tpb bs" "b \<in> set bs" "c \<in> set bs" "tpb < 58" "0 < n" "n \<le> gap_after tpb bs b"
  shows "apart (candidate_after tpb b) n c"
proof (cases "candidate_after tpb b \<le> rb_offset c")
  case True
  then show ?thesis using next_offset_spec(2) [OF assms(3) True, of RAM_ADDR_MAX] assms(6) by (simp add: apart_def gap_after_def)
next
  case False
  note d = candidate_spec [OF ram_okD(1) [OF assms(1,2)] assms(4)]
  have bk: "block_ok tpb b" "block_ok tpb c" using ram_okD(1) [OF assms(1)] assms(2,3) by blast+
  let ?A = "bitmap_align tpb" and ?c = "candidate_after tpb b" and ?e = "rb_offset b + rb_max_length b"
  have nz: "?c \<noteq> 0" using False bk(2) by (auto simp: block_ok_def)
  have ce: "?e \<le> ?c" "?c < ?e + ?A" using d(4) nz by auto
  have "?A dvd ?c - rb_offset c" using d(1) bk(2) by (simp add: block_ok_def)
  then have "?A \<le> ?c - rb_offset c" by (rule zdvd_imp_le) (use False in simp)
  then have lt: "rb_offset c < ?e" using ce by linarith
  show ?thesis
  proof (cases "rb_id b = rb_id c")
    case True
    then show ?thesis using ram_ok_id [OF assms(1-3) True] ce by (simp add: apart_def)
  next
    case neq: False
    then have "apart (rb_offset b) (rb_max_length b) c" using ram_okD(3) [OF assms(1-3)] by blast
    then show ?thesis using lt ce bk(1) by (auto simp: apart_def block_ok_def)
  qed
qed

text \<open>The tightest gap that is large enough, or the values the search started with.\<close>

lemma best_gap_spec:
  assumes "\<And>b. b \<in> set bs \<Longrightarrow> block_ok tpb b" "tpb < 58"
  shows "(best_gap tpb n all bs offset mingap = offset \<and> (\<forall>b\<in>set bs. gap_after tpb all b < n \<or> mingap \<le> gap_after tpb all b))
    \<or> (\<exists>b\<in>set bs. best_gap tpb n all bs offset mingap = candidate_after tpb b \<and> n \<le> gap_after tpb all b \<and> gap_after tpb all b < mingap
         \<and> (\<forall>c\<in>set bs. gap_after tpb all c < n \<or> gap_after tpb all b \<le> gap_after tpb all c))"
  using assms(1)
proof (induction bs arbitrary: offset mingap)
  case (Cons d bs)
  have g: "ulong (next_offset (candidate_after tpb d) all RAM_ADDR_MAX - candidate_after tpb d) = gap_after tpb all d"
    using candidate_spec(6) [OF Cons.prems [of d] assms(2), of all] by (simp add: gap_after_def)
  let ?t = "n \<le> gap_after tpb all d \<and> gap_after tpb all d < mingap"
  let ?o = "if ?t then candidate_after tpb d else offset" and ?m = "if ?t then gap_after tpb all d else mingap"
  have step: "best_gap tpb n all (d # bs) offset mingap = best_gap tpb n all bs ?o ?m" by (simp add: Let_def g)
  have "\<And>b. b \<in> set bs \<Longrightarrow> block_ok tpb b" using Cons.prems by simp
  from Cons.IH [OF this, of ?o ?m] show ?case unfolding step by (cases ?t) (auto simp: not_le not_less)
qed simp

lemma find_ram_offset_spec:
  assumes "ram_ok tpb bs" "tpb < 58" "0 < n" "n \<le> RAM_ADDR_MAX" "find_ram_offset tpb bs n = Inr off"
  shows "0 \<le> off" "off + n \<le> RAM_ADDR_MAX" "bitmap_align tpb dvd off" "\<forall>c\<in>set bs. apart off n c"
proof -
  have "0 \<le> off \<and> off + n \<le> RAM_ADDR_MAX \<and> bitmap_align tpb dvd off \<and> (\<forall>c\<in>set bs. apart off n c)"
  proof (cases "bs = []")
    case True
    then show ?thesis using assms by (simp add: find_ram_offset_def)
  next
    case False
    let ?o = "best_gap tpb n bs bs RAM_ADDR_MAX RAM_ADDR_MAX"
    have o: "?o = off" "?o \<noteq> RAM_ADDR_MAX" using assms False by (auto simp: find_ram_offset_def Let_def split: if_splits)
    obtain b where b: "b \<in> set bs" "?o = candidate_after tpb b" "n \<le> gap_after tpb bs b"
      using best_gap_spec [of bs tpb n bs RAM_ADDR_MAX RAM_ADDR_MAX, OF ram_okD(1) [OF assms(1)] assms(2)] o(2) by auto
    note c = candidate_spec [OF ram_okD(1) [OF assms(1) b(1)] assms(2)]
    have "candidate_after tpb b + n \<le> RAM_ADDR_MAX"
      using b(3) next_offset_spec(1) [of "candidate_after tpb b" bs RAM_ADDR_MAX] by (simp add: gap_after_def)
    then show ?thesis using gap_free [OF assms(1) b(1) _ assms(2,3) b(3)] b(2) o(1) c by simp
  qed
  then show "0 \<le> off" "off + n \<le> RAM_ADDR_MAX" "bitmap_align tpb dvd off" "\<forall>c\<in>set bs. apart off n c" by simp_all
qed

section \<open>The list\<close>

lemma set_insert_block: "set (insert_block nb bs) = insert nb (set bs)"
  by (induction bs) auto

lemma mset_ids_insert: "distinct (map rb_id (insert_block nb bs)) \<longleftrightarrow> rb_id nb \<notin> rb_id ` set bs \<and> distinct (map rb_id bs)"
  by (induction bs) (auto simp: set_insert_block)

lemma sorted_insert_block:
  "sorted_wrt (\<lambda>b c. rb_max_length c \<le> rb_max_length b) bs \<Longrightarrow> sorted_wrt (\<lambda>b c. rb_max_length c \<le> rb_max_length b) (insert_block nb bs)"
proof (induction bs)
  case (Cons d bs)
  then show ?case by (auto simp: set_insert_block)
qed simp

lemma ram_ok_insert:
  assumes "ram_ok tpb bs" "block_ok tpb nb" "rb_id nb \<notin> rb_id ` set bs" "\<forall>c\<in>set bs. apart (rb_offset nb) (rb_max_length nb) c"
  shows "ram_ok tpb (insert_block nb bs)"
proof -
  have "apart (rb_offset c) (rb_max_length c) nb" if "c \<in> set bs" for c using assms(4) that by (auto simp: apart_def)
  then show ?thesis
    using assms sorted_insert_block [of bs nb] by (auto simp: ram_ok_def set_insert_block mset_ids_insert)
qed

lemma has_addr_iff:
  assumes "block_ok tpb b" "0 \<le> a" "a \<le> RAM_ADDR_MAX"
  shows "has_addr a b \<longleftrightarrow> rb_offset b \<le> a \<and> a < rb_offset b + rb_max_length b"
proof (cases "rb_offset b \<le> a")
  case True
  then have "ulong (a - rb_offset b) = a - rb_offset b" using assms by (intro ulong_id) (simp_all add: block_ok_def RAM_ADDR_MAX_def)
  then show ?thesis using True by (auto simp: has_addr_def)
next
  case False
  then have "ulong (a - rb_offset b) = a - rb_offset b + 18446744073709551616"
    using assms mod_pos_pos_trivial [of "a - rb_offset b + 18446744073709551616" 18446744073709551616]
    by (simp add: ulong_def block_ok_def RAM_ADDR_MAX_def)
  then show ?thesis using False assms by (simp add: has_addr_def block_ok_def RAM_ADDR_MAX_def)
qed

lemma block_at_unique:
  assumes "ram_ok tpb bs" "b \<in> set bs" "c \<in> set bs" "rb_offset b \<le> a" "a < rb_offset b + rb_max_length b" "rb_offset c \<le> a" "a < rb_offset c + rb_max_length c"
  shows "b = c"
proof (rule ccontr)
  assume "b \<noteq> c"
  then have "rb_id b \<noteq> rb_id c" using ram_ok_id [OF assms(1-3)] by blast
  then show False using ram_okD(3) [OF assms(1-3)] assms(4-) by (auto simp: apart_def)
qed

lemma get_ram_block_spec:
  assumes "ram_ok tpb (rl_blocks st)" "b \<in> set (rl_blocks st)" "rb_offset b \<le> a" "a < rb_offset b + rb_max_length b"
  shows "\<exists>st'. qemu_get_ram_block a st = Inr (b, st') \<and> rl_blocks st' = rl_blocks st"
proof -
  have ok: "block_ok tpb c" if "c \<in> set (rl_blocks st)" for c using ram_okD(1) [OF assms(1) that] .
  have a: "0 \<le> a" "a \<le> RAM_ADDR_MAX" using assms(3,4) ok [OF assms(2)] by (simp_all add: block_ok_def)
  have u: "c = b" if "c \<in> set (rl_blocks st)" "has_addr a c" for c
    using block_at_unique [OF assms(1) that(1) assms(2)] has_addr_iff [OF ok [OF that(1)] a] that(2) assms(3,4) by blast
  have hb: "has_addr a b" using has_addr_iff [OF ok [OF assms(2)] a] assms(3,4) by blast
  have f: "find (has_addr a) (rl_blocks st) = Some b"
  proof (cases "find (has_addr a) (rl_blocks st)")
    case None
    then show ?thesis using hb assms(2) by (auto simp: find_None_iff)
  next
    case (Some c)
    then show ?thesis using u [of c] by (metis find_Some_iff nth_mem)
  qed
  have m: "c \<in> set (rl_blocks st)" if "mru_block st = Some c" for c
    using that by (metis (no_types, lifting) bind_eq_Some_conv block_named_def find_Some_iff mru_block_def nth_mem)
  show ?thesis
    using f u m by (cases "mru_block st") (auto simp: qemu_get_ram_block_def)
qed

section \<open>Histories\<close>

lemma ram_block_add_spec:
  assumes "ram_ok (he_tpb he) (rl_blocks st)" "he_tpb he < 58" "0 < rb_max_length nb" "rb_max_length nb \<le> RAM_ADDR_MAX"
    and "rb_id nb \<notin> rb_id ` set (rl_blocks st)" "ram_block_add he nb share st = Inr (r, st')"
  shows "r = None \<and> st' = st \<or> (\<exists>b. r = Some b \<and> rb_id b = rb_id nb \<and> rb_max_length b = rb_max_length nb \<and> rb_used_length b = rb_used_length nb
    \<and> rl_blocks st' = insert_block b (rl_blocks st) \<and> ram_ok (he_tpb he) (rl_blocks st') \<and> rl_mru_block st' = None)"
proof -
  obtain off where off: "find_ram_offset (he_tpb he) (rl_blocks st) (rb_max_length nb) = Inr off"
    using assms(6) by (cases "find_ram_offset (he_tpb he) (rl_blocks st) (rb_max_length nb)") (auto simp: ram_block_add_def Let_def)
  note o = find_ram_offset_spec [OF assms(1-4) off]
  show ?thesis
  proof (cases "host_of he nb share")
    case None
    then show ?thesis using assms(6) off by (auto simp: ram_block_add_def Let_def)
  next
    case (Some hc)
    obtain h cs where hc: "hc = (h, cs)" by (cases hc)
    let ?b = "nb\<lparr>rb_offset := off, rb_host := h\<rparr>"
    have "ram_ok (he_tpb he) (insert_block ?b (rl_blocks st))"
      by (rule ram_ok_insert [OF assms(1)]) (use o assms(3,5) in \<open>simp_all add: block_ok_def\<close>)
    then show ?thesis
      using assms(6) off Some hc by (auto simp: ram_block_add_def Let_def publish_block_def ram_call_def)
  qed
qed

text \<open>What can happen to the list. A new block has a fresh identity; sizes are \<open>ram_addr_t\<close> values.\<close>

inductive ram_reachable :: "host_env \<Rightarrow> RAMList \<Rightarrow> bool" for he where
  start: "rl_blocks st = [] \<Longrightarrow> rl_mru_block st = None \<Longrightarrow> ram_reachable he st"
| alloc: "ram_reachable he st \<Longrightarrow> block_named st i = None \<Longrightarrow> 0 \<le> max_n \<Longrightarrow> max_n \<le> RAM_ADDR_MAX
    \<Longrightarrow> qemu_ram_alloc_internal he i n max_n resized host resizeable share mr st = Inr (r, st') \<Longrightarrow> ram_reachable he st'"
| free: "ram_reachable he st \<Longrightarrow> ram_reachable he (qemu_ram_free rb st)"
| resize: "ram_reachable he st \<Longrightarrow> qemu_ram_resize he i n st = Inr (k, st') \<Longrightarrow> ram_reachable he st'"
| find_addr: "ram_reachable he st \<Longrightarrow> qemu_get_ram_block a st = Inr (b, st') \<Longrightarrow> ram_reachable he st'"
| set_name: "ram_reachable he st \<Longrightarrow> qemu_ram_set_idstr i name dev st = Inr st' \<Longrightarrow> ram_reachable he st'"
| unset_name: "ram_reachable he st \<Longrightarrow> ram_reachable he (qemu_ram_unset_idstr rb st)"

definition ram_inv :: "host_env \<Rightarrow> RAMList \<Rightarrow> bool" where
  "ram_inv he st \<longleftrightarrow> ram_ok (he_tpb he) (rl_blocks st) \<and> (\<forall>i. rl_mru_block st = Some i \<longrightarrow> i \<in> rb_id ` set (rl_blocks st))"

lemma block_named_None: "block_named st i = None \<longleftrightarrow> i \<notin> rb_id ` set (rl_blocks st)"
  by (auto simp: block_named_def find_None_iff)

lemma block_named_Some: "block_named st i = Some b \<Longrightarrow> b \<in> set (rl_blocks st) \<and> rb_id b = i"
  by (auto simp: block_named_def find_Some_iff)

lemma ram_ok_map:
  assumes "ram_ok tpb bs" "\<And>b. rb_id (f b) = rb_id b \<and> rb_offset (f b) = rb_offset b \<and> rb_max_length (f b) = rb_max_length b"
  shows "ram_ok tpb (map f bs)"
proof -
  have "map rb_id (map f bs) = map rb_id bs" using assms(2) by simp
  moreover have "sorted_wrt (\<lambda>b c. rb_max_length c \<le> rb_max_length b) (map f bs)" using assms by (simp add: ram_ok_def sorted_wrt_map)
  ultimately show ?thesis
    using assms unfolding ram_ok_def by (simp add: block_ok_def apart_def del: map_map)
qed

lemma set_block_inv:
  assumes "ram_inv he st" "\<And>b. rb_id (f b) = rb_id b \<and> rb_offset (f b) = rb_offset b \<and> rb_max_length (f b) = rb_max_length b"
  shows "ram_inv he (set_block i f st)"
proof -
  let ?g = "\<lambda>b. if rb_id b = i then f b else b"
  have "ram_ok (he_tpb he) (map ?g (rl_blocks st))" using assms by (intro ram_ok_map) (auto simp: ram_inv_def)
  moreover have "rb_id ` set (map ?g (rl_blocks st)) = rb_id ` set (rl_blocks st)" unfolding set_map image_image using assms(2) by (intro image_cong) simp_all
  ultimately show ?thesis using assms(1) by (simp add: ram_inv_def set_block_def del: set_map)
qed

lemma free_inv:
  assumes "ram_inv he st"
  shows "ram_inv he (qemu_ram_free rb st)"
proof (cases "Option.bind rb (block_named st)")
  case None
  then show ?thesis using assms by (simp add: qemu_ram_free_def)
next
  case (Some b)
  have "distinct (map rb_id (filter P (rl_blocks st)))" for P using assms by (simp add: ram_inv_def ram_ok_def distinct_map_filter)
  then show ?thesis
    using assms Some by (simp add: qemu_ram_free_def ram_inv_def ram_call_def ram_ok_def sorted_wrt_filter)
qed

lemma get_ram_block_inv:
  assumes "ram_inv he st" "qemu_get_ram_block a st = Inr (b, st')"
  shows "ram_inv he st'"
proof -
  have f: "c \<in> set (rl_blocks st)" if "find (has_addr a) (rl_blocks st) = Some c" for c
    using that by (auto simp: find_Some_iff)
  show ?thesis
    using assms f unfolding qemu_get_ram_block_def by (auto simp: ram_inv_def split: option.splits if_splits)
qed

lemma alloc_inv:
  assumes "ram_inv he st" "he_tpb he < 58" "he_page he = 2 ^ k" "k < 64" "block_named st i = None" "0 \<le> max_n" "max_n \<le> RAM_ADDR_MAX"
    and "qemu_ram_alloc_internal he i n max_n resized host resizeable share mr st = Inr (r, st')"
  shows "r = None \<and> st' = st \<or> (\<exists>b. r = Some b \<and> b \<in> set (rl_blocks st') \<and> rb_id b = i \<and> ram_inv he st')"
proof -
  let ?m = "host_page_align he max_n"
  obtain nb where nb: "ram_block_add he nb share st = Inr (r, st')" "rb_max_length nb = ?m" "rb_id nb = i"
    using assms(8) by (auto simp: qemu_ram_alloc_internal_def Let_def split: if_splits)
  have m: "0 \<le> ?m" "?m \<le> RAM_ADDR_MAX" using round_up_spec [OF assms(3,4,6,7)] by (simp_all add: host_page_align_def)
  have "?m \<noteq> 0"
    using nb(1,2) by (auto simp: ram_block_add_def find_ram_offset_def Let_def)
  then show ?thesis
    using ram_block_add_spec [OF _ assms(2) _ _ _ nb(1)] nb(2,3) m assms(1,5) by (auto simp: ram_inv_def block_named_None set_insert_block)
qed

lemma ram_reachable_inv:
  assumes "ram_reachable he st" "he_tpb he < 58" "he_page he = 2 ^ k" "k < 64"
  shows "ram_inv he st"
  using assms(1)
proof (induction rule: ram_reachable.induct)
  case (start st)
  then show ?case by (simp add: ram_inv_def ram_ok_def)
next
  case (alloc st i max_n n resized host resizeable share mr r st')
  then show ?case using alloc_inv [OF alloc.IH assms(2-4) alloc.hyps(2-5)] by blast
next
  case (free st rb)
  show ?case by (rule free_inv [OF free.IH])
next
  case (resize st i n k' st')
  then show ?case using set_block_inv [OF resize.IH, of "\<lambda>b. b\<lparr>rb_used_length := host_page_align he n\<rparr>" i]
    by (auto simp: qemu_ram_resize_def Let_def ram_inv_def ram_call_def split: option.splits if_splits)
next
  case (find_addr st a b st')
  then show ?case using get_ram_block_inv by blast
next
  case (set_name st i name dev st')
  then show ?case
    using set_block_inv [OF set_name.IH, of "\<lambda>b. b\<lparr>rb_idstr := s\<rparr>" i for s]
    by (auto simp: qemu_ram_set_idstr_def Let_def split: option.splits if_splits)
next
  case (unset_name st rb)
  then show ?case using set_block_inv [OF unset_name.IH, of "\<lambda>b. b\<lparr>rb_idstr := []\<rparr>"] by (simp add: qemu_ram_unset_idstr_def split: option.splits)
qed

section \<open>Properties\<close>

text \<open>C16: Whatever is allocated, freed, resized, renamed and looked up, the RAM blocks never overlap in the
  \<open>ram_addr_t\<close> space, none wraps around its end, each starts on a word of the dirty bitmap, the list is sorted
  from the biggest to the smallest block, and the most-recently-used pointer never names a block that is gone.\<close>

theorem ram_blocks_disjoint:
  assumes "ram_reachable he st" "he_tpb he < 58" "he_page he = 2 ^ k" "k < 64"
  shows "ram_ok (he_tpb he) (rl_blocks st) \<and> (\<forall>i. rl_mru_block st = Some i \<longrightarrow> (\<exists>b. block_named st i = Some b))"
  using ram_reachable_inv [OF assms] by (auto simp: ram_inv_def) (metis block_named_None imageI not_None_eq)

definition demo_host :: host_env where
  "demo_host = \<lparr>he_tpb = 12, he_dirty_block = 2097152, he_page = 4096, he_xen = None, he_alloc = (\<lambda>n s. 1073741824), he_merge = False, he_dump_core = True\<rparr>"

definition no_ram :: RAMList where
  "no_ram = \<lparr>rl_blocks = [], rl_mru_block = None, rl_version = 0, rl_dirty_memory = [[], [], []], rl_calls = []\<rparr>"

definition demo_block :: "nat \<Rightarrow> int \<Rightarrow> int \<Rightarrow> RAMBlock" where
  "demo_block i off n = \<lparr>rb_id = i, rb_mr = 7, rb_host = 1073741824, rb_offset = off, rb_used_length = n, rb_max_length = n, rb_resized = False,
     rb_flags = 0, rb_idstr = [], rb_fd = -1, rb_page_size = 4096\<rparr>"

lemmas ram_alloc_eval = qemu_ram_alloc_internal_def ram_block_add_def host_page_align_def round_up_def ulong_def find_ram_offset_def
  candidate_after_def bitmap_align_def RAM_ADDR_MAX_def host_of_def publish_block_def ram_call_def Let_def

lemma demo_alloc:
  "\<exists>st. qemu_ram_alloc_internal demo_host 0 5000 5000 False 0 False False 7 no_ram = Inr (Some (demo_block 0 0 8192), st) \<and> rl_blocks st = [demo_block 0 0 8192]"
  by (simp add: ram_alloc_eval demo_host_def no_ram_def demo_block_def)

lemma demo_alloc_second:
  assumes "rl_blocks st = [demo_block 0 0 8192]"
  shows "\<exists>st'. qemu_ram_alloc_internal demo_host 1 10000 10000 False 0 False False 7 st = Inr (Some (demo_block 1 262144 12288), st')
    \<and> rl_blocks st' = [demo_block 1 262144 12288, demo_block 0 0 8192]"
  using assms by (simp add: ram_alloc_eval demo_host_def demo_block_def)

lemma demo_reachable: "\<exists>st. ram_reachable demo_host st \<and> rl_blocks st = [demo_block 0 0 8192]"
  using ram_reachable.alloc [OF ram_reachable.start [of no_ram demo_host], where i = 0 and max_n = 5000] demo_alloc
  by (fastforce simp: no_ram_def block_named_def RAM_ADDR_MAX_def)

theorem ram_blocks_disjoint_witness:
  "\<exists>st :: RAMList. rl_blocks st = [demo_block 1 262144 12288, demo_block 0 0 8192] \<and> ram_ok 12 (rl_blocks st)"
proof -
  obtain st where st: "ram_reachable demo_host st" "rl_blocks st = [demo_block 0 0 8192]" using demo_reachable by blast
  obtain st' where st': "qemu_ram_alloc_internal demo_host 1 10000 10000 False 0 False False 7 st = Inr (Some (demo_block 1 262144 12288), st')"
      "rl_blocks st' = [demo_block 1 262144 12288, demo_block 0 0 8192]" using demo_alloc_second [OF st(2)] by blast
  have "block_named st 1 = None" using st(2) by (simp add: block_named_def demo_block_def)
  then have "ram_reachable demo_host st'" using ram_reachable.alloc [OF st(1) _ _ _ st'(1)] by (simp add: RAM_ADDR_MAX_def)
  from ram_blocks_disjoint [OF this, of 12] show ?thesis using st'(2) by (intro exI [of _ st']) (simp add: demo_host_def)
qed

text \<open>Every address inside a block that was just allocated is found, and found in that block, whatever the
  most-recently-used pointer held before.\<close>

theorem ram_alloc_then_find:
  assumes "ram_reachable he st" "he_tpb he < 58" "he_page he = 2 ^ k" "k < 64" "block_named st i = None" "0 \<le> max_n" "max_n \<le> RAM_ADDR_MAX"
    and "qemu_ram_alloc_internal he i n max_n resized host resizeable share mr st = Inr (Some b, st')"
    and "rb_offset b \<le> a" "a < rb_offset b + rb_max_length b"
  shows "\<exists>st''. qemu_get_ram_block a st' = Inr (b, st'') \<and> rl_blocks st'' = rl_blocks st'"
  using alloc_inv [OF ram_reachable_inv [OF assms(1-4)] assms(2-8)] assms(9,10) get_ram_block_spec
  by (auto simp: ram_inv_def)

theorem ram_alloc_then_find_witness:
  "\<exists>st st' st''. qemu_ram_alloc_internal demo_host 1 10000 10000 False 0 False False 7 st = Inr (Some (demo_block 1 262144 12288), st')
    \<and> qemu_get_ram_block 270000 st' = Inr (demo_block 1 262144 12288, st'')"
proof -
  obtain st where st: "ram_reachable demo_host st" "rl_blocks st = [demo_block 0 0 8192]" using demo_reachable by blast
  obtain st' where st': "qemu_ram_alloc_internal demo_host 1 10000 10000 False 0 False False 7 st = Inr (Some (demo_block 1 262144 12288), st')"
    using demo_alloc_second [OF st(2)] by blast
  have n: "block_named st 1 = None" using st(2) by (simp add: block_named_def demo_block_def)
  have "\<exists>st''. qemu_get_ram_block 270000 st' = Inr (demo_block 1 262144 12288, st'') \<and> rl_blocks st'' = rl_blocks st'"
    by (rule ram_alloc_then_find [OF st(1) _ _ _ n _ _ st', of 12]) (simp_all add: demo_host_def demo_block_def RAM_ADDR_MAX_def)
  then show ?thesis using st' by blast
qed

end
