(* ===== verification/Ram_Backend.thy ===== *)
theory Ram_Backend
  imports Ram_Inv Fmmap Flat_View
begin

text \<open>
  Guest RAM backed by a pcow image: how QEMU gets from a \<open>memory-backend-file\<close> object with \<open>format=pcow\<close>
  (\<open>backends/hostmem-file.c\<close>) through the memory region (\<open>memory.c\<close>), the RAM block (\<open>exec.c\<close>) and
  \<open>qemu_ram_mmap\<close> (\<open>util/mmap-alloc.c\<close>) to \<open>fmmap\<close>.

  The state joins the RAM block list and the host process: the pcow runtime with its page map, and the pages
  that are only reserved (\<open>PROT_NONE\<close>). The addresses the kernel picks are arguments: \<open>a_reserve\<close> for the
  reservation \<open>qemu_ram_mmap\<close> makes, \<open>a_pcow\<close> for the mapping \<open>fmmap\<close> makes, which passes the wanted address
  as a hint only and drops the caller's flags. A file is named by its path, and one that does not exist is an empty one. A private mapping of a raw file is
  recorded by the file pages it shows first. The target is Linux on a machine that is neither ppc64, sparc nor
  s390x. \<open>RAMBlock *\<close> results are a block, \<open>NULL\<close>, or \<open>MAP_FAILED\<close>, which the pcow branches return.
\<close>

section \<open>State\<close>

record ram_host =
  rh_cow :: cow_state
  rh_resv :: "int \<Rightarrow> bool"

record ram_world =
  rw_list :: RAMList
  rw_host :: ram_host

datatype block_ptr = Null_block | Map_failed_block | Block RAMBlock

record kernel_env =
  ke_host :: host_env
  ke_kvm_without_mmu :: bool
  ke_other_alloc :: bool
  ke_tcg :: bool
  ke_statfs :: "cstr \<Rightarrow> (u32 \<times> int) option"
  a_reserve :: "int option"
  a_pcow :: int
  ke_prealloc :: "(cstr \<Rightarrow> int \<Rightarrow> int \<Rightarrow> ram_host \<Rightarrow> bool \<times> ram_host) option"

definition rh_munmap :: "int \<Rightarrow> int \<Rightarrow> ram_host \<Rightarrow> ram_host" where
  "rh_munmap a len h = h\<lparr>rh_cow := (rh_cow h)\<lparr>vm := munmap a len (vm (rh_cow h))\<rparr>, rh_resv := (\<lambda>p. rh_resv h p \<and> \<not> in_pages a len p)\<rparr>"

definition rh_reserve :: "int \<Rightarrow> int \<Rightarrow> ram_host \<Rightarrow> ram_host" where
  "rh_reserve a len h = h\<lparr>rh_resv := (\<lambda>p. rh_resv h p \<or> in_pages a len p)\<rparr>"

section \<open>Mapping RAM\<close>

definition HUGETLBFS_MAGIC :: u32 where "HUGETLBFS_MAGIC = 0x958458f6"

definition qemu_fd_getpagesize :: "kernel_env \<Rightarrow> cstr option \<Rightarrow> int" where
  "qemu_fd_getpagesize ke fdo =
     (case fdo of None \<Rightarrow> PAGE_SIZE
      | Some fdn \<Rightarrow> (case ke_statfs ke fdn of None \<Rightarrow> PAGE_SIZE | Some (f_type, f_bsize) \<Rightarrow> if f_type = HUGETLBFS_MAGIC then f_bsize else PAGE_SIZE))"

definition is_power_of_2 :: "int \<Rightarrow> bool" where
  "is_power_of_2 n \<longleftrightarrow> list_ex (\<lambda>k. n = 2 ^ k) [0..<64]"

text \<open>The raw mapping, \<open>MAP_FIXED\<close> over the reservation; without a file it is anonymous.\<close>

definition raw_mmap :: "int \<Rightarrow> int \<Rightarrow> cstr option \<Rightarrow> ram_host \<Rightarrow> int option \<times> ram_host" where
  "raw_mmap a n fdo h =
     (if n = 0 then (None, h)
      else (Some a, h\<lparr>rh_resv := (\<lambda>p. rh_resv h p \<and> \<not> in_pages a n p),
              rh_cow := (rh_cow h)\<lparr>vm := (case fdo of None \<Rightarrow> munmap a n (vm (rh_cow h)) | Some fdn \<Rightarrow> mmap_fixed a n True fdn 0 (vm (rh_cow h)))\<rparr>\<rparr>))"

definition pcow_mmap :: "int \<Rightarrow> int \<Rightarrow> cstr \<Rightarrow> ram_host \<Rightarrow> (int option \<times> ram_host) res option" where
  "pcow_mmap base n fdn h =
     map_option (\<lambda>r. res_bind r (\<lambda>(p, c). Inr (p, h\<lparr>rh_cow := c\<rparr>))) (fmmap (rh_cow h) base n fdn 0)"

text \<open>After the mapping: drop the reservation in front, and behind the guard page.\<close>

definition trim_reservation :: "int \<Rightarrow> int \<Rightarrow> int \<Rightarrow> int \<Rightarrow> int \<Rightarrow> ram_host \<Rightarrow> ram_host" where
  "trim_reservation ptr ptr1 offset whole n h =
     (let h1 = (if offset > 0 then rh_munmap ptr offset h else h); whole1 = ulong (whole - offset) in
      if whole1 > ulong (n + PAGE_SIZE) then rh_munmap (ulong (ptr1 + n + PAGE_SIZE)) (ulong (whole1 - n - PAGE_SIZE)) h1 else h1)"

definition qemu_ram_mmap :: "kernel_env \<Rightarrow> cstr option \<Rightarrow> int \<Rightarrow> int \<Rightarrow> MemoryBackendFileFormat \<Rightarrow> ram_host \<Rightarrow> (int option \<times> ram_host) res option" where
  "qemu_ram_mmap ke fdo n align format h =
     (let whole = ulong (n + align) in
      case a_reserve ke of
        None \<Rightarrow> Some (Inr (None, h))
      | Some ptr \<Rightarrow>
          if \<not> is_power_of_2 align \<or> align < PAGE_SIZE then Some (Inl Assert_failed)
          else
            let h1 = rh_reserve ptr whole h; offset = ulong (round_up ptr align - ptr) in
            map_option (\<lambda>r. res_bind r (\<lambda>(p, h2).
                case p of None \<Rightarrow> Inr (None, rh_munmap ptr whole h2)
                | Some ptr1 \<Rightarrow> Inr (Some ptr1, trim_reservation ptr ptr1 offset whole n h2)))
              (case format of
                 MEM_BACKEND_FORMAT_PCOW \<Rightarrow> (case fdo of None \<Rightarrow> Some (Inr (None, h1)) | Some fdn \<Rightarrow> pcow_mmap (a_pcow ke) n fdn h1)
               | MEM_BACKEND_FORMAT_RAW \<Rightarrow> Some (Inr (raw_mmap (ulong (ptr + offset)) n fdo h1))))"

definition qemu_ram_munmap :: "int \<Rightarrow> int \<Rightarrow> MemoryBackendFileFormat \<Rightarrow> ram_host \<Rightarrow> ram_host res" where
  "qemu_ram_munmap ptr n format h =
     (if ptr = 0 then Inr h
      else case format of
          MEM_BACKEND_FORMAT_PCOW \<Rightarrow> res_bind (fmunmap (rh_cow h) ptr) (\<lambda>(k, c). Inr (h\<lparr>rh_cow := c\<rparr>))
        | MEM_BACKEND_FORMAT_RAW \<Rightarrow> Inr (rh_munmap ptr (ulong (n + PAGE_SIZE)) h))"

text \<open>Anonymous RAM (\<open>util/oslib-posix.c\<close>); \<open>valign\<close> is \<open>QEMU_VMALLOC_ALIGN\<close>. The result is the address, 0 for \<open>NULL\<close>, and the
  alignment used.\<close>

definition qemu_anon_ram_alloc :: "kernel_env \<Rightarrow> int \<Rightarrow> int \<Rightarrow> ram_host \<Rightarrow> (int \<times> int option \<times> ram_host) res option" where
  "qemu_anon_ram_alloc ke valign n h =
     map_option (\<lambda>r. res_bind r (\<lambda>(p, h1). Inr (case p of None \<Rightarrow> (0, None, h1) | Some a \<Rightarrow> (a, Some valign, h1))))
       (qemu_ram_mmap ke None n valign MEM_BACKEND_FORMAT_RAW h)"

definition qemu_anon_ram_free :: "int \<Rightarrow> int \<Rightarrow> ram_host \<Rightarrow> ram_host res" where
  "qemu_anon_ram_free ptr n h = qemu_ram_munmap ptr n MEM_BACKEND_FORMAT_RAW h"

text \<open>\<open>reclaim_ramblock\<close>, without Xen.\<close>

definition reclaim_ramblock :: "RAMBlock \<Rightarrow> MemoryBackendFileFormat \<Rightarrow> ram_host \<Rightarrow> ram_host res" where
  "reclaim_ramblock b format h =
     (if rb_flags b AND RAM_PREALLOC \<noteq> 0 then Inr h
      else if rb_fd b \<ge> 0 then qemu_ram_munmap (rb_host b) (rb_max_length b) format h
      else qemu_anon_ram_free (rb_host b) (rb_max_length b) h)"

section \<open>RAM blocks on files\<close>

definition set_file :: "cstr \<Rightarrow> (pm_file \<Rightarrow> pm_file) \<Rightarrow> ram_host \<Rightarrow> ram_host" where
  "set_file fdn f h = h\<lparr>rh_cow := (rh_cow h)\<lparr>files := (files (rh_cow h))(fdn := f (files (rh_cow h) fdn))\<rparr>\<rparr>"

text \<open>The block is passed by its region, which gets its alignment, and its page size. A result of \<open>None\<close> is
  \<open>NULL\<close> with an error set.\<close>

definition file_ram_map :: "kernel_env \<Rightarrow> MemoryRegion \<Rightarrow> int \<Rightarrow> cstr \<Rightarrow> ram_host \<Rightarrow> (int option \<times> ram_host) res option" where
  "file_ram_map ke mr memory fdn h =
     map_option (\<lambda>r. res_bind r (\<lambda>(area, h1).
         case area of
           None \<Rightarrow> Inr (None, h1)
         | Some p \<Rightarrow>
             (case ke_prealloc ke of
                None \<Rightarrow> Inr (Some p, h1)
              | Some os_mem_prealloc \<Rightarrow>
                  let (ok, h2) = os_mem_prealloc fdn p memory h1 in
                  if ok then Inr (Some p, h2) else res_bind (qemu_ram_munmap p memory (mr_format mr) h2) (\<lambda>h3. Inr (None, h3)))))
       (qemu_ram_mmap ke (Some fdn) memory (mr_align mr) (mr_format mr) h)"

definition file_ram_alloc :: "kernel_env \<Rightarrow> MemoryRegion \<Rightarrow> int \<Rightarrow> cstr \<Rightarrow> bool \<Rightarrow> ram_host \<Rightarrow> (int option \<times> MemoryRegion \<times> ram_host) res option" where
  "file_ram_alloc ke mr memory0 fdn trunc h =
     (let page_size = qemu_fd_getpagesize ke (Some fdn) in
      if mr_align mr mod page_size \<noteq> 0 then Some (Inr (None, mr, h))
      else if mr_align mr \<noteq> 0 \<and> \<not> is_power_of_2 (mr_align mr) then Some (Inr (None, mr, h))
      else
        let mr1 = mr\<lparr>mr_align := max page_size (mr_align mr)\<rparr> in
        if memory0 < page_size then Some (Inr (None, mr1, h))
        else
          let memory = round_up memory0 page_size;
              h1 = (if trunc then set_file fdn (\<lambda>f. snd (ftruncate memory f)) h else h)
          in map_option (\<lambda>r. res_bind r (\<lambda>(p, h2). Inr (p, mr1, h2))) (file_ram_map ke mr1 memory fdn h1))"

definition file_block :: "nat \<Rightarrow> nat \<Rightarrow> int \<Rightarrow> int \<Rightarrow> bool \<Rightarrow> int \<Rightarrow> RAMBlock" where
  "file_block i mrn host n share page_size =
     \<lparr>rb_id = i, rb_mr = mrn, rb_host = host, rb_offset = 0, rb_used_length = n, rb_max_length = n, rb_resized = False,
      rb_flags = (if share then RAM_SHARED else 0), rb_idstr = [], rb_fd = 0, rb_page_size = page_size\<rparr>"

definition add_file_block :: "kernel_env \<Rightarrow> nat \<Rightarrow> nat \<Rightarrow> int \<Rightarrow> bool \<Rightarrow> cstr \<Rightarrow> int option \<times> MemoryRegion \<times> ram_host \<Rightarrow> ram_world
    \<Rightarrow> (block_ptr \<times> MemoryRegion \<times> ram_world) res" where
  "add_file_block ke i mrn n share fdn res w =
     (let (host, mr, h) = res; w1 = w\<lparr>rw_host := h\<rparr> in
      case host of
        None \<Rightarrow> Inr (Null_block, mr, w1)
      | Some p \<Rightarrow>
          if p = 0 then Inr (Null_block, mr, w1)
          else res_bind (ram_block_add (ke_host ke) (file_block i mrn p n share (qemu_fd_getpagesize ke (Some fdn))) share (rw_list w1)) (\<lambda>(b, l).
            Inr (case b of None \<Rightarrow> Null_block | Some b \<Rightarrow> Block b, mr, w1\<lparr>rw_list := l\<rparr>)))"

text \<open>The size of the block: the image decides for a pcow file, the caller for a raw one, which must be large
  enough. The outer \<open>None\<close> of the size is the error return.\<close>

datatype file_size = Size int | Size_error | Size_map_failed

definition backing_size :: "kernel_env \<Rightarrow> MemoryRegion \<Rightarrow> int \<Rightarrow> cstr \<Rightarrow> ram_host \<Rightarrow> file_size res" where
  "backing_size ke mr n0 fdn h =
     (let n = host_page_align (ke_host ke) n0; f = files (rh_cow h) fdn; file_size = st_size f in
      case mr_format mr of
        MEM_BACKEND_FORMAT_PCOW \<Rightarrow>
          (case read_first_super f fdn 0 of
             Inl e \<Rightarrow> Inl e
           | Inr None \<Rightarrow> Inr Size_map_failed
           | Inr (Some s) \<Rightarrow> Inr (Size (ulong (ulong (max_block_num s) * ulong (block_size s)))))
      | MEM_BACKEND_FORMAT_RAW \<Rightarrow> Inr (if file_size > 0 \<and> file_size < n then Size_error else Size n))"

definition qemu_ram_alloc_from_fd :: "kernel_env \<Rightarrow> nat \<Rightarrow> int \<Rightarrow> nat \<Rightarrow> MemoryRegion \<Rightarrow> bool \<Rightarrow> cstr \<Rightarrow> ram_world
    \<Rightarrow> (block_ptr \<times> MemoryRegion \<times> ram_world) res option" where
  "qemu_ram_alloc_from_fd ke i n0 mrn mr share fdn w =
     (if he_xen (ke_host ke) \<noteq> None \<or> ke_kvm_without_mmu ke \<or> ke_other_alloc ke then Some (Inr (Null_block, mr, w))
      else case backing_size ke mr n0 fdn (rw_host w) of
          Inl e \<Rightarrow> Some (Inl e)
        | Inr Size_error \<Rightarrow> Some (Inr (Null_block, mr, w))
        | Inr Size_map_failed \<Rightarrow> Some (Inr (Map_failed_block, mr, w))
        | Inr (Size n) \<Rightarrow>
            map_option (\<lambda>r. res_bind r (\<lambda>res. add_file_block ke i mrn n share fdn res w))
              (file_ram_alloc ke mr n fdn (st_size (files (rh_cow (rw_host w)) fdn) = 0) (rw_host w)))"

text \<open>\<open>file_ram_open\<close> against the answers of the system calls it makes, in order. The result is the file opened and
  whether it was created, or \<open>None\<close> for an error; no result when the answers run out in the retry loop.\<close>

datatype open_reply = Opened | Enoent | Eisdir | Eexist | Eintr | Other_error

datatype open_result = Open_file cstr | Open_created cstr | Open_temporary | Open_failed

fun file_ram_open :: "cstr \<Rightarrow> open_reply list \<Rightarrow> open_result option" where
  "file_ram_open path (Opened # rs) = Some (Open_file path)"
| "file_ram_open path (Enoent # Opened # rs) = Some (Open_created path)"
| "file_ram_open path (Eisdir # Opened # rs) = Some Open_temporary"
| "file_ram_open path (Enoent # Eexist # rs) = file_ram_open path rs"
| "file_ram_open path (Enoent # Eintr # rs) = file_ram_open path rs"
| "file_ram_open path (Enoent # r # rs) = Some Open_failed"
| "file_ram_open path (Eisdir # Eexist # rs) = file_ram_open path rs"
| "file_ram_open path (Eisdir # Eintr # rs) = file_ram_open path rs"
| "file_ram_open path (Eisdir # r # rs) = Some Open_failed"
| "file_ram_open path (Eexist # rs) = file_ram_open path rs"
| "file_ram_open path (Eintr # rs) = file_ram_open path rs"
| "file_ram_open path (Other_error # rs) = Some Open_failed"
| "file_ram_open path rs = None"

definition qemu_ram_alloc_from_file :: "kernel_env \<Rightarrow> nat \<Rightarrow> int \<Rightarrow> nat \<Rightarrow> MemoryRegion \<Rightarrow> bool \<Rightarrow> cstr \<Rightarrow> open_reply list \<Rightarrow> cstr \<Rightarrow> ram_world
    \<Rightarrow> (block_ptr \<times> MemoryRegion \<times> ram_world) res option" where
  "qemu_ram_alloc_from_file ke i n mrn mr share path replies tmp w =
     (case file_ram_open path replies of
        None \<Rightarrow> None
      | Some Open_failed \<Rightarrow> Some (Inr (Null_block, mr, w))
      | Some (Open_file p) \<Rightarrow> qemu_ram_alloc_from_fd ke i n mrn mr share p w
      | Some Open_temporary \<Rightarrow> qemu_ram_alloc_from_fd ke i n mrn mr share tmp w
      | Some (Open_created p) \<Rightarrow>
          map_option (\<lambda>r. res_bind r (\<lambda>(b, mr1, w1).
              Inr (b, mr1, if b = Null_block then w1\<lparr>rw_host := set_file p (\<lambda>f. snd (ftruncate 0 f)) (rw_host w1)\<rparr> else w1)))
            (qemu_ram_alloc_from_fd ke i n mrn mr share p w))"

section \<open>Memory regions on RAM blocks\<close>

definition memory_region_initfn :: MemoryRegion where
  "memory_region_initfn =
     \<lparr>mr_romd_mode = True, mr_ram = False, mr_subpage = False, mr_readonly = False, mr_rom_device = False, mr_flush_coalesced_mmio = False,
      mr_global_locking = True, mr_dirty_log_mask = 0, mr_is_iommu = False, mr_ram_block = None, mr_owner = None,
      mr_endianness = DEVICE_NATIVE_ENDIAN, mr_container = None, mr_size = 0, mr_addr = 0, mr_align = 0, mr_terminates = False,
      mr_ram_device = False, mr_enabled = True, mr_vga_logging_count = 0, mr_alias = None, mr_alias_offset = 0, mr_priority = 0,
      mr_subregions = [], mr_coalesced = [], mr_ioeventfds = [], mr_format = MEM_BACKEND_FORMAT_RAW\<rparr>"

definition memory_region_do_init :: "nat option \<Rightarrow> int \<Rightarrow> MemoryRegion \<Rightarrow> MemoryRegion" where
  "memory_region_do_init owner n mr =
     mr\<lparr>mr_size := (if n = 18446744073709551615 then 18446744073709551616 else n), mr_owner := owner, mr_ram_block := None\<rparr>"

definition memory_region_init :: "nat option \<Rightarrow> int \<Rightarrow> MemoryRegion" where
  "memory_region_init owner n = memory_region_do_init owner n memory_region_initfn"

definition tcg_mask :: "kernel_env \<Rightarrow> u8" where
  "tcg_mask ke = (if ke_tcg ke then 2 else 0)"

definition with_block :: "kernel_env \<Rightarrow> MemoryRegion \<Rightarrow> block_ptr \<Rightarrow> MemoryRegion" where
  "with_block ke mr b = mr\<lparr>mr_ram_block := (case b of Block b \<Rightarrow> Some (rb_id b) | _ \<Rightarrow> None), mr_dirty_log_mask := tcg_mask ke\<rparr>"

definition block_of :: "RAMBlock option \<Rightarrow> block_ptr" where
  "block_of b = (case b of None \<Rightarrow> Null_block | Some b \<Rightarrow> Block b)"

definition memory_region_init_ram_from_file :: "kernel_env \<Rightarrow> nat \<Rightarrow> nat \<Rightarrow> nat option \<Rightarrow> int \<Rightarrow> int \<Rightarrow> bool \<Rightarrow> cstr \<Rightarrow> MemoryBackendFileFormat
    \<Rightarrow> open_reply list \<Rightarrow> cstr \<Rightarrow> ram_world \<Rightarrow> (block_ptr \<times> MemoryRegion \<times> ram_world) res option" where
  "memory_region_init_ram_from_file ke i mrn owner n align share path format replies tmp w =
     (let mr = (memory_region_init owner n)\<lparr>mr_ram := True, mr_terminates := True, mr_align := align, mr_format := format\<rparr> in
      map_option (\<lambda>r. res_bind r (\<lambda>(b, mr1, w1). Inr (b, with_block ke mr1 b, w1)))
        (qemu_ram_alloc_from_file ke i n mrn mr share path replies tmp w))"

definition memory_region_init_ram_from_fd :: "kernel_env \<Rightarrow> nat \<Rightarrow> nat \<Rightarrow> nat option \<Rightarrow> int \<Rightarrow> bool \<Rightarrow> cstr \<Rightarrow> ram_world
    \<Rightarrow> (block_ptr \<times> MemoryRegion \<times> ram_world) res option" where
  "memory_region_init_ram_from_fd ke i mrn owner n share fdn w =
     (let mr = (memory_region_init owner n)\<lparr>mr_ram := True, mr_terminates := True\<rparr> in
      map_option (\<lambda>r. res_bind r (\<lambda>(b, mr1, w1). Inr (b, with_block ke mr1 b, w1)))
        (qemu_ram_alloc_from_fd ke i n mrn mr share fdn w))"

definition on_list :: "(RAMBlock option \<times> RAMList) res \<Rightarrow> (block_ptr \<Rightarrow> MemoryRegion) \<Rightarrow> ram_world \<Rightarrow> (block_ptr \<times> MemoryRegion \<times> ram_world) res" where
  "on_list r f w = res_bind r (\<lambda>(b, l). Inr (block_of b, f (block_of b), w\<lparr>rw_list := l\<rparr>))"

definition memory_region_init_ram_shared_nomigrate :: "kernel_env \<Rightarrow> nat \<Rightarrow> nat \<Rightarrow> nat option \<Rightarrow> int \<Rightarrow> bool \<Rightarrow> ram_world
    \<Rightarrow> (block_ptr \<times> MemoryRegion \<times> ram_world) res" where
  "memory_region_init_ram_shared_nomigrate ke i mrn owner n share w =
     (let mr = (memory_region_init owner n)\<lparr>mr_ram := True, mr_terminates := True\<rparr>
      in on_list (qemu_ram_alloc (ke_host ke) i n share mrn (rw_list w)) (with_block ke mr) w)"

definition memory_region_init_ram_nomigrate :: "kernel_env \<Rightarrow> nat \<Rightarrow> nat \<Rightarrow> nat option \<Rightarrow> int \<Rightarrow> ram_world \<Rightarrow> (block_ptr \<times> MemoryRegion \<times> ram_world) res" where
  "memory_region_init_ram_nomigrate ke i mrn owner n w = memory_region_init_ram_shared_nomigrate ke i mrn owner n False w"

definition memory_region_init_resizeable_ram :: "kernel_env \<Rightarrow> nat \<Rightarrow> nat \<Rightarrow> nat option \<Rightarrow> int \<Rightarrow> int \<Rightarrow> bool \<Rightarrow> ram_world
    \<Rightarrow> (block_ptr \<times> MemoryRegion \<times> ram_world) res" where
  "memory_region_init_resizeable_ram ke i mrn owner n max_n resized w =
     (let mr = (memory_region_init owner n)\<lparr>mr_ram := True, mr_terminates := True\<rparr>
      in on_list (qemu_ram_alloc_resizeable (ke_host ke) i n max_n resized mrn (rw_list w)) (with_block ke mr) w)"

definition memory_region_init_ram_ptr :: "kernel_env \<Rightarrow> nat \<Rightarrow> nat \<Rightarrow> nat option \<Rightarrow> int \<Rightarrow> int \<Rightarrow> ram_world \<Rightarrow> (block_ptr \<times> MemoryRegion \<times> ram_world) res" where
  "memory_region_init_ram_ptr ke i mrn owner n ptr w =
     (let mr = (memory_region_init owner n)\<lparr>mr_ram := True, mr_terminates := True\<rparr>
      in if ptr = 0 then Inl Assert_failed
         else on_list (qemu_ram_alloc_from_ptr (ke_host ke) i n ptr mrn (rw_list w)) (with_block ke mr) w)"

definition memory_region_init_ram_device_ptr :: "kernel_env \<Rightarrow> nat \<Rightarrow> nat \<Rightarrow> nat option \<Rightarrow> int \<Rightarrow> int \<Rightarrow> ram_world \<Rightarrow> (block_ptr \<times> MemoryRegion \<times> ram_world) res" where
  "memory_region_init_ram_device_ptr ke i mrn owner n ptr w =
     res_bind (memory_region_init_ram_ptr ke i mrn owner n ptr w) (\<lambda>(b, mr, w1). Inr (b, mr\<lparr>mr_ram_device := True\<rparr>, w1))"

definition memory_region_init_alias :: "nat option \<Rightarrow> nat \<Rightarrow> int \<Rightarrow> int \<Rightarrow> MemoryRegion" where
  "memory_region_init_alias owner orig offset n = (memory_region_init owner n)\<lparr>mr_alias := Some orig, mr_alias_offset := offset\<rparr>"

definition memory_region_init_rom_nomigrate :: "kernel_env \<Rightarrow> nat \<Rightarrow> nat \<Rightarrow> nat option \<Rightarrow> int \<Rightarrow> ram_world \<Rightarrow> (block_ptr \<times> MemoryRegion \<times> ram_world) res" where
  "memory_region_init_rom_nomigrate ke i mrn owner n w =
     (let mr = (memory_region_init owner n)\<lparr>mr_ram := True, mr_readonly := True, mr_terminates := True\<rparr>
      in on_list (qemu_ram_alloc (ke_host ke) i n False mrn (rw_list w)) (with_block ke mr) w)"

section \<open>The memory backend\<close>

record HostMemoryBackendFile =
  be_size :: int
  be_share :: bool
  be_mr :: "MemoryRegion option"
  fb_mem_path :: "cstr option"
  fb_format_name :: "string option"
  fb_align :: int
  fb_format :: MemoryBackendFileFormat

datatype backend_error = Size_zero | No_mem_path | Size_with_format | Not_formatted | Unknown_format

text \<open>The size and format of the backend, or why it is refused.\<close>

definition backend_prepare :: "HostMemoryBackendFile \<Rightarrow> ram_host \<Rightarrow> (backend_error + HostMemoryBackendFile) res" where
  "backend_prepare be h =
     (if be_size be = 0 \<and> fb_format_name be = None then Inr (Inl Size_zero)
      else case fb_mem_path be of
          None \<Rightarrow> Inr (Inl No_mem_path)
        | Some path \<Rightarrow>
            (case fb_format_name be of
               None \<Rightarrow> Inr (Inr (be\<lparr>fb_format := MEM_BACKEND_FORMAT_RAW\<rparr>))
             | Some name \<Rightarrow>
                 if be_size be \<noteq> 0 then Inr (Inl Size_with_format)
                 else if name = ''pcow''
                 then (case read_first_super (files (rh_cow h) path) path 0 of
                         Inl e \<Rightarrow> Inl e
                       | Inr None \<Rightarrow> Inr (Inl Not_formatted)
                       | Inr (Some s) \<Rightarrow> Inr (Inr (be\<lparr>fb_format := MEM_BACKEND_FORMAT_PCOW, be_size := ulong (ulong (block_size s) * ulong (max_block_num s))\<rparr>)))
                 else Inr (Inl Unknown_format)))"

definition file_backend_memory_alloc :: "kernel_env \<Rightarrow> nat \<Rightarrow> nat \<Rightarrow> nat \<Rightarrow> open_reply list \<Rightarrow> cstr \<Rightarrow> HostMemoryBackendFile \<Rightarrow> ram_world
    \<Rightarrow> ((backend_error + block_ptr option \<times> HostMemoryBackendFile) \<times> ram_world) res option" where
  "file_backend_memory_alloc ke i mrn owner replies tmp be w =
     (case backend_prepare be (rw_host w) of
        Inl e \<Rightarrow> Some (Inl e)
      | Inr (Inl err) \<Rightarrow> Some (Inr (Inl err, w))
      | Inr (Inr be1) \<Rightarrow>
          (case (be_mr be1, fb_mem_path be1) of
             (None, Some path) \<Rightarrow>
               map_option (\<lambda>r. res_bind r (\<lambda>(b, mr, w1). Inr (Inr (Some b, be1\<lparr>be_mr := Some mr\<rparr>), w1)))
                 (memory_region_init_ram_from_file ke i mrn (Some owner) (be_size be1) (fb_align be1) (be_share be1) path (fb_format be1) replies tmp w)
           | _ \<Rightarrow> Some (Inr (Inr (None, be1), w))))"

definition set_mem_path :: "cstr \<Rightarrow> HostMemoryBackendFile \<Rightarrow> HostMemoryBackendFile option" where
  "set_mem_path str be = (if be_mr be \<noteq> None then None else Some (be\<lparr>fb_mem_path := Some str\<rparr>))"

definition set_format_name :: "string \<Rightarrow> HostMemoryBackendFile \<Rightarrow> HostMemoryBackendFile option" where
  "set_format_name str be = (if be_mr be \<noteq> None then None else Some (be\<lparr>fb_format_name := Some str\<rparr>))"

definition file_memory_backend_set_align :: "int \<Rightarrow> HostMemoryBackendFile \<Rightarrow> HostMemoryBackendFile option" where
  "file_memory_backend_set_align val be = (if be_mr be \<noteq> None then None else Some (be\<lparr>fb_align := val\<rparr>))"

end
