(* ===== verification/Guest_Access.thy ===== *)
theory Guest_Access
  imports Dispatch_View Byte_Device Ram_Backend
begin

text \<open>
  Accesses to guest memory (\<open>qemu-diff/exec.c\<close>): an address is translated through the dispatch of a flat view, and through
  IOMMUs when it hits one; the bytes are copied from or to the RAM behind the region, or passed to the device in accesses it
  accepts, until the whole buffer is done.

  The host memory is a function from host addresses to bytes; the state of all devices is one value that the callbacks pass on.
  The dispatch belongs to a flat view, named by a number, and remembers the last section; \<open>ge_view\<close> gives the view of an address
  space. The read lock of RCU keeps views alive and is no step of its own. Of the big lock only whether this thread holds it
  matters. Calls into other parts of QEMU are entries of \<open>gs_calls\<close>.

  What is not in the repository is a field of the environment: the answers of IOMMUs, which may depend on the devices' state,
  \<open>ramblock_ptr\<close>, \<open>cpu_physical_memory_range_includes_clean\<close>, \<open>pow2floor\<close>, and \<open>ldn_p\<close> and \<open>stn_p\<close>, which load and store a number in the
  byte order of the target. With Xen the RAM blocks are taken as mapped already.
\<close>

section \<open>State\<close>

record IOMMUTLBEntry =
  tlb_target_as :: "nat option"
  tlb_iova :: int
  tlb_translated_addr :: int
  tlb_addr_mask :: int
  tlb_perm :: u8

definition IOMMU_RW :: u8 where "IOMMU_RW = 3"

record 'd guest_env =
  ge_tpb :: nat
  ge_regions :: regions
  ge_ops :: "section_mr \<Rightarrow> 'd MemoryRegionOps"
  ge_view :: "nat \<Rightarrow> nat"
  ge_target_be :: bool
  ge_kvm_eventfds :: bool
  ge_dirty_log :: bool
  ge_tcg :: bool
  ge_xen :: bool
  ge_attrs_to_index :: "nat \<Rightarrow> (attrs \<Rightarrow> int) option"
  ge_iommu_translate :: "'d \<Rightarrow> nat \<Rightarrow> int \<Rightarrow> bool \<Rightarrow> int \<Rightarrow> IOMMUTLBEntry"
  ge_ramblock_ptr :: "RAMBlock \<Rightarrow> int \<Rightarrow> int res"
  ge_includes_clean :: "bitmap list list \<Rightarrow> int \<Rightarrow> int \<Rightarrow> u8 \<Rightarrow> u8"
  ge_pow2floor :: "int \<Rightarrow> int"
  ge_ldn_p :: "u8 list \<Rightarrow> nat \<Rightarrow> u64 res"
  ge_stn_p :: "nat \<Rightarrow> u64 \<Rightarrow> u8 list res"

datatype guest_call = Flush_coalesced | Tb_invalidate int int | Dirty_range int int u8 | Signalled nat | Icache_flush int int

record 'd guest_state =
  gs_dispatch :: "nat \<Rightarrow> AddressSpaceDispatch"
  gs_ram :: RAMList
  gs_host :: "int \<Rightarrow> u8"
  gs_dev :: 'd
  gs_bql :: bool
  gs_calls :: "guest_call list"

definition guest_call :: "guest_call \<Rightarrow> 'd guest_state \<Rightarrow> 'd guest_state" where
  "guest_call c s = s\<lparr>gs_calls := gs_calls s @ [c]\<rparr>"

section \<open>Regions\<close>

text \<open>The special regions are made by \<open>io_mem_init\<close>, with \<open>memory_region_init_io\<close>.\<close>

definition io_mem_init :: "section_mr \<Rightarrow> MemoryRegion" where
  "io_mem_init mr =
     (let io = (memory_region_init None 18446744073709551615)\<lparr>mr_terminates := True\<rparr>
      in if mr = Io_mem_notdirty then io\<lparr>mr_global_locking := False\<rparr> else io)"

definition section_region :: "'d guest_env \<Rightarrow> section_mr \<Rightarrow> MemoryRegion" where
  "section_region env mr = (case mr of Mr r \<Rightarrow> ge_regions env r | _ \<Rightarrow> io_mem_init mr)"

definition section_ops :: "'d guest_env \<Rightarrow> section_mr \<Rightarrow> 'd MemoryRegionOps" where
  "section_ops env mr = (if mr = Io_mem_unassigned then unassigned_mem_ops else ge_ops env mr)"

text \<open>\<open>mr->ram_block\<close>; a pointer to a block that is gone must not be followed.\<close>

definition region_block :: "MemoryRegion \<Rightarrow> RAMList \<Rightarrow> RAMBlock option res" where
  "region_block mr ram =
     (case mr_ram_block mr of
        None \<Rightarrow> Inr None
      | Some i \<Rightarrow> (case block_named ram i of None \<Rightarrow> Inl Undefined | Some b \<Rightarrow> Inr (Some b)))"

definition memory_region_get_ram_addr :: "MemoryRegion \<Rightarrow> RAMList \<Rightarrow> int res" where
  "memory_region_get_ram_addr mr ram =
     res_bind (region_block mr ram) (\<lambda>b. Inr (case b of None \<Rightarrow> RAM_ADDR_INVALID | Some b \<Rightarrow> rb_offset b))"

definition memory_region_is_romd :: "MemoryRegion \<Rightarrow> bool" where
  "memory_region_is_romd mr \<longleftrightarrow> mr_rom_device mr \<and> mr_romd_mode mr"

definition memory_access_is_direct :: "MemoryRegion \<Rightarrow> bool \<Rightarrow> bool" where
  "memory_access_is_direct mr is_write \<longleftrightarrow>
     (if is_write then mr_ram mr \<and> \<not> mr_readonly mr \<and> \<not> mr_ram_device mr
      else mr_ram mr \<and> \<not> mr_ram_device mr \<or> memory_region_is_romd mr)"

partial_function (option) memory_region_get_iommu :: "regions \<Rightarrow> nat \<Rightarrow> nat option option" where
  "memory_region_get_iommu rg r =
     (case mr_alias (rg r) of
        Some al \<Rightarrow> memory_region_get_iommu rg al
      | None \<Rightarrow> Some (if mr_is_iommu (rg r) then Some r else None))"

definition section_iommu :: "regions \<Rightarrow> MemoryRegionSection \<Rightarrow> nat option option" where
  "section_iommu rg sec = (case ms_mr sec of Mr r \<Rightarrow> memory_region_get_iommu rg r | _ \<Rightarrow> Some None)"

section \<open>Translation\<close>

text \<open>One lookup in the dispatch of a view: the section, the offset in its region, and the length.\<close>

definition view_translate :: "'d guest_env \<Rightarrow> nat \<Rightarrow> int \<Rightarrow> int \<Rightarrow> bool \<Rightarrow> 'd guest_state
    \<Rightarrow> (MemoryRegionSection \<times> int \<times> int \<times> 'd guest_state) res" where
  "view_translate env v a plen resolve_subpage s =
     res_bind (address_space_translate_internal (ge_regions env) (P_L2_LEVELS (ge_tpb env)) (ge_tpb env) (gs_dispatch s v) a plen resolve_subpage)
       (\<lambda>(i, xlat, p, d). Inr (sections (disp_map (gs_dispatch s v)) ! i, xlat, p, s\<lparr>gs_dispatch := (gs_dispatch s)(v := d)\<rparr>))"

definition null_section :: MemoryRegionSection where
  "null_section = \<lparr>ms_mr = Io_mem_unassigned, ms_offset_within_region = 0, ms_size = 0, ms_offset_within_address_space = 0, ms_readonly = False\<rparr>"

text \<open>The result is the section, the offset, the length, the page mask when it is written, the address space and the state.\<close>

type_synonym 'd translation = "MemoryRegionSection \<times> int \<times> int \<times> int option \<times> nat option \<times> 'd guest_state"

partial_function (option) address_space_translate_iommu :: "'d guest_env \<Rightarrow> nat \<Rightarrow> int \<Rightarrow> int \<Rightarrow> int \<Rightarrow> bool \<Rightarrow> bool \<Rightarrow> nat option \<Rightarrow> attrs
    \<Rightarrow> 'd guest_state \<Rightarrow> 'd translation res option" where
  "address_space_translate_iommu env iommu_mr xlat plen page_mask is_write is_mmio target_as atr s =
     (let idx = (case ge_attrs_to_index env iommu_mr of None \<Rightarrow> 0 | Some f \<Rightarrow> f atr);
          iotlb = ge_iommu_translate env (gs_dev s) iommu_mr xlat is_write idx;
          msk = tlb_addr_mask iotlb;
          a = or (and (tlb_translated_addr iotlb) (not msk)) (and xlat msk)
      in if \<not> bit (tlb_perm iotlb) (of_bool is_write) then Some (Inr (null_section, xlat, plen, None, target_as, s))
         else case tlb_target_as iotlb of
                None \<Rightarrow> Some (Inl Undefined)
              | Some as \<Rightarrow>
                 (case view_translate env (ge_view env as) a (min plen (ulong (or a msk - a + 1))) is_mmio s of
                    Inl e \<Rightarrow> Some (Inl e)
                  | Inr (sec, x, p, s1) \<Rightarrow>
                     Option.bind (section_iommu (ge_regions env) sec) (\<lambda>io.
                       case io of
                         None \<Rightarrow> Some (Inr (sec, x, p, Some (and page_mask msk), Some as, s1))
                       | Some m \<Rightarrow> address_space_translate_iommu env m x p (and page_mask msk) is_write is_mmio (Some as) atr s1)))"

definition flatview_do_translate :: "'d guest_env \<Rightarrow> nat \<Rightarrow> int \<Rightarrow> int option \<Rightarrow> bool \<Rightarrow> bool \<Rightarrow> nat option \<Rightarrow> attrs \<Rightarrow> 'd guest_state
    \<Rightarrow> 'd translation res option" where
  "flatview_do_translate env fv a plen_out is_write is_mmio target_as atr s =
     (let plen = (case plen_out of None \<Rightarrow> 18446744073709551615 | Some p \<Rightarrow> p) in
      case view_translate env fv a plen is_mmio s of
        Inl e \<Rightarrow> Some (Inl e)
      | Inr (sec, x, p, s1) \<Rightarrow>
          Option.bind (section_iommu (ge_regions env) sec) (\<lambda>io.
            case io of
              Some m \<Rightarrow> address_space_translate_iommu env m x p 18446744073709551615 is_write is_mmio target_as atr s1
            | None \<Rightarrow> Some (Inr (sec, x, p, Some (2 ^ ge_tpb env - 1), target_as, s1))))"

definition address_space_get_iotlb_entry :: "'d guest_env \<Rightarrow> nat \<Rightarrow> int \<Rightarrow> bool \<Rightarrow> attrs \<Rightarrow> 'd guest_state
    \<Rightarrow> (IOMMUTLBEntry \<times> 'd guest_state) res option" where
  "address_space_get_iotlb_entry env as a is_write atr s =
     map_option (\<lambda>t. res_bind t (\<lambda>(sec, xlat, p, page_mask, as', s1).
         if ms_mr sec = Io_mem_unassigned
         then Inr (\<lparr>tlb_target_as = None, tlb_iova = 0, tlb_translated_addr = 0, tlb_addr_mask = 0, tlb_perm = 0\<rparr>, s1)
         else case page_mask of
                None \<Rightarrow> Inl Undefined
              | Some m \<Rightarrow>
                  let x = ulong (xlat + (ms_offset_within_address_space sec - ms_offset_within_region sec))
                  in Inr (\<lparr>tlb_target_as = as', tlb_iova = and a (not m), tlb_translated_addr = and x (not m), tlb_addr_mask = m, tlb_perm = IOMMU_RW\<rparr>, s1)))
       (flatview_do_translate env (ge_view env as) a None is_write False (Some as) atr s)"

definition flatview_translate :: "'d guest_env \<Rightarrow> nat \<Rightarrow> int \<Rightarrow> int \<Rightarrow> bool \<Rightarrow> attrs \<Rightarrow> 'd guest_state
    \<Rightarrow> (section_mr \<times> int \<times> int \<times> 'd guest_state) res option" where
  "flatview_translate env fv a plen is_write atr s =
     map_option (\<lambda>t. res_bind t (\<lambda>(sec, xlat, p, page_mask, as, s1).
         Inr (ms_mr sec, xlat,
              if ge_xen env \<and> memory_access_is_direct (section_region env (ms_mr sec)) is_write
              then min (ulong (page_floor (ge_tpb env) a + 2 ^ ge_tpb env - a)) p else p,
              s1)))
       (flatview_do_translate env fv a (Some plen) is_write True None atr s)"

section \<open>Accesses\<close>

definition DIRTY_MEMORY_CODE :: nat where "DIRTY_MEMORY_CODE = 1"

definition invalidate_and_set_dirty :: "'d guest_env \<Rightarrow> MemoryRegion \<Rightarrow> int \<Rightarrow> int \<Rightarrow> 'd guest_state \<Rightarrow> 'd guest_state res" where
  "invalidate_and_set_dirty env mr a n s =
     res_bind (memory_region_get_ram_addr mr (gs_ram s)) (\<lambda>base.
       let a1 = ulong (a + base); m0 = memory_region_get_dirty_log_mask (ge_dirty_log env) mr;
           m1 = (if m0 \<noteq> 0 then ge_includes_clean env (rl_dirty_memory (gs_ram s)) a1 n m0 else m0)
       in if bit m1 DIRTY_MEMORY_CODE
          then if ge_tcg env
            then Inr (guest_call (Dirty_range a1 n (and m1 (not (push_bit DIRTY_MEMORY_CODE 1)))) (guest_call (Tb_invalidate a1 (ulong (a1 + n))) s))
            else Inl Assert_failed
          else Inr (guest_call (Dirty_range a1 n m1) s))"

definition memory_access_size :: "'d guest_env \<Rightarrow> section_mr \<Rightarrow> int \<Rightarrow> int \<Rightarrow> int" where
  "memory_access_size env mr l a =
     (let ops = section_ops env mr;
          mx = (if valid_max ops = 0 then 4 else int (valid_max ops));
          align = uint32 (and a (ulong (- a)));
          mx1 = (if \<not> impl_unaligned ops \<and> align \<noteq> 0 \<and> align < mx then align else mx)
      in ge_pow2floor env (min (uint32 l) mx1))"

text \<open>The result says whether the big lock must be released after the access.\<close>

definition prepare_mmio_access :: "MemoryRegion \<Rightarrow> 'd guest_state \<Rightarrow> bool \<times> 'd guest_state" where
  "prepare_mmio_access mr s =
     (let unlocked = \<not> gs_bql s; release_lock = (unlocked \<and> mr_global_locking mr);
          s1 = (if release_lock then s\<lparr>gs_bql := True\<rparr> else s);
          s2 = (if mr_flush_coalesced_mmio mr then guest_call Flush_coalesced s1 else s1)
      in (release_lock, s2))"

definition release :: "bool \<Rightarrow> 'd guest_state \<Rightarrow> 'd guest_state" where
  "release release_lock s = (if release_lock then s\<lparr>gs_bql := False\<rparr> else s)"

text \<open>One round of a read: the result, the number of bytes done, the bytes, and the state.\<close>

definition read_piece :: "'d guest_env \<Rightarrow> attrs \<Rightarrow> section_mr \<Rightarrow> int \<Rightarrow> int \<Rightarrow> 'd guest_state
    \<Rightarrow> (MemTxResult \<times> int \<times> u8 list \<times> 'd guest_state) res" where
  "read_piece env atr mr addr1 l s =
     (let region = section_region env mr in
      if \<not> memory_access_is_direct region False
      then let (release_lock, s1) = prepare_mmio_access region s; n = memory_access_size env mr l addr1
        in res_bind (memory_region_dispatch_read (ge_target_be env) (section_ops env mr) (gs_dev s1) addr1 (nat n) atr) (\<lambda>(r, val, d).
             res_bind (ge_stn_p env (nat n) val) (\<lambda>bs. Inr (r, n, bs, release release_lock (s1\<lparr>gs_dev := d\<rparr>))))
      else res_bind (region_block region (gs_ram s)) (\<lambda>b.
             res_bind (qemu_ram_ptr_length (ge_ramblock_ptr env) b addr1 l (gs_ram s)) (\<lambda>(p, n, ram).
               Inr (MEMTX_OK, n, peek (gs_host s) p (nat n), s\<lparr>gs_ram := ram\<rparr>))))"

definition write_piece :: "'d guest_env \<Rightarrow> attrs \<Rightarrow> section_mr \<Rightarrow> int \<Rightarrow> int \<Rightarrow> u8 list \<Rightarrow> 'd guest_state
    \<Rightarrow> (MemTxResult \<times> int \<times> 'd guest_state) res" where
  "write_piece env atr mr addr1 l buf s =
     (let region = section_region env mr in
      if \<not> memory_access_is_direct region True
      then let (release_lock, s1) = prepare_mmio_access region s; n = memory_access_size env mr l addr1
        in res_bind (ge_ldn_p env buf (nat n)) (\<lambda>val.
             res_bind (memory_region_dispatch_write (ge_target_be env) (ge_kvm_eventfds env) (mr_ioeventfds region) (section_ops env mr) (gs_dev s1) addr1 val (nat n) atr)
               (\<lambda>(r, sig, d). let s2 = s1\<lparr>gs_dev := d\<rparr>; s3 = (case sig of None \<Rightarrow> s2 | Some e \<Rightarrow> guest_call (Signalled e) s2)
                  in Inr (r, n, release release_lock s3)))
      else res_bind (region_block region (gs_ram s)) (\<lambda>b.
             res_bind (qemu_ram_ptr_length (ge_ramblock_ptr env) b addr1 l (gs_ram s)) (\<lambda>(p, n, ram).
               res_bind (invalidate_and_set_dirty env region addr1 n (s\<lparr>gs_ram := ram, gs_host := poke (gs_host s) p (take (nat n) buf)\<rparr>)) (\<lambda>s1.
                 Inr (MEMTX_OK, n, s1)))))"

text \<open>The loops. \<open>acc\<close> is the part of the buffer that is filled; a write is given the rest of its buffer.\<close>

partial_function (option) flatview_read_continue :: "'d guest_env \<Rightarrow> nat \<Rightarrow> attrs \<Rightarrow> int \<Rightarrow> int \<Rightarrow> int \<Rightarrow> int \<Rightarrow> section_mr \<Rightarrow> MemTxResult \<Rightarrow> u8 list
    \<Rightarrow> 'd guest_state \<Rightarrow> (MemTxResult \<times> u8 list \<times> 'd guest_state) res option" where
  "flatview_read_continue env fv atr a len addr1 l mr result acc s =
     (case read_piece env atr mr addr1 l s of
        Inl e \<Rightarrow> Some (Inl e)
      | Inr (r, n, bs, s1) \<Rightarrow>
          if cint (len - n) = 0 then Some (Inr (result OR r, acc @ bs, s1))
          else Option.bind (flatview_translate env fv (ulong (a + n)) (ulong (cint (len - n))) False atr s1) (\<lambda>t.
            case t of
              Inl e \<Rightarrow> Some (Inl e)
            | Inr (mr1, xlat, l1, s2) \<Rightarrow> flatview_read_continue env fv atr (ulong (a + n)) (cint (len - n)) xlat l1 mr1 (result OR r) (acc @ bs) s2))"

partial_function (option) flatview_write_continue :: "'d guest_env \<Rightarrow> nat \<Rightarrow> attrs \<Rightarrow> int \<Rightarrow> int \<Rightarrow> int \<Rightarrow> int \<Rightarrow> section_mr \<Rightarrow> MemTxResult \<Rightarrow> u8 list
    \<Rightarrow> 'd guest_state \<Rightarrow> (MemTxResult \<times> 'd guest_state) res option" where
  "flatview_write_continue env fv atr a len addr1 l mr result buf s =
     (case write_piece env atr mr addr1 l buf s of
        Inl e \<Rightarrow> Some (Inl e)
      | Inr (r, n, s1) \<Rightarrow>
          if cint (len - n) = 0 then Some (Inr (result OR r, s1))
          else Option.bind (flatview_translate env fv (ulong (a + n)) (ulong (cint (len - n))) True atr s1) (\<lambda>t.
            case t of
              Inl e \<Rightarrow> Some (Inl e)
            | Inr (mr1, xlat, l1, s2) \<Rightarrow> flatview_write_continue env fv atr (ulong (a + n)) (cint (len - n)) xlat l1 mr1 (result OR r) (List.drop (nat n) buf) s2))"

definition flatview_read :: "'d guest_env \<Rightarrow> nat \<Rightarrow> int \<Rightarrow> attrs \<Rightarrow> int \<Rightarrow> 'd guest_state \<Rightarrow> (MemTxResult \<times> u8 list \<times> 'd guest_state) res option" where
  "flatview_read env fv a atr len s =
     Option.bind (flatview_translate env fv a (ulong len) False atr s) (\<lambda>t.
       case t of
         Inl e \<Rightarrow> Some (Inl e)
       | Inr (mr, xlat, l, s1) \<Rightarrow> flatview_read_continue env fv atr a len xlat l mr MEMTX_OK [] s1)"

definition flatview_write :: "'d guest_env \<Rightarrow> nat \<Rightarrow> int \<Rightarrow> attrs \<Rightarrow> u8 list \<Rightarrow> int \<Rightarrow> 'd guest_state \<Rightarrow> (MemTxResult \<times> 'd guest_state) res option" where
  "flatview_write env fv a atr buf len s =
     Option.bind (flatview_translate env fv a (ulong len) True atr s) (\<lambda>t.
       case t of
         Inl e \<Rightarrow> Some (Inl e)
       | Inr (mr, xlat, l, s1) \<Rightarrow> flatview_write_continue env fv atr a len xlat l mr MEMTX_OK buf s1)"

definition address_space_read_full :: "'d guest_env \<Rightarrow> nat \<Rightarrow> int \<Rightarrow> attrs \<Rightarrow> int \<Rightarrow> 'd guest_state
    \<Rightarrow> (MemTxResult \<times> u8 list \<times> 'd guest_state) res option" where
  "address_space_read_full env as a atr len s =
     (if len > 0 then flatview_read env (ge_view env as) a atr len s else Some (Inr (MEMTX_OK, [], s)))"

definition address_space_write :: "'d guest_env \<Rightarrow> nat \<Rightarrow> int \<Rightarrow> attrs \<Rightarrow> u8 list \<Rightarrow> int \<Rightarrow> 'd guest_state \<Rightarrow> (MemTxResult \<times> 'd guest_state) res option" where
  "address_space_write env as a atr buf len s =
     (if len > 0 then flatview_write env (ge_view env as) a atr buf len s else Some (Inr (MEMTX_OK, s)))"

text \<open>\<open>address_space_read\<close> in \<open>memory.h\<close> has a short cut for a constant length (\<open>constant_p\<close>).\<close>

definition address_space_read :: "bool \<Rightarrow> 'd guest_env \<Rightarrow> nat \<Rightarrow> int \<Rightarrow> attrs \<Rightarrow> int \<Rightarrow> 'd guest_state
    \<Rightarrow> (MemTxResult \<times> u8 list \<times> 'd guest_state) res option" where
  "address_space_read constant_p env as a atr len s =
     (if \<not> constant_p then address_space_read_full env as a atr len s
      else if len = 0 then Some (Inr (MEMTX_OK, [], s))
      else Option.bind (flatview_translate env (ge_view env as) a (ulong len) False atr s) (\<lambda>t.
        case t of
          Inl e \<Rightarrow> Some (Inl e)
        | Inr (mr, addr1, l, s1) \<Rightarrow>
            if ulong len = l \<and> memory_access_is_direct (section_region env mr) False
            then Some (res_bind (region_block (section_region env mr) (gs_ram s1)) (\<lambda>b.
                   res_bind (qemu_map_ram_ptr (ge_ramblock_ptr env) b addr1 (gs_ram s1)) (\<lambda>(p, ram).
                     Inr (MEMTX_OK, peek (gs_host s1) p (nat (ulong len)), s1\<lparr>gs_ram := ram\<rparr>))))
            else flatview_read_continue env (ge_view env as) atr a len addr1 l mr MEMTX_OK [] s1))"

text \<open>\<open>address_space_rw\<close>: the buffer after the access, which a write leaves alone.\<close>

definition address_space_rw :: "'d guest_env \<Rightarrow> nat \<Rightarrow> int \<Rightarrow> attrs \<Rightarrow> u8 list \<Rightarrow> int \<Rightarrow> bool \<Rightarrow> 'd guest_state
    \<Rightarrow> (MemTxResult \<times> u8 list \<times> 'd guest_state) res option" where
  "address_space_rw env as a atr buf len is_write s =
     (if is_write then map_option (\<lambda>t. res_bind t (\<lambda>(r, s1). Inr (r, buf, s1))) (address_space_write env as a atr buf len s)
      else address_space_read_full env as a atr len s)"

text \<open>The loop writes to RAM and to ROM, and skips what is neither. \<open>buf\<close> is \<open>None\<close> for \<open>FLUSH_CACHE\<close>.\<close>

definition rom_piece :: "'d guest_env \<Rightarrow> section_mr \<Rightarrow> int \<Rightarrow> int \<Rightarrow> u8 list option \<Rightarrow> 'd guest_state \<Rightarrow> (int \<times> 'd guest_state) res" where
  "rom_piece env mr addr1 l buf s =
     (let region = section_region env mr in
      if \<not> (mr_ram region \<or> memory_region_is_romd region) then Inr (memory_access_size env mr l addr1, s)
      else res_bind (region_block region (gs_ram s)) (\<lambda>b.
             res_bind (qemu_map_ram_ptr (ge_ramblock_ptr env) b addr1 (gs_ram s)) (\<lambda>(p, ram).
               let s1 = s\<lparr>gs_ram := ram\<rparr> in
               case buf of
                 Some bs \<Rightarrow> res_bind (invalidate_and_set_dirty env region addr1 l (s1\<lparr>gs_host := poke (gs_host s1) p (take (nat l) bs)\<rparr>)) (\<lambda>s2. Inr (l, s2))
               | None \<Rightarrow> Inr (l, guest_call (Icache_flush p (ulong (p + l))) s1))))"

partial_function (option) cpu_physical_memory_write_rom_internal :: "'d guest_env \<Rightarrow> nat \<Rightarrow> int \<Rightarrow> u8 list option \<Rightarrow> int \<Rightarrow> 'd guest_state
    \<Rightarrow> 'd guest_state res option" where
  "cpu_physical_memory_write_rom_internal env as a buf len s =
     (if len \<le> 0 then Some (Inr s)
      else Option.bind (flatview_translate env (ge_view env as) a (ulong len) True 0 s) (\<lambda>t.
        case t of
          Inl e \<Rightarrow> Some (Inl e)
        | Inr (mr, addr1, l, s1) \<Rightarrow>
           (case rom_piece env mr addr1 l buf s1 of
              Inl e \<Rightarrow> Some (Inl e)
            | Inr (n, s2) \<Rightarrow> cpu_physical_memory_write_rom_internal env as (ulong (a + n)) (map_option (List.drop (nat n)) buf) (cint (len - n)) s2)))"

definition cpu_flush_icache_range :: "'d guest_env \<Rightarrow> nat \<Rightarrow> int \<Rightarrow> int \<Rightarrow> 'd guest_state \<Rightarrow> 'd guest_state res option" where
  "cpu_flush_icache_range env address_space_memory start len s =
     (if ge_tcg env then Some (Inr s) else cpu_physical_memory_write_rom_internal env address_space_memory start None len s)"

text \<open>Whether every access of a range would be accepted.\<close>

partial_function (option) flatview_access_valid :: "'d guest_env \<Rightarrow> nat \<Rightarrow> int \<Rightarrow> int \<Rightarrow> bool \<Rightarrow> attrs \<Rightarrow> 'd guest_state
    \<Rightarrow> (bool \<times> 'd guest_state) res option" where
  "flatview_access_valid env fv a len is_write atr s =
     (if len \<le> 0 then Some (Inr (True, s))
      else Option.bind (flatview_translate env fv a (ulong len) is_write atr s) (\<lambda>t.
        case t of
          Inl e \<Rightarrow> Some (Inl e)
        | Inr (mr, xlat, l, s1) \<Rightarrow>
            if memory_access_is_direct (section_region env mr) is_write
            then flatview_access_valid env fv (ulong (a + l)) (cint (len - l)) is_write atr s1
            else let n = memory_access_size env mr l a in
              if memory_region_access_valid (section_ops env mr) (gs_dev s1) xlat (nat n) is_write atr
              then flatview_access_valid env fv (ulong (a + n)) (cint (len - n)) is_write atr s1
              else Some (Inr (False, s1))))"

definition address_space_access_valid :: "'d guest_env \<Rightarrow> nat \<Rightarrow> int \<Rightarrow> int \<Rightarrow> bool \<Rightarrow> attrs \<Rightarrow> 'd guest_state \<Rightarrow> (bool \<times> 'd guest_state) res option" where
  "address_space_access_valid env as a len is_write atr s = flatview_access_valid env (ge_view env as) a len is_write atr s"

end
