(* ===== verification/Guest_Ram.thy ===== *)
theory Guest_Ram
  imports Guest_Access
begin

text \<open>
  What accesses to guest RAM do. A flat view whose dispatch answers like a map \<open>t\<close> from addresses to regions (\<open>view_ok\<close>) gives
  every guest address that is backed by RAM a host address, \<open>host_at\<close>. A read returns the bytes at the host addresses, however
  many sections and blocks the range covers; a write stores them there in the order of the addresses and marks all of
  them dirty.
\<close>

section \<open>Translation without an IOMMU\<close>

type_synonym targets = "int \<Rightarrow> (nat \<times> int \<times> bool) option"

definition view_ok :: "'d guest_env \<Rightarrow> nat \<Rightarrow> targets \<Rightarrow> 'd guest_state \<Rightarrow> bool" where
  "view_ok env v t s \<longleftrightarrow> ge_tpb env \<le> 16 \<and> (\<exists>d0. serves (ge_tpb env) d0 (gs_dispatch s v)
     \<and> (\<forall>a. 0 \<le> a \<and> a < 18446744073709551616 \<longrightarrow> dispatch_target (ge_tpb env) d0 a = t a))"

definition plain_target :: "regions \<Rightarrow> (nat \<times> int \<times> bool) option \<Rightarrow> bool" where
  "plain_target rg x \<longleftrightarrow> (case x of None \<Rightarrow> True | Some (r, off, ro) \<Rightarrow> mr_alias (rg r) = None \<and> \<not> mr_is_iommu (rg r))"

lemma view_ok_frame [simp]:
  "view_ok env v t (s\<lparr>gs_ram := ram\<rparr>) = view_ok env v t s" "view_ok env v t (s\<lparr>gs_host := h\<rparr>) = view_ok env v t s"
  "view_ok env v t (s\<lparr>gs_calls := cs\<rparr>) = view_ok env v t s" "view_ok env v t (s\<lparr>gs_dev := dv\<rparr>) = view_ok env v t s"
  "view_ok env v t (s\<lparr>gs_bql := q\<rparr>) = view_ok env v t s"
  by (simp_all add: view_ok_def)

lemma view_translate_ok:
  assumes "view_ok env v t s" "0 \<le> a" "a < 18446744073709551616" "0 < plen" "plen < 18446744073709551616"
  obtains sec xlat p D where "view_translate env v a plen True s = Inr (sec, xlat, p, s\<lparr>gs_dispatch := D\<rparr>)"
    "translates (ge_regions env) t a plen sec xlat p" "view_ok env v t (s\<lparr>gs_dispatch := D\<rparr>)"
proof -
  obtain d0 where d0: "ge_tpb env \<le> 16" "serves (ge_tpb env) d0 (gs_dispatch s v)"
      "\<And>a. 0 \<le> a \<Longrightarrow> a < 18446744073709551616 \<Longrightarrow> dispatch_target (ge_tpb env) d0 a = t a"
    using assms(1) by (auto simp: view_ok_def)
  obtain i xlat p d where t: "address_space_translate_internal (ge_regions env) (P_L2_LEVELS (ge_tpb env)) (ge_tpb env) (gs_dispatch s v) a plen True = Inr (i, xlat, p, d)"
      "serves (ge_tpb env) d0 d" "translates (ge_regions env) (dispatch_target (ge_tpb env) d0) a plen (sections (disp_map (gs_dispatch s v)) ! i) xlat p"
    using serves_translates [OF d0(2,1) assms(2-5), of "ge_regions env"] by blast
  show thesis
  proof (rule that)
    show "view_translate env v a plen True s = Inr (sections (disp_map (gs_dispatch s v)) ! i, xlat, p, s\<lparr>gs_dispatch := (gs_dispatch s)(v := d)\<rparr>)"
      by (simp add: view_translate_def t(1))
    show "translates (ge_regions env) t a plen (sections (disp_map (gs_dispatch s v)) ! i) xlat p"
      by (rule translates_cong [OF t(3) _ assms(2,3)]) (simp add: d0(3))
    show "view_ok env v t (s\<lparr>gs_dispatch := (gs_dispatch s)(v := d)\<rparr>)" using d0 t(2) by (auto simp: view_ok_def)
  qed
qed

text \<open>What a translation says about an address, as the access loops see it.\<close>

definition hits :: "regions \<Rightarrow> targets \<Rightarrow> int \<Rightarrow> int \<Rightarrow> section_mr \<Rightarrow> int \<Rightarrow> int \<Rightarrow> bool" where
  "hits rg t a plen mr xlat l \<longleftrightarrow> (case t a of
     None \<Rightarrow> mr = Io_mem_unassigned \<and> xlat = a \<and> l = plen
   | Some (r, off, ro) \<Rightarrow> mr = Mr r \<and> xlat = off \<and> 0 < l \<and> l \<le> plen
       \<and> (mr_ram (rg r) \<longrightarrow> (\<forall>i. 0 \<le> i \<and> i < l \<longrightarrow> t (a + i) = Some (r, ulong (off + i), ro))))"

lemma flatview_translate_ok:
  assumes "view_ok env v t s" "0 \<le> a" "a < 18446744073709551616" "0 < plen" "plen < 18446744073709551616" "plain_target (ge_regions env) (t a)"
  obtains mr xlat l D where "flatview_translate env v a plen is_write atr s = Some (Inr (mr, xlat, l, s\<lparr>gs_dispatch := D\<rparr>))"
    "hits (ge_regions env) t a plen mr xlat l" "view_ok env v t (s\<lparr>gs_dispatch := D\<rparr>)"
proof -
  let ?P = "2 ^ ge_tpb env :: int"
  have P: "0 < ?P" by simp
  have m: "a mod ?P < ?P" "0 \<le> a mod ?P" using P by simp_all
  have "?P \<le> 2 ^ 16" using assms(1) by (intro power_increasing) (simp_all add: view_ok_def)
  then have "?P \<le> 65536" by simp
  then have "(?P - a mod ?P) mod 18446744073709551616 = ?P - a mod ?P" using m by (intro mod_pos_pos_trivial) linarith+
  then have xen: "0 < ulong (page_floor (ge_tpb env) a + ?P - a)" using m(1) by (simp add: page_floor_def ulong_def)
  obtain sec x p D where w: "view_translate env v a plen True s = Inr (sec, x, p, s\<lparr>gs_dispatch := D\<rparr>)"
      "translates (ge_regions env) t a plen sec x p" "view_ok env v t (s\<lparr>gs_dispatch := D\<rparr>)"
    using view_translate_ok [OF assms(1-5)] by blast
  have io: "section_iommu (ge_regions env) sec = Some None"
    using w(2) assms(6) by (auto simp: section_iommu_def translates_def plain_target_def memory_region_get_iommu.simps split: option.splits)
  let ?l = "if ge_xen env \<and> memory_access_is_direct (section_region env (ms_mr sec)) is_write then min (ulong (page_floor (ge_tpb env) a + ?P - a)) p else p"
  show thesis
  proof (rule that [OF _ _ w(3)])
    show "flatview_translate env v a plen is_write atr s = Some (Inr (ms_mr sec, x, ?l, s\<lparr>gs_dispatch := D\<rparr>))"
      by (simp add: flatview_translate_def flatview_do_translate_def w(1) io)
    show "hits (ge_regions env) t a plen (ms_mr sec) x ?l"
    proof (cases "t a")
      case None
      then show ?thesis using w(2)
        by (simp add: hits_def translates_def section_region_def io_mem_init_def memory_access_is_direct_def memory_region_is_romd_def
            memory_region_init_def memory_region_do_init_def memory_region_initfn_def Let_def)
    next
      case (Some z)
      then show ?thesis using w(2) xen assms(4) by (cases z) (auto simp: hits_def translates_def split: if_splits)
    qed
  qed
qed

section \<open>RAM behind an address\<close>

definition target_block :: "regions \<Rightarrow> RAMList \<Rightarrow> targets \<Rightarrow> int \<Rightarrow> (nat \<times> int \<times> RAMBlock) option" where
  "target_block rg ram t a =
     (case t a of None \<Rightarrow> None
      | Some (r, off, ro) \<Rightarrow> Option.bind (mr_ram_block (rg r)) (\<lambda>i. map_option (\<lambda>b. (r, off, b)) (block_named ram i)))"

definition host_at :: "regions \<Rightarrow> RAMList \<Rightarrow> targets \<Rightarrow> int \<Rightarrow> int" where
  "host_at rg ram t a = (case target_block rg ram t a of None \<Rightarrow> 0 | Some (r, off, b) \<Rightarrow> rb_host b + off)"

definition ram_addr_at :: "regions \<Rightarrow> RAMList \<Rightarrow> targets \<Rightarrow> int \<Rightarrow> int" where
  "ram_addr_at rg ram t a = (case target_block rg ram t a of None \<Rightarrow> 0 | Some (r, off, b) \<Rightarrow> rb_offset b + off)"

text \<open>An address is backed: its region is RAM that is accessed directly, and its offset is in the used part of the region's block.\<close>

definition ram_backed :: "regions \<Rightarrow> RAMList \<Rightarrow> targets \<Rightarrow> bool \<Rightarrow> int \<Rightarrow> bool" where
  "ram_backed rg ram t is_write a \<longleftrightarrow> (case target_block rg ram t a of
     None \<Rightarrow> False
   | Some (r, off, b) \<Rightarrow> mr_ram (rg r) \<and> memory_access_is_direct (rg r) is_write \<and> mr_alias (rg r) = None \<and> \<not> mr_is_iommu (rg r)
       \<and> rb_host b \<noteq> 0 \<and> 0 \<le> off \<and> off < rb_used_length b \<and> rb_used_length b \<le> rb_max_length b
       \<and> 0 \<le> rb_offset b \<and> rb_offset b + rb_max_length b < 18446744073709551616)"

text \<open>\<open>ramblock_ptr\<close> of \<open>exec/ram_addr.h\<close> asserts that the offset is in the used part of a block that has host memory.\<close>

definition ptr_ok :: "(RAMBlock \<Rightarrow> int \<Rightarrow> int res) \<Rightarrow> bool" where
  "ptr_ok f \<longleftrightarrow> (\<forall>b off. rb_host b \<noteq> 0 \<and> 0 \<le> off \<and> off < rb_used_length b \<longrightarrow> f b off = Inr (rb_host b + off))"

lemma ram_backedE:
  assumes "ram_backed rg ram t is_write a"
  obtains r off ro i b where "t a = Some (r, off, ro)" "mr_ram_block (rg r) = Some i" "block_named ram i = Some b" "target_block rg ram t a = Some (r, off, b)"
    "mr_ram (rg r)" "memory_access_is_direct (rg r) is_write" "plain_target rg (t a)" "rb_host b \<noteq> 0" "0 \<le> off" "off < rb_used_length b" "rb_used_length b \<le> rb_max_length b"
    "0 \<le> rb_offset b" "rb_offset b + rb_max_length b < 18446744073709551616"
  using assms by (auto simp: ram_backed_def target_block_def plain_target_def split: option.splits bind_splits)

text \<open>A piece of a range: the bytes up to the end of the translation or of the block lie in a row.\<close>

lemma piece:
  assumes "ram_backed rg ram t is_write a" "ptr_ok f" "hits rg t a plen mr xlat l" "plen < 18446744073709551616"
  obtains r b n where "mr = Mr r" "t a = Some (r, xlat, snd (snd (the (t a))))" "region_block (rg r) ram = Inr (Some b)" "0 < n" "n \<le> l"
    "qemu_ram_ptr_length f (Some b) xlat l ram = Inr (host_at rg ram t a, n, ram)"
    "\<And>i. 0 \<le> i \<Longrightarrow> i < n \<Longrightarrow> host_at rg ram t (a + i) = host_at rg ram t a + i"
    "\<And>i. 0 \<le> i \<Longrightarrow> i < n \<Longrightarrow> ram_addr_at rg ram t (a + i) = rb_offset b + xlat + i"
    "memory_access_is_direct (rg r) is_write" "0 \<le> rb_offset b + xlat" "rb_offset b + xlat + n < 18446744073709551616"
proof -
  from assms(1) obtain r off ro i b where b: "t a = Some (r, off, ro)" "mr_ram_block (rg r) = Some i" "block_named ram i = Some b" "target_block rg ram t a = Some (r, off, b)"
    "mr_ram (rg r)" "memory_access_is_direct (rg r) is_write" "rb_host b \<noteq> 0" "0 \<le> off" "off < rb_used_length b" "rb_used_length b \<le> rb_max_length b"
    "0 \<le> rb_offset b" "rb_offset b + rb_max_length b < 18446744073709551616" by (rule ram_backedE)
  have h: "mr = Mr r" "xlat = off" "0 < l" "l \<le> plen" "\<And>i. 0 \<le> i \<Longrightarrow> i < l \<Longrightarrow> t (a + i) = Some (r, ulong (off + i), ro)"
    using assms(3) b(1,5) by (simp_all add: hits_def)
  define n where "n = min l (rb_max_length b - off)"
  have u: "ulong (rb_max_length b - off) = rb_max_length b - off" using b(8-12) by (simp add: ulong_def)
  have n: "0 < n" "n \<le> l" "off + n \<le> rb_max_length b" using h(3) b(9,10) by (auto simp: n_def)
  have tb: "target_block rg ram t (a + i) = Some (r, off + i, b)" if "0 \<le> i" "i < n" for i
  proof -
    have "ulong (off + i) = off + i" using that n b(8,11,12) by (simp add: ulong_def)
    then show ?thesis using h(5) [of i] that n b(2,3) by (simp add: target_block_def)
  qed
  show thesis
  proof (rule that [of r b n])
    show "qemu_ram_ptr_length f (Some b) xlat l ram = Inr (host_at rg ram t a, n, ram)"
      using assms(2) b(4,7-9) h(2,3) u by (simp add: qemu_ram_ptr_length_def ptr_ok_def host_at_def n_def)
    show "host_at rg ram t (a + i) = host_at rg ram t a + i" "ram_addr_at rg ram t (a + i) = rb_offset b + xlat + i" if "0 \<le> i" "i < n" for i
      using tb [OF that] b(4) by (simp_all add: host_at_def ram_addr_at_def h(2))
    show "region_block (rg r) ram = Inr (Some b)" using b(2,3) by (simp add: region_block_def)
    show "rb_offset b + xlat + n < 18446744073709551616" using n(3) b(12) h(2) by simp
  qed (use b h n in auto)
qed

section \<open>Reading\<close>

abbreviation ram_bytes :: "'d guest_env \<Rightarrow> targets \<Rightarrow> 'd guest_state \<Rightarrow> int \<Rightarrow> nat \<Rightarrow> u8 list" where
  "ram_bytes env t s a n \<equiv> map (\<lambda>i. gs_host s (host_at (ge_regions env) (gs_ram s) t (a + int i))) [0..<n]"

lemma ram_bytes_split:
  "k \<le> n \<Longrightarrow> ram_bytes env t s a n = ram_bytes env t s a k @ ram_bytes env t s (a + int k) (n - k)"
  by (rule nth_equalityI) (auto simp: nth_append)

lemma read_piece_ram:
  assumes "ram_backed (ge_regions env) (gs_ram s) t False a" "ptr_ok (ge_ramblock_ptr env)" "hits (ge_regions env) t a plen mr xlat l" "plen < 18446744073709551616"
  obtains n where "0 < n" "int n \<le> l" "read_piece env atr mr xlat l s = Inr (MEMTX_OK, int n, ram_bytes env t s a n, s)"
proof -
  obtain r b n where p: "mr = Mr r" "region_block (ge_regions env r) (gs_ram s) = Inr (Some b)" "0 < n" "n \<le> l"
      "qemu_ram_ptr_length (ge_ramblock_ptr env) (Some b) xlat l (gs_ram s) = Inr (host_at (ge_regions env) (gs_ram s) t a, n, gs_ram s)"
      "\<And>i. 0 \<le> i \<Longrightarrow> i < n \<Longrightarrow> host_at (ge_regions env) (gs_ram s) t (a + i) = host_at (ge_regions env) (gs_ram s) t a + i"
      "memory_access_is_direct (ge_regions env r) False"
    using piece [OF assms] by metis
  have "peek (gs_host s) (host_at (ge_regions env) (gs_ram s) t a) (nat n) = ram_bytes env t s a (nat n)"
    by (simp add: peek_def p(6))
  then have "read_piece env atr mr xlat l s = Inr (MEMTX_OK, int (nat n), ram_bytes env t s a (nat n), s)"
    using p by (simp add: read_piece_def section_region_def)
  then show thesis using p(3,4) by (intro that [of "nat n"]) simp_all
qed

lemma read_continue_ram:
  assumes "ptr_ok (ge_ramblock_ptr env)"
  shows "view_ok env v t s \<Longrightarrow> (\<And>i. i < n \<Longrightarrow> ram_backed (ge_regions env) (gs_ram s) t False (a + int i)) \<Longrightarrow> 0 < n \<Longrightarrow> n < 2147483648
    \<Longrightarrow> 0 \<le> a \<Longrightarrow> a + int n \<le> 18446744073709551616 \<Longrightarrow> hits (ge_regions env) t a (int n) mr xlat l
    \<Longrightarrow> \<exists>D. flatview_read_continue env v atr a (int n) xlat l mr res acc s = Some (Inr (res, acc @ ram_bytes env t s a n, s\<lparr>gs_dispatch := D\<rparr>))
      \<and> view_ok env v t (s\<lparr>gs_dispatch := D\<rparr>)"
proof (induction n arbitrary: a mr xlat l acc s rule: less_induct)
  case (less n)
  have n: "int n < 18446744073709551616" using less.prems(4) by simp
  have b0: "ram_backed (ge_regions env) (gs_ram s) t False a" using less.prems(2) [of 0] less.prems(3) by simp
  have ln: "l \<le> int n" using less.prems(7) by (auto simp: hits_def split: option.splits)
  obtain k where k: "0 < k" "int k \<le> l" "read_piece env atr mr xlat l s = Inr (MEMTX_OK, int k, ram_bytes env t s a k, s)"
    using read_piece_ram [OF b0 assms less.prems(7) n] by blast
  have kn: "k \<le> n" using k(2) ln by simp
  have c: "cint (int n - int k) = int (n - k)" using kn less.prems(4) by (subst cint_id) simp_all
  have ok: "MEMTX_OK = 0" by (simp add: MEMTX_OK_def)
  show ?case
  proof (cases "k = n")
    case True
    then show ?thesis using k(3) less.prems(1) c ok
      by (intro exI [of _ "gs_dispatch s"]) (simp add: flatview_read_continue.simps [of env v atr a])
  next
    case False
    then have lt: "n - k < n" "0 < n - k" "k < n" using kn k(1) by simp_all
    have a1: "ulong (a + int k) = a + int k" "0 \<le> a + int k" "a + int k < 18446744073709551616" using less.prems(5,6) lt(3) by (simp_all add: ulong_def)
    have l1: "ulong (int (n - k)) = int (n - k)" "0 < int (n - k)" "int (n - k) < 18446744073709551616" using lt n by (simp_all add: ulong_def)
    have bk: "ram_backed (ge_regions env) (gs_ram s) t False (a + int k + int i)" if "i < n - k" for i using less.prems(2) [of "k + i"] that by (simp add: add.assoc)
    have "plain_target (ge_regions env) (t (a + int k))" using bk [of 0] lt(2) by (auto elim: ram_backedE)
    then obtain mr1 x1 l1' D where t: "flatview_translate env v (a + int k) (int (n - k)) False atr s = Some (Inr (mr1, x1, l1', s\<lparr>gs_dispatch := D\<rparr>))"
        "hits (ge_regions env) t (a + int k) (int (n - k)) mr1 x1 l1'" "view_ok env v t (s\<lparr>gs_dispatch := D\<rparr>)"
      using flatview_translate_ok [OF less.prems(1) a1(2,3) l1(2,3)] by blast
    have st: "ram_bytes env t (s\<lparr>gs_dispatch := D\<rparr>) = ram_bytes env t s" by simp
    have "\<exists>D'. flatview_read_continue env v atr (a + int k) (int (n - k)) x1 l1' mr1 res (acc @ ram_bytes env t s a k) (s\<lparr>gs_dispatch := D\<rparr>)
        = Some (Inr (res, (acc @ ram_bytes env t s a k) @ ram_bytes env t (s\<lparr>gs_dispatch := D\<rparr>) (a + int k) (n - k), s\<lparr>gs_dispatch := D, gs_dispatch := D'\<rparr>))
      \<and> view_ok env v t (s\<lparr>gs_dispatch := D, gs_dispatch := D'\<rparr>)"
      by (rule less.IH [OF lt(1) t(3) _ lt(2) _ a1(2) _ t(2)]) (use bk less.prems(4,6) kn in auto)
    then obtain D' where D': "flatview_read_continue env v atr (a + int k) (int (n - k)) x1 l1' mr1 res (acc @ ram_bytes env t s a k) (s\<lparr>gs_dispatch := D\<rparr>)
        = Some (Inr (res, acc @ ram_bytes env t s a n, s\<lparr>gs_dispatch := D'\<rparr>))" "view_ok env v t (s\<lparr>gs_dispatch := D'\<rparr>)"
      using ram_bytes_split [OF kn, of s env t a] by auto
    show ?thesis
      by (rule exI [of _ D'], subst flatview_read_continue.simps) (use k(3) c lt(2) a1(1) l1(1) t(1) D' ok in simp)
  qed
qed

section \<open>Writing\<close>

text \<open>Storing bytes at the host addresses of consecutive guest addresses, in order: two guest addresses may have the same host address.\<close>

fun store_bytes :: "(int \<Rightarrow> int) \<Rightarrow> int \<Rightarrow> u8 list \<Rightarrow> (int \<Rightarrow> u8) \<Rightarrow> int \<Rightarrow> u8" where
  "store_bytes f a [] h = h"
| "store_bytes f a (b # bs) h = store_bytes f (a + 1) bs (h(f a := b))"

lemma store_bytes_append: "store_bytes f a (xs @ ys) h = store_bytes f (a + int (length xs)) ys (store_bytes f a xs h)"
  by (induction xs arbitrary: a h) (simp_all add: algebra_simps)

lemma poke_Cons: "poke h p (b # bs) = poke (h(p := b)) (p + 1) bs"
proof
  fix x
  have "nat (x - p) = Suc (nat (x - (p + 1)))" if "p < x" using that by simp
  then show "poke h p (b # bs) x = poke (h(p := b)) (p + 1) bs x" by (auto simp: poke_def)
qed

lemma store_bytes_row:
  "(\<And>i. i < length bs \<Longrightarrow> f (a + int i) = p + int i) \<Longrightarrow> store_bytes f a bs h = poke h p bs"
proof (induction bs arbitrary: a p h)
  case Nil
  then show ?case by (auto simp: poke_def fun_eq_iff)
next
  case (Cons b bs)
  have "store_bytes f (a + 1) bs (h(p := b)) = poke (h(p := b)) (p + 1) bs"
    by (rule Cons.IH) (use Cons.prems [of "Suc _"] in \<open>simp add: algebra_simps\<close>)
  moreover have "f a = p" using Cons.prems [of 0] by simp
  ultimately show ?case by (simp add: poke_Cons)
qed

lemma store_bytes_other: "(\<And>i. i < length bs \<Longrightarrow> f (a + int i) \<noteq> x) \<Longrightarrow> store_bytes f a bs h x = h x"
proof (induction bs arbitrary: a h)
  case (Cons b bs)
  have "store_bytes f (a + 1) bs (h(f a := b)) x = (h(f a := b)) x"
    by (rule Cons.IH) (use Cons.prems [of "Suc _"] in \<open>simp add: algebra_simps\<close>)
  then show ?case using Cons.prems [of 0] by simp
qed simp

lemma store_bytes_last:
  assumes "i < length bs" "\<And>j. i < j \<Longrightarrow> j < length bs \<Longrightarrow> f (a + int j) \<noteq> f (a + int i)"
  shows "store_bytes f a bs h (f (a + int i)) = bs ! i"
proof -
  have s: "bs = (take i bs @ [bs ! i]) @ List.drop (Suc i) bs" using assms(1) by (simp add: Cons_nth_drop_Suc)
  have "store_bytes f (a + int (Suc i)) (List.drop (Suc i) bs) g (f (a + int i)) = g (f (a + int i))" for g
    by (rule store_bytes_other) (use assms(2) [of "Suc i + _"] in \<open>simp add: algebra_simps\<close>)
  moreover have "int (length (take i bs @ [bs ! i])) = int (Suc i)" using assms(1) by simp
  ultimately have "store_bytes f a bs h (f (a + int i)) = store_bytes f a (take i bs @ [bs ! i]) h (f (a + int i))"
    by (subst s) (simp only: store_bytes_append [of f a "take i bs @ [bs ! i]"])
  then show ?thesis using assms(1) by (simp add: store_bytes_append min_def)
qed

text \<open>The code bit of the dirty mask is set only with TCG, and \<open>cpu_physical_memory_range_includes_clean\<close> returns a part of its mask.\<close>

definition dirty_ok :: "'d guest_env \<Rightarrow> bool" where
  "dirty_ok env \<longleftrightarrow> ge_tcg env \<or> (\<forall>r. \<not> bit (mr_dirty_log_mask (ge_regions env r)) DIRTY_MEMORY_CODE)
     \<and> (\<forall>dm a n m i. bit (ge_includes_clean env dm a n m) i \<longrightarrow> bit m i)"

lemma invalidate_ok:
  assumes "dirty_ok env" "region_block (ge_regions env r) (gs_ram s) = Inr (Some b)" "0 \<le> rb_offset b + x" "rb_offset b + x + n < 18446744073709551616" "0 \<le> n"
  obtains cs m where "invalidate_and_set_dirty env (ge_regions env r) x n s = Inr (s\<lparr>gs_calls := gs_calls s @ cs\<rparr>)" "Dirty_range (rb_offset b + x) n m \<in> set cs"
proof -
  let ?m0 = "memory_region_get_dirty_log_mask (ge_dirty_log env) (ge_regions env r)"
  define m1 where "m1 = (if ?m0 \<noteq> 0 then ge_includes_clean env (rl_dirty_memory (gs_ram s)) (rb_offset b + x) n ?m0 else ?m0)"
  have u: "ulong (x + rb_offset b) = rb_offset b + x" using assms(3-5) by (simp add: ulong_def add.commute)
  have tcg: "ge_tcg env" if c: "bit m1 DIRTY_MEMORY_CODE"
  proof (rule ccontr)
    assume no: "\<not> ge_tcg env"
    have "\<not> bit ?m0 DIRTY_MEMORY_CODE" using assms(1) no
      by (simp add: dirty_ok_def memory_region_get_dirty_log_mask_def bit_or_iff bit_push_bit_iff DIRTY_MEMORY_CODE_def DIRTY_MEMORY_MIGRATION_def)
    then show False using c assms(1) no by (auto simp: dirty_ok_def m1_def split: if_splits)
  qed
  have base: "memory_region_get_ram_addr (ge_regions env r) (gs_ram s) = Inr (rb_offset b)" using assms(2) by (simp add: memory_region_get_ram_addr_def)
  have inv: "invalidate_and_set_dirty env (ge_regions env r) x n s =
      (if bit m1 DIRTY_MEMORY_CODE then if ge_tcg env
         then Inr (guest_call (Dirty_range (rb_offset b + x) n (and m1 (not (push_bit DIRTY_MEMORY_CODE 1)))) (guest_call (Tb_invalidate (rb_offset b + x) (ulong (rb_offset b + x + n))) s))
         else Inl Assert_failed else Inr (guest_call (Dirty_range (rb_offset b + x) n m1) s))"
    by (simp only: invalidate_and_set_dirty_def base res_bind.simps Let_def u m1_def)
  show thesis
  proof (cases "bit m1 DIRTY_MEMORY_CODE")
    case True
    then show thesis using tcg
      by (intro that [of "[Tb_invalidate (rb_offset b + x) (ulong (rb_offset b + x + n)), Dirty_range (rb_offset b + x) n (and m1 (not (push_bit DIRTY_MEMORY_CODE 1)))]"])
        (simp_all add: inv guest_call_def)
  next
    case False
    then show thesis
      by (intro that [of "[Dirty_range (rb_offset b + x) n m1]"]) (simp_all add: inv guest_call_def)
  qed
qed

text \<open>Every byte of the range is in a range reported as dirty.\<close>

definition marked :: "(int \<Rightarrow> int) \<Rightarrow> int \<Rightarrow> nat \<Rightarrow> guest_call list \<Rightarrow> bool" where
  "marked f a n cs \<longleftrightarrow> (\<forall>i<n. \<exists>x k m. Dirty_range x k m \<in> set cs \<and> x \<le> f (a + int i) \<and> f (a + int i) < x + k)"

lemma marked_append:
  assumes "marked f a k cs" "marked f (a + int k) (n - k) cs'" "k \<le> n"
  shows "marked f a n (cs @ cs')"
  unfolding marked_def
proof (intro allI impI)
  fix i assume i: "i < n"
  show "\<exists>x l m. Dirty_range x l m \<in> set (cs @ cs') \<and> x \<le> f (a + int i) \<and> f (a + int i) < x + l"
  proof (cases "i < k")
    case False
    then have "i - k < n - k" "a + int k + int (i - k) = a + int i" using i by simp_all
    then show ?thesis using assms(2) unfolding marked_def by (metis Un_iff set_append)
  next
    case True
    then show ?thesis using assms(1) unfolding marked_def by (metis Un_iff set_append)
  qed
qed

lemma write_piece_ram:
  assumes "ram_backed (ge_regions env) (gs_ram s) t True a" "ptr_ok (ge_ramblock_ptr env)" "hits (ge_regions env) t a plen mr xlat l" "plen < 18446744073709551616"
    and "dirty_ok env" "l \<le> int (length buf)"
  obtains n cs where "0 < n" "int n \<le> l" "marked (ram_addr_at (ge_regions env) (gs_ram s) t) a n cs"
    "write_piece env atr mr xlat l buf s = Inr (MEMTX_OK, int n, s\<lparr>gs_host := store_bytes (host_at (ge_regions env) (gs_ram s) t) a (take n buf) (gs_host s), gs_calls := gs_calls s @ cs\<rparr>)"
proof -
  obtain r b n where p: "mr = Mr r" "region_block (ge_regions env r) (gs_ram s) = Inr (Some b)" "0 < n" "n \<le> l"
      "qemu_ram_ptr_length (ge_ramblock_ptr env) (Some b) xlat l (gs_ram s) = Inr (host_at (ge_regions env) (gs_ram s) t a, n, gs_ram s)"
      "\<And>i. 0 \<le> i \<Longrightarrow> i < n \<Longrightarrow> host_at (ge_regions env) (gs_ram s) t (a + i) = host_at (ge_regions env) (gs_ram s) t a + i"
      "\<And>i. 0 \<le> i \<Longrightarrow> i < n \<Longrightarrow> ram_addr_at (ge_regions env) (gs_ram s) t (a + i) = rb_offset b + xlat + i"
      "memory_access_is_direct (ge_regions env r) True" "0 \<le> rb_offset b + xlat" "rb_offset b + xlat + n < 18446744073709551616"
    using piece [OF assms(1-4)] by metis
  let ?h = "store_bytes (host_at (ge_regions env) (gs_ram s) t) a (take (nat n) buf) (gs_host s)"
  have len: "length (take (nat n) buf) = nat n" using p(3,4) assms(6) by simp
  have h: "poke (gs_host s) (host_at (ge_regions env) (gs_ram s) t a) (take (nat n) buf) = ?h"
    by (rule store_bytes_row [symmetric]) (use p(6) len in auto)
  have rb: "region_block (ge_regions env r) (gs_ram (s\<lparr>gs_host := ?h\<rparr>)) = Inr (Some b)" using p(2) by simp
  have n0: "0 \<le> n" using p(3) by simp
  obtain cs m where c: "invalidate_and_set_dirty env (ge_regions env r) xlat n (s\<lparr>gs_host := ?h\<rparr>) = Inr (s\<lparr>gs_host := ?h, gs_calls := gs_calls s @ cs\<rparr>)"
      "Dirty_range (rb_offset b + xlat) n m \<in> set cs"
    using invalidate_ok [OF assms(5) rb p(9,10) n0] by auto
  have "marked (ram_addr_at (ge_regions env) (gs_ram s) t) a (nat n) cs"
    unfolding marked_def
  proof (intro allI impI)
    fix i assume "i < nat n"
    then have i: "0 \<le> int i" "int i < n" by simp_all
    show "\<exists>x k m. Dirty_range x k m \<in> set cs \<and> x \<le> ram_addr_at (ge_regions env) (gs_ram s) t (a + int i) \<and> ram_addr_at (ge_regions env) (gs_ram s) t (a + int i) < x + k"
      unfolding p(7) [OF i] using c(2) i by (intro exI conjI) auto
  qed
  moreover have "write_piece env atr mr xlat l buf s = Inr (MEMTX_OK, int (nat n), s\<lparr>gs_host := ?h, gs_calls := gs_calls s @ cs\<rparr>)"
    using p c(1) h by (simp add: write_piece_def section_region_def)
  ultimately show thesis using p(3,4) by (intro that [of "nat n" cs]) simp_all
qed

lemma write_continue_ram:
  assumes "ptr_ok (ge_ramblock_ptr env)" "dirty_ok env"
  shows "view_ok env v t s \<Longrightarrow> (\<And>i. i < length buf \<Longrightarrow> ram_backed (ge_regions env) (gs_ram s) t True (a + int i)) \<Longrightarrow> buf \<noteq> [] \<Longrightarrow> length buf < 2147483648
    \<Longrightarrow> 0 \<le> a \<Longrightarrow> a + int (length buf) \<le> 18446744073709551616 \<Longrightarrow> hits (ge_regions env) t a (int (length buf)) mr xlat l
    \<Longrightarrow> \<exists>D cs. flatview_write_continue env v atr a (int (length buf)) xlat l mr res buf s
        = Some (Inr (res, s\<lparr>gs_dispatch := D, gs_host := store_bytes (host_at (ge_regions env) (gs_ram s) t) a buf (gs_host s), gs_calls := gs_calls s @ cs\<rparr>))
      \<and> view_ok env v t (s\<lparr>gs_dispatch := D\<rparr>) \<and> marked (ram_addr_at (ge_regions env) (gs_ram s) t) a (length buf) cs"
proof (induction "length buf" arbitrary: a mr xlat l buf s rule: less_induct)
  case less
  let ?n = "length buf" and ?h = "host_at (ge_regions env) (gs_ram s) t" and ?ra = "ram_addr_at (ge_regions env) (gs_ram s) t"
  have n: "int ?n < 18446744073709551616" using less.prems(4) by simp
  have b0: "ram_backed (ge_regions env) (gs_ram s) t True a" using less.prems(2) [of 0] less.prems(3) by simp
  have ln: "l \<le> int ?n" using less.prems(7) by (auto simp: hits_def split: option.splits)
  obtain k cs where k: "0 < k" "int k \<le> l" "marked ?ra a k cs"
      "write_piece env atr mr xlat l buf s = Inr (MEMTX_OK, int k, s\<lparr>gs_host := store_bytes ?h a (take k buf) (gs_host s), gs_calls := gs_calls s @ cs\<rparr>)"
    using write_piece_ram [OF b0 assms(1) less.prems(7) n assms(2) ln] by metis
  have kn: "k \<le> ?n" using k(2) ln by simp
  have c: "cint (int ?n - int k) = int (?n - k)" using kn less.prems(4) by (subst cint_id) simp_all
  have ok: "MEMTX_OK = 0" by (simp add: MEMTX_OK_def)
  show ?case
  proof (cases "k = ?n")
    case True
    then show ?thesis using k(3,4) less.prems(1) c ok
      by (intro exI [of _ "gs_dispatch s"] exI [of _ cs]) (simp add: flatview_write_continue.simps [of env v atr a])
  next
    case False
    let ?s1 = "s\<lparr>gs_host := store_bytes ?h a (take k buf) (gs_host s), gs_calls := gs_calls s @ cs\<rparr>" and ?rest = "List.drop k buf"
    have lt: "length ?rest < ?n" "?rest \<noteq> []" "k < ?n" "length ?rest = ?n - k" using False kn k(1) by simp_all
    have a1: "ulong (a + int k) = a + int k" "0 \<le> a + int k" "a + int k < 18446744073709551616" using less.prems(5,6) lt(3) by (simp_all add: ulong_def)
    have l1: "ulong (int (?n - k)) = int (?n - k)" "0 < int (?n - k)" "int (?n - k) < 18446744073709551616" using lt n by (simp_all add: ulong_def)
    have bk: "ram_backed (ge_regions env) (gs_ram s) t True (a + int k + int i)" if "i < length ?rest" for i using less.prems(2) [of "k + i"] that by (simp add: add.assoc)
    have v1: "view_ok env v t ?s1" using less.prems(1) by simp
    have "plain_target (ge_regions env) (t (a + int k))" using bk [of 0] lt(2,3) by (auto elim: ram_backedE)
    then obtain mr1 x1 l1' D where t: "flatview_translate env v (a + int k) (int (?n - k)) True atr ?s1 = Some (Inr (mr1, x1, l1', ?s1\<lparr>gs_dispatch := D\<rparr>))"
        "hits (ge_regions env) t (a + int k) (int (?n - k)) mr1 x1 l1'" "view_ok env v t (?s1\<lparr>gs_dispatch := D\<rparr>)"
      using flatview_translate_ok [OF v1 a1(2,3) l1(2,3)] by blast
    have "\<exists>D' cs'. flatview_write_continue env v atr (a + int k) (int (length ?rest)) x1 l1' mr1 res ?rest (?s1\<lparr>gs_dispatch := D\<rparr>)
        = Some (Inr (res, ?s1\<lparr>gs_dispatch := D, gs_dispatch := D', gs_host := store_bytes (host_at (ge_regions env) (gs_ram (?s1\<lparr>gs_dispatch := D\<rparr>)) t) (a + int k) ?rest (gs_host (?s1\<lparr>gs_dispatch := D\<rparr>)),
            gs_calls := gs_calls (?s1\<lparr>gs_dispatch := D\<rparr>) @ cs'\<rparr>))
      \<and> view_ok env v t (?s1\<lparr>gs_dispatch := D, gs_dispatch := D'\<rparr>) \<and> marked (ram_addr_at (ge_regions env) (gs_ram (?s1\<lparr>gs_dispatch := D\<rparr>)) t) (a + int k) (length ?rest) cs'"
      by (rule less.hyps [OF lt(1) t(3) _ lt(2) _ a1(2)]) (use bk less.prems(4,6) kn lt(4) t(2) in auto)
    then obtain D' cs' where w: "flatview_write_continue env v atr (a + int k) (int (?n - k)) x1 l1' mr1 res ?rest (?s1\<lparr>gs_dispatch := D\<rparr>)
        = Some (Inr (res, s\<lparr>gs_dispatch := D', gs_host := store_bytes ?h (a + int k) ?rest (store_bytes ?h a (take k buf) (gs_host s)), gs_calls := gs_calls s @ cs @ cs'\<rparr>))"
        "view_ok env v t (s\<lparr>gs_dispatch := D'\<rparr>)" "marked ?ra (a + int k) (?n - k) cs'"
      unfolding lt(4) by (auto simp: view_ok_def)
    have st: "store_bytes ?h (a + int k) ?rest (store_bytes ?h a (take k buf) (gs_host s)) = store_bytes ?h a buf (gs_host s)"
      using store_bytes_append [of ?h a "take k buf" ?rest "gs_host s"] kn by simp
    show ?thesis
      by (rule exI [of _ D'], rule exI [of _ "cs @ cs'"], subst flatview_write_continue.simps)
        (use k(4) c lt(3) a1(1) l1(1) t(1) w(1,2) st ok marked_append [OF k(3) w(3) kn] in simp)
  qed
qed

section \<open>Address spaces\<close>

lemma address_space_read_ram:
  assumes "view_ok env (ge_view env as) t s" "ptr_ok (ge_ramblock_ptr env)" "\<And>i. i < n \<Longrightarrow> ram_backed (ge_regions env) (gs_ram s) t False (a + int i)"
    and "n < 2147483648" "0 \<le> a" "a + int n \<le> 18446744073709551616"
  obtains D where "address_space_read_full env as a atr (int n) s = Some (Inr (MEMTX_OK, ram_bytes env t s a n, s\<lparr>gs_dispatch := D\<rparr>))"
    "view_ok env (ge_view env as) t (s\<lparr>gs_dispatch := D\<rparr>)"
proof (cases "n = 0")
  case True
  then show thesis using assms(1) by (intro that [of "gs_dispatch s"]) (simp_all add: address_space_read_full_def)
next
  case False
  then have l: "0 < int n" "int n < 18446744073709551616" "a < 18446744073709551616" "ulong (int n) = int n" using assms(4,6) by (simp_all add: ulong_def)
  have "plain_target (ge_regions env) (t a)" using assms(3) [of 0] False by (auto elim: ram_backedE)
  then obtain mr x l' D where t: "flatview_translate env (ge_view env as) a (int n) False atr s = Some (Inr (mr, x, l', s\<lparr>gs_dispatch := D\<rparr>))"
      "hits (ge_regions env) t a (int n) mr x l'" "view_ok env (ge_view env as) t (s\<lparr>gs_dispatch := D\<rparr>)"
    using flatview_translate_ok [OF assms(1,5) l(3,1,2)] by blast
  obtain D' where "flatview_read_continue env (ge_view env as) atr a (int n) x l' mr MEMTX_OK [] (s\<lparr>gs_dispatch := D\<rparr>)
      = Some (Inr (MEMTX_OK, ram_bytes env t s a n, s\<lparr>gs_dispatch := D'\<rparr>))" "view_ok env (ge_view env as) t (s\<lparr>gs_dispatch := D'\<rparr>)"
    using read_continue_ram [OF assms(2) t(3) _ _ assms(4-6) t(2), of atr MEMTX_OK "[]"] assms(3) False by auto
  then show thesis using t(1) l by (intro that [of D']) (simp_all add: address_space_read_full_def flatview_read_def)
qed

lemma address_space_write_ram:
  assumes "view_ok env (ge_view env as) t s" "ptr_ok (ge_ramblock_ptr env)" "dirty_ok env"
    and "\<And>i. i < length buf \<Longrightarrow> ram_backed (ge_regions env) (gs_ram s) t True (a + int i)"
    and "length buf < 2147483648" "0 \<le> a" "a + int (length buf) \<le> 18446744073709551616"
  obtains D cs where "address_space_write env as a atr buf (int (length buf)) s = Some (Inr (MEMTX_OK,
      s\<lparr>gs_dispatch := D, gs_host := store_bytes (host_at (ge_regions env) (gs_ram s) t) a buf (gs_host s), gs_calls := gs_calls s @ cs\<rparr>))"
    "view_ok env (ge_view env as) t (s\<lparr>gs_dispatch := D\<rparr>)" "marked (ram_addr_at (ge_regions env) (gs_ram s) t) a (length buf) cs"
proof (cases "buf = []")
  case True
  then show thesis using assms(1) by (intro that [of "[]" "gs_dispatch s"]) (simp_all add: address_space_write_def marked_def)
next
  case False
  let ?n = "length buf"
  have n: "0 < int ?n" "int ?n < 18446744073709551616" using False assms(5) by simp_all
  then have l: "0 < int ?n" "int ?n < 18446744073709551616" "a < 18446744073709551616" "ulong (int ?n) = int ?n" using assms(7) by (linarith | simp add: ulong_def)+
  have "plain_target (ge_regions env) (t a)" using assms(4) [of 0] False by (auto elim: ram_backedE)
  then obtain mr x l' D where t: "flatview_translate env (ge_view env as) a (int ?n) True atr s = Some (Inr (mr, x, l', s\<lparr>gs_dispatch := D\<rparr>))"
      "hits (ge_regions env) t a (int ?n) mr x l'" "view_ok env (ge_view env as) t (s\<lparr>gs_dispatch := D\<rparr>)"
    using flatview_translate_ok [OF assms(1,6) l(3,1,2)] by blast
  obtain D' cs where "flatview_write_continue env (ge_view env as) atr a (int ?n) x l' mr MEMTX_OK buf (s\<lparr>gs_dispatch := D\<rparr>)
      = Some (Inr (MEMTX_OK, s\<lparr>gs_dispatch := D', gs_host := store_bytes (host_at (ge_regions env) (gs_ram s) t) a buf (gs_host s), gs_calls := gs_calls s @ cs\<rparr>))"
      "view_ok env (ge_view env as) t (s\<lparr>gs_dispatch := D'\<rparr>)" "marked (ram_addr_at (ge_regions env) (gs_ram s) t) a ?n cs"
    using write_continue_ram [OF assms(2,3) t(3) _ False assms(5-7) t(2), of atr MEMTX_OK] assms(4) by auto
  then show thesis using t(1) l by (intro that [of cs D']) (simp_all add: address_space_write_def flatview_write_def)
qed

section \<open>From the graph of regions\<close>

text \<open>The dispatch of a view was built from the regions below \<open>p\<close> and looked up any number of times since.\<close>

definition built_from :: "'d guest_env \<Rightarrow> nat \<Rightarrow> bool \<Rightarrow> nat \<Rightarrow> nat \<Rightarrow> 'd guest_state \<Rightarrow> bool" where
  "built_from env fuel gdl p v s \<longleftrightarrow> (\<exists>cs view cs1 hint d cs2 hist.
     render_topology fuel gdl (ge_regions env) (Some p) cs = Some (Inr (view, cs1)) \<and> 4 + 6 * length (fv_ranges view) \<le> 2 ^ ge_tpb env
     \<and> view_dispatch (ge_regions env) (ge_tpb env) hint view cs1 = Some (Inr (d, cs2))
     \<and> (\<forall>(b, r)\<in>set hist. 0 \<le> b \<and> b < 18446744073709551616) \<and> gs_dispatch s v = after_lookups (ge_tpb env) d hist)"

definition graph_ok :: "'d guest_env \<Rightarrow> nat \<Rightarrow> nat \<Rightarrow> bool" where
  "graph_ok env fuel p \<longleftrightarrow> sizes_ok (ge_regions env) \<and> (\<exists>rk. ranked rk (ge_regions env) \<and> rk p < fuel) \<and> 2 \<le> ge_tpb env \<and> ge_tpb env \<le> 16"

lemma built_view_ok:
  assumes "graph_ok env fuel p" "built_from env fuel gdl p v s"
  shows "view_ok env v (graph_target fuel gdl (ge_regions env) p) s"
proof -
  let ?rg = "ge_regions env" and ?tpb = "ge_tpb env"
  obtain rk where g: "sizes_ok ?rg" "ranked rk ?rg" "rk p < fuel" "2 \<le> ?tpb" "?tpb \<le> 16" using assms(1) by (auto simp: graph_ok_def)
  obtain cs view cs1 hint d cs2 hist where b: "render_topology fuel gdl ?rg (Some p) cs = Some (Inr (view, cs1))" "4 + 6 * length (fv_ranges view) \<le> 2 ^ ?tpb"
      "view_dispatch ?rg ?tpb hint view cs1 = Some (Inr (d, cs2))" "\<forall>(b, r)\<in>set hist. 0 \<le> b \<and> b < 18446744073709551616"
      "gs_dispatch s v = after_lookups ?tpb d hist"
    using assms(2) unfolding built_from_def by blast
  have v: "flat_ok (fv_ranges view)" "in_space (fv_ranges view)"
      "\<And>a. 0 \<le> a \<Longrightarrow> a < 18446744073709551616 \<Longrightarrow> view_at (fv_ranges view) a = region_at fuel gdl ?rg p 0 False a"
    using render_resolves [OF g(1-3), of gdl cs] b(1) by auto
  obtain d0 where d0: "serves ?tpb d0 d" "\<And>a. 0 \<le> a \<Longrightarrow> a < 18446744073709551616 \<Longrightarrow> dispatch_target ?tpb d0 a = view_target (fv_ranges view) a"
    using view_dispatch_serves [OF v(1,2) g(4,5) b(2), of ?rg hint cs1] b(3) by auto
  have "dispatch_target ?tpb d0 a = graph_target fuel gdl ?rg p a" if "0 \<le> a" "a < 18446744073709551616" for a
    using d0(2) [OF that] v(3) [OF that] by (simp add: graph_target_def view_target_def)
  then show ?thesis using g(5) lookups_serve [OF d0(1) g(5) b(4)] b(5) by (auto simp: view_ok_def)
qed

lemma backed_read: "ram_backed rg ram t True a \<Longrightarrow> ram_backed rg ram t False a"
  by (auto simp: ram_backed_def memory_access_is_direct_def split: option.splits)

text \<open>A machine for the witnesses: 8 KB of RAM at address 4096, and a read-only alias of it at address 65536.\<close>

definition machine_regions :: regions where
  "machine_regions p =
     (if p = 0 then plain_region\<lparr>mr_size := 18446744073709551616, mr_subregions := [1, 2]\<rparr>
      else if p = 1 then plain_region\<lparr>mr_addr := 65536, mr_size := 8192, mr_alias := Some 2, mr_readonly := True\<rparr>
      else if p = 2 then plain_region\<lparr>mr_addr := 4096, mr_size := 8192, mr_terminates := True, mr_ram := True, mr_ram_block := Some 7\<rparr>
      else plain_region\<lparr>mr_enabled := False\<rparr>)"

definition machine_env :: "unit guest_env" where
  "machine_env = \<lparr>ge_tpb = 12, ge_regions = machine_regions, ge_ops = (\<lambda>_. unassigned_mem_ops), ge_view = id, ge_target_be = False, ge_kvm_eventfds = False,
     ge_dirty_log = False, ge_tcg = True, ge_xen = False, ge_attrs_to_index = (\<lambda>_. None),
     ge_iommu_translate = (\<lambda>_ _ _ _ _. \<lparr>tlb_target_as = None, tlb_iova = 0, tlb_translated_addr = 0, tlb_addr_mask = 0, tlb_perm = 0\<rparr>),
     ge_ramblock_ptr = (\<lambda>b off. if rb_host b \<noteq> 0 \<and> off < rb_used_length b then Inr (rb_host b + off) else Inl Assert_failed),
     ge_includes_clean = (\<lambda>_ _ _ m. m), ge_pow2floor = (\<lambda>l. if l < 2 then l else if l < 4 then 2 else if l < 8 then 4 else 8),
     ge_ldn_p = (\<lambda>bs n. Inr (bytes_word (take n bs))), ge_stn_p = (\<lambda>n w. Inr (word_bytes n w))\<rparr>"

definition machine_ram :: RAMList where
  "machine_ram = \<lparr>rl_blocks = [\<lparr>rb_id = 7, rb_mr = 2, rb_host = 1048576, rb_offset = 0, rb_used_length = 8192, rb_max_length = 8192, rb_resized = False, rb_flags = 0,
     rb_idstr = ''ram'', rb_fd = - 1, rb_page_size = 4096\<rparr>], rl_mru_block = None, rl_version = 1, rl_dirty_memory = [], rl_calls = []\<rparr>"

definition machine_state :: "AddressSpaceDispatch \<Rightarrow> unit guest_state" where
  "machine_state d = \<lparr>gs_dispatch = (\<lambda>_. d), gs_ram = machine_ram, gs_host = (\<lambda>_. 0), gs_dev = (), gs_bql = False, gs_calls = []\<rparr>"

abbreviation machine_target :: targets where
  "machine_target \<equiv> graph_target 3 False machine_regions 0"

definition machine_rank :: "nat \<Rightarrow> nat" where "machine_rank p = 2 - p"

lemma machine_graph: "sizes_ok machine_regions" "ranked machine_rank machine_regions" "machine_rank 0 < 3"
  by (auto simp: sizes_ok_def ranked_def machine_regions_def plain_region_def machine_rank_def)

lemma machine_ok: "graph_ok machine_env 3 0" "ptr_ok (ge_ramblock_ptr machine_env)" "dirty_ok machine_env" "ge_regions machine_env = machine_regions"
  "ge_view machine_env as = as" "gs_ram (machine_state d) = machine_ram"
  using machine_graph by (auto simp: graph_ok_def ptr_ok_def dirty_ok_def machine_env_def machine_state_def)

lemma machine_built: "\<exists>d. \<forall>v. built_from machine_env 3 False 0 v (machine_state d)"
proof -
  have len: "map_option (\<lambda>r. case r of Inr (v, _) \<Rightarrow> length (fv_ranges v) | Inl _ \<Rightarrow> 99) (render_topology 3 False machine_regions (Some 0) (\<lambda>_. 0)) = Some 2"
    by code_simp
  obtain view cs1 where v: "render_topology 3 False machine_regions (Some 0) (\<lambda>_. 0) = Some (Inr (view, cs1))" "flat_ok (fv_ranges view)" "in_space (fv_ranges view)"
    using render_resolves [OF machine_graph, of False "\<lambda>_. 0"] by blast
  have small: "4 + 6 * length (fv_ranges view) \<le> 2 ^ 12" using len v(1) by simp
  obtain d cs2 where d: "view_dispatch machine_regions 12 0 view cs1 = Some (Inr (d, cs2))"
    using view_dispatch_serves [OF v(2,3) _ _ small, of machine_regions 0 cs1] by auto
  have "built_from machine_env 3 False 0 w (machine_state d)" for w
    unfolding built_from_def using v(1) d small by (intro exI [of _ "\<lambda>_. 0"] exI [of _ view] exI [of _ cs1] exI [of _ "0 :: nat"] exI [of _ d] exI [of _ cs2] exI [of _ "[]"])
      (simp add: machine_env_def machine_state_def)
  then show ?thesis by blast
qed

lemma machine_hits:
  "4096 \<le> a \<Longrightarrow> a < 12288 \<Longrightarrow> machine_target a = Some (2, a - 4096, False)"
  "65536 \<le> a \<Longrightarrow> a < 73728 \<Longrightarrow> machine_target a = Some (2, a - 65536, True)"
  by (simp_all add: graph_target_def region_at_Suc eval_nat_numeral Let_def machine_regions_def plain_region_def addrrange_contains_def
      addrrange_make_def addrrange_end_def memory_region_get_dirty_log_mask_def ulong_def)

lemma machine_backed:
  assumes "4096 \<le> a \<and> a < 12288 \<or> 65536 \<le> a \<and> a < 73728"
  shows "ram_backed machine_regions machine_ram machine_target is_write a"
    "host_at machine_regions machine_ram machine_target a = 1048576 + (if a < 12288 then a - 4096 else a - 65536)"
proof -
  let ?off = "if a < 12288 then a - 4096 else a - 65536"
  have "target_block machine_regions machine_ram machine_target a = Some (2, ?off, hd (rl_blocks machine_ram))"
    using assms by (auto simp: target_block_def machine_hits) (simp_all add: machine_regions_def plain_region_def machine_ram_def block_named_def)
  then show "ram_backed machine_regions machine_ram machine_target is_write a" "host_at machine_regions machine_ram machine_target a = 1048576 + ?off"
    using assms by (simp_all add: ram_backed_def host_at_def) (auto simp: machine_regions_def plain_region_def machine_ram_def memory_access_is_direct_def)
qed

text \<open>C11: A guest read of RAM returns the RAM. For an address space whose dispatch was built from an acyclic graph of regions, and a range of
  which every address is backed by RAM, possibly by several regions and blocks, the read succeeds and returns at each place the
  byte at the host address that the graph gives for the guest address; nothing but the memory of the last lookup changes.\<close>

theorem guest_reads_ram:
  assumes "graph_ok env fuel p" "built_from env fuel gdl p (ge_view env as) s" "ptr_ok (ge_ramblock_ptr env)"
    and "\<forall>i<n. ram_backed (ge_regions env) (gs_ram s) (graph_target fuel gdl (ge_regions env) p) False (a + int i)"
    and "n < 2147483648" "0 \<le> a" "a + int n \<le> 18446744073709551616"
  shows "\<exists>D. address_space_read_full env as a atr (int n) s = Some (Inr (MEMTX_OK,
      map (\<lambda>i. gs_host s (host_at (ge_regions env) (gs_ram s) (graph_target fuel gdl (ge_regions env) p) (a + int i))) [0..<n], s\<lparr>gs_dispatch := D\<rparr>))"
  using address_space_read_ram [OF built_view_ok [OF assms(1,2)] assms(3) _ assms(5-7)] assms(4) by blast

theorem guest_reads_ram_witness:
  "\<exists>d D. address_space_read_full machine_env 0 5000 0 2 (machine_state d) = Some (Inr (MEMTX_OK, [0, 0], (machine_state d)\<lparr>gs_dispatch := D\<rparr>))"
proof -
  obtain d where d: "built_from machine_env 3 False 0 (ge_view machine_env 0) (machine_state d)" using machine_built by blast
  have "\<forall>i<2. ram_backed (ge_regions machine_env) (gs_ram (machine_state d)) (graph_target 3 False (ge_regions machine_env) 0) False (5000 + int i)"
    unfolding machine_ok by (intro allI impI machine_backed) simp
  then show ?thesis using guest_reads_ram [OF machine_ok(1) d machine_ok(2), of 2 5000 0] by (auto simp: machine_state_def upt_rec)
qed



text \<open>A write through a read-only section is not ignored when the region behind it is writable RAM: \<open>memory_access_is_direct\<close> looks at the
  region and not at the section, so the byte is stored and the access reports success. A read-only alias of RAM has such
  sections.\<close>

theorem readonly_section_written:
  assumes "graph_ok env fuel p" "built_from env fuel gdl p (ge_view env as) s" "ptr_ok (ge_ramblock_ptr env)" "dirty_ok env"
    and "graph_target fuel gdl (ge_regions env) p a = Some (r, off, True)" "ram_backed (ge_regions env) (gs_ram s) (graph_target fuel gdl (ge_regions env) p) True a"
    and "0 \<le> a" "a < 18446744073709551616"
  shows "\<exists>s'. address_space_write env as a atr [x] 1 s = Some (Inr (MEMTX_OK, s'))
    \<and> gs_host s' (host_at (ge_regions env) (gs_ram s) (graph_target fuel gdl (ge_regions env) p) a) = x"
proof -
  let ?t = "graph_target fuel gdl (ge_regions env) p"
  have bk: "ram_backed (ge_regions env) (gs_ram s) ?t True (a + int i)" if "i < length [x]" for i using assms(6) that by simp
  have l: "length [x] < 2147483648" "a + int (length [x]) \<le> 18446744073709551616" using assms(8) by simp_all
  obtain D cs where "address_space_write env as a atr [x] (int (length [x])) s = Some (Inr (MEMTX_OK,
      s\<lparr>gs_dispatch := D, gs_host := store_bytes (host_at (ge_regions env) (gs_ram s) ?t) a [x] (gs_host s), gs_calls := gs_calls s @ cs\<rparr>))"
    using address_space_write_ram [OF built_view_ok [OF assms(1,2)] assms(3,4) bk l(1) assms(7) l(2)] by metis
  then show ?thesis by simp
qed

theorem readonly_section_written_witness:
  "\<exists>d s'. address_space_write machine_env 0 65540 0 [9] 1 (machine_state d) = Some (Inr (MEMTX_OK, s')) \<and> gs_host s' 1048580 = 9"
proof -
  obtain d where d: "built_from machine_env 3 False 0 (ge_view machine_env 0) (machine_state d)" using machine_built by blast
  have t: "graph_target 3 False (ge_regions machine_env) 0 65540 = Some (2, 4, True)" unfolding machine_ok by (simp add: machine_hits)
  have "ram_backed (ge_regions machine_env) (gs_ram (machine_state d)) (graph_target 3 False (ge_regions machine_env) 0) True 65540"
    unfolding machine_ok by (rule machine_backed) simp
  from readonly_section_written [OF machine_ok(1) d machine_ok(2,3) t this, of 0 9] show ?thesis
    unfolding machine_ok by (auto simp: machine_backed(2))
qed

end
