(* ===== verification/Ram_Image.thy ===== *)
theory Ram_Image
  imports Ram_Backend
begin

text \<open>
  What the guest RAM of a backend shows: a RAM block on a pcow image maps the overlay of the image's layers,
  with the size the image was created with; a raw block is aligned, shows its file and is followed by one guard
  page. The guard page is missing behind a pcow block, because \<open>fmmap\<close> does not map at the address it is given.
\<close>

section \<open>Arithmetic of the reservation\<close>

lemma round_up_id:
  assumes "0 < A" "A dvd n" "0 \<le> n" "n + A \<le> 18446744073709551616"
  shows "round_up n A = n"
proof -
  have "ulong (n + A - 1) = n + (A - 1)" using assms by (subst ulong_id) simp_all
  moreover obtain k where "n = A * k" using assms(2) by (elim dvdE)
  ultimately show ?thesis using assms(1) by (simp add: round_up_def div_pos_pos_trivial)
qed

lemma round_up_least:
  assumes "0 < A" "0 \<le> n" "n + A \<le> 18446744073709551616"
  shows "n \<le> round_up n A" "round_up n A < n + A" "A dvd round_up n A"
proof -
  have u: "ulong (n + A - 1) = n + A - 1" using assms by (intro ulong_id) simp_all
  have "round_up n A = n + A - 1 - (n + A - 1) mod A" by (simp add: round_up_def u minus_mod_eq_div_mult)
  then show "n \<le> round_up n A" "round_up n A < n + A"
    using pos_mod_bound [OF assms(1), of "n + A - 1"] pos_mod_sign [OF assms(1), of "n + A - 1"] by linarith+
  show "A dvd round_up n A" by (simp add: round_up_def)
qed

lemma is_power_of_2_iff: "is_power_of_2 n \<longleftrightarrow> (\<exists>k<64. n = 2 ^ k)"
  by (auto simp: is_power_of_2_def list_ex_iff)

lemma power_page:
  assumes "is_power_of_2 A" "PAGE_SIZE \<le> A"
  shows "0 < A" "PAGE_SIZE dvd A"
proof -
  obtain k where k: "A = 2 ^ k" using assms(1) by (auto simp: is_power_of_2_iff)
  have "(2 :: int) ^ 12 \<le> 2 ^ k" using assms(2) k by (simp add: PAGE_SIZE_def)
  then have "12 \<le> k" by (subst (asm) power_increasing_iff) simp_all
  then show "0 < A" "PAGE_SIZE dvd A" using le_imp_power_dvd [of 12 k "2 :: int"] k by (simp_all add: PAGE_SIZE_def)
qed

lemma in_pages_dvd: "PAGE_SIZE dvd a \<Longrightarrow> PAGE_SIZE dvd n \<Longrightarrow> in_pages a n p \<longleftrightarrow> a \<le> p * PAGE_SIZE \<and> p * PAGE_SIZE < a + n"
proof -
  assume "PAGE_SIZE dvd a" "PAGE_SIZE dvd n"
  then obtain k m where "a = PAGE_SIZE * k" "n = PAGE_SIZE * m" by (auto elim!: dvdE)
  then show ?thesis
    using in_pages_aligned [of a n p] by (auto simp: page_of_def PAGE_SIZE_def)
qed

section \<open>Mapping a pcow file\<close>

lemma pcow_ram_mmap:
  assumes r: "image_rel (files (rh_cow h) fdn) bs mb (ls0 @ [es])" "base_image_name (files (rh_cow h) fdn) 0 = []"
    and a: "a_pcow ke mod 4096 = 0" "0 \<le> a_pcow ke" "a_pcow ke < 4611686018427387904"
    and p: "a_reserve ke = Some ptr" "ptr mod 4096 = 0" "0 \<le> ptr" "ptr < 9223372036854775808"
    and n: "0 < n" "n \<le> REG_LEN"
  shows "\<exists>h'. qemu_ram_mmap ke (Some fdn) n 4096 MEM_BACKEND_FORMAT_PCOW h = Some (Inr (Some (a_pcow ke), h'))
    \<and> vm_rel (vm (rh_cow h')) (a_pcow ke) bs fdn (n div bs) (image_map 0 bs (ls0 @ [es]) Map.empty)
    \<and> pre_rel (rh_cow h') bs mb ls0 es \<and> files (rh_cow h') = files (rh_cow h)
    \<and> rh_resv h' = (\<lambda>q. rh_resv h q \<or> in_pages ptr (n + 4096) q)"
proof -
  let ?h = "rh_reserve ptr (n + 4096) h"
  have h: "rh_cow ?h = rh_cow h" by (simp add: rh_reserve_def)
  obtain c where c: "fmmap (rh_cow ?h) (a_pcow ke) n fdn 0 = Some (Inr (Some (a_pcow ke), c))"
      "vm_rel (vm c) (a_pcow ke) bs fdn (n div bs) (image_map 0 bs (ls0 @ [es]) Map.empty)" "pre_rel c bs mb ls0 es" "files c = files (rh_cow h)"
    using fmmap_rel [of "rh_cow ?h" fdn bs mb ls0 es "a_pcow ke" n 0] r a n unfolding h by auto
  have w: "ulong (n + 4096) = n + 4096" using n by (intro ulong_id) (simp_all add: REG_LEN_def)
  have "round_up ptr 4096 = ptr" using p by (intro round_up_id) (simp_all add: mod_eq_0_iff_dvd)
  then have o: "ulong (round_up ptr 4096 - ptr) = 0" by (simp add: ulong_def)
  have "is_power_of_2 4096" by (simp add: is_power_of_2_iff exI [of _ 12])
  then have "qemu_ram_mmap ke (Some fdn) n 4096 MEM_BACKEND_FORMAT_PCOW h = Some (Inr (Some (a_pcow ke), ?h\<lparr>rh_cow := c\<rparr>))"
    using c(1) p(1) by (simp add: qemu_ram_mmap_def Let_def w o pcow_mmap_def trim_reservation_def PAGE_SIZE_def)
  then show ?thesis using c by (simp add: rh_reserve_def)
qed

section \<open>Mapping a raw file\<close>

lemma trim_pages:
  assumes q: "PAGE_SIZE dvd ptr" "PAGE_SIZE dvd q" "PAGE_SIZE dvd n" "PAGE_SIZE dvd A" "0 \<le> ptr" "ptr \<le> q" "q < ptr + A" "0 < n"
    and b: "ptr + n + A < 9223372036854775808"
  shows "trim_reservation ptr q (q - ptr) (n + A) n h =
    h\<lparr>rh_cow := (rh_cow h)\<lparr>vm := (\<lambda>p. if in_pages ptr (n + A) p \<and> \<not> in_pages q (n + PAGE_SIZE) p then None else vm (rh_cow h) p)\<rparr>,
      rh_resv := (\<lambda>p. rh_resv h p \<and> \<not> (in_pages ptr (n + A) p \<and> \<not> in_pages q (n + PAGE_SIZE) p))\<rparr>"
proof -
  have g: "q + PAGE_SIZE \<le> ptr + A"
  proof -
    have "PAGE_SIZE dvd ptr + A - q" using q by simp
    then have "PAGE_SIZE \<le> ptr + A - q" by (rule zdvd_imp_le) (use q in simp)
    then show ?thesis by simp
  qed
  have P: "0 < PAGE_SIZE" by (simp add: PAGE_SIZE_def)
  have u: "ulong (n + A - (q - ptr)) = n + A - (q - ptr)" "ulong (n + PAGE_SIZE) = n + PAGE_SIZE" "ulong (q + n + PAGE_SIZE) = q + n + PAGE_SIZE"
      "ulong (n + A - (q - ptr) - n - PAGE_SIZE) = n + A - (q - ptr) - n - PAGE_SIZE"
    using q b g P by (simp_all add: ulong_def mod_pos_pos_trivial)
  have i: "in_pages ptr (q - ptr) p \<longleftrightarrow> ptr \<le> p * PAGE_SIZE \<and> p * PAGE_SIZE < q"
    "in_pages (q + n + PAGE_SIZE) (n + A - (q - ptr) - n - PAGE_SIZE) p \<longleftrightarrow> q + n + PAGE_SIZE \<le> p * PAGE_SIZE \<and> p * PAGE_SIZE < ptr + n + A"
    "in_pages ptr (n + A) p \<longleftrightarrow> ptr \<le> p * PAGE_SIZE \<and> p * PAGE_SIZE < ptr + n + A"
    "in_pages q (n + PAGE_SIZE) p \<longleftrightarrow> q \<le> p * PAGE_SIZE \<and> p * PAGE_SIZE < q + n + PAGE_SIZE" for p
    using in_pages_dvd [of ptr "q - ptr" p] in_pages_dvd [of "q + n + PAGE_SIZE" "n + A - (q - ptr) - n - PAGE_SIZE" p]
      in_pages_dvd [of ptr "n + A" p] in_pages_dvd [of q "n + PAGE_SIZE" p] q by (simp_all add: algebra_simps)
  let ?front = "if q - ptr > 0 then rh_munmap ptr (q - ptr) h else h"
  let ?rear = "if n + A - (q - ptr) > n + PAGE_SIZE then rh_munmap (q + n + PAGE_SIZE) (n + A - (q - ptr) - n - PAGE_SIZE) ?front else ?front"
  have t: "trim_reservation ptr q (q - ptr) (n + A) n h = ?rear" by (simp only: trim_reservation_def Let_def u)
  have out: "(in_pages ptr (q - ptr) p \<or> in_pages (q + n + PAGE_SIZE) (n + A - (q - ptr) - n - PAGE_SIZE) p)
      = (in_pages ptr (n + A) p \<and> \<not> in_pages q (n + PAGE_SIZE) p)" for p
    unfolding i using q g P by linarith
  have skip: "h = rh_munmap a len h" if "\<And>p. \<not> in_pages a len p" for h a len using that by (simp add: rh_munmap_def munmap_def)
  have "?front = rh_munmap ptr (q - ptr) h" using skip [of ptr "q - ptr" h] i(1) by auto
  moreover have "?rear = rh_munmap (q + n + PAGE_SIZE) (n + A - (q - ptr) - n - PAGE_SIZE) ?front"
    using skip [of "q + n + PAGE_SIZE" "n + A - (q - ptr) - n - PAGE_SIZE" ?front] i(2) by auto
  ultimately have "?rear = rh_munmap (q + n + PAGE_SIZE) (n + A - (q - ptr) - n - PAGE_SIZE) (rh_munmap ptr (q - ptr) h)" by simp
  also have "\<dots> = h\<lparr>rh_cow := (rh_cow h)\<lparr>vm := (\<lambda>p. if in_pages ptr (q - ptr) p \<or> in_pages (q + n + PAGE_SIZE) (n + A - (q - ptr) - n - PAGE_SIZE) p then None else vm (rh_cow h) p)\<rparr>,
      rh_resv := (\<lambda>p. rh_resv h p \<and> \<not> (in_pages ptr (q - ptr) p \<or> in_pages (q + n + PAGE_SIZE) (n + A - (q - ptr) - n - PAGE_SIZE) p))\<rparr>"
    by (auto simp: rh_munmap_def munmap_def fun_eq_iff)
  finally show ?thesis unfolding t out .
qed

lemma raw_ram_mmap:
  assumes p: "a_reserve ke = Some ptr" "PAGE_SIZE dvd ptr" "0 \<le> ptr" "ptr + n + A < 9223372036854775808"
    and A: "is_power_of_2 A" "PAGE_SIZE \<le> A" and n: "PAGE_SIZE dvd n" "0 < n"
  defines "q \<equiv> round_up ptr A"
  shows "ptr \<le> q" "q < ptr + A" "A dvd q"
    "\<exists>h'. qemu_ram_mmap ke (Some fdn) n A MEM_BACKEND_FORMAT_RAW h = Some (Inr (Some q, h'))
       \<and> (\<forall>u. in_pages q n u \<longrightarrow> vm (rh_cow h') u = Some \<lparr>vp_fd = fdn, vp_off = u * PAGE_SIZE - q, vp_write = True\<rparr>)
       \<and> (\<forall>u. in_pages ptr (n + A) u \<longrightarrow> (rh_resv h' u \<longleftrightarrow> in_pages (q + n) PAGE_SIZE u))
       \<and> (\<forall>u. \<not> in_pages ptr (n + A) u \<longrightarrow> rh_resv h' u = rh_resv h u \<and> vm (rh_cow h') u = vm (rh_cow h) u)"
proof -
  note A0 = power_page [OF A]
  have r: "ptr \<le> q" "q < ptr + A" "A dvd q" unfolding q_def using round_up_least [OF A0(1) p(3)] p(4) n by simp_all
  show "ptr \<le> q" "q < ptr + A" "A dvd q" by (rule r)+
  have qd: "PAGE_SIZE dvd q" using r(3) A0(2) by (rule dvd_trans [rotated])
  have u: "ulong (n + A) = n + A" "ulong (q - ptr) = q - ptr" "ulong (ptr + (q - ptr)) = q"
    using p r n by (simp_all add: ulong_def mod_pos_pos_trivial)
  let ?h1 = "rh_reserve ptr (n + A) h"
  obtain h2 where rm: "raw_mmap q n (Some fdn) ?h1 = (Some q, h2)" and h2: "h2 = snd (raw_mmap q n (Some fdn) ?h1)" using n(2) by (simp add: raw_mmap_def)
  have g: "\<not> is_power_of_2 A \<or> A < PAGE_SIZE \<longleftrightarrow> False" using A by simp
  have e: "qemu_ram_mmap ke (Some fdn) n A MEM_BACKEND_FORMAT_RAW h = Some (Inr (Some q, trim_reservation ptr q (q - ptr) (n + A) n h2))"
    unfolding qemu_ram_mmap_def Let_def p(1) option.case g if_False u q_def [symmetric] MemoryBackendFileFormat.case rm by simp
  have i: "in_pages ptr (n + A) v \<longleftrightarrow> ptr \<le> v * PAGE_SIZE \<and> v * PAGE_SIZE < ptr + n + A"
    "in_pages q (n + PAGE_SIZE) v \<longleftrightarrow> q \<le> v * PAGE_SIZE \<and> v * PAGE_SIZE < q + n + PAGE_SIZE"
    "in_pages q n v \<longleftrightarrow> q \<le> v * PAGE_SIZE \<and> v * PAGE_SIZE < q + n"
    "in_pages (q + n) PAGE_SIZE v \<longleftrightarrow> q + n \<le> v * PAGE_SIZE \<and> v * PAGE_SIZE < q + n + PAGE_SIZE" for v
    using in_pages_dvd [of ptr "n + A" v] in_pages_dvd [of q "n + PAGE_SIZE" v] in_pages_dvd [of q n v] in_pages_dvd [of "q + n" PAGE_SIZE v]
      p(2) qd n(1) A0(2) by (simp_all add: algebra_simps)
  have P: "0 < PAGE_SIZE" by (simp add: PAGE_SIZE_def)
  have pg: "PAGE_SIZE * (v - page_of q) = v * PAGE_SIZE - q" for v
    using qd by (auto simp: page_of_def algebra_simps elim!: dvdE)
  have vm2: "vm (rh_cow h2) v = (if in_pages q n v then Some \<lparr>vp_fd = fdn, vp_off = v * PAGE_SIZE - q, vp_write = True\<rparr> else vm (rh_cow h) v)" for v
    using n(2) qd by (simp add: h2 raw_mmap_def mmap_fixed_def rh_reserve_def pg mod_eq_0_iff_dvd)
  have rs2: "rh_resv h2 v \<longleftrightarrow> (rh_resv h v \<or> in_pages ptr (n + A) v) \<and> \<not> in_pages q n v" for v
    using n(2) by (simp add: h2 raw_mmap_def rh_reserve_def)
  have nq: "in_pages q n v \<Longrightarrow> in_pages ptr (n + A) v" "in_pages q n v \<Longrightarrow> in_pages q (n + PAGE_SIZE) v"
      "in_pages ptr (n + A) v \<Longrightarrow> in_pages q (n + PAGE_SIZE) v \<and> \<not> in_pages q n v \<longleftrightarrow> in_pages (q + n) PAGE_SIZE v" for v
    unfolding i using r P n(2) by linarith+
  show "\<exists>h'. qemu_ram_mmap ke (Some fdn) n A MEM_BACKEND_FORMAT_RAW h = Some (Inr (Some q, h'))
       \<and> (\<forall>u. in_pages q n u \<longrightarrow> vm (rh_cow h') u = Some \<lparr>vp_fd = fdn, vp_off = u * PAGE_SIZE - q, vp_write = True\<rparr>)
       \<and> (\<forall>u. in_pages ptr (n + A) u \<longrightarrow> (rh_resv h' u \<longleftrightarrow> in_pages (q + n) PAGE_SIZE u))
       \<and> (\<forall>u. \<not> in_pages ptr (n + A) u \<longrightarrow> rh_resv h' u = rh_resv h u \<and> vm (rh_cow h') u = vm (rh_cow h) u)"
    unfolding e trim_pages [OF p(2) qd n(1) A0(2) p(3) r(1,2) n(2) p(4)]
    using nq by (auto simp: vm2 rs2)
qed

section \<open>RAM blocks on pcow images\<close>

text \<open>A Linux host with 4096-byte pages, without Xen and preallocation, that answers the two mappings.\<close>

definition plain_host :: "kernel_env \<Rightarrow> cstr \<Rightarrow> int \<Rightarrow> bool" where
  "plain_host ke fdn ptr \<longleftrightarrow> he_xen (ke_host ke) = None \<and> \<not> ke_kvm_without_mmu ke \<and> \<not> ke_other_alloc ke \<and> ke_statfs ke fdn = None
     \<and> ke_prealloc ke = None \<and> he_tpb (ke_host ke) < 58 \<and> a_reserve ke = Some ptr \<and> ptr mod 4096 = 0 \<and> 0 \<le> ptr \<and> ptr < 9223372036854775808
     \<and> a_pcow ke mod 4096 = 0 \<and> 0 < a_pcow ke \<and> a_pcow ke < 4611686018427387904"

lemma image_rel_size:
  assumes "image_rel f bs mb ls"
  shows "wf_bs bs" "0 \<le> mb" "mb < 2147483647" "st_size f \<noteq> 0" "\<exists>s. read_first_super f fdn 0 = Inr (Some s) \<and> block_size s = bs \<and> max_block_num s = mb"
proof -
  show "wf_bs bs" "0 \<le> mb" "mb < 2147483647" using assms by (simp_all add: image_rel_def)
  obtain es ls' where ls: "ls = es # ls'" using assms by (cases ls) (auto simp: image_rel_def)
  have r: "read_first_super f fdn 0 = Inr (Some (super_of fdn 0 bs mb (int (length es))))" for fdn
    using read_first_super_image [OF assms, of fdn] by (simp add: ls)
  then show "\<exists>s. read_first_super f fdn 0 = Inr (Some s) \<and> block_size s = bs \<and> max_block_num s = mb"
    by (auto simp: super_of_def Let_def)
  show "st_size f \<noteq> 0" using r [of "[]"] by (auto simp: read_first_super_def CL_SIZE_def)
qed

lemma pcow_alloc_from_fd:
  assumes env: "plain_host ke fdn ptr" and r: "image_rel (files (rh_cow (rw_host w)) fdn) bs mb (ls0 @ [es])"
    and nb: "base_image_name (files (rh_cow (rw_host w)) fdn) 0 = []"
    and mr: "mr_format mr = MEM_BACKEND_FORMAT_PCOW" "mr_align mr = 0 \<or> mr_align mr = 4096"
    and n: "0 < mb" "bs * mb \<le> REG_LEN"
    and l: "ram_ok (he_tpb (ke_host ke)) (rl_blocks (rw_list w))" "block_named (rw_list w) i = None"
      "find_ram_offset (he_tpb (ke_host ke)) (rl_blocks (rw_list w)) (bs * mb) = Inr off"
  shows "\<exists>b w'. qemu_ram_alloc_from_fd ke i n0 mrn mr share fdn w = Some (Inr (Block b, mr\<lparr>mr_align := 4096\<rparr>, w'))
    \<and> rb_id b = i \<and> rb_host b = a_pcow ke \<and> rb_max_length b = bs * mb \<and> rb_used_length b = bs * mb \<and> b \<in> set (rl_blocks (rw_list w'))
    \<and> ram_ok (he_tpb (ke_host ke)) (rl_blocks (rw_list w'))
    \<and> vm_rel (vm (rh_cow (rw_host w'))) (rb_host b) bs fdn mb (image_map 0 bs (ls0 @ [es]) Map.empty)
    \<and> pre_rel (rh_cow (rw_host w')) bs mb ls0 es \<and> files (rh_cow (rw_host w')) = files (rh_cow (rw_host w))"
proof -
  note e = env [unfolded plain_host_def]
  note z = image_rel_size [OF r]
  have bs: "4096 \<le> bs" "4096 dvd bs" using wf_bsD [OF z(1)] by simp_all
  have N: "0 < bs * mb" "4096 \<le> bs * mb" "4096 dvd bs * mb" "bs * mb \<le> 549755813888" "bs * mb div bs = mb"
    using bs n mult_mono [of 4096 bs 1 mb] by (simp_all add: REG_LEN_def)
  obtain s where s: "read_first_super (files (rh_cow (rw_host w)) fdn) fdn 0 = Inr (Some s)" "block_size s = bs" "max_block_num s = mb"
    using z(5) by blast
  have u: "ulong mb = mb" "ulong bs = bs" "ulong (mb * bs) = bs * mb"
    using z bs wf_bsD(2) [OF z(1)] N by (simp_all add: ulong_def mult.commute)
  have size: "backing_size ke mr n0 fdn (rw_host w) = Inr (Size (bs * mb))"
    using s mr(1) u by (simp add: backing_size_def Let_def)
  have pg: "qemu_fd_getpagesize ke (Some fdn) = 4096" using e by (simp add: qemu_fd_getpagesize_def PAGE_SIZE_def)
  have ru: "round_up (bs * mb) 4096 = bs * mb" using N by (intro round_up_id) simp_all
  have "is_power_of_2 4096" by (simp add: is_power_of_2_iff exI [of _ 12])
  obtain h where h: "qemu_ram_mmap ke (Some fdn) (bs * mb) 4096 MEM_BACKEND_FORMAT_PCOW (rw_host w) = Some (Inr (Some (a_pcow ke), h))"
      "vm_rel (vm (rh_cow h)) (a_pcow ke) bs fdn mb (image_map 0 bs (ls0 @ [es]) Map.empty)" "pre_rel (rh_cow h) bs mb ls0 es"
      "files (rh_cow h) = files (rh_cow (rw_host w))"
    using pcow_ram_mmap [OF r nb, of ke ptr "bs * mb"] e N n by (auto simp: REG_LEN_def)
  have al: "file_ram_alloc ke mr (bs * mb) fdn False (rw_host w) = Some (Inr (Some (a_pcow ke), mr\<lparr>mr_align := 4096\<rparr>, h))"
    using mr N h(1) e \<open>is_power_of_2 4096\<close> by (auto simp: file_ram_alloc_def Let_def pg ru file_ram_map_def)
  let ?nb = "file_block i mrn (a_pcow ke) (bs * mb) share 4096"
  obtain b l' where b: "ram_block_add (ke_host ke) ?nb share (rw_list w) = Inr (Some b, l')" "rb_host b = a_pcow ke"
    using l(3) e by (simp add: ram_block_add_def Let_def file_block_def host_of_def)
  have "rb_id b = i \<and> rb_max_length b = bs * mb \<and> rb_used_length b = bs * mb \<and> rl_blocks l' = insert_block b (rl_blocks (rw_list w))
      \<and> ram_ok (he_tpb (ke_host ke)) (rl_blocks l')"
    using ram_block_add_spec [OF l(1) _ _ _ _ b(1)] e N l(2) by (auto simp: file_block_def RAM_ADDR_MAX_def block_named_None)
  moreover have "qemu_ram_alloc_from_fd ke i n0 mrn mr share fdn w
      = Some (Inr (Block b, mr\<lparr>mr_align := 4096\<rparr>, w\<lparr>rw_host := h, rw_list := l'\<rparr>))"
    using e size al z(4) b(1) by (simp add: qemu_ram_alloc_from_fd_def add_file_block_def pg)
  ultimately show ?thesis using h(2-4) b(2) by (auto simp: set_insert_block)
qed

text \<open>An unformatted file gives \<open>MAP_FAILED\<close> where the callers test for \<open>NULL\<close>: the region keeps a bad block pointer.\<close>

lemma unformatted_block_pointer:
  assumes "read_first_super (files (rh_cow (rw_host w)) fdn) fdn 0 = Inr None" "he_xen (ke_host ke) = None" "\<not> ke_kvm_without_mmu ke" "\<not> ke_other_alloc ke"
  shows "memory_region_init_ram_from_file ke i mrn owner n align share fdn MEM_BACKEND_FORMAT_PCOW (Opened # rs) tmp w
    = Some (Inr (Map_failed_block, with_block ke ((memory_region_init owner n)\<lparr>mr_ram := True, mr_terminates := True, mr_align := align,
        mr_format := MEM_BACKEND_FORMAT_PCOW\<rparr>) Map_failed_block, w))"
  using assms by (simp add: memory_region_init_ram_from_file_def qemu_ram_alloc_from_file_def qemu_ram_alloc_from_fd_def backing_size_def Let_def)

section \<open>Properties\<close>

definition demo_kernel :: kernel_env where
  "demo_kernel = \<lparr>ke_host = demo_host, ke_kvm_without_mmu = False, ke_other_alloc = False, ke_tcg = True, ke_statfs = (\<lambda>_. None),
     a_reserve = Some 1073741824, a_pcow = 4096, ke_prealloc = None\<rparr>"

definition demo_world :: ram_world where
  "demo_world = \<lparr>rw_list = no_ram, rw_host = \<lparr>rh_cow = fresh_state, rh_resv = (\<lambda>_. False)\<rparr>\<rparr>"

definition demo_backend :: HostMemoryBackendFile where
  "demo_backend = \<lparr>be_size = 0, be_share = True, be_mr = None, fb_mem_path = Some [1], fb_format_name = Some ''pcow'', fb_align = 0,
     fb_format = MEM_BACKEND_FORMAT_RAW\<rparr>"

lemma demo_world_ok:
  "plain_host demo_kernel [1] 1073741824" "image_rel (files (rh_cow (rw_host demo_world)) [1]) 4096 10 ([] @ [[]])"
  "base_image_name (files (rh_cow (rw_host demo_world)) [1]) 0 = []" "ram_ok (he_tpb (ke_host demo_kernel)) (rl_blocks (rw_list demo_world))"
  "block_named (rw_list demo_world) 0 = None" "find_ram_offset (he_tpb (ke_host demo_kernel)) (rl_blocks (rw_list demo_world)) (4096 * 10) = Inr 0"
  using fresh_image_rel fresh_image_name
  by (simp_all add: plain_host_def demo_kernel_def demo_host_def demo_world_def fresh_state_def no_ram_def ram_ok_def block_named_def find_ram_offset_def)

text \<open>C6: A memory backend with \<open>format=pcow\<close> on an existing image without a base image gives guest RAM that is the
  image: the backend, the region and the RAM block get the size the image was created with, and the host
  memory of the block shows for every virtual block the data of the last entry for it in the chain of layers,
  writable exactly in the last layer; the RAM block list stays consistent, and no file is changed.\<close>

theorem pcow_backend_shows_image:
  assumes "plain_host ke fdn ptr" "image_rel (files (rh_cow (rw_host w)) fdn) bs mb (ls0 @ [es])"
    and "base_image_name (files (rh_cow (rw_host w)) fdn) 0 = []" "0 < mb" "bs * mb \<le> REG_LEN"
    and "ram_ok (he_tpb (ke_host ke)) (rl_blocks (rw_list w))" "block_named (rw_list w) i = None"
    and "find_ram_offset (he_tpb (ke_host ke)) (rl_blocks (rw_list w)) (bs * mb) = Inr off"
    and "be_size be = 0" "fb_format_name be = Some ''pcow''" "fb_mem_path be = Some fdn" "be_mr be = None" "fb_align be = 0 \<or> fb_align be = 4096"
  shows "\<exists>b mr w'. file_backend_memory_alloc ke i mrn owner (Opened # rs) tmp be w
      = Some (Inr (Inr (Some (Block b), be\<lparr>fb_format := MEM_BACKEND_FORMAT_PCOW, be_size := bs * mb, be_mr := Some mr\<rparr>), w'))
    \<and> mr_size mr = bs * mb \<and> mr_ram mr \<and> mr_ram_block mr = Some (rb_id b) \<and> rb_max_length b = bs * mb \<and> b \<in> set (rl_blocks (rw_list w'))
    \<and> ram_ok (he_tpb (ke_host ke)) (rl_blocks (rw_list w'))
    \<and> vm_rel (vm (rh_cow (rw_host w'))) (rb_host b) bs fdn mb (image_map 0 bs (ls0 @ [es]) Map.empty)
    \<and> files (rh_cow (rw_host w')) = files (rh_cow (rw_host w))"
proof -
  note z = image_rel_size [OF assms(2)]
  obtain s where s: "read_first_super (files (rh_cow (rw_host w)) fdn) fdn 0 = Inr (Some s)" "block_size s = bs" "max_block_num s = mb"
    using z(5) by blast
  have N: "0 < bs * mb" "bs * mb \<le> 549755813888" using wf_bsD(1) [OF z(1)] assms(4,5) by (simp_all add: REG_LEN_def)
  have u: "ulong mb = mb" "ulong bs = bs" "ulong (bs * mb) = bs * mb"
    using z wf_bsD [OF z(1)] N by (simp_all add: ulong_def)
  let ?be = "be\<lparr>fb_format := MEM_BACKEND_FORMAT_PCOW, be_size := bs * mb\<rparr>"
  have prep: "backend_prepare be (rw_host w) = Inr (Inr ?be)"
    using assms(9-11) s u by (simp add: backend_prepare_def)
  let ?mr = "(memory_region_init (Some owner) (bs * mb))\<lparr>mr_ram := True, mr_terminates := True, mr_align := fb_align be, mr_format := MEM_BACKEND_FORMAT_PCOW\<rparr>"
  obtain b w' where b: "qemu_ram_alloc_from_fd ke i (bs * mb) mrn ?mr (be_share be) fdn w = Some (Inr (Block b, ?mr\<lparr>mr_align := 4096\<rparr>, w'))"
      "rb_id b = i" "rb_host b = a_pcow ke" "rb_max_length b = bs * mb" "b \<in> set (rl_blocks (rw_list w'))" "ram_ok (he_tpb (ke_host ke)) (rl_blocks (rw_list w'))"
      "vm_rel (vm (rh_cow (rw_host w'))) (rb_host b) bs fdn mb (image_map 0 bs (ls0 @ [es]) Map.empty)"
      "files (rh_cow (rw_host w')) = files (rh_cow (rw_host w))"
    using pcow_alloc_from_fd [OF assms(1-3) _ _ assms(4-8), of ?mr "bs * mb" mrn "be_share be"] assms(13) by auto
  have "mr_size (with_block ke (?mr\<lparr>mr_align := 4096\<rparr>) (Block b)) = bs * mb"
    using N by (simp add: with_block_def memory_region_init_def memory_region_do_init_def)
  moreover have "file_backend_memory_alloc ke i mrn owner (Opened # rs) tmp be w
      = Some (Inr (Inr (Some (Block b), ?be\<lparr>be_mr := Some (with_block ke (?mr\<lparr>mr_align := 4096\<rparr>) (Block b))\<rparr>), w'))"
    using prep assms(11,12) b(1)
    by (simp add: file_backend_memory_alloc_def memory_region_init_ram_from_file_def qemu_ram_alloc_from_file_def)
  ultimately show ?thesis
    using b(4-) by (intro exI [of _ b] exI [of _ "with_block ke (?mr\<lparr>mr_align := 4096\<rparr>) (Block b)"] exI [of _ w'])
      (simp add: with_block_def)
qed

theorem pcow_backend_shows_image_witness:
  "\<exists>b be' w'. file_backend_memory_alloc demo_kernel 0 3 9 [Opened] [] demo_backend demo_world = Some (Inr (Inr (Some (Block b), be'), w'))
    \<and> be_size be' = 40960 \<and> rb_max_length b = 40960"
  using pcow_backend_shows_image [OF demo_world_ok(1-3) _ _ demo_world_ok(4-6), of demo_backend 3 9 "[]" "[]"]
  by (fastforce simp: REG_LEN_def demo_backend_def)

text \<open>C25: Raw guest RAM sits at the first aligned address of the reservation, every page of it shows its page of
  the file, exactly one page behind it stays reserved as a guard, the rest of the reservation is given back,
  and nothing outside the reservation is touched.\<close>

theorem raw_ram_guarded:
  assumes "a_reserve ke = Some ptr" "PAGE_SIZE dvd ptr" "0 \<le> ptr" "ptr + n + A < 9223372036854775808"
    and "is_power_of_2 A" "PAGE_SIZE \<le> A" "PAGE_SIZE dvd n" "0 < n"
  shows "\<exists>q h'. qemu_ram_mmap ke (Some fdn) n A MEM_BACKEND_FORMAT_RAW h = Some (Inr (Some q, h')) \<and> A dvd q \<and> ptr \<le> q \<and> q < ptr + A
       \<and> (\<forall>u. in_pages q n u \<longrightarrow> vm (rh_cow h') u = Some \<lparr>vp_fd = fdn, vp_off = u * PAGE_SIZE - q, vp_write = True\<rparr>)
       \<and> (\<forall>u. in_pages ptr (n + A) u \<longrightarrow> (rh_resv h' u \<longleftrightarrow> in_pages (q + n) PAGE_SIZE u))
       \<and> (\<forall>u. \<not> in_pages ptr (n + A) u \<longrightarrow> rh_resv h' u = rh_resv h u \<and> vm (rh_cow h') u = vm (rh_cow h) u)"
  using raw_ram_mmap(1-3) [OF assms] raw_ram_mmap(4) [OF assms, of fdn h] by blast

theorem raw_ram_guarded_witness:
  "\<exists>q h'. qemu_ram_mmap demo_kernel (Some [1]) 8192 16384 MEM_BACKEND_FORMAT_RAW (rw_host demo_world) = Some (Inr (Some q, h')) \<and> 16384 dvd q"
  using raw_ram_guarded [of demo_kernel 1073741824 8192 16384 "[1]" "rw_host demo_world"]
  by (auto simp: demo_kernel_def PAGE_SIZE_def is_power_of_2_iff exI [of _ 14])



end
