(* ===== verification/Guest_Image.thy ===== *)
theory Guest_Image
  imports Guest_Ram Ram_Image Fault_Handler
begin

text \<open>
  The whole way from a guest address to a byte of the image file: the graph of regions, the dispatch, the RAM block that the
  pcow backend made, the pages that \<open>fmmap\<close> mapped, and the layer that holds the block.
\<close>

text \<open>The host memory that accesses see is the memory of the process: what the mapped pages show.\<close>

definition shows_pages :: "(cstr \<Rightarrow> pm_file) \<Rightarrow> vmap \<Rightarrow> (int \<Rightarrow> u8) \<Rightarrow> bool" where
  "shows_pages fs v h \<longleftrightarrow> (\<forall>x y. vm_byte fs v x = Some y \<longrightarrow> h x = y)"

definition image_byte :: "pm_file \<Rightarrow> int \<Rightarrow> block_map \<Rightarrow> int \<Rightarrow> u8" where
  "image_byte f bs M x = (case M (x div bs) of None \<Rightarrow> 0 | Some (d, w) \<Rightarrow> bytes f (d + x mod bs))"

lemma shown_byte:
  assumes "vm_rel v base bs fdn mb M" "wf_bs bs" "base mod 4096 = 0" "shows_pages fs v h" "0 \<le> x" "x < bs * mb" "M (x div bs) \<noteq> None"
  shows "h (base + x) = image_byte (fs fdn) bs M x"
proof -
  obtain d w where m: "M (x div bs) = Some (d, w)" using assms(7) by auto
  have bs: "0 < bs" using wf_bsD(1) [OF assms(2)] by simp
  have "0 \<le> x div bs" using bs assms(5) by (simp add: pos_imp_zdiv_nonneg_iff)
  moreover have "x div bs < mb"
  proof (rule ccontr)
    assume "\<not> x div bs < mb"
    then have "bs * mb \<le> bs * (x div bs)" using bs by simp
    moreover have "bs * (x div bs) + x mod bs = x" "0 \<le> x mod bs" using bs by simp_all
    ultimately show False using assms(6) by linarith
  qed
  moreover have "0 \<le> x mod bs" "x mod bs < bs" using bs by simp_all
  ultimately have "vm_byte fs v (base + x div bs * bs + x mod bs) = Some (bytes (fs fdn) (d + x mod bs))"
    by (intro vm_rel_byte [OF assms(1-3) _ _ m])
  then have "vm_byte fs v (base + x) = Some (bytes (fs fdn) (d + x mod bs))" by (simp add: add.assoc)
  then show ?thesis using assms(4) m by (simp add: shows_pages_def image_byte_def)
qed


text \<open>Two virtual blocks, out of order in the file, behind the RAM of the example machine.\<close>

definition sample_pages :: vmap where
  "sample_pages u = (if u = 256 then Some \<lparr>vp_fd = [1], vp_off = 12288, vp_write = True\<rparr>
     else if u = 257 then Some \<lparr>vp_fd = [1], vp_off = 8192, vp_write = False\<rparr> else None)"

definition sample_map :: block_map where
  "sample_map = [0 \<mapsto> (12288, True), 1 \<mapsto> (8192, False)]"

definition sample_file :: pm_file where
  "sample_file = \<lparr>bytes = (\<lambda>x. if x = 16383 then 5 else if x = 8192 then 6 else 0), st_size = 20480, fs_limit = 20480, pm_log = []\<rparr>"

definition sample_host :: "int \<Rightarrow> u8" where
  "sample_host x = (case vm_byte (\<lambda>_. sample_file) sample_pages x of None \<Rightarrow> 0 | Some y \<Rightarrow> y)"

lemma sample_shown: "shows_pages (\<lambda>_. sample_file) sample_pages sample_host" "vm_rel sample_pages 1048576 4096 [1] 2 sample_map" "wf_bs 4096"
proof -
  show "shows_pages (\<lambda>_. sample_file) sample_pages sample_host" by (simp add: shows_pages_def sample_host_def)
  have "{0..<2} = {0, 1 :: int}" by auto
  then show "vm_rel sample_pages 1048576 4096 [1] 2 sample_map" by (simp add: vm_rel_def sample_pages_def sample_map_def page_of_def PAGE_SIZE_def)
  show "wf_bs 4096" by (simp add: wf_bs_def)
qed


end
