(* ===== verification/Guest_Map.thy ===== *)
theory Guest_Map
  imports Guest_Ram
begin

text \<open>
  Mapping guest memory for direct use (\<open>qemu-diff/exec.c\<close>): \<open>address_space_map\<close> gives a host pointer to RAM, or to the one bounce buffer when the
  range is not RAM; those who find the buffer in use leave a client that is scheduled when it is free again. A \<open>MemoryRegionCache\<close> keeps the
  translation of a range.

  A pointer is a host address or the bounce buffer, whose bytes are part of the state, so that the caller may change them. What
  \<open>qemu_memalign\<close> leaves in a new buffer is an argument. The lock around the list of clients makes each operation one step.
\<close>

section \<open>Bounce buffer and clients\<close>

record BounceBuffer =
  bo_mr :: section_mr
  bo_buffer :: "u8 list option"
  bo_addr :: int
  bo_len :: int
  bo_in_use :: bool

record 'd map_state =
  mp_guest :: "'d guest_state"
  mp_bounce :: BounceBuffer
  mp_clients :: "nat list"
  mp_scheduled :: "nat list"
  mp_refs :: refs

datatype map_ptr = Null_ptr | Bounce_ptr | Host_ptr int

definition cpu_notify_map_clients_locked :: "'d map_state \<Rightarrow> 'd map_state" where
  "cpu_notify_map_clients_locked s = s\<lparr>mp_scheduled := mp_scheduled s @ mp_clients s, mp_clients := []\<rparr>"

definition cpu_notify_map_clients :: "'d map_state \<Rightarrow> 'd map_state" where
  "cpu_notify_map_clients s = cpu_notify_map_clients_locked s"

definition cpu_register_map_client :: "nat \<Rightarrow> 'd map_state \<Rightarrow> 'd map_state" where
  "cpu_register_map_client bh s =
     (let s1 = s\<lparr>mp_clients := bh # mp_clients s\<rparr> in if \<not> bo_in_use (mp_bounce s) then cpu_notify_map_clients_locked s1 else s1)"

definition cpu_unregister_map_client :: "nat \<Rightarrow> 'd map_state \<Rightarrow> 'd map_state" where
  "cpu_unregister_map_client bh s = s\<lparr>mp_clients := remove1 bh (mp_clients s)\<rparr>"

definition map_ref :: "'d guest_env \<Rightarrow> section_mr \<Rightarrow> 'd map_state \<Rightarrow> 'd map_state" where
  "map_ref env mr s = s\<lparr>mp_refs := section_ref (ge_regions env) mr (mp_refs s)\<rparr>"

definition map_unref :: "'d guest_env \<Rightarrow> section_mr \<Rightarrow> 'd map_state \<Rightarrow> 'd map_state" where
  "map_unref env mr s = s\<lparr>mp_refs := phys_section_destroy (ge_regions env) mr (mp_refs s)\<rparr>"

section \<open>Mapping\<close>

partial_function (option) flatview_extend_translation :: "'d guest_env \<Rightarrow> nat \<Rightarrow> int \<Rightarrow> int \<Rightarrow> section_mr \<Rightarrow> int \<Rightarrow> int \<Rightarrow> bool \<Rightarrow> attrs \<Rightarrow> int \<Rightarrow> 'd guest_state
    \<Rightarrow> (int \<times> 'd guest_state) res option" where
  "flatview_extend_translation env fv a target_len mr base len is_write atr done1 s =
     (let target_len1 = ulong (target_len - len); a1 = ulong (a + len); done2 = ulong (done1 + len) in
      if target_len1 = 0 then Some (Inr (done2, s))
      else Option.bind (flatview_translate env fv a1 target_len1 is_write atr s) (\<lambda>t.
        case t of
          Inl e \<Rightarrow> Some (Inl e)
        | Inr (this_mr, xlat, len1, s1) \<Rightarrow>
            if this_mr \<noteq> mr \<or> xlat \<noteq> ulong (base + done2) then Some (Inr (done2, s1))
            else flatview_extend_translation env fv a1 target_len1 mr base len1 is_write atr done2 s1))"

text \<open>The result is the pointer, the length that is mapped, and the state. \<open>fresh n\<close> are the bytes of a new buffer.\<close>

definition address_space_map :: "(nat \<Rightarrow> u8 list) \<Rightarrow> 'd guest_env \<Rightarrow> nat \<Rightarrow> int \<Rightarrow> int \<Rightarrow> bool \<Rightarrow> attrs \<Rightarrow> 'd map_state
    \<Rightarrow> (map_ptr \<times> int \<times> 'd map_state) res option" where
  "address_space_map fresh env as a len is_write atr s =
     (if len = 0 then Some (Inr (Null_ptr, 0, s))
      else let fv = ge_view env as in
        Option.bind (flatview_translate env fv a len is_write atr (mp_guest s)) (\<lambda>t.
          case t of
            Inl e \<Rightarrow> Some (Inl e)
          | Inr (mr, xlat, l, g) \<Rightarrow>
              if \<not> memory_access_is_direct (section_region env mr) is_write
              then if bo_in_use (mp_bounce s) then Some (Inr (Null_ptr, len, s\<lparr>mp_guest := g\<rparr>))
                else let n = min l (2 ^ ge_tpb env);
                         s1 = map_ref env mr (s\<lparr>mp_guest := g, mp_bounce := \<lparr>bo_mr = mr, bo_buffer = Some (fresh (nat n)), bo_addr = a, bo_len = n, bo_in_use = True\<rparr>\<rparr>)
                  in if is_write then Some (Inr (Bounce_ptr, n, s1))
                     else Option.bind (flatview_read env fv a 0 (cint n) g) (\<lambda>r.
                       case r of
                         Inl e \<Rightarrow> Some (Inl e)
                       | Inr (res, bs, g1) \<Rightarrow> Some (Inr (Bounce_ptr, n, s1\<lparr>mp_guest := g1, mp_bounce := (mp_bounce s1)\<lparr>bo_buffer := Some bs\<rparr>\<rparr>)))
              else Option.bind (flatview_extend_translation env fv a len mr xlat l is_write atr 0 g) (\<lambda>e.
                Some (res_bind e (\<lambda>(plen, g1).
                  res_bind (region_block (section_region env mr) (gs_ram g1)) (\<lambda>b.
                    res_bind (qemu_ram_ptr_length (ge_ramblock_ptr env) b xlat plen (gs_ram g1)) (\<lambda>(p, n, ram).
                      Inr (Host_ptr p, n, map_ref env mr (s\<lparr>mp_guest := g1\<lparr>gs_ram := ram\<rparr>\<rparr>)))))))))"

definition memory_region_from_host :: "nat \<Rightarrow> int \<Rightarrow> RAMList \<Rightarrow> (nat \<times> int) option" where
  "memory_region_from_host tpb p ram = map_option (\<lambda>(b, off). (rb_mr b, off)) (qemu_ram_block_from_host tpb p False ram)"

definition address_space_unmap :: "'d guest_env \<Rightarrow> nat \<Rightarrow> map_ptr \<Rightarrow> bool \<Rightarrow> int \<Rightarrow> 'd map_state \<Rightarrow> 'd map_state res option" where
  "address_space_unmap env as buffer is_write access_len s =
     (case buffer of
        Null_ptr \<Rightarrow> Some (Inl Undefined)
      | Host_ptr p \<Rightarrow>
         (case memory_region_from_host (ge_tpb env) p (gs_ram (mp_guest s)) of
            None \<Rightarrow> Some (Inl Assert_failed)
          | Some (r, addr1) \<Rightarrow>
              Some (res_bind (if is_write then invalidate_and_set_dirty env (ge_regions env r) addr1 access_len (mp_guest s) else Inr (mp_guest s))
                (\<lambda>g. Inr (map_unref env (Mr r) (s\<lparr>mp_guest := g\<rparr>)))))
      | Bounce_ptr \<Rightarrow>
         (case bo_buffer (mp_bounce s) of
            None \<Rightarrow> Some (Inl Undefined)
          | Some bs \<Rightarrow>
              Option.bind (if is_write then address_space_write env as (bo_addr (mp_bounce s)) 0 bs (cint access_len) (mp_guest s) else Some (Inr (MEMTX_OK, mp_guest s)))
                (\<lambda>w. Some (res_bind w (\<lambda>(res, g).
                  let s1 = map_unref env (bo_mr (mp_bounce s)) (s\<lparr>mp_guest := g\<rparr>)
                  in Inr (cpu_notify_map_clients (s1\<lparr>mp_bounce := (mp_bounce s1)\<lparr>bo_buffer := None, bo_in_use := False\<rparr>\<rparr>)))))))"

section \<open>Cached translations\<close>

record MemoryRegionCache =
  ca_ptr :: "int option"
  ca_xlat :: int
  ca_len :: int
  ca_fv :: nat
  ca_mrs :: MemoryRegionSection
  ca_is_write :: bool

text \<open>The view is kept by a reference that the caller counts. The result is the cache, whose \<open>ca_len\<close> is returned.\<close>

definition address_space_cache_init :: "'d guest_env \<Rightarrow> nat \<Rightarrow> int \<Rightarrow> int \<Rightarrow> bool \<Rightarrow> 'd map_state \<Rightarrow> (MemoryRegionCache \<times> 'd map_state) res option" where
  "address_space_cache_init env as a len is_write s =
     (if len \<le> 0 then Some (Inl Assert_failed)
      else let fv = ge_view env as in
        case view_translate env fv a len True (mp_guest s) of
          Inl e \<Rightarrow> Some (Inl e)
        | Inr (sec, xlat, l, g) \<Rightarrow>
            if memory_access_is_direct (section_region env (ms_mr sec)) is_write
            then Option.bind (flatview_extend_translation env fv a len (ms_mr sec) xlat l is_write 0 0 g) (\<lambda>e.
              Some (res_bind e (\<lambda>(plen, g1).
                res_bind (region_block (section_region env (ms_mr sec)) (gs_ram g1)) (\<lambda>b.
                  res_bind (qemu_ram_ptr_length (ge_ramblock_ptr env) b xlat plen (gs_ram g1)) (\<lambda>(p, n, ram).
                    Inr (\<lparr>ca_ptr = Some p, ca_xlat = xlat, ca_len = n, ca_fv = fv, ca_mrs = sec, ca_is_write = is_write\<rparr>,
                         map_ref env (ms_mr sec) (s\<lparr>mp_guest := g1\<lparr>gs_ram := ram\<rparr>\<rparr>)))))))
            else Some (Inr (\<lparr>ca_ptr = None, ca_xlat = xlat, ca_len = l, ca_fv = fv, ca_mrs = sec, ca_is_write = is_write\<rparr>,
                            map_ref env (ms_mr sec) (s\<lparr>mp_guest := g\<rparr>))))"

definition address_space_cache_invalidate :: "'d guest_env \<Rightarrow> MemoryRegionCache \<Rightarrow> int \<Rightarrow> int \<Rightarrow> 'd guest_state \<Rightarrow> 'd guest_state res" where
  "address_space_cache_invalidate env cache a access_len s =
     (if \<not> ca_is_write cache then Inl Assert_failed
      else if ca_ptr cache \<noteq> None then invalidate_and_set_dirty env (section_region env (ms_mr (ca_mrs cache))) (ulong (a + ca_xlat cache)) access_len s
      else Inr s)"

definition address_space_translate_cached :: "'d guest_env \<Rightarrow> MemoryRegionCache \<Rightarrow> int \<Rightarrow> int \<Rightarrow> bool \<Rightarrow> attrs \<Rightarrow> 'd guest_state
    \<Rightarrow> (section_mr \<times> int \<times> int \<times> 'd guest_state) res option" where
  "address_space_translate_cached env cache a plen is_write atr s =
     (if ca_ptr cache \<noteq> None then Some (Inl Assert_failed)
      else let xlat = ulong (a + ca_xlat cache) in
        Option.bind (section_iommu (ge_regions env) (ca_mrs cache)) (\<lambda>io.
          case io of
            None \<Rightarrow> Some (Inr (ms_mr (ca_mrs cache), xlat, plen, s))
          | Some m \<Rightarrow>
              map_option (\<lambda>t. res_bind t (\<lambda>(sec, x, p, page_mask, as, s1). Inr (ms_mr sec, x, p, s1)))
                (address_space_translate_iommu env m xlat plen 18446744073709551615 is_write True None atr s)))"

definition address_space_read_cached_slow :: "'d guest_env \<Rightarrow> MemoryRegionCache \<Rightarrow> int \<Rightarrow> int \<Rightarrow> 'd guest_state
    \<Rightarrow> (MemTxResult \<times> u8 list \<times> 'd guest_state) res option" where
  "address_space_read_cached_slow env cache a len s =
     Option.bind (address_space_translate_cached env cache a (ulong len) False 0 s) (\<lambda>t.
       case t of
         Inl e \<Rightarrow> Some (Inl e)
       | Inr (mr, addr1, l, s1) \<Rightarrow> flatview_read_continue env (ca_fv cache) 0 a len addr1 l mr MEMTX_OK [] s1)"

definition address_space_write_cached_slow :: "'d guest_env \<Rightarrow> MemoryRegionCache \<Rightarrow> int \<Rightarrow> u8 list \<Rightarrow> int \<Rightarrow> 'd guest_state
    \<Rightarrow> (MemTxResult \<times> 'd guest_state) res option" where
  "address_space_write_cached_slow env cache a buf len s =
     Option.bind (address_space_translate_cached env cache a (ulong len) True 0 s) (\<lambda>t.
       case t of
         Inl e \<Rightarrow> Some (Inl e)
       | Inr (mr, addr1, l, s1) \<Rightarrow> flatview_write_continue env (ca_fv cache) 0 a len addr1 l mr MEMTX_OK buf s1)"

text \<open>The result of the transaction is not returned; here it is, so that it can be spoken about.\<close>

definition address_space_read_cached :: "'d guest_env \<Rightarrow> MemoryRegionCache \<Rightarrow> int \<Rightarrow> int \<Rightarrow> 'd guest_state
    \<Rightarrow> (MemTxResult \<times> u8 list \<times> 'd guest_state) res option" where
  "address_space_read_cached env cache a len s =
     (if \<not> (a < ca_len cache \<and> ulong len \<le> ulong (ca_len cache - a)) then Some (Inl Assert_failed)
      else case ca_ptr cache of
             Some p \<Rightarrow> Some (Inr (MEMTX_OK, peek (gs_host s) (p + a) (nat (ulong len)), s))
           | None \<Rightarrow> address_space_read_cached_slow env cache a len s)"

definition address_space_write_cached :: "'d guest_env \<Rightarrow> MemoryRegionCache \<Rightarrow> int \<Rightarrow> u8 list \<Rightarrow> int \<Rightarrow> 'd guest_state
    \<Rightarrow> (MemTxResult \<times> 'd guest_state) res option" where
  "address_space_write_cached env cache a buf len s =
     (if \<not> (a < ca_len cache \<and> ulong len \<le> ulong (ca_len cache - a)) then Some (Inl Assert_failed)
      else case ca_ptr cache of
             Some p \<Rightarrow> Some (Inr (MEMTX_OK, s\<lparr>gs_host := poke (gs_host s) (p + a) (take (nat (ulong len)) buf)\<rparr>))
           | None \<Rightarrow> address_space_write_cached_slow env cache a buf len s)"

definition address_space_cache_destroy :: "'d guest_env \<Rightarrow> MemoryRegionCache \<Rightarrow> 'd map_state \<Rightarrow> 'd map_state" where
  "address_space_cache_destroy env cache s = map_unref env (ms_mr (ca_mrs cache)) s"

section \<open>What is mapped\<close>

text \<open>The first \<open>n\<close> addresses from \<open>a\<close> on are offsets in a row of one region.\<close>

definition in_row :: "targets \<Rightarrow> nat \<Rightarrow> int \<Rightarrow> int \<Rightarrow> int \<Rightarrow> bool" where
  "in_row t r a base n \<longleftrightarrow> (\<forall>i. 0 \<le> i \<and> i < n \<longrightarrow> (\<exists>ro. t (a + i) = Some (r, ulong (base + i), ro)))"

lemma in_row_append: "in_row t r a base m \<Longrightarrow> in_row t r (a + m) (base + m) n \<Longrightarrow> in_row t r a base (m + n)"
proof -
  assume a: "in_row t r a base m" "in_row t r (a + m) (base + m) n"
  show ?thesis unfolding in_row_def
  proof (intro allI impI)
    fix i assume i: "0 \<le> i \<and> i < m + n"
    show "\<exists>ro. t (a + i) = Some (r, ulong (base + i), ro)"
    proof (cases "i < m")
      case False
      then have "\<exists>ro. t (a + m + (i - m)) = Some (r, ulong (base + m + (i - m)), ro)" using a(2) i unfolding in_row_def by (metis diff_ge_0_iff_ge diff_less_eq add.commute not_less)
      then show ?thesis by simp
    qed (use a(1) i in \<open>simp add: in_row_def\<close>)
  qed
qed

lemma hits_row:
  assumes "hits rg t a plen (Mr r) xlat l" "mr_ram (rg r)"
  shows "in_row t r a xlat l" "0 < l" "l \<le> plen" "0 \<le> xlat \<Longrightarrow> xlat < 18446744073709551616 \<Longrightarrow> ulong xlat = xlat"
  using assms by (auto simp: hits_def in_row_def ulong_def split: option.splits)

lemma in_row_base: "in_row t r a (ulong base) n = in_row t r a base n"
  by (simp add: in_row_def ulong_def mod_add_left_eq)

lemma extend_ok:
  assumes plain: "\<And>x. 0 \<le> x \<Longrightarrow> x < 18446744073709551616 \<Longrightarrow> plain_target (ge_regions env) (t x)" and ram: "mr_ram (ge_regions env r)"
    and T: "0 \<le> a0" "a0 + T \<le> 18446744073709551616" "T < 18446744073709551616"
  shows "view_ok env v t s \<Longrightarrow> 0 \<le> dn \<Longrightarrow> 0 < l \<Longrightarrow> dn + l \<le> T \<Longrightarrow> in_row t r a0 base (dn + l)
    \<Longrightarrow> \<exists>n D. flatview_extend_translation env v (a0 + dn) (T - dn) (Mr r) base l is_write atr dn s = Some (Inr (n, s\<lparr>gs_dispatch := D\<rparr>))
      \<and> dn + l \<le> n \<and> n \<le> T \<and> in_row t r a0 base n \<and> view_ok env v t (s\<lparr>gs_dispatch := D\<rparr>)"
proof (induction "nat (T - dn)" arbitrary: dn l s rule: less_induct)
  case less
  have lt: "dn + l < 18446744073709551616" "T - dn - l < 18446744073709551616" "0 \<le> T - dn - l" using less.prems(2-4) T(3) by linarith+
  have u: "ulong (T - dn - l) = T - (dn + l)" "ulong (dn + l) = dn + l" using lt less.prems(2,3) by (simp_all add: ulong_def)
  show ?case
  proof (cases "T = dn + l")
    case True
    then show ?thesis using u less.prems by (intro exI [of _ T] exI [of _ "gs_dispatch s"]) (simp add: flatview_extend_translation.simps [of env v "a0 + dn"])
  next
    case False
    let ?a = "a0 + (dn + l)"
    have a: "0 \<le> ?a" "?a < 18446744073709551616" "0 < T - (dn + l)" "T - (dn + l) < 18446744073709551616" using False less.prems(2-4) T by linarith+
    have ua: "ulong (a0 + dn + l) = ?a" using a by (simp add: ulong_def add.assoc)
    obtain mr x l1 D where t: "flatview_translate env v ?a (T - (dn + l)) is_write atr s = Some (Inr (mr, x, l1, s\<lparr>gs_dispatch := D\<rparr>))"
        "hits (ge_regions env) t ?a (T - (dn + l)) mr x l1" "view_ok env v t (s\<lparr>gs_dispatch := D\<rparr>)"
      using flatview_translate_ok [OF less.prems(1) a plain [OF a(1,2)]] by blast
    show ?thesis
    proof (cases "mr = Mr r \<and> x = ulong (base + (dn + l))")
      case False
      then show ?thesis using t u ua a(3) less.prems
        by (intro exI [of _ "dn + l"] exI [of _ D]) (auto simp: flatview_extend_translation.simps [of env v "a0 + dn"] Let_def)
    next
      case True
      then have h: "hits (ge_regions env) t ?a (T - (dn + l)) (Mr r) (ulong (base + (dn + l))) l1" using t(2) by simp
      note row = hits_row [OF h ram]
      have "in_row t r a0 base (dn + l + l1)" using in_row_append [OF less.prems(5)] row(1) unfolding in_row_base by simp
      then obtain n D' where w: "flatview_extend_translation env v (a0 + (dn + l)) (T - (dn + l)) (Mr r) base l1 is_write atr (dn + l) (s\<lparr>gs_dispatch := D\<rparr>)
            = Some (Inr (n, s\<lparr>gs_dispatch := D, gs_dispatch := D'\<rparr>))"
          "dn + l + l1 \<le> n" "n \<le> T" "in_row t r a0 base n" "view_ok env v t (s\<lparr>gs_dispatch := D, gs_dispatch := D'\<rparr>)"
        using less.hyps [OF _ t(3) _ row(2), of "dn + l"] row(2,3) less.prems(2-4) by auto
      have "flatview_extend_translation env v (a0 + dn) (T - dn) (Mr r) base l is_write atr dn s
          = flatview_extend_translation env v (a0 + (dn + l)) (T - (dn + l)) (Mr r) base l1 is_write atr (dn + l) (s\<lparr>gs_dispatch := D\<rparr>)"
        using t(1) u ua a(3) True by (subst flatview_extend_translation.simps) (simp add: Let_def)
      then show ?thesis using w row(2) by (intro exI [of _ n] exI [of _ D']) auto
    qed
  qed
qed

text \<open>Rendering follows aliases, so a region it answers with is none.\<close>

lemma first_some_eq: "first_some f xs = Some y \<Longrightarrow> \<exists>x\<in>set xs. f x = Some y"
  by (induction xs) (auto split: option.splits)

lemma region_at_no_alias: "region_at n gdl rg p base ro a = Some (r, rest) \<Longrightarrow> mr_alias (rg r) = None"
proof (induction n arbitrary: p base ro)
  case (Suc n)
  have sub: "mr_alias (rg r) = None" if "first_some (\<lambda>c. region_at n gdl rg c b q a) cs = Some (r, rest)" for b q cs
    using first_some_eq [OF that] Suc.IH by blast
  show ?case
    using Suc.prems Suc.IH sub by (auto simp: region_at_Suc Let_def split: if_splits option.splits)
qed (simp add: region_at.simps)

lemma graph_plain: "\<forall>r. \<not> mr_is_iommu (rg r) \<Longrightarrow> plain_target rg (graph_target fuel gdl rg p x)"
  using region_at_no_alias by (fastforce simp: plain_target_def graph_target_def split: option.splits)

lemma row_host:
  assumes "in_row t r a off n" "mr_ram_block (rg r) = Some k" "block_named ram k = Some b" "0 \<le> off" "off + n \<le> rb_max_length b" "rb_max_length b < 18446744073709551616" "0 \<le> i" "i < n"
  shows "host_at rg ram t (a + i) = rb_host b + off + i"
proof -
  obtain ro where "t (a + i) = Some (r, ulong (off + i), ro)" using assms(1,7,8) by (auto simp: in_row_def)
  moreover have "ulong (off + i) = off + i" using assms(4-8) by (simp add: ulong_def)
  ultimately show ?thesis using assms(2,3) by (simp add: host_at_def target_block_def)
qed

text \<open>C19: Mapping guest RAM gives the RAM itself. In a machine without IOMMUs, mapping a range that begins in RAM succeeds, gives a host pointer and
  a length of at least one byte, and the host address of every guest address of the mapped part is the pointer plus its
  distance from the start, across the borders of sections that lie in a row; no byte is changed.\<close>

theorem map_gives_ram:
  assumes "graph_ok env fuel p" "built_from env fuel gdl p (ge_view env as) (mp_guest s)" "ptr_ok (ge_ramblock_ptr env)" "\<forall>r. \<not> mr_is_iommu (ge_regions env r)"
    and "ram_backed (ge_regions env) (gs_ram (mp_guest s)) (graph_target fuel gdl (ge_regions env) p) is_write a"
    and "0 < len" "len < 18446744073709551616" "0 \<le> a" "a + len \<le> 18446744073709551616"
  shows "\<exists>q n s'. address_space_map fresh env as a len is_write atr s = Some (Inr (Host_ptr q, n, s')) \<and> 0 < n \<and> n \<le> len
    \<and> (\<forall>i. 0 \<le> i \<and> i < n \<longrightarrow> host_at (ge_regions env) (gs_ram (mp_guest s)) (graph_target fuel gdl (ge_regions env) p) (a + i) = q + i)
    \<and> gs_host (mp_guest s') = gs_host (mp_guest s) \<and> gs_ram (mp_guest s') = gs_ram (mp_guest s) \<and> mp_bounce s' = mp_bounce s"
proof -
  let ?rg = "ge_regions env" and ?t = "graph_target fuel gdl (ge_regions env) p" and ?v = "ge_view env as"
  have v: "view_ok env ?v ?t (mp_guest s)" by (rule built_view_ok [OF assms(1,2)])
  have pl: "plain_target ?rg (?t x)" for x using graph_plain [OF assms(4)] .
  from assms(5) obtain r off ro k b where b: "?t a = Some (r, off, ro)" "mr_ram_block (?rg r) = Some k" "block_named (gs_ram (mp_guest s)) k = Some b"
      "mr_ram (?rg r)" "memory_access_is_direct (?rg r) is_write" "rb_host b \<noteq> 0" "0 \<le> off" "off < rb_used_length b" "rb_used_length b \<le> rb_max_length b"
      "0 \<le> rb_offset b" "rb_offset b + rb_max_length b < 18446744073709551616" by (rule ram_backedE)
  have a: "a < 18446744073709551616" using assms(6,9) by linarith
  obtain mr x l D where t: "flatview_translate env ?v a len is_write atr (mp_guest s) = Some (Inr (mr, x, l, (mp_guest s)\<lparr>gs_dispatch := D\<rparr>))"
      "hits ?rg ?t a len mr x l" "view_ok env ?v ?t ((mp_guest s)\<lparr>gs_dispatch := D\<rparr>)"
    using flatview_translate_ok [OF v assms(8) a assms(6,7) pl] by blast
  have mr: "mr = Mr r" "x = off" using t(2) b(1) by (simp_all add: hits_def)
  note row = hits_row [OF t(2) [unfolded mr] b(4)]
  obtain n D' where e: "flatview_extend_translation env ?v a len (Mr r) off l is_write atr 0 ((mp_guest s)\<lparr>gs_dispatch := D\<rparr>)
        = Some (Inr (n, (mp_guest s)\<lparr>gs_dispatch := D'\<rparr>))" "l \<le> n" "n \<le> len" "in_row ?t r a off n"
    using extend_ok [OF pl b(4) assms(8,9,7) t(3), of 0 l off is_write atr] row by auto
  define m where "m = min n (rb_max_length b - off)"
  have m: "0 < m" "m \<le> n" "off + m \<le> rb_max_length b" using e(2) row(2) b(8,9) by (auto simp: m_def)
  have u: "ulong (rb_max_length b - off) = rb_max_length b - off" using b(7-11) by (simp add: ulong_def)
  have "qemu_ram_ptr_length (ge_ramblock_ptr env) (Some b) off n (gs_ram (mp_guest s)) = Inr (rb_host b + off, m, gs_ram (mp_guest s))"
    using assms(3) b(6-8) m u by (simp add: qemu_ram_ptr_length_def ptr_ok_def m_def)
  moreover have "region_block (?rg r) (gs_ram (mp_guest s)) = Inr (Some b)" using b(2,3) by (simp add: region_block_def)
  ultimately have "address_space_map fresh env as a len is_write atr s
      = Some (Inr (Host_ptr (rb_host b + off), m, map_ref env (Mr r) (s\<lparr>mp_guest := (mp_guest s)\<lparr>gs_dispatch := D'\<rparr>\<rparr>)))"
    using t(1) e(1) b(5) assms(6) unfolding mr by (simp add: address_space_map_def section_region_def)
  moreover have rowm: "in_row ?t r a off m" using e(4) m(2) by (auto simp: in_row_def)
  have mx: "rb_max_length b < 18446744073709551616" using b(10,11) by simp
  have "host_at ?rg (gs_ram (mp_guest s)) ?t (a + i) = rb_host b + off + i" if "0 \<le> i" "i < m" for i
    using row_host [where rg = ?rg and i = i, OF rowm b(2,3,7) m(3) mx that] .
  ultimately show ?thesis using m e(3) by (intro exI) (auto simp: map_ref_def)
qed

definition machine_map :: "AddressSpaceDispatch \<Rightarrow> unit map_state" where
  "machine_map d = \<lparr>mp_guest = machine_state d, mp_bounce = \<lparr>bo_mr = Io_mem_unassigned, bo_buffer = None, bo_addr = 0, bo_len = 0, bo_in_use = False\<rparr>,
     mp_clients = [], mp_scheduled = [], mp_refs = (\<lambda>_. 0)\<rparr>"

theorem map_gives_ram_witness:
  "\<exists>d q n s'. address_space_map (\<lambda>n. replicate n 0) machine_env 0 5000 4000 True 0 (machine_map d) = Some (Inr (Host_ptr q, n, s')) \<and> 0 < n \<and> q = 1049480"
proof -
  obtain d where "built_from machine_env 3 False 0 (ge_view machine_env 0) (machine_state d)" using machine_built by blast
  then have d: "built_from machine_env 3 False 0 (ge_view machine_env 0) (mp_guest (machine_map d))" by (simp add: machine_map_def)
  have g: "gs_ram (mp_guest (machine_map d)) = machine_ram" by (simp add: machine_map_def machine_state_def)
  have no: "\<forall>r. \<not> mr_is_iommu (ge_regions machine_env r)" by (simp add: machine_ok machine_regions_def plain_region_def)
  have b: "ram_backed (ge_regions machine_env) (gs_ram (mp_guest (machine_map d))) (graph_target 3 False (ge_regions machine_env) 0) True 5000"
    unfolding g machine_ok by (rule machine_backed) simp
  obtain q n s' where w: "address_space_map (\<lambda>n. replicate n 0) machine_env 0 5000 4000 True 0 (machine_map d) = Some (Inr (Host_ptr q, n, s'))" "0 < n"
      "\<forall>i. 0 \<le> i \<and> i < n \<longrightarrow> host_at (ge_regions machine_env) (gs_ram (mp_guest (machine_map d))) (graph_target 3 False (ge_regions machine_env) 0) (5000 + i) = q + i"
    using map_gives_ram [OF machine_ok(1) d machine_ok(2) no b, of 4000 "\<lambda>n. replicate n 0" 0] by auto
  have "q = 1049480" using w(2) spec [OF w(3), of 0] unfolding g machine_ok by (simp add: machine_backed(2))
  then show ?thesis using w(1,2) by blast
qed

section \<open>Clients are not forgotten\<close>

inductive map_step :: "'d map_state \<Rightarrow> 'd map_state \<Rightarrow> bool" where
  map: "address_space_map fresh env as a len w atr s = Some (Inr (q, n, s')) \<Longrightarrow> map_step s s'"
| unmap: "address_space_unmap env as buffer w n s = Some (Inr s') \<Longrightarrow> map_step s s'"
| use: "map_step s (s\<lparr>mp_guest := g, mp_bounce := (mp_bounce s)\<lparr>bo_buffer := map_option (\<lambda>_. bs) (bo_buffer (mp_bounce s))\<rparr>\<rparr>)"
| register: "map_step s (cpu_register_map_client bh s)"
| unregister: "map_step s (cpu_unregister_map_client bh s)"

definition clients_ok :: "'d map_state \<Rightarrow> bool" where
  "clients_ok s \<longleftrightarrow> (mp_clients s \<noteq> [] \<longrightarrow> bo_in_use (mp_bounce s)) \<and> (bo_in_use (mp_bounce s) \<longleftrightarrow> bo_buffer (mp_bounce s) \<noteq> None)"

lemma map_ref_simps [simp]:
  "mp_bounce (map_ref env mr s) = mp_bounce s" "mp_clients (map_ref env mr s) = mp_clients s" "mp_guest (map_ref env mr s) = mp_guest s"
  "mp_bounce (map_unref env mr s) = mp_bounce s" "mp_clients (map_unref env mr s) = mp_clients s" "mp_guest (map_unref env mr s) = mp_guest s"
  by (simp_all add: map_ref_def map_unref_def)

lemma map_clients:
  assumes "address_space_map fresh env as a len w atr s = Some (Inr (q, n, s'))"
  shows "mp_clients s' = mp_clients s" "mp_bounce s' = mp_bounce s \<or> bo_in_use (mp_bounce s') \<and> bo_buffer (mp_bounce s') \<noteq> None"
proof -
  have "mp_clients s' = mp_clients s \<and> (mp_bounce s' = mp_bounce s \<or> bo_in_use (mp_bounce s') \<and> bo_buffer (mp_bounce s') \<noteq> None)"
  proof (cases "len = 0")
    case True
    then show ?thesis using assms by (simp add: address_space_map_def)
  next
    case False
    let ?T = "flatview_translate env (ge_view env as) a len w atr (mp_guest s)"
    obtain mr x l g where t: "?T = Some (Inr (mr, x, l, g))"
      using assms False by (cases ?T; cases "the ?T") (auto simp: address_space_map_def)
    show ?thesis
    proof (cases "memory_access_is_direct (section_region env mr) w")
      case True
      then show ?thesis using assms False t by (auto simp: address_space_map_def bind_eq_Some_conv res_bind_Inr_iff)
    next
      case nd: False
      show ?thesis
      proof (cases "bo_in_use (mp_bounce s)")
        case True
        then show ?thesis using assms False t nd by (auto simp: address_space_map_def)
      next
        case free: False
        let ?n = "min l (2 ^ ge_tpb env)"
        let ?R = "flatview_read env (ge_view env as) a 0 (cint ?n) g"
        show ?thesis
        proof (cases w)
          case True
          then show ?thesis using assms False t nd free by (auto simp: address_space_map_def Let_def)
        next
          case rd: False
          consider "?R = None" | e where "?R = Some (Inl e)" | res bs g1 where "?R = Some (Inr (res, bs, g1))"
            by (metis option.exhaust sum.exhaust surj_pair)
          then show ?thesis using assms False t nd free rd by cases (auto simp: address_space_map_def Let_def)
        qed
      qed
    qed
  qed
  then show "mp_clients s' = mp_clients s" "mp_bounce s' = mp_bounce s \<or> bo_in_use (mp_bounce s') \<and> bo_buffer (mp_bounce s') \<noteq> None" by blast+
qed

lemma unmap_clients:
  assumes "address_space_unmap env as buffer w n s = Some (Inr s')"
  shows "mp_clients s' = [] \<and> \<not> bo_in_use (mp_bounce s') \<and> bo_buffer (mp_bounce s') = None \<or> mp_clients s' = mp_clients s \<and> mp_bounce s' = mp_bounce s"
  using assms by (auto simp: address_space_unmap_def Let_def bind_eq_Some_conv res_bind_Inr_iff cpu_notify_map_clients_def cpu_notify_map_clients_locked_def split: if_splits option.splits map_ptr.splits)

lemma map_step_clients: "map_step s s' \<Longrightarrow> clients_ok s \<Longrightarrow> clients_ok s'"
proof (induction rule: map_step.induct)
  case (map fresh env as a len w atr s q n s')
  then show ?case using map_clients [OF map(1)] unfolding clients_ok_def by auto
next
  case (unmap env as buffer w n s s')
  then show ?case using unmap_clients [OF unmap(1)] unfolding clients_ok_def by auto
next
  case (unregister s bh)
  then show ?case by (auto simp: clients_ok_def cpu_unregister_map_client_def)
qed (auto simp: clients_ok_def cpu_register_map_client_def cpu_notify_map_clients_locked_def Let_def)

lemma map_run_clients: "map_step\<^sup>*\<^sup>* s s' \<Longrightarrow> clients_ok s \<Longrightarrow> clients_ok s'"
  by (induction rule: rtranclp_induct) (auto intro: map_step_clients)

text \<open>No client waits for a bounce buffer that is free. From a state in which the buffer is free and nobody waits, whatever is mapped, unmapped,
  registered and unregistered, a client is left in the list only while the buffer is in use, and unmapping the buffer schedules all of
  them and frees it.\<close>

theorem map_clients_served:
  assumes "\<not> bo_in_use (mp_bounce s0)" "bo_buffer (mp_bounce s0) = None" "mp_clients s0 = []" "map_step\<^sup>*\<^sup>* s0 s"
  shows "(mp_clients s \<noteq> [] \<longrightarrow> bo_in_use (mp_bounce s) \<and> bo_buffer (mp_bounce s) \<noteq> None)
    \<and> (\<forall>env as w n s'. address_space_unmap env as Bounce_ptr w n s = Some (Inr s')
        \<longrightarrow> mp_clients s' = [] \<and> mp_scheduled s' = mp_scheduled s @ mp_clients s \<and> \<not> bo_in_use (mp_bounce s'))"
proof (intro conjI allI impI)
  have ok: "clients_ok s" by (rule map_run_clients [OF assms(4)]) (use assms(1-3) in \<open>simp add: clients_ok_def\<close>)
  show "bo_in_use (mp_bounce s)" "bo_buffer (mp_bounce s) \<noteq> None" if "mp_clients s \<noteq> []" using ok that unfolding clients_ok_def by blast+
  fix env as w n s' assume "address_space_unmap env as Bounce_ptr w n s = Some (Inr s')"
  then show "mp_clients s' = []" "mp_scheduled s' = mp_scheduled s @ mp_clients s" "\<not> bo_in_use (mp_bounce s')"
    by (auto simp: address_space_unmap_def Let_def bind_eq_Some_conv res_bind_Inr_iff cpu_notify_map_clients_def cpu_notify_map_clients_locked_def map_unref_def
        split: if_splits option.splits)
qed

lemma unassigned_not_direct: "\<not> memory_access_is_direct (section_region env Io_mem_unassigned) w"
  by (simp add: section_region_def io_mem_init_def memory_access_is_direct_def memory_region_is_romd_def memory_region_init_def memory_region_do_init_def
      memory_region_initfn_def Let_def)

lemma map_unassigned:
  assumes "view_ok env (ge_view env as) t (mp_guest s)" "t a = None" "\<not> bo_in_use (mp_bounce s)" "0 < len" "len < 18446744073709551616" "0 \<le> a" "a < 18446744073709551616"
  obtains n s' where "address_space_map fresh env as a len True atr s = Some (Inr (Bounce_ptr, n, s'))" "bo_in_use (mp_bounce s')" "bo_buffer (mp_bounce s') \<noteq> None"
    "mp_clients s' = mp_clients s" "mp_scheduled s' = mp_scheduled s"
proof -
  have pl: "plain_target (ge_regions env) (t a)" by (simp add: plain_target_def assms(2))
  obtain mr x l D where "flatview_translate env (ge_view env as) a len True atr (mp_guest s) = Some (Inr (mr, x, l, (mp_guest s)\<lparr>gs_dispatch := D\<rparr>))"
      "hits (ge_regions env) t a len mr x l"
    by (rule flatview_translate_ok [OF assms(1,6,7,4,5) pl])
  moreover have "\<not> memory_access_is_direct (section_region env Io_mem_unassigned) True" by (rule unassigned_not_direct)
  ultimately have "address_space_map fresh env as a len True atr s = Some (Inr (Bounce_ptr, min len (2 ^ ge_tpb env),
      map_ref env Io_mem_unassigned (s\<lparr>mp_guest := (mp_guest s)\<lparr>gs_dispatch := D\<rparr>, mp_bounce :=
        \<lparr>bo_mr = Io_mem_unassigned, bo_buffer = Some (fresh (nat (min len (2 ^ ge_tpb env)))), bo_addr = a, bo_len = min len (2 ^ ge_tpb env), bo_in_use = True\<rparr>\<rparr>)))"
    using assms(2-4) by (simp add: address_space_map_def Let_def hits_def)
  then show thesis by (rule that) (simp_all add: map_ref_def)
qed

theorem map_clients_served_witness:
  "\<exists>d s. map_step\<^sup>*\<^sup>* (machine_map d) s \<and> bo_in_use (mp_bounce s) \<and> mp_clients s = [7]
    \<and> (\<exists>s'. address_space_unmap machine_env 0 Bounce_ptr False 0 s = Some (Inr s') \<and> mp_clients s' = [] \<and> mp_scheduled s' = [7] \<and> \<not> bo_in_use (mp_bounce s'))"
proof -
  obtain d where "built_from machine_env 3 False 0 (ge_view machine_env 0) (machine_state d)" using machine_built by blast
  then have v: "view_ok machine_env (ge_view machine_env 0) machine_target (mp_guest (machine_map d))"
    using built_view_ok [OF machine_ok(1)] by (simp add: machine_map_def machine_ok)
  let ?w = "machine_map d"
  have s0: "\<not> bo_in_use (mp_bounce ?w)" "bo_buffer (mp_bounce ?w) = None" "mp_clients ?w = []" "mp_scheduled ?w = []" by (simp_all add: machine_map_def)
  have "machine_target 200000 = None"
    by (simp add: graph_target_def region_at_Suc eval_nat_numeral Let_def machine_regions_def plain_region_def addrrange_contains_def
        addrrange_make_def addrrange_end_def)
  then obtain n s1 where s1: "address_space_map (\<lambda>n. replicate n 0) machine_env 0 200000 8 True 0 ?w = Some (Inr (Bounce_ptr, n, s1))" "bo_in_use (mp_bounce s1)"
      "bo_buffer (mp_bounce s1) \<noteq> None" "mp_clients s1 = []" "mp_scheduled s1 = []"
    by (rule map_unassigned [OF v _ s0(1), of 200000 8 "\<lambda>n. replicate n 0" 0]) (use s0(3,4) in simp_all)
  let ?u = "cpu_register_map_client 7 s1"
  have st: "map_step ?w s1" "map_step s1 ?u" by (rule map_step.map [OF s1(1)], rule map_step.register)
  then have run: "map_step\<^sup>*\<^sup>* ?w ?u" by (meson r_into_rtranclp rtranclp.rtrancl_into_rtrancl)
  have s: "bo_in_use (mp_bounce ?u)" "mp_clients ?u = [7]" "mp_scheduled ?u = []" "bo_buffer (mp_bounce ?u) \<noteq> None"
    using s1 by (simp_all add: cpu_register_map_client_def)
  then obtain s' where s': "address_space_unmap machine_env 0 Bounce_ptr False 0 ?u = Some (Inr s')" by (auto simp: address_space_unmap_def)
  show ?thesis using map_clients_served [OF s0(1-3) run] s s' run by fastforce
qed

section \<open>Where a cached access strays\<close>

text \<open>A cached access that takes more than one piece leaves the cached range. The slow path hands the offset in the cache to
  \<open>flatview_read_continue\<close> where it needs the guest address, so after a first piece of \<open>k\<close> bytes the rest is read from the guest
  addresses \<open>a + k\<close> and up, wherever the cached range begins: when these are RAM, the access ends with the bytes of that RAM.\<close>

theorem cached_read_strays:
  assumes "graph_ok env fuel p" "built_from env fuel gdl p (ca_fv cache) s1" "ptr_ok (ge_ramblock_ptr env)"
    and "ca_ptr cache = None" "section_iommu (ge_regions env) (ca_mrs cache) = Some None" "a < ca_len cache" "int len \<le> ca_len cache - a" "ca_len cache < 18446744073709551616"
    and "read_piece env 0 (ms_mr (ca_mrs cache)) (ulong (a + ca_xlat cache)) (int len) s = Inr (r, int k, bs, s1)" "k < len" "len < 2147483648"
    and "\<forall>i<len - k. ram_backed (ge_regions env) (gs_ram s1) (graph_target fuel gdl (ge_regions env) p) False (a + int k + int i)"
    and "0 \<le> a" "a + int len \<le> 18446744073709551616"
  shows "\<exists>D. address_space_read_cached env cache a (int len) s
    = Some (Inr (r, bs @ ram_bytes env (graph_target fuel gdl (ge_regions env) p) s1 (a + int k) (len - k), s1\<lparr>gs_dispatch := D\<rparr>))"
proof -
  let ?t = "graph_target fuel gdl (ge_regions env) p" and ?a = "a + int k" and ?n = "len - k"
  have v: "view_ok env (ca_fv cache) ?t s1" by (rule built_view_ok [OF assms(1,2)])
  have u: "ulong (int len) = int len" "ulong (ca_len cache - a) = ca_len cache - a" "ulong ?a = ?a" "ulong (int ?n) = int ?n" "cint (int len - int k) = int ?n"
    using assms(6-8,10,11,13,14) by (simp_all add: ulong_def cint_id of_nat_diff)
  have n: "0 < int ?n" "int ?n < 18446744073709551616" "?a < 18446744073709551616" "0 \<le> ?a" "0 < ?n" "?n < 2147483648" "?a + int ?n \<le> 18446744073709551616"
    using assms(10,11,13,14) by simp_all
  have b: "ram_backed (ge_regions env) (gs_ram s1) ?t False (?a + int i)" if "i < ?n" for i using assms(12) that by blast
  have "plain_target (ge_regions env) (?t ?a)" using b [of 0] n(5) by (auto elim: ram_backedE)
  then obtain mr x l D where t: "flatview_translate env (ca_fv cache) ?a (int ?n) False 0 s1 = Some (Inr (mr, x, l, s1\<lparr>gs_dispatch := D\<rparr>))"
      "hits (ge_regions env) ?t ?a (int ?n) mr x l" "view_ok env (ca_fv cache) ?t (s1\<lparr>gs_dispatch := D\<rparr>)"
    using flatview_translate_ok [OF v n(4,3,1,2)] by blast
  obtain D' where "flatview_read_continue env (ca_fv cache) 0 ?a (int ?n) x l mr r bs (s1\<lparr>gs_dispatch := D\<rparr>)
      = Some (Inr (r, bs @ ram_bytes env ?t s1 ?a ?n, s1\<lparr>gs_dispatch := D'\<rparr>))"
    using read_continue_ram [OF assms(3) t(3) _ n(5,6,4,7) t(2), of 0 r bs] b by auto
  then have "flatview_read_continue env (ca_fv cache) 0 a (int len) (ulong (a + ca_xlat cache)) (int len) (ms_mr (ca_mrs cache)) MEMTX_OK [] s
      = Some (Inr (r, bs @ ram_bytes env ?t s1 ?a ?n, s1\<lparr>gs_dispatch := D'\<rparr>))"
    using assms(9,10) t(1) u by (subst flatview_read_continue.simps) (simp add: MEMTX_OK_def)
  then show ?thesis using assms(4-7) u
    by (intro exI [of _ D']) (simp add: address_space_read_cached_def address_space_read_cached_slow_def address_space_translate_cached_def Let_def)
qed

text \<open>A cache of 4100 bytes from 195908 on, where nothing is. The read of its last eight bytes ends in the RAM at guest address 4096.\<close>

definition stray_cache :: MemoryRegionCache where
  "stray_cache = \<lparr>ca_ptr = None, ca_xlat = 195908, ca_len = 4100, ca_fv = 0, ca_mrs = \<lparr>ms_mr = Io_mem_unassigned, ms_offset_within_region = 0,
     ms_size = 18446744073709551616, ms_offset_within_address_space = 0, ms_readonly = False\<rparr>, ca_is_write = False\<rparr>"

theorem cached_read_strays_witness:
  "\<exists>d D. address_space_read_cached machine_env stray_cache 4092 8 (machine_state d) = Some (Inr (MEMTX_DECODE_ERROR, replicate 8 0, (machine_state d)\<lparr>gs_dispatch := D\<rparr>))"
proof -
  obtain d where d: "built_from machine_env 3 False 0 (ca_fv stray_cache) (machine_state d)" using machine_built by blast
  have p: "read_piece machine_env 0 (ms_mr (ca_mrs stray_cache)) (ulong (4092 + ca_xlat stray_cache)) (int 8) (machine_state d) = Inr (MEMTX_DECODE_ERROR, int 4, replicate 4 0, machine_state d)"
    by (simp add: read_piece_def stray_cache_def unassigned_not_direct) (simp add: prepare_mmio_access_def memory_access_size_def section_ops_def unassigned_mem_ops_def section_region_def
        io_mem_init_def memory_region_init_def memory_region_do_init_def memory_region_initfn_def machine_env_def machine_state_def release_def ulong_def uint32_def Let_def
        memory_region_dispatch_read_def memory_region_access_valid_def access_size_of_def accepts_loop.simps unassigned_mem_accepts_def unassigned_mem_read_def, simp add: eval_nat_numeral)
  have b: "\<forall>i<8 - 4. ram_backed (ge_regions machine_env) (gs_ram (machine_state d)) (graph_target 3 False (ge_regions machine_env) 0) False (4092 + int 4 + int i)"
    unfolding machine_ok by (intro allI impI machine_backed) simp
  have c: "ca_ptr stray_cache = None" "section_iommu (ge_regions machine_env) (ca_mrs stray_cache) = Some None" "4092 < ca_len stray_cache"
    "int 8 \<le> ca_len stray_cache - 4092" "ca_len stray_cache < 18446744073709551616"
    by (simp_all add: stray_cache_def section_iommu_def)
  obtain D where "address_space_read_cached machine_env stray_cache 4092 (int 8) (machine_state d) = Some (Inr (MEMTX_DECODE_ERROR,
      replicate 4 0 @ ram_bytes machine_env (graph_target 3 False (ge_regions machine_env) 0) (machine_state d) (4092 + int 4) (8 - 4), (machine_state d)\<lparr>gs_dispatch := D\<rparr>))"
    using cached_read_strays [OF machine_ok(1) d machine_ok(2) c p _ _ b] by auto
  moreover have "replicate 4 0 @ ram_bytes machine_env t (machine_state d) a (8 - 4) = replicate 8 0" for t a
    by (simp add: machine_state_def map_replicate_const flip: replicate_add)
  ultimately show ?thesis by auto
qed

end
