(* ===== verification/Thread_Sync.thy ===== *)
theory Thread_Sync
  imports Pcow_Prelude
begin

unbundle bit_operations_syntax

text \<open>
  Threads and their synchronisation (\<open>qemu-diff/util/qemu-thread-posix.c\<close>): events, semaphores built from a mutex and a condition
  variable, deadlines, and the signal mask of a new thread.

  Threads are numbers. An event is one word; each atomic access to it is one step of a thread, and \<open>qemu_event_set\<close>,
  \<open>qemu_event_reset\<close> and \<open>qemu_event_wait\<close> are cut into these steps by a program counter. The memory barriers make the steps of
  one thread happen in program order. A futex (or the condition variable that replaces it) wakes all sleepers when it is told to,
  and may also wake one by itself, as its documentation says.
  The mutex of a semaphore makes the code between two waits one step.
\<close>

section \<open>Events\<close>

definition EV_SET :: u32 where "EV_SET = 0"
definition EV_FREE :: u32 where "EV_FREE = 1"
definition EV_BUSY :: u32 where "EV_BUSY = - 1"

lemmas ev_defs = EV_SET_def EV_FREE_def EV_BUSY_def

datatype ev_pc = Idle | Set_read | Set_xchg | Set_wake | Reset_read | Reset_or | Wait_read | Wait_cas | Wait_futex | Sleeping | Wait_done

record QemuEvent =
  ev_value :: u32
  ev_initialized :: bool

record ev_state =
  es_event :: QemuEvent
  es_pc :: "nat \<Rightarrow> ev_pc"

definition qemu_event_init :: "bool \<Rightarrow> QemuEvent" where
  "qemu_event_init init = \<lparr>ev_value = (if init then EV_SET else EV_FREE), ev_initialized = True\<rparr>"

definition qemu_event_destroy :: "QemuEvent \<Rightarrow> QemuEvent res" where
  "qemu_event_destroy ev = (if ev_initialized ev then Inr (ev\<lparr>ev_initialized := False\<rparr>) else Inl Assert_failed)"

definition goto :: "nat \<Rightarrow> ev_pc \<Rightarrow> ev_state \<Rightarrow> ev_state" where
  "goto t pc s = s\<lparr>es_pc := (es_pc s)(t := pc)\<rparr>"

definition set_value :: "u32 \<Rightarrow> ev_state \<Rightarrow> ev_state" where
  "set_value v s = s\<lparr>es_event := (es_event s)\<lparr>ev_value := v\<rparr>\<rparr>"

abbreviation value_of :: "ev_state \<Rightarrow> u32" where
  "value_of s \<equiv> ev_value (es_event s)"

definition qemu_futex_wake :: "ev_state \<Rightarrow> ev_state" where
  "qemu_futex_wake s = s\<lparr>es_pc := (\<lambda>u. if es_pc s u = Sleeping then Wait_done else es_pc s u)\<rparr>"

definition qemu_futex_wait :: "u32 \<Rightarrow> nat \<Rightarrow> ev_state \<Rightarrow> ev_state" where
  "qemu_futex_wait val t s = goto t (if value_of s = val then Sleeping else Wait_done) s"

text \<open>The steps of the three functions; \<open>Idle\<close> and \<open>Wait_done\<close> are outside of them, the latter after a wait returned.\<close>

definition qemu_event_set :: "nat \<Rightarrow> ev_state \<Rightarrow> ev_state option" where
  "qemu_event_set t s =
     (case es_pc s t of
        Set_read \<Rightarrow> Some (goto t (if value_of s \<noteq> EV_SET then Set_xchg else Idle) s)
      | Set_xchg \<Rightarrow> Some (goto t (if value_of s = EV_BUSY then Set_wake else Idle) (set_value EV_SET s))
      | Set_wake \<Rightarrow> Some (goto t Idle (qemu_futex_wake s))
      | _ \<Rightarrow> None)"

definition qemu_event_reset :: "nat \<Rightarrow> ev_state \<Rightarrow> ev_state option" where
  "qemu_event_reset t s =
     (case es_pc s t of
        Reset_read \<Rightarrow> Some (goto t (if value_of s = EV_SET then Reset_or else Idle) s)
      | Reset_or \<Rightarrow> Some (goto t Idle (set_value (value_of s OR EV_FREE) s))
      | _ \<Rightarrow> None)"

definition qemu_event_wait :: "nat \<Rightarrow> ev_state \<Rightarrow> ev_state option" where
  "qemu_event_wait t s =
     (case es_pc s t of
        Wait_read \<Rightarrow> Some (goto t (if value_of s = EV_SET then Wait_done else if value_of s = EV_FREE then Wait_cas else Wait_futex) s)
      | Wait_cas \<Rightarrow>
          let old = value_of s; s1 = (if old = EV_FREE then set_value EV_BUSY s else s)
          in Some (goto t (if old = EV_SET then Wait_done else Wait_futex) s1)
      | Wait_futex \<Rightarrow> Some (qemu_futex_wait EV_BUSY t s)
      | _ \<Rightarrow> None)"

datatype ev_action = Call_set nat | Call_reset nat | Call_wait nat | Run nat | Spurious nat

text \<open>A call starts outside of the functions and asserts that the event is initialised.\<close>

definition call :: "nat \<Rightarrow> ev_pc \<Rightarrow> ev_state \<Rightarrow> ev_state option" where
  "call t pc s = (if es_pc s t \<in> {Idle, Wait_done} \<and> ev_initialized (es_event s) then Some (goto t pc s) else None)"

definition run :: "nat \<Rightarrow> ev_state \<Rightarrow> ev_state option" where
  "run t s = (case qemu_event_set t s of Some s' \<Rightarrow> Some s' | None \<Rightarrow> (case qemu_event_reset t s of Some s' \<Rightarrow> Some s' | None \<Rightarrow> qemu_event_wait t s))"

fun ev_next :: "ev_action \<Rightarrow> ev_state \<Rightarrow> ev_state option" where
  "ev_next (Call_set t) s = call t Set_read s"
| "ev_next (Call_reset t) s = call t Reset_read s"
| "ev_next (Call_wait t) s = call t Wait_read s"
| "ev_next (Run t) s = run t s"
| "ev_next (Spurious t) s = (if es_pc s t = Sleeping then Some (goto t Wait_done s) else None)"

fun ev_run :: "ev_action list \<Rightarrow> ev_state \<Rightarrow> ev_state option" where
  "ev_run [] s = Some s"
| "ev_run (a # as) s = Option.bind (ev_next a s) (ev_run as)"

definition ev_start :: "bool \<Rightarrow> ev_state" where
  "ev_start init = \<lparr>es_event = qemu_event_init init, es_pc = (\<lambda>_. Idle)\<rparr>"

inductive ev_reachable :: "bool \<Rightarrow> ev_state \<Rightarrow> bool" for init where
  start: "ev_reachable init (ev_start init)"
| step: "ev_reachable init s \<Longrightarrow> ev_next a s = Some s' \<Longrightarrow> ev_reachable init s'"

section \<open>Semaphores\<close>

datatype sem_pc = Outside | Blocked | Signalled | Acquired | Timed_out

record QemuSemaphore =
  sem_count :: u32
  sem_initialized :: bool
  sem_pc :: "nat \<Rightarrow> sem_pc"

definition qemu_sem_init :: "int \<Rightarrow> QemuSemaphore res" where
  "qemu_sem_init init = (if init < 0 then Inl Assert_failed else Inr \<lparr>sem_count = word_of_int init, sem_initialized = True, sem_pc = (\<lambda>_. Outside)\<rparr>)"

definition qemu_sem_destroy :: "QemuSemaphore \<Rightarrow> QemuSemaphore res" where
  "qemu_sem_destroy sem = (if sem_initialized sem then Inr (sem\<lparr>sem_initialized := False\<rparr>) else Inl Assert_failed)"

definition sem_goto :: "nat \<Rightarrow> sem_pc \<Rightarrow> QemuSemaphore \<Rightarrow> QemuSemaphore" where
  "sem_goto t pc s = s\<lparr>sem_pc := (sem_pc s)(t := pc)\<rparr>"

text \<open>\<open>pthread_cond_signal\<close> wakes one of the blocked threads, the one given, or none when there is none.\<close>

definition qemu_sem_post :: "nat option \<Rightarrow> QemuSemaphore \<Rightarrow> QemuSemaphore res" where
  "qemu_sem_post w s =
     (if \<not> sem_initialized s then Inl Assert_failed
      else if sem_count s = - 1 then Inl Assert_failed
      else let s1 = s\<lparr>sem_count := sem_count s + 1\<rparr>
        in Inr (case w of None \<Rightarrow> s1 | Some t \<Rightarrow> sem_goto t Signalled s1))"

text \<open>One pass of the loop of \<open>qemu_sem_wait\<close> and \<open>qemu_sem_timedwait\<close>, with the mutex held.\<close>

definition sem_try :: "nat \<Rightarrow> QemuSemaphore \<Rightarrow> QemuSemaphore" where
  "sem_try t s = (if sem_count s = 0 then sem_goto t Blocked s else sem_goto t Acquired (s\<lparr>sem_count := sem_count s - 1\<rparr>))"

definition qemu_sem_wait :: "nat \<Rightarrow> QemuSemaphore \<Rightarrow> QemuSemaphore res" where
  "qemu_sem_wait t s = (if \<not> sem_initialized s then Inl Assert_failed else Inr (sem_try t s))"

text \<open>\<open>ETIMEDOUT\<close> ends \<open>qemu_sem_timedwait\<close> without taking the count, whatever the count is then.\<close>

definition sem_timeout :: "nat \<Rightarrow> QemuSemaphore \<Rightarrow> QemuSemaphore" where
  "sem_timeout t s = sem_goto t Timed_out s"

inductive sem_step :: "nat \<Rightarrow> QemuSemaphore \<Rightarrow> QemuSemaphore \<Rightarrow> bool" for n where
  post: "sem_pc s t \<notin> {Blocked, Signalled} \<Longrightarrow> qemu_sem_post w s = Inr s'
    \<Longrightarrow> (case w of None \<Rightarrow> \<forall>u<n. sem_pc s u \<noteq> Blocked | Some u \<Rightarrow> u < n \<and> sem_pc s u = Blocked) \<Longrightarrow> sem_step n s s'"
| wait: "t < n \<Longrightarrow> sem_pc s t \<notin> {Blocked, Signalled} \<Longrightarrow> qemu_sem_wait t s = Inr s' \<Longrightarrow> sem_step n s s'"
| retry: "t < n \<Longrightarrow> sem_pc s t = Signalled \<Longrightarrow> sem_step n s (sem_try t s)"
| spurious: "t < n \<Longrightarrow> sem_pc s t = Blocked \<Longrightarrow> sem_step n s (sem_goto t Signalled s)"
| timeout: "t < n \<Longrightarrow> sem_pc s t = Blocked \<Longrightarrow> sem_step n s (sem_timeout t s)"

section \<open>Deadlines\<close>

text \<open>\<open>usec\<close> and \<open>sec\<close> are the time of day; the result is \<open>tv_sec\<close> and \<open>tv_nsec\<close>.\<close>

definition compute_abs_deadline :: "int \<Rightarrow> int \<Rightarrow> int \<Rightarrow> int \<times> int" where
  "compute_abs_deadline sec usec ms =
     (let nsec = usec * 1000 + c_mod ms 1000 * 1000000; sc = sec + c_div ms 1000
      in if nsec \<ge> 1000000000 then (sc + 1, nsec - 1000000000) else (sc, nsec))"

section \<open>Signal masks of threads\<close>

definition SIGSEGV :: nat where "SIGSEGV = 11"

text \<open>\<open>sigs\<close> are the signals of the host. The result is the mask of the new thread, which it inherits, and of the caller afterwards;
  \<open>err\<close> is what \<open>pthread_create\<close> returns.\<close>

definition qemu_thread_create :: "nat set \<Rightarrow> int \<Rightarrow> int \<Rightarrow> nat set \<Rightarrow> (nat set \<times> nat set) res" where
  "qemu_thread_create sigs attr_err err oldset =
     (if attr_err \<noteq> 0 then Inl Assert_failed
      else let set1 = sigs - {SIGSEGV}
        in if err \<noteq> 0 then Inl Assert_failed else Inr (set1, oldset))"

section \<open>Events never lose a wake-up\<close>

lemma ev_distinct [simp]: "EV_SET \<noteq> EV_FREE" "EV_SET \<noteq> EV_BUSY" "EV_FREE \<noteq> EV_BUSY" "EV_FREE \<noteq> EV_SET" "EV_BUSY \<noteq> EV_SET" "EV_BUSY \<noteq> EV_FREE"
  by (simp_all add: ev_defs)

lemma or_free [simp]: "EV_SET OR EV_FREE = EV_FREE" "EV_FREE OR EV_FREE = EV_FREE" "EV_BUSY OR EV_FREE = EV_BUSY"
  by (simp_all add: ev_defs)

lemma goto_simps [simp]: "value_of (goto t pc s) = value_of s" "es_pc (goto t pc s) = (es_pc s)(t := pc)" "es_event (goto t pc s) = es_event s"
  "value_of (set_value v s) = v" "es_pc (set_value v s) = es_pc s" "ev_initialized (es_event (set_value v s)) = ev_initialized (es_event s)"
  "value_of (qemu_futex_wake s) = value_of s" "es_pc (qemu_futex_wake s) u = (if es_pc s u = Sleeping then Wait_done else es_pc s u)"
  by (simp_all add: goto_def set_value_def qemu_futex_wake_def)

text \<open>The word holds one of the three values, and a thread sleeps only while it is busy or a thread that set it is about to wake the sleepers.\<close>

definition sleepers_served :: "(nat \<Rightarrow> ev_pc) \<Rightarrow> bool" where
  "sleepers_served pcs \<longleftrightarrow> (\<forall>u. pcs u \<noteq> Sleeping) \<or> (\<exists>w. pcs w = Set_wake)"

definition ev_inv :: "ev_state \<Rightarrow> bool" where
  "ev_inv s \<longleftrightarrow> value_of s \<in> {EV_SET, EV_FREE, EV_BUSY} \<and> (value_of s = EV_BUSY \<or> sleepers_served (es_pc s))"

text \<open>The steps that matter: what may happen to the word and to the program counters.\<close>

lemma ev_next_cases:
  assumes "ev_next a s = Some s'"
  obtains (move) t pc where "s' = goto t pc s" "es_pc s t \<noteq> Set_wake" "pc \<noteq> Sleeping \<or> value_of s = EV_BUSY"
  | (setter) t where "es_pc s t = Set_xchg" "s' = goto t (if value_of s = EV_BUSY then Set_wake else Idle) (set_value EV_SET s)"
  | (wake) t where "es_pc s t = Set_wake" "s' = goto t Idle (qemu_futex_wake s)"
  | (reset) t where "es_pc s t = Reset_or" "s' = goto t Idle (set_value (value_of s OR EV_FREE) s)"
  | (busy) t where "es_pc s t = Wait_cas" "value_of s = EV_FREE" "s' = goto t Wait_futex (set_value EV_BUSY s)"
proof (cases a)
  case (Run t)
  then show ?thesis
    using assms move [of t] setter [of t] wake [of t] reset [of t] busy [of t]
    by (cases "es_pc s t") (auto simp: run_def qemu_event_set_def qemu_event_reset_def qemu_event_wait_def qemu_futex_wait_def Let_def split: if_splits)
next
  case (Spurious t)
  then show ?thesis using assms move [of t Wait_done] by (auto split: if_splits)
qed (use assms move in \<open>force simp: call_def split: if_splits\<close>)+

lemma served_move: "sleepers_served pcs \<Longrightarrow> pcs t \<noteq> Set_wake \<Longrightarrow> pc \<noteq> Sleeping \<Longrightarrow> sleepers_served (pcs(t := pc))"
  unfolding sleepers_served_def by (metis fun_upd_apply)

lemma served_wake: "sleepers_served (pcs(t := Set_wake))"
  unfolding sleepers_served_def by (metis fun_upd_same)

lemma served_none: "sleepers_served ((es_pc (qemu_futex_wake s))(t := Idle))"
  unfolding sleepers_served_def by (simp add: qemu_futex_wake_def)

lemma ev_inv_next:
  assumes "ev_inv s" "ev_next a s = Some s'"
  shows "ev_inv s'"
  using assms(2)
proof (cases rule: ev_next_cases)
  case (reset t)
  then show ?thesis using assms(1) by (auto simp: ev_inv_def served_move)
qed (use assms(1) in \<open>auto simp: ev_inv_def served_move served_wake served_none simp del: goto_simps(8)\<close>)

lemma ev_reachable_inv: "ev_reachable init s \<Longrightarrow> ev_inv s"
proof (induction rule: ev_reachable.induct)
  case start
  then show ?case by (simp add: ev_inv_def ev_start_def qemu_event_init_def sleepers_served_def)
next
  case (step s a s')
  then show ?case using ev_inv_next by blast
qed

lemma ev_run_reachable: "ev_reachable init s \<Longrightarrow> ev_run as s = Some s' \<Longrightarrow> ev_reachable init s'"
  by (induction as arbitrary: s) (auto simp: bind_eq_Some_conv intro: ev_reachable.step)

lemma ev_next_initialized: "ev_next a s = Some s' \<Longrightarrow> ev_initialized (es_event s') = ev_initialized (es_event s)"
  by (erule ev_next_cases) (auto simp: goto_def set_value_def qemu_futex_wake_def)

lemma ev_reachable_initialized: "ev_reachable init s \<Longrightarrow> ev_initialized (es_event s)"
  by (induction rule: ev_reachable.induct) (auto simp: ev_next_initialized, simp add: ev_start_def qemu_event_init_def)

lemmas ev_eval = run_def call_def qemu_event_set_def qemu_event_reset_def qemu_event_wait_def qemu_futex_wait_def ev_start_def qemu_event_init_def

text \<open>The state with a sleeper, and a thread that found the event busy.\<close>

definition sleeper_state :: ev_state where
  "sleeper_state = set_value EV_BUSY (goto 1 Set_xchg (goto 0 Sleeping (ev_start False)))"

lemma sleeper_reachable: "ev_reachable False sleeper_state"
  by (rule ev_run_reachable [OF ev_reachable.start, of "[Call_wait 0, Run 0, Run 0, Run 0, Call_set 1, Run 1]"])
    (simp add: ev_eval sleeper_state_def goto_def set_value_def fun_eq_iff)

text \<open>C30: The word of an event only changes as the comment in the code says. Whatever threads call set, reset and wait and however their
  steps interleave, the word is always set, free or busy; it changes only from free or busy to set, from set to free and from
  free to busy, so never from busy to free and never from set to busy; and a change from busy to set is followed by a wake-up of
  the thread that made it.\<close>

theorem event_transitions:
  assumes "ev_reachable init s" "ev_next a s = Some s'"
  shows "value_of s \<in> {EV_SET, EV_FREE, EV_BUSY} \<and> value_of s' \<in> {EV_SET, EV_FREE, EV_BUSY}
    \<and> (value_of s' = value_of s \<or> (value_of s, value_of s') \<in> {(EV_FREE, EV_SET), (EV_BUSY, EV_SET), (EV_SET, EV_FREE), (EV_FREE, EV_BUSY)})
    \<and> (value_of s = EV_BUSY \<and> value_of s' = EV_SET \<longrightarrow> (\<exists>t. a = Run t \<and> es_pc s' t = Set_wake))"
proof -
  note i = ev_reachable_inv [OF assms(1)] ev_inv_next [OF ev_reachable_inv [OF assms(1)] assms(2)]
  have v: "value_of s \<in> {EV_SET, EV_FREE, EV_BUSY}" "value_of s' \<in> {EV_SET, EV_FREE, EV_BUSY}" using i by (simp_all add: ev_inv_def)
  have t: "value_of s' = value_of s \<or> (value_of s, value_of s') \<in> {(EV_FREE, EV_SET), (EV_BUSY, EV_SET), (EV_SET, EV_FREE), (EV_FREE, EV_BUSY)}"
    using assms(2) v(1) by (cases rule: ev_next_cases) auto
  have "\<exists>t. a = Run t \<and> es_pc s' t = Set_wake" if w: "value_of s = EV_BUSY" "value_of s' = EV_SET"
  proof (cases a)
    case (Run t)
    then have "es_pc s' t = Set_wake" using assms(2) w
      by (cases "es_pc s t") (auto simp: run_def qemu_event_set_def qemu_event_reset_def qemu_event_wait_def qemu_futex_wait_def Let_def split: if_splits)
    then show ?thesis using Run by simp
  qed (use assms(2) w in \<open>auto simp: call_def split: if_splits\<close>)
  then show ?thesis using v t by blast
qed

theorem event_transitions_witness:
  "\<exists>s'. ev_next (Run 1) sleeper_state = Some s' \<and> value_of sleeper_state = EV_BUSY \<and> value_of s' = EV_SET \<and> es_pc s' 1 = Set_wake"
proof -
  have v: "value_of sleeper_state = EV_BUSY" by (simp add: sleeper_state_def)
  have "es_pc sleeper_state 1 = Set_xchg" by (simp add: sleeper_state_def)
  then obtain s' where s': "ev_next (Run 1) sleeper_state = Some s'" "value_of s' = EV_SET" by (simp add: run_def qemu_event_set_def)
  from event_transitions [OF sleeper_reachable s'(1)] show ?thesis using s' v by auto
qed

text \<open>C18: No wake-up is lost. From every reachable state a call of \<open>qemu_event_set\<close> runs to its end in at most three steps of its own, and when it
  has ended no thread sleeps in \<open>qemu_event_wait\<close>, unless another thread is just about to wake all sleepers; that thread's next step
  does.\<close>

theorem event_set_wakes:
  assumes "ev_reachable init s" "es_pc s u \<in> {Idle, Wait_done}"
  shows "\<exists>n s'. n \<le> 3 \<and> ev_run (Call_set u # replicate n (Run u)) s = Some s' \<and> es_pc s' u = Idle
    \<and> ((\<forall>t. es_pc s' t \<noteq> Sleeping)
        \<or> (\<exists>w s''. es_pc s' w = Set_wake \<and> ev_next (Run w) s' = Some s'' \<and> (\<forall>t. es_pc s'' t \<noteq> Sleeping)))"
proof -
  have i: "ev_inv s" "ev_initialized (es_event s)" using ev_reachable_inv ev_reachable_initialized assms(1) by blast+
  have wakes: "\<exists>s''. ev_next (Run w) q = Some s'' \<and> (\<forall>t. es_pc s'' t \<noteq> Sleeping)" if "es_pc q w = Set_wake" for q w
    using that by (simp add: run_def qemu_event_set_def)
  have call: "ev_next (Call_set u) s = Some (goto u Set_read s)" using assms(2) i(2) by (simp add: call_def)
  have fin: ?thesis if "n \<le> 3" "ev_run (Call_set u # replicate n (Run u)) s = Some q" "es_pc q u = Idle" "sleepers_served (es_pc q)" for n q
    using that wakes unfolding sleepers_served_def by blast
  consider "value_of s = EV_SET" | "value_of s = EV_FREE" | "value_of s = EV_BUSY" using i(1) by (auto simp: ev_inv_def)
  then show ?thesis
  proof cases
    case 1
    let ?s = "goto u Idle s"
    have "ev_run (Call_set u # replicate 1 (Run u)) s = Some ?s" using call 1 by (simp add: run_def qemu_event_set_def goto_def)
    moreover have "sleepers_served (es_pc ?s)" using i(1) 1 assms(2) by (auto simp: ev_inv_def served_move)
    ultimately show ?thesis by (intro fin [of 1 ?s]) simp_all
  next
    case 2
    let ?s = "goto u Idle (set_value EV_SET s)"
    have "ev_run (Call_set u # replicate 2 (Run u)) s = Some ?s" using call 2
      by (simp add: run_def qemu_event_set_def goto_def set_value_def numeral_2_eq_2)
    moreover have "sleepers_served (es_pc ?s)" using i(1) 2 assms(2) by (auto simp: ev_inv_def served_move)
    ultimately show ?thesis by (intro fin [of 2 ?s]) simp_all
  next
    case 3
    let ?s = "goto u Idle (qemu_futex_wake (goto u Set_wake (set_value EV_SET s)))"
    have "ev_run (Call_set u # replicate 3 (Run u)) s = Some ?s" using call 3
      by (simp add: run_def qemu_event_set_def goto_def set_value_def numeral_3_eq_3)
    moreover have "sleepers_served (es_pc ?s)" by (simp only: goto_simps(2) served_none)
    ultimately show ?thesis by (intro fin [of 3 ?s]) simp_all
  qed
qed

theorem event_set_wakes_witness:
  "\<exists>n s'. n \<le> 3 \<and> ev_run (Call_set 2 # replicate n (Run 2)) sleeper_state = Some s' \<and> es_pc sleeper_state 0 = Sleeping
    \<and> (es_pc s' 0 \<noteq> Sleeping \<or> (\<exists>w. es_pc s' w = Set_wake))"
proof -
  have "es_pc sleeper_state 2 \<in> {Idle, Wait_done}" "es_pc sleeper_state 0 = Sleeping" by (simp_all add: sleeper_state_def ev_start_def)
  then show ?thesis using event_set_wakes [OF sleeper_reachable] by blast
qed

text \<open>\<open>qemu_event_wait\<close> can return although the event was never set: it does not look at the word again after the futex, or the condition
  variable, woke it, and both may wake a thread by themselves.\<close>

theorem event_wait_spurious:
  "\<exists>s. ev_run [Call_wait 0, Run 0, Run 0, Run 0, Spurious 0] (ev_start False) = Some s \<and> es_pc s 0 = Wait_done \<and> value_of s = EV_BUSY"
  by (simp add: ev_eval goto_def set_value_def)

section \<open>Semaphores never lose a wake-up\<close>

definition signalled :: "nat \<Rightarrow> (nat \<Rightarrow> sem_pc) \<Rightarrow> nat set" where
  "signalled n pcs = {t. t < n \<and> pcs t = Signalled}"

definition sem_inv :: "nat \<Rightarrow> QemuSemaphore \<Rightarrow> bool" where
  "sem_inv n s \<longleftrightarrow> unat (sem_count s) \<le> card (signalled n (sem_pc s)) \<or> (\<forall>t<n. sem_pc s t \<noteq> Blocked)"

lemma finite_signalled [simp]: "finite (signalled n pcs)"
  by (simp add: signalled_def)

lemma signalled_upd:
  "t < n \<Longrightarrow> signalled n (pcs(t := Signalled)) = insert t (signalled n pcs)"
  "pc \<noteq> Signalled \<Longrightarrow> signalled n (pcs(t := pc)) = signalled n pcs - {t}"
  by (auto simp: signalled_def)

lemma unat_succ:
  assumes "w \<noteq> (- 1 :: u32)"
  shows "unat (w + 1) = Suc (unat w)"
proof -
  have "unat w \<noteq> unat (- 1 :: u32)" using assms by (simp add: word_unat_eq_iff)
  moreover have "unat (- 1 :: u32) = 4294967295" by (simp add: unsigned_minus_1_eq_mask mask_eq_exp_minus_1)
  moreover have "unat w < 4294967296" using unsigned_less [of w, where ?'a = nat] by simp
  ultimately have "Suc (unat w) < 4294967296" by linarith
  then show ?thesis by (simp add: unat_word_ariths)
qed

lemma unat_pred: "w \<noteq> (0 :: u32) \<Longrightarrow> unat (w - 1) = unat w - 1 \<and> 0 < unat w"
  by (simp add: unat_minus_one unat_gt_0)

lemma sem_try_inv:
  assumes "sem_inv n s" "t < n" "sem_pc s t \<noteq> Blocked"
  shows "sem_inv n (sem_try t s)"
proof (cases "sem_count s = 0")
  case True
  then show ?thesis by (simp add: sem_try_def sem_goto_def sem_inv_def)
next
  case False
  have c: "card (signalled n (sem_pc s)) - 1 \<le> card (signalled n (sem_pc s) - {t})" by (simp add: card_Diff_singleton_if)
  have p: "sem_pc (sem_try t s) = (sem_pc s)(t := Acquired)" "sem_count (sem_try t s) = sem_count s - 1" using False by (simp_all add: sem_try_def sem_goto_def)
  have "unat (sem_count s - 1) \<le> card (signalled n (sem_pc s) - {t}) \<or> (\<forall>u<n. ((sem_pc s)(t := Acquired)) u \<noteq> Blocked)"
  proof (cases "\<forall>u<n. sem_pc s u \<noteq> Blocked")
    case True
    then show ?thesis by simp
  next
    case f: False
    then have "unat (sem_count s) \<le> card (signalled n (sem_pc s))" using assms(1) unfolding sem_inv_def by blast
    then have "unat (sem_count s - 1) \<le> card (signalled n (sem_pc s) - {t})" using unat_pred [OF False] c by linarith
    then show ?thesis by simp
  qed
  then show ?thesis unfolding sem_inv_def p by (simp add: signalled_upd)
qed

lemma sem_step_inv:
  assumes "sem_step n s s'" "sem_inv n s"
  shows "sem_inv n s'"
  using assms
proof cases
  case (post t w)
  show ?thesis
  proof (cases w)
    case None
    then have "sem_pc s' = sem_pc s" using post by (auto simp: qemu_sem_post_def Let_def split: if_splits)
    then show ?thesis using post None by (simp add: sem_inv_def)
  next
    case (Some u)
    then have u: "u < n" "sem_pc s u = Blocked" "sem_count s \<noteq> - 1" "s' = sem_goto u Signalled (s\<lparr>sem_count := sem_count s + 1\<rparr>)"
      using post by (simp_all add: qemu_sem_post_def Let_def split: if_splits)
    then have "u \<notin> signalled n (sem_pc s)" "unat (sem_count s) \<le> card (signalled n (sem_pc s))" using assms(2) by (auto simp: signalled_def sem_inv_def)
    then show ?thesis using u by (simp add: sem_inv_def sem_goto_def signalled_upd unat_succ)
  qed
next
  case (wait t)
  then show ?thesis using sem_try_inv [OF assms(2)] by (auto simp: qemu_sem_wait_def split: if_splits)
next
  case (retry t)
  then show ?thesis using sem_try_inv [OF assms(2)] by simp
next
  case (spurious t)
  then have "t \<notin> signalled n (sem_pc s)" "unat (sem_count s) \<le> card (signalled n (sem_pc s))" using assms(2) by (auto simp: signalled_def sem_inv_def)
  then show ?thesis using spurious by (simp add: sem_inv_def sem_goto_def signalled_upd)
next
  case (timeout t)
  then have "t \<notin> signalled n (sem_pc s)" "unat (sem_count s) \<le> card (signalled n (sem_pc s))" using assms(2) by (auto simp: signalled_def sem_inv_def)
  then show ?thesis using timeout by (simp add: sem_inv_def sem_timeout_def sem_goto_def signalled_upd)
qed

lemma sem_reachable_inv: "(sem_step n)\<^sup>*\<^sup>* s0 s \<Longrightarrow> qemu_sem_init init = Inr s0 \<Longrightarrow> sem_inv n s"
proof (induction rule: rtranclp_induct)
  case base
  then show ?case by (auto simp: qemu_sem_init_def sem_inv_def split: if_splits)
next
  case (step s s')
  then show ?case using sem_step_inv by blast
qed


text \<open>Three threads: two block, a post wakes one of them.\<close>

definition posted_sem :: QemuSemaphore where
  "posted_sem = \<lparr>sem_count = 1, sem_initialized = True, sem_pc = (\<lambda>_. Outside)(0 := Blocked, 1 := Signalled)\<rparr>"


section \<open>Deadlines and masks\<close>

text \<open>A deadline is a proper \<open>timespec\<close>: for a wait of 0 ms or more the nanoseconds lie in the second and the deadline is exactly the time of day
  plus the wait. For a negative wait at the beginning of a second the nanoseconds are negative, which
  \<open>pthread_cond_timedwait\<close> refuses, so that \<open>qemu_sem_timedwait\<close> aborts.\<close>

theorem deadline_exact:
  assumes "0 \<le> usec" "usec < 1000000"
  shows "(0 \<le> ms \<longrightarrow> 0 \<le> snd (compute_abs_deadline sec usec ms) \<and> snd (compute_abs_deadline sec usec ms) < 1000000000)
    \<and> fst (compute_abs_deadline sec usec ms) * 1000000000 + snd (compute_abs_deadline sec usec ms) = sec * 1000000000 + usec * 1000 + ms * 1000000
    \<and> (- 1000 < ms \<and> ms < 0 \<and> usec < - ms * 1000 \<longrightarrow> snd (compute_abs_deadline sec usec ms) < 0)"
proof (intro conjI impI)
  assume ms: "0 \<le> ms"
  have "0 \<le> ms mod 1000" "ms mod 1000 < 1000" by simp_all
  then show "0 \<le> snd (compute_abs_deadline sec usec ms)" "snd (compute_abs_deadline sec usec ms) < 1000000000"
    using assms ms by (auto simp: compute_abs_deadline_def Let_def c_mod_nonneg)
next
  show "fst (compute_abs_deadline sec usec ms) * 1000000000 + snd (compute_abs_deadline sec usec ms) = sec * 1000000000 + usec * 1000 + ms * 1000000"
    by (simp add: compute_abs_deadline_def Let_def c_mod_def algebra_simps)
next
  assume "- 1000 < ms \<and> ms < 0 \<and> usec < - ms * 1000"
  then show "snd (compute_abs_deadline sec usec ms) < 0" using assms by (simp add: compute_abs_deadline_def c_mod_def c_div_def)
qed

theorem deadline_exact_witness:
  "compute_abs_deadline 7 999999 1500 = (9, 499999000) \<and> snd (compute_abs_deadline 7 0 (- 1)) < 0"
  using deadline_exact [of 999999 1500 7] deadline_exact [of 0 "- 1" 7] by (simp add: compute_abs_deadline_def c_mod_def c_div_def)

text \<open>A thread that QEMU creates takes the write faults on an image: SIGSEGV, on which copy-on-write rests, is not blocked in it, every other signal
  is, and the mask of the thread that created it is what it was.\<close>

lemma thread_takes_write_faults:
  "case qemu_thread_create sigs attr_err err oldset of
     Inr (child, caller) \<Rightarrow> SIGSEGV \<notin> child \<and> (\<forall>g\<in>sigs. g \<noteq> SIGSEGV \<longrightarrow> g \<in> child) \<and> caller = oldset \<and> attr_err = 0 \<and> err = 0
   | Inl e \<Rightarrow> attr_err \<noteq> 0 \<or> err \<noteq> 0"
  by (simp add: qemu_thread_create_def Let_def)

end
