(* ===== verification/Numa.thy ===== *)
theory Numa
  imports Address_Space Ram_Backend
begin

text \<open>
  NUMA configuration and the system memory of a machine (\<open>qemu-diff/numa.c\<close>): parsing the nodes and distances of \<open>-numa\<close>, completing
  them, dividing the RAM between nodes, and building the region of the system memory from the backends of the nodes or from \<open>-mem-path\<close>.

  An error that is reported to the caller (\<open>error_setg\<close>) is a value of \<open>numa_error\<close>, beside the state as it is then; \<open>exit\<close> is
  \<open>Exit_failure\<close>. Parts of QEMU that are not in the repository are fields of \<open>machine\<close>: the limit \<open>MAX_NODES\<close>, the number of CPUs,
  whether a CPU can be given to a node (\<open>machine_set_cpu_numa_node\<close>), and the memory backend and size behind a name.
\<close>

section \<open>State\<close>

datatype assign_policy = Legacy_assign | Default_assign

record machine =
  mc_max_nodes :: nat
  mc_numa_supported :: bool
  mc_max_cpus :: int
  mc_set_cpu :: "int \<Rightarrow> int \<Rightarrow> bool"
  mc_backend :: "string \<Rightarrow> (nat \<times> int) option"
  mc_align_shift :: nat
  mc_assign :: "assign_policy option"
  mc_auto_enable :: bool
  ms_ram_slots :: int
  ms_ram_size :: int

record NodeInfo =
  node_mem :: int
  node_memdev :: "nat option"
  node_present :: bool
  node_distance :: "nat \<Rightarrow> int"

record numa_state =
  nb_numa_nodes :: nat
  have_memdevs :: "bool option"
  max_numa_nodeid :: nat
  have_numa_distance :: bool
  numa_info :: "nat \<Rightarrow> NodeInfo"
  numa_cpus :: "(int \<times> int) list"

datatype numa_error = Too_many_nodes | Duplicate_node | Cpu_index_too_large | Mem_and_memdev | Memdev_for_some | Memdev_ambiguous
  | Dist_out_of_range | Dist_node_missing | Dist_too_small | Dist_local | No_node_id | Invalid_node_id | Set_cpu_failed | Not_preconfig

record NumaNodeOptions =
  no_nodeid :: "int option"
  no_cpus :: "int list"
  no_mem :: "int option"
  no_memdev :: "string option"

record NumaDistOptions =
  di_src :: int
  di_dst :: int
  di_val :: int

record NumaCpuOptions =
  cp_node_id :: "int option"
  cp_cpu :: int

datatype NumaOptions = NUMA_OPTIONS_TYPE_NODE NumaNodeOptions | NUMA_OPTIONS_TYPE_DIST NumaDistOptions | NUMA_OPTIONS_TYPE_CPU NumaCpuOptions

definition NUMA_DISTANCE_MIN :: int where "NUMA_DISTANCE_MIN = 10"

definition upd_node :: "nat \<Rightarrow> (NodeInfo \<Rightarrow> NodeInfo) \<Rightarrow> numa_state \<Rightarrow> numa_state" where
  "upd_node i f st = st\<lparr>numa_info := (numa_info st)(i := f (numa_info st i))\<rparr>"

text \<open>The static variables at the start of the program.\<close>

definition no_node :: NodeInfo where
  "no_node = \<lparr>node_mem = 0, node_memdev = None, node_present = False, node_distance = (\<lambda>_. 0)\<rparr>"

definition numa_start :: numa_state where
  "numa_start = \<lparr>nb_numa_nodes = 0, have_memdevs = None, max_numa_nodeid = 0, have_numa_distance = False, numa_info = (\<lambda>_. no_node), numa_cpus = []\<rparr>"

section \<open>Parsing\<close>

text \<open>Giving the CPUs of a node to it. A failure of \<open>machine_set_cpu_numa_node\<close> is fatal here.\<close>

fun set_cpus :: "machine \<Rightarrow> int \<Rightarrow> int list \<Rightarrow> numa_state \<Rightarrow> (numa_error option \<times> numa_state) res" where
  "set_cpus mc nodenr [] st = Inr (None, st)"
| "set_cpus mc nodenr (c # cs) st =
     (if c \<ge> mc_max_cpus mc then Inr (Some Cpu_index_too_large, st)
      else if mc_set_cpu mc c nodenr then set_cpus mc nodenr cs (st\<lparr>numa_cpus := numa_cpus st @ [(c, nodenr)]\<rparr>)
      else Inl Exit_failure)"

text \<open>The part of \<open>parse_numa_node\<close> after the CPUs.\<close>

definition node_memory :: "machine \<Rightarrow> NumaNodeOptions \<Rightarrow> nat \<Rightarrow> numa_state \<Rightarrow> numa_error option \<times> numa_state" where
  "node_memory mc node nodenr st =
     (if no_mem node \<noteq> None \<and> no_memdev node \<noteq> None then (Some Mem_and_memdev, st)
      else let has = (no_memdev node \<noteq> None); hm = (case have_memdevs st of None \<Rightarrow> has | Some b \<Rightarrow> b); st1 = st\<lparr>have_memdevs := Some hm\<rparr>;
          present = (\<lambda>st. st\<lparr>numa_info := (numa_info st)(nodenr := (numa_info st nodenr)\<lparr>node_present := True\<rparr>),
                          max_numa_nodeid := max (max_numa_nodeid st) (nodenr + 1), nb_numa_nodes := nb_numa_nodes st + 1\<rparr>)
        in if has \<noteq> hm then (Some Memdev_for_some, st1)
           else let st2 = (case no_mem node of None \<Rightarrow> st1 | Some m \<Rightarrow> upd_node nodenr (\<lambda>n. n\<lparr>node_mem := m\<rparr>) st1)
             in case no_memdev node of
                  None \<Rightarrow> (None, present st2)
                | Some name \<Rightarrow>
                   (case mc_backend mc name of
                      None \<Rightarrow> (Some Memdev_ambiguous, st2)
                    | Some (o', size') \<Rightarrow> (None, present (upd_node nodenr (\<lambda>n. n\<lparr>node_mem := size', node_memdev := Some o'\<rparr>) st2))))"

definition parse_numa_node :: "machine \<Rightarrow> NumaNodeOptions \<Rightarrow> numa_state \<Rightarrow> (numa_error option \<times> numa_state) res" where
  "parse_numa_node mc node st =
     (let nodenr = (case no_nodeid node of Some i \<Rightarrow> i | None \<Rightarrow> int (nb_numa_nodes st) mod 65536) in
      if nodenr \<ge> int (mc_max_nodes mc) then Inr (Some Too_many_nodes, st)
      else if node_present (numa_info st (nat nodenr)) then Inr (Some Duplicate_node, st)
      else if \<not> mc_numa_supported mc then Inl Exit_failure
      else res_bind (set_cpus mc nodenr (no_cpus node) st) (\<lambda>(e, st1).
             case e of Some err \<Rightarrow> Inr (Some err, st1) | None \<Rightarrow> Inr (node_memory mc node (nat nodenr) st1)))"

definition parse_numa_distance :: "machine \<Rightarrow> NumaDistOptions \<Rightarrow> numa_state \<Rightarrow> numa_error option \<times> numa_state" where
  "parse_numa_distance mc dist st =
     (let src = di_src dist; dst = di_dst dist; val = di_val dist in
      if src \<ge> int (mc_max_nodes mc) \<or> dst \<ge> int (mc_max_nodes mc) then (Some Dist_out_of_range, st)
      else if \<not> node_present (numa_info st (nat src)) \<or> \<not> node_present (numa_info st (nat dst)) then (Some Dist_node_missing, st)
      else if val < NUMA_DISTANCE_MIN then (Some Dist_too_small, st)
      else if src = dst \<and> val \<noteq> NUMA_DISTANCE_MIN then (Some Dist_local, st)
      else (None, (upd_node (nat src) (\<lambda>n. n\<lparr>node_distance := (node_distance n)(nat dst := val)\<rparr>) st)\<lparr>have_numa_distance := True\<rparr>))"

text \<open>The node of \<open>-numa cpu\<close> is a signed 64-bit number that indexes the array as it is.\<close>

definition set_numa_options :: "machine \<Rightarrow> NumaOptions \<Rightarrow> numa_state \<Rightarrow> (numa_error option \<times> numa_state) res" where
  "set_numa_options mc opt st =
     (case opt of
        NUMA_OPTIONS_TYPE_NODE node \<Rightarrow> parse_numa_node mc node st
      | NUMA_OPTIONS_TYPE_DIST dist \<Rightarrow> Inr (parse_numa_distance mc dist st)
      | NUMA_OPTIONS_TYPE_CPU cpu \<Rightarrow>
         (case cp_node_id cpu of
            None \<Rightarrow> Inr (Some No_node_id, st)
          | Some i \<Rightarrow>
              if i < 0 \<or> i \<ge> int (mc_max_nodes mc) then Inl Undefined
              else if \<not> node_present (numa_info st (nat i)) then Inr (Some Invalid_node_id, st)
              else if mc_set_cpu mc (cp_cpu cpu) i then Inr (None, st\<lparr>numa_cpus := numa_cpus st @ [(cp_cpu cpu, i)]\<rparr>)
              else Inr (Some Set_cpu_failed, st)))"

text \<open>\<open>parse_numa_opts\<close>: the first option that reports an error ends the program.\<close>

fun parse_numa_opts :: "machine \<Rightarrow> NumaOptions list \<Rightarrow> numa_state \<Rightarrow> numa_state res" where
  "parse_numa_opts mc [] st = Inr st"
| "parse_numa_opts mc (opt # opts) st =
     res_bind (set_numa_options mc opt st) (\<lambda>(e, st1). case e of None \<Rightarrow> parse_numa_opts mc opts st1 | Some _ \<Rightarrow> Inl Exit_failure)"

definition qmp_set_numa_node :: "bool \<Rightarrow> machine \<Rightarrow> NumaOptions \<Rightarrow> numa_state \<Rightarrow> (numa_error option \<times> numa_state) res" where
  "qmp_set_numa_node preconfig mc cmd st = (if \<not> preconfig then Inr (Some Not_preconfig, st) else set_numa_options mc cmd st)"

section \<open>Distances\<close>

abbreviation dist :: "(nat \<Rightarrow> NodeInfo) \<Rightarrow> nat \<Rightarrow> nat \<Rightarrow> int" where
  "dist info i j \<equiv> node_distance (info i) j"

definition pair_missing :: "(nat \<Rightarrow> NodeInfo) \<Rightarrow> nat \<times> nat \<Rightarrow> bool" where
  "pair_missing info p = (case p of (src, dst) \<Rightarrow> dist info src dst = 0 \<and> dist info dst src = 0 \<and> src \<noteq> dst)"

definition pair_asymmetrical :: "(nat \<Rightarrow> NodeInfo) \<Rightarrow> nat \<times> nat \<Rightarrow> bool" where
  "pair_asymmetrical info p =
     (case p of (src, dst) \<Rightarrow> dist info src dst \<noteq> 0 \<and> dist info dst src \<noteq> 0 \<and> dist info src dst \<noteq> dist info dst src)"

text \<open>The first loop: \<open>None\<close> when a pair of nodes has no distance, else whether a pair is asymmetrical.\<close>

fun check_pairs :: "(nat \<Rightarrow> NodeInfo) \<Rightarrow> (nat \<times> nat) list \<Rightarrow> bool \<Rightarrow> bool option" where
  "check_pairs info [] is_asym = Some is_asym"
| "check_pairs info (p # ps) is_asym = (if pair_missing info p then None else check_pairs info ps (is_asym \<or> pair_asymmetrical info p))"

definition validate_numa_distance :: "nat \<Rightarrow> (nat \<Rightarrow> NodeInfo) \<Rightarrow> unit res" where
  "validate_numa_distance nb info =
     (case check_pairs info [(src, dst). src \<leftarrow> [0..<nb], dst \<leftarrow> [src..<nb]] False of
        None \<Rightarrow> Inl Exit_failure
      | Some is_asym \<Rightarrow>
          if is_asym \<and> list_ex (\<lambda>(src, dst). src \<noteq> dst \<and> dist info src dst = 0) [(src, dst). src \<leftarrow> [0..<nb], dst \<leftarrow> [0..<nb]]
          then Inl Exit_failure else Inr ())"

definition fill_distance :: "nat \<times> nat \<Rightarrow> (nat \<Rightarrow> NodeInfo) \<Rightarrow> nat \<Rightarrow> NodeInfo" where
  "fill_distance p info =
     (case p of (src, dst) \<Rightarrow>
        if dist info src dst = 0
        then info(src := (info src)\<lparr>node_distance := (node_distance (info src))(dst := (if src = dst then NUMA_DISTANCE_MIN else dist info dst src))\<rparr>)
        else info)"

definition complete_init_numa_distance :: "nat \<Rightarrow> (nat \<Rightarrow> NodeInfo) \<Rightarrow> nat \<Rightarrow> NodeInfo" where
  "complete_init_numa_distance nb info = fold fill_distance [(src, dst). src \<leftarrow> [0..<nb], dst \<leftarrow> [0..<nb]] info"

section \<open>Dividing the RAM\<close>

text \<open>\<open>x & ~((1 << shift) - 1)\<close>, for a shift below 31: the mask is an \<open>int\<close> whose sign extends to the 64 bits of \<open>x\<close>.\<close>

definition align_down :: "nat \<Rightarrow> int \<Rightarrow> int" where
  "align_down shift x = x - x mod 2 ^ shift"

fun legacy_loop :: "nat \<Rightarrow> int \<Rightarrow> nat \<Rightarrow> nat \<Rightarrow> int \<Rightarrow> (nat \<Rightarrow> NodeInfo) \<Rightarrow> int \<times> (nat \<Rightarrow> NodeInfo)" where
  "legacy_loop shift share i 0 usedmem nodes = (usedmem, nodes)"
| "legacy_loop shift share i (Suc k) usedmem nodes =
     (let m = align_down shift share in legacy_loop shift share (Suc i) k (ulong (usedmem + m)) (nodes(i := (nodes i)\<lparr>node_mem := m\<rparr>)))"

definition numa_legacy_auto_assign_ram :: "nat \<Rightarrow> nat \<Rightarrow> int \<Rightarrow> (nat \<Rightarrow> NodeInfo) \<Rightarrow> nat \<Rightarrow> NodeInfo" where
  "numa_legacy_auto_assign_ram shift nb size' nodes =
     (let (usedmem, nodes1) = legacy_loop shift (size' div int nb) 0 (nb - 1) 0 nodes
      in nodes1(nb - 1 := (nodes1 (nb - 1))\<lparr>node_mem := ulong (size' - usedmem)\<rparr>))"

fun default_loop :: "nat \<Rightarrow> int \<Rightarrow> nat \<Rightarrow> nat \<Rightarrow> int \<Rightarrow> int \<Rightarrow> (nat \<Rightarrow> NodeInfo) \<Rightarrow> int \<times> (nat \<Rightarrow> NodeInfo)" where
  "default_loop shift granularity i 0 propagate usedmem nodes = (usedmem, nodes)"
| "default_loop shift granularity i (Suc k) propagate usedmem nodes =
     (let m = align_down shift (ulong (granularity + propagate))
      in default_loop shift granularity (Suc i) k (ulong (granularity + propagate - m)) (ulong (usedmem + m)) (nodes(i := (nodes i)\<lparr>node_mem := m\<rparr>)))"

definition numa_default_auto_assign_ram :: "nat \<Rightarrow> nat \<Rightarrow> int \<Rightarrow> (nat \<Rightarrow> NodeInfo) \<Rightarrow> nat \<Rightarrow> NodeInfo" where
  "numa_default_auto_assign_ram shift nb size' nodes =
     (let (usedmem, nodes1) = default_loop shift (size' div int nb) 0 (nb - 1) 0 0 nodes
      in nodes1(nb - 1 := (nodes1 (nb - 1))\<lparr>node_mem := ulong (size' - usedmem)\<rparr>))"

definition auto_assign :: "assign_policy \<Rightarrow> nat \<Rightarrow> nat \<Rightarrow> int \<Rightarrow> (nat \<Rightarrow> NodeInfo) \<Rightarrow> nat \<Rightarrow> NodeInfo" where
  "auto_assign pol = (case pol of Legacy_assign \<Rightarrow> numa_legacy_auto_assign_ram | Default_assign \<Rightarrow> numa_default_auto_assign_ram)"

section \<open>Completing the configuration\<close>

definition numa_total :: "nat \<Rightarrow> (nat \<Rightarrow> NodeInfo) \<Rightarrow> int" where
  "numa_total nb info = fold (\<lambda>i t. ulong (t + node_mem (info i))) [0..<nb] 0"

definition complete_nodes :: "machine \<Rightarrow> numa_state \<Rightarrow> numa_state res" where
  "complete_nodes mc st =
     (let nb = min (nb_numa_nodes st) (mc_max_nodes mc); info = numa_info st in
      res_bind (if list_all (\<lambda>i. node_mem (info i) = 0) [0..<nb]
                then (case mc_assign mc of None \<Rightarrow> Inl Assert_failed
                      | Some pol \<Rightarrow> Inr (auto_assign pol (mc_align_shift mc) nb (ms_ram_size mc) info))
                else Inr info) (\<lambda>info1.
        if numa_total nb info1 \<noteq> ms_ram_size mc then Inl Exit_failure
        else res_bind (if have_numa_distance st
                       then res_bind (validate_numa_distance nb info1) (\<lambda>_. Inr (complete_init_numa_distance nb info1))
                       else Inr info1) (\<lambda>info2. Inr (st\<lparr>nb_numa_nodes := nb, numa_info := info2\<rparr>))))"

text \<open>The node added for memory hotplug is parsed with no place for an error, which is then ignored.\<close>

definition numa_complete_configuration :: "machine \<Rightarrow> numa_state \<Rightarrow> numa_state res" where
  "numa_complete_configuration mc st =
     res_bind (if ms_ram_slots mc > 0 \<and> nb_numa_nodes st = 0 \<and> mc_auto_enable mc
               then res_bind (parse_numa_node mc \<lparr>no_nodeid = None, no_cpus = [], no_mem = None, no_memdev = None\<rparr> st) (\<lambda>(e, st1). Inr st1)
               else Inr st) (\<lambda>st1.
       if max_numa_nodeid st1 > mc_max_nodes mc then Inl Assert_failed
       else if list_ex (\<lambda>i. \<not> node_present (numa_info st1 i)) [0..<max_numa_nodeid st1] then Inl Exit_failure
       else if nb_numa_nodes st1 \<noteq> max_numa_nodeid st1 then Inl Assert_failed
       else if nb_numa_nodes st1 = 0 then Inr st1
       else complete_nodes mc st1)"

definition CPU_UNSET_NUMA_NODE_ID :: int where "CPU_UNSET_NUMA_NODE_ID = - 1"

text \<open>The node of a CPU that is plugged: the property \<open>node-id\<close> afterwards, or the error. \<open>slot\<close> is \<open>props.node_id\<close>, \<open>None\<close> without one (then the
  field is 0).\<close>

definition numa_cpu_pre_plug :: "int option \<Rightarrow> int \<Rightarrow> numa_error option \<times> int" where
  "numa_cpu_pre_plug slot node_id =
     (if node_id = CPU_UNSET_NUMA_NODE_ID then (None, case slot of Some i \<Rightarrow> i | None \<Rightarrow> node_id)
      else if node_id \<noteq> (case slot of Some i \<Rightarrow> i | None \<Rightarrow> 0) then (Some Invalid_node_id, node_id)
      else (None, node_id))"

section \<open>System memory\<close>

text \<open>The loop of \<open>memory_region_allocate_system_memory\<close>. \<open>seg\<close> gives the region of a backend. The state is that of the regions, with the backends that are
  marked as mapped; the name \<open>vmstate_register_ram_global\<close> gives the block of a region for migration is not part of it.\<close>

fun add_nodes :: "nat \<Rightarrow> (nat \<Rightarrow> nat) \<Rightarrow> nat \<Rightarrow> (nat \<Rightarrow> NodeInfo) \<Rightarrow> nat list \<Rightarrow> int \<Rightarrow> mem_state \<times> nat set \<Rightarrow> (mem_state \<times> nat set) res option" where
  "add_nodes fuel seg mr info [] a s = Some (Inr s)"
| "add_nodes fuel seg mr info (i # is) a s =
     (case node_memdev (info i) of
        None \<Rightarrow> add_nodes fuel seg mr info is a s
      | Some b \<Rightarrow>
          if memory_region_is_mapped (fst s) (seg b) then Some (Inl Exit_failure)
          else case memory_region_add_subregion fuel mr a (seg b) (fst s) of
                 None \<Rightarrow> None
               | Some (Inl e) \<Rightarrow> Some (Inl e)
               | Some (Inr m) \<Rightarrow> add_nodes fuel seg mr info is (ulong (a + node_mem (info i))) (m, insert b (snd s)))"

text \<open>Without nodes that have a backend: a file when \<open>mem_path\<close> is given, always taken as raw, else anonymous RAM. An error of the file is one
  that leaves no block; then QEMU ends if the memory must be preallocated, else falls back.\<close>

definition allocate_system_memory_nonnuma :: "kernel_env \<Rightarrow> bool \<Rightarrow> cstr option \<Rightarrow> nat \<Rightarrow> nat \<Rightarrow> nat option \<Rightarrow> int \<Rightarrow> open_reply list \<Rightarrow> cstr \<Rightarrow> ram_world
    \<Rightarrow> (block_ptr \<times> MemoryRegion \<times> ram_world) res option" where
  "allocate_system_memory_nonnuma ke mem_prealloc mem_path i mrn owner size' replies tmp w =
     (let plain = (\<lambda>w. res_bind (memory_region_init_ram_nomigrate ke i mrn owner size' w) (\<lambda>(b, mr, w1).
            if b = Null_block then Inl Exit_failure else Inr (b, mr, w1)))
      in case mem_path of
           None \<Rightarrow> Some (plain w)
         | Some path \<Rightarrow>
             map_option (\<lambda>r. res_bind r (\<lambda>(b, mr, w1).
                 if b = Null_block then if mem_prealloc then Inl Exit_failure else plain w1 else Inr (b, mr, w1)))
               (memory_region_init_ram_from_file ke i mrn owner size' 0 False path MEM_BACKEND_FORMAT_RAW replies tmp w))"

section \<open>Queries and notifiers\<close>

text \<open>Plugged memory devices are pairs of a node and a size; other devices are \<open>None\<close>. The result is \<open>node_mem\<close> and \<open>node_plugged_mem\<close> of each node.\<close>

definition stat_device :: "(nat \<times> int) option \<Rightarrow> (nat \<Rightarrow> int \<times> int) \<Rightarrow> nat \<Rightarrow> int \<times> int" where
  "stat_device d nm = (case d of None \<Rightarrow> nm | Some (node, n) \<Rightarrow> nm(node := (ulong (fst (nm node) + n), ulong (snd (nm node) + n))))"

definition numa_stat_memory_devices :: "(nat \<times> int) option list \<Rightarrow> (nat \<Rightarrow> int \<times> int) \<Rightarrow> nat \<Rightarrow> int \<times> int" where
  "numa_stat_memory_devices ds nm = fold stat_device ds nm"

definition query_numa_node_mem :: "(nat \<times> int) option list \<Rightarrow> numa_state \<Rightarrow> (nat \<Rightarrow> int \<times> int) \<Rightarrow> nat \<Rightarrow> int \<times> int" where
  "query_numa_node_mem ds st nm =
     (if nb_numa_nodes st = 0 then nm
      else fold (\<lambda>i nm. nm(i := (ulong (fst (nm i) + node_mem (numa_info st i)), snd (nm i)))) [0..<nb_numa_nodes st] (numa_stat_memory_devices ds nm))"

definition ram_block_notifier_add :: "nat \<Rightarrow> nat list \<Rightarrow> nat list" where
  "ram_block_notifier_add n ns = n # ns"

definition ram_block_notifier_remove :: "nat \<Rightarrow> nat list \<Rightarrow> nat list" where
  "ram_block_notifier_remove n ns = remove1 n ns"

definition ram_block_notify_add :: "nat list \<Rightarrow> int \<Rightarrow> int \<Rightarrow> (nat \<times> int \<times> int) list" where
  "ram_block_notify_add ns host n = map (\<lambda>k. (k, host, n)) ns"

definition ram_block_notify_remove :: "nat list \<Rightarrow> int \<Rightarrow> int \<Rightarrow> (nat \<times> int \<times> int) list" where
  "ram_block_notify_remove ns host n = map (\<lambda>k. (k, host, n)) ns"

section \<open>The RAM of the nodes\<close>

lemma align_down:
  "2 ^ shift dvd align_down shift x" "align_down shift x \<le> x" "x - 2 ^ shift < align_down shift x" "0 \<le> x \<Longrightarrow> 0 \<le> align_down shift x"
proof -
  have p: "0 < (2 :: int) ^ shift" by simp
  then have m: "0 \<le> x mod 2 ^ shift" "x mod 2 ^ shift < 2 ^ shift" by simp_all
  show "2 ^ shift dvd align_down shift x" by (simp add: align_down_def)
  show "align_down shift x \<le> x" "x - 2 ^ shift < align_down shift x" using m by (simp_all add: align_down_def)
  show "0 \<le> align_down shift x" if "0 \<le> x" using that p by (simp add: align_down_def zmod_le_nonneg_dividend)
qed

text \<open>The RAM of a row of nodes, and what both loops have in common: they give aligned shares, near the even one, to a row of nodes.\<close>

abbreviation row_mem :: "(nat \<Rightarrow> NodeInfo) \<Rightarrow> nat \<Rightarrow> nat \<Rightarrow> int" where
  "row_mem nodes i k \<equiv> (\<Sum>j<k. node_mem (nodes (i + j)))"

definition fair_share :: "nat \<Rightarrow> int \<Rightarrow> int \<Rightarrow> bool" where
  "fair_share shift share m \<longleftrightarrow> 2 ^ shift dvd m \<and> 0 \<le> m \<and> share - 2 ^ shift < m \<and> m < share + 2 ^ shift"

lemma row_mem_Suc: "row_mem nodes i (Suc k) = node_mem (nodes i) + row_mem nodes (Suc i) k"
  unfolding sum.lessThan_Suc_shift by simp

lemma legacy_loop_spec:
  assumes "0 \<le> share"
  shows "0 \<le> used \<Longrightarrow> used + int k * share < 18446744073709551616 \<Longrightarrow> legacy_loop shift share i k used nodes = (used', nodes')
    \<Longrightarrow> used' = used + row_mem nodes' i k \<and> used' \<le> used + int k * share \<and> (\<forall>j<k. fair_share shift share (node_mem (nodes' (i + j)))) \<and> (\<forall>j. j < i \<longrightarrow> nodes' j = nodes j)"
proof (induction k arbitrary: i used nodes)
  case 0
  then show ?case by simp
next
  case (Suc k)
  let ?m = "align_down shift share"
  note a = align_down [where shift = shift and x = share]
  have m: "0 \<le> ?m" "?m \<le> share" using a assms by simp_all
  have k: "int (Suc k) * share = share + int k * share" "0 \<le> int k * share" using assms by (simp_all add: algebra_simps)
  have h: "0 \<le> used + ?m" "used + ?m + int k * share < 18446744073709551616" using Suc.prems(1,2) m k by linarith+
  then have "used + ?m < 18446744073709551616" using k(2) by linarith
  then have u: "ulong (used + ?m) = used + ?m" using h(1) by (simp add: ulong_def)
  have r: "legacy_loop shift share (Suc i) k (used + ?m) (nodes(i := (nodes i)\<lparr>node_mem := ?m\<rparr>)) = (used', nodes')"
    using Suc.prems(3) u by (simp add: Let_def)
  have w: "used' = used + ?m + row_mem nodes' (Suc i) k" "used' \<le> used + ?m + int k * share" "\<forall>j<k. fair_share shift share (node_mem (nodes' (Suc i + j)))"
      "\<forall>j. j < Suc i \<longrightarrow> nodes' j = (nodes(i := (nodes i)\<lparr>node_mem := ?m\<rparr>)) j"
    using Suc.IH [OF h r] by simp_all
  have i: "node_mem (nodes' i) = ?m" using w(4) by simp
  have f: "fair_share shift share ?m" using a assms m by (simp add: fair_share_def)
  have "fair_share shift share (node_mem (nodes' (i + j)))" if "j < Suc k" for j
    using that w(3) f i by (cases j) auto
  moreover have "used' = used + row_mem nodes' i (Suc k)" using w(1) i unfolding row_mem_Suc by simp
  moreover have "used' \<le> used + int (Suc k) * share" using w(2) m(2) k by linarith
  ultimately show ?case using w(4) by auto
qed

lemma default_loop_spec:
  assumes "0 \<le> share"
  shows "0 \<le> used \<Longrightarrow> 0 \<le> pr \<Longrightarrow> pr < 2 ^ shift \<Longrightarrow> used + pr + int k * share < 18446744073709551616 \<Longrightarrow> default_loop shift share i k pr used nodes = (used', nodes')
    \<Longrightarrow> used' = used + row_mem nodes' i k \<and> used' \<le> used + pr + int k * share \<and> (\<forall>j<k. fair_share shift share (node_mem (nodes' (i + j)))) \<and> (\<forall>j. j < i \<longrightarrow> nodes' j = nodes j)"
proof (induction k arbitrary: i used pr nodes)
  case 0
  then show ?case by simp
next
  case (Suc k)
  let ?m = "align_down shift (share + pr)"
  note a = align_down [where shift = shift and x = "share + pr"]
  have m: "0 \<le> ?m" "?m \<le> share + pr" "share + pr - 2 ^ shift < ?m" using a assms Suc.prems(2) by simp_all
  have k: "int (Suc k) * share = share + int k * share" "0 \<le> int k * share" using assms by (simp_all add: algebra_simps)
  have lt: "share + pr < 18446744073709551616" "used + ?m < 18446744073709551616" using Suc.prems(1-4) assms m k by linarith+
  then have u: "ulong (used + ?m) = used + ?m" "ulong (share + pr) = share + pr" "ulong (share + pr - ?m) = share + pr - ?m"
    using Suc.prems(1,2) assms m by (simp_all add: ulong_def)
  have h: "0 \<le> used + ?m" "0 \<le> share + pr - ?m" "share + pr - ?m < 2 ^ shift" "used + ?m + (share + pr - ?m) + int k * share < 18446744073709551616"
    using Suc.prems(1,4) m k by linarith+
  have r: "default_loop shift share (Suc i) k (share + pr - ?m) (used + ?m) (nodes(i := (nodes i)\<lparr>node_mem := ?m\<rparr>)) = (used', nodes')"
    using Suc.prems(5) u by (simp add: Let_def)
  have w: "used' = used + ?m + row_mem nodes' (Suc i) k" "used' \<le> used + ?m + (share + pr - ?m) + int k * share" "\<forall>j<k. fair_share shift share (node_mem (nodes' (Suc i + j)))"
      "\<forall>j. j < Suc i \<longrightarrow> nodes' j = (nodes(i := (nodes i)\<lparr>node_mem := ?m\<rparr>)) j"
    using Suc.IH [OF h r] by simp_all
  have i: "node_mem (nodes' i) = ?m" using w(4) by simp
  have f: "fair_share shift share ?m" using a m Suc.prems(2,3) by (simp add: fair_share_def)
  have "fair_share shift share (node_mem (nodes' (i + j)))" if "j < Suc k" for j
    using that w(3) f i by (cases j) auto
  moreover have "used' = used + row_mem nodes' i (Suc k)" using w(1) i unfolding row_mem_Suc by simp
  moreover have "used' \<le> used + pr + int (Suc k) * share" using w(2) m(2) k by linarith
  ultimately show ?case using w(4) by auto
qed

text \<open>Dividing the RAM between the nodes loses nothing: with both policies the shares add up to the size of the RAM, every node but the last gets a
  multiple of the alignment of the machine that is within one alignment unit of an even share, and the last one gets at least an even share
  (for an alignment below two to the 31, as \<open>1 << shift\<close> is an \<open>int\<close>).\<close>

theorem ram_divided:
  assumes "0 < nb" "0 \<le> size'" "size' < 18446744073709551616" "shift < 31"
  shows "let nodes' = auto_assign pol shift nb size' nodes; share = size' div int nb
    in (\<Sum>i<nb. node_mem (nodes' i)) = size' \<and> (\<forall>i<nb - 1. fair_share shift share (node_mem (nodes' i))) \<and> share \<le> node_mem (nodes' (nb - 1))"
proof -
  let ?share = "size' div int nb"
  have s0: "0 \<le> ?share" using assms by (simp add: pos_imp_zdiv_nonneg_iff)
  have "int nb * ?share + size' mod int nb = size'" "0 \<le> size' mod int nb" using assms(1) by simp_all
  moreover have "int nb * ?share = int (nb - 1) * ?share + ?share" using assms(1) by (simp add: of_nat_diff algebra_simps)
  ultimately have s: "int (nb - 1) * ?share + ?share \<le> size'" by linarith
  obtain used n1 where l: "(case pol of Legacy_assign \<Rightarrow> legacy_loop shift ?share 0 (nb - 1) 0 nodes | Default_assign \<Rightarrow> default_loop shift ?share 0 (nb - 1) 0 0 nodes) = (used, n1)"
    by (meson surj_pair)
  have w: "used = row_mem n1 0 (nb - 1) \<and> used \<le> int (nb - 1) * ?share \<and> (\<forall>j<nb - 1. fair_share shift ?share (node_mem (n1 (0 + j))))"
    using legacy_loop_spec [OF s0, of 0 "nb - 1" shift 0 nodes used n1] default_loop_spec [OF s0, of 0 0 shift "nb - 1" 0 nodes used n1] l s s0 assms(3)
    by (cases pol) simp_all
  have nn: "auto_assign pol shift nb size' nodes = n1(nb - 1 := (n1 (nb - 1))\<lparr>node_mem := ulong (size' - used)\<rparr>)"
    using l by (cases pol) (simp_all add: auto_assign_def numa_legacy_auto_assign_ram_def numa_default_auto_assign_ram_def)
  have "0 \<le> used" using w unfolding fair_share_def by (auto intro!: sum_nonneg)
  then have u: "ulong (size' - used) = size' - used" using w s s0 assms(3) by (simp add: ulong_def)
  obtain k where k: "nb = Suc k" using assms(1) by (cases nb) auto
  show ?thesis unfolding nn Let_def using w u s k by simp
qed

theorem ram_divided_witness:
  "(\<Sum>i<3. node_mem (auto_assign Default_assign 20 3 1073741824 (\<lambda>_. no_node) i)) = 1073741824"
  using ram_divided [of 3 1073741824 20 Default_assign "\<lambda>_. no_node"] by (simp add: Let_def)

section \<open>The distances\<close>

lemma check_pairs_iff:
  "check_pairs info ps a = Some b \<longleftrightarrow> (\<forall>p\<in>set ps. \<not> pair_missing info p) \<and> b = (a \<or> (\<exists>p\<in>set ps. pair_asymmetrical info p))"
  by (induction ps arbitrary: a) auto

lemma all_pairs: "set [(src, dst). src \<leftarrow> [0..<nb], dst \<leftarrow> [0..<nb]] = {(i, j). i < nb \<and> j < nb}"
  by auto

lemma set_half: "set [(src, dst). src \<leftarrow> [0..<nb], dst \<leftarrow> [src..<nb]] = {(i, j). i \<le> j \<and> j < nb}"
  by force

lemma half_pairs:
  assumes "\<And>i j. P (i, j) \<longleftrightarrow> P (j, i)"
  shows "(\<exists>p\<in>set [(src, dst). src \<leftarrow> [0..<nb], dst \<leftarrow> [src..<nb]]. P p) \<longleftrightarrow> (\<exists>i<nb. \<exists>j<nb. P (i, j))" (is "?l \<longleftrightarrow> ?r")
proof
  assume ?r
  then obtain i j where "i < nb" "j < nb" "P (i, j)" by blast
  then have "P (min i j, max i j)" using assms [of i j] by (cases "i \<le> j") (simp_all add: min_def max_def)
  moreover have "(min i j, max i j) \<in> set [(src, dst). src \<leftarrow> [0..<nb], dst \<leftarrow> [src..<nb]]" unfolding set_half using \<open>i < nb\<close> \<open>j < nb\<close> by simp
  ultimately show ?l by blast
next
  assume ?l
  then show ?r unfolding set_half using le_less_trans by blast
qed

lemma validate_iff:
  "validate_numa_distance nb info = Inr () \<longleftrightarrow> (\<forall>i<nb. \<forall>j<nb. i \<noteq> j \<longrightarrow> dist info i j \<noteq> 0 \<or> dist info j i \<noteq> 0)
    \<and> ((\<exists>i<nb. \<exists>j<nb. dist info i j \<noteq> 0 \<and> dist info j i \<noteq> 0 \<and> dist info i j \<noteq> dist info j i) \<longrightarrow> (\<forall>i<nb. \<forall>j<nb. i \<noteq> j \<longrightarrow> dist info i j \<noteq> 0))"
proof -
  let ?h = "[(src, dst). src \<leftarrow> [0..<nb], dst \<leftarrow> [src..<nb]]" and ?z = "list_ex (\<lambda>(src, dst). src \<noteq> dst \<and> dist info src dst = 0) [(src, dst). src \<leftarrow> [0..<nb], dst \<leftarrow> [0..<nb]]"
  have m: "(\<exists>p\<in>set ?h. pair_missing info p) \<longleftrightarrow> (\<exists>i<nb. \<exists>j<nb. pair_missing info (i, j))" by (rule half_pairs) (auto simp: pair_missing_def)
  have a: "(\<exists>p\<in>set ?h. pair_asymmetrical info p) \<longleftrightarrow> (\<exists>i<nb. \<exists>j<nb. pair_asymmetrical info (i, j))" by (rule half_pairs) (auto simp: pair_asymmetrical_def)
  have z: "?z \<longleftrightarrow> (\<exists>i<nb. \<exists>j<nb. i \<noteq> j \<and> dist info i j = 0)" unfolding list_ex_iff all_pairs by auto
  have "validate_numa_distance nb info = Inr () \<longleftrightarrow> (\<exists>b. check_pairs info ?h False = Some b \<and> \<not> (b \<and> ?z))"
    unfolding validate_numa_distance_def by (simp split: option.split)
  also have "\<dots> \<longleftrightarrow> \<not> (\<exists>p\<in>set ?h. pair_missing info p) \<and> \<not> ((\<exists>p\<in>set ?h. pair_asymmetrical info p) \<and> ?z)"
    unfolding check_pairs_iff by blast
  finally show ?thesis unfolding m a z by (auto simp: pair_missing_def pair_asymmetrical_def)
qed

definition completed :: "(nat \<Rightarrow> NodeInfo) \<Rightarrow> nat \<Rightarrow> nat \<Rightarrow> int" where
  "completed info i j = (if dist info i j \<noteq> 0 then dist info i j else if i = j then NUMA_DISTANCE_MIN else dist info j i)"

text \<open>Filling in place: what is read was given, so it was not filled in before.\<close>

lemma fill_fold:
  assumes "\<And>i j. (i, j) \<in> set ps \<Longrightarrow> i \<noteq> j \<Longrightarrow> dist info i j \<noteq> 0 \<or> dist info j i \<noteq> 0"
  shows "dist (fold fill_distance ps info) i j = (if (i, j) \<in> set ps then completed info i j else dist info i j)"
  using assms
proof (induction ps arbitrary: i j rule: rev_induct)
  case (snoc p ps)
  obtain a b where p: "p = (a, b)" by (cases p)
  let ?f = "fold fill_distance ps info"
  have ih: "dist ?f i j = (if (i, j) \<in> set ps then completed info i j else dist info i j)" for i j using snoc.IH snoc.prems by simp
  have c: "completed info a b \<noteq> 0" using snoc.prems [of a b] p by (auto simp: completed_def NUMA_DISTANCE_MIN_def)
  have "dist (fill_distance (a, b) ?f) i j = (if (i, j) = (a, b) then completed info a b else dist ?f i j)"
  proof (cases "dist ?f a b = 0")
    case True
    then have z: "(a, b) \<notin> set ps" "dist info a b = 0" using ih [of a b] c by (auto split: if_splits)
    then have "a \<noteq> b \<Longrightarrow> dist ?f b a = dist info b a" using ih [of b a] snoc.prems [of a b] p by (auto simp: completed_def)
    then show ?thesis using True z(2) by (auto simp: fill_distance_def completed_def)
  next
    case False
    then have "dist ?f a b = completed info a b" using ih [of a b] by (auto simp: completed_def split: if_splits)
    then show ?thesis using False by (auto simp: fill_distance_def)
  qed
  then show ?case using ih by (auto simp: p)
qed simp

text \<open>The distances of nodes are checked and completed as the comments say. The check passes exactly when every pair of different nodes has a
  distance in one direction at least and, if some pair has two different ones, all pairs have both. Then the completed table has
  no gap: a distance that was given stays, that of a node to itself is 10, and a missing one is the distance the other way; a table
  without an asymmetrical pair becomes symmetric.\<close>

theorem distances_completed:
  assumes "validate_numa_distance nb info = Inr ()" "\<forall>i<nb. dist info i i = 0 \<or> dist info i i = NUMA_DISTANCE_MIN"
  shows "(\<forall>i<nb. \<forall>j<nb. let d = dist (complete_init_numa_distance nb info) in d i j \<noteq> 0 \<and> d i i = 10 \<and> (dist info i j \<noteq> 0 \<longrightarrow> d i j = dist info i j)
      \<and> (dist info i j = 0 \<and> i \<noteq> j \<longrightarrow> d i j = dist info j i))
    \<and> ((\<forall>i<nb. \<forall>j<nb. dist info i j = 0 \<or> dist info j i = 0 \<or> dist info i j = dist info j i)
        \<longrightarrow> (\<forall>i<nb. \<forall>j<nb. dist (complete_init_numa_distance nb info) i j = dist (complete_init_numa_distance nb info) j i))
    \<and> (\<forall>i<nb. \<forall>j<nb. i \<noteq> j \<longrightarrow> dist info i j \<noteq> 0 \<or> dist info j i \<noteq> 0)"
proof -
  have v: "\<forall>i<nb. \<forall>j<nb. i \<noteq> j \<longrightarrow> dist info i j \<noteq> 0 \<or> dist info j i \<noteq> 0" using assms(1) unfolding validate_iff by blast
  have d: "dist (complete_init_numa_distance nb info) i j = completed info i j" if "i < nb" "j < nb" for i j
    unfolding complete_init_numa_distance_def using that v by (subst fill_fold) (unfold all_pairs, auto)
  have n: "completed info i j \<noteq> 0" if "i < nb" "j < nb" for i j using v that by (auto simp: completed_def NUMA_DISTANCE_MIN_def)
  have l: "completed info i i = 10" if "i < nb" for i using assms(2) that by (auto simp: completed_def NUMA_DISTANCE_MIN_def)
  have s: "completed info i j = completed info j i" if "i < nb" "j < nb" "\<forall>i<nb. \<forall>j<nb. dist info i j = 0 \<or> dist info j i = 0 \<or> dist info i j = dist info j i" for i j
    using that v by (cases "i = j") (auto simp: completed_def)
  show ?thesis using d n l s v by (auto simp: Let_def) (simp_all add: completed_def)
qed

text \<open>Three nodes; the distances of two pairs are given in one direction.\<close>

definition three_nodes :: "nat \<Rightarrow> NodeInfo" where
  "three_nodes i = no_node\<lparr>node_present := True, node_distance := (if i = 0 then (\<lambda>_. 0)(1 := 20, 2 := 30) else if i = 1 then (\<lambda>_. 0)(0 := 20, 2 := 25) else (\<lambda>_. 0))\<rparr>"

theorem distances_completed_witness:
  "validate_numa_distance 3 three_nodes = Inr () \<and> dist (complete_init_numa_distance 3 three_nodes) 2 1 = 25 \<and> dist (complete_init_numa_distance 3 three_nodes) 2 2 = 10"
proof -
  have v: "validate_numa_distance 3 three_nodes = Inr ()" by code_simp
  have "\<forall>i<3. dist three_nodes i i = 0 \<or> dist three_nodes i i = NUMA_DISTANCE_MIN" by (simp add: three_nodes_def no_node_def)
  from distances_completed [OF v this, THEN conjunct1, rule_format, of 2 1] show ?thesis using v by (simp add: three_nodes_def no_node_def Let_def)
qed

section \<open>The configuration\<close>

text \<open>The counters agree with the nodes that are present.\<close>

definition present_nodes :: "numa_state \<Rightarrow> nat set" where
  "present_nodes st = {i. node_present (numa_info st i)}"

definition numa_inv :: "machine \<Rightarrow> numa_state \<Rightarrow> bool" where
  "numa_inv mc st \<longleftrightarrow> present_nodes st \<subseteq> {..<max_numa_nodeid st} \<and> max_numa_nodeid st \<le> mc_max_nodes mc \<and> nb_numa_nodes st = card (present_nodes st)"

lemma set_cpus_frame:
  "set_cpus mc nr cs st = Inr (e, st') \<Longrightarrow> numa_info st' = numa_info st \<and> max_numa_nodeid st' = max_numa_nodeid st \<and> nb_numa_nodes st' = nb_numa_nodes st"
  by (induction cs arbitrary: st) (fastforce split: if_splits)+

lemma node_memory_inv:
  assumes "numa_inv mc st" "i < mc_max_nodes mc" "\<not> node_present (numa_info st i)" "node_memory mc node i st = (e, st')"
  shows "numa_inv mc st'"
proof -
  have f: "finite (present_nodes st)" using assms(1) finite_subset by (auto simp: numa_inv_def)
  consider (same) "\<And>k. node_present (numa_info st' k) \<longleftrightarrow> node_present (numa_info st k)" "max_numa_nodeid st' = max_numa_nodeid st" "nb_numa_nodes st' = nb_numa_nodes st"
    | (new) "\<And>k. node_present (numa_info st' k) \<longleftrightarrow> k = i \<or> node_present (numa_info st k)" "max_numa_nodeid st' = max (max_numa_nodeid st) (i + 1)" "nb_numa_nodes st' = nb_numa_nodes st + 1"
    using assms(3,4) by (auto simp: node_memory_def Let_def upd_node_def split: if_splits option.splits)
  then show ?thesis
  proof cases
    case same
    then show ?thesis using assms(1) by (simp add: numa_inv_def present_nodes_def)
  next
    case new
    have "present_nodes st' = insert i (present_nodes st)" using new(1) by (auto simp: present_nodes_def)
    moreover have "i \<notin> present_nodes st" using assms(3) by (simp add: present_nodes_def)
    ultimately show ?thesis using new(2,3) assms(1,2) f by (auto simp: numa_inv_def)
  qed
qed

lemma parse_node_inv:
  assumes "numa_inv mc st" "\<forall>i. no_nodeid node = Some i \<longrightarrow> 0 \<le> i" "parse_numa_node mc node st = Inr (e, st')"
  shows "numa_inv mc st'"
proof -
  let ?n = "case no_nodeid node of Some i \<Rightarrow> i | None \<Rightarrow> int (nb_numa_nodes st) mod 65536"
  have n: "0 \<le> ?n" using assms(2) by (auto split: option.split)
  consider "st' = st" | e1 st1 where "nat ?n < mc_max_nodes mc" "\<not> node_present (numa_info st (nat ?n))" "set_cpus mc ?n (no_cpus node) st = Inr (e1, st1)"
      "st' = st1 \<or> node_memory mc node (nat ?n) st1 = (e, st')"
    using assms(3) n by (fastforce simp: parse_numa_node_def Let_def res_bind_Inr_iff not_le nat_less_iff split: if_splits option.splits prod.splits)
  then show ?thesis
  proof cases
    case 2
    have i: "numa_inv mc st1" "\<not> node_present (numa_info st1 (nat ?n))" using set_cpus_frame [OF 2(3)] assms(1) 2(2) by (simp_all add: numa_inv_def present_nodes_def)
    then show ?thesis using 2(4) node_memory_inv [OF i(1) 2(1) i(2)] by blast
  qed (use assms(1) in simp)
qed

definition ids_ok :: "NumaOptions \<Rightarrow> bool" where
  "ids_ok opt \<longleftrightarrow> (case opt of NUMA_OPTIONS_TYPE_NODE node \<Rightarrow> \<forall>i. no_nodeid node = Some i \<longrightarrow> 0 \<le> i | _ \<Rightarrow> True)"

lemma parse_distance_inv: "numa_inv mc st \<Longrightarrow> parse_numa_distance mc d st = (e, st') \<Longrightarrow> numa_inv mc st'"
proof -
  assume a: "numa_inv mc st" "parse_numa_distance mc d st = (e, st')"
  have "\<And>k. node_present (numa_info st' k) \<longleftrightarrow> node_present (numa_info st k)" "max_numa_nodeid st' = max_numa_nodeid st" "nb_numa_nodes st' = nb_numa_nodes st"
    using a(2) by (auto simp: parse_numa_distance_def Let_def upd_node_def split: if_splits)
  then show ?thesis using a(1) by (simp add: numa_inv_def present_nodes_def)
qed

lemma set_options_inv:
  assumes "numa_inv mc st" "ids_ok opt" "set_numa_options mc opt st = Inr (e, st')"
  shows "numa_inv mc st'"
proof (cases opt)
  case (NUMA_OPTIONS_TYPE_NODE node)
  then show ?thesis using parse_node_inv [OF assms(1)] assms(2,3) by (simp add: set_numa_options_def ids_ok_def)
next
  case (NUMA_OPTIONS_TYPE_DIST d)
  then show ?thesis using parse_distance_inv [OF assms(1)] assms(3) by (simp add: set_numa_options_def)
next
  case (NUMA_OPTIONS_TYPE_CPU c)
  have "numa_inv mc (st\<lparr>numa_cpus := l\<rparr>)" for l using assms(1) by (simp add: numa_inv_def present_nodes_def)
  then show ?thesis using NUMA_OPTIONS_TYPE_CPU assms(1,3) by (auto simp: set_numa_options_def split: option.splits if_splits)
qed

lemma parse_opts_inv: "numa_inv mc st \<Longrightarrow> list_all ids_ok opts \<Longrightarrow> parse_numa_opts mc opts st = Inr st' \<Longrightarrow> numa_inv mc st'"
proof (induction opts arbitrary: st)
  case (Cons opt opts)
  obtain e st1 where s: "set_numa_options mc opt st = Inr (e, st1)" using Cons.prems(3) by (cases "set_numa_options mc opt st") auto
  then have "e = None" "parse_numa_opts mc opts st1 = Inr st'" using Cons.prems(3) by (auto split: option.splits)
  then show ?case using Cons.IH [OF set_options_inv [OF Cons.prems(1) _ s]] Cons.prems(2) by simp
qed simp

lemma inv_counts:
  assumes "numa_inv mc st" "\<forall>i<max_numa_nodeid st. node_present (numa_info st i)"
  shows "nb_numa_nodes st = max_numa_nodeid st"
proof -
  have "present_nodes st = {..<max_numa_nodeid st}" using assms by (auto simp: numa_inv_def present_nodes_def)
  then show ?thesis using assms(1) by (simp add: numa_inv_def)
qed

lemma numa_total_mod: "numa_total nb info = ulong (\<Sum>i<nb. node_mem (info i))"
proof (induction nb)
  case (Suc nb)
  have "numa_total (Suc nb) info = ulong (numa_total nb info + node_mem (info nb))" by (simp add: numa_total_def)
  then show ?case using Suc by (simp add: ulong_def mod_add_left_eq)
qed (simp add: numa_total_def ulong_def)

lemma present_kept:
  "node_present (fold fill_distance ps info i) = node_present (info i)" "node_present (auto_assign pol shift nb n info i) = node_present (info i)"
proof -
  show "node_present (fold fill_distance ps info i) = node_present (info i)"
    by (induction ps arbitrary: info) (simp_all add: fill_distance_def split: prod.split)
  have l: "node_present (snd (legacy_loop shift share k m used info) i) = node_present (info i)" for share k m used
    by (induction m arbitrary: k used info) (simp_all add: Let_def)
  have d: "node_present (snd (default_loop shift share k m pr used info) i) = node_present (info i)" for share k m pr used
    by (induction m arbitrary: k pr used info) (simp_all add: Let_def)
  show "node_present (auto_assign pol shift nb n info i) = node_present (info i)"
    using l [of "n div int nb" 0 "nb - 1" 0] d [of "n div int nb" 0 "nb - 1" 0 0]
    by (cases pol) (auto simp: auto_assign_def numa_legacy_auto_assign_ram_def numa_default_auto_assign_ram_def split: prod.splits)
qed

lemma complete_nodes_spec:
  assumes "complete_nodes mc st = Inr st'" "nb_numa_nodes st \<le> mc_max_nodes mc"
  shows "nb_numa_nodes st' = nb_numa_nodes st" "ulong (\<Sum>i<nb_numa_nodes st'. node_mem (numa_info st' i)) = ms_ram_size mc"
    "node_present (numa_info st' i) = node_present (numa_info st i)"
proof -
  let ?nb = "nb_numa_nodes st"
  have mn: "min ?nb (mc_max_nodes mc) = ?nb" using assms(2) by simp
  have mem: "node_mem (fold fill_distance ps info i) = node_mem (info i)" for ps info i
    by (induction ps arbitrary: info) (simp_all add: fill_distance_def split: prod.split)
  obtain info1 where i1: "numa_total ?nb info1 = ms_ram_size mc" "info1 = numa_info st \<or> (\<exists>pol. info1 = auto_assign pol (mc_align_shift mc) ?nb (ms_ram_size mc) (numa_info st))"
      "st' = st\<lparr>nb_numa_nodes := ?nb, numa_info := info1\<rparr> \<or> st' = st\<lparr>nb_numa_nodes := ?nb, numa_info := complete_init_numa_distance ?nb info1\<rparr>"
    using assms(1) unfolding complete_nodes_def mn Let_def by (auto simp: res_bind_Inr_iff split: if_splits option.splits)
  show "nb_numa_nodes st' = ?nb" using i1(3) by auto
  show "ulong (\<Sum>i<nb_numa_nodes st'. node_mem (numa_info st' i)) = ms_ram_size mc"
    using i1(1,3) by (auto simp: numa_total_mod complete_init_numa_distance_def mem)
  have "node_present (info1 i) = node_present (numa_info st i)" using i1(2) by (auto simp: present_kept)
  then show "node_present (numa_info st' i) = node_present (numa_info st i)" using i1(3) by (auto simp: complete_init_numa_distance_def present_kept)
qed

lemma parse_node_no_assert: "parse_numa_node mc node st \<noteq> Inl Assert_failed"
proof -
  have c: "set_cpus mc nr cs st \<noteq> Inl Assert_failed" for nr cs st by (induction cs arbitrary: st) auto
  show ?thesis using c [of _ "no_cpus node" st]
    by (cases "set_cpus mc (case no_nodeid node of Some i \<Rightarrow> i | None \<Rightarrow> int (nb_numa_nodes st) mod 65536) (no_cpus node) st")
      (auto simp: parse_numa_node_def Let_def split: option.splits)
qed

text \<open>C22: The counters of the parser agree with the array of nodes, whatever options were given: when all node numbers are in use, their count is the
  highest number plus one, so the assertion of \<open>numa_complete_configuration\<close> that must always be true is always true, and the only
  assertion that can fail is that the machine has a way to divide the RAM. When the configuration is completed there are either no
  nodes, or the nodes 0 to n - 1 are all present and their RAM adds up to the RAM of the machine, modulo two to the 64.\<close>

theorem numa_configured:
  assumes "list_all ids_ok opts" "parse_numa_opts mc opts numa_start = Inr st"
  shows "(numa_complete_configuration mc st = Inl Assert_failed \<longrightarrow> mc_assign mc = None)
    \<and> (\<forall>st'. numa_complete_configuration mc st = Inr st' \<longrightarrow> nb_numa_nodes st' \<le> mc_max_nodes mc \<and> (\<forall>i<nb_numa_nodes st'. node_present (numa_info st' i))
        \<and> (nb_numa_nodes st' = 0 \<or> (\<Sum>i<nb_numa_nodes st'. node_mem (numa_info st' i)) mod 18446744073709551616 = ms_ram_size mc))"
proof -
  let ?hot = "\<lparr>no_nodeid = None, no_cpus = [], no_mem = None, no_memdev = None\<rparr>"
  let ?r = "if ms_ram_slots mc > 0 \<and> nb_numa_nodes st = 0 \<and> mc_auto_enable mc then res_bind (parse_numa_node mc ?hot st) (\<lambda>(e, st1). Inr st1) else Inr st"
  have "numa_inv mc numa_start" by (simp add: numa_inv_def numa_start_def present_nodes_def no_node_def)
  from parse_opts_inv [OF this assms] have i: "numa_inv mc st" .
  have i1: "numa_inv mc st1" if "?r = Inr st1" for st1
    using that i parse_node_inv [OF i, of ?hot] by (auto simp: res_bind_Inr_iff split: if_splits)
  have na: "?r \<noteq> Inl Assert_failed" using parse_node_no_assert [of mc ?hot st] by (cases "parse_numa_node mc ?hot st") auto
  have cn: "mc_assign mc = None" if "complete_nodes mc s = Inl Assert_failed" for s
    using that by (auto simp: complete_nodes_def Let_def validate_numa_distance_def split: if_splits option.splits)
  show ?thesis
  proof (cases ?r)
    case (Inl e)
    then show ?thesis using na by (auto simp: numa_complete_configuration_def)
  next
    case (Inr st1)
    note inv = i1 [OF Inr]
    have le: "max_numa_nodeid st1 \<le> mc_max_nodes mc" using inv by (simp add: numa_inv_def)
    show ?thesis
    proof (cases "\<forall>i<max_numa_nodeid st1. node_present (numa_info st1 i)")
      case False
      then have "list_ex (\<lambda>i. \<not> node_present (numa_info st1 i)) [0..<max_numa_nodeid st1]" by (auto simp: list_ex_iff)
      then show ?thesis using Inr le by (simp add: numa_complete_configuration_def)
    next
      case True
      then have "\<not> list_ex (\<lambda>i. \<not> node_present (numa_info st1 i)) [0..<max_numa_nodeid st1]" by (auto simp: list_ex_iff)
      then have c: "numa_complete_configuration mc st = (if nb_numa_nodes st1 = 0 then Inr st1 else complete_nodes mc st1)" "nb_numa_nodes st1 = max_numa_nodeid st1"
        using Inr le inv_counts [OF inv True] by (simp_all add: numa_complete_configuration_def)
      have ok: "nb_numa_nodes st' \<le> mc_max_nodes mc \<and> (\<forall>i<nb_numa_nodes st'. node_present (numa_info st' i))
          \<and> (\<Sum>i<nb_numa_nodes st'. node_mem (numa_info st' i)) mod 18446744073709551616 = ms_ram_size mc" if "complete_nodes mc st1 = Inr st'" for st'
        using complete_nodes_spec [OF that] c(2) le True by (simp add: ulong_def)
      show ?thesis unfolding c(1) using cn ok by simp
    qed
  qed
qed

text \<open>Two nodes that share 4 GB.\<close>

definition pc_machine :: machine where
  "pc_machine = \<lparr>mc_max_nodes = 128, mc_numa_supported = True, mc_max_cpus = 2, mc_set_cpu = (\<lambda>_ _. True), mc_backend = (\<lambda>_. None), mc_align_shift = 23,
     mc_assign = Some Default_assign, mc_auto_enable = False, ms_ram_slots = 0, ms_ram_size = 4294967296\<rparr>"

definition pc_options :: "NumaOptions list" where
  "pc_options = [NUMA_OPTIONS_TYPE_NODE \<lparr>no_nodeid = None, no_cpus = [0], no_mem = None, no_memdev = None\<rparr>,
     NUMA_OPTIONS_TYPE_NODE \<lparr>no_nodeid = Some 1, no_cpus = [1], no_mem = None, no_memdev = None\<rparr>]"

theorem numa_configured_witness:
  "\<exists>st. parse_numa_opts pc_machine pc_options numa_start = Inr st \<and> nb_numa_nodes st = 2 \<and> numa_complete_configuration pc_machine st \<noteq> Inl Assert_failed"
proof -
  have "(case parse_numa_opts pc_machine pc_options numa_start of Inr st \<Rightarrow> nb_numa_nodes st = 2 | Inl _ \<Rightarrow> False)" by code_simp
  then obtain st where st: "parse_numa_opts pc_machine pc_options numa_start = Inr st" "nb_numa_nodes st = 2" by (auto split: sum.splits)
  have "list_all ids_ok pc_options" by (simp add: pc_options_def ids_ok_def)
  from numa_configured [OF this st(1)] show ?thesis using st by (auto simp: pc_machine_def)
qed

end
