(* ===== verification/Page_Touch.thy ===== *)
theory Page_Touch
  imports Pcow_Prelude
begin

text \<open>
  Preallocating guest RAM (\<open>qemu-diff/util/oslib-posix.c\<close>): the pages of a memory area are divided between threads, each of which reads and writes
  back one byte of every page of its part. A page that the host cannot provide raises SIGBUS; its handler jumps out of the loop of
  the thread that is touching, and the failure is noted.

  The host answers by a function that tells whether a page can be touched. The threads work on different pages, so the result does not
  depend on their interleaving; the model runs them one after the other and lists the addresses touched by each.
\<close>

section \<open>Model\<close>

definition MAX_MEM_PREALLOC_THREAD_COUNT :: int where "MAX_MEM_PREALLOC_THREAD_COUNT = 16"

record MemsetThread =
  mt_addr :: int
  mt_numpages :: int
  mt_hpagesize :: int

text \<open>\<open>host_procs\<close> is what \<open>sysconf\<close> answers.\<close>

definition get_memset_num_threads :: "int \<Rightarrow> int \<Rightarrow> int" where
  "get_memset_num_threads host_procs smp_cpus =
     (if host_procs > 0 then min (min host_procs MAX_MEM_PREALLOC_THREAD_COUNT) smp_cpus else 1)"

fun touch_loop :: "(int \<Rightarrow> bool) \<Rightarrow> nat \<Rightarrow> int \<Rightarrow> int \<Rightarrow> int list \<times> bool" where
  "touch_loop ok 0 a hpagesize = ([], False)"
| "touch_loop ok (Suc n) a hpagesize =
     (if ok a then let (as, failed) = touch_loop ok n (ulong (a + hpagesize)) hpagesize in (a # as, failed) else ([], True))"

definition do_touch_pages :: "(int \<Rightarrow> bool) \<Rightarrow> MemsetThread \<Rightarrow> int list \<times> bool" where
  "do_touch_pages ok t = touch_loop ok (nat (mt_numpages t)) (mt_addr t) (mt_hpagesize t)"

text \<open>The loop that makes the threads; \<open>k\<close> threads are still to be made.\<close>

fun make_threads :: "int \<Rightarrow> int \<Rightarrow> nat \<Rightarrow> int \<Rightarrow> int \<Rightarrow> MemsetThread list" where
  "make_threads per_thread hpagesize 0 a numpages = []"
| "make_threads per_thread hpagesize (Suc k) a numpages =
     \<lparr>mt_addr = a, mt_numpages = (if k = 0 then numpages else per_thread), mt_hpagesize = hpagesize\<rparr>
       # make_threads per_thread hpagesize k (ulong (a + ulong (hpagesize * per_thread))) (ulong (numpages - per_thread))"

definition touch_all_pages :: "(int \<Rightarrow> bool) \<Rightarrow> int \<Rightarrow> int \<Rightarrow> int \<Rightarrow> int \<Rightarrow> int \<Rightarrow> (int list \<times> bool) res" where
  "touch_all_pages ok host_procs area hpagesize numpages smp_cpus =
     (let n = get_memset_num_threads host_procs smp_cpus in
      if n = 0 then Inl Sigfpe
      else if n < 0 then Inl Undefined
      else let rs = map (do_touch_pages ok) (make_threads (numpages div n) hpagesize (nat n) area numpages)
        in Inr (concat (map fst rs), list_ex snd rs))"

text \<open>\<open>act\<close> and \<open>restore\<close> tell whether \<open>sigaction\<close> succeeds before and after; the result says whether an error is reported.\<close>

definition os_mem_prealloc :: "(int \<Rightarrow> bool) \<Rightarrow> bool \<Rightarrow> bool \<Rightarrow> int \<Rightarrow> int \<Rightarrow> int \<Rightarrow> int \<Rightarrow> int \<Rightarrow> (int list \<times> bool) res" where
  "os_mem_prealloc ok act restore host_procs hpagesize area memory smp_cpus =
     (if \<not> act then Inr ([], True)
      else res_bind (touch_all_pages ok host_procs area hpagesize (ulong (memory + hpagesize - 1) div hpagesize) smp_cpus) (\<lambda>r.
        if restore then Inr r else Inl Exit_failure))"

section \<open>Every page is touched once\<close>

definition page_addrs :: "int \<Rightarrow> int \<Rightarrow> nat \<Rightarrow> int list" where
  "page_addrs a hp n = map (\<lambda>k. a + int k * hp) [0..<n]"

lemma page_addrs_Suc: "page_addrs a hp (Suc n) = a # page_addrs (a + hp) hp n"
  unfolding page_addrs_def by (simp add: upt_conv_Cons map_Suc_upt [symmetric] algebra_simps del: upt_Suc map_Suc_upt)

lemma page_addrs_add: "page_addrs a hp (m + n) = page_addrs a hp m @ page_addrs (a + int m * hp) hp n"
  by (rule nth_equalityI) (auto simp: page_addrs_def nth_append algebra_simps)

lemma touch_loop_spec:
  assumes "0 \<le> hp"
  shows "0 \<le> a \<Longrightarrow> a + int n * hp \<le> 18446744073709551615 \<Longrightarrow> touch_loop ok n a hp = (takeWhile ok (page_addrs a hp n), \<not> list_all ok (page_addrs a hp n))"
proof (induction n arbitrary: a)
  case 0
  then show ?case by (simp add: page_addrs_def)
next
  case (Suc n)
  have "0 \<le> int n * hp" using assms by simp
  moreover have "int (Suc n) * hp = hp + int n * hp" by (simp add: algebra_simps)
  ultimately have a: "0 \<le> a + hp" "a + hp + int n * hp \<le> 18446744073709551615" "a + hp < 18446744073709551616" using Suc.prems assms by linarith+
  then have "ulong (a + hp) = a + hp" by (simp add: ulong_def)
  then show ?case using Suc.IH [OF a(1,2)] by (simp add: page_addrs_Suc)
qed

abbreviation part :: "MemsetThread \<Rightarrow> int list" where
  "part t \<equiv> page_addrs (mt_addr t) (mt_hpagesize t) (nat (mt_numpages t))"

lemma make_threads_spec:
  assumes "0 \<le> hp" "0 \<le> per"
  shows "0 \<le> a \<Longrightarrow> int (Suc k) * per \<le> np \<Longrightarrow> np < 18446744073709551616 \<Longrightarrow> a + np * hp \<le> 18446744073709551615
    \<Longrightarrow> concat (map part (make_threads per hp (Suc k) a np)) = page_addrs a hp (nat np)
      \<and> list_all (\<lambda>t. 0 \<le> mt_addr t \<and> 0 \<le> mt_numpages t \<and> mt_hpagesize t = hp \<and> mt_addr t + mt_numpages t * hp \<le> 18446744073709551615) (make_threads per hp (Suc k) a np)"
proof (induction k arbitrary: a np)
  case 0
  then show ?case using assms by (simp add: order.trans [OF assms(2)])
next
  case (Suc k)
  have e: "int (Suc (Suc k)) * per = per + int (Suc k) * per" "0 \<le> int (Suc k) * per" using assms(2) by (simp_all add: algebra_simps)
  then have per: "per \<le> np" "0 \<le> np - per" "int (Suc k) * per \<le> np - per" using Suc.prems(2) by linarith+
  have sp: "np * hp = per * hp + (np - per) * hp" by (simp add: algebra_simps)
  have nn: "0 \<le> per * hp" "0 \<le> (np - per) * hp" using assms per(2) by simp_all
  have h: "0 \<le> a + per * hp" "a + per * hp + (np - per) * hp \<le> 18446744073709551615" "np - per < 18446744073709551616" "per * hp < 18446744073709551616" "a + per * hp < 18446744073709551616"
    using Suc.prems(1,3,4) sp nn assms(2) by linarith+
  have u: "ulong (a + ulong (hp * per)) = a + per * hp" "ulong (np - per) = np - per" using h nn per by (simp_all add: ulong_def mult.commute)
  note ih = Suc.IH [OF h(1) per(3) h(3) h(2)]
  have "nat np = nat per + nat (np - per)" using per assms(2) by simp
  then have "page_addrs a hp (nat np) = page_addrs a hp (nat per) @ page_addrs (a + per * hp) hp (nat (np - per))"
    using page_addrs_add [of a hp "nat per" "nat (np - per)"] assms(2) by simp
  moreover have "a + per * hp \<le> 18446744073709551615" using h(5) by simp
  ultimately show ?case using ih u Suc.prems(1) assms(2) by simp
qed

lemma takeWhile_concat: "\<forall>xs\<in>set xss. list_all P xs \<Longrightarrow> concat (map (takeWhile P) xss) = concat xss"
  by (induction xss) (simp_all add: list_all_iff)

text \<open>C20: Preallocation touches every page of the area exactly once, in whatever number of threads, the last of which also takes the rest. It reports a
  failure exactly when some page cannot be touched, and without one the pages touched are those of the area from the first
  to the last.\<close>

theorem all_pages_touched:
  assumes "0 < smp_cpus" "0 \<le> hp" "0 \<le> area" "0 \<le> np" "np < 18446744073709551616" "area + np * hp \<le> 18446744073709551615"
  shows "\<exists>as. touch_all_pages ok host_procs area hp np smp_cpus = Inr (as, \<exists>k<nat np. \<not> ok (area + int k * hp))
    \<and> set as \<subseteq> {area + int k * hp |k. k < nat np \<and> ok (area + int k * hp)}
    \<and> ((\<forall>k<nat np. ok (area + int k * hp)) \<longrightarrow> as = map (\<lambda>k. area + int k * hp) [0..<nat np])"
proof -
  define n where "n = get_memset_num_threads host_procs smp_cpus"
  have n: "0 < n" using assms(1) by (simp add: n_def get_memset_num_threads_def MAX_MEM_PREALLOC_THREAD_COUNT_def)
  obtain k where k: "nat n = Suc k" using n by (metis gr0_implies_Suc zero_less_nat_eq)
  have nk: "int (Suc k) = n" using k n by simp
  define ts where "ts = make_threads (np div n) hp (Suc k) area np"
  have "n * (np div n) + np mod n = np" "0 \<le> np mod n" using n by simp_all
  then have "n * (np div n) \<le> np" by linarith
  then have per: "0 \<le> np div n" "int (Suc k) * (np div n) \<le> np" unfolding nk using n assms(4) by (simp_all add: pos_imp_zdiv_nonneg_iff)
  have t: "concat (map part ts) = page_addrs area hp (nat np)"
      "\<forall>t\<in>set ts. 0 \<le> mt_addr t \<and> 0 \<le> mt_numpages t \<and> mt_hpagesize t = hp \<and> mt_addr t + mt_numpages t * hp \<le> 18446744073709551615"
    using make_threads_spec [OF assms(2) per(1) assms(3) per(2) assms(5,6)] unfolding ts_def [symmetric] by (simp_all add: list_all_iff)
  have d: "do_touch_pages ok t = (takeWhile ok (part t), \<not> list_all ok (part t))" if "t \<in> set ts" for t
    using touch_loop_spec [OF assms(2), of "mt_addr t" "nat (mt_numpages t)" ok] t(2) that by (simp add: do_touch_pages_def)
  let ?as = "concat (map (\<lambda>t. takeWhile ok (part t)) ts)"
  have all: "(\<forall>t\<in>set ts. list_all ok (part t)) \<longleftrightarrow> (\<forall>k<nat np. ok (area + int k * hp))"
  proof -
    have "(\<forall>t\<in>set ts. list_all ok (part t)) \<longleftrightarrow> list_all ok (concat (map part ts))" by (auto simp: list_all_iff)
    then show ?thesis unfolding t(1) by (auto simp: page_addrs_def list_all_iff)
  qed
  have "touch_all_pages ok host_procs area hp np smp_cpus = Inr (?as, list_ex (\<lambda>t. \<not> list_all ok (part t)) ts)"
    using n d unfolding touch_all_pages_def n_def [symmetric] Let_def k ts_def [symmetric] by (simp add: comp_def list_ex_iff cong: map_cong)
  moreover have "list_ex (\<lambda>t. \<not> list_all ok (part t)) ts \<longleftrightarrow> (\<exists>k<nat np. \<not> ok (area + int k * hp))" using all by (auto simp: list_ex_iff)
  moreover have "set ?as \<subseteq> {area + int k * hp |k. k < nat np \<and> ok (area + int k * hp)}"
  proof
    fix x assume "x \<in> set ?as"
    then have "x \<in> set (concat (map part ts))" "ok x" by (auto dest: set_takeWhileD)
    then show "x \<in> {area + int k * hp |k. k < nat np \<and> ok (area + int k * hp)}" unfolding t(1) by (auto simp: page_addrs_def)
  qed
  moreover have "?as = page_addrs area hp (nat np)" if "\<forall>k<nat np. ok (area + int k * hp)"
    using takeWhile_concat [of "map part ts" ok] all that t(1) by (simp add: comp_def)
  ultimately show ?thesis by (auto simp: page_addrs_def)
qed

theorem all_pages_touched_witness:
  "touch_all_pages (\<lambda>_. True) 8 8192 4096 10 4 = Inr (map (\<lambda>k. 8192 + int k * 4096) [0..<10], False)"
  using all_pages_touched [of 4 4096 8192 10 "\<lambda>_. True" 8] by auto

end
