(* ===== verification/Region_Find.thy ===== *)
theory Region_Find
  imports Address_Inv Phys_Map
begin

text \<open>
  Looking a range up in the memory a region belongs to (\<open>memory_region_find\<close> of \<open>qemu-diff/memory.c\<close>): climbing to the root of the containers, finding
  the address space of that root, and a binary search in its flat view that is then moved to the first range that meets the one asked for.
  \<open>bsearch\<close> halves the interval as the C library does. The chain of containers may be endless when it is cyclic; then nothing is returned.
  A section with \<open>mr = NULL\<close> is \<open>None\<close>.
\<close>

section \<open>Definitions\<close>

text \<open>From a region and an address in its container to the root and the address there.\<close>

partial_function (option) climb :: "regions \<Rightarrow> nat \<Rightarrow> int \<Rightarrow> (nat \<times> int) option" where
  "climb rg p a = (case mr_container (rg p) of None \<Rightarrow> Some (p, a) | Some q \<Rightarrow> climb rg q (ulong (a + mr_addr (rg q))))"

definition memory_region_to_address_space :: "mem_state \<Rightarrow> nat \<Rightarrow> nat option option" where
  "memory_region_to_address_space st p =
     map_option (\<lambda>(root, _). find (\<lambda>i. root = as_root (m_spaces st ! i)) [0..<length (m_spaces st)]) (climb (m_regions st) p 0)"

definition cmp_flatrange_addr :: "AddrRange \<Rightarrow> FlatRange \<Rightarrow> int" where
  "cmp_flatrange_addr ar fr =
     (if addrrange_end ar \<le> r_start (fr_addr fr) then - 1 else if r_start ar \<ge> addrrange_end (fr_addr fr) then 1 else 0)"

function bsearch :: "('a \<Rightarrow> int) \<Rightarrow> 'a list \<Rightarrow> nat \<Rightarrow> nat \<Rightarrow> nat option" where
  "bsearch cmp xs l u =
     (if l < u
      then let idx = (l + u) div 2; c = cmp (xs ! idx)
        in if c < 0 then bsearch cmp xs l idx else if c > 0 then bsearch cmp xs (idx + 1) u else Some idx
      else None)"
  by pat_completeness auto
termination by (relation "measure (\<lambda>(cmp, xs, l, u). u - l)") auto

declare bsearch.simps [simp del]

definition flatview_lookup :: "FlatRange list \<Rightarrow> AddrRange \<Rightarrow> nat option" where
  "flatview_lookup rs ar = bsearch (cmp_flatrange_addr ar) rs 0 (length rs)"

fun step_down :: "FlatRange list \<Rightarrow> AddrRange \<Rightarrow> nat \<Rightarrow> nat" where
  "step_down rs ar 0 = 0"
| "step_down rs ar (Suc k) = (if addrrange_intersects (fr_addr (rs ! k)) ar then step_down rs ar k else Suc k)"

text \<open>The section of the part of a range that a flat range covers.\<close>

definition found_section :: "FlatRange \<Rightarrow> AddrRange \<Rightarrow> MemoryRegionSection res" where
  "found_section fr ar =
     (let part = addrrange_intersection ar (fr_addr fr) in
      res_bind (int128_get64 (r_start part - r_start (fr_addr fr))) (\<lambda>delta.
        res_bind (int128_get64 (r_start part)) (\<lambda>start.
          Inr \<lparr>ms_mr = Mr (fr_mr fr), ms_offset_within_region = ulong (fr_offset_in_region fr + delta), ms_size = r_size part,
               ms_offset_within_address_space = start, ms_readonly = fr_readonly fr\<rparr>)))"

definition memory_region_find_rcu :: "nat \<Rightarrow> int \<Rightarrow> int \<Rightarrow> mem_state \<Rightarrow> MemoryRegionSection option res option" where
  "memory_region_find_rcu p a n st =
     Option.bind (climb (m_regions st) p (ulong (a + mr_addr (m_regions st p)))) (\<lambda>(root, abs_addr).
       Option.bind (memory_region_to_address_space st root) (\<lambda>space.
         case space of
           None \<Rightarrow> Some (Inr None)
         | Some i \<Rightarrow>
             let ar = addrrange_make abs_addr n in
             case as_current_map (m_spaces st ! i) of
               None \<Rightarrow> Some (Inl Sigsegv)
             | Some v \<Rightarrow>
                 let rs = fv_ranges (m_views st v) in
                 case flatview_lookup rs ar of
                   None \<Rightarrow> Some (Inr None)
                 | Some k \<Rightarrow> Some (res_bind (found_section (rs ! step_down rs ar k) ar) (\<lambda>sec. Inr (Some sec)))))"

definition section_owner :: "section_mr \<Rightarrow> nat option" where
  "section_owner mr = (case mr of Mr r \<Rightarrow> Some r | _ \<Rightarrow> None)"

definition memory_region_find :: "nat \<Rightarrow> int \<Rightarrow> int \<Rightarrow> mem_state \<Rightarrow> (MemoryRegionSection option \<times> mem_state) res option" where
  "memory_region_find p a n st =
     map_option (\<lambda>r. res_bind r (\<lambda>sec. Inr (sec, case sec of
         None \<Rightarrow> st
       | Some s \<Rightarrow> st\<lparr>m_refs := memory_region_ref (m_regions st) (section_owner (ms_mr s)) (m_refs st)\<rparr>)))
     (memory_region_find_rcu p a n st)"

definition memory_region_present :: "nat \<Rightarrow> int \<Rightarrow> mem_state \<Rightarrow> bool res option" where
  "memory_region_present container a st =
     map_option (\<lambda>r. res_bind r (\<lambda>sec. Inr (case sec of None \<Rightarrow> False | Some s \<Rightarrow> ms_mr s \<noteq> Mr container)))
     (memory_region_find_rcu container a 1 st)"

section \<open>Binary search\<close>

text \<open>A comparison that first says right, then equal, then left along the list.\<close>

definition along :: "('a \<Rightarrow> int) \<Rightarrow> 'a list \<Rightarrow> bool" where
  "along cmp xs \<longleftrightarrow> (\<forall>i j. i < j \<and> j < length xs \<longrightarrow> cmp (xs ! j) \<le> cmp (xs ! i))"

lemma bsearch_spec:
  assumes "along cmp xs" "u \<le> length xs" "\<forall>i<l. 0 < cmp (xs ! i)" "\<forall>i. u \<le> i \<and> i < length xs \<longrightarrow> cmp (xs ! i) < 0"
  shows "case bsearch cmp xs l u of None \<Rightarrow> \<forall>x\<in>set xs. cmp x \<noteq> 0 | Some k \<Rightarrow> k < length xs \<and> cmp (xs ! k) = 0"
  using assms
proof (induction cmp xs l u rule: bsearch.induct)
  case (1 cmp xs l u)
  let ?idx = "(l + u) div 2"
  show ?case
  proof (cases "l < u")
    case False
    have "cmp x \<noteq> 0" if x: "x \<in> set xs" for x
    proof -
      obtain i where i: "i < length xs" "x = xs ! i" using x by (auto simp: in_set_conv_nth)
      then show ?thesis using 1(5,6) False by (cases "i < l") (auto simp: less_le)
    qed
    then show ?thesis using False by (subst bsearch.simps) simp
  next
    case True
    then have idx: "?idx < u" "l \<le> ?idx" "?idx < length xs" using 1(4) by auto
    have mono: "cmp (xs ! j) \<le> cmp (xs ! i)" if "i \<le> j" "j < length xs" for i j
      using 1(3) that by (cases "i = j") (auto simp: along_def)
    consider "cmp (xs ! ?idx) < 0" | "0 < cmp (xs ! ?idx)" | "cmp (xs ! ?idx) = 0" by linarith
    then show ?thesis
    proof cases
      case a: 1
      have "\<forall>i. ?idx \<le> i \<and> i < length xs \<longrightarrow> cmp (xs ! i) < 0" using mono [of ?idx] a by force
      then show ?thesis using 1(1) [OF True refl refl a 1(3) _ 1(5)] idx True a by (subst bsearch.simps) (simp add: Let_def)
    next
      case b: 2
      have "\<forall>i<?idx + 1. 0 < cmp (xs ! i)" using mono [of _ ?idx] b idx by (force simp: less_Suc_eq_le)
      moreover have nb: "\<not> cmp (xs ! ?idx) < 0" using b by simp
      ultimately have "case bsearch cmp xs (?idx + 1) u of None \<Rightarrow> \<forall>x\<in>set xs. cmp x \<noteq> 0 | Some k \<Rightarrow> k < length xs \<and> cmp (xs ! k) = 0"
        using 1(2) [OF True refl refl _ b 1(3,4) _ 1(6)] by blast
      moreover have "bsearch cmp xs l u = bsearch cmp xs (?idx + 1) u" using True b nb by (subst bsearch.simps) (simp add: Let_def)
      ultimately show ?thesis by simp
    next
      case 3
      then show ?thesis using True idx by (subst bsearch.simps) (simp add: Let_def)
    qed
  qed
qed

section \<open>The first range that is met\<close>

lemma flat_ok_nth:
  assumes "flat_ok rs" "i < j" "j < length rs"
  shows "addrrange_end (fr_addr (rs ! i)) \<le> r_start (fr_addr (rs ! j))" "0 < r_size (fr_addr (rs ! i))" "0 < r_size (fr_addr (rs ! j))"
  using assms by (auto simp: flat_ok_def sorted_wrt_iff_nth_less)

lemma cmp_along: "flat_ok rs \<Longrightarrow> along (cmp_flatrange_addr ar) rs"
  unfolding along_def
proof (intro allI impI, elim conjE)
  fix i j assume "flat_ok rs" "i < j" "j < length rs"
  from flat_ok_nth [OF this] show "cmp_flatrange_addr ar (rs ! j) \<le> cmp_flatrange_addr ar (rs ! i)"
    by (simp add: cmp_flatrange_addr_def addrrange_end_def)
qed

lemma cmp_zero: "0 < r_size ar \<Longrightarrow> 0 < r_size (fr_addr fr) \<Longrightarrow> cmp_flatrange_addr ar fr = 0 \<longleftrightarrow> addrrange_intersects (fr_addr fr) ar"
  by (auto simp: cmp_flatrange_addr_def addrrange_intersects_def addrrange_contains_def addrrange_end_def)

lemma lookup_spec:
  assumes "flat_ok rs" "0 < r_size ar"
  shows "flatview_lookup rs ar = None \<Longrightarrow> fr \<in> set rs \<Longrightarrow> \<not> addrrange_intersects (fr_addr fr) ar"
    "flatview_lookup rs ar = Some k \<Longrightarrow> k < length rs \<and> addrrange_intersects (fr_addr (rs ! k)) ar"
proof -
  have b: "case flatview_lookup rs ar of None \<Rightarrow> \<forall>x\<in>set rs. cmp_flatrange_addr ar x \<noteq> 0 | Some k \<Rightarrow> k < length rs \<and> cmp_flatrange_addr ar (rs ! k) = 0"
    unfolding flatview_lookup_def by (rule bsearch_spec [OF cmp_along [OF assms(1)]]) auto
  have z: "cmp_flatrange_addr ar fr = 0 \<longleftrightarrow> addrrange_intersects (fr_addr fr) ar" if "fr \<in> set rs" for fr
    using cmp_zero [OF assms(2)] assms(1) that by (auto simp: flat_ok_def)
  show "\<not> addrrange_intersects (fr_addr fr) ar" if "flatview_lookup rs ar = None" "fr \<in> set rs" using b that z by auto
  show "k < length rs \<and> addrrange_intersects (fr_addr (rs ! k)) ar" if "flatview_lookup rs ar = Some k" using b that z by auto
qed

lemma step_down_spec:
  assumes "addrrange_intersects (fr_addr (rs ! k)) ar"
  shows "step_down rs ar k \<le> k \<and> addrrange_intersects (fr_addr (rs ! step_down rs ar k)) ar
    \<and> (0 < step_down rs ar k \<longrightarrow> \<not> addrrange_intersects (fr_addr (rs ! (step_down rs ar k - 1))) ar)"
  using assms by (induction rs ar k rule: step_down.induct) auto

text \<open>Ranges that meet the one asked for lie in a row, so nothing before the one found meets it.\<close>

lemma none_before:
  assumes "flat_ok rs" "j < length rs" "addrrange_intersects (fr_addr (rs ! j)) ar" "0 < j \<longrightarrow> \<not> addrrange_intersects (fr_addr (rs ! (j - 1))) ar" "i < j"
  shows "addrrange_end (fr_addr (rs ! i)) \<le> r_start ar"
proof -
  have l: "addrrange_end (fr_addr (rs ! (j - 1))) \<le> r_start (fr_addr (rs ! j))" "0 < r_size (fr_addr (rs ! (j - 1)))" "0 < r_size (fr_addr (rs ! j))"
    using flat_ok_nth [OF assms(1), of "j - 1" j] assms(2,5) by auto
  have j: "addrrange_end (fr_addr (rs ! (j - 1))) \<le> r_start ar"
    using assms(3-5) l by (auto simp: addrrange_intersects_def addrrange_contains_def addrrange_end_def)
  show ?thesis
  proof (cases "i = j - 1")
    case False
    then have "addrrange_end (fr_addr (rs ! i)) \<le> r_start (fr_addr (rs ! (j - 1)))" using flat_ok_nth(1) [OF assms(1), of i "j - 1"] assms(2,5) by simp
    then show ?thesis using j l(2) by (simp add: addrrange_end_def)
  qed (use j in simp)
qed

lemma found_first:
  assumes "flat_ok rs" "0 < n" "flatview_lookup rs (addrrange_make a n) = Some k" "0 \<le> a" "a + n \<le> 18446744073709551616" "in_space rs"
  defines "fr \<equiv> rs ! step_down rs (addrrange_make a n) k"
  obtains x m where "found_section fr (addrrange_make a n) = Inr \<lparr>ms_mr = Mr (fr_mr fr), ms_offset_within_region = ulong (fr_offset_in_region fr + (x - r_start (fr_addr fr))),
      ms_size = m, ms_offset_within_address_space = x, ms_readonly = fr_readonly fr\<rparr>"
    "a \<le> x" "0 < m" "x + m \<le> a + n" "\<And>y. a \<le> y \<Longrightarrow> y < x \<Longrightarrow> view_at rs y = None" "\<And>i. 0 \<le> i \<Longrightarrow> i < m \<Longrightarrow> view_at rs (x + i) = Some (fr_answer fr (x + i))"
proof -
  let ?ar = "addrrange_make a n"
  define x where "x = max a (r_start (fr_addr fr))"
  define m where "m = min (a + n) (addrrange_end (fr_addr fr)) - x"
  have k: "k < length rs" "addrrange_intersects (fr_addr (rs ! k)) ?ar" using lookup_spec(2) [OF assms(1) _ assms(3)] assms(2) by (simp_all add: addrrange_make_def)
  define j where "j = step_down rs ?ar k"
  have j: "j \<le> k" "addrrange_intersects (fr_addr fr) ?ar" "0 < j \<longrightarrow> \<not> addrrange_intersects (fr_addr (rs ! (j - 1))) ?ar"
    using step_down_spec [OF k(2)] by (simp_all add: j_def fr_def)
  have fr: "fr = rs ! j" "fr \<in> set rs" "0 < r_size (fr_addr fr)" using j(1) k(1) assms(1) by (auto simp: fr_def j_def flat_ok_def)
  have ends: "addrrange_end ?ar = a + n" "r_start ?ar = a" by (simp_all add: addrrange_make_def addrrange_end_def)
  have m: "0 < m" using j(2) fr(3) assms(2) unfolding addrrange_intersects_def addrrange_contains_def ends m_def x_def by (auto simp: addrrange_end_def)
  have x: "a \<le> x" "x + m \<le> a + n" "r_start (fr_addr fr) \<le> x" "x + m \<le> addrrange_end (fr_addr fr)" by (simp_all add: x_def m_def)
  have part: "addrrange_intersection ?ar (fr_addr fr) = \<lparr>r_start = x, r_size = m\<rparr>"
    unfolding addrrange_intersection_def ends by (simp add: Let_def x_def m_def addrrange_make_def)
  have g: "int128_get64 (x - r_start (fr_addr fr)) = Inr (x - r_start (fr_addr fr))" "int128_get64 x = Inr x"
    using x m assms(4,5) bspec [OF assms(6) [unfolded in_space_def] fr(2)] by (auto simp: int128_get64_def)
  have "\<not> addrrange_contains (fr_addr r) y" if r: "r \<in> set rs" and y: "a \<le> y" "y < x" for r y
  proof -
    obtain i where i: "i < length rs" "r = rs ! i" using r by (auto simp: in_set_conv_nth)
    consider "i < j" | "i = j" | "j < i" by linarith
    then show ?thesis
    proof cases
      case 1
      then show ?thesis using none_before [OF assms(1) _ _ j(3), of i] j(1,2) k(1) y(1) unfolding i(2) fr(1) ends by (simp add: addrrange_contains_def)
    next
      case 3
      then show ?thesis using flat_ok_nth(1) [OF assms(1) 3 i(1)] fr(3) y unfolding i(2) fr(1) by (auto simp: addrrange_contains_def x_def addrrange_end_def fr(1))
    qed (use y fr(1) i(2) in \<open>auto simp: addrrange_contains_def x_def\<close>)
  qed
  then have gap: "view_at rs y = None" if "a \<le> y" "y < x" for y using that by (simp add: view_at_None)
  have "view_at rs (x + i) = Some (fr_answer fr (x + i))" if "0 \<le> i" "i < m" for i
    by (rule view_at_Some [OF assms(1) fr(2)]) (use that x(3,4) in \<open>simp add: addrrange_contains_def\<close>)
  then show thesis using gap m x by (intro that [of x m]) (simp_all add: found_section_def part g Let_def)
qed

section \<open>Properties\<close>

text \<open>The address of a region's byte in the space, as its containers place it, and the space.\<close>

definition placed :: "mem_state \<Rightarrow> nat \<Rightarrow> int \<Rightarrow> nat \<Rightarrow> int \<Rightarrow> bool" where
  "placed st p a i x \<longleftrightarrow> (\<exists>root. climb (m_regions st) p (ulong (a + mr_addr (m_regions st p))) = Some (root, x) \<and> memory_region_to_address_space st root = Some (Some i))"

lemma placed_space: "placed st p a i x \<Longrightarrow> i < length (m_spaces st)"
  by (auto simp: placed_def memory_region_to_address_space_def find_Some_iff)

text \<open>A section is the first memory in \<open>n\<close> bytes from \<open>x\<close> on, or there is none.\<close>

definition first_in :: "(int \<Rightarrow> answer option) \<Rightarrow> int \<Rightarrow> int \<Rightarrow> MemoryRegionSection option \<Rightarrow> bool" where
  "first_in mem x n r \<longleftrightarrow> (case r of
      None \<Rightarrow> \<forall>y. x \<le> y \<and> y < x + n \<longrightarrow> mem y = None
    | Some sec \<Rightarrow> (\<exists>mr off. ms_mr sec = Mr mr \<and> ms_offset_within_region sec = ulong off \<and> 0 < ms_size sec
        \<and> x \<le> ms_offset_within_address_space sec \<and> ms_offset_within_address_space sec + ms_size sec \<le> x + n
        \<and> (\<forall>y. x \<le> y \<and> y < ms_offset_within_address_space sec \<longrightarrow> mem y = None)
        \<and> (\<forall>k. 0 \<le> k \<and> k < ms_size sec \<longrightarrow> (\<exists>dl romd. mem (ms_offset_within_address_space sec + k) = Some (mr, off + k, dl, romd, ms_readonly sec)))))"

lemma first_in_hit:
  assumes "first_in mem x n r" "mem x = Some (mr, off, rest)" "0 < n"
  shows "\<exists>sec. r = Some sec \<and> ms_mr sec = Mr mr \<and> ms_offset_within_region sec = ulong off"
proof (cases r)
  case None
  then show ?thesis using assms by (force simp: first_in_def)
next
  case (Some sec)
  let ?s = "ms_offset_within_address_space sec"
  from assms(1) Some obtain mr' off' where s: "ms_mr sec = Mr mr'" "ms_offset_within_region sec = ulong off'" "0 < ms_size sec" "x \<le> ?s"
      "\<forall>y. x \<le> y \<and> y < ?s \<longrightarrow> mem y = None" "\<forall>k. 0 \<le> k \<and> k < ms_size sec \<longrightarrow> (\<exists>dl romd. mem (?s + k) = Some (mr', off' + k, dl, romd, ms_readonly sec))"
    by (auto simp: first_in_def)
  have "x = ?s" using s(4) spec [OF s(5), of x] assms(2) by auto
  then show ?thesis using spec [OF s(6), of 0] s(1-3) assms(2) Some by auto
qed

text \<open>C23: Looking up a range finds the first memory in it. In an address space that is up to date, \<open>memory_region_find\<close> answers \<open>NULL\<close> exactly when
  no address of the range belongs to a region. Otherwise the section it finds begins at the first address that does, and all of its addresses,
  which lie in the range, are the ones of its region from its offset on, with its read-only flag, as the graph of the regions says.\<close>

theorem find_first:
  assumes "up_to_date fuel st" "placed st p a i x" "0 < n" "0 \<le> x" "x + n \<le> 18446744073709551616"
  defines "mem \<equiv> region_at fuel (m_global_dirty_log st) (m_regions st) (as_root (m_spaces st ! i)) 0 False"
  shows "\<exists>r. memory_region_find_rcu p a n st = Some (Inr r) \<and> first_in mem x n r"
proof -
  obtain root where root: "climb (m_regions st) p (ulong (a + mr_addr (m_regions st p))) = Some (root, x)" "memory_region_to_address_space st root = Some (Some i)"
    using assms(2) by (auto simp: placed_def)
  obtain v where v: "as_current_map (m_spaces st ! i) = Some v"
      "answers fuel (m_global_dirty_log st) (m_regions st) (Some (as_root (m_spaces st ! i))) (fv_ranges (m_views st v))"
    using assms(1) placed_space [OF assms(2)] by (auto simp: up_to_date_def current_ok_def)
  let ?rs = "fv_ranges (m_views st v)" and ?ar = "addrrange_make x n"
  have rs: "flat_ok ?rs" "in_space ?rs" and at: "\<And>y. 0 \<le> y \<Longrightarrow> y < 18446744073709551616 \<Longrightarrow> mem y = view_at ?rs y"
    using v(2) by (simp_all add: answers_def mem_def)
  have sz: "0 < r_size ?ar" using assms(3) by (simp add: addrrange_make_def)
  show ?thesis
  proof (cases "flatview_lookup ?rs ?ar")
    case None
    have "view_at ?rs y = None" if "x \<le> y" "y < x + n" for y
      unfolding view_at_None
    proof
      fix r assume "r \<in> set ?rs"
      from lookup_spec(1) [OF rs(1) sz None this] show "\<not> addrrange_contains (fr_addr r) y"
        using that by (auto simp: addrrange_intersects_def addrrange_contains_def addrrange_make_def addrrange_end_def)
    qed
    then have "\<forall>y. x \<le> y \<and> y < x + n \<longrightarrow> mem y = None" using at assms(4,5) by simp
    then show ?thesis using root v(1) None by (simp add: memory_region_find_rcu_def Let_def first_in_def)
  next
    case (Some k)
    let ?fr = "?rs ! step_down ?rs ?ar k"
    obtain s m where s: "found_section ?fr ?ar = Inr \<lparr>ms_mr = Mr (fr_mr ?fr), ms_offset_within_region = ulong (fr_offset_in_region ?fr + (s - r_start (fr_addr ?fr))),
          ms_size = m, ms_offset_within_address_space = s, ms_readonly = fr_readonly ?fr\<rparr>"
        "x \<le> s" "0 < m" "s + m \<le> x + n" "\<And>y. x \<le> y \<Longrightarrow> y < s \<Longrightarrow> view_at ?rs y = None" "\<And>i. 0 \<le> i \<Longrightarrow> i < m \<Longrightarrow> view_at ?rs (s + i) = Some (fr_answer ?fr (s + i))"
      by (rule found_first [OF rs(1) assms(3) Some assms(4,5) rs(2)], rule that) assumption+
    have gap: "\<forall>y. x \<le> y \<and> y < s \<longrightarrow> mem y = None" using s(2-5) at assms(4,5) by simp
    have "mem (s + i) = Some (fr_mr ?fr, fr_offset_in_region ?fr + (s - r_start (fr_addr ?fr)) + i, fr_dirty_log_mask ?fr, fr_romd_mode ?fr, fr_readonly ?fr)" if "0 \<le> i" "i < m" for i
      using s(2-4,6) at assms(4,5) that by (simp add: fr_answer_def)
    then show ?thesis using gap s(1-4) root v(1) Some
      by (intro exI [of _ "Some _"] conjI) (auto simp: memory_region_find_rcu_def Let_def first_in_def)
  qed
qed

lemma fresh_root: "climb demo_regions 0 a = Some (0, a)"
  by (subst climb.simps) (simp add: demo_regions_def plain_region_def)

theorem find_first_witness:
  "\<exists>st sec. up_to_date 3 st \<and> m_regions st = demo_regions \<and> memory_region_find_rcu 0 4096 100 st = Some (Inr (Some sec)) \<and> ms_mr sec = Mr 3 \<and> ms_offset_within_region sec = 4096"
proof -
  obtain st where st: "up_to_date 3 st" "m_regions st = demo_regions" "map as_root (m_spaces st) = [0]" "m_global_dirty_log st = False"
    using commit_spec [OF fresh_ok] by (auto simp: pend_def memory_region_transaction_begin_def fresh_memory_def)
  then have s0: "m_spaces st \<noteq> []" "as_root (m_spaces st ! 0) = 0" by (cases "m_spaces st"; auto)+
  have z: "mr_addr (demo_regions 0) = 0" by (simp add: demo_regions_def plain_region_def)
  have "memory_region_to_address_space st 0 = Some (Some 0)"
    using s0 by (simp add: memory_region_to_address_space_def st(2) fresh_root upt_conv_Cons)
  then have pl: "placed st 0 4096 0 4096" using z by (simp add: placed_def st(2) fresh_root ulong_def)
  have at: "region_at 3 False demo_regions 0 0 False 4096 = Some (3, 4096, 0, True, False)"
    by (simp add: region_at_Suc eval_nat_numeral Let_def demo_regions_def plain_region_def addrrange_contains_def
        addrrange_make_def addrrange_end_def memory_region_get_dirty_log_mask_def)
  have mem: "region_at 3 (m_global_dirty_log st) (m_regions st) (as_root (m_spaces st ! 0)) 0 False 4096 = Some (3, 4096, 0, True, False)"
    using at st s0 by simp
  from find_first [OF st(1) pl, of 100] obtain r where r: "memory_region_find_rcu 0 4096 100 st = Some (Inr r)"
      "first_in (region_at 3 (m_global_dirty_log st) (m_regions st) (as_root (m_spaces st ! 0)) 0 False) 4096 100 r" by auto
  show ?thesis using first_in_hit [OF r(2) mem] r(1) st(1,2) by (auto simp: ulong_def)
qed

end
