(* ===== verification/Listeners.thy ===== *)
theory Listeners
  imports Address_Inv Dispatch_View
begin

text \<open>
  Memory listeners (\<open>qemu-diff/memory.c\<close>): registering and unregistering them, what a new or leaving listener is told of the current view of its address
  space, dirty-log synchronisation, and coalesced MMIO ranges, which listeners learn through callbacks too.

  Listeners are numbers; \<open>ml_has\<close> tells which callbacks one has. \<open>memory_listeners\<close> and the list of each address space are lists of numbers. A callback is an
  entry of \<open>li_calls\<close> with the listener it is called on. The region and address-space state is the one of \<open>Address_Space\<close>, whose \<open>as_listeners\<close> says that the
  list of a space is not empty. \<open>qemu_flush_coalesced_mmio_buffer\<close> is the call of listener-independent code and counted in \<open>li_flushes\<close>.
\<close>

section \<open>State\<close>

datatype listener_cb = Cb_begin | Cb_commit | Cb_log_global_start | Cb_region_add | Cb_region_del | Cb_log_start | Cb_log_stop | Cb_log_sync
  | Cb_coalesced_mmio_add | Cb_coalesced_mmio_del

datatype listener_call = Lc_begin | Lc_commit | Lc_log_global_start | Lc_region_add MemoryRegionSection | Lc_region_del MemoryRegionSection
  | Lc_log_start MemoryRegionSection u8 u8 | Lc_log_stop MemoryRegionSection u8 u8 | Lc_log_sync MemoryRegionSection
  | Lc_coalesced_mmio_add "int \<times> int" int int | Lc_coalesced_mmio_del "int \<times> int" int int

record MemoryListener =
  ml_has :: "listener_cb \<Rightarrow> bool"
  ml_priority :: nat
  ml_address_space :: "nat option"

record listen_state =
  li_mem :: mem_state
  li_listener :: "nat \<Rightarrow> MemoryListener"
  li_all :: "nat list"
  li_space :: "nat \<Rightarrow> nat list"
  li_calls :: "(nat \<times> listener_call) list"
  li_flushes :: nat

type_synonym listen_op = "listen_state \<Rightarrow> listen_state res option"

definition notify :: "nat \<Rightarrow> listener_cb \<Rightarrow> listener_call \<Rightarrow> listen_state \<Rightarrow> listen_state" where
  "notify l cb x s = (if ml_has (li_listener s l) cb then s\<lparr>li_calls := li_calls s @ [(l, x)]\<rparr> else s)"

fun each :: "('a \<Rightarrow> 's \<Rightarrow> 's res) \<Rightarrow> 'a list \<Rightarrow> 's \<Rightarrow> 's res" where
  "each f [] s = Inr s"
| "each f (x # xs) s = res_bind (f x s) (each f xs)"

text \<open>\<open>address_space_get_flatview\<close>, work on the ranges of the view, \<open>flatview_unref\<close>.\<close>

definition with_view :: "nat \<Rightarrow> (FlatRange list \<Rightarrow> listen_state \<Rightarrow> listen_state res) \<Rightarrow> listen_op" where
  "with_view i f s =
     (case as_current_map (m_spaces (li_mem s) ! i) of
        None \<Rightarrow> Some (Inl Sigsegv)
      | Some v \<Rightarrow>
          if fst (flatview_ref (m_views (li_mem s) v))
          then case f (fv_ranges (m_views (li_mem s) v)) (s\<lparr>li_mem := ref_view v (li_mem s)\<rparr>) of
                 Inl e \<Rightarrow> Some (Inl e)
               | Inr s1 \<Rightarrow> map_option (\<lambda>r. res_bind r (\<lambda>m. Inr (s1\<lparr>li_mem := m\<rparr>))) (unref_view v (li_mem s1))
          else None)"

section \<open>Registration\<close>

definition add_range :: "nat \<Rightarrow> FlatRange \<Rightarrow> listen_state \<Rightarrow> listen_state res" where
  "add_range l fr s =
     res_bind (section_from_flat_range fr) (\<lambda>sec.
       let s1 = notify l Cb_region_add (Lc_region_add sec) s
       in Inr (if fr_dirty_log_mask fr \<noteq> 0 then notify l Cb_log_start (Lc_log_start sec 0 (fr_dirty_log_mask fr)) s1 else s1))"

definition listener_add_address_space :: "nat \<Rightarrow> nat \<Rightarrow> listen_op" where
  "listener_add_address_space l i s =
     (let s1 = notify l Cb_begin Lc_begin s;
          s2 = (if m_global_dirty_log (li_mem s1) then notify l Cb_log_global_start Lc_log_global_start s1 else s1)
      in with_view i (\<lambda>frs s3. res_bind (each (add_range l) frs s3) (\<lambda>s4. Inr (notify l Cb_commit Lc_commit s4))) s2)"

definition del_range :: "nat \<Rightarrow> FlatRange \<Rightarrow> listen_state \<Rightarrow> listen_state res" where
  "del_range l fr s =
     res_bind (section_from_flat_range fr) (\<lambda>sec.
       let s1 = (if fr_dirty_log_mask fr \<noteq> 0 then notify l Cb_log_stop (Lc_log_stop sec (fr_dirty_log_mask fr) 0) s else s)
       in Inr (notify l Cb_region_del (Lc_region_del sec) s1))"

definition listener_del_address_space :: "nat \<Rightarrow> nat \<Rightarrow> listen_op" where
  "listener_del_address_space l i s =
     with_view i (\<lambda>frs s1. res_bind (each (del_range l) frs s1) (\<lambda>s2. Inr (notify l Cb_commit Lc_commit s2))) (notify l Cb_begin Lc_begin s)"

text \<open>Before the first listener with a greater priority; the loop that finds none leaves a null pointer.\<close>

fun insert_before :: "(nat \<Rightarrow> nat) \<Rightarrow> nat \<Rightarrow> nat list \<Rightarrow> nat list res" where
  "insert_before pr l [] = Inl Sigsegv"
| "insert_before pr l (other # ls) = (if pr l < pr other then Inr (l # other # ls) else res_bind (insert_before pr l ls) (\<lambda>ls'. Inr (other # ls')))"

definition insert_listener :: "(nat \<Rightarrow> nat) \<Rightarrow> nat \<Rightarrow> nat list \<Rightarrow> nat list res" where
  "insert_listener pr l ls = (if ls = [] \<or> pr l \<ge> pr (List.last ls) then Inr (ls @ [l]) else insert_before pr l ls)"

definition set_listeners :: "nat \<Rightarrow> nat list \<Rightarrow> listen_state \<Rightarrow> listen_state" where
  "set_listeners i ls s = s\<lparr>li_space := (li_space s)(i := ls), li_mem := set_space i (\<lambda>a. a\<lparr>as_listeners := (ls \<noteq> [])\<rparr>) (li_mem s)\<rparr>"

definition set_listener_space :: "nat \<Rightarrow> nat option \<Rightarrow> listen_state \<Rightarrow> listen_state" where
  "set_listener_space l i s = s\<lparr>li_listener := (li_listener s)(l := (li_listener s l)\<lparr>ml_address_space := i\<rparr>)\<rparr>"

definition memory_listener_register :: "nat \<Rightarrow> nat \<Rightarrow> listen_op" where
  "memory_listener_register l i s =
     (let s1 = set_listener_space l (Some i) s; pr = (\<lambda>l. ml_priority (li_listener s1 l)) in
      case insert_listener pr l (li_all s1) of
        Inl e \<Rightarrow> Some (Inl e)
      | Inr ls \<Rightarrow>
         (case insert_listener pr l (li_space s1 i) of
            Inl e \<Rightarrow> Some (Inl e)
          | Inr as \<Rightarrow> listener_add_address_space l i (set_listeners i as (s1\<lparr>li_all := ls\<rparr>))))"

definition memory_listener_unregister :: "nat \<Rightarrow> listen_op" where
  "memory_listener_unregister l s =
     (case ml_address_space (li_listener s l) of
        None \<Rightarrow> Some (Inr s)
      | Some i \<Rightarrow>
          map_option (\<lambda>r. res_bind r (\<lambda>s1.
              Inr (set_listener_space l None (set_listeners i (remove1 l (li_space s1 i)) (s1\<lparr>li_all := remove1 l (li_all s1)\<rparr>)))))
            (listener_del_address_space l i s))"

section \<open>Synchronising the dirty log\<close>

definition sync_range :: "nat option \<Rightarrow> nat \<Rightarrow> FlatRange \<Rightarrow> listen_state \<Rightarrow> listen_state res" where
  "sync_range mr l fr s =
     (if fr_dirty_log_mask fr \<noteq> 0 \<and> (mr = None \<or> mr = Some (fr_mr fr))
      then res_bind (section_from_flat_range fr) (\<lambda>sec. Inr (notify l Cb_log_sync (Lc_log_sync sec) s)) else Inr s)"

definition sync_listener :: "nat option \<Rightarrow> nat \<Rightarrow> listen_op" where
  "sync_listener mr l s =
     (if \<not> ml_has (li_listener s l) Cb_log_sync then Some (Inr s)
      else case ml_address_space (li_listener s l) of
             None \<Rightarrow> Some (Inl Sigsegv)
           | Some i \<Rightarrow> with_view i (\<lambda>frs. each (sync_range mr l) frs) s)"

definition memory_region_sync_dirty_bitmap :: "nat option \<Rightarrow> listen_op" where
  "memory_region_sync_dirty_bitmap mr s = render_list (sync_listener mr) (li_all s) s"

definition memory_global_dirty_log_sync :: listen_op where
  "memory_global_dirty_log_sync s = memory_region_sync_dirty_bitmap None s"

section \<open>Coalesced MMIO\<close>

text \<open>\<open>MEMORY_LISTENER_CALL\<close>: the arguments are evaluated for each listener that has the callback.\<close>

definition call_listeners :: "nat list \<Rightarrow> listener_cb \<Rightarrow> listener_call res \<Rightarrow> listen_state \<Rightarrow> listen_state res" where
  "call_listeners ls cb arg s = each (\<lambda>l s. if ml_has (li_listener s l) cb then res_bind arg (\<lambda>x. Inr (notify l cb x s)) else Inr s) ls s"

definition add_coalesced :: "nat \<Rightarrow> FlatRange \<Rightarrow> int \<times> int \<Rightarrow> AddrRange \<Rightarrow> listen_state \<Rightarrow> listen_state res" where
  "add_coalesced i fr sec cmr s =
     (let tmp = addrrange_shift cmr (r_start (fr_addr fr) - fr_offset_in_region fr) in
      if \<not> addrrange_intersects tmp (fr_addr fr) then Inr s
      else let tmp' = addrrange_intersection tmp (fr_addr fr)
        in call_listeners (li_space s i) Cb_coalesced_mmio_add
             (res_bind (int128_get64 (r_start tmp')) (\<lambda>a. res_bind (int128_get64 (r_size tmp')) (\<lambda>n. Inr (Lc_coalesced_mmio_add sec a n)))) s)"

definition coalesce_range :: "nat \<Rightarrow> nat \<Rightarrow> FlatRange \<Rightarrow> listen_state \<Rightarrow> listen_state res" where
  "coalesce_range p i fr s =
     (if fr_mr fr \<noteq> p then Inr s
      else res_bind (int128_get64 (r_start (fr_addr fr))) (\<lambda>start.
        let sec = (start, r_size (fr_addr fr)) in
        res_bind (call_listeners (rev (li_space s i)) Cb_coalesced_mmio_del
                   (res_bind (int128_get64 (r_size (fr_addr fr))) (\<lambda>n. Inr (Lc_coalesced_mmio_del sec start n))) s) (\<lambda>s1.
          each (add_coalesced i fr sec) (mr_coalesced (m_regions (li_mem s1) p)) s1)))"

definition memory_region_update_coalesced_range_as :: "nat \<Rightarrow> nat \<Rightarrow> listen_op" where
  "memory_region_update_coalesced_range_as p i s = with_view i (\<lambda>frs. each (coalesce_range p i) frs) s"

definition memory_region_update_coalesced_range :: "nat \<Rightarrow> listen_op" where
  "memory_region_update_coalesced_range p s = render_list (memory_region_update_coalesced_range_as p) [0..<length (m_spaces (li_mem s))] s"

definition on_region :: "nat \<Rightarrow> (MemoryRegion \<Rightarrow> MemoryRegion) \<Rightarrow> listen_state \<Rightarrow> listen_state" where
  "on_region p f s = s\<lparr>li_mem := set_region p f (li_mem s)\<rparr>"

definition memory_region_set_flush_coalesced :: "nat \<Rightarrow> listen_state \<Rightarrow> listen_state" where
  "memory_region_set_flush_coalesced p s = on_region p (\<lambda>mr. mr\<lparr>mr_flush_coalesced_mmio := True\<rparr>) s"

definition memory_region_add_coalescing :: "nat \<Rightarrow> int \<Rightarrow> int \<Rightarrow> listen_op" where
  "memory_region_add_coalescing p offset n s =
     map_option (\<lambda>r. res_bind r (\<lambda>s1. Inr (memory_region_set_flush_coalesced p s1)))
       (memory_region_update_coalesced_range p (on_region p (\<lambda>mr. mr\<lparr>mr_coalesced := mr_coalesced mr @ [addrrange_make offset n]\<rparr>) s))"

definition memory_region_clear_coalescing :: "nat \<Rightarrow> listen_op" where
  "memory_region_clear_coalescing p s =
     (let s1 = s\<lparr>li_flushes := li_flushes s + 1\<rparr>; updated = (mr_coalesced (m_regions (li_mem s) p) \<noteq> []);
          s2 = on_region p (\<lambda>mr. mr\<lparr>mr_flush_coalesced_mmio := False, mr_coalesced := []\<rparr>) s1
      in if updated then memory_region_update_coalesced_range p s2 else Some (Inr s2))"

definition memory_region_set_coalescing :: "nat \<Rightarrow> listen_op" where
  "memory_region_set_coalescing p s =
     (case memory_region_clear_coalescing p s of
        Some (Inr s1) \<Rightarrow>
         (case int128_get64 (mr_size (m_regions (li_mem s1) p)) of
            Inl e \<Rightarrow> Some (Inl e)
          | Inr n \<Rightarrow> memory_region_add_coalescing p 0 n s1)
      | r \<Rightarrow> r)"

definition memory_region_clear_flush_coalesced :: "nat \<Rightarrow> listen_state \<Rightarrow> listen_state" where
  "memory_region_clear_flush_coalesced p s =
     (let s1 = s\<lparr>li_flushes := li_flushes s + 1\<rparr>
      in if mr_coalesced (m_regions (li_mem s) p) = [] then on_region p (\<lambda>mr. mr\<lparr>mr_flush_coalesced_mmio := False\<rparr>) s1 else s1)"

section \<open>Working on a view\<close>

text \<open>The space has a live view whose ranges are well formed.\<close>

definition viewed :: "nat \<Rightarrow> nat \<Rightarrow> listen_state \<Rightarrow> bool" where
  "viewed i v s \<longleftrightarrow> i < length (m_spaces (li_mem s)) \<and> as_current_map (m_spaces (li_mem s) ! i) = Some v \<and> fv_ref (m_views (li_mem s) v) > 0
     \<and> flat_ok (fv_ranges (m_views (li_mem s) v)) \<and> in_space (fv_ranges (m_views (li_mem s) v))"

lemma up_to_date_viewed:
  assumes "up_to_date fuel (li_mem s)" "i < length (m_spaces (li_mem s))"
  obtains v where "viewed i v s"
proof -
  obtain v where v: "as_current_map (m_spaces (li_mem s) ! i) = Some v" "flat_ok (fv_ranges (m_views (li_mem s) v))" "in_space (fv_ranges (m_views (li_mem s) v))"
    using assms by (auto simp: up_to_date_def current_ok_def answers_def)
  have r: "view_refs (\<lambda>_. 0) (li_mem s)" using assms(1) by (simp add: up_to_date_def refs_ok_def)
  have pos: "0 < count_in v (holders (li_mem s))" using holds_current [OF assms(2) v(1)] by (simp add: holders_def add_pos_nonneg)
  have lt: "v < m_next (li_mem s)" by (rule view_refs_lt [OF r]) (simp add: pos)
  have "0 < fv_ref (m_views (li_mem s) v)" using view_refsD(1) [OF r lt] pos by simp
  then show thesis using v assms(2) by (intro that [of v]) (simp add: viewed_def)
qed

lemma unref_ref: "0 < fv_ref (m_views m v) \<Longrightarrow> unref_view v (ref_view v m) = Some (Inr m)"
  by (simp add: unref_view_def ref_view_def flatview_ref_def flatview_unref_def fun_upd_idem)

lemma with_view_ok:
  assumes "viewed i v s" "f (fv_ranges (m_views (li_mem s) v)) (s\<lparr>li_mem := ref_view v (li_mem s)\<rparr>) = Inr s1" "li_mem s1 = ref_view v (li_mem s)"
  shows "with_view i f s = Some (Inr (s1\<lparr>li_mem := li_mem s\<rparr>))"
  using assms unref_ref [of "li_mem s" v] by (simp add: with_view_def viewed_def flatview_ref_def)

definition sec_of :: "FlatRange \<Rightarrow> MemoryRegionSection" where
  "sec_of fr = \<lparr>ms_mr = Mr (fr_mr fr), ms_offset_within_region = fr_offset_in_region fr, ms_size = r_size (fr_addr fr),
     ms_offset_within_address_space = r_start (fr_addr fr), ms_readonly = fr_readonly fr\<rparr>"

lemma section_of: "flat_ok rs \<Longrightarrow> in_space rs \<Longrightarrow> fr \<in> set rs \<Longrightarrow> section_from_flat_range fr = Inr (sec_of fr)"
proof -
  assume "flat_ok rs" "in_space rs" "fr \<in> set rs"
  then have "0 \<le> r_start (fr_addr fr)" "r_start (fr_addr fr) < 18446744073709551616" by (fastforce simp: flat_ok_def in_space_def addrrange_end_def)+
  then show ?thesis by (simp add: section_from_flat_range_def sec_of_def int128_get64_def)
qed

text \<open>Work on each range that only adds calls.\<close>

lemma each_calls:
  assumes "\<And>x s. x \<in> set xs \<Longrightarrow> L s = L s0 \<Longrightarrow> f x s = Inr (s\<lparr>li_calls := li_calls s @ cs x\<rparr>)" "\<And>s c. L (s\<lparr>li_calls := c\<rparr>) = L s"
  shows "L s = L s0 \<Longrightarrow> each f xs s = Inr (s\<lparr>li_calls := li_calls s @ concat (map cs xs)\<rparr>)"
  using assms(1)
proof (induction xs arbitrary: s)
  case (Cons x xs)
  have "f x s = Inr (s\<lparr>li_calls := li_calls s @ cs x\<rparr>)" using Cons.prems by simp
  moreover have "each f xs (s\<lparr>li_calls := li_calls s @ cs x\<rparr>) = Inr (s\<lparr>li_calls := (li_calls s @ cs x) @ concat (map cs xs)\<rparr>)"
    using Cons.IH [of "s\<lparr>li_calls := li_calls s @ cs x\<rparr>"] Cons.prems assms(2) by simp
  ultimately show ?case by simp
qed simp

section \<open>Order of listeners\<close>

text \<open>Behind all listeners whose priority is not greater.\<close>

definition placed_in :: "(nat \<Rightarrow> nat) \<Rightarrow> nat \<Rightarrow> nat list \<Rightarrow> nat list" where
  "placed_in pr l ls = takeWhile (\<lambda>k. pr k \<le> pr l) ls @ l # dropWhile (\<lambda>k. pr k \<le> pr l) ls"

lemma insert_before_placed: "\<exists>k\<in>set ls. pr l < pr k \<Longrightarrow> insert_before pr l ls = Inr (placed_in pr l ls)"
proof (induction ls)
  case (Cons k ls)
  then show ?case by (cases "pr l < pr k") (auto simp: placed_in_def)
qed simp

lemma insert_listener_placed:
  assumes "sorted (map pr ls)"
  shows "insert_listener pr l ls = Inr (placed_in pr l ls)"
proof (cases "ls = [] \<or> pr l \<ge> pr (List.last ls)")
  case True
  have "pr k \<le> pr l" if "k \<in> set ls" for k
  proof -
    have "pr k \<le> pr (List.last ls)" using assms that by (induction ls) (auto split: if_splits)
    then show ?thesis using True that by auto
  qed
  then show ?thesis using True by (simp add: insert_listener_def placed_in_def takeWhile_eq_all_conv [THEN iffD2] dropWhile_eq_Nil_conv [THEN iffD2])
next
  case False
  then have "\<exists>k\<in>set ls. pr l < pr k" by (intro bexI [of _ "List.last ls"]) auto
  then show ?thesis using False insert_before_placed by (simp add: insert_listener_def)
qed

lemma placed_in_set: "set (placed_in pr l ls) = insert l (set ls)"
  unfolding placed_in_def by (metis list.simps(15) set_append takeWhile_dropWhile_id Un_insert_right)

lemma placed_in_distinct: "distinct ls \<Longrightarrow> l \<notin> set ls \<Longrightarrow> distinct (placed_in pr l ls)"
  by (induction ls) (auto simp: placed_in_def dest: set_takeWhileD set_dropWhileD)

lemma placed_in_remove: "l \<notin> set ls \<Longrightarrow> remove1 l (placed_in pr l ls) = ls"
  by (induction ls) (auto simp: placed_in_def)

lemma placed_in_sorted: "sorted (map pr ls) \<Longrightarrow> sorted (map pr (placed_in pr l ls))"
proof (induction ls)
  case (Cons k ls)
  then show ?case using placed_in_set [of pr l ls] by (auto simp: placed_in_def)
qed (simp add: placed_in_def)

text \<open>Every list is in the order of the priorities and holds the listeners of its space, the long one those of all spaces.\<close>

definition listeners_ok :: "listen_state \<Rightarrow> bool" where
  "listeners_ok s \<longleftrightarrow> sorted (map (\<lambda>l. ml_priority (li_listener s l)) (li_all s)) \<and> distinct (li_all s)
     \<and> (\<forall>l. l \<in> set (li_all s) \<longleftrightarrow> ml_address_space (li_listener s l) \<noteq> None)
     \<and> (\<forall>i. sorted (map (\<lambda>l. ml_priority (li_listener s l)) (li_space s i)) \<and> distinct (li_space s i)
          \<and> (\<forall>l. l \<in> set (li_space s i) \<longleftrightarrow> ml_address_space (li_listener s l) = Some i))
     \<and> (\<forall>i<length (m_spaces (li_mem s)). as_listeners (m_spaces (li_mem s) ! i) \<longleftrightarrow> li_space s i \<noteq> [])"

lemma listeners_okD:
  assumes "listeners_ok s"
  shows "sorted (map (\<lambda>l. ml_priority (li_listener s l)) (li_all s))" "distinct (li_all s)" "l \<in> set (li_all s) \<longleftrightarrow> ml_address_space (li_listener s l) \<noteq> None"
    "sorted (map (\<lambda>l. ml_priority (li_listener s l)) (li_space s i))" "distinct (li_space s i)" "l \<in> set (li_space s i) \<longleftrightarrow> ml_address_space (li_listener s l) = Some i"
    "i < length (m_spaces (li_mem s)) \<Longrightarrow> as_listeners (m_spaces (li_mem s) ! i) \<longleftrightarrow> li_space s i \<noteq> []"
  using assms unfolding listeners_ok_def by blast+

lemma set_listener_space_simps [simp]:
  "ml_priority (li_listener (set_listener_space l j s) k) = ml_priority (li_listener s k)" "ml_has (li_listener (set_listener_space l j s) k) = ml_has (li_listener s k)"
  "ml_address_space (li_listener (set_listener_space l j s) k) = (if k = l then j else ml_address_space (li_listener s k))"
  "li_all (set_listener_space l j s) = li_all s" "li_space (set_listener_space l j s) = li_space s" "li_calls (set_listener_space l j s) = li_calls s"
  "li_mem (set_listener_space l j s) = li_mem s"
  by (simp_all add: set_listener_space_def)

lemma set_listeners_simps [simp]:
  "li_listener (set_listeners i ls s) = li_listener s" "li_all (set_listeners i ls s) = li_all s" "li_space (set_listeners i ls s) = (li_space s)(i := ls)"
  "li_calls (set_listeners i ls s) = li_calls s" "m_views (li_mem (set_listeners i ls s)) = m_views (li_mem s)"
  "length (m_spaces (li_mem (set_listeners i ls s))) = length (m_spaces (li_mem s))" "m_global_dirty_log (li_mem (set_listeners i ls s)) = m_global_dirty_log (li_mem s)"
  "i < length (m_spaces (li_mem s)) \<Longrightarrow> as_current_map (m_spaces (li_mem (set_listeners i ls s)) ! k) = as_current_map (m_spaces (li_mem s) ! k)"
  "i < length (m_spaces (li_mem s)) \<Longrightarrow> as_listeners (m_spaces (li_mem (set_listeners i ls s)) ! k) = (if k = i then ls \<noteq> [] else as_listeners (m_spaces (li_mem s) ! k))"
  by (simp_all add: set_listeners_def set_space_def nth_list_update)

text \<open>The lists after a listener came and after it left.\<close>

lemma joined_ok:
  assumes "listeners_ok s" "ml_address_space (li_listener s l) = None" "i < length (m_spaces (li_mem s))"
  defines "pr \<equiv> \<lambda>l. ml_priority (li_listener s l)"
  shows "listeners_ok (set_listeners i (placed_in pr l (li_space s i)) (set_listener_space l (Some i) s\<lparr>li_all := placed_in pr l (li_all s)\<rparr>))"
proof -
  note ok = listeners_okD [OF assms(1)]
  have new: "l \<notin> set (li_all s)" "l \<notin> set (li_space s j)" for j using assms(2) ok(3,6) by auto
  show ?thesis
    unfolding listeners_ok_def
    using placed_in_sorted [OF ok(1)] placed_in_sorted [OF ok(4)] placed_in_distinct [OF ok(2) new(1)] placed_in_distinct [OF ok(5) new(2)] ok new assms(3)
    by (auto simp: placed_in_set pr_def placed_in_def [of _ l "[]"])
qed

lemma left_ok:
  assumes "listeners_ok s" "ml_address_space (li_listener s l) = Some i" "i < length (m_spaces (li_mem s))"
  shows "listeners_ok (set_listener_space l None (set_listeners i (remove1 l (li_space s i)) (s\<lparr>li_all := remove1 l (li_all s)\<rparr>)))"
proof -
  note ok = listeners_okD [OF assms(1)]
  have no: "l \<notin> set (li_space s j)" if "j \<noteq> i" for j using assms(2) ok(6) [of l j] that by auto
  show ?thesis
    unfolding listeners_ok_def
    using sorted_map_remove1 [OF ok(1)] sorted_map_remove1 [OF ok(4)] ok no assms(3) by (auto simp: set_remove1_eq)
qed

section \<open>What a listener is told\<close>

definition heard :: "MemoryListener \<Rightarrow> listener_cb \<Rightarrow> listener_call \<Rightarrow> listener_call list" where
  "heard L cb c = (if ml_has L cb then [c] else [])"

definition add_calls :: "MemoryListener \<Rightarrow> FlatRange \<Rightarrow> listener_call list" where
  "add_calls L fr = heard L Cb_region_add (Lc_region_add (sec_of fr))
     @ (if fr_dirty_log_mask fr \<noteq> 0 then heard L Cb_log_start (Lc_log_start (sec_of fr) 0 (fr_dirty_log_mask fr)) else [])"

definition del_calls :: "MemoryListener \<Rightarrow> FlatRange \<Rightarrow> listener_call list" where
  "del_calls L fr = (if fr_dirty_log_mask fr \<noteq> 0 then heard L Cb_log_stop (Lc_log_stop (sec_of fr) (fr_dirty_log_mask fr) 0) else [])
     @ heard L Cb_region_del (Lc_region_del (sec_of fr))"

lemma notify_heard: "notify l cb x s = s\<lparr>li_calls := li_calls s @ map (Pair l) (heard (li_listener s l) cb x)\<rparr>"
  by (simp add: notify_def heard_def)

lemma map_concat_pair: "concat (map (\<lambda>fr. map (Pair l) (f fr)) frs) = map (Pair l) (concat (map f frs))"
  by (simp add: map_concat comp_def)

text \<open>Telling a listener something of each range of a view, then ending.\<close>

lemma tell_ranges:
  assumes "viewed i v s" "\<And>fr t. fr \<in> set (fv_ranges (m_views (li_mem s) v)) \<Longrightarrow> section_from_flat_range fr = Inr (sec_of fr) \<Longrightarrow> li_listener t = li_listener s
      \<Longrightarrow> f fr t = Inr (t\<lparr>li_calls := li_calls t @ map (Pair l) (cs fr)\<rparr>)"
  shows "with_view i (\<lambda>frs s1. res_bind (each f frs s1) (\<lambda>s2. Inr (notify l Cb_commit Lc_commit s2))) s
    = Some (Inr (s\<lparr>li_calls := li_calls s @ map (Pair l) (concat (map cs (fv_ranges (m_views (li_mem s) v))) @ heard (li_listener s l) Cb_commit Lc_commit)\<rparr>))"
proof -
  let ?frs = "fv_ranges (m_views (li_mem s) v)" and ?t = "s\<lparr>li_mem := ref_view v (li_mem s)\<rparr>"
  have sec: "section_from_flat_range fr = Inr (sec_of fr)" if "fr \<in> set ?frs" for fr using section_of assms(1) that by (auto simp: viewed_def)
  have "each f ?frs ?t = Inr (?t\<lparr>li_calls := li_calls ?t @ concat (map (\<lambda>fr. map (Pair l) (cs fr)) ?frs)\<rparr>)"
    by (rule each_calls [where L = li_listener and ?s0.0 = s]) (simp_all add: assms(2) sec)
  then have "res_bind (each f ?frs ?t) (\<lambda>s2. Inr (notify l Cb_commit Lc_commit s2))
      = Inr (?t\<lparr>li_calls := li_calls s @ map (Pair l) (concat (map cs ?frs) @ heard (li_listener s l) Cb_commit Lc_commit)\<rparr>)"
    by (simp add: map_concat_pair notify_heard)
  from with_view_ok [of i v s "\<lambda>frs s1. res_bind (each f frs s1) (\<lambda>s2. Inr (notify l Cb_commit Lc_commit s2))", OF assms(1) this] show ?thesis by simp
qed

lemma add_space:
  assumes "viewed i v s"
  shows "listener_add_address_space l i s = Some (Inr (s\<lparr>li_calls := li_calls s @ map (Pair l) (heard (li_listener s l) Cb_begin Lc_begin
    @ (if m_global_dirty_log (li_mem s) then heard (li_listener s l) Cb_log_global_start Lc_log_global_start else [])
    @ concat (map (add_calls (li_listener s l)) (fv_ranges (m_views (li_mem s) v))) @ heard (li_listener s l) Cb_commit Lc_commit)\<rparr>))"
proof -
  let ?L = "li_listener s l"
  let ?pre = "heard ?L Cb_begin Lc_begin @ (if m_global_dirty_log (li_mem s) then heard ?L Cb_log_global_start Lc_log_global_start else [])"
  have v: "viewed i v (s\<lparr>li_calls := li_calls s @ map (Pair l) ?pre\<rparr>)" using assms by (simp add: viewed_def)
  have "add_range l fr t = Inr (t\<lparr>li_calls := li_calls t @ map (Pair l) (add_calls ?L fr)\<rparr>)"
    if "section_from_flat_range fr = Inr (sec_of fr)" "li_listener t = li_listener s" for fr t
    using that by (simp add: add_range_def notify_heard add_calls_def)
  with tell_ranges [OF v, of "add_range l" l "add_calls ?L"] show ?thesis
    by (cases "m_global_dirty_log (li_mem s)") (simp_all add: listener_add_address_space_def notify_heard [of l Cb_begin] notify_heard [of l Cb_log_global_start])
qed

lemma del_space:
  assumes "viewed i v s"
  shows "listener_del_address_space l i s = Some (Inr (s\<lparr>li_calls := li_calls s @ map (Pair l) (heard (li_listener s l) Cb_begin Lc_begin
    @ concat (map (del_calls (li_listener s l)) (fv_ranges (m_views (li_mem s) v))) @ heard (li_listener s l) Cb_commit Lc_commit)\<rparr>))"
proof -
  have v: "viewed i v (s\<lparr>li_calls := li_calls s @ map (Pair l) (heard (li_listener s l) Cb_begin Lc_begin)\<rparr>)" using assms by (simp add: viewed_def)
  have "del_range l fr t = Inr (t\<lparr>li_calls := li_calls t @ map (Pair l) (del_calls (li_listener s l) fr)\<rparr>)"
    if "section_from_flat_range fr = Inr (sec_of fr)" "li_listener t = li_listener s" for fr t
    using that by (simp add: del_range_def notify_heard del_calls_def)
  with tell_ranges [OF v, of "del_range l" l "del_calls (li_listener s l)"] show ?thesis by (simp add: listener_del_address_space_def notify_heard [of l Cb_begin])
qed

text \<open>The sections a listener knows after its calls.\<close>

definition hear :: "listener_call \<Rightarrow> MemoryRegionSection set \<Rightarrow> MemoryRegionSection set" where
  "hear c K = (case c of Lc_region_add sec \<Rightarrow> insert sec K | Lc_region_del sec \<Rightarrow> K - {sec} | _ \<Rightarrow> K)"

definition calls_of :: "nat \<Rightarrow> listen_state \<Rightarrow> listener_call list" where
  "calls_of l s = map snd (filter (\<lambda>c. fst c = l) (li_calls s))"

definition knows :: "nat \<Rightarrow> listen_state \<Rightarrow> MemoryRegionSection set" where
  "knows l s = fold hear (calls_of l s) {}"

lemma calls_of_pair [simp]:
  "calls_of m (s\<lparr>li_calls := li_calls s @ map (Pair l) cs\<rparr>) = calls_of m s @ (if m = l then cs else [])"
  by (auto simp: calls_of_def filter_map comp_def)

lemma hear_adds: "ml_has L Cb_region_add \<Longrightarrow> fold hear (concat (map (add_calls L) frs)) K = K \<union> sec_of ` set frs"
  by (induction frs arbitrary: K) (auto simp: add_calls_def heard_def hear_def)

lemma hear_dels: "ml_has L Cb_region_del \<Longrightarrow> fold hear (concat (map (del_calls L) frs)) K = K - sec_of ` set frs"
  by (induction frs arbitrary: K) (auto simp: del_calls_def heard_def hear_def)

lemma hear_others [simp]: "fold hear (heard L cb Lc_begin) K = K" "fold hear (heard L cb Lc_commit) K = K" "fold hear (heard L cb Lc_log_global_start) K = K"
  by (simp_all add: heard_def hear_def)

lemma add_space_heard:
  assumes "viewed i v s" "ml_has (li_listener s l) Cb_region_add"
  obtains cs where "listener_add_address_space l i s = Some (Inr (s\<lparr>li_calls := li_calls s @ map (Pair l) cs\<rparr>))"
    "\<And>K. fold hear cs K = K \<union> sec_of ` set (fv_ranges (m_views (li_mem s) v))"
  by (rule that [OF add_space [OF assms(1)]]) (simp add: hear_adds assms(2))

lemma del_space_heard:
  assumes "viewed i v s" "ml_has (li_listener s l) Cb_region_del"
  obtains cs where "listener_del_address_space l i s = Some (Inr (s\<lparr>li_calls := li_calls s @ map (Pair l) cs\<rparr>))"
    "\<And>K. fold hear cs K = K - sec_of ` set (fv_ranges (m_views (li_mem s) v))"
  by (rule that [OF del_space [OF assms(1)]]) (simp add: hear_dels assms(2))

section \<open>Registration keeps order and tells the view\<close>

lemma register_spec:
  assumes "listeners_ok s" "viewed i v s" "ml_address_space (li_listener s l) = None" "ml_has (li_listener s l) Cb_region_add"
  obtains s1 where "memory_listener_register l i s = Some (Inr s1)" "listeners_ok s1" "viewed i v s1" "li_listener s1 = (li_listener s)(l := (li_listener s l)\<lparr>ml_address_space := Some i\<rparr>)"
    "m_views (li_mem s1) = m_views (li_mem s)" "remove1 l (li_all s1) = li_all s" "(li_space s1)(i := remove1 l (li_space s1 i)) = li_space s"
    "knows l s1 = knows l s \<union> sec_of ` set (fv_ranges (m_views (li_mem s) v))" "\<And>m. m \<noteq> l \<Longrightarrow> calls_of m s1 = calls_of m s"
proof -
  note ok = listeners_okD [OF assms(1)]
  define pr where "pr l = ml_priority (li_listener s l)" for l
  let ?t = "set_listeners i (placed_in pr l (li_space s i)) (set_listener_space l (Some i) s\<lparr>li_all := placed_in pr l (li_all s)\<rparr>)"
  have i: "i < length (m_spaces (li_mem s))" using assms(2) by (simp add: viewed_def)
  have v: "viewed i v ?t" using assms(2) by (simp add: viewed_def)
  have tok: "listeners_ok ?t" using joined_ok [OF assms(1,3) i] unfolding pr_def .
  have new: "l \<notin> set (li_all s)" "l \<notin> set (li_space s i)" using assms(3) ok(3,6) by auto
  have L: "li_listener ?t l = (li_listener s l)\<lparr>ml_address_space := Some i\<rparr>" by (simp add: set_listener_space_def)
  have "insert_listener pr l (li_all s) = Inr (placed_in pr l (li_all s))" "insert_listener pr l (li_space s i) = Inr (placed_in pr l (li_space s i))"
    using insert_listener_placed [OF ok(1)] insert_listener_placed [OF ok(4)] unfolding pr_def by blast+
  then have reg: "memory_listener_register l i s = listener_add_address_space l i ?t" unfolding pr_def by (simp add: memory_listener_register_def Let_def)
  obtain cs where cs: "listener_add_address_space l i ?t = Some (Inr (?t\<lparr>li_calls := li_calls ?t @ map (Pair l) cs\<rparr>))"
      "\<And>K. fold hear cs K = K \<union> sec_of ` set (fv_ranges (m_views (li_mem s) v))"
    by (rule add_space_heard [OF v, of l]) (use assms(4) L in simp_all)
  let ?s1 = "?t\<lparr>li_calls := li_calls ?t @ map (Pair l) cs\<rparr>"
  have same: "calls_of m ?t = calls_of m s" for m by (simp add: calls_of_def)
  have "listeners_ok ?s1" using tok by (simp add: listeners_ok_def)
  moreover have "viewed i v ?s1" using v by (simp add: viewed_def)
  moreover have "knows l ?s1 = knows l s \<union> sec_of ` set (fv_ranges (m_views (li_mem s) v))" using cs(2) by (simp add: knows_def same del: set_listeners_simps)
  moreover have "calls_of m ?s1 = calls_of m s" if "m \<noteq> l" for m using that by (auto simp: calls_of_def filter_map comp_def)
  ultimately show thesis using reg cs(1) new by (intro that [of ?s1]) (simp_all add: placed_in_remove fun_upd_idem set_listener_space_def)
qed

lemma unregister_spec:
  assumes "listeners_ok s" "viewed i v s" "ml_address_space (li_listener s l) = Some i" "ml_has (li_listener s l) Cb_region_del"
  obtains s1 where "memory_listener_unregister l s = Some (Inr s1)" "listeners_ok s1" "li_all s1 = remove1 l (li_all s)" "li_space s1 = (li_space s)(i := remove1 l (li_space s i))"
    "li_listener s1 = (li_listener s)(l := (li_listener s l)\<lparr>ml_address_space := None\<rparr>)"
    "knows l s1 = knows l s - sec_of ` set (fv_ranges (m_views (li_mem s) v))" "\<And>m. m \<noteq> l \<Longrightarrow> calls_of m s1 = calls_of m s"
proof -
  obtain cs where cs: "listener_del_address_space l i s = Some (Inr (s\<lparr>li_calls := li_calls s @ map (Pair l) cs\<rparr>))"
      "\<And>K. fold hear cs K = K - sec_of ` set (fv_ranges (m_views (li_mem s) v))"
    by (rule del_space_heard [OF assms(2,4)], rule that) assumption+
  let ?u = "s\<lparr>li_calls := li_calls s @ map (Pair l) cs\<rparr>"
  let ?s1 = "set_listener_space l None (set_listeners i (remove1 l (li_space ?u i)) (?u\<lparr>li_all := remove1 l (li_all ?u)\<rparr>))"
  have "listeners_ok ?u" using assms(1) by (simp add: listeners_ok_def)
  then have ok: "listeners_ok ?s1" by (rule left_ok) (use assms(2,3) in \<open>simp_all add: viewed_def\<close>)
  have c: "calls_of m ?s1 = calls_of m ?u" for m by (simp add: calls_of_def)
  have "memory_listener_unregister l s = Some (Inr ?s1)" using assms(3) cs(1) by (simp add: memory_listener_unregister_def)
  moreover have "knows l ?s1 = knows l s - sec_of ` set (fv_ranges (m_views (li_mem s) v))" unfolding knows_def c by (simp add: cs(2))
  ultimately show thesis using ok c by (intro that [of ?s1]) (simp_all add: set_listener_space_def)
qed

text \<open>A listener that registers with an up-to-date address space is told exactly the ranges of its current view, and one that unregisters is told that all of them
  are gone; the lists of listeners stay in the order of their priorities, are as before after both, and no other listener is told anything.\<close>

theorem listener_roundtrip:
  assumes "up_to_date fuel (li_mem s)" "i < length (m_spaces (li_mem s))" "listeners_ok s" "ml_address_space (li_listener s l) = None"
    and "ml_has (li_listener s l) Cb_region_add" "ml_has (li_listener s l) Cb_region_del"
  shows "\<exists>v s1 s2. as_current_map (m_spaces (li_mem s) ! i) = Some v
    \<and> memory_listener_register l i s = Some (Inr s1) \<and> listeners_ok s1 \<and> knows l s1 = knows l s \<union> sec_of ` set (fv_ranges (m_views (li_mem s) v))
    \<and> memory_listener_unregister l s1 = Some (Inr s2) \<and> listeners_ok s2 \<and> knows l s2 = knows l s - sec_of ` set (fv_ranges (m_views (li_mem s) v))
    \<and> li_all s2 = li_all s \<and> li_space s2 = li_space s \<and> li_listener s2 = li_listener s \<and> (\<forall>m. m \<noteq> l \<longrightarrow> calls_of m s2 = calls_of m s)"
proof -
  obtain v where v: "viewed i v s" by (rule up_to_date_viewed [OF assms(1,2)])
  obtain s1 where r: "memory_listener_register l i s = Some (Inr s1)" "listeners_ok s1" "viewed i v s1" "li_listener s1 = (li_listener s)(l := (li_listener s l)\<lparr>ml_address_space := Some i\<rparr>)"
      "m_views (li_mem s1) = m_views (li_mem s)" "remove1 l (li_all s1) = li_all s" "(li_space s1)(i := remove1 l (li_space s1 i)) = li_space s"
      "knows l s1 = knows l s \<union> sec_of ` set (fv_ranges (m_views (li_mem s) v))" "\<And>m. m \<noteq> l \<Longrightarrow> calls_of m s1 = calls_of m s"
    by (rule register_spec [OF assms(3) v assms(4,5)], rule that) assumption+
  have l: "ml_address_space (li_listener s1 l) = Some i" "ml_has (li_listener s1 l) Cb_region_del" using r(4) assms(6) by simp_all
  obtain s2 where u: "memory_listener_unregister l s1 = Some (Inr s2)" "listeners_ok s2" "li_all s2 = remove1 l (li_all s1)" "li_space s2 = (li_space s1)(i := remove1 l (li_space s1 i))"
      "li_listener s2 = (li_listener s1)(l := (li_listener s1 l)\<lparr>ml_address_space := None\<rparr>)"
      "knows l s2 = knows l s1 - sec_of ` set (fv_ranges (m_views (li_mem s1) v))" "\<And>m. m \<noteq> l \<Longrightarrow> calls_of m s2 = calls_of m s1"
    by (rule unregister_spec [OF r(2,3) l], rule that) assumption+
  have "li_listener s2 = li_listener s" using u(5) r(4) assms(4) by (auto simp: fun_eq_iff)
  moreover have "knows l s2 = knows l s - sec_of ` set (fv_ranges (m_views (li_mem s) v))" using u(6) r(5,8) by auto
  ultimately show ?thesis using v r u unfolding viewed_def by (intro exI [of _ v] exI [of _ s1] exI [of _ s2]) simp
qed

lemma demo_space: "\<exists>m. up_to_date 3 m \<and> m_regions m = demo_regions \<and> length (m_spaces m) = 1 \<and> as_root (m_spaces m ! 0) = 0 \<and> \<not> m_global_dirty_log m"
proof -
  obtain m where m: "up_to_date 3 m" "m_regions m = demo_regions" "map as_root (m_spaces m) = [0]" "\<not> m_global_dirty_log m"
    using commit_spec [OF fresh_ok] by (auto simp: pend_def memory_region_transaction_begin_def fresh_memory_def)
  then show ?thesis by (intro exI [of _ m]) auto
qed

text \<open>Whether a space has listeners is of no concern for its view.\<close>

definition flagged :: "bool \<Rightarrow> mem_state \<Rightarrow> mem_state" where
  "flagged b m = m\<lparr>m_spaces := map (\<lambda>a. a\<lparr>as_listeners := b\<rparr>) (m_spaces m)\<rparr>"

lemma flagged_up_to_date: "up_to_date fuel m \<Longrightarrow> up_to_date fuel (flagged b m)"
proof -
  have c: "current_ids (map (\<lambda>a. a\<lparr>as_listeners := b\<rparr>) ss) = current_ids ss" for ss by (induction ss) (simp_all add: current_ids_def)
  show "up_to_date fuel m \<Longrightarrow> up_to_date fuel (flagged b m)"
    by (simp add: up_to_date_def refs_ok_def view_refs_def holders_def table_of_def current_ok_def eventfds_ok_def flagged_def c)
qed

text \<open>A state in which no listener is registered, and one in which listener 5 is; all have all callbacks.\<close>

definition quiet :: "mem_state \<Rightarrow> listen_state" where
  "quiet m = \<lparr>li_mem = flagged False m, li_listener = (\<lambda>_. \<lparr>ml_has = (\<lambda>_. True), ml_priority = 10, ml_address_space = None\<rparr>),
     li_all = [], li_space = (\<lambda>_. []), li_calls = [], li_flushes = 0\<rparr>"

definition busy :: "mem_state \<Rightarrow> listen_state" where
  "busy m = \<lparr>li_mem = flagged True m, li_listener = (\<lambda>l. \<lparr>ml_has = (\<lambda>_. True), ml_priority = 10, ml_address_space = (if l = 5 then Some 0 else None)\<rparr>),
     li_all = [5], li_space = (\<lambda>i. if i = 0 then [5] else []), li_calls = [], li_flushes = 0\<rparr>"

lemma quiet_ok: "listeners_ok (quiet m)" "length (m_spaces m) = 1 \<Longrightarrow> listeners_ok (busy m)"
  by (simp_all add: listeners_ok_def quiet_def busy_def flagged_def)

theorem listener_roundtrip_witness:
  "\<exists>m s1 s2. memory_listener_register 5 0 (quiet m) = Some (Inr s1) \<and> knows 5 s1 \<noteq> {} \<and> memory_listener_unregister 5 s1 = Some (Inr s2) \<and> knows 5 s2 = {}"
proof -
  obtain m where m: "up_to_date 3 m" "m_regions m = demo_regions" "length (m_spaces m) = 1" "as_root (m_spaces m ! 0) = 0" "\<not> m_global_dirty_log m" using demo_space by blast
  let ?s = "quiet m"
  have u: "up_to_date 3 (li_mem ?s)" using flagged_up_to_date [OF m(1)] by (simp add: quiet_def)
  have i: "0 < length (m_spaces (li_mem ?s))" using m(3) by (simp add: quiet_def flagged_def)
  obtain v where v: "as_current_map (m_spaces (li_mem ?s) ! 0) = Some v" "answers 3 (m_global_dirty_log (li_mem ?s)) (m_regions (li_mem ?s)) (Some (as_root (m_spaces (li_mem ?s) ! 0))) (fv_ranges (m_views (li_mem ?s) v))"
    using u i by (auto simp: up_to_date_def current_ok_def)
  have "region_at 3 False demo_regions 0 0 False 5000 \<noteq> None"
    by (simp add: region_at_Suc eval_nat_numeral Let_def demo_regions_def plain_region_def addrrange_contains_def addrrange_make_def addrrange_end_def)
  then have "view_at (fv_ranges (m_views (li_mem ?s) v)) 5000 \<noteq> None" using v(2) m by (simp add: answers_def quiet_def flagged_def)
  then have ne: "set (fv_ranges (m_views (li_mem ?s) v)) \<noteq> {}" by (auto simp: view_at_None)
  have l: "ml_address_space (li_listener ?s 5) = None" "ml_has (li_listener ?s 5) cb" "knows 5 ?s = {}" for cb by (simp_all add: quiet_def knows_def calls_of_def)
  from listener_roundtrip [OF u i quiet_ok(1) l(1,2,2)] ne v(1) l(3) show ?thesis by (intro exI [of _ m]) auto
qed

section \<open>Coalesced ranges are exact\<close>

text \<open>What the operations below read of the state, which they do not change.\<close>

definition setting :: "listen_state \<Rightarrow> (nat \<Rightarrow> MemoryListener) \<times> (nat \<Rightarrow> nat list) \<times> regions" where
  "setting s = (li_listener s, li_space s, m_regions (li_mem s))"

lemma setting_calls: "setting (s\<lparr>li_calls := c\<rparr>) = setting s" "setting (s\<lparr>li_mem := ref_view v (li_mem s)\<rparr>) = setting s"
  by (simp_all add: setting_def ref_view_def)

definition told :: "listen_state \<Rightarrow> nat list \<Rightarrow> listener_cb \<Rightarrow> listener_call \<Rightarrow> (nat \<times> listener_call) list" where
  "told s ls cb c = map (\<lambda>l. (l, c)) (filter (\<lambda>l. ml_has (li_listener s l) cb) ls)"

lemma call_listeners_told: "li_listener t = li_listener s \<Longrightarrow> call_listeners ls cb (Inr c) t = Inr (t\<lparr>li_calls := li_calls t @ told s ls cb c\<rparr>)"
  unfolding call_listeners_def by (induction ls arbitrary: t) (auto simp: told_def notify_def)

abbreviation in_range :: "FlatRange \<Rightarrow> AddrRange \<Rightarrow> AddrRange" where
  "in_range fr cmr \<equiv> addrrange_shift cmr (r_start (fr_addr fr) - fr_offset_in_region fr)"

definition part_calls :: "listen_state \<Rightarrow> nat \<Rightarrow> FlatRange \<Rightarrow> AddrRange \<Rightarrow> (nat \<times> listener_call) list" where
  "part_calls s i fr cmr =
     (if addrrange_intersects (in_range fr cmr) (fr_addr fr)
      then let p = addrrange_intersection (in_range fr cmr) (fr_addr fr)
        in told s (li_space s i) Cb_coalesced_mmio_add (Lc_coalesced_mmio_add (r_start (fr_addr fr), r_size (fr_addr fr)) (r_start p) (r_size p))
      else [])"

definition range_calls :: "listen_state \<Rightarrow> nat \<Rightarrow> nat \<Rightarrow> FlatRange \<Rightarrow> (nat \<times> listener_call) list" where
  "range_calls s p i fr =
     (if fr_mr fr \<noteq> p then []
      else told s (rev (li_space s i)) Cb_coalesced_mmio_del (Lc_coalesced_mmio_del (r_start (fr_addr fr), r_size (fr_addr fr)) (r_start (fr_addr fr)) (r_size (fr_addr fr)))
        @ concat (map (part_calls s i fr) (mr_coalesced (m_regions (li_mem s) p))))"

definition small_range :: "FlatRange \<Rightarrow> bool" where
  "small_range fr \<longleftrightarrow> 0 \<le> r_start (fr_addr fr) \<and> addrrange_end (fr_addr fr) \<le> 18446744073709551616 \<and> 0 < r_size (fr_addr fr) \<and> r_size (fr_addr fr) < 18446744073709551616"

lemma add_coalesced_calls:
  assumes "small_range fr" "0 \<le> r_size cmr" "setting t = setting s"
  shows "add_coalesced i fr (r_start (fr_addr fr), r_size (fr_addr fr)) cmr t = Inr (t\<lparr>li_calls := li_calls t @ part_calls s i fr cmr\<rparr>)"
proof (cases "addrrange_intersects (in_range fr cmr) (fr_addr fr)")
  case True
  let ?p = "addrrange_intersection (in_range fr cmr) (fr_addr fr)"
  define a b m n where "a = r_start (in_range fr cmr)" "b = r_start (fr_addr fr)" "m = r_size (fr_addr fr)" "n = r_size cmr"
  note d = this
  have F: "0 \<le> b" "b + m \<le> 18446744073709551616" "0 < m" "m < 18446744073709551616" "0 \<le> n" using assms(1,2) by (simp_all add: small_range_def addrrange_end_def d)
  have sn: "r_size (in_range fr cmr) = n" by (simp add: d addrrange_shift_def)
  have c: "a \<le> b \<and> b < a + n \<or> b \<le> a \<and> a < b + m" using True unfolding addrrange_intersects_def addrrange_contains_def addrrange_end_def sn by (simp add: d)
  have "r_start ?p = max a b" "r_size ?p = min (a + n) (b + m) - max a b"
    unfolding addrrange_intersection_def addrrange_end_def sn Let_def by (simp_all add: addrrange_make_def d)
  then have "int128_get64 (r_start ?p) = Inr (r_start ?p)" "int128_get64 (r_size ?p) = Inr (r_size ?p)"
    using c F by (auto simp: int128_get64_def max_def min_def)
  moreover have "li_listener t = li_listener s" "li_space t = li_space s" using assms(3) by (simp_all add: setting_def)
  ultimately show ?thesis using True by (simp add: add_coalesced_def part_calls_def Let_def call_listeners_told)
qed (simp add: add_coalesced_def part_calls_def)

lemma coalesce_range_calls:
  assumes "fr_mr fr = p \<longrightarrow> small_range fr" "\<forall>cmr\<in>set (mr_coalesced (m_regions (li_mem s) p)). 0 \<le> r_size cmr" "setting t = setting s"
  shows "coalesce_range p i fr t = Inr (t\<lparr>li_calls := li_calls t @ range_calls s p i fr\<rparr>)"
proof (cases "fr_mr fr = p")
  case True
  let ?sec = "(r_start (fr_addr fr), r_size (fr_addr fr))"
  have fr: "small_range fr" using True assms(1) by simp
  then have g: "int128_get64 (r_start (fr_addr fr)) = Inr (r_start (fr_addr fr))" "int128_get64 (r_size (fr_addr fr)) = Inr (r_size (fr_addr fr))"
    by (auto simp: small_range_def int128_get64_def addrrange_end_def)
  have st: "li_listener t = li_listener s" "li_space t = li_space s" "m_regions (li_mem t) = m_regions (li_mem s)" using assms(3) by (simp_all add: setting_def)
  let ?t1 = "t\<lparr>li_calls := li_calls t @ told s (rev (li_space s i)) Cb_coalesced_mmio_del (Lc_coalesced_mmio_del ?sec (r_start (fr_addr fr)) (r_size (fr_addr fr)))\<rparr>"
  have "each (add_coalesced i fr ?sec) (mr_coalesced (m_regions (li_mem s) p)) ?t1
      = Inr (?t1\<lparr>li_calls := li_calls ?t1 @ concat (map (part_calls s i fr) (mr_coalesced (m_regions (li_mem s) p)))\<rparr>)"
    by (rule each_calls [where L = setting and ?s0.0 = s]) (use assms(2,3) add_coalesced_calls [OF fr] in \<open>simp_all add: setting_calls\<close>)
  then show ?thesis using True g st by (simp add: coalesce_range_def range_calls_def call_listeners_told)
qed (simp add: coalesce_range_def range_calls_def)

definition view_ranges :: "listen_state \<Rightarrow> nat \<Rightarrow> FlatRange list" where
  "view_ranges s i = (case as_current_map (m_spaces (li_mem s) ! i) of Some v \<Rightarrow> fv_ranges (m_views (li_mem s) v) | None \<Rightarrow> [])"

text \<open>The ranges of \<open>p\<close> can be told: they do not span the whole 64-bit space, and coalesced ranges have sizes.\<close>

definition tellable :: "nat \<Rightarrow> listen_state \<Rightarrow> bool" where
  "tellable p s \<longleftrightarrow> (\<forall>i<length (m_spaces (li_mem s)). (\<exists>v. viewed i v s) \<and> (\<forall>fr\<in>set (view_ranges s i). fr_mr fr = p \<longrightarrow> r_size (fr_addr fr) < 18446744073709551616))
     \<and> (\<forall>cmr\<in>set (mr_coalesced (m_regions (li_mem s) p)). 0 \<le> r_size cmr)"

lemma update_as_calls:
  assumes "tellable p s" "i < length (m_spaces (li_mem s))"
  shows "memory_region_update_coalesced_range_as p i (s\<lparr>li_calls := c\<rparr>) = Some (Inr (s\<lparr>li_calls := c @ concat (map (range_calls s p i) (view_ranges s i))\<rparr>))"
proof -
  obtain v where v: "viewed i v s" using assms by (auto simp: tellable_def)
  let ?u = "s\<lparr>li_calls := c\<rparr>" and ?frs = "fv_ranges (m_views (li_mem s) v)"
  have frs: "view_ranges s i = ?frs" using v by (simp add: viewed_def view_ranges_def)
  have small: "fr_mr fr = p \<longrightarrow> small_range fr" if "fr \<in> set ?frs" for fr
  proof
    assume "fr_mr fr = p"
    then have "r_size (fr_addr fr) < 18446744073709551616" using assms that unfolding tellable_def frs [symmetric] by blast
    moreover have "0 < r_size (fr_addr fr)" "0 \<le> r_start (fr_addr fr)" "addrrange_end (fr_addr fr) \<le> 18446744073709551616"
      using v that unfolding viewed_def flat_ok_def in_space_def by blast+
    ultimately show "small_range fr" by (simp add: small_range_def)
  qed
  have sz: "\<forall>cmr\<in>set (mr_coalesced (m_regions (li_mem s) p)). 0 \<le> r_size cmr" using assms(1) by (simp add: tellable_def)
  have vu: "viewed i v ?u" using v by (simp add: viewed_def)
  have st: "setting (?u\<lparr>li_mem := ref_view v (li_mem ?u)\<rparr>) = setting s" by (simp add: setting_def ref_view_def)
  have "each (coalesce_range p i) ?frs (?u\<lparr>li_mem := ref_view v (li_mem ?u)\<rparr>)
      = Inr (?u\<lparr>li_mem := ref_view v (li_mem ?u)\<rparr>\<lparr>li_calls := li_calls ?u @ concat (map (range_calls s p i) ?frs)\<rparr>)"
    using each_calls [where L = setting and ?s0.0 = s and f = "coalesce_range p i" and cs = "range_calls s p i" and xs = ?frs, OF coalesce_range_calls [OF small sz] setting_calls(1) st] by simp
  from with_view_ok [where f = "\<lambda>frs. each (coalesce_range p i) frs", OF vu] this show ?thesis
    by (simp add: memory_region_update_coalesced_range_as_def frs)
qed

lemma update_calls:
  assumes "tellable p s"
  shows "memory_region_update_coalesced_range p s
    = Some (Inr (s\<lparr>li_calls := li_calls s @ concat (map (\<lambda>i. concat (map (range_calls s p i) (view_ranges s i))) [0..<length (m_spaces (li_mem s))])\<rparr>))"
proof -
  let ?f = "memory_region_update_coalesced_range_as p" and ?g = "\<lambda>i. concat (map (range_calls s p i) (view_ranges s i))"
  have "render_list ?f is (s\<lparr>li_calls := c\<rparr>) = Some (Inr (s\<lparr>li_calls := c @ concat (map ?g is)\<rparr>))" if "\<forall>i\<in>set is. i < length (m_spaces (li_mem s))" for "is" c
    using that by (induction "is" arbitrary: c) (simp_all add: update_as_calls [OF assms])
  from this [of "[0..<length (m_spaces (li_mem s))]" "li_calls s"] show ?thesis by (simp add: memory_region_update_coalesced_range_def)
qed

text \<open>The addresses a listener coalesces after its calls.\<close>

definition hear_mmio :: "listener_call \<Rightarrow> int set \<Rightarrow> int set" where
  "hear_mmio c K = (case c of Lc_coalesced_mmio_add sec a n \<Rightarrow> K \<union> {a..<a + n} | Lc_coalesced_mmio_del sec a n \<Rightarrow> K - {a..<a + n} | _ \<Rightarrow> K)"

definition coalesces :: "nat \<Rightarrow> listen_state \<Rightarrow> int set" where
  "coalesces l s = fold hear_mmio (calls_of l s) {}"

abbreviation of_listener :: "nat \<Rightarrow> (nat \<times> listener_call) list \<Rightarrow> listener_call list" where
  "of_listener l cs \<equiv> map snd (filter (\<lambda>c. fst c = l) cs)"

lemma of_told: "distinct ls \<Longrightarrow> of_listener l (told s ls cb c) = (if l \<in> set ls \<and> ml_has (li_listener s l) cb then [c] else [])"
  by (induction ls) (auto simp: told_def)

lemma of_concat: "of_listener l (concat (map f xs)) = concat (map (\<lambda>x. of_listener l (f x)) xs)"
  by (induction xs) simp_all

lemma intersection_set: "0 \<le> r_size ar \<Longrightarrow> 0 \<le> r_size br \<Longrightarrow> (if addrrange_intersects ar br then {r_start (addrrange_intersection ar br)..<r_start (addrrange_intersection ar br) + r_size (addrrange_intersection ar br)} else {})
    = {x. addrrange_contains ar x \<and> addrrange_contains br x}"
  by (auto simp: addrrange_intersects_def addrrange_contains_def addrrange_intersection_def Let_def addrrange_make_def addrrange_end_def)

lemma hear_parts:
  assumes "distinct (li_space s i)" "l \<in> set (li_space s i)" "ml_has (li_listener s l) Cb_coalesced_mmio_add" "0 \<le> r_size (fr_addr fr)"
  shows "\<forall>cmr\<in>set cmrs. 0 \<le> r_size cmr \<Longrightarrow> fold hear_mmio (of_listener l (concat (map (part_calls s i fr) cmrs))) K
    = K \<union> {x. addrrange_contains (fr_addr fr) x \<and> (\<exists>cmr\<in>set cmrs. addrrange_contains (in_range fr cmr) x)}"
proof (induction cmrs arbitrary: K)
  case (Cons cmr cmrs)
  have "0 \<le> r_size (in_range fr cmr)" using Cons.prems by (simp add: addrrange_shift_def)
  note i = intersection_set [OF this assms(4)]
  have "fold hear_mmio (of_listener l (part_calls s i fr cmr)) K = K \<union> {x. addrrange_contains (in_range fr cmr) x \<and> addrrange_contains (fr_addr fr) x}"
    unfolding i [symmetric] using assms(1-3) by (simp add: part_calls_def Let_def of_told hear_mmio_def)
  then show ?case using Cons by auto
qed simp

lemma contains_shift: "addrrange_contains (in_range fr cmr) x \<longleftrightarrow> addrrange_contains cmr (fr_offset_in_region fr + (x - r_start (fr_addr fr)))"
  by (auto simp: addrrange_contains_def addrrange_shift_def addrrange_end_def)

definition covered :: "AddrRange list \<Rightarrow> int \<Rightarrow> bool" where
  "covered cmrs off \<longleftrightarrow> (\<exists>cmr\<in>set cmrs. addrrange_contains cmr off)"

lemma hear_range:
  assumes "distinct (li_space s i)" "l \<in> set (li_space s i)" "ml_has (li_listener s l) Cb_coalesced_mmio_add" "ml_has (li_listener s l) Cb_coalesced_mmio_del"
    and "0 \<le> r_size (fr_addr fr)" "\<forall>cmr\<in>set (mr_coalesced (m_regions (li_mem s) p)). 0 \<le> r_size cmr"
  shows "x \<in> fold hear_mmio (of_listener l (range_calls s p i fr)) K
    \<longleftrightarrow> (if fr_mr fr = p \<and> addrrange_contains (fr_addr fr) x then covered (mr_coalesced (m_regions (li_mem s) p)) (fr_offset_in_region fr + (x - r_start (fr_addr fr))) else x \<in> K)"
proof (cases "fr_mr fr = p")
  case True
  have "of_listener l (told s (rev (li_space s i)) Cb_coalesced_mmio_del c) = [c]" for c using of_told [of "rev (li_space s i)"] assms(1,2,4) by simp
  then show ?thesis using True hear_parts [OF assms(1-3,5,6)]
    by (auto simp: range_calls_def hear_mmio_def contains_shift covered_def) (auto simp: addrrange_contains_def addrrange_end_def)
qed (simp add: range_calls_def)

lemma hear_view:
  assumes "distinct (li_space s i)" "l \<in> set (li_space s i)" "ml_has (li_listener s l) Cb_coalesced_mmio_add" "ml_has (li_listener s l) Cb_coalesced_mmio_del"
    and "\<forall>cmr\<in>set (mr_coalesced (m_regions (li_mem s) p)). 0 \<le> r_size cmr"
  shows "flat_ok frs \<Longrightarrow> x \<in> fold hear_mmio (of_listener l (concat (map (range_calls s p i) frs))) K
    \<longleftrightarrow> (case view_at frs x of Some (q, off, rest) \<Rightarrow> if q = p then covered (mr_coalesced (m_regions (li_mem s) p)) off else x \<in> K | None \<Rightarrow> x \<in> K)"
proof (induction frs arbitrary: K)
  case (Cons fr frs)
  let ?K = "fold hear_mmio (of_listener l (range_calls s p i fr)) K"
  note h = hear_range [OF assms(1-4) _ assms(5), of fr x K]
  have "view_at frs x = None" if "addrrange_contains (fr_addr fr) x"
    unfolding view_at_None
  proof
    fix r assume "r \<in> set frs"
    then have "addrrange_end (fr_addr fr) \<le> r_start (fr_addr r)" using Cons.prems by simp
    then show "\<not> addrrange_contains (fr_addr r) x" using that by (simp add: addrrange_contains_def)
  qed
  moreover have "view_at (fr # frs) x = (if addrrange_contains (fr_addr fr) x then Some (fr_answer fr x) else view_at frs x)" by (simp add: view_at_def)
  ultimately show ?case using Cons h by (auto simp: fr_answer_def split: option.splits)
qed (simp add: view_at_def)

lemma concat_one: "i < n \<Longrightarrow> (\<And>j. j \<noteq> i \<Longrightarrow> h j = []) \<Longrightarrow> concat (map h [0..<n]) = h i"
proof (induction n)
  case (Suc n)
  then show ?case by (cases "i = n") (auto simp: concat_eq_Nil_conv)
qed simp

lemma range_calls_other:
  assumes "l \<notin> set (li_space s j)"
  shows "of_listener l (concat (map (range_calls s p j) frs)) = []"
proof -
  have "fst c \<noteq> l" if "c \<in> set (range_calls s p j fr)" for c fr
    using that assms by (auto simp: range_calls_def part_calls_def told_def Let_def split: if_splits)
  then show ?thesis by (auto simp: filter_empty_conv)
qed

lemma update_coalesces:
  assumes "tellable p s" "listeners_ok s" "i < length (m_spaces (li_mem s))" "l \<in> set (li_space s i)" "ml_has (li_listener s l) Cb_coalesced_mmio_add" "ml_has (li_listener s l) Cb_coalesced_mmio_del"
  shows "\<exists>c. memory_region_update_coalesced_range p s = Some (Inr (s\<lparr>li_calls := c\<rparr>)) \<and> (x \<in> coalesces l (s\<lparr>li_calls := c\<rparr>)
    \<longleftrightarrow> (case view_at (view_ranges s i) x of Some (q, off, rest) \<Rightarrow> if q = p then covered (mr_coalesced (m_regions (li_mem s) p)) off else x \<in> coalesces l s | None \<Rightarrow> x \<in> coalesces l s))"
proof -
  let ?g = "\<lambda>i. concat (map (range_calls s p i) (view_ranges s i))"
  let ?c = "concat (map ?g [0..<length (m_spaces (li_mem s))])"
  note ok = listeners_okD [OF assms(2)]
  have "l \<notin> set (li_space s j)" if "j \<noteq> i" for j using ok(6) assms(4) that by force
  then have "of_listener l (?g j) = []" if "j \<noteq> i" for j using that by (intro range_calls_other)
  then have c: "of_listener l ?c = of_listener l (?g i)" unfolding of_concat [of l ?g] by (intro concat_one [OF assms(3)])
  obtain v where "viewed i v s" using assms(1,3) by (auto simp: tellable_def)
  then have "flat_ok (view_ranges s i)" by (simp add: viewed_def view_ranges_def)
  then have "x \<in> fold hear_mmio (of_listener l (?g i)) K \<longleftrightarrow> (case view_at (view_ranges s i) x of
      Some (q, off, rest) \<Rightarrow> if q = p then covered (mr_coalesced (m_regions (li_mem s) p)) off else x \<in> K | None \<Rightarrow> x \<in> K)" for K
    using hear_view [OF ok(5) assms(4-6)] assms(1) by (simp add: tellable_def)
  moreover have "coalesces l (s\<lparr>li_calls := li_calls s @ ?c\<rparr>) = fold hear_mmio (of_listener l (?g i)) (coalesces l s)"
    unfolding c [symmetric] by (simp add: coalesces_def calls_of_def)
  ultimately show ?thesis using update_calls [OF assms(1)] by (intro exI [of _ "li_calls s @ ?c"]) simp
qed

text \<open>C26: A listener coalesces exactly what a region asks for. After \<open>memory_region_add_coalescing\<close>, an address that belongs to the region in an up-to-date address space is
  coalesced by a listener of the space just when its offset lies in one of the region's coalesced ranges, the new one included; addresses of other regions and of none
  are treated as before; and accesses to the region flush the coalesced writes first. (The ranges of the region must not span the whole 64-bit space, whose size the
  call cannot pass.)\<close>

theorem coalescing_exact:
  assumes "up_to_date fuel (li_mem s)" "listeners_ok s" "0 \<le> n" "\<forall>cmr\<in>set (mr_coalesced (m_regions (li_mem s) p)). 0 \<le> r_size cmr"
    and "\<forall>j<length (m_spaces (li_mem s)). \<forall>fr\<in>set (view_ranges s j). fr_mr fr = p \<longrightarrow> r_size (fr_addr fr) < 18446744073709551616"
    and "i < length (m_spaces (li_mem s))" "l \<in> set (li_space s i)" "ml_has (li_listener s l) Cb_coalesced_mmio_add" "ml_has (li_listener s l) Cb_coalesced_mmio_del"
    and "0 \<le> x" "x < 18446744073709551616"
  shows "\<exists>s'. memory_region_add_coalescing p offset n s = Some (Inr s') \<and> mr_flush_coalesced_mmio (m_regions (li_mem s') p)
    \<and> (x \<in> coalesces l s' \<longleftrightarrow> (case region_at fuel (m_global_dirty_log (li_mem s)) (m_regions (li_mem s)) (as_root (m_spaces (li_mem s) ! i)) 0 False x of
         Some (q, off, rest) \<Rightarrow> if q = p then covered (mr_coalesced (m_regions (li_mem s) p) @ [addrrange_make offset n]) off else x \<in> coalesces l s
       | None \<Rightarrow> x \<in> coalesces l s))"
proof -
  let ?u = "on_region p (\<lambda>mr. mr\<lparr>mr_coalesced := mr_coalesced mr @ [addrrange_make offset n]\<rparr>) s"
  have u: "m_spaces (li_mem ?u) = m_spaces (li_mem s)" "m_views (li_mem ?u) = m_views (li_mem s)" "li_listener ?u = li_listener s" "li_space ?u = li_space s" "li_all ?u = li_all s"
      "li_calls ?u = li_calls s" "mr_coalesced (m_regions (li_mem ?u) p) = mr_coalesced (m_regions (li_mem s) p) @ [addrrange_make offset n]"
    by (simp_all add: on_region_def set_region_def)
  have vr: "view_ranges ?u = view_ranges s" by (rule ext) (simp only: view_ranges_def u(1,2))
  have "\<exists>v. viewed j v ?u" if j: "j < length (m_spaces (li_mem s))" for j
  proof -
    obtain v where "viewed j v s" by (rule up_to_date_viewed [OF assms(1) j])
    then show ?thesis unfolding viewed_def u by blast
  qed
  then have tell: "tellable p ?u" unfolding tellable_def u vr using assms(3-5) by (simp add: addrrange_make_def)
  have ok: "listeners_ok ?u" using assms(2) unfolding listeners_ok_def u .
  have cu: "coalesces l ?u = coalesces l s" by (simp add: coalesces_def calls_of_def u)
  obtain c where c: "memory_region_update_coalesced_range p ?u = Some (Inr (?u\<lparr>li_calls := c\<rparr>))"
      "x \<in> coalesces l (?u\<lparr>li_calls := c\<rparr>) \<longleftrightarrow> (case view_at (view_ranges s i) x of
         Some (q, off, rest) \<Rightarrow> if q = p then covered (mr_coalesced (m_regions (li_mem s) p) @ [addrrange_make offset n]) off else x \<in> coalesces l s | None \<Rightarrow> x \<in> coalesces l s)"
    using update_coalesces [OF tell ok, of i l x] assms(6-9) unfolding u cu vr by blast
  have "view_at (view_ranges s i) x = region_at fuel (m_global_dirty_log (li_mem s)) (m_regions (li_mem s)) (as_root (m_spaces (li_mem s) ! i)) 0 False x"
    using assms(1,6,10,11) by (auto simp: up_to_date_def current_ok_def answers_def view_ranges_def)
  moreover have "coalesces l (memory_region_set_flush_coalesced p t) = coalesces l t" "mr_flush_coalesced_mmio (m_regions (li_mem (memory_region_set_flush_coalesced p t)) p)" for t
    by (simp_all add: coalesces_def calls_of_def memory_region_set_flush_coalesced_def on_region_def set_region_def)
  ultimately show ?thesis using c by (simp add: memory_region_add_coalescing_def)
qed

theorem coalescing_exact_witness:
  "\<exists>m s'. memory_region_add_coalescing 3 100 8 (busy m) = Some (Inr s') \<and> 103 \<in> coalesces 5 s'"
proof -
  obtain m where m: "up_to_date 3 m" "m_regions m = demo_regions" "length (m_spaces m) = 1" "as_root (m_spaces m ! 0) = 0" "\<not> m_global_dirty_log m" using demo_space by blast
  let ?s = "busy m"
  have u: "up_to_date 3 (li_mem ?s)" using flagged_up_to_date [OF m(1)] by (simp add: busy_def)
  have b: "length (m_spaces (li_mem ?s)) = 1" "m_regions (li_mem ?s) = demo_regions" "as_root (m_spaces (li_mem ?s) ! 0) = 0" "\<not> m_global_dirty_log (li_mem ?s)"
    using m by (simp_all add: busy_def flagged_def)
  have at: "region_at 3 False demo_regions 0 0 False 103 = Some (3, 103, 0, True, False)" "region_at 3 False demo_regions 0 0 False 100000 = None"
    by (simp_all add: region_at_Suc eval_nat_numeral Let_def demo_regions_def plain_region_def addrrange_contains_def addrrange_make_def addrrange_end_def memory_region_get_dirty_log_mask_def)
  obtain v where v: "as_current_map (m_spaces (li_mem ?s) ! 0) = Some v" "answers 3 False demo_regions (Some 0) (fv_ranges (m_views (li_mem ?s) v))"
    using u b by (auto simp: up_to_date_def current_ok_def)
  have small: "r_size (fr_addr fr) < 18446744073709551616" if fr: "fr \<in> set (view_ranges ?s 0)" for fr
  proof -
    have in_v: "fr \<in> set (fv_ranges (m_views (li_mem ?s) v))" using fr v(1) by (simp add: view_ranges_def)
    then have "0 \<le> r_start (fr_addr fr)" "addrrange_end (fr_addr fr) \<le> 18446744073709551616" using v(2) unfolding answers_def in_space_def by blast+
    moreover have "view_at (fv_ranges (m_views (li_mem ?s) v)) 100000 = None" using v(2) at(2) by (simp add: answers_def)
    then have "\<not> addrrange_contains (fr_addr fr) 100000" using in_v by (simp add: view_at_None)
    ultimately show ?thesis unfolding addrrange_contains_def addrrange_end_def by linarith
  qed
  have c: "mr_coalesced (demo_regions 3) = []" by (simp add: demo_regions_def plain_region_def)
  have l: "5 \<in> set (li_space ?s 0)" "ml_has (li_listener ?s 5) cb" for cb by (simp_all add: busy_def)
  have "\<forall>j<length (m_spaces (li_mem ?s)). \<forall>fr\<in>set (view_ranges ?s j). fr_mr fr = 3 \<longrightarrow> r_size (fr_addr fr) < 18446744073709551616" using small b(1) by simp
  from coalescing_exact [OF u quiet_ok(2) [OF m(3)] _ _ this _ l(1,2,2), of 8 103 100] show ?thesis
    using b c at(1) by (intro exI [of _ m]) (auto simp: covered_def addrrange_contains_def addrrange_make_def addrrange_end_def)
qed

end
