(* ===== verification/Dirty_Memory.thy ===== *)
theory Dirty_Memory
  imports Ram_Blocks
begin

text \<open>
  The bitmaps of dirty pages (\<open>qemu-diff/exec.c\<close>): testing and clearing a range of pages, and snapshots of a range, which are taken in whole words of the bitmap.

  A bitmap of a client is a list of blocks of \<open>B\<close> bits (\<open>DIRTY_MEMORY_BLOCK_SIZE\<close>, an argument as it is defined outside of the repository, like
  the number \<open>2 ^ lvl\<close> of bits in a word). \<open>ptr\<close> is \<open>ramblock_ptr\<close>. The call of \<open>tlb_reset_dirty\<close> for every CPU is part of the result: the host address and length,
  if there is one. Page numbers are natural numbers.
\<close>

section \<open>Definitions\<close>

definition target_page_align :: "nat \<Rightarrow> int \<Rightarrow> int" where
  "target_page_align tpb x = ulong (x + 2 ^ tpb - 1) div 2 ^ tpb * 2 ^ tpb"

lemma round_less: "page < e \<Longrightarrow> 0 < (B :: nat) \<Longrightarrow> e - (page + min (e - page) (B - page mod B)) < e - page"
proof -
  have "page < e \<Longrightarrow> 0 < d \<Longrightarrow> e - (page + min (e - page) d) < e - page" for d by (auto simp: min_def)
  moreover have "0 < B - page mod B" if "0 < B" using that by simp
  ultimately show "page < e \<Longrightarrow> 0 < B \<Longrightarrow> e - (page + min (e - page) (B - page mod B)) < e - page" by blast
qed

text \<open>\<open>bitmap_test_and_clear_atomic\<close> and the copying variant, on one block.\<close>

definition any_bits :: "bitmap \<Rightarrow> nat \<Rightarrow> nat \<Rightarrow> bool" where
  "any_bits b off num = list_ex b [off..<off + num]"

definition clear_bits :: "bitmap \<Rightarrow> nat \<Rightarrow> nat \<Rightarrow> bitmap" where
  "clear_bits b off num = (\<lambda>k. if off \<le> k \<and> k < off + num then False else b k)"

type_synonym ramblock_ptr = "RAMBlock \<Rightarrow> int \<Rightarrow> int res"

definition tlb_reset_dirty_range_all :: "nat \<Rightarrow> ramblock_ptr \<Rightarrow> int \<Rightarrow> int \<Rightarrow> RAMList \<Rightarrow> ((int \<times> int) \<times> RAMList) res" where
  "tlb_reset_dirty_range_all tpb ptr start len st =
     (let e = target_page_align tpb (start + len); s = start div 2 ^ tpb * 2 ^ tpb in
      res_bind (qemu_get_ram_block s st) (\<lambda>(b, st1).
        res_bind (qemu_get_ram_block (ulong (e - 1)) st1) (\<lambda>(c, st2).
          if rb_id b \<noteq> rb_id c then Inl Assert_failed
          else res_bind (ptr b (ulong (s - rb_offset b))) (\<lambda>start1. Inr ((start1, len), st2)))))"

function clear_loop :: "nat \<Rightarrow> nat \<Rightarrow> nat \<Rightarrow> bitmap list \<Rightarrow> bool \<Rightarrow> (bool \<times> bitmap list) res" where
  "clear_loop B page e blocks dirty =
     (if \<not> page < e then Inr (dirty, blocks)
      else if B = 0 then Inl Sigfpe
      else let idx = page div B; off = page mod B; num = min (e - page) (B - off)
        in if idx < length blocks
           then clear_loop B (page + num) e (blocks[idx := clear_bits (blocks ! idx) off num]) (dirty \<or> any_bits (blocks ! idx) off num)
           else Inl Undefined)"
  by pat_completeness auto
termination by (relation "measure (\<lambda>(B, page, e, blocks, dirty). e - page)") (auto intro: round_less)

declare clear_loop.simps [simp del]

text \<open>The TLB is told only when a page was dirty.\<close>

definition cpu_physical_memory_test_and_clear_dirty :: "nat \<Rightarrow> nat \<Rightarrow> ramblock_ptr \<Rightarrow> bool \<Rightarrow> int \<Rightarrow> int \<Rightarrow> nat \<Rightarrow> RAMList
    \<Rightarrow> (bool \<times> (int \<times> int) option \<times> RAMList) res" where
  "cpu_physical_memory_test_and_clear_dirty tpb B ptr tcg start len client st =
     (if len = 0 then Inr (False, None, st)
      else if \<not> client < length (rl_dirty_memory st) then Inl Undefined
      else let e = nat (target_page_align tpb (start + len) div 2 ^ tpb); page = nat (start div 2 ^ tpb) in
        res_bind (clear_loop B page e (rl_dirty_memory st ! client) False) (\<lambda>(dirty, blocks).
          let st1 = st\<lparr>rl_dirty_memory := (rl_dirty_memory st)[client := blocks]\<rparr> in
          if dirty \<and> tcg then res_bind (tlb_reset_dirty_range_all tpb ptr start len st1) (\<lambda>(t, st2). Inr (dirty, Some t, st2))
          else Inr (dirty, None, st1)))"

record DirtyBitmapSnapshot =
  sn_start :: int
  sn_end :: int
  sn_dirty :: "bool list"

function snap_loop :: "nat \<Rightarrow> nat \<Rightarrow> nat \<Rightarrow> nat \<Rightarrow> bitmap list \<Rightarrow> bool list \<Rightarrow> (bool list \<times> bitmap list) res" where
  "snap_loop B lvl page e blocks acc =
     (if \<not> page < e then Inr (acc, blocks)
      else if B = 0 then Inl Sigfpe
      else let idx = page div B; off = page mod B; num = min (e - page) (B - off)
        in if off mod 2 ^ lvl \<noteq> 0 \<or> num mod 2 ^ lvl \<noteq> 0 then Inl Assert_failed
           else if idx < length blocks
           then snap_loop B lvl (page + num) e (blocks[idx := clear_bits (blocks ! idx) off num]) (acc @ map (blocks ! idx) [off..<off + num])
           else Inl Undefined)"
  by pat_completeness auto
termination by (relation "measure (\<lambda>(B, lvl, page, e, blocks, acc). e - page)") (auto intro: round_less)

declare snap_loop.simps [simp del]

definition cpu_physical_memory_snapshot_and_clear_dirty :: "nat \<Rightarrow> nat \<Rightarrow> nat \<Rightarrow> ramblock_ptr \<Rightarrow> bool \<Rightarrow> int \<Rightarrow> int \<Rightarrow> nat \<Rightarrow> RAMList
    \<Rightarrow> (DirtyBitmapSnapshot \<times> (int \<times> int) option \<times> RAMList) res" where
  "cpu_physical_memory_snapshot_and_clear_dirty tpb lvl B ptr tcg start len client st =
     (let align = 2 ^ (tpb + lvl); frst = start div align * align; lst = round_up (start + len) align in
      if \<not> client < length (rl_dirty_memory st) then Inl Undefined
      else res_bind (snap_loop B lvl (nat (frst div 2 ^ tpb)) (nat (lst div 2 ^ tpb)) (rl_dirty_memory st ! client) []) (\<lambda>(bits, blocks).
        let snap = \<lparr>sn_start = frst, sn_end = lst, sn_dirty = bits\<rparr>; st1 = st\<lparr>rl_dirty_memory := (rl_dirty_memory st)[client := blocks]\<rparr> in
        if tcg then res_bind (tlb_reset_dirty_range_all tpb ptr start len st1) (\<lambda>(t, st2). Inr (snap, Some t, st2))
        else Inr (snap, None, st1)))"

definition cpu_physical_memory_snapshot_get_dirty :: "nat \<Rightarrow> DirtyBitmapSnapshot \<Rightarrow> int \<Rightarrow> int \<Rightarrow> bool res" where
  "cpu_physical_memory_snapshot_get_dirty tpb snap start len =
     (if \<not> (start \<ge> sn_start snap \<and> ulong (start + len) \<le> sn_end snap) then Inl Assert_failed
      else let e = nat (target_page_align tpb (start + len - sn_start snap) div 2 ^ tpb); page = nat ((start - sn_start snap) div 2 ^ tpb)
        in if e \<le> length (sn_dirty snap) then Inr (list_ex (\<lambda>p. sn_dirty snap ! p) [page..<e]) else Inl Undefined)"

section \<open>Bits of pages\<close>

definition page_dirty :: "nat \<Rightarrow> bitmap list \<Rightarrow> nat \<Rightarrow> bool" where
  "page_dirty B blocks p \<longleftrightarrow> p div B < length blocks \<and> (blocks ! (p div B)) (p mod B)"

text \<open>One round of a loop works on pages of one block.\<close>

lemma round_pages:
  assumes "0 < (B :: nat)" "num \<le> B - page mod B"
  shows "page \<le> p \<and> p < page + num \<longleftrightarrow> p div B = page div B \<and> page mod B \<le> p mod B \<and> p mod B < page mod B + num"
proof -
  define c d where "c = B * (page div B)" "d = B * (p div B)"
  have pg: "page = c + page mod B" "page mod B < B" and pp: "p = d + p mod B" "p mod B < B" using assms(1) by (simp_all add: c_d_def)
  show ?thesis
  proof
    assume a: "page \<le> p \<and> p < page + num"
    have "c \<le> p" "p < c + B" using a pg assms(2) by linarith+
    then have "p div B = page div B" by (intro div_nat_eqI) (simp_all add: c_d_def mult.commute)
    moreover from this have "d = c" by (simp add: c_d_def)
    ultimately show "p div B = page div B \<and> page mod B \<le> p mod B \<and> p mod B < page mod B + num" using a pg(1) pp(1) by linarith
  next
    assume a: "p div B = page div B \<and> page mod B \<le> p mod B \<and> p mod B < page mod B + num"
    then have "d = c" by (simp add: c_d_def)
    then show "page \<le> p \<and> p < page + num" using a pg(1) pp(1) by linarith
  qed
qed

lemma clear_page:
  assumes "0 < B" "page div B < length blocks" "num \<le> B - page mod B"
  shows "page_dirty B (blocks[page div B := clear_bits (blocks ! (page div B)) (page mod B) num]) p \<longleftrightarrow> page_dirty B blocks p \<and> \<not> (page \<le> p \<and> p < page + num)"
  unfolding round_pages [OF assms(1,3)] using assms(2) by (auto simp: page_dirty_def clear_bits_def nth_list_update)

lemma bit_page:
  assumes "0 < B" "page div B < length blocks" "num \<le> B - page mod B" "k < num"
  shows "(blocks ! (page div B)) (page mod B + k) \<longleftrightarrow> page_dirty B blocks (page + k)"
proof -
  have "page \<le> page + k \<and> page + k < page + num" using assms(4) by simp
  then have "(page + k) div B = page div B" "page mod B \<le> (page + k) mod B" using round_pages [OF assms(1,3)] by blast+
  have "page mod B + k < B" using assms(3,4) by simp
  have "(page + k) mod B = (B * (page div B) + (page mod B + k)) mod B" by simp
  then have "(page + k) mod B = page mod B + k" unfolding mod_mult_self4 using \<open>page mod B + k < B\<close> by simp
  then show ?thesis using \<open>(page + k) div B = page div B\<close> assms(2) by (simp add: page_dirty_def)
qed

lemma any_page:
  assumes "0 < B" "page div B < length blocks" "num \<le> B - page mod B"
  shows "any_bits (blocks ! (page div B)) (page mod B) num \<longleftrightarrow> (\<exists>p. page \<le> p \<and> p < page + num \<and> page_dirty B blocks p)"
proof -
  have "any_bits (blocks ! (page div B)) (page mod B) num \<longleftrightarrow> (\<exists>k<num. (blocks ! (page div B)) (page mod B + k))"
    by (auto simp: any_bits_def list_ex_iff intro: exI [of _ "_ - page mod B"]) (metis add_diff_inverse_nat less_diff_conv2 not_less add.commute)
  also have "\<dots> \<longleftrightarrow> (\<exists>k<num. page_dirty B blocks (page + k))" using bit_page [OF assms] by blast
  also have "\<dots> \<longleftrightarrow> (\<exists>p. page \<le> p \<and> p < page + num \<and> page_dirty B blocks p)" by (metis le_add1 le_Suc_ex nat_add_left_cancel_less)
  finally show ?thesis .
qed

text \<open>What is left of a range after a round.\<close>

lemma round_ex:
  assumes "page < e" "num \<le> e - page"
  shows "(\<exists>p. page \<le> p \<and> p < e \<and> D p) \<longleftrightarrow> (\<exists>p. page \<le> p \<and> p < page + num \<and> D p) \<or> (\<exists>p. page + num \<le> p \<and> p < (e :: nat) \<and> D p)"
proof
  assume "\<exists>p. page \<le> p \<and> p < e \<and> D p"
  then obtain p where "page \<le> p" "p < e" "D p" by blast
  then show "(\<exists>p. page \<le> p \<and> p < page + num \<and> D p) \<or> (\<exists>p. page + num \<le> p \<and> p < e \<and> D p)" by (cases "p < page + num") (auto simp: not_less)
next
  assume "(\<exists>p. page \<le> p \<and> p < page + num \<and> D p) \<or> (\<exists>p. page + num \<le> p \<and> p < e \<and> D p)"
  then show "\<exists>p. page \<le> p \<and> p < e \<and> D p"
  proof (elim disjE exE)
    fix p assume p: "page \<le> p \<and> p < page + num \<and> D p"
    then have "p < e" using assms by linarith
    then show ?thesis using p by blast
  next
    fix p assume p: "page + num \<le> p \<and> p < e \<and> D p"
    then have "page \<le> p" by linarith
    then show ?thesis using p by blast
  qed
qed

lemma block_in: "0 < B \<Longrightarrow> page < e \<Longrightarrow> e \<le> B * n \<Longrightarrow> page div B < (n :: nat)"
  by (metis less_mult_imp_div_less mult.commute order_less_le_trans)

lemma clear_loop_spec:
  assumes "0 < B" "e \<le> B * length blocks"
  obtains blocks' where "clear_loop B page e blocks d = Inr (d \<or> (\<exists>p. page \<le> p \<and> p < e \<and> page_dirty B blocks p), blocks')" "length blocks' = length blocks"
    "\<And>p. page_dirty B blocks' p \<longleftrightarrow> page_dirty B blocks p \<and> \<not> (page \<le> p \<and> p < e)"
proof -
  have "\<exists>blocks'. clear_loop B page e blocks d = Inr (d \<or> (\<exists>p. page \<le> p \<and> p < e \<and> page_dirty B blocks p), blocks') \<and> length blocks' = length blocks
    \<and> (\<forall>p. page_dirty B blocks' p \<longleftrightarrow> page_dirty B blocks p \<and> \<not> (page \<le> p \<and> p < e))"
    using assms
  proof (induction B page e blocks d rule: clear_loop.induct)
    case (1 B page e blocks d)
    show ?case
    proof (cases "page < e")
      case False
      then show ?thesis by (subst clear_loop.simps) auto
    next
      case True
      define num where "num = min (e - page) (B - page mod B)"
      define bs where "bs = blocks[page div B := clear_bits (blocks ! (page div B)) (page mod B) num]"
      let ?d = "d \<or> any_bits (blocks ! (page div B)) (page mod B) num"
      have n: "num \<le> B - page mod B" "num \<le> e - page" by (simp_all add: num_def)
      have idx: "page div B < length blocks" using block_in [OF 1(2) True 1(3)] .
      have eq: "clear_loop B page e blocks d = clear_loop B (page + num) e bs ?d"
        using True idx 1(2) by (subst clear_loop.simps) (simp add: Let_def num_def bs_def)
      have p: "page_dirty B bs p \<longleftrightarrow> page_dirty B blocks p \<and> \<not> (page \<le> p \<and> p < page + num)" for p
        unfolding bs_def by (rule clear_page [OF 1(2) idx n(1)])
      from 1(1) [OF _ _ refl refl refl idx 1(2)] True 1(2,3) obtain b where b:
        "clear_loop B (page + num) e bs ?d = Inr (?d \<or> (\<exists>p. page + num \<le> p \<and> p < e \<and> page_dirty B bs p), b)" "length b = length bs"
        "\<forall>p. page_dirty B b p \<longleftrightarrow> page_dirty B bs p \<and> \<not> (page + num \<le> p \<and> p < e)"
        unfolding num_def [symmetric] bs_def [symmetric] by (auto simp: bs_def)
      have late: "page + num \<le> p \<and> p < e \<and> page_dirty B bs p \<longleftrightarrow> page + num \<le> p \<and> p < e \<and> page_dirty B blocks p" for p unfolding p by auto
      have d: "?d \<or> (\<exists>p. page + num \<le> p \<and> p < e \<and> page_dirty B bs p) \<longleftrightarrow> d \<or> (\<exists>p. page \<le> p \<and> p < e \<and> page_dirty B blocks p)"
        by (simp only: any_page [OF 1(2) idx n(1)] late round_ex [OF True n(2), of "page_dirty B blocks"] disj_assoc)
      have r: "page_dirty B b p \<longleftrightarrow> page_dirty B blocks p \<and> \<not> (page \<le> p \<and> p < e)" for p
      proof -
        have "(page \<le> p \<and> p < e) \<longleftrightarrow> (page \<le> p \<and> p < page + num) \<or> (page + num \<le> p \<and> p < e)" using n(2) True by auto
        then show ?thesis using b(3) p by blast
      qed
      show ?thesis using b(1) [unfolded d] b(2) r unfolding eq by (intro exI [of _ b]) (simp add: bs_def)
    qed
  qed
  then show thesis using that by blast
qed

text \<open>A snapshot of whole words copies the bits and clears them as the other loop does.\<close>

lemma snap_loop_spec:
  assumes "0 < B" "e \<le> B * length blocks" "2 ^ lvl dvd B" "2 ^ lvl dvd page" "2 ^ lvl dvd e"
  shows "clear_loop B page e blocks d = Inr (x, b) \<Longrightarrow> snap_loop B lvl page e blocks acc = Inr (acc @ map (page_dirty B blocks) [page..<e], b)"
  using assms
proof (induction B lvl page e blocks acc arbitrary: d rule: snap_loop.induct)
  case (1 B lvl page e blocks acc)
  show ?case
  proof (cases "page < e")
    case False
    then show ?thesis using 1(2) by (simp add: snap_loop.simps clear_loop.simps)
  next
    case True
    define num where "num = min (e - page) (B - page mod B)"
    define bs where "bs = blocks[page div B := clear_bits (blocks ! (page div B)) (page mod B) num]"
    let ?d = "d \<or> any_bits (blocks ! (page div B)) (page mod B) num" and ?acc = "acc @ map (blocks ! (page div B)) [page mod B..<page mod B + num]"
    have n: "num \<le> B - page mod B" "page + num \<le> e" using True by (simp_all add: num_def)
    have idx: "page div B < length blocks" using block_in [OF 1(3) True 1(4)] .
    have al: "2 ^ lvl dvd page mod B" "2 ^ lvl dvd num" using 1(5-7) by (auto simp: num_def min_def dvd_mod intro: dvd_diff_nat)
    then have al2: "2 ^ lvl dvd page + num" using 1(6) by simp
    have eq: "snap_loop B lvl page e blocks acc = snap_loop B lvl (page + num) e bs ?acc"
      using True idx 1(3) al by (subst snap_loop.simps) (simp add: Let_def num_def bs_def)
    have c: "clear_loop B (page + num) e bs ?d = Inr (x, b)"
      using 1(2) True idx 1(3) by (subst (asm) clear_loop.simps) (simp add: Let_def num_def bs_def)
    have ih: "snap_loop B lvl (page + num) e bs ?acc = Inr (?acc @ map (page_dirty B bs) [page + num..<e], b)"
      using 1(1) [OF _ _ refl refl refl _ idx c [unfolded num_def bs_def] 1(3) _ 1(5) al2 [unfolded num_def] 1(7)] True 1(3,4) al
      unfolding num_def [symmetric] bs_def [symmetric] by (simp add: bs_def)
    have "map (blocks ! (page div B)) [page mod B..<page mod B + num] = map (page_dirty B blocks) [page..<page + num]"
      by (rule nth_equalityI) (simp_all add: bit_page [OF 1(3) idx n(1)])
    moreover have "map (page_dirty B bs) [page + num..<e] = map (page_dirty B blocks) [page + num..<e]"
      unfolding bs_def by (simp add: clear_page [OF 1(3) idx n(1)])
    moreover have "[page..<e] = [page..<page + num] @ [page + num..<e]" using n(2) upt_add_eq_append [of page "page + num" "e - (page + num)"] by simp
    ultimately show ?thesis unfolding eq ih by simp
  qed
qed

lemma get_block_dirty:
  "qemu_get_ram_block a (st\<lparr>rl_dirty_memory := d\<rparr>) = res_bind (qemu_get_ram_block a st) (\<lambda>(b, st1). Inr (b, st1\<lparr>rl_dirty_memory := d\<rparr>))"
proof -
  have "mru_block (st\<lparr>rl_dirty_memory := d\<rparr>) = mru_block st"
    by (cases "rl_mru_block st") (simp_all add: mru_block_def block_named_def)
  then show ?thesis by (simp add: qemu_get_ram_block_def split: option.splits)
qed

lemma tlb_reset_dirty:
  assumes "tlb_reset_dirty_range_all tpb ptr start len st = Inr (t, st1)"
  shows "tlb_reset_dirty_range_all tpb ptr start len (st\<lparr>rl_dirty_memory := d\<rparr>) = Inr (t, st1\<lparr>rl_dirty_memory := d\<rparr>)"
  using assms by (auto simp: tlb_reset_dirty_range_all_def Let_def res_bind_Inr_iff get_block_dirty split: if_splits)

lemma sub_div: "0 < (P :: int) \<Longrightarrow> (a - z * P) div P = a div P - z"
  using div_mult_self1 [of P a "- z"] by simp

lemma le_div: "0 < (P :: int) \<Longrightarrow> z * P \<le> a \<Longrightarrow> z \<le> a div P"
  using zdiv_mono1 [of "z * P" a P] by simp

lemma div_lt: "0 < (P :: int) \<Longrightarrow> a < z * P \<Longrightarrow> a div P < z"
proof (rule ccontr)
  assume P: "0 < P" "a < z * P" "\<not> a div P < z"
  then have "z * P \<le> a div P * P" by (intro mult_right_mono) simp_all
  moreover have "a div P * P + a mod P = a" "0 \<le> a mod P" using P(1) by simp_all
  ultimately show False using P(2) by linarith
qed

lemma page_align_div:
  assumes "0 < x" "x + 2 ^ tpb \<le> 18446744073709551616"
  shows "target_page_align tpb x div 2 ^ tpb = (x - 1) div 2 ^ tpb + 1"
proof -
  have "0 < (2 :: int) ^ tpb" by simp
  then have "0 \<le> x + 2 ^ tpb - 1" "x + 2 ^ tpb - 1 < 18446744073709551616" using assms by linarith+
  then have "ulong (x + 2 ^ tpb - 1) = x + 2 ^ tpb - 1" by (simp add: ulong_def)
  moreover have "(x + 2 ^ tpb - 1) div 2 ^ tpb = (x - 1) div 2 ^ tpb + 1" using sub_div [of "2 ^ tpb" "x - 1" "- 1"] by (simp add: algebra_simps)
  ultimately show ?thesis by (simp add: target_page_align_def)
qed

section \<open>Properties\<close>

text \<open>The pages with an address in a range.\<close>

definition dirty_in :: "nat \<Rightarrow> nat \<Rightarrow> bitmap list \<Rightarrow> int \<Rightarrow> int \<Rightarrow> bool" where
  "dirty_in tpb B blocks a n \<longleftrightarrow> (\<exists>p. a div 2 ^ tpb \<le> int p \<and> int p \<le> (a + n - 1) div 2 ^ tpb \<and> page_dirty B blocks p)"

lemma snapshot_get_exact:
  assumes "0 \<le> z" "sn_start snap = z * 2 ^ tpb" "sn_end snap = (z + int (length (sn_dirty snap))) * 2 ^ tpb" "sn_end snap + 2 ^ tpb \<le> 18446744073709551616"
    and "sn_dirty snap = map (page_dirty B blocks) [nat z..<nat z + length (sn_dirty snap)]" "sn_start snap \<le> a" "0 < n" "a + n \<le> sn_end snap"
  shows "cpu_physical_memory_snapshot_get_dirty tpb snap a n = Inr (dirty_in tpb B blocks a n)"
proof -
  let ?P = "2 ^ tpb :: int" and ?l = "length (sn_dirty snap)"
  have P: "0 < ?P" by simp
  have s0: "0 \<le> sn_start snap" using assms(1,2) by simp
  have "0 \<le> a + n" "a + n < 18446744073709551616" using s0 assms(4,6-8) P by linarith+
  then have u: "ulong (a + n) = a + n" by (simp add: ulong_def)
  have b: "0 < a + n - sn_start snap" "a + n - sn_start snap + ?P \<le> 18446744073709551616" using s0 assms(4,6-8) by linarith+
  have x: "a + n - sn_start snap - 1 = a + n - 1 - z * ?P" by (simp add: assms(2))
  have e: "target_page_align tpb (a + n - sn_start snap) div ?P = (a + n - 1) div ?P - z + 1"
    unfolding page_align_div [OF b] x sub_div [OF P] by simp
  have pg: "(a - sn_start snap) div ?P = a div ?P - z" using sub_div [OF P] by (simp add: assms(2))
  have lo: "z \<le> a div ?P" using assms(2,6) by (intro le_div [OF P]) simp
  have hi: "(a + n - 1) div ?P < z + int ?l" using assms(3,8) by (intro div_lt [OF P]) simp
  have mid: "a div ?P \<le> (a + n - 1) div ?P" using assms(7) by (intro zdiv_mono1) simp_all
  let ?e = "nat ((a + n - 1) div ?P - z + 1)" and ?p = "nat (a div ?P - z)"
  have "?e \<le> ?l" using hi lo mid by linarith
  moreover have "list_ex (\<lambda>p. sn_dirty snap ! p) [?p..<?e] \<longleftrightarrow> dirty_in tpb B blocks a n"
  proof -
    have "sn_dirty snap ! k = page_dirty B blocks (nat z + k)" if "k < ?e" for k
    proof -
      have "k < ?l" using that \<open>?e \<le> ?l\<close> by simp
      then have "map (page_dirty B blocks) [nat z..<nat z + ?l] ! k = page_dirty B blocks (nat z + k)" by simp
      then show ?thesis using assms(5) by argo
    qed
    then have "list_ex (\<lambda>p. sn_dirty snap ! p) [?p..<?e] \<longleftrightarrow> (\<exists>k. ?p \<le> k \<and> k < ?e \<and> page_dirty B blocks (nat z + k))" by (auto simp: list_ex_iff)
    also have "\<dots> \<longleftrightarrow> dirty_in tpb B blocks a n"
    proof
      assume "\<exists>k. ?p \<le> k \<and> k < ?e \<and> page_dirty B blocks (nat z + k)"
      then obtain k where "?p \<le> k" "k < ?e" "page_dirty B blocks (nat z + k)" by blast
      moreover from this have "a div ?P \<le> int (nat z + k)" "int (nat z + k) \<le> (a + n - 1) div ?P" using assms(1) lo by linarith+
      ultimately show "dirty_in tpb B blocks a n" unfolding dirty_in_def by blast
    next
      assume "dirty_in tpb B blocks a n"
      then obtain p where p: "a div ?P \<le> int p" "int p \<le> (a + n - 1) div ?P" "page_dirty B blocks p" unfolding dirty_in_def by blast
      then have "?p \<le> p - nat z" "p - nat z < ?e" "nat z + (p - nat z) = p" using assms(1) lo by linarith+
      then show "\<exists>k. ?p \<le> k \<and> k < ?e \<and> page_dirty B blocks (nat z + k)" using p(3) by metis
    qed
    finally show ?thesis .
  qed
  ultimately show ?thesis using assms(6,8) u e pg by (simp add: cpu_physical_memory_snapshot_get_dirty_def Let_def)
qed

text \<open>C27: A snapshot of the dirty bitmap is exact. It answers for every range inside the words it covers, which enclose the range it was asked for, whether one
  of the range's pages was dirty when it was taken, and afterwards exactly the pages it covers are clean, those outside of the range that was asked for included;
  the bitmaps of the other clients are untouched.\<close>

theorem dirty_snapshot_exact:
  assumes "0 < B" "2 ^ lvl dvd B" "client < length (rl_dirty_memory st)" "0 \<le> start" "0 < len" "start + len + 2 * 2 ^ (tpb + lvl) \<le> 18446744073709551616"
    and "nat ((start + len - 1) div 2 ^ (tpb + lvl) + 1) * 2 ^ lvl \<le> B * length (rl_dirty_memory st ! client)"
    and "tcg \<longrightarrow> (\<exists>t st1. tlb_reset_dirty_range_all tpb ptr start len st = Inr (t, st1))"
  shows "\<exists>snap t st'. cpu_physical_memory_snapshot_and_clear_dirty tpb lvl B ptr tcg start len client st = Inr (snap, t, st')
    \<and> sn_start snap \<le> start \<and> start + len \<le> sn_end snap
    \<and> (\<forall>a n. sn_start snap \<le> a \<and> 0 < n \<and> a + n \<le> sn_end snap
        \<longrightarrow> cpu_physical_memory_snapshot_get_dirty tpb snap a n = Inr (dirty_in tpb B (rl_dirty_memory st ! client) a n))
    \<and> (\<forall>p. page_dirty B (rl_dirty_memory st' ! client) p \<longleftrightarrow> page_dirty B (rl_dirty_memory st ! client) p \<and> \<not> (sn_start snap \<le> int p * 2 ^ tpb \<and> int p * 2 ^ tpb < sn_end snap))
    \<and> (\<forall>c. c \<noteq> client \<longrightarrow> rl_dirty_memory st' ! c = rl_dirty_memory st ! c)"
proof -
  let ?P = "2 ^ tpb :: int" and ?W = "2 ^ lvl :: int" and ?A = "2 ^ (tpb + lvl) :: int" and ?old = "rl_dirty_memory st ! client"
  have pos: "0 < ?P" "0 < ?W" "0 < ?A" "?A = ?W * ?P" "?P \<le> ?A" by (simp_all add: power_add mult.commute)
  define q r where "q = start div ?A" "r = (start + len - 1) div ?A + 1"
  have q0: "0 \<le> q" using assms(4) pos(3) by (simp add: q_r_def pos_imp_zdiv_nonneg_iff)
  have qr: "q < r" using zdiv_mono1 [of start "start + len - 1" ?A] assms(5) pos(3) by (simp add: q_r_def)
  have ul: "ulong (start + len + ?A - 1) = start + len + ?A - 1" using assms(4-6) pos(3) by (intro ulong_id) linarith+
  have rr: "(start + len + ?A - 1) div ?A = r" using sub_div [OF pos(3), of "start + len - 1" "- 1"] by (simp add: q_r_def algebra_simps)
  have lst: "round_up (start + len) ?A = r * ?A" by (simp add: round_up_def ul rr)
  have fr: "q * ?A \<le> start" using pos(3) assms(4) by (metis div_mult_mod_eq add_le_same_cancel1 q_r_def(1) pos_mod_sign le_add_same_cancel1)
  have m: "(start + len - 1) div ?A * ?A + (start + len - 1) mod ?A = start + len - 1" "(start + len - 1) mod ?A < ?A" "0 \<le> (start + len - 1) mod ?A"
    by (rule div_mult_mod_eq) (use pos(3) in simp_all)
  have end1: "start + len \<le> r * ?A" unfolding q_r_def distrib_right using m(1,2) by linarith
  have end2: "r * ?A + ?P \<le> 18446744073709551616" unfolding q_r_def distrib_right using m(1,3) assms(6) pos(5) by linarith
  have divs: "q * ?A div ?P = q * ?W" "r * ?A div ?P = r * ?W" using pos(1,4) by (simp_all add: mult.assoc [symmetric])
  let ?p = "nat (q * ?W)" and ?e = "nat (r * ?W)"
  have pe: "?p \<le> ?e" "int ?p = q * ?W" "int ?e = r * ?W" using q0 qr pos(2) by (simp_all add: nat_mono mult_right_mono)
  have dv: "2 ^ lvl dvd ?p" "2 ^ lvl dvd ?e" using q0 qr by (simp_all add: nat_mult_distrib nat_power_eq)
  have el: "?e \<le> B * length ?old" using assms(7) qr q0 by (simp add: q_r_def nat_mult_distrib nat_power_eq)
  obtain b where b: "clear_loop B ?p ?e ?old False = Inr (False \<or> (\<exists>p. ?p \<le> p \<and> p < ?e \<and> page_dirty B ?old p), b)" "length b = length ?old"
      "\<And>p. page_dirty B b p \<longleftrightarrow> page_dirty B ?old p \<and> \<not> (?p \<le> p \<and> p < ?e)"
    by (rule clear_loop_spec [OF assms(1) el], rule that) assumption+
  have sl: "snap_loop B lvl ?p ?e ?old [] = Inr (map (page_dirty B ?old) [?p..<?e], b)"
    using snap_loop_spec [OF assms(1) el assms(2) dv b(1), of "[]"] by simp
  define snap where "snap = \<lparr>sn_start = q * ?A, sn_end = r * ?A, sn_dirty = map (page_dirty B ?old) [?p..<?e]\<rparr>"
  obtain t st' where run: "cpu_physical_memory_snapshot_and_clear_dirty tpb lvl B ptr tcg start len client st = Inr (snap, t, st')" "rl_dirty_memory st' = (rl_dirty_memory st)[client := b]"
  proof -
    let ?st = "st\<lparr>rl_dirty_memory := (rl_dirty_memory st)[client := b]\<rparr>"
    have f: "start div ?A * ?A = q * ?A" by (simp add: q_r_def)
    have c: "cpu_physical_memory_snapshot_and_clear_dirty tpb lvl B ptr tcg start len client st
        = (if tcg then res_bind (tlb_reset_dirty_range_all tpb ptr start len ?st) (\<lambda>(t, st2). Inr (snap, Some t, st2)) else Inr (snap, None, ?st))"
      unfolding cpu_physical_memory_snapshot_and_clear_dirty_def Let_def f lst divs using sl assms(3) by (simp add: snap_def)
    show thesis
    proof (cases tcg)
      case True
      then obtain t st1 where "tlb_reset_dirty_range_all tpb ptr start len st = Inr (t, st1)" using assms(8) by blast
      then show thesis using True c by (intro that [of "Some t" "st1\<lparr>rl_dirty_memory := (rl_dirty_memory st)[client := b]\<rparr>"]) (simp_all add: tlb_reset_dirty)
    qed (use c in \<open>auto intro: that [of None ?st]\<close>)
  qed
  have len: "length (sn_dirty snap) = ?e - ?p" by (simp add: snap_def)
  have le: "q * ?W + int (?e - ?p) = r * ?W" using pe by (simp add: of_nat_diff)
  have get: "cpu_physical_memory_snapshot_get_dirty tpb snap a n = Inr (dirty_in tpb B ?old a n)" if "sn_start snap \<le> a \<and> 0 < n \<and> a + n \<le> sn_end snap" for a n
  proof (rule snapshot_get_exact [of "q * ?W"])
    show "sn_end snap = (q * ?W + int (length (sn_dirty snap))) * ?P" unfolding len le by (simp add: snap_def pos(4))
    show "sn_dirty snap = map (page_dirty B ?old) [?p..<?p + length (sn_dirty snap)]" unfolding len using pe(1) by (simp add: snap_def)
  qed (use that q0 end2 pos(2,4) in \<open>simp_all add: snap_def\<close>)
  have clean: "page_dirty B b p \<longleftrightarrow> page_dirty B ?old p \<and> \<not> (sn_start snap \<le> int p * ?P \<and> int p * ?P < sn_end snap)" for p
  proof -
    have "q * ?A \<le> int p * ?P \<longleftrightarrow> q * ?W \<le> int p" "int p * ?P < r * ?A \<longleftrightarrow> int p < r * ?W"
      unfolding pos(4) mult.assoc [symmetric] using pos(1) by simp_all
    moreover have "?p \<le> p \<longleftrightarrow> q * ?W \<le> int p" "p < ?e \<longleftrightarrow> int p < r * ?W" using pe by linarith+
    ultimately show ?thesis unfolding b(3) by (simp add: snap_def)
  qed
  show ?thesis using run get clean fr end1 assms(3) by (intro exI [of _ snap] exI [of _ t] exI [of _ st']) (simp add: snap_def)
qed

text \<open>A bitmap of two blocks of four bits in which page 1 is dirty.\<close>

definition small_bitmaps :: RAMList where
  "small_bitmaps = \<lparr>rl_blocks = [], rl_mru_block = None, rl_version = 0, rl_dirty_memory = [[\<lambda>k. k = 1, \<lambda>_. False]], rl_calls = []\<rparr>"

theorem dirty_snapshot_exact_witness:
  "\<exists>snap t st'. cpu_physical_memory_snapshot_and_clear_dirty 12 1 4 (\<lambda>_ _. Inl Undefined) False 0 8192 0 small_bitmaps = Inr (snap, t, st')
    \<and> cpu_physical_memory_snapshot_get_dirty 12 snap 0 4096 = Inr False \<and> cpu_physical_memory_snapshot_get_dirty 12 snap 4096 4096 = Inr True
    \<and> \<not> page_dirty 4 (rl_dirty_memory st' ! 0) 1"
proof -
  have d: "dirty_in 12 4 (rl_dirty_memory small_bitmaps ! 0) 0 4096 = False" "dirty_in 12 4 (rl_dirty_memory small_bitmaps ! 0) 4096 4096"
    by (auto simp: dirty_in_def page_dirty_def small_bitmaps_def intro: exI [of _ 1])
  have "\<exists>snap t st'. cpu_physical_memory_snapshot_and_clear_dirty 12 1 4 (\<lambda>_ _. Inl Undefined) False 0 8192 0 small_bitmaps = Inr (snap, t, st')
    \<and> sn_start snap \<le> 0 \<and> 0 + 8192 \<le> sn_end snap
    \<and> (\<forall>a n. sn_start snap \<le> a \<and> 0 < n \<and> a + n \<le> sn_end snap
        \<longrightarrow> cpu_physical_memory_snapshot_get_dirty 12 snap a n = Inr (dirty_in 12 4 (rl_dirty_memory small_bitmaps ! 0) a n))
    \<and> (\<forall>p. page_dirty 4 (rl_dirty_memory st' ! 0) p \<longleftrightarrow> page_dirty 4 (rl_dirty_memory small_bitmaps ! 0) p \<and> \<not> (sn_start snap \<le> int p * 2 ^ 12 \<and> int p * 2 ^ 12 < sn_end snap))
    \<and> (\<forall>c. c \<noteq> 0 \<longrightarrow> rl_dirty_memory st' ! c = rl_dirty_memory small_bitmaps ! c)"
    by (rule dirty_snapshot_exact) (simp_all add: small_bitmaps_def)
  then obtain snap t st' where w: "cpu_physical_memory_snapshot_and_clear_dirty 12 1 4 (\<lambda>_ _. Inl Undefined) False 0 8192 0 small_bitmaps = Inr (snap, t, st')"
      "sn_start snap \<le> 0" "8192 \<le> sn_end snap" "\<And>a n. sn_start snap \<le> a \<Longrightarrow> 0 < n \<Longrightarrow> a + n \<le> sn_end snap
        \<Longrightarrow> cpu_physical_memory_snapshot_get_dirty 12 snap a n = Inr (dirty_in 12 4 (rl_dirty_memory small_bitmaps ! 0) a n)"
      "\<And>p. page_dirty 4 (rl_dirty_memory st' ! 0) p \<Longrightarrow> \<not> (sn_start snap \<le> int p * 2 ^ 12 \<and> int p * 2 ^ 12 < sn_end snap)" by auto
  have "\<not> page_dirty 4 (rl_dirty_memory st' ! 0) 1" using w(5) [of 1] w(2,3) by auto
  then show ?thesis using w(1) w(4) [of 0 4096] w(4) [of 4096 4096] w(2,3) d by (intro exI [of _ snap] exI [of _ t] exI [of _ st']) simp
qed

end
