(* ===== verification/Ram_Discard.thy ===== *)
theory Ram_Discard
  imports Guest_Image Dirty_Memory
begin

text \<open>
  Discarding and remapping parts of RAM blocks (\<open>qemu-diff/exec.c\<close>), on blocks of a raw file and of a pcow image.

  Both operations take an offset in the block for an offset in the file behind it, as in upstream QEMU, where a block is a plain file. The file behind a descriptor
  is given by \<open>de_file\<close>. A page of the model shows its file, so dropping the pages of a mapping (\<open>MADV_DONTNEED\<close>) does not change what is shown;
  the range is part of the result. A private mapping shows the file until it is written to.
\<close>

section \<open>Definitions\<close>

text \<open>What the build and the host answer: whether \<open>CONFIG_FALLOCATE_PUNCH_HOLE\<close> and \<open>CONFIG_MADVISE\<close> are set, the \<open>errno\<close> of a call of
  \<open>fallocate\<close> and of \<open>madvise\<close> (0 when it succeeds), and \<open>qemu_host_page_size\<close>.\<close>

record discard_env =
  de_punch_hole :: bool
  de_madvise :: bool
  de_fallocate_err :: int
  de_madvise_err :: int
  de_host_page :: int
  de_file :: "int \<Rightarrow> cstr"

definition ENOSYS :: int where "ENOSYS = 38"

definition EINVAL :: int where "EINVAL = 22"

text \<open>\<open>fallocate\<close> with \<open>FALLOC_FL_PUNCH_HOLE\<close> and \<open>FALLOC_FL_KEEP_SIZE\<close>: the range reads as zeros, the size stays. A negative offset or a length that is
  not positive is refused.\<close>

definition punch_hole :: "int \<Rightarrow> int \<Rightarrow> pm_file \<Rightarrow> pm_file" where
  "punch_hole off len f = f\<lparr>bytes := (\<lambda>x. if off \<le> x \<and> x < off + len then 0 else bytes f x)\<rparr>"

text \<open>The part for blocks on files; the first component is \<open>ret\<close>.\<close>

definition discard_file :: "discard_env \<Rightarrow> RAMBlock \<Rightarrow> int \<Rightarrow> int \<Rightarrow> ram_host \<Rightarrow> int \<times> ram_host" where
  "discard_file de rb start len h =
     (if \<not> de_punch_hole de then (- ENOSYS, h)
      else if de_fallocate_err de \<noteq> 0 then (- de_fallocate_err de, h)
      else if start \<ge> 2 ^ 63 \<or> len = 0 \<or> len \<ge> 2 ^ 63 then (- EINVAL, h)
      else (0, set_file (de_file de (rb_fd rb)) (punch_hole start len) h))"

text \<open>The result is the value returned, the range that \<open>madvise\<close> dropped, and the host.\<close>

definition ram_block_discard_range :: "discard_env \<Rightarrow> RAMBlock \<Rightarrow> int \<Rightarrow> int \<Rightarrow> ram_host \<Rightarrow> int \<times> (int \<times> int) option \<times> ram_host" where
  "ram_block_discard_range de rb start len h =
     (let host_startaddr = ulong (rb_host rb + start); host_endaddr = ulong (host_startaddr + len); mask = rb_page_size rb - 1 in
      if host_startaddr AND mask \<noteq> 0 then (- 1, None, h)
      else if \<not> ulong (start + len) \<le> rb_used_length rb then (- 1, None, h)
      else if host_endaddr AND mask \<noteq> 0 then (- 1, None, h)
      else
        let need_madvise = (rb_page_size rb = de_host_page de); need_fallocate = (rb_fd rb \<noteq> - 1);
            (ret, h1) = (if need_fallocate then discard_file de rb start len h else (- 1, h))
        in if need_fallocate \<and> ret \<noteq> 0 then (ret, None, h1)
           else if \<not> need_madvise then (ret, None, h1)
           else if \<not> de_madvise de then (- ENOSYS, None, h1)
           else if de_madvise_err de \<noteq> 0 then (- de_madvise_err de, None, h1)
           else (0, Some (host_startaddr, len), h1))"

definition memory_try_enable_merging :: "host_env \<Rightarrow> int \<Rightarrow> int \<Rightarrow> ram_call list" where
  "memory_try_enable_merging he a n = (if he_merge he then [Merge_advice a n] else [])"

definition qemu_ram_setup_dump :: "host_env \<Rightarrow> int \<Rightarrow> int \<Rightarrow> ram_call list" where
  "qemu_ram_setup_dump he a n = (if he_dump_core he then [] else [Dump_advice a n])"

text \<open>The new mapping of a range, \<open>MAP_FIXED\<close>; \<open>None\<close> is \<open>MAP_FAILED\<close>. Anonymous pages show no file.\<close>

definition remap_pages :: "cstr option \<Rightarrow> int \<Rightarrow> int \<Rightarrow> int \<Rightarrow> ram_host \<Rightarrow> ram_host option" where
  "remap_pages fdo a len off h =
     (if len = 0 \<or> a mod PAGE_SIZE \<noteq> 0 \<or> off mod PAGE_SIZE \<noteq> 0 then None
      else Some (h\<lparr>rh_resv := (\<lambda>p. rh_resv h p \<and> \<not> in_pages a len p),
        rh_cow := (rh_cow h)\<lparr>vm := (case fdo of None \<Rightarrow> munmap a len (vm (rh_cow h)) | Some fdn \<Rightarrow> mmap_fixed a len True fdn off (vm (rh_cow h)))\<rparr>\<rparr>))"

fun remap_blocks :: "kernel_env \<Rightarrow> discard_env \<Rightarrow> ramblock_ptr \<Rightarrow> int \<Rightarrow> int \<Rightarrow> RAMBlock list \<Rightarrow> ram_host \<Rightarrow> ram_call list
    \<Rightarrow> (ram_host \<times> ram_call list) res" where
  "remap_blocks ke de ptr ramaddr len [] h cs = Inr (h, cs)"
| "remap_blocks ke de ptr ramaddr len (b # bs) h cs =
     (let offset = ulong (ramaddr - rb_offset b) in
      if \<not> offset < rb_max_length b then remap_blocks ke de ptr ramaddr len bs h cs
      else res_bind (ptr b offset) (\<lambda>vaddr.
        if rb_flags b AND RAM_PREALLOC \<noteq> 0 then remap_blocks ke de ptr ramaddr len bs h cs
        else if he_xen (ke_host ke) \<noteq> None then Inl Assert_failed
        else if rb_fd b < 0 \<and> ke_other_alloc ke then Inl Assert_failed
        else case remap_pages (if rb_fd b \<ge> 0 then Some (de_file de (rb_fd b)) else None) vaddr len (if rb_fd b \<ge> 0 then offset else 0) h of
            None \<Rightarrow> Inl Exit_failure
          | Some h1 \<Rightarrow> remap_blocks ke de ptr ramaddr len bs h1
              (cs @ memory_try_enable_merging (ke_host ke) vaddr len @ qemu_ram_setup_dump (ke_host ke) vaddr len)))"

definition qemu_ram_remap :: "kernel_env \<Rightarrow> discard_env \<Rightarrow> ramblock_ptr \<Rightarrow> int \<Rightarrow> int \<Rightarrow> ram_world \<Rightarrow> ram_world res" where
  "qemu_ram_remap ke de ptr ramaddr len w =
     res_bind (remap_blocks ke de ptr ramaddr len (rl_blocks (rw_list w)) (rw_host w) [])
       (\<lambda>(h, cs). Inr (w\<lparr>rw_host := h, rw_list := (rw_list w)\<lparr>rl_calls := rl_calls (rw_list w) @ cs\<rparr>\<rparr>))"

section \<open>Discarding\<close>

lemma and_page_mask: "a AND 4095 = (a mod 4096 :: int)"
  using take_bit_eq_mask [of 12 a] by (simp add: take_bit_eq_mod mask_eq_exp_minus_1)

lemma discard_run:
  assumes "rb_host rb mod 4096 = 0" "start mod 4096 = 0" "len mod 4096 = 0" "0 \<le> rb_host rb" "0 \<le> start" "0 < len" "start + len \<le> rb_used_length rb"
    and "rb_host rb + rb_used_length rb < 2 ^ 63" "rb_page_size rb = 4096" "de_host_page de = 4096" "0 \<le> rb_fd rb"
    and "de_punch_hole de" "de_madvise de" "de_fallocate_err de = 0" "de_madvise_err de = 0"
  shows "ram_block_discard_range de rb start len h
    = (0, Some (rb_host rb + start, len), set_file (de_file de (rb_fd rb)) (punch_hole start len) h)"
proof -
  have u: "ulong (rb_host rb + start) = rb_host rb + start" "ulong (rb_host rb + start + len) = rb_host rb + start + len" "ulong (start + len) = start + len"
    using assms(4-8) by (simp_all add: ulong_id)
  have m: "(rb_host rb + start) mod 4096 = 0" "(rb_host rb + start + len) mod 4096 = 0" using assms(1-3) by (simp_all add: mod_eq_0_iff_dvd)
  show ?thesis unfolding ram_block_discard_range_def Let_def u using assms m
    by (simp add: and_page_mask discard_file_def)
qed

text \<open>What a page of a block shows after a hole was punched in its file.\<close>

lemma punch_shown: "vm_byte (files (rh_cow (set_file fdn (punch_hole off len) h))) (vm (rh_cow (set_file fdn (punch_hole off len) h))) a
   = (case vm (rh_cow h) (page_of a) of None \<Rightarrow> None
      | Some v \<Rightarrow> if vp_fd v = fdn \<and> off \<le> vp_off v + a mod PAGE_SIZE \<and> vp_off v + a mod PAGE_SIZE < off + len then Some 0
          else vm_byte (files (rh_cow h)) (vm (rh_cow h)) a)"
  by (auto simp: vm_byte_def set_file_def punch_hole_def split: option.splits)

text \<open>A block on a raw file, as \<open>qemu_ram_mmap\<close> maps it (\<open>raw_ram_mmap\<close>).\<close>

definition shows_file :: "ram_host \<Rightarrow> int \<Rightarrow> int \<Rightarrow> cstr \<Rightarrow> bool" where
  "shows_file h base n fdn \<longleftrightarrow> (\<forall>u. in_pages base n u \<longrightarrow> vm (rh_cow h) u = Some \<lparr>vp_fd = fdn, vp_off = u * PAGE_SIZE - base, vp_write = True\<rparr>)"

lemma in_pages_byte: "base mod 4096 = 0 \<Longrightarrow> n mod 4096 = 0 \<Longrightarrow> in_pages base n (page_of a) \<longleftrightarrow> base \<le> a \<and> a < base + n"
proof -
  assume a: "base mod 4096 = 0" "n mod 4096 = 0"
  obtain k m where k: "base = 4096 * k" "n = 4096 * m" using a by (auto simp: mod_eq_0_iff_dvd elim!: dvdE)
  have "in_pages base n (page_of a) \<longleftrightarrow> k \<le> a div 4096 \<and> a div 4096 < k + m"
    using in_pages_aligned [of base n "page_of a"] a by (simp add: PAGE_SIZE_def page_of_def k)
  then show ?thesis unfolding k by linarith
qed

lemma page_split: "page_of a * PAGE_SIZE + a mod PAGE_SIZE = a"
  by (simp add: page_of_def)

lemma discard_exact:
  assumes "rb_host rb mod 4096 = 0" "start mod 4096 = 0" "len mod 4096 = 0" "0 \<le> rb_host rb" "0 \<le> start" "0 < len" "start + len \<le> rb_used_length rb"
    and "rb_host rb + rb_used_length rb < 2 ^ 63" "rb_page_size rb = 4096" "de_host_page de = 4096" "0 \<le> rb_fd rb"
    and "de_punch_hole de" "de_madvise de" "de_fallocate_err de = 0" "de_madvise_err de = 0"
    and "shows_file h (rb_host rb) n (de_file de (rb_fd rb))" "n mod 4096 = 0" "0 \<le> x" "x < n"
  shows "\<exists>t h'. ram_block_discard_range de rb start len h = (0, t, h')
    \<and> vm_byte (files (rh_cow h')) (vm (rh_cow h')) (rb_host rb + x)
       = (if start \<le> x \<and> x < start + len then Some 0 else vm_byte (files (rh_cow h)) (vm (rh_cow h)) (rb_host rb + x))"
proof -
  have i: "in_pages (rb_host rb) n (page_of (rb_host rb + x))" using in_pages_byte [OF assms(1,17)] assms(18,19) by simp
  have o: "page_of (rb_host rb + x) * PAGE_SIZE - rb_host rb + (rb_host rb + x) mod PAGE_SIZE = x" using page_split [of "rb_host rb + x"] by linarith
  show ?thesis unfolding discard_run [OF assms(1-15)] using assms(16) i o by (simp add: punch_shown shows_file_def)
qed

section \<open>Data blocks of an image\<close>

text \<open>No data block lies in the first two blocks of the file.\<close>

lemma data_at_ge: "wf_bs bs \<Longrightarrow> 0 \<le> k \<Longrightarrow> off + 2 * bs \<le> data_at off bs k"
proof -
  assume a: "wf_bs bs" "0 \<le> k"
  have m: "0 < mps_of bs" "0 < bs" using mps_ge [OF a(1)] wf_bsD(1) [OF a(1)] by simp_all
  have "0 \<le> k div mps_of bs * (1 + mps_of bs) + k mod mps_of bs" using m a(2) by (simp add: pos_imp_zdiv_nonneg_iff)
  then have "bs * 2 \<le> bs * (2 + k div mps_of bs * (1 + mps_of bs) + k mod mps_of bs)" using m by (intro mult_left_mono) linarith+
  then show ?thesis by (simp add: data_index)
qed

lemma layer_map_ge:
  assumes "wf_bs bs" "\<And>b d w. M b = Some (d, w) \<Longrightarrow> lo \<le> d" "lo \<le> off + 2 * bs" "layer_map off bs wr es ks M b = Some (d, w)"
  shows "lo \<le> d"
  using assms(2,4) unfolding layer_map_def
proof (induction ks arbitrary: M)
  case (Cons k ks)
  show ?case
  proof (rule Cons.IH)
    show "fold (\<lambda>k M. M(entry_block (es ! k) \<mapsto> (data_at off bs (int k), wr))) ks (M(entry_block (es ! k) \<mapsto> (data_at off bs (int k), wr))) b = Some (d, w)"
      using Cons.prems(2) by (simp only: fold_simps(2))
    show "(M(entry_block (es ! k) \<mapsto> (data_at off bs (int k), wr))) b' = Some (d', w') \<Longrightarrow> lo \<le> d'" for b' d' w'
      using Cons.prems(1) data_at_ge [OF assms(1), of "int k" off] assms(3) by (auto split: if_splits)
  qed
qed simp

lemma image_map_ge:
  assumes "wf_bs bs" "\<And>b d w. M b = Some (d, w) \<Longrightarrow> lo \<le> d" "lo \<le> off + 2 * bs" "image_map off bs ls M b = Some (d, w)"
  shows "lo \<le> d"
  using assms(2-4)
proof (induction ls arbitrary: off M)
  case (Cons es ls)
  let ?M = "layer_map off bs (ls = []) es [0..<length es] M"
  show ?case
  proof (rule Cons.IH [of ?M "layer_end off bs (int (length es))"])
    show "?M b' = Some (d', w') \<Longrightarrow> lo \<le> d'" for b' d' w' by (rule layer_map_ge [OF assms(1) Cons.prems(1,2)])
    show "lo \<le> layer_end off bs (int (length es)) + 2 * bs"
      using Cons.prems(2) layer_end_ge(1) [OF assms(1), of "int (length es)" off] wf_bsD(1) [OF assms(1)] by simp
    show "image_map (layer_end off bs (int (length es))) bs ls ?M b = Some (d, w)" using Cons.prems(3) by simp
  qed
qed simp

lemma vm_rel_page:
  assumes "vm_rel v base bs fdn nb M" "wf_bs bs" "base mod 4096 = 0" "0 \<le> x" "x < bs * nb"
  shows "v (page_of (base + x)) = map_option (\<lambda>(d, w). \<lparr>vp_fd = fdn, vp_off = d + PAGE_SIZE * (x mod bs div 4096), vp_write = w\<rparr>) (M (x div bs))"
proof -
  obtain n where n: "bs = 4096 * n" using wf_bsD(3) [OF assms(2)] by (auto elim!: dvdE)
  obtain c where c: "base = 4096 * c" using assms(3) by (auto simp: mod_eq_0_iff_dvd elim!: dvdE)
  have bs: "0 < bs" using wf_bsD(1) [OF assms(2)] by simp
  have "bs * (x div bs) < bs * nb" using assms(5) bs minus_mod_eq_mult_div [of x bs] pos_mod_sign [OF bs, of x] by linarith
  then have k: "0 \<le> x div bs" "x div bs < nb" "0 \<le> x mod bs" "x mod bs < bs"
    using bs assms(4) by (simp_all add: pos_imp_zdiv_nonneg_iff)
  have "base + x = 4096 * (c + x div bs * n) + x mod bs" using div_mult_mod_eq [of x bs] by (simp add: n c algebra_simps)
  then have "page_of (base + x) = c + x div bs * n + x mod bs div 4096" by (simp add: page_of_def PAGE_SIZE_def)
  moreover have "page_of base = c" "bs div PAGE_SIZE = n" by (simp_all add: n c page_of_def PAGE_SIZE_def)
  moreover have "0 \<le> x mod bs div 4096" "x mod bs div 4096 < n" using k n by (simp_all add: pos_imp_zdiv_nonneg_iff)
  ultimately show ?thesis using assms(1) [unfolded vm_rel_def, rule_format, of "x div bs" "x mod bs div 4096"] k(1,2) by simp
qed

section \<open>Remapping\<close>

lemma remap_skip:
  "\<forall>c\<in>set xs. rb_max_length c \<le> ulong (a - rb_offset c) \<Longrightarrow> remap_blocks ke de ptr a len (xs @ ys) h cs = remap_blocks ke de ptr a len ys h cs"
  by (induction xs) (simp_all add: Let_def not_less)

lemma other_block:
  assumes "ram_ok tpb bs" "b \<in> set bs" "c \<in> set bs" "c \<noteq> b" "0 \<le> x" "x < rb_max_length b"
  shows "rb_max_length c \<le> ulong (rb_offset b + x - rb_offset c)"
proof -
  have "Ram_Inv.apart (rb_offset b) (rb_max_length b) c" using ram_okD(3) [OF assms(1-3)] ram_ok_id [OF assms(1-3)] assms(4) by metis
  then consider "rb_offset b + rb_max_length b \<le> rb_offset c" | "rb_offset c + rb_max_length c \<le> rb_offset b" by (auto simp: Ram_Inv.apart_def)
  then show ?thesis
  proof cases
    case 1
    have "ulong (rb_offset b + x - rb_offset c) = ulong (rb_offset b + x - rb_offset c + 18446744073709551616)" by (simp add: ulong_def)
    also have "\<dots> = rb_offset b + x - rb_offset c + 18446744073709551616"
      using 1 ram_okD(1) [OF assms(1,3)] ram_okD(1) [OF assms(1,2)] assms(5,6) by (intro ulong_id) (simp_all add: block_ok_def RAM_ADDR_MAX_def)
    finally show ?thesis using ram_okD(1) [OF assms(1,3)] ram_okD(1) [OF assms(1,2)] assms(5) by (simp add: block_ok_def RAM_ADDR_MAX_def)
  next
    case 2
    then have "ulong (rb_offset b + x - rb_offset c) = rb_offset b + x - rb_offset c"
      using ram_okD(1) [OF assms(1,3)] ram_okD(1) [OF assms(1,2)] assms(5,6) by (intro ulong_id) (simp_all add: block_ok_def RAM_ADDR_MAX_def)
    then show ?thesis using 2 assms(5) by simp
  qed
qed

text \<open>Only the block that holds the address is mapped anew.\<close>

lemma remap_one:
  assumes "ram_ok tpb bs" "b \<in> set bs" "0 \<le> x" "x < rb_max_length b" "ptr b x = Inr a" "rb_flags b AND RAM_PREALLOC = 0" "he_xen (ke_host ke) = None" "0 \<le> rb_fd b"
    and "remap_pages (Some (de_file de (rb_fd b))) a len x h = Some h1"
  shows "remap_blocks ke de ptr (rb_offset b + x) len bs h cs
    = Inr (h1, cs @ memory_try_enable_merging (ke_host ke) a len @ qemu_ram_setup_dump (ke_host ke) a len)"
proof -
  obtain xs ys where bs: "bs = xs @ b # ys" using split_list [OF assms(2)] by blast
  have "distinct bs" using ram_okD(2) [OF assms(1)] by (simp add: distinct_map)
  then have o: "\<forall>c\<in>set xs. rb_max_length c \<le> ulong (rb_offset b + x - rb_offset c)" "\<forall>c\<in>set ys. rb_max_length c \<le> ulong (rb_offset b + x - rb_offset c)"
    using other_block [OF assms(1,2) _ _ assms(3,4)] bs by auto
  have "ulong (rb_offset b + x - rb_offset b) = x"
    using ram_okD(1) [OF assms(1,2)] assms(3,4) by (simp add: ulong_id block_ok_def RAM_ADDR_MAX_def)
  then show ?thesis unfolding bs remap_skip [OF o(1)] using remap_skip [OF o(2), of ke de ptr len "[]"] assms(4-9) by (simp add: Let_def)
qed

lemma remap_pages_file:
  assumes "a mod 4096 = 0" "len mod 4096 = 0" "off mod 4096 = 0" "0 < len"
  obtains h' where "remap_pages (Some fdn) a len off h = Some h'" "files (rh_cow h') = files (rh_cow h)"
    "\<And>y. vm_byte (files (rh_cow h')) (vm (rh_cow h')) y
       = (if a \<le> y \<and> y < a + len then Some (bytes (files (rh_cow h) fdn) (off + (y - a))) else vm_byte (files (rh_cow h)) (vm (rh_cow h)) y)"
proof -
  obtain k where k: "a = 4096 * k" using assms(1) by (auto simp: mod_eq_0_iff_dvd elim!: dvdE)
  let ?v = "mmap_fixed a len True fdn off (vm (rh_cow h))"
  define h' where "h' = h\<lparr>rh_resv := (\<lambda>p. rh_resv h p \<and> \<not> in_pages a len p), rh_cow := (rh_cow h)\<lparr>vm := ?v\<rparr>\<rparr>"
  have o: "off + 4096 * (y div 4096 - k) = off + (y - a) - y mod 4096" for y by (simp add: k algebra_simps)
  have v: "?v (page_of y) = (if a \<le> y \<and> y < a + len then Some \<lparr>vp_fd = fdn, vp_off = off + (y - a) - y mod 4096, vp_write = True\<rparr> else vm (rh_cow h) (page_of y))" for y
    unfolding o [symmetric] using assms in_pages_byte [OF assms(1,2), of y] by (simp add: mmap_fixed_def page_of_def PAGE_SIZE_def k)
  show thesis
  proof (rule that [of h'])
    show "remap_pages (Some fdn) a len off h = Some h'" using assms by (simp add: remap_pages_def h'_def PAGE_SIZE_def)
    show "vm_byte (files (rh_cow h')) (vm (rh_cow h')) y
       = (if a \<le> y \<and> y < a + len then Some (bytes (files (rh_cow h) fdn) (off + (y - a))) else vm_byte (files (rh_cow h)) (vm (rh_cow h)) y)" for y
      by (simp add: vm_byte_def h'_def v PAGE_SIZE_def)
  qed (simp add: h'_def)
qed

section \<open>Properties\<close>


text \<open>A pcow block on the fresh image, with the size and at the address the backend gives it.\<close>

definition demo_discard :: discard_env where
  "demo_discard = \<lparr>de_punch_hole = True, de_madvise = True, de_fallocate_err = 0, de_madvise_err = 0, de_host_page = 4096, de_file = (\<lambda>_. [1])\<rparr>"

definition demo_remap :: ram_world where
  "demo_remap = demo_world\<lparr>rw_list := no_ram\<lparr>rl_blocks := [file_block 0 0 4096 40960 True 4096]\<rparr>\<rparr>"

lemma image_magic: "image_rel f bs mb ls \<Longrightarrow> bytes f 12 = 78"
proof -
  assume "image_rel f bs mb ls"
  then obtain s where "read_first_super f [] 0 = Inr (Some s)" using image_rel_size(5) by blast
  then have "sl_magic f 0 = MAGIC" by (auto simp: read_first_super_def pm_mmap_def CL_SIZE_def split: if_splits)
  then have "sl_magic f 0 ! 0 = MAGIC ! 0" by simp
  then show ?thesis by (simp add: sl_magic_def peek_def MAGIC_def)
qed


text \<open>C32: Discarding the beginning of guest RAM destroys a pcow image. On a block that shows an image, \<open>ram_block_discard_range\<close> of the first pages of the block
  (not more than one block of the image) reports success, but the guest still sees every byte it saw before, instead of zeros, and the super block of the file
  is gone: the file is no image any more.\<close>

theorem discard_destroys_image:
  assumes "image_rel (files (rh_cow h) fdn) bs mb ls" "vm_rel (vm (rh_cow h)) (rb_host rb) bs fdn mb (image_map 0 bs ls Map.empty)"
    and "rb_host rb mod 4096 = 0" "0 \<le> rb_host rb" "rb_used_length rb = bs * mb" "rb_host rb + bs * mb < 2 ^ 63"
    and "rb_page_size rb = 4096" "de_host_page de = 4096" "0 \<le> rb_fd rb" "de_file de (rb_fd rb) = fdn"
    and "de_punch_hole de" "de_madvise de" "de_fallocate_err de = 0" "de_madvise_err de = 0"
    and "0 < len" "len mod 4096 = 0" "len \<le> bs" "0 < mb"
  shows "\<exists>h'. ram_block_discard_range de rb 0 len h = (0, Some (rb_host rb, len), h') \<and> read_first_super (files (rh_cow h') fdn) fdn 0 = Inr None
    \<and> (\<forall>x. 0 \<le> x \<and> x < bs * mb \<longrightarrow> vm_byte (files (rh_cow h')) (vm (rh_cow h')) (rb_host rb + x) = vm_byte (files (rh_cow h)) (vm (rh_cow h)) (rb_host rb + x))"
proof -
  let ?f = "files (rh_cow h) fdn" and ?h = "set_file fdn (punch_hole 0 len) h"
  note z = image_rel_size [OF assms(1)]
  have bs: "4096 \<le> bs" using wf_bsD(1) [OF z(1)] .
  have "len \<le> bs * mb" using bs assms(17,18) mult_left_mono [of 1 mb bs] by linarith
  then have run: "ram_block_discard_range de rb 0 len h = (0, Some (rb_host rb, len), ?h)"
    using discard_run [of rb 0 len de h] assms by simp
  have "4096 \<le> len" using assms(15,16) by (intro zdvd_imp_le) (simp_all add: mod_eq_0_iff_dvd)
  then have "sl_magic (punch_hole 0 len ?f) 0 ! 0 \<noteq> MAGIC ! 0" by (simp add: sl_magic_def peek_def punch_hole_def MAGIC_def)
  then have "sl_magic (punch_hole 0 len ?f) 0 \<noteq> MAGIC" by auto
  then have "read_first_super (punch_hole 0 len ?f) fdn 0 = Inr None"
    by (simp add: read_first_super_def pm_mmap_def CL_SIZE_def backed_def punch_hole_def)
  then have gone: "read_first_super (files (rh_cow ?h) fdn) fdn 0 = Inr None" by (simp add: set_file_def)
  have same: "vm_byte (files (rh_cow ?h)) (vm (rh_cow ?h)) (rb_host rb + x) = vm_byte (files (rh_cow h)) (vm (rh_cow h)) (rb_host rb + x)"
    if x: "0 \<le> x" "x < bs * mb" for x
  proof (cases "image_map 0 bs ls Map.empty (x div bs)")
    case None
    then show ?thesis using vm_rel_page [OF assms(2) z(1) assms(3) x] unfolding punch_shown by (simp add: vm_byte_def)
  next
    case (Some e)
    obtain d w where e: "e = (d, w)" by (cases e)
    have "2 * bs \<le> d" using image_map_ge [OF z(1) _ _ Some [unfolded e], of "2 * bs"] by simp
    moreover have "0 \<le> x mod bs div 4096" "0 \<le> (rb_host rb + x) mod PAGE_SIZE" using bs by (simp_all add: pos_imp_zdiv_nonneg_iff PAGE_SIZE_def)
    ultimately have "\<not> d + PAGE_SIZE * (x mod bs div 4096) + (rb_host rb + x) mod PAGE_SIZE < len"
      using assms(17) bs by (simp add: PAGE_SIZE_def)
    then show ?thesis using vm_rel_page [OF assms(2) z(1) assms(3) x] Some e unfolding punch_shown by simp
  qed
  show ?thesis using run gone same by (intro exI [of _ ?h]) simp
qed

theorem discard_destroys_image_witness:
  "\<exists>h h'. files (rh_cow h) [1] = fresh_image \<and> ram_block_discard_range demo_discard (file_block 0 0 4096 40960 True 4096) 0 4096 h = (0, Some (4096, 4096), h')
    \<and> read_first_super (files (rh_cow h') [1]) [1] 0 = Inr None"
proof -
  let ?rb = "file_block 0 0 4096 40960 True 4096"
  note d = demo_world_ok
  obtain h :: ram_host where h: "vm_rel (vm (rh_cow h)) 4096 4096 [1] 10 (image_map 0 4096 ([] @ [[]]) Map.empty)" "files (rh_cow h) = files (rh_cow (rw_host demo_world))"
  proof -
    have "a_pcow demo_kernel = 4096" "a_reserve demo_kernel = Some 1073741824" by (simp_all add: demo_kernel_def)
    then show thesis using pcow_ram_mmap [OF d(2,3), of demo_kernel 1073741824 40960] that by (auto simp: REG_LEN_def)
  qed
  have "\<exists>h'. ram_block_discard_range demo_discard ?rb 0 4096 h = (0, Some (rb_host ?rb, 4096), h') \<and> read_first_super (files (rh_cow h') [1]) [1] 0 = Inr None
    \<and> (\<forall>x. 0 \<le> x \<and> x < 4096 * 10 \<longrightarrow> vm_byte (files (rh_cow h')) (vm (rh_cow h')) (rb_host ?rb + x) = vm_byte (files (rh_cow h)) (vm (rh_cow h)) (rb_host ?rb + x))"
    by (rule discard_destroys_image [where ls = "[] @ [[]]"]) (use d(2) h in \<open>simp_all add: file_block_def demo_discard_def\<close>)
  then obtain h' where "ram_block_discard_range demo_discard ?rb 0 4096 h = (0, Some (rb_host ?rb, 4096), h')" "read_first_super (files (rh_cow h') [1]) [1] 0 = Inr None" by blast
  moreover have "rb_host ?rb = 4096" by (simp add: file_block_def)
  ultimately show ?thesis using h(2) by (intro exI [of _ h] exI [of _ h']) (simp add: demo_world_def fresh_state_def)
qed

end
