(* ===== verification/Iommu_Notify.thy ===== *)
theory Iommu_Notify
  imports Guest_Access
begin

text \<open>
  Notifiers of IOMMU regions (\<open>qemu-diff/memory.c\<close>, \<open>include/exec/memory.h\<close>) and those that TCG keeps in an array for each CPU (\<open>qemu-diff/exec.c\<close>).

  The list of a region holds pointers, as the C list does. \<open>is_mem\<close> is the memory of the notifiers, \<open>None\<close> where there is none (any more), and \<open>is_tcg\<close> the rest of a
  \<open>TCGIOMMUNotifier\<close> at the same address. Elements of an array are at consecutive addresses. Reading freed memory is \<open>Undefined\<close>.
  The callbacks of an IOMMU's class are arguments.
\<close>

section \<open>Definitions\<close>

definition IOMMU_NOTIFIER_NONE :: u8 where "IOMMU_NOTIFIER_NONE = 0"

definition IOMMU_NOTIFIER_UNMAP :: u8 where "IOMMU_NOTIFIER_UNMAP = 1"

definition IOMMU_NOTIFIER_MAP :: u8 where "IOMMU_NOTIFIER_MAP = 2"

definition IOMMU_NONE :: u8 where "IOMMU_NONE = 0"

definition HWADDR_MAX :: int where "HWADDR_MAX = 18446744073709551615"

record IOMMUNotifier =
  nt_flags :: u8
  nt_start :: int
  nt_end :: int
  nt_idx :: int

definition iommu_notifier_init :: "u8 \<Rightarrow> int \<Rightarrow> int \<Rightarrow> int \<Rightarrow> IOMMUNotifier" where
  "iommu_notifier_init flags start e idx = \<lparr>nt_flags = flags, nt_start = start, nt_end = e, nt_idx = idx\<rparr>"

record TCGIOMMUNotifier =
  tn_mr :: nat
  tn_cpu :: nat
  tn_idx :: int
  tn_active :: bool

text \<open>The optional callbacks of the class of a region: whether \<open>notify_flag_changed\<close> is there, the answers of \<open>get_min_page_size\<close> and \<open>num_indexes\<close>.\<close>

record iommu_class =
  ic_flag_changed :: bool
  ic_min_page :: "int option"
  ic_num_indexes :: "int option"

record iommu_state =
  is_notify :: "nat \<Rightarrow> nat list"
  is_flags :: "nat \<Rightarrow> u8"
  is_mem :: "nat \<Rightarrow> IOMMUNotifier option"
  is_tcg :: "nat \<Rightarrow> TCGIOMMUNotifier option"
  is_array :: "nat \<Rightarrow> nat \<times> nat"
  is_changes :: "(nat \<times> u8 \<times> u8) list"
  is_flushed :: "nat list"

subsection \<open>Notifiers of a region\<close>

fun all_flags :: "(nat \<Rightarrow> IOMMUNotifier option) \<Rightarrow> nat list \<Rightarrow> u8 \<Rightarrow> u8 res" where
  "all_flags mem [] flags = Inr flags"
| "all_flags mem (p # ps) flags = (case mem p of None \<Rightarrow> Inl Undefined | Some n \<Rightarrow> all_flags mem ps (flags OR nt_flags n))"

definition memory_region_update_iommu_notify_flags :: "(nat \<Rightarrow> iommu_class) \<Rightarrow> nat \<Rightarrow> iommu_state \<Rightarrow> iommu_state res" where
  "memory_region_update_iommu_notify_flags cls r s =
     res_bind (all_flags (is_mem s) (is_notify s r) IOMMU_NOTIFIER_NONE) (\<lambda>flags.
       let s1 = (if flags \<noteq> is_flags s r \<and> ic_flag_changed (cls r) then s\<lparr>is_changes := is_changes s @ [(r, is_flags s r, flags)]\<rparr> else s)
       in Inr (s1\<lparr>is_flags := (is_flags s1)(r := flags)\<rparr>))"

definition memory_region_iommu_num_indexes :: "(nat \<Rightarrow> iommu_class) \<Rightarrow> nat \<Rightarrow> int" where
  "memory_region_iommu_num_indexes cls r = (case ic_num_indexes (cls r) of None \<Rightarrow> 1 | Some k \<Rightarrow> k)"

definition memory_region_iommu_get_min_page_size :: "nat \<Rightarrow> (nat \<Rightarrow> iommu_class) \<Rightarrow> nat \<Rightarrow> int" where
  "memory_region_iommu_get_min_page_size tpb cls r = (case ic_min_page (cls r) of Some g \<Rightarrow> g | None \<Rightarrow> 2 ^ tpb)"

definition register_here :: "(nat \<Rightarrow> iommu_class) \<Rightarrow> nat \<Rightarrow> nat \<Rightarrow> iommu_state \<Rightarrow> iommu_state res" where
  "register_here cls r p s =
     (case is_mem s p of
        None \<Rightarrow> Inl Undefined
      | Some n \<Rightarrow>
          if nt_flags n = IOMMU_NOTIFIER_NONE \<or> \<not> nt_start n \<le> nt_end n \<or> \<not> (nt_idx n \<ge> 0 \<and> nt_idx n < memory_region_iommu_num_indexes cls r)
          then Inl Assert_failed
          else memory_region_update_iommu_notify_flags cls r (s\<lparr>is_notify := (is_notify s)(r := p # is_notify s r)\<rparr>))"

text \<open>The cast to an IOMMU region aborts for other regions.\<close>

partial_function (option) memory_region_register_iommu_notifier :: "regions \<Rightarrow> (nat \<Rightarrow> iommu_class) \<Rightarrow> nat \<Rightarrow> nat \<Rightarrow> iommu_state \<Rightarrow> iommu_state res option" where
  "memory_region_register_iommu_notifier rg cls r p s =
     (case mr_alias (rg r) of
        Some al \<Rightarrow> memory_region_register_iommu_notifier rg cls al p s
      | None \<Rightarrow> Some (if mr_is_iommu (rg r) then register_here cls r p s else Inl Assert_failed))"

text \<open>\<open>QLIST_REMOVE\<close> takes a notifier off the list it is in; one that is in no list has no valid links.\<close>

partial_function (option) memory_region_unregister_iommu_notifier :: "regions \<Rightarrow> (nat \<Rightarrow> iommu_class) \<Rightarrow> nat \<Rightarrow> nat \<Rightarrow> iommu_state \<Rightarrow> iommu_state res option" where
  "memory_region_unregister_iommu_notifier rg cls r p s =
     (case mr_alias (rg r) of
        Some al \<Rightarrow> memory_region_unregister_iommu_notifier rg cls al p s
      | None \<Rightarrow> Some (if is_mem s p = None \<or> p \<notin> set (is_notify s r) then Inl Undefined
          else if \<not> mr_is_iommu (rg r) then Inl Assert_failed
          else memory_region_update_iommu_notify_flags cls r (s\<lparr>is_notify := (is_notify s)(r := remove1 p (is_notify s r))\<rparr>)))"

text \<open>Whether a notifier is called for an entry.\<close>

definition memory_region_notify_one :: "IOMMUNotifier \<Rightarrow> IOMMUTLBEntry \<Rightarrow> bool" where
  "memory_region_notify_one n e =
     (if nt_start n > ulong (tlb_iova e + tlb_addr_mask e) \<or> nt_end n < tlb_iova e then False
      else let request_flags = (if tlb_perm e AND IOMMU_RW \<noteq> 0 then IOMMU_NOTIFIER_MAP else IOMMU_NOTIFIER_UNMAP)
        in nt_flags n AND request_flags \<noteq> 0)"

fun notified :: "(nat \<Rightarrow> IOMMUNotifier option) \<Rightarrow> int \<Rightarrow> IOMMUTLBEntry \<Rightarrow> nat list \<Rightarrow> nat list res" where
  "notified mem idx e [] = Inr []"
| "notified mem idx e (p # ps) =
     (case mem p of
        None \<Rightarrow> Inl Undefined
      | Some n \<Rightarrow> res_bind (notified mem idx e ps) (\<lambda>qs. Inr (if nt_idx n = idx \<and> memory_region_notify_one n e then p # qs else qs)))"

text \<open>The notifiers that are called, in order.\<close>

definition memory_region_notify_iommu :: "regions \<Rightarrow> nat \<Rightarrow> int \<Rightarrow> IOMMUTLBEntry \<Rightarrow> iommu_state \<Rightarrow> nat list res" where
  "memory_region_notify_iommu rg r idx e s = (if \<not> mr_is_iommu (rg r) then Inl Assert_failed else notified (is_mem s) idx e (is_notify s r))"

text \<open>\<open>memory_region_iommu_replay\<close> without a callback of its own; the result is what the notifier is called with. It does not return for a granularity of 0.\<close>

partial_function (option) replay_from :: "(int \<Rightarrow> IOMMUTLBEntry) \<Rightarrow> int \<Rightarrow> int \<Rightarrow> int \<Rightarrow> IOMMUTLBEntry list option" where
  "replay_from tr g lim a =
     (if \<not> a < lim then Some []
      else let iotlb = tr a; called = (if tlb_perm iotlb \<noteq> IOMMU_NONE then [iotlb] else []) in
        if ulong (a + g) < a then Some called else Option.bind (replay_from tr g lim (ulong (a + g))) (\<lambda>es. Some (called @ es)))"

definition memory_region_iommu_replay :: "nat \<Rightarrow> regions \<Rightarrow> (nat \<Rightarrow> iommu_class) \<Rightarrow> (nat \<Rightarrow> int \<Rightarrow> int \<Rightarrow> IOMMUTLBEntry) \<Rightarrow> nat \<Rightarrow> IOMMUNotifier \<Rightarrow> IOMMUTLBEntry list option" where
  "memory_region_iommu_replay tpb rg cls tr r n =
     replay_from (\<lambda>a. tr r a (nt_idx n)) (memory_region_iommu_get_min_page_size tpb cls r)
       (if mr_size (rg r) = 2 ^ 64 then 18446744073709551615 else mr_size (rg r)) 0"

subsection \<open>Notifiers of a CPU\<close>

text \<open>The callback of TCG's notifiers.\<close>

definition tcg_iommu_unmap_notify :: "nat \<Rightarrow> iommu_state \<Rightarrow> iommu_state res" where
  "tcg_iommu_unmap_notify p s =
     (case is_tcg s p of
        None \<Rightarrow> Inl Undefined
      | Some t \<Rightarrow> if \<not> tn_active t then Inr s
          else Inr (s\<lparr>is_flushed := is_flushed s @ [tn_cpu t], is_tcg := (is_tcg s)(p \<mapsto> t\<lparr>tn_active := False\<rparr>)\<rparr>))"

text \<open>The first element of the array for the region and index, or its length.\<close>

fun find_notifier :: "(nat \<Rightarrow> TCGIOMMUNotifier option) \<Rightarrow> nat \<Rightarrow> int \<Rightarrow> nat \<Rightarrow> nat list \<Rightarrow> nat res" where
  "find_notifier tcg r idx base [] = Inr 0"
| "find_notifier tcg r idx base (i # js) =
     (case tcg (base + i) of
        None \<Rightarrow> Inl Undefined
      | Some t \<Rightarrow> if tn_mr t = r \<and> tn_idx t = idx then Inr 0 else res_bind (find_notifier tcg r idx base js) (\<lambda>k. Inr (Suc k)))"

text \<open>\<open>g_array_set_size\<close>: the elements are copied to where the allocator puts the larger array, \<open>base'\<close>, which may be where they were; otherwise the old memory is freed.\<close>

definition move_cells :: "nat \<Rightarrow> nat \<Rightarrow> nat \<Rightarrow> (nat \<Rightarrow> 'a option) \<Rightarrow> nat \<Rightarrow> 'a option" where
  "move_cells base base' len m =
     (\<lambda>p. if base' \<le> p \<and> p < base' + len then m (base + (p - base')) else if base \<le> p \<and> p < base + len then None else m p)"

definition tcg_register_iommu_notifier :: "regions \<Rightarrow> (nat \<Rightarrow> iommu_class) \<Rightarrow> nat \<Rightarrow> nat \<Rightarrow> nat \<Rightarrow> int \<Rightarrow> iommu_state \<Rightarrow> iommu_state res option" where
  "tcg_register_iommu_notifier rg cls base' cpu r idx s =
     (let (base, len) = is_array s cpu in
      case find_notifier (is_tcg s) r idx base [0..<len] of
        Inl e \<Rightarrow> Some (Inl e)
      | Inr i \<Rightarrow>
          let activate = (\<lambda>p s1. case is_tcg s1 p of None \<Rightarrow> Inl Undefined | Some t \<Rightarrow> Inr (s1\<lparr>is_tcg := (is_tcg s1)(p \<mapsto> t\<lparr>tn_active := True\<rparr>)\<rparr>)) in
          if i < len then Some (activate (base + i) s)
          else
            let p = base' + len;
                s1 = s\<lparr>is_array := (is_array s)(cpu := (base', len + 1)),
                       is_mem := (move_cells base base' len (is_mem s))(p \<mapsto> iommu_notifier_init IOMMU_NOTIFIER_UNMAP 0 HWADDR_MAX idx),
                       is_tcg := (move_cells base base' len (is_tcg s))(p \<mapsto> \<lparr>tn_mr = r, tn_cpu = cpu, tn_idx = idx, tn_active = False\<rparr>)\<rparr>
            in map_option (\<lambda>x. res_bind x (activate p)) (memory_region_register_iommu_notifier rg cls r p s1))"

fun unregister_all :: "regions \<Rightarrow> (nat \<Rightarrow> iommu_class) \<Rightarrow> nat list \<Rightarrow> iommu_state \<Rightarrow> iommu_state res option" where
  "unregister_all rg cls [] s = Some (Inr s)"
| "unregister_all rg cls (p # ps) s =
     (case is_tcg s p of
        None \<Rightarrow> Some (Inl Undefined)
      | Some t \<Rightarrow> Option.bind (memory_region_unregister_iommu_notifier rg cls (tn_mr t) p s)
          (\<lambda>x. case x of Inl e \<Rightarrow> Some (Inl e) | Inr s1 \<Rightarrow> unregister_all rg cls ps s1))"

definition tcg_iommu_free_notifier_list :: "regions \<Rightarrow> (nat \<Rightarrow> iommu_class) \<Rightarrow> nat \<Rightarrow> iommu_state \<Rightarrow> iommu_state res option" where
  "tcg_iommu_free_notifier_list rg cls cpu s =
     (let (base, len) = is_array s cpu in
      map_option (\<lambda>x. res_bind x (\<lambda>s1. Inr (s1\<lparr>is_mem := (\<lambda>p. if base \<le> p \<and> p < base + len then None else is_mem s1 p),
          is_tcg := (\<lambda>p. if base \<le> p \<and> p < base + len then None else is_tcg s1 p)\<rparr>)))
        (unregister_all rg cls [base..<base + len] s))"

section \<open>Registered notifiers\<close>

text \<open>The list of a region is intact: every notifier is in memory, and the flags of the region are those of its notifiers together.\<close>

definition list_flags :: "(nat \<Rightarrow> IOMMUNotifier option) \<Rightarrow> nat list \<Rightarrow> u8" where
  "list_flags mem ps = foldr (\<lambda>p fl. nt_flags (the (mem p)) OR fl) ps 0"

definition notify_ok :: "nat \<Rightarrow> iommu_state \<Rightarrow> bool" where
  "notify_ok r s \<longleftrightarrow> distinct (is_notify s r) \<and> (\<forall>p\<in>set (is_notify s r). is_mem s p \<noteq> None) \<and> is_flags s r = list_flags (is_mem s) (is_notify s r)"

lemma all_flags_ok: "\<forall>p\<in>set ps. mem p \<noteq> None \<Longrightarrow> all_flags mem ps fl = Inr (fl OR list_flags mem ps)"
  by (induction ps arbitrary: fl) (auto simp: list_flags_def or.assoc)

lemma notify_one_iff: "memory_region_notify_one n e \<longleftrightarrow> nt_start n \<le> ulong (tlb_iova e + tlb_addr_mask e) \<and> tlb_iova e \<le> nt_end n
    \<and> nt_flags n AND (if tlb_perm e AND IOMMU_RW \<noteq> 0 then IOMMU_NOTIFIER_MAP else IOMMU_NOTIFIER_UNMAP) \<noteq> 0"
  by (auto simp: memory_region_notify_one_def Let_def)

lemma notified_ok:
  "\<forall>p\<in>set ps. mem p \<noteq> None \<Longrightarrow> notified mem idx e ps = Inr (filter (\<lambda>p. nt_idx (the (mem p)) = idx \<and> memory_region_notify_one (the (mem p)) e) ps)"
  by (induction ps) auto

lemma update_flags_ok:
  assumes "distinct (is_notify s r)" "\<forall>p\<in>set (is_notify s r). is_mem s p \<noteq> None"
  obtains s' where "memory_region_update_iommu_notify_flags cls r s = Inr s'" "notify_ok r s'" "is_notify s' = is_notify s" "is_mem s' = is_mem s" "is_tcg s' = is_tcg s"
    "is_array s' = is_array s" "is_flushed s' = is_flushed s" "is_flags s' = (is_flags s)(r := list_flags (is_mem s) (is_notify s r))"
proof -
  let ?fl = "list_flags (is_mem s) (is_notify s r)"
  let ?s = "if ?fl \<noteq> is_flags s r \<and> ic_flag_changed (cls r) then s\<lparr>is_changes := is_changes s @ [(r, is_flags s r, ?fl)]\<rparr> else s"
  have "memory_region_update_iommu_notify_flags cls r s = Inr (?s\<lparr>is_flags := (is_flags ?s)(r := ?fl)\<rparr>)"
    using all_flags_ok [OF assms(2), of 0] by (simp add: memory_region_update_iommu_notify_flags_def IOMMU_NOTIFIER_NONE_def Let_def)
  then show thesis by (rule that) (use assms in \<open>auto simp: notify_ok_def\<close>)
qed

lemma get_iommu_cases:
  assumes "memory_region_get_iommu rg m = Some (Some r)"
  shows "mr_is_iommu (rg r)" "memory_region_register_iommu_notifier rg cls m p s = Some (register_here cls r p s)"
    "memory_region_unregister_iommu_notifier rg cls m p s = memory_region_unregister_iommu_notifier rg cls r p s" "mr_alias (rg r) = None"
proof -
  have "y = Some r \<longrightarrow> mr_is_iommu (rg r) \<and> memory_region_register_iommu_notifier rg cls m p s = Some (register_here cls r p s)
      \<and> memory_region_unregister_iommu_notifier rg cls m p s = memory_region_unregister_iommu_notifier rg cls r p s \<and> mr_alias (rg r) = None"
    if "memory_region_get_iommu rg m = Some y" for m y
    using that
  proof (induction rule: memory_region_get_iommu.raw_induct [rotated, consumes 1])
    case (1 get rg m y)
    then show ?case
      by (subst memory_region_register_iommu_notifier.simps, subst (1) memory_region_unregister_iommu_notifier.simps)
        (auto split: option.splits if_splits, (subst memory_region_unregister_iommu_notifier.simps, simp)+)
  qed
  then show "mr_is_iommu (rg r)" "memory_region_register_iommu_notifier rg cls m p s = Some (register_here cls r p s)"
    "memory_region_unregister_iommu_notifier rg cls m p s = memory_region_unregister_iommu_notifier rg cls r p s" "mr_alias (rg r) = None"
    using assms by blast+
qed

section \<open>Replaying\<close>

lemma le_zdiv_iff: "0 < g \<Longrightarrow> a \<le> b div g \<longleftrightarrow> a * g \<le> (b :: int)"
proof
  assume g: "0 < g" and "a \<le> b div g"
  then have "a * g \<le> b div g * g" by simp
  then show "a * g \<le> b" using div_mult_mod_eq [of b g] pos_mod_sign [OF g, of b] by linarith
next
  assume g: "0 < g" and "a * g \<le> b"
  then show "a \<le> b div g" using zdiv_mono1 [of "a * g" b g] by simp
qed

lemma replay_from_spec:
  assumes "0 < g" "g < 18446744073709551616" "0 \<le> lim" "lim < 18446744073709551616"
  shows "replay_from tr g lim (int k * g) = Some (filter (\<lambda>e. tlb_perm e \<noteq> IOMMU_NONE) (map (\<lambda>j. tr (int j * g)) [k..<nat ((lim + g - 1) div g)]))"
proof (induction "nat ((lim + g - 1) div g) - k" arbitrary: k)
  have steps: "k < nat ((lim + g - 1) div g) \<longleftrightarrow> int k * g < lim" for k
    using le_zdiv_iff [OF assms(1), of "int k + 1" "lim + g - 1"] by (auto simp: algebra_simps)
  {
    case 0
    then have "\<not> int k * g < lim" using steps [of k] by simp
    then show ?case using 0 by (subst replay_from.simps) simp
  next
    case (Suc d)
    let ?a = "int k * g" and ?N = "nat ((lim + g - 1) div g)"
    have a: "?a < lim" "k < ?N" "0 \<le> ?a" using Suc(2) steps [of k] assms(1) by auto
    then have up: "[k..<?N] = k # [Suc k..<?N]" by (simp add: upt_conv_Cons)
    have nxt: "int (Suc k) * g = ?a + g" by (simp add: algebra_simps)
    show ?case
    proof (cases "?a + g < 18446744073709551616")
      case True
      then have "ulong (?a + g) = ?a + g" using a assms(1) by (intro ulong_id) simp_all
      moreover have "replay_from tr g lim (?a + g) = Some (filter (\<lambda>e. tlb_perm e \<noteq> IOMMU_NONE) (map (\<lambda>j. tr (int j * g)) [Suc k..<?N]))"
        using Suc(1) [of "Suc k"] Suc(2) unfolding nxt by simp
      ultimately show ?thesis using a assms(1) unfolding up by (subst replay_from.simps) simp
    next
      case False
      have "ulong (?a + g) = ulong (?a + g - 18446744073709551616)" by (simp add: ulong_def)
      also have "\<dots> = ?a + g - 18446744073709551616" using False a assms by (intro ulong_id) linarith+
      finally have "ulong (?a + g) < ?a" using assms(2) by simp
      moreover have "\<not> Suc k < ?N" using steps [of "Suc k"] False assms(4) unfolding nxt by simp
      ultimately show ?thesis using a unfolding up by (subst replay_from.simps) simp
    qed
  }
qed

section \<open>Moved arrays\<close>

lemma notified_dangling: "p \<in> set ps \<Longrightarrow> mem p = None \<Longrightarrow> notified mem idx e ps = Inl Undefined"
  by (induction ps) (auto split: option.splits)

lemma tcg_register_new:
  assumes "is_array s cpu = (base, len)" "find_notifier (is_tcg s) r idx base [0..<len] = Inr len" "memory_region_get_iommu rg r = Some (Some r)"
    and "distinct (is_notify s r)" "base' + len \<notin> set (is_notify s r)" "\<forall>p\<in>set (is_notify s r). move_cells base base' len (is_mem s) p \<noteq> None"
    and "0 \<le> idx" "idx < memory_region_iommu_num_indexes cls r"
  obtains s' where "tcg_register_iommu_notifier rg cls base' cpu r idx s = Some (Inr s')" "is_notify s' = (is_notify s)(r := (base' + len) # is_notify s r)"
    "is_mem s' = (move_cells base base' len (is_mem s))(base' + len \<mapsto> iommu_notifier_init IOMMU_NOTIFIER_UNMAP 0 HWADDR_MAX idx)"
    "is_tcg s' (base' + len) = Some \<lparr>tn_mr = r, tn_cpu = cpu, tn_idx = idx, tn_active = True\<rparr>" "is_flushed s' = is_flushed s"
proof -
  let ?p = "base' + len"
  let ?n = "iommu_notifier_init IOMMU_NOTIFIER_UNMAP 0 HWADDR_MAX idx" and ?t = "\<lparr>tn_mr = r, tn_cpu = cpu, tn_idx = idx, tn_active = False\<rparr>"
  define s1 where "s1 = s\<lparr>is_array := (is_array s)(cpu := (base', len + 1)), is_mem := (move_cells base base' len (is_mem s))(?p \<mapsto> ?n),
    is_tcg := (move_cells base base' len (is_tcg s))(?p \<mapsto> ?t)\<rparr>"
  let ?s = "s1\<lparr>is_notify := (is_notify s1)(r := ?p # is_notify s1 r)\<rparr>"
  obtain s2 where s2: "memory_region_update_iommu_notify_flags cls r ?s = Inr s2" "is_notify s2 = is_notify ?s" "is_mem s2 = is_mem s1" "is_tcg s2 = is_tcg s1" "is_flushed s2 = is_flushed s1"
    by (rule update_flags_ok [of ?s r cls]) (use assms(4-6) in \<open>auto simp: s1_def\<close>)
  have "is_mem s1 ?p = Some ?n" by (simp add: s1_def)
  then have "memory_region_register_iommu_notifier rg cls r ?p s1 = Some (Inr s2)"
    unfolding get_iommu_cases(2) [OF assms(3)] register_here_def using s2(1) assms(7,8)
    by (simp add: iommu_notifier_init_def IOMMU_NOTIFIER_UNMAP_def IOMMU_NOTIFIER_NONE_def HWADDR_MAX_def)
  moreover have "is_tcg s2 ?p = Some ?t" by (simp add: s2(4) s1_def)
  ultimately have "tcg_register_iommu_notifier rg cls base' cpu r idx s = Some (Inr (s2\<lparr>is_tcg := (is_tcg s2)(?p \<mapsto> ?t\<lparr>tn_active := True\<rparr>)\<rparr>))"
    unfolding tcg_register_iommu_notifier_def Let_def assms(1) prod.case assms(2) sum.case s1_def [symmetric] by simp
  then show thesis by (rule that) (use s2(2-5) in \<open>simp_all add: s1_def\<close>)
qed

text \<open>When the array grows in place, the removal of any mapping flushes the TLB of the CPU.\<close>

lemma tcg_notifier_flushes:
  assumes "is_array s cpu = (base, len)" "find_notifier (is_tcg s) r idx base [0..<len] = Inr len" "memory_region_get_iommu rg r = Some (Some r)"
    and "notify_ok r s" "base + len \<notin> set (is_notify s r)" "0 \<le> idx" "idx < memory_region_iommu_num_indexes cls r" "tlb_perm e AND IOMMU_RW = 0" "tlb_iova e \<le> HWADDR_MAX"
  shows "\<exists>s' qs s''. tcg_register_iommu_notifier rg cls base cpu r idx s = Some (Inr s') \<and> memory_region_notify_iommu rg r idx e s' = Inr ((base + len) # qs)
    \<and> tcg_iommu_unmap_notify (base + len) s' = Inr s'' \<and> is_flushed s'' = is_flushed s @ [cpu]"
proof -
  have m: "move_cells base base len (is_mem s) = is_mem s" by (auto simp: move_cells_def)
  obtain s' where s': "tcg_register_iommu_notifier rg cls base cpu r idx s = Some (Inr s')" "is_notify s' = (is_notify s)(r := (base + len) # is_notify s r)"
      "is_mem s' = (is_mem s)(base + len \<mapsto> iommu_notifier_init IOMMU_NOTIFIER_UNMAP 0 HWADDR_MAX idx)"
      "is_tcg s' (base + len) = Some \<lparr>tn_mr = r, tn_cpu = cpu, tn_idx = idx, tn_active = True\<rparr>" "is_flushed s' = is_flushed s"
    by (rule tcg_register_new [OF assms(1-3), of base cls]) (use assms(4-7) in \<open>auto simp: notify_ok_def m\<close>)
  have "\<forall>p\<in>set (is_notify s' r). is_mem s' p \<noteq> None" using assms(4) s'(2,3) by (auto simp: notify_ok_def)
  note nt = notified_ok [OF this, of idx e]
  let ?n = "iommu_notifier_init IOMMU_NOTIFIER_UNMAP 0 HWADDR_MAX idx"
  have "\<not> ulong (tlb_iova e + tlb_addr_mask e) < 0" using ulong_nonneg by (simp add: not_less)
  then have "memory_region_notify_one ?n e" using assms(8,9) by (simp add: memory_region_notify_one_def iommu_notifier_init_def IOMMU_NOTIFIER_UNMAP_def)
  moreover have "the (is_mem s' (base + len)) = ?n" "nt_idx ?n = idx" "is_notify s' r = (base + len) # is_notify s r" using s'(2,3) by (simp_all add: iommu_notifier_init_def)
  ultimately have "memory_region_notify_iommu rg r idx e s' = Inr ((base + len) # filter (\<lambda>p. nt_idx (the (is_mem s' p)) = idx \<and> memory_region_notify_one (the (is_mem s' p)) e) (is_notify s r))"
    unfolding memory_region_notify_iommu_def nt using get_iommu_cases(1) [OF assms(3)] by simp
  then show ?thesis using s'(1,4,5) by (simp add: tcg_iommu_unmap_notify_def)
qed

section \<open>Properties\<close>

text \<open>C28: A notifier that is registered with an IOMMU region, directly or through aliases, is called from then on for exactly the entries of its index that meet its range and that it asks for
  (new mappings or removed ones), before those that were registered earlier, which are called as before; the flags of the region are those of all its notifiers; and
  unregistering it restores the notifiers and the flags.\<close>

theorem iommu_notifier_roundtrip:
  assumes "notify_ok r s" "memory_region_get_iommu rg m = Some (Some r)" "is_mem s p = Some n" "p \<notin> set (is_notify s r)"
    and "nt_flags n \<noteq> 0" "nt_start n \<le> nt_end n" "0 \<le> nt_idx n" "nt_idx n < memory_region_iommu_num_indexes cls r"
  shows "\<exists>s1. memory_region_register_iommu_notifier rg cls m p s = Some (Inr s1) \<and> is_flags s1 r = nt_flags n OR is_flags s r
    \<and> (\<forall>idx e. \<exists>qs. memory_region_notify_iommu rg r idx e s = Inr qs
         \<and> memory_region_notify_iommu rg r idx e s1 = Inr (if nt_idx n = idx \<and> nt_start n \<le> ulong (tlb_iova e + tlb_addr_mask e) \<and> tlb_iova e \<le> nt_end n
              \<and> nt_flags n AND (if tlb_perm e AND IOMMU_RW \<noteq> 0 then IOMMU_NOTIFIER_MAP else IOMMU_NOTIFIER_UNMAP) \<noteq> 0 then p # qs else qs))
    \<and> (\<exists>s2. memory_region_unregister_iommu_notifier rg cls m p s1 = Some (Inr s2) \<and> is_notify s2 = is_notify s \<and> is_flags s2 = is_flags s)"
proof -
  note g = get_iommu_cases [OF assms(2)]
  note ok = assms(1) [unfolded notify_ok_def]
  let ?s = "s\<lparr>is_notify := (is_notify s)(r := p # is_notify s r)\<rparr>"
  obtain s1 where s1: "memory_region_update_iommu_notify_flags cls r ?s = Inr s1" "notify_ok r s1" "is_notify s1 = is_notify ?s" "is_mem s1 = is_mem s"
      "is_flags s1 = (is_flags s)(r := list_flags (is_mem s) (p # is_notify s r))"
    by (rule update_flags_ok [of ?s r cls]) (use ok assms(3,4) in auto)
  have reg: "memory_region_register_iommu_notifier rg cls m p s = Some (Inr s1)"
    unfolding g(2) register_here_def using assms(3,5-8) s1(1) by (simp add: IOMMU_NOTIFIER_NONE_def)
  have fl: "is_flags s1 r = nt_flags n OR is_flags s r" using ok assms(3) by (simp add: s1(5) list_flags_def)
  let ?t = "s1\<lparr>is_notify := (is_notify s1)(r := remove1 p (is_notify s1 r))\<rparr>"
  obtain s2 where s2: "memory_region_update_iommu_notify_flags cls r ?t = Inr s2" "is_notify s2 = is_notify ?t"
      "is_flags s2 = (is_flags s1)(r := list_flags (is_mem s1) (is_notify ?t r))"
    by (rule update_flags_ok [of ?t r cls]) (use ok s1(3,4) in auto)
  have "memory_region_unregister_iommu_notifier rg cls m p s1 = Some (Inr s2)"
    unfolding g(3) using g(1,4) s2(1) s1(3,4) assms(3) by (subst memory_region_unregister_iommu_notifier.simps) simp
  moreover have "is_notify s2 = is_notify s" "is_flags s2 = is_flags s" using ok s1(3-5) s2(2,3) by auto
  moreover {
  have "\<exists>qs. memory_region_notify_iommu rg r idx e s = Inr qs
       \<and> memory_region_notify_iommu rg r idx e s1 = Inr (if nt_idx n = idx \<and> memory_region_notify_one n e then p # qs else qs)" for idx e
    using g(1) notified_ok [of "is_notify s r" "is_mem s" idx e] ok assms(3) s1(3,4) by (simp add: memory_region_notify_iommu_def)
  then have "\<exists>qs. memory_region_notify_iommu rg r idx e s = Inr qs \<and> memory_region_notify_iommu rg r idx e s1 = Inr (if nt_idx n = idx \<and> nt_start n \<le> ulong (tlb_iova e + tlb_addr_mask e) \<and> tlb_iova e \<le> nt_end n \<and> nt_flags n AND (if tlb_perm e AND IOMMU_RW \<noteq> 0 then IOMMU_NOTIFIER_MAP else IOMMU_NOTIFIER_UNMAP) \<noteq> 0 then p # qs else qs)" for idx e
    unfolding notify_one_iff .
  }
  ultimately show ?thesis using reg fl by blast
qed

text \<open>Two IOMMU regions with one index; the notifier at 7 asks for removed mappings.\<close>

definition demo_iommus :: regions where
  "demo_iommus = (\<lambda>_. memory_region_initfn\<lparr>mr_is_iommu := True\<rparr>)"

definition plain_class :: iommu_class where
  "plain_class = \<lparr>ic_flag_changed = False, ic_min_page = None, ic_num_indexes = None\<rparr>"

definition no_notifiers :: iommu_state where
  "no_notifiers = \<lparr>is_notify = (\<lambda>_. []), is_flags = (\<lambda>_. 0), is_mem = Map.empty, is_tcg = Map.empty, is_array = (\<lambda>_. (10, 0)), is_changes = [], is_flushed = []\<rparr>"

theorem iommu_notifier_roundtrip_witness:
  "\<exists>s1 s2. memory_region_register_iommu_notifier demo_iommus (\<lambda>_. plain_class) 0 7 (no_notifiers\<lparr>is_mem := [7 \<mapsto> iommu_notifier_init 1 0 8191 0]\<rparr>) = Some (Inr s1)
    \<and> memory_region_notify_iommu demo_iommus 0 0 \<lparr>tlb_target_as = None, tlb_iova = 4096, tlb_translated_addr = 0, tlb_addr_mask = 4095, tlb_perm = 0\<rparr> s1 = Inr [7]
    \<and> memory_region_unregister_iommu_notifier demo_iommus (\<lambda>_. plain_class) 0 7 s1 = Some (Inr s2) \<and> is_notify s2 0 = []"
proof -
  let ?s = "no_notifiers\<lparr>is_mem := [7 \<mapsto> iommu_notifier_init 1 0 8191 0]\<rparr>"
  let ?n = "iommu_notifier_init 1 0 8191 0"
  let ?e = "\<lparr>tlb_target_as = None, tlb_iova = 4096, tlb_translated_addr = 0, tlb_addr_mask = 4095, tlb_perm = 0\<rparr>"
  have io: "memory_region_get_iommu demo_iommus 0 = Some (Some 0)"
    by (subst memory_region_get_iommu.simps) (simp add: demo_iommus_def memory_region_initfn_def)
  obtain s1 s2 where w: "memory_region_register_iommu_notifier demo_iommus (\<lambda>_. plain_class) 0 7 ?s = Some (Inr s1)"
      "\<And>idx e. \<exists>qs. memory_region_notify_iommu demo_iommus 0 idx e ?s = Inr qs
         \<and> memory_region_notify_iommu demo_iommus 0 idx e s1 = Inr (if nt_idx ?n = idx \<and> nt_start ?n \<le> ulong (tlb_iova e + tlb_addr_mask e) \<and> tlb_iova e \<le> nt_end ?n \<and> nt_flags ?n AND (if tlb_perm e AND IOMMU_RW \<noteq> 0 then IOMMU_NOTIFIER_MAP else IOMMU_NOTIFIER_UNMAP) \<noteq> 0 then 7 # qs else qs)"
      "memory_region_unregister_iommu_notifier demo_iommus (\<lambda>_. plain_class) 0 7 s1 = Some (Inr s2)" "is_notify s2 = is_notify ?s"
    using iommu_notifier_roundtrip [of 0 ?s demo_iommus 0 7 "iommu_notifier_init 1 0 8191 0" "\<lambda>_. plain_class", OF _ io]
    by (auto simp: notify_ok_def list_flags_def no_notifiers_def iommu_notifier_init_def memory_region_iommu_num_indexes_def plain_class_def)
  have "memory_region_notify_iommu demo_iommus 0 0 ?e ?s = Inr []" by (simp add: memory_region_notify_iommu_def demo_iommus_def no_notifiers_def)
  then have "memory_region_notify_iommu demo_iommus 0 0 ?e s1 = Inr [7]" using w(2) [of 0 ?e] by (auto simp: iommu_notifier_init_def ulong_def IOMMU_NOTIFIER_UNMAP_def)
  then show ?thesis using w(1,3,4) by (intro exI [of _ s1] exI [of _ s2]) (simp add: no_notifiers_def)
qed

text \<open>C33: The notifiers of a CPU are elements of an array, and the lists of the IOMMU regions point into it. When the array has to be moved to register the
  CPU with a second IOMMU region, the registration succeeds, but the list of every other region that the CPU was registered with points to freed memory: the next
  notification of such a region, and so the flush of the TLB it asks for, is undefined.\<close>

theorem tcg_notifier_dangles:
  assumes "is_array s cpu = (base, len)" "i < len" "base + i \<in> set (is_notify s q)" "mr_is_iommu (rg q)" "r \<noteq> q"
    and "find_notifier (is_tcg s) r idx base [0..<len] = Inr len" "memory_region_get_iommu rg r = Some (Some r)" "notify_ok r s"
    and "\<forall>p\<in>set (is_notify s r). (p < base \<or> base + len \<le> p) \<and> (p < base' \<or> base' + len < p)" "base' + len < base \<or> base + len \<le> base'"
    and "0 \<le> idx" "idx < memory_region_iommu_num_indexes cls r"
  shows "\<exists>s'. tcg_register_iommu_notifier rg cls base' cpu r idx s = Some (Inr s') \<and> (\<forall>k e. memory_region_notify_iommu rg q k e s' = Inl Undefined)"
proof -
  obtain s' where s': "tcg_register_iommu_notifier rg cls base' cpu r idx s = Some (Inr s')" "is_notify s' = (is_notify s)(r := (base' + len) # is_notify s r)"
      "is_mem s' = (move_cells base base' len (is_mem s))(base' + len \<mapsto> iommu_notifier_init IOMMU_NOTIFIER_UNMAP 0 HWADDR_MAX idx)"
    by (rule tcg_register_new [OF assms(1,6,7), of base' cls]) (use assms(8,9,11,12) in \<open>auto simp: notify_ok_def move_cells_def\<close>)
  have "is_mem s' (base + i) = None" using assms(2,10) by (auto simp: s'(3) move_cells_def)
  then show ?thesis using s'(1,2) assms(3-5) notified_dangling [of "base + i" "is_notify s' q" "is_mem s'"] by (simp add: memory_region_notify_iommu_def)
qed

text \<open>CPU 0 is registered with region 0; its array is at address 10 and is moved to 20.\<close>

definition one_notifier :: iommu_state where
  "one_notifier = no_notifiers\<lparr>is_notify := (\<lambda>_. [])(0 := [10]), is_flags := (\<lambda>_. 0)(0 := 1), is_array := (\<lambda>_. (10, 1)),
     is_mem := [10 \<mapsto> iommu_notifier_init IOMMU_NOTIFIER_UNMAP 0 HWADDR_MAX 0], is_tcg := [10 \<mapsto> \<lparr>tn_mr = 0, tn_cpu = 0, tn_idx = 0, tn_active = True\<rparr>]\<rparr>"

theorem tcg_notifier_dangles_witness:
  "\<exists>s'. tcg_register_iommu_notifier demo_iommus (\<lambda>_. plain_class) 20 0 1 0 one_notifier = Some (Inr s')
    \<and> (\<forall>k e. memory_region_notify_iommu demo_iommus 0 k e s' = Inl Undefined)"
proof -
  have "memory_region_get_iommu demo_iommus 1 = Some (Some 1)"
    by (subst memory_region_get_iommu.simps) (simp add: demo_iommus_def memory_region_initfn_def)
  then show ?thesis
    by (intro tcg_notifier_dangles [of one_notifier 0 10 1 0])
      (simp_all add: one_notifier_def no_notifiers_def demo_iommus_def notify_ok_def list_flags_def memory_region_iommu_num_indexes_def plain_class_def)
qed

end
