(* ===== verification/Debug_Points.thy ===== *)
theory Debug_Points
  imports Pcow_Prelude
begin

text \<open>
  Watchpoints and breakpoints of a CPU (\<open>qemu-diff/exec.c\<close>, system emulation): the lists, in which those of the debugger come first, and the check of a memory access.

  A reference to an element of a list is its position. The values of the \<open>BP_\<close> flags and the callbacks of the CPU class are not in the repository: they are arguments.
  What the operations ask of the rest of QEMU is recorded in order in \<open>cd_calls\<close>; the attributes of the access that a
  watchpoint keeps are left out; \<open>cpu_loop_exit\<close> and \<open>cpu_loop_exit_noexc\<close> do not return.
\<close>

section \<open>Definitions\<close>

record bp_flags =
  bp_MEM_READ :: u32
  bp_HIT_READ :: u32
  bp_HIT_WRITE :: u32
  bp_GDB :: u32
  bp_CPU :: u32
  bp_STOP_BEFORE :: u32

definition bp_HIT :: "bp_flags \<Rightarrow> u32" where "bp_HIT B = bp_HIT_READ B OR bp_HIT_WRITE B"

record CPUWatchpoint =
  wp_vaddr :: int
  wp_len :: int
  wp_flags :: u32
  wp_hitaddr :: int

record CPUBreakpoint =
  bk_pc :: int
  bk_flags :: u32

datatype debug_call = Flush_page int | Invalidate_code int | Flush_all_code | Update_kvm_debug | Interrupt_debug | Tb_check_watchpoint | Loop_exit | Loop_exit_noexc

record cpu_debug =
  cd_watchpoints :: "CPUWatchpoint list"
  cd_breakpoints :: "CPUBreakpoint list"
  cd_hit :: "nat option"
  cd_singlestep :: int
  cd_calls :: "debug_call list"

definition debug_call :: "debug_call \<Rightarrow> cpu_debug \<Rightarrow> cpu_debug" where
  "debug_call c s = s\<lparr>cd_calls := cd_calls s @ [c]\<rparr>"

definition EINVAL :: int where "EINVAL = 22"

definition ENOENT :: int where "ENOENT = 2"

text \<open>The result is the value returned; the new element is the first or the last of the list.\<close>

definition cpu_watchpoint_insert :: "bp_flags \<Rightarrow> int \<Rightarrow> int \<Rightarrow> u32 \<Rightarrow> cpu_debug \<Rightarrow> int \<times> cpu_debug" where
  "cpu_watchpoint_insert B a len flags s =
     (if len = 0 \<or> ulong (a + len - 1) < a then (- EINVAL, s)
      else let wp = \<lparr>wp_vaddr = a, wp_len = len, wp_flags = flags, wp_hitaddr = 0\<rparr>;
               ws = (if flags AND bp_GDB B \<noteq> 0 then wp # cd_watchpoints s else cd_watchpoints s @ [wp])
        in (0, debug_call (Flush_page a) (s\<lparr>cd_watchpoints := ws\<rparr>)))"

definition cpu_watchpoint_remove_by_ref :: "nat \<Rightarrow> cpu_debug \<Rightarrow> cpu_debug" where
  "cpu_watchpoint_remove_by_ref i s =
     debug_call (Flush_page (wp_vaddr (cd_watchpoints s ! i))) (s\<lparr>cd_watchpoints := take i (cd_watchpoints s) @ drop (Suc i) (cd_watchpoints s)\<rparr>)"

text \<open>The first element of a list with a property.\<close>

fun first_pos :: "('a \<Rightarrow> bool) \<Rightarrow> 'a list \<Rightarrow> nat option" where
  "first_pos P [] = None"
| "first_pos P (x # xs) = (if P x then Some 0 else map_option Suc (first_pos P xs))"

definition cpu_watchpoint_remove :: "bp_flags \<Rightarrow> int \<Rightarrow> int \<Rightarrow> u32 \<Rightarrow> cpu_debug \<Rightarrow> int \<times> cpu_debug" where
  "cpu_watchpoint_remove B a len flags s =
     (case first_pos (\<lambda>wp. a = wp_vaddr wp \<and> len = wp_len wp \<and> flags = wp_flags wp AND NOT (bp_HIT B)) (cd_watchpoints s) of
        Some i \<Rightarrow> (0, cpu_watchpoint_remove_by_ref i s)
      | None \<Rightarrow> (- ENOENT, s))"

text \<open>The loop goes on at the element that takes the place of a removed one.\<close>

function watchpoint_remove_from :: "u32 \<Rightarrow> nat \<Rightarrow> cpu_debug \<Rightarrow> cpu_debug" where
  "watchpoint_remove_from msk i s =
     (if \<not> i < length (cd_watchpoints s) then s
      else if wp_flags (cd_watchpoints s ! i) AND msk \<noteq> 0 then watchpoint_remove_from msk i (cpu_watchpoint_remove_by_ref i s)
      else watchpoint_remove_from msk (Suc i) s)"
  by pat_completeness auto
termination
  by (relation "measure (\<lambda>(msk, i, s). length (cd_watchpoints s) - i)") (auto simp: cpu_watchpoint_remove_by_ref_def debug_call_def)

declare watchpoint_remove_from.simps [simp del]

definition cpu_watchpoint_remove_all :: "u32 \<Rightarrow> cpu_debug \<Rightarrow> cpu_debug" where
  "cpu_watchpoint_remove_all msk s = watchpoint_remove_from msk 0 s"

definition cpu_watchpoint_address_matches :: "CPUWatchpoint \<Rightarrow> int \<Rightarrow> int \<Rightarrow> bool" where
  "cpu_watchpoint_address_matches wp a len =
     (let wpend = ulong (wp_vaddr wp + wp_len wp - 1); addrend = ulong (a + len - 1) in \<not> (a > wpend \<or> wp_vaddr wp > addrend))"

definition cpu_breakpoint_insert :: "bp_flags \<Rightarrow> int \<Rightarrow> u32 \<Rightarrow> cpu_debug \<Rightarrow> int \<times> cpu_debug" where
  "cpu_breakpoint_insert B pc flags s =
     (let bp = \<lparr>bk_pc = pc, bk_flags = flags\<rparr>; bs = (if flags AND bp_GDB B \<noteq> 0 then bp # cd_breakpoints s else cd_breakpoints s @ [bp])
      in (0, debug_call (Invalidate_code pc) (s\<lparr>cd_breakpoints := bs\<rparr>)))"

definition cpu_breakpoint_remove_by_ref :: "nat \<Rightarrow> cpu_debug \<Rightarrow> cpu_debug" where
  "cpu_breakpoint_remove_by_ref i s =
     debug_call (Invalidate_code (bk_pc (cd_breakpoints s ! i))) (s\<lparr>cd_breakpoints := take i (cd_breakpoints s) @ drop (Suc i) (cd_breakpoints s)\<rparr>)"

definition cpu_breakpoint_remove :: "int \<Rightarrow> u32 \<Rightarrow> cpu_debug \<Rightarrow> int \<times> cpu_debug" where
  "cpu_breakpoint_remove pc flags s =
     (case first_pos (\<lambda>bp. bk_pc bp = pc \<and> bk_flags bp = flags) (cd_breakpoints s) of
        Some i \<Rightarrow> (0, cpu_breakpoint_remove_by_ref i s)
      | None \<Rightarrow> (- ENOENT, s))"

function breakpoint_remove_from :: "u32 \<Rightarrow> nat \<Rightarrow> cpu_debug \<Rightarrow> cpu_debug" where
  "breakpoint_remove_from msk i s =
     (if \<not> i < length (cd_breakpoints s) then s
      else if bk_flags (cd_breakpoints s ! i) AND msk \<noteq> 0 then breakpoint_remove_from msk i (cpu_breakpoint_remove_by_ref i s)
      else breakpoint_remove_from msk (Suc i) s)"
  by pat_completeness auto
termination
  by (relation "measure (\<lambda>(msk, i, s). length (cd_breakpoints s) - i)") (auto simp: cpu_breakpoint_remove_by_ref_def debug_call_def)

declare breakpoint_remove_from.simps [simp del]

definition cpu_breakpoint_remove_all :: "u32 \<Rightarrow> cpu_debug \<Rightarrow> cpu_debug" where
  "cpu_breakpoint_remove_all msk s = breakpoint_remove_from msk 0 s"

definition cpu_single_step :: "bool \<Rightarrow> int \<Rightarrow> cpu_debug \<Rightarrow> cpu_debug" where
  "cpu_single_step kvm enabled s =
     (if cd_singlestep s = enabled then s
      else debug_call (if kvm then Update_kvm_debug else Flush_all_code) (s\<lparr>cd_singlestep := enabled\<rparr>))"

text \<open>The loop of \<open>check_watchpoint\<close> up to the first watchpoint that is hit; \<open>approve\<close> is \<open>debug_check_watchpoint\<close>. A hit leaves the loop, so
  \<open>watchpoint_hit\<close> is not set inside of it. The result is the list and the position of the hit.\<close>

fun check_list :: "bp_flags \<Rightarrow> (CPUWatchpoint \<Rightarrow> bool) \<Rightarrow> int \<Rightarrow> int \<Rightarrow> u32 \<Rightarrow> CPUWatchpoint list \<Rightarrow> CPUWatchpoint list \<times> nat option" where
  "check_list B approve va len flags [] = ([], None)"
| "check_list B approve va len flags (wp # ws) =
     (let clear = (\<lambda>w. w\<lparr>wp_flags := wp_flags w AND NOT (bp_HIT B)\<rparr>);
          go_on = (\<lambda>w. let (ws', i) = check_list B approve va len flags ws in (w # ws', map_option Suc i))
      in if cpu_watchpoint_address_matches wp va len \<and> wp_flags wp AND flags \<noteq> 0
         then let w1 = wp\<lparr>wp_flags := wp_flags wp OR (if flags = bp_MEM_READ B then bp_HIT_READ B else bp_HIT_WRITE B), wp_hitaddr := va\<rparr>
           in if wp_flags w1 AND bp_CPU B \<noteq> 0 \<and> \<not> approve w1 then go_on (clear w1) else (w1 # ws, Some 0)
         else go_on (clear wp))"

text \<open>\<open>mem_io_vaddr\<close>, the target's page bits and word size and \<open>adjust_watchpoint_address\<close> are arguments; without TCG the function aborts.\<close>

definition check_watchpoint :: "bool \<Rightarrow> bp_flags \<Rightarrow> nat \<Rightarrow> nat \<Rightarrow> (int \<Rightarrow> int \<Rightarrow> int) \<Rightarrow> (CPUWatchpoint \<Rightarrow> bool) \<Rightarrow> int \<Rightarrow> int \<Rightarrow> int \<Rightarrow> u32 \<Rightarrow> cpu_debug \<Rightarrow> cpu_debug res" where
  "check_watchpoint tcg B tpb bits adjust approve mem_io offset len flags s =
     (if \<not> tcg then Inl Assert_failed
      else if cd_hit s \<noteq> None then Inr (debug_call Interrupt_debug s)
      else let va = adjust ((mem_io div 2 ^ tpb * 2 ^ tpb + offset) mod 2 ^ bits) len;
               (ws, hit) = check_list B approve va len flags (cd_watchpoints s);
               s1 = s\<lparr>cd_watchpoints := ws, cd_hit := hit\<rparr>
        in case hit of
            None \<Rightarrow> Inr s1
          | Some i \<Rightarrow> Inr (debug_call (if wp_flags (ws ! i) AND bp_STOP_BEFORE B \<noteq> 0 then Loop_exit else Loop_exit_noexc) (debug_call Tb_check_watchpoint s1)))"

section \<open>Lists of watchpoints\<close>

text \<open>Watchpoints of the debugger come first, and every watchpoint lies in the address space.\<close>

definition debug_ok :: "bp_flags \<Rightarrow> cpu_debug \<Rightarrow> bool" where
  "debug_ok B s \<longleftrightarrow> (\<forall>w\<in>set (cd_watchpoints s). 0 \<le> wp_vaddr w \<and> 0 < wp_len w \<and> wp_vaddr w + wp_len w \<le> 2 ^ 64)
     \<and> sorted_wrt (\<lambda>v w. wp_flags w AND bp_GDB B \<noteq> 0 \<longrightarrow> wp_flags v AND bp_GDB B \<noteq> 0) (cd_watchpoints s)"

lemma first_pos_Some: "first_pos P xs = Some i \<longleftrightarrow> i < length xs \<and> P (xs ! i) \<and> (\<forall>j<i. \<not> P (xs ! j))"
proof (induction xs arbitrary: i)
  case (Cons x xs)
  then show ?case by (cases i) (auto simp: All_less_Suc2)
qed simp

lemma first_pos_None: "first_pos P xs = None \<longleftrightarrow> (\<forall>x\<in>set xs. \<not> P x)"
  by (induction xs) auto

lemma remove_pos:
  assumes "i < length xs"
  shows "set (take i xs @ drop (Suc i) xs) \<subseteq> set xs" "sorted_wrt P xs \<Longrightarrow> sorted_wrt P (take i xs @ drop (Suc i) xs)"
proof -
  have x: "xs = take i xs @ xs ! i # drop (Suc i) xs" using assms by (simp add: Cons_nth_drop_Suc)
  show "set (take i xs @ drop (Suc i) xs) \<subseteq> set xs" by (subst (3) x) auto
  assume "sorted_wrt P xs"
  then have "sorted_wrt P (take i xs @ xs ! i # drop (Suc i) xs)" using x by simp
  then show "sorted_wrt P (take i xs @ drop (Suc i) xs)" by (auto simp: sorted_wrt_append)
qed

lemma watchpoint_insert_ok:
  assumes "debug_ok B s" "0 \<le> a" "a < 2 ^ 64" "0 \<le> len" "len < 2 ^ 64"
  shows "debug_ok B (snd (cpu_watchpoint_insert B a len flags s))"
    "fst (cpu_watchpoint_insert B a len flags s) = (if 0 < len \<and> a + len \<le> 2 ^ 64 then 0 else - EINVAL)"
proof -
  have w: "len = 0 \<or> ulong (a + len - 1) < a \<longleftrightarrow> \<not> (0 < len \<and> a + len \<le> 18446744073709551616)"
  proof (cases "a + len \<le> 18446744073709551616")
    case True
    then have "0 < len \<Longrightarrow> ulong (a + len - 1) = a + len - 1" using assms by (intro ulong_id) simp_all
    then show ?thesis using True assms(4) by (cases "0 < len") auto
  next
    case False
    have "ulong (a + len - 1) = ulong (a + len - 1 - 18446744073709551616)"
      unfolding ulong_def by (rule minus_mod_self2 [symmetric])
    also have "\<dots> = a + len - 1 - 18446744073709551616" using False assms by (intro ulong_id) simp_all
    finally show ?thesis using False assms(5) by simp
  qed
  show "fst (cpu_watchpoint_insert B a len flags s) = (if 0 < len \<and> a + len \<le> 2 ^ 64 then 0 else - EINVAL)"
    unfolding cpu_watchpoint_insert_def w by (simp add: Let_def)
  show "debug_ok B (snd (cpu_watchpoint_insert B a len flags s))"
    unfolding cpu_watchpoint_insert_def w using assms by (auto simp: Let_def debug_ok_def debug_call_def sorted_wrt_append)
qed

lemma watchpoint_remove_ok: "debug_ok B s \<Longrightarrow> i < length (cd_watchpoints s) \<Longrightarrow> debug_ok B (cpu_watchpoint_remove_by_ref i s)"
  using remove_pos [of i "cd_watchpoints s"] by (auto simp: debug_ok_def cpu_watchpoint_remove_by_ref_def debug_call_def)

text \<open>Removing all watchpoints with a flag leaves the others in order.\<close>

lemma watchpoint_remove_from_filter:
  "cd_watchpoints (watchpoint_remove_from msk i s) = take i (cd_watchpoints s) @ filter (\<lambda>w. wp_flags w AND msk = 0) (drop i (cd_watchpoints s))"
proof (induction msk i s rule: watchpoint_remove_from.induct)
  case (1 msk i s)
  show ?case
  proof (cases "i < length (cd_watchpoints s)")
    case True
    then have d: "drop i (cd_watchpoints s) = cd_watchpoints s ! i # drop (Suc i) (cd_watchpoints s)" by (simp add: Cons_nth_drop_Suc)
    show ?thesis using True 1 d
      by (subst watchpoint_remove_from.simps) (auto simp: cpu_watchpoint_remove_by_ref_def debug_call_def take_Suc_conv_app_nth)
  qed (subst watchpoint_remove_from.simps, simp)
qed

lemma remove_all_filter: "cd_watchpoints (cpu_watchpoint_remove_all msk s) = filter (\<lambda>w. wp_flags w AND msk = 0) (cd_watchpoints s)"
  by (simp add: cpu_watchpoint_remove_all_def watchpoint_remove_from_filter)

text \<open>What was inserted is removed again.\<close>

lemma watchpoint_insert_remove:
  assumes "debug_ok B s" "0 \<le> a" "0 < len" "a + len \<le> 2 ^ 64" "flags AND bp_HIT B = 0"
    and "\<forall>w\<in>set (cd_watchpoints s). \<not> (a = wp_vaddr w \<and> len = wp_len w \<and> flags = wp_flags w AND NOT (bp_HIT B))"
  shows "\<exists>s1 s2. cpu_watchpoint_insert B a len flags s = (0, s1) \<and> cpu_watchpoint_remove B a len flags s1 = (0, s2) \<and> cd_watchpoints s2 = cd_watchpoints s"
proof -
  let ?w = "\<lparr>wp_vaddr = a, wp_len = len, wp_flags = flags, wp_hitaddr = 0\<rparr>"
  let ?P = "\<lambda>wp. a = wp_vaddr wp \<and> len = wp_len wp \<and> flags = wp_flags wp AND NOT (bp_HIT B)"
  have "(flags AND bp_HIT B) OR (flags AND NOT (bp_HIT B)) = flags" by (simp flip: bit.conj_disj_distrib)
  then have f: "flags AND NOT (bp_HIT B) = flags" using assms(5) by simp
  obtain s1 where s1: "cpu_watchpoint_insert B a len flags s = (0, s1)" "cd_watchpoints s1 = (if flags AND bp_GDB B \<noteq> 0 then ?w # cd_watchpoints s else cd_watchpoints s @ [?w])"
  proof -
    have "ulong (a + len - 1) = a + len - 1" using assms by (intro ulong_id) simp_all
    then show thesis using that assms(3) by (simp add: cpu_watchpoint_insert_def Let_def debug_call_def)
  qed
  have "first_pos ?P (cd_watchpoints s @ [?w]) = Some (length (cd_watchpoints s))" using assms(6) f by (auto simp: first_pos_Some nth_append)
  then show ?thesis using s1 f by (auto simp: cpu_watchpoint_remove_def cpu_watchpoint_remove_by_ref_def debug_call_def)
qed

section \<open>Properties\<close>

lemma matches_overlap:
  assumes "0 \<le> wp_vaddr w" "0 < wp_len w" "wp_vaddr w + wp_len w \<le> 2 ^ 64" "0 \<le> a" "0 < len" "a + len \<le> 2 ^ 64"
  shows "cpu_watchpoint_address_matches w a len \<longleftrightarrow> (\<exists>b. wp_vaddr w \<le> b \<and> b < wp_vaddr w + wp_len w \<and> a \<le> b \<and> b < a + len)"
proof -
  have u: "ulong (wp_vaddr w + wp_len w - 1) = wp_vaddr w + wp_len w - 1" "ulong (a + len - 1) = a + len - 1" using assms by (simp_all add: ulong_id)
  have "(\<exists>b. wp_vaddr w \<le> b \<and> b < wp_vaddr w + wp_len w \<and> a \<le> b \<and> b < a + len) \<longleftrightarrow> a < wp_vaddr w + wp_len w \<and> wp_vaddr w < a + len" (is "?l \<longleftrightarrow> ?r")
  proof
    assume ?r
    then show ?l using assms by (intro exI [of _ "max a (wp_vaddr w)"]) auto
  qed auto
  then show ?thesis unfolding cpu_watchpoint_address_matches_def Let_def u by auto
qed

text \<open>The watchpoints an access may trip: it is of a kind that is watched, and the CPU approves when the watchpoint is its own.\<close>

definition marked :: "bp_flags \<Rightarrow> int \<Rightarrow> u32 \<Rightarrow> CPUWatchpoint \<Rightarrow> CPUWatchpoint" where
  "marked B va flags w = w\<lparr>wp_flags := wp_flags w OR (if flags = bp_MEM_READ B then bp_HIT_READ B else bp_HIT_WRITE B), wp_hitaddr := va\<rparr>"

definition watches :: "bp_flags \<Rightarrow> (CPUWatchpoint \<Rightarrow> bool) \<Rightarrow> int \<Rightarrow> u32 \<Rightarrow> CPUWatchpoint \<Rightarrow> bool" where
  "watches B approve va flags w \<longleftrightarrow> wp_flags w AND flags \<noteq> 0 \<and> (wp_flags (marked B va flags w) AND bp_CPU B \<noteq> 0 \<longrightarrow> approve (marked B va flags w))"

lemma check_list_first:
  "snd (check_list B approve va len flags ws) = first_pos (\<lambda>w. cpu_watchpoint_address_matches w va len \<and> watches B approve va flags w) ws"
  by (induction ws) (auto simp: Let_def watches_def marked_def split_beta)

lemma check_list_hit: "snd (check_list B approve va len flags ws) = Some i \<Longrightarrow> fst (check_list B approve va len flags ws) ! i = marked B va flags (ws ! i)"
  by (induction ws arbitrary: i) (auto simp: Let_def marked_def split_beta split: if_splits)

lemma first_pos_cong: "(\<And>x. x \<in> set xs \<Longrightarrow> P x \<longleftrightarrow> Q x) \<Longrightarrow> first_pos P xs = first_pos Q xs"
  by (induction xs) auto

text \<open>An access of memory under a watched page trips the first watchpoint in the list that has a byte in common with it, watches this kind of access and, if it belongs to the
  CPU, is approved by it; debugger watchpoints come first. The watchpoint is marked with the address and its kind and the CPU leaves its loop; with no such watchpoint it goes on, with no
  call made. This holds up to the end of the address space.\<close>

theorem first_watchpoint_hit:
  assumes "debug_ok B s" "cd_hit s = None" "va = adjust ((mem_io div 2 ^ tpb * 2 ^ tpb + offset) mod 2 ^ bits) len" "0 \<le> va" "0 < len" "va + len \<le> 2 ^ 64"
  shows "\<exists>s'. check_watchpoint True B tpb bits adjust approve mem_io offset len flags s = Inr s'
    \<and> cd_hit s' = first_pos (\<lambda>w. (\<exists>b. wp_vaddr w \<le> b \<and> b < wp_vaddr w + wp_len w \<and> va \<le> b \<and> b < va + len) \<and> watches B approve va flags w) (cd_watchpoints s)
    \<and> (case cd_hit s' of None \<Rightarrow> cd_calls s' = cd_calls s
       | Some i \<Rightarrow> cd_watchpoints s' ! i = marked B va flags (cd_watchpoints s ! i)
           \<and> cd_calls s' = cd_calls s @ [Tb_check_watchpoint, if wp_flags (marked B va flags (cd_watchpoints s ! i)) AND bp_STOP_BEFORE B \<noteq> 0 then Loop_exit else Loop_exit_noexc])"
proof -
  obtain ws hit where c: "check_list B approve va len flags (cd_watchpoints s) = (ws, hit)" by fastforce
  have hit: "hit = first_pos (\<lambda>w. (\<exists>b. wp_vaddr w \<le> b \<and> b < wp_vaddr w + wp_len w \<and> va \<le> b \<and> b < va + len) \<and> watches B approve va flags w) (cd_watchpoints s)"
    using check_list_first [of B approve va len flags "cd_watchpoints s", unfolded c] assms(1,4-6)
    by (simp add: debug_ok_def matches_overlap cong: first_pos_cong)
  have ck: "check_watchpoint True B tpb bits adjust approve mem_io offset len flags s
      = (case hit of None \<Rightarrow> Inr (s\<lparr>cd_watchpoints := ws, cd_hit := hit\<rparr>)
         | Some i \<Rightarrow> Inr (debug_call (if wp_flags (ws ! i) AND bp_STOP_BEFORE B \<noteq> 0 then Loop_exit else Loop_exit_noexc) (debug_call Tb_check_watchpoint (s\<lparr>cd_watchpoints := ws, cd_hit := hit\<rparr>))))"
    unfolding check_watchpoint_def assms(3) [symmetric] Let_def c prod.case using assms(2) by simp
  show ?thesis
  proof (cases hit)
    case None
    then show ?thesis unfolding ck hit [symmetric] by simp
  next
    case (Some i)
    then have "ws ! i = marked B va flags (cd_watchpoints s ! i)" using check_list_hit [of B approve va len flags "cd_watchpoints s" i] c by simp
    then show ?thesis unfolding ck hit [symmetric] using Some by (simp add: debug_call_def)
  qed
qed

text \<open>A watchpoint for writes at the very end of the address space.\<close>

definition demo_bp :: bp_flags where
  "demo_bp = \<lparr>bp_MEM_READ = 1, bp_HIT_READ = 64, bp_HIT_WRITE = 128, bp_GDB = 16, bp_CPU = 32, bp_STOP_BEFORE = 4\<rparr>"

definition demo_debug :: cpu_debug where
  "demo_debug = \<lparr>cd_watchpoints = [\<lparr>wp_vaddr = 2 ^ 64 - 8, wp_len = 8, wp_flags = 18, wp_hitaddr = 0\<rparr>], cd_breakpoints = [], cd_hit = None, cd_singlestep = 0, cd_calls = []\<rparr>"

theorem first_watchpoint_hit_witness:
  "\<exists>s'. check_watchpoint True demo_bp 12 64 (\<lambda>a _. a) (\<lambda>_. True) (2 ^ 64 - 4) 4092 4 2 demo_debug = Inr s' \<and> cd_hit s' = Some 0"
proof -
  have "\<exists>b. (18446744073709551608 :: int) \<le> b \<and> b < 18446744073709551616 \<and> 18446744073709551612 \<le> b" by (rule exI [of _ 18446744073709551612]) simp
  then show ?thesis
    using first_watchpoint_hit [of demo_bp demo_debug "2 ^ 64 - 4" "\<lambda>a _. a" "2 ^ 64 - 4" 12 4092 64 4 "\<lambda>_. True" 2]
    by (auto simp: debug_ok_def demo_debug_def watches_def)
qed

end
