(* ===== verification/Spec2Isabelle.thy ===== *)
theory Spec2Isabelle
  imports Manager Profiler Address_Inv Guest_Image Guest_Map Thread_Sync Numa Page_Touch Region_Find Listeners Ram_Discard Iommu_Notify Debug_Points
begin

text \<open>
  \<^bold>\<open>A verification of qemu-pcow\<close>

  qemu-pcow stores the RAM of a virtual machine in an image file on persistent memory, with snapshots and
  copy-on-write done by mapping pages. It has a small library (\<open>meta.c\<close>, \<open>pcow.c\<close>, \<open>cow.c\<close>, \<open>manager.c\<close>,
  \<open>profiler.c\<close>), a command-line tool (\<open>tools/pcow-img.c\<close>) and patched files of QEMU (\<open>qemu-diff/\<close>) that make the
  library the backend of guest RAM. This library of theories models these parts function by function and
  proves what makes each of them correct, or exhibits where the code does not do what it means to.

  \<^bold>\<open>How the parts interact.\<close> An image is a chain of layers in a file: a super block, segments of a meta block and
  its data blocks, and the next layer behind. \<open>fmmap\<close> maps all layers over one region, the last one writable.
  A write to a page of an older layer raises SIGSEGV, which \<open>cow_handler\<close> serves by copying to a new block of
  the last layer; an access to a page that is nowhere is served by the userfault monitor \<open>uf_monitor\<close>. Both take
  blocks from a ring that a thread fills ahead of time. The manager creates, snapshots and rolls back images.
  In QEMU a memory backend creates a RAM region, which gets a RAM block, which is mapped by \<open>qemu_ram_mmap\<close> and
  so by \<open>fmmap\<close>; regions form a graph that is rendered into flat views for each address space, a view is entered
  into a radix tree of pages, and accesses are dispatched to the region found there: a read or write of the guest is cut into
  pieces that each go to the host memory of a RAM block or to the callbacks of a device. Before a guest starts its RAM is divided
  between NUMA nodes and may be touched page by page by threads, which are created with SIGSEGV unblocked so that \<open>cow_handler\<close> runs in them.

  \<^bold>\<open>The theories.\<close> Each opens with what it holds and how its state stands for the C state.

  \<^item> \<open>Pcow_Prelude\<close>: C integers, outcomes of C functions (\<open>res\<close>, with a failed assertion, a signal or undefined
    behaviour as \<open>Inl\<close>), byte images of words, and the rule collections.
  \<^item> \<open>Pm_File\<close>: files as byte functions with a size, the loads and stores on them (interface \<open>cell_store\<close>).
    \<open>Host_Vm\<close>: the page map of the process, \<open>mmap\<close>, \<open>mprotect\<close>, \<open>mremap\<close>, \<open>munmap\<close> and page copies.
  \<^item> \<open>Meta_Block\<close> (\<open>meta.c\<close> to line 215, \<open>meta.h\<close>): reading and creating super and meta blocks. \<open>Image_Spec\<close>: what it means
    that a file is an image with given layers (\<open>image_rel\<close>). \<open>Block_Alloc\<close> (\<open>meta.c\<close>, the rest): block allocation in both
    builds. \<open>Block_Refine\<close>, \<open>Block_Source\<close>: both refine the image, as interpretations of \<open>block_source\<close>.
    \<open>Sample_Image\<close>, \<open>Image_Frame\<close>: images for witnesses, and what may be written without changing an image.
    \<open>Prealloc\<close>: the thread and a consumer interleaved, as a step relation with its invariant and liveness.
  \<^item> \<open>Cow_Table\<close> (\<open>cow.c\<close>, \<open>cow.h\<close>): the table of partly copied blocks (interface \<open>partial_table\<close>) and the lists of recent copies.
  \<^item> \<open>Fmmap\<close> and \<open>Fault_Handler\<close> (\<open>pcow.c\<close>): mapping an image and the two fault handlers.
  \<^item> \<open>Manager\<close> (\<open>manager.c\<close>, \<open>tools/pcow-img.c\<close>, \<open>print_struct\<close>) and \<open>Profiler\<close> (\<open>profiler.c\<close>).
  \<^item> \<open>Flat_View\<close>, \<open>Flat_Render\<close>, \<open>Flat_Simplify\<close> (\<open>qemu-diff/memory.c\<close>): rendering a region graph and its correctness against
    the direct reading \<open>region_at\<close> of the graph. \<open>Topology_Pass\<close>, \<open>Ioeventfd\<close>: what listeners are told.
    \<open>Address_Space\<close>, \<open>Address_Inv\<close>: shared views with reference counts, transactions, changes of regions. \<open>Region_Find\<close>: finding the memory in a range.
    \<open>Listeners\<close>: registration of listeners, dirty-log synchronisation, coalesced MMIO.
    \<open>Memory_Access\<close>, \<open>Byte_Device\<close>: accesses and their byte order, for any device that is a byte array (interfaces
    \<open>byte_device\<close>, \<open>device_ops\<close>, interpreted on the RAM device).
  \<^item> \<open>Phys_Map\<close>, \<open>Phys_Dispatch\<close>, \<open>Phys_Compact\<close>, \<open>Dispatch_View\<close> (\<open>qemu-diff/exec.c\<close>): the radix tree of pages, sections and subpages,
    compacting the tree, and the translation of addresses, refined against the flat view and the graph.
  \<^item> \<open>Ram_Blocks\<close>, \<open>Ram_Inv\<close> (\<open>qemu-diff/exec.c\<close>): RAM blocks and the invariant of their list. \<open>Dirty_Memory\<close>: testing, clearing and
    snapshots of the dirty pages. \<open>Ram_Discard\<close>: discarding and remapping parts of blocks. \<open>Ram_Backend\<close>, \<open>Ram_Image\<close>
    (\<open>backends/hostmem-file.c\<close>, \<open>memory.c\<close>, \<open>exec.c\<close>, \<open>util/mmap-alloc.c\<close>): from the backend object down to \<open>fmmap\<close>, and what guest RAM
    shows in the end.
  \<^item> \<open>Guest_Access\<close>, \<open>Guest_Ram\<close> (\<open>qemu-diff/exec.c\<close>, \<open>include/exec/memory.h\<close>): translation of guest addresses with IOMMUs, the loops that read and write
    guest memory, and what they do on RAM. \<open>Guest_Image\<close>: the same down to the bytes of the image. \<open>Guest_Map\<close>: direct mappings,
    the bounce buffer and its clients, cached translations. \<open>Iommu_Notify\<close>: notifiers of IOMMU regions. \<open>Debug_Points\<close>: watchpoints and breakpoints.
  \<^item> \<open>Thread_Sync\<close> (\<open>util/qemu-thread-posix.c\<close>): events and semaphores as interleaved steps of threads, deadlines, signal masks. \<open>Page_Touch\<close>
    (\<open>util/oslib-posix.c\<close>): preallocation. \<open>Numa\<close> (\<open>numa.c\<close>): nodes, distances, the division of the RAM and the system memory.

  \<^bold>\<open>What the theorems show.\<close> For the image: allocation appends exactly one entry and never hands out a block twice, in
  every interleaving; a waiting consumer is served while there is room. For the mapping: a mapped image shows
  the overlay of its layers, a copy-on-write fault changes no byte the guest can see and makes the page
  writable, a missing page reads as zeros. For the manager: snapshot appends an empty layer, rollback keeps
  exactly a prefix, and each operation refuses what it should. For QEMU: rendering is total on acyclic graphs
  and answers like the graph, a committed transaction brings every address space up to date, listeners follow
  exactly, also when they come, go and are told of coalesced ranges, a lookup of a range finds the first memory in it, IOMMU notifiers are called exactly for what they ask for, an access trips the first watchpoint it meets, the dispatch translates every address as the graph says whatever was looked up before, the nodes reserved for
  a range of pages are enough, an access returns the bytes in target order, RAM blocks never overlap and are found again, a snapshot of dirty pages answers
  like the bitmap it was taken from, and a
  pcow backend gives guest RAM that is the image; a guest reads from RAM what it wrote, and from a pcow backend the bytes of
  the image, through every layer from the address space down to the file; a mapping of guest RAM is the RAM itself. Events and
  semaphores lose no wake-up in any interleaving, every page is touched exactly once, and the RAM of the nodes adds up to
  that of the machine. Other theorems state errors of the code: they are named in
  the findings of the manifest.

  \<^bold>\<open>Bounds and fuel.\<close> Loops with a bound are structural or have a measure. \<open>partial_function\<close> is used where C can run for
  ever (chains of super blocks, waiting for the ring, base images of base images, the pieces of a guest access and the
  chain of IOMMUs); the theorems prove that a value is returned on well-formed images and on RAM. The fuel of \<open>render_memory_region\<close> and of the address spaces bounds the
  depth of the region graph: any rank of an acyclic graph (\<open>ranked\<close>) below the fuel is enough, and this is a
  hypothesis of every theorem that needs it. \<open>phys_page_compact\<close> recurses once for each level of the tree, so the number of levels is its fuel. C integers are kept in range by \<open>cint\<close>, \<open>uint32\<close> and \<open>ulong\<close>, or are
  words; the hypotheses state sizes that a real image meets (\<open>wf_bs\<close>, \<open>wf_file\<close>).

  \<^bold>\<open>Arguments instead of code.\<close> Addresses the kernel chooses, answers of the host and of parts of QEMU that are not in the
  repository are arguments of the definitions, with hypotheses where a theorem relies on them.

  \<^bold>\<open>Not modelled.\<close> Timing and output (\<open>printf\<close>, monitor listings), page flushing as an effect (stores are durable in program
  order), more than one consumer at a time beyond what the locks serialise, signal delivery; of \<open>numa.c\<close> the option visitors and the monitor
  queries of backends, of \<open>qemu-thread-posix.c\<close> the wrappers of mutexes and condition variables, the host's semaphores and exit notifiers,
  of \<open>oslib-posix.c\<close> what is not RAM or preallocation; of \<open>memory.c\<close> and \<open>exec.c\<close> the regions for clean and watched pages, user-mode accesses and the CPU
  life cycle: they are upstream code that pcow neither changes nor calls.
\<close>

end
